(* ===== verification/Prelude.thy ===== *)
theory Prelude
  imports Main "HOL-Library.Word"
begin

text \<open>
  Shared vocabulary of the development: the machine integer types of the C++ code, the
  faults a C++ execution can end in, the sequencing operator for fallible code, the
  little-endian byte codec behind every multi-byte value on the wire, and bounded reads
  and writes of byte arrays. Lemma collections used by the component theories are
  declared here.
\<close>

section \<open>Types\<close>

type_synonym u8 = "8 word"
type_synonym u16 = "16 word"
type_synonym u32 = "32 word"
type_synonym u64 = "64 word"
type_synonym bytes = "8 word list"

text \<open>
  Every way a modelled operation can fail: C++ exceptions, a failed \<open>assert\<close> or a call of
  \<open>std::abort\<close>, and undefined behaviour, split by its cause. \<open>Ill_typed\<close> is a call that
  the C++ type checker refuses, \<open>Not_compilable\<close> a \<open>static_assert(false)\<close> branch.
\<close>

datatype fault =
    Out_of_range
  | Length_error
  | Bad_expected_access
  | Assert_failed
  | Aborted
  | Ub_null_deref
  | Ub_out_of_bounds
  | Ub_overflow
  | Ub_invalid_bool
  | Ub_wrong_alternative
  | Ub_division_by_zero
  | Ill_typed
  | Not_compilable

text \<open>The faults that are undefined behaviour of a memory access or of integer arithmetic.\<close>

definition memory_ub :: "fault \<Rightarrow> bool" where
  "memory_ub f = (f = Ub_null_deref \<or> f = Ub_out_of_bounds \<or> f = Ub_overflow)"

section \<open>Sequencing of fallible operations\<close>

definition andthen :: "'e + 'a \<Rightarrow> ('a \<Rightarrow> 'e + 'b) \<Rightarrow> 'e + 'b" where
  "andthen m f = (case m of Inl e \<Rightarrow> Inl e | Inr x \<Rightarrow> f x)"

definition check :: "fault \<Rightarrow> bool \<Rightarrow> fault + unit" where
  "check e b = (if b then Inr () else Inl e)"

lemma andthen_simps [simp]:
  "andthen (Inl e) f = Inl e"
  "andthen (Inr x) f = f x"
  by (simp_all add: andthen_def)

lemma andthen_cong [fundef_cong]:
  assumes "m = m'" and "\<And>x. m' = Inr x \<Longrightarrow> f x = g x"
  shows "andthen m f = andthen m' g"
  using assms by (simp add: andthen_def split: sum.split)

lemma andthen_Inr_iff: "andthen m f = Inr y \<longleftrightarrow> (\<exists>x. m = Inr x \<and> f x = Inr y)"
  by (simp add: andthen_def split: sum.split)

lemma andthen_Inl_iff:
  "andthen m f = Inl e \<longleftrightarrow> m = Inl e \<or> (\<exists>x. m = Inr x \<and> f x = Inl e)"
  by (auto simp add: andthen_def split: sum.split)

lemma andthen_assoc: "andthen (andthen m f) g = andthen m (\<lambda>x. andthen (f x) g)"
  by (simp add: andthen_def split: sum.split)

lemma andthen_Inr_right [simp]: "andthen m Inr = m"
  by (simp add: andthen_def split: sum.split)

lemma check_simps [simp]:
  "check e True = Inr ()"
  "check e False = Inl e"
  by (simp_all add: check_def)

lemma check_Inr_iff [simp]: "check e b = Inr u \<longleftrightarrow> b"
  by (simp add: check_def)

lemma check_Inl_iff [simp]: "check e b = Inl f \<longleftrightarrow> \<not> b \<and> f = e"
  by (auto simp add: check_def)

lemmas andthen_iff = andthen_Inr_iff andthen_Inl_iff

text \<open>
  Computations that may also not end (the value \<open>None\<close>), sequenced the same way.
\<close>

definition seq_opt :: "('e + 'a) option \<Rightarrow> ('a \<Rightarrow> ('e + 'b) option) \<Rightarrow> ('e + 'b) option" where
  "seq_opt m f = (case m of None \<Rightarrow> None | Some (Inl e) \<Rightarrow> Some (Inl e) | Some (Inr x) \<Rightarrow> f x)"

lemma seq_opt_simps [simp]:
  "seq_opt None f = None"
  "seq_opt (Some (Inl e)) f = Some (Inl e)"
  "seq_opt (Some (Inr x)) f = f x"
  by (simp_all add: seq_opt_def)

section \<open>Machine arithmetic on int64_t\<close>

text \<open>
  \<open>int64_t\<close> positions are \<open>int\<close>s; \<open>in_i64\<close> says that the value fits, \<open>to_i64\<close> is the
  conversion of an arbitrary (for example unsigned) result to \<open>int64_t\<close>, \<open>to_u64\<close> the
  conversion to \<open>uint64_t\<close> or \<open>size_t\<close>.
\<close>

definition in_i64 :: "int \<Rightarrow> bool" where
  "in_i64 x = (- 9223372036854775808 \<le> x \<and> x < 9223372036854775808)"

definition to_u64 :: "int \<Rightarrow> int" where
  "to_u64 x = x mod 18446744073709551616"

definition to_i64 :: "int \<Rightarrow> int" where
  "to_i64 x = (x + 9223372036854775808) mod 18446744073709551616 - 9223372036854775808"

lemma to_u64_id [simp]: "0 \<le> x \<Longrightarrow> x < 18446744073709551616 \<Longrightarrow> to_u64 x = x"
  by (simp add: to_u64_def)

lemma to_i64_id: "in_i64 x \<Longrightarrow> to_i64 x = x"
  by (simp add: to_i64_def in_i64_def)

lemma to_i64_to_u64 [simp]: "to_i64 (to_u64 x) = to_i64 x"
  unfolding to_i64_def to_u64_def by (simp only: mod_add_left_eq)

lemma to_i64_u64_roundtrip: "in_i64 x \<Longrightarrow> to_i64 (to_u64 x) = x"
  by (simp add: to_i64_id)

lemma in_i64_to_i64 [simp]: "in_i64 (to_i64 x)"
proof -
  have "0 \<le> (x + 9223372036854775808) mod 18446744073709551616"
    and "(x + 9223372036854775808) mod 18446744073709551616 < 18446744073709551616"
    by simp_all
  then show ?thesis by (simp add: to_i64_def in_i64_def)
qed

section \<open>Little-endian byte codec\<close>

fun le_bytes :: "nat \<Rightarrow> nat \<Rightarrow> bytes" where
  "le_bytes 0 v = []"
| "le_bytes (Suc n) v = word_of_nat v # le_bytes n (v div 256)"

fun of_le :: "bytes \<Rightarrow> nat" where
  "of_le [] = 0"
| "of_le (b # bs) = unat b + 256 * of_le bs"

lemma length_le_bytes [simp]: "length (le_bytes n v) = n"
  by (induction n arbitrary: v) simp_all

lemma le_bytes_numeral [simp]:
  "le_bytes (numeral k) v = word_of_nat v # le_bytes (pred_numeral k) (v div 256)"
  by (subst numeral_eq_Suc) (simp only: le_bytes.simps)

lemma unat_of_nat_u8: "unat (word_of_nat v :: u8) = v mod 256"
  by (simp add: unat_of_nat)

lemma unat_u8_less [simp]: "unat (b :: u8) < 256"
proof -
  have "unat b < 2 ^ LENGTH(8)" by (rule unsigned_less)
  then show ?thesis by simp
qed

lemma of_le_le_bytes: "of_le (le_bytes n v) = v mod 256 ^ n"
proof (induction n arbitrary: v)
  case 0
  then show ?case by simp
next
  case (Suc n)
  have "v mod 256 + 256 * (v div 256 mod 256 ^ n) = v mod (256 * 256 ^ n)"
    by (simp add: mod_mult2_eq)
  with Suc show ?case by (simp add: unat_of_nat_u8)
qed

lemma of_le_le_bytes_id [simp]: "v < 256 ^ n \<Longrightarrow> of_le (le_bytes n v) = v"
  by (simp add: of_le_le_bytes)

lemma digit_bound: "m < k \<Longrightarrow> b < 256 \<Longrightarrow> b + 256 * m < 256 * k" for m k b :: nat
  by linarith

lemma of_le_bound: "of_le bs < 256 ^ length bs"
  by (induction bs) (simp_all add: digit_bound)

lemma le_bytes_of_le [simp]: "le_bytes (length bs) (of_le bs) = bs"
proof (induction bs)
  case Nil
  then show ?case by simp
next
  case (Cons b bs)
  have "unat (word_of_nat (unat b + 256 * of_le bs) :: u8) = unat b"
    by (simp only: unat_of_nat_u8) simp
  then have "(word_of_nat (unat b + 256 * of_le bs) :: u8) = b"
    by (simp only: word_unat_eq_iff)
  moreover have "(unat b + 256 * of_le bs) div 256 = of_le bs" by simp
  ultimately show ?case using Cons by (simp only: length_Cons of_le.simps le_bytes.simps)
qed

lemma le_bytes_mod: "le_bytes n (v mod 256 ^ n) = le_bytes n v"
  using le_bytes_of_le [of "le_bytes n v"] by (simp add: of_le_le_bytes)

section \<open>Bounded reads and writes of byte arrays\<close>

text \<open>
  \<open>memcpy\<close> into or out of an array at an offset: touching a byte outside the array is
  undefined behaviour.
\<close>

definition mem_write :: "'b list \<Rightarrow> int \<Rightarrow> 'b list \<Rightarrow> fault + 'b list" where
  "mem_write buf pos bs =
     (if 0 \<le> pos \<and> pos + int (length bs) \<le> int (length buf)
      then Inr (take (nat pos) buf @ bs @ drop (nat pos + length bs) buf)
      else Inl Ub_out_of_bounds)"

definition mem_read :: "'b list \<Rightarrow> int \<Rightarrow> nat \<Rightarrow> fault + 'b list" where
  "mem_read buf pos n =
     (if 0 \<le> pos \<and> pos + int n \<le> int (length buf)
      then Inr (take n (drop (nat pos) buf))
      else Inl Ub_out_of_bounds)"

lemma mem_read_ok:
  "0 \<le> pos \<Longrightarrow> pos + int n \<le> int (length buf) \<Longrightarrow>
   mem_read buf pos n = Inr (take n (drop (nat pos) buf))"
  by (simp add: mem_read_def)

lemma mem_write_ok:
  "0 \<le> pos \<Longrightarrow> pos + int (length bs) \<le> int (length buf) \<Longrightarrow>
   mem_write buf pos bs = Inr (take (nat pos) buf @ bs @ drop (nat pos + length bs) buf)"
  by (simp add: mem_write_def)

text \<open>The look-up by index: an index outside the array is undefined behaviour.\<close>

definition at_index :: "'a list \<Rightarrow> nat \<Rightarrow> fault + 'a" where
  "at_index xs i = (if i < length xs then Inr (xs ! i) else Inl Ub_out_of_bounds)"

lemma at_index_ok: "i < length xs \<Longrightarrow> at_index xs i = Inr (xs ! i)"
  by (simp add: at_index_def)

text \<open>
  \<open>put buf p bs\<close> is the array after the bytes \<open>bs\<close> were stored at offset \<open>p\<close>;
  \<open>holds buf p bs\<close> says that they are there.
\<close>

definition put :: "'b list \<Rightarrow> nat \<Rightarrow> 'b list \<Rightarrow> 'b list" where
  "put buf p bs = take p buf @ bs @ drop (p + length bs) buf"

definition holds :: "'b list \<Rightarrow> nat \<Rightarrow> 'b list \<Rightarrow> bool" where
  "holds buf p bs = (p + length bs \<le> length buf \<and> take (length bs) (drop p buf) = bs)"

lemma length_put [simp]: "p + length bs \<le> length buf \<Longrightarrow> length (put buf p bs) = length buf"
  by (simp add: put_def)

lemma put_Nil [simp]: "put buf p [] = buf"
  by (simp add: put_def)

lemma put_append:
  assumes "p + length bs + length cs \<le> length buf"
  shows "put (put buf p bs) (p + length bs) cs = put buf p (bs @ cs)"
  using assms by (simp add: put_def ac_simps)

lemma holds_put [simp]: "p + length bs \<le> length buf \<Longrightarrow> holds (put buf p bs) p bs"
  by (simp add: put_def holds_def)

lemma holds_append [simp]:
  "holds buf p (bs @ cs) \<longleftrightarrow> holds buf p bs \<and> holds buf (p + length bs) cs"
proof -
  have "take (length bs + length cs) (drop p buf) =
        take (length bs) (drop p buf) @ take (length cs) (drop (p + length bs) buf)"
    by (simp add: take_add add.commute)
  then show ?thesis by (auto simp: holds_def)
qed

lemma holds_Nil [simp]: "holds buf p [] \<longleftrightarrow> p \<le> length buf"
  by (simp add: holds_def)

lemma holds_whole [simp]: "holds bs 0 bs"
  by (simp add: holds_def)

end
