(* ===== verification/Spdlog_Common.thy ===== *)
theory Spdlog_Common
  imports Prelude
begin

text \<open>
  The data of the logging library (\<open>common.h\<close>, \<open>common-inl.h\<close>, \<open>details/log_msg*.h\<close>,
  \<open>mdc.h\<close>): levels and their names, source locations, the log message and its buffered copy,
  and the mapped diagnostic context. A \<open>string_view\<close> is the string it shows; a time point is a
  number of nanoseconds since the epoch.
\<close>

section \<open>Levels\<close>

datatype level_enum = trace | debug | info | warn | err | critical | off | n_levels

fun level_int :: "level_enum \<Rightarrow> nat" where
  "level_int trace = 0"
| "level_int debug = 1"
| "level_int info = 2"
| "level_int warn = 3"
| "level_int err = 4"
| "level_int critical = 5"
| "level_int off = 6"
| "level_int n_levels = 7"

text \<open>Levels are compared as the integers they are.\<close>

lemma level_int_inject: "level_int a = level_int b \<Longrightarrow> a = b"
  by (cases a; cases b) simp_all

instantiation level_enum :: linorder
begin

definition less_eq_level_enum :: "level_enum \<Rightarrow> level_enum \<Rightarrow> bool" where
  "less_eq_level_enum a b = (level_int a \<le> level_int b)"

definition less_level_enum :: "level_enum \<Rightarrow> level_enum \<Rightarrow> bool" where
  "less_level_enum a b = (level_int a < level_int b)"

instance
  by standard (auto simp: less_eq_level_enum_def less_level_enum_def level_int_inject)

end

lemmas level_order = less_eq_level_enum_def less_level_enum_def

definition level_string_views :: "string list" where
  "level_string_views =
     [''trace'', ''debug'', ''info'', ''warning'', ''error'', ''critical'', ''off'']"

definition short_level_names :: "string list" where
  "short_level_names = [''T'', ''D'', ''I'', ''W'', ''E'', ''C'', ''O'']"

definition to_string_view :: "level_enum \<Rightarrow> fault + string" where
  "to_string_view l = at_index level_string_views (level_int l)"

definition to_short_c_str :: "level_enum \<Rightarrow> fault + string" where
  "to_short_c_str l = at_index short_level_names (level_int l)"

text \<open>\<open>std::find\<close>: the index of the first equal element, the length when there is none.\<close>

fun find_index :: "'a \<Rightarrow> 'a list \<Rightarrow> nat" where
  "find_index x [] = 0"
| "find_index x (y # ys) = (if x = y then 0 else Suc (find_index x ys))"

text \<open>The cast of an index in the table to the enumeration.\<close>

definition level_of_int :: "nat \<Rightarrow> level_enum" where
  "level_of_int i = [trace, debug, info, warn, err, critical, off, n_levels] ! i"

definition from_str :: "string \<Rightarrow> level_enum" where
  "from_str name =
     (let it = find_index name level_string_views
      in if it \<noteq> length level_string_views then level_of_int it
         else if name = ''warn'' then warn
         else if name = ''err'' then err
         else off)"

datatype pattern_time_type = local | utc

section \<open>Source locations and messages\<close>

text \<open>A null pointer for the file or the function name is \<open>None\<close>.\<close>

record source_loc =
  filename :: "string option"
  line :: int
  funcname :: "string option"

definition no_source :: source_loc where
  "no_source = \<lparr>filename = None, line = 0, funcname = None\<rparr>"

definition source_empty :: "source_loc \<Rightarrow> bool" where
  "source_empty s = (line s \<le> 0)"

record log_msg =
  logger_name :: string
  msg_level :: level_enum
  msg_time :: int
  thread_id :: nat
  color_range_start :: nat
  color_range_end :: nat
  source :: source_loc
  payload :: string

text \<open>
  The constructors; the id of the calling thread and, for the shorter ones, the current time
  are arguments.
\<close>

definition log_msg_at :: "int \<Rightarrow> nat \<Rightarrow> source_loc \<Rightarrow> string \<Rightarrow> level_enum \<Rightarrow> string \<Rightarrow> log_msg" where
  "log_msg_at log_time tid loc a_logger_name lvl msg =
     \<lparr>logger_name = a_logger_name, msg_level = lvl, msg_time = log_time, thread_id = tid,
      color_range_start = 0, color_range_end = 0, source = loc, payload = msg\<rparr>"

definition log_msg_now :: "int \<Rightarrow> nat \<Rightarrow> string \<Rightarrow> level_enum \<Rightarrow> string \<Rightarrow> log_msg" where
  "log_msg_now now tid a_logger_name lvl msg = log_msg_at now tid no_source a_logger_name lvl msg"

text \<open>
  A message that owns its text: the views of the base point into the buffer, the logger name
  first. The lengths of the views are what \<open>update_string_views\<close> keeps.
\<close>

record log_msg_buffer =
  base :: log_msg
  buffer :: string

definition update_string_views :: "log_msg_buffer \<Rightarrow> log_msg_buffer" where
  "update_string_views b =
     (let n = length (logger_name (base b)); p = length (payload (base b))
      in b\<lparr>base := (base b)\<lparr>logger_name := take n (buffer b),
                            payload := take p (drop n (buffer b))\<rparr>\<rparr>)"

definition log_msg_buffer_of :: "log_msg \<Rightarrow> log_msg_buffer" where
  "log_msg_buffer_of orig_msg =
     update_string_views \<lparr>base = orig_msg, buffer = logger_name orig_msg @ payload orig_msg\<rparr>"

definition log_msg_buffer_copy :: "log_msg_buffer \<Rightarrow> log_msg_buffer" where
  "log_msg_buffer_copy other =
     update_string_views
       \<lparr>base = base other, buffer = logger_name (base other) @ payload (base other)\<rparr>"

text \<open>Move construction and both assignments take over the buffer of the other message.\<close>

definition log_msg_buffer_take :: "log_msg_buffer \<Rightarrow> log_msg_buffer" where
  "log_msg_buffer_take other = update_string_views \<lparr>base = base other, buffer = buffer other\<rparr>"

section \<open>Mapped diagnostic context\<close>

text \<open>
  The context of one thread is a \<open>std::map\<close>: an association list in increasing key order.
  Keys are compared byte by byte.
\<close>

type_synonym mdc_map = "(string \<times> string) list"

fun string_less :: "string \<Rightarrow> string \<Rightarrow> bool" where
  "string_less s [] = False"
| "string_less [] (d # t) = True"
| "string_less (c # s) (d # t) =
     (of_char c < (of_char d :: nat) \<or> c = d \<and> string_less s t)"

fun mdc_put :: "string \<Rightarrow> string \<Rightarrow> mdc_map \<Rightarrow> mdc_map" where
  "mdc_put k v [] = [(k, v)]"
| "mdc_put k v ((k', v') # m) =
     (if k = k' then (k, v) # m
      else if string_less k k' then (k, v) # (k', v') # m
      else (k', v') # mdc_put k v m)"

definition mdc_get :: "string \<Rightarrow> mdc_map \<Rightarrow> string" where
  "mdc_get k m = (case map_of m k of Some v \<Rightarrow> v | None \<Rightarrow> [])"

definition mdc_remove :: "string \<Rightarrow> mdc_map \<Rightarrow> mdc_map" where
  "mdc_remove k m = filter (\<lambda>p. fst p \<noteq> k) m"

definition mdc_clear :: "mdc_map \<Rightarrow> mdc_map" where
  "mdc_clear m = []"

section \<open>Properties of the data\<close>

text \<open>Names of levels.\<close>

lemma level_names: "l \<noteq> n_levels \<Longrightarrow>
    to_string_view l = Inr (level_string_views ! level_int l)
    \<and> to_short_c_str l = Inr (short_level_names ! level_int l)"
  by (cases l) (simp_all add: to_string_view_def to_short_c_str_def at_index_def
      level_string_views_def short_level_names_def)

lemma to_string_view_n_levels: "to_string_view n_levels = Inl Ub_out_of_bounds"
  by (simp add: to_string_view_def at_index_def level_string_views_def)

text \<open>
  The name of every level parses back to the level; besides the names only \<open>warn\<close> and \<open>err\<close>
  are accepted, and every other text means \<open>off\<close>.
\<close>

lemma level_name_parses:
  "to_string_view l = Inr s \<Longrightarrow> from_str s = l"
  by (cases l) (auto simp: from_str_def level_string_views_def level_of_int_def
      to_string_view_def at_index_def)

lemma find_index_le: "find_index x xs \<le> length xs"
  by (induction xs) simp_all

lemma find_index_nth: "find_index x xs < length xs \<Longrightarrow> xs ! find_index x xs = x"
  by (induction xs) auto

lemma find_index_eq_length: "find_index x xs = length xs \<longleftrightarrow> x \<notin> set xs"
  by (induction xs) auto

lemma level_of_int_inverse: "i \<le> 7 \<Longrightarrow> level_int (level_of_int i) = i"
proof -
  have "list_all (\<lambda>i. level_int (level_of_int i) = i) [0, 1, 2, 3, 4, 5, 6, 7]"
    by (simp add: level_of_int_def)
  moreover assume "i \<le> 7"
  then have "i \<in> {0, 1, 2, 3, 4, 5, 6, 7}" by auto
  ultimately show ?thesis by auto
qed

lemma parsed_level_name:
  "from_str s \<noteq> off \<Longrightarrow> to_string_view (from_str s) = Inr s \<or> s = ''warn'' \<or> s = ''err''"
proof (cases "s \<in> set level_string_views")
  case True
  then have i: "find_index s level_string_views < length level_string_views"
    using find_index_le [of s level_string_views] by (simp add: find_index_eq_length nat_less_le)
  then have "find_index s level_string_views \<le> 7" by (simp add: level_string_views_def)
  then show ?thesis using i find_index_nth [OF i]
    by (simp add: from_str_def to_string_view_def at_index_def level_of_int_inverse)
next
  case False
  then have "find_index s level_string_views = length level_string_views"
    by (simp add: find_index_eq_length)
  then show "from_str s \<noteq> off \<Longrightarrow> ?thesis" by (simp add: from_str_def split: if_splits)
qed

text \<open>A buffered message shows the same message, also after copies and moves.\<close>

definition buffer_ok :: "log_msg_buffer \<Rightarrow> bool" where
  "buffer_ok b = (buffer b = logger_name (base b) @ payload (base b))"

lemma log_msg_buffer_of_same [simp]: "base (log_msg_buffer_of m) = m"
  by (simp add: log_msg_buffer_of_def update_string_views_def Let_def)

lemma log_msg_buffer_of_ok [simp]: "buffer_ok (log_msg_buffer_of m)"
  by (simp add: log_msg_buffer_of_def update_string_views_def Let_def buffer_ok_def)

lemma log_msg_buffer_copy_same [simp]: "base (log_msg_buffer_copy b) = base b"
  by (simp add: log_msg_buffer_copy_def update_string_views_def Let_def)

lemma log_msg_buffer_take_same [simp]: "buffer_ok b \<Longrightarrow> log_msg_buffer_take b = b"
  by (simp add: log_msg_buffer_take_def update_string_views_def Let_def buffer_ok_def)

text \<open>The context is a map.\<close>

lemma map_of_mdc_put: "map_of (mdc_put k v m) = (map_of m)(k \<mapsto> v)"
  by (induction k v m rule: mdc_put.induct) (auto simp: fun_eq_iff)

lemma map_of_mdc_remove: "map_of (mdc_remove k m) = (map_of m)(k := None)"
  by (induction m) (auto simp: mdc_remove_def fun_eq_iff)

lemma mdc_get_put: "mdc_get k (mdc_put k' v m) = (if k = k' then v else mdc_get k m)"
  by (simp add: mdc_get_def map_of_mdc_put)

lemma mdc_get_remove: "mdc_get k (mdc_remove k' m) = (if k = k' then [] else mdc_get k m)"
  by (simp add: mdc_get_def map_of_mdc_remove)

end
