(* ===== verification/Spdlog_Queue.thy ===== *)
theory Spdlog_Queue
  imports Spdlog_Common "HOL-Library.Sublist"
begin

text \<open>
  The circular queue of the logging library (\<open>details/circular_q.h\<close>): a vector of one slot
  more than the capacity with a head and a tail index. The interface \<open>bounded_queue\<close> says what
  its users rely on: a list that forgets its oldest element when it is full. Sizes are
  \<open>size_t\<close> values; a vector never has \<open>2 ^ 63\<close> or more elements, so that the sum of an index
  and a size does not wrap.
\<close>

section \<open>The queue\<close>

record 'a circular_q =
  max_items :: nat
  head :: nat
  tail :: nat
  overrun :: nat
  slots :: "'a list"

definition cq_disabled :: "'a circular_q" where
  "cq_disabled = \<lparr>max_items = 0, head = 0, tail = 0, overrun = 0, slots = []\<rparr>"

text \<open>The elements of the new vector are default constructed.\<close>

definition cq_new :: "'a \<Rightarrow> nat \<Rightarrow> 'a circular_q" where
  "cq_new dflt capacity =
     (let m = (capacity + 1) mod 2 ^ 64
      in \<lparr>max_items = m, head = 0, tail = 0, overrun = 0, slots = replicate m dflt\<rparr>)"

definition cq_push_back :: "'a circular_q \<Rightarrow> 'a \<Rightarrow> fault + 'a circular_q" where
  "cq_push_back q item =
     (if 0 < max_items q
      then andthen (mem_write (slots q) (int (tail q)) [item]) (\<lambda>v.
             let q = q\<lparr>tail := (tail q + 1) mod max_items q, slots := v\<rparr>
             in if tail q = head q
                then Inr (q\<lparr>head := (head q + 1) mod max_items q,
                            overrun := (overrun q + 1) mod 2 ^ 64\<rparr>)
                else Inr q)
      else Inr q)"

definition cq_front :: "'a circular_q \<Rightarrow> fault + 'a" where
  "cq_front q = at_index (slots q) (head q)"

definition cq_size :: "'a circular_q \<Rightarrow> nat" where
  "cq_size q =
     (if head q \<le> tail q then tail q - head q
      else nat (to_u64 (int (max_items q) - int (head q - tail q))))"

definition cq_at :: "'a circular_q \<Rightarrow> nat \<Rightarrow> fault + 'a" where
  "cq_at q i =
     andthen (check Assert_failed (i < cq_size q)) (\<lambda>_.
     if max_items q = 0 then Inl Ub_division_by_zero
     else at_index (slots q) ((head q + i) mod max_items q))"

definition cq_pop_front :: "'a circular_q \<Rightarrow> fault + 'a circular_q" where
  "cq_pop_front q =
     (if max_items q = 0 then Inl Ub_division_by_zero
      else Inr (q\<lparr>head := (head q + 1) mod max_items q\<rparr>))"

definition cq_empty :: "'a circular_q \<Rightarrow> bool" where
  "cq_empty q = (tail q = head q)"

definition cq_full :: "'a circular_q \<Rightarrow> bool" where
  "cq_full q = (if 0 < max_items q then (tail q + 1) mod max_items q = head q else False)"

definition cq_reset_overrun_counter :: "'a circular_q \<Rightarrow> 'a circular_q" where
  "cq_reset_overrun_counter q = q\<lparr>overrun := 0\<rparr>"

text \<open>The move: the new queue and what is left of the source.\<close>

definition cq_copy_moveable :: "'a circular_q \<Rightarrow> 'a circular_q \<times> 'a circular_q" where
  "cq_copy_moveable other =
     (\<lparr>max_items = max_items other, head = head other, tail = tail other,
       overrun = overrun other, slots = slots other\<rparr>,
      other\<lparr>max_items := 0, head := 0, tail := 0, overrun := 0, slots := []\<rparr>)"

section \<open>The interface of a bounded queue\<close>

definition keep_last :: "nat \<Rightarrow> 'a list \<Rightarrow> 'a list" where
  "keep_last n xs = drop (length xs - n) xs"

lemma keep_last_all [simp]: "length xs \<le> n \<Longrightarrow> keep_last n xs = xs"
  by (simp add: keep_last_def)

lemma length_keep_last [simp]: "length (keep_last n xs) = min n (length xs)"
  by (simp add: keep_last_def)

lemma keep_last_keep_last: "keep_last n (keep_last n xs @ ys) = keep_last n (xs @ ys)"
proof (cases "length xs \<le> n")
  case False
  then have "length xs - n + n = length xs" by simp
  then show ?thesis using False by (simp add: keep_last_def add.commute)
qed simp

locale bounded_queue =
  fixes inv :: "'q \<Rightarrow> bool"
    and contents :: "'q \<Rightarrow> 'a list"
    and capacity :: "'q \<Rightarrow> nat"
    and push :: "'q \<Rightarrow> 'a \<Rightarrow> fault + 'q"
    and front :: "'q \<Rightarrow> fault + 'a"
    and pop :: "'q \<Rightarrow> fault + 'q"
  assumes bounded: "inv q \<Longrightarrow> length (contents q) \<le> capacity q"
    and push_law: "inv q \<Longrightarrow> \<exists>q'. push q x = Inr q' \<and> inv q' \<and> capacity q' = capacity q
      \<and> contents q' = keep_last (capacity q) (contents q @ [x])"
    and front_law: "inv q \<Longrightarrow> contents q \<noteq> [] \<Longrightarrow> front q = Inr (hd (contents q))"
    and pop_law: "inv q \<Longrightarrow> contents q \<noteq> [] \<Longrightarrow> \<exists>q'. pop q = Inr q' \<and> inv q'
      \<and> capacity q' = capacity q \<and> contents q' = tl (contents q)"
begin

text \<open>Pushing a sequence keeps its end; a sequence that fits loses nothing.\<close>

fun push_all :: "'q \<Rightarrow> 'a list \<Rightarrow> fault + 'q" where
  "push_all q [] = Inr q"
| "push_all q (x # xs) = andthen (push q x) (\<lambda>q. push_all q xs)"

lemma push_all_keeps_last:
  "inv q \<Longrightarrow> \<exists>q'. push_all q xs = Inr q' \<and> inv q' \<and> capacity q' = capacity q
    \<and> contents q' = keep_last (capacity q) (contents q @ xs)"
proof (induction xs arbitrary: q)
  case Nil
  then show ?case by (simp add: bounded)
next
  case (Cons x xs)
  obtain q1 where q1: "push q x = Inr q1" "inv q1" "capacity q1 = capacity q"
      "contents q1 = keep_last (capacity q) (contents q @ [x])"
    using push_law [OF Cons.prems] by blast
  then show ?case using Cons.IH [OF q1(2)] by (simp add: keep_last_keep_last)
qed

text \<open>Taking one element out of a queue that is not empty.\<close>

lemma take_one:
  assumes "inv q" and "contents q = x # xs"
  obtains q' where "front q = Inr x" and "pop q = Inr q'" and "inv q'"
    and "capacity q' = capacity q" and "contents q' = xs"
  using assms front_law [of q] pop_law [of q] by auto

end

section \<open>The circular queue is a bounded queue\<close>

definition cq_ok :: "'a circular_q \<Rightarrow> bool" where
  "cq_ok q =
     (if max_items q = 0 then head q = 0 \<and> tail q = 0
      else head q < max_items q \<and> tail q < max_items q \<and> length (slots q) = max_items q
           \<and> max_items q < 2 ^ 63)"

definition cq_capacity :: "'a circular_q \<Rightarrow> nat" where
  "cq_capacity q = max_items q - 1"

definition ring :: "nat \<Rightarrow> nat \<Rightarrow> nat \<Rightarrow> 'a list \<Rightarrow> 'a list" where
  "ring m h n v = map (\<lambda>i. v ! ((h + i) mod m)) [0..<n]"

definition cq_contents :: "'a circular_q \<Rightarrow> 'a list" where
  "cq_contents q = ring (max_items q) (head q) (cq_size q) (slots q)"

lemma length_ring [simp]: "length (ring m h n v) = n"
  by (simp add: ring_def)

lemma ring_0 [simp]: "ring m h 0 v = []"
  by (simp add: ring_def)

lemma ring_Suc: "ring m h (Suc n) v = v ! (h mod m) # ring m ((h + 1) mod m) n v"
proof -
  have "ring m h (Suc n) v = v ! (h mod m) # map (\<lambda>i. v ! ((h + Suc i) mod m)) [0..<n]"
    by (simp add: ring_def upt_conv_Cons del: upt_Suc flip: map_Suc_upt)
  then show ?thesis by (simp add: ring_def mod_simps)
qed

lemma mod_add_inj: "i < m \<Longrightarrow> j < m \<Longrightarrow> (h + i) mod m = (h + j) mod m \<Longrightarrow> i = j" for i j m h :: nat
proof (induction i j rule: linorder_wlog)
  case (le i j)
  then have "m dvd (h + j) - (h + i)" by (metis mod_eq_dvd_iff_nat nat_add_left_cancel_le)
  then have "m dvd j - i" by simp
  then show ?case using le by (metis dvd_imp_le le_antisym diff_is_0_eq less_imp_diff_less
        linorder_not_less not_gr_zero)
next
  case (sym i j)
  then show ?case by metis
qed

lemma ring_snoc:
  assumes "n < m" and "length v = m"
  shows "ring m h (Suc n) (v[(h + n) mod m := x]) = ring m h n v @ [x]"
proof -
  have "0 < m" using assms(1) by simp
  then have "(h + n) mod m < length v" using assms(2) by simp
  moreover have "(h + n) mod m \<noteq> (h + i) mod m" if "i < n" for i
    using mod_add_inj [of n m i h] that assms(1) by auto
  ultimately show ?thesis by (simp add: ring_def)
qed

lemma cq_size_unique:
  assumes "head q < max_items q" and "max_items q < 2 ^ 63" and "n < max_items q"
    and "tail q = (head q + n) mod max_items q"
  shows "cq_size q = n"
proof (cases "head q + n < max_items q")
  case True
  then show ?thesis using assms(4) by (simp add: cq_size_def)
next
  case False
  then have "tail q = head q + n - max_items q" using assms(1,3,4) by (simp add: mod_if)
  then show ?thesis using assms(1-3) False by (simp add: cq_size_def to_u64_def)
qed

lemma cq_okE:
  assumes "cq_ok q" and "max_items q \<noteq> 0"
  obtains n where "head q < max_items q" and "max_items q < 2 ^ 63" and "length (slots q) = max_items q"
    and "n < max_items q" and "tail q = (head q + n) mod max_items q" and "cq_size q = n"
proof -
  have q: "head q < max_items q" "tail q < max_items q" "max_items q < 2 ^ 63"
      "length (slots q) = max_items q"
    using assms by (simp_all add: cq_ok_def)
  define n where "n = (if head q \<le> tail q then tail q - head q else tail q + max_items q - head q)"
  have n: "n < max_items q" "tail q = (head q + n) mod max_items q"
    using q by (auto simp: n_def mod_if)
  show thesis using that [of n] q n cq_size_unique [of q n] by blast
qed

lemma cq_ok_disabled: "cq_ok q \<Longrightarrow> max_items q = 0 \<Longrightarrow> cq_size q = 0 \<and> cq_contents q = []"
  by (simp add: cq_ok_def cq_size_def cq_contents_def)

lemma length_cq_contents [simp]: "length (cq_contents q) = cq_size q"
  by (simp add: cq_contents_def)

lemma cq_size_le: "cq_ok q \<Longrightarrow> cq_size q \<le> cq_capacity q"
  by (cases "max_items q = 0") (auto simp: cq_capacity_def cq_ok_disabled elim!: cq_okE)

lemma cq_empty_iff: "cq_ok q \<Longrightarrow> cq_empty q \<longleftrightarrow> cq_contents q = []"
proof (cases "max_items q = 0")
  case False
  assume "cq_ok q"
  then show ?thesis
  proof (rule cq_okE [OF _ False])
    fix n
    assume q: "head q < max_items q" "n < max_items q" "tail q = (head q + n) mod max_items q"
      "cq_size q = n"
    then have "cq_empty q \<longleftrightarrow> n = 0" using mod_add_inj [of n "max_items q" 0 "head q"]
      by (auto simp: cq_empty_def)
    then show ?thesis using q(4) by (metis length_0_conv length_cq_contents)
  qed
qed (simp add: cq_ok_disabled cq_empty_def cq_ok_def)

lemma cq_full_iff:
  assumes "cq_ok q" and "max_items q \<noteq> 0"
  shows "cq_full q \<longleftrightarrow> cq_size q = cq_capacity q"
proof (rule cq_okE [OF assms])
  fix n
  assume q: "head q < max_items q" "n < max_items q" "tail q = (head q + n) mod max_items q"
    "cq_size q = n"
  have "(tail q + 1) mod max_items q = (head q + Suc n) mod max_items q"
    by (simp add: q(3) mod_simps)
  also have "\<dots> = head q \<longleftrightarrow> Suc n = max_items q"
    using mod_add_inj [of "Suc n" "max_items q" 0 "head q"] q(1,2)
    by (cases "Suc n = max_items q") auto
  finally show ?thesis using q(4) assms(2) by (auto simp: cq_full_def cq_capacity_def)
qed

text \<open>The effect of \<open>push_back\<close> on a queue that is enabled.\<close>

lemma cq_push_back_enabled:
  assumes "cq_ok q" and "max_items q \<noteq> 0"
  obtains q' where "cq_push_back q x = Inr q'" and "cq_ok q'" and "max_items q' = max_items q"
    and "cq_contents q' = keep_last (cq_capacity q) (cq_contents q @ [x])"
    and "overrun q' = (if cq_size q = cq_capacity q then (overrun q + 1) mod 2 ^ 64 else overrun q)"
proof (rule cq_okE [OF assms])
  fix n
  assume q: "head q < max_items q" "max_items q < 2 ^ 63" "length (slots q) = max_items q"
    "n < max_items q" "tail q = (head q + n) mod max_items q" "cq_size q = n"
  let ?m = "max_items q" and ?h = "head q" and ?v = "(slots q)[tail q := x]"
  have t: "tail q < ?m" using assms(1) q(1) by (simp add: cq_ok_def split: if_splits)
  have stored: "mem_write (slots q) (int (tail q)) [x] = Inr ?v"
    using t q(3) by (simp add: mem_write_def upd_conv_take_nth_drop)
  have t': "(tail q + 1) mod ?m = (?h + Suc n) mod ?m" by (simp add: q(5) mod_simps)
  have snoc: "ring ?m ?h (Suc n) ?v = cq_contents q @ [x]"
    using ring_snoc [OF q(4,3), of ?h x] q(5,6) by (simp add: cq_contents_def)
  show thesis
  proof (cases "Suc n = ?m")
    case False
    define q' where "q' = q\<lparr>tail := (tail q + 1) mod ?m, slots := ?v\<rparr>"
    have neq: "(?h + Suc n) mod ?m \<noteq> ?h"
      using mod_add_inj [of "Suc n" ?m 0 ?h] q(1,4) False by auto
    have size: "cq_size q' = Suc n"
      by (rule cq_size_unique) (use q False t' in \<open>simp_all add: q'_def\<close>)
    have "cq_push_back q x = Inr q'"
      using assms(2) neq t' by (simp add: cq_push_back_def stored q'_def Let_def)
    moreover have "cq_ok q'" using q t by (simp add: cq_ok_def q'_def)
    moreover have "cq_contents q' = keep_last (cq_capacity q) (cq_contents q @ [x])"
      using snoc size q(4,6) False by (simp add: cq_contents_def q'_def cq_capacity_def)
    moreover have "n \<noteq> max_items q - 1" using q(4) False by linarith
    ultimately show thesis using that [of q'] q(6) by (simp add: q'_def cq_capacity_def)
  next
    case True
    define q' where "q' = q\<lparr>tail := (tail q + 1) mod ?m, slots := ?v,
      head := (?h + 1) mod ?m, overrun := (overrun q + 1) mod 2 ^ 64\<rparr>"
    have eq: "(?h + Suc n) mod ?m = ?h" using q(1) True by simp
    have size: "cq_size q' = n"
      by (rule cq_size_unique) (use q True t' in \<open>simp_all add: q'_def mod_simps\<close>)
    have "cq_push_back q x = Inr q'"
      using assms(2) eq t' by (simp add: cq_push_back_def stored q'_def Let_def)
    moreover have "cq_ok q'" using q t by (simp add: cq_ok_def q'_def)
    moreover have "cq_contents q' = keep_last (cq_capacity q) (cq_contents q @ [x])"
    proof -
      have "cq_contents q' = tl (ring ?m ?h (Suc n) ?v)"
        by (simp only: cq_contents_def size ring_Suc) (simp add: q'_def)
      also have "\<dots> = drop 1 (cq_contents q @ [x])" unfolding snoc by (simp only: drop_Suc One_nat_def drop_0)
      also have "1 = length (cq_contents q @ [x]) - n" using q(6) by simp
      finally have "cq_contents q' = keep_last n (cq_contents q @ [x])" by (simp only: keep_last_def)
      then show ?thesis by (simp add: cq_capacity_def flip: True)
    qed
    ultimately show thesis using that [of q'] q(4,6)
      by (simp add: q'_def cq_capacity_def flip: True)
  qed
qed

lemma cq_push_back_disabled: "max_items q = 0 \<Longrightarrow> cq_push_back q x = Inr q"
  by (simp add: cq_push_back_def)

lemma cq_push_back_law:
  assumes "cq_ok q"
  shows "\<exists>q'. cq_push_back q x = Inr q' \<and> cq_ok q' \<and> cq_capacity q' = cq_capacity q
    \<and> cq_contents q' = keep_last (cq_capacity q) (cq_contents q @ [x])"
proof (cases "max_items q = 0")
  case True
  then show ?thesis using assms cq_ok_disabled [OF assms True]
    by (simp add: cq_push_back_disabled cq_capacity_def keep_last_def)
next
  case False
  then show ?thesis
    by (rule cq_push_back_enabled [OF assms, of x]) (auto simp: cq_capacity_def)
qed

lemma cq_nonempty:
  assumes "cq_ok q" and "cq_contents q \<noteq> []"
  obtains n where "max_items q \<noteq> 0" and "cq_size q = Suc n"
proof -
  have "cq_size q \<noteq> 0" using assms(2) by (metis length_0_conv length_cq_contents)
  then show thesis using that cq_ok_disabled [OF assms(1)] by (cases "cq_size q") auto
qed

lemma cq_front_law:
  assumes "cq_ok q" and "cq_contents q \<noteq> []"
  shows "cq_front q = Inr (hd (cq_contents q))"
proof (rule cq_nonempty [OF assms])
  fix n
  assume n: "max_items q \<noteq> 0" "cq_size q = Suc n"
  then have "head q < max_items q" "length (slots q) = max_items q"
    using assms(1) by (simp_all add: cq_ok_def)
  then show ?thesis using n(2) by (simp add: cq_front_def at_index_def cq_contents_def ring_Suc)
qed

lemma cq_pop_front_law:
  assumes "cq_ok q" and "cq_contents q \<noteq> []"
  shows "\<exists>q'. cq_pop_front q = Inr q' \<and> cq_ok q' \<and> cq_capacity q' = cq_capacity q
    \<and> cq_contents q' = tl (cq_contents q)"
proof (rule cq_nonempty [OF assms])
  fix n
  assume n: "max_items q \<noteq> 0" "cq_size q = Suc n"
  show ?thesis
  proof (rule cq_okE [OF assms(1) n(1)])
    fix k
    assume q: "head q < max_items q" "max_items q < 2 ^ 63" "length (slots q) = max_items q"
      "k < max_items q" "tail q = (head q + k) mod max_items q" "cq_size q = k"
    define q' where "q' = q\<lparr>head := (head q + 1) mod max_items q\<rparr>"
    have k: "k = Suc n" using n(2) q(6) by simp
    have size: "cq_size q' = n"
      by (rule cq_size_unique) (use q k in \<open>simp_all add: q'_def mod_simps\<close>)
    have "cq_contents q' = tl (cq_contents q)"
      by (simp only: cq_contents_def size n(2) ring_Suc) (simp add: q'_def)
    moreover have "cq_ok q'" using q by (simp add: cq_ok_def q'_def)
    ultimately show ?thesis using n(1) by (simp add: cq_pop_front_def q'_def cq_capacity_def)
  qed
qed

interpretation cq: bounded_queue cq_ok cq_contents cq_capacity cq_push_back cq_front cq_pop_front
  by unfold_locales
    (simp_all add: cq_size_le cq_push_back_law cq_front_law cq_pop_front_law)

lemma cq_new_ok:
  assumes "capacity + 1 < 2 ^ 63"
  shows "cq_ok (cq_new d capacity)" and "cq_contents (cq_new d capacity) = []"
    and "cq_capacity (cq_new d capacity) = capacity"
  using assms by (simp_all add: cq_new_def cq_ok_def cq_contents_def cq_size_def cq_capacity_def
      Let_def)

lemma cq_at_contents:
  assumes "cq_ok q" and "i < cq_size q"
  shows "cq_at q i = Inr (cq_contents q ! i)"
proof -
  have "max_items q \<noteq> 0" using assms cq_ok_disabled [OF assms(1)] by auto
  then show ?thesis using assms
    by (simp add: cq_at_def at_index_def cq_contents_def ring_def cq_ok_def)
qed

lemma cq_move_laws:
  assumes "cq_ok q"
  shows "fst (cq_copy_moveable q) = circular_q.truncate q" and "cq_ok (snd (cq_copy_moveable q))"
    and "cq_contents (snd (cq_copy_moveable q)) = []"
  by (simp_all add: cq_copy_moveable_def circular_q.defs cq_ok_def cq_contents_def cq_size_def)

text \<open>
  The queue over its whole life: from a new queue of capacity \<open>n\<close>, pushing a sequence leaves
  its last \<open>n\<close> elements, in order.
\<close>

lemma circular_q_keeps_the_last:
  assumes "n + 1 < 2 ^ 63"
  shows "\<exists>q. cq.push_all (cq_new d n) xs = Inr q \<and> cq_ok q \<and> cq_contents q = keep_last n xs"
  using cq.push_all_keeps_last [OF cq_new_ok(1) [OF assms, of d], of xs] cq_new_ok(2,3) [OF assms, of d]
  by auto

end
