(* ===== verification/Text_Format.thy ===== *)
theory Text_Format
  imports Prelude
begin

text \<open>
  The part of \<open>std::format\<close>, \<open>fmt::format\<close> and \<open>std::to_string\<close> that the code uses on
  integers: decimal and hexadecimal digits, zero padding, and \<open>std::format_to_n\<close>, which
  writes at most a given number of characters into a buffer. Text is an Isabelle string.
\<close>

section \<open>Decimal numbers\<close>

definition digit_char :: "nat \<Rightarrow> char" where
  "digit_char d = char_of (if d < 10 then 48 + d else 87 + d)"

definition upper_digit_char :: "nat \<Rightarrow> char" where
  "upper_digit_char d = char_of (if d < 10 then 48 + d else 55 + d)"

fun dec :: "nat \<Rightarrow> string" where
  "dec n = (if n < 10 then [digit_char n] else dec (n div 10) @ [digit_char (n mod 10)])"

declare dec.simps [simp del]

definition dec_int :: "int \<Rightarrow> string" where
  "dec_int x = (if x < 0 then CHR ''-'' # dec (nat (- x)) else dec (nat x))"

definition zero_pad :: "nat \<Rightarrow> nat \<Rightarrow> string" where
  "zero_pad w n = (let s = dec n in replicate (w - length s) (CHR ''0'') @ s)"

definition char_digit :: "char \<Rightarrow> nat option" where
  "char_digit c =
     (let k = of_char c :: nat in if 48 \<le> k \<and> k \<le> 57 then Some (k - 48) else None)"

fun read_digits :: "nat \<Rightarrow> string \<Rightarrow> nat \<times> string" where
  "read_digits acc [] = (acc, [])"
| "read_digits acc (c # cs) =
     (case char_digit c of None \<Rightarrow> (acc, c # cs) | Some d \<Rightarrow> read_digits (10 * acc + d) cs)"

definition all_digits :: "string \<Rightarrow> bool" where
  "all_digits s = (\<forall>c \<in> set s. char_digit c \<noteq> None)"

lemma char_digit_digit_char [simp]: "d < 10 \<Longrightarrow> char_digit (digit_char d) = Some d"
  by (simp add: char_digit_def digit_char_def Let_def)

lemma dec_small: "n < 10 \<Longrightarrow> dec n = [digit_char n]"
  by (simp add: dec.simps)

lemma dec_step: "10 \<le> n \<Longrightarrow> dec n = dec (n div 10) @ [digit_char (n mod 10)]"
  by (subst dec.simps) simp

lemma dec_nonempty [simp]: "dec n \<noteq> []"
  by (subst dec.simps) simp

lemma all_digits_dec [simp]: "all_digits (dec n)"
proof (induction n rule: dec.induct)
  case (1 n)
  then show ?case by (subst dec.simps) (auto simp: all_digits_def)
qed

lemma read_digits_append:
  "all_digits s \<Longrightarrow> read_digits acc (s @ t) = read_digits (fst (read_digits acc s)) t"
  by (induction s arbitrary: acc) (auto simp: all_digits_def split: option.splits)

lemma read_digits_dec_acc: "fst (read_digits acc (dec n)) = acc * 10 ^ length (dec n) + n"
proof (induction n arbitrary: acc rule: dec.induct)
  case (1 n)
  show ?case
  proof (cases "n < 10")
    case True
    then show ?thesis by (simp add: dec_small)
  next
    case False
    then have "fst (read_digits acc (dec n))
        = 10 * (acc * 10 ^ length (dec (n div 10)) + n div 10) + n mod 10"
      using 1 [OF False, of acc] by (simp add: dec_step read_digits_append)
    also have "10 * (acc * 10 ^ length (dec (n div 10)) + n div 10) + n mod 10
        = acc * 10 ^ length (dec n) + n"
      using False by (simp add: dec_step [of n])
    finally show ?thesis .
  qed
qed

lemma read_digits_dec: "fst (read_digits 0 (dec n)) = n"
  by (simp add: read_digits_dec_acc)

text \<open>Reading back a number that is followed by something that is no digit.\<close>

lemma read_digits_dec_rest:
  "t = [] \<or> char_digit (hd t) = None \<Longrightarrow> read_digits 0 (dec n @ t) = (n, t)"
  by (cases t) (simp_all add: read_digits_append read_digits_dec
      prod_eq_iff read_digits_append [where t = "[]", simplified, symmetric]
      flip: append_Nil2)

lemma dec_inject [simp]: "dec m = dec n \<longleftrightarrow> m = n"
  by (metis read_digits_dec)

lemma length_dec_le: "n < 10 ^ k \<Longrightarrow> 0 < k \<Longrightarrow> length (dec n) \<le> k"
proof (induction k arbitrary: n)
  case 0
  then show ?case by simp
next
  case (Suc k)
  show ?case
  proof (cases "n < 10")
    case True
    then show ?thesis by (simp add: dec_small)
  next
    case False
    then have "0 < k" using Suc.prems(1) by (cases k) auto
    moreover have "n div 10 < 10 ^ k" using Suc.prems(1) by (simp add: less_mult_imp_div_less mult.commute)
    ultimately show ?thesis using Suc.IH [of "n div 10"] False by (simp add: dec_step)
  qed
qed

lemma length_dec_u8: "length (dec (unat (b :: u8))) \<le> 3"
proof (rule length_dec_le)
  show "unat b < 10 ^ 3" using unat_u8_less [of b] by (simp del: unat_u8_less)
qed simp

lemma length_dec_u16: "length (dec (unat (p :: u16))) \<le> 5"
proof (rule length_dec_le)
  have "unat p < 2 ^ LENGTH(16)" by (rule unsigned_less)
  then show "unat p < 10 ^ 5" by simp
qed simp

section \<open>Hexadecimal numbers\<close>

fun hex :: "nat \<Rightarrow> string" where
  "hex n = (if n < 16 then [digit_char n] else hex (n div 16) @ [digit_char (n mod 16)])"

declare hex.simps [simp del]

text \<open>\<open>{:02x}\<close> of a byte.\<close>

definition hex2 :: "u8 \<Rightarrow> string" where
  "hex2 b = [digit_char (unat b div 16), digit_char (unat b mod 16)]"

section \<open>Bounded output\<close>

text \<open>
  \<open>std::format_to_n(out, n, ...)\<close> writes the first \<open>n\<close> characters of the text at \<open>out\<close>, none
  when \<open>n\<close> is negative, and returns the position behind what it wrote.
\<close>

definition format_to_n :: "string \<Rightarrow> int \<Rightarrow> int \<Rightarrow> string \<Rightarrow> fault + (string \<times> int)" where
  "format_to_n buf out n s =
     (let t = take (nat n) s in
      andthen (mem_write buf out t) (\<lambda>b. Inr (b, out + int (length t))))"

lemma format_to_n_fits:
  assumes "0 \<le> out" and "out + n \<le> int (length buf)" and "0 \<le> n"
  shows "format_to_n buf out n s =
    Inr (put buf (nat out) (take (nat n) s), out + int (min (nat n) (length s)))"
proof -
  have "out + int (length (take (nat n) s)) \<le> int (length buf)" using assms by auto
  then show ?thesis
    unfolding format_to_n_def Let_def using assms
    by (simp add: mem_write_ok put_def min.commute)
qed

end
