(* ===== verification/Spdlog_Logger.thy ===== *)
theory Spdlog_Logger
  imports Spdlog_Queue Text_Format
begin

text \<open>
  The logger (\<open>logger.h\<close>, \<open>logger-inl.h\<close>) and its backtracer (\<open>details/backtracer*.h\<close>). Sinks are
  shared objects: a logger holds their addresses, and the world holds the sinks with the state
  of the default error handler. What a concrete sink does is a parameter (\<open>sink_ops\<close>): the new
  state of the sink and, when it throws a \<open>std::exception\<close>, its text. An exception of another
  type leaves the logger and is not modelled. The mutex of the backtracer makes its operations
  atomic.
\<close>

section \<open>Backtracer\<close>

record backtracer =
  bt_enabled :: bool
  bt_messages :: "log_msg_buffer circular_q"

definition backtracer_new :: backtracer where
  "backtracer_new = \<lparr>bt_enabled = False, bt_messages = cq_disabled\<rparr>"

text \<open>A default constructed message.\<close>

definition empty_msg :: log_msg_buffer where
  "empty_msg = \<lparr>base = \<lparr>logger_name = [], msg_level = off, msg_time = 0, thread_id = 0,
      color_range_start = 0, color_range_end = 0, source = no_source, payload = []\<rparr>, buffer = []\<rparr>"

definition backtracer_copy :: "backtracer \<Rightarrow> backtracer" where
  "backtracer_copy other = \<lparr>bt_enabled = bt_enabled other,
     bt_messages = (bt_messages other)\<lparr>slots := map log_msg_buffer_copy (slots (bt_messages other))\<rparr>\<rparr>"

text \<open>The move: the new backtracer and what is left of the source.\<close>

definition backtracer_move :: "backtracer \<Rightarrow> backtracer \<times> backtracer" where
  "backtracer_move other =
     (\<lparr>bt_enabled = bt_enabled other, bt_messages = fst (cq_copy_moveable (bt_messages other))\<rparr>,
      other\<lparr>bt_messages := snd (cq_copy_moveable (bt_messages other))\<rparr>)"

definition bt_enable :: "nat \<Rightarrow> backtracer \<Rightarrow> backtracer" where
  "bt_enable n b = b\<lparr>bt_enabled := True, bt_messages := cq_new empty_msg n\<rparr>"

definition bt_disable :: "backtracer \<Rightarrow> backtracer" where
  "bt_disable b = b\<lparr>bt_enabled := False\<rparr>"

definition bt_push_back :: "log_msg \<Rightarrow> backtracer \<Rightarrow> fault + backtracer" where
  "bt_push_back msg b =
     andthen (cq_push_back (bt_messages b) (log_msg_buffer_of msg)) (\<lambda>q.
     Inr (b\<lparr>bt_messages := q\<rparr>))"

definition bt_empty :: "backtracer \<Rightarrow> bool" where
  "bt_empty b = cq_empty (bt_messages b)"

text \<open>
  \<open>foreach_pop\<close>: the loop over the queue, which ends when the queue is empty; \<open>None\<close> would be a
  loop that does not end.
\<close>

partial_function (option) foreach_pop ::
    "(log_msg \<Rightarrow> 'w \<Rightarrow> 'w) \<Rightarrow> log_msg_buffer circular_q \<Rightarrow> 'w
      \<Rightarrow> (fault + (log_msg_buffer circular_q \<times> 'w)) option" where
  "foreach_pop f q w =
     (if cq_empty q then Some (Inr (q, w))
      else (case cq_front q of
              Inl e \<Rightarrow> Some (Inl e)
            | Inr front_msg \<Rightarrow>
                (case cq_pop_front q of
                   Inl e \<Rightarrow> Some (Inl e)
                 | Inr q \<Rightarrow> foreach_pop f q (f (base front_msg) w))))"

section \<open>Sinks and the world\<close>

record 's sink =
  sink_level :: level_enum
  sink_state :: 's

record 's sink_ops =
  sink_log :: "log_msg \<Rightarrow> 's \<Rightarrow> 's \<times> string option"
  sink_flush :: "'s \<Rightarrow> 's \<times> string option"

definition sink_should_log :: "'s sink \<Rightarrow> level_enum \<Rightarrow> bool" where
  "sink_should_log s lvl = (sink_level s \<le> lvl)"

definition sink_set_level :: "level_enum \<Rightarrow> 's sink \<Rightarrow> 's sink" where
  "sink_set_level lvl s = s\<lparr>sink_level := lvl\<rparr>"

text \<open>
  The static variables of the default error handler, what it printed (number of the error,
  logger, text), and what custom handlers received.
\<close>

record 's log_world =
  sinks :: "nat \<Rightarrow> 's sink"
  err_counter :: nat
  last_report_time :: int
  err_reports :: "(nat \<times> string \<times> string) list"
  custom_errors :: "string list"

section \<open>The logger\<close>

record logger =
  lg_name :: string
  lg_sinks :: "nat list"
  lg_level :: level_enum
  lg_flush_level :: level_enum
  lg_custom_err :: bool
  lg_tracer :: backtracer

definition logger_new :: "string \<Rightarrow> nat list \<Rightarrow> logger" where
  "logger_new n ss = \<lparr>lg_name = n, lg_sinks = ss, lg_level = info, lg_flush_level = off,
     lg_custom_err = False, lg_tracer = backtracer_new\<rparr>"

definition logger_copy :: "logger \<Rightarrow> logger" where
  "logger_copy other = \<lparr>lg_name = lg_name other, lg_sinks = lg_sinks other,
     lg_level = lg_level other, lg_flush_level = lg_flush_level other,
     lg_custom_err = lg_custom_err other, lg_tracer = backtracer_copy (lg_tracer other)\<rparr>"

definition logger_clone :: "string \<Rightarrow> logger \<Rightarrow> logger" where
  "logger_clone n lg = (logger_copy lg)\<lparr>lg_name := n\<rparr>"

definition logger_swap :: "logger \<Rightarrow> logger \<Rightarrow> logger \<times> logger" where
  "logger_swap a b =
     (a\<lparr>lg_name := lg_name b, lg_sinks := lg_sinks b, lg_level := lg_level b,
        lg_flush_level := lg_flush_level b, lg_custom_err := lg_custom_err b,
        lg_tracer := fst (backtracer_move (lg_tracer b))\<rparr>,
      b\<lparr>lg_name := lg_name a, lg_sinks := lg_sinks a, lg_level := lg_level a,
        lg_flush_level := lg_flush_level a, lg_custom_err := lg_custom_err a,
        lg_tracer := fst (backtracer_move (lg_tracer a))\<rparr>)"

definition should_log :: "logger \<Rightarrow> level_enum \<Rightarrow> bool" where
  "should_log lg lvl = (lg_level lg \<le> lvl)"

definition should_backtrace :: "logger \<Rightarrow> bool" where
  "should_backtrace lg = bt_enabled (lg_tracer lg)"

definition logger_set_level :: "level_enum \<Rightarrow> logger \<Rightarrow> logger" where
  "logger_set_level lvl lg = lg\<lparr>lg_level := lvl\<rparr>"

definition flush_on :: "level_enum \<Rightarrow> logger \<Rightarrow> logger" where
  "flush_on lvl lg = lg\<lparr>lg_flush_level := lvl\<rparr>"

definition enable_backtrace :: "nat \<Rightarrow> logger \<Rightarrow> logger" where
  "enable_backtrace n lg = lg\<lparr>lg_tracer := bt_enable n (lg_tracer lg)\<rparr>"

definition disable_backtrace :: "logger \<Rightarrow> logger" where
  "disable_backtrace lg = lg\<lparr>lg_tracer := bt_disable (lg_tracer lg)\<rparr>"

definition set_error_handler :: "logger \<Rightarrow> logger" where
  "set_error_handler lg = lg\<lparr>lg_custom_err := True\<rparr>"

text \<open>The default handler prints at most one error per second.\<close>

definition err_handler :: "logger \<Rightarrow> int \<Rightarrow> string \<Rightarrow> 's log_world \<Rightarrow> 's log_world" where
  "err_handler lg now msg w =
     (if lg_custom_err lg then w\<lparr>custom_errors := custom_errors w @ [msg]\<rparr>
      else
        let w = w\<lparr>err_counter := (err_counter w + 1) mod 2 ^ 64\<rparr> in
        if now - last_report_time w < 1000000000 then w
        else w\<lparr>last_report_time := now,
               err_reports := err_reports w @ [(err_counter w, lg_name lg, msg)]\<rparr>)"

text \<open>The text for the handler names the source location when there is one.\<close>

definition catch_text :: "source_loc \<Rightarrow> string \<Rightarrow> string" where
  "catch_text loc what =
     (case filename loc of
        Some f \<Rightarrow> what @ '' ['' @ f @ ''('' @ dec_int (line loc) @ '')]''
      | None \<Rightarrow> what)"

definition handle_exception ::
  "logger \<Rightarrow> int \<Rightarrow> source_loc \<Rightarrow> string option \<Rightarrow> 's log_world \<Rightarrow> 's log_world" where
  "handle_exception lg now loc ex w =
     (case ex of None \<Rightarrow> w | Some what \<Rightarrow> err_handler lg now (catch_text loc what) w)"

definition sink_one ::
  "'s sink_ops \<Rightarrow> logger \<Rightarrow> int \<Rightarrow> log_msg \<Rightarrow> nat \<Rightarrow> 's log_world \<Rightarrow> 's log_world" where
  "sink_one ops lg now msg i w =
     (let s = sinks w i in
      if sink_should_log s (msg_level msg)
      then case sink_log ops msg (sink_state s) of (st, ex) \<Rightarrow>
           handle_exception lg now (source msg) ex (w\<lparr>sinks := (sinks w)(i := s\<lparr>sink_state := st\<rparr>)\<rparr>)
      else w)"

definition flush_one :: "'s sink_ops \<Rightarrow> logger \<Rightarrow> int \<Rightarrow> nat \<Rightarrow> 's log_world \<Rightarrow> 's log_world" where
  "flush_one ops lg now i w =
     (let s = sinks w i in
      case sink_flush ops (sink_state s) of (st, ex) \<Rightarrow>
        handle_exception lg now no_source ex (w\<lparr>sinks := (sinks w)(i := s\<lparr>sink_state := st\<rparr>)\<rparr>))"

definition should_flush :: "logger \<Rightarrow> log_msg \<Rightarrow> bool" where
  "should_flush lg msg = (lg_flush_level lg \<le> msg_level msg \<and> msg_level msg \<noteq> off)"

definition flush_sinks :: "'s sink_ops \<Rightarrow> logger \<Rightarrow> int \<Rightarrow> 's log_world \<Rightarrow> 's log_world" where
  "flush_sinks ops lg now w = fold (flush_one ops lg now) (lg_sinks lg) w"

definition sink_it :: "'s sink_ops \<Rightarrow> logger \<Rightarrow> int \<Rightarrow> log_msg \<Rightarrow> 's log_world \<Rightarrow> 's log_world" where
  "sink_it ops lg now msg w =
     (let w = fold (sink_one ops lg now msg) (lg_sinks lg) w in
      if should_flush lg msg then flush_sinks ops lg now w else w)"

definition log_it :: "'s sink_ops \<Rightarrow> int \<Rightarrow> log_msg \<Rightarrow> bool \<Rightarrow> bool \<Rightarrow> logger \<Rightarrow> 's log_world
    \<Rightarrow> fault + (logger \<times> 's log_world)" where
  "log_it ops now msg log_enabled traceback_enabled lg w =
     (let w = (if log_enabled then sink_it ops lg now msg w else w) in
      if traceback_enabled
      then andthen (bt_push_back msg (lg_tracer lg)) (\<lambda>b. Inr (lg\<lparr>lg_tracer := b\<rparr>, w))
      else Inr (lg, w))"

text \<open>
  The \<open>log\<close> calls with a ready text, and the ones that format a text first: the formatting gives
  the text or throws.
\<close>

definition logger_log :: "'s sink_ops \<Rightarrow> int \<Rightarrow> nat \<Rightarrow> source_loc \<Rightarrow> level_enum \<Rightarrow> string \<Rightarrow> logger
    \<Rightarrow> 's log_world \<Rightarrow> fault + (logger \<times> 's log_world)" where
  "logger_log ops now tid loc lvl msg lg w =
     (let log_enabled = should_log lg lvl; traceback_enabled = bt_enabled (lg_tracer lg) in
      if \<not> log_enabled \<and> \<not> traceback_enabled then Inr (lg, w)
      else log_it ops now (log_msg_at now tid loc (lg_name lg) lvl msg) log_enabled
             traceback_enabled lg w)"

definition logger_log_fmt :: "'s sink_ops \<Rightarrow> int \<Rightarrow> nat \<Rightarrow> source_loc \<Rightarrow> level_enum
    \<Rightarrow> (unit \<Rightarrow> string + string) \<Rightarrow> logger \<Rightarrow> 's log_world \<Rightarrow> fault + (logger \<times> 's log_world)" where
  "logger_log_fmt ops now tid loc lvl formatted lg w =
     (let log_enabled = should_log lg lvl; traceback_enabled = bt_enabled (lg_tracer lg) in
      if \<not> log_enabled \<and> \<not> traceback_enabled then Inr (lg, w)
      else case formatted () of
             Inl what \<Rightarrow> Inr (lg, handle_exception lg now loc (Some what) w)
           | Inr body \<Rightarrow> log_it ops now (log_msg_at now tid loc (lg_name lg) lvl body) log_enabled
                           traceback_enabled lg w)"

definition backtrace_start :: string where
  "backtrace_start = ''****************** Backtrace Start ******************''"

definition backtrace_end :: string where
  "backtrace_end = ''****************** Backtrace End ********************''"

definition dump_backtrace :: "'s sink_ops \<Rightarrow> int \<Rightarrow> nat \<Rightarrow> logger \<Rightarrow> 's log_world
    \<Rightarrow> (fault + (logger \<times> 's log_world)) option" where
  "dump_backtrace ops now tid lg w =
     (if bt_enabled (lg_tracer lg) \<and> \<not> bt_empty (lg_tracer lg)
      then
        let w = sink_it ops lg now (log_msg_now now tid (lg_name lg) info backtrace_start) w in
        seq_opt (foreach_pop (sink_it ops lg now) (bt_messages (lg_tracer lg)) w) (\<lambda>(q, w).
          let w = sink_it ops lg now (log_msg_now now tid (lg_name lg) info backtrace_end) w in
          Some (Inr (lg\<lparr>lg_tracer := (lg_tracer lg)\<lparr>bt_messages := q\<rparr>\<rparr>, w)))
      else Some (Inr (lg, w)))"

section \<open>The backtracer keeps the last messages\<close>

text \<open>The loop visits the whole queue, first in first out, and ends.\<close>

lemma foreach_pop_visits:
  "cq_ok q \<Longrightarrow> \<exists>q'. foreach_pop f q w = Some (Inr (q', fold f (map base (cq_contents q)) w))
    \<and> cq_ok q' \<and> cq_contents q' = [] \<and> cq_capacity q' = cq_capacity q"
proof (induction "cq_contents q" arbitrary: q w)
  case Nil
  then show ?case by (subst foreach_pop.simps) (simp add: cq_empty_iff)
next
  case (Cons m ms)
  have ne: "\<not> cq_empty q" using Cons.hyps(2) Cons.prems by (simp add: cq_empty_iff flip: Cons.hyps(2))
  obtain q1 where q1: "cq_front q = Inr m" "cq_pop_front q = Inr q1" "cq_ok q1"
      "cq_capacity q1 = cq_capacity q" "cq_contents q1 = ms"
    by (rule cq.take_one [OF Cons.prems Cons.hyps(2) [symmetric]])
  show ?case
    using Cons.hyps(1) [of q1 "f (base m) w"] q1 ne
    by (subst foreach_pop.simps) (simp flip: Cons.hyps(2))
qed

definition tracer_ok :: "backtracer \<Rightarrow> bool" where
  "tracer_ok b = cq_ok (bt_messages b)"

definition traced :: "backtracer \<Rightarrow> log_msg list" where
  "traced b = map base (cq_contents (bt_messages b))"

lemma keep_last_map: "map f (keep_last n xs) = keep_last n (map f xs)"
  by (simp add: keep_last_def drop_map)

lemma bt_push_back_keeps:
  assumes "tracer_ok b"
  obtains b' where "bt_push_back msg b = Inr b'" and "tracer_ok b'"
    and "traced b' = keep_last (cq_capacity (bt_messages b)) (traced b @ [msg])"
    and "cq_capacity (bt_messages b') = cq_capacity (bt_messages b)"
    and "bt_enabled b' = bt_enabled b"
proof -
  obtain q where q: "cq_push_back (bt_messages b) (log_msg_buffer_of msg) = Inr q" "cq_ok q"
      "cq_capacity q = cq_capacity (bt_messages b)"
      "cq_contents q = keep_last (cq_capacity (bt_messages b))
         (cq_contents (bt_messages b) @ [log_msg_buffer_of msg])"
    using cq_push_back_law [of "bt_messages b" "log_msg_buffer_of msg"] assms
    by (auto simp: tracer_ok_def)
  then show thesis using that [of "b\<lparr>bt_messages := q\<rparr>"]
    by (simp add: bt_push_back_def tracer_ok_def traced_def keep_last_map)
qed

lemma handle_exception_tracer [simp]:
  "handle_exception (lg\<lparr>lg_tracer := b\<rparr>) now loc ex w = handle_exception lg now loc ex w"
  by (simp add: handle_exception_def err_handler_def Let_def split: option.split)

lemma sink_one_tracer [simp]: "sink_one ops (lg\<lparr>lg_tracer := b\<rparr>) = sink_one ops lg"
  by (simp add: fun_eq_iff sink_one_def Let_def split: prod.split)

lemma flush_one_tracer [simp]: "flush_one ops (lg\<lparr>lg_tracer := b\<rparr>) = flush_one ops lg"
  by (simp add: fun_eq_iff flush_one_def)

lemma sink_it_tracer [simp]: "sink_it ops (lg\<lparr>lg_tracer := b\<rparr>) = sink_it ops lg"
  by (simp add: fun_eq_iff sink_it_def flush_sinks_def should_flush_def Let_def)

section \<open>A life of a logger\<close>

text \<open>One call of \<open>log\<close>: the time, the thread, the location, the level and the text.\<close>

type_synonym log_call = "int \<times> nat \<times> source_loc \<times> level_enum \<times> string"

fun call_msg :: "string \<Rightarrow> log_call \<Rightarrow> log_msg" where
  "call_msg n (now, tid, loc, lvl, body) = log_msg_at now tid loc n lvl body"

fun log_calls :: "'s sink_ops \<Rightarrow> log_call list \<Rightarrow> logger \<Rightarrow> 's log_world
    \<Rightarrow> fault + (logger \<times> 's log_world)" where
  "log_calls ops [] lg w = Inr (lg, w)"
| "log_calls ops ((now, tid, loc, lvl, body) # cs) lg w =
     andthen (logger_log ops now tid loc lvl body lg w) (\<lambda>(lg, w). log_calls ops cs lg w)"

text \<open>What the calls do to the sinks: the calls whose level is enabled reach them.\<close>

definition deliver :: "'s sink_ops \<Rightarrow> logger \<Rightarrow> log_call \<Rightarrow> 's log_world \<Rightarrow> 's log_world" where
  "deliver ops lg c w =
     (let m = call_msg (lg_name lg) c in
      if should_log lg (msg_level m) then sink_it ops lg (msg_time m) m w else w)"

lemma call_msg_sel:
  "msg_level (call_msg n (now, tid, loc, lvl, body)) = lvl"
  "msg_time (call_msg n (now, tid, loc, lvl, body)) = now"
  by (simp_all add: log_msg_at_def)

lemma deliver_tracer [simp]: "deliver ops (lg\<lparr>lg_tracer := b\<rparr>) = deliver ops lg"
  by (simp add: fun_eq_iff deliver_def should_log_def Let_def)

lemma logger_log_effect:
  assumes "bt_enabled (lg_tracer lg)" and "tracer_ok (lg_tracer lg)"
  obtains b where "logger_log ops now tid loc lvl body lg w
      = Inr (lg\<lparr>lg_tracer := b\<rparr>, deliver ops lg (now, tid, loc, lvl, body) w)"
    and "bt_enabled b" and "tracer_ok b"
    and "cq_capacity (bt_messages b) = cq_capacity (bt_messages (lg_tracer lg))"
    and "traced b = keep_last (cq_capacity (bt_messages (lg_tracer lg)))
      (traced (lg_tracer lg) @ [call_msg (lg_name lg) (now, tid, loc, lvl, body)])"
proof -
  let ?m = "log_msg_at now tid loc (lg_name lg) lvl body"
  obtain b where b: "bt_push_back ?m (lg_tracer lg) = Inr b" "tracer_ok b"
      "traced b = keep_last (cq_capacity (bt_messages (lg_tracer lg))) (traced (lg_tracer lg) @ [?m])"
      "cq_capacity (bt_messages b) = cq_capacity (bt_messages (lg_tracer lg))"
      "bt_enabled b = bt_enabled (lg_tracer lg)"
    by (rule bt_push_back_keeps [OF assms(2), of ?m])
  have "deliver ops lg (now, tid, loc, lvl, body) w
      = (if should_log lg lvl then sink_it ops lg now ?m w else w)"
    unfolding deliver_def Let_def call_msg_sel by simp
  then show thesis using that [of b] b assms(1)
    by (simp add: logger_log_def log_it_def Let_def)
qed

lemma log_calls_effect:
  assumes "bt_enabled (lg_tracer lg)" and "tracer_ok (lg_tracer lg)"
  shows "\<exists>b. log_calls ops cs lg w = Inr (lg\<lparr>lg_tracer := b\<rparr>, fold (deliver ops lg) cs w)
    \<and> bt_enabled b \<and> tracer_ok b
    \<and> cq_capacity (bt_messages b) = cq_capacity (bt_messages (lg_tracer lg))
    \<and> traced b = keep_last (cq_capacity (bt_messages (lg_tracer lg)))
        (traced (lg_tracer lg) @ map (call_msg (lg_name lg)) cs)"
  using assms
proof (induction cs arbitrary: lg w)
  case Nil
  then have "length (traced (lg_tracer lg)) \<le> cq_capacity (bt_messages (lg_tracer lg))"
    by (simp add: traced_def tracer_ok_def cq_size_le)
  then show ?case using Nil by (intro exI [of _ "lg_tracer lg"]) simp
next
  case (Cons c cs)
  obtain now tid loc lvl body where c: "c = (now, tid, loc, lvl, body)" by (cases c)
  obtain b where b: "logger_log ops now tid loc lvl body lg w
        = Inr (lg\<lparr>lg_tracer := b\<rparr>, deliver ops lg c w)"
      "bt_enabled b" "tracer_ok b"
      "cq_capacity (bt_messages b) = cq_capacity (bt_messages (lg_tracer lg))"
      "traced b = keep_last (cq_capacity (bt_messages (lg_tracer lg)))
        (traced (lg_tracer lg) @ [call_msg (lg_name lg) c])"
    unfolding c by (rule logger_log_effect [OF Cons.prems, of ops now tid loc lvl body w])
  show ?case
    using Cons.IH [of "lg\<lparr>lg_tracer := b\<rparr>" "deliver ops lg c w"] b
    by (simp add: c keep_last_keep_last del: call_msg.simps)
qed

lemma dump_effect:
  assumes "bt_enabled (lg_tracer lg)" and "tracer_ok (lg_tracer lg)" and "traced (lg_tracer lg) \<noteq> []"
  shows "\<exists>b. dump_backtrace ops now tid lg w = Some (Inr (lg\<lparr>lg_tracer := b\<rparr>,
      fold (sink_it ops lg now)
        (log_msg_now now tid (lg_name lg) info backtrace_start # traced (lg_tracer lg)
          @ [log_msg_now now tid (lg_name lg) info backtrace_end]) w))
    \<and> bt_empty b"
proof -
  let ?q = "bt_messages (lg_tracer lg)"
  let ?w = "sink_it ops lg now (log_msg_now now tid (lg_name lg) info backtrace_start) w"
  have q: "cq_ok ?q" "\<not> cq_empty ?q"
    using assms(2,3) by (simp_all add: tracer_ok_def traced_def cq_empty_iff)
  obtain q' where "foreach_pop (sink_it ops lg now) ?q ?w
      = Some (Inr (q', fold (sink_it ops lg now) (traced (lg_tracer lg)) ?w))"
      "cq_empty q'"
    using foreach_pop_visits [OF q(1), of "sink_it ops lg now" ?w]
    by (auto simp: traced_def cq_empty_iff)
  then show ?thesis using assms(1) q(2)
    by (intro exI [of _ "(lg_tracer lg)\<lparr>bt_messages := q'\<rparr>"])
      (simp add: dump_backtrace_def bt_empty_def)
qed

lemma enabled_tracer:
  assumes "n + 1 < 2 ^ 63"
  shows "tracer_ok (bt_enable n b)" and "bt_enabled (bt_enable n b)" and "traced (bt_enable n b) = []"
    and "cq_capacity (bt_messages (bt_enable n b)) = n"
  using cq_new_ok [OF assms, of empty_msg] by (simp_all add: bt_enable_def tracer_ok_def traced_def)

lemma sink_it_enable [simp]: "sink_it ops (enable_backtrace n lg) = sink_it ops lg"
  by (simp add: enable_backtrace_def)

lemma deliver_enable [simp]: "deliver ops (enable_backtrace n lg) = deliver ops lg"
  by (simp add: enable_backtrace_def)

text \<open>
  C28. A logger whose backtrace of \<open>n > 0\<close> messages is enabled delivers every call whose level is
  enabled to its sinks, in order. A later dump ends; it sends to the sinks, between the two marker
  lines, the last \<open>n\<close> messages of all calls, whatever their level, oldest first, and empties the
  backtrace.
\<close>

theorem backtrace_replays_the_last_messages:
  assumes "0 < n" and "n + 1 < 2 ^ 63" and "cs \<noteq> []"
  shows "\<exists>lg'. log_calls ops cs (enable_backtrace n lg) w = Inr (lg', fold (deliver ops lg) cs w)
    \<and> (\<forall>w. \<exists>lg''. dump_backtrace ops now tid lg' w = Some (Inr (lg'',
         fold (sink_it ops lg now)
           (log_msg_now now tid (lg_name lg) info backtrace_start
             # keep_last n (map (call_msg (lg_name lg)) cs)
             @ [log_msg_now now tid (lg_name lg) info backtrace_end]) w))
       \<and> bt_empty (lg_tracer lg''))"
proof -
  let ?lg = "enable_backtrace n lg"
  note en = enabled_tracer [OF assms(2), of "lg_tracer lg"]
  have tr: "lg_tracer ?lg = bt_enable n (lg_tracer lg)" "lg_name ?lg = lg_name lg"
    by (simp_all add: enable_backtrace_def)
  obtain b where b: "log_calls ops cs ?lg w = Inr (?lg\<lparr>lg_tracer := b\<rparr>, fold (deliver ops lg) cs w)"
      "bt_enabled b" "tracer_ok b" "traced b = keep_last n (map (call_msg (lg_name lg)) cs)"
    using log_calls_effect [of ?lg ops cs w] en by (auto simp: tr)
  have "0 < length (traced b)" using assms(1,3) by (simp add: b(4))
  then have ne: "traced b \<noteq> []" by simp
  have "\<exists>lg''. dump_backtrace ops now tid (?lg\<lparr>lg_tracer := b\<rparr>) w = Some (Inr (lg'',
         fold (sink_it ops lg now)
           (log_msg_now now tid (lg_name lg) info backtrace_start # traced b
             @ [log_msg_now now tid (lg_name lg) info backtrace_end]) w))
       \<and> bt_empty (lg_tracer lg'')" for w
    using dump_effect [of "?lg\<lparr>lg_tracer := b\<rparr>" ops now tid w] b(2,3) ne
    by (auto simp: tr(2))
  then show ?thesis using b(1,4) by auto
qed

text \<open>A sink that keeps the texts it receives and does not throw.\<close>

definition recording_ops :: "string list sink_ops" where
  "recording_ops = \<lparr>sink_log = (\<lambda>m s. (s @ [payload m], None)), sink_flush = (\<lambda>s. (s, None))\<rparr>"

definition quiet_world :: "string list log_world" where
  "quiet_world = \<lparr>sinks = (\<lambda>_. \<lparr>sink_level = trace, sink_state = []\<rparr>), err_counter = 0,
     last_report_time = 0, err_reports = [], custom_errors = []\<rparr>"

definition three_calls :: "log_call list" where
  "three_calls =
     [(1, 1, no_source, debug, ''a''), (2, 1, no_source, warn, ''b''), (3, 1, no_source, debug, ''c'')]"

lemma dumped_texts:
  "sink_state (sinks (fold (sink_it recording_ops (logger_new ''L'' [0]) 9)
     (log_msg_now 9 1 (lg_name (logger_new ''L'' [0])) info backtrace_start
       # keep_last 2 (map (call_msg (lg_name (logger_new ''L'' [0]))) three_calls)
       @ [log_msg_now 9 1 (lg_name (logger_new ''L'' [0])) info backtrace_end]) quiet_world) 0)
   = [backtrace_start, ''b'', ''c'', backtrace_end]"
  by code_simp

theorem backtrace_replays_the_last_messages_witness:
  "\<exists>lg' w1 lg'' w2. log_calls recording_ops three_calls (enable_backtrace 2 (logger_new ''L'' [0]))
       quiet_world = Inr (lg', w1)
     \<and> dump_backtrace recording_ops 9 1 lg' quiet_world = Some (Inr (lg'', w2))
     \<and> sink_state (sinks w2 0) = [backtrace_start, ''b'', ''c'', backtrace_end]"
proof -
  have "0 < (2::nat)" "2 + 1 < (2::nat) ^ 63" "three_calls \<noteq> []" by (simp_all add: three_calls_def)
  from backtrace_replays_the_last_messages [OF this, of recording_ops "logger_new ''L'' [0]"
      quiet_world 9 1]
  obtain lg' w1 where 1: "log_calls recording_ops three_calls (enable_backtrace 2 (logger_new ''L'' [0]))
        quiet_world = Inr (lg', w1)"
    and 2: "\<And>w. \<exists>lg''. dump_backtrace recording_ops 9 1 lg' w = Some (Inr (lg'',
         fold (sink_it recording_ops (logger_new ''L'' [0]) 9)
           (log_msg_now 9 1 (lg_name (logger_new ''L'' [0])) info backtrace_start
             # keep_last 2 (map (call_msg (lg_name (logger_new ''L'' [0]))) three_calls)
             @ [log_msg_now 9 1 (lg_name (logger_new ''L'' [0])) info backtrace_end]) w))"
    by blast
  show ?thesis using 1 2 [of quiet_world] dumped_texts by blast
qed

end
