(* ===== verification/Spdlog_Registry.thy ===== *)
theory Spdlog_Registry
  imports Spdlog_Logger
begin

text \<open>
  The registry of loggers (\<open>details/registry*.h\<close>), the factory of loggers
  (\<open>details/synchronous_factory.h\<close>) and the reading of levels from the environment and the command
  line (\<open>cfg/helpers-inl.h\<close>, \<open>cfg/env.h\<close>, \<open>cfg/argv.h\<close>). Loggers are shared objects at addresses;
  a hash map is an association list, in the order in which it is iterated. The formatter is behind
  its interface (\<open>formatter.h\<close>): how it is cloned and how a sink takes one are parameters. Every
  operation holds the mutex of the registry and is atomic.
\<close>

section \<open>State\<close>

record 'f registry =
  loggers :: "(string \<times> nat) list"
  log_levels :: "(string \<times> level_enum) list"
  formatter :: 'f
  global_log_level :: level_enum
  reg_flush_level :: level_enum
  reg_err_handler :: bool
  default_logger :: "nat option"
  automatic_registration :: bool
  backtrace_n_messages :: nat

record ('s, 'f) spd =
  logger_at :: "nat \<Rightarrow> logger"
  world :: "'s log_world"
  reg :: "'f registry"

record ('s, 'f) formatter_ops =
  clone :: "'f \<Rightarrow> 'f"
  take_formatter :: "'f \<Rightarrow> 's \<Rightarrow> 's"

definition on_logger :: "nat \<Rightarrow> (logger \<Rightarrow> logger) \<Rightarrow> ('s, 'f) spd \<Rightarrow> ('s, 'f) spd" where
  "on_logger a f s = s\<lparr>logger_at := (logger_at s)(a := f (logger_at s a))\<rparr>"

text \<open>\<open>for (auto &l : loggers_)\<close>\<close>

definition on_all :: "(logger \<Rightarrow> logger) \<Rightarrow> ('s, 'f) spd \<Rightarrow> ('s, 'f) spd" where
  "on_all f s = fold (\<lambda>(n, a). on_logger a f) (loggers (reg s)) s"

definition assoc_put :: "'k \<Rightarrow> 'v \<Rightarrow> ('k \<times> 'v) list \<Rightarrow> ('k \<times> 'v) list" where
  "assoc_put k v m =
     (if map_of m k = None then m @ [(k, v)] else map (\<lambda>(k', v'). (k', if k' = k then v else v')) m)"

definition assoc_erase :: "'k \<Rightarrow> ('k \<times> 'v) list \<Rightarrow> ('k \<times> 'v) list" where
  "assoc_erase k m = filter (\<lambda>(k', v). k' \<noteq> k) m"

lemma map_of_assoc_put: "map_of (assoc_put k v m) = (map_of m)(k \<mapsto> v)"
proof
  fix x
  have "map_of (map (\<lambda>(k', v'). (k', if k' = k then v else v')) m) x
      = map_option (\<lambda>v'. if x = k then v else v') (map_of m x)"
    by (induction m) auto
  then show "map_of (assoc_put k v m) x = ((map_of m)(k \<mapsto> v)) x"
    by (auto simp: assoc_put_def map_add_def split: option.split)
qed

lemma map_of_assoc_erase: "map_of (assoc_erase k m) = (map_of m)(k := None)"
proof
  fix x
  show "map_of (assoc_erase k m) x = ((map_of m)(k := None)) x"
    unfolding assoc_erase_def by (induction m) auto
qed

section \<open>Operations of the registry\<close>

text \<open>A logger hands a formatter to its sinks: the last sink gets the object, the others clones.\<close>

definition sink_take :: "('s, 'f) formatter_ops \<Rightarrow> 'f \<Rightarrow> nat \<Rightarrow> 's log_world \<Rightarrow> 's log_world" where
  "sink_take fo f i w =
     w\<lparr>sinks := (sinks w)(i := (sinks w i)\<lparr>sink_state := take_formatter fo f (sink_state (sinks w i))\<rparr>)\<rparr>"

fun give_formatter :: "('s, 'f) formatter_ops \<Rightarrow> 'f \<Rightarrow> nat list \<Rightarrow> 's log_world \<Rightarrow> 's log_world" where
  "give_formatter fo f [] w = w"
| "give_formatter fo f [i] w = sink_take fo f i w"
| "give_formatter fo f (i # is) w = give_formatter fo f is (sink_take fo (clone fo f) i w)"

definition logger_set_formatter ::
    "('s, 'f) formatter_ops \<Rightarrow> 'f \<Rightarrow> nat \<Rightarrow> ('s, 'f) spd \<Rightarrow> ('s, 'f) spd" where
  "logger_set_formatter fo f a s = s\<lparr>world := give_formatter fo f (lg_sinks (logger_at s a)) (world s)\<rparr>"

definition throw_if_exists :: "string \<Rightarrow> ('s, 'f) spd \<Rightarrow> string option" where
  "throw_if_exists n s =
     (if map_of (loggers (reg s)) n \<noteq> None
      then Some (''logger with name '' @ [CHR 0x27] @ n @ [CHR 0x27] @ '' already exists'') else None)"

definition register_or_replace :: "nat \<Rightarrow> ('s, 'f) spd \<Rightarrow> ('s, 'f) spd" where
  "register_or_replace a s =
     s\<lparr>reg := (reg s)\<lparr>loggers := assoc_put (lg_name (logger_at s a)) a (loggers (reg s))\<rparr>\<rparr>"

text \<open>The result is the text of the exception, if one is thrown, and the state.\<close>

definition register_logger :: "nat \<Rightarrow> ('s, 'f) spd \<Rightarrow> string option \<times> ('s, 'f) spd" where
  "register_logger a s =
     (case throw_if_exists (lg_name (logger_at s a)) s of
        Some e \<Rightarrow> (Some e, s)
      | None \<Rightarrow> (None, register_or_replace a s))"

definition configured_level :: "string \<Rightarrow> 'f registry \<Rightarrow> level_enum" where
  "configured_level n r = (case map_of (log_levels r) n of Some l \<Rightarrow> l | None \<Rightarrow> global_log_level r)"

definition initialize_logger ::
    "('s, 'f) formatter_ops \<Rightarrow> nat \<Rightarrow> ('s, 'f) spd \<Rightarrow> string option \<times> ('s, 'f) spd" where
  "initialize_logger fo a s =
     (let s = logger_set_formatter fo (clone fo (formatter (reg s))) a s;
          s = (if reg_err_handler (reg s) then on_logger a set_error_handler s else s);
          new_level = configured_level (lg_name (logger_at s a)) (reg s);
          s = on_logger a (logger_set_level new_level) s;
          s = on_logger a (flush_on (reg_flush_level (reg s))) s;
          s = (if backtrace_n_messages (reg s) > 0
               then on_logger a (enable_backtrace (backtrace_n_messages (reg s))) s else s)
      in if automatic_registration (reg s) then register_logger a s else (None, s))"

definition reg_get :: "string \<Rightarrow> ('s, 'f) spd \<Rightarrow> nat option" where
  "reg_get n s = map_of (loggers (reg s)) n"

definition set_default_logger :: "nat option \<Rightarrow> ('s, 'f) spd \<Rightarrow> ('s, 'f) spd" where
  "set_default_logger new_default_logger s =
     (let s = (case new_default_logger of Some a \<Rightarrow> register_or_replace a s | None \<Rightarrow> s)
      in s\<lparr>reg := (reg s)\<lparr>default_logger := new_default_logger\<rparr>\<rparr>)"

definition reg_set_formatter :: "('s, 'f) formatter_ops \<Rightarrow> 'f \<Rightarrow> ('s, 'f) spd \<Rightarrow> ('s, 'f) spd" where
  "reg_set_formatter fo f s =
     fold (\<lambda>(n, a) s. logger_set_formatter fo (clone fo (formatter (reg s))) a s)
       (loggers (reg s)) (s\<lparr>reg := (reg s)\<lparr>formatter := f\<rparr>\<rparr>)"

definition reg_enable_backtrace :: "nat \<Rightarrow> ('s, 'f) spd \<Rightarrow> ('s, 'f) spd" where
  "reg_enable_backtrace n s =
     on_all (enable_backtrace n) (s\<lparr>reg := (reg s)\<lparr>backtrace_n_messages := n\<rparr>\<rparr>)"

definition reg_disable_backtrace :: "('s, 'f) spd \<Rightarrow> ('s, 'f) spd" where
  "reg_disable_backtrace s =
     on_all disable_backtrace (s\<lparr>reg := (reg s)\<lparr>backtrace_n_messages := 0\<rparr>\<rparr>)"

definition reg_set_level :: "level_enum \<Rightarrow> ('s, 'f) spd \<Rightarrow> ('s, 'f) spd" where
  "reg_set_level l s =
     (let s = on_all (logger_set_level l) s in s\<lparr>reg := (reg s)\<lparr>global_log_level := l\<rparr>\<rparr>)"

definition reg_flush_on :: "level_enum \<Rightarrow> ('s, 'f) spd \<Rightarrow> ('s, 'f) spd" where
  "reg_flush_on l s = (let s = on_all (flush_on l) s in s\<lparr>reg := (reg s)\<lparr>reg_flush_level := l\<rparr>\<rparr>)"

definition reg_set_error_handler :: "('s, 'f) spd \<Rightarrow> ('s, 'f) spd" where
  "reg_set_error_handler s =
     (let s = on_all set_error_handler s in s\<lparr>reg := (reg s)\<lparr>reg_err_handler := True\<rparr>\<rparr>)"

definition flush_all :: "'s sink_ops \<Rightarrow> int \<Rightarrow> ('s, 'f) spd \<Rightarrow> ('s, 'f) spd" where
  "flush_all ops now s =
     fold (\<lambda>(n, a) s. s\<lparr>world := flush_sinks ops (logger_at s a) now (world s)\<rparr>) (loggers (reg s)) s"

definition reg_drop :: "string \<Rightarrow> ('s, 'f) spd \<Rightarrow> ('s, 'f) spd" where
  "reg_drop n s =
     (let is_default_logger = (case default_logger (reg s) of
            Some a \<Rightarrow> lg_name (logger_at s a) = n | None \<Rightarrow> False);
          s = s\<lparr>reg := (reg s)\<lparr>loggers := assoc_erase n (loggers (reg s))\<rparr>\<rparr>
      in if is_default_logger then s\<lparr>reg := (reg s)\<lparr>default_logger := None\<rparr>\<rparr> else s)"

definition drop_all :: "('s, 'f) spd \<Rightarrow> ('s, 'f) spd" where
  "drop_all s = s\<lparr>reg := (reg s)\<lparr>loggers := [], default_logger := None\<rparr>\<rparr>"

definition set_automatic_registration :: "bool \<Rightarrow> ('s, 'f) spd \<Rightarrow> ('s, 'f) spd" where
  "set_automatic_registration b s = s\<lparr>reg := (reg s)\<lparr>automatic_registration := b\<rparr>\<rparr>"

text \<open>The levels for all present and future loggers; the global level only when one is given.\<close>

definition set_levels :: "(string \<times> level_enum) list \<Rightarrow> level_enum option \<Rightarrow> ('s, 'f) spd \<Rightarrow> ('s, 'f) spd" where
  "set_levels levels global_level s =
     (let s = s\<lparr>reg := (reg s)\<lparr>log_levels := levels,
            global_log_level := (case global_level of Some l \<Rightarrow> l | None \<Rightarrow> global_log_level (reg s))\<rparr>\<rparr>
      in fold (\<lambda>(n, a) s.
           case map_of levels n of
             Some l \<Rightarrow> on_logger a (logger_set_level l) s
           | None \<Rightarrow> (case global_level of Some l \<Rightarrow> on_logger a (logger_set_level l) s | None \<Rightarrow> s))
         (loggers (reg s)) s)"

definition apply_logger_env_levels :: "nat \<Rightarrow> ('s, 'f) spd \<Rightarrow> ('s, 'f) spd" where
  "apply_logger_env_levels a s =
     on_logger a (logger_set_level (configured_level (lg_name (logger_at s a)) (reg s))) s"

text \<open>
  The factory: a new logger at the fresh address \<open>a\<close> with one new sink at the fresh address \<open>i\<close>.
\<close>

definition create_logger :: "('s, 'f) formatter_ops \<Rightarrow> 's \<Rightarrow> nat \<Rightarrow> nat \<Rightarrow> string \<Rightarrow> ('s, 'f) spd
    \<Rightarrow> string option \<times> ('s, 'f) spd" where
  "create_logger fo new_sink i a n s =
     initialize_logger fo a
       (s\<lparr>world := (world s)\<lparr>sinks := (sinks (world s))(i := \<lparr>sink_level = trace, sink_state = new_sink\<rparr>)\<rparr>,
          logger_at := (logger_at s)(a := logger_new n [i])\<rparr>)"

section \<open>Levels from the environment\<close>

definition to_lower :: "string \<Rightarrow> string" where
  "to_lower str =
     map (\<lambda>ch. let k = of_char ch :: nat in if 65 \<le> k \<and> k \<le> 90 then char_of (k + 32) else ch) str"

definition is_space :: "char \<Rightarrow> bool" where
  "is_space c = (c = CHR '' '' \<or> c = CHR 0x0A \<or> c = CHR 0x0D \<or> c = CHR 0x09)"

definition trim :: "string \<Rightarrow> string" where
  "trim str = dropWhile is_space (rev (dropWhile is_space (rev str)))"

definition extract_kv :: "char \<Rightarrow> string \<Rightarrow> string \<times> string" where
  "extract_kv sep str =
     (let k = takeWhile (\<lambda>c. c \<noteq> sep) str in
      if k = str then (trim [], trim str) else (trim k, trim (drop (length k + 1) str)))"

text \<open>
  \<open>std::getline\<close> with a delimiter: the tokens of a text; a text that ends with the delimiter has no
  empty token behind it.
\<close>

function tokens :: "char \<Rightarrow> string \<Rightarrow> string list" where
  "tokens d [] = []"
| "tokens d (c # cs) =
     takeWhile (\<lambda>x. x \<noteq> d) (c # cs) # tokens d (drop 1 (dropWhile (\<lambda>x. x \<noteq> d) (c # cs)))"
  by pat_completeness auto
termination
  by (relation "measure (\<lambda>(d, s). length s)")
    (auto simp: less_Suc_eq_le le_diff_conv intro: order_trans [OF length_dropWhile_le])

definition extract_key_vals :: "string \<Rightarrow> (string \<times> string) list" where
  "extract_key_vals str =
     fold (\<lambda>token rv. if token = [] then rv
                      else case extract_kv (CHR ''='') token of (k, v) \<Rightarrow> assoc_put k v rv)
       (tokens (CHR '','') str) []"

text \<open>One round of the loop of \<open>load_levels\<close>: unknown level names are ignored.\<close>

definition add_level :: "string \<times> string \<Rightarrow> (string \<times> level_enum) list \<times> level_enum option
    \<Rightarrow> (string \<times> level_enum) list \<times> level_enum option" where
  "add_level name_level st =
     (case (name_level, st) of ((name, v), (levels, global)) \<Rightarrow>
        let level_name = to_lower v; level = from_str level_name in
        if level = off \<and> level_name \<noteq> ''off'' then (levels, global)
        else if name = [] then (levels, Some level)
        else (assoc_put name level levels, global))"

definition load_levels :: "string \<Rightarrow> ('s, 'f) spd \<Rightarrow> ('s, 'f) spd" where
  "load_levels input s =
     (if input = [] \<or> length input > 512 then s
      else case fold add_level (extract_key_vals input) ([], None) of
             (levels, global) \<Rightarrow> set_levels levels global s)"

definition load_env_levels :: "(string \<Rightarrow> string) \<Rightarrow> string \<Rightarrow> ('s, 'f) spd \<Rightarrow> ('s, 'f) spd" where
  "load_env_levels getenv var s =
     (let env_val = getenv var in if env_val \<noteq> [] then load_levels env_val s else s)"

definition load_argv_levels :: "string list \<Rightarrow> ('s, 'f) spd \<Rightarrow> ('s, 'f) spd" where
  "load_argv_levels argv s =
     fold (\<lambda>arg s. let prefix = ''SPDLOG_LEVEL='' in
             if take (length prefix) arg = prefix then load_levels (drop (length prefix) arg) s else s)
       (drop 1 argv) s"

section \<open>The map of the loggers\<close>

text \<open>
  Every entry of the map stands under the name of its logger, and no name stands twice: two
  loggers of one name are refused.
\<close>

definition reg_ok :: "('s, 'f) spd \<Rightarrow> bool" where
  "reg_ok s =
     (distinct (map fst (loggers (reg s)))
      \<and> (\<forall>(n, a) \<in> set (loggers (reg s)). lg_name (logger_at s a) = n))"

text \<open>Operations that change one logger but not its name keep the map in order.\<close>

definition keeps_name :: "(logger \<Rightarrow> logger) \<Rightarrow> bool" where
  "keeps_name f = (\<forall>lg. lg_name (f lg) = lg_name lg)"

lemma keeps_name_ops [simp]:
  "keeps_name (logger_set_level l)" "keeps_name (flush_on l)" "keeps_name (enable_backtrace n)"
  "keeps_name disable_backtrace" "keeps_name set_error_handler"
  by (simp_all add: keeps_name_def logger_set_level_def flush_on_def enable_backtrace_def
      disable_backtrace_def set_error_handler_def)

lemma on_logger_fields [simp]:
  "reg (on_logger a f s) = reg s" "world (on_logger a f s) = world s"
  "logger_at (on_logger a f s) = (logger_at s)(a := f (logger_at s a))"
  by (simp_all add: on_logger_def)

lemma on_logger_name [simp]:
  "keeps_name f \<Longrightarrow> lg_name (logger_at (on_logger a f s) b) = lg_name (logger_at s b)"
  by (simp add: keeps_name_def)

lemma reg_ok_cong:
  assumes "loggers (reg t) = loggers (reg s)" and "\<And>b. lg_name (logger_at t b) = lg_name (logger_at s b)"
  shows "reg_ok t \<longleftrightarrow> reg_ok s"
  using assms by (simp add: reg_ok_def)

lemma fold_on_logger:
  "loggers (reg (fold (\<lambda>(n, a). on_logger a f) xs s)) = loggers (reg s)"
  "keeps_name f \<Longrightarrow> lg_name (logger_at (fold (\<lambda>(n, a). on_logger a f) xs s) b) = lg_name (logger_at s b)"
  by (induction xs arbitrary: s) (auto simp: keeps_name_def)

lemma reg_ok_on_all: "keeps_name f \<Longrightarrow> reg_ok (on_all f s) \<longleftrightarrow> reg_ok s"
  unfolding on_all_def by (rule reg_ok_cong) (simp_all add: fold_on_logger)

lemma assoc_put_keys:
  "map fst (assoc_put k v m) = (if map_of m k = None then map fst m @ [k] else map fst m)"
  by (simp add: assoc_put_def comp_def case_prod_unfold)

lemma set_assoc_put: "set (assoc_put k v m) \<subseteq> insert (k, v) (set m)"
  by (auto simp: assoc_put_def split: if_splits)

lemma distinct_assoc_put: "distinct (map fst m) \<Longrightarrow> distinct (map fst (assoc_put k v m))"
  by (simp add: assoc_put_keys map_of_eq_None_iff)

lemma register_or_replace_ok: "reg_ok s \<Longrightarrow> reg_ok (register_or_replace a s)"
  using set_assoc_put [of "lg_name (logger_at s a)" a "loggers (reg s)"]
  by (auto simp: reg_ok_def register_or_replace_def distinct_assoc_put)

lemma register_logger_ok: "reg_ok s \<Longrightarrow> reg_ok (snd (register_logger a s))"
  by (simp add: register_logger_def register_or_replace_ok split: option.split)

lemma initialize_logger_ok:
  assumes "reg_ok s"
  shows "reg_ok (snd (initialize_logger fo a s))"
proof -
  have "reg_ok (logger_set_formatter fo f a s)" for f
    using assms by (simp add: reg_ok_def logger_set_formatter_def)
  moreover have "reg_ok (on_logger a f s) \<longleftrightarrow> reg_ok s" if "keeps_name f" for f and s :: "('a, 'b) spd"
    using that by (intro reg_ok_cong) (simp_all add: keeps_name_def)
  ultimately show ?thesis
    by (simp add: initialize_logger_def Let_def register_logger_ok)
qed

lemma reg_drop_ok: "reg_ok s \<Longrightarrow> reg_ok (reg_drop n s)"
  by (auto simp: reg_ok_def reg_drop_def assoc_erase_def Let_def distinct_map_filter)

text \<open>
  A new logger that the factory makes is registered under its name with the level configured for
  this name, else the global level, unless the name is taken.
\<close>

lemma created_logger:
  assumes "automatic_registration (reg s)" and "map_of (loggers (reg s)) n = None"
  shows "fst (create_logger fo k i a n s) = None"
    and "reg_get n (snd (create_logger fo k i a n s)) = Some a"
    and "lg_level (logger_at (snd (create_logger fo k i a n s)) a) = configured_level n (reg s)"
    and "lg_sinks (logger_at (snd (create_logger fo k i a n s)) a) = [i]"
  using assms
  by (simp_all add: create_logger_def initialize_logger_def Let_def logger_set_formatter_def
      register_logger_def throw_if_exists_def register_or_replace_def reg_get_def map_of_assoc_put
      logger_new_def logger_set_level_def flush_on_def enable_backtrace_def set_error_handler_def)

lemma created_twice:
  assumes "automatic_registration (reg s)" and "map_of (loggers (reg s)) n \<noteq> None"
  shows "fst (create_logger fo k i a n s) \<noteq> None"
    and "loggers (reg (snd (create_logger fo k i a n s))) = loggers (reg s)"
  using assms
  by (auto simp: create_logger_def initialize_logger_def Let_def logger_set_formatter_def
      register_logger_def throw_if_exists_def logger_new_def logger_set_level_def flush_on_def
      enable_backtrace_def set_error_handler_def)

text \<open>The global level reaches every registered logger and every later one without its own level.\<close>

lemma fold_set_level:
  "lg_level (logger_at (fold (\<lambda>(n, a). on_logger a (logger_set_level l)) xs s) b)
    = (if b \<in> snd ` set xs then l else lg_level (logger_at s b))"
  by (induction xs arbitrary: s) (auto simp: logger_set_level_def)

lemma set_level_reaches_all:
  "map_of (loggers (reg s)) n = Some a \<Longrightarrow> lg_level (logger_at (reg_set_level l s) a) = l"
  "global_log_level (reg (reg_set_level l s)) = l"
  by (auto simp: reg_set_level_def on_all_def Let_def fold_set_level image_iff dest!: map_of_SomeD)

section \<open>The text of levels is read back\<close>

definition level_text :: "level_enum \<Rightarrow> string" where
  "level_text l = level_string_views ! level_int l"

definition print_level :: "string \<times> level_enum \<Rightarrow> string" where
  "print_level e = fst e @ CHR ''='' # level_text (snd e)"

fun print_levels :: "(string \<times> level_enum) list \<Rightarrow> string" where
  "print_levels [] = []"
| "print_levels [e] = print_level e"
| "print_levels (e # es) = print_level e @ CHR '','' # print_levels es"

text \<open>A name that \<open>trim\<close> leaves alone and that has no separator in it.\<close>

definition plain_name :: "string \<Rightarrow> bool" where
  "plain_name n =
     (n \<noteq> [] \<and> \<not> is_space (hd n) \<and> \<not> is_space (last n) \<and> CHR '','' \<notin> set n \<and> CHR ''='' \<notin> set n)"

lemma trim_id: "n \<noteq> [] \<Longrightarrow> \<not> is_space (hd n) \<Longrightarrow> \<not> is_space (last n) \<Longrightarrow> trim n = n"
proof -
  assume n: "n \<noteq> []" "\<not> is_space (hd n)" "\<not> is_space (last n)"
  have "dropWhile is_space (rev n) = rev n"
    using n(1,3) by (cases "rev n") (auto simp: last_rev hd_rev [symmetric] last_conv_nth)
  then show "trim n = n" using n(1,2) by (cases n) (simp_all add: trim_def)
qed

lemma level_text_plain:
  assumes "l \<noteq> n_levels"
  shows "plain_name (level_text l)" and "to_lower (level_text l) = level_text l"
    and "from_str (level_text l) = l" and "l = off \<Longrightarrow> level_text l = ''off''"
  using assms
  by (cases l; simp add: level_text_def level_string_views_def plain_name_def is_space_def to_lower_def
      from_str_def Let_def level_of_int_def)+

lemma tokens_one: "t \<noteq> [] \<Longrightarrow> d \<notin> set t \<Longrightarrow> tokens d t = [t]"
proof -
  assume t: "t \<noteq> []" "d \<notin> set t"
  then have "takeWhile (\<lambda>x. x \<noteq> d) t = t" "dropWhile (\<lambda>x. x \<noteq> d) t = []" by auto
  then show ?thesis using t(1) by (cases t) (simp_all only: tokens.simps drop_Nil list.distinct)
qed

lemma tokens_more: "t \<noteq> [] \<Longrightarrow> d \<notin> set t \<Longrightarrow> tokens d (t @ d # rest) = t # tokens d rest"
proof -
  assume t: "t \<noteq> []" "d \<notin> set t"
  then have "takeWhile (\<lambda>x. x \<noteq> d) (t @ d # rest) = t" "dropWhile (\<lambda>x. x \<noteq> d) (t @ d # rest) = d # rest"
    by (auto simp: takeWhile_append dropWhile_append)
  then show ?thesis using t(1)
    by (cases "t @ d # rest") (simp_all del: takeWhile.simps dropWhile.simps)
qed

lemma extract_kv_print:
  assumes "plain_name n" and "plain_name v"
  shows "extract_kv (CHR ''='') (n @ CHR ''='' # v) = (n, v)"
proof -
  have "takeWhile (\<lambda>c. c \<noteq> CHR ''='') (n @ CHR ''='' # v) = n"
    using assms(1) by (auto simp: plain_name_def takeWhile_append)
  then show ?thesis using assms by (simp add: extract_kv_def trim_id plain_name_def)
qed

lemma print_level_token:
  assumes "plain_name (fst e)" and "snd e \<noteq> n_levels"
  shows "print_level e \<noteq> []" and "CHR '','' \<notin> set (print_level e)"
  using assms level_text_plain(1) [OF assms(2)] by (auto simp: print_level_def plain_name_def)

lemma tokens_print_levels:
  "\<forall>e \<in> set es. plain_name (fst e) \<and> snd e \<noteq> n_levels \<Longrightarrow>
   tokens (CHR '','') (print_levels es) = map print_level es"
  by (induction es rule: print_levels.induct) (simp_all add: tokens_one tokens_more print_level_token)

lemma assoc_put_new: "k \<notin> fst ` set m \<Longrightarrow> assoc_put k v m = m @ [(k, v)]"
  by (simp add: assoc_put_def map_of_eq_None_iff)

lemma extract_key_vals_print:
  assumes "\<forall>e \<in> set es. plain_name (fst e) \<and> snd e \<noteq> n_levels" and "distinct (map fst es)"
  shows "extract_key_vals (print_levels es) = map (\<lambda>e. (fst e, level_text (snd e))) es"
proof -
  have "fold (\<lambda>token rv. if token = [] then rv
                else case extract_kv (CHR ''='') token of (k, v) \<Rightarrow> assoc_put k v rv)
          (map print_level es) acc = acc @ map (\<lambda>e. (fst e, level_text (snd e))) es"
    if "distinct (map fst acc @ map fst es)" for acc
    using that assms(1)
  proof (induction es arbitrary: acc)
    case (Cons e es)
    have "extract_kv (CHR ''='') (print_level e) = (fst e, level_text (snd e))"
      using Cons.prems(2) by (simp add: print_level_def extract_kv_print level_text_plain)
    then show ?case using Cons by (simp add: print_level_token assoc_put_new)
  qed simp
  from this [of "[]"] show ?thesis using assms by (simp add: extract_key_vals_def tokens_print_levels)
qed

lemma add_levels_print:
  assumes "\<forall>e \<in> set es. plain_name (fst e) \<and> snd e \<noteq> n_levels" and "distinct (map fst acc @ map fst es)"
  shows "fold add_level (map (\<lambda>e. (fst e, level_text (snd e))) es) (acc, g) = (acc @ es, g)"
  using assms
proof (induction es arbitrary: acc)
  case (Cons e es)
  have "add_level (fst e, level_text (snd e)) (acc, g) = (acc @ [e], g)"
    using Cons.prems level_text_plain(2-4) [of "snd e"]
    by (auto simp: add_level_def Let_def plain_name_def assoc_put_new)
  then show ?case using Cons by simp
qed simp

text \<open>
  A text that lists loggers with level names sets exactly these levels, when it has at most 512
  characters; a longer one is ignored.
\<close>

lemma load_levels_print:
  assumes "\<forall>e \<in> set es. plain_name (fst e) \<and> snd e \<noteq> n_levels" and "distinct (map fst es)"
    and "es \<noteq> []" and "length (print_levels es) \<le> 512"
  shows "load_levels (print_levels es) s = set_levels es None s"
proof -
  have "print_levels es \<noteq> []"
    using assms(1,3) by (cases es rule: print_levels.cases) (simp_all add: print_level_token)
  then show ?thesis
    using assms(2,4) extract_key_vals_print [OF assms(1,2)] add_levels_print [OF assms(1), of "[]" None]
    by (simp add: load_levels_def)
qed

lemma long_levels_ignored: "512 < length input \<Longrightarrow> load_levels input s = s"
  by (simp add: load_levels_def)


end
