(* ===== verification/Stringify.thy ===== *)
theory Stringify
  imports Text_Format
begin

text \<open>
  \<open>value_to_string\<close> and \<open>kv_to_string\<close> of \<open>src/src/mechanism/stringification.hpp\<close>: printing a
  value of any supported type into a character buffer of fixed size. The chain of
  \<open>if constexpr\<close> on the C++ type is a case distinction on the value.
\<close>

section \<open>Values\<close>

text \<open>
  A floating point number stands as its \<open>{:.2f}\<close> text, a type with its own
  \<open>std::formatter\<close> as the text this gives. \<open>SCustom\<close> is an object with a \<open>to_string\<close>
  method; the methods are a parameter. A pointer has an address, and, unless it is a
  \<open>void *\<close>, a target.
\<close>

datatype sval =
    SStr string
  | SNull
  | SPtr nat "sval option"
  | SEnum int
  | SBool bool
  | SInt int
  | SChar char
  | SFloat string
  | SCustom nat
  | SFormat string
  | SSeq "sval list"
  | SStruct "(string \<times> sval) list"

type_synonym cursor = "string \<times> int"

type_synonym to_string_methods = "nat \<Rightarrow> string \<Rightarrow> int \<Rightarrow> int \<Rightarrow> fault + cursor"

section \<open>Printing\<close>

text \<open>The macro \<open>FORMAT_TO\<close> of \<open>value_to_string\<close> for a text.\<close>

definition FORMAT_TO :: "int \<Rightarrow> string \<Rightarrow> cursor \<Rightarrow> fault + cursor" where
  "FORMAT_TO buffer_len text st =
     (case st of (buffer, pos) \<Rightarrow>
        if pos < buffer_len
        then andthen (format_to_n buffer pos (buffer_len - pos) text) (\<lambda>(buffer, _).
               let size = int (length text) in
               Inr (buffer, if pos + size \<le> buffer_len then pos + size else buffer_len))
        else Inr (buffer, pos))"

text \<open>The macro of the same name in \<open>kv_to_string\<close>: its bound is the whole buffer length.\<close>

definition KV_FORMAT_TO :: "int \<Rightarrow> string \<Rightarrow> cursor \<Rightarrow> fault + cursor" where
  "KV_FORMAT_TO buffer_len text st =
     (case st of (buffer, pos) \<Rightarrow>
        andthen (format_to_n buffer pos buffer_len text) (\<lambda>(buffer, _).
          Inr (buffer, pos + int (length text))))"

definition hex_addr :: "nat \<Rightarrow> string" where
  "hex_addr a = ''0x'' @ hex a"

definition MAX_PRINT_SIZE :: nat where "MAX_PRINT_SIZE = 8"

definition braced :: "int \<Rightarrow> bool \<Rightarrow> (cursor \<Rightarrow> fault + cursor) \<Rightarrow> cursor \<Rightarrow> fault + cursor" where
  "braced len with_key body st =
     (if with_key
      then andthen (FORMAT_TO len ''{'' st) (\<lambda>st. andthen (body st) (\<lambda>st. FORMAT_TO len ''}'' st))
      else body st)"

lemma braced_cong [fundef_cong]:
  "len = len' \<Longrightarrow> k = k' \<Longrightarrow> st = st' \<Longrightarrow> (\<And>x. body x = body' x) \<Longrightarrow> braced len k body st = braced len' k' body' st'"
  by (simp add: braced_def)

fun value_to_string ::
    "to_string_methods \<Rightarrow> sval \<Rightarrow> int \<Rightarrow> bool \<Rightarrow> cursor \<Rightarrow> fault + cursor"
  and elems_to_string ::
    "to_string_methods \<Rightarrow> sval list \<Rightarrow> nat \<Rightarrow> int \<Rightarrow> cursor \<Rightarrow> fault + cursor"
  and members_to_string ::
    "to_string_methods \<Rightarrow> (string \<times> sval) list \<Rightarrow> int \<Rightarrow> cursor \<Rightarrow> fault + cursor" where
  "value_to_string m (SStr s) len with_key st = FORMAT_TO len s st"
| "value_to_string m SNull len with_key st = FORMAT_TO len ''NULL'' st"
| "value_to_string m (SPtr a target) len with_key st =
     (case target of
        Some v \<Rightarrow> andthen (FORMAT_TO len (''('' @ hex_addr a @ ''):'') st)
                   (\<lambda>st. value_to_string m v len with_key st)
      | None \<Rightarrow> FORMAT_TO len (hex_addr a) st)"
| "value_to_string m (SEnum x) len with_key st = FORMAT_TO len (dec_int x) st"
| "value_to_string m (SBool b) len with_key st = FORMAT_TO len (if b then ''true'' else ''false'') st"
| "value_to_string m (SInt x) len with_key st = FORMAT_TO len (dec_int x) st"
| "value_to_string m (SChar c) len with_key st = FORMAT_TO len [CHR 0x27, c, CHR 0x27] st"
| "value_to_string m (SFloat s) len with_key st = FORMAT_TO len s st"
| "value_to_string m (SCustom k) len with_key st =
     braced len with_key (\<lambda>(buffer, pos). m k buffer len pos) st"
| "value_to_string m (SFormat s) len with_key st = braced len with_key (FORMAT_TO len s) st"
| "value_to_string m (SSeq vs) len with_key st =
     braced len with_key (\<lambda>st.
       andthen (FORMAT_TO len ''['' st) (\<lambda>st.
       andthen (elems_to_string m vs 0 len st) (\<lambda>st.
       andthen (if length vs > MAX_PRINT_SIZE
                then FORMAT_TO len (''..('' @ dec (length vs - MAX_PRINT_SIZE) @ '' more)'') st
                else Inr st) (\<lambda>st.
       FORMAT_TO len '']'' st)))) st"
| "value_to_string m (SStruct ms) len with_key st =
     braced len with_key (\<lambda>st.
       andthen (members_to_string m ms len st) (\<lambda>(buffer, pos).
         Inr (buffer, if ms \<noteq> [] then pos - 2 else pos))) st"
| "elems_to_string m vs idx len st =
     (case vs of
        [] \<Rightarrow> Inr st
      | v # vs \<Rightarrow>
          (if idx < MAX_PRINT_SIZE
           then andthen (value_to_string m v len True st) (\<lambda>st.
                andthen (if idx < MAX_PRINT_SIZE - 1 \<and> vs \<noteq> [] then FORMAT_TO len '', '' st else Inr st)
                  (\<lambda>st. elems_to_string m vs (Suc idx) len st))
           else Inr st))"
| "members_to_string m ms len st =
     (case ms of
        [] \<Rightarrow> Inr st
      | (key, v) # ms \<Rightarrow>
          andthen (KV_FORMAT_TO len (key @ '':'') st) (\<lambda>st.
          andthen (value_to_string m v len True st) (\<lambda>st.
          andthen (FORMAT_TO len '', '' st) (\<lambda>st. members_to_string m ms len st))))"

declare elems_to_string.simps [simp del] members_to_string.simps [simp del]

lemma elems_to_string_simps [simp]:
  "elems_to_string m [] idx len st = Inr st"
  "elems_to_string m (v # vs) idx len st =
     (if idx < MAX_PRINT_SIZE
      then andthen (value_to_string m v len True st) (\<lambda>st.
           andthen (if idx < MAX_PRINT_SIZE - 1 \<and> vs \<noteq> [] then FORMAT_TO len '', '' st else Inr st)
             (\<lambda>st. elems_to_string m vs (Suc idx) len st))
      else Inr st)"
  by (subst elems_to_string.simps, simp)+

lemma members_to_string_simps [simp]:
  "members_to_string m [] len st = Inr st"
  "members_to_string m ((key, v) # ms) len st =
     andthen (KV_FORMAT_TO len (key @ '':'') st) (\<lambda>st.
     andthen (value_to_string m v len True st) (\<lambda>st.
     andthen (FORMAT_TO len '', '' st) (\<lambda>st. members_to_string m ms len st)))"
  by (subst members_to_string.simps, simp)+

definition kv_to_string ::
    "to_string_methods \<Rightarrow> string \<Rightarrow> sval \<Rightarrow> int \<Rightarrow> cursor \<Rightarrow> fault + cursor" where
  "kv_to_string m key v len st =
     andthen (KV_FORMAT_TO len (key @ '':'') st) (\<lambda>st. value_to_string m v len True st)"

section \<open>Specification: the text of a value\<close>

definition brace :: "bool \<Rightarrow> string \<Rightarrow> string" where
  "brace k s = (if k then ''{'' @ s @ ''}'' else s)"

fun text_of :: "(nat \<Rightarrow> string) \<Rightarrow> bool \<Rightarrow> sval \<Rightarrow> string"
  and text_elems :: "(nat \<Rightarrow> string) \<Rightarrow> sval list \<Rightarrow> nat \<Rightarrow> string"
  and text_members :: "(nat \<Rightarrow> string) \<Rightarrow> (string \<times> sval) list \<Rightarrow> string" where
  "text_of c k (SStr s) = s"
| "text_of c k SNull = ''NULL''"
| "text_of c k (SPtr a target) =
     (case target of Some v \<Rightarrow> ''('' @ hex_addr a @ ''):'' @ text_of c k v | None \<Rightarrow> hex_addr a)"
| "text_of c k (SEnum x) = dec_int x"
| "text_of c k (SBool b) = (if b then ''true'' else ''false'')"
| "text_of c k (SInt x) = dec_int x"
| "text_of c k (SChar ch) = [CHR 0x27, ch, CHR 0x27]"
| "text_of c k (SFloat s) = s"
| "text_of c k (SCustom i) = brace k (c i)"
| "text_of c k (SFormat s) = brace k s"
| "text_of c k (SSeq vs) = brace k (''['' @ text_elems c vs 0 @
     (if length vs > MAX_PRINT_SIZE then ''..('' @ dec (length vs - MAX_PRINT_SIZE) @ '' more)'' else '''') @ '']'')"
| "text_of c k (SStruct ms) = brace k (let t = text_members c ms in take (length t - 2) t)"
| "text_elems c vs idx =
     (case vs of
        [] \<Rightarrow> ''''
      | v # vs \<Rightarrow>
          (if idx < MAX_PRINT_SIZE
           then text_of c True v @ (if idx < MAX_PRINT_SIZE - 1 \<and> vs \<noteq> [] then '', '' else '''')
             @ text_elems c vs (Suc idx)
           else ''''))"
| "text_members c ms =
     (case ms of
        [] \<Rightarrow> ''''
      | (key, v) # ms \<Rightarrow> key @ '':'' @ text_of c True v @ '', '' @ text_members c ms)"

declare text_elems.simps [simp del] text_members.simps [simp del]

lemma text_elems_simps [simp]:
  "text_elems c [] idx = ''''"
  "text_elems c (v # vs) idx =
     (if idx < MAX_PRINT_SIZE
      then text_of c True v @ (if idx < MAX_PRINT_SIZE - 1 \<and> vs \<noteq> [] then '', '' else '''')
        @ text_elems c vs (Suc idx)
      else '''')"
  by (subst text_elems.simps, simp)+

lemma text_members_simps [simp]:
  "text_members c [] = ''''"
  "text_members c ((key, v) # ms) = key @ '':'' @ text_of c True v @ '', '' @ text_members c ms"
  by (subst text_members.simps, simp)+

end
