(* ===== verification/Serialization.thy ===== *)
theory Serialization
  imports Prelude
begin

text \<open>
  The binary serializer of \<open>src/src/mechanism/serialization.hpp\<close> with the specialisations
  for \<open>Error\<close> and \<open>Expected<T>\<close> of \<open>src/src/error_define/error_struct.h\<close>, over the static
  reflection of \<open>src/src/mechanism/static_reflection.hpp\<close>.

  \<open>Serializer<T>\<close> is resolved by the C++ compiler on the type \<open>T\<close>; the model resolves the
  same chain of \<open>if constexpr\<close> on a description of the type (\<open>cty\<close>). A reflected struct is
  the list of its members in the order of \<open>STATIC_REFLECT\<close>, which is the order
  \<open>reflect_for_each\<close> visits them in. The output buffer is a byte list with a position; the
  length argument is separate, as in the code.
\<close>

section \<open>Types and values\<close>

datatype cty =
    TBool
  | TNum nat             \<comment> \<open>integral or floating type of the given \<open>sizeof\<close>\<close>
  | TEnum bool nat       \<comment> \<open>enum: is the underlying type signed, its \<open>sizeof\<close>\<close>
  | TPtr cty
  | TCustom nat          \<comment> \<open>a class with its own \<open>serialize\<close> methods (\<open>Serializable\<close>)\<close>
  | TString
  | TVector cty
  | TRange cty           \<comment> \<open>any other iterable container\<close>
  | TStruct "cty list"   \<comment> \<open>a class known to \<open>STATIC_REFLECT\<close>\<close>
  | TError
  | TExpected cty

text \<open>
  A number is its bit pattern read as an unsigned integer; an enumerator and an error code
  are integers; \<open>VCustom\<close> holds the state of a self-serializing object, encoded as a number.
\<close>

datatype cval =
    VBool bool
  | VNum nat
  | VEnum int
  | VNull
  | VRef cval
  | VCustom nat
  | VString bytes
  | VSeq "cval list"
  | VStruct "cval list"
  | VError int
  | VValue cval          \<comment> \<open>an \<open>Expected\<close> that holds a value\<close>
  | VUnexp int           \<comment> \<open>an \<open>Expected\<close> that holds an error code\<close>

datatype endian = Little | Big

record sbuf =
  sb_bytes :: bytes
  sb_pos :: int

text \<open>
  The user's \<open>serialize\<close>, \<open>deserialize\<close> and \<open>get_serialize_size\<close> methods of a custom class
  are parameters, as are the native byte order and the largest element count that
  \<open>reserve\<close> and \<open>resize\<close> can provide.
\<close>

record custom_ops =
  cu_ser :: "nat \<Rightarrow> nat \<Rightarrow> int \<Rightarrow> sbuf \<Rightarrow> fault + sbuf"
  cu_des :: "nat \<Rightarrow> nat \<Rightarrow> int \<Rightarrow> bytes \<Rightarrow> int \<Rightarrow> fault + (nat \<times> int)"
  cu_size :: "nat \<Rightarrow> nat \<Rightarrow> int"
  cu_init :: "nat \<Rightarrow> nat"

record codec =
  cd_endian :: endian
  cd_cap :: nat
  cd_custom :: custom_ops

section \<open>Fundamental types\<close>

definition obj_repr :: "endian \<Rightarrow> nat \<Rightarrow> nat \<Rightarrow> bytes" where
  "obj_repr e n v = (case e of Little \<Rightarrow> le_bytes n v | Big \<Rightarrow> rev (le_bytes n v))"

definition obj_value :: "endian \<Rightarrow> bytes \<Rightarrow> nat" where
  "obj_value e bs = (case e of Little \<Rightarrow> of_le bs | Big \<Rightarrow> of_le (rev bs))"

definition byteswap :: "nat \<Rightarrow> nat \<Rightarrow> nat" where
  "byteswap n v = of_le (rev (le_bytes n v))"

text \<open>
  \<open>pos + sizeof(x) > buffer_len\<close> mixes \<open>int64_t\<close> with \<open>size_t\<close>, so it is an unsigned
  comparison of an unsigned sum; \<open>pos += sizeof(x)\<close> converts the sum back.
\<close>

definition exceeds :: "int \<Rightarrow> nat \<Rightarrow> int \<Rightarrow> bool" where
  "exceeds pos n len = (to_u64 (to_u64 pos + int n) > to_u64 len)"

definition advance :: "int \<Rightarrow> nat \<Rightarrow> int" where
  "advance pos n = to_i64 (to_u64 (to_u64 pos + int n))"

definition ser_fundamental :: "endian \<Rightarrow> nat \<Rightarrow> nat \<Rightarrow> int \<Rightarrow> sbuf \<Rightarrow> fault + sbuf" where
  "ser_fundamental e n v len s =
     (case e of
        Big \<Rightarrow>
          (let data_copy = byteswap n v in
           if exceeds (sb_pos s) n len then Inl Out_of_range
           else andthen (mem_write (sb_bytes s) (sb_pos s) (obj_repr e n data_copy))
                  (\<lambda>b. Inr \<lparr>sb_bytes = b, sb_pos = advance (sb_pos s) n\<rparr>))
      | Little \<Rightarrow>
          (if exceeds (sb_pos s) n len then Inl Out_of_range
           else andthen (mem_write (sb_bytes s) (sb_pos s) (obj_repr e n v))
                  (\<lambda>b. Inr \<lparr>sb_bytes = b, sb_pos = advance (sb_pos s) n\<rparr>)))"

definition des_fundamental :: "endian \<Rightarrow> nat \<Rightarrow> int \<Rightarrow> bytes \<Rightarrow> int \<Rightarrow> fault + (nat \<times> int)" where
  "des_fundamental e n len buf pos =
     (case e of
        Big \<Rightarrow>
          (if exceeds pos n len then Inl Out_of_range
           else andthen (mem_read buf pos n)
                  (\<lambda>bs. let data_copy = obj_value e bs in
                        Inr (byteswap n data_copy, advance pos n)))
      | Little \<Rightarrow>
          (if exceeds pos n len then Inl Out_of_range
           else andthen (mem_read buf pos n) (\<lambda>bs. Inr (obj_value e bs, advance pos n))))"

text \<open>
  \<open>bool\<close> and \<open>int64_t\<close> are fundamental too. A byte other than 0 and 1 is no value of
  \<open>bool\<close>: using it is undefined.
\<close>

definition ser_bool :: "endian \<Rightarrow> bool \<Rightarrow> int \<Rightarrow> sbuf \<Rightarrow> fault + sbuf" where
  "ser_bool e b len s = ser_fundamental e 1 (if b then 1 else 0) len s"

definition des_bool :: "endian \<Rightarrow> int \<Rightarrow> bytes \<Rightarrow> int \<Rightarrow> fault + (bool \<times> int)" where
  "des_bool e len buf pos =
     andthen (des_fundamental e 1 len buf pos)
       (\<lambda>(v, p). if v = 0 then Inr (False, p) else if v = 1 then Inr (True, p)
                 else Inl Ub_invalid_bool)"

definition ser_int64 :: "endian \<Rightarrow> int \<Rightarrow> int \<Rightarrow> sbuf \<Rightarrow> fault + sbuf" where
  "ser_int64 e x len s = ser_fundamental e 8 (nat (to_u64 x)) len s"

definition des_int64 :: "endian \<Rightarrow> int \<Rightarrow> bytes \<Rightarrow> int \<Rightarrow> fault + (int \<times> int)" where
  "des_int64 e len buf pos =
     andthen (des_fundamental e 8 len buf pos) (\<lambda>(v, p). Inr (to_i64 (int v), p))"

text \<open>Conversion of an \<open>int64_t\<close> to an enum: to the width and sign of its underlying type.\<close>

definition enum_of_int64 :: "bool \<Rightarrow> nat \<Rightarrow> int \<Rightarrow> int" where
  "enum_of_int64 sg n x =
     (if sg then (x + 2 ^ (8 * n - 1)) mod 2 ^ (8 * n) - 2 ^ (8 * n - 1) else x mod 2 ^ (8 * n))"

section \<open>Error: the 32-bit error code\<close>

definition ser_error :: "endian \<Rightarrow> int \<Rightarrow> int \<Rightarrow> sbuf \<Rightarrow> fault + sbuf" where
  "ser_error e err len s = ser_fundamental e 4 (nat (err mod 4294967296)) len s"

definition des_error :: "endian \<Rightarrow> int \<Rightarrow> bytes \<Rightarrow> int \<Rightarrow> fault + (int \<times> int)" where
  "des_error e len buf pos =
     andthen (des_fundamental e 4 len buf pos) (\<lambda>(v, p). Inr (enum_of_int64 True 4 (int v), p))"

definition error_size :: int where
  "error_size = 4"

section \<open>Serialization\<close>

text \<open>
  \<open>pos + str_len > buffer_len\<close> for a string is signed \<open>int64_t\<close> arithmetic: an overflow is
  undefined. The characters are then copied.
\<close>

definition ser_chars :: "bytes \<Rightarrow> int \<Rightarrow> sbuf \<Rightarrow> fault + sbuf" where
  "ser_chars cs len s =
     (let str_len = int (length cs) in
      if \<not> in_i64 (sb_pos s + str_len) then Inl Ub_overflow
      else if sb_pos s + str_len > len then Inl Out_of_range
      else andthen (mem_write (sb_bytes s) (sb_pos s) cs)
             (\<lambda>b. Inr \<lparr>sb_bytes = b, sb_pos = sb_pos s + str_len\<rparr>))"

fun serialize :: "codec \<Rightarrow> cty \<Rightarrow> cval \<Rightarrow> int \<Rightarrow> sbuf \<Rightarrow> fault + sbuf"
  and ser_elems :: "codec \<Rightarrow> cty \<Rightarrow> cval list \<Rightarrow> int \<Rightarrow> sbuf \<Rightarrow> fault + sbuf"
  and ser_members :: "codec \<Rightarrow> cty list \<Rightarrow> cval list \<Rightarrow> int \<Rightarrow> sbuf \<Rightarrow> fault + sbuf" where
  "serialize c (TPtr t) v len s =
     (case v of
        VNull \<Rightarrow> ser_bool (cd_endian c) True len s
      | VRef w \<Rightarrow> andthen (ser_bool (cd_endian c) False len s) (\<lambda>s. serialize c t w len s)
      | _ \<Rightarrow> Inl Ill_typed)"
| "serialize c (TEnum sg n) v len s =
     (case v of VEnum x \<Rightarrow> ser_int64 (cd_endian c) x len s | _ \<Rightarrow> Inl Ill_typed)"
| "serialize c TBool v len s =
     (case v of VBool b \<Rightarrow> ser_bool (cd_endian c) b len s | _ \<Rightarrow> Inl Ill_typed)"
| "serialize c (TNum n) v len s =
     (case v of VNum x \<Rightarrow> ser_fundamental (cd_endian c) n x len s | _ \<Rightarrow> Inl Ill_typed)"
| "serialize c (TCustom k) v len s =
     (case v of VCustom x \<Rightarrow> cu_ser (cd_custom c) k x len s | _ \<Rightarrow> Inl Ill_typed)"
| "serialize c TString v len s =
     (case v of
        VString cs \<Rightarrow>
          andthen (ser_int64 (cd_endian c) (int (length cs)) len s) (\<lambda>s. ser_chars cs len s)
      | _ \<Rightarrow> Inl Ill_typed)"
| "serialize c (TVector t) v len s =
     (case v of
        VSeq vs \<Rightarrow>
          andthen (ser_int64 (cd_endian c) (int (length vs)) len s) (\<lambda>s. ser_elems c t vs len s)
      | _ \<Rightarrow> Inl Ill_typed)"
| "serialize c (TRange t) v len s =
     (case v of
        VSeq vs \<Rightarrow>
          andthen (ser_int64 (cd_endian c) (int (length vs)) len s) (\<lambda>s. ser_elems c t vs len s)
      | _ \<Rightarrow> Inl Ill_typed)"
| "serialize c (TStruct ts) v len s =
     (case v of VStruct vs \<Rightarrow> ser_members c ts vs len s | _ \<Rightarrow> Inl Ill_typed)"
| "serialize c TError v len s =
     (case v of VError err \<Rightarrow> ser_error (cd_endian c) err len s | _ \<Rightarrow> Inl Ill_typed)"
| "serialize c (TExpected t) v len s =
     (case v of
        VValue w \<Rightarrow> andthen (ser_bool (cd_endian c) True len s) (\<lambda>s. serialize c t w len s)
      | VUnexp err \<Rightarrow>
          andthen (ser_bool (cd_endian c) False len s) (\<lambda>s. ser_error (cd_endian c) err len s)
      | _ \<Rightarrow> Inl Ill_typed)"
| "ser_elems c t vs len s =
     (case vs of
        [] \<Rightarrow> Inr s
      | v # vs \<Rightarrow> andthen (serialize c t v len s) (\<lambda>s. ser_elems c t vs len s))"
| "ser_members c ts vs len s =
     (case ts of
        [] \<Rightarrow> (case vs of [] \<Rightarrow> Inr s | _ \<Rightarrow> Inl Ill_typed)
      | t # ts \<Rightarrow>
          (case vs of
             [] \<Rightarrow> Inl Ill_typed
           | v # vs \<Rightarrow> andthen (serialize c t v len s) (\<lambda>s. ser_members c ts vs len s)))"

declare ser_elems.simps [simp del] ser_members.simps [simp del]

lemma ser_elems_simps [simp]:
  "ser_elems c t [] len s = Inr s"
  "ser_elems c t (v # vs) len s =
     andthen (serialize c t v len s) (\<lambda>s. ser_elems c t vs len s)"
  by (subst ser_elems.simps, simp)+

lemma ser_members_simps [simp]:
  "ser_members c [] [] len s = Inr s"
  "ser_members c (t # ts) (v # vs) len s =
     andthen (serialize c t v len s) (\<lambda>s. ser_members c ts vs len s)"
  by (subst ser_members.simps, simp)+

section \<open>Deserialization\<close>

text \<open>
  \<open>deserialize\<close> writes into an existing object: for a vector it appends to what is there,
  for an \<open>Expected\<close> it writes into the alternative the object already holds. So the model
  takes the old value. A freshly declared object has the value \<open>init_val\<close>.
\<close>

fun init_val :: "codec \<Rightarrow> cty \<Rightarrow> cval" where
  "init_val c TBool = VBool False"
| "init_val c (TNum n) = VNum 0"
| "init_val c (TEnum sg n) = VEnum 0"
| "init_val c (TPtr t) = VNull"
| "init_val c (TCustom k) = VCustom (cu_init (cd_custom c) k)"
| "init_val c TString = VString []"
| "init_val c (TVector t) = VSeq []"
| "init_val c (TRange t) = VSeq []"
| "init_val c (TStruct ts) = VStruct (map (init_val c) ts)"
| "init_val c TError = VError 0"
| "init_val c (TExpected t) = VValue (init_val c t)"

text \<open>
  \<open>reserve(size)\<close> and \<open>resize(size)\<close> convert the signed size to \<open>size_t\<close> and throw when it
  is more than the container or the allocator can provide; a negative size is huge.
\<close>

definition container_alloc :: "codec \<Rightarrow> int \<Rightarrow> fault + unit" where
  "container_alloc c sz = check Length_error (to_u64 sz \<le> int (cd_cap c))"

definition des_chars :: "codec \<Rightarrow> int \<Rightarrow> int \<Rightarrow> bytes \<Rightarrow> int \<Rightarrow> fault + (bytes \<times> int)" where
  "des_chars c str_len len buf pos =
     andthen (container_alloc c str_len) (\<lambda>_.
       if \<not> in_i64 (pos + str_len) then Inl Ub_overflow
       else if pos + str_len > len then Inl Out_of_range
       else andthen (mem_read buf pos (nat (to_u64 str_len)))
              (\<lambda>cs. Inr (cs, pos + str_len)))"

function deserialize ::
    "codec \<Rightarrow> cty \<Rightarrow> cval \<Rightarrow> int \<Rightarrow> bytes \<Rightarrow> int \<Rightarrow> fault + (cval \<times> int)"
  and des_elems ::
    "codec \<Rightarrow> cty \<Rightarrow> nat \<Rightarrow> cval list \<Rightarrow> int \<Rightarrow> bytes \<Rightarrow> int \<Rightarrow> fault + (cval list \<times> int)"
  and des_members ::
    "codec \<Rightarrow> cty list \<Rightarrow> cval list \<Rightarrow> int \<Rightarrow> bytes \<Rightarrow> int \<Rightarrow> fault + (cval list \<times> int)" where
  "deserialize c (TPtr t) old len buf pos =
     andthen (des_bool (cd_endian c) len buf pos) (\<lambda>(is_null, p).
       if is_null then Inr (VNull, p)
       else andthen (deserialize c t (init_val c t) len buf p) (\<lambda>(v, p). Inr (VRef v, p)))"
| "deserialize c (TEnum sg n) old len buf pos =
     andthen (des_int64 (cd_endian c) len buf pos) (\<lambda>(x, p). Inr (VEnum (enum_of_int64 sg n x), p))"
| "deserialize c TBool old len buf pos =
     andthen (des_bool (cd_endian c) len buf pos) (\<lambda>(b, p). Inr (VBool b, p))"
| "deserialize c (TNum n) old len buf pos =
     andthen (des_fundamental (cd_endian c) n len buf pos) (\<lambda>(v, p). Inr (VNum v, p))"
| "deserialize c (TCustom k) old len buf pos =
     (case old of
        VCustom x \<Rightarrow> andthen (cu_des (cd_custom c) k x len buf pos) (\<lambda>(y, p). Inr (VCustom y, p))
      | _ \<Rightarrow> Inl Ill_typed)"
| "deserialize c TString old len buf pos =
     andthen (des_int64 (cd_endian c) len buf pos) (\<lambda>(str_len, p).
       andthen (des_chars c str_len len buf p) (\<lambda>(cs, p). Inr (VString cs, p)))"
| "deserialize c (TVector t) old len buf pos =
     (case old of
        VSeq olds \<Rightarrow>
          andthen (des_int64 (cd_endian c) len buf pos) (\<lambda>(sz, p).
            andthen (container_alloc c sz) (\<lambda>_.
              andthen (des_elems c t (nat sz) olds len buf p) (\<lambda>(vs, p). Inr (VSeq vs, p))))
      | _ \<Rightarrow> Inl Ill_typed)"
| "deserialize c (TRange t) old len buf pos = Inl Not_compilable"
| "deserialize c (TStruct ts) old len buf pos =
     (case old of
        VStruct olds \<Rightarrow>
          andthen (des_members c ts olds len buf pos) (\<lambda>(vs, p). Inr (VStruct vs, p))
      | _ \<Rightarrow> Inl Ill_typed)"
| "deserialize c TError old len buf pos =
     andthen (des_error (cd_endian c) len buf pos) (\<lambda>(err, p). Inr (VError err, p))"
| "deserialize c (TExpected t) old len buf pos =
     andthen (des_bool (cd_endian c) len buf pos) (\<lambda>(valid, p).
       if valid
       then (case old of
               VValue v \<Rightarrow> andthen (deserialize c t v len buf p) (\<lambda>(w, p). Inr (VValue w, p))
             | VUnexp err \<Rightarrow> Inl Bad_expected_access
             | _ \<Rightarrow> Inl Ill_typed)
       else (case old of
               VUnexp err0 \<Rightarrow>
                 andthen (des_error (cd_endian c) len buf p) (\<lambda>(err, p). Inr (VUnexp err, p))
             | VValue v \<Rightarrow> Inl Ub_wrong_alternative
             | _ \<Rightarrow> Inl Ill_typed))"
| "des_elems c t n acc len buf pos =
     (case n of
        0 \<Rightarrow> Inr (acc, pos)
      | Suc n \<Rightarrow>
          andthen (deserialize c t (init_val c t) len buf pos)
            (\<lambda>(v, p). des_elems c t n (acc @ [v]) len buf p))"
| "des_members c ts olds len buf pos =
     (case ts of
        [] \<Rightarrow> (case olds of [] \<Rightarrow> Inr ([], pos) | _ \<Rightarrow> Inl Ill_typed)
      | t # ts \<Rightarrow>
          (case olds of
             [] \<Rightarrow> Inl Ill_typed
           | v # vs \<Rightarrow>
               andthen (deserialize c t v len buf pos) (\<lambda>(w, p).
                 andthen (des_members c ts vs len buf p) (\<lambda>(ws, p). Inr (w # ws, p)))))"
  by pat_completeness auto
termination
  by (relation "measures [\<lambda>x. case x of
        Inl (c, t, old, len, buf, pos) \<Rightarrow> size t
      | Inr (Inl (c, t, n, acc, len, buf, pos)) \<Rightarrow> size t
      | Inr (Inr (c, ts, vs, len, buf, pos)) \<Rightarrow> size_list size ts,
      \<lambda>x. case x of
        Inl (c, t, old, len, buf, pos) \<Rightarrow> 0
      | Inr (Inl (c, t, n, acc, len, buf, pos)) \<Rightarrow> Suc n
      | Inr (Inr (c, ts, vs, len, buf, pos)) \<Rightarrow> 0]") auto

declare des_elems.simps [simp del] des_members.simps [simp del]

lemma des_elems_simps [simp]:
  "des_elems c t 0 acc len buf pos = Inr (acc, pos)"
  "des_elems c t (Suc n) acc len buf pos =
     andthen (deserialize c t (init_val c t) len buf pos)
       (\<lambda>(v, p). des_elems c t n (acc @ [v]) len buf p)"
  by (subst des_elems.simps, simp)+

lemma des_members_simps [simp]:
  "des_members c [] [] len buf pos = Inr ([], pos)"
  "des_members c (t # ts) (v # vs) len buf pos =
     andthen (deserialize c t v len buf pos) (\<lambda>(w, p).
       andthen (des_members c ts vs len buf p) (\<lambda>(ws, p). Inr (w # ws, p)))"
  by (subst des_members.simps, simp)+

section \<open>Size computation\<close>

text \<open>
  \<open>get_serialize_size\<close> of an \<open>Expected\<close> tests a local \<open>valid\<close> that is always \<open>false\<close>, so
  it takes the error branch whatever the object holds.
\<close>

fun get_serialize_size :: "codec \<Rightarrow> cty \<Rightarrow> cval \<Rightarrow> int"
  and size_elems :: "codec \<Rightarrow> cty \<Rightarrow> cval list \<Rightarrow> int"
  and size_members :: "codec \<Rightarrow> cty list \<Rightarrow> cval list \<Rightarrow> int" where
  "get_serialize_size c (TPtr t) v =
     1 + (case v of VRef w \<Rightarrow> get_serialize_size c t w | _ \<Rightarrow> 0)"
| "get_serialize_size c (TEnum sg n) v = 8"
| "get_serialize_size c TBool v = 1"
| "get_serialize_size c (TNum n) v = int n"
| "get_serialize_size c (TCustom k) v =
     (case v of VCustom x \<Rightarrow> cu_size (cd_custom c) k x | _ \<Rightarrow> 0)"
| "get_serialize_size c TString v = 8 + (case v of VString cs \<Rightarrow> int (length cs) | _ \<Rightarrow> 0)"
| "get_serialize_size c (TVector t) v = 8 + (case v of VSeq vs \<Rightarrow> size_elems c t vs | _ \<Rightarrow> 0)"
| "get_serialize_size c (TRange t) v = 8 + (case v of VSeq vs \<Rightarrow> size_elems c t vs | _ \<Rightarrow> 0)"
| "get_serialize_size c (TStruct ts) v = (case v of VStruct vs \<Rightarrow> size_members c ts vs | _ \<Rightarrow> 0)"
| "get_serialize_size c TError v = error_size"
| "get_serialize_size c (TExpected t) v =
     (let valid = False in
      1 + (if valid then (case v of VValue w \<Rightarrow> get_serialize_size c t w | _ \<Rightarrow> 0) else error_size))"
| "size_elems c t [] = 0"
| "size_elems c t (v # vs) = get_serialize_size c t v + size_elems c t vs"
| "size_members c (t # ts) (v # vs) = get_serialize_size c t v + size_members c ts vs"
| "size_members c _ _ = 0"

section \<open>The entry points that start at position 0\<close>

definition serialize0 :: "codec \<Rightarrow> cty \<Rightarrow> cval \<Rightarrow> int \<Rightarrow> bytes \<Rightarrow> fault + sbuf" where
  "serialize0 c t v len buf = serialize c t v len \<lparr>sb_bytes = buf, sb_pos = 0\<rparr>"

definition deserialize0 :: "codec \<Rightarrow> cty \<Rightarrow> cval \<Rightarrow> int \<Rightarrow> bytes \<Rightarrow> fault + (cval \<times> int)" where
  "deserialize0 c t old len buf = deserialize c t old len buf 0"

end
