(* ===== verification/Net_Define.thy ===== *)
theory Net_Define
  imports Text_Format Serialization
begin

unbundle bit_operations_syntax

text \<open>
  The network vocabulary: end points and their formatting, the owning buffer \<open>NetBuffer\<close>
  (\<open>src/src/coroutine_framework/net_module/net_define.h\<close> and \<open>net_define.cpp\<close>), and the
  package header with its message type flags (\<open>rpc_struct.h\<close>).
\<close>

section \<open>End points\<close>

datatype IPType = IP_INVALID_0 | IP_V4 | IP_V6 | IP_INVALID_1 | IP_other nat

text \<open>
  The enumerators of \<open>IPType\<close> are 0 to 3, but every \<open>uint32_t\<close> is a value of the type; the
  others are \<open>IP_other\<close>. The masks of the code are written \<open>0x0...011b\<close>, which is the
  hexadecimal number 11b.
\<close>

definition IPType_of :: "u32 \<Rightarrow> IPType" where
  "IPType_of w = (if w = 0 then IP_INVALID_0 else if w = 1 then IP_V4 else if w = 2 then IP_V6
     else if w = 3 then IP_INVALID_1 else IP_other (unat w))"

definition IP_TYPE_MASK :: u32 where
  "IP_TYPE_MASK = 0x11b"

text \<open>
  The union \<open>IP\<close> is its storage of 16 bytes: an IPv4 address is the first four, an IPv6
  address is eight little-endian 16-bit groups.
\<close>

record EndPoint =
  ep_ip :: bytes
  ep_port :: u16
  ep_flags :: u32

definition ipv4_addr :: "EndPoint \<Rightarrow> bytes" where
  "ipv4_addr e = take 4 (ep_ip e)"

definition IPV4_eq :: "bytes \<Rightarrow> bytes \<Rightarrow> bool" where
  "IPV4_eq a b = (a ! 0 = b ! 0 \<and> a ! 1 = b ! 1 \<and> a ! 2 = b ! 2 \<and> a ! 3 = b ! 3)"

definition IPV4_of_list :: "int list \<Rightarrow> fault + bytes" where
  "IPV4_of_list xs =
     andthen (check Assert_failed (length xs = 4)) (\<lambda>_.
       Inr [word_of_int (xs ! 0), word_of_int (xs ! 1), word_of_int (xs ! 2), word_of_int (xs ! 3)])"

definition group16 :: "bytes \<Rightarrow> nat \<Rightarrow> nat" where
  "group16 a i = unat (a ! (2 * i)) + 256 * unat (a ! (2 * i + 1))"

definition IPV6_eq :: "bytes \<Rightarrow> bytes \<Rightarrow> bool" where
  "IPV6_eq a b =
     (group16 a 0 = group16 b 0 \<and> group16 a 1 = group16 b 1 \<and> group16 a 2 = group16 b 2 \<and>
      group16 a 3 = group16 b 3 \<and> group16 a 4 = group16 b 4 \<and> group16 a 5 = group16 b 5 \<and>
      group16 a 6 = group16 b 6 \<and> group16 a 7 = group16 b 7)"

text \<open>The default constructor leaves \<open>flags_\<close> uninitialised: it is an argument here.\<close>

definition EndPoint_default :: "u32 \<Rightarrow> EndPoint" where
  "EndPoint_default garbage = \<lparr>ep_ip = replicate 16 0, ep_port = 0, ep_flags = garbage\<rparr>"

definition EndPoint_v4 :: "bytes \<Rightarrow> u16 \<Rightarrow> EndPoint" where
  "EndPoint_v4 ipv4 p = \<lparr>ep_ip = ipv4 @ replicate 12 0, ep_port = p, ep_flags = 0 OR 1\<rparr>"

definition EndPoint_eq :: "EndPoint \<Rightarrow> EndPoint \<Rightarrow> bool" where
  "EndPoint_eq this rhs =
     (if IPType_of (ep_flags this AND IP_TYPE_MASK) = IP_V4
      then IPV4_eq (ep_ip this) (ep_ip rhs) \<and> ep_port this = ep_port rhs
      else if IPType_of (ep_flags this AND IP_TYPE_MASK) = IP_V6
      then IPV6_eq (ep_ip this) (ep_ip rhs) \<and> ep_port this = ep_port rhs
      else False)"

definition ip_type :: "EndPoint \<Rightarrow> IPType" where
  "ip_type e = IPType_of (ep_flags e AND IP_TYPE_MASK)"

definition EndPoint_is_valid :: "EndPoint \<Rightarrow> bool" where
  "EndPoint_is_valid e = (let t = ip_type e in t = IP_V4 \<or> t = IP_V6)"

definition set_port :: "u16 \<Rightarrow> EndPoint \<Rightarrow> EndPoint" where
  "set_port p e = e\<lparr>ep_port := p\<rparr>"

text \<open>
  An end point of Boost.Asio is, for this code, an IPv4 address or something else, and a port.
\<close>

datatype asio_address = Asio_v4 bytes | Asio_other

definition from_asio_end_point :: "EndPoint \<Rightarrow> asio_address \<times> u16 \<Rightarrow> fault + EndPoint" where
  "from_asio_end_point e ap =
     (case fst ap of
        Asio_v4 bs \<Rightarrow>
          Inr \<lparr>ep_ip = [bs ! 0, bs ! 1, bs ! 2, bs ! 3] @ drop 4 (ep_ip e), ep_port = snd ap,
               ep_flags = 0 OR 1\<rparr>
      | Asio_other \<Rightarrow> Inl Aborted)"

definition dotted_quad :: "bytes \<Rightarrow> string" where
  "dotted_quad a = dec (unat (a ! 0)) @ ''.'' @ dec (unat (a ! 1)) @ ''.'' @ dec (unat (a ! 2))
     @ ''.'' @ dec (unat (a ! 3))"

text \<open>
  \<open>to_asio_endpoint\<close> prints the address into a stack buffer of 16 characters and terminates
  it at the position \<open>format_to_n\<close> returned; \<open>make_address\<close> of Boost.Asio reads the C string.
\<close>

definition to_asio_endpoint ::
    "(string \<Rightarrow> fault + asio_address) \<Rightarrow> string \<Rightarrow> EndPoint \<Rightarrow> fault + (asio_address \<times> u16)" where
  "to_asio_endpoint make_address ip_str e =
     andthen (format_to_n ip_str 0 16 (dotted_quad (ep_ip e))) (\<lambda>(b, out).
     andthen (mem_write b out [CHR 0x00]) (\<lambda>b.
     andthen (make_address (takeWhile (\<lambda>c. c \<noteq> CHR 0x00) b)) (\<lambda>a. Inr (a, ep_port e))))"

definition EndPoint_to_string :: "EndPoint \<Rightarrow> string \<Rightarrow> int \<Rightarrow> int \<Rightarrow> fault + (string \<times> int)" where
  "EndPoint_to_string e buf buffer_len pos =
     andthen (format_to_n buf pos (buffer_len - pos)
       (dotted_quad (ep_ip e) @ '':'' @ dec (unat (ep_port e)))) (\<lambda>(b, out).
       Inr (b, pos + (out - pos)))"

section \<open>NetBuffer\<close>

text \<open>
  Blocks of \<open>new std::byte[n]\<close> live in a store; \<open>None\<close> is a block that does not exist (any
  more). A \<open>NetBuffer\<close> holds the address of its block.
\<close>

type_synonym blocks = "nat \<Rightarrow> bytes option"

record NetBuffer =
  nb_buffer :: "nat option"
  nb_len :: u64

definition NetBuffer_empty :: NetBuffer where
  "NetBuffer_empty = \<lparr>nb_buffer = None, nb_len = 0\<rparr>"

text \<open>
  The bytes of a fresh block are not initialised: the allocator is a parameter that gives an
  address and the contents.
\<close>

definition NetBuffer_new :: "(blocks \<Rightarrow> u64 \<Rightarrow> nat \<times> bytes) \<Rightarrow> u64 \<Rightarrow> blocks \<Rightarrow> NetBuffer \<times> blocks" where
  "NetBuffer_new alloc sz m =
     (case alloc m sz of (a, bs) \<Rightarrow> (\<lparr>nb_buffer = Some a, nb_len = sz\<rparr>, m(a \<mapsto> bs)))"

definition NetBuffer_destroy :: "NetBuffer \<Rightarrow> blocks \<Rightarrow> fault + blocks" where
  "NetBuffer_destroy b m =
     (case nb_buffer b of
        None \<Rightarrow> Inr m
      | Some a \<Rightarrow> andthen (check Ub_out_of_bounds (m a \<noteq> None)) (\<lambda>_. Inr (m(a := None))))"

definition NetBuffer_move :: "NetBuffer \<Rightarrow> NetBuffer \<times> NetBuffer" where
  "NetBuffer_move rhs =
     (\<lparr>nb_buffer = nb_buffer rhs, nb_len = nb_len rhs\<rparr>, \<lparr>nb_buffer = None, nb_len = 0\<rparr>)"

text \<open>
  Move assignment of two distinct buffers: it constructs the new value over the old one,
  which is neither destroyed nor freed. Assigning a buffer to itself does nothing.
\<close>

definition NetBuffer_move_assign :: "NetBuffer \<Rightarrow> NetBuffer \<Rightarrow> NetBuffer \<times> NetBuffer" where
  "NetBuffer_move_assign this rhs = NetBuffer_move rhs"

definition NetBuffer_self_assign :: "NetBuffer \<Rightarrow> NetBuffer" where
  "NetBuffer_self_assign this = this"

text \<open>A \<open>NetBufferView\<close> borrows the block and does not free it.\<close>

record NetBufferView =
  nv_buffer :: "nat option"
  nv_len :: u64

definition view_of :: "NetBuffer \<Rightarrow> NetBufferView" where
  "view_of b = \<lparr>nv_buffer = nb_buffer b, nv_len = nb_len b\<rparr>"

datatype FinishCondition = FC_INVALID | WHEN_ANY | WHEN_ALL | WHEN_MAJORITY

section \<open>The package header\<close>

datatype MessageType = MT_NOT_USED_1 | MT_REQUEST | MT_RESPONSE | MT_NOT_USED_2 | MT_other nat

definition MessageType_of :: "u32 \<Rightarrow> MessageType" where
  "MessageType_of w = (if w = 0 then MT_NOT_USED_1 else if w = 1 then MT_REQUEST
     else if w = 2 then MT_RESPONSE else if w = 3 then MT_NOT_USED_2 else MT_other (unat w))"

fun MessageType_val :: "MessageType \<Rightarrow> u32" where
  "MessageType_val MT_NOT_USED_1 = 0"
| "MessageType_val MT_REQUEST = 1"
| "MessageType_val MT_RESPONSE = 2"
| "MessageType_val MT_NOT_USED_2 = 3"
| "MessageType_val (MT_other n) = word_of_nat n"

definition MAGIC_NUMBER :: u32 where "MAGIC_NUMBER = 0xaabbccdd"

definition MASK_MESSAGE_TYPE_BITS :: u32 where "MASK_MESSAGE_TYPE_BITS = 0x11b"

definition VERSION :: u16 where "VERSION = 1"

record PackageHeader =
  version :: u16
  reserved :: u16
  server_port :: u16
  flags :: u16
  rpc_id :: u64
  process_restart_counter :: u16
  rpc_type :: u16
  checksum :: u32
  payload_len :: u64

definition PackageHeader_default :: PackageHeader where
  "PackageHeader_default = \<lparr>version = 0, reserved = 0, server_port = 0, flags = 0, rpc_id = 0,
     process_restart_counter = 0, rpc_type = 0, checksum = MAGIC_NUMBER, payload_len = 0\<rparr>"

definition PackageHeader_new :: "u16 \<Rightarrow> u16 \<Rightarrow> u64 \<Rightarrow> u16 \<Rightarrow> u64 \<Rightarrow> PackageHeader" where
  "PackageHeader_new prc rt rid sp pl = \<lparr>version = VERSION, reserved = 0, server_port = sp,
     flags = 0, rpc_id = rid, process_restart_counter = prc, rpc_type = rt,
     checksum = MAGIC_NUMBER, payload_len = pl\<rparr>"

definition PackageHeader_eq :: "PackageHeader \<Rightarrow> PackageHeader \<Rightarrow> bool" where
  "PackageHeader_eq a b =
     (version a = version b \<and> reserved a = reserved b \<and> flags a = flags b \<and> rpc_id a = rpc_id b \<and>
      process_restart_counter a = process_restart_counter b \<and> rpc_type a = rpc_type b \<and>
      payload_len a = payload_len b)"

text \<open>\<open>flags_\<close> is a \<open>uint16_t\<close> that is widened for the operations and truncated again.\<close>

definition set_message_type :: "MessageType \<Rightarrow> PackageHeader \<Rightarrow> fault + PackageHeader" where
  "set_message_type t h =
     andthen (check Assert_failed (ucast (flags h) AND MASK_MESSAGE_TYPE_BITS = 0)) (\<lambda>_.
       Inr (h\<lparr>flags := ucast (ucast (flags h) OR MessageType_val t)\<rparr>))"

definition get_message_type :: "PackageHeader \<Rightarrow> MessageType" where
  "get_message_type h = MessageType_of (ucast (flags h) AND MASK_MESSAGE_TYPE_BITS)"

text \<open>\<open>STATIC_REFLECT(PackageHeader, ...)\<close>: the members in wire order.\<close>

definition header_ty :: cty where
  "header_ty = TStruct [TNum 2, TNum 2, TNum 2, TNum 2, TNum 8, TNum 2, TNum 2, TNum 8, TNum 4]"

definition header_val :: "PackageHeader \<Rightarrow> cval" where
  "header_val h = VStruct [VNum (unat (version h)), VNum (unat (reserved h)),
     VNum (unat (server_port h)), VNum (unat (flags h)), VNum (unat (rpc_id h)),
     VNum (unat (process_restart_counter h)), VNum (unat (rpc_type h)),
     VNum (unat (payload_len h)), VNum (unat (checksum h))]"

fun header_of_val :: "cval \<Rightarrow> PackageHeader option" where
  "header_of_val (VStruct vs) =
     (case vs of
        [VNum a, VNum b, VNum c, VNum d, VNum e, VNum f, VNum g, VNum h, VNum i] \<Rightarrow>
          Some \<lparr>version = word_of_nat a, reserved = word_of_nat b, server_port = word_of_nat c,
                flags = word_of_nat d, rpc_id = word_of_nat e,
                process_restart_counter = word_of_nat f, rpc_type = word_of_nat g,
                checksum = word_of_nat i, payload_len = word_of_nat h\<rparr>
      | _ \<Rightarrow> None)"
| "header_of_val _ = None"

end
