(* ===== verification/Wire_Format.thy ===== *)
theory Wire_Format
  imports Serialization
begin

text \<open>
  What the serializer promises: a byte-order independent wire format (\<open>enc\<close>), the typing of
  values, and the lemmas that the code of theory \<open>Serialization\<close> writes exactly this format,
  reads it back, computes its size, and stays inside its buffers on every input.
\<close>

section \<open>Specification\<close>

fun enc :: "(nat \<Rightarrow> nat \<Rightarrow> bytes) \<Rightarrow> cty \<Rightarrow> cval \<Rightarrow> bytes"
  and enc_elems :: "(nat \<Rightarrow> nat \<Rightarrow> bytes) \<Rightarrow> cty \<Rightarrow> cval list \<Rightarrow> bytes"
  and enc_members :: "(nat \<Rightarrow> nat \<Rightarrow> bytes) \<Rightarrow> cty list \<Rightarrow> cval list \<Rightarrow> bytes" where
  "enc ce (TPtr t) v = (case v of VRef w \<Rightarrow> 0 # enc ce t w | _ \<Rightarrow> [1])"
| "enc ce (TEnum sg n) v = (case v of VEnum x \<Rightarrow> le_bytes 8 (nat (to_u64 x)) | _ \<Rightarrow> [])"
| "enc ce TBool v = (case v of VBool b \<Rightarrow> [if b then 1 else 0] | _ \<Rightarrow> [])"
| "enc ce (TNum n) v = (case v of VNum x \<Rightarrow> le_bytes n x | _ \<Rightarrow> [])"
| "enc ce (TCustom k) v = (case v of VCustom x \<Rightarrow> ce k x | _ \<Rightarrow> [])"
| "enc ce TString v = (case v of VString cs \<Rightarrow> le_bytes 8 (length cs) @ cs | _ \<Rightarrow> [])"
| "enc ce (TVector t) v =
     (case v of VSeq vs \<Rightarrow> le_bytes 8 (length vs) @ enc_elems ce t vs | _ \<Rightarrow> [])"
| "enc ce (TRange t) v =
     (case v of VSeq vs \<Rightarrow> le_bytes 8 (length vs) @ enc_elems ce t vs | _ \<Rightarrow> [])"
| "enc ce (TStruct ts) v = (case v of VStruct vs \<Rightarrow> enc_members ce ts vs | _ \<Rightarrow> [])"
| "enc ce TError v = (case v of VError err \<Rightarrow> le_bytes 4 (nat (err mod 4294967296)) | _ \<Rightarrow> [])"
| "enc ce (TExpected t) v =
     (case v of VValue w \<Rightarrow> 1 # enc ce t w
              | VUnexp err \<Rightarrow> 0 # le_bytes 4 (nat (err mod 4294967296)) | _ \<Rightarrow> [])"
| "enc_elems ce t [] = []"
| "enc_elems ce t (v # vs) = enc ce t v @ enc_elems ce t vs"
| "enc_members ce (t # ts) (v # vs) = enc ce t v @ enc_members ce ts vs"
| "enc_members ce _ _ = []"

text \<open>
  Well-typed values. Lengths are far below the range of \<open>int64_t\<close>, a number fits its size,
  an enumerator fits its underlying type. \<open>cap\<close> is the container limit of the reader.
\<close>

fun has_ty :: "nat \<Rightarrow> cty \<Rightarrow> cval \<Rightarrow> bool"
  and has_tys :: "nat \<Rightarrow> cty list \<Rightarrow> cval list \<Rightarrow> bool" where
  "has_ty cap (TPtr t) v = (case v of VNull \<Rightarrow> True | VRef w \<Rightarrow> has_ty cap t w | _ \<Rightarrow> False)"
| "has_ty cap (TEnum sg n) v =
     (case v of VEnum x \<Rightarrow> 1 \<le> n \<and> n \<le> 8 \<and> enum_of_int64 sg n x = x | _ \<Rightarrow> False)"
| "has_ty cap TBool v = (case v of VBool b \<Rightarrow> True | _ \<Rightarrow> False)"
| "has_ty cap (TNum n) v = (case v of VNum x \<Rightarrow> n \<le> 16 \<and> x < 256 ^ n | _ \<Rightarrow> False)"
| "has_ty cap (TCustom k) v = (case v of VCustom x \<Rightarrow> True | _ \<Rightarrow> False)"
| "has_ty cap TString v =
     (case v of VString cs \<Rightarrow> length cs \<le> cap \<and> length cs < 4611686018427387904 | _ \<Rightarrow> False)"
| "has_ty cap (TVector t) v =
     (case v of VSeq vs \<Rightarrow> length vs \<le> cap \<and> length vs < 4611686018427387904
                          \<and> (\<forall>v \<in> set vs. has_ty cap t v) | _ \<Rightarrow> False)"
| "has_ty cap (TRange t) v =
     (case v of VSeq vs \<Rightarrow> length vs \<le> cap \<and> length vs < 4611686018427387904
                          \<and> (\<forall>v \<in> set vs. has_ty cap t v) | _ \<Rightarrow> False)"
| "has_ty cap (TStruct ts) v = (case v of VStruct vs \<Rightarrow> has_tys cap ts vs | _ \<Rightarrow> False)"
| "has_ty cap TError v = (case v of VError err \<Rightarrow> enum_of_int64 True 4 err = err | _ \<Rightarrow> False)"
| "has_ty cap (TExpected t) v =
     (case v of VValue w \<Rightarrow> has_ty cap t w | VUnexp err \<Rightarrow> enum_of_int64 True 4 err = err
              | _ \<Rightarrow> False)"
| "has_tys cap [] vs = (vs = [])"
| "has_tys cap (t # ts) vs = (case vs of [] \<Rightarrow> False | v # vs \<Rightarrow> has_ty cap t v \<and> has_tys cap ts vs)"

text \<open>
  The object a value can be read back into: an empty vector, an \<open>Expected\<close> that already
  holds the right alternative. No other container than \<open>std::vector\<close> can be read.
\<close>

fun target_ok :: "codec \<Rightarrow> cty \<Rightarrow> cval \<Rightarrow> cval \<Rightarrow> bool"
  and targets_ok :: "codec \<Rightarrow> cty list \<Rightarrow> cval list \<Rightarrow> cval list \<Rightarrow> bool" where
  "target_ok c (TPtr t) old v =
     (case v of VRef w \<Rightarrow> target_ok c t (init_val c t) w | _ \<Rightarrow> True)"
| "target_ok c (TEnum sg n) old v = True"
| "target_ok c TBool old v = True"
| "target_ok c (TNum n) old v = True"
| "target_ok c (TCustom k) old v = (case old of VCustom _ \<Rightarrow> True | _ \<Rightarrow> False)"
| "target_ok c TString old v = True"
| "target_ok c (TVector t) old v =
     (old = VSeq [] \<and>
      (case v of VSeq vs \<Rightarrow> (\<forall>w \<in> set vs. target_ok c t (init_val c t) w) | _ \<Rightarrow> False))"
| "target_ok c (TRange t) old v = False"
| "target_ok c (TStruct ts) old v =
     (case old of VStruct olds \<Rightarrow> (case v of VStruct vs \<Rightarrow> targets_ok c ts olds vs | _ \<Rightarrow> False)
                | _ \<Rightarrow> False)"
| "target_ok c TError old v = True"
| "target_ok c (TExpected t) old v =
     (case old of
        VValue o1 \<Rightarrow> (case v of VValue w \<Rightarrow> target_ok c t o1 w | _ \<Rightarrow> False)
      | VUnexp _ \<Rightarrow> (case v of VUnexp _ \<Rightarrow> True | _ \<Rightarrow> False)
      | _ \<Rightarrow> False)"
| "targets_ok c [] olds vs = (olds = [] \<and> vs = [])"
| "targets_ok c (t # ts) olds vs =
     (case olds of [] \<Rightarrow> False
      | o1 # olds \<Rightarrow> (case vs of [] \<Rightarrow> False
                     | v # vs \<Rightarrow> target_ok c t o1 v \<and> targets_ok c ts olds vs))"

fun expected_free :: "cty \<Rightarrow> bool" where
  "expected_free (TExpected t) = False"
| "expected_free (TPtr t) = expected_free t"
| "expected_free (TVector t) = expected_free t"
| "expected_free (TRange t) = expected_free t"
| "expected_free (TStruct ts) = (\<forall>t \<in> set ts. expected_free t)"
| "expected_free _ = True"

definition sb_ok :: "int \<Rightarrow> sbuf \<Rightarrow> bool" where
  "sb_ok len s =
     (0 \<le> sb_pos s \<and> sb_pos s \<le> len \<and> len = int (length (sb_bytes s)) \<and>
      len < 4611686018427387904)"

text \<open>The specification of a write: all bytes at the position, or \<open>out_of_range\<close>.\<close>

definition emit :: "bytes \<Rightarrow> int \<Rightarrow> sbuf \<Rightarrow> fault + sbuf" where
  "emit bs len s =
     (if sb_pos s + int (length bs) \<le> len
      then Inr \<lparr>sb_bytes = put (sb_bytes s) (nat (sb_pos s)) bs,
                sb_pos = sb_pos s + int (length bs)\<rparr>
      else Inl Out_of_range)"

text \<open>What is assumed of the user's own \<open>serialize\<close> methods, with \<open>ce\<close> their wire format.\<close>

definition custom_writes :: "(nat \<Rightarrow> nat \<Rightarrow> bytes) \<Rightarrow> custom_ops \<Rightarrow> bool" where
  "custom_writes ce u = (\<forall>k x len s. sb_ok len s \<longrightarrow> cu_ser u k x len s = emit (ce k x) len s)"

definition custom_reads :: "(nat \<Rightarrow> nat \<Rightarrow> bytes) \<Rightarrow> custom_ops \<Rightarrow> bool" where
  "custom_reads ce u =
     (\<forall>k x old len buf p. len = int (length buf) \<longrightarrow> holds buf p (ce k x) \<longrightarrow>
        cu_des u k old len buf (int p) = Inr (x, int p + int (length (ce k x))))"

definition custom_sizes :: "(nat \<Rightarrow> nat \<Rightarrow> bytes) \<Rightarrow> custom_ops \<Rightarrow> bool" where
  "custom_sizes ce u = (\<forall>k x. cu_size u k x = int (length (ce k x)))"

definition custom_safe :: "custom_ops \<Rightarrow> bool" where
  "custom_safe u =
     (\<forall>k old len buf pos. len = int (length buf) \<longrightarrow> 0 \<le> pos \<longrightarrow> pos \<le> len \<longrightarrow>
        (case cu_des u k old len buf pos of
           Inl f \<Rightarrow> \<not> memory_ub f | Inr (y, p) \<Rightarrow> pos \<le> p \<and> p \<le> len))"

section \<open>Writing\<close>

lemma sb_ok_emit: "sb_ok len s \<Longrightarrow> emit bs len s = Inr s' \<Longrightarrow> sb_ok len s'"
  by (auto simp: emit_def sb_ok_def split: if_splits)

lemma emit_Nil: "sb_ok len s \<Longrightarrow> emit [] len s = Inr s"
  by (simp add: emit_def sb_ok_def)

lemma emit_append:
  assumes "sb_ok len s"
  shows "emit (xs @ ys) len s = andthen (emit xs len s) (emit ys len)"
proof (cases "sb_pos s + int (length xs) \<le> len")
  case True
  then have x: "emit xs len s = Inr \<lparr>sb_bytes = put (sb_bytes s) (nat (sb_pos s)) xs,
      sb_pos = sb_pos s + int (length xs)\<rparr>"
    by (simp add: emit_def)
  have n: "nat (sb_pos s + int (length xs)) = nat (sb_pos s) + length xs"
    using assms by (simp add: sb_ok_def nat_add_distrib)
  have "put (put (sb_bytes s) (nat (sb_pos s)) xs) (nat (sb_pos s) + length xs) ys
      = put (sb_bytes s) (nat (sb_pos s)) (xs @ ys)"
    if "sb_pos s + int (length xs) + int (length ys) \<le> len"
  proof (rule put_append)
    show "nat (sb_pos s) + length xs + length ys \<le> length (sb_bytes s)"
      using that assms unfolding sb_ok_def by linarith
  qed
  with x n show ?thesis by (simp add: emit_def add.assoc)
next
  case False
  then show ?thesis by (simp add: emit_def)
qed

lemma mem_write_put:
  "0 \<le> pos \<Longrightarrow> pos + int (length bs) \<le> int (length buf) \<Longrightarrow>
   mem_write buf pos bs = Inr (put buf (nat pos) bs)"
  by (simp add: mem_write_def put_def)

lemma advance_small: "0 \<le> pos \<Longrightarrow> pos + int n < 9223372036854775808 \<Longrightarrow> advance pos n = pos + int n"
  by (simp add: advance_def to_i64_id in_i64_def)

lemma exceeds_small:
  "0 \<le> pos \<Longrightarrow> pos + int n < 9223372036854775808 \<Longrightarrow> 0 \<le> len \<Longrightarrow>
   len < 9223372036854775808 \<Longrightarrow> exceeds pos n len \<longleftrightarrow> pos + int n > len"
  by (simp add: exceeds_def)

lemma obj_repr_byteswap: "obj_repr Big n (byteswap n v) = le_bytes n v"
  using le_bytes_of_le [of "rev (le_bytes n v)"] by (simp add: obj_repr_def byteswap_def)

lemma ser_fundamental_emit:
  assumes "sb_ok len s" and "n \<le> 16"
  shows "ser_fundamental e n v len s = emit (le_bytes n v) len s"
proof -
  have sm: "0 \<le> sb_pos s" "sb_pos s + int n < 9223372036854775808" "0 \<le> len"
      "len < 9223372036854775808" "len = int (length (sb_bytes s))"
    using assms by (simp_all add: sb_ok_def)
  show ?thesis
    using sm obj_repr_byteswap [of n v]
    by (cases e) (simp_all add: ser_fundamental_def Let_def exceeds_small advance_small
        mem_write_put emit_def obj_repr_def)
qed

lemma nat_to_u64_nat [simp]: "n < 18446744073709551616 \<Longrightarrow> nat (to_u64 (int n)) = n"
  by simp

lemma ser_bool_emit:
  "sb_ok len s \<Longrightarrow> ser_bool e b len s = emit [if b then 1 else 0] len s"
  by (simp add: ser_bool_def ser_fundamental_emit)

lemma ser_int64_emit:
  "sb_ok len s \<Longrightarrow> ser_int64 e x len s = emit (le_bytes 8 (nat (to_u64 x))) len s"
  by (simp add: ser_int64_def ser_fundamental_emit del: le_bytes_numeral)

lemma ser_error_emit:
  "sb_ok len s \<Longrightarrow> ser_error e err len s = emit (le_bytes 4 (nat (err mod 4294967296))) len s"
  by (simp add: ser_error_def ser_fundamental_emit del: le_bytes_numeral)

lemma ser_chars_emit:
  "sb_ok len s \<Longrightarrow> length cs < 4611686018427387904 \<Longrightarrow> ser_chars cs len s = emit cs len s"
  by (simp add: ser_chars_def Let_def emit_def sb_ok_def in_i64_def mem_write_put)

lemma andthen_emitI:
  assumes "sb_ok len s" and "m = emit xs len s"
    and "\<And>s'. m = Inr s' \<Longrightarrow> sb_ok len s' \<Longrightarrow> f s' = emit ys len s'" and "zs = xs @ ys"
  shows "andthen m f = emit zs len s"
proof (cases "emit xs len s")
  case (Inl a)
  with assms show ?thesis by (simp add: emit_append)
next
  case (Inr s')
  with assms show ?thesis by (simp add: emit_append sb_ok_emit)
qed

lemmas ser_emit_simps = ser_fundamental_emit ser_bool_emit ser_int64_emit ser_error_emit

lemma writer_simulation:
  assumes cw: "custom_writes ce (cd_custom c)"
  shows serialize_emit_aux:
      "has_ty cap t v \<Longrightarrow> sb_ok len s \<Longrightarrow> serialize c t v len s = emit (enc ce t v) len s"
    and ser_elems_emit_aux:
      "\<forall>v \<in> set vs. has_ty cap t v \<Longrightarrow> sb_ok len s \<Longrightarrow>
       ser_elems c t vs len s = emit (enc_elems ce t vs) len s"
    and ser_members_emit_aux:
      "has_tys cap ts vs \<Longrightarrow> sb_ok len s \<Longrightarrow>
       ser_members c ts vs len s = emit (enc_members ce ts vs) len s"
  using cw
proof (induction c t v len s and c t vs len s and c ts vs len s
    rule: serialize_ser_elems_ser_members.induct)
  case (1 c t v len s)
  then show ?case
    by (cases v) (auto simp: ser_bool_emit intro!: andthen_emitI)
next
  case (2 c sg n v len s)
  then show ?case by (cases v) (simp_all add: ser_int64_emit)
next
  case (3 c v len s)
  then show ?case by (cases v) (simp_all add: ser_bool_emit)
next
  case (4 c n v len s)
  then show ?case by (cases v) (simp_all add: ser_fundamental_emit)
next
  case (5 c k v len s)
  then show ?case by (cases v) (simp_all add: custom_writes_def)
next
  case (6 c v len s)
  then show ?case
    by (cases v) (auto simp: ser_int64_emit ser_chars_emit intro!: andthen_emitI
        simp del: le_bytes_numeral)
next
  case (7 c t v len s)
  then show ?case
    by (cases v) (auto simp: ser_int64_emit intro!: andthen_emitI simp del: le_bytes_numeral)
next
  case (8 c t v len s)
  then show ?case
    by (cases v) (auto simp: ser_int64_emit intro!: andthen_emitI simp del: le_bytes_numeral)
next
  case (9 c ts v len s)
  then show ?case by (cases v) simp_all
next
  case (10 c v len s)
  then show ?case by (cases v) (simp_all add: ser_error_emit)
next
  case (11 c t v len s)
  then show ?case
    by (cases v) (auto simp: ser_bool_emit ser_error_emit intro!: andthen_emitI
        simp del: le_bytes_numeral)
next
  case (12 c t vs len s)
  then show ?case by (cases vs) (auto simp: emit_Nil intro!: andthen_emitI)
next
  case (13 c ts vs len s)
  then show ?case
    by (cases ts; cases vs) (auto simp: emit_Nil intro!: andthen_emitI)
qed

section \<open>Reading\<close>

definition rd_ok :: "int \<Rightarrow> bytes \<Rightarrow> int \<Rightarrow> bool" where
  "rd_ok len buf pos =
     (0 \<le> pos \<and> pos \<le> len \<and> len = int (length buf) \<and> len < 4611686018427387904)"

lemma nat_add_int [simp]: "0 \<le> pos \<Longrightarrow> nat (pos + int n) = nat pos + n"
  by (simp add: nat_add_distrib)

lemma rd_ok_nonneg [simp]: "rd_ok len buf pos \<Longrightarrow> 0 \<le> pos"
  by (simp add: rd_ok_def)

lemma rd_ok_holds:
  "rd_ok len buf pos \<Longrightarrow> holds buf (nat pos) bs \<Longrightarrow> rd_ok len buf (pos + int (length bs))"
  by (auto simp: rd_ok_def holds_def)

lemma mem_read_holds:
  "rd_ok len buf pos \<Longrightarrow> holds buf (nat pos) bs \<Longrightarrow> mem_read buf pos (length bs) = Inr bs"
  by (auto simp: rd_ok_def holds_def mem_read_def)

lemma byteswap_obj_value: "length bs = n \<Longrightarrow> byteswap n (obj_value Big bs) = of_le bs"
  using le_bytes_of_le [of "rev bs"] by (simp add: byteswap_def obj_value_def)

lemma des_fundamental_read:
  assumes "rd_ok len buf pos" and "n \<le> 16"
  shows "des_fundamental e n len buf pos =
    (if pos + int n \<le> len
     then Inr (of_le (take n (drop (nat pos) buf)), pos + int n) else Inl Out_of_range)"
proof -
  have sm: "0 \<le> pos" "pos + int n < 9223372036854775808" "0 \<le> len"
      "len < 9223372036854775808" "len = int (length buf)"
    using assms by (simp_all add: rd_ok_def)
  show ?thesis
  proof (cases "pos + int n \<le> len")
    case True
    let ?bs = "take n (drop (nat pos) buf)"
    have "length ?bs = n"
      using True sm unfolding length_take length_drop by linarith
    then have "byteswap n (obj_value Big ?bs) = of_le ?bs" by (rule byteswap_obj_value)
    with True sm show ?thesis
      by (cases e) (simp_all add: des_fundamental_def Let_def exceeds_small advance_small
          mem_read_def obj_value_def)
  next
    case False
    with sm show ?thesis
      by (cases e) (simp_all add: des_fundamental_def Let_def exceeds_small)
  qed
qed

lemma des_fundamental_holds:
  assumes "rd_ok len buf pos" and "n \<le> 16" and "holds buf (nat pos) (le_bytes n v)"
    and "v < 256 ^ n"
  shows "des_fundamental e n len buf pos = Inr (v, pos + int n)"
  using assms by (auto simp: des_fundamental_read holds_def rd_ok_def)

lemma des_bool_holds:
  "rd_ok len buf pos \<Longrightarrow> holds buf (nat pos) [if b then 1 else 0] \<Longrightarrow>
   des_bool e len buf pos = Inr (b, pos + 1)"
  using des_fundamental_holds [of len buf pos 1 "if b then 1 else 0" e]
  by (simp add: des_bool_def split: if_splits)

lemma to_u64_range: "0 \<le> to_u64 x" "to_u64 x < 18446744073709551616"
  by (simp_all add: to_u64_def)

lemma des_int64_holds:
  assumes "rd_ok len buf pos" and "holds buf (nat pos) (le_bytes 8 (nat (to_u64 x)))"
  shows "des_int64 e len buf pos = Inr (to_i64 x, pos + 8)"
proof -
  have "nat (to_u64 x) < 256 ^ 8" using to_u64_range [of x] by simp
  with assms have "des_fundamental e 8 len buf pos = Inr (nat (to_u64 x), pos + int 8)"
    by (intro des_fundamental_holds) simp_all
  then show ?thesis using to_u64_range [of x] by (simp add: des_int64_def)
qed

lemma des_error_holds:
  assumes "rd_ok len buf pos" and "holds buf (nat pos) (le_bytes 4 (nat (err mod 4294967296)))"
    and "enum_of_int64 True 4 err = err"
  shows "des_error e len buf pos = Inr (err, pos + 4)"
proof -
  have "nat (err mod 4294967296) < 256 ^ 4" by (simp add: nat_less_iff)
  with assms have "des_fundamental e 4 len buf pos = Inr (nat (err mod 4294967296), pos + int 4)"
    by (intro des_fundamental_holds) simp_all
  moreover have "enum_of_int64 True 4 (err mod 4294967296) = enum_of_int64 True 4 err"
    by (simp add: enum_of_int64_def mod_add_left_eq)
  ultimately show ?thesis using assms(3) by (simp add: des_error_def)
qed

lemma des_chars_holds:
  assumes "rd_ok len buf pos" and "holds buf (nat pos) cs" and "length cs \<le> cd_cap c"
  shows "des_chars c (int (length cs)) len buf pos = Inr (cs, pos + int (length cs))"
proof -
  have "pos + int (length cs) \<le> len" using assms by (auto simp: rd_ok_def holds_def)
  moreover have "length cs < 18446744073709551616" using assms by (auto simp: rd_ok_def holds_def)
  ultimately show ?thesis
    using assms mem_read_holds [OF assms(1,2)]
    by (simp add: des_chars_def container_alloc_def in_i64_def rd_ok_def)
qed

lemma enum_roundtrip:
  assumes "enum_of_int64 sg n x = x" and "1 \<le> n" and "n \<le> 8"
  shows "enum_of_int64 sg n (to_i64 x) = x"
proof -
  have d: "(2::int) ^ (8 * n) dvd 18446744073709551616"
    using assms(3) le_imp_power_dvd [of "8 * n" 64 "2::int"] by simp
  have "to_i64 x mod 2 ^ (8 * n) = x mod 2 ^ (8 * n)"
  proof -
    have "to_i64 x mod 2 ^ (8 * n) =
      ((x + 9223372036854775808) mod 18446744073709551616 mod 2 ^ (8 * n)
        - 9223372036854775808) mod 2 ^ (8 * n)"
      by (simp add: to_i64_def mod_diff_left_eq)
    also have "\<dots> = (x + 9223372036854775808 - 9223372036854775808) mod 2 ^ (8 * n)"
      using d by (simp only: mod_mod_cancel mod_diff_left_eq)
    finally show ?thesis by simp
  qed
  then have "enum_of_int64 sg n (to_i64 x) = enum_of_int64 sg n x"
    unfolding enum_of_int64_def by (metis mod_add_left_eq)
  with assms show ?thesis by simp
qed

lemma des_length_holds:
  assumes "rd_ok len buf pos" and "holds buf (nat pos) (le_bytes 8 n)"
    and "n < 4611686018427387904"
  shows "des_int64 e len buf pos = Inr (int n, pos + 8)"
  using des_int64_holds [of len buf pos "int n" e] assms
  by (simp add: to_i64_id in_i64_def del: le_bytes_numeral)

lemma container_alloc_ok:
  "n \<le> cd_cap c \<Longrightarrow> n < 4611686018427387904 \<Longrightarrow> container_alloc c (int n) = Inr ()"
  by (simp add: container_alloc_def)

lemma custom_readsD:
  assumes "custom_reads ce u" and "rd_ok len buf pos" and "holds buf (nat pos) (ce k x)"
  shows "cu_des u k old len buf pos = Inr (x, pos + int (length (ce k x)))"
  using assms(1) [unfolded custom_reads_def, rule_format, of len buf "nat pos" k x old] assms(2,3)
  by (simp add: rd_ok_def)

lemma reader_simulation:
  assumes cr: "custom_reads ce (cd_custom c)"
  shows deserialize_enc_aux:
      "has_ty (cd_cap c) t v \<Longrightarrow> target_ok c t old v \<Longrightarrow> rd_ok len buf pos \<Longrightarrow>
       holds buf (nat pos) (enc ce t v) \<Longrightarrow>
       deserialize c t old len buf pos = Inr (v, pos + int (length (enc ce t v)))"
    and des_elems_enc_aux:
      "n = length vs \<Longrightarrow> \<forall>w \<in> set vs. has_ty (cd_cap c) t w \<and> target_ok c t (init_val c t) w \<Longrightarrow>
       rd_ok len buf pos \<Longrightarrow> holds buf (nat pos) (enc_elems ce t vs) \<Longrightarrow>
       des_elems c t n acc len buf pos = Inr (acc @ vs, pos + int (length (enc_elems ce t vs)))"
    and des_members_enc_aux:
      "has_tys (cd_cap c) ts ws \<Longrightarrow> targets_ok c ts olds ws \<Longrightarrow> rd_ok len buf pos \<Longrightarrow>
       holds buf (nat pos) (enc_members ce ts ws) \<Longrightarrow>
       des_members c ts olds len buf pos = Inr (ws, pos + int (length (enc_members ce ts ws)))"
  using cr
proof (induction c t old len buf pos and c t n acc len buf pos and c ts olds len buf pos
    arbitrary: v and vs and ws rule: deserialize_des_elems_des_members.induct)
  case (1 c t old len buf pos)
  show ?case
  proof (cases v)
    case VNull
    with 1 show ?thesis using des_bool_holds [of len buf pos True] by simp
  next
    case (VRef w)
    with 1 have h: "des_bool (cd_endian c) len buf pos = Inr (False, pos + 1)"
      "rd_ok len buf (pos + 1)" "holds buf (nat (pos + 1)) (enc ce t w)"
      using des_bool_holds [of len buf pos False] rd_ok_holds [of len buf pos "[0]"]
        holds_append [of buf "nat pos" "[0]" "enc ce t w"]
      by (auto simp: rd_ok_def nat_add_distrib)
    have "deserialize c t (init_val c t) len buf (pos + 1)
        = Inr (w, pos + 1 + int (length (enc ce t w)))"
      by (rule "1.IH" [OF h(1) refl]) (use 1 VRef h in simp_all)
    with h(1) VRef show ?thesis by simp
  qed (use 1 in simp_all)
next
  case (2 c sg n old len buf pos)
  then show ?case
    by (cases v) (simp_all add: des_int64_holds enum_roundtrip del: le_bytes_numeral)
next
  case (3 c old len buf pos)
  then show ?case by (cases v) (simp_all add: des_bool_holds)
next
  case (4 c n old len buf pos)
  then show ?case by (cases v) (simp_all add: des_fundamental_holds)
next
  case (5 c k old len buf pos)
  then show ?case by (cases v; cases old) (simp_all add: custom_readsD)
next
  case (6 c old len buf pos)
  then show ?case
  proof (cases v)
    case (VString cs)
    with 6 have h: "rd_ok len buf pos" "holds buf (nat pos) (le_bytes 8 (length cs))"
      "holds buf (nat (pos + 8)) cs" "length cs \<le> cd_cap c" "length cs < 4611686018427387904"
      by (simp_all add: nat_add_distrib del: le_bytes_numeral)
    from h(1,2) have "rd_ok len buf (pos + 8)"
      using rd_ok_holds [of len buf pos "le_bytes 8 (length cs)"] by (simp del: le_bytes_numeral)
    with h des_length_holds [OF h(1,2,5)] VString show ?thesis
      by (simp add: des_chars_holds del: le_bytes_numeral)
  qed simp_all
next
  case (7 c t old len buf pos)
  then show ?case
  proof (cases v)
    case (VSeq vs)
    with 7 have old: "old = VSeq []" and h: "rd_ok len buf pos"
      "holds buf (nat pos) (le_bytes 8 (length vs))" "holds buf (nat (pos + 8)) (enc_elems ce t vs)"
      "length vs \<le> cd_cap c" "length vs < 4611686018427387904"
      by (simp_all add: nat_add_distrib del: le_bytes_numeral)
    from h(1,2) have r: "rd_ok len buf (pos + 8)"
      using rd_ok_holds [of len buf pos "le_bytes 8 (length vs)"] by (simp del: le_bytes_numeral)
    note d = des_length_holds [OF h(1,2,5), of "cd_endian c"]
    have "des_elems c t (nat (int (length vs))) [] len buf (pos + 8)
        = Inr ([] @ vs, pos + 8 + int (length (enc_elems ce t vs)))"
      by (rule "7.IH" [OF old d refl container_alloc_ok [OF h(4,5)]])
        (use 7 VSeq h r in simp_all)
    with d old VSeq container_alloc_ok [OF h(4,5)] show ?thesis
      by (simp del: le_bytes_numeral)
  qed simp_all
next
  case (8 c t old len buf pos)
  then show ?case by simp
next
  case (9 c ts old len buf pos)
  then show ?case by (cases v; cases old) simp_all
next
  case (10 c old len buf pos)
  then show ?case by (cases v) (simp_all add: des_error_holds del: le_bytes_numeral)
next
  case (11 c t old len buf pos)
  show ?case
  proof (cases v)
    case (VValue w)
    with 11 obtain u where old: "old = VValue u" by (cases old) auto
    with 11 VValue have h: "des_bool (cd_endian c) len buf pos = Inr (True, pos + 1)"
      "rd_ok len buf (pos + 1)" "holds buf (nat (pos + 1)) (enc ce t w)"
      using des_bool_holds [of len buf pos True] rd_ok_holds [of len buf pos "[1]"]
        holds_append [of buf "nat pos" "[1]" "enc ce t w"]
      by (auto simp: rd_ok_def nat_add_distrib)
    with 11 VValue old show ?thesis by simp
  next
    case (VUnexp err)
    with 11 obtain u where old: "old = VUnexp u" by (cases old) auto
    let ?bs = "le_bytes 4 (nat (err mod 4294967296))"
    from 11 VUnexp have h: "des_bool (cd_endian c) len buf pos = Inr (False, pos + 1)"
      "rd_ok len buf (pos + 1)" "holds buf (nat (pos + 1)) ?bs"
      using des_bool_holds [of len buf pos False] rd_ok_holds [of len buf pos "[0]"]
        holds_append [of buf "nat pos" "[0]" ?bs]
      by (auto simp: rd_ok_def nat_add_distrib simp del: le_bytes_numeral)
    with 11 VUnexp old show ?thesis
      using des_error_holds [OF h(2,3)] by (simp del: le_bytes_numeral)
  qed (use 11 in simp_all)
next
  case (12 c t n acc len buf pos)
  then show ?case
  proof (cases vs)
    case Nil
    with 12 show ?thesis by simp
  next
    case (Cons w ws)
    with 12 have n: "n = Suc (length ws)" and h: "holds buf (nat pos) (enc ce t w)"
      "holds buf (nat (pos + int (length (enc ce t w)))) (enc_elems ce t ws)"
      "rd_ok len buf pos" by simp_all
    from h(3,1) have r: "rd_ok len buf (pos + int (length (enc ce t w)))" by (rule rd_ok_holds)
    have d: "deserialize c t (init_val c t) len buf pos = Inr (w, pos + int (length (enc ce t w)))"
      by (rule "12.IH"(1) [OF n]) (use 12 Cons h in simp_all)
    have "des_elems c t (length ws) (acc @ [w]) len buf (pos + int (length (enc ce t w)))
        = Inr ((acc @ [w]) @ ws,
            pos + int (length (enc ce t w)) + int (length (enc_elems ce t ws)))"
      by (rule "12.IH"(2) [OF n d refl]) (use 12 Cons h r in simp_all)
    with d Cons n show ?thesis by simp
  qed
next
  case (13 c ts olds len buf pos)
  then show ?case
  proof (cases ts)
    case Nil
    with 13 show ?thesis by simp
  next
    case (Cons t ts')
    with 13 obtain w ws' o1 os where ws: "ws = w # ws'" and os: "olds = o1 # os"
      by (cases ws; cases olds) auto
    with 13 Cons have h: "holds buf (nat pos) (enc ce t w)"
      "holds buf (nat (pos + int (length (enc ce t w)))) (enc_members ce ts' ws')"
      "rd_ok len buf pos" by simp_all
    from h(3,1) have r: "rd_ok len buf (pos + int (length (enc ce t w)))" by (rule rd_ok_holds)
    have d: "deserialize c t o1 len buf pos = Inr (w, pos + int (length (enc ce t w)))"
      by (rule "13.IH"(1) [OF Cons os]) (use 13 Cons ws os h in simp_all)
    have "des_members c ts' os len buf (pos + int (length (enc ce t w)))
        = Inr (ws', pos + int (length (enc ce t w)) + int (length (enc_members ce ts' ws')))"
      by (rule "13.IH"(2) [OF Cons os d refl]) (use 13 Cons ws os h r in simp_all)
    with d Cons ws os show ?thesis by simp
  qed
qed

section \<open>Sizes\<close>

lemma size_simulation:
  assumes cs: "custom_sizes ce (cd_custom c)"
  shows get_serialize_size_enc:
      "expected_free t \<Longrightarrow> has_ty cap t v \<Longrightarrow> get_serialize_size c t v = int (length (enc ce t v))"
    and size_elems_enc:
      "expected_free t \<Longrightarrow> \<forall>v \<in> set vs. has_ty cap t v \<Longrightarrow>
       size_elems c t vs = int (length (enc_elems ce t vs))"
    and size_members_enc:
      "\<forall>t \<in> set ts. expected_free t \<Longrightarrow> has_tys cap ts vs \<Longrightarrow>
       size_members c ts vs = int (length (enc_members ce ts vs))"
  using cs
  by (induction c t v and c t vs and c ts vs
      rule: get_serialize_size_size_elems_size_members.induct)
    (auto simp: custom_sizes_def error_size_def simp del: le_bytes_numeral
      split: cval.splits list.splits)

section \<open>Reading untrusted bytes\<close>

text \<open>Types whose fundamental members have a size that exists.\<close>

fun wf_ty :: "cty \<Rightarrow> bool" where
  "wf_ty (TNum n) = (n \<le> 16)"
| "wf_ty (TPtr t) = wf_ty t"
| "wf_ty (TVector t) = wf_ty t"
| "wf_ty (TRange t) = wf_ty t"
| "wf_ty (TStruct ts) = (\<forall>t \<in> set ts. wf_ty t)"
| "wf_ty (TExpected t) = wf_ty t"
| "wf_ty _ = True"

text \<open>Outcomes without undefined memory access, that leave the position inside the buffer.\<close>

definition safe_read :: "int \<Rightarrow> int \<Rightarrow> fault + ('a \<times> int) \<Rightarrow> bool" where
  "safe_read len pos r =
     (case r of Inl f \<Rightarrow> \<not> memory_ub f | Inr (x, p) \<Rightarrow> pos \<le> p \<and> p \<le> len)"

lemma safe_read_andthen:
  assumes "safe_read len pos m"
    and "\<And>x p. m = Inr (x, p) \<Longrightarrow> pos \<le> p \<Longrightarrow> p \<le> len \<Longrightarrow> safe_read len p (f (x, p))"
  shows "safe_read len pos (andthen m f)"
proof (cases m)
  case (Inl e)
  with assms(1) show ?thesis by (simp add: safe_read_def)
next
  case (Inr y)
  obtain x p where y: "y = (x, p)" by (cases y)
  with Inr assms(1) have p: "pos \<le> p" "p \<le> len" by (simp_all add: safe_read_def)
  have "safe_read len p (f (x, p))" by (rule assms(2)) (use Inr y p in simp_all)
  with Inr y p(1) show ?thesis by (auto simp: safe_read_def split: sum.splits)
qed

lemma safe_read_check:
  assumes "\<not> memory_ub e" and "b \<Longrightarrow> safe_read len pos (f ())"
  shows "safe_read len pos (andthen (check e b) f)"
  using assms by (simp add: check_def safe_read_def)

lemma safe_read_simps [simp]:
  "safe_read len pos (Inl f) \<longleftrightarrow> \<not> memory_ub f"
  "safe_read len pos (Inr (x, p)) \<longleftrightarrow> pos \<le> p \<and> p \<le> len"
  by (simp_all add: safe_read_def)

lemma safe_des_fundamental:
  "rd_ok len buf pos \<Longrightarrow> n \<le> 16 \<Longrightarrow> safe_read len pos (des_fundamental e n len buf pos)"
  by (simp add: des_fundamental_read memory_ub_def)

lemma safe_des_bool: "rd_ok len buf pos \<Longrightarrow> safe_read len pos (des_bool e len buf pos)"
  unfolding des_bool_def
  by (rule safe_read_andthen) (auto simp: safe_des_fundamental memory_ub_def split: if_splits)

lemma safe_des_int64: "rd_ok len buf pos \<Longrightarrow> safe_read len pos (des_int64 e len buf pos)"
  unfolding des_int64_def by (rule safe_read_andthen) (auto simp: safe_des_fundamental)

lemma safe_des_error: "rd_ok len buf pos \<Longrightarrow> safe_read len pos (des_error e len buf pos)"
  unfolding des_error_def by (rule safe_read_andthen) (auto simp: safe_des_fundamental)

lemma to_u64_neg: "in_i64 x \<Longrightarrow> x < 0 \<Longrightarrow> 9223372036854775808 \<le> to_u64 x"
proof -
  assume "in_i64 x" and "x < 0"
  then have "x mod 18446744073709551616 = x + 18446744073709551616"
    using mod_pos_pos_trivial [of "x + 18446744073709551616" 18446744073709551616]
    by (simp add: in_i64_def)
  with \<open>in_i64 x\<close> show ?thesis by (simp add: to_u64_def in_i64_def)
qed

lemma small_length:
  assumes "in_i64 x" and "to_u64 x \<le> int n" and "n < 4611686018427387904"
  shows "0 \<le> x \<and> x \<le> int n"
proof -
  have "0 \<le> x" using to_u64_neg [OF assms(1)] assms(2,3) by linarith
  with assms show ?thesis by (simp add: in_i64_def)
qed

lemma des_int64_range: "des_int64 e len buf pos = Inr (x, p) \<Longrightarrow> in_i64 x"
  by (auto simp: des_int64_def andthen_iff)

lemma safe_des_chars:
  assumes "rd_ok len buf pos" and "in_i64 x" and "cd_cap c < 4611686018427387904"
  shows "safe_read len pos (des_chars c x len buf pos)"
  unfolding des_chars_def container_alloc_def
proof (rule safe_read_check)
  assume "to_u64 x \<le> int (cd_cap c)"
  with assms have x: "0 \<le> x" "x \<le> int (cd_cap c)" using small_length by blast+
  with assms show "safe_read len pos
      (if \<not> in_i64 (pos + x) then Inl Ub_overflow
       else if len < pos + x then Inl Out_of_range
       else andthen (mem_read buf pos (nat (to_u64 x))) (\<lambda>cs. Inr (cs, pos + x)))"
    by (simp add: rd_ok_def in_i64_def memory_ub_def mem_read_def)
qed (simp add: memory_ub_def)

lemma rd_ok_later: "rd_ok len buf pos \<Longrightarrow> pos \<le> p \<Longrightarrow> p \<le> len \<Longrightarrow> rd_ok len buf p"
  by (simp add: rd_ok_def)

lemma custom_safeD:
  "custom_safe u \<Longrightarrow> rd_ok len buf pos \<Longrightarrow> safe_read len pos (cu_des u k old len buf pos)"
  by (simp add: custom_safe_def safe_read_def rd_ok_def)

lemmas safe_leaf = safe_des_fundamental safe_des_bool safe_des_int64 safe_des_error

lemma reader_safety:
  assumes cu: "custom_safe (cd_custom c)" and cap: "cd_cap c < 4611686018427387904"
  shows deserialize_safe_aux:
      "wf_ty t \<Longrightarrow> rd_ok len buf pos \<Longrightarrow> safe_read len pos (deserialize c t old len buf pos)"
    and des_elems_safe_aux:
      "wf_ty t \<Longrightarrow> rd_ok len buf pos \<Longrightarrow> safe_read len pos (des_elems c t n acc len buf pos)"
    and des_members_safe_aux:
      "\<forall>t \<in> set ts. wf_ty t \<Longrightarrow> rd_ok len buf pos \<Longrightarrow>
       safe_read len pos (des_members c ts olds len buf pos)"
  using cu cap
proof (induction c t old len buf pos and c t n acc len buf pos and c ts olds len buf pos
    rule: deserialize_des_elems_des_members.induct)
  case (1 c t old len buf pos)
  show ?case
    unfolding deserialize.simps
  proof (rule safe_read_andthen)
    fix isn p
    assume b: "des_bool (cd_endian c) len buf pos = Inr (isn, p)" and p: "pos \<le> p" "p \<le> len"
    show "safe_read len p (case (isn, p) of (is_null, p) \<Rightarrow>
        if is_null then Inr (VNull, p)
        else andthen (deserialize c t (init_val c t) len buf p) (\<lambda>(v, p). Inr (VRef v, p)))"
    proof (cases isn)
      case False
      have "safe_read len p (deserialize c t (init_val c t) len buf p)"
        by (rule "1.IH" [OF b refl]) (use 1 p False in \<open>auto intro: rd_ok_later\<close>)
      with False show ?thesis by (auto intro: safe_read_andthen)
    qed (use p in simp)
  qed (use 1 in \<open>simp add: safe_des_bool\<close>)
next
  case (2 c sg n old len buf pos)
  then show ?case by (auto intro!: safe_read_andthen simp: safe_leaf)
next
  case (3 c old len buf pos)
  then show ?case by (auto intro!: safe_read_andthen simp: safe_leaf)
next
  case (4 c n old len buf pos)
  then show ?case by (auto intro!: safe_read_andthen simp: safe_leaf)
next
  case (5 c k old len buf pos)
  then show ?case
    by (cases old) (auto intro!: safe_read_andthen custom_safeD simp: memory_ub_def)
next
  case (6 c old len buf pos)
  then show ?case
    by (auto intro!: safe_read_andthen safe_des_chars
        simp: safe_leaf des_int64_range intro: rd_ok_later)
next
  case (7 c t old len buf pos)
  then show ?case
    by (cases old) (auto intro!: safe_read_andthen safe_read_check
        simp: safe_leaf memory_ub_def container_alloc_def rd_ok_later)
next
  case (8 c t old len buf pos)
  then show ?case by (simp add: memory_ub_def)
next
  case (9 c ts old len buf pos)
  then show ?case by (cases old) (auto intro!: safe_read_andthen simp: memory_ub_def)
next
  case (10 c old len buf pos)
  then show ?case by (auto intro!: safe_read_andthen simp: safe_leaf)
next
  case (11 c t old len buf pos)
  then show ?case
    by (cases old) (auto intro!: safe_read_andthen simp: safe_leaf memory_ub_def rd_ok_later)
next
  case (12 c t n acc len buf pos)
  then show ?case
    by (cases n) (auto intro!: safe_read_andthen simp: rd_ok_def)
next
  case (13 c ts olds len buf pos)
  then show ?case
    by (cases ts; cases olds) (auto intro!: safe_read_andthen simp: rd_ok_def memory_ub_def
        des_members.simps)
qed

end
