(* ===== verification/Serializer_Props.thy ===== *)
theory Serializer_Props
  imports Wire_Format
begin

text \<open>
  The properties of the serializer, each with a concrete witness. The witnesses use a codec
  whose custom class is a counter with a unary wire format, and a struct value that goes
  through every branch of the serializer.
\<close>

section \<open>A concrete codec and value\<close>

definition unary_enc :: "nat \<Rightarrow> nat \<Rightarrow> bytes" where
  "unary_enc k x = replicate x 1 @ [0]"

definition unary_ops :: custom_ops where
  "unary_ops = \<lparr>cu_ser = (\<lambda>k x len s. emit (unary_enc k x) len s),
     cu_des = (\<lambda>k old len buf pos.
       (let n = length (takeWhile (\<lambda>b. b = 1) (drop (nat pos) buf)) in
        if pos + int n < len then Inr (n, pos + int n + 1) else Inl Out_of_range)),
     cu_size = (\<lambda>k x. int x + 1), cu_init = (\<lambda>k. 0)\<rparr>"

definition std_codec :: "endian \<Rightarrow> codec" where
  "std_codec e = \<lparr>cd_endian = e, cd_cap = 1000, cd_custom = unary_ops\<rparr>"

lemma unary_writes: "custom_writes unary_enc unary_ops"
  by (simp add: custom_writes_def unary_ops_def)

lemma unary_sizes: "custom_sizes unary_enc unary_ops"
  by (simp add: custom_sizes_def unary_ops_def unary_enc_def)

lemma unary_reads: "custom_reads unary_enc unary_ops"
  unfolding custom_reads_def
proof (intro allI impI)
  fix k x old :: nat and len :: int and buf :: bytes and p
  assume len: "len = int (length buf)" and h: "holds buf p (unary_enc k x)"
  have "drop p buf = take (Suc x) (drop p buf) @ drop (Suc x) (drop p buf)"
    by (rule append_take_drop_id [symmetric])
  with h have d: "drop p buf = replicate x 1 @ 0 # drop (Suc x) (drop p buf)"
    by (simp add: holds_def unary_enc_def)
  have "takeWhile (\<lambda>b. b = 1) (replicate x 1 @ 0 # rest) = replicate x (1 :: u8)" for rest
    by (induction x) simp_all
  with d have n: "takeWhile (\<lambda>b. b = 1) (drop p buf) = replicate x 1" by simp
  have "p + x < length buf" using h by (simp add: holds_def unary_enc_def)
  with n len show "cu_des unary_ops k old len buf (int p)
      = Inr (x, int p + int (length (unary_enc k x)))"
    by (simp add: unary_ops_def unary_enc_def Let_def)
qed

lemma unary_safe: "custom_safe unary_ops"
  by (auto simp: custom_safe_def unary_ops_def Let_def memory_ub_def)

definition demo_ty :: cty where
  "demo_ty = TStruct [TString, TVector (TNum 2), TPtr TBool, TEnum True 1, TError, TCustom 0,
     TExpected (TNum 4)]"

definition demo_val :: cval where
  "demo_val = VStruct [VString [104, 105], VSeq [VNum 513, VNum 7], VRef (VBool True),
     VEnum (- 2), VError (- 1001), VCustom 3, VValue (VNum 70000)]"

lemmas demo_simps = demo_ty_def demo_val_def std_codec_def enum_of_int64_def sb_ok_def rd_ok_def
  unary_ops_def unary_enc_def

lemma demo_has_ty: "has_ty 1000 demo_ty demo_val"
  by (simp add: demo_simps)

section \<open>Refinement of the wire format\<close>

text \<open>
  C2. \<open>serialize\<close> writes exactly the wire format of the value at the current position, on
  a little-endian and on a big-endian host alike, when it fits the buffer, and throws
  \<open>out_of_range\<close> otherwise. It never writes outside the buffer.
\<close>

theorem serialize_refines_wire_format:
  assumes "custom_writes ce (cd_custom c)" and "has_ty cap t v" and "sb_ok len s"
  shows "serialize c t v len s = emit (enc ce t v) len s"
  using assms by (rule serialize_emit_aux)

theorem serialize_refines_wire_format_witness:
  "serialize (std_codec Big) demo_ty demo_val 70 \<lparr>sb_bytes = replicate 70 0, sb_pos = 3\<rparr>
   = emit (enc unary_enc demo_ty demo_val) 70 \<lparr>sb_bytes = replicate 70 0, sb_pos = 3\<rparr>"
  by (rule serialize_refines_wire_format [where cap = 1000])
    (simp_all add: demo_has_ty unary_writes std_codec_def sb_ok_def)

section \<open>Round trip\<close>

text \<open>
  Reading back at the same position into an object that fits (\<open>target_ok\<close>: its vectors are empty,
  its \<open>Expected\<close> members already hold the right alternative).
\<close>

lemma deserialize_written:
  assumes "custom_writes ce (cd_custom w)" and "custom_reads ce (cd_custom r)"
    and "has_ty (cd_cap r) t v" and "target_ok r t old v" and "sb_ok len s"
    and "serialize w t v len s = Inr s'"
  shows "deserialize r t old len (sb_bytes s') (sb_pos s) = Inr (v, sb_pos s')"
proof -
  have e: "emit (enc ce t v) len s = Inr s'"
    using serialize_emit_aux [OF assms(1,3,5)] assms(6) by simp
  then have p: "sb_pos s' = sb_pos s + int (length (enc ce t v))"
    and fit: "sb_pos s + int (length (enc ce t v)) \<le> len"
    and b: "sb_bytes s' = put (sb_bytes s) (nat (sb_pos s)) (enc ce t v)"
    by (auto simp: emit_def split: if_splits)
  have "rd_ok len (sb_bytes s') (sb_pos s)"
    using sb_ok_emit [OF assms(5) e] assms(5) by (simp add: rd_ok_def sb_ok_def)
  moreover have "holds (sb_bytes s') (nat (sb_pos s)) (enc ce t v)"
    unfolding b by (rule holds_put) (use fit assms(5) in \<open>auto simp: sb_ok_def\<close>)
  ultimately show ?thesis
    using deserialize_enc_aux [OF assms(2-4)] p by simp
qed

text \<open>
  What a freshly constructed object can take: no container other than \<open>std::vector\<close>, which
  \<open>serialize\<close> writes and \<open>deserialize\<close> does not read, and no \<open>Expected\<close> that holds an error, which a
  fresh one cannot take (\<open>expected_error_into_default_is_undefined\<close>).
\<close>

fun fresh_reads :: "cty \<Rightarrow> cval \<Rightarrow> bool"
  and fresh_reads_members :: "cty list \<Rightarrow> cval list \<Rightarrow> bool" where
  "fresh_reads (TPtr t) v = (case v of VRef w \<Rightarrow> fresh_reads t w | _ \<Rightarrow> True)"
| "fresh_reads (TVector t) v = (case v of VSeq vs \<Rightarrow> (\<forall>w \<in> set vs. fresh_reads t w) | _ \<Rightarrow> True)"
| "fresh_reads (TRange t) v = False"
| "fresh_reads (TStruct ts) v = (case v of VStruct vs \<Rightarrow> fresh_reads_members ts vs | _ \<Rightarrow> True)"
| "fresh_reads (TExpected t) v = (case v of VValue w \<Rightarrow> fresh_reads t w | _ \<Rightarrow> False)"
| "fresh_reads TBool v = True"
| "fresh_reads (TNum n) v = True"
| "fresh_reads (TEnum sg n) v = True"
| "fresh_reads (TCustom k) v = True"
| "fresh_reads TString v = True"
| "fresh_reads TError v = True"
| "fresh_reads_members [] vs = True"
| "fresh_reads_members (t # ts) vs =
     (case vs of [] \<Rightarrow> True | v # vs \<Rightarrow> fresh_reads t v \<and> fresh_reads_members ts vs)"

lemma fresh_target_ok:
  "has_ty cap t v \<Longrightarrow> fresh_reads t v \<Longrightarrow> target_ok c t (init_val c t) v"
  "has_tys cap ts vs \<Longrightarrow> fresh_reads_members ts vs \<Longrightarrow> targets_ok c ts (map (init_val c) ts) vs"
proof (induction t v and ts vs rule: fresh_reads_fresh_reads_members.induct)
qed (auto split: cval.splits list.splits)

text \<open>
  C1. What \<open>serialize\<close> wrote, \<open>deserialize\<close> reads back into a freshly constructed object: it gives
  the value that was written and the position behind it, whatever the byte orders of the writing
  and the reading host. The value may be any one whose \<open>Expected\<close> members hold values, of a type
  whose containers are vectors and strings.
\<close>

theorem serialize_deserialize_roundtrip:
  assumes "custom_writes ce (cd_custom w)" and "custom_reads ce (cd_custom r)"
    and "has_ty (cd_cap r) t v" and "fresh_reads t v" and "sb_ok len s"
    and "serialize w t v len s = Inr s'"
  shows "deserialize r t (init_val r t) len (sb_bytes s') (sb_pos s) = Inr (v, sb_pos s')"
  by (rule deserialize_written [OF assms(1-3) fresh_target_ok(1) [OF assms(3,4)] assms(5,6)])

theorem serialize_deserialize_roundtrip_witness:
  "\<exists>s'. serialize (std_codec Big) demo_ty demo_val 70
          \<lparr>sb_bytes = replicate 70 0, sb_pos = 3\<rparr> = Inr s' \<and>
        deserialize (std_codec Little) demo_ty (init_val (std_codec Little) demo_ty) 70
          (sb_bytes s') 3 = Inr (demo_val, sb_pos s')"
proof -
  let ?s = "\<lparr>sb_bytes = replicate 70 0, sb_pos = 3\<rparr> :: sbuf"
  have ok: "sb_ok 70 ?s" by (simp add: sb_ok_def)
  have w: "custom_writes unary_enc (cd_custom (std_codec Big))"
    and r: "custom_reads unary_enc (cd_custom (std_codec Little))"
    by (simp_all add: std_codec_def unary_writes unary_reads)
  have t: "has_ty (cd_cap (std_codec Little)) demo_ty demo_val"
    using demo_has_ty by (simp add: std_codec_def)
  have "int (length (enc unary_enc demo_ty demo_val)) \<le> 67"
    by (simp add: demo_simps)
  then obtain s' where s': "serialize (std_codec Big) demo_ty demo_val 70 ?s = Inr s'"
    using serialize_emit_aux [OF w t ok] by (simp add: emit_def)
  have "fresh_reads demo_ty demo_val" by (simp add: demo_ty_def demo_val_def)
  from serialize_deserialize_roundtrip [OF w r t this ok s'] s' show ?thesis by simp
qed

section \<open>Sizes\<close>

text \<open>
  For every type without an \<open>Expected\<close> inside, a buffer of \<open>get_serialize_size\<close> bytes
  is exactly enough: serialization from position 0 succeeds and ends at its last byte, which
  is what the assertions after \<open>serialize\<close> in the RPC code demand.
\<close>

theorem serialize_fills_computed_size:
  assumes "custom_writes ce (cd_custom c)" and "custom_sizes ce (cd_custom c)"
    and "expected_free t" and "has_ty cap t v"
    and "len = get_serialize_size c t v" and "length buf = nat len" and "len < 4611686018427387904"
  shows "serialize0 c t v len buf = Inr \<lparr>sb_bytes = enc ce t v, sb_pos = len\<rparr>"
proof -
  have len: "len = int (length (enc ce t v))"
    using get_serialize_size_enc [OF assms(2-4)] assms(5) by simp
  with assms(6,7) have "sb_ok len \<lparr>sb_bytes = buf, sb_pos = 0\<rparr>" by (simp add: sb_ok_def)
  with assms(1,4) have "serialize0 c t v len buf
      = emit (enc ce t v) len \<lparr>sb_bytes = buf, sb_pos = 0\<rparr>"
    unfolding serialize0_def by (rule serialize_emit_aux)
  with len assms(6) show ?thesis by (simp add: emit_def put_def)
qed

theorem serialize_fills_computed_size_witness:
  "serialize0 (std_codec Little) (TStruct [TNum 8, TString]) (VStruct [VNum 5, VString [65]]) 17
     (replicate 17 0)
   = Inr \<lparr>sb_bytes = enc unary_enc (TStruct [TNum 8, TString]) (VStruct [VNum 5, VString [65]]),
          sb_pos = 17\<rparr>"
  by (rule serialize_fills_computed_size [where cap = 10])
    (simp_all add: std_codec_def unary_writes unary_sizes)

text \<open>
  The size of an \<open>Expected\<close> that holds a value is computed as if it held an error: 5
  bytes. When the value needs more than 4 bytes, serializing it into a buffer of the computed
  size throws \<open>out_of_range\<close>.
\<close>

theorem expected_value_overflows_computed_size:
  assumes "custom_writes ce (cd_custom c)" and "has_ty cap t w" and "4 < length (enc ce t w)"
    and "len = get_serialize_size c (TExpected t) (VValue w)" and "length buf = nat len"
  shows "len = 5 \<and> serialize0 c (TExpected t) (VValue w) len buf = Inl Out_of_range"
proof
  show len: "len = 5" using assms(4) by (simp add: error_size_def)
  with assms(5) have "sb_ok len \<lparr>sb_bytes = buf, sb_pos = 0\<rparr>" by (simp add: sb_ok_def)
  moreover have "has_ty cap (TExpected t) (VValue w)" using assms(2) by simp
  ultimately have "serialize0 c (TExpected t) (VValue w) len buf
      = emit (enc ce (TExpected t) (VValue w)) len \<lparr>sb_bytes = buf, sb_pos = 0\<rparr>"
    unfolding serialize0_def using assms(1) by (intro serialize_emit_aux)
  with len assms(3) show "serialize0 c (TExpected t) (VValue w) len buf = Inl Out_of_range"
    by (simp add: emit_def)
qed

theorem expected_value_overflows_computed_size_witness:
  "(5 :: int) = 5 \<and>
   serialize0 (std_codec Little) (TExpected (TNum 8)) (VValue (VNum 42)) 5 [0, 0, 0, 0, 0]
   = Inl Out_of_range"
  by (rule expected_value_overflows_computed_size [where cap = 0 and ce = unary_enc])
    (simp_all add: std_codec_def unary_writes error_size_def)

section \<open>Untrusted input\<close>

text \<open>
  C3. Reading any type from any bytes at any position inside the buffer terminates without an
  out-of-bounds access and without integer overflow: it returns a value and a position that
  has not moved backwards and is still inside the buffer, or it reports a fault that is not a
  memory error.
\<close>

theorem deserialize_memory_safe:
  assumes "custom_safe (cd_custom c)" and "cd_cap c < 4611686018427387904" and "wf_ty t"
    and "rd_ok len buf pos"
  shows "safe_read len pos (deserialize c t old len buf pos)"
  using assms by (rule deserialize_safe_aux)

theorem deserialize_memory_safe_witness:
  "safe_read 12 0 (deserialize (std_codec Little) (TVector TString) (VSeq []) 12
     [2, 0, 0, 0, 0, 0, 0, 0, 255, 255, 255, 255] 0)"
  by (rule deserialize_memory_safe)
    (simp_all add: std_codec_def unary_safe rd_ok_def)

text \<open>
  An error response read into a default constructed \<open>Expected\<close> is undefined behaviour:
  \<open>deserialize\<close> writes through \<open>error()\<close> while the object holds a value.
\<close>

theorem expected_error_into_default_is_undefined:
  assumes "rd_ok len buf pos" and "holds buf (nat pos) [0]"
  shows "deserialize c (TExpected t) (init_val c (TExpected t)) len buf pos
         = Inl Ub_wrong_alternative"
  using des_bool_holds [OF assms(1), of False] assms(2) by simp

theorem expected_error_into_default_is_undefined_witness:
  "deserialize (std_codec Big) (TExpected (TNum 8)) (init_val (std_codec Big) (TExpected (TNum 8)))
     5 [0, 23, 252, 255, 255] 0 = Inl Ub_wrong_alternative"
  by (rule expected_error_into_default_is_undefined) (simp_all add: rd_ok_def holds_def)

end
