(* ===== verification/Net_Props.thy ===== *)
theory Net_Props
  imports Net_Define Serializer_Props
begin

unbundle bit_operations_syntax

text \<open>
  Lemmas and properties of the network vocabulary: the package header on the wire and its
  message type, the two text forms of an end point, and the ownership of \<open>NetBuffer\<close>.
\<close>

section \<open>The header on the wire\<close>

lemma unat_u32_less [simp]: "unat (x :: u32) < 4294967296"
  using unsigned_less [of x] by simp

lemma unat_u16_less [simp]: "unat (x :: u16) < 65536"
  using unsigned_less [of x] by simp

lemma unat_u64_less [simp]: "unat (x :: u64) < 18446744073709551616"
  using unsigned_less [of x] by simp

lemma header_has_ty [simp]: "has_ty cap header_ty (header_val h)"
  by (simp add: header_ty_def header_val_def)

lemma header_size [simp]: "get_serialize_size c header_ty (header_val h) = 32"
  by (simp add: header_ty_def header_val_def)

lemma header_enc_length [simp]: "length (enc ce header_ty (header_val h)) = 32"
  by (simp add: header_ty_def header_val_def)

lemma header_of_header_val [simp]: "header_of_val (header_val h) = Some h"
  by (simp add: header_val_def)

lemma header_target_ok [simp]: "target_ok c header_ty (header_val old) (header_val h)"
  by (simp add: header_ty_def header_val_def)

text \<open>No member of the header is a custom class: the codec's custom methods play no part.\<close>

definition header_bytes :: "PackageHeader \<Rightarrow> bytes" where
  "header_bytes h = enc unary_enc header_ty (header_val h)"

lemma header_enc: "enc ce header_ty (header_val h) = header_bytes h"
  by (simp add: header_bytes_def header_ty_def header_val_def)

lemma length_header_bytes [simp]: "length (header_bytes h) = 32"
  by (simp add: header_bytes_def)

lemma header_emit:
  assumes "sb_ok len s"
  shows "serialize c header_ty (header_val h) len s = emit (header_bytes h) len s"
proof -
  have "serialize c header_ty (header_val h) len s
      = serialize (c\<lparr>cd_custom := unary_ops\<rparr>) header_ty (header_val h) len s"
    by (simp add: header_ty_def header_val_def)
  also have "\<dots> = emit (header_bytes h) len s"
    unfolding header_bytes_def
    by (rule serialize_emit_aux [OF _ header_has_ty assms]) (simp add: unary_writes)
  finally show ?thesis .
qed

lemma header_des:
  assumes "rd_ok len buf pos" and "holds buf (nat pos) (header_bytes h)"
  shows "deserialize c header_ty (header_val old) len buf pos = Inr (header_val h, pos + 32)"
proof -
  have "deserialize c header_ty (header_val old) len buf pos
      = deserialize (c\<lparr>cd_custom := unary_ops\<rparr>) header_ty (header_val old) len buf pos"
    by (simp add: header_ty_def header_val_def)
  also have "\<dots> = Inr (header_val h, pos + int (length (enc unary_enc header_ty (header_val h))))"
    by (rule deserialize_enc_aux [OF _ header_has_ty header_target_ok assms(1)])
      (simp_all add: unary_reads assms(2) flip: header_bytes_def)
  finally show ?thesis by simp
qed

section \<open>Message types\<close>

lemma flags_widen:
  "ucast (ucast (w :: u16) OR 1 :: u32) = (w OR 1 :: u16)"
  "ucast (ucast (w :: u16) OR 2 :: u32) = (w OR 2 :: u16)"
  by (rule bit_word_eqI; auto simp: bit_simps)+

lemma widen_eq_0:
  assumes "ucast (x :: u16) = (0 :: u32)"
  shows "x = 0"
proof (rule bit_word_eqI)
  fix n assume "n < LENGTH(16)"
  moreover have "bit (ucast x :: u32) n = bit (0 :: u32) n" using assms by simp
  ultimately show "bit x n = bit 0 n" by (simp add: bit_simps)
qed

definition wire_type :: "MessageType \<Rightarrow> bool" where
  "wire_type t \<longleftrightarrow> t = MT_REQUEST \<or> t = MT_RESPONSE"

lemma set_message_type_new:
  "wire_type t \<Longrightarrow> set_message_type t (PackageHeader_new prc rt rid sp pl)
    = Inr ((PackageHeader_new prc rt rid sp pl)\<lparr>flags := (if t = MT_REQUEST then 1 else 2)\<rparr>)"
  by (auto simp: wire_type_def set_message_type_def PackageHeader_new_def)

lemma get_message_type_flags:
  "flags h = 1 \<Longrightarrow> get_message_type h = MT_REQUEST"
  "flags h = 2 \<Longrightarrow> get_message_type h = MT_RESPONSE"
  by (simp_all add: get_message_type_def MASK_MESSAGE_TYPE_BITS_def MessageType_of_def)

text \<open>
  A header of either kind survives the wire: written by a host of any byte order into a
  buffer with room for 32 bytes and read by a host of any byte order into a default
  constructed header, every field, the message type and the magic number arrive, and setting
  the type a second time fails the assertion.
\<close>

theorem header_wire_roundtrip:
  assumes "wire_type t" and "set_message_type t (PackageHeader_new prc rt rid sp pl) = Inr h"
    and "sb_ok len s" and "sb_pos s + 32 \<le> len"
  shows "\<exists>s'. serialize c header_ty (header_val h) len s = Inr s' \<and> sb_pos s' = sb_pos s + 32 \<and>
    deserialize c2 header_ty (header_val PackageHeader_default) len (sb_bytes s') (sb_pos s)
      = Inr (header_val h, sb_pos s') \<and>
    header_of_val (header_val h) = Some h \<and> get_message_type h = t \<and> checksum h = MAGIC_NUMBER \<and>
    set_message_type t' h = Inl Assert_failed"
proof -
  let ?s' = "\<lparr>sb_bytes = put (sb_bytes s) (nat (sb_pos s)) (header_bytes h), sb_pos = sb_pos s + 32\<rparr>"
  have w: "serialize c header_ty (header_val h) len s = Inr ?s'"
    using header_emit [OF assms(3)] assms(4) by (simp add: emit_def)
  have fit: "nat (sb_pos s) + length (header_bytes h) \<le> length (sb_bytes s)"
    using assms(3,4) by (auto simp: sb_ok_def)
  then have "holds (sb_bytes ?s') (nat (sb_pos s)) (header_bytes h)" by simp
  moreover have "length (sb_bytes ?s') = length (sb_bytes s)"
    using fit by simp
  then have "rd_ok len (sb_bytes ?s') (sb_pos s)"
    using assms(3,4) by (simp add: sb_ok_def rd_ok_def del: length_put)
  ultimately have "deserialize c2 header_ty (header_val PackageHeader_default) len (sb_bytes ?s')
      (sb_pos s) = Inr (header_val h, sb_pos s + 32)"
    by (intro header_des)
  moreover have "h = (PackageHeader_new prc rt rid sp pl)\<lparr>flags := (if t = MT_REQUEST then 1 else 2)\<rparr>"
    using assms(2) set_message_type_new [OF assms(1)] by simp
  then have "flags h = (if t = MT_REQUEST then 1 else 2) \<and> checksum h = MAGIC_NUMBER"
    by (simp add: PackageHeader_new_def)
  then have "get_message_type h = t" and "set_message_type t' h = Inl Assert_failed"
    and "checksum h = MAGIC_NUMBER"
    using assms(1) get_message_type_flags [of h]
    by (auto simp: wire_type_def set_message_type_def MASK_MESSAGE_TYPE_BITS_def)
  ultimately show ?thesis using w by simp
qed

theorem header_wire_roundtrip_witness:
  "\<exists>h s'. set_message_type MT_REQUEST (PackageHeader_new 1 3 77 8888 16) = Inr h \<and>
    serialize (std_codec Big) header_ty (header_val h) 48 \<lparr>sb_bytes = replicate 48 0, sb_pos = 0\<rparr>
      = Inr s' \<and>
    deserialize (std_codec Little) header_ty (header_val PackageHeader_default) 48 (sb_bytes s') 0
      = Inr (header_val h, sb_pos s')"
proof -
  let ?s = "\<lparr>sb_bytes = replicate 48 0, sb_pos = 0\<rparr> :: sbuf"
  have t: "wire_type MT_REQUEST" by (simp add: wire_type_def)
  obtain h where h: "set_message_type MT_REQUEST (PackageHeader_new 1 3 77 8888 16) = Inr h"
    using set_message_type_new [OF t] by blast
  have "sb_ok 48 ?s" and "sb_pos ?s + 32 \<le> 48" by (simp_all add: sb_ok_def)
  from header_wire_roundtrip [OF t h this, of "std_codec Big" "std_codec Little"] h
  show ?thesis by auto
qed

text \<open>
  The mask of the message type bits is the hexadecimal number 11b, not the two low bits:
  a set flag 3, 4 or 8, which the header keeps for future use, turns every message into one
  of no known type, on which the receiver aborts.
\<close>

theorem reserved_flags_change_message_type:
  assumes "flags h AND 0x118 \<noteq> 0"
  shows "\<exists>n. get_message_type h = MT_other n"
proof -
  let ?w = "ucast (flags h) AND 0x11b :: u32"
  have "?w AND 0x118 \<noteq> 0"
  proof
    assume "?w AND 0x118 = 0"
    then have "ucast (flags h AND 0x118) = (0 :: u32)" by (simp add: and.assoc unsigned_and_eq)
    then have "flags h AND 0x118 = 0" by (rule widen_eq_0)
    then show False using assms by simp
  qed
  then have "?w \<noteq> 0" and "?w \<noteq> 1" and "?w \<noteq> 2" and "?w \<noteq> 3" by auto
  then show ?thesis
    by (simp add: get_message_type_def MASK_MESSAGE_TYPE_BITS_def MessageType_of_def)
qed

theorem reserved_flags_change_message_type_witness:
  "\<exists>n. get_message_type (PackageHeader_default\<lparr>flags := 9\<rparr>) = MT_other n"
  by (rule reserved_flags_change_message_type) simp

section \<open>End points as text\<close>

lemma length_dotted_quad: "length (dotted_quad a) \<le> 15"
  using length_dec_u8 [of "a ! 0"] length_dec_u8 [of "a ! 1"] length_dec_u8 [of "a ! 2"]
    length_dec_u8 [of "a ! 3"]
  by (simp add: dotted_quad_def)

lemma char_digit_sep [simp]: "char_digit (CHR ''.'') = None" "char_digit (CHR '':'') = None"
  by (simp_all add: char_digit_def)

lemma dec_no_nul: "CHR 0x00 \<notin> set (dec n)"
proof
  assume "CHR 0x00 \<in> set (dec n)"
  then have "char_digit (CHR 0x00) \<noteq> None" using all_digits_dec [of n] by (simp add: all_digits_def)
  then show False by (simp add: char_digit_def)
qed

lemma dotted_quad_no_nul: "CHR 0x00 \<notin> set (dotted_quad a)"
  by (simp add: dotted_quad_def dec_no_nul)

definition quad :: "bytes \<Rightarrow> bytes" where
  "quad a = [a ! 0, a ! 1, a ! 2, a ! 3]"

text \<open>
  Converting an IPv4 end point to Boost.Asio and back is the identity up to \<open>operator==\<close>:
  the terminator fits the 16 character buffer for every address, the C string is the dotted
  quad, and the port is kept. The hypothesis states what \<open>make_address\<close> documents.
\<close>

theorem endpoint_asio_roundtrip:
  assumes "\<And>a. make_address (dotted_quad a) = Inr (Asio_v4 (quad a))" and "length ip_str = 16"
    and "ip_type e = IP_V4"
  shows "\<exists>ap e'. to_asio_endpoint make_address ip_str e = Inr ap \<and>
    from_asio_end_point e0 ap = Inr e' \<and> EndPoint_eq e e' \<and> ip_type e' = IP_V4"
proof -
  let ?t = "dotted_quad (ep_ip e)"
  have len: "length ?t \<le> 15" by (rule length_dotted_quad)
  have f: "format_to_n ip_str 0 16 ?t = Inr (put ip_str 0 ?t, int (length ?t))"
    using len assms(2) by (simp add: format_to_n_fits)
  have w: "mem_write (put ip_str 0 ?t) (int (length ?t)) [CHR 0x00]
      = Inr (?t @ CHR 0x00 # drop (length ?t + 1) ip_str)"
    using len assms(2) by (simp add: mem_write_def put_def)
  have "takeWhile (\<lambda>c. c \<noteq> CHR 0x00) (?t @ CHR 0x00 # drop (length ?t + 1) ip_str) = ?t"
    using dotted_quad_no_nul [of "ep_ip e"] by (subst takeWhile_append2) auto
  with f w assms(1) have "to_asio_endpoint make_address ip_str e
      = Inr (Asio_v4 (quad (ep_ip e)), ep_port e)"
    by (simp add: to_asio_endpoint_def)
  with assms(3) show ?thesis
    by (auto simp: from_asio_end_point_def EndPoint_eq_def ip_type_def IPV4_eq_def quad_def
        IP_TYPE_MASK_def IPType_of_def)
qed

text \<open>A \<open>make_address\<close> for dotted quads, as the witness needs one.\<close>

definition read_quad :: "string \<Rightarrow> fault + asio_address" where
  "read_quad s =
     (case read_digits 0 s of (a, s) \<Rightarrow> case read_digits 0 (tl s) of (b, s) \<Rightarrow>
      case read_digits 0 (tl s) of (c, s) \<Rightarrow> case read_digits 0 (tl s) of (d, s) \<Rightarrow>
        Inr (Asio_v4 [word_of_nat a, word_of_nat b, word_of_nat c, word_of_nat d]))"

lemma read_quad_dotted: "read_quad (dotted_quad a) = Inr (Asio_v4 (quad a))"
  using read_digits_dec_rest [of "[]" "unat (a ! 3)"]
  by (simp add: read_quad_def dotted_quad_def quad_def read_digits_dec_rest)

theorem endpoint_asio_roundtrip_witness:
  "\<exists>ap e'. to_asio_endpoint read_quad (replicate 16 CHR ''x'') (EndPoint_v4 [127, 0, 0, 1] 8888) = Inr ap \<and>
    from_asio_end_point (EndPoint_default 7) ap = Inr e' \<and>
    EndPoint_eq (EndPoint_v4 [127, 0, 0, 1] 8888) e' \<and> ip_type e' = IP_V4"
  by (rule endpoint_asio_roundtrip)
    (simp_all add: read_quad_dotted ip_type_def EndPoint_v4_def IP_TYPE_MASK_def IPType_of_def)

lemma EndPoint_eq_v4:
  "length a = 4 \<Longrightarrow> length b = 4 \<Longrightarrow>
   EndPoint_eq (EndPoint_v4 a p) (EndPoint_v4 b q) \<longleftrightarrow> a = b \<and> p = q"
  by (auto simp: EndPoint_eq_def EndPoint_v4_def IP_TYPE_MASK_def IPType_of_def IPV4_eq_def
      nth_append list_eq_iff_nth_eq less_Suc_eq numeral_eq_Suc)

definition endpoint_text :: "EndPoint \<Rightarrow> string" where
  "endpoint_text e = dotted_quad (ep_ip e) @ '':'' @ dec (unat (ep_port e))"

lemma length_endpoint_text: "length (endpoint_text e) \<le> 21"
  using length_dotted_quad [of "ep_ip e"] length_dec_u16 [of "ep_port e"]
  by (simp add: endpoint_text_def)

definition read_endpoint :: "string \<Rightarrow> nat \<times> nat \<times> nat \<times> nat \<times> nat" where
  "read_endpoint s =
     (case read_digits 0 s of (a, s) \<Rightarrow> case read_digits 0 (tl s) of (b, s) \<Rightarrow>
      case read_digits 0 (tl s) of (c, s) \<Rightarrow> case read_digits 0 (tl s) of (d, s) \<Rightarrow>
      case read_digits 0 (tl s) of (p, s) \<Rightarrow> (a, b, c, d, p))"

lemma read_endpoint_text:
  "read_endpoint (endpoint_text e) = (unat (ep_ip e ! 0), unat (ep_ip e ! 1), unat (ep_ip e ! 2),
     unat (ep_ip e ! 3), unat (ep_port e))"
  using read_digits_dec_rest [of "[]" "unat (ep_port e)"]
  by (simp add: read_endpoint_def endpoint_text_def dotted_quad_def read_digits_dec_rest)

lemma endpoint_text_inject:
  assumes "endpoint_text e = endpoint_text e'"
  shows "quad (ep_ip e) = quad (ep_ip e') \<and> ep_port e = ep_port e'"
proof -
  have "read_endpoint (endpoint_text e) = read_endpoint (endpoint_text e')" using assms by simp
  then show ?thesis by (simp add: read_endpoint_text quad_def word_unat_eq_iff)
qed

text \<open>
  Printing an end point into a buffer that is too short truncates: it writes only
  between the position and the end of the buffer. With 21 free characters the text is
  complete, and it determines the address and the port.
\<close>

theorem endpoint_print_bounded_and_injective:
  assumes "0 \<le> pos" and "pos \<le> buffer_len" and "buffer_len = int (length buf)"
  shows "\<exists>b p. EndPoint_to_string e buf buffer_len pos = Inr (b, p) \<and> length b = length buf \<and>
      pos \<le> p \<and> p \<le> buffer_len \<and> take (nat pos) b = take (nat pos) buf \<and>
      drop (nat p) b = drop (nat p) buf \<and>
      (pos + 21 \<le> buffer_len \<longrightarrow>
        (\<forall>e'. drop (nat pos) (take (nat p) b) = endpoint_text e' \<longrightarrow>
          quad (ep_ip e) = quad (ep_ip e') \<and> ep_port e = ep_port e'))"
proof -
  define t where "t = take (nat (buffer_len - pos)) (endpoint_text e)"
  let ?b = "put buf (nat pos) t" and ?p = "pos + int (length t)"
  have p: "EndPoint_to_string e buf buffer_len pos = Inr (?b, ?p)"
    using assms by (simp add: EndPoint_to_string_def format_to_n_fits endpoint_text_def t_def min.commute)
  have fit: "nat pos + length t \<le> length buf" using assms by (auto simp: t_def)
  have np: "nat ?p = nat pos + length t" using assms(1) by simp
  have b: "drop (nat pos) (take (nat ?p) ?b) = t" "take (nat pos) ?b = take (nat pos) buf"
    "drop (nat ?p) ?b = drop (nat ?p) buf"
    unfolding np using fit by (simp_all add: put_def)
  have full: "t = endpoint_text e" if "pos + 21 \<le> buffer_len"
    using that length_endpoint_text [of e] by (simp add: t_def)
  have "\<forall>e'. drop (nat pos) (take (nat ?p) ?b) = endpoint_text e' \<longrightarrow>
      quad (ep_ip e) = quad (ep_ip e') \<and> ep_port e = ep_port e'" if "pos + 21 \<le> buffer_len"
    using endpoint_text_inject full [OF that] b(1) by metis
  moreover have "length ?b = length buf" and "pos \<le> ?p" and "?p \<le> buffer_len"
    using fit assms by simp_all
  ultimately show ?thesis using p b(2,3) by blast
qed

theorem endpoint_print_bounded_and_injective_witness:
  "\<exists>b p. EndPoint_to_string (EndPoint_v4 [10, 0, 0, 7] 80) (replicate 8 CHR ''x'') 8 3 = Inr (b, p) \<and>
    length b = length (replicate 8 CHR ''x'') \<and> 3 \<le> p \<and> p \<le> 8"
proof -
  have "0 \<le> (3 :: int)" and "(3 :: int) \<le> 8" and "8 = int (length (replicate 8 CHR ''x''))" by simp_all
  from endpoint_print_bounded_and_injective [OF this, of "EndPoint_v4 [10, 0, 0, 7] 80"]
  show ?thesis by blast
qed

section \<open>Buffers\<close>

text \<open>
  Moving a buffer transfers its block: the source is empty, destroying both frees the
  block exactly once. Move assignment to a buffer that owns a block does not free it: after
  both objects are destroyed the block is still allocated and nothing refers to it.
\<close>

theorem net_buffer_ownership:
  assumes "nb_buffer r = Some b" and "m b = Some bs" and "nb_buffer t = Some a" and "m a = Some old"
    and "a \<noteq> b"
  shows "(case NetBuffer_move r of (n, r') \<Rightarrow>
        andthen (NetBuffer_destroy r' m) (NetBuffer_destroy n) = Inr (m(b := None)) \<and>
        nb_len n = nb_len r) \<and>
    (case NetBuffer_move_assign t r of (t', r') \<Rightarrow>
      \<exists>m'. andthen (NetBuffer_destroy r' m) (NetBuffer_destroy t') = Inr m' \<and> m' b = None \<and> m' a = Some old)"
  using assms by (simp add: NetBuffer_move_def NetBuffer_move_assign_def NetBuffer_destroy_def)

theorem net_buffer_ownership_witness:
  "(case NetBuffer_move_assign \<lparr>nb_buffer = Some 4, nb_len = 1\<rparr> \<lparr>nb_buffer = Some 9, nb_len = 2\<rparr> of
     (t', r') \<Rightarrow> \<exists>m'. andthen (NetBuffer_destroy r' [4 \<mapsto> [1], 9 \<mapsto> [2, 3]]) (NetBuffer_destroy t') = Inr m' \<and>
       m' 9 = None \<and> m' 4 = Some [1])"
  using net_buffer_ownership [of "\<lparr>nb_buffer = Some 9, nb_len = 2\<rparr>" 9 "[4 \<mapsto> [1], 9 \<mapsto> [2, 3]]" "[2, 3]"
      "\<lparr>nb_buffer = Some 4, nb_len = 1\<rparr>" 4 "[1]"]
  by simp

end
