(* ===== verification/Stringify_Props.thy ===== *)
theory Stringify_Props
  imports Stringify Net_Props
begin

text \<open>
  The properties of the bounded printer: without reflected structs it writes the longest
  prefix of the value's text that fits, with structs it writes the whole text when there is
  room, and printing a struct into a full buffer is undefined behaviour.
\<close>

section \<open>Truncated writes\<close>

definition cursor_ok :: "int \<Rightarrow> cursor \<Rightarrow> bool" where
  "cursor_ok len st \<longleftrightarrow> 0 \<le> snd st \<and> snd st \<le> len \<and> len = int (length (fst st))"

definition written :: "cursor \<Rightarrow> string" where
  "written st = take (nat (snd st)) (fst st)"

text \<open>The text is appended to what is written, cut at the end of the buffer.\<close>

definition printed :: "int \<Rightarrow> string \<Rightarrow> cursor \<Rightarrow> fault + cursor \<Rightarrow> bool" where
  "printed len t st r \<longleftrightarrow>
     (\<exists>st'. r = Inr st' \<and> cursor_ok len st' \<and> written st' = take (nat len) (written st @ t))"

lemma printed_Inr: "cursor_ok len st \<Longrightarrow> printed len '''' st (Inr st)"
  by (auto simp: printed_def cursor_ok_def written_def)

lemma printed_andthen:
  assumes "printed len t st m" and "\<And>st'. m = Inr st' \<Longrightarrow> cursor_ok len st' \<Longrightarrow> printed len u st' (f st')"
  shows "printed len (t @ u) st (andthen m f)"
proof -
  obtain st' where m: "m = Inr st'" "cursor_ok len st'" "written st' = take (nat len) (written st @ t)"
    using assms(1) by (auto simp: printed_def)
  obtain st2 where f: "f st' = Inr st2" "cursor_ok len st2" "written st2 = take (nat len) (written st' @ u)"
    using assms(2) [OF m(1,2)] by (auto simp: printed_def)
  have tt: "take n (take n x @ y) = take n (x @ y)" for n and x y :: string
    by (cases "n \<le> length x") simp_all
  have "written st2 = take (nat len) (written st @ t @ u)"
    by (simp only: f(3) m(3) tt append_assoc)
  with m(1) f(1,2) show ?thesis by (simp add: printed_def)
qed

lemma take_put: "p + length u \<le> length b \<Longrightarrow> take (p + length u) (put b p u) = take p b @ u"
  by (simp add: put_def)

lemma printed_FORMAT_TO: "cursor_ok len st \<Longrightarrow> printed len t st (FORMAT_TO len t st)"
proof -
  assume ok: "cursor_ok len st"
  obtain b p where st: "st = (b, p)" by (cases st)
  have c: "0 \<le> p" "p \<le> len" "len = int (length b)" using ok by (simp_all add: st cursor_ok_def)
  show ?thesis
  proof (cases "p < len")
    case False
    then show ?thesis using c by (simp add: st FORMAT_TO_def printed_def cursor_ok_def written_def)
  next
    case True
    let ?u = "take (nat (len - p)) t"
    let ?b = "put b (nat p) ?u" and ?p = "if p + int (length t) \<le> len then p + int (length t) else len"
    have f: "FORMAT_TO len t st = Inr (?b, ?p)"
      using True c by (simp add: st FORMAT_TO_def format_to_n_fits Let_def)
    have u: "nat p + length ?u \<le> length b" using c by auto
    have np: "nat ?p = nat p + length ?u" using c by auto
    have "take (nat ?p) ?b = take (nat p) b @ ?u"
      unfolding np using u by (rule take_put)
    moreover have "take (nat len) (take (nat p) b @ t) = take (nat p) b @ ?u"
      using c by (simp add: nat_diff_distrib)
    ultimately have "written (?b, ?p) = take (nat len) (written st @ t)"
      by (simp only: written_def st fst_conv snd_conv)
    moreover have "cursor_ok len (?b, ?p)" using u c by (simp add: cursor_ok_def)
    ultimately show ?thesis unfolding f printed_def by blast
  qed
qed

definition methods_ok :: "int \<Rightarrow> to_string_methods \<Rightarrow> (nat \<Rightarrow> string) \<Rightarrow> bool" where
  "methods_ok len m c \<longleftrightarrow>
     (\<forall>k b p. cursor_ok len (b, p) \<longrightarrow> printed len (c k) (b, p) (m k b len p))"

lemma printed_braced:
  assumes "cursor_ok len st" and "\<And>st. cursor_ok len st \<Longrightarrow> printed len t st (body st)"
  shows "printed len (brace k t) st (braced len k body st)"
proof (cases k)
  case True
  have "printed len (''{'' @ t @ ''}'') st
      (andthen (FORMAT_TO len ''{'' st) (\<lambda>st. andthen (body st) (\<lambda>st. FORMAT_TO len ''}'' st)))"
    by (intro printed_andthen printed_FORMAT_TO assms)
  with True show ?thesis by (simp add: braced_def brace_def)
qed (use assms in \<open>simp add: braced_def brace_def\<close>)

fun flat :: "sval \<Rightarrow> bool" where
  "flat (SStruct ms) = False"
| "flat (SSeq vs) = (\<forall>v \<in> set vs. flat v)"
| "flat (SPtr a target) = (case target of None \<Rightarrow> True | Some v \<Rightarrow> flat v)"
| "flat _ = True"

lemma printed_by_rules:
  assumes m: "methods_ok len m c"
  shows value_printed: "flat v \<Longrightarrow> cursor_ok len st \<Longrightarrow> printed len (text_of c k v) st (value_to_string m v len k st)"
    and elems_printed: "\<forall>v \<in> set vs. flat v \<Longrightarrow> cursor_ok len st \<Longrightarrow>
      printed len (text_elems c vs idx) st (elems_to_string m vs idx len st)"
    and members_printed: "(ms :: (string \<times> sval) list) = ms"
  using m
proof (induction m v len k st and m vs idx len st and m ms len st
    rule: value_to_string_elems_to_string_members_to_string.induct)
  case (3 m a target len k st)
  show ?case
  proof (cases target)
    case None
    with 3 show ?thesis by (simp add: printed_FORMAT_TO)
  next
    case (Some v)
    have "printed len ((''('' @ hex_addr a @ ''):'') @ text_of c k v) st
        (andthen (FORMAT_TO len (''('' @ hex_addr a @ ''):'') st) (\<lambda>st. value_to_string m v len k st))"
      by (intro printed_andthen printed_FORMAT_TO "3.IH" Some) (use 3 Some in auto)
    with Some show ?thesis by simp
  qed
next
  case (9 m i len k st)
  show ?case
    unfolding value_to_string.simps text_of.simps
    by (rule printed_braced) (use 9 in \<open>auto simp: methods_ok_def split: prod.split\<close>)
next
  case (10 m s len k st)
  then show ?case by (simp add: printed_braced printed_FORMAT_TO)
next
  case (11 m vs len k st)
  have more: "printed len (if length vs > MAX_PRINT_SIZE then ''..('' @ dec (length vs - MAX_PRINT_SIZE) @ '' more)'' else '''') st'
      (if length vs > MAX_PRINT_SIZE
       then FORMAT_TO len (''..('' @ dec (length vs - MAX_PRINT_SIZE) @ '' more)'') st' else Inr st')"
    if "cursor_ok len st'" for st'
    using that by (simp add: printed_FORMAT_TO printed_Inr)
  show ?case
    unfolding value_to_string.simps text_of.simps
    by (rule printed_braced, use 11 in simp)
      (intro printed_andthen printed_FORMAT_TO "11.IH" more; use 11 in \<open>simp; fail\<close>)
next
  case (13 m vs idx len st)
  show ?case
  proof (cases vs)
    case Nil
    with 13 show ?thesis by (simp add: printed_Inr)
  next
    case (Cons v ws)
    show ?thesis
    proof (cases "idx < MAX_PRINT_SIZE")
      case True
      have sep: "printed len (if idx < MAX_PRINT_SIZE - 1 \<and> ws \<noteq> [] then '', '' else '''') st'
          (if idx < MAX_PRINT_SIZE - 1 \<and> ws \<noteq> [] then FORMAT_TO len '', '' st' else Inr st')"
        if "cursor_ok len st'" for st'
        using that by (simp add: printed_FORMAT_TO printed_Inr)
      have "printed len (text_of c True v @ (if idx < MAX_PRINT_SIZE - 1 \<and> ws \<noteq> [] then '', '' else '''')
            @ text_elems c ws (Suc idx)) st
          (andthen (value_to_string m v len True st) (\<lambda>st.
             andthen (if idx < MAX_PRINT_SIZE - 1 \<and> ws \<noteq> [] then FORMAT_TO len '', '' st else Inr st)
               (\<lambda>st. elems_to_string m ws (Suc idx) len st)))"
        by (intro printed_andthen sep "13.IH" Cons True; use 13 Cons in \<open>simp; fail\<close>)
      with True Cons show ?thesis by simp
    next
      case False
      with 13 Cons show ?thesis by (simp add: printed_Inr)
    qed
  qed
qed (simp_all add: printed_FORMAT_TO)

section \<open>Complete writes\<close>

text \<open>With \<open>e\<close> characters of room behind it, the whole text is appended.\<close>

definition exact :: "int \<Rightarrow> nat \<Rightarrow> string \<Rightarrow> cursor \<Rightarrow> fault + cursor \<Rightarrow> bool" where
  "exact len e t st r \<longleftrightarrow> snd st + int (length t + e) \<le> len \<longrightarrow>
     (\<exists>st'. r = Inr st' \<and> cursor_ok len st' \<and> written st' = written st @ t)"

lemma written_length: "cursor_ok len st \<Longrightarrow> int (length (written st)) = snd st"
  by (auto simp: cursor_ok_def written_def min_def)

lemma exact_printed: "cursor_ok len st \<Longrightarrow> printed len t st r \<Longrightarrow> exact len e t st r"
  using written_length [of len st] by (auto simp: exact_def printed_def)

lemma exact_FORMAT_TO: "cursor_ok len st \<Longrightarrow> exact len e t st (FORMAT_TO len t st)"
  by (rule exact_printed, assumption, rule printed_FORMAT_TO)

lemma exact_Inr: "cursor_ok len st \<Longrightarrow> exact len e '''' st (Inr st)"
  by (simp add: exact_def)

lemma exact_andthen:
  assumes "cursor_ok len st" and "exact len e1 t st m"
    and "\<And>st'. m = Inr st' \<Longrightarrow> cursor_ok len st' \<Longrightarrow> exact len e u st' (f st')"
    and "e1 \<le> length u + e"
  shows "exact len e (t @ u) st (andthen m f)"
  unfolding exact_def
proof
  assume room: "snd st + int (length (t @ u) + e) \<le> len"
  then have "snd st + int (length t + e1) \<le> len" using assms(4) by simp
  then obtain st' where m: "m = Inr st'" "cursor_ok len st'" "written st' = written st @ t"
    using assms(2) by (auto simp: exact_def)
  have "snd st' = snd st + int (length t)"
    using written_length [OF m(2)] written_length [OF assms(1)] m(3) by simp
  then have "snd st' + int (length u + e) \<le> len" using room by simp
  with assms(3) [OF m(1,2)] m show "\<exists>st'. andthen m f = Inr st' \<and> cursor_ok len st' \<and> written st' = written st @ t @ u"
    by (auto simp: exact_def)
qed

lemma exact_braced:
  assumes "cursor_ok len st" and "\<And>st. cursor_ok len st \<Longrightarrow> exact len 2 t st (body st)"
  shows "exact len 2 (brace k t) st (braced len k body st)"
proof (cases k)
  case True
  have "exact len 2 (''{'' @ t @ ''}'') st
      (andthen (FORMAT_TO len ''{'' st) (\<lambda>st. andthen (body st) (\<lambda>st. FORMAT_TO len ''}'' st)))"
    by (rule exact_andthen [where ?e1.0 = 0], rule assms(1), rule exact_FORMAT_TO, rule assms(1),
        rule exact_andthen [where ?e1.0 = 2]) (simp_all add: assms(2) exact_FORMAT_TO)
  with True show ?thesis by (simp add: braced_def brace_def)
qed (use assms in \<open>simp add: braced_def brace_def\<close>)

lemma exact_KV:
  assumes "cursor_ok len st"
  shows "exact len e t st (KV_FORMAT_TO len t st)"
  unfolding exact_def
proof
  assume room: "snd st + int (length t + e) \<le> len"
  obtain b p where st: "st = (b, p)" by (cases st)
  have c: "0 \<le> p" "p \<le> len" "len = int (length b)" "p + int (length t) \<le> len"
    using assms room by (simp_all add: st cursor_ok_def)
  have "take (nat len) t = t" using c by simp
  then have "KV_FORMAT_TO len t st = Inr (put b (nat p) t, p + int (length t))"
    using c by (simp add: st KV_FORMAT_TO_def format_to_n_def mem_write_ok put_def)
  moreover have u: "nat p + length t \<le> length b" using c by linarith
  then have "cursor_ok len (put b (nat p) t, p + int (length t))" using c by (simp add: cursor_ok_def)
  moreover have "written (put b (nat p) t, p + int (length t)) = written st @ t"
    using c take_put [OF u] by (simp add: written_def st)
  ultimately show "\<exists>st'. KV_FORMAT_TO len t st = Inr st' \<and> cursor_ok len st' \<and> written st' = written st @ t"
    by blast
qed

lemma length_text_members: "ms \<noteq> [] \<Longrightarrow> 3 \<le> length (text_members c ms)"
  by (cases ms) auto

lemma exact_drop_separator:
  assumes "cursor_ok len st" and "exact len 0 t st m" and "ms \<noteq> [] \<Longrightarrow> 3 \<le> length t" and "ms = [] \<Longrightarrow> t = ''''"
  shows "exact len 2 (take (length t - 2) t) st
    (andthen m (\<lambda>(buffer, pos). Inr (buffer, if ms \<noteq> [] then pos - 2 else pos)))"
  unfolding exact_def
proof
  assume room: "snd st + int (length (take (length t - 2) t) + 2) \<le> len"
  then have "snd st + int (length t + 0) \<le> len" using assms(3,4) by (cases "ms = []") auto
  then obtain st' where m: "m = Inr st'" "cursor_ok len st'" "written st' = written st @ t"
    using assms(2) by (auto simp: exact_def)
  obtain b p where st': "st' = (b, p)" by (cases st')
  have p: "p = snd st + int (length t)" "int (length (written st)) = snd st"
    using written_length [OF m(2)] written_length [OF assms(1)] m(3) by (simp_all add: st')
  show "\<exists>st'. andthen m (\<lambda>(buffer, pos). Inr (buffer, if ms \<noteq> [] then pos - 2 else pos)) = Inr st' \<and>
      cursor_ok len st' \<and> written st' = written st @ take (length t - 2) t"
  proof (cases "ms = []")
    case True
    then show ?thesis using m assms(4) by (simp add: st')
  next
    case False
    have l3: "3 \<le> length t" using assms(3) False .
    have n: "nat (p - 2) = length (written st) + (length t - 2)" using p l3 by linarith
    have "take (nat (p - 2)) b = take (nat (p - 2)) (take (nat p) b)" by simp
    also have "take (nat p) b = written st @ t" using m(3) by (simp add: written_def st')
    also have "take (nat (p - 2)) (written st @ t) = written st @ take (length t - 2) t"
      unfolding n by (simp only: take_append) simp
    finally have "written (b, p - 2) = written st @ take (length t - 2) t"
      by (simp only: written_def fst_conv snd_conv)
    moreover have "cursor_ok len (b, p - 2)" using m(2) p l3 by (simp add: st' cursor_ok_def)
    ultimately show ?thesis using m(1) False by (simp add: st')
  qed
qed

lemma exact_by_rules:
  assumes m: "methods_ok len m c"
  shows value_exact: "cursor_ok len st \<Longrightarrow> exact len 2 (text_of c k v) st (value_to_string m v len k st)"
    and elems_exact: "cursor_ok len st \<Longrightarrow> exact len 2 (text_elems c vs idx) st (elems_to_string m vs idx len st)"
    and members_exact: "cursor_ok len st \<Longrightarrow> exact len 0 (text_members c ms) st (members_to_string m ms len st)"
  using m
proof (induction m v len k st and m vs idx len st and m ms len st
    rule: value_to_string_elems_to_string_members_to_string.induct)
  case (3 m a target len k st)
  show ?case
  proof (cases target)
    case None
    with 3 show ?thesis by (simp add: exact_FORMAT_TO)
  next
    case (Some v)
    have "exact len 2 ((''('' @ hex_addr a @ ''):'') @ text_of c k v) st
        (andthen (FORMAT_TO len (''('' @ hex_addr a @ ''):'') st) (\<lambda>st. value_to_string m v len k st))"
      by (intro exact_andthen [where ?e1.0 = 0] exact_FORMAT_TO "3.IH" Some) (use 3 Some in auto)
    with Some show ?thesis by simp
  qed
next
  case (9 m i len k st)
  show ?case
    unfolding value_to_string.simps text_of.simps
    by (rule exact_braced) (use 9 in \<open>auto simp: methods_ok_def exact_printed split: prod.split\<close>)
next
  case (10 m s len k st)
  then show ?case by (simp add: exact_braced exact_FORMAT_TO)
next
  case (11 m vs len k st)
  have more: "exact len 2 (if length vs > MAX_PRINT_SIZE then ''..('' @ dec (length vs - MAX_PRINT_SIZE) @ '' more)'' else '''') st'
      (if length vs > MAX_PRINT_SIZE
       then FORMAT_TO len (''..('' @ dec (length vs - MAX_PRINT_SIZE) @ '' more)'') st' else Inr st')"
    if "cursor_ok len st'" for st'
    using that by (simp add: exact_FORMAT_TO exact_Inr)
  show ?case
    unfolding value_to_string.simps text_of.simps
    by (rule exact_braced, use 11 in simp)
      (intro exact_andthen [where ?e1.0 = 2] exact_FORMAT_TO "11.IH" more; use 11 in \<open>simp; fail\<close>)
next
  case (12 m ms len k st)
  show ?case
    unfolding value_to_string.simps text_of.simps Let_def
    by (rule exact_braced, use 12 in simp)
      (intro exact_drop_separator "12.IH" length_text_members; use 12 in \<open>simp; fail\<close>)
next
  case (13 m vs idx len st)
  show ?case
  proof (cases vs)
    case Nil
    with 13 show ?thesis by (simp add: exact_Inr)
  next
    case (Cons v ws)
    show ?thesis
    proof (cases "idx < MAX_PRINT_SIZE")
      case True
      have sep: "exact len 2 (if idx < MAX_PRINT_SIZE - 1 \<and> ws \<noteq> [] then '', '' else '''') st'
          (if idx < MAX_PRINT_SIZE - 1 \<and> ws \<noteq> [] then FORMAT_TO len '', '' st' else Inr st')"
        if "cursor_ok len st'" for st'
        using that by (simp add: exact_FORMAT_TO exact_Inr)
      have "exact len 2 (text_of c True v @ (if idx < MAX_PRINT_SIZE - 1 \<and> ws \<noteq> [] then '', '' else '''')
            @ text_elems c ws (Suc idx)) st
          (andthen (value_to_string m v len True st) (\<lambda>st.
             andthen (if idx < MAX_PRINT_SIZE - 1 \<and> ws \<noteq> [] then FORMAT_TO len '', '' st else Inr st)
               (\<lambda>st. elems_to_string m ws (Suc idx) len st)))"
        by (intro exact_andthen [where ?e1.0 = 2] sep "13.IH" Cons True; use 13 Cons in \<open>simp; fail\<close>)
      with True Cons show ?thesis by simp
    next
      case False
      with 13 Cons show ?thesis by (simp add: exact_Inr)
    qed
  qed
next
  case (14 m ms len st)
  show ?case
  proof (cases ms)
    case Nil
    with 14 show ?thesis by (simp add: exact_Inr)
  next
    case (Cons kv ws)
    obtain key v where kv: "kv = (key, v)" by (cases kv)
    have "exact len 0 ((key @ '':'') @ text_of c True v @ '', '' @ text_members c ws) st
        (andthen (KV_FORMAT_TO len (key @ '':'') st) (\<lambda>st. andthen (value_to_string m v len True st)
          (\<lambda>st. andthen (FORMAT_TO len '', '' st) (\<lambda>st. members_to_string m ws len st))))"
      by (rule exact_andthen [where ?e1.0 = 0], use 14 in simp, rule exact_KV, use 14 in simp,
          rule exact_andthen [where ?e1.0 = 2], assumption, rule "14.IH", (use 14 Cons kv in \<open>simp; fail\<close>)+,
          rule exact_andthen [where ?e1.0 = 0], assumption, rule exact_FORMAT_TO, assumption,
          rule "14.IH", (use 14 Cons kv in \<open>simp; fail\<close>)+)
    with Cons kv show ?thesis by simp
  qed
qed (simp_all add: exact_FORMAT_TO)

section \<open>Properties\<close>

text \<open>
  C22. Printing a value without a reflected struct in it into a buffer of any size writes
  exactly the longest prefix of the value's text that fits, leaves what was written before,
  and never touches a byte outside the buffer.
\<close>

theorem value_to_string_truncates:
  assumes "methods_ok len m c" and "flat v" and "cursor_ok len st"
  shows "\<exists>st'. value_to_string m v len k st = Inr st' \<and> cursor_ok len st' \<and>
    written st' = take (nat len) (written st @ text_of c k v)"
  using value_printed [OF assms] by (simp add: printed_def)

text \<open>The methods of the witness: object \<open>k\<close> is an end point on port \<open>k\<close>.\<close>

definition endpoint_methods :: to_string_methods where
  "endpoint_methods k buffer len pos =
     EndPoint_to_string (EndPoint_v4 [127, 0, 0, 1] (word_of_nat k)) buffer len pos"

definition endpoint_texts :: "nat \<Rightarrow> string" where
  "endpoint_texts k = endpoint_text (EndPoint_v4 [127, 0, 0, 1] (word_of_nat k))"

lemma endpoint_methods_ok: "methods_ok len endpoint_methods endpoint_texts"
  unfolding methods_ok_def
proof (intro allI impI)
  fix k b p
  assume ok: "cursor_ok len (b, p)"
  let ?t = "take (nat (len - p)) (endpoint_texts k)"
  have c: "0 \<le> p" "p \<le> len" "len = int (length b)" using ok by (simp_all add: cursor_ok_def)
  have m: "endpoint_methods k b len p = Inr (put b (nat p) ?t, p + int (length ?t))"
    using c by (simp add: endpoint_methods_def endpoint_texts_def endpoint_text_def EndPoint_to_string_def
        format_to_n_fits min.commute)
  have u: "nat p + length ?t \<le> length b" using c by auto
  have "written (put b (nat p) ?t, p + int (length ?t)) = take (nat p) b @ ?t"
    using c(1) take_put [OF u] by (simp add: written_def del: length_take)
  also have "\<dots> = take (nat len) (written (b, p) @ endpoint_texts k)"
    using c by (simp add: written_def nat_diff_distrib)
  finally show "printed len (endpoint_texts k) (b, p) (endpoint_methods k b len p)"
    using u c unfolding printed_def m by (simp add: cursor_ok_def)
qed

theorem value_to_string_truncates_witness:
  "\<exists>st'. value_to_string endpoint_methods (SSeq [SInt (- 5), SPtr 255 (Some (SStr ''ab'')), SCustom 80]) 20 False
      (replicate 20 CHR ''x'', 0) = Inr st' \<and> cursor_ok 20 st' \<and>
    written st' = take (nat 20) (written (replicate 20 CHR ''x'', 0) @
      text_of endpoint_texts False (SSeq [SInt (- 5), SPtr 255 (Some (SStr ''ab'')), SCustom 80]))"
  by (rule value_to_string_truncates) (simp_all add: endpoint_methods_ok cursor_ok_def)

text \<open>
  With room for the text and two more characters, every value, reflected structs at any
  depth included, is printed completely: members as \<open>name:value\<close> separated by commas, the
  separator after the last one removed again.
\<close>

theorem value_to_string_complete:
  assumes "methods_ok len m c" and "cursor_ok len st"
    and "snd st + int (length (text_of c k v)) + 2 \<le> len"
  shows "\<exists>st'. value_to_string m v len k st = Inr st' \<and> cursor_ok len st' \<and>
    written st' = written st @ text_of c k v"
  using value_exact [OF assms(1,2), of k v] assms(3) by (simp add: exact_def add.assoc)

theorem value_to_string_complete_witness:
  "\<exists>st'. value_to_string endpoint_methods (SStruct [(''a'', SInt 1), (''b'', SStruct [(''c'', SBool True)])]) 20 False
      (replicate 20 CHR ''x'', 0) = Inr st' \<and> cursor_ok 20 st' \<and>
    written st' = written (replicate 20 CHR ''x'', 0) @ ''a:1, b:{c:true}''"
proof -
  have "digit_char 1 = CHR ''1''" by code_simp
  then have t: "text_of endpoint_texts False (SStruct [(''a'', SInt 1), (''b'', SStruct [(''c'', SBool True)])])
      = ''a:1, b:{c:true}''"
    by (simp add: brace_def dec_int_def dec_small)
  have "cursor_ok 20 (replicate 20 CHR ''x'', 0)" by (simp add: cursor_ok_def)
  from value_to_string_complete [OF endpoint_methods_ok this, of False
      "SStruct [(''a'', SInt 1), (''b'', SStruct [(''c'', SBool True)])]", unfolded t]
  show ?thesis by simp
qed

text \<open>
  The member names are written with the whole buffer length as their bound, from the
  current position: a struct whose first member fills the buffer writes the name of the
  second one past its end.
\<close>

theorem struct_printing_overflows:
  assumes "int (length key) < len" and "len \<le> int (length key + 1 + length s)" and "len = int (length b)"
    and "0 < len"
  shows "value_to_string m (SStruct ((key, SStr s) # (key2, v) # ms)) len False (b, 0) = Inl Ub_out_of_bounds"
proof -
  let ?k = "key @ '':''"
  have b0: "cursor_ok len (b, 0)" using assms(3) by (simp add: cursor_ok_def)
  obtain st1 where k: "KV_FORMAT_TO len ?k (b, 0) = Inr st1" "cursor_ok len st1" "written st1 = ?k"
  proof -
    have "written (b, 0) = []" by (simp add: written_def)
    moreover have "snd (b, 0 :: int) + int (length ?k + 0) \<le> len" using assms(1) by simp
    ultimately show thesis
      using exact_KV [OF b0, of 0 ?k] that unfolding exact_def by (metis append_Nil)
  qed
  obtain st2 where s: "FORMAT_TO len s st1 = Inr st2" "cursor_ok len st2" "written st2 = take (nat len) (?k @ s)"
    using printed_FORMAT_TO [OF k(2), of s] k(3) by (auto simp: printed_def)
  have "int (length (written st2)) = len" using assms(1,2,4) by (simp add: s(3))
  then have p2: "snd st2 = len" using written_length [OF s(2)] by simp
  define b2 where "b2 = fst st2"
  have st2: "st2 = (b2, len)" "length b2 = length b"
    using p2 s(2) assms(3) unfolding cursor_ok_def b2_def by (auto simp: prod_eq_iff)
  have f: "FORMAT_TO len '', '' st2 = Inr st2" by (simp add: st2(1) FORMAT_TO_def)
  have "0 < length (take (nat len) (key2 @ '':''))" using assms(4) by simp
  then have "mem_write b2 len (take (nat len) (key2 @ '':'')) = Inl Ub_out_of_bounds"
    unfolding mem_write_def st2(2) assms(3) [symmetric] by (intro if_not_P) linarith
  then have kv: "KV_FORMAT_TO len (key2 @ '':'') st2 = Inl Ub_out_of_bounds"
    unfolding st2(1) KV_FORMAT_TO_def format_to_n_def Let_def prod.case by (simp only: andthen_simps)
  show ?thesis
    by (simp only: value_to_string.simps braced_def if_False members_to_string_simps k(1) s(1) f kv andthen_simps)
qed

theorem struct_printing_overflows_witness:
  "value_to_string endpoint_methods (SStruct [(''k'', SStr ''abcdef''), (''n'', SInt 7)]) 8 False (''12345678'', 0)
   = Inl Ub_out_of_bounds"
  by (rule struct_printing_overflows) simp_all

end
