(* ===== verification/Log_Front.thy ===== *)
theory Log_Front
  imports Spdlog_Registry Stringify_Props
begin

text \<open>
  The front end of the program's own logging: units of size and time with the formatter of time
  spans (\<open>literal.h\<close>), the memory dump, the start of the logger and the macro \<open>INFO_LOG\<close>
  (\<open>log/logger.h\<close>). The other log macros expand to nothing.
\<close>

section \<open>Units\<close>

text \<open>Unsigned 64-bit arithmetic; \<open>two_decimals a b\<close> is the text of \<open>{:.2f}\<close> for \<open>a * 1.0 / b\<close>.\<close>

definition u_B :: "u64 \<Rightarrow> u64" where "u_B val = val"
definition u_KiB :: "u64 \<Rightarrow> u64" where "u_KiB val = val * u_B 1024"
definition u_MiB :: "u64 \<Rightarrow> u64" where "u_MiB val = val * u_KiB 1024"
definition u_GiB :: "u64 \<Rightarrow> u64" where "u_GiB val = val * u_MiB 1024"
definition u_TiB :: "u64 \<Rightarrow> u64" where "u_TiB val = val * u_GiB 1024"

definition t_ns :: "u64 \<Rightarrow> u64" where "t_ns val = val"
definition t_us :: "u64 \<Rightarrow> u64" where "t_us val = val * t_ns 1000"
definition t_ms :: "u64 \<Rightarrow> u64" where "t_ms val = val * t_us 1000"
definition t_s :: "u64 \<Rightarrow> u64" where "t_s val = val * t_ms 1000"
definition t_min :: "u64 \<Rightarrow> u64" where "t_min val = val * t_s 60"
definition t_hour :: "u64 \<Rightarrow> u64" where "t_hour val = val * t_min 60"
definition t_day :: "u64 \<Rightarrow> u64" where "t_day val = val * t_hour 24"

definition format_TS :: "(u64 \<Rightarrow> u64 \<Rightarrow> string) \<Rightarrow> u64 \<Rightarrow> string" where
  "format_TS two_decimals ts =
     (if ts > t_hour 1 then two_decimals ts (t_hour 1) @ ''hour''
      else if ts > t_min 1 then two_decimals ts (t_min 1) @ ''min''
      else if ts > t_s 1 then two_decimals ts (t_s 1) @ ''s''
      else if ts > t_ms 1 then two_decimals ts (t_ms 1) @ ''ms''
      else if ts > t_us 1 then two_decimals ts (t_us 1) @ ''us''
      else if ts > t_ns 1 then two_decimals ts (t_ns 1) @ ''ns''
      else two_decimals 0 1 @ '''')"

lemmas unit_defs = u_B_def u_KiB_def u_MiB_def u_GiB_def u_TiB_def t_ns_def t_us_def t_ms_def t_s_def
  t_min_def t_hour_def t_day_def

text \<open>
  A span of exactly one unit is shown in the next smaller one; one nanosecond is shown as zero
  without a unit.
\<close>

lemma format_TS_boundaries:
  "format_TS f 1 = f 0 1"
  "format_TS f (t_us 1) = f 1000 1 @ ''ns''"
  "format_TS f (t_hour 1) = f 3600000000000 60000000000 @ ''min''"
  by (simp_all add: format_TS_def unit_defs)

section \<open>Memory dump\<close>

text \<open>
  The block at the pointer is a byte list; reading behind it is undefined. The output of a
  pointer is its address in hexadecimal with a prefix, \<open>setw(8)\<close> with the fill character \<open>0\<close>
  pads on the left. \<open>ofs\<close> is the distance of \<open>p_address\<close> from the pointer.
\<close>

definition pad8 :: "string \<Rightarrow> string" where
  "pad8 t = replicate (8 - length t) (CHR ''0'') @ t"

fun dump_words :: "endian \<Rightarrow> bytes \<Rightarrow> nat \<Rightarrow> nat \<Rightarrow> nat \<Rightarrow> fault + (string \<times> nat)" where
  "dump_words e mem len 0 ofs = Inr ([], ofs)"
| "dump_words e mem len (Suc k) ofs =
     (if ofs < len
      then andthen (mem_read mem (int ofs) 4) (\<lambda>bs.
           andthen (dump_words e mem len k (ofs + 4)) (\<lambda>(t, ofs').
             Inr (CHR 0x09 # ''0x'' @ pad8 (hex (obj_value e bs)) @ t, ofs')))
      else Inr ([], ofs))"

definition word_each_line :: nat where "word_each_line = 4"

fun dump_lines :: "endian \<Rightarrow> bytes \<Rightarrow> nat \<Rightarrow> nat \<Rightarrow> nat \<Rightarrow> nat \<Rightarrow> fault + string" where
  "dump_lines e mem addr len 0 ofs = Inr []"
| "dump_lines e mem addr len (Suc n) ofs =
     andthen (dump_words e mem len word_each_line ofs) (\<lambda>(t, ofs').
     andthen (dump_lines e mem addr len n ofs') (\<lambda>ts.
       Inr (CHR 0x0A # pad8 (hex_addr (addr + ofs)) @ '':'' @ t @ ts)))"

text \<open>\<open>int lines = (len - 1) / 16 + 1\<close> in unsigned arithmetic, then converted to \<open>int\<close>.\<close>

definition dump_line_count :: "nat \<Rightarrow> int" where
  "dump_line_count len =
     (let n = to_u64 (to_u64 (int len - 1) div 16 + 1)
      in (n + 2147483648) mod 4294967296 - 2147483648)"

definition print_memory_content ::
    "endian \<Rightarrow> bytes \<Rightarrow> nat \<Rightarrow> nat \<Rightarrow> string \<Rightarrow> nat \<Rightarrow> fault + string" where
  "print_memory_content e mem addr len fn ln =
     andthen (dump_lines e mem addr len (nat (dump_line_count len)) 0) (\<lambda>t.
       Inr (''print at: '' @ fn @ '':line '' @ dec ln @ '', addr:'' @ hex_addr addr @ '', size:''
            @ dec len @ t @ [CHR 0x0A]))"

lemma dump_words_whole:
  assumes "len = length mem" and "len mod 4 = 0" and "ofs mod 4 = 0"
  shows "\<exists>t ofs'. dump_words e mem len k ofs = Inr (t, ofs') \<and> ofs' mod 4 = 0"
  using assms(3)
proof (induction k arbitrary: ofs)
  case (Suc k)
  have "ofs + 4 \<le> len" if "ofs < len" using assms(2) Suc.prems that by presburger
  moreover have "(ofs + 4) mod 4 = 0" using Suc.prems by simp
  ultimately show ?case using Suc.IH [of "ofs + 4"] assms(1) Suc.prems
    by (auto simp: mem_read_def)
qed simp

lemma dump_lines_whole:
  assumes "len = length mem" and "len mod 4 = 0" and "ofs mod 4 = 0"
  shows "\<exists>t. dump_lines e mem addr len n ofs = Inr t"
  using assms(3)
proof (induction n arbitrary: ofs)
  case (Suc n)
  obtain t ofs' where "dump_words e mem len word_each_line ofs = Inr (t, ofs')" "ofs' mod 4 = 0"
    using dump_words_whole [OF assms(1,2) Suc.prems, of e word_each_line] by auto
  then show ?case using Suc.IH [of ofs'] by auto
qed simp

lemma dump_words_rest:
  assumes "len = length mem" and "len mod 4 \<noteq> 0" and "ofs mod 4 = 0" and "ofs < len"
  shows "if len \<le> ofs + 4 * k then dump_words e mem len k ofs = Inl Ub_out_of_bounds
         else \<exists>t. dump_words e mem len k ofs = Inr (t, ofs + 4 * k)"
  using assms(3,4)
proof (induction k arbitrary: ofs)
  case (Suc k)
  show ?case
  proof (cases "ofs + 4 < len")
    case True
    then show ?thesis using Suc.IH [of "ofs + 4"] Suc.prems assms(1)
      by (auto simp: mem_read_def split: if_splits)
  next
    case False
    then have "len < ofs + 4" using assms(2) Suc.prems by presburger
    then show ?thesis using assms(1) Suc.prems by (simp add: mem_read_def)
  qed
qed simp

lemma dump_lines_rest:
  assumes "len = length mem" and "len mod 4 \<noteq> 0" and "ofs mod 4 = 0" and "ofs < len"
    and "len \<le> ofs + 16 * n"
  shows "dump_lines e mem addr len n ofs = Inl Ub_out_of_bounds"
  using assms(3-5)
proof (induction n arbitrary: ofs)
  case (Suc n)
  show ?case
  proof (cases "len \<le> ofs + 16")
    case True
    then show ?thesis using dump_words_rest [OF assms(1,2) Suc.prems(1,2), of 4 e]
      by (simp add: word_each_line_def)
  next
    case False
    then show ?thesis
      using dump_words_rest [OF assms(1,2) Suc.prems(1,2), of 4 e] Suc.IH [of "ofs + 16"] Suc.prems
      by (auto simp: word_each_line_def)
  qed
qed simp

text \<open>
  A block whose size is a multiple of four is dumped within its bounds; for every other size the
  last word is read across the end of the block.
\<close>

lemma print_memory_reads_past_the_end:
  assumes "length mem < 2 ^ 31"
  shows "if length mem mod 4 = 0 then \<exists>t. print_memory_content e mem addr (length mem) fn ln = Inr t
         else print_memory_content e mem addr (length mem) fn ln = Inl Ub_out_of_bounds"
proof (cases "length mem mod 4 = 0")
  case True
  obtain t where "dump_lines e mem addr (length mem) (nat (dump_line_count (length mem))) 0 = Inr t"
    using dump_lines_whole [OF refl True, of 0 e addr] by auto
  then show ?thesis using True by (simp add: print_memory_content_def)
next
  case False
  then have pos: "0 < length mem" by (cases mem) auto
  define n where "n = (length mem - 1) div 16 + 1"
  have less: "int (length mem) - 1 = int (length mem - 1)" using pos by linarith
  have "dump_line_count (length mem) = int n"
    unfolding dump_line_count_def less n_def using assms by (simp add: Let_def zdiv_int)
  moreover have "length mem \<le> 0 + 16 * n" unfolding n_def using pos by presburger
  ultimately show ?thesis
    using dump_lines_rest [OF refl False _ pos, of n e addr] False by (simp add: print_memory_content_def)
qed

section \<open>Start of the logger\<close>

datatype LogLevel = L_trace | L_debug | L_info | L_warn | L_error | L_critical

fun spdlog_level :: "LogLevel \<Rightarrow> level_enum" where
  "spdlog_level L_trace = trace"
| "spdlog_level L_debug = debug"
| "spdlog_level L_info = info"
| "spdlog_level L_warn = warn"
| "spdlog_level L_error = err"
| "spdlog_level L_critical = critical"

definition log_pattern :: string where
  "log_pattern = ''[%Y-%m-%d %H:%M:%S.%e] [%^%l%$] [%t] [%s:%#:%!()] %v''"

text \<open>
  \<open>g_logger_\<close> is the address of the logger. The new console sink, its address and that of the
  logger are arguments, as is the making of a formatter from a pattern. An exception leaves
  \<open>g_logger_\<close> as it was.
\<close>

definition Logger_init :: "('s, 'f) formatter_ops \<Rightarrow> (string \<Rightarrow> 'f) \<Rightarrow> 's \<Rightarrow> nat \<Rightarrow> nat \<Rightarrow> LogLevel
    \<Rightarrow> nat option \<times> ('s, 'f) spd \<Rightarrow> string option \<times> nat option \<times> ('s, 'f) spd" where
  "Logger_init fo pattern_formatter console i a level st =
     (case st of (g_logger, s) \<Rightarrow>
        (case create_logger fo console i a ''console'' s of
           (Some e, s) \<Rightarrow> (Some e, g_logger, s)
         | (None, s) \<Rightarrow>
             (let s = reg_set_formatter fo (pattern_formatter log_pattern) s;
                  s = reg_set_level (spdlog_level level) s
              in (None, Some a, s))))"

lemma give_formatter_fields:
  "reg (fold (\<lambda>(n, a) s. logger_set_formatter fo (clone fo (formatter (reg s))) a s) xs s) = reg s"
  "logger_at (fold (\<lambda>(n, a) s. logger_set_formatter fo (clone fo (formatter (reg s))) a s) xs s) = logger_at s"
  by (induction xs arbitrary: s) (auto simp: logger_set_formatter_def)

text \<open>
  After a first start the logger is registered as \<open>console\<close> and has the chosen level, also every
  other logger and, without a level of its own, every later one. A second start throws and leaves
  the logger in place.
\<close>

lemma Logger_init_sets_level:
  assumes "automatic_registration (reg s)" and "map_of (loggers (reg s)) ''console'' = None"
  shows "\<exists>s'. Logger_init fo pf k i a level (g, s) = (None, Some a, s') \<and> reg_get ''console'' s' = Some a
    \<and> global_log_level (reg s') = spdlog_level level
    \<and> (\<forall>n b. reg_get n s' = Some b \<longrightarrow> lg_level (logger_at s' b) = spdlog_level level)"
proof -
  obtain s1 where s1: "create_logger fo k i a ''console'' s = (None, s1)"
      "map_of (loggers (reg s1)) ''console'' = Some a"
    using created_logger(1,2) [OF assms, of fo k i a] by (metis prod.collapse reg_get_def)
  let ?s2 = "reg_set_formatter fo (pf log_pattern) s1"
  have s2: "loggers (reg ?s2) = loggers (reg s1)"
    by (simp add: reg_set_formatter_def give_formatter_fields)
  let ?s3 = "reg_set_level (spdlog_level level) ?s2"
  have s3: "loggers (reg ?s3) = loggers (reg ?s2)"
    by (simp add: reg_set_level_def Let_def on_all_def fold_on_logger)
  have "Logger_init fo pf k i a level (g, s) = (None, Some a, ?s3)"
    using s1(1) by (simp add: Logger_init_def Let_def)
  moreover have "reg_get ''console'' ?s3 = Some a" using s1(2) s2 s3 by (simp add: reg_get_def)
  moreover have "lg_level (logger_at ?s3 b) = spdlog_level level" if "reg_get n ?s3 = Some b" for n b
    using that set_level_reaches_all(1) [of ?s2 n b] s3 by (simp add: reg_get_def)
  ultimately show ?thesis using set_level_reaches_all(2) by blast
qed

lemma Logger_init_twice:
  assumes "automatic_registration (reg s)" and "map_of (loggers (reg s)) ''console'' \<noteq> None"
  shows "fst (Logger_init fo pf k i a level (g, s)) \<noteq> None"
    and "fst (snd (Logger_init fo pf k i a level (g, s))) = g"
  using created_twice(1) [OF assms, of fo k i a]
  by (auto simp: Logger_init_def split: prod.split option.split)

section \<open>INFO_LOG\<close>

definition log_buffer_len :: int where "log_buffer_len = uint (u_KiB 1)"

text \<open>
  Every argument is printed behind the one before; its \<open>string_view\<close> is an offset and a length.
  The views are read when the line is formatted, after all arguments were printed.
\<close>

fun info_args :: "to_string_methods \<Rightarrow> sval list \<Rightarrow> cursor \<Rightarrow> int \<Rightarrow> fault + (string \<times> (int \<times> int) list)" where
  "info_args m [] st before_pos = Inr (fst st, [])"
| "info_args m (v # vs) st before_pos =
     andthen (value_to_string m v log_buffer_len False st) (\<lambda>st.
     andthen (info_args m vs st (snd st)) (\<lambda>(buf, views).
       Inr (buf, (before_pos, snd st - before_pos) # views)))"

definition view_text :: "string \<Rightarrow> int \<times> int \<Rightarrow> fault + string" where
  "view_text buf v = mem_read buf (fst v) (nat (to_u64 (snd v)))"

fun view_texts :: "string \<Rightarrow> (int \<times> int) list \<Rightarrow> fault + string list" where
  "view_texts buf [] = Inr []"
| "view_texts buf (v # vs) =
     andthen (view_text buf v) (\<lambda>t. andthen (view_texts buf vs) (\<lambda>ts. Inr (t # ts)))"

text \<open>
  The texts of the arguments that the line is formatted from; \<open>buf\<close> is the new array with
  whatever it holds.
\<close>

definition info_texts :: "to_string_methods \<Rightarrow> sval list \<Rightarrow> string \<Rightarrow> fault + string list" where
  "info_texts m args buf =
     andthen (info_args m args (buf, 0) 0) (\<lambda>(buf, views). view_texts buf views)"

definition INFO_LOG :: "to_string_methods \<Rightarrow> 's sink_ops \<Rightarrow> (string list \<Rightarrow> string + string) \<Rightarrow> string
    \<Rightarrow> int \<Rightarrow> nat \<Rightarrow> source_loc \<Rightarrow> sval list \<Rightarrow> logger \<Rightarrow> 's log_world \<Rightarrow> fault + (logger \<times> 's log_world)" where
  "INFO_LOG m ops formatted buf now tid loc args lg w =
     andthen (info_texts m args buf) (\<lambda>ts.
       logger_log_fmt ops now tid loc info (\<lambda>_. formatted ts) lg w)"

lemma log_buffer_len_eq: "log_buffer_len = 1024"
  by (simp add: log_buffer_len_def u_KiB_def u_B_def)

lemma take_put_view:
  assumes "take (p + n) b' = take p b @ t" and "length t = n" and "p + n \<le> length b'" and "p \<le> length b"
  shows "take n (drop p b') = t"
proof -
  have "take n (drop p b') = drop p (take (p + n) b')" by (simp add: drop_take)
  then show ?thesis using assms by simp
qed

lemma info_args_ok:
  assumes "methods_ok log_buffer_len m c" and "\<forall>v \<in> set vs. flat v" and "cursor_ok log_buffer_len st"
    and "snd st + int (length (concat (map (text_of c False) vs))) \<le> log_buffer_len"
  shows "\<exists>b views. info_args m vs st (snd st) = Inr (b, views) \<and> int (length b) = log_buffer_len
    \<and> take (nat (snd st) + length (concat (map (text_of c False) vs))) b
        = written st @ concat (map (text_of c False) vs)
    \<and> view_texts b views = Inr (map (text_of c False) vs)"
  using assms(2-4)
proof (induction vs arbitrary: st)
  case Nil
  then show ?case by (auto simp: cursor_ok_def written_def)
next
  case (Cons v vs)
  let ?t = "text_of c False v" and ?ts = "concat (map (text_of c False) vs)"
  have n: "0 \<le> snd st" "snd st \<le> log_buffer_len" "log_buffer_len = int (length (fst st))"
    using Cons.prems(2) by (simp_all add: cursor_ok_def)
  obtain st' where st': "value_to_string m v log_buffer_len False st = Inr st'" "cursor_ok log_buffer_len st'"
      "written st' = take (nat log_buffer_len) (written st @ ?t)"
    using value_printed [OF assms(1), of v st False] Cons.prems by (auto simp: printed_def)
  have w: "written st' = written st @ ?t"
    using st'(3) written_length [OF Cons.prems(2)] Cons.prems(3) by simp
  have pos: "snd st' = snd st + int (length ?t)"
    using written_length [OF st'(2)] written_length [OF Cons.prems(2)] w by simp
  obtain b views where IH: "info_args m vs st' (snd st') = Inr (b, views)" "int (length b) = log_buffer_len"
      "take (nat (snd st') + length ?ts) b = written st' @ ?ts"
      "view_texts b views = Inr (map (text_of c False) vs)"
    using Cons.IH [OF _ st'(2)] Cons.prems(1,3) pos by auto
  have nat_pos: "nat (snd st') = nat (snd st) + length ?t" using pos n(1) by simp
  have len_w: "length (written st) = nat (snd st)" using written_length [OF Cons.prems(2)] by simp
  have "take (nat (snd st')) b = take (nat (snd st')) (take (nat (snd st') + length ?ts) b)" by simp
  also have "\<dots> = take (nat (snd st')) (written st' @ ?ts)" by (simp only: IH(3))
  also have "\<dots> = written st @ ?t" using w nat_pos len_w by simp
  finally have "take (nat (snd st) + length ?t) b = take (nat (snd st)) (fst st) @ ?t"
    by (simp add: nat_pos written_def)
  then have view: "take (length ?t) (drop (nat (snd st)) b) = ?t"
    by (rule take_put_view) (use IH(2) n Cons.prems(3) in auto)
  have "view_text b (snd st, snd st' - snd st) = Inr ?t"
    using view n IH(2) Cons.prems(3) pos unfolding view_text_def
    by (simp add: mem_read_def log_buffer_len_eq)
  then show ?case
    using st'(1) IH w nat_pos by (simp add: ac_simps)
qed

text \<open>
  When the texts of the arguments fit the buffer of 1024 characters together, the line is
  formatted from exactly these texts.
\<close>

lemma info_texts_complete:
  assumes "methods_ok 1024 m c" and "\<forall>v \<in> set args. flat v" and "length buf = 1024"
    and "length (concat (map (text_of c False) args)) \<le> 1024"
  shows "info_texts m args buf = Inr (map (text_of c False) args)"
proof -
  have "cursor_ok 1024 (buf, 0)" using assms(3) by (simp add: cursor_ok_def)
  then show ?thesis
    using info_args_ok [of m c args "(buf, 0)", unfolded log_buffer_len_eq, OF assms(1,2)] assms(4)
    by (auto simp: info_texts_def)
qed


end
