(* ===== verification/Fmt_Specs.thy ===== *)
theory Fmt_Specs
  imports Text_Format "HOL-Library.Word"
begin

text \<open>
  The format specifiers of the bundled fmt (\<open>fmt/bundled/base.h\<close>): the packed word of
  \<open>basic_specs\<close> with its accessors, \<open>format_specs\<close> with the references to dynamic width and
  precision, the kinds of arguments with their bit sets, and the context that numbers the
  arguments. An error is a \<open>format_error\<close> with its text, or a fault of the program.
\<close>

unbundle bit_operations_syntax

section \<open>Errors\<close>

datatype fmt_error =
    Format_error string
  | Fmt_fault fault

definition report_error :: "string \<Rightarrow> fmt_error + 'a" where
  "report_error message = Inl (Format_error message)"

definition fmt_of :: "fault + 'a \<Rightarrow> fmt_error + 'a" where
  "fmt_of r = (case r of Inl e \<Rightarrow> Inl (Fmt_fault e) | Inr x \<Rightarrow> Inr x)"

lemma fmt_of_simps [simp]: "fmt_of (Inl e) = Inl (Fmt_fault e)" "fmt_of (Inr x) = Inr x"
  by (simp_all add: fmt_of_def)

lemma report_error_neq [simp]: "report_error m \<noteq> Inr x" "Inr x \<noteq> report_error m"
  by (simp_all add: report_error_def)

section \<open>Enumerations\<close>

text \<open>The values of \<open>presentation_type\<close>; some of its names share a value.\<close>

definition pres_none :: "32 word" where "pres_none = 0"
definition pres_debug :: "32 word" where "pres_debug = 1"
definition pres_string :: "32 word" where "pres_string = 2"
definition pres_dec :: "32 word" where "pres_dec = 3"
definition pres_hex :: "32 word" where "pres_hex = 4"
definition pres_oct :: "32 word" where "pres_oct = 5"
definition pres_bin :: "32 word" where "pres_bin = 6"
definition pres_chr :: "32 word" where "pres_chr = 7"
definition pres_pointer :: "32 word" where "pres_pointer = 3"
definition pres_exp :: "32 word" where "pres_exp = 1"
definition pres_fixed :: "32 word" where "pres_fixed = 2"
definition pres_general :: "32 word" where "pres_general = 3"
definition pres_hexfloat :: "32 word" where "pres_hexfloat = 4"

lemmas pres_defs = pres_none_def pres_debug_def pres_string_def pres_dec_def pres_hex_def pres_oct_def
  pres_bin_def pres_chr_def pres_pointer_def pres_exp_def pres_fixed_def pres_general_def pres_hexfloat_def

datatype align = Align_none | Align_left | Align_right | Align_center | Align_numeric

datatype sign = Sign_none | Sign_minus | Sign_plus | Sign_space

datatype arg_id_kind = Id_none | Id_index | Id_name

fun align_code :: "align \<Rightarrow> 32 word" where
  "align_code Align_none = 0"
| "align_code Align_left = 1"
| "align_code Align_right = 2"
| "align_code Align_center = 3"
| "align_code Align_numeric = 4"

fun sign_code :: "sign \<Rightarrow> 32 word" where
  "sign_code Sign_none = 0"
| "sign_code Sign_minus = 1"
| "sign_code Sign_plus = 2"
| "sign_code Sign_space = 3"

fun kind_code :: "arg_id_kind \<Rightarrow> 32 word" where
  "kind_code Id_none = 0"
| "kind_code Id_index = 1"
| "kind_code Id_name = 2"

text \<open>The casts back; a value that the setters never store is read as the last constant.\<close>

definition align_of :: "32 word \<Rightarrow> align" where
  "align_of w = (if w = 0 then Align_none else if w = 1 then Align_left else if w = 2 then Align_right
     else if w = 3 then Align_center else Align_numeric)"

definition sign_of :: "32 word \<Rightarrow> sign" where
  "sign_of w = (if w = 0 then Sign_none else if w = 1 then Sign_minus else if w = 2 then Sign_plus
     else Sign_space)"

definition kind_of :: "32 word \<Rightarrow> arg_id_kind" where
  "kind_of w = (if w = 0 then Id_none else if w = 1 then Id_index else Id_name)"

section \<open>The packed specifiers\<close>

definition type_mask :: "32 word" where "type_mask = 0x00007"
definition align_mask :: "32 word" where "align_mask = 0x00038"
definition width_mask :: "32 word" where "width_mask = 0x000C0"
definition precision_mask :: "32 word" where "precision_mask = 0x00300"
definition sign_mask :: "32 word" where "sign_mask = 0x00C00"
definition uppercase_mask :: "32 word" where "uppercase_mask = 0x01000"
definition alternate_mask :: "32 word" where "alternate_mask = 0x02000"
definition localized_mask :: "32 word" where "localized_mask = 0x04000"
definition fill_size_mask :: "32 word" where "fill_size_mask = 0x38000"

definition align_shift :: nat where "align_shift = 3"
definition width_shift :: nat where "width_shift = 6"
definition precision_shift :: nat where "precision_shift = 8"
definition sign_shift :: nat where "sign_shift = 10"
definition fill_size_shift :: nat where "fill_size_shift = 15"

definition max_fill_size :: nat where "max_fill_size = 4"

lemmas mask_defs = type_mask_def align_mask_def width_mask_def precision_mask_def sign_mask_def
  uppercase_mask_def alternate_mask_def localized_mask_def fill_size_mask_def
lemmas shift_defs = align_shift_def width_shift_def precision_shift_def sign_shift_def fill_size_shift_def

datatype arg_ref = Ref_index int | Ref_name string

text \<open>
  \<open>dynamic_format_specs\<close>; the first two fields are the private members of \<open>basic_specs\<close>. The
  array \<open>fill_data_\<close> has four characters.
\<close>

record format_specs =
  data_w :: "32 word"
  fill_data :: string
  fs_width :: int
  fs_precision :: int
  width_ref :: arg_ref
  precision_ref :: arg_ref

definition format_specs_new :: format_specs where
  "format_specs_new = \<lparr>data_w = push_bit fill_size_shift 1, fill_data = '' '' @ replicate 3 CHR 0x00,
     fs_width = 0, fs_precision = - 1, width_ref = Ref_index 0, precision_ref = Ref_index 0\<rparr>"

definition set_bits_of :: "32 word \<Rightarrow> 32 word \<Rightarrow> format_specs \<Rightarrow> format_specs" where
  "set_bits_of m v s = s\<lparr>data_w := (data_w s AND NOT m) OR v\<rparr>"

definition specs_type :: "format_specs \<Rightarrow> 32 word" where
  "specs_type s = data_w s AND type_mask"

definition set_type :: "32 word \<Rightarrow> format_specs \<Rightarrow> format_specs" where
  "set_type t s = set_bits_of type_mask t s"

definition specs_align :: "format_specs \<Rightarrow> align" where
  "specs_align s = align_of (drop_bit align_shift (data_w s AND align_mask))"

definition set_align :: "align \<Rightarrow> format_specs \<Rightarrow> format_specs" where
  "set_align a s = set_bits_of align_mask (push_bit align_shift (align_code a)) s"

definition dynamic_width :: "format_specs \<Rightarrow> arg_id_kind" where
  "dynamic_width s = kind_of (drop_bit width_shift (data_w s AND width_mask))"

definition set_dynamic_width :: "arg_id_kind \<Rightarrow> format_specs \<Rightarrow> format_specs" where
  "set_dynamic_width k s = set_bits_of width_mask (push_bit width_shift (kind_code k)) s"

definition dynamic_precision :: "format_specs \<Rightarrow> arg_id_kind" where
  "dynamic_precision s = kind_of (drop_bit precision_shift (data_w s AND precision_mask))"

definition set_dynamic_precision :: "arg_id_kind \<Rightarrow> format_specs \<Rightarrow> format_specs" where
  "set_dynamic_precision k s = set_bits_of precision_mask (push_bit precision_shift (kind_code k)) s"

definition specs_dynamic :: "format_specs \<Rightarrow> bool" where
  "specs_dynamic s = (data_w s AND (width_mask OR precision_mask) \<noteq> 0)"

definition specs_sign :: "format_specs \<Rightarrow> sign" where
  "specs_sign s = sign_of (drop_bit sign_shift (data_w s AND sign_mask))"

definition set_sign :: "sign \<Rightarrow> format_specs \<Rightarrow> format_specs" where
  "set_sign sg s = set_bits_of sign_mask (push_bit sign_shift (sign_code sg)) s"

definition specs_upper :: "format_specs \<Rightarrow> bool" where
  "specs_upper s = (data_w s AND uppercase_mask \<noteq> 0)"

definition set_upper :: "format_specs \<Rightarrow> format_specs" where
  "set_upper s = s\<lparr>data_w := data_w s OR uppercase_mask\<rparr>"

definition specs_alt :: "format_specs \<Rightarrow> bool" where
  "specs_alt s = (data_w s AND alternate_mask \<noteq> 0)"

definition set_alt :: "format_specs \<Rightarrow> format_specs" where
  "set_alt s = s\<lparr>data_w := data_w s OR alternate_mask\<rparr>"

definition clear_alt :: "format_specs \<Rightarrow> format_specs" where
  "clear_alt s = s\<lparr>data_w := data_w s AND NOT alternate_mask\<rparr>"

definition specs_localized :: "format_specs \<Rightarrow> bool" where
  "specs_localized s = (data_w s AND localized_mask \<noteq> 0)"

definition set_localized :: "format_specs \<Rightarrow> format_specs" where
  "set_localized s = s\<lparr>data_w := data_w s OR localized_mask\<rparr>"

definition fill_size :: "format_specs \<Rightarrow> nat" where
  "fill_size s = unat (drop_bit fill_size_shift (data_w s AND fill_size_mask))"

definition set_fill_size :: "nat \<Rightarrow> format_specs \<Rightarrow> format_specs" where
  "set_fill_size n s = set_bits_of fill_size_mask (push_bit fill_size_shift (word_of_nat n)) s"

text \<open>For the type \<open>char\<close> the cast keeps the first character only.\<close>

definition fill_unit :: "format_specs \<Rightarrow> char" where
  "fill_unit s = hd (fill_data s)"

definition set_fill_char :: "char \<Rightarrow> format_specs \<Rightarrow> format_specs" where
  "set_fill_char c s = set_fill_size 1 (s\<lparr>fill_data := (fill_data s)[0 := c]\<rparr>)"

definition set_fill :: "string \<Rightarrow> format_specs \<Rightarrow> fmt_error + format_specs" where
  "set_fill f s =
     (let s = set_fill_size (length f) s in
      if length f = 1 then Inr (s\<lparr>fill_data := [hd f, CHR 0x00, CHR 0x00] @ drop 3 (fill_data s)\<rparr>)
      else if length f \<le> max_fill_size
      then Inr (s\<lparr>fill_data := f @ drop (length f) (fill_data s)\<rparr>)
      else Inl (Fmt_fault Assert_failed))"

definition copy_fill_from :: "format_specs \<Rightarrow> format_specs \<Rightarrow> format_specs" where
  "copy_fill_from t s = set_fill_size (fill_size t) (s\<lparr>fill_data := fill_data t\<rparr>)"

section \<open>Kinds of arguments\<close>

datatype arg_type =
    none_type | int_type | uint_type | long_long_type | ulong_long_type | int128_type | uint128_type
  | bool_type | char_type | float_type | double_type | long_double_type | cstring_type | string_type
  | pointer_type | custom_type

fun type_code :: "arg_type \<Rightarrow> nat" where
  "type_code none_type = 0"
| "type_code int_type = 1"
| "type_code uint_type = 2"
| "type_code long_long_type = 3"
| "type_code ulong_long_type = 4"
| "type_code int128_type = 5"
| "type_code uint128_type = 6"
| "type_code bool_type = 7"
| "type_code char_type = 8"
| "type_code float_type = 9"
| "type_code double_type = 10"
| "type_code long_double_type = 11"
| "type_code cstring_type = 12"
| "type_code string_type = 13"
| "type_code pointer_type = 14"
| "type_code custom_type = 15"

definition is_integral_type :: "arg_type \<Rightarrow> bool" where
  "is_integral_type t = (0 < type_code t \<and> type_code t \<le> type_code char_type)"

definition is_arithmetic_type :: "arg_type \<Rightarrow> bool" where
  "is_arithmetic_type t = (0 < type_code t \<and> type_code t \<le> type_code long_double_type)"

definition type_bit :: "arg_type \<Rightarrow> nat" where
  "type_bit t = push_bit (type_code t) 1"

definition in_types :: "arg_type \<Rightarrow> nat \<Rightarrow> bool" where
  "in_types t st = (drop_bit (type_code t) st AND 1 \<noteq> 0)"

definition sint_set :: nat where
  "sint_set = type_bit int_type OR type_bit long_long_type OR type_bit int128_type"
definition uint_set :: nat where
  "uint_set = type_bit uint_type OR type_bit ulong_long_type OR type_bit uint128_type"
definition bool_set :: nat where "bool_set = type_bit bool_type"
definition char_set :: nat where "char_set = type_bit char_type"
definition float_set :: nat where
  "float_set = type_bit float_type OR type_bit double_type OR type_bit long_double_type"
definition string_set :: nat where "string_set = type_bit string_type"
definition cstring_set :: nat where "cstring_set = type_bit cstring_type"
definition pointer_set :: nat where "pointer_set = type_bit pointer_type"

section \<open>Numbering of arguments\<close>

text \<open>
  \<open>next_arg_id_\<close> of the context: positive after automatic, negative after manual numbering. At
  compile time the context also has the kinds of the arguments (\<open>compile_parse_context\<close>), against
  which every number is checked; at run time \<open>pc_types\<close> is \<open>None\<close>.
\<close>

record parse_context =
  pc_next_arg_id :: int
  pc_types :: "arg_type list option"

definition parse_context_new :: "arg_type list option \<Rightarrow> parse_context" where
  "parse_context_new ts = \<lparr>pc_next_arg_id = 0, pc_types = ts\<rparr>"

definition do_check_arg_id :: "int \<Rightarrow> parse_context \<Rightarrow> fmt_error + unit" where
  "do_check_arg_id i ctx =
     (case pc_types ctx of
        None \<Rightarrow> Inr ()
      | Some ts \<Rightarrow> if i \<ge> int (length ts) then report_error ''argument not found'' else Inr ())"

definition next_arg_id :: "parse_context \<Rightarrow> fmt_error + (int \<times> parse_context)" where
  "next_arg_id ctx =
     (if pc_next_arg_id ctx < 0
      then report_error ''cannot switch from manual to automatic argument indexing''
      else let i = pc_next_arg_id ctx in
           andthen (do_check_arg_id i ctx) (\<lambda>_. Inr (i, ctx\<lparr>pc_next_arg_id := i + 1\<rparr>)))"

definition check_arg_id :: "int \<Rightarrow> parse_context \<Rightarrow> fmt_error + parse_context" where
  "check_arg_id i ctx =
     (if pc_next_arg_id ctx > 0
      then report_error ''cannot switch from automatic to manual argument indexing''
      else andthen (do_check_arg_id i ctx) (\<lambda>_. Inr (ctx\<lparr>pc_next_arg_id := - 1\<rparr>)))"

definition check_arg_name :: "parse_context \<Rightarrow> parse_context" where
  "check_arg_name ctx = ctx\<lparr>pc_next_arg_id := - 1\<rparr>"

text \<open>The argument that gives a width or a precision has to be an integer.\<close>

definition check_dynamic_spec :: "int \<Rightarrow> parse_context \<Rightarrow> fmt_error + unit" where
  "check_dynamic_spec i ctx =
     (case pc_types ctx of
        None \<Rightarrow> Inr ()
      | Some ts \<Rightarrow>
          if i < int (length ts) \<and> \<not> is_integral_type (ts ! nat i)
          then report_error ''width/precision is not integer'' else Inr ())"

section \<open>Laws of the packed specifiers\<close>

lemma set_bits_other:
  "v AND m = v \<Longrightarrow> m AND k = 0 \<Longrightarrow> data_w (set_bits_of m v s) AND k = data_w s AND k"
  unfolding set_bits_of_def by (simp add: bit_eq_iff bit_simps) blast

lemma set_bits_same: "v AND m = v \<Longrightarrow> data_w (set_bits_of m v s) AND m = v"
  unfolding set_bits_of_def by (simp add: bit_eq_iff bit_simps) blast

lemma or_other: "v AND k = 0 \<Longrightarrow> (d OR v) AND k = d AND k" for d v k :: "32 word"
  by (simp add: bit_eq_iff bit_simps) blast

lemma or_same: "(d OR v) AND v = v" for d v :: "32 word"
  by (auto simp: bit_eq_iff bit_simps)

lemma and_not_other: "v AND k = 0 \<Longrightarrow> (d AND NOT v) AND k = d AND k" for d v k :: "32 word"
  by (simp add: bit_eq_iff bit_simps) blast

lemma push_align [simp]: "push_bit align_shift (align_code a) AND align_mask = push_bit align_shift (align_code a)"
  by (cases a) (simp_all add: mask_defs shift_defs)

lemma push_kind [simp]:
  "push_bit width_shift (kind_code k) AND width_mask = push_bit width_shift (kind_code k)"
  "push_bit precision_shift (kind_code k) AND precision_mask = push_bit precision_shift (kind_code k)"
  by (cases k; simp add: mask_defs shift_defs)+

lemma push_sign [simp]: "push_bit sign_shift (sign_code g) AND sign_mask = push_bit sign_shift (sign_code g)"
  by (cases g) (simp_all add: mask_defs shift_defs)

lemma cast_align [simp]: "align_of (drop_bit align_shift (push_bit align_shift (align_code a))) = a"
  by (cases a) (simp_all add: shift_defs align_of_def)

lemma cast_kind [simp]:
  "kind_of (drop_bit width_shift (push_bit width_shift (kind_code k))) = k"
  "kind_of (drop_bit precision_shift (push_bit precision_shift (kind_code k))) = k"
  by (cases k; simp add: shift_defs kind_of_def)+

lemma cast_sign [simp]: "sign_of (drop_bit sign_shift (push_bit sign_shift (sign_code g))) = g"
  by (cases g) (simp_all add: shift_defs sign_of_def)

lemma nat_le_4: "n \<le> 4 \<Longrightarrow> n = 0 \<or> n = 1 \<or> n = 2 \<or> n = 3 \<or> n = 4" for n :: nat
  by linarith

lemma push_fill:
  "n \<le> 4 \<Longrightarrow> push_bit fill_size_shift (word_of_nat n) AND fill_size_mask = push_bit fill_size_shift (word_of_nat n)"
  by (drule nat_le_4) (auto simp: mask_defs shift_defs)

lemma cast_fill: "n \<le> 4 \<Longrightarrow> unat (drop_bit fill_size_shift (push_bit fill_size_shift (word_of_nat n :: 32 word))) = n"
  by (drule nat_le_4) (auto simp: shift_defs)

lemmas specs_getters = specs_type_def specs_align_def dynamic_width_def dynamic_precision_def specs_sign_def
  specs_upper_def specs_alt_def specs_localized_def fill_size_def
lemmas specs_setters = set_type_def set_align_def set_dynamic_width_def set_dynamic_precision_def set_sign_def

text \<open>The fields of the word do not overlap.\<close>

lemma masks_disjoint [simp]:
  "type_mask AND align_mask = 0" "type_mask AND width_mask = 0" "type_mask AND precision_mask = 0"
  "type_mask AND sign_mask = 0" "type_mask AND uppercase_mask = 0" "type_mask AND alternate_mask = 0"
  "type_mask AND localized_mask = 0" "type_mask AND fill_size_mask = 0"
  "align_mask AND type_mask = 0" "align_mask AND width_mask = 0" "align_mask AND precision_mask = 0"
  "align_mask AND sign_mask = 0" "align_mask AND uppercase_mask = 0" "align_mask AND alternate_mask = 0"
  "align_mask AND localized_mask = 0" "align_mask AND fill_size_mask = 0"
  "width_mask AND type_mask = 0" "width_mask AND align_mask = 0" "width_mask AND precision_mask = 0"
  "width_mask AND sign_mask = 0" "width_mask AND uppercase_mask = 0" "width_mask AND alternate_mask = 0"
  "width_mask AND localized_mask = 0" "width_mask AND fill_size_mask = 0"
  "precision_mask AND type_mask = 0" "precision_mask AND align_mask = 0" "precision_mask AND width_mask = 0"
  "precision_mask AND sign_mask = 0" "precision_mask AND uppercase_mask = 0"
  "precision_mask AND alternate_mask = 0" "precision_mask AND localized_mask = 0"
  "precision_mask AND fill_size_mask = 0"
  "sign_mask AND type_mask = 0" "sign_mask AND align_mask = 0" "sign_mask AND width_mask = 0"
  "sign_mask AND precision_mask = 0" "sign_mask AND uppercase_mask = 0" "sign_mask AND alternate_mask = 0"
  "sign_mask AND localized_mask = 0" "sign_mask AND fill_size_mask = 0"
  by (simp_all add: mask_defs)

lemma flag_masks_disjoint [simp]:
  "uppercase_mask AND type_mask = 0" "uppercase_mask AND align_mask = 0" "uppercase_mask AND width_mask = 0"
  "uppercase_mask AND precision_mask = 0" "uppercase_mask AND sign_mask = 0" "uppercase_mask AND alternate_mask = 0"
  "uppercase_mask AND localized_mask = 0" "uppercase_mask AND fill_size_mask = 0"
  "alternate_mask AND type_mask = 0" "alternate_mask AND align_mask = 0" "alternate_mask AND width_mask = 0"
  "alternate_mask AND precision_mask = 0" "alternate_mask AND sign_mask = 0" "alternate_mask AND uppercase_mask = 0"
  "alternate_mask AND localized_mask = 0" "alternate_mask AND fill_size_mask = 0"
  "localized_mask AND type_mask = 0" "localized_mask AND align_mask = 0" "localized_mask AND width_mask = 0"
  "localized_mask AND precision_mask = 0" "localized_mask AND sign_mask = 0" "localized_mask AND uppercase_mask = 0"
  "localized_mask AND alternate_mask = 0" "localized_mask AND fill_size_mask = 0"
  "fill_size_mask AND type_mask = 0" "fill_size_mask AND align_mask = 0" "fill_size_mask AND width_mask = 0"
  "fill_size_mask AND precision_mask = 0" "fill_size_mask AND sign_mask = 0" "fill_size_mask AND uppercase_mask = 0"
  "fill_size_mask AND alternate_mask = 0" "fill_size_mask AND localized_mask = 0"
  by (simp_all add: mask_defs)

lemma masks_nonzero [simp]: "uppercase_mask \<noteq> 0" "alternate_mask \<noteq> 0" "localized_mask \<noteq> 0"
  by (simp_all add: mask_defs)

text \<open>A setter changes its own field and no other.\<close>

lemma set_type_laws [simp]:
  "t AND type_mask = t \<Longrightarrow> specs_type (set_type t s) = t"
  "t AND type_mask = t \<Longrightarrow> specs_align (set_type t s) = specs_align s"
  "t AND type_mask = t \<Longrightarrow> dynamic_width (set_type t s) = dynamic_width s"
  "t AND type_mask = t \<Longrightarrow> dynamic_precision (set_type t s) = dynamic_precision s"
  "t AND type_mask = t \<Longrightarrow> specs_sign (set_type t s) = specs_sign s"
  "t AND type_mask = t \<Longrightarrow> specs_upper (set_type t s) = specs_upper s"
  "t AND type_mask = t \<Longrightarrow> specs_alt (set_type t s) = specs_alt s"
  "t AND type_mask = t \<Longrightarrow> specs_localized (set_type t s) = specs_localized s"
  "t AND type_mask = t \<Longrightarrow> fill_size (set_type t s) = fill_size s"
  by (simp_all add: specs_getters specs_setters set_bits_other set_bits_same)

lemma set_align_laws [simp]:
  "specs_type (set_align a s) = specs_type s" "specs_align (set_align a s) = a"
  "dynamic_width (set_align a s) = dynamic_width s" "dynamic_precision (set_align a s) = dynamic_precision s"
  "specs_sign (set_align a s) = specs_sign s" "specs_upper (set_align a s) = specs_upper s"
  "specs_alt (set_align a s) = specs_alt s" "specs_localized (set_align a s) = specs_localized s"
  "fill_size (set_align a s) = fill_size s"
  by (simp_all add: specs_getters specs_setters set_bits_other set_bits_same)

lemma set_dynamic_width_laws [simp]:
  "specs_type (set_dynamic_width k s) = specs_type s" "specs_align (set_dynamic_width k s) = specs_align s"
  "dynamic_width (set_dynamic_width k s) = k" "dynamic_precision (set_dynamic_width k s) = dynamic_precision s"
  "specs_sign (set_dynamic_width k s) = specs_sign s" "specs_upper (set_dynamic_width k s) = specs_upper s"
  "specs_alt (set_dynamic_width k s) = specs_alt s" "specs_localized (set_dynamic_width k s) = specs_localized s"
  "fill_size (set_dynamic_width k s) = fill_size s"
  by (simp_all add: specs_getters specs_setters set_bits_other set_bits_same)

lemma set_dynamic_precision_laws [simp]:
  "specs_type (set_dynamic_precision k s) = specs_type s" "specs_align (set_dynamic_precision k s) = specs_align s"
  "dynamic_width (set_dynamic_precision k s) = dynamic_width s" "dynamic_precision (set_dynamic_precision k s) = k"
  "specs_sign (set_dynamic_precision k s) = specs_sign s" "specs_upper (set_dynamic_precision k s) = specs_upper s"
  "specs_alt (set_dynamic_precision k s) = specs_alt s"
  "specs_localized (set_dynamic_precision k s) = specs_localized s"
  "fill_size (set_dynamic_precision k s) = fill_size s"
  by (simp_all add: specs_getters specs_setters set_bits_other set_bits_same)

lemma set_sign_laws [simp]:
  "specs_type (set_sign g s) = specs_type s" "specs_align (set_sign g s) = specs_align s"
  "dynamic_width (set_sign g s) = dynamic_width s" "dynamic_precision (set_sign g s) = dynamic_precision s"
  "specs_sign (set_sign g s) = g" "specs_upper (set_sign g s) = specs_upper s"
  "specs_alt (set_sign g s) = specs_alt s" "specs_localized (set_sign g s) = specs_localized s"
  "fill_size (set_sign g s) = fill_size s"
  by (simp_all add: specs_getters specs_setters set_bits_other set_bits_same)

lemma set_flag_laws [simp]:
  "specs_upper (set_upper s)" "specs_alt (set_upper s) = specs_alt s"
  "specs_localized (set_upper s) = specs_localized s" "specs_type (set_upper s) = specs_type s"
  "specs_align (set_upper s) = specs_align s" "specs_sign (set_upper s) = specs_sign s"
  "dynamic_width (set_upper s) = dynamic_width s" "dynamic_precision (set_upper s) = dynamic_precision s"
  "fill_size (set_upper s) = fill_size s"
  "specs_alt (set_alt s)" "specs_upper (set_alt s) = specs_upper s"
  "specs_localized (set_alt s) = specs_localized s" "specs_type (set_alt s) = specs_type s"
  "specs_align (set_alt s) = specs_align s" "specs_sign (set_alt s) = specs_sign s"
  "dynamic_width (set_alt s) = dynamic_width s" "dynamic_precision (set_alt s) = dynamic_precision s"
  "fill_size (set_alt s) = fill_size s"
  "specs_localized (set_localized s)" "specs_upper (set_localized s) = specs_upper s"
  "specs_alt (set_localized s) = specs_alt s" "specs_type (set_localized s) = specs_type s"
  "specs_align (set_localized s) = specs_align s" "specs_sign (set_localized s) = specs_sign s"
  "dynamic_width (set_localized s) = dynamic_width s"
  "dynamic_precision (set_localized s) = dynamic_precision s" "fill_size (set_localized s) = fill_size s"
  by (simp_all add: specs_getters set_upper_def set_alt_def set_localized_def or_other or_same)

lemma set_fill_size_laws [simp]:
  "n \<le> 4 \<Longrightarrow> specs_type (set_fill_size n s) = specs_type s"
  "n \<le> 4 \<Longrightarrow> specs_align (set_fill_size n s) = specs_align s"
  "n \<le> 4 \<Longrightarrow> dynamic_width (set_fill_size n s) = dynamic_width s"
  "n \<le> 4 \<Longrightarrow> dynamic_precision (set_fill_size n s) = dynamic_precision s"
  "n \<le> 4 \<Longrightarrow> specs_sign (set_fill_size n s) = specs_sign s"
  "n \<le> 4 \<Longrightarrow> specs_upper (set_fill_size n s) = specs_upper s"
  "n \<le> 4 \<Longrightarrow> specs_alt (set_fill_size n s) = specs_alt s"
  "n \<le> 4 \<Longrightarrow> specs_localized (set_fill_size n s) = specs_localized s"
  "n \<le> 4 \<Longrightarrow> fill_size (set_fill_size n s) = n"
  by (simp_all add: specs_getters set_fill_size_def set_bits_other set_bits_same push_fill cast_fill)


text \<open>The setters of the word leave the other members alone, and these do not matter for the getters.\<close>

lemma word_setters [simp]:
  "fill_data (set_type t s) = fill_data s" "fs_width (set_type t s) = fs_width s"
  "fs_precision (set_type t s) = fs_precision s" "width_ref (set_type t s) = width_ref s"
  "precision_ref (set_type t s) = precision_ref s"
  "fill_data (set_align a s) = fill_data s" "fs_width (set_align a s) = fs_width s"
  "fs_precision (set_align a s) = fs_precision s" "width_ref (set_align a s) = width_ref s"
  "precision_ref (set_align a s) = precision_ref s"
  "fill_data (set_sign g s) = fill_data s" "fs_width (set_sign g s) = fs_width s"
  "fs_precision (set_sign g s) = fs_precision s" "width_ref (set_sign g s) = width_ref s"
  "precision_ref (set_sign g s) = precision_ref s"
  "fill_data (set_dynamic_width k s) = fill_data s" "fs_width (set_dynamic_width k s) = fs_width s"
  "fs_precision (set_dynamic_width k s) = fs_precision s" "width_ref (set_dynamic_width k s) = width_ref s"
  "precision_ref (set_dynamic_width k s) = precision_ref s"
  "fill_data (set_dynamic_precision k s) = fill_data s" "fs_width (set_dynamic_precision k s) = fs_width s"
  "fs_precision (set_dynamic_precision k s) = fs_precision s"
  "width_ref (set_dynamic_precision k s) = width_ref s"
  "precision_ref (set_dynamic_precision k s) = precision_ref s"
  "fill_data (set_fill_size n s) = fill_data s" "fs_width (set_fill_size n s) = fs_width s"
  "fs_precision (set_fill_size n s) = fs_precision s" "width_ref (set_fill_size n s) = width_ref s"
  "precision_ref (set_fill_size n s) = precision_ref s"
  by (simp_all add: specs_setters set_fill_size_def set_bits_of_def)

lemma flag_setters [simp]:
  "fill_data (set_upper s) = fill_data s" "fs_width (set_upper s) = fs_width s"
  "fs_precision (set_upper s) = fs_precision s" "width_ref (set_upper s) = width_ref s"
  "precision_ref (set_upper s) = precision_ref s"
  "fill_data (set_alt s) = fill_data s" "fs_width (set_alt s) = fs_width s"
  "fs_precision (set_alt s) = fs_precision s" "width_ref (set_alt s) = width_ref s"
  "precision_ref (set_alt s) = precision_ref s"
  "fill_data (set_localized s) = fill_data s" "fs_width (set_localized s) = fs_width s"
  "fs_precision (set_localized s) = fs_precision s" "width_ref (set_localized s) = width_ref s"
  "precision_ref (set_localized s) = precision_ref s"
  by (simp_all add: set_upper_def set_alt_def set_localized_def)

lemma getters_of_data [simp]:
  assumes "data_w s = data_w t"
  shows "specs_type s = specs_type t" and "specs_align s = specs_align t" and "specs_sign s = specs_sign t"
    and "dynamic_width s = dynamic_width t" and "dynamic_precision s = dynamic_precision t"
    and "specs_upper s = specs_upper t" and "specs_alt s = specs_alt t"
    and "specs_localized s = specs_localized t" and "fill_size s = fill_size t"
    and "specs_dynamic s = specs_dynamic t"
  using assms by (simp_all add: specs_getters specs_dynamic_def)

declare getters_of_data [simp del]

lemma new_specs [simp]:
  "specs_type format_specs_new = pres_none" "specs_align format_specs_new = Align_none"
  "specs_sign format_specs_new = Sign_none" "dynamic_width format_specs_new = Id_none"
  "dynamic_precision format_specs_new = Id_none" "\<not> specs_upper format_specs_new"
  "\<not> specs_alt format_specs_new" "\<not> specs_localized format_specs_new" "fill_size format_specs_new = 1"
  "fill_data format_specs_new = '' '' @ replicate 3 CHR 0x00" "fs_width format_specs_new = 0"
  "fs_precision format_specs_new = - 1"
  by (simp_all add: specs_getters format_specs_new_def mask_defs shift_defs pres_defs align_of_def
      sign_of_def kind_of_def)

lemma specs_dynamic_iff:
  "specs_dynamic s \<longleftrightarrow> data_w s AND width_mask \<noteq> 0 \<or> data_w s AND precision_mask \<noteq> 0"
  unfolding specs_dynamic_def by (simp add: bit_eq_iff bit_simps) blast

section \<open>The sets of argument kinds\<close>

lemma in_types_sets [simp]:
  "in_types t sint_set \<longleftrightarrow> t \<in> {int_type, long_long_type, int128_type}"
  "in_types t uint_set \<longleftrightarrow> t \<in> {uint_type, ulong_long_type, uint128_type}"
  "in_types t bool_set \<longleftrightarrow> t = bool_type" "in_types t char_set \<longleftrightarrow> t = char_type"
  "in_types t float_set \<longleftrightarrow> t \<in> {float_type, double_type, long_double_type}"
  "in_types t string_set \<longleftrightarrow> t = string_type" "in_types t cstring_set \<longleftrightarrow> t = cstring_type"
  "in_types t pointer_set \<longleftrightarrow> t = pointer_type"
  by (cases t; simp add: in_types_def type_bit_def sint_set_def uint_set_def bool_set_def char_set_def
      float_set_def string_set_def cstring_set_def pointer_set_def)+

lemma in_types_bit: "in_types t a \<longleftrightarrow> bit a (type_code t)"
  by (simp add: in_types_def and_one_eq odd_iff_mod_2_eq_one bit_iff_odd_drop_bit)

lemma in_types_or [simp]: "in_types t (a OR b) \<longleftrightarrow> in_types t a \<or> in_types t b"
  by (simp add: in_types_bit bit_or_iff)

end
