(* ===== verification/Fmt_Parse.thy ===== *)
theory Fmt_Parse
  imports Fmt_Specs
begin

text \<open>
  The parsers of the bundled fmt (\<open>fmt/bundled/base.h\<close>): numbers, argument ids, widths and
  precisions, format specifiers, replacement fields and format strings. A pointer into the format
  string is what follows it, so that reading at the end of the string is a fault. What happens to
  the parts of a format string is a record of functions (\<open>handler\<close>), as the template parameter
  \<open>Handler\<close> is.
\<close>

section \<open>Numbers, alignment and argument ids\<close>

definition INT_MAX :: int where "INT_MAX = 2147483647"

definition code_point_length :: "char \<Rightarrow> nat" where
  "code_point_length c =
     (let k = 2 * drop_bit 3 (of_char c :: nat)
      in (drop_bit k 0x3a55000000000000 AND 3) + 1)"

text \<open>
  The loop keeps the value before the last digit (\<open>prev\<close>), the last digit and the number of
  digits; \<open>value\<close> and \<open>prev\<close> are unsigned 32-bit numbers.
\<close>

fun nonnegative_loop :: "nat \<Rightarrow> nat \<Rightarrow> nat \<Rightarrow> nat \<Rightarrow> string \<Rightarrow> nat \<times> nat \<times> nat \<times> nat \<times> string" where
  "nonnegative_loop value prev lst n [] = (value, prev, lst, n, [])"
| "nonnegative_loop value prev lst n (c # cs) =
     (case char_digit c of
        None \<Rightarrow> (value, prev, lst, n, c # cs)
      | Some d \<Rightarrow> nonnegative_loop ((value * 10 + d) mod 2 ^ 32) value d (Suc n) cs)"

definition parse_nonnegative_int :: "string \<Rightarrow> int \<Rightarrow> fmt_error + (int \<times> string)" where
  "parse_nonnegative_int b error_value =
     (if b = [] \<or> char_digit (hd b) = None then Inl (Fmt_fault Assert_failed)
      else case nonnegative_loop 0 0 0 0 b of (value, prev, lst, num_digits, rest) \<Rightarrow>
        let digits10 = 32 * 3 div 10 in
        if num_digits \<le> digits10 then Inr (int value, rest)
        else if num_digits = digits10 + 1 \<and> int prev * 10 + int lst \<le> INT_MAX
        then Inr (int value, rest) else Inr (error_value, rest))"

definition parse_align :: "char \<Rightarrow> align" where
  "parse_align c = (if c = CHR ''<'' then Align_left else if c = CHR ''>'' then Align_right
     else if c = CHR ''^'' then Align_center else Align_none)"

definition between :: "char \<Rightarrow> char \<Rightarrow> char \<Rightarrow> bool" where
  "between a b c = ((of_char a :: nat) \<le> of_char c \<and> (of_char c :: nat) \<le> of_char b)"

definition is_name_start :: "char \<Rightarrow> bool" where
  "is_name_start c = (between CHR ''a'' CHR ''z'' c \<or> between CHR ''A'' CHR ''Z'' c \<or> c = CHR ''_'')"

definition is_name_char :: "char \<Rightarrow> bool" where
  "is_name_char c = (is_name_start c \<or> char_digit c \<noteq> None)"

text \<open>The id is given to the handler by the caller.\<close>

definition parse_arg_id :: "string \<Rightarrow> fmt_error + (arg_ref \<times> string)" where
  "parse_arg_id b =
     (case b of
        [] \<Rightarrow> Inl (Fmt_fault Ub_out_of_bounds)
      | c # cs \<Rightarrow>
          if char_digit c \<noteq> None
          then andthen (if c \<noteq> CHR ''0'' then parse_nonnegative_int b INT_MAX else Inr (0, cs)) (\<lambda>(index, b).
               if b = [] \<or> hd b \<noteq> CHR ''}'' \<and> hd b \<noteq> CHR '':'' then report_error ''invalid format string''
               else Inr (Ref_index index, b))
          else if \<not> is_name_start c then report_error ''invalid format string''
          else Inr (Ref_name (c # takeWhile is_name_char cs), dropWhile is_name_char cs))"

section \<open>Width and precision\<close>

text \<open>The handler of an id inside of a width or precision.\<close>

definition dynamic_spec_handler ::
  "arg_ref \<Rightarrow> parse_context \<Rightarrow> fmt_error + (arg_id_kind \<times> parse_context)" where
  "dynamic_spec_handler r ctx =
     (case r of
        Ref_index i \<Rightarrow>
          andthen (check_arg_id i ctx) (\<lambda>ctx.
          andthen (check_dynamic_spec i ctx) (\<lambda>_. Inr (Id_index, ctx)))
      | Ref_name n \<Rightarrow> Inr (Id_name, check_arg_name ctx))"

record dynamic_spec =
  ds_value :: int
  ds_ref :: arg_ref
  ds_kind :: arg_id_kind

definition parse_dynamic_spec ::
  "string \<Rightarrow> int \<Rightarrow> arg_ref \<Rightarrow> parse_context \<Rightarrow> fmt_error + (dynamic_spec \<times> string \<times> parse_context)" where
  "parse_dynamic_spec b value ref ctx =
     (case b of
        [] \<Rightarrow> Inl (Fmt_fault Assert_failed)
      | c # cs \<Rightarrow>
          if char_digit c \<noteq> None
          then andthen (parse_nonnegative_int b (- 1)) (\<lambda>(val, b).
               if val = - 1 then report_error ''number is too big''
               else Inr (\<lparr>ds_value = val, ds_ref = ref, ds_kind = Id_none\<rparr>, b, ctx))
          else if c = CHR ''{''
          then andthen
                 (if cs = [] then Inr (ref, Id_none, cs, ctx)
                  else if hd cs = CHR ''}'' \<or> hd cs = CHR '':''
                  then andthen (next_arg_id ctx) (\<lambda>(i, ctx).
                       andthen (check_dynamic_spec i ctx) (\<lambda>_. Inr (Ref_index i, Id_index, cs, ctx)))
                  else andthen (parse_arg_id cs) (\<lambda>(r, b).
                       andthen (dynamic_spec_handler r ctx) (\<lambda>(k, ctx). Inr (r, k, b, ctx))))
                 (\<lambda>(r, k, b, ctx).
               if b \<noteq> [] \<and> hd b = CHR ''}''
               then Inr (\<lparr>ds_value = value, ds_ref = r, ds_kind = k\<rparr>, tl b, ctx)
               else report_error ''invalid format string'')
          else report_error ''invalid format string'')"

definition parse_width ::
  "string \<Rightarrow> format_specs \<Rightarrow> parse_context \<Rightarrow> fmt_error + (string \<times> format_specs \<times> parse_context)" where
  "parse_width b specs ctx =
     andthen (parse_dynamic_spec b (fs_width specs) (width_ref specs) ctx) (\<lambda>(d, b, ctx).
     Inr (b, set_dynamic_width (ds_kind d) (specs\<lparr>fs_width := ds_value d, width_ref := ds_ref d\<rparr>), ctx))"

definition parse_precision ::
  "string \<Rightarrow> format_specs \<Rightarrow> parse_context \<Rightarrow> fmt_error + (string \<times> format_specs \<times> parse_context)" where
  "parse_precision b specs ctx =
     (let b = tl b in
      if b = [] then report_error ''invalid precision''
      else andthen (parse_dynamic_spec b (fs_precision specs) (precision_ref specs) ctx) (\<lambda>(d, b, ctx).
           Inr (b, set_dynamic_precision (ds_kind d) (specs\<lparr>fs_precision := ds_value d, precision_ref := ds_ref d\<rparr>),
             ctx)))"

section \<open>Format specifiers\<close>

text \<open>The states in the order in which the specifiers have to come.\<close>

datatype state = St_start | St_align | St_sign | St_hash | St_zero | St_width | St_precision | St_locale

fun state_code :: "state \<Rightarrow> nat" where
  "state_code St_start = 0"
| "state_code St_align = 1"
| "state_code St_sign = 2"
| "state_code St_hash = 3"
| "state_code St_zero = 4"
| "state_code St_width = 5"
| "state_code St_precision = 6"
| "state_code St_locale = 7"

definition enter_state :: "state \<Rightarrow> bool \<Rightarrow> state \<Rightarrow> fmt_error + state" where
  "enter_state s valid current_state =
     (if state_code current_state \<ge> state_code s \<or> \<not> valid then report_error ''invalid format specifier''
      else Inr s)"

definition integral_set :: nat where
  "integral_set = (sint_set OR uint_set OR bool_set OR char_set)"

text \<open>
  One round of the loop: whether it goes on, the rest of the text, and the state. The character
  \<open>c\<close> is the first of the rest, except at the start.
\<close>

type_synonym spec_state = "string \<times> format_specs \<times> parse_context \<times> state"

definition go_on :: "string \<Rightarrow> format_specs \<Rightarrow> parse_context \<Rightarrow> fmt_error + state \<Rightarrow> fmt_error + (bool \<times> spec_state)" where
  "go_on b specs ctx r = andthen r (\<lambda>st. Inr (True, b, specs, ctx, st))"

definition parse_presentation_type ::
  "arg_type \<Rightarrow> 32 word \<Rightarrow> nat \<Rightarrow> string \<Rightarrow> format_specs \<Rightarrow> parse_context \<Rightarrow> state \<Rightarrow> fmt_error + (bool \<times> spec_state)" where
  "parse_presentation_type t pres st b specs ctx cur =
     (if \<not> in_types t st then report_error ''invalid format specifier''
      else Inr (False, tl b, set_type pres specs, ctx, cur))"

definition parse_fill ::
  "string \<Rightarrow> format_specs \<Rightarrow> parse_context \<Rightarrow> state \<Rightarrow> fmt_error + (bool \<times> spec_state)" where
  "parse_fill b specs ctx cur =
     (if hd b = CHR ''}'' then Inr (False, b, specs, ctx, cur)
      else
        let n = code_point_length (hd b) in
        if length b \<le> n then report_error ''invalid format specifier''
        else if hd b = CHR ''{'' then report_error (''invalid fill character '' @ [CHR 0x27, CHR ''{'', CHR 0x27])
        else
          let alignment = parse_align (b ! n) in
          andthen (enter_state St_align (alignment \<noteq> Align_none) cur) (\<lambda>st.
          andthen (set_fill (take n b) specs) (\<lambda>specs.
          Inr (True, drop (n + 1) b, set_align alignment specs, ctx, st))))"

definition spec_step ::
  "arg_type \<Rightarrow> char \<Rightarrow> string \<Rightarrow> format_specs \<Rightarrow> parse_context \<Rightarrow> state \<Rightarrow> fmt_error + (bool \<times> spec_state)" where
  "spec_step t c b specs ctx cur =
     (if c = CHR ''<'' \<or> c = CHR ''>'' \<or> c = CHR ''^''
      then go_on (tl b) (set_align (parse_align c) specs) ctx (enter_state St_align True cur)
      else if c = CHR ''+'' \<or> c = CHR '' ''
      then go_on (tl b) (set_sign (if c = CHR '' '' then Sign_space else Sign_plus) specs) ctx
             (enter_state St_sign (in_types t (sint_set OR float_set)) cur)
      else if c = CHR ''-''
      then go_on (tl b) specs ctx (enter_state St_sign (in_types t (sint_set OR float_set)) cur)
      else if c = CHR ''#''
      then go_on (tl b) (set_alt specs) ctx (enter_state St_hash (is_arithmetic_type t) cur)
      else if c = CHR ''0''
      then andthen (enter_state St_zero True cur) (\<lambda>st.
           if \<not> is_arithmetic_type t then report_error ''format specifier requires numeric argument''
           else Inr (True, tl b,
             (if specs_align specs = Align_none then set_fill_char CHR ''0'' (set_align Align_numeric specs)
              else specs), ctx, st))
      else if between CHR ''1'' CHR ''9'' c \<or> c = CHR ''{''
      then andthen (enter_state St_width True cur) (\<lambda>st.
           andthen (parse_width b specs ctx) (\<lambda>(b, specs, ctx). Inr (True, b, specs, ctx, st)))
      else if c = CHR ''.''
      then andthen (enter_state St_precision (in_types t (float_set OR string_set OR cstring_set)) cur) (\<lambda>st.
           andthen (parse_precision b specs ctx) (\<lambda>(b, specs, ctx). Inr (True, b, specs, ctx, st)))
      else if c = CHR ''L''
      then go_on (tl b) (set_localized specs) ctx (enter_state St_locale (is_arithmetic_type t) cur)
      else if c = CHR ''d'' then parse_presentation_type t pres_dec integral_set b specs ctx cur
      else if c = CHR ''X'' then parse_presentation_type t pres_hex integral_set b (set_upper specs) ctx cur
      else if c = CHR ''x'' then parse_presentation_type t pres_hex integral_set b specs ctx cur
      else if c = CHR ''o'' then parse_presentation_type t pres_oct integral_set b specs ctx cur
      else if c = CHR ''B'' then parse_presentation_type t pres_bin integral_set b (set_upper specs) ctx cur
      else if c = CHR ''b'' then parse_presentation_type t pres_bin integral_set b specs ctx cur
      else if c = CHR ''E'' then parse_presentation_type t pres_exp float_set b (set_upper specs) ctx cur
      else if c = CHR ''e'' then parse_presentation_type t pres_exp float_set b specs ctx cur
      else if c = CHR ''F'' then parse_presentation_type t pres_fixed float_set b (set_upper specs) ctx cur
      else if c = CHR ''f'' then parse_presentation_type t pres_fixed float_set b specs ctx cur
      else if c = CHR ''G'' then parse_presentation_type t pres_general float_set b (set_upper specs) ctx cur
      else if c = CHR ''g'' then parse_presentation_type t pres_general float_set b specs ctx cur
      else if c = CHR ''A'' then parse_presentation_type t pres_hexfloat float_set b (set_upper specs) ctx cur
      else if c = CHR ''a'' then parse_presentation_type t pres_hexfloat float_set b specs ctx cur
      else if c = CHR ''c''
      then if t = bool_type then report_error ''invalid format specifier''
           else parse_presentation_type t pres_chr integral_set b specs ctx cur
      else if c = CHR ''s''
      then parse_presentation_type t pres_string (bool_set OR string_set OR cstring_set) b specs ctx cur
      else if c = CHR ''p''
      then parse_presentation_type t pres_pointer (pointer_set OR cstring_set) b specs ctx cur
      else if c = CHR ''?''
      then parse_presentation_type t pres_debug (char_set OR string_set OR cstring_set) b specs ctx cur
      else if c = CHR ''}'' then Inr (False, b, specs, ctx, cur)
      else parse_fill b specs ctx cur)"


text \<open>Every round that goes on leaves a shorter rest.\<close>

lemma nonnegative_loop_length:
  "nonnegative_loop v p l n b = (v', p', l', n', r) \<Longrightarrow> length r + n' = length b + n"
  by (induction v p l n b rule: nonnegative_loop.induct) (auto split: option.splits)

lemma nonnegative_loop_Suc:
  "char_digit c \<noteq> None \<Longrightarrow> nonnegative_loop v p l n (c # cs) = (v', p', l', n', r) \<Longrightarrow> length r \<le> length cs"
proof -
  have "n'' \<le> n'" if "nonnegative_loop v p l n'' b = (v', p', l', n', r)" for v p l n'' b
    using that by (induction v p l n'' b rule: nonnegative_loop.induct) (auto split: option.splits)
  note mono = this
  assume "char_digit c \<noteq> None" and "nonnegative_loop v p l n (c # cs) = (v', p', l', n', r)"
  then obtain d where "nonnegative_loop ((v * 10 + d) mod 2 ^ 32) v d (Suc n) cs = (v', p', l', n', r)"
    by auto
  from nonnegative_loop_length [OF this] mono [OF this] show ?thesis by simp
qed

lemma parse_nonnegative_int_rest:
  assumes "parse_nonnegative_int b e = Inr (v, r)"
  shows "length r < length b"
proof -
  obtain c cs where b: "b = c # cs" "char_digit c \<noteq> None"
    using assms by (cases b) (auto simp: parse_nonnegative_int_def split: if_splits)
  obtain v' p l n r' where loop: "nonnegative_loop 0 0 0 0 b = (v', p, l, n, r')"
    by (cases "nonnegative_loop 0 0 0 0 b") auto
  then have "r = r'" using assms by (auto simp: parse_nonnegative_int_def Let_def split: if_splits)
  then show ?thesis using nonnegative_loop_Suc [OF b(2) loop [unfolded b(1)]] b(1) by simp
qed

lemma length_dropWhile_less: "length (dropWhile P xs) < Suc (length xs)"
  by (simp add: length_dropWhile_le less_Suc_eq_le)

lemma parse_arg_id_rest: "parse_arg_id b = Inr (r, b') \<Longrightarrow> length b' < length b"
  by (auto simp: parse_arg_id_def andthen_Inr_iff length_dropWhile_less split: list.splits if_splits
      dest: parse_nonnegative_int_rest)

lemma parse_dynamic_spec_rest:
  "parse_dynamic_spec b value ref ctx = Inr (d, b', ctx') \<Longrightarrow> length b' < length b"
  by (auto simp: parse_dynamic_spec_def andthen_Inr_iff Let_def split: list.splits if_splits
      dest: parse_nonnegative_int_rest parse_arg_id_rest)

lemma parse_width_rest: "parse_width b specs ctx = Inr (b', specs', ctx') \<Longrightarrow> length b' < length b"
  by (auto simp: parse_width_def andthen_Inr_iff dest: parse_dynamic_spec_rest)

lemma parse_precision_rest: "parse_precision b specs ctx = Inr (b', specs', ctx') \<Longrightarrow> length b' < length b"
  by (auto simp: parse_precision_def andthen_Inr_iff Let_def split: if_splits dest: parse_dynamic_spec_rest)

lemma parse_fill_rest:
  "parse_fill b specs ctx cur = Inr (go, b', s) \<Longrightarrow> b \<noteq> [] \<Longrightarrow> length b' < length b \<or> b' = b \<and> \<not> go"
  by (cases s) (auto simp: parse_fill_def andthen_Inr_iff Let_def split: if_splits)

lemma parse_presentation_type_rest:
  "parse_presentation_type t p st b specs ctx cur = Inr (go, b', s) \<Longrightarrow> b' = tl b \<and> \<not> go"
  by (auto simp: parse_presentation_type_def split: if_splits)

lemma go_on_rest: "go_on b specs ctx r = Inr (go, b', s) \<Longrightarrow> b' = b"
  by (auto simp: go_on_def andthen_Inr_iff)

lemma spec_step_rest:
  assumes "spec_step t c b specs ctx cur = Inr (go, b', s)" and "b \<noteq> []"
  shows "length b' < length b \<or> b' = b \<and> \<not> go"
proof -
  have tl: "length (tl b) < length b" using assms(2) by (cases b) auto
  show ?thesis using assms unfolding spec_step_def
    by (auto simp: andthen_Inr_iff tl split: if_splits
        dest!: parse_width_rest parse_precision_rest go_on_rest parse_presentation_type_rest parse_fill_rest)
qed

function specs_loop ::
  "arg_type \<Rightarrow> char \<Rightarrow> string \<Rightarrow> format_specs \<Rightarrow> parse_context \<Rightarrow> state \<Rightarrow> fmt_error + (string \<times> format_specs \<times> parse_context)" where
  "specs_loop t c b specs ctx cur =
     (if b = [] then Inr (b, specs, ctx)
      else andthen (spec_step t c b specs ctx cur) (\<lambda>(go, b', specs, ctx, cur).
           if go \<and> b' \<noteq> [] then specs_loop t (hd b') b' specs ctx cur else Inr (b', specs, ctx)))"
  by pat_completeness auto

termination
  by (relation "measure (\<lambda>(t, c, b, specs, ctx, cur). length b)")
    (auto dest: spec_step_rest)

declare specs_loop.simps [simp del]

definition parse_format_specs ::
  "string \<Rightarrow> format_specs \<Rightarrow> parse_context \<Rightarrow> arg_type \<Rightarrow> fmt_error + (string \<times> format_specs \<times> parse_context)" where
  "parse_format_specs b specs ctx t =
     (case b of
        [] \<Rightarrow> Inr (b, specs, ctx)
      | [c] \<Rightarrow> specs_loop t c b specs ctx St_start
      | c # d # _ \<Rightarrow> specs_loop t (if parse_align d = Align_none then c else CHR 0x00) b specs ctx St_start)"

lemma specs_loop_rest: "specs_loop t c b specs ctx cur = Inr (b', s) \<Longrightarrow> length b' \<le> length b"
proof (induction t c b specs ctx cur arbitrary: b' s rule: specs_loop.induct)
  case (1 t c b specs ctx cur)
  show ?case
  proof (cases "b = []")
    case True
    then show ?thesis using 1(2) by (simp add: specs_loop.simps)
  next
    case False
    then obtain go b1 specs1 ctx1 cur1 where
      step: "spec_step t c b specs ctx cur = Inr (go, b1, specs1, ctx1, cur1)"
      using 1(2) by (subst (asm) specs_loop.simps) (auto simp: andthen_Inr_iff)
    have le: "length b1 \<le> length b" using spec_step_rest [OF step False] by auto
    show ?thesis
    proof (cases "go \<and> b1 \<noteq> []")
      case True
      then have "length b' \<le> length b1"
        using 1(2) False step
        by (intro 1(1) [OF False step refl refl refl refl True])
          (auto simp: specs_loop.simps [of t c b])
      then show ?thesis using le by simp
    next
      case False': False
      then show ?thesis using 1(2) False step le by (auto simp: specs_loop.simps [of t c b])
    qed
  qed
qed

lemma parse_format_specs_rest: "parse_format_specs b specs ctx t = Inr (b', s) \<Longrightarrow> length b' \<le> length b"
  by (auto simp: parse_format_specs_def split: list.splits dest: specs_loop_rest)


section \<open>Replacement fields and format strings\<close>

text \<open>
  The functions that a parser of format strings calls, on a state of their own; the function for
  format specifiers gives back what follows them.
\<close>

record 's handler =
  on_text :: "string \<Rightarrow> 's \<Rightarrow> 's"
  on_next_arg_id :: "'s \<Rightarrow> fmt_error + (int \<times> 's)"
  on_arg_index :: "int \<Rightarrow> 's \<Rightarrow> fmt_error + (int \<times> 's)"
  on_arg_name :: "string \<Rightarrow> 's \<Rightarrow> fmt_error + (int \<times> 's)"
  on_replacement_field :: "int \<Rightarrow> string \<Rightarrow> 's \<Rightarrow> fmt_error + 's"
  on_format_specs :: "int \<Rightarrow> string \<Rightarrow> 's \<Rightarrow> fmt_error + (string \<times> 's)"

definition id_adapter :: "'s handler \<Rightarrow> arg_ref \<Rightarrow> 's \<Rightarrow> fmt_error + (int \<times> 's)" where
  "id_adapter h r s = (case r of Ref_index i \<Rightarrow> on_arg_index h i s | Ref_name n \<Rightarrow> on_arg_name h n s)"

definition quoted_brace :: string where
  "quoted_brace = [CHR 0x27, CHR ''}'', CHR 0x27]"

text \<open>
  The text behind the colon; a handler that returned a pointer before its argument would be a
  fault.
\<close>

definition replacement_specs :: "'s handler \<Rightarrow> int \<Rightarrow> string \<Rightarrow> 's \<Rightarrow> fmt_error + (string \<times> 's)" where
  "replacement_specs h arg_id b s =
     andthen (on_format_specs h arg_id b s) (\<lambda>(b', s).
     if length b' > length b then Inl (Fmt_fault Ub_out_of_bounds)
     else if b' = [] \<or> hd b' \<noteq> CHR ''}'' then report_error ''unknown format specifier''
     else Inr (tl b', s))"

text \<open>The argument is what follows the opening brace.\<close>

definition parse_replacement_field :: "'s handler \<Rightarrow> string \<Rightarrow> 's \<Rightarrow> fmt_error + (string \<times> 's)" where
  "parse_replacement_field h b s =
     (case b of
        [] \<Rightarrow> report_error ''invalid format string''
      | c # cs \<Rightarrow>
          if c = CHR ''}''
          then andthen (on_next_arg_id h s) (\<lambda>(i, s).
               andthen (on_replacement_field h i b s) (\<lambda>s. Inr (cs, s)))
          else if c = CHR ''{'' then Inr (cs, on_text h [c] s)
          else if c = CHR '':''
          then andthen (on_next_arg_id h s) (\<lambda>(i, s). replacement_specs h i cs s)
          else
            andthen (parse_arg_id b) (\<lambda>(r, b).
            andthen (id_adapter h r s) (\<lambda>(i, s).
            if b \<noteq> [] \<and> hd b = CHR ''}''
            then andthen (on_replacement_field h i b s) (\<lambda>s. Inr (tl b, s))
            else if b = [] \<or> hd b \<noteq> CHR '':'' then report_error (''missing '' @ quoted_brace @ '' in format string'')
            else replacement_specs h i (tl b) s)))"

lemma replacement_specs_rest: "replacement_specs h i b s = Inr (b', s') \<Longrightarrow> length b' \<le> length b"
  by (auto simp: replacement_specs_def andthen_Inr_iff split: if_splits)

lemma parse_replacement_field_rest:
  "parse_replacement_field h b s = Inr (b', s') \<Longrightarrow> length b' < Suc (length b)"
  by (auto simp: parse_replacement_field_def andthen_Inr_iff split: list.splits if_splits
      dest!: replacement_specs_rest parse_arg_id_rest)

text \<open>\<open>pending\<close> is the text from \<open>begin\<close> to \<open>p\<close>.\<close>

function format_string_loop :: "'s handler \<Rightarrow> string \<Rightarrow> string \<Rightarrow> 's \<Rightarrow> fmt_error + 's" where
  "format_string_loop h pending [] s = Inr (on_text h pending s)"
| "format_string_loop h pending (c # p) s =
     (if c = CHR ''{''
      then andthen (parse_replacement_field h p (on_text h pending s)) (\<lambda>(p', s).
           format_string_loop h [] p' s)
      else if c = CHR ''}''
      then if p = [] \<or> hd p \<noteq> CHR ''}'' then report_error (''unmatched '' @ quoted_brace @ '' in format string'')
           else format_string_loop h [] (tl p) (on_text h (pending @ [c]) s)
      else format_string_loop h (pending @ [c]) p s)"
  by pat_completeness auto

termination
  by (relation "measure (\<lambda>(h, pending, p, s). length p)") (auto dest: parse_replacement_field_rest)

definition parse_format_string :: "'s handler \<Rightarrow> string \<Rightarrow> 's \<Rightarrow> fmt_error + 's" where
  "parse_format_string h fmt s = format_string_loop h [] fmt s"

definition check_char_specs :: "format_specs \<Rightarrow> fmt_error + bool" where
  "check_char_specs specs =
     (if specs_type specs \<noteq> pres_none \<and> specs_type specs \<noteq> pres_chr \<and> specs_type specs \<noteq> pres_debug
      then Inr False
      else if specs_align specs = Align_numeric \<or> specs_sign specs \<noteq> Sign_none \<or> specs_alt specs
      then report_error ''invalid format specifier for char''
      else Inr True)"

end
