(* ===== verification/Fmt_Utf8.thy ===== *)
theory Fmt_Utf8
  imports Text_Format "HOL-Library.Word"
begin

text \<open>
  UTF-8 in the bundled fmt (\<open>fmt/bundled/format.h\<close>): the branch-free decoder, the iteration over
  the code points of a string, the display width and the index of a code point, and the encoder of
  \<open>to_utf8\<close> for UTF-32. A character of an Isabelle string is a byte. Positions are offsets into
  the string; every access outside of it is a fault.
\<close>

unbundle bit_operations_syntax

section \<open>Decoding\<close>

definition byte_of :: "char \<Rightarrow> 32 word" where
  "byte_of c = word_of_nat (of_char c)"

definition utf8_masks :: "32 word list" where "utf8_masks = [0x00, 0x7f, 0x1f, 0x0f, 0x07]"
definition utf8_mins :: "32 word list" where "utf8_mins = [4194304, 0, 128, 2048, 65536]"
definition utf8_shiftc :: "nat list" where "utf8_shiftc = [0, 18, 12, 6, 0]"
definition utf8_shifte :: "nat list" where "utf8_shifte = [0, 6, 4, 2, 0]"

text \<open>The literal has 31 characters and a terminator.\<close>

definition utf8_lengths :: "nat list" where
  "utf8_lengths = replicate 16 1 @ replicate 8 0 @ replicate 4 2 @ replicate 2 3 @ [4] @ [0]"

definition utf8_length :: "char \<Rightarrow> nat" where
  "utf8_length c = utf8_lengths ! drop_bit 3 (of_char c :: nat)"

definition flag_bit :: "bool \<Rightarrow> nat \<Rightarrow> 32 word" where
  "flag_bit b n = push_bit n (if b then 1 else 0)"

text \<open>The code point, the error word, and how far the next character is away.\<close>

definition utf8_value :: "nat \<Rightarrow> char \<Rightarrow> char \<Rightarrow> char \<Rightarrow> char \<Rightarrow> 32 word" where
  "utf8_value len a b c d =
     drop_bit (utf8_shiftc ! len)
       (push_bit 18 (byte_of a AND utf8_masks ! len) OR push_bit 12 (byte_of b AND 0x3f)
        OR push_bit 6 (byte_of c AND 0x3f) OR (byte_of d AND 0x3f))"

definition utf8_error :: "nat \<Rightarrow> 32 word \<Rightarrow> char \<Rightarrow> char \<Rightarrow> char \<Rightarrow> 32 word" where
  "utf8_error len v b c d =
     drop_bit (utf8_shifte ! len)
       ((flag_bit (v < utf8_mins ! len) 6 OR flag_bit (drop_bit 11 v = 0x1b) 7 OR flag_bit (v > 0x10FFFF) 8
         OR drop_bit 2 (byte_of b AND 0xc0) OR drop_bit 4 (byte_of c AND 0xc0) OR drop_bit 6 (byte_of d))
        XOR 0x2a)"

definition utf8_decode :: "string \<Rightarrow> nat \<Rightarrow> fault + (32 word \<times> 32 word \<times> nat)" where
  "utf8_decode s p =
     andthen (mem_read s (int p) 4) (\<lambda>q.
     let len = utf8_length (q ! 0); v = utf8_value len (q ! 0) (q ! 1) (q ! 2) (q ! 3)
     in Inr (v, utf8_error len v (q ! 1) (q ! 2) (q ! 3), len + (if len = 0 then 1 else 0)))"

definition invalid_code_point :: "32 word" where
  "invalid_code_point = NOT 0"

section \<open>Iteration over code points\<close>

text \<open>
  The function \<open>f\<close> gets the code point and offset and length of its text; it says whether to go
  on. \<open>decode\<close> reads at \<open>buf_ptr\<close> in \<open>buf\<close>, reports the text at \<open>ptr\<close>, and gives the
  next \<open>buf_ptr\<close>.
\<close>

type_synonym 's code_point_fun = "32 word \<Rightarrow> nat \<Rightarrow> nat \<Rightarrow> 's \<Rightarrow> bool \<times> 's"

definition decode :: "'s code_point_fun \<Rightarrow> string \<Rightarrow> nat \<Rightarrow> nat \<Rightarrow> 's \<Rightarrow> fault + (nat option \<times> 's)" where
  "decode f buf buf_ptr ptr s =
     andthen (utf8_decode buf buf_ptr) (\<lambda>(cp, error, n).
     case f (if error \<noteq> 0 then invalid_code_point else cp) ptr (if error \<noteq> 0 then 1 else n) s of
       (result, s) \<Rightarrow>
         Inr (if result then Some (if error \<noteq> 0 then buf_ptr + 1 else buf_ptr + n) else None, s))"

lemma utf8_decode_Inr:
  assumes "utf8_decode s p = Inr (v, e, n)"
  shows "0 < n" and "p + 4 \<le> length s"
proof -
  obtain q where "mem_read s (int p) 4 = Inr q"
    using assms by (auto simp: utf8_decode_def andthen_Inr_iff)
  then show "p + 4 \<le> length s" by (simp add: mem_read_def split: if_splits)
  have "n = utf8_length (q ! 0) + (if utf8_length (q ! 0) = 0 then 1 else 0)"
    using assms \<open>mem_read s (int p) 4 = Inr q\<close> by (simp add: utf8_decode_def Let_def)
  then show "0 < n" by simp
qed

lemma decode_advances:
  assumes "decode f buf p q s = Inr (Some p', s')"
  shows "p < p'" and "p + 4 \<le> length buf"
proof -
  obtain v e n where d: "utf8_decode buf p = Inr (v, e, n)"
    and r: "(case f (if e \<noteq> 0 then invalid_code_point else v) q (if e \<noteq> 0 then 1 else n) s of (result, s) \<Rightarrow>
      Inr (if result then Some (if e \<noteq> 0 then p + 1 else p + n) else None, s)) = (Inr (Some p', s') :: fault + _)"
    using assms unfolding decode_def andthen_Inr_iff by auto
  obtain b s'' where "f (if e \<noteq> 0 then invalid_code_point else v) q (if e \<noteq> 0 then 1 else n) s = (b, s'')"
    by fastforce
  with r have p': "p' = p + 1 \<or> p' = p + n" by (auto split: if_splits)
  show "p < p'" and "p + 4 \<le> length buf" using p' utf8_decode_Inr [OF d] by auto
qed

text \<open>The loop over whole blocks of four.\<close>

function block_loop :: "'s code_point_fun \<Rightarrow> string \<Rightarrow> nat \<Rightarrow> 's \<Rightarrow> fault + (nat option \<times> 's)" where
  "block_loop f str p s =
     (if p < length str - 4 + 1
      then andthen (decode f str p p s) (\<lambda>(next, s).
           case next of None \<Rightarrow> Inr (None, s) | Some p' \<Rightarrow> block_loop f str p' s)
      else Inr (Some p, s))"
  by pat_completeness auto

termination
proof (relation "measure (\<lambda>(f, str, p, s). length str - p)", simp, clarsimp)
  fix f :: "'s code_point_fun" and str p s p' s'
  assume "decode f str p p s = Inr (Some p', s')"
  then show "length str - p' < length str - p" using decode_advances by fastforce
qed

declare block_loop.simps [simp del]

text \<open>The loop over what is left, in a buffer with zeros behind it.\<close>

function tail_loop ::
  "'s code_point_fun \<Rightarrow> string \<Rightarrow> nat \<Rightarrow> nat \<Rightarrow> nat \<Rightarrow> 's \<Rightarrow> fault + 's" where
  "tail_loop f buf num_chars_left buf_ptr p s =
     andthen (decode f buf buf_ptr p s) (\<lambda>(next, s).
     case next of
       None \<Rightarrow> Inr s
     | Some fin \<Rightarrow>
         if fin < num_chars_left then tail_loop f buf num_chars_left fin (p + (fin - buf_ptr)) s
         else Inr s)"
  by pat_completeness auto

termination
  by (relation "measure (\<lambda>(f, buf, n, bp, p, s). n - bp)") (auto dest: decode_advances)

declare tail_loop.simps [simp del]

definition for_each_codepoint :: "'s code_point_fun \<Rightarrow> string \<Rightarrow> 's \<Rightarrow> fault + 's" where
  "for_each_codepoint f str s =
     andthen (if length str \<ge> 4 then block_loop f str 0 s else Inr (Some 0, s)) (\<lambda>(next, s).
     case next of
       None \<Rightarrow> Inr s
     | Some p \<Rightarrow>
         let num_chars_left = length str - p in
         if num_chars_left = 0 then Inr s
         else
           let num_chars_left = num_chars_left AND 3;
               buf = take num_chars_left (drop p str) @ replicate (2 * 4 - 1 - num_chars_left) CHR 0x00
           in tail_loop f buf num_chars_left 0 p s)"

section \<open>Width and index\<close>

definition is_wide :: "32 word \<Rightarrow> bool" where
  "is_wide cp \<longleftrightarrow> cp \<ge> 0x1100 \<and>
     (cp \<le> 0x115f \<or> cp = 0x2329 \<or> cp = 0x232a \<or>
      (cp \<ge> 0x2e80 \<and> cp \<le> 0xa4cf \<and> cp \<noteq> 0x303f) \<or>
      (cp \<ge> 0xac00 \<and> cp \<le> 0xd7a3) \<or>
      (cp \<ge> 0xf900 \<and> cp \<le> 0xfaff) \<or>
      (cp \<ge> 0xfe10 \<and> cp \<le> 0xfe19) \<or>
      (cp \<ge> 0xfe30 \<and> cp \<le> 0xfe6f) \<or>
      (cp \<ge> 0xff00 \<and> cp \<le> 0xff60) \<or>
      (cp \<ge> 0xffe0 \<and> cp \<le> 0xffe6) \<or>
      (cp \<ge> 0x20000 \<and> cp \<le> 0x2fffd) \<or>
      (cp \<ge> 0x30000 \<and> cp \<le> 0x3fffd) \<or>
      (cp \<ge> 0x1f300 \<and> cp \<le> 0x1f64f) \<or>
      (cp \<ge> 0x1f900 \<and> cp \<le> 0x1f9ff))"

definition count_code_points :: "nat code_point_fun" where
  "count_code_points cp p n count = (True, count + (if is_wide cp then 2 else 1))"

definition compute_width :: "string \<Rightarrow> fault + nat" where
  "compute_width s = for_each_codepoint count_code_points s 0"

definition index_step :: "(nat \<times> nat) code_point_fun" where
  "index_step cp p len s =
     (case s of (n, result) \<Rightarrow> if n \<noteq> 0 then (True, n - 1, result) else (False, n, p))"

definition code_point_index :: "string \<Rightarrow> nat \<Rightarrow> fault + nat" where
  "code_point_index s n = andthen (for_each_codepoint index_step s (n, length s)) (\<lambda>(n, result). Inr result)"

section \<open>Encoding\<close>

text \<open>One character of UTF-32; \<open>None\<close> where \<open>convert\<close> returns \<open>false\<close>.\<close>

definition char_of_word :: "32 word \<Rightarrow> char" where
  "char_of_word w = char_of (unat w)"

definition encode_utf32 :: "32 word \<Rightarrow> string option" where
  "encode_utf32 c =
     (if c < 0x80 then Some [char_of_word c]
      else if c < 0x800
      then Some [char_of_word (0xc0 OR drop_bit 6 c), char_of_word (0x80 OR (c AND 0x3f))]
      else if c \<ge> 0x800 \<and> c \<le> 0xd7ff \<or> c \<ge> 0xe000 \<and> c \<le> 0xffff
      then Some [char_of_word (0xe0 OR drop_bit 12 c), char_of_word (0x80 OR drop_bit 6 (c AND 0xfff)),
                 char_of_word (0x80 OR (c AND 0x3f))]
      else if c \<ge> 0x10000 \<and> c \<le> 0x10ffff
      then Some [char_of_word (0xf0 OR drop_bit 18 c), char_of_word (0x80 OR drop_bit 12 (c AND 0x3ffff)),
                 char_of_word (0x80 OR drop_bit 6 (c AND 0xfff)), char_of_word (0x80 OR (c AND 0x3f))]
      else None)"

fun to_utf8 :: "32 word list \<Rightarrow> string option" where
  "to_utf8 [] = Some []"
| "to_utf8 (c # cs) =
     (case encode_utf32 c of None \<Rightarrow> None | Some e \<Rightarrow> map_option ((@) e) (to_utf8 cs))"

end
