(* ===== verification/Spdlog_Fmt.thy ===== *)
theory Spdlog_Fmt
  imports Text_Format
begin

text \<open>
  The integer formatting of the logging library: the digit counting and decimal output of
  the bundled fmt (\<open>fmt/bundled/format.h\<close>: \<open>count_digits_fallback\<close>, \<open>do_count_digits\<close>,
  \<open>digits2\<close>, \<open>write2digits\<close>, \<open>do_format_decimal\<close>, \<open>format_int\<close>) and the helpers of
  \<open>details/fmt_helper.h\<close> that append padded numbers to a log line. A growing
  \<open>memory_buf_t\<close> is an Isabelle string, the array behind \<open>format_int\<close> a string of fixed
  length with a position. Values of unsigned type are naturals below the bound of their type,
  signed ones integers.
\<close>

section \<open>Counting digits\<close>

function count_digits_loop :: "nat \<Rightarrow> nat \<Rightarrow> nat" where
  "count_digits_loop count n =
     (if n < 10 then count
      else if n < 100 then count + 1
      else if n < 1000 then count + 2
      else if n < 10000 then count + 3
      else count_digits_loop (count + 4) (n div 10000))"
  by pat_completeness auto

termination
  by (relation "measure snd") simp_all

declare count_digits_loop.simps [simp del]

definition count_digits_fallback :: "nat \<Rightarrow> nat" where
  "count_digits_fallback n = count_digits_loop 1 n"

text \<open>
  \<open>__builtin_clzll(n)\<close> counts the zeros above the highest set bit of a 64-bit value that is
  not 0; \<open>clz w n\<close> is the count for a width \<open>w\<close>.
\<close>

fun bit_length :: "nat \<Rightarrow> nat" where
  "bit_length n = (if n = 0 then 0 else Suc (bit_length (n div 2)))"

declare bit_length.simps [simp del]

definition clz :: "nat \<Rightarrow> nat \<Rightarrow> nat" where
  "clz w n = w - bit_length n"

definition bsr2log10 :: "nat list" where
  "bsr2log10 =
     [1,  1,  1,  2,  2,  2,  3,  3,  3,  4,  4,  4,  4,  5,  5,  5,
      6,  6,  6,  7,  7,  7,  7,  8,  8,  8,  9,  9,  9,  10, 10, 10,
      10, 11, 11, 11, 12, 12, 12, 13, 13, 13, 13, 14, 14, 14, 15, 15,
      15, 16, 16, 16, 16, 17, 17, 17, 18, 18, 18, 19, 19, 19, 19, 20]"

definition FMT_POWERS_OF_10 :: "nat \<Rightarrow> nat list" where
  "FMT_POWERS_OF_10 factor =
     [factor * 10, factor * 100, factor * 1000, factor * 10000,
      factor * 100000, factor * 1000000, factor * 10000000,
      factor * 100000000, factor * 1000000000]"

definition zero_or_powers_of_10 :: "nat list" where
  "zero_or_powers_of_10 =
     [0, 0] @ FMT_POWERS_OF_10 1 @ FMT_POWERS_OF_10 1000000000 @ [10000000000000000000]"

unbundle bit_operations_syntax

definition do_count_digits :: "nat \<Rightarrow> fault + nat" where
  "do_count_digits n =
     andthen (at_index bsr2log10 (clz 64 (n OR 1) XOR 63)) (\<lambda>t.
     andthen (at_index zero_or_powers_of_10 t) (\<lambda>p.
     Inr (t - (if n < p then 1 else 0))))"

text \<open>
  The 32-bit version adds a table value whose upper half is the number of characters in the
  spelling of a power of ten and from which that power is subtracted: the carry of the lower
  half completes the count. The addition is one of \<open>uint64_t\<close>.
\<close>

definition FMT_INC :: "nat \<Rightarrow> nat" where
  "FMT_INC t = push_bit 32 (length (dec t)) - t"

definition inc_table_powers :: "nat list" where
  "inc_table_powers =
     [0, 0, 0, 10, 10, 10, 100, 100, 100, 1000, 1000, 1000, 10000, 10000, 10000,
      100000, 100000, 100000, 1000000, 1000000, 1000000, 10000000, 10000000, 10000000,
      100000000, 100000000, 100000000, 1000000000, 1000000000, 1000000000,
      1000000000, 1000000000]"

definition inc_table :: "nat list" where
  "inc_table = map FMT_INC inc_table_powers"

definition do_count_digits32 :: "nat \<Rightarrow> fault + nat" where
  "do_count_digits32 n =
     andthen (at_index inc_table (clz 32 (n OR 1) XOR 31)) (\<lambda>inc.
     Inr (drop_bit 32 ((n + inc) mod 2 ^ 64)))"

section \<open>Writing digits\<close>

definition digits2_data :: string where
  "digits2_data =
     ''0001020304050607080910111213141516171819'' @
     ''2021222324252627282930313233343536373839'' @
     ''4041424344454647484950515253545556575859'' @
     ''6061626364656667686970717273747576777879'' @
     ''8081828384858687888990919293949596979899''"

definition digits2 :: "nat \<Rightarrow> fault + string" where
  "digits2 value = mem_read digits2_data (int value * 2) 2"

definition write2digits :: "string \<Rightarrow> int \<Rightarrow> nat \<Rightarrow> fault + string" where
  "write2digits buf out value = andthen (digits2 value) (\<lambda>d. mem_write buf out d)"

text \<open>
  The loop of \<open>do_format_decimal\<close> fills the buffer from its end; the result is the buffer
  and the position of the first digit.
\<close>

function format_decimal_loop :: "string \<Rightarrow> int \<Rightarrow> nat \<Rightarrow> fault + (string \<times> int)" where
  "format_decimal_loop out n value =
     (if 100 \<le> value
      then andthen (write2digits out (n - 2) (value mod 100)) (\<lambda>out.
             format_decimal_loop out (n - 2) (value div 100))
      else if 10 \<le> value
      then andthen (write2digits out (n - 2) value) (\<lambda>out. Inr (out, n - 2))
      else andthen (mem_write out (n - 1) [digit_char value]) (\<lambda>out. Inr (out, n - 1)))"
  by pat_completeness auto

termination
  by (relation "measure (\<lambda>(out, n, value). value)") simp_all

declare format_decimal_loop.simps [simp del]

definition do_format_decimal :: "string \<Rightarrow> nat \<Rightarrow> nat \<Rightarrow> fault + (string \<times> int)" where
  "do_format_decimal out value room =
     andthen (do_count_digits value) (\<lambda>digits.
     andthen (check Assert_failed (digits \<le> room)) (\<lambda>_.
     format_decimal_loop out (int room) value))"

text \<open>
  \<open>format_int\<close>: a buffer of 22 characters, of which the last stays free for a terminator; the
  text starts at the returned position. The initial content of the buffer is never read.
\<close>

definition buffer_size :: nat where
  "buffer_size = 19 + 3"

definition format_unsigned :: "string \<Rightarrow> nat \<Rightarrow> fault + (string \<times> int)" where
  "format_unsigned buf value = do_format_decimal buf value (buffer_size - 1)"

definition format_signed :: "nat \<Rightarrow> string \<Rightarrow> int \<Rightarrow> fault + (string \<times> int)" where
  "format_signed w buf value =
     (let u = value mod 2 ^ w;
          abs_value = (if value < 0 then (0 - u) mod 2 ^ w else u)
      in andthen (format_unsigned buf (nat abs_value)) (\<lambda>(buf, begin).
         if value < 0
         then andthen (mem_write buf (begin - 1) ''-'') (\<lambda>buf. Inr (buf, begin - 1))
         else Inr (buf, begin)))"

definition format_int_text :: "string \<times> int \<Rightarrow> fault + string" where
  "format_int_text r =
     (case r of (buf, str) \<Rightarrow> mem_read buf str (nat (int buffer_size - 1 - str)))"

definition append_uint :: "nat \<Rightarrow> string \<Rightarrow> fault + string" where
  "append_uint n dest =
     andthen (format_unsigned (replicate buffer_size CHR 0x00) n) (\<lambda>r.
     andthen (format_int_text r) (\<lambda>s. Inr (dest @ s)))"

definition append_int :: "nat \<Rightarrow> int \<Rightarrow> string \<Rightarrow> fault + string" where
  "append_int w n dest =
     andthen (format_signed w (replicate buffer_size CHR 0x00) n) (\<lambda>r.
     andthen (format_int_text r) (\<lambda>s. Inr (dest @ s)))"

section \<open>Padded numbers\<close>

definition append_string_view :: "string \<Rightarrow> string \<Rightarrow> string" where
  "append_string_view view dest = dest @ view"

text \<open>
  A number outside 0 to 99 is left to fmt's \<open>{:02}\<close>, which never has to pad one of those.
\<close>

definition pad2 :: "int \<Rightarrow> string \<Rightarrow> string" where
  "pad2 n dest =
     (if 0 \<le> n \<and> n < 100
      then dest @ [digit_char (nat n div 10)] @ [digit_char (nat n mod 10)]
      else dest @ dec_int n)"

definition pad_uint :: "nat \<Rightarrow> nat \<Rightarrow> string \<Rightarrow> fault + string" where
  "pad_uint n width dest =
     andthen (do_count_digits n) (\<lambda>digits.
     append_uint n (dest @ replicate (width - digits) CHR ''0''))"

definition pad3 :: "nat \<Rightarrow> string \<Rightarrow> fault + string" where
  "pad3 n dest =
     (if n < 1000
      then Inr (dest @ [digit_char (n div 100)] @ [digit_char (n mod 100 div 10)]
                     @ [digit_char (n mod 100 mod 10)])
      else append_uint n dest)"

definition pad6 :: "nat \<Rightarrow> string \<Rightarrow> fault + string" where
  "pad6 n dest = pad_uint n 6 dest"

definition pad9 :: "nat \<Rightarrow> string \<Rightarrow> fault + string" where
  "pad9 n dest = pad_uint n 9 dest"

text \<open>
  Durations of \<open>log_clock\<close> are counted in nanoseconds; \<open>duration_cast\<close> divides and rounds
  towards zero. \<open>time_fraction u\<close> is the part of a second in units of \<open>u\<close> nanoseconds.
\<close>

definition c_div :: "int \<Rightarrow> int \<Rightarrow> int" where
  "c_div a b = sgn a * sgn b * (\<bar>a\<bar> div \<bar>b\<bar>)"

definition duration_cast :: "int \<Rightarrow> int \<Rightarrow> int" where
  "duration_cast u d = c_div d u"

definition time_fraction :: "int \<Rightarrow> int \<Rightarrow> int" where
  "time_fraction u tp =
     (let secs = duration_cast 1000000000 tp
      in duration_cast u tp - secs * (1000000000 div u))"

section \<open>The digit counts\<close>

lemma dec_length_bounds: "n < 10 ^ length (dec n) \<and> (10 \<le> n \<longrightarrow> 10 ^ (length (dec n) - 1) \<le> n)"
proof (induction n rule: dec.induct)
  case (1 n)
  show ?case
  proof (cases "n < 10")
    case True
    then show ?thesis by (simp add: dec_small)
  next
    case False
    let ?m = "n div 10"
    have len: "length (dec n) = Suc (length (dec ?m))" using False by (simp add: dec_step)
    have IH: "?m < 10 ^ length (dec ?m)" "10 \<le> ?m \<longrightarrow> 10 ^ (length (dec ?m) - 1) \<le> ?m"
      using 1 [OF False] by blast+
    have upper: "n < 10 ^ length (dec n)" using IH(1) unfolding len by simp
    have "10 ^ (length (dec ?m) - 1) \<le> ?m"
    proof (cases "10 \<le> ?m")
      case True
      then show ?thesis using IH(2) by blast
    next
      case small: False
      then show ?thesis using False by (simp add: dec_small)
    qed
    moreover have "0 < length (dec ?m)" by simp
    ultimately have "10 ^ length (dec ?m) \<le> n"
      by (cases "length (dec ?m)") auto
    then show ?thesis using upper unfolding len by simp
  qed
qed

lemma length_dec_eq:
  assumes "n < 10 ^ k" and "0 < k" and "k = 1 \<or> 10 ^ (k - 1) \<le> n"
  shows "length (dec n) = k"
proof (rule antisym)
  show "length (dec n) \<le> k" using assms(1,2) by (rule length_dec_le)
  show "k \<le> length (dec n)"
  proof (rule ccontr)
    assume short: "\<not> k \<le> length (dec n)"
    have "n < 10 ^ length (dec n)" using dec_length_bounds by blast
    moreover have "(10::nat) ^ length (dec n) \<le> 10 ^ (k - 1)"
      using short by (intro power_increasing) auto
    moreover have "0 < length (dec n)" by simp
    moreover have "k \<noteq> 1" using short \<open>0 < length (dec n)\<close> by linarith
    ultimately show False using assms(3) by linarith
  qed
qed

lemma length_dec_drop4: "10000 \<le> n \<Longrightarrow> length (dec n) = 4 + length (dec (n div 10000))"
  by (simp add: dec_step [of n] dec_step [of "n div 10"] dec_step [of "n div 100"]
      dec_step [of "n div 1000"] div_mult2_eq [symmetric])

lemma count_digits_loop_dec: "count_digits_loop count n + 1 = count + length (dec n)"
proof (induction count n rule: count_digits_loop.induct)
  case (1 count n)
  show ?case
  proof (cases "n < 10000")
    case True
    consider "n < 10" | "10 \<le> n" "n < 100" | "100 \<le> n" "n < 1000" | "1000 \<le> n"
      by linarith
    then show ?thesis
      by cases (use True in \<open>simp_all add: count_digits_loop.simps [of count n]
          length_dec_eq [of n 1] length_dec_eq [of n 2] length_dec_eq [of n 3]
          length_dec_eq [of n 4]\<close>)
  next
    case False
    then show ?thesis using 1
      by (simp add: count_digits_loop.simps [of count n] length_dec_drop4)
  qed
qed

lemma count_digits_fallback_correct: "count_digits_fallback n = length (dec n)"
  using count_digits_loop_dec [of 1 n] by (simp add: count_digits_fallback_def)

lemma bit_length_bounds: "n < 2 ^ bit_length n \<and> (0 < n \<longrightarrow> 2 ^ (bit_length n - 1) \<le> n)"
proof (induction n rule: bit_length.induct)
  case (1 n)
  show ?case
  proof (cases "n = 0")
    case True
    then show ?thesis by (simp add: bit_length.simps)
  next
    case False
    then have len: "bit_length n = Suc (bit_length (n div 2))" by (simp add: bit_length.simps [of n])
    show ?thesis
    proof (cases "n div 2 = 0")
      case True
      then show ?thesis using False unfolding len by (simp add: bit_length.simps)
    next
      case False
      then have "0 < bit_length (n div 2)" by (subst bit_length.simps) simp
      then show ?thesis using 1 \<open>n \<noteq> 0\<close> False unfolding len
        by (cases "bit_length (n div 2)") auto
    qed
  qed
qed

lemma bit_length_le: "n < 2 ^ k \<Longrightarrow> bit_length n \<le> k"
proof (rule ccontr)
  assume "n < 2 ^ k" and long: "\<not> bit_length n \<le> k"
  then have "0 < n" by (intro gr0I) (simp add: bit_length.simps)
  then have "2 ^ (bit_length n - 1) \<le> n" using bit_length_bounds by blast
  moreover have "(2::nat) ^ k \<le> 2 ^ (bit_length n - 1)" using long by (intro power_increasing) auto
  ultimately show False using \<open>n < 2 ^ k\<close> by linarith
qed

text \<open>
  The index computed by \<open>clz(n | 1) ^ (w - 1)\<close> is the position \<open>b - 1\<close> of the highest set
  bit, with 0 for \<open>n = 0\<close>.
\<close>

lemma or_one_bit_length:
  assumes "n < 2 ^ w" and "0 < w"
  obtains b where "bit_length (n OR 1) = b" and "1 \<le> b" and "b \<le> w" and "n < 2 ^ b"
    and "b = 1 \<or> 2 ^ (b - 1) \<le> n"
proof
  let ?b = "bit_length (n OR 1)"
  have or: "n OR 1 = (if even n then n + 1 else n)"
    by (simp add: or_Suc_0_eq)
  have lo: "2 ^ (?b - 1) \<le> n OR 1" and hi: "n OR 1 < 2 ^ ?b"
    using bit_length_bounds [of "n OR 1"] or by (auto split: if_splits intro: gr0I)
  show "bit_length (n OR 1) = ?b" by simp
  show "1 \<le> ?b" using hi or by (cases ?b) (auto split: if_splits)
  show "n < 2 ^ ?b" using hi or by (auto split: if_splits)
  have "even ((2::nat) ^ w)" using assms(2) by simp
  then have "n OR 1 < 2 ^ w" using assms(1) unfolding or
    by (metis Suc_eq_plus1 Suc_lessI even_Suc)
  then show "?b \<le> w" by (rule bit_length_le)
  show "?b = 1 \<or> 2 ^ (?b - 1) \<le> n"
  proof (cases "?b = 1")
    case False
    then have "even ((2::nat) ^ (?b - 1))" using \<open>1 \<le> ?b\<close> by simp
    then have "2 ^ (?b - 1) \<le> n" using lo unfolding or
      by (metis Suc_eq_plus1 even_Suc le_SucE)
    then show ?thesis by simp
  qed simp
qed

text \<open>What one row of the 64-bit table has to satisfy.\<close>

definition row_ok :: "nat \<Rightarrow> bool" where
  "row_ok b =
     (let t = bsr2log10 ! (b - 1) in
      (64 - b) XOR 63 = b - 1 \<and> b - 1 < length bsr2log10 \<and> t < length zero_or_powers_of_10 \<and>
      1 \<le> t \<and> 2 ^ b \<le> (10::nat) ^ t \<and>
      (if t = 1 then zero_or_powers_of_10 ! t = 0 else zero_or_powers_of_10 ! t = 10 ^ (t - 1)) \<and>
      (t \<le> 2 \<or> 10 ^ (t - 2) \<le> (2::nat) ^ (b - 1)))"

lemma length_bsr2log10 [simp]: "length bsr2log10 = 64"
  by (simp add: bsr2log10_def)

lemma length_zero_or_powers_of_10 [simp]: "length zero_or_powers_of_10 = 21"
  by (simp add: zero_or_powers_of_10_def FMT_POWERS_OF_10_def)

lemma rows_ok: "list_all row_ok
   [1, 2, 3, 4, 5, 6, 7, 8, 9, 10, 11, 12, 13, 14, 15, 16, 17, 18, 19, 20, 21, 22,
    23, 24, 25, 26, 27, 28, 29, 30, 31, 32, 33, 34, 35, 36, 37, 38, 39, 40, 41, 42,
    43, 44, 45, 46, 47, 48, 49, 50, 51, 52, 53, 54, 55, 56, 57, 58, 59, 60, 61, 62,
    63, 64]"
  by (simp add: row_ok_def) (simp add: bsr2log10_def zero_or_powers_of_10_def FMT_POWERS_OF_10_def)

lemma one_to_64: "[1..<65] =
   [1, 2, 3, 4, 5, 6, 7, 8, 9, 10, 11, 12, 13, 14, 15, 16, 17, 18, 19, 20, 21, 22,
    23, 24, 25, 26, 27, 28, 29, 30, 31, 32, 33, 34, 35, 36, 37, 38, 39, 40, 41, 42,
    43, 44, 45, 46, 47, 48, 49, 50, 51, 52, 53, 54, 55, 56, 57, 58, 59, 60, 61, 62,
    63, 64]"
  by code_simp

lemma row_ok: "1 \<le> b \<Longrightarrow> b \<le> 64 \<Longrightarrow> row_ok b"
  using rows_ok unfolding one_to_64 [symmetric] by (simp add: list_all_iff)

text \<open>
  Both versions guess the digit count \<open>t\<close> from the highest bit and correct it by a comparison
  with a power of ten.
\<close>

lemma digits_of_row:
  assumes n: "n < 2 ^ b" "b = 1 \<or> 2 ^ (b - 1) \<le> n"
    and t: "1 \<le> t" "2 ^ b \<le> (10::nat) ^ t" "t \<le> 2 \<or> 10 ^ (t - 2) \<le> (2::nat) ^ (b - 1)"
    and p: "p = (if t = 1 then 0 else 10 ^ (t - 1))"
  shows "length (dec n) = t - (if n < p then 1 else 0)"
proof (cases "n < p")
  case True
  then have t2: "2 \<le> t" "n < 10 ^ (t - 1)" using t(1) p by (auto split: if_splits)
  have "t - 1 = 1 \<or> 10 ^ (t - 1 - 1) \<le> n"
  proof (cases "t = 2")
    case False
    then have big: "10 ^ (t - 2) \<le> (2::nat) ^ (b - 1)" using t(3) t2(1) by linarith
    have "b \<noteq> 1"
    proof
      assume "b = 1"
      then have "(10::nat) ^ (t - 2) \<le> 1" using big by simp
      moreover have "(10::nat) ^ 1 \<le> 10 ^ (t - 2)"
        using False t2(1) by (intro power_increasing) auto
      ultimately show False by simp
    qed
    then show ?thesis using big n(2) by (simp add: numeral_2_eq_2)
  qed simp
  then show ?thesis using True t2 length_dec_eq [of n "t - 1"] by simp
next
  case False
  then have "t = 1 \<or> 10 ^ (t - 1) \<le> n" using p by (auto split: if_splits)
  then show ?thesis using False n(1) t(1,2) length_dec_eq [of n t] by simp
qed

theorem do_count_digits_correct:
  assumes "n < 2 ^ 64"
  shows "do_count_digits n = Inr (length (dec n))"
proof -
  obtain b where b: "bit_length (n OR 1) = b" "1 \<le> b" "b \<le> 64" "n < 2 ^ b"
      "b = 1 \<or> 2 ^ (b - 1) \<le> n"
    by (rule or_one_bit_length [OF assms]) simp
  define t where "t = bsr2log10 ! (b - 1)"
  define p where "p = zero_or_powers_of_10 ! t"
  have row: "(64 - b) XOR 63 = b - 1" "b - 1 < 64" "t < 21" "1 \<le> t" "2 ^ b \<le> (10::nat) ^ t"
      "p = (if t = 1 then 0 else 10 ^ (t - 1))" "t \<le> 2 \<or> 10 ^ (t - 2) \<le> (2::nat) ^ (b - 1)"
    using row_ok [OF b(2,3)] unfolding row_ok_def Let_def t_def [symmetric] p_def
    by (auto split: if_splits)
  have "do_count_digits n = Inr (t - (if n < p then 1 else 0))"
    using row(1-3) by (simp add: do_count_digits_def clz_def b(1) at_index_def t_def p_def
        del: One_nat_def)
  then show ?thesis using digits_of_row [OF b(4,5) row(4,5,7,6)] by simp
qed

text \<open>The rows of the 32-bit table.\<close>

definition row32_ok :: "nat \<Rightarrow> bool" where
  "row32_ok b =
     (let T = inc_table_powers ! (b - 1); k = length (dec T) in
      (32 - b) XOR 31 = b - 1 \<and> k \<le> 10 \<and> 2 ^ b \<le> (10::nat) ^ k \<and>
      (if k = 1 then T = 0 else T = 10 ^ (k - 1)) \<and>
      (k \<le> 2 \<or> 10 ^ (k - 2) \<le> (2::nat) ^ (b - 1)))"

lemma length_inc_table_powers [simp]: "length inc_table_powers = 32"
  by (simp add: inc_table_powers_def)

lemma rows32_ok: "list_all row32_ok
   [1, 2, 3, 4, 5, 6, 7, 8, 9, 10, 11, 12, 13, 14, 15, 16, 17, 18, 19, 20, 21, 22,
    23, 24, 25, 26, 27, 28, 29, 30, 31, 32]"
  by (simp add: row32_ok_def) (simp add: inc_table_powers_def dec_step dec_small)

lemma one_to_32: "[1..<33] =
   [1, 2, 3, 4, 5, 6, 7, 8, 9, 10, 11, 12, 13, 14, 15, 16, 17, 18, 19, 20, 21, 22,
    23, 24, 25, 26, 27, 28, 29, 30, 31, 32]"
  by code_simp

lemma row32_ok: "1 \<le> b \<Longrightarrow> b \<le> 32 \<Longrightarrow> row32_ok b"
  using rows32_ok unfolding one_to_32 [symmetric] by (simp add: list_all_iff)

theorem do_count_digits32_correct:
  assumes "n < 2 ^ 32"
  shows "do_count_digits32 n = Inr (length (dec n))"
proof -
  obtain b where b: "bit_length (n OR 1) = b" "1 \<le> b" "b \<le> 32" "n < 2 ^ b"
      "b = 1 \<or> 2 ^ (b - 1) \<le> n"
    by (rule or_one_bit_length [OF assms]) simp
  define T where "T = inc_table_powers ! (b - 1)"
  define k where "k = length (dec T)"
  have row: "(32 - b) XOR 31 = b - 1" "k \<le> 10" "2 ^ b \<le> (10::nat) ^ k"
      "T = (if k = 1 then 0 else 10 ^ (k - 1))" "k \<le> 2 \<or> 10 ^ (k - 2) \<le> (2::nat) ^ (b - 1)"
    using row32_ok [OF b(2,3)] unfolding row32_ok_def Let_def T_def [symmetric] k_def
    by (auto split: if_splits)
  have k: "1 \<le> k" by (simp add: k_def Suc_le_eq)
  have "(10::nat) ^ (k - 1) \<le> 10 ^ 9" using row(2) by (intro power_increasing) auto
  then have T: "T < 2 ^ 32" using row(4) by (auto split: if_splits)
  have idx: "b - 1 < 32" using b(2,3) by linarith
  have inc: "inc_table ! (b - 1) = k * 2 ^ 32 - T"
    using b(2,3) by (simp add: inc_table_def FMT_INC_def T_def k_def push_bit_eq_mult)
  have ge: "T \<le> k * 2 ^ 32" using k T by (cases k) auto
  have "(n + (k * 2 ^ 32 - T)) mod 2 ^ 64 = n + (k * 2 ^ 32 - T)"
    using assms row(2) by simp
  moreover have "(n + (k * 2 ^ 32 - T)) div 2 ^ 32 = k - (if n < T then 1 else 0)"
  proof (cases "n < T")
    case True
    then have "n + (k * 2 ^ 32 - T) = (2 ^ 32 - (T - n)) + (k - 1) * 2 ^ 32"
      using k ge T by (cases k) auto
    then show ?thesis using True T by simp
  next
    case False
    then have "n + (k * 2 ^ 32 - T) = (n - T) + k * 2 ^ 32" using ge by linarith
    then show ?thesis using False assms by simp
  qed
  ultimately have "do_count_digits32 n = Inr (k - (if n < T then 1 else 0))"
    using row(1) idx inc
    by (simp add: do_count_digits32_def clz_def b(1) at_index_def inc_table_def drop_bit_eq_div
        del: One_nat_def)
  then show ?thesis using digits_of_row [OF b(4,5) k row(3,5,4)] by simp
qed

section \<open>The decimal writer\<close>

lemma zero_to_99: "[0..<100] =
   [0, 1, 2, 3, 4, 5, 6, 7, 8, 9, 10, 11, 12, 13, 14, 15, 16, 17, 18, 19, 20, 21,
    22, 23, 24, 25, 26, 27, 28, 29, 30, 31, 32, 33, 34, 35, 36, 37, 38, 39, 40, 41,
    42, 43, 44, 45, 46, 47, 48, 49, 50, 51, 52, 53, 54, 55, 56, 57, 58, 59, 60, 61,
    62, 63, 64, 65, 66, 67, 68, 69, 70, 71, 72, 73, 74, 75, 76, 77, 78, 79, 80, 81,
    82, 83, 84, 85, 86, 87, 88, 89, 90, 91, 92, 93, 94, 95, 96, 97, 98, 99]"
  by code_simp

lemma digits2_data_pairs:
  "digits2_data = concat (map (\<lambda>v. [digit_char (v div 10), digit_char (v mod 10)]) [0..<100])"
  unfolding zero_to_99 by (simp add: digits2_data_def digit_char_def char_of_def bit_Suc_0_iff)

lemma take_drop_concat_map:
  assumes "\<And>x. length (f x) = k"
  shows "v < length xs \<Longrightarrow> take k (drop (k * v) (concat (map f xs))) = f (xs ! v)"
proof (induction xs arbitrary: v)
  case (Cons x xs)
  then show ?case using assms by (cases v) simp_all
qed simp

lemma digits2_digits:
  assumes "v < 100"
  shows "digits2 v = Inr [digit_char (v div 10), digit_char (v mod 10)]"
proof -
  have "length digits2_data = 200" by (simp add: digits2_data_def)
  moreover have "take 2 (drop (2 * v) digits2_data) = [digit_char (v div 10), digit_char (v mod 10)]"
    unfolding digits2_data_pairs using assms by (subst take_drop_concat_map) simp_all
  ultimately show ?thesis using assms
    by (simp add: digits2_def mem_read_def nat_mult_distrib mult.commute)
qed

lemma dec_two_digits:
  "100 \<le> n \<Longrightarrow> dec n = dec (n div 100) @ [digit_char (n mod 100 div 10), digit_char (n mod 100 mod 10)]"
  "10 \<le> n \<Longrightarrow> n < 100 \<Longrightarrow> dec n = [digit_char (n div 10), digit_char (n mod 10)]"
proof -
  have "n mod 100 div 10 = n div 10 mod 10" for n :: nat
    using mod_mult2_eq [of n 10 10] by simp
  then show "100 \<le> n \<Longrightarrow> dec n = dec (n div 100)
      @ [digit_char (n mod 100 div 10), digit_char (n mod 100 mod 10)]"
    by (simp add: dec_step [of n] dec_step [of "n div 10"] div_mult2_eq [symmetric] mod_mod_cancel)
  show "10 \<le> n \<Longrightarrow> n < 100 \<Longrightarrow> dec n = [digit_char (n div 10), digit_char (n mod 10)]"
    by (simp add: dec_step dec_small)
qed

lemma format_decimal_loop_step:
  assumes "100 \<le> v" and "2 \<le> n" and "n \<le> length buf"
  shows "format_decimal_loop buf (int n) v =
    format_decimal_loop (take (n - 2) buf @ [digit_char (v mod 100 div 10), digit_char (v mod 100 mod 10)]
      @ drop n buf) (int (n - 2)) (v div 100)"
proof -
  have n: "Suc (Suc (n - 2)) = n" using assms(2) by simp
  have "write2digits buf (int n - 2) (v mod 100) =
      Inr (take (n - 2) buf @ [digit_char (v mod 100 div 10), digit_char (v mod 100 mod 10)]
        @ drop n buf)"
    using assms by (simp add: write2digits_def digits2_digits mem_write_def nat_diff_distrib n)
  then show ?thesis using assms
    by (simp add: format_decimal_loop.simps [of buf "int n" v] of_nat_diff Suc_diff_Suc numeral_2_eq_2)
qed

text \<open>
  The digits of \<open>v\<close> end up right before position \<open>n\<close>; what stands from \<open>n\<close> on is kept.
\<close>

lemma format_decimal_loop_writes:
  assumes "length (dec v) \<le> n" and "n \<le> length buf"
  shows "format_decimal_loop buf (int n) v =
    Inr (take (n - length (dec v)) buf @ dec v @ drop n buf, int (n - length (dec v)))"
  using assms
proof (induction v arbitrary: n buf rule: less_induct)
  case (less v)
  consider (two) "100 \<le> v" | (last) "10 \<le> v" "v < 100" | (one) "v < 10" by linarith
  then show ?case
  proof cases
    case two
    let ?d = "[digit_char (v mod 100 div 10), digit_char (v mod 100 mod 10)]"
    define m where "m = n - 2"
    let ?buf = "take m buf @ ?d @ drop n buf"
    define k where "k = length (dec (v div 100))"
    have dec: "dec v = dec (v div 100) @ ?d" using two by (rule dec_two_digits)
    have len: "length (dec v) = k + 2" by (simp add: dec k_def)
    have n: "2 \<le> n" "n = m + 2" "k \<le> m" using less.prems(1) len by (simp_all add: m_def)
    have m: "m \<le> length buf" using less.prems(2) n(2) by simp
    have "format_decimal_loop buf (int n) v = format_decimal_loop ?buf (int m) (v div 100)"
      unfolding m_def using two n(1) less.prems(2) by (rule format_decimal_loop_step)
    also have "\<dots> = Inr (take (m - k) ?buf @ dec (v div 100) @ drop m ?buf, int (m - k))"
      unfolding k_def using two n(3) less.prems(2) m
      by (intro less.IH) (simp_all add: k_def)
    also have "take (m - k) ?buf = take (m - k) buf" using m by simp
    also have "drop m ?buf = ?d @ drop n buf" using m by simp
    also have "m - k = n - length (dec v)" using n(2) len by simp
    finally show ?thesis by (simp add: dec)
  next
    case last
    have "2 \<le> n" using less.prems(1) last by (simp add: dec_two_digits)
    define m where "m = n - 2"
    have n: "n = m + 2" using \<open>2 \<le> n\<close> by (simp add: m_def)
    have "write2digits buf (int m) v = Inr (take m buf @ dec v @ drop n buf)"
      using less.prems(2) last n by (simp add: write2digits_def digits2_digits mem_write_def dec_two_digits)
    then show ?thesis using last
      by (subst format_decimal_loop.simps) (simp add: dec_two_digits n)
  next
    case one
    then obtain m where n: "n = Suc m" using less.prems(1) by (cases n) (simp_all add: dec_small)
    then have "mem_write buf (int m) [digit_char v] = Inr (take m buf @ [digit_char v] @ drop n buf)"
      using less.prems(2) by (simp add: mem_write_def)
    then show ?thesis using one
      by (subst format_decimal_loop.simps) (simp add: dec_small n)
  qed
qed

theorem do_format_decimal_writes:
  assumes "v < 2 ^ 64" and "length (dec v) \<le> room" and "room \<le> length buf"
  shows "do_format_decimal buf v room =
    Inr (take (room - length (dec v)) buf @ dec v @ drop room buf, int (room - length (dec v)))"
  using assms by (simp add: do_format_decimal_def do_count_digits_correct
      format_decimal_loop_writes)

lemma length_dec_u64: "v < 2 ^ 64 \<Longrightarrow> length (dec v) \<le> 20"
  by (rule length_dec_le) simp_all

lemma format_int_unsigned:
  assumes "v < 2 ^ 64" and "length buf = buffer_size"
  obtains b where "format_unsigned buf v = Inr (take (21 - length (dec v)) buf @ dec v @ [b], int (21 - length (dec v)))"
proof -
  have "drop 21 buf \<noteq> []" and "length (drop 21 buf) = 1" using assms(2) by (simp_all add: buffer_size_def)
  then obtain b where "drop 21 buf = [b]" by (cases "drop 21 buf") simp_all
  then show thesis
    using that [of b] assms length_dec_u64 [OF assms(1)] do_format_decimal_writes [of v 21 buf]
    by (simp add: format_unsigned_def buffer_size_def)
qed

text \<open>\<open>format_int\<close> produces the decimal text, whatever its buffer held before.\<close>

theorem format_int_unsigned_text:
  assumes "v < 2 ^ 64" and "length buf = buffer_size"
  shows "andthen (format_unsigned buf v) format_int_text = Inr (dec v)"
proof -
  obtain b where b: "format_unsigned buf v =
      Inr (take (21 - length (dec v)) buf @ dec v @ [b], int (21 - length (dec v)))"
    by (rule format_int_unsigned [OF assms])
  have "length (dec v) \<le> 20" using assms(1) by (rule length_dec_u64)
  then show ?thesis using assms(2)
    by (simp add: b format_int_text_def mem_read_def buffer_size_def nat_diff_distrib)
qed

lemma abs_value_of_signed:
  assumes "- (2 ^ (w - 1)) \<le> x" and "x < 2 ^ (w - 1)" and "0 < w"
  shows "(if x < 0 then (0 - x mod 2 ^ w) mod 2 ^ w else x mod 2 ^ w) = \<bar>x :: int\<bar>"
proof -
  have "(2::int) ^ w = 2 * 2 ^ (w - 1)" using assms(3) by (cases w) simp_all
  then have "0 \<le> x \<Longrightarrow> x mod 2 ^ w = x" and "x < 0 \<Longrightarrow> (- x) mod 2 ^ w = - x"
    using assms(1,2) by (auto intro!: mod_pos_pos_trivial)
  then show ?thesis by (simp add: mod_minus_eq)
qed

theorem format_int_signed_text:
  assumes "length buf = buffer_size" and "0 < w" and "w \<le> 64"
    and "- (2 ^ (w - 1)) \<le> x" and "x < 2 ^ (w - 1)"
  shows "andthen (format_signed w buf x) format_int_text = Inr (dec_int x)"
proof -
  let ?v = "nat \<bar>x\<bar>"
  have "(2::int) ^ (w - 1) \<le> 2 ^ 63" using assms(3) by (intro power_increasing) auto
  then have v: "?v < 2 ^ 64" using assms(4,5) by auto
  have len: "length (dec ?v) \<le> 20" using v by (rule length_dec_u64)
  obtain b where b: "format_unsigned buf ?v =
      Inr (take (21 - length (dec ?v)) buf @ dec ?v @ [b], int (21 - length (dec ?v)))"
    by (rule format_int_unsigned [OF v assms(1)])
  show ?thesis
  proof (cases "x < 0")
    case False
    then show ?thesis
      using abs_value_of_signed [OF assms(4,5,2)] format_int_unsigned_text [OF v assms(1)]
      by (simp add: format_signed_def Let_def dec_int_def b)
  next
    case True
    obtain m where m: "21 - length (dec ?v) = Suc m" using len
      by (cases "21 - length (dec ?v)") auto
    have "Suc m \<le> 21" using m by linarith
    moreover have room: "nat (21 - int m) = Suc (length (dec ?v))" using m len by linarith
    ultimately have buf: "length (take (Suc m) buf) = Suc m"
      using assms(1) m by (auto simp: buffer_size_def min_def)
    have "mem_write (take (Suc m) buf @ dec ?v @ [b]) (int m) ''-'' =
        Inr (take m buf @ ''-'' @ dec ?v @ [b])"
      using buf by (simp add: mem_write_def min_def)
    moreover have x: "nat \<bar>x\<bar> = nat (- x)" using True by simp
    moreover have "m \<le> 20" using m by linarith
    ultimately show ?thesis
      using True m buf len assms(1) abs_value_of_signed [OF assms(4,5,2)]
      by (simp add: format_signed_def Let_def dec_int_def b [unfolded x] m
          format_int_text_def mem_read_def buffer_size_def room [unfolded x])
  qed
qed

corollary append_uint_dec:
  "n < 2 ^ 64 \<Longrightarrow> append_uint n dest = Inr (dest @ dec n)"
  using format_int_unsigned_text [of n "replicate buffer_size CHR 0x00"]
  by (auto simp: append_uint_def andthen_Inr_iff)

corollary append_int_dec:
  assumes "0 < w" and "w \<le> 64" and "- (2 ^ (w - 1)) \<le> x" and "x < 2 ^ (w - 1)"
  shows "append_int w x dest = Inr (dest @ dec_int x)"
  using format_int_signed_text [OF _ assms, of "replicate buffer_size CHR 0x00"]
  by (auto simp: append_int_def andthen_Inr_iff)

section \<open>Widths of padded numbers\<close>

lemma dec_int_nonneg: "0 \<le> x \<Longrightarrow> dec_int x = dec (nat x)"
  by (simp add: dec_int_def)

lemma digit_char_0 [simp]: "digit_char 0 = CHR ''0''"
  by code_simp

lemma dec_below_100: "n < 100 \<Longrightarrow> zero_pad 2 n = [digit_char (n div 10), digit_char (n mod 10)]"
  by (cases "n < 10") (simp_all add: zero_pad_def dec_small dec_two_digits)

lemma pad2_zero_pad: "0 \<le> x \<Longrightarrow> pad2 x dest = dest @ zero_pad 2 (nat x)"
proof (cases "x < 100")
  case True
  then show "0 \<le> x \<Longrightarrow> ?thesis" by (simp add: pad2_def dec_below_100 nat_less_iff)
next
  case False
  moreover have "2 \<le> length (dec (nat x))" if "0 \<le> x"
    using False by (subst dec_step) (simp_all add: Suc_le_eq)
  ultimately show "0 \<le> x \<Longrightarrow> ?thesis" by (simp add: pad2_def zero_pad_def dec_int_def)
qed

lemma pad_uint_zero_pad: "n < 2 ^ 64 \<Longrightarrow> pad_uint n w dest = Inr (dest @ zero_pad w n)"
  by (simp add: pad_uint_def do_count_digits_correct append_uint_dec zero_pad_def Let_def)

lemma pad3_zero_pad: "n < 2 ^ 64 \<Longrightarrow> pad3 n dest = Inr (dest @ zero_pad 3 n)"
proof -
  assume n: "n < 2 ^ 64"
  consider "n < 10" | "10 \<le> n" "n < 100" | "100 \<le> n" "n < 1000" | "1000 \<le> n" by linarith
  then show ?thesis
  proof cases
    case 4
    then have "3 \<le> length (dec n)"
      using dec_two_digits(1) [of n] by (simp add: Suc_le_eq)
    then show ?thesis using 4 n by (simp add: pad3_def append_uint_dec zero_pad_def)
  qed (simp_all add: pad3_def zero_pad_def dec_small dec_two_digits numeral_3_eq_3)
qed

lemma length_zero_pad: "length (zero_pad w n) = max w (length (dec n))"
  by (simp add: zero_pad_def Let_def)

lemma length_zero_pad_eq: "n < 10 ^ w \<Longrightarrow> 0 < w \<Longrightarrow> length (zero_pad w n) = w"
  using length_dec_le [of n w] by (simp add: length_zero_pad)

text \<open>
  The fraction of a second is below one second, and never negative for a time after the epoch.
\<close>

lemma time_fraction_nonneg:
  assumes "0 \<le> tp" and "u \<in> {1, 1000, 1000000, 1000000000}"
  shows "time_fraction u tp = (tp mod 1000000000) div u"
  using assms by (auto simp: time_fraction_def duration_cast_def c_div_def Let_def
      minus_mult_div_eq_mod [symmetric] minus_div_mult_eq_mod sgn_if)

section \<open>The digit counters agree\<close>

text \<open>
  The table driven digit counters of fmt, for 64 and for 32 bits, return what the reference loop
  returns, the number of decimal digits, and never look outside their tables.
\<close>

theorem digit_counts_agree:
  assumes "n < 2 ^ 64"
  shows "do_count_digits n = Inr (count_digits_fallback n)
    \<and> (n < 2 ^ 32 \<longrightarrow> do_count_digits32 n = Inr (count_digits_fallback n))
    \<and> count_digits_fallback n = length (dec n)"
  using assms by (simp add: do_count_digits_correct do_count_digits32_correct
      count_digits_fallback_correct)

theorem digit_counts_agree_witness:
  "do_count_digits 4294967295 = Inr 10 \<and> do_count_digits32 4294967295 = Inr 10"
proof -
  have "count_digits_fallback 4294967295 = 10"
    by (simp add: count_digits_fallback_def count_digits_loop.simps)
  then show ?thesis using digit_counts_agree [of 4294967295] by simp
qed

end
