(* ===== verification/Fmt_Write.thy ===== *)
theory Fmt_Write
  imports Fmt_Parse Fmt_Utf8 Fmt_Printable Spdlog_Fmt
begin

text \<open>
  The writers of the bundled fmt (\<open>fmt/bundled/format.h\<close>) for integers, characters, strings,
  booleans and pointers: fill and padding, digits in the bases 2, 8 and 16, prefixes, precision
  and escaping. A writer gives the text that the code appends to its output buffer, which grows
  without bound; the sizes that the code only reserves are left out. Arrays on the stack have
  their size, and a write outside of them is a fault. An unsigned value of \<open>w\<close> bits is a natural
  below \<open>2 ^ w\<close>, a signed one an integer.
\<close>

section \<open>Padding\<close>

definition fill :: "nat \<Rightarrow> format_specs \<Rightarrow> string" where
  "fill n specs =
     (if fill_size specs = 1 then replicate n (fill_unit specs)
      else concat (replicate n (take (fill_size specs) (fill_data specs))))"

text \<open>The shift by alignment; the literals end with a zero character for the numeric one.\<close>

definition padding_shifts :: "align \<Rightarrow> nat list" where
  "padding_shifts default_align =
     (if default_align = Align_left then [0x1f, 0x1f, 0x00, 0x01, 0x00] else [0x00, 0x1f, 0x00, 0x01, 0x00])"

definition to_unsigned :: "int \<Rightarrow> fmt_error + nat" where
  "to_unsigned x = (if x < 0 then Inl (Fmt_fault Assert_failed) else Inr (nat x))"

definition write_padded :: "align \<Rightarrow> format_specs \<Rightarrow> nat \<Rightarrow> string \<Rightarrow> fmt_error + string" where
  "write_padded default_align specs width body =
     andthen (to_unsigned (fs_width specs)) (\<lambda>spec_width.
     let padding = (if spec_width > width then spec_width - width else 0);
         left_padding = drop_bit (padding_shifts default_align ! unat (align_code (specs_align specs))) padding;
         right_padding = padding - left_padding in
     Inr ((if left_padding \<noteq> 0 then fill left_padding specs else []) @ body
          @ (if right_padding \<noteq> 0 then fill right_padding specs else [])))"

definition write_bytes :: "string \<Rightarrow> format_specs \<Rightarrow> fmt_error + string" where
  "write_bytes bytes specs = write_padded Align_left specs (length bytes) bytes"

section \<open>Digits\<close>

text \<open>
  \<open>do_format_base2e\<close> fills the array from its end; the result is the array and the position of
  the first digit.
\<close>

definition base2e_char :: "nat \<Rightarrow> bool \<Rightarrow> nat \<Rightarrow> char" where
  "base2e_char base_bits upper digit =
     (if base_bits < 4 then char_of (48 + digit)
      else (if upper then ''0123456789ABCDEF'' else ''0123456789abcdef'') ! digit)"

lemma shifted_less: "0 < b \<Longrightarrow> 0 < m div 2 ^ b \<Longrightarrow> m div 2 ^ b < m" for m b :: nat
proof -
  assume "0 < b" and "0 < m div 2 ^ b"
  then have "0 < m" by (intro gr0I) simp
  moreover have "1 < (2 :: nat) ^ b" using \<open>0 < b\<close> by (intro one_less_power) simp_all
  ultimately show ?thesis by (rule div_less_dividend [rotated])
qed

function base2e_loop :: "nat \<Rightarrow> bool \<Rightarrow> string \<Rightarrow> int \<Rightarrow> nat \<Rightarrow> fault + (string \<times> int)" where
  "base2e_loop base_bits upper buf out value =
     andthen (mem_write buf (out - 1) [base2e_char base_bits upper (value mod 2 ^ base_bits)]) (\<lambda>buf.
     if base_bits = 0 \<or> value div 2 ^ base_bits = 0 then Inr (buf, out - 1)
     else base2e_loop base_bits upper buf (out - 1) (value div 2 ^ base_bits))"
  by pat_completeness auto

termination
  by (relation "measure (\<lambda>(base_bits, upper, buf, out, value). value)") (auto intro: shifted_less)

declare base2e_loop.simps [simp del]

definition do_format_base2e :: "nat \<Rightarrow> string \<Rightarrow> nat \<Rightarrow> nat \<Rightarrow> bool \<Rightarrow> fault + (string \<times> int)" where
  "do_format_base2e base_bits out value room upper = base2e_loop base_bits upper out (int room) value"

text \<open>\<open>count_digits<BITS>\<close>; for 32 bits by the position of the highest bit.\<close>

function count_base2_loop :: "nat \<Rightarrow> nat \<Rightarrow> nat \<Rightarrow> nat" where
  "count_base2_loop bits num_digits m =
     (if bits = 0 \<or> m div 2 ^ bits = 0 then num_digits + 1
      else count_base2_loop bits (num_digits + 1) (m div 2 ^ bits))"
  by pat_completeness auto

termination
  by (relation "measure (\<lambda>(bits, num_digits, m). m)") (auto intro: shifted_less)

declare count_base2_loop.simps [simp del]

definition count_base2 :: "nat \<Rightarrow> nat \<Rightarrow> nat \<Rightarrow> nat" where
  "count_base2 bits w n =
     (if w = 32 then (clz 32 (n OR 1) XOR 31) div bits + 1 else count_base2_loop bits 0 n)"

text \<open>Decimal digits; the count depends on the width of the type.\<close>

definition count_digits :: "nat \<Rightarrow> nat \<Rightarrow> fault + nat" where
  "count_digits w n =
     (if w = 32 then do_count_digits32 n else if w = 64 then do_count_digits n
      else Inr (count_digits_fallback n))"

definition format_decimal_to :: "nat \<Rightarrow> string \<Rightarrow> nat \<Rightarrow> nat \<Rightarrow> fault + (string \<times> int)" where
  "format_decimal_to w out value room =
     andthen (count_digits w value) (\<lambda>digits.
     andthen (check Assert_failed (digits \<le> room)) (\<lambda>_. format_decimal_loop out (int room) value))"

section \<open>Integers\<close>

record write_int_arg =
  abs_value :: nat
  prefix_w :: "32 word"

definition sign_prefixes :: "32 word list" where
  "sign_prefixes = [0, 0, 0x1000000 OR 0x2b, 0x1000000 OR 0x20]"

definition make_write_int_arg :: "nat \<Rightarrow> int \<Rightarrow> sign \<Rightarrow> write_int_arg" where
  "make_write_int_arg w value s =
     (let av = value mod 2 ^ w in
      if value < 0
      then \<lparr>abs_value = nat ((0 - av) mod 2 ^ w), prefix_w = 0x01000000 OR 0x2d\<rparr>
      else \<lparr>abs_value = nat av, prefix_w = sign_prefixes ! unat (sign_code s)\<rparr>)"

definition prefix_append :: "32 word \<Rightarrow> 32 word \<Rightarrow> 32 word" where
  "prefix_append pre value =
     (pre OR (if pre \<noteq> 0 then push_bit 8 value else value))
       + push_bit 24 (1 + (if value > 0xff then 1 else 0))"

definition char_word :: "char \<Rightarrow> 32 word" where
  "char_word c = word_of_nat (of_char c)"

text \<open>The characters of a prefix, the lowest byte first.\<close>

function prefix_chars_loop :: "32 word \<Rightarrow> string" where
  "prefix_chars_loop p =
     (if p = 0 then [] else char_of (unat (p AND 0xff)) # prefix_chars_loop (drop_bit 8 p))"
  by pat_completeness auto

termination
proof (relation "measure unat", simp, clarsimp)
  fix p :: "32 word"
  assume "p \<noteq> 0"
  then have "0 < unat p" by (simp add: unat_gt_0)
  then show "unat (drop_bit 8 p) < unat p" by (simp add: unat_drop_bit_eq drop_bit_eq_div [of 8 "unat p"])
qed

declare prefix_chars_loop.simps [simp del]

definition prefix_chars :: "32 word \<Rightarrow> string" where
  "prefix_chars pre = prefix_chars_loop (pre AND 0xffffff)"

definition prefix_size :: "32 word \<Rightarrow> nat" where
  "prefix_size pre = unat (drop_bit 24 pre)"

text \<open>\<open>size_padding\<close>: the size and the number of zeros before the digits.\<close>

definition size_padding :: "int \<Rightarrow> 32 word \<Rightarrow> format_specs \<Rightarrow> fmt_error + (nat \<times> nat)" where
  "size_padding num_digits pre specs =
     andthen (to_unsigned num_digits) (\<lambda>digits.
     let size = (prefix_size pre + digits) mod 2 ^ 32 in
     if specs_align specs = Align_numeric
     then andthen (to_unsigned (fs_width specs)) (\<lambda>width.
          if width > size then Inr (width, width - size) else Inr (size, 0))
     else if fs_precision specs > num_digits
     then Inr ((prefix_size pre + nat (fs_precision specs)) mod 2 ^ 32, nat (fs_precision specs - num_digits))
     else Inr (size, 0))"



section \<open>Escaping\<close>

definition needs_escape :: "32 word \<Rightarrow> fault + bool" where
  "needs_escape cp =
     (if cp < 0x20 \<or> cp = 0x7f \<or> cp = 0x22 \<or> cp = 0x5c then Inr True
      else andthen (is_printable cp) (\<lambda>b. Inr (\<not> b)))"

text \<open>
  \<open>find_escape_result\<close>: where the escape begins and ends (\<open>None\<close> for the null pointer) and its
  code point. A failing table look-up would be recorded; there is none.
\<close>

record find_escape_result =
  fe_begin :: nat
  fe_end :: "nat option"
  fe_cp :: "32 word"

definition find_escape_step :: "(fault + find_escape_result) code_point_fun" where
  "find_escape_step cp p len r =
     (case needs_escape cp of
        Inl e \<Rightarrow> (False, Inl e)
      | Inr b \<Rightarrow> if b then (False, Inr \<lparr>fe_begin = p, fe_end = Some (p + len), fe_cp = cp\<rparr>) else (True, r))"

definition find_escape :: "string \<Rightarrow> fault + find_escape_result" where
  "find_escape s =
     andthen (for_each_codepoint find_escape_step s (Inr \<lparr>fe_begin = length s, fe_end = None, fe_cp = 0\<rparr>))
       (\<lambda>r. r)"

definition write_codepoint :: "nat \<Rightarrow> char \<Rightarrow> 32 word \<Rightarrow> fault + string" where
  "write_codepoint width pre cp =
     andthen (do_format_base2e 4 (replicate width CHR ''0'') (unat cp) width False) (\<lambda>(buf, out).
     Inr (CHR 0x5C # pre # buf))"

fun write_codepoints :: "string \<Rightarrow> fault + string" where
  "write_codepoints [] = Inr []"
| "write_codepoints (c # cs) =
     andthen (write_codepoint 2 CHR ''x'' (byte_of c AND 0xFF)) (\<lambda>s.
     andthen (write_codepoints cs) (\<lambda>t. Inr (s @ t)))"

text \<open>The text is that between \<open>begin\<close> and \<open>end\<close>.\<close>

definition write_escaped_cp :: "32 word \<Rightarrow> string \<Rightarrow> fault + string" where
  "write_escaped_cp cp t0 =
     (if cp = 0x0A then Inr [CHR 0x5C, CHR ''n'']
      else if cp = 0x0D then Inr [CHR 0x5C, CHR ''r'']
      else if cp = 0x09 then Inr [CHR 0x5C, CHR ''t'']
      else if cp = 0x22 \<or> cp = 0x27 \<or> cp = 0x5C then Inr [CHR 0x5C, char_of (unat cp)]
      else if cp < 0x100 then write_codepoint 2 CHR ''x'' cp
      else if cp < 0x10000 then write_codepoint 4 CHR ''u'' cp
      else if cp < 0x110000 then write_codepoint 8 CHR ''U'' cp
      else write_codepoints t0)"

text \<open>
  The loop of \<open>write_escaped_string\<close> on what is left of the string; an escape that does not
  advance is a fault.
\<close>

function escape_loop :: "string \<Rightarrow> fault + string" where
  "escape_loop s =
     andthen (find_escape s) (\<lambda>e.
     case fe_end e of
       None \<Rightarrow> Inr (take (fe_begin e) s)
     | Some fin \<Rightarrow>
         andthen (write_escaped_cp (fe_cp e) (drop (fe_begin e) (take fin s))) (\<lambda>t.
         if fin = length s then Inr (take (fe_begin e) s @ t)
         else if fin = 0 \<or> fin > length s then Inl Ub_out_of_bounds
         else andthen (escape_loop (drop fin s)) (\<lambda>r. Inr (take (fe_begin e) s @ t @ r))))"
  by pat_completeness auto

termination
  by (relation "measure length") auto

declare escape_loop.simps [simp del]

definition write_escaped_string :: "string \<Rightarrow> fault + string" where
  "write_escaped_string s = andthen (escape_loop s) (\<lambda>t. Inr ([CHR 0x22] @ t @ [CHR 0x22]))"

definition write_escaped_char :: "char \<Rightarrow> fault + string" where
  "write_escaped_char v =
     (let u = (if of_char v < (128 :: nat) then word_of_nat (of_char v) else word_of_int (of_char v - 256)) in
      andthen (needs_escape u) (\<lambda>b.
      andthen (if b \<and> v \<noteq> CHR 0x22 \<or> v = CHR 0x27 then write_escaped_cp u [v] else Inr [v]) (\<lambda>t.
      Inr ([CHR 0x27] @ t @ [CHR 0x27]))))"

section \<open>Writing with specifiers\<close>

definition write_char :: "char \<Rightarrow> format_specs \<Rightarrow> fmt_error + string" where
  "write_char v specs =
     andthen (if specs_type specs = pres_debug then fmt_of (write_escaped_char v) else Inr [v]) (\<lambda>t.
     write_padded Align_left specs 1 t)"

text \<open>The array with the digits, the position of the first one, and the prefix.\<close>

definition int_digits ::
  "nat \<Rightarrow> write_int_arg \<Rightarrow> format_specs \<Rightarrow> fmt_error + (string \<times> int \<times> 32 word)" where
  "int_digits w arg specs =
     (let buf = replicate w CHR 0x00; t = specs_type specs; pre = prefix_w arg; n = abs_value arg in
      if t = pres_none \<or> t = pres_dec
      then andthen (fmt_of (format_decimal_to w buf n w)) (\<lambda>(b, p). Inr (b, p, pre))
      else if t = pres_hex
      then andthen (fmt_of (do_format_base2e 4 buf n w (specs_upper specs))) (\<lambda>(b, p).
           Inr (b, p, if specs_alt specs
                      then prefix_append pre (push_bit 8 (char_word (if specs_upper specs then CHR ''X'' else CHR ''x''))
                                              OR char_word CHR ''0'') else pre))
      else if t = pres_oct
      then andthen (fmt_of (do_format_base2e 3 buf n w False)) (\<lambda>(b, p).
           let num_digits = int w - p in
           Inr (b, p, if specs_alt specs \<and> fs_precision specs \<le> num_digits \<and> n \<noteq> 0
                      then prefix_append pre (char_word CHR ''0'') else pre))
      else if t = pres_bin
      then andthen (fmt_of (do_format_base2e 1 buf n w False)) (\<lambda>(b, p).
           Inr (b, p, if specs_alt specs
                      then prefix_append pre (push_bit 8 (char_word (if specs_upper specs then CHR ''B'' else CHR ''b''))
                                              OR char_word CHR ''0'') else pre))
      else Inl (Fmt_fault Assert_failed))"

definition write_int :: "nat \<Rightarrow> write_int_arg \<Rightarrow> format_specs \<Rightarrow> fmt_error + string" where
  "write_int w arg specs =
     (if specs_type specs = pres_chr then write_char (char_of (abs_value arg)) specs
      else andthen (int_digits w arg specs) (\<lambda>(buf, p, pre).
           let num_digits = int w - p in
           andthen (fmt_of (mem_read buf p (nat num_digits))) (\<lambda>digits.
           if (fs_width specs OR (fs_precision specs + 1)) = 0
           then Inr (prefix_chars pre @ digits)
           else andthen (size_padding num_digits pre specs) (\<lambda>(sz, padding).
                write_padded Align_right specs sz
                  (prefix_chars pre @ replicate padding CHR ''0'' @ digits)))))"

definition write_integer :: "nat \<Rightarrow> int \<Rightarrow> format_specs \<Rightarrow> fmt_error + string" where
  "write_integer w v specs = write_int w (make_write_int_arg w v (specs_sign specs)) specs"

text \<open>A \<open>char\<close> is written as the \<open>unsigned char\<close> of the same bits.\<close>

definition write_char_arg :: "char \<Rightarrow> format_specs \<Rightarrow> fmt_error + string" where
  "write_char_arg v specs =
     andthen (check_char_specs specs) (\<lambda>as_char.
     if as_char then write_char v specs else write_integer 32 (of_char v) specs)"

definition write_string :: "string \<Rightarrow> format_specs \<Rightarrow> fmt_error + string" where
  "write_string s specs =
     andthen (if fs_precision specs \<ge> 0 \<and> nat (fs_precision specs) < length s
              then fmt_of (code_point_index s (nat (fs_precision specs))) else Inr (length s)) (\<lambda>n.
     if specs_type specs = pres_debug
     then andthen (fmt_of (write_escaped_string s)) (\<lambda>t.
          write_padded Align_left specs (if fs_width specs \<noteq> 0 then length t else 0) t)
     else andthen (if fs_width specs \<noteq> 0 then fmt_of (compute_width (take n s)) else Inr 0) (\<lambda>width.
          write_padded Align_left specs width (take n s)))"

definition write_bool :: "bool \<Rightarrow> format_specs \<Rightarrow> fmt_error + string" where
  "write_bool b specs =
     (if specs_type specs \<noteq> pres_none \<and> specs_type specs \<noteq> pres_string
      then write_integer 32 (if b then 1 else 0) specs
      else write_bytes (if b then ''true'' else ''false'') specs)"

definition write_ptr :: "nat \<Rightarrow> format_specs \<Rightarrow> fmt_error + string" where
  "write_ptr v specs =
     (let num_digits = count_base2 4 64 v in
      andthen (fmt_of (do_format_base2e 4 (replicate num_digits CHR 0x00) v num_digits False)) (\<lambda>(buf, p).
      write_padded Align_right specs (num_digits + 2) (''0x'' @ buf)))"

section \<open>Writing without specifiers\<close>

definition write_default_int :: "nat \<Rightarrow> int \<Rightarrow> fmt_error + string" where
  "write_default_int w v =
     (let av = v mod 2 ^ w; n = nat (if v < 0 then (2 ^ w - 1 - av + 1) mod 2 ^ w else av) in
      andthen (fmt_of (count_digits w n)) (\<lambda>num_digits.
      andthen (fmt_of (format_decimal_to w (replicate num_digits CHR 0x00) n num_digits)) (\<lambda>(buf, p).
      Inr ((if v < 0 then ''-'' else []) @ buf))))"

end
