(* ===== verification/Fmt_Format.thy ===== *)
theory Fmt_Format
  imports Fmt_Write
begin

text \<open>
  Formatting with arguments in the bundled fmt: the arguments and their packed descriptor, the
  default output and the output with specifiers, dynamic width and precision, the handler that
  formats (\<open>format_handler\<close>) and the one that checks a format string at compile time
  (\<open>format_string_checker\<close>), and \<open>vformat_to\<close> (\<open>fmt/bundled/base.h\<close>, \<open>format.h\<close>,
  \<open>format-inl.h\<close>). What is written for floating point numbers and what the locale makes of an argument
  are parameters (\<open>fmt_io\<close>) that may fail; the code of the repository for them, \<open>write_float\<close> and the
  grouped \<open>write_int\<close>, is modelled in \<open>Fmt_Float\<close> and \<open>Fmt_Grouping\<close>. The formatter of a user-defined type is an argument of its
  constructor: from the text behind the colon it gives the rest of the text and the output.
\<close>

section \<open>Arguments\<close>

datatype 'f fmt_arg =
    No_arg
  | Int_arg int
  | Uint_arg nat
  | Long_long_arg int
  | Ulong_long_arg nat
  | Int128_arg int
  | Uint128_arg nat
  | Bool_arg bool
  | Char_arg char
  | Float_arg 'f
  | Double_arg 'f
  | Long_double_arg 'f
  | Cstring_arg nat string      \<comment> \<open>the address and what it points to\<close>
  | String_arg string
  | Pointer_arg nat
  | Custom_arg "string \<Rightarrow> parse_context \<Rightarrow> fmt_error + (string \<times> parse_context \<times> string)"

fun type_of_arg :: "'f fmt_arg \<Rightarrow> arg_type" where
  "type_of_arg No_arg = none_type"
| "type_of_arg (Int_arg i) = int_type"
| "type_of_arg (Uint_arg n) = uint_type"
| "type_of_arg (Long_long_arg i) = long_long_type"
| "type_of_arg (Ulong_long_arg n) = ulong_long_type"
| "type_of_arg (Int128_arg i) = int128_type"
| "type_of_arg (Uint128_arg n) = uint128_type"
| "type_of_arg (Bool_arg b) = bool_type"
| "type_of_arg (Char_arg c) = char_type"
| "type_of_arg (Float_arg x) = float_type"
| "type_of_arg (Double_arg x) = double_type"
| "type_of_arg (Long_double_arg x) = long_double_type"
| "type_of_arg (Cstring_arg a s) = cstring_type"
| "type_of_arg (String_arg s) = string_type"
| "type_of_arg (Pointer_arg p) = pointer_type"
| "type_of_arg (Custom_arg f) = custom_type"

record 'f fmt_io =
  io_float :: "arg_type \<Rightarrow> 'f \<Rightarrow> format_specs option \<Rightarrow> fmt_error + string"
  io_locale :: "'f fmt_arg \<Rightarrow> format_specs \<Rightarrow> (fmt_error + string) option"

text \<open>The kinds of at most 15 arguments are packed into the descriptor, 4 bits each.\<close>

definition packed_arg_bits :: nat where "packed_arg_bits = 4"
definition max_packed_args :: nat where "max_packed_args = 62 div packed_arg_bits"
definition is_unpacked_bit :: "64 word" where "is_unpacked_bit = push_bit 63 1"
definition has_named_args_bit :: "64 word" where "has_named_args_bit = push_bit 62 1"

definition type_of_code :: "nat \<Rightarrow> arg_type" where
  "type_of_code n = [none_type, int_type, uint_type, long_long_type, ulong_long_type, int128_type,
     uint128_type, bool_type, char_type, float_type, double_type, long_double_type, cstring_type,
     string_type, pointer_type, custom_type] ! n"

fun encode_types :: "arg_type list \<Rightarrow> 64 word" where
  "encode_types [] = 0"
| "encode_types (t # ts) = word_of_nat (type_code t) OR push_bit packed_arg_bits (encode_types ts)"

definition make_descriptor :: "arg_type list \<Rightarrow> 64 word" where
  "make_descriptor ts =
     (if length ts \<le> max_packed_args then encode_types ts else is_unpacked_bit OR word_of_nat (length ts))"

record 'f format_args =
  fa_desc :: "64 word"
  fa_args :: "'f fmt_arg list"
  fa_named :: "(string \<times> int) list"

definition make_format_args :: "'f fmt_arg list \<Rightarrow> (string \<times> int) list \<Rightarrow> 'f format_args" where
  "make_format_args args named =
     \<lparr>fa_desc = make_descriptor (map type_of_arg args) OR (if named \<noteq> [] then has_named_args_bit else 0),
      fa_args = args, fa_named = named\<rparr>"

definition is_packed :: "'f format_args \<Rightarrow> bool" where
  "is_packed a = (fa_desc a AND is_unpacked_bit = 0)"

definition has_named_args :: "'f format_args \<Rightarrow> bool" where
  "has_named_args a = (fa_desc a AND has_named_args_bit \<noteq> 0)"

definition args_type :: "'f format_args \<Rightarrow> nat \<Rightarrow> arg_type" where
  "args_type a index = type_of_code (unat (drop_bit (index * packed_arg_bits) (fa_desc a) AND 15))"

definition args_max_size :: "'f format_args \<Rightarrow> int" where
  "args_max_size a =
     (if is_packed a then int max_packed_args
      else sint (ucast (fa_desc a AND NOT is_unpacked_bit) :: 32 word))"

definition args_get :: "'f format_args \<Rightarrow> int \<Rightarrow> fmt_error + 'f fmt_arg" where
  "args_get a i =
     (if \<not> is_packed a
      then if i < args_max_size a
           then if 0 \<le> i then fmt_of (at_index (fa_args a) (nat i)) else Inl (Fmt_fault Ub_out_of_bounds)
           else Inr No_arg
      else if i < 0 \<or> i \<ge> int max_packed_args then Inr No_arg
      else if args_type a (nat i) \<noteq> none_type then fmt_of (at_index (fa_args a) (nat i))
      else Inr No_arg)"

fun find_name :: "(string \<times> int) list \<Rightarrow> string \<Rightarrow> int" where
  "find_name [] n = - 1"
| "find_name ((m, i) # xs) n = (if m = n then i else find_name xs n)"

definition args_get_id :: "'f format_args \<Rightarrow> string \<Rightarrow> int" where
  "args_get_id a n = (if \<not> has_named_args a then - 1 else find_name (fa_named a) n)"

definition args_get_name :: "'f format_args \<Rightarrow> string \<Rightarrow> fmt_error + 'f fmt_arg" where
  "args_get_name a n = (let i = args_get_id a n in if i \<ge> 0 then args_get a i else Inr No_arg)"

section \<open>Output of an argument\<close>

fun write_default :: "'f fmt_io \<Rightarrow> 'f fmt_arg \<Rightarrow> fmt_error + string" where
  "write_default io No_arg = report_error ''argument not found''"
| "write_default io (Int_arg i) = write_default_int 32 i"
| "write_default io (Uint_arg n) = write_default_int 32 (int n)"
| "write_default io (Long_long_arg i) = write_default_int 64 i"
| "write_default io (Ulong_long_arg n) = write_default_int 64 (int n)"
| "write_default io (Int128_arg i) = write_default_int 128 i"
| "write_default io (Uint128_arg n) = write_default_int 128 (int n)"
| "write_default io (Bool_arg b) = write_bool b format_specs_new"
| "write_default io (Char_arg c) = Inr [c]"
| "write_default io (Float_arg x) = io_float io float_type x None"
| "write_default io (Double_arg x) = io_float io double_type x None"
| "write_default io (Long_double_arg x) = io_float io long_double_type x None"
| "write_default io (Cstring_arg a s) =
     (if a = 0 then report_error ''string pointer is null'' else Inr s)"
| "write_default io (String_arg s) = Inr s"
| "write_default io (Pointer_arg p) = write_ptr p format_specs_new"
| "write_default io (Custom_arg f) = andthen (f [] (parse_context_new None)) (\<lambda>(b, ctx, out). Inr out)"

definition localized_or :: "'f fmt_io \<Rightarrow> 'f fmt_arg \<Rightarrow> format_specs \<Rightarrow> fmt_error + string \<Rightarrow> fmt_error + string" where
  "localized_or io arg specs r =
     (if specs_localized specs
      then case io_locale io arg specs of Some t \<Rightarrow> t | None \<Rightarrow> r else r)"

fun write_with :: "'f fmt_io \<Rightarrow> format_specs \<Rightarrow> 'f fmt_arg \<Rightarrow> fmt_error + string" where
  "write_with io specs No_arg = Inl (Fmt_fault Assert_failed)"
| "write_with io specs (Int_arg i) = localized_or io (Int_arg i) specs (write_integer 32 i specs)"
| "write_with io specs (Uint_arg n) = localized_or io (Uint_arg n) specs (write_integer 32 (int n) specs)"
| "write_with io specs (Long_long_arg i) = localized_or io (Long_long_arg i) specs (write_integer 64 i specs)"
| "write_with io specs (Ulong_long_arg n) =
     localized_or io (Ulong_long_arg n) specs (write_integer 64 (int n) specs)"
| "write_with io specs (Int128_arg i) = localized_or io (Int128_arg i) specs (write_integer 128 i specs)"
| "write_with io specs (Uint128_arg n) =
     localized_or io (Uint128_arg n) specs (write_integer 128 (int n) specs)"
| "write_with io specs (Bool_arg b) =
     (if specs_type specs \<noteq> pres_none \<and> specs_type specs \<noteq> pres_string
      then localized_or io (Int_arg (if b then 1 else 0)) specs (write_bool b specs) else write_bool b specs)"
| "write_with io specs (Char_arg c) =
     andthen (check_char_specs specs) (\<lambda>as_char.
     if as_char then write_char_arg c specs
     else localized_or io (Uint_arg (of_char c)) specs (write_char_arg c specs))"
| "write_with io specs (Float_arg x) = io_float io float_type x (Some specs)"
| "write_with io specs (Double_arg x) = io_float io double_type x (Some specs)"
| "write_with io specs (Long_double_arg x) = io_float io long_double_type x (Some specs)"
| "write_with io specs (Cstring_arg a s) =
     (if specs_type specs = pres_pointer then write_ptr a specs
      else if a = 0 then report_error ''string pointer is null'' else write_string s specs)"
| "write_with io specs (String_arg s) = write_string s specs"
| "write_with io specs (Pointer_arg p) = write_ptr p specs"
| "write_with io specs (Custom_arg f) = Inr []"

section \<open>Dynamic width and precision\<close>

fun dynamic_spec_getter :: "'f fmt_arg \<Rightarrow> fmt_error + nat" where
  "dynamic_spec_getter (Int_arg i) = Inr (if i < 0 then 2 ^ 64 - 1 else nat i)"
| "dynamic_spec_getter (Uint_arg n) = Inr n"
| "dynamic_spec_getter (Long_long_arg i) = Inr (if i < 0 then 2 ^ 64 - 1 else nat i)"
| "dynamic_spec_getter (Ulong_long_arg n) = Inr n"
| "dynamic_spec_getter (Int128_arg i) = Inr (if i < 0 then 2 ^ 64 - 1 else nat i mod 2 ^ 64)"
| "dynamic_spec_getter (Uint128_arg n) = Inr (n mod 2 ^ 64)"
| "dynamic_spec_getter _ = report_error ''width/precision is not integer''"

definition get_dynamic_spec :: "arg_id_kind \<Rightarrow> arg_ref \<Rightarrow> 'f format_args \<Rightarrow> fmt_error + int" where
  "get_dynamic_spec kind r a =
     andthen (case r of Ref_index i \<Rightarrow> args_get a i | Ref_name n \<Rightarrow> args_get_name a n) (\<lambda>arg.
     if type_of_arg arg = none_type then report_error ''argument not found''
     else andthen (dynamic_spec_getter arg) (\<lambda>v.
          if int v > INT_MAX then report_error ''width/precision is out of range'' else Inr (int v)))"

definition handle_dynamic_spec :: "arg_id_kind \<Rightarrow> int \<Rightarrow> arg_ref \<Rightarrow> 'f format_args \<Rightarrow> fmt_error + int" where
  "handle_dynamic_spec kind v r a = (if kind \<noteq> Id_none then get_dynamic_spec kind r a else Inr v)"

section \<open>Formatting\<close>

text \<open>
  The state of \<open>format_handler\<close>: the numbering of the arguments and the output. The formatter of a
  user-defined type parses the text behind the colon and goes on in the output.
\<close>

record format_state =
  fh_ctx :: parse_context
  fh_out :: string

definition fh_append :: "string \<Rightarrow> format_state \<Rightarrow> format_state" where
  "fh_append t s = s\<lparr>fh_out := fh_out s @ t\<rparr>"

definition get_arg :: "'f format_args \<Rightarrow> int \<Rightarrow> fmt_error + 'f fmt_arg" where
  "get_arg args i =
     andthen (args_get args i) (\<lambda>arg.
     if type_of_arg arg = none_type then report_error ''argument not found'' else Inr arg)"

definition fh_next_arg_id :: "format_state \<Rightarrow> fmt_error + (int \<times> format_state)" where
  "fh_next_arg_id s = andthen (next_arg_id (fh_ctx s)) (\<lambda>(i, ctx). Inr (i, s\<lparr>fh_ctx := ctx\<rparr>))"

definition fh_arg_index :: "int \<Rightarrow> format_state \<Rightarrow> fmt_error + (int \<times> format_state)" where
  "fh_arg_index i s = andthen (check_arg_id i (fh_ctx s)) (\<lambda>ctx. Inr (i, s\<lparr>fh_ctx := ctx\<rparr>))"

definition fh_arg_name :: "'f format_args \<Rightarrow> string \<Rightarrow> format_state \<Rightarrow> fmt_error + (int \<times> format_state)" where
  "fh_arg_name args n s =
     (let i = args_get_id args n in
      if i < 0 then report_error ''argument not found''
      else Inr (i, s\<lparr>fh_ctx := check_arg_name (fh_ctx s)\<rparr>))"

definition fh_replacement_field ::
  "'f fmt_io \<Rightarrow> 'f format_args \<Rightarrow> int \<Rightarrow> format_state \<Rightarrow> fmt_error + format_state" where
  "fh_replacement_field io args i s =
     andthen (args_get args i) (\<lambda>arg. andthen (write_default io arg) (\<lambda>t. Inr (fh_append t s)))"

definition resolve_specs :: "'f format_args \<Rightarrow> format_specs \<Rightarrow> fmt_error + format_specs" where
  "resolve_specs args specs =
     (if specs_dynamic specs
      then andthen (handle_dynamic_spec (dynamic_width specs) (fs_width specs) (width_ref specs) args) (\<lambda>w.
           andthen (handle_dynamic_spec (dynamic_precision specs) (fs_precision specs) (precision_ref specs) args) (\<lambda>p.
           Inr (specs\<lparr>fs_width := w, fs_precision := p\<rparr>)))
      else Inr specs)"

definition fh_format_specs ::
  "'f fmt_io \<Rightarrow> 'f format_args \<Rightarrow> int \<Rightarrow> string \<Rightarrow> format_state \<Rightarrow> fmt_error + (string \<times> format_state)" where
  "fh_format_specs io args i b s =
     andthen (get_arg args i) (\<lambda>arg.
     case arg of
       Custom_arg f \<Rightarrow>
         andthen (f b (fh_ctx s)) (\<lambda>(b, ctx, t). Inr (b, fh_append t (s\<lparr>fh_ctx := ctx\<rparr>)))
     | _ \<Rightarrow>
         andthen (parse_format_specs b format_specs_new (fh_ctx s) (type_of_arg arg)) (\<lambda>(b, specs, ctx).
         andthen (resolve_specs args specs) (\<lambda>specs.
         andthen (write_with io specs arg) (\<lambda>t.
         Inr (b, fh_append t (s\<lparr>fh_ctx := ctx\<rparr>))))))"

definition format_handler :: "'f fmt_io \<Rightarrow> 'f format_args \<Rightarrow> format_state handler" where
  "format_handler io args =
     \<lparr>on_text = fh_append,
      on_next_arg_id = fh_next_arg_id,
      on_arg_index = fh_arg_index,
      on_arg_name = fh_arg_name args,
      on_replacement_field = (\<lambda>i b s. fh_replacement_field io args i s),
      on_format_specs = fh_format_specs io args\<rparr>"

text \<open>What \<open>vformat_to\<close> appends to its buffer.\<close>

definition vformat_to :: "'f fmt_io \<Rightarrow> string \<Rightarrow> 'f format_args \<Rightarrow> fmt_error + string" where
  "vformat_to io fmt args =
     (if fmt = ''{}''
      then andthen (args_get args 0) (\<lambda>arg. write_default io arg)
      else andthen (parse_format_string (format_handler io args) fmt
                     \<lparr>fh_ctx = parse_context_new None, fh_out = []\<rparr>) (\<lambda>s. Inr (fh_out s)))"

definition vformat :: "'f fmt_io \<Rightarrow> string \<Rightarrow> 'f format_args \<Rightarrow> fmt_error + string" where
  "vformat io fmt args = vformat_to io fmt args"

section \<open>The check at compile time\<close>

text \<open>
  The checker knows the kind of every argument and its parser (\<open>cp_custom\<close> for user-defined
  types, by number), the static names, and whether names may be added at run time. Its state is
  the context of the numbering.
\<close>

record checker =
  ck_types :: "arg_type list"
  ck_names :: "(string \<times> int) list"
  ck_dynamic_names :: bool
  ck_custom :: "nat \<Rightarrow> string \<Rightarrow> parse_context \<Rightarrow> fmt_error + (string \<times> parse_context)"

definition native_parse :: "arg_type \<Rightarrow> string \<Rightarrow> parse_context \<Rightarrow> fmt_error + (string \<times> parse_context)" where
  "native_parse t b ctx =
     (if b = [] \<or> hd b = CHR ''}'' then Inr (b, ctx)
      else andthen (parse_format_specs b format_specs_new ctx t) (\<lambda>(b, specs, ctx).
           if t = char_type then andthen (check_char_specs specs) (\<lambda>_. Inr (b, ctx)) else Inr (b, ctx)))"

fun skip_specs :: "int \<Rightarrow> string \<Rightarrow> string" where
  "skip_specs bracket_count [] = []"
| "skip_specs bracket_count (c # b) =
     (if bracket_count > 0 \<or> c \<noteq> CHR ''}''
      then skip_specs (if c = CHR ''{'' then bracket_count + 1
                       else if c = CHR ''}'' then bracket_count - 1 else bracket_count) b
      else c # b)"

definition ck_arg_index :: "int \<Rightarrow> parse_context \<Rightarrow> fmt_error + (int \<times> parse_context)" where
  "ck_arg_index i ctx = andthen (check_arg_id i ctx) (\<lambda>ctx. Inr (i, ctx))"

definition ck_arg_name :: "checker \<Rightarrow> string \<Rightarrow> parse_context \<Rightarrow> fmt_error + (int \<times> parse_context)" where
  "ck_arg_name k n ctx =
     (case map_of (ck_names k) n of
        Some i \<Rightarrow> Inr (i, ctx)
      | None \<Rightarrow> if \<not> ck_dynamic_names k then report_error ''argument not found'' else Inr (- 1, ctx))"

definition ck_format_specs ::
  "checker \<Rightarrow> int \<Rightarrow> string \<Rightarrow> parse_context \<Rightarrow> fmt_error + (string \<times> parse_context)" where
  "ck_format_specs k i b ctx =
     (if 0 \<le> i \<and> i < int (length (ck_types k))
      then if ck_types k ! nat i = custom_type then ck_custom k (nat i) b ctx
           else native_parse (ck_types k ! nat i) b ctx
      else Inr (skip_specs 0 b, ctx))"

definition ck_replacement_field :: "checker \<Rightarrow> int \<Rightarrow> string \<Rightarrow> parse_context \<Rightarrow> fmt_error + parse_context" where
  "ck_replacement_field k i b ctx = andthen (ck_format_specs k i b ctx) (\<lambda>(b, ctx). Inr ctx)"

definition format_string_checker :: "checker \<Rightarrow> parse_context handler" where
  "format_string_checker k =
     \<lparr>on_text = (\<lambda>t ctx. ctx),
      on_next_arg_id = next_arg_id,
      on_arg_index = ck_arg_index,
      on_arg_name = ck_arg_name k,
      on_replacement_field = ck_replacement_field k,
      on_format_specs = ck_format_specs k\<rparr>"

definition check_format_string :: "checker \<Rightarrow> string \<Rightarrow> fmt_error + parse_context" where
  "check_format_string k fmt =
     parse_format_string (format_string_checker k) fmt (parse_context_new (Some (ck_types k)))"

end
