(* ===== verification/Fmt_Utf8_Props.thy ===== *)
theory Fmt_Utf8_Props
  imports Fmt_Utf8
begin

text \<open>
  UTF-8 in the bundled fmt: the decoder never reads outside its text and its padding, it never
  passes the end of the text, and on what the encoder made from code points it gives these back,
  so that an iteration over the text is one over the code points. The width of ASCII text is its
  length.
\<close>

section \<open>Bits of the encoded bytes\<close>

lemma bit_byte_of: "8 \<le> n \<Longrightarrow> \<not> bit (byte_of c) n"
proof -
  assume "8 \<le> n"
  then have "(2 :: nat) ^ 8 \<le> 2 ^ n" by (intro power_increasing) simp_all
  then have "(of_char c :: nat) < 2 ^ n" by (simp add: order_less_le_trans [OF nat_of_char_less_256 [of c]])
  then have "\<not> bit (of_char c :: nat) n" by (simp add: bit_iff_odd)
  then show ?thesis by (simp add: byte_of_def bit_of_nat_iff)
qed

lemma byte_of_0 [simp]: "byte_of CHR 0x00 = 0"
  by (simp add: byte_of_def)

lemma utf8_error_pad:
  "bit (utf8_error 2 v CHR 0x00 c d) 1"
  "bit (utf8_error 3 v b CHR 0x00 d) 1"
  "bit (utf8_error 4 v b c CHR 0x00) 1"
  by (simp_all add: utf8_error_def utf8_shifte_def flag_bit_def bit_simps bit_byte_of)

lemma utf8_length_le: "utf8_length a \<le> 4"
proof -
  have "(of_char a :: nat) div 8 < 32" using nat_of_char_less_256 [of a] by linarith
  moreover have "list_all (\<lambda>i. utf8_lengths ! i \<le> 4) [0..<32]" by code_simp
  ultimately show ?thesis by (simp add: utf8_length_def list_all_iff drop_bit_eq_div)
qed

lemma bit_char_of_word: "bit (byte_of (char_of_word w)) n \<longleftrightarrow> bit w n \<and> n < 8"
proof -
  have "(of_char (char_of (unat w)) :: nat) = take_bit 8 (unat w)" by (simp add: take_bit_eq_mod)
  then have "byte_of (char_of_word w) = take_bit 8 w"
    by (simp add: byte_of_def char_of_word_def flip: unsigned_take_bit_eq)
  then show ?thesis by (auto simp: bit_simps)
qed

lemma less_bits: "c < push_bit k 1 \<Longrightarrow> k < 32 \<Longrightarrow> bit c n \<Longrightarrow> n < k" for c :: "32 word"
proof (rule ccontr)
  assume "c < push_bit k 1" and k: "k < 32" and "bit c n" and "\<not> n < k"
  moreover have "unat (push_bit k 1 :: 32 word) = 2 ^ k"
  proof -
    have "(push_bit k 1 :: 32 word) = word_of_nat (2 ^ k)" by (simp add: push_bit_eq_mult)
    moreover have "(2 :: nat) ^ k < 2 ^ 32" using k by (intro power_strict_increasing) simp_all
    ultimately show ?thesis by (simp only: unsigned_of_nat) (use k in \<open>simp add: take_bit_nat_eq_self_iff\<close>)
  qed
  ultimately have "unat c < 2 ^ k" by (simp only: word_less_nat_alt)
  then have c: "take_bit k c = c"
    by (simp add: word_unat_eq_iff unsigned_take_bit_eq take_bit_nat_eq_self_iff)
  have "bit (take_bit k c) n" using \<open>bit c n\<close> by (simp only: c)
  then show False using \<open>\<not> n < k\<close> by (simp add: bit_simps)
qed

lemma mask_words: "(0x3f :: 32 word) = mask 6" "(0xfff :: 32 word) = mask 12" "(0x3ffff :: 32 word) = mask 18"
  "(0x7f :: 32 word) = mask 7" "(0x1f :: 32 word) = mask 5" "(0xf :: 32 word) = mask 4" "(7 :: 32 word) = mask 3"
  by (simp_all add: mask_eq_exp_minus_1)

lemma bit_ones: "bit (0x80 :: 32 word) n \<longleftrightarrow> n = 7" "bit (0xc0 :: 32 word) n \<longleftrightarrow> n = 6 \<or> n = 7"
  "bit (0xe0 :: 32 word) n \<longleftrightarrow> 5 \<le> n \<and> n < 8" "bit (0xf0 :: 32 word) n \<longleftrightarrow> 4 \<le> n \<and> n < 8"
proof -
  have "(0x80 :: 32 word) = NOT (mask 7) AND mask 8" "(0xc0 :: 32 word) = NOT (mask 6) AND mask 8"
    "(0xe0 :: 32 word) = NOT (mask 5) AND mask 8" "(0xf0 :: 32 word) = NOT (mask 4) AND mask 8"
    by (simp_all add: mask_eq_exp_minus_1)
  then show "bit (0x80 :: 32 word) n \<longleftrightarrow> n = 7" "bit (0xc0 :: 32 word) n \<longleftrightarrow> n = 6 \<or> n = 7"
  "bit (0xe0 :: 32 word) n \<longleftrightarrow> 5 \<le> n \<and> n < 8" "bit (0xf0 :: 32 word) n \<longleftrightarrow> 4 \<le> n \<and> n < 8"
    by (auto simp only: bit_simps) auto
qed

lemmas utf8_bits = bit_simps bit_char_of_word bit_ones

lemma value2:
  assumes "c < 0x800"
  shows "utf8_value 2 (char_of_word (0xc0 OR drop_bit 6 c)) (char_of_word (0x80 OR (c AND 0x3f))) b d = c"
proof (rule bit_word_eqI)
  fix n assume "n < LENGTH(32)"
  consider "n < 6" | "6 \<le> n" "n < 11" | "11 \<le> n" by linarith
  then show "bit (utf8_value 2 (char_of_word (0xc0 OR drop_bit 6 c)) (char_of_word (0x80 OR (c AND 0x3f))) b d) n
      = bit c n"
    using less_bits [of c 11 n] assms
    unfolding utf8_value_def utf8_shiftc_def utf8_masks_def mask_words
    by cases (auto simp add: utf8_bits simp del: bit_numeral_word_iff)
qed

lemma value3:
  assumes "c < 0x10000"
  shows "utf8_value 3 (char_of_word (0xe0 OR drop_bit 12 c)) (char_of_word (0x80 OR drop_bit 6 (c AND 0xfff)))
          (char_of_word (0x80 OR (c AND 0x3f))) d = c"
proof (rule bit_word_eqI)
  fix n assume "n < LENGTH(32)"
  consider "n < 6" | "6 \<le> n" "n < 12" | "12 \<le> n" "n < 16" | "16 \<le> n" by linarith
  then show "bit (utf8_value 3 (char_of_word (0xe0 OR drop_bit 12 c)) (char_of_word (0x80 OR drop_bit 6 (c AND 0xfff)))
          (char_of_word (0x80 OR (c AND 0x3f))) d) n = bit c n"
    using less_bits [of c 16 n] assms
    unfolding utf8_value_def utf8_shiftc_def utf8_masks_def mask_words
    by cases (auto simp add: utf8_bits simp del: bit_numeral_word_iff)
qed

lemma value4:
  assumes "c < 0x200000"
  shows "utf8_value 4 (char_of_word (0xf0 OR drop_bit 18 c)) (char_of_word (0x80 OR drop_bit 12 (c AND 0x3ffff)))
          (char_of_word (0x80 OR drop_bit 6 (c AND 0xfff))) (char_of_word (0x80 OR (c AND 0x3f))) = c"
proof (rule bit_word_eqI)
  fix n assume "n < LENGTH(32)"
  consider "n < 6" | "6 \<le> n" "n < 12" | "12 \<le> n" "n < 18" | "18 \<le> n" "n < 21" | "21 \<le> n" by linarith
  then show "bit (utf8_value 4 (char_of_word (0xf0 OR drop_bit 18 c)) (char_of_word (0x80 OR drop_bit 12 (c AND 0x3ffff)))
          (char_of_word (0x80 OR drop_bit 6 (c AND 0xfff))) (char_of_word (0x80 OR (c AND 0x3f)))) n = bit c n"
    using less_bits [of c 21 n] assms
    unfolding utf8_value_def utf8_shiftc_def utf8_masks_def mask_words
    by cases (auto simp add: utf8_bits simp del: bit_numeral_word_iff)
qed

lemma value1: "c < 0x80 \<Longrightarrow> utf8_value 1 (char_of_word c) b d e = c"
proof (rule bit_word_eqI)
  fix n assume "c < 0x80" "n < LENGTH(32)"
  consider "n < 7" | "7 \<le> n" by linarith
  then show "bit (utf8_value 1 (char_of_word c) b d e) n = bit c n"
    using less_bits [of c 7 n] \<open>c < 0x80\<close>
    unfolding utf8_value_def utf8_shiftc_def utf8_masks_def mask_words
    by cases (auto simp add: utf8_bits simp del: bit_numeral_word_iff)
qed

text \<open>The bytes behind the first one have the bits 10.\<close>

lemma cont_bits: "byte_of (char_of_word (0x80 OR (c AND 0x3f))) AND 0xc0 = 0x80"
  "byte_of (char_of_word (0x80 OR drop_bit 6 (c AND 0xfff))) AND 0xc0 = 0x80"
  "byte_of (char_of_word (0x80 OR drop_bit 12 (c AND 0x3ffff))) AND 0xc0 = 0x80"
  "drop_bit 6 (byte_of (char_of_word (0x80 OR (c AND 0x3f)))) = 2"
proof -
  have bits: "byte_of (char_of_word (0x80 OR w)) AND 0xc0 = 0x80" if "\<And>n. bit w n \<Longrightarrow> n < 6" for w
  proof (rule bit_word_eqI)
    fix n assume "n < LENGTH(32)"
    show "bit (byte_of (char_of_word (0x80 OR w)) AND 0xc0) n = bit (0x80 :: 32 word) n"
      using that [of n] by (auto simp add: utf8_bits simp del: bit_numeral_word_iff)
  qed
  show "byte_of (char_of_word (0x80 OR (c AND 0x3f))) AND 0xc0 = 0x80"
    by (rule bits) (simp add: mask_words utf8_bits)
  show "byte_of (char_of_word (0x80 OR drop_bit 6 (c AND 0xfff))) AND 0xc0 = 0x80"
    by (rule bits) (simp add: mask_words utf8_bits)
  show "byte_of (char_of_word (0x80 OR drop_bit 12 (c AND 0x3ffff))) AND 0xc0 = 0x80"
    by (rule bits) (simp add: mask_words utf8_bits)
  show "drop_bit 6 (byte_of (char_of_word (0x80 OR (c AND 0x3f)))) = 2"
  proof (rule bit_word_eqI)
    fix n assume "n < LENGTH(32)"
    have "bit (2 :: 32 word) n \<longleftrightarrow> n = 1" by (auto simp: bit_2_iff)
    then show "bit (drop_bit 6 (byte_of (char_of_word (0x80 OR (c AND 0x3f))))) n = bit (2 :: 32 word) n"
      by (auto simp add: mask_words utf8_bits simp del: bit_numeral_word_iff)
  qed
qed

definition good_value :: "nat \<Rightarrow> 32 word \<Rightarrow> bool" where
  "good_value len v \<longleftrightarrow> \<not> v < utf8_mins ! len \<and> drop_bit 11 v \<noteq> 0x1b \<and> \<not> v > 0x10FFFF"

lemma bit_2a: "bit (0x2a :: 32 word) n \<longleftrightarrow> n = 1 \<or> n = 3 \<or> n = 5"
proof -
  have "(0x2a :: 32 word) = push_bit 1 1 OR push_bit 3 1 OR push_bit 5 1" by simp
  then show ?thesis by (simp only: bit_simps) auto
qed

lemma bit_shifted: "bit (48 :: 32 word) n \<longleftrightarrow> n = 4 \<or> n = 5" "bit (12 :: 32 word) n \<longleftrightarrow> n = 2 \<or> n = 3"
  "bit (3 :: 32 word) n \<longleftrightarrow> n = 0 \<or> n = 1" "bit (10 :: 32 word) n \<longleftrightarrow> n = 1 \<or> n = 3"
proof -
  have "(48 :: 32 word) = push_bit 4 1 OR push_bit 5 1" "(12 :: 32 word) = push_bit 2 1 OR push_bit 3 1"
    "(3 :: 32 word) = push_bit 0 1 OR push_bit 1 1" "(10 :: 32 word) = push_bit 1 1 OR push_bit 3 1" by simp_all
  then show "bit (48 :: 32 word) n \<longleftrightarrow> n = 4 \<or> n = 5" "bit (12 :: 32 word) n \<longleftrightarrow> n = 2 \<or> n = 3"
    "bit (3 :: 32 word) n \<longleftrightarrow> n = 0 \<or> n = 1" "bit (10 :: 32 word) n \<longleftrightarrow> n = 1 \<or> n = 3"
    by (simp_all only: bit_simps) auto
qed

lemmas error_bits = utf8_error_def flag_bit_def good_value_def utf8_shifte_def bit_simps bit_2a bit_byte_of bit_ones
  bit_shifted

lemma and_c0_bits:
  assumes "x AND 0xc0 = (0x80 :: 32 word)"
  shows "bit x 7" and "\<not> bit x 6"
proof -
  have "bit (x AND 0xc0) n = bit (0x80 :: 32 word) n" for n by (simp only: assms)
  from this [of 7] this [of 6] show "bit x 7" and "\<not> bit x 6"
    by (simp_all add: bit_and_iff bit_ones del: bit_numeral_word_iff)
qed

lemma error1: "good_value 1 v \<Longrightarrow> utf8_error 1 v b c d = 0"
proof (rule bit_word_eqI)
  fix n assume "good_value 1 v"
  then show "bit (utf8_error 1 v b c d) n = bit 0 n"
    by (auto simp add: error_bits simp del: bit_numeral_word_iff)
qed

lemma error2: "good_value 2 v \<Longrightarrow> byte_of b AND 0xc0 = 0x80 \<Longrightarrow> utf8_error 2 v b c d = 0"
proof (rule bit_word_eqI)
  fix n :: nat assume v: "good_value 2 v" and b: "byte_of b AND 0xc0 = 0x80"
  consider "n = 0" | "n = 1" | "2 \<le> n" by linarith
  then show "bit (utf8_error 2 v b c d) n = bit 0 n"
    using v and_c0_bits [OF b]
    by cases (auto simp add: error_bits simp del: bit_numeral_word_iff)
qed

lemma error3:
  "good_value 3 v \<Longrightarrow> byte_of b AND 0xc0 = 0x80 \<Longrightarrow> byte_of c AND 0xc0 = 0x80 \<Longrightarrow> utf8_error 3 v b c d = 0"
proof (rule bit_word_eqI)
  fix n :: nat assume v: "good_value 3 v" and b: "byte_of b AND 0xc0 = 0x80" and c: "byte_of c AND 0xc0 = 0x80"
  consider "n = 0" | "n = 1" | "n = 2" | "n = 3" | "4 \<le> n" by linarith
  then show "bit (utf8_error 3 v b c d) n = bit 0 n"
    using v and_c0_bits [OF b] and_c0_bits [OF c]
    by cases (auto simp add: error_bits simp del: bit_numeral_word_iff)
qed

lemma error4:
  assumes "good_value 4 v" "byte_of b AND 0xc0 = 0x80" "byte_of c AND 0xc0 = 0x80" "drop_bit 6 (byte_of d) = 2"
  shows "utf8_error 4 v b c d = 0"
proof (rule bit_word_eqI)
  fix n :: nat
  have d: "bit (byte_of d) (6 + k) = (k = 1)" for k
    using arg_cong [OF assms(4), of "\<lambda>w. bit w k"] by (auto simp: bit_simps bit_2_iff)
  from d [of 0] d [of 1] have d': "\<not> bit (byte_of d) 6" "bit (byte_of d) 7" by simp_all
  consider "n = 0" | "n = 1" | "n = 2" | "n = 3" | "n = 4" | "n = 5" | "6 \<le> n" by linarith
  then show "bit (utf8_error 4 v b c d) n = bit 0 n"
    using assms(1) and_c0_bits [OF assms(2)] and_c0_bits [OF assms(3)] d'
    by cases (auto simp add: error_bits simp del: bit_numeral_word_iff)
qed

section \<open>Decoding what was encoded\<close>

lemma unat_byte_of: "unat (byte_of c) = of_char c"
  using nat_of_char_less_256 [of c]
  by (simp add: byte_of_def unsigned_of_nat take_bit_nat_eq_self_iff del: nat_of_char_less_256)

lemma unat_drop_byte: "unat (drop_bit n (byte_of c)) = of_char c div 2 ^ n"
proof -
  have "(of_char c :: nat) < 2 ^ 32" by (rule order_less_trans [OF nat_of_char_less_256]) simp
  then have "take_bit 32 (of_char c :: nat) = of_char c" by (rule take_bit_nat_eq_self)
  then show ?thesis unfolding unsigned_drop_bit_eq unat_byte_of by (simp add: drop_bit_eq_div)
qed

lemma length_of_first:
  "drop_bit 7 (byte_of a) = 0 \<Longrightarrow> utf8_length a = 1"
  "drop_bit 5 (byte_of a) = 6 \<Longrightarrow> utf8_length a = 2"
  "drop_bit 4 (byte_of a) = 14 \<Longrightarrow> utf8_length a = 3"
  "drop_bit 3 (byte_of a) = 30 \<Longrightarrow> utf8_length a = 4"
proof -
  define k where "k = of_char a div (8 :: nat)"
  have l: "utf8_length a = utf8_lengths ! k" by (simp add: utf8_length_def k_def drop_bit_eq_div)
  have sh: "unat (drop_bit (m + 3) (byte_of a)) = k div 2 ^ m" for m
    unfolding k_def unat_drop_byte by (simp add: power_add div_mult2_eq [of "of_char a" 8, symmetric] mult.commute)
  have t1: "list_all (\<lambda>k. utf8_lengths ! k = 1) [0..<16]" and t2: "list_all (\<lambda>k. utf8_lengths ! k = 2) [24..<28]"
    and t3: "list_all (\<lambda>k. utf8_lengths ! k = 3) [28..<30]" and t4: "utf8_lengths ! 30 = 4"
    by code_simp+
  show "drop_bit 7 (byte_of a) = 0 \<Longrightarrow> utf8_length a = 1"
    using sh [of 4] t1 by (simp add: l list_all_iff)
  show "drop_bit 5 (byte_of a) = 6 \<Longrightarrow> utf8_length a = 2"
  proof -
    assume "drop_bit 5 (byte_of a) = 6"
    then have "k div 4 = 6" using sh [of 2] by simp
    then have "24 \<le> k \<and> k < 28" by presburger
    then have "k \<in> set [24..<28]" unfolding set_upt by simp
    then show "utf8_length a = 2" using t2 unfolding l list_all_iff by blast
  qed
  show "drop_bit 4 (byte_of a) = 14 \<Longrightarrow> utf8_length a = 3"
  proof -
    assume "drop_bit 4 (byte_of a) = 14"
    then have "k div 2 = 14" using sh [of 1] by simp
    then have "28 \<le> k \<and> k < 30" by presburger
    then have "k \<in> set [28..<30]" unfolding set_upt by simp
    then show "utf8_length a = 3" using t3 unfolding l list_all_iff by blast
  qed
  show "drop_bit 3 (byte_of a) = 30 \<Longrightarrow> utf8_length a = 4"
    using sh [of 0] t4 by (simp add: l)
qed

lemma drop_first:
  "c < 0x80 \<Longrightarrow> drop_bit 7 (byte_of (char_of_word c)) = 0"
  "c < 0x800 \<Longrightarrow> drop_bit 5 (byte_of (char_of_word (0xc0 OR drop_bit 6 c))) = 6"
  "c < 0x10000 \<Longrightarrow> drop_bit 4 (byte_of (char_of_word (0xe0 OR drop_bit 12 c))) = 14"
  "c < 0x200000 \<Longrightarrow> drop_bit 3 (byte_of (char_of_word (0xf0 OR drop_bit 18 c))) = 30"
proof -
  have b: "(6 :: 32 word) = push_bit 1 1 OR push_bit 2 1" "(14 :: 32 word) = push_bit 1 1 OR push_bit 2 1 OR push_bit 3 1"
    "(30 :: 32 word) = push_bit 1 1 OR push_bit 2 1 OR push_bit 3 1 OR push_bit 4 1" by simp_all
  have bs: "bit (6 :: 32 word) n \<longleftrightarrow> n = 1 \<or> n = 2" "bit (14 :: 32 word) n \<longleftrightarrow> n = 1 \<or> n = 2 \<or> n = 3"
    "bit (30 :: 32 word) n \<longleftrightarrow> n = 1 \<or> n = 2 \<or> n = 3 \<or> n = 4" for n
    by (simp_all only: b bit_simps) auto
  show "drop_bit 7 (byte_of (char_of_word c)) = 0" if c: "c < 0x80"
  proof (rule bit_word_eqI)
    fix n :: nat
    show "bit (drop_bit 7 (byte_of (char_of_word c))) n = bit 0 n"
      using less_bits [of c 7 "7 + n"] c by (auto simp: utf8_bits simp del: bit_numeral_word_iff)
  qed
  show "drop_bit 5 (byte_of (char_of_word (0xc0 OR drop_bit 6 c))) = 6" if c: "c < 0x800"
  proof (rule bit_word_eqI)
    fix n :: nat
    show "bit (drop_bit 5 (byte_of (char_of_word (0xc0 OR drop_bit 6 c)))) n = bit (6 :: 32 word) n"
      using less_bits [of c 11 "6 + (5 + n)"] c by (auto simp: utf8_bits bs simp del: bit_numeral_word_iff)
  qed
  show "drop_bit 4 (byte_of (char_of_word (0xe0 OR drop_bit 12 c))) = 14" if c: "c < 0x10000"
  proof (rule bit_word_eqI)
    fix n :: nat
    show "bit (drop_bit 4 (byte_of (char_of_word (0xe0 OR drop_bit 12 c)))) n = bit (14 :: 32 word) n"
      using less_bits [of c 16 "12 + (4 + n)"] c by (auto simp: utf8_bits bs simp del: bit_numeral_word_iff)
  qed
  show "drop_bit 3 (byte_of (char_of_word (0xf0 OR drop_bit 18 c))) = 30" if c: "c < 0x200000"
  proof (rule bit_word_eqI)
    fix n :: nat
    show "bit (drop_bit 3 (byte_of (char_of_word (0xf0 OR drop_bit 18 c)))) n = bit (30 :: 32 word) n"
      using less_bits [of c 21 "18 + (3 + n)"] c by (auto simp: utf8_bits bs simp del: bit_numeral_word_iff)
  qed
qed

text \<open>The code point that a string of four characters begins with.\<close>

lemma utf8_decode_at:
  assumes "take 4 (drop p s) = [a, b, c, d]" and "utf8_length a = len" and "0 < len"
    and "utf8_value len a b c d = v" and "utf8_error len v b c d = 0"
  shows "utf8_decode s p = Inr (v, 0, len)"
proof -
  have "4 \<le> length (drop p s)" using arg_cong [OF assms(1), of length] by (simp add: min_def split: if_splits)
  then have "mem_read s (int p) 4 = Inr [a, b, c, d]" using assms(1) by (simp add: mem_read_def)
  then show ?thesis using assms(2-5) by (simp add: utf8_decode_def Let_def numeral_2_eq_2 numeral_3_eq_3)
qed

lemma surrogate_shift: "drop_bit 11 c = (0x1b :: 32 word) \<longleftrightarrow> 0xd800 \<le> c \<and> c \<le> 0xdfff"
proof -
  have "drop_bit 11 c = (0x1b :: 32 word) \<longleftrightarrow> unat (drop_bit 11 c) = 27" by (simp add: word_unat_eq_iff)
  also have "unat (drop_bit 11 c) = unat c div 2 ^ 11"
  proof -
    have "unat c < 2 ^ 32" using unsigned_less [of c] by simp
    then show ?thesis unfolding unsigned_drop_bit_eq by (simp add: drop_bit_eq_div take_bit_nat_eq_self)
  qed
  also have "unat c div 2 ^ 11 = 27 \<longleftrightarrow> 0xd800 \<le> unat c \<and> unat c \<le> 0xdfff" by simp linarith
  finally show ?thesis by (simp add: word_le_nat_alt)
qed

lemma take_4: "4 \<le> length s \<Longrightarrow> take (length e) s = e \<Longrightarrow> length e \<le> 4 \<Longrightarrow>
  \<exists>t. take 4 s = e @ t \<and> length t = 4 - length e"
  by (intro exI [of _ "drop (length e) (take 4 s)"]) (simp, metis append_take_drop_id min.absorb1 take_take)

lemma encode_length: "encode_utf32 c = Some e \<Longrightarrow> 0 < length e \<and> length e \<le> 4"
  by (auto simp: encode_utf32_def split: if_splits)

text \<open>
  Whatever follows the bytes of a code point, the decoder gives it back, with no error and the
  number of its bytes, as long as four characters can be read.
\<close>

lemma decode_encoded:
  assumes e: "encode_utf32 c = Some e" and p: "p + 4 \<le> length s" and s: "take (length e) (drop p s) = e"
  shows "utf8_decode s p = Inr (c, 0, length e)"
proof -
  have "4 \<le> length (drop p s)" using p by simp
  then obtain t where t: "take 4 (drop p s) = e @ t" "length t = 4 - length e"
    using take_4 [OF _ s] encode_length [OF e] by blast
  consider (one) "c < 0x80" "e = [char_of_word c]"
    | (two) "0x80 \<le> c" "c < 0x800" "e = [char_of_word (0xc0 OR drop_bit 6 c), char_of_word (0x80 OR (c AND 0x3f))]"
    | (three) "0x800 \<le> c" "c < 0x10000" "\<not> (0xd800 \<le> c \<and> c \<le> 0xdfff)"
        "e = [char_of_word (0xe0 OR drop_bit 12 c), char_of_word (0x80 OR drop_bit 6 (c AND 0xfff)),
              char_of_word (0x80 OR (c AND 0x3f))]"
    | (four) "0x10000 \<le> c" "c \<le> 0x10ffff"
        "e = [char_of_word (0xf0 OR drop_bit 18 c), char_of_word (0x80 OR drop_bit 12 (c AND 0x3ffff)),
              char_of_word (0x80 OR drop_bit 6 (c AND 0xfff)), char_of_word (0x80 OR (c AND 0x3f))]"
    using e unfolding encode_utf32_def
    by (fastforce simp: word_less_nat_alt word_le_nat_alt split: if_splits)
  then show ?thesis
  proof cases
    case one
    obtain x y z where "t = [x, y, z]" using t(2) one(2) by (auto simp: length_Suc_conv numeral_3_eq_3)
    moreover have "good_value 1 c" using one(1)
      by (auto simp: good_value_def utf8_mins_def surrogate_shift word_less_nat_alt word_le_nat_alt)
    ultimately have "utf8_decode s p = Inr (c, 0, 1)" using one t drop_first(1) [OF one(1)]
      by (intro utf8_decode_at) (auto simp: length_of_first value1 [simplified] error1 [simplified])
    then show ?thesis using one by simp
  next
    case two
    obtain x y where "t = [x, y]" using t(2) two(3) by (auto simp: length_Suc_conv numeral_2_eq_2)
    moreover have "good_value 2 c" using two(1,2)
      by (auto simp: good_value_def utf8_mins_def surrogate_shift word_less_nat_alt word_le_nat_alt)
    ultimately have "utf8_decode s p = Inr (c, 0, 2)" using two t drop_first(2) [OF two(2)]
      by (intro utf8_decode_at) (auto simp: length_of_first value2 error2 cont_bits)
    then show ?thesis using two by simp
  next
    case three
    obtain x where "t = [x]" using t(2) three(4) by (auto simp: length_Suc_conv)
    moreover have "good_value 3 c" using three(1-3)
      by (auto simp: good_value_def utf8_mins_def surrogate_shift word_less_nat_alt word_le_nat_alt)
    moreover define a b d where abd: "a = char_of_word (0xe0 OR drop_bit 12 c)"
      "b = char_of_word (0x80 OR drop_bit 6 (c AND 0xfff))" "d = char_of_word (0x80 OR (c AND 0x3f))"
    ultimately have "utf8_error 3 c b d x = 0" and "utf8_value 3 a b d x = c" and "utf8_length a = 3"
      using drop_first(3) [OF three(2)] by (simp_all only: error3 cont_bits value3 [OF three(2)] length_of_first)
    moreover have "take 4 (drop p s) = [a, b, d, x]" "length e = 3"
      using t(1) \<open>t = [x]\<close> by (simp_all only: three(4) abd append.simps) simp
    ultimately show ?thesis by (auto intro!: utf8_decode_at)
  next
    case four
    have c: "c < 0x200000" using four(2) by (simp add: word_less_nat_alt word_le_nat_alt)
    have "good_value 4 c" using four(1,2)
      by (auto simp: good_value_def utf8_mins_def surrogate_shift word_less_nat_alt word_le_nat_alt)
    moreover define x y z w where xyz: "x = char_of_word (0xf0 OR drop_bit 18 c)"
      "y = char_of_word (0x80 OR drop_bit 12 (c AND 0x3ffff))" "z = char_of_word (0x80 OR drop_bit 6 (c AND 0xfff))"
      "w = char_of_word (0x80 OR (c AND 0x3f))"
    ultimately have "utf8_error 4 c y z w = 0" and "utf8_value 4 x y z w = c" and "utf8_length x = 4"
      using drop_first(4) [OF c] by (simp_all only: error4 cont_bits value4 [OF c] length_of_first)
    moreover have "length e = 4" by (simp add: four(3))
    moreover have "take 4 (drop p s) = [x, y, z, w]"
      using t \<open>length e = 4\<close> by (simp only: four(3) xyz) simp
    ultimately show ?thesis by (auto intro!: utf8_decode_at)
  qed
qed

section \<open>Iteration\<close>

text \<open>What an iteration over code points does with their offsets and lengths.\<close>

fun visit :: "'s code_point_fun \<Rightarrow> nat \<Rightarrow> 32 word list \<Rightarrow> 's \<Rightarrow> 's" where
  "visit f p [] s = s"
| "visit f p (c # cs) s =
     (let n = length (the (encode_utf32 c)) in
      case f c p n s of (go, s) \<Rightarrow> if go then visit f (p + n) cs s else s)"

lemma to_utf8_Cons: "to_utf8 (c # cs) = Some s \<longleftrightarrow>
  (\<exists>e t. encode_utf32 c = Some e \<and> to_utf8 cs = Some t \<and> s = e @ t)"
  by (auto split: option.splits)

lemma to_utf8_nonempty: "to_utf8 (c # cs) = Some t \<Longrightarrow> t \<noteq> []"
  unfolding to_utf8_Cons using encode_length by blast

lemma decode_step:
  assumes "encode_utf32 c = Some e" and "take (length e) (drop p s) = e" and "p + 4 \<le> length s"
  shows "decode f s p ptr st = (case f c ptr (length e) st of (go, st) \<Rightarrow> Inr (if go then Some (p + length e) else None, st))"
  using decode_encoded [OF assms(1,3,2)] by (simp add: decode_def)

lemma tail_loop_visits:
  assumes "to_utf8 (c # cs) = Some s" and "buf = pre @ s @ zs" and "n = length pre + length s" and "3 < length zs"
  shows "tail_loop f buf n (length pre) p st = Inr (visit f p (c # cs) st)"
  using assms
proof (induction cs arbitrary: c s pre p st)
  case Nil
  then have e: "encode_utf32 c = Some s" by (auto split: option.splits)
  have "decode f buf (length pre) p st = (case f c p (length s) st of (go, st) \<Rightarrow>
      Inr (if go then Some (length pre + length s) else None, st))"
    using Nil by (intro decode_step [OF e]) auto
  then show ?case using e Nil(3)
    by (subst tail_loop.simps) (auto split: prod.splits)
next
  case (Cons d ds)
  obtain e t where e: "encode_utf32 c = Some e" and t: "to_utf8 (d # ds) = Some t" and s: "s = e @ t"
    using Cons.prems(1) unfolding to_utf8_Cons [of c "d # ds"] by blast
  have ne: "t \<noteq> []" using t by (rule to_utf8_nonempty)
  have dec: "decode f buf (length pre) p st = (case f c p (length e) st of (go, st) \<Rightarrow>
      Inr (if go then Some (length pre + length e) else None, st))"
    using Cons.prems(2,4) s by (intro decode_step [OF e]) simp_all
  obtain go st' where f: "f c p (length e) st = (go, st')" by fastforce
  have IH: "tail_loop f buf n (length (pre @ e)) (p + length e) st' = Inr (visit f (p + length e) (d # ds) st')"
    using Cons.prems(2-4) s by (intro Cons.IH [OF t]) simp_all
  have "length pre + length e < n" using Cons.prems(3) s ne by simp
  then show ?case using dec f IH e
    by (subst tail_loop.simps) (simp add: Let_def)
qed

text \<open>What is left of the iteration after the first loop, from the position where it stopped.\<close>

definition after_blocks :: "'s code_point_fun \<Rightarrow> string \<Rightarrow> nat option \<times> 's \<Rightarrow> fault + 's" where
  "after_blocks f str r =
     (case r of (next, s) \<Rightarrow> (case next of
        None \<Rightarrow> Inr s
      | Some p \<Rightarrow>
          (let num_chars_left = length str - p in
          if num_chars_left = 0 then Inr s
          else
            let num_chars_left = num_chars_left AND 3;
                buf = take num_chars_left (drop p str) @ replicate (2 * 4 - 1 - num_chars_left) CHR 0x00
            in tail_loop f buf num_chars_left 0 p s)))"

lemma for_each_codepoint_blocks:
  "for_each_codepoint f str s =
     andthen (if length str \<ge> 4 then block_loop f str 0 s else Inr (Some 0, s)) (after_blocks f str)"
  by (simp add: for_each_codepoint_def after_blocks_def [abs_def])

lemma and_3: "n < 4 \<Longrightarrow> n AND 3 = (n :: nat)"
proof -
  have "(3 :: nat) = mask 2" by (simp add: mask_eq_exp_minus_1)
  then show "n < 4 \<Longrightarrow> n AND 3 = n" by (simp only: flip: take_bit_eq_mask) (simp add: take_bit_nat_eq_self)
qed

lemma after_blocks_visits:
  assumes "to_utf8 cs = Some t" and "str = pre @ t" and "length t < 4"
  shows "after_blocks f str (Some (length pre), s) = Inr (visit f (length pre) cs s)"
proof (cases cs)
  case Nil
  then show ?thesis using assms by (simp add: after_blocks_def)
next
  case (Cons c ds)
  then have "t \<noteq> []" using assms(1) to_utf8_nonempty by blast
  moreover have "tail_loop f (t @ replicate (7 - length t) CHR 0x00) (length t) 0 (length pre) s
      = Inr (visit f (length pre) cs s)"
    using tail_loop_visits [of c ds t "t @ replicate (7 - length t) CHR 0x00" "[]"
        "replicate (7 - length t) CHR 0x00" "length t" f "length pre" s] assms(1,3) Cons by simp
  ultimately show ?thesis using assms(2,3)
    by (simp add: after_blocks_def Let_def and_3)
qed

lemma block_loop_visits:
  assumes "to_utf8 cs = Some t" and "str = pre @ t" and "4 \<le> length str"
  shows "andthen (block_loop f str (length pre) s) (after_blocks f str) = Inr (visit f (length pre) cs s)"
  using assms
proof (induction cs arbitrary: t pre s)
  case Nil
  then have "\<not> length pre < length str - 4 + 1" by simp
  then show ?case using after_blocks_visits [of "[]" t str pre f s] Nil
    by (subst block_loop.simps) simp
next
  case (Cons c cs)
  obtain e u where e: "encode_utf32 c = Some e" and u: "to_utf8 cs = Some u" and t: "t = e @ u"
    using Cons.prems(1) unfolding to_utf8_Cons by blast
  show ?case
  proof (cases "length pre < length str - 4 + 1")
    case False
    then have "length t < 4" using Cons.prems(2,3) by simp
    then show ?thesis using False after_blocks_visits [OF Cons.prems(1,2), of f s]
      by (subst block_loop.simps) simp
  next
    case True
    have dec: "decode f str (length pre) (length pre) s = (case f c (length pre) (length e) s of (go, s) \<Rightarrow>
        Inr (if go then Some (length pre + length e) else None, s))"
      using Cons.prems(2,3) t True by (intro decode_step [OF e]) simp_all
    obtain go s' where f: "f c (length pre) (length e) s = (go, s')" by fastforce
    have "andthen (block_loop f str (length (pre @ e)) s') (after_blocks f str)
        = Inr (visit f (length (pre @ e)) cs s')"
      using Cons.prems(2,3) t by (intro Cons.IH [OF u]) simp_all
    then show ?thesis using True dec f e
      by (subst block_loop.simps) (simp add: Let_def after_blocks_def)
  qed
qed

lemma for_each_codepoint_visits:
  assumes "to_utf8 cs = Some s"
  shows "for_each_codepoint f s st = Inr (visit f 0 cs st)"
proof (cases "4 \<le> length s")
  case True
  then show ?thesis using block_loop_visits [OF assms, of s "[]" f st]
    by (simp add: for_each_codepoint_blocks)
next
  case False
  then show ?thesis using after_blocks_visits [OF assms, of s "[]" f st]
    by (simp add: for_each_codepoint_blocks)
qed

text \<open>
  C34. Iterating over the text that \<open>to_utf8\<close> made from code points calls the function with exactly
  these code points, in order, with the offset and the number of the bytes of each, up to the one
  where the function ends the iteration; no byte outside of the text and its padding is read.
\<close>

theorem utf8_roundtrip:
  assumes "to_utf8 cs = Some s"
  shows "for_each_codepoint f s st = Inr (visit f 0 cs st)"
  using assms by (rule for_each_codepoint_visits)

theorem utf8_roundtrip_witness:
  "for_each_codepoint (\<lambda>cp p n acc. (True, acc @ [(unat cp, p, n)]))
     (the (to_utf8 [0x61, 0x20AC, 0x1F600])) [] = Inr [(0x61, 0, 1), (0x20AC, 1, 3), (0x1F600, 4, 4)]"
proof -
  have enc: "encode_utf32 0x61 = Some ''a''"
    "encode_utf32 0x20AC = Some [CHR 0xE2, CHR 0x82, CHR 0xAC]"
    "encode_utf32 0x1F600 = Some [CHR 0xF0, CHR 0x9F, CHR 0x98, CHR 0x80]"
    by (simp_all add: encode_utf32_def char_of_word_def char_of_def bit_Suc_0_iff)
  then have "to_utf8 [0x61, 0x20AC, 0x1F600] = Some (''a'' @ [CHR 0xE2, CHR 0x82, CHR 0xAC]
      @ [CHR 0xF0, CHR 0x9F, CHR 0x98, CHR 0x80])" by simp
  from utf8_roundtrip [OF this, of "\<lambda>cp p n acc. (True, acc @ [(unat cp, p, n)])" "[]"]
  show ?thesis using enc by simp
qed

section \<open>Any text\<close>

text \<open>
  Whatever the bytes are, a call of the decoder reports at least one and only bytes of the text:
  the zeros behind it (from position \<open>k\<close>) are no continuation of a code point.
\<close>

lemma utf8_decode_total:
  assumes "p + 4 \<le> length buf" and "p < k" and "\<And>i. k \<le> i \<Longrightarrow> i < length buf \<Longrightarrow> buf ! i = CHR 0x00" and "k \<le> length buf"
  obtains v e n where "utf8_decode buf p = Inr (v, e, n)" and "0 < n" and "e = 0 \<Longrightarrow> p + n \<le> k"
proof -
  define q where "q = take 4 (drop p buf)"
  have q: "mem_read buf (int p) 4 = Inr q" using assms(1) by (simp add: mem_read_def q_def)
  have nth: "q ! i = buf ! (p + i)" if "i < 4" for i using assms(1) that by (simp add: q_def)
  define len where "len = utf8_length (q ! 0)"
  define v where "v = utf8_value len (q ! 0) (q ! 1) (q ! 2) (q ! 3)"
  define e where "e = utf8_error len v (q ! 1) (q ! 2) (q ! 3)"
  have dec: "utf8_decode buf p = Inr (v, e, len + (if len = 0 then 1 else 0))"
    by (simp add: utf8_decode_def q Let_def len_def v_def e_def)
  have "len \<le> 4" by (simp add: len_def utf8_length_le)
  have "p + (len + (if len = 0 then 1 else 0)) \<le> k" if "e = 0"
  proof (rule ccontr)
    assume far: "\<not> p + (len + (if len = 0 then 1 else 0)) \<le> k"
    then have "1 < len" using assms(2) by (cases "len = 0 \<or> len = 1") auto
    with \<open>len \<le> 4\<close> have len: "len = 2 \<or> len = 3 \<or> len = 4" by linarith
    have "q ! (len - 1) = buf ! (p + (len - 1))" using \<open>len \<le> 4\<close> \<open>1 < len\<close> by (intro nth) linarith
    also have "\<dots> = CHR 0x00" using far \<open>1 < len\<close> \<open>len \<le> 4\<close> assms(1) by (intro assms(3)) auto
    finally have "bit e 1" using len utf8_error_pad unfolding e_def by auto
    then show False using that by simp
  qed
  then show thesis using that [OF dec] by auto
qed

lemma decode_total:
  assumes "p + 4 \<le> length buf" and "p < k" and "\<And>i. k \<le> i \<Longrightarrow> i < length buf \<Longrightarrow> buf ! i = CHR 0x00" and "k \<le> length buf"
  obtains cp n where "0 < n" and "p + n \<le> k"
    and "decode f buf p ptr s = (case f cp ptr n s of (go, s) \<Rightarrow> Inr (if go then Some (p + n) else None, s))"
proof -
  obtain v e n where d: "utf8_decode buf p = Inr (v, e, n)" "0 < n" "e = 0 \<Longrightarrow> p + n \<le> k"
    using utf8_decode_total [OF assms] by blast
  show thesis
  proof (cases "e = 0")
    case True
    then show thesis using d by (intro that [of n v]) (simp_all add: decode_def)
  next
    case False
    then show thesis using d assms(2) by (intro that [of 1 invalid_code_point]) (simp_all add: decode_def)
  qed
qed

lemma tail_loop_invariant:
  fixes f :: "'s code_point_fun"
  assumes step: "\<And>cp p n s. I s \<Longrightarrow> 0 < n \<Longrightarrow> p + n \<le> length str \<Longrightarrow> I (snd (f cp p n s))"
    and "k - bp = m" and "bp < k" and "k + 4 \<le> length buf" and "p + (k - bp) = length str" and "I s"
    and "\<And>i. k \<le> i \<Longrightarrow> i < length buf \<Longrightarrow> buf ! i = CHR 0x00"
  shows "\<exists>s'. tail_loop f buf k bp p s = Inr s' \<and> I s'"
  using assms(2-)
proof (induction m arbitrary: bp p s rule: less_induct)
  case (less m)
  obtain cp n where n: "0 < n" "bp + n \<le> k"
    and d: "decode f buf bp p s = (case f cp p n s of (go, s) \<Rightarrow> Inr (if go then Some (bp + n) else None, s))"
    by (rule decode_total [of bp buf k f p s]) (use less.prems in auto)
  obtain go s' where f: "f cp p n s = (go, s')" by fastforce
  have "p + n \<le> length str" using less.prems(4) n(2) by linarith
  then have I: "I s'" using step [OF less.prems(5) n(1), of p cp] f by simp
  have "\<exists>s''. tail_loop f buf k (bp + n) (p + n) s' = Inr s'' \<and> I s''" if "bp + n < k"
    using less.prems I n that by (intro less.IH [of "k - (bp + n)"]) auto
  then show ?case using d f I
    by (subst tail_loop.simps) auto
qed

lemma block_loop_invariant:
  fixes f :: "'s code_point_fun"
  assumes step: "\<And>cp p n s. I s \<Longrightarrow> 0 < n \<Longrightarrow> p + n \<le> length str \<Longrightarrow> I (snd (f cp p n s))"
    and "length str - p = m" and "p \<le> length str" and "4 \<le> length str" and "I s"
  shows "\<exists>r s'. block_loop f str p s = Inr (r, s') \<and> I s' \<and> (\<forall>p'. r = Some p' \<longrightarrow> p' \<le> length str \<and> length str < p' + 4)"
  using assms(2-)
proof (induction m arbitrary: p s rule: less_induct)
  case (less m)
  show ?case
  proof (cases "p < length str - 4 + 1")
    case False
    then show ?thesis using less.prems by (subst block_loop.simps) auto
  next
    case True
    then have "p + 4 \<le> length str" using less.prems(3) by linarith
    then obtain cp n where n: "0 < n" "p + n \<le> length str"
      and d: "decode f str p p s = (case f cp p n s of (go, s) \<Rightarrow> Inr (if go then Some (p + n) else None, s))"
      by (rule decode_total [of p str "length str" f p s]) (use \<open>p + 4 \<le> length str\<close> in auto)
    obtain go s' where f: "f cp p n s = (go, s')" by fastforce
    have I: "I s'" using step [OF less.prems(4) n, of cp] f by simp
    have "\<exists>r s''. block_loop f str (p + n) s' = Inr (r, s'') \<and> I s''
        \<and> (\<forall>p'. r = Some p' \<longrightarrow> p' \<le> length str \<and> length str < p' + 4)"
      using less.prems I n by (intro less.IH [of "length str - (p + n)"]) auto
    then show ?thesis using d f I True
      by (subst block_loop.simps) auto
  qed
qed

lemma after_blocks_invariant:
  fixes f :: "'s code_point_fun"
  assumes step: "\<And>cp p n s. I s \<Longrightarrow> 0 < n \<Longrightarrow> p + n \<le> length str \<Longrightarrow> I (snd (f cp p n s))"
    and "I s" and "\<And>p. r = Some p \<Longrightarrow> p \<le> length str \<and> length str < p + 4"
  shows "\<exists>s'. after_blocks f str (r, s) = Inr s' \<and> I s'"
proof (cases r)
  case None
  then show ?thesis using assms(2) by (simp add: after_blocks_def)
next
  case (Some p)
  define k where "k = length str - p"
  have k: "k < 4" "k AND 3 = k" "p + k = length str" using assms(3) [OF Some] by (auto simp: k_def and_3)
  define buf where "buf = take k (drop p str) @ replicate (7 - k) CHR 0x00"
  have len: "length (take k (drop p str)) = k" "length buf = 7" using k by (simp_all add: buf_def)
  have "\<exists>s'. tail_loop f buf k 0 p s = Inr s' \<and> I s'" if "k \<noteq> 0"
  proof (rule tail_loop_invariant [where I = I and str = str and m = k])
    show "buf ! i = CHR 0x00" if "k \<le> i" "i < length buf" for i
      using that len by (simp add: buf_def nth_append)
  qed (use k that len assms in auto)
  then show ?thesis using assms(2) k unfolding Some after_blocks_def k_def [symmetric] buf_def
    by (cases "k = 0") (simp_all flip: k_def)
qed

text \<open>
  An iteration over any bytes ends without a fault, gives the function only non-empty pieces of
  the text, and keeps what every call of the function keeps.
\<close>

theorem for_each_codepoint_safe:
  fixes f :: "'s code_point_fun"
  assumes "\<And>cp p n s. I s \<Longrightarrow> 0 < n \<Longrightarrow> p + n \<le> length str \<Longrightarrow> I (snd (f cp p n s))" and "I s"
  shows "\<exists>s'. for_each_codepoint f str s = Inr s' \<and> I s'"
proof (cases "4 \<le> length str")
  case True
  obtain r s' where b: "block_loop f str 0 s = Inr (r, s')" "I s'"
    and r: "\<And>p'. r = Some p' \<Longrightarrow> p' \<le> length str \<and> length str < p' + 4"
    using block_loop_invariant [of I str f 0 "length str" s] assms True by auto
  show ?thesis using after_blocks_invariant [of I str f s' r] assms(1) b r True
    by (simp add: for_each_codepoint_blocks)
next
  case False
  then show ?thesis using after_blocks_invariant [of I str f s "Some 0"] assms
    by (simp add: for_each_codepoint_blocks)
qed

section \<open>Width and index\<close>

lemma compute_width_total: "\<exists>n. compute_width s = Inr n"
  using for_each_codepoint_safe [of "\<lambda>_. True" s count_code_points 0] by (simp add: compute_width_def)

lemma code_point_index_le: "\<exists>i. code_point_index s n = Inr i \<and> i \<le> length s"
proof -
  have "\<exists>r. for_each_codepoint index_step s (n, length s) = Inr r \<and> snd r \<le> length s"
    by (rule for_each_codepoint_safe) (auto simp: index_step_def split: if_splits prod.splits)
  then show ?thesis by (auto simp: code_point_index_def)
qed

text \<open>ASCII text is its own encoding.\<close>

definition ascii :: "string \<Rightarrow> bool" where
  "ascii s \<longleftrightarrow> (\<forall>c \<in> set s. (of_char c :: nat) < 128)"

lemma encode_ascii:
  assumes "(of_char c :: nat) < 128"
  shows "encode_utf32 (byte_of c) = Some [c]"
proof -
  have "byte_of c < 0x80" using assms by (simp add: word_less_nat_alt unat_byte_of)
  then show ?thesis by (simp add: encode_utf32_def char_of_word_def unat_byte_of)
qed

lemma to_utf8_ascii: "ascii s \<Longrightarrow> to_utf8 (map byte_of s) = Some s"
  by (induction s) (auto simp: ascii_def encode_ascii)

lemma visit_ascii_width:
  "ascii s \<Longrightarrow> visit count_code_points p (map byte_of s) n = n + length s"
proof (induction s arbitrary: p n)
  case (Cons c s)
  then have "\<not> is_wide (byte_of c)"
    by (auto simp: ascii_def is_wide_def word_le_nat_alt unat_byte_of)
  with Cons show ?case by (simp add: Let_def count_code_points_def ascii_def)
qed simp

lemma ascii_width: "ascii s \<Longrightarrow> compute_width s = Inr (length s)"
  using for_each_codepoint_visits [OF to_utf8_ascii, of s count_code_points 0]
  by (simp add: compute_width_def visit_ascii_width)

end
