(* ===== verification/Fmt_Write_Props.thy ===== *)
theory Fmt_Write_Props
  imports Fmt_Write Fmt_Utf8_Props
begin

text \<open>
  The writers of the bundled fmt: no array is overrun and no assertion fails, for any argument and
  all specifiers that the parser lets through; the digits are those of the number in its base, and
  the padding fills the text to the width.
\<close>

section \<open>Results without a fault\<close>

text \<open>A result is a value or a \<open>format_error\<close>.\<close>

definition no_fault :: "fmt_error + 'a \<Rightarrow> bool" where
  "no_fault r \<longleftrightarrow> (\<forall>e. r \<noteq> Inl (Fmt_fault e))"

lemma no_fault_simps [simp]:
  "no_fault (Inr x)" "no_fault (report_error m)" "no_fault (Inl (Format_error m))" "\<not> no_fault (Inl (Fmt_fault e))"
  by (simp_all add: no_fault_def report_error_def)

lemma no_fault_andthen: "no_fault m \<Longrightarrow> (\<And>x. m = Inr x \<Longrightarrow> no_fault (f x)) \<Longrightarrow> no_fault (andthen m f)"
  by (cases m) (auto simp: no_fault_def)

lemma no_fault_of: "\<exists>x. r = Inr x \<Longrightarrow> no_fault (fmt_of r)"
  by auto

section \<open>Digits\<close>

text \<open>The digits of a number in the base \<open>2 ^ bits\<close>.\<close>

function base_text :: "nat \<Rightarrow> bool \<Rightarrow> nat \<Rightarrow> string" where
  "base_text bits upper n =
     (if bits = 0 \<or> n div 2 ^ bits = 0 then [] else base_text bits upper (n div 2 ^ bits))
       @ [base2e_char bits upper (n mod 2 ^ bits)]"
  by pat_completeness auto

termination
  by (relation "measure (\<lambda>(bits, upper, n). n)") (auto intro: shifted_less)

declare base_text.simps [simp del]

lemma base_text_nonempty [simp]: "base_text bits upper n \<noteq> []"
  by (subst base_text.simps) simp

lemma base2e_loop_writes:
  assumes "length (base_text bits upper n) \<le> room" and "room \<le> length buf"
  shows "base2e_loop bits upper buf (int room) n =
    Inr (take (room - length (base_text bits upper n)) buf @ base_text bits upper n @ drop room buf,
         int (room - length (base_text bits upper n)))"
  using assms
proof (induction n arbitrary: buf room rule: less_induct)
  case (less n)
  let ?c = "base2e_char bits upper (n mod 2 ^ bits)"
  obtain m where room: "room = Suc m" using less.prems(1) by (cases room) auto
  have w: "mem_write buf (int room - 1) [?c] = Inr (take m buf @ [?c] @ drop room buf)"
    using less.prems(2) room by (simp add: mem_write_def)
  show ?case
  proof (cases "bits = 0 \<or> n div 2 ^ bits = 0")
    case True
    then have t: "base_text bits upper n = [?c]" by (subst base_text.simps) auto
    show ?thesis unfolding t using True w room by (subst base2e_loop.simps) auto
  next
    case False
    then have t: "base_text bits upper n = base_text bits upper (n div 2 ^ bits) @ [?c]"
      by (subst base_text.simps) auto
    have small: "n div 2 ^ bits < n" using False shifted_less by auto
    have len: "length (base_text bits upper (n div 2 ^ bits)) \<le> m" using less.prems(1) room by (simp add: t)
    have "base2e_loop bits upper (take m buf @ [?c] @ drop room buf) (int m) (n div 2 ^ bits) =
        Inr (take (m - length (base_text bits upper (n div 2 ^ bits))) (take m buf @ [?c] @ drop room buf)
          @ base_text bits upper (n div 2 ^ bits) @ drop m (take m buf @ [?c] @ drop room buf),
          int (m - length (base_text bits upper (n div 2 ^ bits))))"
      using less.prems(2) room len by (intro less.IH [OF small]) simp_all
    then show ?thesis using False w room less.prems(2)
      by (subst base2e_loop.simps) (simp add: t)
  qed
qed

lemma length_base_text: "0 < bits \<Longrightarrow> n < 2 ^ (bits * k) \<Longrightarrow> 0 < k \<Longrightarrow> length (base_text bits upper n) \<le> k"
proof (induction k arbitrary: n)
  case (Suc k)
  show ?case
  proof (cases "n div 2 ^ bits = 0")
    case True
    then show ?thesis by (subst base_text.simps) simp
  next
    case False
    then have "0 < k" using Suc.prems(2) by (cases k) auto
    moreover have "n div 2 ^ bits < 2 ^ (bits * k)"
      using Suc.prems(2) by (simp add: less_mult_imp_div_less power_add mult.commute)
    ultimately show ?thesis using Suc False by (subst base_text.simps) simp
  qed
qed simp

lemma do_format_base2e_writes:
  assumes "length (base_text bits upper n) \<le> room" and "room \<le> length buf"
  shows "do_format_base2e bits buf n room upper =
    Inr (take (room - length (base_text bits upper n)) buf @ base_text bits upper n @ drop room buf,
         int (room - length (base_text bits upper n)))"
  unfolding do_format_base2e_def using assms by (rule base2e_loop_writes)

lemma count_base2_loop_text:
  "0 < bits \<Longrightarrow> count_base2_loop bits k n = k + length (base_text bits upper n)"
proof (induction n arbitrary: k rule: less_induct)
  case (less n)
  show ?case
  proof (cases "n div 2 ^ bits = 0")
    case True
    then show ?thesis by (subst count_base2_loop.simps, subst base_text.simps) simp
  next
    case False
    then have "n div 2 ^ bits < n" using shifted_less less.prems by auto
    then show ?thesis using False less
      by (subst count_base2_loop.simps, subst base_text.simps) simp
  qed
qed

lemma hex_base_text: "base_text 4 False n = hex n"
proof (induction n rule: less_induct)
  case (less n)
  have c: "base2e_char 4 False d = digit_char d" if "d < 16" for d
  proof -
    have "list_all (\<lambda>d. base2e_char 4 False d = digit_char d) [0..<16]" by code_simp
    then show ?thesis using that by (simp add: list_all_iff)
  qed
  show ?case using less [of "n div 16"]
    by (subst base_text.simps, subst hex.simps) (auto simp: c)
qed

section \<open>Padding\<close>

text \<open>The text \<open>t\<close> of display width \<open>n\<close>, filled to the width of the specifiers.\<close>

definition padded :: "align \<Rightarrow> format_specs \<Rightarrow> nat \<Rightarrow> string \<Rightarrow> string" where
  "padded default_align specs n t =
     (let k = nat (fs_width specs) - n;
          a = (if specs_align specs = Align_none then default_align else specs_align specs) in
      case a of
        Align_left \<Rightarrow> t @ fill k specs
      | Align_center \<Rightarrow> fill (k div 2) specs @ t @ fill (k - k div 2) specs
      | _ \<Rightarrow> fill k specs @ t)"

lemma fill_0 [simp]: "fill 0 specs = []"
  by (simp add: fill_def)

lemma shift_of_align:
  "d = Align_left \<or> d = Align_right \<Longrightarrow>
    padding_shifts d ! unat (align_code a) =
      (case (if a = Align_none then d else a) of Align_left \<Rightarrow> 31 | Align_center \<Rightarrow> 1 | _ \<Rightarrow> 0)"
  by (cases a) (auto simp: padding_shifts_def)

lemma write_padded_text:
  assumes "0 \<le> fs_width specs" and "fs_width specs \<le> INT_MAX" and d: "d = Align_left \<or> d = Align_right"
  shows "write_padded d specs n t = Inr (padded d specs n t)"
proof -
  define k where "k = nat (fs_width specs) - n"
  define a where "a = (if specs_align specs = Align_none then d else specs_align specs)"
  define l where "l = drop_bit (case a of Align_left \<Rightarrow> 31 | Align_center \<Rightarrow> 1 | _ \<Rightarrow> 0) k"
  have "k < 2147483648" using assms(1,2) by (simp add: INT_MAX_def k_def)
  then have none: "k div 2 ^ 31 = 0" by simp
  have k: "(if nat (fs_width specs) > n then nat (fs_width specs) - n else 0) = k" by (simp add: k_def)
  have w: "write_padded d specs n t = Inr ((if l \<noteq> 0 then fill l specs else []) @ t
      @ (if k - l \<noteq> 0 then fill (k - l) specs else []))"
    using assms(1) unfolding write_padded_def to_unsigned_def
    by (simp add: Let_def k shift_of_align [OF d] flip: a_def l_def del: diff_is_0_eq diff_is_0_eq')
  have f: "(if m \<noteq> 0 then fill m specs else []) = fill m specs" for m by simp
  have p: "fill l specs @ t @ fill (k - l) specs = padded d specs n t"
    unfolding padded_def Let_def k_def [symmetric] a_def [symmetric]
    using none by (cases a) (simp_all add: l_def drop_bit_eq_div)
  show ?thesis by (simp only: w f p)
qed

lemma write_padded_total: "0 \<le> fs_width specs \<Longrightarrow> \<exists>u. write_padded d specs n t = Inr u"
  by (simp add: write_padded_def to_unsigned_def Let_def)

section \<open>Integers\<close>

text \<open>The texts that make up a number: sign, prefix of the base, digits.\<close>

definition sign_text :: "int \<Rightarrow> format_specs \<Rightarrow> string" where
  "sign_text v specs =
     (if v < 0 then ''-''
      else case specs_sign specs of Sign_plus \<Rightarrow> ''+'' | Sign_space \<Rightarrow> '' '' | _ \<Rightarrow> [])"

definition digits_text :: "nat \<Rightarrow> format_specs \<Rightarrow> string" where
  "digits_text n specs =
     (let t = specs_type specs in
      if t = pres_hex then base_text 4 (specs_upper specs) n
      else if t = pres_oct then base_text 3 False n
      else if t = pres_bin then base_text 1 False n
      else dec n)"

definition base_prefix :: "nat \<Rightarrow> format_specs \<Rightarrow> string" where
  "base_prefix n specs =
     (let t = specs_type specs; up = specs_upper specs in
      if \<not> specs_alt specs then []
      else if t = pres_hex then (if up then ''0X'' else ''0x'')
      else if t = pres_bin then (if up then ''0B'' else ''0b'')
      else if t = pres_oct \<and> fs_precision specs \<le> int (length (digits_text n specs)) \<and> n \<noteq> 0 then ''0''
      else [])"

text \<open>Zeros before the digits, by the numeric alignment or else by the precision.\<close>

definition zeros :: "format_specs \<Rightarrow> string \<Rightarrow> string \<Rightarrow> string" where
  "zeros specs pre digits =
     replicate (if specs_align specs = Align_numeric then nat (fs_width specs) - length (pre @ digits)
                else nat (fs_precision specs) - length digits) CHR ''0''"

definition integer_text :: "int \<Rightarrow> format_specs \<Rightarrow> string" where
  "integer_text v specs =
     (let digits = digits_text (nat \<bar>v\<bar>) specs;
          pre = sign_text v specs @ base_prefix (nat \<bar>v\<bar>) specs;
          t = pre @ zeros specs pre digits @ digits
      in padded Align_right specs (length t) t)"

lemma prefix_chars_step:
  "prefix_chars_loop p = (if p = 0 then [] else char_of (unat (p AND 0xff)) # prefix_chars_loop (drop_bit 8 p))"
  by (rule prefix_chars_loop.simps)

text \<open>The packed prefix holds its characters and their number.\<close>

definition packs :: "32 word \<Rightarrow> string \<Rightarrow> bool" where
  "packs p s \<longleftrightarrow> prefix_chars p = s \<and> prefix_size p = length s"

lemmas packs_eval = packs_def prefix_chars_def prefix_size_def prefix_chars_step [of "numeral k" for k] prefix_chars_step [of 0]
  char_of_def bit_Suc_0_iff

lemma packs_sign:
  "packs 0 []" "packs (0x1000000 OR 0x2d) ''-''" "packs (0x1000000 OR 0x2b) ''+''" "packs (0x1000000 OR 0x20) '' ''"
  by (simp_all add: packs_eval)

definition sign_words :: "(32 word \<times> string) list" where
  "sign_words = [(0, []), (0x1000000 OR 0x2d, ''-''), (0x1000000 OR 0x2b, ''+''), (0x1000000 OR 0x20, '' '')]"

definition base_words :: "(32 word \<times> string) list" where
  "base_words =
     [(push_bit 8 (char_word CHR ''X'') OR char_word CHR ''0'', ''0X''),
      (push_bit 8 (char_word CHR ''x'') OR char_word CHR ''0'', ''0x''),
      (push_bit 8 (char_word CHR ''B'') OR char_word CHR ''0'', ''0B''),
      (push_bit 8 (char_word CHR ''b'') OR char_word CHR ''0'', ''0b''),
      (char_word CHR ''0'', ''0'')]"

lemma packs_appended: "list_all (\<lambda>(p, s). list_all (\<lambda>(v, t). packs (prefix_append p v) (s @ t)) base_words) sign_words"
  by (simp add: sign_words_def base_words_def packs_eval prefix_append_def char_word_def)

lemma packs_prefix_append:
  "(p, s) \<in> set sign_words \<Longrightarrow> (v, t) \<in> set base_words \<Longrightarrow> packs (prefix_append p v) (s @ t)"
  using packs_appended unfolding list_all_iff by blast

lemma packs_signs: "(p, s) \<in> set sign_words \<Longrightarrow> packs p s"
  using packs_sign by (auto simp: sign_words_def)

lemma sign_words_of:
  assumes "\<bar>v\<bar> < 2 ^ w"
  shows "(prefix_w (make_write_int_arg w v (specs_sign specs)), sign_text v specs) \<in> set sign_words"
  by (cases "specs_sign specs") (auto simp: make_write_int_arg_def Let_def sign_prefixes_def sign_words_def sign_text_def)

lemma abs_value_of:
  assumes "\<bar>v\<bar> < 2 ^ w"
  shows "abs_value (make_write_int_arg w v sg) = nat \<bar>v\<bar>"
proof (cases "v < 0")
  case True
  have "(0 - v mod 2 ^ w) mod 2 ^ w = (- v) mod (2 ^ w :: int)" by (simp add: mod_minus_eq)
  also have "\<dots> = - v" using assms True by (intro mod_pos_pos_trivial) auto
  finally show ?thesis using True by (simp add: make_write_int_arg_def Let_def)
next
  case False
  then show ?thesis using assms by (simp add: make_write_int_arg_def Let_def)
qed

definition int_widths :: "nat set" where "int_widths = {32, 64, 128}"

lemma count_digits_correct: "w \<in> int_widths \<Longrightarrow> n < 2 ^ w \<Longrightarrow> count_digits w n = Inr (length (dec n))"
  by (auto simp: int_widths_def count_digits_def do_count_digits32_correct do_count_digits_correct
      count_digits_fallback_correct)

lemma length_dec_width: "w \<in> int_widths \<Longrightarrow> n < 2 ^ w \<Longrightarrow> length (dec n) \<le> w"
proof (rule length_dec_le)
  assume "n < 2 ^ w"
  also have "(2 :: nat) ^ w \<le> 10 ^ w" by (rule power_mono) simp_all
  finally show "n < 10 ^ w" .
qed (auto simp: int_widths_def)

lemma format_decimal_to_writes:
  assumes "w \<in> int_widths" and "n < 2 ^ w" and "length (dec n) \<le> room" and "room \<le> length buf"
  shows "format_decimal_to w buf n room =
    Inr (take (room - length (dec n)) buf @ dec n @ drop room buf, int (room - length (dec n)))"
  using assms by (simp add: format_decimal_to_def count_digits_correct format_decimal_loop_writes)

lemma length_base_text_width: "w \<in> int_widths \<Longrightarrow> n < 2 ^ w \<Longrightarrow> 0 < bits \<Longrightarrow> length (base_text bits upper n) \<le> w"
proof (rule length_base_text)
  assume n: "n < 2 ^ w" and "0 < bits"
  then have "(2 :: nat) ^ w \<le> 2 ^ (bits * w)" by (intro power_increasing) simp_all
  with n show "n < 2 ^ (bits * w)" by (rule order_less_le_trans)
qed (auto simp: int_widths_def)

definition int_types :: "32 word set" where
  "int_types = {pres_none, pres_dec, pres_hex, pres_oct, pres_bin}"

lemma length_digits_text:
  assumes "w \<in> int_widths" and "n < 2 ^ w"
  shows "length (digits_text n specs) \<le> w" and "digits_text n specs \<noteq> []"
  using length_dec_width [OF assms] length_base_text_width [OF assms]
  by (simp_all add: digits_text_def Let_def)

lemma int_digits_text:
  assumes w: "w \<in> int_widths" and n: "abs_value arg < 2 ^ w" and t: "specs_type specs \<in> int_types"
    and sg: "(prefix_w arg, sg) \<in> set sign_words"
  obtains pre where "packs pre (sg @ base_prefix (abs_value arg) specs)"
    and "int_digits w arg specs =
      Inr (replicate (w - length (digits_text (abs_value arg) specs)) CHR 0x00 @ digits_text (abs_value arg) specs,
           int (w - length (digits_text (abs_value arg) specs)), pre)"
proof -
  note b = do_format_base2e_writes [of _ _ "abs_value arg" w "replicate w CHR 0x00"]
  note l = length_base_text_width [OF w n] length_dec_width [OF w n]
  note pk = packs_prefix_append [OF sg] packs_signs [OF sg]
  have ll: "w - (w - length (digits_text (abs_value arg) specs)) = length (digits_text (abs_value arg) specs)"
    using length_digits_text(1) [OF w n, of specs] by simp
  consider "specs_type specs = 0 \<or> specs_type specs = 3" | "specs_type specs = 4" | "specs_type specs = 5" | "specs_type specs = 6"
    using t by (auto simp: int_types_def pres_defs)
  then show thesis
  proof cases
    case 1
    then show thesis using format_decimal_to_writes [OF w n, of w "replicate w CHR 0x00"] l pk
      by (intro that [of "prefix_w arg"])
        (auto simp: int_digits_def Let_def pres_defs digits_text_def base_prefix_def)
  next
    case 2
    define pre where "pre = (if specs_alt specs
        then prefix_append (prefix_w arg) (push_bit 8 (char_word (if specs_upper specs then CHR ''X'' else CHR ''x''))
               OR char_word CHR ''0'') else prefix_w arg)"
    have "packs pre (sg @ base_prefix (abs_value arg) specs)"
      using 2 pk by (simp add: pre_def base_prefix_def Let_def pres_defs base_words_def)
    moreover have "digits_text (abs_value arg) specs = base_text 4 (specs_upper specs) (abs_value arg)"
      using 2 by (simp add: digits_text_def pres_defs)
    ultimately show thesis using b [of 4 "specs_upper specs"] l 2
      by (intro that [of pre]) (simp_all add: int_digits_def Let_def pres_defs flip: pre_def)
  next
    case 3
    define pre where "pre = (if specs_alt specs \<and> fs_precision specs \<le> int (length (base_text 3 False (abs_value arg)))
        \<and> abs_value arg \<noteq> 0 then prefix_append (prefix_w arg) (char_word CHR ''0'') else prefix_w arg)"
    have d: "digits_text (abs_value arg) specs = base_text 3 False (abs_value arg)"
      using 3 by (simp add: digits_text_def pres_defs)
    then have "packs pre (sg @ base_prefix (abs_value arg) specs)"
      using 3 pk by (simp add: pre_def base_prefix_def Let_def pres_defs base_words_def)
    moreover have "int w - int (w - length (base_text 3 False (abs_value arg))) = int (length (base_text 3 False (abs_value arg)))"
      using l(1) [of 3 False] by simp
    ultimately show thesis using b [of 3 False] l 3 d
      by (intro that [of pre]) (simp_all add: int_digits_def Let_def pres_defs pre_def)
  next
    case 4
    define pre where "pre = (if specs_alt specs
        then prefix_append (prefix_w arg) (push_bit 8 (char_word (if specs_upper specs then CHR ''B'' else CHR ''b''))
               OR char_word CHR ''0'') else prefix_w arg)"
    have "packs pre (sg @ base_prefix (abs_value arg) specs)"
      using 4 pk by (simp add: pre_def base_prefix_def Let_def pres_defs base_words_def)
    moreover have "digits_text (abs_value arg) specs = base_text 1 False (abs_value arg)"
      using 4 by (simp add: digits_text_def pres_defs)
    ultimately show thesis using b [of 1 False] l 4
      by (intro that [of pre]) (simp_all add: int_digits_def Let_def pres_defs flip: pre_def)
  qed
qed

lemma length_prefix: "(p, sg) \<in> set sign_words \<Longrightarrow> length (sg @ base_prefix n specs) \<le> 3"
  by (auto simp: sign_words_def base_prefix_def Let_def)

lemma size_padding_text:
  assumes "packs p pre" and "length pre \<le> 3" and "length digits \<le> 128"
    and "0 \<le> fs_width specs" "fs_precision specs \<le> INT_MAX"
  shows "size_padding (int (length digits)) p specs =
    Inr (length (pre @ zeros specs pre digits @ digits), length (zeros specs pre digits))"
proof -
  have pre: "prefix_size p = length pre" using assms(1) by (simp add: packs_def)
  have "length pre + length digits < 2 ^ 32" using assms(2,3) by simp
  moreover have "length pre + nat (fs_precision specs) < 2 ^ 32" using assms(2,5) by (simp add: INT_MAX_def)
  ultimately show ?thesis using assms(4)
    by (auto simp: size_padding_def to_unsigned_def pre zeros_def Let_def)
qed

text \<open>
  A number with its specifiers: sign, prefix of the base, zeros by the numeric alignment or the
  precision, the digits, filled to the width.
\<close>

lemma write_integer_text:
  assumes w: "w \<in> int_widths" and v: "\<bar>v\<bar> < 2 ^ w" and t: "specs_type specs \<in> int_types"
    and width: "0 \<le> fs_width specs" "fs_width specs \<le> INT_MAX"
    and precision: "- 1 \<le> fs_precision specs" "fs_precision specs \<le> INT_MAX"
  shows "write_integer w v specs = Inr (integer_text v specs)"
proof -
  let ?n = "nat \<bar>v\<bar>" and ?arg = "make_write_int_arg w v (specs_sign specs)"
  define d where "d = digits_text ?n specs"
  define pre where "pre = sign_text v specs @ base_prefix ?n specs"
  have n: "abs_value ?arg = ?n" using v by (rule abs_value_of)
  have n': "?n < 2 ^ w" using v by (simp add: nat_less_iff)
  obtain p where p: "packs p pre" and
    id: "int_digits w ?arg specs = Inr (replicate (w - length d) CHR 0x00 @ d, int (w - length d), p)"
    using int_digits_text [OF w, of ?arg specs] n n' t sign_words_of [OF v] unfolding d_def pre_def by metis
  have ld: "length d \<le> w" "w \<le> 128" unfolding d_def
    using length_digits_text(1) [OF w n'] w by (auto simp: int_widths_def)
  have rd: "mem_read (replicate (w - length d) CHR 0x00 @ d) (int (w - length d)) (length d) = Inr d"
    using ld by (simp add: mem_read_def)
  have len: "length pre \<le> 3" unfolding pre_def using length_prefix [OF sign_words_of [OF v]] by blast
  have chr: "specs_type specs \<noteq> pres_chr" using t by (auto simp: int_types_def pres_defs)
  have num: "int w - int (w - length d) = int (length d)" using ld by simp
  have sp: "size_padding (int (length d)) p specs
      = Inr (length (pre @ zeros specs pre d @ d), length (zeros specs pre d))"
    using ld by (intro size_padding_text [OF p len _ width(1) precision(2)]) simp
  have z: "zeros specs pre d = replicate (length (zeros specs pre d)) CHR ''0''" by (simp add: zeros_def)
  show ?thesis
  proof (cases "fs_width specs OR (fs_precision specs + 1) = 0")
    case True
    then have "fs_width specs = 0" "fs_precision specs = - 1" by (auto simp: or_eq_0_iff)
    then show ?thesis using True p
      by (simp add: write_integer_def write_int_def chr id Let_def num rd packs_def integer_text_def padded_def zeros_def
          d_def [symmetric] pre_def [symmetric] split: align.split)
  next
    case False
    then show ?thesis using p z
      by (simp add: write_integer_def write_int_def chr id Let_def num rd sp packs_def integer_text_def
          d_def [symmetric] pre_def [symmetric] write_padded_text [OF width])
  qed
qed

lemma write_default_int_text:
  assumes w: "w \<in> int_widths" and v: "\<bar>v\<bar> < 2 ^ w"
  shows "write_default_int w v = Inr (dec_int v)"
proof -
  let ?n = "nat \<bar>v\<bar>"
  have n: "?n < 2 ^ w" using v by (simp add: nat_less_iff)
  have abs: "nat (if v < 0 then (2 ^ w - 1 - v mod 2 ^ w + 1) mod 2 ^ w else v mod 2 ^ w) = ?n"
  proof (cases "v < 0")
    case True
    have "(2 ^ w - 1 - v mod 2 ^ w + 1) mod 2 ^ w = (2 ^ w - v mod 2 ^ w) mod (2 ^ w :: int)" by simp
    also have "\<dots> = (- v) mod 2 ^ w" by (simp add: mod_diff_eq [symmetric] mod_minus_eq)
    also have "\<dots> = - v" using v True by (intro mod_pos_pos_trivial) auto
    finally show ?thesis using True by simp
  qed (use v in auto)
  have "dec_int v = (if v < 0 then ''-'' else []) @ dec ?n" by (simp add: dec_int_def)
  then show ?thesis
    using format_decimal_to_writes [OF w n, of "length (dec ?n)" "replicate (length (dec ?n)) CHR 0x00"]
    by (simp add: write_default_int_def Let_def abs count_digits_correct [OF w n])
qed

section \<open>No faults\<close>

lemma is_printable_total: "\<exists>b. is_printable cp = Inr b"
  using is_printable_memory_safe [of cp] by (cases "is_printable cp") auto

lemma needs_escape_total: "\<exists>b. needs_escape cp = Inr b"
  using is_printable_total [of cp] by (auto simp: needs_escape_def)

definition escape_ok :: "string \<Rightarrow> fault + find_escape_result \<Rightarrow> bool" where
  "escape_ok s r \<longleftrightarrow> (\<exists>e. r = Inr e \<and> fe_begin e \<le> length s \<and>
     (\<forall>fin. fe_end e = Some fin \<longrightarrow> fe_begin e < fin \<and> fin \<le> length s))"

lemma find_escape_ok: "escape_ok s (find_escape s)"
proof -
  have "\<exists>r. for_each_codepoint find_escape_step s (Inr \<lparr>fe_begin = length s, fe_end = None, fe_cp = 0\<rparr>) = Inr r
      \<and> escape_ok s r"
  proof (rule for_each_codepoint_safe [where I = "escape_ok s"])
    fix cp p n and r :: "fault + find_escape_result"
    assume "escape_ok s r" "0 < n" "p + n \<le> length s"
    moreover obtain b where "needs_escape cp = Inr b" using needs_escape_total by blast
    ultimately show "escape_ok s (snd (find_escape_step cp p n r))"
      by (auto simp: find_escape_step_def escape_ok_def)
  qed (simp add: escape_ok_def)
  then show ?thesis by (auto simp: find_escape_def)
qed

lemma write_codepoint_total:
  assumes "unat cp < 2 ^ (4 * k)" and "0 < k"
  shows "\<exists>t. write_codepoint k c cp = Inr t"
proof -
  have "length (base_text 4 False (unat cp)) \<le> k" using assms by (intro length_base_text) simp_all
  then show ?thesis
    using do_format_base2e_writes [of 4 False "unat cp" k "replicate k CHR ''0''"]
    by (simp add: write_codepoint_def)
qed

lemma write_codepoints_total: "\<exists>t. write_codepoints s = Inr t"
proof (induction s)
  case (Cons c s)
  have "byte_of c AND 0xFF = take_bit 8 (byte_of c)" by (simp add: take_bit_eq_mask mask_eq_exp_minus_1)
  then have "unat (byte_of c AND 0xFF) < 2 ^ (4 * 2)"
    using take_bit_nat_less_exp [of 8 "unat (byte_of c)"] by (simp add: unsigned_take_bit_eq)
  then obtain t where "write_codepoint 2 CHR ''x'' (byte_of c AND 0xFF) = Inr t"
    using write_codepoint_total [of _ 2] by fastforce
  then show ?case using Cons by auto
qed simp

lemma write_escaped_cp_total: "\<exists>t. write_escaped_cp cp s = Inr t"
proof -
  have "unat cp < 2 ^ 32" using unsigned_less [of cp] by simp
  then show ?thesis
    using write_codepoint_total [of cp 2 "CHR ''x''"] write_codepoint_total [of cp 4 "CHR ''u''"]
      write_codepoint_total [of cp 8 "CHR ''U''"] write_codepoints_total [of s]
    unfolding write_escaped_cp_def by (auto simp: word_less_nat_alt)
qed

lemma escape_loop_total: "\<exists>t. escape_loop s = Inr t"
proof (induction s rule: measure_induct_rule [of length])
  case (less s)
  obtain e where e: "find_escape s = Inr e" and
    fin: "\<And>fin. fe_end e = Some fin \<Longrightarrow> fe_begin e < fin \<and> fin \<le> length s"
    using find_escape_ok [of s] by (auto simp: escape_ok_def)
  show ?case
  proof (cases "fe_end e")
    case None
    then show ?thesis using e by (subst escape_loop.simps) simp
  next
    case (Some k)
    obtain t where t: "write_escaped_cp (fe_cp e) (drop (fe_begin e) (take k s)) = Inr t"
      using write_escaped_cp_total by blast
    have k: "0 < k" "k \<le> length s" using fin [OF Some] by auto
    then have "\<exists>r. escape_loop (drop k s) = Inr r" by (intro less) simp
    then show ?thesis using e Some t k by (subst escape_loop.simps) auto
  qed
qed

lemma write_escaped_total: "\<exists>t. write_escaped_string s = Inr t" "\<exists>t. write_escaped_char c = Inr t"
proof -
  show "\<exists>t. write_escaped_string s = Inr t" using escape_loop_total [of s] by (auto simp: write_escaped_string_def)
  define u :: "32 word" where "u = (if of_char c < (128 :: nat) then word_of_nat (of_char c) else word_of_int (of_char c - 256))"
  obtain b where "needs_escape u = Inr b" using needs_escape_total by blast
  moreover obtain t where "write_escaped_cp u [c] = Inr t" using write_escaped_cp_total by blast
  ultimately show "\<exists>t. write_escaped_char c = Inr t"
    by (simp add: write_escaped_char_def Let_def flip: u_def)
qed

lemma write_char_total: "0 \<le> fs_width specs \<Longrightarrow> \<exists>t. write_char c specs = Inr t"
  using write_escaped_total(2) [of c] write_padded_total by (auto simp: write_char_def)

lemma write_string_total: "0 \<le> fs_width specs \<Longrightarrow> \<exists>t. write_string s specs = Inr t"
proof -
  assume w: "0 \<le> fs_width specs"
  obtain n where n: "code_point_index s (nat (fs_precision specs)) = Inr n" using code_point_index_le by blast
  obtain e where e: "write_escaped_string s = Inr e" using write_escaped_total by blast
  have c: "\<exists>k. compute_width u = Inr k" for u by (rule compute_width_total)
  show ?thesis using write_padded_total [OF w] c [of "take n s"] c [of "take (length s) s"]
    unfolding write_string_def by (auto simp: n e)
qed

lemma write_ptr_text:
  assumes "0 \<le> fs_width specs" and "fs_width specs \<le> INT_MAX"
  shows "write_ptr v specs = Inr (padded Align_right specs (length (hex v) + 2) (''0x'' @ hex v))"
  using count_base2_loop_text [of 4 0 v False] do_format_base2e_writes [of 4 False v "length (hex v)" "replicate (length (hex v)) CHR 0x00"]
  by (simp add: write_ptr_def count_base2_def Let_def hex_base_text write_padded_text [OF assms])

section \<open>The written integer\<close>

text \<open>
  Every integer of 32, 64 or 128 bits is written with its specifiers as sign, prefix of the base,
  zeros, and digits in the base, filled to the width: the routines that fill a buffer from behind,
  two digits at a time, leave out and overrun nothing.
\<close>

theorem integer_is_written:
  assumes "w \<in> int_widths" and "\<bar>v\<bar> < 2 ^ w" and "specs_type specs \<in> int_types"
    and "0 \<le> fs_width specs" and "fs_width specs \<le> INT_MAX"
    and "- 1 \<le> fs_precision specs" and "fs_precision specs \<le> INT_MAX"
  shows "write_integer w v specs = Inr (integer_text v specs)"
  by (rule write_integer_text [OF assms])

definition hex_specs :: format_specs where
  "hex_specs = set_type pres_hex (set_align Align_numeric (set_sign Sign_plus
     (set_alt (format_specs_new\<lparr>fs_width := 8\<rparr>))))"

theorem integer_is_written_witness: "write_integer 32 255 hex_specs = Inr ''+0x000ff''"
proof -
  have t: "specs_type hex_specs = pres_hex" by code_simp
  have w: "fs_width hex_specs = 8" by code_simp
  have p: "fs_precision hex_specs = - 1" by code_simp
  have "write_integer 32 255 hex_specs = Inr (integer_text 255 hex_specs)"
    by (rule integer_is_written) (simp_all add: t w p int_types_def int_widths_def INT_MAX_def)
  moreover have "integer_text 255 hex_specs = ''+0x000ff''" by code_simp
  ultimately show ?thesis by simp
qed

end
