(* ===== verification/Fmt_Parse_Props.thy ===== *)
theory Fmt_Parse_Props
  imports Fmt_Write_Props
begin

text \<open>
  The parsers of the bundled fmt: the number parser is exact up to \<open>INT_MAX\<close>, no parser fails an
  assertion or reads outside its text, and the specifiers that come out are fit for the writer of
  the kind of argument they are for. What the parsers do at compile time and at run time agrees.
\<close>

section \<open>Numbers\<close>

lemma char_digit_less: "char_digit c = Some d \<Longrightarrow> d < 10"
  by (auto simp: char_digit_def Let_def split: if_splits)

abbreviation number :: "nat \<Rightarrow> string \<Rightarrow> nat" where
  "number v s \<equiv> fst (read_digits v s)"

lemma number_mod: "all_digits s \<Longrightarrow> number (v mod m) s mod m = number v s mod m"
proof (induction s arbitrary: v)
  case (Cons c s)
  then obtain d where d: "char_digit c = Some d" "all_digits s" by (auto simp: all_digits_def)
  have "number (10 * (v mod m) + d) s mod m = number ((10 * (v mod m) + d) mod m) s mod m"
    using Cons.IH [OF d(2), of "10 * (v mod m) + d"] by simp
  also have "(10 * (v mod m) + d) mod m = (10 * v + d) mod m" by (metis mod_add_left_eq mod_mult_right_eq)
  also have "number \<dots> s mod m = number (10 * v + d) s mod m" using Cons.IH [OF d(2)] by simp
  finally show ?case using d by simp
qed simp

lemma number_bound: "all_digits s \<Longrightarrow> number v s < (v + 1) * 10 ^ length s"
proof (induction s arbitrary: v)
  case (Cons c s)
  then obtain d where d: "char_digit c = Some d" "all_digits s" by (auto simp: all_digits_def)
  have "number (10 * v + d) s < (10 * v + d + 1) * 10 ^ length s" using Cons.IH [OF d(2)] by blast
  also have "\<dots> \<le> (10 * v + 10) * 10 ^ length s"
    using char_digit_less [OF d(1)] by (intro mult_right_mono) simp_all
  finally show ?case using d by (simp add: algebra_simps)
qed simp

lemma nonnegative_loop_digits:
  assumes "all_digits s" and "char_digit c = Some d" and "rest = [] \<or> char_digit (hd rest) = None" and "v < 2 ^ 32"
  shows "nonnegative_loop v p l n (s @ c # rest) =
    ((number v s * 10 + d) mod 2 ^ 32, number v s mod 2 ^ 32, d, n + length s + 1, rest)"
  using assms(1,4)
proof (induction s arbitrary: v p l n)
  case Nil
  then show ?case using assms(2,3) by (cases rest) simp_all
next
  case (Cons a s)
  then obtain e where e: "char_digit a = Some e" "all_digits s" by (auto simp: all_digits_def)
  let ?v = "(v * 10 + e) mod 2 ^ 32"
  have m: "number ?v s mod 2 ^ 32 = number (10 * v + e) s mod 2 ^ 32"
    using number_mod [OF e(2), of "v * 10 + e"] by (simp add: mult.commute)
  have "(number ?v s * 10 + d) mod 2 ^ 32 = (number ?v s mod 2 ^ 32 * 10 + d) mod 2 ^ 32"
    by (metis mod_add_left_eq mod_mult_left_eq)
  also have "\<dots> = (number (10 * v + e) s * 10 + d) mod 2 ^ 32"
    unfolding m by (metis mod_add_left_eq mod_mult_left_eq)
  finally show ?case using Cons.IH [OF e(2), of ?v v e "Suc n"] m e(1) by simp
qed

lemma digits_split:
  assumes "b \<noteq> []" and "char_digit (hd b) \<noteq> None"
  obtains s c d rest where "b = s @ c # rest" and "all_digits s" and "char_digit c = Some d"
    and "rest = [] \<or> char_digit (hd rest) = None"
proof -
  define ds where "ds = takeWhile (\<lambda>c. char_digit c \<noteq> None) b"
  define rest where "rest = dropWhile (\<lambda>c. char_digit c \<noteq> None) b"
  have ne: "ds \<noteq> []" using assms unfolding ds_def by (cases b) auto
  have dig: "\<forall>c \<in> set ds. char_digit c \<noteq> None" unfolding ds_def by (auto dest: set_takeWhileD)
  have "b = ds @ rest" by (simp only: ds_def rest_def takeWhile_dropWhile_id)
  also have "ds = butlast ds @ [last ds]" using ne by simp
  finally have "b = butlast ds @ last ds # rest" by simp
  moreover have "all_digits (butlast ds)" using dig by (auto simp: all_digits_def dest: in_set_butlastD)
  moreover obtain d where "char_digit (last ds) = Some d" using dig ne last_in_set by fastforce
  moreover have "rest = [] \<or> char_digit (hd rest) = None" unfolding rest_def
    by (metis (mono_tags, lifting) hd_dropWhile)
  ultimately show thesis using that by blast
qed

text \<open>
  A number is exact if it has at most ten digits and fits \<open>int\<close>, else the result is the error
  value; what follows the digits is left over. The count includes leading zeros.
\<close>

lemma parse_nonnegative_int_digits:
  assumes "all_digits s" and "char_digit c = Some d" and "rest = [] \<or> char_digit (hd rest) = None"
  shows "parse_nonnegative_int (s @ c # rest) e =
    Inr (if length s < 10 \<and> int (number 0 (s @ [c])) \<le> INT_MAX then int (number 0 (s @ [c])) else e, rest)"
proof -
  have d: "d < 10" using assms(2) by (rule char_digit_less)
  have num: "number 0 (s @ [c]) = number 0 s * 10 + d"
    using assms(1,2) by (simp add: read_digits_append)
  have hd: "char_digit (hd (s @ c # rest)) \<noteq> None"
    using assms(1,2) by (cases s) (auto simp: all_digits_def)
  note loop = nonnegative_loop_digits [OF assms, of 0 0 0 0, simplified]
  consider "length s < 9" | "length s = 9" | "9 < length s" by linarith
  then show ?thesis
  proof cases
    case 1
    have "number 0 s < 10 ^ length s" using number_bound [OF assms(1), of 0] by simp
    also have "(10 :: nat) ^ length s \<le> 10 ^ 8" using 1 by (intro power_increasing) simp_all
    finally have "number 0 s < 10 ^ 8" .
    then show ?thesis using 1 d hd num
      by (auto simp: parse_nonnegative_int_def loop Let_def INT_MAX_def)
  next
    case 2
    have "number 0 s < 10 ^ 9" using number_bound [OF assms(1), of 0] 2 by simp
    then show ?thesis using 2 d hd num
      by (auto simp: parse_nonnegative_int_def loop Let_def INT_MAX_def)
  next
    case 3
    then show ?thesis using hd by (auto simp: parse_nonnegative_int_def loop Let_def)
  qed
qed

lemma parse_nonnegative_int_total:
  assumes "b \<noteq> []" and "char_digit (hd b) \<noteq> None"
  obtains v r where "parse_nonnegative_int b e = Inr (v, r)" and "v = e \<or> 0 \<le> v \<and> v \<le> INT_MAX"
proof -
  obtain s c d rest where b: "b = s @ c # rest" and s: "all_digits s" "char_digit c = Some d"
    "rest = [] \<or> char_digit (hd rest) = None" by (rule digits_split [OF assms])
  define v where "v = (if length s < 10 \<and> int (number 0 (s @ [c])) \<le> INT_MAX then int (number 0 (s @ [c])) else e)"
  have "parse_nonnegative_int b e = Inr (v, rest)"
    unfolding b v_def by (rule parse_nonnegative_int_digits [OF s])
  moreover have "v = e \<or> 0 \<le> v \<and> v \<le> INT_MAX" by (simp add: v_def)
  ultimately show thesis by (rule that)
qed

section \<open>No faults in the parsers\<close>

definition ref_ok :: "arg_ref \<Rightarrow> bool" where
  "ref_ok r \<longleftrightarrow> (case r of Ref_index i \<Rightarrow> 0 \<le> i | Ref_name n \<Rightarrow> True)"

text \<open>The presentations that the parser lets through for a kind of argument.\<close>

definition type_ok :: "arg_type \<Rightarrow> 32 word \<Rightarrow> bool" where
  "type_ok t p \<longleftrightarrow>
     (t \<in> {int_type, uint_type, long_long_type, ulong_long_type, int128_type, uint128_type} \<longrightarrow>
       p \<noteq> pres_debug \<and> p \<noteq> pres_string) \<and>
     (t = bool_type \<longrightarrow> p \<noteq> pres_debug) \<and>
     (t = char_type \<longrightarrow> p \<noteq> pres_string)"

definition specs_ok :: "arg_type \<Rightarrow> format_specs \<Rightarrow> bool" where
  "specs_ok t specs \<longleftrightarrow> 0 \<le> fs_width specs \<and> fs_width specs \<le> INT_MAX \<and>
     - 1 \<le> fs_precision specs \<and> fs_precision specs \<le> INT_MAX \<and>
     ref_ok (width_ref specs) \<and> ref_ok (precision_ref specs) \<and> type_ok t (specs_type specs)"

lemma specs_ok_new [simp]: "specs_ok t format_specs_new"
  by (simp add: specs_ok_def INT_MAX_def type_ok_def pres_defs ref_ok_def format_specs_new_def)
    (simp add: specs_type_def mask_defs shift_defs)

lemma no_fault_ids [simp]:
  "no_fault (do_check_arg_id i ctx)" "no_fault (next_arg_id ctx)" "no_fault (check_arg_id i ctx)"
  "no_fault (check_dynamic_spec i ctx)" "no_fault (dynamic_spec_handler r ctx)" "no_fault (enter_state st valid cur)"
proof -
  show 1: "no_fault (do_check_arg_id i ctx)" for i by (simp add: do_check_arg_id_def split: option.split)
  show 2: "no_fault (check_dynamic_spec i ctx)" for i ctx by (simp add: check_dynamic_spec_def split: option.split)
  show "no_fault (next_arg_id ctx)" by (auto simp: next_arg_id_def Let_def 1 intro!: no_fault_andthen)
  show 3: "no_fault (check_arg_id i ctx)" for i by (auto simp: check_arg_id_def 1 intro!: no_fault_andthen)
  show "no_fault (dynamic_spec_handler r ctx)"
    by (auto simp: dynamic_spec_handler_def 2 3 intro!: no_fault_andthen split: arg_ref.split)
  show "no_fault (enter_state st valid cur)" by (simp add: enter_state_def)
qed

lemma next_arg_id_nonneg: "next_arg_id ctx = Inr (i, ctx') \<Longrightarrow> 0 \<le> i"
  by (auto simp: next_arg_id_def Let_def andthen_Inr_iff split: if_splits)

lemma parse_arg_id_ok:
  assumes "b \<noteq> []"
  shows "no_fault (parse_arg_id b)" and "parse_arg_id b = Inr (r, b') \<Longrightarrow> ref_ok r"
proof -
  obtain c cs where b: "b = c # cs" using assms by (cases b) auto
  have "\<exists>v r. parse_nonnegative_int b INT_MAX = Inr (v, r) \<and> 0 \<le> v" if "char_digit c \<noteq> None"
    by (rule parse_nonnegative_int_total [of b INT_MAX]) (use that b in \<open>auto simp: INT_MAX_def\<close>)
  then show "no_fault (parse_arg_id b)" and "parse_arg_id b = Inr (r, b') \<Longrightarrow> ref_ok r"
    unfolding parse_arg_id_def b by (auto simp: ref_ok_def split: if_splits)
qed

lemma parse_dynamic_spec_ok:
  assumes "b \<noteq> []" and "ref_ok ref"
  shows "no_fault (parse_dynamic_spec b value ref ctx)"
    and "parse_dynamic_spec b value ref ctx = Inr (d, b', ctx') \<Longrightarrow>
      (ds_value d = value \<or> 0 \<le> ds_value d \<and> ds_value d \<le> INT_MAX) \<and> ref_ok (ds_ref d)"
proof -
  obtain c cs where b: "b = c # cs" using assms(1) by (cases b) auto
  have num: "\<exists>v r. parse_nonnegative_int b (- 1) = Inr (v, r) \<and> (v = - 1 \<or> 0 \<le> v \<and> v \<le> INT_MAX)"
    if "char_digit c \<noteq> None"
    by (rule parse_nonnegative_int_total [of b "- 1"]) (use that b in auto)
  show "no_fault (parse_dynamic_spec b value ref ctx)"
    using num parse_arg_id_ok(1) [of cs] unfolding parse_dynamic_spec_def b
    by (auto intro!: no_fault_andthen)
  show "parse_dynamic_spec b value ref ctx = Inr (d, b', ctx') \<Longrightarrow>
      (ds_value d = value \<or> 0 \<le> ds_value d \<and> ds_value d \<le> INT_MAX) \<and> ref_ok (ds_ref d)"
    using num parse_arg_id_ok(2) [of cs] assms(2) unfolding parse_dynamic_spec_def b
    by (auto simp: andthen_Inr_iff ref_ok_def dest: next_arg_id_nonneg split: if_splits)
qed

lemma code_point_length_le: "0 < code_point_length c" "code_point_length c \<le> 4"
proof -
  have "(3 :: nat) = mask 2" by (simp add: mask_eq_exp_minus_1)
  then have "n AND 3 < 4" for n :: nat
    using take_bit_nat_less_exp [of 2 n] by (simp only: flip: take_bit_eq_mask) simp
  then have "drop_bit k n AND 3 \<le> 3" for k n :: nat by (metis less_Suc_eq_le eval_nat_numeral(2) semiring_norm(26,27))
  then show "0 < code_point_length c" "code_point_length c \<le> 4"
    by (simp_all add: code_point_length_def Let_def Suc_le_eq del: One_nat_def)
qed

text \<open>A step of the loop neither fails an assertion nor spoils the specifiers.\<close>

definition step_ok :: "arg_type \<Rightarrow> fmt_error + (bool \<times> spec_state) \<Rightarrow> bool" where
  "step_ok t r \<longleftrightarrow> no_fault r \<and>
     (\<forall>go b specs ctx cur. r = Inr (go, b, specs, ctx, cur) \<longrightarrow> specs_ok t specs)"

lemma step_ok_simps [simp]:
  "step_ok t (Inr (go, b, specs, ctx, cur)) \<longleftrightarrow> specs_ok t specs"
  "step_ok t (report_error m)" "step_ok t (Inl (Format_error m))"
  by (simp_all add: step_ok_def report_error_def)

lemma step_ok_andthen: "no_fault r \<Longrightarrow> (\<And>x. r = Inr x \<Longrightarrow> step_ok t (f x)) \<Longrightarrow> step_ok t (andthen r f)"
  by (auto simp: step_ok_def andthen_Inr_iff intro: no_fault_andthen)

lemma specs_ok_setters [simp]:
  "specs_ok t (set_align a specs) = specs_ok t specs" "specs_ok t (set_sign g specs) = specs_ok t specs"
  "specs_ok t (set_alt specs) = specs_ok t specs" "specs_ok t (set_upper specs) = specs_ok t specs"
  "specs_ok t (set_localized specs) = specs_ok t specs" "specs_ok t (set_dynamic_width k specs) = specs_ok t specs"
  "specs_ok t (set_dynamic_precision k specs) = specs_ok t specs"
  "n \<le> 4 \<Longrightarrow> specs_ok t (set_fill_size n specs) = specs_ok t specs"
  by (simp_all add: specs_ok_def)

lemma specs_ok_data: "specs_ok t (specs\<lparr>fill_data := f\<rparr>) = specs_ok t specs"
  by (simp add: specs_ok_def specs_type_def)

lemma specs_ok_fill_char [simp]: "specs_ok t (set_fill_char c specs) = specs_ok t specs"
  by (simp add: set_fill_char_def specs_ok_data)

lemma specs_ok_width: "specs_ok t specs \<Longrightarrow> v = fs_width specs \<or> 0 \<le> v \<and> v \<le> INT_MAX \<Longrightarrow> ref_ok r \<Longrightarrow>
    specs_ok t (specs\<lparr>fs_width := v, width_ref := r\<rparr>)"
  by (auto simp: specs_ok_def specs_type_def)

lemma specs_ok_precision: "specs_ok t specs \<Longrightarrow> v = fs_precision specs \<or> 0 \<le> v \<and> v \<le> INT_MAX \<Longrightarrow> ref_ok r \<Longrightarrow>
    specs_ok t (specs\<lparr>fs_precision := v, precision_ref := r\<rparr>)"
  by (auto simp: specs_ok_def specs_type_def)

lemma step_ok_if: "(c \<Longrightarrow> step_ok t x) \<Longrightarrow> (\<not> c \<Longrightarrow> step_ok t y) \<Longrightarrow> step_ok t (if c then x else y)"
  by simp

lemma parse_width_ok:
  assumes "b \<noteq> []" and "specs_ok t specs"
  shows "no_fault (parse_width b specs ctx)"
    and "parse_width b specs ctx = Inr (b', specs', ctx') \<Longrightarrow> specs_ok t specs'"
proof -
  have r: "ref_ok (width_ref specs)" using assms(2) by (simp add: specs_ok_def)
  note d = parse_dynamic_spec_ok [OF assms(1) r, of "fs_width specs" ctx]
  show "no_fault (parse_width b specs ctx)" unfolding parse_width_def
    by (intro no_fault_andthen d(1)) (simp split: prod.split)
  show "parse_width b specs ctx = Inr (b', specs', ctx') \<Longrightarrow> specs_ok t specs'"
    using d(2) assms(2) unfolding parse_width_def andthen_Inr_iff
    by (auto intro!: specs_ok_width)
qed

lemma parse_precision_ok:
  assumes "specs_ok t specs"
  shows "no_fault (parse_precision b specs ctx)"
    and "parse_precision b specs ctx = Inr (b', specs', ctx') \<Longrightarrow> specs_ok t specs'"
proof -
  have r: "ref_ok (precision_ref specs)" using assms by (simp add: specs_ok_def)
  note d = parse_dynamic_spec_ok [of "tl b", OF _ r, of "fs_precision specs" ctx]
  show "no_fault (parse_precision b specs ctx)" using d(1) unfolding parse_precision_def Let_def
    by (auto intro!: no_fault_andthen)
  show "parse_precision b specs ctx = Inr (b', specs', ctx') \<Longrightarrow> specs_ok t specs'"
    using d(2) assms unfolding parse_precision_def Let_def
    by (auto simp: andthen_Inr_iff split: if_splits intro!: specs_ok_precision)
qed

lemma step_ok_presentation:
  assumes "in_types t st \<Longrightarrow> type_ok t p" and "p AND type_mask = p" and "specs_ok t specs"
  shows "step_ok t (parse_presentation_type t p st b specs ctx cur)"
  using assms by (auto simp: parse_presentation_type_def specs_ok_def)

lemma step_ok_fill:
  assumes "b \<noteq> []" and "specs_ok t specs"
  shows "step_ok t (parse_fill b specs ctx cur)"
proof -
  define n where "n = code_point_length (hd b)"
  have n: "0 < n" "n \<le> 4" by (simp_all add: n_def code_point_length_le)
  have len: "length (take n b) = n" if "n < length b" using that by simp
  have fill: "\<exists>specs'. set_fill (take n b) specs = Inr specs' \<and> specs_ok t specs'" if "n < length b"
    using len [OF that] n assms(2) by (simp add: set_fill_def Let_def max_fill_size_def specs_ok_data)
  show ?thesis using assms(2) fill unfolding parse_fill_def Let_def n_def [symmetric]
    by (auto intro!: step_ok_andthen)
qed

lemma step_ok_go_on: "no_fault r \<Longrightarrow> specs_ok t specs \<Longrightarrow> step_ok t (go_on b specs ctx r)"
  unfolding go_on_def by (intro step_ok_andthen) simp_all

lemmas presentation_masks = pres_defs type_mask_def

lemma spec_step_ok:
  assumes "b \<noteq> []" and "specs_ok t specs"
  shows "step_ok t (spec_step t c b specs ctx cur)"
proof -
  note w = parse_width_ok [OF assms] and p = parse_precision_ok [OF assms(2)]
  have "step_ok t (andthen (enter_state St_width True cur) (\<lambda>st.
      andthen (parse_width b specs ctx) (\<lambda>(b, specs, ctx). Inr (True, b, specs, ctx, st))))"
    by (intro step_ok_andthen w(1) no_fault_ids) (auto dest: w(2))
  moreover have "step_ok t (andthen (enter_state St_precision v cur) (\<lambda>st.
      andthen (parse_precision b specs ctx) (\<lambda>(b, specs, ctx). Inr (True, b, specs, ctx, st))))" for v
    by (intro step_ok_andthen p(1) no_fault_ids) (auto dest: p(2))
  moreover have "step_ok t (andthen (enter_state St_zero True cur) (\<lambda>st.
      if \<not> is_arithmetic_type t then report_error m
      else Inr (True, b', if specs_align specs = Align_none then set_fill_char CHR ''0'' (set_align Align_numeric specs)
              else specs, ctx, st)))" for m b'
    using assms(2) by (intro step_ok_andthen no_fault_ids) auto
  moreover have "step_ok t (parse_fill b specs ctx cur)" using assms by (rule step_ok_fill)
  ultimately show ?thesis using assms(2) unfolding spec_step_def
    by (intro step_ok_if step_ok_go_on step_ok_presentation no_fault_ids)
      (simp_all add: integral_set_def type_ok_def presentation_masks, auto)
qed

lemma specs_loop_ok:
  "specs_ok t specs \<Longrightarrow> no_fault (specs_loop t c b specs ctx cur) \<and>
    (\<forall>b' specs' ctx'. specs_loop t c b specs ctx cur = Inr (b', specs', ctx') \<longrightarrow> specs_ok t specs')"
proof (induction t c b specs ctx cur rule: specs_loop.induct)
  case (1 t c b specs ctx cur)
  show ?case
  proof (cases "b = []")
    case True
    then show ?thesis using 1(2) by (simp add: specs_loop.simps)
  next
    case False
    then have ok: "step_ok t (spec_step t c b specs ctx cur)" using 1(2) by (rule spec_step_ok)
    show ?thesis
    proof (cases "spec_step t c b specs ctx cur")
      case (Inl e)
      then show ?thesis using ok False by (simp add: specs_loop.simps [of t c b] step_ok_def no_fault_def)
    next
      case (Inr r)
      obtain go b1 specs1 ctx1 cur1 where r: "r = (go, b1, specs1, ctx1, cur1)" by (cases r)
      have s1: "specs_ok t specs1" using ok unfolding Inr r by simp
      show ?thesis
      proof (cases "go \<and> b1 \<noteq> []")
        case True
        then have "specs_loop t c b specs ctx cur = specs_loop t (hd b1) b1 specs1 ctx1 cur1"
          using False Inr r by (subst specs_loop.simps) simp
        then show ?thesis using 1(1) [OF False Inr [unfolded r] refl refl refl refl True s1] by simp
      next
        case False': False
        then have "specs_loop t c b specs ctx cur = Inr (b1, specs1, ctx1)"
          using False Inr r by (subst specs_loop.simps) auto
        then show ?thesis using s1 by simp
      qed
    qed
  qed
qed

lemma parse_format_specs_ok:
  "no_fault (parse_format_specs b format_specs_new ctx t)"
  "parse_format_specs b format_specs_new ctx t = Inr (b', specs, ctx') \<Longrightarrow> specs_ok t specs"
  using specs_loop_ok [OF specs_ok_new, THEN conjunct1] specs_loop_ok [OF specs_ok_new, THEN conjunct2, rule_format]
  by (simp_all add: parse_format_specs_def split: list.splits)

section \<open>Compile time and run time\<close>

text \<open>
  What passes with the kinds of the arguments known passes without them, with the same result.
\<close>

definition forget :: "parse_context \<Rightarrow> parse_context" where
  "forget ctx = ctx\<lparr>pc_types := None\<rparr>"

definition refines :: "('a \<Rightarrow> 'b) \<Rightarrow> fmt_error + 'a \<Rightarrow> fmt_error + 'b \<Rightarrow> bool" where
  "refines g r r' \<longleftrightarrow> (\<forall>x. r = Inr x \<longrightarrow> r' = Inr (g x))"

lemma refines_simps [simp]:
  "refines g (Inr x) r' \<longleftrightarrow> r' = Inr (g x)" "refines g (report_error m) r'" "refines g (Inl e) r'"
  by (auto simp: refines_def report_error_def)

lemma refinesD: "refines g r r' \<Longrightarrow> r = Inr x \<Longrightarrow> r' = Inr (g x)"
  by (simp add: refines_def)

lemma refines_andthen:
  "refines g m m' \<Longrightarrow> (\<And>x. m = Inr x \<Longrightarrow> refines h (f x) (f' (g x))) \<Longrightarrow> refines h (andthen m f) (andthen m' f')"
  by (auto simp: refines_def andthen_Inr_iff)

lemma refines_same: "(\<And>x. m = Inr x \<Longrightarrow> refines h (f x) (f' x)) \<Longrightarrow> refines h (andthen m f) (andthen m f')"
  by (auto simp: refines_def andthen_Inr_iff)

lemma refines_if: "(c \<Longrightarrow> refines g x x') \<Longrightarrow> (\<not> c \<Longrightarrow> refines g y y') \<Longrightarrow>
    refines g (if c then x else y) (if c then x' else y')"
  by simp

lemma forget_next_arg_id: "refines (map_prod id forget) (next_arg_id ctx) (next_arg_id (forget ctx))"
  by (auto simp: refines_def next_arg_id_def forget_def do_check_arg_id_def Let_def andthen_Inr_iff
      split: if_splits option.splits)

lemma forget_check_arg_id: "refines forget (check_arg_id i ctx) (check_arg_id i (forget ctx))"
  by (auto simp: refines_def check_arg_id_def forget_def do_check_arg_id_def andthen_Inr_iff
      split: if_splits option.splits)

lemma forget_check_arg_name: "check_arg_name (forget ctx) = forget (check_arg_name ctx)"
  by (simp add: check_arg_name_def forget_def)

lemma forget_check_dynamic: "check_dynamic_spec i (forget ctx) = Inr ()"
  by (simp add: check_dynamic_spec_def forget_def)

lemma forget_dynamic_handler:
  "refines (map_prod id forget) (dynamic_spec_handler r ctx) (dynamic_spec_handler r (forget ctx))"
proof (cases r)
  case (Ref_index i)
  have "refines (\<lambda>u. u) (check_dynamic_spec i ctx') (check_dynamic_spec i (forget ctx'))" for ctx'
    by (simp add: refines_def forget_check_dynamic)
  then show ?thesis unfolding Ref_index
    by (auto simp: dynamic_spec_handler_def intro!: refines_andthen [OF forget_check_arg_id] refines_andthen)
qed (simp add: dynamic_spec_handler_def forget_check_arg_name)

definition forget3 :: "'a \<times> 'b \<times> parse_context \<Rightarrow> 'a \<times> 'b \<times> parse_context" where
  "forget3 = map_prod id (map_prod id forget)"

lemma forget3_simp [simp]: "forget3 (a, b, ctx) = (a, b, forget ctx)"
  by (simp add: forget3_def)

lemma forget_dynamic_spec:
  "refines forget3 (parse_dynamic_spec b v r ctx) (parse_dynamic_spec b v r (forget ctx))"
proof (cases b)
  case Nil
  then show ?thesis by (simp add: parse_dynamic_spec_def)
next
  case (Cons c cs)
  define f :: "arg_ref \<times> arg_id_kind \<times> string \<times> parse_context \<Rightarrow> arg_ref \<times> arg_id_kind \<times> string \<times> parse_context"
    where "f = map_prod id (map_prod id (map_prod id forget))"
  have auto: "refines f (andthen (next_arg_id ctx) (\<lambda>(i, ctx).
        andthen (check_dynamic_spec i ctx) (\<lambda>_. Inr (Ref_index i, Id_index, cs, ctx))))
      (andthen (next_arg_id (forget ctx)) (\<lambda>(i, ctx).
        andthen (check_dynamic_spec i ctx) (\<lambda>_. Inr (Ref_index i, Id_index, cs, ctx))))"
    by (rule refines_andthen [OF forget_next_arg_id])
      (auto simp: refines_def f_def forget_check_dynamic andthen_Inr_iff)
  have manual: "refines f (andthen (parse_arg_id cs) (\<lambda>(r, b).
        andthen (dynamic_spec_handler r ctx) (\<lambda>(k, ctx). Inr (r, k, b, ctx))))
      (andthen (parse_arg_id cs) (\<lambda>(r, b).
        andthen (dynamic_spec_handler r (forget ctx)) (\<lambda>(k, ctx). Inr (r, k, b, ctx))))"
    by (rule refines_same) (auto simp: f_def intro!: refines_andthen [OF forget_dynamic_handler])
  show ?thesis unfolding Cons parse_dynamic_spec_def list.case
    by (intro refines_if refines_same refines_andthen [of f] auto manual) (auto simp: f_def)
qed

lemma forget_width: "refines forget3 (parse_width b specs ctx) (parse_width b specs (forget ctx))"
  unfolding parse_width_def by (rule refines_andthen [OF forget_dynamic_spec]) (simp split: prod.split)

lemma forget_precision: "refines forget3 (parse_precision b specs ctx) (parse_precision b specs (forget ctx))"
  unfolding parse_precision_def Let_def
  by (intro refines_if refines_andthen [OF forget_dynamic_spec]) (simp_all split: prod.split)

definition forget5 :: "bool \<times> spec_state \<Rightarrow> bool \<times> spec_state" where
  "forget5 = map_prod id (map_prod id (map_prod id (map_prod forget id)))"

lemma forget5_simp [simp]: "forget5 (go, b, specs, ctx, cur) = (go, b, specs, forget ctx, cur)"
  by (simp add: forget5_def)

lemma forget_go_on: "refines forget5 (go_on b specs ctx r) (go_on b specs (forget ctx) r)"
  unfolding go_on_def by (rule refines_same) simp

lemma forget_presentation:
  "refines forget5 (parse_presentation_type t p st b specs ctx cur) (parse_presentation_type t p st b specs (forget ctx) cur)"
  by (simp add: parse_presentation_type_def)

lemma forget_fill: "refines forget5 (parse_fill b specs ctx cur) (parse_fill b specs (forget ctx) cur)"
  unfolding parse_fill_def Let_def by (intro refines_if refines_same) simp_all

lemma forget_step: "refines forget5 (spec_step t c b specs ctx cur) (spec_step t c b specs (forget ctx) cur)"
proof -
  have "refines forget5
      (andthen (parse_width b specs ctx) (\<lambda>(b, specs, ctx). Inr (True, b, specs, ctx, st)))
      (andthen (parse_width b specs (forget ctx)) (\<lambda>(b, specs, ctx). Inr (True, b, specs, ctx, st)))" for st :: state
    by (rule refines_andthen [OF forget_width]) (simp split: prod.split)
  moreover have "refines forget5
      (andthen (parse_precision b specs ctx) (\<lambda>(b, specs, ctx). Inr (True, b, specs, ctx, st)))
      (andthen (parse_precision b specs (forget ctx)) (\<lambda>(b, specs, ctx). Inr (True, b, specs, ctx, st)))" for st :: state
    by (rule refines_andthen [OF forget_precision]) (simp split: prod.split)
  ultimately show ?thesis unfolding spec_step_def
    by (intro refines_if refines_same forget_go_on forget_presentation forget_fill) simp_all
qed

lemma forget_loop: "refines forget3 (specs_loop t c b specs ctx cur) (specs_loop t c b specs (forget ctx) cur)"
proof (induction t c b specs ctx cur rule: specs_loop.induct)
  case (1 t c b specs ctx cur)
  show ?case
  proof (cases "b = []")
    case True
    then show ?thesis by (simp add: specs_loop.simps)
  next
    case False
    have "refines forget3 (if go \<and> b' \<noteq> [] then specs_loop t (hd b') b' specs' ctx' cur' else Inr (b', specs', ctx'))
        (if go \<and> b' \<noteq> [] then specs_loop t (hd b') b' specs' (forget ctx') cur' else Inr (b', specs', forget ctx'))"
      if "spec_step t c b specs ctx cur = Inr (go, b', specs', ctx', cur')" for go b' specs' ctx' cur'
      using 1 [OF False that refl refl refl refl] by (intro refines_if) simp_all
    then show ?thesis using False unfolding specs_loop.simps [of t c b]
      by (auto intro!: refines_andthen [OF forget_step])
  qed
qed

lemma forget_specs:
  "refines forget3 (parse_format_specs b specs ctx t) (parse_format_specs b specs (forget ctx) t)"
  by (simp add: parse_format_specs_def forget_loop split: list.split)

end
