(* ===== verification/Fmt_Format_Props.thy ===== *)
theory Fmt_Format_Props
  imports Fmt_Format Fmt_Parse_Props
begin

text \<open>
  Formatting as a whole: the packed argument list gives back its arguments, no format string makes
  the formatter fault, a format string that passed the check at compile time only fails for the
  reasons the check cannot see, and a format string of texts and empty fields gives the
  concatenation of the texts.
\<close>

section \<open>The packed arguments\<close>

lemma type_code_less: "type_code t < 16"
  by (cases t) simp_all

lemma type_of_type_code [simp]: "type_of_code (type_code t) = t"
  by (cases t) (simp_all add: type_of_code_def)

lemma bit_type_code: "bit (type_code t) n \<Longrightarrow> n < 4"
proof (rule ccontr)
  assume "bit (type_code t) n" and "\<not> n < 4"
  then have "(16 :: nat) \<le> 2 ^ n" using power_increasing [of 4 n "2 :: nat"] by simp
  then show False using \<open>bit (type_code t) n\<close> type_code_less [of t] by (simp add: bit_iff_odd)
qed

lemma bit_encode_types:
  "bit (encode_types ts) k \<longleftrightarrow> k < 64 \<and> k div 4 < length ts \<and> bit (type_code (ts ! (k div 4))) (k mod 4)"
proof (induction ts arbitrary: k)
  case (Cons t ts)
  show ?case
  proof (cases "k < 4")
    case True
    then show ?thesis by (auto simp: packed_arg_bits_def bit_or_iff bit_push_bit_iff bit_of_nat_iff)
  next
    case False
    then have "k div 4 = Suc ((k - 4) div 4)" "k mod 4 = (k - 4) mod 4"
      by (simp_all add: le_div_geq le_mod_geq)
    then show ?thesis using False Cons [of "k - 4"]
      by (auto simp: packed_arg_bits_def bit_or_iff bit_push_bit_iff bit_of_nat_iff dest: bit_type_code)
  qed
qed simp

lemma has_named_bit: "bit has_named_args_bit n \<longleftrightarrow> n = 62" "bit is_unpacked_bit n \<longleftrightarrow> n = 63"
  by (simp_all only: has_named_args_bit_def is_unpacked_bit_def bit_push_bit_iff) (auto simp: bit_1_iff)

lemma packed_type:
  assumes "i < length ts" and "length ts \<le> 15" and "nb = 0 \<or> nb = has_named_args_bit"
  shows "drop_bit (i * packed_arg_bits) (encode_types ts OR nb) AND 15 = word_of_nat (type_code (ts ! i))"
proof (rule bit_word_eqI)
  fix n assume "n < LENGTH(64)"
  have m: "(15 :: 64 word) = mask 4" by (simp add: mask_eq_exp_minus_1)
  have nb: "bit nb k \<Longrightarrow> k = 62" for k using assms(3) by (auto simp: has_named_bit)
  have "i * 4 + n < 60" if "n < 4" using assms(1,2) that by linarith
  moreover have "(i * 4 + n) div 4 = i" "(i * 4 + n) mod 4 = n" if "n < 4" using that by simp_all
  ultimately show "bit (drop_bit (i * packed_arg_bits) (encode_types ts OR nb) AND 15) n
      = bit (word_of_nat (type_code (ts ! i)) :: 64 word) n"
    unfolding m using assms(1) \<open>n < LENGTH(64)\<close> bit_type_code [of "ts ! i" n] nb [of "i * 4 + n"]
    by (auto simp: bit_and_iff bit_drop_bit_eq bit_or_iff bit_mask_iff bit_encode_types bit_of_nat_iff
        packed_arg_bits_def)
qed

lemma unat_type_code: "unat (word_of_nat (type_code t) :: 64 word) = type_code t"
  by (cases t) simp_all

lemma packed_none:
  assumes "length ts \<le> i" and "i < 15" and "nb = 0 \<or> nb = has_named_args_bit"
  shows "drop_bit (i * packed_arg_bits) (encode_types ts OR nb) AND 15 = 0"
proof (rule bit_word_eqI)
  fix n assume "n < LENGTH(64)"
  have m: "(15 :: 64 word) = mask 4" by (simp add: mask_eq_exp_minus_1)
  have nb: "bit nb k \<Longrightarrow> k = 62" for k using assms(3) by (auto simp: has_named_bit)
  have "i * 4 + n < 60" "length ts \<le> (i * 4 + n) div 4" if "n < 4" using assms(1,2) that by auto
  then show "bit (drop_bit (i * packed_arg_bits) (encode_types ts OR nb) AND 15) n = bit 0 n"
    unfolding m using nb [of "i * 4 + n"]
    by (auto simp: bit_and_iff bit_drop_bit_eq bit_or_iff bit_mask_iff bit_encode_types packed_arg_bits_def)
qed

lemma descriptor_packed:
  "length ts \<le> 15 \<Longrightarrow> nb = 0 \<or> nb = has_named_args_bit \<Longrightarrow> (encode_types ts OR nb) AND is_unpacked_bit = 0"
  by (rule bit_word_eqI) (auto simp: bit_and_iff bit_or_iff bit_encode_types has_named_bit)

lemma descriptor_unpacked:
  assumes "n < 2 ^ 31" and nb: "nb = 0 \<or> nb = has_named_args_bit"
  shows "((is_unpacked_bit OR word_of_nat n) OR nb) AND is_unpacked_bit \<noteq> 0"
    and "sint (ucast (((is_unpacked_bit OR word_of_nat n) OR nb) AND NOT is_unpacked_bit) :: 32 word) = int n"
proof -
  have "bit (((is_unpacked_bit OR word_of_nat n) OR nb) AND is_unpacked_bit) 63"
    by (simp add: bit_and_iff bit_or_iff has_named_bit)
  then show "((is_unpacked_bit OR word_of_nat n) OR nb) AND is_unpacked_bit \<noteq> 0" by auto
  have "(ucast (((is_unpacked_bit OR word_of_nat n) OR nb) AND NOT is_unpacked_bit) :: 32 word) = word_of_nat n"
    using nb by (intro bit_word_eqI) (auto simp: bit_simps has_named_bit)
  moreover have "sint (word_of_nat n :: 32 word) = int n"
    using assms(1) by (simp add: signed_of_nat signed_take_bit_int_eq_self_iff)
  ultimately show "sint (ucast (((is_unpacked_bit OR word_of_nat n) OR nb) AND NOT is_unpacked_bit) :: 32 word) = int n"
    by simp
qed

text \<open>
  The arguments of a call are values; that there are less than \<open>2 ^ 31\<close> and that the number of a
  named argument is that of an argument is checked by the compiler.
\<close>

definition args_ok :: "'f fmt_arg list \<Rightarrow> (string \<times> int) list \<Rightarrow> bool" where
  "args_ok args named \<longleftrightarrow> length args < 2 ^ 31 \<and> No_arg \<notin> set args \<and>
     (\<forall>(n, i) \<in> set named. 0 \<le> i \<and> i < int (length args))"

lemma type_none [simp]: "type_of_arg a = none_type \<longleftrightarrow> a = No_arg"
  by (cases a) simp_all

definition arg_at :: "'f fmt_arg list \<Rightarrow> int \<Rightarrow> 'f fmt_arg" where
  "arg_at args i = (if 0 \<le> i \<and> nat i < length args then args ! nat i else No_arg)"

lemma type_of_code_0: "type_of_code 0 = none_type"
  by (simp add: type_of_code_def)

lemma args_get_make:
  assumes "args_ok args named" and "0 \<le> i"
  shows "args_get (make_format_args args named) i = Inr (arg_at args i)"
proof -
  define nb where "nb = (if named \<noteq> [] then has_named_args_bit else 0)"
  have nb: "nb = 0 \<or> nb = has_named_args_bit" by (simp add: nb_def)
  define ts where "ts = map type_of_arg args"
  have make: "make_format_args args named = \<lparr>fa_desc = make_descriptor ts OR nb, fa_args = args, fa_named = named\<rparr>"
    by (simp add: make_format_args_def nb_def ts_def)
  have len: "length ts = length args" by (simp add: ts_def)
  have nth: "ts ! k = type_of_arg (args ! k)" if "k < length args" for k using that by (simp add: ts_def)
  show ?thesis
  proof (cases "length args \<le> 15")
    case True
    have d: "make_descriptor ts = encode_types ts"
      using True len by (simp add: make_descriptor_def max_packed_args_def packed_arg_bits_def)
    have ty: "args_type (make_format_args args named) (nat i)
        = (if nat i < length args then type_of_arg (args ! nat i) else none_type)" if "nat i < 15"
      using packed_type [of "nat i" ts nb] packed_none [of ts "nat i" nb] True nb that len
      by (auto simp: args_type_def make d unat_type_code nth type_of_code_0)
    have in_args: "args ! nat i \<noteq> No_arg" if "nat i < length args"
      using assms(1) nth_mem [OF that] unfolding args_ok_def by metis
    show ?thesis using assms(2) True ty [unfolded make] in_args descriptor_packed [of ts nb] nb len
      unfolding make
      by (auto simp: args_get_def is_packed_def d max_packed_args_def packed_arg_bits_def arg_at_def at_index_def)
  next
    case False
    have d: "make_descriptor ts = is_unpacked_bit OR word_of_nat (length args)"
      using False len by (simp add: make_descriptor_def max_packed_args_def packed_arg_bits_def)
    have n: "length args < 2 ^ 31" using assms(1) by (simp add: args_ok_def)
    show ?thesis using assms(2) descriptor_unpacked [OF n nb]
      by (auto simp: args_get_def is_packed_def args_max_size_def make d arg_at_def at_index_def)
  qed
qed

lemma find_name_ok: "(\<forall>(n, i) \<in> set named. 0 \<le> i \<and> i < k) \<Longrightarrow> find_name named n = - 1 \<or> 0 \<le> find_name named n"
  by (induction named n rule: find_name.induct) auto

lemma has_named_make:
  assumes "args_ok args named"
  shows "has_named_args (make_format_args args named) \<longleftrightarrow> named \<noteq> []"
proof -
  have n: "bit (make_descriptor (map type_of_arg args)) 62 = False"
  proof (cases "length args \<le> 15")
    case True
    then show ?thesis by (simp add: make_descriptor_def max_packed_args_def packed_arg_bits_def bit_encode_types)
  next
    case False
    have "length args < 2 ^ 62" using assms by (simp add: args_ok_def)
    then have "\<not> bit (length args) 62" by (simp add: bit_iff_odd)
    then show ?thesis using False
      by (simp add: make_descriptor_def max_packed_args_def packed_arg_bits_def bit_or_iff has_named_bit bit_of_nat_iff)
  qed
  have "has_named_args (make_format_args args named) \<longleftrightarrow> bit (fa_desc (make_format_args args named)) 62"
  proof -
    have "w AND has_named_args_bit \<noteq> 0 \<longleftrightarrow> bit w 62" for w
    proof
      assume "bit w 62"
      then have "bit (w AND has_named_args_bit) 62" by (simp add: bit_and_iff has_named_bit)
      then show "w AND has_named_args_bit \<noteq> 0" by auto
    next
      assume "w AND has_named_args_bit \<noteq> 0"
      then obtain k where "bit (w AND has_named_args_bit) k" by (metis bit_0_eq bit_eqI bot_apply bot_bool_def)
      then show "bit w 62" by (auto simp: bit_and_iff has_named_bit)
    qed
    then show ?thesis by (simp add: has_named_args_def)
  qed
  then show ?thesis using n by (auto simp: make_format_args_def bit_or_iff has_named_bit)
qed

lemma args_get_id_make:
  "args_ok args named \<Longrightarrow> args_get_id (make_format_args args named) n = find_name named n"
  by (cases named) (simp_all add: args_get_id_def has_named_make, simp_all add: make_format_args_def)

lemma get_id_ok: "args_ok args named \<Longrightarrow>
    args_get_id (make_format_args args named) n = - 1 \<or> 0 \<le> args_get_id (make_format_args args named) n"
  using find_name_ok [of named "int (length args)" n]
  by (auto simp: args_get_id_def make_format_args_def args_ok_def)

lemma args_get_name_make:
  "args_ok args named \<Longrightarrow> args_get_name (make_format_args args named) n =
    Inr (arg_at args (args_get_id (make_format_args args named) n))"
  using get_id_ok [of args named n] args_get_make [of args named]
  by (auto simp: args_get_name_def Let_def arg_at_def)

section \<open>No faults in the output\<close>

text \<open>An argument in the range of its kind; a formatter of a user-defined type that does not fault.\<close>

fun arg_ok :: "'f fmt_arg \<Rightarrow> bool" where
  "arg_ok (Int_arg v) = (- (2 ^ 31) \<le> v \<and> v < 2 ^ 31)"
| "arg_ok (Uint_arg n) = (n < 2 ^ 32)"
| "arg_ok (Long_long_arg v) = (- (2 ^ 63) \<le> v \<and> v < 2 ^ 63)"
| "arg_ok (Ulong_long_arg n) = (n < 2 ^ 64)"
| "arg_ok (Int128_arg v) = (- (2 ^ 127) \<le> v \<and> v < 2 ^ 127)"
| "arg_ok (Uint128_arg n) = (n < 2 ^ 128)"
| "arg_ok (Custom_arg f) =
     (\<forall>b ctx. no_fault (f b ctx) \<and> (\<forall>b' ctx' t. f b ctx = Inr (b', ctx', t) \<longrightarrow> length b' \<le> length b))"
| "arg_ok _ = True"

lemma widths [simp]: "32 \<in> int_widths" "64 \<in> int_widths" "128 \<in> int_widths"
  by (simp_all add: int_widths_def)

lemma specs_type_less: "unat (specs_type specs) < 8"
proof -
  have "specs_type specs = take_bit 3 (data_w specs)"
    by (simp add: specs_type_def type_mask_def take_bit_eq_mask mask_eq_exp_minus_1)
  then show ?thesis using take_bit_nat_less_exp [of 3 "unat (data_w specs)"] by (simp add: unsigned_take_bit_eq)
qed

lemma specs_type_cases: "specs_type specs \<in> {0, 1, 2, 3, 4, 5, 6, 7}"
proof -
  define n where "n = unat (specs_type specs)"
  have w: "specs_type specs = word_of_nat n" by (simp add: n_def)
  have "n < 8" using specs_type_less by (simp add: n_def)
  then have "n = 0 \<or> n = 1 \<or> n = 2 \<or> n = 3 \<or> n = 4 \<or> n = 5 \<or> n = 6 \<or> n = 7" by linarith
  then show ?thesis unfolding w by (elim disjE) simp_all
qed

text \<open>An integer is written, as a number or as a character.\<close>

lemma write_integer_total:
  assumes "w \<in> int_widths" and "\<bar>v\<bar> < 2 ^ w" and "specs_ok t specs"
    and "specs_type specs \<noteq> 1" and "specs_type specs \<noteq> 2"
  shows "\<exists>u. write_integer w v specs = Inr u"
proof (cases "specs_type specs = pres_chr")
  case True
  then show ?thesis using write_char_total assms(3) by (simp add: write_integer_def write_int_def specs_ok_def)
next
  case False
  then have "specs_type specs \<in> int_types"
    using assms(4,5) specs_type_cases [of specs] by (auto simp: int_types_def pres_defs)
  then show ?thesis using write_integer_text [OF assms(1,2), of specs] assms(3) by (simp add: specs_ok_def)
qed

text \<open>The errors of a result are among \<open>E\<close>.\<close>

definition only :: "fmt_error set \<Rightarrow> fmt_error + 'a \<Rightarrow> bool" where
  "only E r \<longleftrightarrow> (\<forall>e. r = Inl e \<longrightarrow> e \<in> E)"

lemma only_simps [simp]: "only E (Inr x)" "only E (Inl e) \<longleftrightarrow> e \<in> E" "only E (report_error m) \<longleftrightarrow> Format_error m \<in> E"
  by (simp_all add: only_def report_error_def)

lemma only_andthen: "only E m \<Longrightarrow> (\<And>x. m = Inr x \<Longrightarrow> only E (f x)) \<Longrightarrow> only E (andthen m f)"
  by (auto simp: only_def andthen_Inl_iff)

lemma only_total: "\<exists>x. r = Inr x \<Longrightarrow> only E r"
  by auto

lemma only_mono: "only E r \<Longrightarrow> E \<subseteq> F \<Longrightarrow> only F r"
  by (auto simp: only_def)

lemma no_fault_only: "no_fault r \<longleftrightarrow> only (range Format_error) r"
proof -
  have "e \<in> range Format_error \<longleftrightarrow> (\<forall>f. e \<noteq> Fmt_fault f)" for e by (cases e) auto
  then show ?thesis by (auto simp: no_fault_def only_def)
qed

definition null_string :: fmt_error where "null_string = Format_error ''string pointer is null''"

text \<open>
  The errors of the parameters: what the writers of floating point numbers may report for an
  argument, and what the locale may report for the integer that it is taken as.
\<close>

definition locale_errors :: "'f fmt_io \<Rightarrow> 'f fmt_arg \<Rightarrow> fmt_error set" where
  "locale_errors io arg = {e. \<exists>specs. io_locale io arg specs = Some (Inl e)}"

definition float_errors :: "'f fmt_io \<Rightarrow> arg_type \<Rightarrow> 'f \<Rightarrow> fmt_error set" where
  "float_errors io t x = {e. \<exists>specs. io_float io t x specs = Inl e}"

fun writer_errors :: "'f fmt_io \<Rightarrow> 'f fmt_arg \<Rightarrow> fmt_error set" where
  "writer_errors io (Float_arg x) = float_errors io float_type x"
| "writer_errors io (Double_arg x) = float_errors io double_type x"
| "writer_errors io (Long_double_arg x) = float_errors io long_double_type x"
| "writer_errors io (Bool_arg b) = locale_errors io (Int_arg (if b then 1 else 0))"
| "writer_errors io (Char_arg c) = locale_errors io (Uint_arg (of_char c))"
| "writer_errors io No_arg = {}"
| "writer_errors io (Cstring_arg a s) = {}"
| "writer_errors io (String_arg s) = {}"
| "writer_errors io (Pointer_arg p) = {}"
| "writer_errors io (Custom_arg f) = {}"
| "writer_errors io arg = locale_errors io arg"

lemma localized_only: "only E r \<Longrightarrow> locale_errors io arg \<subseteq> E \<Longrightarrow> only E (localized_or io arg specs r)"
  by (auto simp: localized_or_def locale_errors_def only_def split: option.split)

lemma float_only: "float_errors io t x \<subseteq> E \<Longrightarrow> only E (io_float io t x specs)"
  by (auto simp: float_errors_def only_def)

lemma check_char_cases:
  assumes "check_char_specs specs = Inr b"
  shows "b \<longleftrightarrow> specs_type specs \<in> {pres_none, pres_chr, pres_debug}"
  using assms by (auto simp: check_char_specs_def split: if_splits)

lemma write_char_arg_total:
  assumes "specs_ok char_type specs" and "check_char_specs specs = Inr b"
  shows "\<exists>t. write_char_arg c specs = Inr t"
proof (cases b)
  case True
  then show ?thesis using assms write_char_total by (simp add: write_char_arg_def specs_ok_def)
next
  case False
  then have "specs_type specs \<noteq> 1" "specs_type specs \<noteq> 2"
    using check_char_cases [OF assms(2)] assms(1) by (auto simp: specs_ok_def type_ok_def pres_defs)
  moreover have "\<bar>of_char c :: int\<bar> < 2 ^ 32"
  proof -
    have e: "(of_char c :: int) = int (of_char c)" by (rule of_nat_of_char [symmetric])
    have l: "int (of_char c) < 256" by (metis nat_of_char_less_256 of_nat_less_iff of_nat_numeral)
    show ?thesis unfolding e abs_of_nat by (rule order_less_trans [OF l]) simp
  qed
  ultimately show ?thesis using False assms write_integer_total [of 32 "of_char c" char_type specs]
    by (simp add: write_char_arg_def)
qed

lemma write_bool_total:
  assumes "specs_ok bool_type specs"
  shows "\<exists>t. write_bool b specs = Inr t"
proof (cases "specs_type specs \<noteq> pres_none \<and> specs_type specs \<noteq> pres_string")
  case True
  then have "specs_type specs \<noteq> 1" "specs_type specs \<noteq> 2"
    using assms by (auto simp: specs_ok_def type_ok_def pres_defs)
  then show ?thesis using True write_integer_total [of 32 "if b then 1 else 0" bool_type specs] assms
    by (simp add: write_bool_def)
next
  case False
  then show ?thesis using assms write_padded_total by (auto simp: write_bool_def write_bytes_def specs_ok_def)
qed

lemma write_ptr_total: "specs_ok t specs \<Longrightarrow> \<exists>u. write_ptr p specs = Inr u"
  using write_ptr_text by (simp add: specs_ok_def)

lemma write_with_only:
  assumes "arg_ok arg" and "arg \<noteq> No_arg" and specs: "specs_ok (type_of_arg arg) specs"
  shows "only ({null_string} \<union> {e. type_of_arg arg = char_type \<and> check_char_specs specs = Inl e} \<union> writer_errors io arg)
    (write_with io specs arg)"
proof (cases arg)
  case (Char_arg c)
  then show ?thesis using write_char_arg_total [of specs _ c] specs
    by (cases "check_char_specs specs") (auto intro!: localized_only)
next
  case (Bool_arg b)
  then show ?thesis using write_bool_total [of specs b] specs by (auto intro!: localized_only)
next
  case (Cstring_arg a s)
  then show ?thesis using write_ptr_total [OF specs] write_string_total [of specs s] specs
    by (auto intro!: only_total simp: null_string_def specs_ok_def)
next
  case (String_arg s)
  then show ?thesis using write_string_total [of specs s] specs by (auto intro!: only_total simp: specs_ok_def)
next
  case (Pointer_arg p)
  then show ?thesis using write_ptr_total [OF specs] by (auto intro!: only_total)
qed (use assms in \<open>auto intro!: localized_only [OF only_total] float_only write_integer_total
    simp: specs_ok_def type_ok_def pres_defs\<close>)

lemma write_default_only:
  assumes "arg_ok arg" and "arg \<noteq> No_arg" and "\<And>f. arg \<noteq> Custom_arg f"
  shows "only ({null_string} \<union> writer_errors io arg) (write_default io arg)"
proof (cases arg)
  case (Bool_arg b)
  then show ?thesis using write_bool_total [of format_specs_new b] by auto
next
  case (Pointer_arg q)
  then show ?thesis using write_ptr_total [OF specs_ok_new] by (auto intro!: only_total)
next
  case (Cstring_arg a t)
  then show ?thesis by (simp add: null_string_def)
qed (use assms in \<open>auto intro!: float_only simp: write_default_int_text abs_less_iff\<close>)

text \<open>The writers of an argument do not fault.\<close>

definition writers_ok :: "'f fmt_io \<Rightarrow> 'f fmt_arg \<Rightarrow> bool" where
  "writers_ok io arg \<longleftrightarrow> writer_errors io arg \<subseteq> range Format_error"

lemma no_fault_write_default: "arg_ok arg \<Longrightarrow> writers_ok io arg \<Longrightarrow> no_fault (write_default io arg)"
proof (cases "arg = No_arg \<or> (\<exists>f. arg = Custom_arg f)")
  case True
  assume "arg_ok arg"
  then show ?thesis using True by (auto intro!: no_fault_andthen)
next
  case False
  assume "arg_ok arg" "writers_ok io arg"
  then show ?thesis unfolding no_fault_only using False
    by (intro only_mono [OF write_default_only]) (auto simp: null_string_def writers_ok_def)
qed

lemma no_fault_write_with:
  "arg_ok arg \<Longrightarrow> arg \<noteq> No_arg \<Longrightarrow> specs_ok (type_of_arg arg) specs \<Longrightarrow> writers_ok io arg \<Longrightarrow>
    no_fault (write_with io specs arg)"
  unfolding no_fault_only by (rule only_mono [OF write_with_only])
    (auto simp: null_string_def check_char_specs_def report_error_def writers_ok_def split: if_splits)

section \<open>Dynamic width and precision\<close>

definition not_integer :: fmt_error where "not_integer = Format_error ''width/precision is not integer''"
definition out_of_range :: fmt_error where "out_of_range = Format_error ''width/precision is out of range''"
definition not_found :: fmt_error where "not_found = Format_error ''argument not found''"

lemma dynamic_spec_getter_only: "only {not_integer} (dynamic_spec_getter arg)"
  by (cases arg) (simp_all add: not_integer_def)

lemma get_dynamic_spec_ok:
  assumes "args_ok args named" and "ref_ok r"
  shows "only {not_integer, out_of_range, not_found} (get_dynamic_spec k r (make_format_args args named))"
    and "get_dynamic_spec k r (make_format_args args named) = Inr v \<Longrightarrow> 0 \<le> v \<and> v \<le> INT_MAX"
proof -
  have "\<exists>a. (case r of Ref_index i \<Rightarrow> args_get (make_format_args args named) i
      | Ref_name n \<Rightarrow> args_get_name (make_format_args args named) n) = Inr a"
    using assms by (cases r) (simp_all add: args_get_make ref_ok_def args_get_name_make)
  then obtain a where a: "(case r of Ref_index i \<Rightarrow> args_get (make_format_args args named) i
      | Ref_name n \<Rightarrow> args_get_name (make_format_args args named) n) = Inr a" by blast
  have "only {not_integer, out_of_range, not_found} (dynamic_spec_getter a)"
    by (rule only_mono [OF dynamic_spec_getter_only]) simp
  then show "only {not_integer, out_of_range, not_found} (get_dynamic_spec k r (make_format_args args named))"
    unfolding get_dynamic_spec_def a by (auto intro!: only_andthen simp: not_found_def out_of_range_def)
  show "get_dynamic_spec k r (make_format_args args named) = Inr v \<Longrightarrow> 0 \<le> v \<and> v \<le> INT_MAX"
    unfolding get_dynamic_spec_def a by (auto simp: andthen_Inr_iff split: if_splits)
qed

lemma handle_dynamic_spec_ok:
  assumes "args_ok args named" and "ref_ok r"
  shows "only {not_integer, out_of_range, not_found} (handle_dynamic_spec k v r (make_format_args args named))"
    and "handle_dynamic_spec k v r (make_format_args args named) = Inr u \<Longrightarrow> u = v \<or> 0 \<le> u \<and> u \<le> INT_MAX"
  using get_dynamic_spec_ok [OF assms] by (simp_all add: handle_dynamic_spec_def split: if_splits)

lemma specs_data_eq: "data_w s = data_w t \<Longrightarrow> check_char_specs s = check_char_specs t"
  using getters_of_data [of s t] by (simp add: check_char_specs_def)

lemma resolve_specs_ok:
  assumes args: "args_ok args named" and specs: "specs_ok t specs"
  shows "only {not_integer, out_of_range, not_found} (resolve_specs (make_format_args args named) specs)"
    and "resolve_specs (make_format_args args named) specs = Inr specs' \<Longrightarrow>
      specs_ok t specs' \<and> data_w specs' = data_w specs"
proof -
  have r: "ref_ok (width_ref specs)" "ref_ok (precision_ref specs)" using specs by (simp_all add: specs_ok_def)
  note w = handle_dynamic_spec_ok [OF args r(1)] and p = handle_dynamic_spec_ok [OF args r(2)]
  show "only {not_integer, out_of_range, not_found} (resolve_specs (make_format_args args named) specs)"
    unfolding resolve_specs_def using w(1) p(1) by (auto intro!: only_andthen)
  show "resolve_specs (make_format_args args named) specs = Inr specs' \<Longrightarrow>
      specs_ok t specs' \<and> data_w specs' = data_w specs"
    unfolding resolve_specs_def using specs
    by (auto simp: andthen_Inr_iff specs_ok_def specs_type_def split: if_splits dest!: w(2) p(2))
qed

section \<open>Any format string\<close>

text \<open>
  What the parser of format strings relies on: the handler does not fault on the numbers it gave
  out itself, and what follows the specifiers is a part of the text it got.
\<close>

definition handler_safe :: "'s handler \<Rightarrow> bool" where
  "handler_safe h \<longleftrightarrow>
     (\<forall>s. no_fault (on_next_arg_id h s) \<and> (\<forall>i s'. on_next_arg_id h s = Inr (i, s') \<longrightarrow> 0 \<le> i)) \<and>
     (\<forall>k s. 0 \<le> k \<longrightarrow> no_fault (on_arg_index h k s) \<and> (\<forall>i s'. on_arg_index h k s = Inr (i, s') \<longrightarrow> 0 \<le> i)) \<and>
     (\<forall>n s. no_fault (on_arg_name h n s) \<and> (\<forall>i s'. on_arg_name h n s = Inr (i, s') \<longrightarrow> 0 \<le> i)) \<and>
     (\<forall>i b s. 0 \<le> i \<longrightarrow> no_fault (on_replacement_field h i b s)) \<and>
     (\<forall>i b s. 0 \<le> i \<longrightarrow> no_fault (on_format_specs h i b s) \<and>
        (\<forall>b' s'. on_format_specs h i b s = Inr (b', s') \<longrightarrow> length b' \<le> length b))"

lemma handler_safeD:
  assumes "handler_safe h"
  shows "no_fault (on_next_arg_id h s)" and "on_next_arg_id h s = Inr (i, s') \<Longrightarrow> 0 \<le> i"
    and "0 \<le> k \<Longrightarrow> no_fault (on_arg_index h k s)" and "0 \<le> k \<Longrightarrow> on_arg_index h k s = Inr (i, s') \<Longrightarrow> 0 \<le> i"
    and "no_fault (on_arg_name h n s)" and "on_arg_name h n s = Inr (i, s') \<Longrightarrow> 0 \<le> i"
    and "0 \<le> i \<Longrightarrow> no_fault (on_replacement_field h i b s)"
    and "0 \<le> i \<Longrightarrow> no_fault (on_format_specs h i b s)"
    and "0 \<le> i \<Longrightarrow> on_format_specs h i b s = Inr (b', s') \<Longrightarrow> length b' \<le> length b"
  using assms unfolding handler_safe_def by blast+

lemma no_fault_replacement_specs:
  assumes "handler_safe h" and "0 \<le> i"
  shows "no_fault (replacement_specs h i b s)"
  unfolding replacement_specs_def
  by (intro no_fault_andthen handler_safeD(8) [OF assms]) (auto dest: handler_safeD(9) [OF assms])

lemma no_fault_replacement_field:
  assumes h: "handler_safe h"
  shows "no_fault (parse_replacement_field h b s)"
proof (cases b)
  case (Cons c cs)
  have id: "no_fault (id_adapter h r s)" "id_adapter h r s = Inr (i, s') \<Longrightarrow> 0 \<le> i" if "ref_ok r" for r i s'
    using that handler_safeD(3-6) [OF h] by (auto simp: id_adapter_def ref_ok_def split: arg_ref.splits)
  note arg = parse_arg_id_ok [of b] and auto_id = handler_safeD(1,2) [OF h] and field = handler_safeD(7) [OF h]
  have "no_fault (andthen (parse_arg_id b) (\<lambda>(r, b).
            andthen (id_adapter h r s) (\<lambda>(i, s).
            if b \<noteq> [] \<and> hd b = CHR ''}''
            then andthen (on_replacement_field h i b s) (\<lambda>s. Inr (tl b, s))
            else if b = [] \<or> hd b \<noteq> CHR '':'' then report_error (''missing '' @ quoted_brace @ '' in format string'')
            else replacement_specs h i (tl b) s)))"
    using arg Cons by (auto intro!: no_fault_andthen id(1) field no_fault_replacement_specs [OF h] dest: id(2))
  moreover have "no_fault (andthen (on_next_arg_id h s) (\<lambda>(i, s). andthen (on_replacement_field h i b s) (\<lambda>s. Inr (cs, s))))"
    by (auto intro!: no_fault_andthen auto_id(1) field dest: auto_id(2))
  moreover have "no_fault (andthen (on_next_arg_id h s) (\<lambda>(i, s). replacement_specs h i cs s))"
    by (auto intro!: no_fault_andthen auto_id(1) no_fault_replacement_specs [OF h] dest: auto_id(2))
  ultimately show ?thesis unfolding parse_replacement_field_def Cons list.case
    by (cases "c = CHR ''}''"; cases "c = CHR '':''") simp_all
qed (simp add: parse_replacement_field_def)

lemma no_fault_format_string_loop: "handler_safe h \<Longrightarrow> no_fault (format_string_loop h pending p s)"
proof (induction h pending p s rule: format_string_loop.induct)
  case (2 h pending c p s)
  then show ?case by (auto intro!: no_fault_andthen no_fault_replacement_field)
qed simp

text \<open>The handler that formats is safe.\<close>

lemma arg_at_ok:
  "args_ok args named \<Longrightarrow> \<forall>a \<in> set args. arg_ok a \<and> writers_ok io a \<Longrightarrow> arg_ok (arg_at args i) \<and> writers_ok io (arg_at args i)"
  by (simp add: arg_at_def writers_ok_def)

lemma no_fault_format_specs:
  assumes args: "args_ok args named" "\<forall>a \<in> set args. arg_ok a \<and> writers_ok io a" and i: "0 \<le> i"
  shows "no_fault (fh_format_specs io (make_format_args args named) i b s)"
    and "fh_format_specs io (make_format_args args named) i b s = Inr (b', s') \<Longrightarrow> length b' \<le> length b"
proof -
  define arg where "arg = arg_at args i"
  have ok: "arg_ok arg" "writers_ok io arg" unfolding arg_def using arg_at_ok [OF args] by blast+
  have get: "get_arg (make_format_args args named) i = (if arg = No_arg then report_error ''argument not found'' else Inr arg)"
    by (simp add: get_arg_def args_get_make [OF args(1) i] arg_def)
  have native: "no_fault (andthen (parse_format_specs b format_specs_new (fh_ctx s) (type_of_arg arg)) (\<lambda>(b, specs, ctx).
         andthen (resolve_specs (make_format_args args named) specs) (\<lambda>specs.
         andthen (write_with io specs arg) (\<lambda>t. Inr (b, fh_append t (s\<lparr>fh_ctx := ctx\<rparr>))))))" if "arg \<noteq> No_arg"
  proof (rule no_fault_andthen)
    show "no_fault (parse_format_specs b format_specs_new (fh_ctx s) (type_of_arg arg))" by (rule parse_format_specs_ok)
    fix r assume r: "parse_format_specs b format_specs_new (fh_ctx s) (type_of_arg arg) = Inr r"
    obtain b1 specs ctx where r': "r = (b1, specs, ctx)" by (cases r)
    have specs: "specs_ok (type_of_arg arg) specs" using r parse_format_specs_ok(2) unfolding r' by blast
    note res = resolve_specs_ok [OF args(1) specs]
    have "no_fault (resolve_specs (make_format_args args named) specs)"
      unfolding no_fault_only by (rule only_mono [OF res(1)]) (auto simp: not_integer_def out_of_range_def not_found_def)
    then show "no_fault (case r of (b, specs, ctx) \<Rightarrow>
         andthen (resolve_specs (make_format_args args named) specs) (\<lambda>specs.
         andthen (write_with io specs arg) (\<lambda>t. Inr (b, fh_append t (s\<lparr>fh_ctx := ctx\<rparr>)))))"
      unfolding r' using res(2) no_fault_write_with [OF ok(1) that _ ok(2)] by (auto intro!: no_fault_andthen)
  qed
  show "no_fault (fh_format_specs io (make_format_args args named) i b s)"
  proof (cases arg)
    case (Custom_arg f)
    then show ?thesis unfolding fh_format_specs_def get using ok by (auto intro!: no_fault_andthen)
  qed (use native in \<open>simp_all add: fh_format_specs_def get report_error_def\<close>)
  show "length b' \<le> length b" if "fh_format_specs io (make_format_args args named) i b s = Inr (b', s')"
  proof (cases arg)
    case (Custom_arg f)
    then have "f b c = Inr (b1, c1, t) \<Longrightarrow> length b1 \<le> length b" for c b1 c1 t using ok by fastforce
    then show ?thesis using that Custom_arg unfolding fh_format_specs_def get by (auto simp: andthen_Inr_iff)
  qed (use that in \<open>auto simp: fh_format_specs_def get andthen_Inr_iff dest: parse_format_specs_rest\<close>)
qed

lemma format_handler_safe:
  assumes args: "args_ok args named" "\<forall>a \<in> set args. arg_ok a \<and> writers_ok io a"
  shows "handler_safe (format_handler io (make_format_args args named))"
  unfolding handler_safe_def format_handler_def
  using no_fault_format_specs [OF args] get_id_ok [OF args(1)] args_get_make [OF args(1)] arg_at_ok [OF args]
  by (auto simp: fh_next_arg_id_def fh_arg_index_def fh_arg_name_def fh_replacement_field_def Let_def andthen_Inr_iff
      intro!: no_fault_andthen no_fault_write_default dest: next_arg_id_nonneg split: if_splits)

lemma no_fault_vformat:
  assumes "args_ok args named" and "\<forall>a \<in> set args. arg_ok a \<and> writers_ok io a"
  shows "no_fault (vformat io fmt (make_format_args args named))"
  unfolding vformat_def vformat_to_def parse_format_string_def
  using args_get_make [OF assms(1), of 0] no_fault_write_default [of "arg_at args 0" io] arg_at_ok [OF assms, of 0]
    no_fault_format_string_loop [OF format_handler_safe [OF assms]]
  by (auto intro!: no_fault_andthen)

section \<open>Checked format strings\<close>

text \<open>The errors that are left to run time, with those of the writers that are parameters.\<close>

definition late_errors :: "'f fmt_io \<Rightarrow> 'f fmt_arg list \<Rightarrow> fmt_error set" where
  "late_errors io args = {not_integer, out_of_range, not_found, null_string} \<union> (\<Union>a \<in> set args. writer_errors io a)"

text \<open>
  If the first result is a value, then the second one is a value related to it or an error that is
  left to run time.
\<close>

definition sim :: "fmt_error set \<Rightarrow> ('a \<Rightarrow> 'b \<Rightarrow> bool) \<Rightarrow> fmt_error + 'a \<Rightarrow> fmt_error + 'b \<Rightarrow> bool" where
  "sim L R r r' \<longleftrightarrow> (\<forall>x. r = Inr x \<longrightarrow> (case r' of Inl e \<Rightarrow> e \<in> L | Inr y \<Rightarrow> R x y))"

lemma sim_simps [simp]: "sim L R (Inr x) (Inr y) \<longleftrightarrow> R x y" "sim L R (report_error m) r'" "sim L R (Inl e) r'"
  by (simp_all add: sim_def report_error_def)

lemma sim_andthen:
  "sim L R m m' \<Longrightarrow> (\<And>x y. m = Inr x \<Longrightarrow> m' = Inr y \<Longrightarrow> R x y \<Longrightarrow> sim L S (f x) (f' y)) \<Longrightarrow> sim L S (andthen m f) (andthen m' f')"
  unfolding sim_def by (cases m; cases m') auto

lemma sim_same: "(\<And>x. m = Inr x \<Longrightarrow> sim L S (f x) (f' x)) \<Longrightarrow> sim L S (andthen m f) (andthen m f')"
  unfolding sim_def by (cases m) auto

lemma sim_right: "only L m' \<Longrightarrow> (\<And>y. m' = Inr y \<Longrightarrow> sim L S r (f' y)) \<Longrightarrow> sim L S r (andthen m' f')"
  unfolding sim_def only_def by (cases m') auto

lemma sim_if: "(c \<Longrightarrow> sim L R x x') \<Longrightarrow> (\<not> c \<Longrightarrow> sim L R y y') \<Longrightarrow> sim L R (if c then x else y) (if c then x' else y')"
  by simp

lemma sim_refines: "refines g m m' \<Longrightarrow> sim L (\<lambda>x y. y = g x) m m'"
  by (simp add: refines_def sim_def)

definition same_ctx :: "parse_context \<Rightarrow> format_state \<Rightarrow> bool" where
  "same_ctx ctx s \<longleftrightarrow> fh_ctx s = forget ctx"

definition same_id :: "int \<times> parse_context \<Rightarrow> int \<times> format_state \<Rightarrow> bool" where
  "same_id x y \<longleftrightarrow> fst x = fst y \<and> 0 \<le> fst x \<and> same_ctx (snd x) (snd y)"

definition same_rest :: "string \<times> parse_context \<Rightarrow> string \<times> format_state \<Rightarrow> bool" where
  "same_rest x y \<longleftrightarrow> fst x = fst y \<and> same_ctx (snd x) (snd y)"

lemma same_ctx_append [simp]: "same_ctx ctx (fh_append t s) \<longleftrightarrow> same_ctx ctx s"
  by (simp add: same_ctx_def fh_append_def)

definition checker_of :: "'f fmt_arg list \<Rightarrow> (nat \<Rightarrow> string \<Rightarrow> parse_context \<Rightarrow> fmt_error + (string \<times> parse_context)) \<Rightarrow> checker" where
  "checker_of args custom = \<lparr>ck_types = map type_of_arg args, ck_names = [], ck_dynamic_names = False, ck_custom = custom\<rparr>"

lemma sim_next_arg_id: "same_ctx ctx s \<Longrightarrow> sim L same_id (next_arg_id ctx) (fh_next_arg_id s)"
proof -
  assume s: "same_ctx ctx s"
  have "sim L same_id (andthen (next_arg_id ctx) Inr) (fh_next_arg_id s)"
    unfolding fh_next_arg_id_def s [unfolded same_ctx_def]
    by (rule sim_andthen [OF sim_refines [OF forget_next_arg_id]])
      (auto simp: same_id_def same_ctx_def dest: next_arg_id_nonneg)
  then show ?thesis by simp
qed

lemma sim_arg_index: "same_ctx ctx s \<Longrightarrow> 0 \<le> i \<Longrightarrow> sim L same_id (ck_arg_index i ctx) (fh_arg_index i s)"
  unfolding ck_arg_index_def fh_arg_index_def same_ctx_def
  by (simp only:) (rule sim_andthen [OF sim_refines [OF forget_check_arg_id]], simp add: same_id_def same_ctx_def)

text \<open>At the brace the specifiers are empty for both.\<close>

lemma parse_specs_brace:
  assumes "b = [] \<or> hd b = CHR ''}''"
  shows "parse_format_specs b specs ctx t = Inr (b, specs, ctx)"
proof (cases b)
  case (Cons c cs)
  then have c: "c = CHR ''}''" using assms by simp
  have "spec_step t CHR ''}'' b specs ctx St_start = Inr (False, b, specs, ctx, St_start)"
    unfolding spec_step_def by (simp add: between_def)
  moreover have "spec_step t CHR 0x00 b specs ctx St_start = Inr (False, b, specs, ctx, St_start)"
    unfolding spec_step_def by (simp add: between_def parse_fill_def Cons c)
  ultimately have "specs_loop t c' b specs ctx St_start = Inr (b, specs, ctx)" if "c' = CHR ''}'' \<or> c' = CHR 0x00" for c'
    using that Cons by (subst specs_loop.simps) auto
  then show ?thesis unfolding parse_format_specs_def Cons c by (auto split: list.split)
qed (simp add: parse_format_specs_def)

lemma sim_format_specs:
  assumes args: "args_ok args []" "\<forall>a \<in> set args. arg_ok a" and custom: "\<And>f. Custom_arg f \<notin> set args"
    and s: "same_ctx ctx s" and i: "0 \<le> i"
  shows "sim (late_errors io args) same_rest (ck_format_specs (checker_of args cu) i b ctx)
    (fh_format_specs io (make_format_args args []) i b s)"
proof (cases "nat i < length args")
  case False
  then show ?thesis using i
    by (simp add: fh_format_specs_def get_arg_def args_get_make [OF args(1) i] arg_at_def ck_format_specs_def
        checker_of_def sim_def report_error_def late_errors_def not_found_def)
next
  case True
  define arg where "arg = args ! nat i"
  have arg: "arg \<in> set args" using True by (simp add: arg_def)
  then have ok: "arg_ok arg" "arg \<noteq> No_arg" "\<And>f. arg \<noteq> Custom_arg f"
    using args custom by (auto simp: args_ok_def)
  have at: "arg_at args i = arg" using True i by (simp add: arg_at_def arg_def)
  define t where "t = type_of_arg arg"
  have t: "t \<noteq> custom_type" unfolding t_def using ok(2,3) by (cases arg) auto
  have run: "fh_format_specs io (make_format_args args []) i b s =
      andthen (parse_format_specs b format_specs_new (forget ctx) t) (\<lambda>(b, specs, ctx).
         andthen (resolve_specs (make_format_args args []) specs) (\<lambda>specs.
         andthen (write_with io specs arg) (\<lambda>t. Inr (b, fh_append t (s\<lparr>fh_ctx := ctx\<rparr>)))))"
  proof (cases arg)
    case (Custom_arg f)
    then show ?thesis using ok(3) by blast
  qed (use ok(2) s in \<open>simp_all add: fh_format_specs_def get_arg_def args_get_make [OF args(1) i] at t_def same_ctx_def\<close>)
  have check: "ck_format_specs (checker_of args cu) i b ctx = native_parse t b ctx"
  proof -
    have "i < int (length args)" using True i by (simp add: nat_less_iff)
    then show ?thesis using True i t by (simp add: ck_format_specs_def checker_of_def t_def arg_def)
  qed
  have parsed: "andthen (parse_format_specs b format_specs_new ctx t) (\<lambda>(b, specs, ctx).
      andthen (if t = char_type then check_char_specs specs else Inr True) (\<lambda>_. Inr (b, ctx))) = native_parse t b ctx"
    by (auto simp: native_parse_def parse_specs_brace check_char_specs_def new_specs pres_defs)
  have late: "sim (late_errors io args) same_rest (andthen (if t = char_type then check_char_specs specs else Inr True) (\<lambda>_. Inr (b', ctx')))
      (andthen (resolve_specs (make_format_args args []) specs) (\<lambda>specs.
         andthen (write_with io specs arg) (\<lambda>t. Inr (b', fh_append t (s\<lparr>fh_ctx := forget ctx'\<rparr>)))))"
    if specs: "specs_ok t specs" for specs b' ctx'
  proof (cases "t = char_type \<and> (\<exists>e. check_char_specs specs = Inl e)")
    case True
    then show ?thesis by auto
  next
    case False
    note res = resolve_specs_ok [OF args(1) specs]
    have "only (late_errors io args) (resolve_specs (make_format_args args []) specs)"
      by (rule only_mono [OF res(1)]) (auto simp: late_errors_def)
    moreover have "only (late_errors io args) (write_with io specs' arg)"
      if "resolve_specs (make_format_args args []) specs = Inr specs'" for specs'
    proof (rule only_mono [OF write_with_only [OF ok(1,2)]])
      have r: "specs_ok t specs'" "check_char_specs specs' = check_char_specs specs"
        using res(2) [OF that] by (auto intro: specs_data_eq)
      then show "specs_ok (type_of_arg arg) specs'" by (simp add: t_def)
      show "{null_string} \<union> {e. type_of_arg arg = char_type \<and> check_char_specs specs' = Inl e} \<union> writer_errors io arg \<subseteq> late_errors io args"
        using r(2) False arg by (auto simp: late_errors_def t_def)
    qed
    ultimately show ?thesis
      by (intro sim_right) (auto simp: sim_def same_rest_def same_ctx_def fh_append_def andthen_Inr_iff)
  qed
  show ?thesis unfolding check run parsed [symmetric]
  proof (rule sim_andthen [OF sim_refines [OF forget_specs]])
    fix x y
    assume x: "parse_format_specs b format_specs_new ctx t = Inr x" and y: "y = forget3 x"
    obtain b' specs ctx' where x': "x = (b', specs, ctx')" by (cases x)
    have "specs_ok t specs" using x parse_format_specs_ok(2) unfolding x' by blast
    then show "sim (late_errors io args) same_rest (case x of (b, specs, ctx) \<Rightarrow>
        andthen (if t = char_type then check_char_specs specs else Inr True) (\<lambda>_. Inr (b, ctx)))
      (case y of (b, specs, ctx) \<Rightarrow>
         andthen (resolve_specs (make_format_args args []) specs) (\<lambda>specs.
         andthen (write_with io specs arg) (\<lambda>t. Inr (b, fh_append t (s\<lparr>fh_ctx := ctx\<rparr>)))))"
      unfolding y x' forget3_simp prod.case by (rule late)
  qed
qed

lemma type_custom: "type_of_arg a = custom_type \<longleftrightarrow> (\<exists>f. a = Custom_arg f)"
  by (cases a) simp_all

lemma sim_replacement_field:
  assumes args: "args_ok args []" "\<forall>a \<in> set args. arg_ok a" and custom: "\<And>f. Custom_arg f \<notin> set args"
    and s: "same_ctx ctx s" and i: "0 \<le> i" and b: "hd b = CHR ''}''"
  shows "sim (late_errors io args) same_ctx (ck_replacement_field (checker_of args cu) i b ctx)
    (fh_replacement_field io (make_format_args args []) i s)"
proof -
  define arg where "arg = arg_at args i"
  have run: "fh_replacement_field io (make_format_args args []) i s
      = andthen (write_default io arg) (\<lambda>t. Inr (fh_append t s))"
    by (simp add: fh_replacement_field_def args_get_make [OF args(1) i] arg_def)
  have "only (late_errors io args) (write_default io arg)"
  proof (cases "arg = No_arg")
    case True
    then show ?thesis by (simp add: late_errors_def not_found_def)
  next
    case False
    then have "arg \<in> set args" unfolding arg_def arg_at_def by (auto split: if_splits)
    then show ?thesis using args(2) custom False
      by (intro only_mono [OF write_default_only]) (auto simp: late_errors_def)
  qed
  then have "sim (late_errors io args) same_ctx (Inr ctx) (fh_replacement_field io (make_format_args args []) i s)"
    unfolding run using s by (intro sim_right) simp_all
  moreover have "ctx' = ctx" if "ck_replacement_field (checker_of args cu) i b ctx = Inr ctx'" for ctx'
  proof -
    have "type_of_arg (args ! nat i) \<noteq> custom_type" if "i < int (length args)"
    proof
      have "args ! nat i \<in> set args" using that i by simp
      moreover assume "type_of_arg (args ! nat i) = custom_type"
      ultimately show False using custom by (auto simp: type_custom)
    qed
    then show ?thesis using that b
      by (auto simp: ck_replacement_field_def ck_format_specs_def checker_of_def andthen_Inr_iff native_parse_def
          split: if_splits)
  qed
  ultimately show ?thesis by (auto simp: sim_def)
qed

lemma sim_replacement_specs:
  assumes "\<And>b. sim L same_rest (on_format_specs h i b ctx) (on_format_specs h' i b s)"
  shows "sim L same_rest (replacement_specs h i b ctx) (replacement_specs h' i b s)"
  unfolding replacement_specs_def
  by (rule sim_andthen [OF assms]) (auto simp: same_rest_def)

lemma sim_parse_field:
  assumes args: "args_ok args []" "\<forall>a \<in> set args. arg_ok a" and custom: "\<And>f. Custom_arg f \<notin> set args"
    and s: "same_ctx ctx s"
  shows "sim (late_errors io args) same_rest (parse_replacement_field (format_string_checker (checker_of args cu)) b ctx)
    (parse_replacement_field (format_handler io (make_format_args args [])) b s)"
    (is "sim (late_errors io args) same_rest (parse_replacement_field ?k b ctx) (parse_replacement_field ?h b s)")
proof (cases b)
  case Nil
  then show ?thesis by (simp add: parse_replacement_field_def)
next
  case (Cons c cs)
  have specs: "sim (late_errors io args) same_rest (replacement_specs ?k (fst x) b' (snd x)) (replacement_specs ?h (fst y) b' (snd y))"
    if "same_id x y" for x y b'
    using that sim_format_specs [OF args custom, where cu = cu and io = io]
    by (auto simp: same_id_def format_string_checker_def format_handler_def intro!: sim_replacement_specs)
  have field: "sim (late_errors io args) same_rest
      (andthen (on_replacement_field ?k (fst x) b' (snd x)) (\<lambda>s. Inr (r, s)))
      (andthen (on_replacement_field ?h (fst y) b' (snd y)) (\<lambda>s. Inr (r, s)))"
    if "same_id x y" and "hd b' = CHR ''}''" for x y b' r
  proof (rule sim_andthen)
    show "sim (late_errors io args) same_ctx (on_replacement_field ?k (fst x) b' (snd x)) (on_replacement_field ?h (fst y) b' (snd y))"
      using that sim_replacement_field [OF args custom, where cu = cu and io = io]
      by (auto simp: same_id_def format_string_checker_def format_handler_def)
  qed (simp add: same_rest_def)
  have next_id: "sim (late_errors io args) same_id (on_next_arg_id ?k ctx) (on_next_arg_id ?h s)"
    using sim_next_arg_id [OF s] by (simp add: format_string_checker_def format_handler_def)
  have adapter: "sim (late_errors io args) same_id (id_adapter ?k r ctx) (id_adapter ?h r s)" if "ref_ok r" for r
  proof (cases r)
    case (Ref_index i)
    then show ?thesis using that sim_arg_index [OF s]
      by (simp add: ref_ok_def id_adapter_def format_string_checker_def format_handler_def)
  qed (simp add: id_adapter_def format_string_checker_def ck_arg_name_def checker_of_def)
  have named: "sim (late_errors io args) same_rest
      (andthen (parse_arg_id b) (\<lambda>(r, b). andthen (id_adapter ?k r ctx) (\<lambda>(i, s).
            if b \<noteq> [] \<and> hd b = CHR ''}''
            then andthen (on_replacement_field ?k i b s) (\<lambda>s. Inr (tl b, s))
            else if b = [] \<or> hd b \<noteq> CHR '':'' then report_error (''missing '' @ quoted_brace @ '' in format string'')
            else replacement_specs ?k i (tl b) s)))
      (andthen (parse_arg_id b) (\<lambda>(r, b). andthen (id_adapter ?h r s) (\<lambda>(i, s).
            if b \<noteq> [] \<and> hd b = CHR ''}''
            then andthen (on_replacement_field ?h i b s) (\<lambda>s. Inr (tl b, s))
            else if b = [] \<or> hd b \<noteq> CHR '':'' then report_error (''missing '' @ quoted_brace @ '' in format string'')
            else replacement_specs ?h i (tl b) s)))"
  proof (rule sim_same, clarify)
    fix r b'
    assume "parse_arg_id b = Inr (r, b')"
    then have "ref_ok r" using parse_arg_id_ok [of b] Cons by simp
    show "sim (late_errors io args) same_rest
      (andthen (id_adapter ?k r ctx) (\<lambda>(i, s).
            if b' \<noteq> [] \<and> hd b' = CHR ''}''
            then andthen (on_replacement_field ?k i b' s) (\<lambda>s. Inr (tl b', s))
            else if b' = [] \<or> hd b' \<noteq> CHR '':'' then report_error (''missing '' @ quoted_brace @ '' in format string'')
            else replacement_specs ?k i (tl b') s))
      (andthen (id_adapter ?h r s) (\<lambda>(i, s).
            if b' \<noteq> [] \<and> hd b' = CHR ''}''
            then andthen (on_replacement_field ?h i b' s) (\<lambda>s. Inr (tl b', s))
            else if b' = [] \<or> hd b' \<noteq> CHR '':'' then report_error (''missing '' @ quoted_brace @ '' in format string'')
            else replacement_specs ?h i (tl b') s))"
      unfolding case_prod_beta
      by (rule sim_andthen [OF adapter [OF \<open>ref_ok r\<close>]], intro sim_if) (simp_all add: specs field)
  qed
  have auto_field: "sim (late_errors io args) same_rest
      (andthen (on_next_arg_id ?k ctx) (\<lambda>(i, s). andthen (on_replacement_field ?k i b s) (\<lambda>s. Inr (cs, s))))
      (andthen (on_next_arg_id ?h s) (\<lambda>(i, s). andthen (on_replacement_field ?h i b s) (\<lambda>s. Inr (cs, s))))"
    if "c = CHR ''}''"
    unfolding case_prod_beta by (rule sim_andthen [OF next_id]) (simp add: field Cons that)
  have auto_specs: "sim (late_errors io args) same_rest
      (andthen (on_next_arg_id ?k ctx) (\<lambda>(i, s). replacement_specs ?k i cs s))
      (andthen (on_next_arg_id ?h s) (\<lambda>(i, s). replacement_specs ?h i cs s))"
    unfolding case_prod_beta by (rule sim_andthen [OF next_id]) (rule specs)
  have brace: "sim (late_errors io args) same_rest (Inr (cs, on_text ?k [c] ctx)) (Inr (cs, on_text ?h [c] s))"
    using s by (simp add: same_rest_def format_string_checker_def format_handler_def)
  show ?thesis
    using auto_field auto_specs brace named unfolding parse_replacement_field_def Cons list.case
    by (intro sim_if) simp_all
qed

lemma sim_format_string_loop:
  assumes args: "args_ok args []" "\<forall>a \<in> set args. arg_ok a" and custom: "\<And>f. Custom_arg f \<notin> set args"
  shows "same_ctx ctx s \<Longrightarrow>
    sim (late_errors io args) same_ctx (format_string_loop (format_string_checker (checker_of args cu)) pending b ctx)
      (format_string_loop (format_handler io (make_format_args args [])) pending b s)"
    (is "_ \<Longrightarrow> sim (late_errors io args) same_ctx (format_string_loop ?k pending b ctx) (format_string_loop ?h pending b s)")
proof (induction ?k pending b ctx arbitrary: s rule: format_string_loop.induct)
  case (1 pending ctx)
  then show ?case by (simp add: format_string_checker_def format_handler_def)
next
  case (2 pending c p ctx)
  have text_ctx: "same_ctx (on_text ?k t ctx) (on_text ?h t s)" for t
    using 2(4) by (simp add: format_string_checker_def format_handler_def)
  have "sim (late_errors io args) same_ctx
      (andthen (parse_replacement_field ?k p (on_text ?k pending ctx)) (\<lambda>(p', s). format_string_loop ?k [] p' s))
      (andthen (parse_replacement_field ?h p (on_text ?h pending s)) (\<lambda>(p', s). format_string_loop ?h [] p' s))"
    if "c = CHR ''{''"
  proof (rule sim_andthen [OF sim_parse_field [OF args custom text_ctx]])
    fix x y
    assume x: "parse_replacement_field ?k p (on_text ?k pending ctx) = Inr x" and xy: "same_rest x y"
    obtain p' ctx' where x': "x = (p', ctx')" by (cases x)
    obtain s' where y': "y = (p', s')" "same_ctx ctx' s'" using xy x' by (cases y) (auto simp: same_rest_def)
    show "sim (late_errors io args) same_ctx (case x of (p', s) \<Rightarrow> format_string_loop ?k [] p' s)
        (case y of (p', s) \<Rightarrow> format_string_loop ?h [] p' s)"
      using 2(1) [OF that x x' [symmetric] y'(2)] unfolding x' y' prod.case by simp
  qed
  moreover have "sim (late_errors io args) same_ctx (format_string_loop ?k [] (tl p) (on_text ?k (pending @ [c]) ctx))
      (format_string_loop ?h [] (tl p) (on_text ?h (pending @ [c]) s))"
    if "c \<noteq> CHR ''{''" "c = CHR ''}''" "\<not> (p = [] \<or> hd p \<noteq> CHR ''}'')"
    using 2(2) [OF that text_ctx] .
  moreover have "sim (late_errors io args) same_ctx (format_string_loop ?k (pending @ [c]) p ctx) (format_string_loop ?h (pending @ [c]) p s)"
    if "c \<noteq> CHR ''{''" "c \<noteq> CHR ''}''"
    using 2(3) [OF that 2(4)] .
  ultimately show ?case unfolding format_string_loop.simps by (intro sim_if) simp_all
qed

lemma checked_only_late:
  assumes args: "args_ok args []" "\<forall>a \<in> set args. arg_ok a" and custom: "\<And>f. Custom_arg f \<notin> set args"
    and ok: "check_format_string (checker_of args cu) fmt = Inr ctx"
  shows "only (late_errors io args) (vformat io fmt (make_format_args args []))"
proof (cases "fmt = ''{}''")
  case True
  have "only (late_errors io args) (write_default io (arg_at args 0))"
  proof (cases "arg_at args 0 = No_arg")
    case False
    then have "arg_at args 0 \<in> set args" unfolding arg_at_def by (auto split: if_splits)
    then show ?thesis using args(2) custom False
      by (intro only_mono [OF write_default_only]) (auto simp: late_errors_def)
  qed (simp add: late_errors_def not_found_def)
  then show ?thesis using True by (simp add: vformat_def vformat_to_def args_get_make [OF args(1)])
next
  case False
  have "sim (late_errors io args) same_ctx (check_format_string (checker_of args cu) fmt)
      (parse_format_string (format_handler io (make_format_args args [])) fmt \<lparr>fh_ctx = parse_context_new None, fh_out = []\<rparr>)"
    unfolding check_format_string_def parse_format_string_def
    by (rule sim_format_string_loop [OF args custom]) (simp add: same_ctx_def forget_def parse_context_new_def)
  then show ?thesis using False ok
    by (cases "parse_format_string (format_handler io (make_format_args args [])) fmt \<lparr>fh_ctx = parse_context_new None, fh_out = []\<rparr>")
      (simp_all add: vformat_def vformat_to_def sim_def)
qed

section \<open>Texts and empty fields\<close>

text \<open>A format string of texts, whose braces are doubled, and fields without specifiers.\<close>

datatype piece = Lit string | Field

definition escape_char :: "char \<Rightarrow> string" where
  "escape_char c = (if c = CHR ''{'' \<or> c = CHR ''}'' then [c, c] else [c])"

fun piece_format :: "piece \<Rightarrow> string" where
  "piece_format (Lit t) = concat (map escape_char t)"
| "piece_format Field = ''{}''"

definition pieces_format :: "piece list \<Rightarrow> string" where
  "pieces_format ps = concat (map piece_format ps)"

text \<open>The text of a line whose next argument has number \<open>i\<close>.\<close>

fun line_text :: "'f fmt_io \<Rightarrow> 'f fmt_arg list \<Rightarrow> int \<Rightarrow> piece list \<Rightarrow> fmt_error + string" where
  "line_text io args i [] = Inr []"
| "line_text io args i (Lit t # ps) = andthen (line_text io args i ps) (\<lambda>u. Inr (t @ u))"
| "line_text io args i (Field # ps) =
     andthen (write_default io (arg_at args i)) (\<lambda>t. andthen (line_text io args (i + 1) ps) (\<lambda>u. Inr (t @ u)))"

lemma fh_append_append [simp]: "fh_append t (fh_append u s) = fh_append (u @ t) s" "fh_append [] s = s"
  by (simp_all add: fh_append_def)

lemma flush_pending:
  "format_string_loop (format_handler io args) pending p s
    = format_string_loop (format_handler io args) [] p (fh_append pending s)"
proof (induction p arbitrary: pending s)
  case (Cons c p)
  show ?case
    using Cons [of "pending @ [c]" s] Cons [of "[c]" "fh_append pending s"]
    by (simp add: format_handler_def)
qed (simp add: format_handler_def)

lemma loop_text:
  "format_string_loop (format_handler io args) [] (concat (map escape_char t) @ p) s
    = format_string_loop (format_handler io args) [] p (fh_append t s)"
proof (induction t arbitrary: s)
  case (Cons c t)
  have on_text: "on_text (format_handler io args) = fh_append" by (simp add: format_handler_def)
  note step = flush_pending [of io args "[c]" "concat (map escape_char t) @ p" s] Cons [of "fh_append [c] s"]
  show ?case
  proof (cases "c = CHR ''{'' \<or> c = CHR ''}''")
    case True
    then show ?thesis using Cons [of "fh_append [c] s"]
      by (auto simp: parse_replacement_field_def escape_char_def [of c] on_text)
  next
    case False
    then show ?thesis using step by (simp add: escape_char_def [of c])
  qed
qed simp

definition at_arg :: "int \<Rightarrow> format_state \<Rightarrow> format_state" where
  "at_arg i s = s\<lparr>fh_ctx := \<lparr>pc_next_arg_id = i, pc_types = None\<rparr>\<rparr>"

lemma at_arg_append [simp]: "fh_append t (at_arg i s) = at_arg i (fh_append t s)" "at_arg j (at_arg i s) = at_arg j s"
  by (simp_all add: fh_append_def at_arg_def)

lemma loop_field:
  assumes "args_ok args named" and "0 \<le> i"
  shows "format_string_loop (format_handler io (make_format_args args named)) [] (''{}'' @ p) (at_arg i s)
    = andthen (write_default io (arg_at args i)) (\<lambda>t.
        format_string_loop (format_handler io (make_format_args args named)) [] p (at_arg (i + 1) (fh_append t s)))"
proof -
  have "fh_next_arg_id (at_arg i s) = Inr (i, at_arg (i + 1) s)"
    using assms(2) by (simp add: fh_next_arg_id_def next_arg_id_def at_arg_def do_check_arg_id_def)
  then show ?thesis
    by (cases "write_default io (arg_at args i)")
      (simp_all add: parse_replacement_field_def format_handler_def fh_replacement_field_def args_get_make [OF assms])
qed

lemma loop_pieces:
  assumes "args_ok args named" and "0 \<le> i"
  shows "format_string_loop (format_handler io (make_format_args args named)) [] (pieces_format ps) (at_arg i s)
    = andthen (line_text io args i ps) (\<lambda>t. Inr (at_arg (i + int (count_list ps Field)) (fh_append t s)))"
  using assms(2)
proof (induction ps arbitrary: i s)
  case Nil
  then show ?case by (simp add: pieces_format_def format_handler_def)
next
  case (Cons p ps)
  show ?case
  proof (cases p)
    case (Lit t)
    then show ?thesis using Cons(1) [OF Cons(2), of "fh_append t s"]
      by (simp add: pieces_format_def loop_text andthen_assoc)
  next
    case Field
    have "0 \<le> i + 1" using Cons(2) by simp
    note rest = Cons(1) [OF this]
    have f: "pieces_format (p # ps) = ''{}'' @ pieces_format ps" by (simp add: pieces_format_def Field)
    show ?thesis unfolding f loop_field [OF assms(1) Cons(2)] rest
      by (simp add: Field andthen_assoc ac_simps)
  qed
qed

lemma vformat_parse:
  assumes "args_ok args named"
  shows "vformat io fmt (make_format_args args named) =
    andthen (format_string_loop (format_handler io (make_format_args args named)) [] fmt
      (at_arg 0 \<lparr>fh_ctx = parse_context_new None, fh_out = []\<rparr>)) (\<lambda>s. Inr (fh_out s))"
proof (cases "fmt = ''{}''")
  case True
  have p: "fmt = pieces_format [Field]" by (simp add: True pieces_format_def)
  show ?thesis unfolding p loop_pieces [OF assms order_refl]
    using True by (simp add: p [symmetric] vformat_def vformat_to_def args_get_make [OF assms] andthen_assoc at_arg_def fh_append_def)
next
  case False
  have "at_arg 0 \<lparr>fh_ctx = parse_context_new None, fh_out = []\<rparr> = \<lparr>fh_ctx = parse_context_new None, fh_out = []\<rparr>"
    by (simp add: at_arg_def parse_context_new_def)
  then show ?thesis using False by (simp add: vformat_def vformat_to_def parse_format_string_def)
qed

lemma vformat_pieces:
  assumes "args_ok args named"
  shows "vformat io (pieces_format ps) (make_format_args args named) = line_text io args 0 ps"
  unfolding vformat_parse [OF assms] loop_pieces [OF assms order_refl]
  by (simp add: andthen_assoc at_arg_def fh_append_def)

section \<open>Theorems\<close>

definition plain_io :: "unit fmt_io" where
  "plain_io = \<lparr>io_float = (\<lambda>t x specs. Inr []), io_locale = (\<lambda>arg specs. None)\<rparr>"

lemmas checker_defs = check_format_string_def checker_of_def parse_format_string_def format_string_checker_def
  parse_context_new_def parse_replacement_field_def next_arg_id_def do_check_arg_id_def ck_replacement_field_def
  ck_format_specs_def replacement_specs_def id_adapter_def ck_arg_index_def ck_arg_name_def check_arg_id_def
  check_arg_name_def

lemmas formatter_defs = vformat_def vformat_to_def parse_format_string_def format_handler_def
  parse_context_new_def parse_replacement_field_def next_arg_id_def do_check_arg_id_def fh_next_arg_id_def
  fh_arg_index_def fh_arg_name_def fh_replacement_field_def fh_format_specs_def get_arg_def
  replacement_specs_def id_adapter_def check_arg_id_def check_arg_name_def

lemma native_parse_brace [simp]: "native_parse t (CHR ''}'' # b) ctx = Inr (CHR ''}'' # b, ctx)"
  by (simp add: native_parse_def)

lemma native_parse_x: "native_parse int_type ''x}'' ctx = Inr (''}'', ctx)"
  unfolding native_parse_def parse_format_specs_def
  by (simp add: specs_loop.simps spec_step_def between_def parse_align_def integral_set_def parse_presentation_type_def)

lemma plain_io_errors [simp]: "writer_errors plain_io a = {}"
  by (cases a) (simp_all add: locale_errors_def float_errors_def plain_io_def)

text \<open>
  C32. Whatever the format string is, formatting with arguments in the range of their kinds gives a
  text or throws a \<open>format_error\<close>: no array is overrun, no assertion fails, and no argument
  outside of the list is read. The writers of floating point numbers and of localized integers
  and the formatters of user-defined types are parameters: those of the arguments in the list
  are assumed not to fault, but may throw.
\<close>

theorem vformat_never_faults:
  assumes "args_ok args named" and "\<forall>a \<in> set args. arg_ok a" and "\<forall>a \<in> set args. writers_ok io a"
  shows "vformat io fmt (make_format_args args named) \<noteq> Inl (Fmt_fault e)"
  using no_fault_vformat [OF assms(1), of io] assms(2,3) by (simp add: no_fault_def)

text \<open>A writer of floating point numbers that throws.\<close>

definition strict_io :: "unit fmt_io" where
  "strict_io = \<lparr>io_float = (\<lambda>t x specs. report_error ''number is too big''), io_locale = (\<lambda>arg specs. None)\<rparr>"

theorem vformat_never_faults_witness:
  "args_ok [Int_arg 42, Double_arg () :: unit fmt_arg] [(''n'', 1)]
    \<and> arg_ok (Int_arg 42 :: unit fmt_arg) \<and> arg_ok (Double_arg () :: unit fmt_arg) \<and> writers_ok strict_io (Double_arg ())
    \<and> vformat strict_io ''{:>{2}}{n:'' (make_format_args [Int_arg 42, Double_arg ()] [(''n'', 1)])
      \<noteq> Inl (Fmt_fault Ub_out_of_bounds)"
proof -
  have h: "args_ok [Int_arg 42, Double_arg () :: unit fmt_arg] [(''n'', 1)]"
    "\<forall>a \<in> set [Int_arg 42, Double_arg () :: unit fmt_arg]. arg_ok a"
    "\<forall>a \<in> set [Int_arg 42, Double_arg () :: unit fmt_arg]. writers_ok strict_io a"
    by (auto simp: args_ok_def writers_ok_def float_errors_def locale_errors_def strict_io_def report_error_def)
  then show ?thesis using vformat_never_faults [OF h] by simp
qed

text \<open>
  C33. A format string without named arguments and user-defined types that passed the check at compile
  time against the kinds of the arguments only fails at run time for what the check cannot see: a
  width or precision that is negative, too large or a character or bool, a width named after an
  argument that does not exist, a null string, or an error of the writer of a floating point number
  or of a localized integer, such as a precision that is too big for \<open>write_float\<close>. Every other
  argument list, number, specifier and brace is right.
\<close>

theorem checked_format_only_fails_late:
  assumes "args_ok args []" and "\<forall>a \<in> set args. arg_ok a" and "\<And>f. Custom_arg f \<notin> set args"
    and "check_format_string (checker_of args custom) fmt = Inr ctx"
    and "vformat io fmt (make_format_args args []) = Inl e"
  shows "e \<in> {Format_error ''width/precision is not integer'', Format_error ''width/precision is out of range'',
    Format_error ''argument not found'', Format_error ''string pointer is null''} \<union> (\<Union>a \<in> set args. writer_errors io a)"
  using checked_only_late [OF assms(1-4), of io] assms(5)
  by (simp add: late_errors_def not_integer_def out_of_range_def not_found_def null_string_def)

theorem checked_format_only_fails_late_witness:
  "check_format_string (checker_of [Cstring_arg 0 [] :: unit fmt_arg, Int_arg 42] (\<lambda>i b ctx. Inr (b, ctx))) ''{}{:x}''
      = Inr \<lparr>pc_next_arg_id = 2, pc_types = Some [cstring_type, int_type]\<rparr>
    \<and> vformat plain_io ''{}{:x}'' (make_format_args [Cstring_arg 0 [], Int_arg 42] []) = Inl null_string
    \<and> null_string \<in> {Format_error ''width/precision is not integer'', Format_error ''width/precision is out of range'',
        Format_error ''argument not found'', Format_error ''string pointer is null''}"
proof -
  have h: "args_ok [Cstring_arg 0 [] :: unit fmt_arg, Int_arg 42] []"
    "\<forall>a \<in> set [Cstring_arg 0 [] :: unit fmt_arg, Int_arg 42]. arg_ok a"
    "\<And>f. Custom_arg f \<notin> set [Cstring_arg 0 [] :: unit fmt_arg, Int_arg 42]"
    by (simp_all add: args_ok_def)
  have c: "check_format_string (checker_of [Cstring_arg 0 [] :: unit fmt_arg, Int_arg 42] (\<lambda>i b ctx. Inr (b, ctx))) ''{}{:x}''
      = Inr \<lparr>pc_next_arg_id = 2, pc_types = Some [cstring_type, int_type]\<rparr>"
    by (simp add: checker_defs native_parse_x)
  have v: "vformat plain_io ''{}{:x}'' (make_format_args [Cstring_arg 0 [], Int_arg 42] []) = Inl null_string"
    by (simp add: formatter_defs args_get_make [OF h(1)] arg_at_def null_string_def report_error_def)
  show ?thesis using checked_format_only_fails_late [OF h c v] c v by simp
qed

text \<open>
  A format string of texts, whose braces are doubled, and empty fields gives the texts and the
  default output of the arguments in order; the first argument that is missing or cannot be
  written decides the error.
\<close>

theorem format_writes_pieces:
  assumes "args_ok args named"
  shows "vformat io (pieces_format ps) (make_format_args args named) = line_text io args 0 ps"
  by (rule vformat_pieces [OF assms])

theorem format_writes_pieces_witness:
  "vformat plain_io ''{{{}}}: {}'' (make_format_args [Int_arg (- 42), String_arg ''ab''] [])
    = Inr ''{-42}: ab''"
proof -
  have ok: "args_ok [Int_arg (- 42), String_arg ''ab'' :: unit fmt_arg] []" by (simp add: args_ok_def)
  have p: "''{{{}}}: {}'' = pieces_format [Lit ''{'', Field, Lit ''}: '', Field]"
    by (simp add: pieces_format_def escape_char_def)
  have dec_42: "dec 42 = ''42''" by code_simp
  have i: "write_default_int 32 (- 42) = Inr ''-42''"
    using write_default_int_text [of 32 "- 42"] by (simp add: dec_int_def dec_42)
  show ?thesis unfolding p format_writes_pieces [OF ok] by (simp add: arg_at_def i)
qed

section \<open>What the check lets pass\<close>

lemma no_digit_chars [simp]: "char_digit CHR ''{'' = None" "char_digit CHR ''}'' = None" "char_digit CHR ''w'' = None"
  "char_digit CHR ''a'' = None"
  by (simp_all add: char_digit_def)

lemma dynamic_specs: "k \<noteq> Id_none \<Longrightarrow> specs_dynamic (set_dynamic_width k specs)"
proof (rule ccontr)
  assume k: "k \<noteq> Id_none" and "\<not> specs_dynamic (set_dynamic_width k specs)"
  then have "data_w (set_dynamic_width k specs) AND width_mask = 0" by (simp add: specs_dynamic_iff)
  then have "dynamic_width (set_dynamic_width k specs) = Id_none" by (simp only: dynamic_width_def) (simp add: kind_of_def)
  then show False using k by simp
qed

lemma dynamic_width_specs:
  assumes "next_arg_id ctx = Inr (i, ctx')" and "check_dynamic_spec i ctx' = Inr ()"
  shows "parse_format_specs ''{}}'' format_specs_new ctx string_type = Inr (''}'',
    set_dynamic_width Id_index (format_specs_new\<lparr>fs_width := 0, width_ref := Ref_index i\<rparr>), ctx')"
  using assms
  by (simp add: parse_format_specs_def specs_loop.simps spec_step_def between_def parse_align_def enter_state_def
      parse_width_def parse_dynamic_spec_def)

text \<open>
  A bool counts as an integer for the check of a dynamic width, but not when the width is read.
\<close>

lemma bool_width_passes_the_check:
  "check_format_string (checker_of [String_arg ''m'' :: unit fmt_arg, Bool_arg True] cu) ''{:{}}''
    = Inr \<lparr>pc_next_arg_id = 2, pc_types = Some [string_type, bool_type]\<rparr>"
  "vformat plain_io ''{:{}}'' (make_format_args [String_arg ''m'', Bool_arg True] []) = Inl not_integer"
proof -
  have ok: "args_ok [String_arg ''m'' :: unit fmt_arg, Bool_arg True] []" by (simp add: args_ok_def)
  show "check_format_string (checker_of [String_arg ''m'' :: unit fmt_arg, Bool_arg True] cu) ''{:{}}''
    = Inr \<lparr>pc_next_arg_id = 2, pc_types = Some [string_type, bool_type]\<rparr>"
    by (simp add: checker_defs native_parse_def dynamic_width_specs check_dynamic_spec_def is_integral_type_def)
  show "vformat plain_io ''{:{}}'' (make_format_args [String_arg ''m'', Bool_arg True] []) = Inl not_integer"
    by (simp add: formatter_defs args_get_make [OF ok] arg_at_def dynamic_width_specs check_dynamic_spec_def
        resolve_specs_def handle_dynamic_spec_def get_dynamic_spec_def dynamic_specs not_integer_def report_error_def)
qed

text \<open>
  Behind a field with the name of a static argument the check goes on numbering the fields
  itself, but the formatter does not.
\<close>

lemma name_and_number_pass_the_check:
  "check_format_string \<lparr>ck_types = [string_type, int_type], ck_names = [(''a'', 0)], ck_dynamic_names = False,
      ck_custom = cu\<rparr> ''{a}{}''
    = Inr \<lparr>pc_next_arg_id = 1, pc_types = Some [string_type, int_type]\<rparr>"
  "vformat plain_io ''{a}{}'' (make_format_args [String_arg ''b'', Int_arg 4] [(''a'', 0)])
    = report_error ''cannot switch from manual to automatic argument indexing''"
proof -
  have ok: "args_ok [String_arg ''b'' :: unit fmt_arg, Int_arg 4] [(''a'', 0)]" by (simp add: args_ok_def)
  have name: "parse_arg_id ''a}{}'' = Inr (Ref_name ''a'', ''}{}'')"
    by (simp add: parse_arg_id_def is_name_start_def is_name_char_def between_def)
  have i: "args_get_id (make_format_args [String_arg ''b'' :: unit fmt_arg, Int_arg 4] [(''a'', 0)]) ''a'' = 0"
    by (simp add: args_get_id_make [OF ok])
  show "check_format_string \<lparr>ck_types = [string_type, int_type], ck_names = [(''a'', 0)], ck_dynamic_names = False,
      ck_custom = cu\<rparr> ''{a}{}''
    = Inr \<lparr>pc_next_arg_id = 1, pc_types = Some [string_type, int_type]\<rparr>"
    by (simp add: checker_defs name)
  show "vformat plain_io ''{a}{}'' (make_format_args [String_arg ''b'', Int_arg 4] [(''a'', 0)])
    = report_error ''cannot switch from manual to automatic argument indexing''"
    by (simp add: formatter_defs args_get_make [OF ok] arg_at_def name i fh_append_def report_error_def)
qed

text \<open>The name of a dynamic width is not looked up by the check.\<close>

lemma unknown_width_passes_the_check:
  "check_format_string (checker_of [String_arg ''m'' :: unit fmt_arg] cu) ''{:{w}}''
    = Inr \<lparr>pc_next_arg_id = - 1, pc_types = Some [string_type]\<rparr>"
  "vformat plain_io ''{:{w}}'' (make_format_args [String_arg ''m''] []) = Inl not_found"
proof -
  have ok: "args_ok [String_arg ''m'' :: unit fmt_arg] []" by (simp add: args_ok_def)
  have specs: "parse_format_specs ''{w}}'' format_specs_new ctx string_type = Inr (''}'',
    set_dynamic_width Id_name (format_specs_new\<lparr>fs_width := 0, width_ref := Ref_name ''w''\<rparr>), ctx\<lparr>pc_next_arg_id := - 1\<rparr>)" for ctx
    by (simp add: parse_format_specs_def specs_loop.simps spec_step_def between_def parse_align_def enter_state_def
        parse_width_def parse_dynamic_spec_def parse_arg_id_def is_name_start_def is_name_char_def
        dynamic_spec_handler_def check_arg_name_def)
  show "check_format_string (checker_of [String_arg ''m'' :: unit fmt_arg] cu) ''{:{w}}''
    = Inr \<lparr>pc_next_arg_id = - 1, pc_types = Some [string_type]\<rparr>"
    by (simp add: checker_defs native_parse_def specs)
  show "vformat plain_io ''{:{w}}'' (make_format_args [String_arg ''m''] []) = Inl not_found"
    by (simp add: formatter_defs args_get_make [OF ok] arg_at_def specs resolve_specs_def
        handle_dynamic_spec_def get_dynamic_spec_def dynamic_specs args_get_name_make [OF ok] not_found_def report_error_def
        args_get_id_make [OF ok])
qed

end
