(* ===== verification/Log_Line.thy ===== *)
theory Log_Line
  imports Log_Front Fmt_Format_Props
begin

text \<open>
  The line that \<open>INFO_LOG\<close> logs: the front end prints the arguments into its buffer
  (\<open>src/log/logger.h\<close>), and the logger formats the line from these texts with
  \<open>fmt::vformat_to\<close> (\<open>spdlog/logger.h\<close>).
\<close>

section \<open>The formatted line\<close>

text \<open>The arguments are string views.\<close>

definition format_line :: "'f fmt_io \<Rightarrow> string \<Rightarrow> string list \<Rightarrow> fmt_error + string" where
  "format_line io fmt ts = vformat_to io fmt (make_format_args (map String_arg ts) [])"

text \<open>
  \<open>log\<close> with a format string and arguments. A \<open>format_error\<close> is caught by the logger; a fault of the
  formatter is one of the call.
\<close>

definition log_formatted :: "'f fmt_io \<Rightarrow> 's sink_ops \<Rightarrow> int \<Rightarrow> nat \<Rightarrow> source_loc \<Rightarrow> level_enum \<Rightarrow> string \<Rightarrow> string list
    \<Rightarrow> logger \<Rightarrow> 's log_world \<Rightarrow> fault + (logger \<times> 's log_world)" where
  "log_formatted io ops now tid loc lvl fmt ts lg w =
     (if \<not> should_log lg lvl \<and> \<not> bt_enabled (lg_tracer lg) then Inr (lg, w)
      else case format_line io fmt ts of
             Inl (Fmt_fault e) \<Rightarrow> Inl e
           | Inl (Format_error what) \<Rightarrow> Inr (lg, handle_exception lg now loc (Some what) w)
           | Inr body \<Rightarrow> log_it ops now (log_msg_at now tid loc (lg_name lg) lvl body)
                           (should_log lg lvl) (bt_enabled (lg_tracer lg)) lg w)"

text \<open>
  The overload that \<open>INFO_LOG\<close> calls: with no argument behind the text it is the one for a
  \<open>string_view_t\<close>, which is no template, and the text is logged as it is.
\<close>

definition log_call :: "'f fmt_io \<Rightarrow> 's sink_ops \<Rightarrow> int \<Rightarrow> nat \<Rightarrow> source_loc \<Rightarrow> level_enum \<Rightarrow> string \<Rightarrow> string list
    \<Rightarrow> logger \<Rightarrow> 's log_world \<Rightarrow> fault + (logger \<times> 's log_world)" where
  "log_call io ops now tid loc lvl fmt ts lg w =
     (if ts = [] then logger_log ops now tid loc lvl fmt lg w
      else log_formatted io ops now tid loc lvl fmt ts lg w)"

definition info_log :: "'f fmt_io \<Rightarrow> to_string_methods \<Rightarrow> 's sink_ops \<Rightarrow> string \<Rightarrow> string \<Rightarrow> int \<Rightarrow> nat \<Rightarrow> source_loc
    \<Rightarrow> sval list \<Rightarrow> logger \<Rightarrow> 's log_world \<Rightarrow> fault + (logger \<times> 's log_world)" where
  "info_log io m ops fmt buf now tid loc args lg w =
     andthen (info_texts m args buf) (\<lambda>ts. log_call io ops now tid loc info fmt ts lg w)"

section \<open>The texts in the line\<close>

fun fill_in :: "piece list \<Rightarrow> string list \<Rightarrow> string" where
  "fill_in [] ts = []"
| "fill_in (Lit t # ps) ts = t @ fill_in ps ts"
| "fill_in (Field # ps) ts = hd ts @ fill_in ps (tl ts)"

lemma line_text_fill_in:
  assumes "length args = n + count_list ps Field"
  shows "line_text io (map String_arg args) (int n) ps = Inr (fill_in ps (drop n args))"
  using assms
proof (induction ps arbitrary: n)
  case (Cons p ps)
  show ?case
  proof (cases p)
    case (Lit t)
    then show ?thesis using Cons by simp
  next
    case Field
    then have "n < length args" using Cons(2) by simp
    then show ?thesis using Field Cons(1) [of "Suc n"] Cons(2)
      by (simp add: arg_at_def add.commute hd_drop_conv_nth drop_Suc tl_drop)
  qed
qed simp

lemma string_args_ok: "length ts < 2 ^ 31 \<Longrightarrow> args_ok (map String_arg ts) []"
  by (auto simp: args_ok_def)

lemma format_line_pieces:
  assumes "length ts < 2 ^ 31" and "length ts = count_list ps Field"
  shows "format_line io (pieces_format ps) ts = Inr (fill_in ps ts)"
  using vformat_pieces [OF string_args_ok [OF assms(1)], of io ps] line_text_fill_in [of ts 0 ps io] assms(2)
  by (simp add: format_line_def vformat_def)

lemma format_line_no_fault: "length ts < 2 ^ 31 \<Longrightarrow> format_line io fmt ts \<noteq> Inl (Fmt_fault e)"
  using no_fault_vformat [OF string_args_ok, of ts io fmt]
  by (auto simp: format_line_def no_fault_def vformat_def writers_ok_def)

text \<open>With the formatter for the text, the call of the logger is the one with a formatting function.\<close>

lemma log_formatted_refines:
  assumes "length ts < 2 ^ 31"
  shows "log_formatted io ops now tid loc lvl fmt ts lg w = logger_log_fmt ops now tid loc lvl
    (\<lambda>_. case format_line io fmt ts of Inr t \<Rightarrow> Inr t | Inl (Format_error what) \<Rightarrow> Inl what) lg w"
  using format_line_no_fault [OF assms]
  by (auto simp: log_formatted_def logger_log_fmt_def Let_def split: sum.split fmt_error.split)

text \<open>
  C35. When the arguments of \<open>INFO_LOG\<close>, none of them a reflected struct, fit its buffer of 1024
  characters together, a format string of texts and one empty field for each of them logs the texts
  with the printed arguments in the fields, as a call with this text would: on every sink, and in the
  backtrace. Without arguments any text is logged as it is, braces included.
\<close>

theorem info_log_logs_the_line:
  assumes "methods_ok 1024 m c" and "\<forall>v \<in> set args. flat v" and "length buf = 1024"
    and "length (concat (map (text_of c False) args)) \<le> 1024"
    and "length args < 2 ^ 31" and "length args = count_list ps Field"
  shows "(args \<noteq> [] \<longrightarrow> info_log io m ops (pieces_format ps) buf now tid loc args lg w
      = logger_log ops now tid loc info (fill_in ps (map (text_of c False) args)) lg w) \<and>
    info_log io m ops fmt buf now tid loc [] lg w = logger_log ops now tid loc info fmt lg w"
proof -
  have "info_texts m [] buf = Inr []" using info_texts_complete [OF assms(1) _ assms(3), of "[]"] by simp
  then show ?thesis
    using format_line_pieces [of "map (text_of c False) args" ps io] assms(5,6)
    by (simp add: info_log_def log_call_def info_texts_complete [OF assms(1-4)] log_formatted_def logger_log_def Let_def)
qed

theorem info_log_logs_the_line_witness:
  "pieces_format [Lit ''sum '', Field, Lit ''/'', Field] = ''sum {}/{}''
    \<and> info_log plain_io endpoint_methods recording_ops ''sum {}/{}'' (replicate 1024 CHR 0x00) 7 1 no_source
        [SInt (- 5), SStr ''ab''] (logger_new ''L'' [0]) quiet_world
    = logger_log recording_ops 7 1 no_source info ''sum -5/ab'' (logger_new ''L'' [0]) quiet_world"
proof -
  have p: "pieces_format [Lit ''sum '', Field, Lit ''/'', Field] = ''sum {}/{}''"
    by (simp add: pieces_format_def escape_char_def)
  have five: "dec 5 = ''5''" by code_simp
  have ok: "\<forall>v \<in> set [SInt (- 5), SStr ''ab'']. flat v"
    "length (concat (map (text_of endpoint_texts False) [SInt (- 5), SStr ''ab''])) \<le> 1024"
    "length (replicate 1024 CHR 0x00) = 1024"
    by (simp_all add: dec_int_def five)
  have "info_log plain_io endpoint_methods recording_ops (pieces_format [Lit ''sum '', Field, Lit ''/'', Field])
      (replicate 1024 CHR 0x00) 7 1 no_source [SInt (- 5), SStr ''ab''] (logger_new ''L'' [0]) quiet_world
    = logger_log recording_ops 7 1 no_source info (fill_in [Lit ''sum '', Field, Lit ''/'', Field]
        (map (text_of endpoint_texts False) [SInt (- 5), SStr ''ab''])) (logger_new ''L'' [0]) quiet_world"
    using info_log_logs_the_line [OF endpoint_methods_ok ok(1) ok(3,2), of "[Lit ''sum '', Field, Lit ''/'', Field]"
        plain_io recording_ops 7 1 no_source "logger_new ''L'' [0]" quiet_world] by simp
  then show ?thesis unfolding p by (simp add: dec_int_def five brace_def)
qed

end
