(* ===== verification/Fmt_Roundtrip.thy ===== *)
theory Fmt_Roundtrip
  imports Fmt_Format_Props
begin

text \<open>
  Format specifiers in their written form: parsing the text of specifiers gives exactly these
  specifiers, for every kind of argument they are allowed for, and an integer in a field with
  specifiers gets the text of the specification.
\<close>

section \<open>Specifiers as a text\<close>

text \<open>
  \<open>[[fill]align][sign][#][0][width][.precision][L][type]\<close>; width 0 is no width.
\<close>

record spec_text =
  tx_align :: "(char option \<times> align) option"
  tx_sign :: "sign option"
  tx_alt :: bool
  tx_zero :: bool
  tx_width :: nat
  tx_precision :: "nat option"
  tx_localized :: bool
  tx_type :: "char option"

fun align_char :: "align \<Rightarrow> char" where
  "align_char Align_left = CHR ''<''"
| "align_char Align_right = CHR ''>''"
| "align_char _ = CHR ''^''"

fun sign_char :: "sign \<Rightarrow> char" where
  "sign_char Sign_plus = CHR ''+''"
| "sign_char Sign_space = CHR '' ''"
| "sign_char _ = CHR ''-''"

fun align_text :: "(char option \<times> align) option \<Rightarrow> string" where
  "align_text None = []"
| "align_text (Some (None, a)) = [align_char a]"
| "align_text (Some (Some c, a)) = [c, align_char a]"

definition type_text :: "spec_text \<Rightarrow> string" where
  "type_text x = (case tx_type x of None \<Rightarrow> [] | Some c \<Rightarrow> [c])"

definition locale_text :: "spec_text \<Rightarrow> string" where
  "locale_text x = (if tx_localized x then ''L'' else []) @ type_text x"

definition precision_text :: "spec_text \<Rightarrow> string" where
  "precision_text x = (case tx_precision x of None \<Rightarrow> [] | Some p \<Rightarrow> CHR ''.'' # dec p) @ locale_text x"

definition width_text :: "spec_text \<Rightarrow> string" where
  "width_text x = (if tx_width x = 0 then [] else dec (tx_width x)) @ precision_text x"

definition zero_text :: "spec_text \<Rightarrow> string" where
  "zero_text x = (if tx_zero x then ''0'' else []) @ width_text x"

definition alt_text :: "spec_text \<Rightarrow> string" where
  "alt_text x = (if tx_alt x then ''#'' else []) @ zero_text x"

definition signed_text :: "spec_text \<Rightarrow> string" where
  "signed_text x = (case tx_sign x of None \<Rightarrow> [] | Some g \<Rightarrow> [sign_char g]) @ alt_text x"

definition spec_string :: "spec_text \<Rightarrow> string" where
  "spec_string x = align_text (tx_align x) @ signed_text x"

text \<open>The presentation types: the type, the kinds of arguments, and whether it is upper case.\<close>

definition type_table :: "(char \<times> 32 word \<times> nat \<times> bool) list" where
  "type_table =
     [(CHR ''d'', pres_dec, integral_set, False), (CHR ''X'', pres_hex, integral_set, True),
      (CHR ''x'', pres_hex, integral_set, False), (CHR ''o'', pres_oct, integral_set, False),
      (CHR ''B'', pres_bin, integral_set, True), (CHR ''b'', pres_bin, integral_set, False),
      (CHR ''E'', pres_exp, float_set, True), (CHR ''e'', pres_exp, float_set, False),
      (CHR ''F'', pres_fixed, float_set, True), (CHR ''f'', pres_fixed, float_set, False),
      (CHR ''G'', pres_general, float_set, True), (CHR ''g'', pres_general, float_set, False),
      (CHR ''A'', pres_hexfloat, float_set, True), (CHR ''a'', pres_hexfloat, float_set, False),
      (CHR ''c'', pres_chr, integral_set, False),
      (CHR ''s'', pres_string, bool_set OR string_set OR cstring_set, False),
      (CHR ''p'', pres_pointer, pointer_set OR cstring_set, False),
      (CHR ''?'', pres_debug, char_set OR string_set OR cstring_set, False)]"

text \<open>What may be written for an argument of a kind.\<close>

definition spec_text_ok :: "arg_type \<Rightarrow> spec_text \<Rightarrow> bool" where
  "spec_text_ok t x \<longleftrightarrow>
     (\<forall>f a. tx_align x = Some (f, a) \<longrightarrow> a \<in> {Align_left, Align_right, Align_center} \<and>
        (\<forall>c. f = Some c \<longrightarrow> of_char c < (128 :: nat) \<and> c \<noteq> CHR ''{'' \<and> c \<noteq> CHR ''}'')) \<and>
     (tx_sign x \<noteq> None \<longrightarrow> tx_sign x \<noteq> Some Sign_none \<and> in_types t (sint_set OR float_set)) \<and>
     (tx_alt x \<longrightarrow> is_arithmetic_type t) \<and> (tx_zero x \<longrightarrow> is_arithmetic_type t) \<and>
     int (tx_width x) \<le> INT_MAX \<and>
     (\<forall>p. tx_precision x = Some p \<longrightarrow> int p \<le> INT_MAX \<and> in_types t (float_set OR string_set OR cstring_set)) \<and>
     (tx_localized x \<longrightarrow> is_arithmetic_type t) \<and>
     (\<forall>c. tx_type x = Some c \<longrightarrow> \<not> (c = CHR ''c'' \<and> t = bool_type) \<and>
        (\<exists>p st u. map_of type_table c = Some (p, st, u) \<and> in_types t st))"

section \<open>Their values\<close>

definition type_value :: "spec_text \<Rightarrow> format_specs \<Rightarrow> format_specs" where
  "type_value x specs = (case tx_type x of None \<Rightarrow> specs
     | Some c \<Rightarrow> (case the (map_of type_table c) of (p, st, u) \<Rightarrow> set_type p (if u then set_upper specs else specs)))"

definition locale_value :: "spec_text \<Rightarrow> format_specs \<Rightarrow> format_specs" where
  "locale_value x specs = type_value x (if tx_localized x then set_localized specs else specs)"

definition precision_value :: "spec_text \<Rightarrow> format_specs \<Rightarrow> format_specs" where
  "precision_value x specs = locale_value x (case tx_precision x of None \<Rightarrow> specs
     | Some p \<Rightarrow> set_dynamic_precision Id_none (specs\<lparr>fs_precision := int p\<rparr>))"

definition width_value :: "spec_text \<Rightarrow> format_specs \<Rightarrow> format_specs" where
  "width_value x specs = precision_value x (if tx_width x = 0 then specs
     else set_dynamic_width Id_none (specs\<lparr>fs_width := int (tx_width x)\<rparr>))"

definition zero_value :: "spec_text \<Rightarrow> format_specs \<Rightarrow> format_specs" where
  "zero_value x specs = width_value x (if tx_zero x \<and> specs_align specs = Align_none
     then set_fill_char CHR ''0'' (set_align Align_numeric specs) else specs)"

definition alt_value :: "spec_text \<Rightarrow> format_specs \<Rightarrow> format_specs" where
  "alt_value x specs = zero_value x (if tx_alt x then set_alt specs else specs)"

definition sign_value :: "spec_text \<Rightarrow> format_specs \<Rightarrow> format_specs" where
  "sign_value x specs = alt_value x
     (case tx_sign x of Some Sign_plus \<Rightarrow> set_sign Sign_plus specs | Some Sign_space \<Rightarrow> set_sign Sign_space specs | _ \<Rightarrow> specs)"

definition fill_value :: "char \<Rightarrow> format_specs \<Rightarrow> format_specs" where
  "fill_value c specs = (set_fill_size 1 specs)\<lparr>fill_data := [c, CHR 0x00, CHR 0x00] @ drop 3 (fill_data specs)\<rparr>"

fun align_value :: "(char option \<times> align) option \<Rightarrow> format_specs \<Rightarrow> format_specs" where
  "align_value None specs = specs"
| "align_value (Some (None, a)) specs = set_align a specs"
| "align_value (Some (Some c, a)) specs = set_align a (fill_value c specs)"

definition spec_value :: "spec_text \<Rightarrow> format_specs" where
  "spec_value x = sign_value x (align_value (tx_align x) format_specs_new)"

section \<open>The loop over the parts\<close>

definition run :: "arg_type \<Rightarrow> string \<Rightarrow> format_specs \<Rightarrow> parse_context \<Rightarrow> state \<Rightarrow> fmt_error + (string \<times> format_specs \<times> parse_context)" where
  "run t b specs ctx cur = specs_loop t (hd b) b specs ctx cur"

lemma run_step:
  assumes "spec_step t (hd b) b specs ctx cur = Inr (True, b', specs', ctx', cur')" and "b \<noteq> []" and "b' \<noteq> []"
  shows "run t b specs ctx cur = run t b' specs' ctx' cur'"
  using assms unfolding run_def by (subst specs_loop.simps) simp

lemma run_stop:
  assumes "spec_step t (hd b) b specs ctx cur = Inr (False, b', specs', ctx', cur')" and "b \<noteq> []"
  shows "run t b specs ctx cur = Inr (b', specs', ctx')"
  using assms unfolding run_def by (subst specs_loop.simps) simp

lemma run_type:
  assumes ok: "spec_text_ok t x"
  shows "run t (type_text x @ CHR ''}'' # r) specs ctx cur = Inr (CHR ''}'' # r, type_value x specs, ctx)"
proof (cases "tx_type x")
  case None
  then show ?thesis
    by (auto intro!: run_stop simp: type_text_def type_value_def spec_step_def between_def)
next
  case (Some c)
  obtain p st u where c: "map_of type_table c = Some (p, st, u)" "in_types t st" "\<not> (c = CHR ''c'' \<and> t = bool_type)"
    using ok Some by (auto simp: spec_text_ok_def)
  then have m: "(c, p, st, u) \<in> set type_table" by (auto dest: map_of_SomeD)
  have v: "type_value x specs = set_type p (if u then set_upper specs else specs)"
    by (simp add: type_value_def Some c(1))
  have "spec_step t c (c # CHR ''}'' # r) specs ctx cur
      = Inr (False, CHR ''}'' # r, set_type p (if u then set_upper specs else specs), ctx, cur)"
    using m c(2,3) unfolding type_table_def list.set insert_iff empty_iff prod.inject
    by (elim disjE conjE FalseE; hypsubst;
        simp add: spec_step_def between_def parse_presentation_type_def del: in_types_sets in_types_or)
  then show ?thesis using Some v by (auto intro!: run_stop simp: type_text_def)
qed

lemma run_locale:
  assumes ok: "spec_text_ok t x" and cur: "state_code cur < 7"
  shows "run t (locale_text x @ CHR ''}'' # r) specs ctx cur = Inr (CHR ''}'' # r, locale_value x specs, ctx)"
proof (cases "tx_localized x")
  case False
  then show ?thesis by (simp add: locale_text_def locale_value_def run_type [OF ok])
next
  case True
  have "run t (''L'' @ type_text x @ CHR ''}'' # r) specs ctx cur
      = run t (type_text x @ CHR ''}'' # r) (set_localized specs) ctx St_locale"
    by (rule run_step) (use True ok cur in \<open>simp_all add: spec_step_def between_def go_on_def enter_state_def spec_text_ok_def\<close>)
  then show ?thesis using True by (simp add: locale_text_def locale_value_def run_type [OF ok])
qed

text \<open>No digit follows a number.\<close>

lemma type_table_chars: "map fst type_table = ''dXxoBbEeFfGgAacsp?''"
  by (simp add: type_table_def)

lemma type_chars:
  "c \<in> set ''dXxoBbEeFfGgAacsp?'' \<Longrightarrow> char_digit c = None"
  "c \<in> set ''dXxoBbEeFfGgAacsp?'' \<Longrightarrow> parse_align c = Align_none"
  unfolding list.set insert_iff empty_iff
  by (elim disjE FalseE; hypsubst; simp add: char_digit_def parse_align_def)+

lemma tx_type_char:
  assumes "spec_text_ok t x" and "tx_type x = Some c"
  shows "c \<in> set ''dXxoBbEeFfGgAacsp?''"
proof -
  obtain v where "map_of type_table c = Some v" using assms by (auto simp: spec_text_ok_def)
  then have "c \<in> set (map fst type_table)" by (force dest: map_of_SomeD)
  then show ?thesis by (simp only: type_table_chars)
qed

lemma no_digit_L: "char_digit CHR ''L'' = None" "char_digit CHR ''.'' = None"
  by (simp_all add: char_digit_def)

lemma locale_no_digit: "spec_text_ok t x \<Longrightarrow> char_digit (hd (locale_text x @ CHR ''}'' # r)) = None"
  using type_chars(1) [OF tx_type_char]
  by (cases "tx_type x") (simp_all add: locale_text_def type_text_def no_digit_L)

lemma precision_no_digit: "spec_text_ok t x \<Longrightarrow> char_digit (hd (precision_text x @ CHR ''}'' # r)) = None"
  using locale_no_digit [of t x r] by (cases "tx_precision x") (simp_all add: precision_text_def no_digit_L)

lemma parse_dec:
  assumes "int n \<le> INT_MAX" and "rest = [] \<or> char_digit (hd rest) = None"
  shows "parse_nonnegative_int (dec n @ rest) e = Inr (int n, rest)"
proof -
  define s where "s = butlast (dec n)"
  define c where "c = last (dec n)"
  have d: "dec n = s @ [c]" by (simp add: s_def c_def)
  have "n < 10 ^ 10" using assms(1) by (simp add: INT_MAX_def)
  then have "length (dec n) \<le> 10" by (rule length_dec_le) simp
  then have l: "length s < 10" by (simp add: d)
  have digits: "all_digits (s @ [c])" using all_digits_dec [of n] by (simp add: d)
  then obtain v where v: "char_digit c = Some v" "all_digits s" by (auto simp: all_digits_def)
  have "number 0 (s @ [c]) = n" using read_digits_dec [of n] by (simp add: d)
  then show ?thesis using parse_nonnegative_int_digits [OF v(2,1) assms(2), of e] l assms(1) by (simp add: d)
qed

lemma dynamic_spec_dec:
  assumes "int n \<le> INT_MAX" and "rest = [] \<or> char_digit (hd rest) = None"
  shows "parse_dynamic_spec (dec n @ rest) v r ctx = Inr (\<lparr>ds_value = int n, ds_ref = r, ds_kind = Id_none\<rparr>, rest, ctx)"
proof (cases "dec n @ rest")
  case (Cons c cs)
  have "char_digit c \<noteq> None" using all_digits_dec [of n] Cons by (cases "dec n") (auto simp: all_digits_def)
  then show ?thesis using parse_dec [OF assms, of "- 1"] unfolding parse_dynamic_spec_def Cons by simp
qed simp

lemma run_precision:
  assumes ok: "spec_text_ok t x" and cur: "state_code cur < 6"
  shows "run t (precision_text x @ CHR ''}'' # r) specs ctx cur = Inr (CHR ''}'' # r, precision_value x specs, ctx)"
proof (cases "tx_precision x")
  case None
  then show ?thesis using cur by (simp add: precision_text_def precision_value_def run_locale [OF ok])
next
  case (Some p)
  let ?b = "locale_text x @ CHR ''}'' # r"
  have p: "int p \<le> INT_MAX" "in_types t (float_set OR string_set OR cstring_set)"
    using ok Some by (auto simp: spec_text_ok_def simp del: in_types_sets in_types_or)
  have "run t (CHR ''.'' # dec p @ ?b) specs ctx cur
      = run t ?b (set_dynamic_precision Id_none (specs\<lparr>fs_precision := int p\<rparr>)) ctx St_precision"
    by (rule run_step) (use cur p locale_no_digit [OF ok, of r] in
      \<open>simp_all add: spec_step_def between_def enter_state_def parse_precision_def dynamic_spec_dec
        del: in_types_sets in_types_or\<close>)
  then show ?thesis using Some by (simp add: precision_text_def precision_value_def run_locale [OF ok])
qed

lemma hd_dec: "0 < n \<Longrightarrow> \<exists>d cs. 0 < d \<and> d < 10 \<and> dec n = digit_char d # cs"
proof (induction n rule: dec.induct)
  case (1 n)
  show ?case
  proof (cases "n < 10")
    case False
    then have "0 < n div 10" by simp
    then show ?thesis using 1(1) [OF False] False by (auto simp: dec_step)
  qed (use 1(2) in \<open>auto simp: dec_small\<close>)
qed

lemma digit_not_special:
  assumes "0 < d" and "d < 10"
  shows "between CHR ''1'' CHR ''9'' (digit_char d)" and "digit_char d \<notin> set ''<>^+ -#0''"
proof -
  have "of_char (digit_char d) = 48 + d" using assms by (simp add: digit_char_def)
  then show "between CHR ''1'' CHR ''9'' (digit_char d)" using assms by (simp add: between_def)
  have special: "char_digit c = None \<or> char_digit c = Some 0" if "c \<in> set ''<>^+ -#0''" for c
    using that unfolding list.set insert_iff empty_iff
    by (elim disjE FalseE; hypsubst; simp add: char_digit_def)
  show "digit_char d \<notin> set ''<>^+ -#0''"
  proof
    assume "digit_char d \<in> set ''<>^+ -#0''"
    from special [OF this] show False using assms by (simp only: char_digit_digit_char) simp
  qed
qed

lemma run_width:
  assumes ok: "spec_text_ok t x" and cur: "state_code cur < 5"
  shows "run t (width_text x @ CHR ''}'' # r) specs ctx cur = Inr (CHR ''}'' # r, width_value x specs, ctx)"
proof (cases "tx_width x = 0")
  case True
  then show ?thesis using cur by (simp add: width_text_def width_value_def run_precision [OF ok])
next
  case False
  let ?b = "precision_text x @ CHR ''}'' # r"
  have w: "int (tx_width x) \<le> INT_MAX" using ok by (simp add: spec_text_ok_def)
  obtain d cs where d: "0 < d" "d < 10" "dec (tx_width x) = digit_char d # cs" using hd_dec False by blast
  have "run t (dec (tx_width x) @ ?b) specs ctx cur
      = run t ?b (set_dynamic_width Id_none (specs\<lparr>fs_width := int (tx_width x)\<rparr>)) ctx St_width"
  proof (rule run_step)
    have "parse_width (dec (tx_width x) @ ?b) specs ctx
        = Inr (?b, set_dynamic_width Id_none (specs\<lparr>fs_width := int (tx_width x)\<rparr>), ctx)"
      using w precision_no_digit [OF ok, of r] by (simp add: parse_width_def dynamic_spec_dec)
    moreover have "hd (dec (tx_width x) @ ?b) = digit_char d" by (simp add: d(3))
    ultimately show "spec_step t (hd (dec (tx_width x) @ ?b)) (dec (tx_width x) @ ?b) specs ctx cur
        = Inr (True, ?b, set_dynamic_width Id_none (specs\<lparr>fs_width := int (tx_width x)\<rparr>), ctx, St_width)"
      using digit_not_special [OF d(1,2)] cur by (simp add: spec_step_def enter_state_def)
  qed simp_all
  then show ?thesis using False by (simp add: width_text_def width_value_def run_precision [OF ok])
qed

lemma run_zero:
  assumes ok: "spec_text_ok t x" and cur: "state_code cur < 4"
  shows "run t (zero_text x @ CHR ''}'' # r) specs ctx cur = Inr (CHR ''}'' # r, zero_value x specs, ctx)"
proof (cases "tx_zero x")
  case False
  then show ?thesis using cur by (simp add: zero_text_def zero_value_def run_width [OF ok])
next
  case True
  let ?b = "width_text x @ CHR ''}'' # r"
  have "run t (''0'' @ ?b) specs ctx cur = run t ?b (if specs_align specs = Align_none
      then set_fill_char CHR ''0'' (set_align Align_numeric specs) else specs) ctx St_zero"
    by (rule run_step) (use True ok cur in \<open>simp_all add: spec_step_def enter_state_def spec_text_ok_def\<close>)
  then show ?thesis using True by (simp add: zero_text_def zero_value_def run_width [OF ok])
qed

lemma run_alt:
  assumes ok: "spec_text_ok t x" and cur: "state_code cur < 3"
  shows "run t (alt_text x @ CHR ''}'' # r) specs ctx cur = Inr (CHR ''}'' # r, alt_value x specs, ctx)"
proof (cases "tx_alt x")
  case False
  then show ?thesis using cur by (simp add: alt_text_def alt_value_def run_zero [OF ok])
next
  case True
  let ?b = "zero_text x @ CHR ''}'' # r"
  have "run t (''#'' @ ?b) specs ctx cur = run t ?b (set_alt specs) ctx St_hash"
    by (rule run_step) (use True ok cur in \<open>simp_all add: spec_step_def enter_state_def go_on_def spec_text_ok_def\<close>)
  then show ?thesis using True by (simp add: alt_text_def alt_value_def run_zero [OF ok])
qed

lemma run_sign:
  assumes ok: "spec_text_ok t x" and cur: "state_code cur < 2"
  shows "run t (signed_text x @ CHR ''}'' # r) specs ctx cur = Inr (CHR ''}'' # r, sign_value x specs, ctx)"
proof (cases "tx_sign x")
  case None
  then show ?thesis using cur by (simp add: signed_text_def sign_value_def run_alt [OF ok])
next
  case (Some g)
  let ?b = "alt_text x @ CHR ''}'' # r"
  have g: "g \<noteq> Sign_none" "in_types t (sint_set OR float_set)"
    using ok Some by (simp_all add: spec_text_ok_def del: in_types_sets in_types_or)
  have "run t (sign_char g # ?b) specs ctx cur = run t ?b
      (if g = Sign_plus \<or> g = Sign_space then set_sign g specs else specs) ctx St_sign"
    by (rule run_step; cases g) (use g cur in
      \<open>simp_all add: spec_step_def enter_state_def go_on_def del: in_types_sets in_types_or\<close>)
  then show ?thesis using Some g(1)
    by (cases g) (simp_all add: signed_text_def sign_value_def run_alt [OF ok])
qed

text \<open>No character behind the alignment is one of an alignment.\<close>

lemma no_align_dec: "c \<in> set (dec n) \<Longrightarrow> parse_align c = Align_none"
proof -
  assume "c \<in> set (dec n)"
  then have "char_digit c \<noteq> None" using all_digits_dec [of n] by (auto simp: all_digits_def)
  then show ?thesis by (auto simp: parse_align_def char_digit_def)
qed

lemma no_align_simps: "parse_align CHR ''}'' = Align_none" "parse_align CHR ''L'' = Align_none"
  "parse_align CHR ''.'' = Align_none" "parse_align CHR ''0'' = Align_none" "parse_align CHR ''#'' = Align_none"
  "parse_align (sign_char g) = Align_none"
  by (simp_all add: parse_align_def) (cases g; simp)

lemma no_align:
  assumes "spec_text_ok t x" and "c \<in> set (signed_text x)"
  shows "parse_align c = Align_none"
  using assms(2) type_chars(2) [OF tx_type_char [OF assms(1)]]
  by (auto simp: signed_text_def alt_text_def zero_text_def width_text_def precision_text_def locale_text_def
      type_text_def no_align_simps no_align_dec split: option.splits if_splits)

lemma parse_is_run:
  assumes "b = [] \<or> parse_align (hd b) = Align_none"
  shows "parse_format_specs (c # b) specs ctx t = run t (c # b) specs ctx St_start"
  using assms unfolding parse_format_specs_def run_def by (cases b) auto

lemma hd_no_align:
  "spec_text_ok t x \<Longrightarrow> set cs \<subseteq> set (signed_text x) \<Longrightarrow> parse_align (hd (cs @ CHR ''}'' # r)) = Align_none"
  using no_align by (cases cs) (auto simp: no_align_simps)

lemma parse_signed:
  assumes ok: "spec_text_ok t x"
  shows "parse_format_specs (signed_text x @ CHR ''}'' # r) specs ctx t = Inr (CHR ''}'' # r, sign_value x specs, ctx)"
proof (cases "signed_text x")
  case Nil
  have "run t (CHR ''}'' # r) specs ctx St_start = Inr (CHR ''}'' # r, specs, ctx)"
    by (rule run_stop) (simp_all add: spec_step_def between_def)
  then show ?thesis using run_sign [OF ok, of St_start r specs ctx] parse_specs_brace [of "CHR ''}'' # r" specs ctx t]
    by (simp add: Nil)
next
  case (Cons c cs)
  then have "parse_align (hd (cs @ CHR ''}'' # r)) = Align_none" by (intro hd_no_align [OF ok]) auto
  then have "parse_format_specs (signed_text x @ CHR ''}'' # r) specs ctx t
      = run t (signed_text x @ CHR ''}'' # r) specs ctx St_start"
    using parse_is_run [of "cs @ CHR ''}'' # r" c specs ctx t] by (simp add: Cons)
  then show ?thesis using run_sign [OF ok, of St_start] by simp
qed

lemma code_point_length_ascii: "(of_char c :: nat) < 128 \<Longrightarrow> code_point_length c = 1"
proof -
  assume c: "(of_char c :: nat) < 128"
  define m where "m = (of_char c :: nat) div 8"
  have "m < 16" using c unfolding m_def by (simp add: div_less_iff_less_mult)
  moreover have "\<forall>m \<in> set [0..<16]. drop_bit (2 * m) (0x3a55000000000000 :: nat) AND 3 = 0"
    by (simp add: upt_rec)
  ultimately have "drop_bit (2 * m) (0x3a55000000000000 :: nat) AND 3 = 0" by simp
  then show ?thesis unfolding code_point_length_def by (simp add: drop_bit_eq_div m_def Let_def)
qed

lemma parse_spec_string:
  assumes ok: "spec_text_ok t x"
  shows "parse_format_specs (spec_string x @ CHR ''}'' # r) format_specs_new ctx t
    = Inr (CHR ''}'' # r, spec_value x, ctx)"
proof -
  let ?b = "signed_text x @ CHR ''}'' # r"
  have b: "parse_align (hd ?b) = Align_none" by (rule hd_no_align [OF ok]) simp
  consider "tx_align x = None" | a where "tx_align x = Some (None, a)"
    | c a where "tx_align x = Some (Some c, a)" by (metis not_None_eq surj_pair)
  then show ?thesis
  proof cases
    case 1
    then show ?thesis using parse_signed [OF ok] by (simp add: spec_string_def spec_value_def)
  next
    case 2
    then have a: "a \<in> {Align_left, Align_right, Align_center}" using ok by (simp add: spec_text_ok_def)
    have "spec_step t (align_char a) (align_char a # ?b) format_specs_new ctx St_start
        = Inr (True, ?b, set_align a format_specs_new, ctx, St_align)"
      using a by (elim insertE emptyE) (simp_all add: spec_step_def go_on_def enter_state_def parse_align_def)
    then have "run t (align_char a # ?b) format_specs_new ctx St_start = run t ?b (set_align a format_specs_new) ctx St_align"
      by (intro run_step) simp_all
    then show ?thesis using 2 run_sign [OF ok, of St_align] parse_is_run [of ?b "align_char a" format_specs_new ctx t] b
      by (simp add: spec_string_def spec_value_def)
  next
    case 3
    then have a: "a \<in> {Align_left, Align_right, Align_center}" "(of_char c :: nat) < 128" "c \<noteq> CHR ''{''" "c \<noteq> CHR ''}''"
      using ok by (simp_all add: spec_text_ok_def)
    have p: "parse_align (align_char a) = a" "a \<noteq> Align_none" using a(1) by (auto simp: parse_align_def)
    have "parse_fill (c # align_char a # ?b) format_specs_new ctx St_start
        = Inr (True, ?b, set_align a (fill_value c format_specs_new), ctx, St_align)"
      using a p by (simp add: parse_fill_def code_point_length_ascii enter_state_def set_fill_def fill_value_def Let_def)
    then have "spec_step t CHR 0x00 (c # align_char a # ?b) format_specs_new ctx St_start
        = Inr (True, ?b, set_align a (fill_value c format_specs_new), ctx, St_align)"
      by (simp add: spec_step_def between_def)
    then have "specs_loop t CHR 0x00 (c # align_char a # ?b) format_specs_new ctx St_start
        = run t ?b (set_align a (fill_value c format_specs_new)) ctx St_align"
      unfolding run_def by (subst specs_loop.simps) simp
    then show ?thesis using 3 run_sign [OF ok, of St_align] p
      by (simp add: spec_string_def spec_value_def parse_format_specs_def)
  qed
qed

section \<open>What the specifiers are\<close>

text \<open>The specifiers as the getters see them are those of the text.\<close>

definition written_type :: "spec_text \<Rightarrow> 32 word \<times> bool" where
  "written_type x = (case tx_type x of None \<Rightarrow> (pres_none, False)
     | Some c \<Rightarrow> (case the (map_of type_table c) of (p, st, u) \<Rightarrow> (p, u)))"

definition same_specs :: "spec_text \<Rightarrow> format_specs \<Rightarrow> bool" where
  "same_specs x s \<longleftrightarrow>
     specs_align s = (case tx_align x of Some (f, a) \<Rightarrow> a | None \<Rightarrow> if tx_zero x then Align_numeric else Align_none) \<and>
     take (fill_size s) (fill_data s) = (case tx_align x of Some (Some c, a) \<Rightarrow> [c] | Some (None, a) \<Rightarrow> '' ''
       | None \<Rightarrow> if tx_zero x then ''0'' else '' '') \<and>
     specs_sign s = (case tx_sign x of Some Sign_plus \<Rightarrow> Sign_plus | Some Sign_space \<Rightarrow> Sign_space | _ \<Rightarrow> Sign_none) \<and>
     specs_alt s = tx_alt x \<and> fs_width s = int (tx_width x) \<and>
     fs_precision s = (case tx_precision x of None \<Rightarrow> - 1 | Some p \<Rightarrow> int p) \<and>
     specs_localized s = tx_localized x \<and> (specs_type s, specs_upper s) = written_type x \<and>
     dynamic_width s = Id_none \<and> dynamic_precision s = Id_none"

lemma type_mask_table:
  assumes "map_of type_table c = Some (p, st, u)"
  shows "p AND type_mask = p"
proof -
  have "\<forall>(c, p, st, u) \<in> set type_table. p AND type_mask = p"
    by (simp add: type_table_def pres_defs mask_defs)
  then show ?thesis using map_of_SomeD [OF assms] by blast
qed

lemma type_value_laws:
  assumes "spec_text_ok t x"
  shows "specs_align (type_value x s) = specs_align s" "fill_size (type_value x s) = fill_size s"
    "fill_data (type_value x s) = fill_data s" "specs_sign (type_value x s) = specs_sign s"
    "specs_alt (type_value x s) = specs_alt s" "fs_width (type_value x s) = fs_width s"
    "fs_precision (type_value x s) = fs_precision s" "specs_localized (type_value x s) = specs_localized s"
    "dynamic_width (type_value x s) = dynamic_width s" "dynamic_precision (type_value x s) = dynamic_precision s"
    "specs_type s = pres_none \<Longrightarrow> specs_type (type_value x s) = fst (written_type x)"
    "specs_upper s = False \<Longrightarrow> specs_upper (type_value x s) = snd (written_type x)"
proof -
  consider "tx_type x = None" | c p st u where "tx_type x = Some c" "map_of type_table c = Some (p, st, u)" "p AND type_mask = p"
    using assms type_mask_table by (cases "tx_type x") (auto simp: spec_text_ok_def)
  note cases = this
  show "specs_align (type_value x s) = specs_align s" "fill_size (type_value x s) = fill_size s"
    "fill_data (type_value x s) = fill_data s" "specs_sign (type_value x s) = specs_sign s"
    "specs_alt (type_value x s) = specs_alt s" "fs_width (type_value x s) = fs_width s"
    "fs_precision (type_value x s) = fs_precision s" "specs_localized (type_value x s) = specs_localized s"
    "dynamic_width (type_value x s) = dynamic_width s" "dynamic_precision (type_value x s) = dynamic_precision s"
    "specs_type s = pres_none \<Longrightarrow> specs_type (type_value x s) = fst (written_type x)"
    "specs_upper s = False \<Longrightarrow> specs_upper (type_value x s) = snd (written_type x)"
    by (cases rule: cases; simp add: type_value_def written_type_def)+
qed

lemma member_updates [simp]:
  "data_w (s\<lparr>fs_width := w\<rparr>) = data_w s" "data_w (s\<lparr>fs_precision := p\<rparr>) = data_w s"
  "data_w (s\<lparr>fill_data := f\<rparr>) = data_w s"
  by simp_all

lemmas update_laws = getters_of_data [OF member_updates(1)] getters_of_data [OF member_updates(2)]
  getters_of_data [OF member_updates(3)]

lemma spec_value_same:
  assumes ok: "spec_text_ok t x"
  shows "same_specs x (spec_value x)"
proof -
  define s0 where "s0 = align_value (tx_align x) format_specs_new"
  define s1 where "s1 = (case tx_sign x of Some Sign_plus \<Rightarrow> set_sign Sign_plus s0
    | Some Sign_space \<Rightarrow> set_sign Sign_space s0 | _ \<Rightarrow> s0)"
  define s2 where "s2 = (if tx_alt x then set_alt s1 else s1)"
  define s3 where "s3 = (if tx_zero x \<and> specs_align s2 = Align_none
     then set_fill_char CHR ''0'' (set_align Align_numeric s2) else s2)"
  define s4 where "s4 = (if tx_width x = 0 then s3 else set_dynamic_width Id_none (s3\<lparr>fs_width := int (tx_width x)\<rparr>))"
  define s5 where "s5 = (case tx_precision x of None \<Rightarrow> s4
     | Some p \<Rightarrow> set_dynamic_precision Id_none (s4\<lparr>fs_precision := int p\<rparr>))"
  define s6 where "s6 = (if tx_localized x then set_localized s5 else s5)"
  have v: "spec_value x = type_value x s6"
    unfolding s6_def s5_def s4_def s3_def s2_def s1_def s0_def
    by (simp add: spec_value_def sign_value_def alt_value_def zero_value_def width_value_def precision_value_def locale_value_def)
  define view where "view s = (specs_align s, take (fill_size s) (fill_data s), specs_sign s, specs_alt s,
      fs_width s, fs_precision s, specs_localized s)" for s
  define rest where "rest s \<longleftrightarrow> specs_type s = pres_none \<and> specs_upper s = False \<and> dynamic_width s = Id_none
      \<and> dynamic_precision s = Id_none \<and> fill_size s = 1 \<and> fill_data s \<noteq> []" for s
  note defs = view_def rest_def
  let ?a = "case tx_align x of Some (f, a) \<Rightarrow> a | None \<Rightarrow> Align_none"
  let ?f = "case tx_align x of Some (Some c, a) \<Rightarrow> [c] | _ \<Rightarrow> '' ''"
  let ?g = "case tx_sign x of Some Sign_plus \<Rightarrow> Sign_plus | Some Sign_space \<Rightarrow> Sign_space | _ \<Rightarrow> Sign_none"
  let ?a' = "case tx_align x of Some (f, a) \<Rightarrow> a | None \<Rightarrow> if tx_zero x then Align_numeric else Align_none"
  let ?f' = "case tx_align x of Some (Some c, a) \<Rightarrow> [c] | Some (None, a) \<Rightarrow> '' '' | None \<Rightarrow> if tx_zero x then ''0'' else '' ''"
  let ?p = "case tx_precision x of None \<Rightarrow> - 1 | Some p \<Rightarrow> int p"
  have 0: "view s0 = (?a, ?f, Sign_none, False, 0, - 1, False) \<and> rest s0"
    unfolding s0_def by (cases "tx_align x" rule: align_text.cases) (auto simp: defs fill_value_def update_laws)
  have 1: "view s1 = (?a, ?f, ?g, False, 0, - 1, False) \<and> rest s1"
    using 0 unfolding s1_def by (auto simp: defs split: option.split sign.split)
  have 2: "view s2 = (?a, ?f, ?g, tx_alt x, 0, - 1, False) \<and> rest s2"
    using 1 unfolding s2_def by (auto simp: defs)
  have align: "?a \<noteq> Align_none" if "tx_align x \<noteq> None"
    using that ok by (auto simp: spec_text_ok_def split: prod.splits)
  have 3: "view s3 = (?a', ?f', ?g, tx_alt x, 0, - 1, False) \<and> rest s3"
  proof (cases "tx_zero x \<and> tx_align x = None")
    case True
    then have "specs_align s2 = Align_none" using 2 by (simp add: defs)
    then have "s3 = set_fill_char CHR ''0'' (set_align Align_numeric s2)" using True by (simp add: s3_def)
    then show ?thesis using True 2 by (cases "fill_data s2") (auto simp: defs set_fill_char_def update_laws)
  next
    case False
    then have "s3 = s2" using 2 align by (auto simp: s3_def defs)
    then show ?thesis using False 2 by (auto split: option.split)
  qed
  have 4: "view s4 = (?a', ?f', ?g, tx_alt x, int (tx_width x), - 1, False) \<and> rest s4"
    using 3 unfolding s4_def by (auto simp: defs update_laws)
  have 5: "view s5 = (?a', ?f', ?g, tx_alt x, int (tx_width x), ?p, False) \<and> rest s5"
    using 4 unfolding s5_def by (auto simp: defs update_laws split: option.split)
  have 6: "view s6 = (?a', ?f', ?g, tx_alt x, int (tx_width x), ?p, tx_localized x) \<and> rest s6"
    using 5 unfolding s6_def by (auto simp: defs)
  then show ?thesis unfolding v same_specs_def type_value_laws(1-10) [OF ok]
    using type_value_laws(11,12) [OF ok, of s6] unfolding defs prod.inject prod_eq_iff fst_conv snd_conv by metis
qed

section \<open>An integer in a field\<close>

lemma integer_types:
  assumes ok: "spec_text_ok int_type x" and c: "tx_type x \<noteq> Some CHR ''c''" and same: "same_specs x specs"
  shows "specs_type specs \<in> int_types"
proof (cases "tx_type x")
  case None
  then show ?thesis using same by (simp add: same_specs_def written_type_def int_types_def)
next
  case (Some c)
  obtain p st u where t: "map_of type_table c = Some (p, st, u)" "in_types int_type st"
    using ok Some by (auto simp: spec_text_ok_def)
  have "p \<in> int_types"
    using map_of_SomeD [OF t(1)] t(2) assms(2) Some unfolding type_table_def list.set insert_iff empty_iff prod.inject
    by (elim disjE conjE FalseE; hypsubst; simp add: integral_set_def int_types_def)
  then show ?thesis using same Some t(1) by (simp add: same_specs_def written_type_def)
qed

lemma resolve_fixed:
  "dynamic_width specs = Id_none \<Longrightarrow> dynamic_precision specs = Id_none \<Longrightarrow> resolve_specs args specs = Inr specs"
  by (simp add: resolve_specs_def handle_dynamic_spec_def)

lemma format_integer_field:
  assumes v: "- (2 ^ 31) \<le> v" "v < 2 ^ 31" and ok: "spec_text_ok int_type x"
    and l: "\<not> tx_localized x" and c: "tx_type x \<noteq> Some CHR ''c''"
  shows "vformat io (''{:'' @ spec_string x @ ''}'') (make_format_args [Int_arg v] []) = Inr (integer_text v (spec_value x))"
proof -
  let ?specs = "spec_value x" and ?h = "format_handler io (make_format_args [Int_arg v] [])" and ?b = "spec_string x @ ''}''"
  have args: "args_ok [Int_arg v :: 'a fmt_arg] []" by (simp add: args_ok_def)
  note same = spec_value_same [OF ok]
  have "dynamic_width ?specs = Id_none" "dynamic_precision ?specs = Id_none" "\<not> specs_localized ?specs"
    "fs_width ?specs = int (tx_width x)" "fs_precision ?specs = (case tx_precision x of None \<Rightarrow> - 1 | Some p \<Rightarrow> int p)"
    using same l by (simp_all add: same_specs_def)
  note fields = this
  have "write_integer 32 v ?specs = Inr (integer_text v ?specs)"
    by (rule write_integer_text [OF _ _ integer_types [OF ok c same]])
      (use v ok fields(4,5) in \<open>auto simp: int_widths_def abs_less_iff spec_text_ok_def split: option.splits\<close>)
  then have "write_with io ?specs (Int_arg v) = Inr (integer_text v ?specs)" by (simp add: localized_or_def fields)
  then have specs: "fh_format_specs io (make_format_args [Int_arg v] []) 0 ?b s
      = Inr (''}'', fh_append (integer_text v ?specs) s)" for s
    using parse_spec_string [OF ok, of "[]" "fh_ctx s"]
    by (simp add: fh_format_specs_def get_arg_def args_get_make [OF args] arg_at_def resolve_fixed fields)
  have loop: "format_string_loop ?h [] (''{:'' @ ?b) (at_arg 0 s) = Inr (at_arg 1 (fh_append (integer_text v ?specs) s))" for s
    by (simp add: parse_replacement_field_def replacement_specs_def format_handler_def fh_next_arg_id_def next_arg_id_def
        do_check_arg_id_def at_arg_def specs, simp add: fh_append_def)
  show ?thesis unfolding vformat_parse [OF args] loop by (simp add: at_arg_def fh_append_def)
qed

section \<open>Theorems\<close>

text \<open>
  C36. Parsing written specifiers, behind whatever comes, gives the specifiers that were written: fill,
  alignment, sign, alternate form, zero padding, width, precision, locale flag and type, for every
  kind of argument they are allowed for; the parser stops at the closing brace.
\<close>

theorem format_specs_roundtrip:
  assumes "spec_text_ok t x"
  shows "\<exists>specs. parse_format_specs (spec_string x @ CHR ''}'' # r) format_specs_new ctx t = Inr (CHR ''}'' # r, specs, ctx)
    \<and> same_specs x specs"
  using parse_spec_string [OF assms, of r ctx] spec_value_same [OF assms] by blast

definition sample_spec :: spec_text where
  "sample_spec = \<lparr>tx_align = Some (Some CHR ''*'', Align_center), tx_sign = Some Sign_plus, tx_alt = True,
     tx_zero = False, tx_width = 10, tx_precision = None, tx_localized = False, tx_type = Some CHR ''x''\<rparr>"

lemma sample_spec_string: "spec_string sample_spec = ''*^+#10x''"
  by code_simp

lemma sample_spec_ok: "spec_text_ok int_type sample_spec"
  by (auto simp: spec_text_ok_def sample_spec_def is_arithmetic_type_def INT_MAX_def type_table_def integral_set_def)

theorem format_specs_roundtrip_witness:
  "\<exists>specs. parse_format_specs ''*^+#10x}...'' format_specs_new (parse_context_new None) int_type
      = Inr (''}...'', specs, parse_context_new None) \<and> same_specs sample_spec specs"
  using format_specs_roundtrip [OF sample_spec_ok, of "''...''" "parse_context_new None"] by (simp add: sample_spec_string)

text \<open>
  C37. An integer in a field with written specifiers becomes its sign, prefix, zeros and digits in the
  base, filled and aligned to the width, under specifiers that are the written ones.
\<close>

theorem integer_field_is_formatted:
  assumes "- (2 ^ 31) \<le> v" and "v < 2 ^ 31" and "spec_text_ok int_type x"
    and "\<not> tx_localized x" and "tx_type x \<noteq> Some CHR ''c''"
  shows "\<exists>specs. same_specs x specs \<and>
    vformat io (''{:'' @ spec_string x @ ''}'') (make_format_args [Int_arg v] []) = Inr (integer_text v specs)"
  using format_integer_field [OF assms] spec_value_same [OF assms(3)] by blast

lemma concat_replicate_single: "concat (replicate n [c]) = replicate n c"
  by (induction n) simp_all

lemma fill_written: "take (fill_size s) (fill_data s) = [c] \<Longrightarrow> fill n s = replicate n c"
  by (cases "fill_data s") (auto simp: fill_def fill_unit_def concat_replicate_single split: if_splits)

lemma sample_spec_written:
  assumes "same_specs sample_spec specs"
  shows "integer_text 255 specs = ''**+0xff***''"
proof -
  have b: "base_text 4 False 255 = ''ff''" by code_simp
  have "take (fill_size specs) (fill_data specs) = ''*''" using assms by (simp add: same_specs_def sample_spec_def)
  note fill = fill_written [OF this]
  have r: "replicate 2 c = [c, c]" "replicate 3 c = [c, c, c]" for c :: char by (simp_all add: numeral_eq_Suc)
  show ?thesis using assms
    by (simp add: same_specs_def sample_spec_def written_type_def type_table_def integer_text_def digits_text_def
        sign_text_def base_prefix_def zeros_def padded_def fill b r Let_def)
qed

theorem integer_field_is_formatted_witness:
  "vformat plain_io ''{:*^+#10x}'' (make_format_args [Int_arg 255] []) = Inr ''**+0xff***''"
proof -
  have "\<not> tx_localized sample_spec" "tx_type sample_spec \<noteq> Some CHR ''c''" by (simp_all add: sample_spec_def)
  from integer_field_is_formatted [OF _ _ sample_spec_ok this, of 255 plain_io] show ?thesis
    by (auto simp: sample_spec_string dest: sample_spec_written)
qed

end
