(* ===== verification/Fmt_Bigint.thy ===== *)
theory Fmt_Bigint
  imports Prelude
begin

text \<open>
  The arbitrary-precision unsigned numbers of the bundled fmt (class \<open>bigint\<close> in
  \<open>fmt/bundled/format.h\<close>), on which the exact output of floating point numbers rests: big digits of
  32 bits, least significant first, and an exponent that counts zero digits below them.
\<close>

unbundle bit_operations_syntax

section \<open>The number\<close>

record bigint =
  bi_bigits :: "u32 list"
  bi_exp :: int

definition bigint_new :: bigint where
  "bigint_new = \<lparr>bi_bigits = [], bi_exp = 0\<rparr>"

definition num_bigits :: "bigint \<Rightarrow> int" where
  "num_bigits b = int (length (bi_bigits b)) + bi_exp b"

definition get_bigit :: "bigint \<Rightarrow> int \<Rightarrow> u32" where
  "get_bigit b i = (if i \<ge> bi_exp b \<and> i < num_bigits b then bi_bigits b ! nat (i - bi_exp b) else 0)"

definition remove_leading_zeros :: "bigint \<Rightarrow> bigint" where
  "remove_leading_zeros b =
     (let ds = bi_bigits b in
      b\<lparr>bi_bigits := if ds = [] then [] else hd ds # rev (dropWhile (\<lambda>d. d = 0) (rev (tl ds)))\<rparr>)"

section \<open>Assignment\<close>

lemma unat_shr: "unat (drop_bit n w) = unat w div 2 ^ n" for w :: "'u::len word"
  by (metis drop_bit_eq_div unat_drop_bit_eq)

text \<open>The digits of a machine number, at least one.\<close>

function digits_of :: "'u::len word \<Rightarrow> u32 list" where
  "digits_of n = ucast n # (if drop_bit 32 n = 0 then [] else digits_of (drop_bit 32 n))"
  by pat_completeness auto

termination
proof (relation "measure unat", simp)
  fix n :: "'u::len word"
  assume "drop_bit 32 n \<noteq> 0"
  then have "n \<noteq> 0" by auto
  then have "0 < unat n" by (simp add: unat_gt_0)
  then show "(drop_bit 32 n, n) \<in> measure unat" by (simp add: unat_shr)
qed

declare digits_of.simps [simp del]

definition assign_uint :: "'u::len word \<Rightarrow> bigint" where
  "assign_uint n = \<lparr>bi_bigits = digits_of n, bi_exp = 0\<rparr>"

definition assign_int :: "'u::len word \<Rightarrow> fault + bigint" where
  "assign_int n = (if n = 0 then Inl Assert_failed else Inr (assign_uint n))"

definition assign_bigint :: "bigint \<Rightarrow> bigint" where
  "assign_bigint other = \<lparr>bi_bigits = bi_bigits other, bi_exp = bi_exp other\<rparr>"

section \<open>Shifts and products\<close>

fun shift_loop :: "nat \<Rightarrow> u32 \<Rightarrow> u32 list \<Rightarrow> u32 list \<times> u32" where
  "shift_loop shift carry [] = ([], carry)"
| "shift_loop shift carry (d # ds) =
     (case shift_loop shift (drop_bit (32 - shift) d) ds of
        (r, c) \<Rightarrow> ((push_bit shift d + carry) # r, c))"

definition bigint_shl :: "bigint \<Rightarrow> int \<Rightarrow> fault + bigint" where
  "bigint_shl b shift =
     (if shift < 0 then Inl Assert_failed
      else let b = b\<lparr>bi_exp := bi_exp b + shift div 32\<rparr>; s = nat (shift mod 32) in
           if s = 0 then Inr b
           else case shift_loop s 0 (bi_bigits b) of
                  (ds, carry) \<Rightarrow> Inr (b\<lparr>bi_bigits := ds @ (if carry \<noteq> 0 then [carry] else [])\<rparr>))"

fun multiply_loop :: "u32 \<Rightarrow> u32 \<Rightarrow> u32 list \<Rightarrow> u32 list \<times> u32" where
  "multiply_loop v carry [] = ([], carry)"
| "multiply_loop v carry (d # ds) =
     (let result = (ucast d :: u64) * ucast v + ucast carry in
      case multiply_loop v (ucast (drop_bit 32 result)) ds of (r, c) \<Rightarrow> (ucast result # r, c))"

definition multiply_u32 :: "u32 \<Rightarrow> bigint \<Rightarrow> bigint" where
  "multiply_u32 v b =
     (case multiply_loop v 0 (bi_bigits b) of
        (ds, carry) \<Rightarrow> b\<lparr>bi_bigits := ds @ (if carry \<noteq> 0 then [carry] else [])\<rparr>)"

text \<open>
  For 64 and 128 bits, with the value in two halves. What is left of the carry is appended digit
  by digit.
\<close>

fun multiply_wide_loop :: "'u::len word \<Rightarrow> 'u word \<Rightarrow> u32 list \<Rightarrow> u32 list \<times> 'u word" where
  "multiply_wide_loop v carry [] = ([], carry)"
| "multiply_wide_loop v carry (d # ds) =
     (let half = LENGTH('u) div 2; lower = take_bit half v; upper = drop_bit half v;
          result = lower * ucast d + ucast (ucast carry :: u32);
          carry = push_bit (half - 32) (upper * ucast d) + drop_bit 32 result + drop_bit 32 carry in
      case multiply_wide_loop v carry ds of (r, c) \<Rightarrow> (ucast result # r, c))"

definition multiply_wide :: "'u::len word \<Rightarrow> bigint \<Rightarrow> bigint" where
  "multiply_wide v b =
     (case multiply_wide_loop v 0 (bi_bigits b) of
        (ds, carry) \<Rightarrow> b\<lparr>bi_bigits := ds @ (if carry \<noteq> 0 then digits_of carry else [])\<rparr>)"

definition bigint_mult32 :: "bigint \<Rightarrow> u32 \<Rightarrow> fault + bigint" where
  "bigint_mult32 b v = (if v = 0 then Inl Assert_failed else Inr (multiply_u32 v b))"

definition bigint_mult_wide :: "bigint \<Rightarrow> 'u::len word \<Rightarrow> fault + bigint" where
  "bigint_mult_wide b v = (if v = 0 then Inl Assert_failed else Inr (multiply_wide v b))"

text \<open>
  The square: each digit of the result is the sum of the products of two digits whose positions
  add up to its own, in a number of 128 bits.
\<close>

definition cross_term :: "u32 list \<Rightarrow> nat \<Rightarrow> nat \<Rightarrow> fault + 128 word" where
  "cross_term n i j =
     andthen (at_index n i) (\<lambda>x. andthen (at_index n j) (\<lambda>y. Inr (ucast ((ucast x :: u64) * ucast y))))"

text \<open>From \<open>j\<close> down to 0, and from \<open>i\<close> up to the number of digits.\<close>

fun cross_down :: "u32 list \<Rightarrow> nat \<Rightarrow> nat \<Rightarrow> 128 word \<Rightarrow> fault + 128 word" where
  "cross_down n i 0 acc = andthen (cross_term n i 0) (\<lambda>t. Inr (acc + t))"
| "cross_down n i (Suc j) acc = andthen (cross_term n i (Suc j)) (\<lambda>t. cross_down n (Suc i) j (acc + t))"

function cross_up :: "u32 list \<Rightarrow> nat \<Rightarrow> int \<Rightarrow> 128 word \<Rightarrow> fault + 128 word" where
  "cross_up n i j acc =
     (if i < length n
      then if j < 0 then Inl Ub_out_of_bounds
           else andthen (cross_term n i (nat j)) (\<lambda>t. cross_up n (i + 1) (j - 1) (acc + t))
      else Inr acc)"
  by pat_completeness auto

termination by (relation "measure (\<lambda>(n, i, j, acc). length n - i)") auto

declare cross_up.simps [simp del]

fun square_loop :: "u32 list \<Rightarrow> nat \<Rightarrow> nat \<Rightarrow> 128 word \<Rightarrow> fault + u32 list" where
  "square_loop n index 0 acc = Inr []"
| "square_loop n index (Suc k) acc =
     andthen (if index < length n then cross_down n 0 index acc
              else cross_up n (index - (length n - 1)) (int (length n) - 1) acc) (\<lambda>acc.
     andthen (square_loop n (index + 1) k (drop_bit 32 acc)) (\<lambda>ds. Inr (ucast acc # ds)))"

definition bigint_square :: "bigint \<Rightarrow> fault + bigint" where
  "bigint_square b =
     (let n = bi_bigits b in
      andthen (square_loop n 0 (2 * length n) 0) (\<lambda>ds.
      Inr ((remove_leading_zeros (b\<lparr>bi_bigits := ds\<rparr>))\<lparr>bi_exp := bi_exp b * 2\<rparr>)))"

section \<open>Comparison\<close>

definition bigit_at :: "u32 list \<Rightarrow> int \<Rightarrow> fault + u32" where
  "bigit_at ds i = (if i < 0 then Inl Ub_out_of_bounds else at_index ds (nat i))"

function compare_loop :: "u32 list \<Rightarrow> u32 list \<Rightarrow> int \<Rightarrow> int \<Rightarrow> int \<Rightarrow> fault + int" where
  "compare_loop ds1 ds2 i j fin =
     (if i \<ge> fin
      then andthen (bigit_at ds1 i) (\<lambda>d1. andthen (bigit_at ds2 j) (\<lambda>d2.
           if d1 \<noteq> d2 then Inr (if d1 > d2 then 1 else - 1)
           else compare_loop ds1 ds2 (i - 1) (j - 1) fin))
      else Inr (if i \<noteq> j then if i > j then 1 else - 1 else 0))"
  by pat_completeness auto

termination by (relation "measure (\<lambda>(ds1, ds2, i, j, fin). nat (i + 1 - fin))") auto

declare compare_loop.simps [simp del]

definition bigint_compare :: "bigint \<Rightarrow> bigint \<Rightarrow> fault + int" where
  "bigint_compare b1 b2 =
     (if num_bigits b1 \<noteq> num_bigits b2 then Inr (if num_bigits b1 > num_bigits b2 then 1 else - 1)
      else let i = int (length (bi_bigits b1)) - 1; j = int (length (bi_bigits b2)) - 1 in
           compare_loop (bi_bigits b1) (bi_bigits b2) i j (max 0 (i - j)))"

text \<open>The comparison of a sum; \<open>borrow\<close> is what the right side has too much so far.\<close>

function add_compare_loop :: "bigint \<Rightarrow> bigint \<Rightarrow> bigint \<Rightarrow> int \<Rightarrow> int \<Rightarrow> u64 \<Rightarrow> int" where
  "add_compare_loop lhs1 lhs2 rhs i min_exp borrow =
     (if i \<ge> min_exp
      then let acc = (ucast (get_bigit lhs1 i) :: u64) + ucast (get_bigit lhs2 i);
               rhs_bigit = ucast (get_bigit rhs i) in
           if acc > rhs_bigit + borrow then 1
           else let borrow = rhs_bigit + borrow - acc in
                if borrow > 1 then - 1
                else add_compare_loop lhs1 lhs2 rhs (i - 1) min_exp (push_bit 32 borrow)
      else if borrow \<noteq> 0 then - 1 else 0)"
  by pat_completeness auto

termination by (relation "measure (\<lambda>(l1, l2, r, i, m, b). nat (i + 1 - m))") auto

declare add_compare_loop.simps [simp del]

definition add_compare :: "bigint \<Rightarrow> bigint \<Rightarrow> bigint \<Rightarrow> int" where
  "add_compare lhs1 lhs2 rhs =
     (let max_lhs = max (num_bigits lhs1) (num_bigits lhs2) in
      if max_lhs + 1 < num_bigits rhs then - 1
      else if max_lhs > num_bigits rhs then 1
      else add_compare_loop lhs1 lhs2 rhs (num_bigits rhs - 1)
             (min (min (bi_exp lhs1) (bi_exp lhs2)) (bi_exp rhs)) 0)"

section \<open>Powers of ten\<close>

text \<open>The position of the highest set bit of a positive number.\<close>

fun top_bit :: "nat \<Rightarrow> nat" where
  "top_bit n = (if n < 2 then 0 else Suc (top_bit (n div 2)))"

declare top_bit.simps [simp del]

text \<open>\<open>bitmask\<close> is \<open>2 ^ k\<close> in the round before it is halved to 0.\<close>

fun pow5_loop :: "nat \<Rightarrow> nat \<Rightarrow> bigint \<Rightarrow> fault + bigint" where
  "pow5_loop e 0 b = Inr b"
| "pow5_loop e (Suc k) b =
     andthen (bigint_square b) (\<lambda>b.
     andthen (if e AND 2 ^ k \<noteq> 0 then bigint_mult32 b 5 else Inr b) (\<lambda>b. pow5_loop e k b))"

definition assign_pow10 :: "int \<Rightarrow> fault + bigint" where
  "assign_pow10 e =
     (if e < 0 then Inl Assert_failed
      else if e = 0 then assign_int (1 :: u64)
      else andthen (assign_int (5 :: u64)) (\<lambda>b.
           andthen (pow5_loop (nat e) (top_bit (nat e)) b) (\<lambda>b. bigint_shl b e)))"

section \<open>Subtraction and division\<close>

definition subtract_bigits :: "nat \<Rightarrow> u32 \<Rightarrow> u32 \<Rightarrow> u32 list \<Rightarrow> fault + (u32 list \<times> u32)" where
  "subtract_bigits index other borrow ds =
     andthen (at_index ds index) (\<lambda>d.
     let result = (ucast d :: u64) - ucast other - ucast borrow in
     Inr (ds[index := ucast result], ucast (drop_bit 63 result)))"

fun subtract_loop :: "nat \<Rightarrow> u32 list \<Rightarrow> u32 \<Rightarrow> u32 list \<Rightarrow> fault + (nat \<times> u32 list \<times> u32)" where
  "subtract_loop i [] borrow ds = Inr (i, ds, borrow)"
| "subtract_loop i (d # others) borrow ds =
     andthen (subtract_bigits i d borrow ds) (\<lambda>(ds, borrow). subtract_loop (i + 1) others borrow ds)"

definition subtract_aligned :: "bigint \<Rightarrow> bigint \<Rightarrow> fault + bigint" where
  "subtract_aligned b other =
     (if bi_exp other < bi_exp b then Inl Assert_failed
      else andthen (bigint_compare b other) (\<lambda>c.
           if c < 0 then Inl Assert_failed
           else andthen (subtract_loop (nat (bi_exp other - bi_exp b)) (bi_bigits other) 0 (bi_bigits b))
             (\<lambda>(i, ds, borrow).
           andthen (if borrow \<noteq> 0 then subtract_bigits i 0 borrow ds else Inr (ds, borrow)) (\<lambda>(ds, borrow).
           if borrow \<noteq> 0 then Inl Assert_failed else Inr (remove_leading_zeros (b\<lparr>bi_bigits := ds\<rparr>))))))"

definition bigint_align :: "bigint \<Rightarrow> bigint \<Rightarrow> bigint" where
  "bigint_align b other =
     (let diff = bi_exp b - bi_exp other in
      if diff \<le> 0 then b
      else b\<lparr>bi_bigits := replicate (nat diff) 0 @ bi_bigits b, bi_exp := bi_exp b - diff\<rparr>)"

text \<open>
  The quotient is found by subtracting; the number is replaced by the remainder. The quotient is
  counted in an \<open>int\<close> of 32 bits, whose overflow is undefined.
\<close>

partial_function (option) divmod_loop ::
  "bigint \<Rightarrow> int \<Rightarrow> bigint \<Rightarrow> (fault + (int \<times> bigint)) option" where
  "divmod_loop divisor quot b =
     (case andthen (subtract_aligned b divisor) (\<lambda>b.
           andthen (check Ub_overflow (quot < 2147483647)) (\<lambda>_.
           andthen (bigint_compare b divisor) (\<lambda>c. Inr (c, b)))) of
        Inl e \<Rightarrow> Some (Inl e)
      | Inr (c, b) \<Rightarrow>
          if c \<ge> 0 then divmod_loop divisor (quot + 1) b else Some (Inr (quot + 1, b)))"

declare divmod_loop.simps [code]

definition divmod_assign :: "bigint \<Rightarrow> bigint \<Rightarrow> (fault + (int \<times> bigint)) option" where
  "divmod_assign b divisor =
     seq_opt (Some (bigint_compare b divisor)) (\<lambda>c.
     if c < 0 then Some (Inr (0, b))
     else seq_opt (Some (at_index (bi_bigits divisor) (length (bi_bigits divisor) - 1))) (\<lambda>d.
          if d = 0 then Some (Inl Assert_failed) else divmod_loop divisor 0 (bigint_align b divisor)))"

end
