(* ===== verification/Fmt_Dragon.thy ===== *)
theory Fmt_Dragon
  imports Fmt_Bigint Fmt_Write
begin

text \<open>
  The exact decimal digits of a floating point number by the algorithm of Steele and White
  (\<open>format_dragon\<close> in \<open>fmt/bundled/format.h\<close>): the number \<open>f * 2 ^ e\<close> as a fraction of two big
  numbers, of which one decimal digit after the other is divided off. The number of digits is
  given, or else the digits end as soon as the number is the nearest one to them.
\<close>

section \<open>Start\<close>

definition flag_predecessor_closer :: u32 where "flag_predecessor_closer = 1"
definition flag_fixup :: u32 where "flag_fixup = 2"
definition flag_fixed :: u32 where "flag_fixed = 4"

text \<open>
  Numerator, denominator and the distances to the borders of the numbers that are rounded to the
  given one; the upper distance is \<open>None\<close> while the pointer \<open>upper\<close> is that of the lower one.
\<close>

record dragon =
  dr_num :: bigint
  dr_den :: bigint
  dr_lower :: bigint
  dr_upper_store :: "bigint option"

definition dr_upper :: "dragon \<Rightarrow> bigint" where
  "dr_upper s = (case dr_upper_store s of None \<Rightarrow> dr_lower s | Some u \<Rightarrow> u)"

definition when_closer :: "bool \<Rightarrow> fault + bigint \<Rightarrow> fault + bigint option" where
  "when_closer closer m = (if closer then andthen m (\<lambda>u. Inr (Some u)) else Inr None)"

definition dragon_start :: "128 word \<Rightarrow> int \<Rightarrow> bool \<Rightarrow> int \<Rightarrow> fault + dragon" where
  "dragon_start f e closer exp10 =
     (let shift = (if closer then 2 else 1) in
      if e \<ge> 0
      then andthen (assign_int f) (\<lambda>num. andthen (bigint_shl num (e + shift)) (\<lambda>num.
           andthen (assign_int (1 :: u64)) (\<lambda>lower. andthen (bigint_shl lower e) (\<lambda>lower.
           andthen (when_closer closer (andthen (assign_int (1 :: u64)) (\<lambda>u. bigint_shl u (e + 1)))) (\<lambda>upper.
           andthen (assign_pow10 exp10) (\<lambda>den. andthen (bigint_shl den shift) (\<lambda>den.
           Inr \<lparr>dr_num = num, dr_den = den, dr_lower = lower, dr_upper_store = upper\<rparr>)))))))
      else if exp10 < 0
      then andthen (assign_pow10 (- exp10)) (\<lambda>num.
           let lower = assign_bigint num in
           andthen (when_closer closer (bigint_shl (assign_bigint num) 1)) (\<lambda>upper.
           andthen (bigint_mult_wide num f) (\<lambda>num. andthen (bigint_shl num shift) (\<lambda>num.
           andthen (assign_int (1 :: u64)) (\<lambda>den. andthen (bigint_shl den (shift - e)) (\<lambda>den.
           Inr \<lparr>dr_num = num, dr_den = den, dr_lower = lower, dr_upper_store = upper\<rparr>))))))
      else andthen (assign_int f) (\<lambda>num. andthen (bigint_shl num shift) (\<lambda>num.
           andthen (assign_pow10 exp10) (\<lambda>den. andthen (bigint_shl den (shift - e)) (\<lambda>den.
           andthen (assign_int (1 :: u64)) (\<lambda>lower.
           andthen (when_closer closer (assign_int (push_bit 1 1 :: u64))) (\<lambda>upper.
           Inr \<lparr>dr_num = num, dr_den = den, dr_lower = lower, dr_upper_store = upper\<rparr>)))))))"

definition adjust_precision :: "int \<Rightarrow> int \<Rightarrow> fmt_error + int" where
  "adjust_precision precision exp10 =
     (if exp10 > 0 \<and> precision > 2 ^ 31 - 1 - exp10 then Inl (Format_error ''number is too big'')
      else Inr (precision + exp10))"

text \<open>All numbers are multiplied by ten; the borders only matter for the shortest digits.\<close>

definition dragon_borders_mult10 :: "dragon \<Rightarrow> fault + dragon" where
  "dragon_borders_mult10 s =
     andthen (bigint_mult32 (dr_lower s) 10) (\<lambda>lower.
     case dr_upper_store s of
       None \<Rightarrow> Inr (s\<lparr>dr_lower := lower\<rparr>)
     | Some u \<Rightarrow> andthen (bigint_mult32 u 10) (\<lambda>u. Inr (s\<lparr>dr_lower := lower, dr_upper_store := Some u\<rparr>)))"

definition dragon_mult10 :: "dragon \<Rightarrow> fault + dragon" where
  "dragon_mult10 s = andthen (bigint_mult32 (dr_num s) 10) (\<lambda>num. Inr (s\<lparr>dr_num := num\<rparr>))"

definition dragon_fixup :: "int \<Rightarrow> int \<Rightarrow> int \<Rightarrow> dragon \<Rightarrow> fault + (int \<times> dragon)" where
  "dragon_fixup evn num_digits exp10 s =
     (if add_compare (dr_num s) (dr_upper s) (dr_den s) + evn \<le> 0
      then andthen (dragon_mult10 s) (\<lambda>s.
           andthen (if num_digits < 0 then dragon_borders_mult10 s else Inr s) (\<lambda>s. Inr (exp10 - 1, s)))
      else Inr (exp10, s))"

section \<open>Digits\<close>

definition digit_code :: "int \<Rightarrow> char" where
  "digit_code digit = char_of (48 + digit)"

definition inc_char :: "char \<Rightarrow> char" where
  "inc_char c = char_of (of_char c + 1 :: int)"

definition inc_at :: "string \<Rightarrow> nat \<Rightarrow> string" where
  "inc_at ds i = ds[i := inc_char (ds ! i)]"

text \<open>
  The shortest digits, written to the array \<open>data\<close> of the given capacity. \<open>low\<close> and \<open>high\<close> tell
  that the digits so far, and the same with the last one increased, are within the borders.
\<close>

partial_function (option) dragon_shortest :: "nat \<Rightarrow> int \<Rightarrow> string \<Rightarrow> dragon \<Rightarrow> (fault + string) option" where
  "dragon_shortest capacity evn data s =
     (case divmod_assign (dr_num s) (dr_den s) of
        None \<Rightarrow> None
      | Some (Inl e) \<Rightarrow> Some (Inl e)
      | Some (Inr (digit, num)) \<Rightarrow>
          (case bigint_compare num (dr_lower s) of
             Inl e \<Rightarrow> Some (Inl e)
           | Inr c \<Rightarrow>
               let low = c - evn < 0; high = add_compare num (dr_upper s) (dr_den s) + evn > 0;
                   n = length data; data = data @ [digit_code digit] in
               if n \<ge> capacity then Some (Inl Ub_out_of_bounds)
               else if low \<or> high
               then Some (Inr (if \<not> low then inc_at data n
                      else if high
                      then let result = add_compare num num (dr_den s) in
                           if result > 0 \<or> result = 0 \<and> digit mod 2 \<noteq> 0 then inc_at data n else data
                      else data))
               else (case andthen (dragon_mult10 (s\<lparr>dr_num := num\<rparr>)) dragon_borders_mult10 of
                       Inl e \<Rightarrow> Some (Inl e)
                     | Inr s \<Rightarrow> dragon_shortest capacity evn data s)))"

declare dragon_shortest.simps [code]

text \<open>The given number of digits: all but the last one, and what is left of the numerator.\<close>

fun dragon_digits :: "nat \<Rightarrow> bigint \<Rightarrow> bigint \<Rightarrow> (fault + (string \<times> bigint)) option" where
  "dragon_digits 0 den num = Some (Inr ([], num))"
| "dragon_digits (Suc n) den num =
     seq_opt (divmod_assign num den) (\<lambda>(digit, num).
     seq_opt (Some (bigint_mult32 num 10)) (\<lambda>num.
     seq_opt (dragon_digits n den num) (\<lambda>(ds, num). Some (Inr (digit_code digit # ds, num)))))"

text \<open>The carry of the last digit, which is one more than 9.\<close>

definition overflow_char :: char where
  "overflow_char = char_of (48 + 10 :: int)"

fun propagate_carry :: "string \<Rightarrow> nat \<Rightarrow> string" where
  "propagate_carry buf 0 = buf"
| "propagate_carry buf (Suc i) =
     (if buf ! Suc i = overflow_char then propagate_carry (inc_at (buf[Suc i := CHR ''0'']) i) i else buf)"

definition dragon_round :: "bool \<Rightarrow> int \<Rightarrow> int \<Rightarrow> string \<Rightarrow> int \<Rightarrow> string \<times> int" where
  "dragon_round is_fixed result digit ds exp10 =
     (if result > 0 \<or> result = 0 \<and> digit mod 2 \<noteq> 0
      then if digit = 9
           then let buf = propagate_carry (ds @ [overflow_char]) (length ds) in
                if buf ! 0 = overflow_char
                then let buf = buf[0 := CHR ''1''] in
                     if is_fixed then (buf @ ''0'', exp10) else (buf, exp10 + 1)
                else (buf, exp10)
           else (ds @ [digit_code (digit + 1)], exp10)
      else (ds @ [digit_code digit], exp10))"

definition dragon_given :: "bool \<Rightarrow> int \<Rightarrow> int \<Rightarrow> dragon \<Rightarrow> (fault + (string \<times> int)) option" where
  "dragon_given is_fixed num_digits exp10 s =
     (let exp10 = exp10 - (num_digits - 1) in
      if num_digits \<le> 0
      then if num_digits = 0
           then seq_opt (Some (bigint_mult32 (dr_den s) 10)) (\<lambda>den.
                Some (Inr ([if add_compare (dr_num s) (dr_num s) den > 0 then CHR ''1'' else CHR ''0''], exp10)))
           else Some (Inr (''0'', exp10))
      else seq_opt (dragon_digits (nat num_digits - 1) (dr_den s) (dr_num s)) (\<lambda>(ds, num).
           seq_opt (divmod_assign num (dr_den s)) (\<lambda>(digit, num).
           Some (Inr (dragon_round is_fixed (add_compare num num (dr_den s)) digit ds exp10)))))"

text \<open>
  The whole function, for an empty buffer whose array holds \<open>capacity\<close> characters: the digits and
  the exponent of the last one.
\<close>

definition format_dragon ::
  "128 word \<Rightarrow> int \<Rightarrow> u32 \<Rightarrow> int \<Rightarrow> nat \<Rightarrow> int \<Rightarrow> (fmt_error + (string \<times> int)) option" where
  "format_dragon f e flags num_digits capacity exp10 =
     (let evn = (if f AND 1 = 0 then 1 else 0); is_fixed = flags AND flag_fixed \<noteq> 0; shortest = num_digits < 0 in
      seq_opt (Some (fmt_of (dragon_start f e (flags AND flag_predecessor_closer \<noteq> 0) exp10))) (\<lambda>s.
      seq_opt (Some (fmt_of (if flags AND flag_fixup \<noteq> 0 then dragon_fixup evn num_digits exp10 s else Inr (exp10, s))))
        (\<lambda>(exp10, s).
      seq_opt (Some (if flags AND flag_fixup \<noteq> 0 \<and> is_fixed then adjust_precision num_digits (exp10 + 1) else Inr num_digits))
        (\<lambda>num_digits.
      if shortest
      then seq_opt (map_option fmt_of (dragon_shortest capacity evn [] s)) (\<lambda>data.
           Some (Inr (data, exp10 - (int (length data) - 1))))
      else map_option fmt_of (dragon_given is_fixed num_digits exp10 s)))))"

end
