(* ===== verification/Fmt_Bigint_Props.thy ===== *)
theory Fmt_Bigint_Props
  imports Fmt_Bigint
begin

text \<open>
  The big numbers of the bundled fmt compute: every operation is the operation on natural numbers
  that it stands for, on the digits as the code keeps them. Comparison is exact except for equal
  numbers that are written with different exponents.
\<close>

section \<open>Values\<close>

abbreviation bigit_base :: nat where "bigit_base \<equiv> 2 ^ 32"

fun digits_value :: "u32 list \<Rightarrow> nat" where
  "digits_value [] = 0"
| "digits_value (d # ds) = unat d + bigit_base * digits_value ds"

definition bigint_value :: "bigint \<Rightarrow> nat" where
  "bigint_value b = digits_value (bi_bigits b) * bigit_base ^ nat (bi_exp b)"

lemma unat_u32 [simp]: "unat (d :: u32) < bigit_base"
  using unsigned_less [of d] by simp

lemma unat_up:
  assumes "32 \<le> LENGTH('u::len)"
  shows "unat (ucast (d :: u32) :: 'u word) = unat d"
proof -
  have "unat d < 2 ^ LENGTH('u)"
    by (rule less_le_trans [OF unat_u32]) (rule power_increasing [OF assms], simp)
  then show ?thesis by (simp add: unsigned_ucast_eq take_bit_eq_mod)
qed

lemmas unat_u64 = unat_up [where 'u = 64, simplified]

lemma digits_value_append: "digits_value (xs @ ys) = digits_value xs + bigit_base ^ length xs * digits_value ys"
  by (induction xs) (simp_all add: algebra_simps)

lemma digits_value_less: "digits_value ds < bigit_base ^ length ds"
proof (induction ds)
  case (Cons d ds)
  have "unat d + bigit_base * digits_value ds < bigit_base + bigit_base * digits_value ds" using unat_u32 [of d] by simp
  also have "\<dots> = bigit_base * (digits_value ds + 1)" by simp
  also have "\<dots> \<le> bigit_base * bigit_base ^ length ds" using Cons by (intro mult_left_mono) simp_all
  finally show ?case by simp
qed simp

lemma digits_value_zeros [simp]: "digits_value (replicate n 0) = 0"
  by (induction n) simp_all

lemma digits_value_last: "ds \<noteq> [] \<Longrightarrow> last ds \<noteq> 0 \<Longrightarrow> bigit_base ^ (length ds - 1) \<le> digits_value ds"
proof (induction ds rule: rev_induct)
  case (snoc d ds)
  then have "1 \<le> unat d" by (simp add: unat_gt_0 Suc_le_eq)
  then have "bigit_base ^ length ds * 1 \<le> bigit_base ^ length ds * unat d" by (intro mult_left_mono) simp_all
  then show ?case by (simp add: digits_value_append trans_le_add2)
qed simp

lemma last_nonzero: "ds \<noteq> [] \<Longrightarrow> bigit_base ^ (length ds - 1) \<le> digits_value ds \<Longrightarrow> last ds \<noteq> 0"
proof (induction ds rule: rev_induct)
  case (snoc d ds)
  then show ?case using digits_value_less [of ds] by (auto simp: digits_value_append)
qed simp

text \<open>A number is \<open>normal\<close> if its highest digit is not 0.\<close>

definition normal :: "bigint \<Rightarrow> bool" where
  "normal b \<longleftrightarrow> bi_bigits b \<noteq> [] \<and> last (bi_bigits b) \<noteq> 0 \<and> 0 \<le> bi_exp b"

lemma normal_bounds:
  assumes "normal b"
  shows "bigit_base ^ nat (num_bigits b - 1) \<le> bigint_value b" and "bigint_value b < bigit_base ^ nat (num_bigits b)"
    and "0 < num_bigits b"
proof -
  let ?n = "length (bi_bigits b)" and ?e = "nat (bi_exp b)"
  have n: "0 < ?n" "0 \<le> bi_exp b" using assms by (simp_all add: normal_def)
  have "0 < int ?n" using n(1) by (simp only: of_nat_0_less_iff)
  then show "0 < num_bigits b" using n(2) unfolding num_bigits_def by linarith
  have 1: "nat (num_bigits b - 1) = ?n - 1 + ?e" "nat (num_bigits b) = ?n + ?e"
    using n unfolding num_bigits_def by arith+
  have "bigit_base ^ (?n - 1) \<le> digits_value (bi_bigits b)"
    using assms by (intro digits_value_last) (simp_all add: normal_def)
  then show "bigit_base ^ nat (num_bigits b - 1) \<le> bigint_value b"
    unfolding 1 power_add bigint_value_def by (intro mult_right_mono) simp_all
  show "bigint_value b < bigit_base ^ nat (num_bigits b)"
    unfolding 1 power_add bigint_value_def using digits_value_less [of "bi_bigits b"] by (intro mult_strict_right_mono) simp_all
qed

lemma normal_pos: "normal b \<Longrightarrow> 0 < bigint_value b"
  using normal_bounds(1) [of b] by (meson le_less_trans less_le_trans not_less zero_less_numeral zero_less_power)

section \<open>Assignment\<close>

lemma digits_of_value: "digits_value (digits_of n) = unat n" for n :: "'u::len word"
proof (induction n rule: digits_of.induct)
  case (1 n)
  have c: "unat (ucast n :: u32) = unat n mod bigit_base" by (simp add: unsigned_ucast_eq take_bit_eq_mod)
  show ?case
  proof (cases "drop_bit 32 n = 0")
    case True
    then have "unat n div bigit_base = 0" by (metis unat_0 unat_shr)
    then have "unat n < bigit_base" by (simp add: div_eq_0_iff)
    then show ?thesis using True c by (simp add: digits_of.simps [of n])
  next
    case False
    then show ?thesis using 1 [OF False] c by (simp add: digits_of.simps [of n] unat_shr)
  qed
qed

lemma digits_of_last: "n \<noteq> 0 \<Longrightarrow> last (digits_of n) \<noteq> 0" for n :: "'u::len word"
proof (induction n rule: digits_of.induct)
  case (1 n)
  show ?case
  proof (cases "drop_bit 32 n = 0")
    case True
    then have "unat n div bigit_base = 0" by (metis unat_0 unat_shr)
    then have "unat n < bigit_base" by (simp add: div_eq_0_iff)
    moreover have "unat (ucast n :: u32) = unat n mod bigit_base" by (simp add: unsigned_ucast_eq take_bit_eq_mod)
    ultimately have "unat (ucast n :: u32) = unat n" by simp
    then have "(ucast n :: u32) \<noteq> 0" using 1(2) by (metis unat_0 unat_eq_zero)
    then show ?thesis using True by (simp add: digits_of.simps [of n])
  next
    case False
    have "digits_of (drop_bit 32 n) \<noteq> []" by (simp add: digits_of.simps)
    then show ?thesis using 1(1) [OF False False] False by (simp add: digits_of.simps [of n])
  qed
qed

lemma assign_uint_value [simp]: "bigint_value (assign_uint n) = unat n"
  by (simp add: assign_uint_def bigint_value_def digits_of_value)

lemma assign_uint_normal: "n \<noteq> 0 \<Longrightarrow> normal (assign_uint n)"
  by (simp add: assign_uint_def normal_def digits_of_last) (simp add: digits_of.simps)

section \<open>Shifts and products\<close>

text \<open>One round of a loop with a carry, and the rounds after it.\<close>

lemma carry_step:
  fixes x :: nat
  assumes "x + b * q = k * d + c" and "r + p * cc = k * ds + q"
  shows "(x + b * r) + (b * p) * cc = k * (d + b * ds) + c"
proof -
  have "(x + b * r) + (b * p) * cc = x + b * (r + p * cc)" by (simp add: algebra_simps)
  also have "\<dots> = (x + b * q) + k * b * ds" unfolding assms(2) by (simp add: algebra_simps)
  also have "\<dots> = k * (d + b * ds) + c" unfolding assms(1) by (simp add: algebra_simps)
  finally show ?thesis .
qed

lemma append_carry:
  "digits_value (ds @ (if c \<noteq> 0 then [c] else [])) = digits_value ds + bigit_base ^ length ds * unat c"
  by (simp add: digits_value_append)

lemma shift_step:
  assumes s: "0 < s" "s < 32" and c: "unat (c :: u32) < 2 ^ s"
  shows "unat (push_bit s d + c) = unat d mod 2 ^ (32 - s) * 2 ^ s + unat c"
proof -
  have p: "unat (push_bit s d) = unat d mod 2 ^ (32 - s) * 2 ^ s"
  proof -
    have "unat (push_bit s d) = take_bit 32 (push_bit s (unat d))" by (simp add: unsigned_push_bit_eq)
    also have "\<dots> = push_bit s (take_bit (32 - s) (unat d))" using s by (simp add: push_bit_take_bit)
    finally show ?thesis by (simp add: push_bit_eq_mult take_bit_eq_mod)
  qed
  have "unat d mod 2 ^ (32 - s) * 2 ^ s + unat c < (unat d mod 2 ^ (32 - s) + 1) * 2 ^ s" using c by simp
  also have "\<dots> \<le> 2 ^ (32 - s) * 2 ^ s" by (intro mult_right_mono) (simp_all add: Suc_le_eq)
  also have "\<dots> = bigit_base" using s by (simp flip: power_add)
  finally show ?thesis using p by (simp add: unat_word_ariths)
qed

lemma shift_loop_value:
  assumes s: "0 < s" "s < 32"
  shows "shift_loop s c ds = (r, c') \<Longrightarrow> unat c < 2 ^ s \<Longrightarrow>
    digits_value r + bigit_base ^ length r * unat c' = 2 ^ s * digits_value ds + unat c \<and> length r = length ds"
proof (induction ds arbitrary: c r c')
  case (Cons d ds)
  obtain r1 where r: "shift_loop s (drop_bit (32 - s) d) ds = (r1, c')" "r = (push_bit s d + c) # r1"
    using Cons(2) by (auto split: prod.splits)
  have next_c: "unat (drop_bit (32 - s) d) = unat d div 2 ^ (32 - s)" by (rule unat_shr)
  have base: "2 ^ (32 - s) * 2 ^ s = bigit_base" using s by (simp flip: power_add)
  have split_d: "p * n = n mod a * p + a * p * (n div a)" for p a n :: nat
  proof -
    have "p * n = p * (n mod a + a * (n div a))" by simp
    then show ?thesis by (simp only: distrib_left mult_ac)
  qed
  note split_d = split_d [of "2 ^ s" "unat d" "2 ^ (32 - s)", unfolded base]
  have "unat d < 2 ^ s * 2 ^ (32 - s)" using unat_u32 [of d] s by (simp flip: power_add)
  then have "unat (drop_bit (32 - s) d) < 2 ^ s" unfolding next_c by (simp add: less_mult_imp_div_less)
  note rest = Cons(1) [OF r(1) this]
  have "unat (push_bit s d + c) + bigit_base * unat (drop_bit (32 - s) d) = 2 ^ s * unat d + unat c"
    using shift_step [OF s Cons(3), of d] split_d next_c by simp
  from carry_step [OF this conjunct1 [OF rest]] show ?case unfolding r(2) using rest by simp
qed simp

lemma bigint_shl_value:
  assumes "0 \<le> k" and "0 \<le> bi_exp b"
  shows "\<exists>b'. bigint_shl b k = Inr b' \<and> bigint_value b' = bigint_value b * 2 ^ nat k
    \<and> bi_exp b' = bi_exp b + k div 32 \<and> (normal b \<longrightarrow> normal b')"
proof -
  define s where "s = nat (k mod 32)"
  have k: "nat k = s + 32 * nat (k div 32)" using assms(1) unfolding s_def by (simp add: nat_mod_distrib nat_div_distrib)
  have e: "nat (bi_exp b + k div 32) = nat (bi_exp b) + nat (k div 32)" using assms by (simp add: nat_add_distrib)
  show ?thesis
  proof (cases "s = 0")
    case True
    then show ?thesis using assms k e
      by (simp add: bigint_shl_def bigint_value_def normal_def Let_def flip: s_def)
        (simp add: power_add power_mult)
  next
    case False
    then have s: "0 < s" "s < 32" by (simp_all add: s_def)
    obtain r c where l: "shift_loop s 0 (bi_bigits b) = (r, c)" by force
    note v = shift_loop_value [OF s l, simplified]
    let ?b = "b\<lparr>bi_exp := bi_exp b + k div 32, bi_bigits := r @ (if c \<noteq> 0 then [c] else [])\<rparr>"
    have shl: "bigint_shl b k = Inr ?b" using assms(1) False l by (simp add: bigint_shl_def Let_def flip: s_def)
    have value_b: "bigint_value ?b = bigint_value b * 2 ^ nat k"
      unfolding bigint_value_def using e conjunct1 [OF v]
      by (simp add: append_carry k power_add power_mult)
    have "normal ?b" if n: "normal b"
    proof (cases "c = 0")
      case True
      have "bigit_base ^ (length r - 1) \<le> digits_value (bi_bigits b)"
        using n v digits_value_last [of "bi_bigits b"] by (simp add: normal_def)
      also have "\<dots> \<le> digits_value r" using v True by simp
      finally have "last r \<noteq> 0" using n v by (intro last_nonzero) (auto simp: normal_def)
      then show ?thesis using n v True assms by (auto simp: normal_def)
    next
      case False
      then show ?thesis using n assms by (simp add: normal_def)
    qed
    then show ?thesis using shl value_b by simp
  qed
qed

lemma multiply_loop_value:
  "multiply_loop v c ds = (r, c') \<Longrightarrow>
    digits_value r + bigit_base ^ length r * unat c' = unat v * digits_value ds + unat c \<and> length r = length ds"
proof (induction ds arbitrary: c r c')
  case (Cons d ds)
  define res :: u64 where "res = ucast d * ucast v + ucast c"
  obtain r1 where r: "multiply_loop v (ucast (drop_bit 32 res)) ds = (r1, c')" "r = ucast res # r1"
    using Cons(2) by (auto simp: res_def Let_def split: prod.splits)
  have "unat d * unat v + unat c \<le> (2 ^ 32 - 1) * (2 ^ 32 - 1) + (2 ^ 32 - 1)"
    using unat_u32 [of d] unat_u32 [of v] unat_u32 [of c] by (intro add_mono mult_le_mono) simp_all
  then have res: "unat res = unat d * unat v + unat c"
    unfolding res_def by (simp add: unat_word_ariths unat_u64)
  have lo: "unat (ucast res :: u32) = unat res mod bigit_base" by (simp add: unsigned_ucast_eq take_bit_eq_mod)
  have "unat res < 2 ^ 64" using unsigned_less [of res] by simp
  then have hi: "unat (ucast (drop_bit 32 res) :: u32) = unat res div bigit_base"
    by (simp add: unsigned_ucast_eq take_bit_eq_mod unat_shr)
  have "unat (ucast res :: u32) + bigit_base * unat (ucast (drop_bit 32 res) :: u32) = unat v * unat d + unat c"
    unfolding lo hi by (simp add: res mult.commute)
  from carry_step [OF this conjunct1 [OF Cons(1) [OF r(1)]]] show ?case
    unfolding r(2) using Cons(1) [OF r(1)] by simp
qed simp

text \<open>The result of a product with a positive number is normal if the factor is.\<close>

lemma product_normal:
  assumes n: "normal b" and v: "digits_value ds + bigit_base ^ length ds * c = k * digits_value (bi_bigits b)"
    and len: "length ds = length (bi_bigits b)" and k: "0 < k" and cs: "c = 0 \<or> cs \<noteq> []" "cs \<noteq> [] \<Longrightarrow> last cs \<noteq> 0"
  shows "normal (b\<lparr>bi_bigits := ds @ cs\<rparr>)"
proof (cases "cs = []")
  case True
  have "bigit_base ^ (length ds - 1) \<le> digits_value (bi_bigits b)"
    using n len digits_value_last [of "bi_bigits b"] by (simp add: normal_def)
  also have "\<dots> \<le> digits_value ds" using v k cs(1) True by simp
  finally have "last ds \<noteq> 0" using n len by (intro last_nonzero) (auto simp: normal_def)
  then show ?thesis using n len True by (auto simp: normal_def)
next
  case False
  then show ?thesis using n cs(2) by (simp add: normal_def)
qed

lemma multiply_u32_value:
  shows "bigint_value (multiply_u32 v b) = unat v * bigint_value b"
    and "normal b \<Longrightarrow> v \<noteq> 0 \<Longrightarrow> normal (multiply_u32 v b)" and "bi_exp (multiply_u32 v b) = bi_exp b"
proof -
  obtain ds c where l: "multiply_loop v 0 (bi_bigits b) = (ds, c)" by force
  note v = multiply_loop_value [OF l, simplified]
  show "bigint_value (multiply_u32 v b) = unat v * bigint_value b"
    using conjunct1 [OF v] by (simp add: multiply_u32_def l bigint_value_def append_carry)
  show "bi_exp (multiply_u32 v b) = bi_exp b" by (simp add: multiply_u32_def l)
  show "normal (multiply_u32 v b)" if "normal b" "v \<noteq> 0"
    using product_normal [OF that(1), of ds "unat c" "unat v" "if c \<noteq> 0 then [c] else []"] conjunct1 [OF v] conjunct2 [OF v] that(2)
    by (cases "c = 0") (simp_all add: multiply_u32_def l unat_gt_0)
qed

lemma unat_product_less:
  fixes x y :: nat
  assumes "x < 2 ^ m" and "y < 2 ^ n"
  shows "x * y < 2 ^ (m + n)"
  unfolding power_add using assms by (intro mult_strict_mono) simp_all

lemma unat_shl: "unat (push_bit n w) = unat w * 2 ^ n mod 2 ^ LENGTH('u)" for w :: "'u::len word"
  by (metis push_bit_eq_mult take_bit_eq_mod unsigned_push_bit_eq)

text \<open>One round of the product with a number of \<open>2 * h\<close> bits. The carry never exceeds the factor.\<close>

lemma wide_step:
  fixes v c :: "'u::len word" and d :: u32
  assumes h: "LENGTH('u) = 2 * h" "32 \<le> h" and c: "unat c \<le> unat v"
    and res: "res = take_bit h v * ucast d + ucast (ucast c :: u32)"
    and nxt: "c' = push_bit (h - 32) (drop_bit h v * ucast d) + drop_bit 32 res + drop_bit 32 c"
  shows "unat (ucast res :: u32) + bigit_base * unat c' = unat v * unat d + unat c" and "unat c' \<le> unat v"
proof -
  let ?L = "unat v mod 2 ^ h" and ?U = "unat v div 2 ^ h"
  have big: "bigit_base \<le> 2 ^ LENGTH('u)" using h by (intro power_increasing) simp_all
  have d: "unat (ucast d :: 'u word) = unat d" by (rule unat_up) (use h in simp)
  have c32: "unat (ucast (ucast c :: u32) :: 'u word) = unat c mod bigit_base"
    using h by (subst unat_up) (simp_all add: unsigned_ucast_eq take_bit_eq_mod)
  have v: "unat v = ?L + 2 ^ h * ?U" by simp
  have vL: "unat v < 2 ^ LENGTH('u)" by (rule unsigned_less)
  then have U: "?U < 2 ^ h" using h(1) by (simp add: less_mult_imp_div_less mult_2 power_add)
  have L: "?L < 2 ^ h" by simp
  have "?L * unat d + unat c mod bigit_base < 2 ^ (2 * h)"
  proof -
    have "?L * unat d + unat c mod bigit_base \<le> (2 ^ h - 1) * (bigit_base - 1) + (bigit_base - 1)"
      using L unat_u32 [of d] by (intro add_mono mult_le_mono) (simp_all add: Suc_le_eq less_Suc_eq_le [symmetric] del: unat_u32)
    also have "\<dots> = 2 ^ h * (bigit_base - 1)" by (simp add: algebra_simps)
    also have "\<dots> < 2 ^ h * 2 ^ h" 
      using power_increasing [OF h(2), of "2 :: nat"] by (intro mult_strict_left_mono) simp_all
    finally show ?thesis by (simp add: mult_2 power_add)
  qed
  then have r: "unat res = ?L * unat d + unat c mod bigit_base"
  proof -
    have "unat (take_bit h v) = take_bit h (unat v)" by (rule unsigned_take_bit_eq)
    then have t: "unat (take_bit h v) = ?L" by (simp only: take_bit_eq_mod)
    have "unat res = (?L * unat d + unat c mod bigit_base) mod 2 ^ LENGTH('u)"
      unfolding res unat_word_ariths t d c32 by (rule mod_add_left_eq)
    then show ?thesis using \<open>?L * unat d + unat c mod bigit_base < 2 ^ (2 * h)\<close> h(1) by simp
  qed
  define S where "S = ?U * unat d * 2 ^ (h - 32) + unat res div bigit_base + unat c div bigit_base"
  have base: "2 ^ h = bigit_base * 2 ^ (h - 32)" using h(2) by (metis le_add_diff_inverse power_add)
  have total: "unat v * unat d + unat c = bigit_base * S + unat res mod bigit_base"
  proof -
    have "unat v * unat d + unat c = 2 ^ h * ?U * unat d + (?L * unat d + unat c mod bigit_base)
        + bigit_base * (unat c div bigit_base)"
    proof -
      have "unat v * unat d = ?L * unat d + 2 ^ h * ?U * unat d" by (metis distrib_right mod_mult_div_eq)
      then show ?thesis using mod_mult_div_eq [of "unat c" bigit_base] by linarith
    qed
    also have "?L * unat d + unat c mod bigit_base = bigit_base * (unat res div bigit_base) + unat res mod bigit_base"
      using r mult_div_mod_eq [of bigit_base "unat res"] by linarith
    finally show ?thesis unfolding S_def base by (simp add: algebra_simps)
  qed
  have "S = (unat v * unat d + unat c) div bigit_base" unfolding total by simp
  also have "\<dots> \<le> (unat v * (bigit_base - 1) + unat v) div bigit_base"
    using c unat_u32 [of d] by (intro div_le_mono add_mono mult_le_mono) simp_all
  also have "\<dots> = unat v" by (simp add: algebra_simps)
  finally have S: "S \<le> unat v" .
  then have small: "S < 2 ^ LENGTH('u)" using vL by (rule le_less_trans)
  have "unat c' = S"
  proof -
    have ud: "?U * unat d < 2 ^ LENGTH('u)"
      using unat_product_less [OF U unat_u32 [of d]] h power_increasing [of "h + 32" "2 * h" "2 :: nat"]
      by (metis add_le_cancel_left less_le_trans mult_2 one_le_numeral)
    have "unat (drop_bit h v * ucast d) = ?U * unat d"
      using ud by (simp add: unat_word_ariths unat_shr d)
    then have p: "unat (push_bit (h - 32) (drop_bit h v * ucast d)) = ?U * unat d * 2 ^ (h - 32)"
      using small by (simp add: unat_shl S_def)
    show ?thesis unfolding nxt using small by (simp add: unat_word_ariths p unat_shr S_def)
  qed
  then show "unat (ucast res :: u32) + bigit_base * unat c' = unat v * unat d + unat c" and "unat c' \<le> unat v"
    using S total by (simp_all add: unsigned_ucast_eq take_bit_eq_mod)
qed

lemma multiply_wide_loop_value:
  assumes h: "LENGTH('u::len) = 2 * h" "32 \<le> h"
  shows "multiply_wide_loop (v :: 'u word) c ds = (r, c') \<Longrightarrow> unat c \<le> unat v \<Longrightarrow>
    digits_value r + bigit_base ^ length r * unat c' = unat v * digits_value ds + unat c \<and> length r = length ds"
proof (induction ds arbitrary: c r c')
  case (Cons d ds)
  have half: "LENGTH('u) div 2 = h" using h by simp
  define res where "res = take_bit h v * ucast d + ucast (ucast c :: u32)"
  define c1 where "c1 = push_bit (h - 32) (drop_bit h v * ucast d) + drop_bit 32 res + drop_bit 32 c"
  obtain r1 where r: "multiply_wide_loop v c1 ds = (r1, c')" "r = ucast res # r1"
    using Cons(2) by (auto simp: res_def c1_def half Let_def split: prod.splits)
  note step = wide_step [OF h Cons(3) res_def c1_def]
  note rest = Cons(1) [OF r(1) step(2)]
  from carry_step [OF step(1) conjunct1 [OF rest]] show ?case unfolding r(2) using rest by simp
qed simp

lemma multiply_wide_value:
  assumes h: "LENGTH('u::len) = 2 * h" "32 \<le> h"
  shows "bigint_value (multiply_wide (v :: 'u word) b) = unat v * bigint_value b"
    and "normal b \<Longrightarrow> v \<noteq> 0 \<Longrightarrow> normal (multiply_wide v b)" and "bi_exp (multiply_wide v b) = bi_exp b"
proof -
  obtain ds c where l: "multiply_wide_loop v 0 (bi_bigits b) = (ds, c)" by force
  note v = multiply_wide_loop_value [OF h l, simplified]
  have app: "digits_value (ds @ (if c \<noteq> 0 then digits_of c else [])) = digits_value ds + bigit_base ^ length ds * unat c"
    by (simp add: digits_value_append digits_of_value)
  show "bigint_value (multiply_wide v b) = unat v * bigint_value b"
    using conjunct1 [OF v] app by (simp add: multiply_wide_def l bigint_value_def)
  show "bi_exp (multiply_wide v b) = bi_exp b" by (simp add: multiply_wide_def l)
  have "digits_of c \<noteq> []" by (simp add: digits_of.simps)
  then show "normal (multiply_wide v b)" if "normal b" "v \<noteq> 0"
    using product_normal [OF that(1), of ds "unat c" "unat v" "if c \<noteq> 0 then digits_of c else []"]
      conjunct1 [OF v] conjunct2 [OF v] that(2)
    by (cases "c = 0") (simp_all add: multiply_wide_def l unat_gt_0 digits_of_last)
qed

section \<open>Leading zeros\<close>

text \<open>A number without leading zeros may be 0 with the one digit 0.\<close>

definition trimmed :: "bigint \<Rightarrow> bool" where
  "trimmed b \<longleftrightarrow> normal b \<or> bi_bigits b = [0] \<and> 0 \<le> bi_exp b"

lemma digits_value_drop_zeros: "digits_value (rev (dropWhile (\<lambda>d. d = 0) (rev ds))) = digits_value ds"
  by (induction ds rule: rev_induct) (simp_all add: digits_value_append)

lemma remove_leading_zeros_value [simp]: "bigint_value (remove_leading_zeros b) = bigint_value b"
  by (cases "bi_bigits b") (simp_all add: remove_leading_zeros_def bigint_value_def digits_value_drop_zeros)

lemma remove_leading_zeros_exp [simp]: "bi_exp (remove_leading_zeros b) = bi_exp b"
  by (simp add: remove_leading_zeros_def Let_def)

lemma length_remove_leading_zeros: "length (bi_bigits (remove_leading_zeros b)) \<le> length (bi_bigits b)"
proof (cases "bi_bigits b")
  case (Cons d ds)
  have "length (dropWhile (\<lambda>d. d = 0) (rev ds)) \<le> length (rev ds)" by (rule length_dropWhile_le)
  then show ?thesis by (simp add: remove_leading_zeros_def Cons)
qed (simp add: remove_leading_zeros_def)

lemma remove_leading_zeros_trimmed:
  assumes "bi_bigits b \<noteq> []" and "0 \<le> bi_exp b"
  shows "trimmed (remove_leading_zeros b)"
proof -
  obtain d ds where b: "bi_bigits b = d # ds" using assms(1) by (cases "bi_bigits b") auto
  define ds' where "ds' = rev (dropWhile (\<lambda>d. d = 0) (rev ds))"
  have "ds' = [] \<or> last ds' \<noteq> 0"
    unfolding ds'_def using hd_dropWhile [of "\<lambda>d. d = 0" "rev ds"] by (auto simp: last_rev)
  then show ?thesis using assms(2)
    by (auto simp: trimmed_def normal_def remove_leading_zeros_def b simp flip: ds'_def)
qed

lemma remove_leading_zeros_normal:
  "bi_bigits b \<noteq> [] \<Longrightarrow> 0 \<le> bi_exp b \<Longrightarrow> 0 < bigint_value b \<Longrightarrow> normal (remove_leading_zeros b)"
  using remove_leading_zeros_trimmed [of b] remove_leading_zeros_value [of b]
  by (auto simp: trimmed_def bigint_value_def simp del: remove_leading_zeros_value)

section \<open>Comparison\<close>

text \<open>The loop of \<open>compare\<close> goes through both numbers from the top.\<close>

fun compare_tops :: "u32 list \<Rightarrow> u32 list \<Rightarrow> int" where
  "compare_tops [] [] = 0"
| "compare_tops (x # xs) [] = 1"
| "compare_tops [] (y # ys) = - 1"
| "compare_tops (x # xs) (y # ys) = (if x \<noteq> y then if x > y then 1 else - 1 else compare_tops xs ys)"

lemma compare_loop_tops:
  assumes "n \<le> length ds1" and "m \<le> length ds2"
  shows "compare_loop ds1 ds2 (int n - 1) (int m - 1) (max 0 (int n - int m))
    = Inr (compare_tops (rev (take n ds1)) (rev (take m ds2)))"
  using assms
proof (induction n arbitrary: m)
  case 0
  then show ?case by (cases m) (auto simp: compare_loop.simps take_Suc_conv_app_nth)
next
  case (Suc n)
  show ?case
  proof (cases m)
    case 0
    then show ?thesis using Suc by (simp add: compare_loop.simps take_Suc_conv_app_nth)
  next
    case m: (Suc k)
    then show ?thesis using Suc(1) [of k] Suc(2,3)
      by (subst compare_loop.simps) (simp add: bigit_at_def at_index_def take_Suc_conv_app_nth)
  qed
qed

text \<open>Numbers aligned at the top; equal ones are told apart by their lengths.\<close>

lemma compare_tops_value:
  defines "lhs xs ys \<equiv> int (digits_value xs * bigit_base ^ length ys)"
  shows "compare_tops (rev xs) (rev ys) =
    (if lhs xs ys \<noteq> lhs ys xs then sgn (lhs xs ys - lhs ys xs) else sgn (int (length xs) - int (length ys)))"
proof (induction xs arbitrary: ys rule: rev_induct)
  case Nil
  show ?case by (cases ys rule: rev_cases) (auto simp: lhs_def)
next
  case (snoc x xs)
  show ?case
  proof (cases ys rule: rev_cases)
    case Nil
    then show ?thesis by (auto simp: lhs_def)
  next
    case ys: (snoc zs y)
    let ?D = "lhs xs zs - lhs zs xs" and ?P = "int (bigit_base ^ (length xs + length zs))"
    have d: "lhs (xs @ [x]) ys - lhs ys (xs @ [x])
        = int bigit_base * (?D + ?P * (int (unat x) - int (unat y)))"
      by (simp add: lhs_def ys digits_value_append algebra_simps power_add)
    have "lhs xs zs < ?P" "lhs zs xs < ?P"
      using digits_value_less [of xs] digits_value_less [of zs]
      by (simp_all only: lhs_def of_nat_less_iff power_add add.commute [of "length xs"])
        (simp_all add: power_add mult.commute)
    moreover have "0 \<le> lhs xs zs" "0 \<le> lhs zs xs" by (simp_all add: lhs_def)
    ultimately have D: "\<bar>?D\<bar> < ?P" by linarith
    show ?thesis
    proof (cases "x = y")
      case True
      then have eq: "lhs (xs @ [x]) ys - lhs ys (xs @ [x]) = int bigit_base * ?D" using d by simp
      have sg: "sgn (lhs (xs @ [x]) ys - lhs ys (xs @ [x])) = sgn ?D"
        unfolding eq by (simp only: sgn_mult) simp
      have "lhs (xs @ [x]) ys \<noteq> lhs ys (xs @ [x]) \<longleftrightarrow> ?D \<noteq> 0"
        using eq by (metis eq_iff_diff_eq_0 sg sgn_0_0)
      then have ne: "lhs (xs @ [x]) ys \<noteq> lhs ys (xs @ [x]) \<longleftrightarrow> lhs xs zs \<noteq> lhs zs xs" by simp
      show ?thesis unfolding ne sg using snoc [of zs] True by (simp add: ys)
    next
      case False
      then have xy: "unat x \<noteq> unat y" by (simp add: word_unat_eq_iff)
      have s: "sgn (?D + ?P * (int (unat x) - int (unat y))) = (if x > y then 1 else - 1)"
      proof (cases "x > y")
        case True
        then have "unat y < unat x" by (simp add: word_less_nat_alt)
        then have "1 \<le> int (unat x) - int (unat y)" by linarith
        then have "?P * 1 \<le> ?P * (int (unat x) - int (unat y))" by (rule mult_left_mono) simp
        then have "0 < ?D + ?P * (int (unat x) - int (unat y))" using D by linarith
        then show ?thesis using True by (simp only: sgn_pos if_True)
      next
        case F: False
        then have "unat x < unat y" using xy by (simp add: word_less_nat_alt not_less)
        then have "int (unat x) - int (unat y) \<le> - 1" by linarith
        then have "?P * (int (unat x) - int (unat y)) \<le> ?P * (- 1)" by (rule mult_left_mono) simp
        then have "?D + ?P * (int (unat x) - int (unat y)) < 0" using D by linarith
        then show ?thesis using F by (simp only: sgn_neg if_False)
      qed
      then have "?D + ?P * (int (unat x) - int (unat y)) \<noteq> 0" by (metis one_neq_zero neg_equal_0_iff_equal sgn_0)
      then have "lhs (xs @ [x]) ys - lhs ys (xs @ [x]) \<noteq> 0" unfolding d mult_eq_0_iff by simp
      moreover have "sgn (lhs (xs @ [x]) ys - lhs ys (xs @ [x])) = (if x > y then 1 else - 1)"
        unfolding d by (simp only: sgn_mult s) simp
      ultimately show ?thesis using False by (simp add: ys)
    qed
  qed
qed

lemma sgn_less: "a < b \<Longrightarrow> sgn (a - b) = - 1" "b < a \<Longrightarrow> sgn (a - b) = 1" for a b :: int
  by simp_all

text \<open>
  Numbers with the same number of digits, exponent included, are compared by their values;
  different numbers of digits decide for normal numbers.
\<close>

lemma compare_same_size:
  assumes n: "num_bigits a = num_bigits b" and e: "0 \<le> bi_exp a" "0 \<le> bi_exp b"
  shows "bigint_compare a b = Inr (if bigint_value a \<noteq> bigint_value b
    then sgn (int (bigint_value a) - int (bigint_value b)) else sgn (bi_exp b - bi_exp a))"
proof -
  let ?x = "bi_bigits a" and ?y = "bi_bigits b"
  let ?l = "int (digits_value ?x * bigit_base ^ length ?y)" and ?r = "int (digits_value ?y * bigit_base ^ length ?x)"
  have run: "bigint_compare a b = Inr (compare_tops (rev ?x) (rev ?y))"
    using n compare_loop_tops [of "length ?x" ?x "length ?y" ?y]
    by (simp add: bigint_compare_def Let_def max.commute)
  have len: "int (length ?x) - int (length ?y) = bi_exp b - bi_exp a" using n by (simp add: num_bigits_def)
  have k: "length ?y + nat (bi_exp b) = length ?x + nat (bi_exp a)" using n e unfolding num_bigits_def by arith
  have l: "?l * int (bigit_base ^ nat (bi_exp b)) = int (bigint_value a) * int (bigit_base ^ length ?x)"
  proof -
    have "digits_value ?x * bigit_base ^ length ?y * bigit_base ^ nat (bi_exp b)
        = digits_value ?x * bigit_base ^ (length ?y + nat (bi_exp b))" by (simp add: power_add)
    also have "\<dots> = bigint_value a * bigit_base ^ length ?x" unfolding k by (simp add: bigint_value_def power_add)
    finally show ?thesis by (metis of_nat_mult)
  qed
  have r: "?r * int (bigit_base ^ nat (bi_exp b)) = int (bigint_value b) * int (bigit_base ^ length ?x)"
    by (simp add: bigint_value_def)
  define p q :: int where "p = int (bigit_base ^ nat (bi_exp b))" and "q = int (bigit_base ^ length ?x)"
  have pos: "0 < p" "0 < q" by (simp_all add: p_def q_def)
  have diff: "(?l - ?r) * p = (int (bigint_value a) - int (bigint_value b)) * q"
    using l r unfolding p_def [symmetric] q_def [symmetric] by (simp only: left_diff_distrib)
  have "sgn (?l - ?r) = sgn ((?l - ?r) * p)" using pos by (simp only: sgn_mult sgn_pos mult_1_right)
  also have "\<dots> = sgn (int (bigint_value a) - int (bigint_value b))"
    unfolding diff using pos by (simp only: sgn_mult sgn_pos mult_1_right)
  finally have s: "sgn (?l - ?r) = sgn (int (bigint_value a) - int (bigint_value b))" .
  then have "?l \<noteq> ?r \<longleftrightarrow> bigint_value a \<noteq> bigint_value b"
    by (metis eq_iff_diff_eq_0 of_nat_eq_iff sgn_0_0)
  then show ?thesis unfolding run compare_tops_value len s by simp
qed

lemma power_mono_nat: "m \<le> n \<Longrightarrow> bigit_base ^ m \<le> bigit_base ^ n"
  by (rule power_increasing) simp_all

lemma compare_more_digits:
  assumes "num_bigits a < num_bigits b" and "normal b" and a: "normal a \<or> bigint_value a = 0"
  shows "bigint_value a < bigint_value b" and "bigint_compare a b = Inr (- 1)" and "bigint_compare b a = Inr 1"
proof -
  show "bigint_value a < bigint_value b"
  proof (cases "bigint_value a = 0")
    case True
    then show ?thesis using normal_pos [OF assms(2)] by simp
  next
    case False
    then have n: "normal a" using a by simp
    have "bigint_value a < bigit_base ^ nat (num_bigits a)" by (rule normal_bounds(2) [OF n])
    also have "\<dots> \<le> bigit_base ^ nat (num_bigits b - 1)" using assms(1) by (intro power_mono_nat) simp
    also have "\<dots> \<le> bigint_value b" by (rule normal_bounds(1) [OF assms(2)])
    finally show ?thesis .
  qed
  show "bigint_compare a b = Inr (- 1)" "bigint_compare b a = Inr 1" using assms(1) by (simp_all add: bigint_compare_def)
qed

text \<open>
  \<open>compare\<close> is the comparison of the values of normal numbers, except that equal numbers count as
  different when their exponents are: the one with the smaller exponent is the greater one.
\<close>

lemma bigint_compare_value:
  assumes "normal a" and "normal b"
  shows "bigint_compare a b = Inr (if bigint_value a \<noteq> bigint_value b
    then sgn (int (bigint_value a) - int (bigint_value b)) else sgn (bi_exp b - bi_exp a))"
proof -
  consider "num_bigits a = num_bigits b" | "num_bigits a < num_bigits b" | "num_bigits b < num_bigits a" by linarith
  then show ?thesis
  proof cases
    case 1
    then show ?thesis using assms by (intro compare_same_size) (simp_all add: normal_def)
  next
    case 2
    then show ?thesis using compare_more_digits [of a b] assms by (simp add: sgn_less)
  next
    case 3
    then show ?thesis using compare_more_digits [of b a] assms by (simp add: sgn_less)
  qed
qed

text \<open>Whether a number is at least a divisor is decided right as long as its exponent is not greater.\<close>

lemma compare_aligned:
  assumes "trimmed a" and "normal b" and "bi_exp a \<le> bi_exp b"
  shows "\<exists>c. bigint_compare a b = Inr c \<and> (0 \<le> c \<longleftrightarrow> bigint_value b \<le> bigint_value a)"
proof (cases "normal a")
  case True
  have sg: "sgn x \<ge> 0 \<longleftrightarrow> x \<ge> 0" for x :: int by (auto simp: sgn_if)
  show ?thesis unfolding bigint_compare_value [OF True assms(2)] using assms(3) by (auto simp: sg)
next
  case False
  then have z: "bi_bigits a = [0]" "0 \<le> bi_exp a" "bigint_value a = 0"
    using assms(1) by (auto simp: trimmed_def bigint_value_def)
  have pos: "0 < bigint_value b" by (rule normal_pos [OF assms(2)])
  have "1 \<le> length (bi_bigits b)" using assms(2) by (simp add: normal_def Suc_le_eq)
  then consider "num_bigits a = num_bigits b" | "num_bigits a < num_bigits b"
    using z assms(3) unfolding num_bigits_def by fastforce
  then show ?thesis
  proof cases
    case 1
    then show ?thesis using compare_same_size [OF 1] z pos assms(2) by (simp add: normal_def sgn_less)
  next
    case 2
    then show ?thesis using compare_more_digits(2) [OF 2 assms(2)] z pos by simp
  qed
qed

end
