(* ===== verification/Fmt_Bigint_Division.thy ===== *)
theory Fmt_Bigint_Division
  imports Fmt_Bigint_Props
begin

text \<open>
  Subtraction and division of the big numbers of the bundled fmt: the loops that borrow, and the
  division by repeated subtraction that yields one digit of a floating point number at a time.
\<close>

section \<open>Subtraction\<close>

text \<open>One digit: the borrow is the sign of the difference in 64 bits.\<close>

lemma subtract_step:
  fixes d other c :: u32
  defines "r \<equiv> (ucast d :: u64) - ucast other - ucast c"
  assumes c: "unat c \<le> 1"
  shows "unat d + bigit_base * unat (ucast (drop_bit 63 r) :: u32) = unat (ucast r :: u32) + unat other + unat c"
    and "unat (ucast (drop_bit 63 r) :: u32) \<le> 1"
proof -
  define s :: u64 where "s = ucast other + ucast c"
  have s: "unat s = unat other + unat c"
    using c unat_u32 [of other] unfolding s_def by (simp add: unat_word_ariths unat_u64)
  have r: "r = ucast d - s" by (simp add: r_def s_def)
  have hi: "unat (ucast (drop_bit 63 r) :: u32) = unat r div 2 ^ 63 mod bigit_base"
    by (simp add: unsigned_ucast_eq take_bit_eq_mod unat_shr)
  have lo: "unat (ucast r :: u32) = unat r mod bigit_base" by (simp add: unsigned_ucast_eq take_bit_eq_mod)
  have d: "unat (ucast d :: u64) = unat d" by (rule unat_u64)
  have less: "unat d < bigit_base" "unat other < bigit_base" by (rule unat_u32)+
  have "unat d + bigit_base * (unat r div 2 ^ 63 mod bigit_base) = unat r mod bigit_base + unat other + unat c
    \<and> unat r div 2 ^ 63 mod bigit_base \<le> 1"
  proof (cases "unat s \<le> unat d")
    case True
    then have "unat r = unat d - unat s" unfolding r using d by (simp add: unat_sub word_le_nat_alt)
    then show ?thesis using True s less by simp
  next
    case False
    then have "unat r = 2 ^ 64 + unat d - unat s"
      unfolding r using d s c less by (simp add: unat_sub_if')
    moreover have "unat s \<le> bigit_base" using s c less by simp
    ultimately have x: "unat r = 2 ^ 64 - (unat s - unat d)" "0 < unat s - unat d" "unat s - unat d \<le> bigit_base"
      using False by simp_all
    define x where "x = unat s - unat d"
    have "unat r div 2 ^ 63 = 1" using x unfolding x_def [symmetric] by simp
    moreover have "unat r mod bigit_base = bigit_base - x"
    proof -
      have "unat r = (bigit_base - x) + (bigit_base - 1) * bigit_base" using x unfolding x_def [symmetric] by simp
      then have "unat r mod bigit_base = (bigit_base - x) mod bigit_base" by (simp only: mod_mult_self1)
      also have "\<dots> = bigit_base - x" using x(2) unfolding x_def [symmetric] by (intro mod_less) simp
      finally show ?thesis .
    qed
    ultimately show ?thesis using s x(3) False unfolding x_def by simp
  qed
  then show "unat d + bigit_base * unat (ucast (drop_bit 63 r) :: u32) = unat (ucast r :: u32) + unat other + unat c"
    and "unat (ucast (drop_bit 63 r) :: u32) \<le> 1" unfolding hi lo by simp_all
qed

lemma digits_value_update:
  "i < length ds \<Longrightarrow> digits_value (ds[i := x]) + bigit_base ^ i * unat (ds ! i) = digits_value ds + bigit_base ^ i * unat x"
proof (induction ds arbitrary: i)
  case (Cons d ds)
  then show ?case
  proof (cases i)
    case (Suc k)
    then have "digits_value (ds[k := x]) + bigit_base ^ k * unat (ds ! k) = digits_value ds + bigit_base ^ k * unat x"
      using Cons by simp
    then have "bigit_base * digits_value (ds[k := x]) + bigit_base * (bigit_base ^ k * unat (ds ! k))
        = bigit_base * digits_value ds + bigit_base * (bigit_base ^ k * unat x)"
      by (metis distrib_left)
    then show ?thesis using Suc by simp
  qed simp
qed simp

lemma subtract_bigits_value:
  assumes "i < length ds" and "unat c \<le> 1"
  shows "\<exists>ds' c'. subtract_bigits i other c ds = Inr (ds', c') \<and> length ds' = length ds \<and> unat c' \<le> 1
    \<and> digits_value ds + bigit_base ^ Suc i * unat c' = digits_value ds' + bigit_base ^ i * (unat other + unat c)"
proof -
  define r where "r = (ucast (ds ! i) :: u64) - ucast other - ucast c"
  note step = subtract_step [OF assms(2), of "ds ! i" other, folded r_def]
  have "digits_value ds + bigit_base ^ Suc i * unat (ucast (drop_bit 63 r) :: u32)
      = digits_value (ds[i := ucast r]) + bigit_base ^ i * (unat other + unat c)"
  proof -
    have "bigit_base ^ i * unat (ds ! i) + bigit_base ^ Suc i * unat (ucast (drop_bit 63 r) :: u32)
        = bigit_base ^ i * (unat (ds ! i) + bigit_base * unat (ucast (drop_bit 63 r) :: u32))"
      by (simp add: distrib_left mult.commute mult.left_commute del: power_Suc add: power_Suc2)
    also have "\<dots> = bigit_base ^ i * unat (ucast r :: u32) + bigit_base ^ i * (unat other + unat c)"
      unfolding step(1) by (simp only: distrib_left add.assoc)
    finally show ?thesis using digits_value_update [OF assms(1), of "ucast r"] by linarith
  qed
  then show ?thesis using assms(1) step(2) by (simp add: subtract_bigits_def at_index_ok Let_def flip: r_def)
qed

lemma subtract_loop_value:
  "i + length others \<le> length ds \<Longrightarrow> unat c \<le> 1 \<Longrightarrow>
    \<exists>ds' c'. subtract_loop i others c ds = Inr (i + length others, ds', c') \<and> length ds' = length ds \<and> unat c' \<le> 1
      \<and> digits_value ds + bigit_base ^ (i + length others) * unat c'
        = digits_value ds' + bigit_base ^ i * (digits_value others + unat c)"
proof (induction others arbitrary: i c ds)
  case (Cons other others)
  obtain ds1 c1 where 1: "subtract_bigits i other c ds = Inr (ds1, c1)" "length ds1 = length ds" "unat c1 \<le> 1"
    "digits_value ds + bigit_base ^ Suc i * unat c1 = digits_value ds1 + bigit_base ^ i * (unat other + unat c)"
    using subtract_bigits_value [of i ds c other] Cons(2,3) by auto
  obtain ds' c' where 2: "subtract_loop (Suc i) others c1 ds1 = Inr (Suc i + length others, ds', c')"
    "length ds' = length ds1" "unat c' \<le> 1"
    "digits_value ds1 + bigit_base ^ (Suc i + length others) * unat c'
      = digits_value ds' + bigit_base ^ Suc i * (digits_value others + unat c1)"
    using Cons(1) [of "Suc i" ds1 c1] Cons(2) 1 by auto
  have "bigit_base ^ i * (digits_value (other # others) + unat c)
      = bigit_base ^ i * (unat other + unat c) + bigit_base ^ Suc i * digits_value others"
    by (simp only: digits_value.simps power_Suc2 distrib_left distrib_right ac_simps)
  then have "digits_value ds + bigit_base ^ (Suc i + length others) * unat c'
      = digits_value ds' + bigit_base ^ i * (digits_value (other # others) + unat c)"
    using 1(4) 2(4) by (simp only: distrib_left)
  then show ?case using 1 2 by simp
qed simp

text \<open>
  A number can be subtracted in place when it is not greater and at most one digit shorter, and no
  digit of it is below the digits of the minuend.
\<close>

lemma trimmed_bounds: "trimmed b \<Longrightarrow> bi_bigits b \<noteq> [] \<and> 0 \<le> bi_exp b"
  by (auto simp: trimmed_def normal_def)

lemma subtract_aligned_value:
  assumes b: "trimmed b" and other: "normal other" and e: "bi_exp b \<le> bi_exp other"
    and le: "bigint_value other \<le> bigint_value b" and n: "num_bigits b \<le> num_bigits other + 1"
  shows "\<exists>b'. subtract_aligned b other = Inr b' \<and> trimmed b' \<and> bi_exp b' = bi_exp b
    \<and> bigint_value b' = bigint_value b - bigint_value other \<and> num_bigits b' \<le> num_bigits b"
proof -
  define i where "i = nat (bi_exp other - bi_exp b)"
  let ?ds = "bi_bigits b" and ?os = "bi_bigits other" and ?p = "bigit_base ^ nat (bi_exp b)"
  note pos = trimmed_bounds [OF b]
  have eo: "nat (bi_exp other) = i + nat (bi_exp b)" using e pos unfolding i_def by arith
  have vb: "bigint_value b = digits_value ?ds * ?p" and vo: "bigint_value other = bigit_base ^ i * digits_value ?os * ?p"
    by (simp_all add: bigint_value_def eo power_add)
  have "normal b" using b le normal_pos [OF other] by (auto simp: trimmed_def bigint_value_def)
  have "num_bigits other \<le> num_bigits b"
  proof (rule ccontr)
    assume "\<not> num_bigits other \<le> num_bigits b"
    then have "bigint_value b < bigint_value other" using compare_more_digits(1) [of b other] other \<open>normal b\<close> by simp
    then show False using le by simp
  qed
  then have len: "i + length ?os \<le> length ?ds" "length ?ds \<le> Suc (i + length ?os)"
    using n e unfolding num_bigits_def i_def by arith+
  obtain c where c: "bigint_compare b other = Inr c" "0 \<le> c" using compare_aligned [OF b other e] le by auto
  obtain ds1 c1 where 1: "subtract_loop i ?os 0 ?ds = Inr (i + length ?os, ds1, c1)" "length ds1 = length ?ds"
    "unat c1 \<le> 1" "digits_value ?ds + bigit_base ^ (i + length ?os) * unat c1
      = digits_value ds1 + bigit_base ^ i * digits_value ?os"
    using subtract_loop_value [OF len(1), of 0] by auto
  have less: "bigit_base ^ i * digits_value ?os \<le> digits_value ?ds" using le unfolding vb vo by simp
  obtain ds2 where 2: "(if c1 \<noteq> 0 then subtract_bigits (i + length ?os) 0 c1 ds1 else Inr (ds1, c1)) = Inr (ds2, 0)"
    "length ds2 = length ?ds" "digits_value ?ds = digits_value ds2 + bigit_base ^ i * digits_value ?os"
  proof (cases "c1 = 0")
    case True
    then show ?thesis using 1 that by simp
  next
    case False
    have c1: "unat c1 = 1" using False 1(3) by (metis le_neq_implies_less less_one unat_eq_zero)
    have short: "i + length ?os < length ds1"
    proof (rule ccontr)
      assume "\<not> i + length ?os < length ds1"
      then have "digits_value ds1 < bigit_base ^ (i + length ?os)" using len 1(2) digits_value_less [of ds1] by simp
      then show False using 1(4) [unfolded c1] less by linarith
    qed
    obtain ds2 c2 where 2: "subtract_bigits (i + length ?os) 0 c1 ds1 = Inr (ds2, c2)" "length ds2 = length ds1" "unat c2 \<le> 1"
      "digits_value ds1 + bigit_base ^ Suc (i + length ?os) * unat c2 = digits_value ds2 + bigit_base ^ (i + length ?os)"
      using subtract_bigits_value [OF short 1(3), of 0] c1 by auto
    have all: "digits_value ?ds + bigit_base ^ Suc (i + length ?os) * unat c2 = digits_value ds2 + bigit_base ^ i * digits_value ?os"
      using 1(4) [unfolded c1] 2(4) by linarith
    have "length ds2 = Suc (i + length ?os)" using short len 1(2) 2(2) by simp
    then have "digits_value ds2 < bigit_base ^ Suc (i + length ?os)" using digits_value_less [of ds2] by simp
    then have "\<not> 1 \<le> unat c2" using all less 2(3) by (auto simp: le_Suc_eq)
    then have "c2 = 0" by (simp add: unat_eq_zero not_le)
    then show ?thesis using that False 2 all 1(2) by simp
  qed
  let ?r = "b\<lparr>bi_bigits := ds2\<rparr>"
  have run: "subtract_aligned b other = Inr (remove_leading_zeros ?r)"
    using e c 1(1) 2(1) by (simp add: subtract_aligned_def flip: i_def)
  have "bigint_value ?r = bigint_value b - bigint_value other"
    unfolding vb vo by (simp add: bigint_value_def 2(3) add_mult_distrib)
  moreover have "trimmed (remove_leading_zeros ?r)"
    using pos 2(2) by (intro remove_leading_zeros_trimmed) auto
  moreover have "num_bigits (remove_leading_zeros ?r) \<le> num_bigits b"
    using length_remove_leading_zeros [of ?r] 2(2) by (simp add: num_bigits_def)
  ultimately show ?thesis using run by simp
qed

section \<open>Division\<close>

lemma bigint_align_value:
  assumes "0 \<le> bi_exp other"
  shows "bigint_value (bigint_align b other) = bigint_value b" and "num_bigits (bigint_align b other) = num_bigits b"
    and "bi_exp (bigint_align b other) = min (bi_exp b) (bi_exp other)" and "normal b \<Longrightarrow> normal (bigint_align b other)"
proof -
  let ?k = "nat (bi_exp b - bi_exp other)"
  show "num_bigits (bigint_align b other) = num_bigits b" by (simp add: bigint_align_def Let_def num_bigits_def)
  show "bi_exp (bigint_align b other) = min (bi_exp b) (bi_exp other)" by (simp add: bigint_align_def Let_def)
  show "normal b \<Longrightarrow> normal (bigint_align b other)" using assms by (simp add: bigint_align_def Let_def normal_def)
  show "bigint_value (bigint_align b other) = bigint_value b"
  proof (cases "bi_exp b \<le> bi_exp other")
    case False
    then have "nat (bi_exp b) = ?k + nat (bi_exp other)" using assms by arith
    then show ?thesis using False
      by (simp add: bigint_align_def Let_def bigint_value_def digits_value_append power_add)
  qed (simp add: bigint_align_def)
qed

text \<open>
  The loop ends because every round takes the divisor off the number, unless the count of the
  rounds does not fit into an \<open>int\<close>.
\<close>

lemma divmod_loop_value:
  assumes "trimmed b" and d: "normal d" and "bi_exp b \<le> bi_exp d" and "num_bigits b \<le> num_bigits d + 1"
    and "bigint_value d \<le> bigint_value b" and "quot < 2147483648"
  shows "if quot + int (bigint_value b div bigint_value d) < 2147483648
    then \<exists>r. divmod_loop d quot b = Some (Inr (quot + int (bigint_value b div bigint_value d), r))
      \<and> trimmed r \<and> bi_exp r = bi_exp b \<and> bigint_value r = bigint_value b mod bigint_value d
    else divmod_loop d quot b = Some (Inl Ub_overflow)"
  using assms
proof (induction "bigint_value b" arbitrary: b quot rule: less_induct)
  case less
  have pos: "0 < bigint_value d" by (rule normal_pos [OF d])
  obtain b' where 1: "subtract_aligned b d = Inr b'" "trimmed b'" "bi_exp b' = bi_exp b"
    "bigint_value b' = bigint_value b - bigint_value d" "num_bigits b' \<le> num_bigits b"
    using subtract_aligned_value [OF less(2) d less(4,6,5)] by auto
  obtain c where c: "bigint_compare b' d = Inr c" "0 \<le> c \<longleftrightarrow> bigint_value d \<le> bigint_value b'"
    using compare_aligned [OF 1(2) d] less(4) 1(3) by auto
  have split: "bigint_value b = bigint_value b' + bigint_value d" using 1(4) less(6) by simp
  have dm: "bigint_value b div bigint_value d = Suc (bigint_value b' div bigint_value d)"
    "bigint_value b mod bigint_value d = bigint_value b' mod bigint_value d"
    unfolding split using pos by (simp_all add: div_add_self2)
  show ?case
  proof (cases "quot < 2147483647")
    case over: False
    then show ?thesis using 1 dm less(7) by (subst divmod_loop.simps, subst divmod_loop.simps) (simp add: check_def)
  next
    case room: True
    show ?thesis
    proof (cases "0 \<le> c")
      case True
      have "bigint_value b' < bigint_value b" using split pos by simp
      from less(1) [OF this 1(2) d, of "quot + 1"] 1 c True less(4,5) room
      have "if quot + 1 + int (bigint_value b' div bigint_value d) < 2147483648
          then \<exists>r. divmod_loop d (quot + 1) b' = Some (Inr (quot + 1 + int (bigint_value b' div bigint_value d), r))
            \<and> trimmed r \<and> bi_exp r = bi_exp b' \<and> bigint_value r = bigint_value b' mod bigint_value d
          else divmod_loop d (quot + 1) b' = Some (Inl Ub_overflow)" by simp
      moreover have "divmod_loop d quot b = divmod_loop d (quot + 1) b'"
        using 1 c True room by (subst divmod_loop.simps) (simp add: check_def)
      ultimately show ?thesis using 1(3) dm by (auto simp: algebra_simps split: if_splits)
    next
      case False
      then have "bigint_value b' < bigint_value d" using c by simp
      then show ?thesis using 1 c False dm room by (subst divmod_loop.simps, subst divmod_loop.simps) (simp add: check_def)
    qed
  qed
qed

text \<open>
  A number equal to the divisor that is written with a greater exponent is the only one that is
  not divided right: the comparison takes it for the smaller one.
\<close>

lemma divmod_assign_value:
  assumes b: "normal b \<or> trimmed b \<and> bi_exp b \<le> bi_exp d" and d: "normal d" and n: "num_bigits b \<le> num_bigits d + 1"
    and ne: "bigint_value b \<noteq> bigint_value d \<or> bi_exp b \<le> bi_exp d"
  shows "if bigint_value b div bigint_value d < 2147483648
    then \<exists>r. divmod_assign b d = Some (Inr (int (bigint_value b div bigint_value d), r))
      \<and> trimmed r \<and> bigint_value r = bigint_value b mod bigint_value d
      \<and> bi_exp r = (if bigint_value d \<le> bigint_value b then min (bi_exp b) (bi_exp d) else bi_exp b)
    else divmod_assign b d = Some (Inl Ub_overflow)"
proof -
  have sg: "sgn x \<ge> 0 \<longleftrightarrow> x \<ge> 0" for x :: int by (auto simp: sgn_if)
  obtain c where c: "bigint_compare b d = Inr c" "0 \<le> c \<longleftrightarrow> bigint_value d \<le> bigint_value b"
  proof (cases "bi_exp b \<le> bi_exp d")
    case True
    have "trimmed b" using b by (auto simp: trimmed_def)
    then show ?thesis using that compare_aligned [OF _ d True] by blast
  next
    case False
    then have "normal b" using b by simp
    then show ?thesis using that bigint_compare_value [OF _ d] ne False by (auto simp: sg)
  qed
  have d_last: "at_index (bi_bigits d) (length (bi_bigits d) - 1) = Inr (last (bi_bigits d))" "last (bi_bigits d) \<noteq> 0"
    using d by (auto simp: normal_def at_index_def last_conv_nth)
  show ?thesis
  proof (cases "0 \<le> c")
    case False
    then have "bigint_value b < bigint_value d" using c by simp
    moreover have "trimmed b" using b by (auto simp: trimmed_def)
    ultimately show ?thesis using c False by (simp add: divmod_assign_def)
  next
    case True
    let ?a = "bigint_align b d"
    have le: "bigint_value d \<le> bigint_value b" using True c by simp
    have "normal b"
      using b le normal_pos [OF d] by (auto simp: trimmed_def bigint_value_def)
    have e: "0 \<le> bi_exp d" using d by (simp add: normal_def)
    note a = bigint_align_value [OF e, of b]
    have "trimmed ?a" using a(4) [OF \<open>normal b\<close>] by (simp add: trimmed_def)
    from divmod_loop_value [OF this d, of 0] a(1,2,3) n le
    have "if int (bigint_value b div bigint_value d) < 2147483648
      then \<exists>r. divmod_loop d 0 ?a = Some (Inr (int (bigint_value b div bigint_value d), r))
        \<and> trimmed r \<and> bi_exp r = bi_exp ?a \<and> bigint_value r = bigint_value b mod bigint_value d
      else divmod_loop d 0 ?a = Some (Inl Ub_overflow)" by (simp split: if_splits)
    moreover have "divmod_assign b d = divmod_loop d 0 ?a" using c True d_last by (simp add: divmod_assign_def)
    ultimately show ?thesis using le a(3) by (auto split: if_splits)
  qed
qed

text \<open>A number below \<open>2 ^ 32\<close> times the divisor is at most one digit longer.\<close>

lemma num_bits_less:
  assumes d: "normal d" and b: "normal b \<or> trimmed b \<and> bi_exp b \<le> bi_exp d"
    and less: "bigint_value b < bigit_base * bigint_value d"
  shows "num_bigits b \<le> num_bigits d + 1"
proof (cases "normal b")
  case True
  have "bigit_base ^ nat (num_bigits b - 1) \<le> bigint_value b" by (rule normal_bounds(1) [OF True])
  also have "\<dots> < bigit_base * bigint_value d" by (rule less)
  also have "\<dots> < bigit_base * bigit_base ^ nat (num_bigits d)" using normal_bounds(2) [OF d] by simp
  finally have "bigit_base ^ nat (num_bigits b - 1) < bigit_base ^ Suc (nat (num_bigits d))" by simp
  then have "nat (num_bigits b - 1) < Suc (nat (num_bigits d))" by (rule power_less_imp_less_exp [rotated]) simp
  then show ?thesis using normal_bounds(3) [OF d] by simp
next
  case False
  then have "num_bigits b = 1 + bi_exp b" "bi_exp b \<le> bi_exp d" using b by (auto simp: trimmed_def num_bigits_def)
  then show ?thesis by (simp add: num_bigits_def)
qed

section \<open>What the client relies on\<close>

text \<open>
  C16. For a number and a divisor without leading zeros, the number at most one digit longer and,
  where it equals the divisor, not written with the greater exponent, the loop of subtractions ends:
  with the quotient and the remainder of the natural numbers when the quotient fits into an \<open>int\<close>,
  with an overflow of its count when it does not. The callers divide by more than a tenth of the number.
\<close>

theorem bigint_division_is_exact:
  assumes "normal b" and "normal d" and "num_bigits b \<le> num_bigits d + 1"
    and "bigint_value b \<noteq> bigint_value d \<or> bi_exp b \<le> bi_exp d"
  shows "if bigint_value b div bigint_value d < 2147483648
    then \<exists>r. divmod_assign b d = Some (Inr (int (bigint_value b div bigint_value d), r))
      \<and> trimmed r \<and> bigint_value r = bigint_value b mod bigint_value d
    else divmod_assign b d = Some (Inl Ub_overflow)"
  using divmod_assign_value [OF _ assms(2,3,4)] assms(1) by (auto split: if_splits)

theorem bigint_division_is_exact_witness:
  "\<exists>r. divmod_assign \<lparr>bi_bigits = [5, 7], bi_exp = 0\<rparr> \<lparr>bi_bigits = [3, 2], bi_exp = 0\<rparr> = Some (Inr (3, r))
    \<and> bigint_value r = 4294967292"
proof -
  have "bigint_value \<lparr>bi_bigits = [5, 7], bi_exp = 0\<rparr> = 30064771077" "bigint_value \<lparr>bi_bigits = [3, 2], bi_exp = 0\<rparr> = 8589934595"
    by (simp_all add: bigint_value_def)
  then show ?thesis
    using bigint_division_is_exact [of "\<lparr>bi_bigits = [5, 7], bi_exp = 0\<rparr>" "\<lparr>bi_bigits = [3, 2], bi_exp = 0\<rparr>"]
    by (auto simp: normal_def num_bigits_def)
qed

text \<open>Without the condition on the exponents a number divided by itself gives 0, not 1.\<close>

lemma equal_number_is_divided_wrong:
  defines "a \<equiv> \<lparr>bi_bigits = [1], bi_exp = 1\<rparr>" and "b \<equiv> \<lparr>bi_bigits = [0, 1], bi_exp = 0\<rparr>"
  shows "bigint_value a = bigint_value b \<and> bigint_compare b a = Inr 1 \<and> divmod_assign a b = Some (Inr (0, a))"
proof -
  have "normal a" "normal b" "bigint_value a = bigint_value b" by (simp_all add: a_def b_def normal_def bigint_value_def)
  then have "bigint_compare a b = Inr (- 1)" "bigint_compare b a = Inr 1"
    by (simp_all add: bigint_compare_value) (simp_all add: a_def b_def)
  then show ?thesis using \<open>bigint_value a = bigint_value b\<close> by (simp add: divmod_assign_def)
qed

end
