(* ===== verification/Fmt_Bigint_Power.thy ===== *)
theory Fmt_Bigint_Power
  imports Fmt_Bigint_Props
begin

text \<open>
  The square of a big number and the powers of ten that are built from squares, and the comparison
  of a sum with a number, all in terms of the values.
\<close>

section \<open>Digits of a value\<close>

definition digit :: "u32 list \<Rightarrow> nat \<Rightarrow> nat" where
  "digit ds i = (if i < length ds then unat (ds ! i) else 0)"

lemma digit_Cons [simp]: "digit (d # ds) 0 = unat d" "digit (d # ds) (Suc i) = digit ds i"
  by (simp_all add: digit_def)

lemma digit_less: "digit ds i < bigit_base"
  using unat_u32 [of "ds ! i"] by (simp add: digit_def)

lemma digit_le: "digit ds i \<le> bigit_base - 1"
  using digit_less [of ds i] by simp

lemma digits_value_div: "digits_value ds div bigit_base ^ k mod bigit_base = digit ds k"
proof (induction ds arbitrary: k)
  case (Cons d ds)
  show ?case
  proof (cases k)
    case 0
    then show ?thesis using unat_u32 [of d] by simp
  next
    case (Suc j)
    have "digits_value (d # ds) div bigit_base ^ k = digits_value (d # ds) div bigit_base div bigit_base ^ j"
      unfolding Suc power_Suc by (rule div_mult2_eq)
    also have "digits_value (d # ds) div bigit_base = digits_value ds"
      using unat_u32 [of d] by (simp add: div_eq_0_iff)
    finally show ?thesis using Cons Suc by simp
  qed
qed (simp add: digit_def)

lemma bigint_value_digit:
  assumes e: "0 \<le> bi_exp b"
  shows "bigint_value b div bigit_base ^ k mod bigit_base = unat (get_bigit b (int k))"
proof (cases "int k < bi_exp b")
  case True
  then obtain j where j: "nat (bi_exp b) = k + Suc j" by (metis add_Suc_right less_imp_Suc_add zless_nat_eq_int_zless)
  have "bigint_value b = digits_value (bi_bigits b) * bigit_base ^ Suc j * bigit_base ^ k"
    unfolding bigint_value_def j by (simp only: power_add ac_simps)
  then have "bigint_value b div bigit_base ^ k = digits_value (bi_bigits b) * bigit_base ^ j * bigit_base" by simp
  then show ?thesis using True by (simp add: get_bigit_def)
next
  case False
  then obtain j where j: "k = nat (bi_exp b) + j" by (metis le_Suc_ex nat_le_iff not_le)
  have "bigint_value b div bigit_base ^ k = digits_value (bi_bigits b) div bigit_base ^ j"
    unfolding bigint_value_def j power_add div_mult2_eq by simp
  moreover have "unat (get_bigit b (int k)) = digit (bi_bigits b) j"
    using False e j by (auto simp: get_bigit_def digit_def num_bigits_def nat_diff_distrib')
  ultimately show ?thesis by (simp only: digits_value_div)
qed

lemma bigint_value_step:
  assumes "0 \<le> bi_exp b"
  shows "bigint_value b div bigit_base ^ k
    = bigit_base * (bigint_value b div bigit_base ^ Suc k) + unat (get_bigit b (int k))"
proof -
  have "bigint_value b div bigit_base ^ Suc k = bigint_value b div bigit_base ^ k div bigit_base"
    by (simp only: power_Suc2 div_mult2_eq)
  then show ?thesis by (simp only: bigint_value_digit [OF assms, symmetric] mult_div_mod_eq)
qed

lemma bigint_value_top: "0 \<le> bi_exp b \<Longrightarrow> num_bigits b \<le> int k \<Longrightarrow> bigint_value b < bigit_base ^ k"
proof -
  assume e: "0 \<le> bi_exp b" and k: "num_bigits b \<le> int k"
  have "length (bi_bigits b) + nat (bi_exp b) \<le> k" using e k unfolding num_bigits_def by arith
  then have "bigit_base ^ length (bi_bigits b) * bigit_base ^ nat (bi_exp b) \<le> bigit_base ^ k"
    unfolding power_add [symmetric] by (rule power_mono_nat)
  moreover have "bigint_value b < bigit_base ^ length (bi_bigits b) * bigit_base ^ nat (bi_exp b)"
    unfolding bigint_value_def using digits_value_less [of "bi_bigits b"] by (intro mult_strict_right_mono) simp_all
  ultimately show "bigint_value b < bigit_base ^ k" by simp
qed

lemma bigint_value_low: "k \<le> nat (bi_exp b) \<Longrightarrow> bigint_value b div bigit_base ^ k * bigit_base ^ k = bigint_value b"
  unfolding bigint_value_def by (intro dvd_div_mult_self dvd_mult le_imp_power_dvd)

section \<open>Comparison of a sum\<close>

lemma sum_compare_step:
  fixes b1 b2 br :: u32 and borrow :: u64
  assumes "unat borrow = bigit_base * D" and "D \<le> 1"
  defines "acc \<equiv> (ucast b1 :: u64) + ucast b2"
  shows "unat acc = unat b1 + unat b2" and "unat (ucast br + borrow) = unat br + bigit_base * D"
proof -
  show "unat acc = unat b1 + unat b2"
    using unat_u32 [of b1] unat_u32 [of b2] unfolding acc_def by (simp add: unat_word_ariths unat_u64)
  show "unat (ucast br + borrow) = unat br + bigit_base * D"
    using unat_u32 [of br] assms by (simp add: unat_word_ariths unat_u64)
qed

text \<open>
  Before the digit below position \<open>k\<close> the borrow is what the right side has too much above it.
\<close>

lemma add_compare_loop_value:
  assumes e: "0 \<le> bi_exp l1" "0 \<le> bi_exp l2" "0 \<le> bi_exp r"
    and m: "m \<le> nat (bi_exp l1)" "m \<le> nat (bi_exp l2)" "m \<le> nat (bi_exp r)" and k: "m \<le> k"
    and D: "bigint_value r div bigit_base ^ k = bigint_value l1 div bigit_base ^ k + bigint_value l2 div bigit_base ^ k + D"
      "D \<le> 1" "unat borrow = bigit_base * D"
  shows "add_compare_loop l1 l2 r (int k - 1) (int m) borrow
    = sgn (int (bigint_value l1) + int (bigint_value l2) - int (bigint_value r))"
  using k D
proof (induction k arbitrary: D borrow rule: dec_induct)
  case base
  let ?B = "bigit_base ^ m"
  have "bigint_value r = (bigint_value r div ?B) * ?B" by (rule bigint_value_low [OF m(3), symmetric])
  also have "\<dots> = bigint_value l1 + bigint_value l2 + D * ?B"
    unfolding base(1) add_mult_distrib by (simp only: bigint_value_low [OF m(1)] bigint_value_low [OF m(2)])
  finally have "int (bigint_value l1) + int (bigint_value l2) - int (bigint_value r) = - int (D * ?B)" by simp
  moreover have "borrow \<noteq> 0 \<longleftrightarrow> D \<noteq> 0" using base(3) by (metis mult_is_0 power_eq_0_iff unat_eq_zero zero_neq_numeral)
  moreover have "D = 0 \<or> D = 1" using base(2) by linarith
  ultimately show ?case by (subst add_compare_loop.simps) (auto simp: sgn_if)
next
  case (step k)
  let ?v1 = "bigint_value l1" and ?v2 = "bigint_value l2" and ?r = "bigint_value r"
  define P where "P = bigit_base ^ k"
  define b1 b2 br where "b1 = get_bigit l1 (int k)" and "b2 = get_bigit l2 (int k)" and "br = get_bigit r (int k)"
  have digits: "?v1 div P = bigit_base * (?v1 div bigit_base ^ Suc k) + unat b1"
    "?v2 div P = bigit_base * (?v2 div bigit_base ^ Suc k) + unat b2"
    "?r div P = bigit_base * (?r div bigit_base ^ Suc k) + unat br"
    unfolding P_def b1_def b2_def br_def by (intro bigint_value_step e)+
  have mid: "?r div P + unat b1 + unat b2 = ?v1 div P + ?v2 div P + unat br + bigit_base * D"
    unfolding digits step(4) by simp
  have bnd: "?v1 div P * P \<le> ?v1" "?v2 div P * P \<le> ?v2" "?r div P * P \<le> ?r"
    "?v1 < (?v1 div P + 1) * P" "?v2 < (?v2 div P + 1) * P" "?r < (?r div P + 1) * P"
    by (simp_all add: P_def dividend_less_div_times)
  define acc rhs :: u64 where "acc = ucast b1 + ucast b2" and "rhs = ucast br + borrow"
  have u: "unat acc = unat b1 + unat b2" "unat rhs = unat br + bigit_base * D"
    unfolding acc_def rhs_def by (rule sum_compare_step [OF step(6,5)])+
  have eval: "add_compare_loop l1 l2 r (int (Suc k) - 1) (int m) borrow =
    (if acc > rhs then 1 else if rhs - acc > 1 then - 1
     else add_compare_loop l1 l2 r (int k - 1) (int m) (push_bit 32 (rhs - acc)))"
    using step(1) by (subst add_compare_loop.simps) (simp add: Let_def acc_def rhs_def b1_def b2_def br_def)
  consider "?r div P + 1 \<le> ?v1 div P + ?v2 div P" | "?v1 div P + ?v2 div P + 2 \<le> ?r div P"
    | "?v1 div P + ?v2 div P \<le> ?r div P" "?r div P \<le> ?v1 div P + ?v2 div P + 1" by linarith
  then show ?case
  proof cases
    case 1
    then have "(?r div P + 1) * P \<le> (?v1 div P + ?v2 div P) * P" by (rule mult_right_mono) simp
    then have "?r < ?v1 + ?v2" using bnd unfolding add_mult_distrib by linarith
    moreover have "acc > rhs" using 1 mid u by (simp add: word_less_nat_alt)
    ultimately show ?thesis unfolding eval by simp
  next
    case 2
    then have "(?v1 div P + ?v2 div P + 2) * P \<le> ?r div P * P" by (rule mult_right_mono) simp
    then have "?v1 + ?v2 < ?r" using bnd unfolding add_mult_distrib by linarith
    moreover have le: "unat acc + 2 \<le> unat rhs" using 2 mid u by simp
    then have "\<not> acc > rhs" by (simp add: word_less_nat_alt)
    moreover have "unat (rhs - acc) = unat rhs - unat acc" using le by (simp add: unat_sub word_le_nat_alt)
    then have "rhs - acc > 1" using le by (simp add: word_less_nat_alt)
    ultimately show ?thesis unfolding eval by simp
  next
    case le: 3
    define D' where "D' = ?r div P - (?v1 div P + ?v2 div P)"
    have 3: "?r div P = ?v1 div P + ?v2 div P + D'" "D' \<le> 1" using le unfolding D'_def by simp_all
    have eq: "unat rhs = unat acc + D'" using 3 mid u by simp
    then have "\<not> acc > rhs" by (simp add: word_less_nat_alt)
    moreover have diff: "unat (rhs - acc) = D'" using eq by (simp add: unat_sub word_le_nat_alt)
    then have "\<not> rhs - acc > 1" using 3(2) by (simp add: word_less_nat_alt)
    moreover have "unat (push_bit 32 (rhs - acc)) = bigit_base * D'"
      using 3(2) by (auto simp: unat_shl diff le_Suc_eq)
    then have "add_compare_loop l1 l2 r (int k - 1) (int m) (push_bit 32 (rhs - acc)) = sgn (int ?v1 + int ?v2 - int ?r)"
      using step(3) 3 unfolding P_def by blast
    ultimately show ?thesis unfolding eval by simp
  qed
qed

lemma add_compare_value:
  assumes r: "normal r" and l1: "normal l1 \<or> trimmed l1 \<and> num_bigits l1 \<le> num_bigits r"
    and l2: "normal l2 \<or> trimmed l2 \<and> num_bigits l2 \<le> num_bigits r"
  shows "add_compare l1 l2 r = sgn (int (bigint_value l1) + int (bigint_value l2) - int (bigint_value r))"
proof -
  let ?max = "max (num_bigits l1) (num_bigits l2)" and ?n = "num_bigits r"
  have e: "0 \<le> bi_exp l1" "0 \<le> bi_exp l2" "0 \<le> bi_exp r"
    using r l1 l2 by (auto simp: normal_def trimmed_def)
  consider "?max + 1 < ?n" | "?max > ?n" | "?max \<le> ?n" "\<not> ?max + 1 < ?n" by linarith
  then show ?thesis
  proof cases
    case 1
    define k where "k = nat ?max"
    have "0 \<le> ?max" using e(1) by (simp add: num_bigits_def le_max_iff_disj)
    then have k: "num_bigits l1 \<le> int k" "num_bigits l2 \<le> int k" "Suc k \<le> nat (?n - 1)" using 1 unfolding k_def by auto
    have "bigint_value l1 < bigit_base ^ k" "bigint_value l2 < bigit_base ^ k"
      by (rule bigint_value_top [OF e(1) k(1)], rule bigint_value_top [OF e(2) k(2)])
    moreover have "bigit_base ^ Suc k \<le> bigint_value r"
      using power_mono_nat [OF k(3)] normal_bounds(1) [OF r] by simp
    moreover have "2 * bigit_base ^ k \<le> bigit_base ^ Suc k" by simp
    ultimately have "bigint_value l1 + bigint_value l2 < bigint_value r" by linarith
    then show ?thesis using 1 by (simp add: add_compare_def Let_def)
  next
    case 2
    have big: "bigint_value r < bigint_value l" if "?n < num_bigits l" "normal l \<or> trimmed l \<and> num_bigits l \<le> ?n" for l
      using compare_more_digits(1) [of r l] that r by auto
    have "bigint_value r < bigint_value l1 + bigint_value l2"
      using 2 big [OF _ l1] big [OF _ l2] by (auto simp: max_def split: if_splits)
    then show ?thesis using 2 by (simp add: add_compare_def Let_def)
  next
    case 3
    define m k where "m = nat (min (min (bi_exp l1) (bi_exp l2)) (bi_exp r))" and "k = nat ?n"
    have k: "int k = ?n" "m \<le> k"
      using normal_bounds(3) [OF r] e unfolding m_def k_def by (auto simp: num_bigits_def min_def nat_le_iff)
    have m: "int m = min (min (bi_exp l1) (bi_exp l2)) (bi_exp r)" "m \<le> nat (bi_exp l1)" "m \<le> nat (bi_exp l2)" "m \<le> nat (bi_exp r)"
      using e unfolding m_def by auto
    have "bigint_value l1 div bigit_base ^ k = 0" "bigint_value l2 div bigit_base ^ k = 0" "bigint_value r div bigit_base ^ k = 0"
      using 3(1) k(1) bigint_value_top [OF e(1), of k] bigint_value_top [OF e(2), of k] bigint_value_top [OF e(3), of k]
      by simp_all
    then show ?thesis
      using add_compare_loop_value [OF e m(2,3,4) k(2), of 0 0] 3 k(1) m(1)
      by (simp add: add_compare_def Let_def not_less [symmetric] del: max_less_iff_conj max.bounded_iff)
  qed
qed

section \<open>The square\<close>

text \<open>The product of two numbers digit by digit: the sums of the products that belong to a position.\<close>

definition cross :: "u32 list \<Rightarrow> u32 list \<Rightarrow> nat \<Rightarrow> nat" where
  "cross xs ys m = (\<Sum>i\<le>m. digit xs i * digit ys (m - i))"

lemma cross_Nil: "cross [] ys m = 0"
  by (simp add: cross_def digit_def)

lemma cross_Cons: "cross (x # xs) ys m = unat x * digit ys m + (case m of 0 \<Rightarrow> 0 | Suc k \<Rightarrow> cross xs ys k)"
proof (cases m)
  case (Suc k)
  then show ?thesis unfolding cross_def by (simp only: sum.atMost_Suc_shift digit_Cons diff_Suc_Suc diff_zero nat.case)
qed (simp add: cross_def)

lemma digits_value_sum: "length ds \<le> n \<Longrightarrow> (\<Sum>m<n. digit ds m * bigit_base ^ m) = digits_value ds"
proof (induction ds arbitrary: n)
  case (Cons d ds)
  then obtain k where n: "n = Suc k" "length ds \<le> k" by (cases n) auto
  have "(\<Sum>m<n. digit (d # ds) m * bigit_base ^ m) = unat d + (\<Sum>m<k. bigit_base * (digit ds m * bigit_base ^ m))"
    unfolding n(1) sum.lessThan_Suc_shift by (simp add: ac_simps)
  also have "\<dots> = unat d + bigit_base * digits_value ds"
    unfolding sum_distrib_left [symmetric] Cons(1) [OF n(2)] ..
  finally show ?case by simp
qed (simp add: digit_def)

lemma cross_value: "(\<Sum>m<length xs + length ys. cross xs ys m * bigit_base ^ m) = digits_value xs * digits_value ys"
proof (induction xs)
  case (Cons x xs)
  let ?n = "length xs + length ys"
  have "(\<Sum>m<Suc ?n. cross (x # xs) ys m * bigit_base ^ m)
      = (\<Sum>m<Suc ?n. unat x * (digit ys m * bigit_base ^ m)) + (\<Sum>m<Suc ?n. (case m of 0 \<Rightarrow> 0 | Suc k \<Rightarrow> cross xs ys k) * bigit_base ^ m)"
    unfolding cross_Cons by (simp only: add_mult_distrib sum.distrib mult.assoc)
  also have "(\<Sum>m<Suc ?n. unat x * (digit ys m * bigit_base ^ m)) = unat x * digits_value ys"
    unfolding sum_distrib_left [symmetric] by (simp only: digits_value_sum [of ys "Suc ?n"] le_SucI le_add2)
  also have "(\<Sum>m<Suc ?n. (case m of 0 \<Rightarrow> 0 | Suc k \<Rightarrow> cross xs ys k) * bigit_base ^ m)
      = (\<Sum>k<?n. bigit_base * (cross xs ys k * bigit_base ^ k))"
    unfolding sum.lessThan_Suc_shift by (simp add: ac_simps)
  also have "\<dots> = bigit_base * (digits_value xs * digits_value ys)"
    unfolding sum_distrib_left [symmetric] Cons(1) ..
  finally show ?case by (simp add: add_mult_distrib mult.assoc)
qed (simp add: cross_Nil)

lemma cross_less: "cross ds ds m \<le> length ds * (bigit_base - 1) ^ 2"
proof -
  have "cross ds ds m = (\<Sum>i\<in>{..m} \<inter> {..<length ds}. digit ds i * digit ds (m - i))"
    unfolding cross_def by (rule sum.mono_neutral_right) (auto simp: digit_def)
  also have "\<dots> \<le> (\<Sum>i\<in>{..m} \<inter> {..<length ds}. (bigit_base - 1) ^ 2)"
    unfolding power2_eq_square by (intro sum_mono mult_mono digit_le) simp_all
  also have "\<dots> = card ({..m} \<inter> {..<length ds}) * (bigit_base - 1) ^ 2" by simp
  also have "\<dots> \<le> length ds * (bigit_base - 1) ^ 2"
    using card_mono [of "{..<length ds}" "{..m} \<inter> {..<length ds}"] by (intro mult_right_mono) simp_all
  finally show ?thesis .
qed

lemma cross_term_value:
  "i < length n \<Longrightarrow> j < length n \<Longrightarrow> cross_term n i j = Inr (of_nat (digit n i * digit n j))"
proof -
  assume "i < length n" "j < length n"
  moreover define x y where "x = n ! i" and "y = n ! j"
  moreover have "unat ((ucast x :: u64) * ucast y) = unat x * unat y"
  proof -
    have "unat x * unat y \<le> (2 ^ 32 - 1) * (2 ^ 32 - 1)"
      using unat_u32 [of x] unat_u32 [of y] by (intro mult_le_mono) simp_all
    then show ?thesis by (simp add: unat_word_ariths unat_u64)
  qed
  then have "(ucast ((ucast x :: u64) * ucast y) :: 128 word) = of_nat (unat x * unat y)"
    by (metis of_nat_unat)
  ultimately show ?thesis by (simp add: cross_term_def at_index_ok digit_def del: of_nat_mult)
qed

lemma cross_down_value:
  "i + j < length n \<Longrightarrow> cross_down n i j acc = Inr (acc + of_nat (\<Sum>t\<le>j. digit n (i + t) * digit n (j - t)))"
proof (induction j arbitrary: i acc)
  case 0
  then have "0 < length n" "i < length n" by linarith+
  then show ?case by (simp only: cross_down.simps cross_term_value andthen_simps) simp
next
  case (Suc j)
  have "(\<Sum>t\<le>Suc j. digit n (i + t) * digit n (Suc j - t))
      = digit n i * digit n (Suc j) + (\<Sum>t\<le>j. digit n (Suc i + t) * digit n (j - t))"
    unfolding sum.atMost_Suc_shift by simp
  then show ?case using Suc by (simp add: cross_term_value add.assoc)
qed

lemma cross_up_value:
  "i \<le> length n \<Longrightarrow> length n \<le> s \<Longrightarrow> s < length n + i \<Longrightarrow>
    cross_up n i (int s - int i) acc = Inr (acc + of_nat (\<Sum>t=i..<length n. digit n t * digit n (s - t)))"
proof (induction "length n - i" arbitrary: i acc)
  case 0
  then show ?case by (subst cross_up.simps) simp
next
  case (Suc k)
  then have i: "i < length n" by simp
  then have j: "nat (int s - int i) = s - i" "s - i < length n" "\<not> int s - int i < 0" using Suc by arith+
  have "(\<Sum>t=i..<length n. digit n t * digit n (s - t))
      = digit n i * digit n (s - i) + (\<Sum>t=Suc i..<length n. digit n t * digit n (s - t))"
    by (rule sum.atLeast_Suc_lessThan [OF i])
  moreover have "int s - int (Suc i) = int s - int i - 1" by simp
  then have "cross_up n (i + 1) (int s - int i - 1) (acc + of_nat (digit n i * digit n (s - i)))
      = Inr (acc + of_nat (digit n i * digit n (s - i)) + of_nat (\<Sum>t=Suc i..<length n. digit n t * digit n (s - t)))"
    using Suc(1) [of "Suc i" "acc + of_nat (digit n i * digit n (s - i))"] Suc(2,4,5) i by (simp only: Suc_eq_plus1)
  ultimately show ?case using i j
    by (subst cross_up.simps) (simp add: cross_term_value add.assoc)
qed

text \<open>One digit of the square: the sum the code computes before it keeps the lower 32 bits.\<close>

lemma square_digit:
  assumes "index < 2 * length n"
  shows "(if index < length n then cross_down n 0 index acc
      else cross_up n (index - (length n - 1)) (int (length n) - 1) acc) = Inr (acc + of_nat (cross n n index))"
proof (cases "index < length n")
  case True
  then show ?thesis using cross_down_value [of 0 index n acc] by (simp add: cross_def)
next
  case False
  define i where "i = index - (length n - 1)"
  have i: "i \<le> length n" "length n \<le> index" "index < length n + i" "int (length n) - 1 = int index - int i"
    using False assms unfolding i_def by linarith+
  have "cross n n index = (\<Sum>t=i..<length n. digit n t * digit n (index - t))"
    unfolding cross_def using i False by (intro sum.mono_neutral_right) (auto simp: digit_def)
  then show ?thesis using False by (simp only: if_False i(4) i_def [symmetric] cross_up_value [OF i(1,2,3)])
qed

lemma square_loop_value:
  assumes n: "length n < 2 ^ 60"
  shows "index + k \<le> 2 * length n \<Longrightarrow> unat acc \<le> length n * bigit_base \<Longrightarrow>
    \<exists>ds c. square_loop n index k acc = Inr ds \<and> length ds = k
      \<and> digits_value ds + bigit_base ^ k * c = unat acc + (\<Sum>t<k. cross n n (index + t) * bigit_base ^ t)"
proof (induction k arbitrary: index acc)
  case (Suc k)
  let ?c = "cross n n index" and ?B = "bigit_base"
  define r :: "128 word" where "r = acc + of_nat ?c"
  have c: "?c \<le> length n * (?B - 1) ^ 2" by (rule cross_less)
  have le: "unat acc + ?c \<le> length n * ?B * ?B"
  proof -
    have "length n * ?B + length n * (?B - 1) ^ 2 = length n * (?B + (?B - 1) ^ 2)" by (rule distrib_left [symmetric])
    also have "\<dots> \<le> length n * (?B * ?B)" by (intro mult_left_mono) simp_all
    finally show ?thesis using c Suc(3) by (simp only: mult.assoc)
  qed
  also have "\<dots> < 2 ^ 60 * ?B * ?B" using n by (intro mult_strict_right_mono) simp_all
  finally have small: "unat acc + ?c < 2 ^ 128" by simp
  have r: "unat r = unat acc + ?c" unfolding r_def using small by (simp add: unat_word_ariths unat_of_nat)
  have "unat (drop_bit 32 r) \<le> length n * ?B"
    unfolding unat_shr r using div_le_mono [OF le, of ?B] by simp
  then obtain ds c where 1: "square_loop n (index + 1) k (drop_bit 32 r) = Inr ds" "length ds = k"
    "digits_value ds + ?B ^ k * c = unat r div ?B + (\<Sum>t<k. cross n n (index + 1 + t) * ?B ^ t)"
    using Suc(1) [of "index + 1" "drop_bit 32 r"] Suc(2) by (auto simp only: unat_shr) auto
  have lo: "unat (ucast r :: u32) = unat r mod ?B" by (simp add: unsigned_ucast_eq take_bit_eq_mod)
  have "(\<Sum>t<Suc k. cross n n (index + t) * ?B ^ t) = ?c + ?B * (\<Sum>t<k. cross n n (index + 1 + t) * ?B ^ t)"
    unfolding sum.lessThan_Suc_shift sum_distrib_left by (simp add: ac_simps)
  moreover have "?B * (digits_value ds + ?B ^ k * c) + unat r mod ?B
      = unat r + ?B * (\<Sum>t<k. cross n n (index + 1 + t) * ?B ^ t)"
    unfolding 1(3) distrib_left using mult_div_mod_eq [of ?B "unat r"] by linarith
  ultimately have "digits_value (ucast r # ds) + ?B ^ Suc k * c = unat acc + (\<Sum>t<Suc k. cross n n (index + t) * ?B ^ t)"
    by (simp only: digits_value.simps lo r power_Suc distrib_left mult.assoc)
  moreover have "square_loop n index (Suc k) acc = Inr (ucast r # ds)"
    using square_digit [of index n acc] Suc(2) 1(1) by (simp add: r_def)
  ultimately show ?case using 1(2) by (metis length_Cons)
qed simp

lemma bigint_square_value:
  assumes b: "normal b" and len: "length (bi_bigits b) < 2 ^ 60"
  shows "\<exists>r. bigint_square b = Inr r \<and> normal r \<and> bigint_value r = (bigint_value b) ^ 2 \<and> bi_exp r = bi_exp b * 2"
proof -
  let ?n = "bi_bigits b"
  obtain ds c where 1: "square_loop ?n 0 (2 * length ?n) 0 = Inr ds" "length ds = 2 * length ?n"
    "digits_value ds + bigit_base ^ (2 * length ?n) * c = (\<Sum>t<2 * length ?n. cross ?n ?n t * bigit_base ^ t)"
    using square_loop_value [OF len, of 0 "2 * length ?n" 0] by auto
  have sq: "(\<Sum>t<2 * length ?n. cross ?n ?n t * bigit_base ^ t) = digits_value ?n * digits_value ?n"
    using cross_value [of ?n ?n] by (simp only: mult_2)
  have "digits_value ?n * digits_value ?n < bigit_base ^ length ?n * bigit_base ^ length ?n"
    using digits_value_less [of ?n] by (intro mult_strict_mono) simp_all
  then have "bigit_base ^ (2 * length ?n) * c < bigit_base ^ (2 * length ?n) * 1"
    using 1(3) [unfolded sq] unfolding mult_2 power_add mult_1_right by linarith
  then have "c = 0" by (simp only: nat_mult_less_cancel_disj) simp
  then have ds: "digits_value ds = digits_value ?n * digits_value ?n" using 1(3) sq by simp
  define r where "r = (remove_leading_zeros (b\<lparr>bi_bigits := ds\<rparr>))\<lparr>bi_exp := bi_exp b * 2\<rparr>"
  have run: "bigint_square b = Inr r" using 1(1) by (simp add: bigint_square_def r_def)
  have bits: "r = remove_leading_zeros (b\<lparr>bi_bigits := ds, bi_exp := bi_exp b * 2\<rparr>)"
    by (simp add: r_def remove_leading_zeros_def Let_def)
  have e: "0 \<le> bi_exp b" "?n \<noteq> []" using b by (simp_all add: normal_def)
  have v: "bigint_value (b\<lparr>bi_bigits := ds, bi_exp := bi_exp b * 2\<rparr>) = (bigint_value b) ^ 2"
    using e by (simp add: bigint_value_def ds power2_eq_square nat_mult_distrib power_mult mult.commute mult.left_commute power_mult_distrib)
  have "ds \<noteq> []" using 1(2) e by auto
  then have "normal r" unfolding bits using e v normal_pos [OF b] by (intro remove_leading_zeros_normal) simp_all
  then show ?thesis using run v by (simp add: bits)
qed

section \<open>Powers of ten\<close>

lemma top_bit_value: "0 < n \<Longrightarrow> n div 2 ^ top_bit n = 1"
proof (induction n rule: top_bit.induct)
  case (1 n)
  show ?case
  proof (cases "n < 2")
    case True
    then show ?thesis using 1(2) by (simp add: top_bit.simps [of n])
  next
    case False
    then have "n div 2 div 2 ^ top_bit (n div 2) = 1" using 1(1) by simp
    then show ?thesis using False by (simp add: top_bit.simps [of n] div_mult2_eq)
  qed
qed

text \<open>A power of five has no more digits than its exponent.\<close>

lemma pow5_length:
  assumes "normal b" and "bi_exp b = 0" and "bigint_value b = 5 ^ x"
  shows "length (bi_bigits b) \<le> Suc x"
proof -
  have "bigit_base ^ (length (bi_bigits b) - 1) \<le> 5 ^ x"
    using normal_bounds(1) [OF assms(1)] assms(2,3) by (simp add: num_bigits_def nat_diff_distrib')
  also have "\<dots> \<le> bigit_base ^ x" by (intro power_mono) simp_all
  finally have "length (bi_bigits b) - 1 \<le> x" by (rule power_le_imp_le_exp [rotated]) simp
  then show ?thesis by simp
qed

lemma pow5_loop_value:
  assumes "e < 2 ^ 31"
  shows "normal b \<Longrightarrow> bi_exp b = 0 \<Longrightarrow> bigint_value b = 5 ^ (e div 2 ^ k) \<Longrightarrow>
    \<exists>r. pow5_loop e k b = Inr r \<and> normal r \<and> bi_exp r = 0 \<and> bigint_value r = 5 ^ e"
proof (induction k arbitrary: b)
  case (Suc k)
  let ?x = "e div 2 ^ Suc k"
  have "?x \<le> e" by (rule div_le_dividend)
  then have "Suc ?x \<le> 2 ^ 31" using assms by linarith
  then have "length (bi_bigits b) < 2 ^ 60" using pow5_length [OF Suc(2,3,4)] by simp
  then obtain s where s: "bigint_square b = Inr s" "normal s" "bigint_value s = 5 ^ (2 * ?x)" "bi_exp s = 0"
    using bigint_square_value [OF Suc(2)] Suc(3,4) by (auto simp: power_mult power2_eq_square power_mult_distrib [symmetric] mult.commute)
  have bit: "(e AND 2 ^ k \<noteq> 0) = odd (e div 2 ^ k)"
    by (simp add: and_exp_eq_0_iff_not_bit bit_iff_odd)
  have half: "e div 2 ^ k div 2 = ?x" by (simp only: power_Suc2 div_mult2_eq)
  show ?case
  proof (cases "odd (e div 2 ^ k)")
    case True
    then have x: "e div 2 ^ k = Suc (2 * ?x)" unfolding half [symmetric] by simp
    have "bigint_mult32 s 5 = Inr (multiply_u32 5 s)" by (simp add: bigint_mult32_def)
    moreover have "normal (multiply_u32 5 s)" "bi_exp (multiply_u32 5 s) = 0" "bigint_value (multiply_u32 5 s) = 5 ^ (e div 2 ^ k)"
      using multiply_u32_value(1,3) [where v = 5 and b = s] multiply_u32_value(2) [of s 5] s by (simp_all add: x)
    ultimately show ?thesis using Suc(1) [of "multiply_u32 5 s"] s bit True by simp
  next
    case False
    then have "e div 2 ^ k = 2 * ?x" unfolding half [symmetric] by simp
    then show ?thesis using Suc(1) [of s] s bit False by simp
  qed
qed simp

lemma assign_pow10_value:
  assumes "0 \<le> e" and "e < 2 ^ 31"
  shows "\<exists>r. assign_pow10 e = Inr r \<and> normal r \<and> bigint_value r = 10 ^ nat e \<and> bi_exp r = e div 32"
proof (cases "e = 0")
  case True
  then show ?thesis using assign_uint_normal [of "1 :: u64"]
    by (simp add: assign_pow10_def assign_int_def) (simp add: assign_uint_def)
next
  case False
  let ?b = "assign_uint (5 :: u64)" and ?n = "nat e"
  have "normal ?b" "bi_exp ?b = 0" by (simp_all add: assign_uint_normal) (simp add: assign_uint_def)
  moreover have "bigint_value ?b = 5 ^ (?n div 2 ^ top_bit ?n)" using False assms(1) by (simp add: top_bit_value)
  moreover have "?n < 2 ^ 31" using assms by simp
  ultimately obtain p where p: "pow5_loop ?n (top_bit ?n) ?b = Inr p" "normal p" "bi_exp p = 0" "bigint_value p = 5 ^ ?n"
    using pow5_loop_value [of ?n ?b "top_bit ?n"] by auto
  obtain r where "bigint_shl p e = Inr r" "bigint_value r = bigint_value p * 2 ^ ?n" "bi_exp r = e div 32" "normal r"
    using bigint_shl_value [OF assms(1), of p] p(2,3) by auto
  then show ?thesis using False assms(1) p
    by (simp add: assign_pow10_def assign_int_def power_mult_distrib [symmetric])
qed

end
