(* ===== verification/Fmt_Dragon_Props.thy ===== *)
theory Fmt_Dragon_Props
  imports Fmt_Dragon Fmt_Bigint_Division Fmt_Bigint_Power
begin

text \<open>
  The digits of \<open>format_dragon\<close> are right: a given number of digits is the number rounded half to
  even, and the shortest digits are within the borders of the number, so that they read back as it.
\<close>

section \<open>Fractions of big numbers\<close>

text \<open>
  What every round keeps of numerator and denominator. A numerator may have the greater exponent
  only if it never becomes equal to the denominator.
\<close>

definition fraction :: "bigint \<Rightarrow> bigint \<Rightarrow> bool" where
  "fraction b d \<longleftrightarrow> normal d \<and> trimmed b \<and> bigint_value b < 10 * bigint_value d
    \<and> (bi_exp b \<le> bi_exp d \<or> normal b \<and> (\<forall>k. bigint_value b * 10 ^ k \<noteq> bigint_value d))"

lemma trimmed_normal: "trimmed b \<Longrightarrow> 0 < bigint_value b \<Longrightarrow> normal b"
  by (auto simp: trimmed_def bigint_value_def)

lemma fraction_divmod:
  assumes "fraction b d"
  shows "\<exists>r. divmod_assign b d = Some (Inr (int (bigint_value b div bigint_value d), r))
    \<and> fraction r d \<and> bigint_value r = bigint_value b mod bigint_value d \<and> bi_exp r \<le> bi_exp b
    \<and> (bi_exp b \<le> bi_exp d \<or> bigint_value d \<le> bigint_value b \<longrightarrow> bi_exp r \<le> bi_exp d)"
proof -
  have d: "normal d" "trimmed b" and less: "bigint_value b < 10 * bigint_value d"
    and c: "bi_exp b \<le> bi_exp d \<or> normal b \<and> (\<forall>k. bigint_value b * 10 ^ k \<noteq> bigint_value d)"
    using assms by (auto simp: fraction_def)
  have b: "normal b \<or> trimmed b \<and> bi_exp b \<le> bi_exp d" using c d by auto
  have pos: "0 < bigint_value d" by (rule normal_pos [OF d(1)])
  have n: "num_bigits b \<le> num_bigits d + 1"
    using less pos by (intro num_bits_less [OF d(1) b]) simp
  have "bigint_value b * 10 ^ 0 \<noteq> bigint_value d \<or> bi_exp b \<le> bi_exp d" using c by blast
  then have ne: "bigint_value b \<noteq> bigint_value d \<or> bi_exp b \<le> bi_exp d" by simp
  obtain r where r: "divmod_assign b d = Some (Inr (int (bigint_value b div bigint_value d), r))" "trimmed r"
    "bigint_value r = bigint_value b mod bigint_value d"
    "bi_exp r = (if bigint_value d \<le> bigint_value b then min (bi_exp b) (bi_exp d) else bi_exp b)"
    using divmod_assign_value [OF b d(1) n ne] less by (auto simp: less_mult_imp_div_less less_trans split: if_splits)
  have "bigint_value r < bigint_value d" using r(3) pos by simp
  then have "fraction r d"
  proof (cases "bigint_value d \<le> bigint_value b")
    case True
    then show ?thesis using r d \<open>bigint_value r < bigint_value d\<close> by (simp add: fraction_def)
  next
    case False
    then have "bigint_value r = bigint_value b" using r(3) by simp
    moreover have "normal r" if "normal b" using trimmed_normal [OF r(2)] normal_pos [OF that] calculation by simp
    ultimately show ?thesis using r d c False \<open>bigint_value r < bigint_value d\<close> by (auto simp: fraction_def)
  qed
  then show ?thesis using r by auto
qed

lemma mult10_value:
  assumes "trimmed b"
  shows "\<exists>r. bigint_mult32 b 10 = Inr r \<and> bigint_value r = 10 * bigint_value b \<and> bi_exp r = bi_exp b
    \<and> trimmed r \<and> (normal b \<longrightarrow> normal r)"
proof -
  have "bigint_mult32 b 10 = Inr (multiply_u32 10 b)" by (simp add: bigint_mult32_def)
  moreover have "bigint_value (multiply_u32 10 b) = 10 * bigint_value b" "bi_exp (multiply_u32 10 b) = bi_exp b"
    using multiply_u32_value(1,3) [where v = 10 and b = b] by simp_all
  moreover have n: "normal b \<longrightarrow> normal (multiply_u32 10 b)" using multiply_u32_value(2) [of b 10] by simp
  moreover have "trimmed (multiply_u32 10 b)"
  proof (cases "normal b")
    case False
    then have "bi_bigits b = [0]" "0 \<le> bi_exp b" using assms by (auto simp: trimmed_def)
    then show ?thesis by (simp add: trimmed_def multiply_u32_def)
  qed (use n in \<open>simp add: trimmed_def\<close>)
  ultimately show ?thesis by auto
qed

lemma fraction_mult10:
  assumes "fraction b d" and "bigint_value b < bigint_value d"
  shows "\<exists>r. bigint_mult32 b 10 = Inr r \<and> bigint_value r = 10 * bigint_value b \<and> bi_exp r = bi_exp b \<and> fraction r d"
proof -
  have "trimmed b" using assms(1) by (simp add: fraction_def)
  then obtain r where r: "bigint_mult32 b 10 = Inr r" "bigint_value r = 10 * bigint_value b" "bi_exp r = bi_exp b"
    "trimmed r" "normal b \<longrightarrow> normal r"
    using mult10_value by blast
  have "bigint_value r * 10 ^ k \<noteq> bigint_value d" if "\<forall>k. bigint_value b * 10 ^ k \<noteq> bigint_value d" for k
    using that [THEN spec, of "Suc k"] r(2) by (simp add: ac_simps)
  then have "fraction r d" using assms r by (auto simp: fraction_def)
  then show ?thesis using r by auto
qed

lemma normal_length: "normal d \<Longrightarrow> bi_exp d + 1 \<le> num_bigits d"
proof -
  assume "normal d"
  then have "1 \<le> length (bi_bigits d)" by (simp add: normal_def Suc_le_eq)
  then have "1 \<le> int (length (bi_bigits d))" by linarith
  then show ?thesis by (simp add: num_bigits_def)
qed

lemma fraction_compare:
  assumes "fraction r d"
  shows "add_compare r r d = sgn (2 * int (bigint_value r) - int (bigint_value d))"
proof -
  have "num_bigits r \<le> num_bigits d" if "\<not> normal r"
    using assms that normal_length [of d] by (auto simp: fraction_def trimmed_def num_bigits_def)
  then have "normal r \<or> trimmed r \<and> num_bigits r \<le> num_bigits d" using assms by (auto simp: fraction_def)
  moreover have "normal d" using assms by (simp add: fraction_def)
  ultimately have "add_compare r r d = sgn (int (bigint_value r) + int (bigint_value r) - int (bigint_value d))"
    by (intro add_compare_value)
  then show ?thesis by simp
qed

section \<open>Decimal digits\<close>

definition decimal :: "string \<Rightarrow> nat" where
  "decimal ds = fst (read_digits 0 ds)"

lemma decimal_Nil [simp]: "decimal [] = 0"
  by (simp add: decimal_def)

lemma decimal_snoc [simp]: "all_digits ds \<Longrightarrow> n < 10 \<Longrightarrow> decimal (ds @ [digit_char n]) = 10 * decimal ds + n"
  by (simp add: decimal_def read_digits_append)

lemma read_digits_acc: "all_digits ds \<Longrightarrow> fst (read_digits acc ds) = acc * 10 ^ length ds + decimal ds"
proof (induction ds arbitrary: acc rule: rev_induct)
  case (snoc c ds)
  then obtain n where n: "char_digit c = Some n" and ds: "all_digits ds" by (auto simp: all_digits_def)
  have "decimal (ds @ [c]) = 10 * decimal ds + n" using n ds by (simp add: decimal_def read_digits_append)
  then show ?case using snoc(1) [OF ds, of acc] n ds by (simp add: read_digits_append algebra_simps)
qed simp

lemma decimal_append: "all_digits xs \<Longrightarrow> all_digits ys \<Longrightarrow> decimal (xs @ ys) = decimal xs * 10 ^ length ys + decimal ys"
  using read_digits_acc [of ys "decimal xs"] by (simp add: decimal_def read_digits_append)

lemma all_digits_simps [simp]:
  "all_digits []" "all_digits (c # ds) \<longleftrightarrow> char_digit c \<noteq> None \<and> all_digits ds"
  "all_digits (xs @ ys) \<longleftrightarrow> all_digits xs \<and> all_digits ys"
  by (auto simp: all_digits_def)

lemma zero_one_chars: "CHR ''0'' = digit_char 0" "CHR ''1'' = digit_char 1"
  by (simp_all add: digit_char_def char_of_def bit_0)

lemma decimal_snoc_0: "all_digits ds \<Longrightarrow> decimal (ds @ ''0'') = 10 * decimal ds"
  unfolding zero_one_chars using decimal_snoc [of ds 0] by simp

lemma zeros [simp]: "all_digits (replicate n CHR ''0'')" "decimal (replicate n CHR ''0'') = 0"
proof -
  show a: "all_digits (replicate n CHR ''0'')" by (simp add: all_digits_def char_digit_def)
  show "decimal (replicate n CHR ''0'') = 0"
  proof (induction n)
    case (Suc n)
    then show ?case by (simp add: decimal_def char_digit_def)
  qed simp
qed

lemma char_of_int: "char_of (int k) = char_of k"
  by (simp only: char_of_def bit_of_nat_iff_bit even_of_nat bit_0)

lemma digit_code_char: "n < 10 \<Longrightarrow> digit_code (int n) = digit_char n"
  using char_of_int [of "48 + n"] by (simp add: digit_code_def digit_char_def)

section \<open>A given number of digits\<close>

lemma dragon_digits_value:
  "fraction b d \<Longrightarrow> \<exists>ds r. dragon_digits n d b = Some (Inr (ds, r)) \<and> fraction r d \<and> all_digits ds \<and> length ds = n
    \<and> bigint_value b * 10 ^ n = 10 * decimal ds * bigint_value d + bigint_value r"
proof (induction n arbitrary: b)
  case (Suc n)
  let ?D = "bigint_value d"
  obtain r where r: "divmod_assign b d = Some (Inr (int (bigint_value b div ?D), r))" "fraction r d"
    "bigint_value r = bigint_value b mod ?D"
    using fraction_divmod [OF Suc(2)] by blast
  have D: "0 < ?D" "bigint_value b < 10 * ?D" using Suc(2) normal_pos by (auto simp: fraction_def)
  have less: "bigint_value r < ?D" using r(3) D by simp
  obtain b' where b': "bigint_mult32 r 10 = Inr b'" "bigint_value b' = 10 * bigint_value r" "fraction b' d"
    using fraction_mult10 [OF r(2) less] by blast
  obtain ds r' where 1: "dragon_digits n d b' = Some (Inr (ds, r'))" "fraction r' d" "all_digits ds" "length ds = n"
    "bigint_value b' * 10 ^ n = 10 * decimal ds * ?D + bigint_value r'"
    using Suc(1) [OF b'(3)] by blast
  define q where "q = bigint_value b div ?D"
  have q: "q < 10" "bigint_value b = q * ?D + bigint_value r"
    using D by (simp_all add: q_def r(3) less_mult_imp_div_less)
  have "all_digits (digit_code (int q) # ds)" using q 1 by (simp add: digit_code_char)
  moreover have "decimal (digit_code (int q) # ds) = q * 10 ^ n + decimal ds"
    using decimal_append [of "[digit_char q]" ds] decimal_snoc [of "[]" q] q 1(3,4) by (simp add: digit_code_char)
  moreover have "bigint_value b * 10 ^ Suc n = 10 * (q * 10 ^ n) * ?D + bigint_value b' * 10 ^ n"
    by (simp add: q(2) b'(2) algebra_simps)
  ultimately show ?case using r b' 1 by (simp add: algebra_simps flip: q_def)
qed simp

text \<open>The carry: nines become zeros up to a digit that is not 9, or to the first one.\<close>

lemma overflow_char: "overflow_char = char_of (58 :: nat)"
  using char_of_int [of 58] by (simp add: overflow_char_def)

lemma inc_char_of: "k < 256 \<Longrightarrow> inc_char (char_of k) = char_of (Suc k)"
  unfolding inc_char_def char_of_int [symmetric, of k] of_char_of using char_of_int [of "Suc k"]
  by (simp add: add.commute)

lemma inc_char_digit: "n < 10 \<Longrightarrow> inc_char (digit_char n) = (if n = 9 then overflow_char else digit_char (Suc n))"
  by (simp add: digit_char_def overflow_char inc_char_of)

lemma digit_char_overflow: "n < 10 \<Longrightarrow> digit_char n \<noteq> overflow_char"
proof
  assume n: "n < 10" "digit_char n = overflow_char"
  then have "of_char (digit_char n) = (58 :: nat)" unfolding overflow_char of_char_of by simp
  then show False using n(1) by (simp add: digit_char_def)
qed

lemma all_digits_snoc_cases:
  assumes "all_digits (ds @ [c])"
  obtains n where "n < 10" "c = digit_char n" "all_digits ds"
proof -
  have 1: "48 \<le> (of_char c :: nat)" "(of_char c :: nat) \<le> 57" "all_digits ds"
    using assms by (auto simp: char_digit_def Let_def split: if_splits)
  have less: "of_char c - 48 < (10 :: nat)" using 1 by arith
  have "c = char_of (of_char c :: nat)" by simp
  also have "\<dots> = digit_char (of_char c - 48)" using 1 less by (simp add: digit_char_def)
  finally show ?thesis using that [of "of_char c - 48"] 1 less by simp
qed

lemma propagate_carry_value:
  "all_digits ds \<Longrightarrow>
    decimal ds + 1 = 10 ^ length ds
      \<and> propagate_carry (ds @ overflow_char # replicate m CHR ''0'') (length ds)
        = overflow_char # replicate (length ds + m) CHR ''0''
    \<or> (\<exists>ds'. all_digits ds' \<and> length ds' = length ds \<and> ds' \<noteq> [] \<and> decimal ds' = decimal ds + 1
      \<and> propagate_carry (ds @ overflow_char # replicate m CHR ''0'') (length ds) = ds' @ replicate (Suc m) CHR ''0'')"
proof (induction ds arbitrary: m rule: rev_induct)
  case (snoc c ds)
  obtain n where n: "n < 10" "c = digit_char n" "all_digits ds" using all_digits_snoc_cases [OF snoc(2)] .
  let ?z = "replicate (Suc m) CHR ''0''"
  have step: "propagate_carry ((ds @ [c]) @ overflow_char # replicate m CHR ''0'') (length (ds @ [c]))
      = propagate_carry (ds @ inc_char c # ?z) (length ds)"
    by (simp add: inc_at_def nth_append list_update_append)
  show ?case
  proof (cases "n = 9")
    case True
    then have "inc_char c = overflow_char" using n by (simp add: inc_char_digit)
    then have next_step: "propagate_carry ((ds @ [c]) @ overflow_char # replicate m CHR ''0'') (length (ds @ [c]))
        = propagate_carry (ds @ overflow_char # ?z) (length ds)" using step by simp
    from snoc(1) [OF n(3), of "Suc m"] show ?thesis
    proof (elim disjE conjE exE)
      assume "decimal ds + 1 = 10 ^ length ds"
        "propagate_carry (ds @ overflow_char # ?z) (length ds) = overflow_char # replicate (length ds + Suc m) CHR ''0''"
      moreover have "decimal (ds @ [c]) + 1 = 10 * (decimal ds + 1)" using n True by simp
      ultimately show ?thesis unfolding next_step by (intro disjI1) simp
    next
      fix ds'
      assume ds': "all_digits ds'" "length ds' = length ds" "decimal ds' = decimal ds + 1"
        and run: "propagate_carry (ds @ overflow_char # ?z) (length ds) = ds' @ replicate (Suc (Suc m)) CHR ''0''"
      have d: "decimal (ds' @ ''0'') = decimal (ds @ [c]) + 1"
        using decimal_snoc_0 [OF ds'(1)] ds'(3) n True by simp
      have a: "all_digits (ds' @ ''0'')" using ds' by (simp add: char_digit_def)
      have l: "length (ds' @ ''0'') = length (ds @ [c])" "ds' @ ''0'' \<noteq> []" using ds'(2) by simp_all
      have r: "ds' @ replicate (Suc (Suc m)) CHR ''0'' = (ds' @ ''0'') @ replicate (Suc m) CHR ''0''" by simp
      show ?thesis unfolding next_step run r using a l d by blast
    qed
  next
    case False
    then have i: "inc_char c = digit_char (Suc n)" "Suc n < 10" using n by (simp_all add: inc_char_digit)
    have "propagate_carry (ds @ inc_char c # ?z) (length ds) = (ds @ [inc_char c]) @ ?z"
      using digit_char_overflow [OF i(2)] i(1) by (cases "length ds") (simp_all add: nth_append)
    moreover have "decimal (ds @ [digit_char (Suc n)]) = decimal (ds @ [c]) + 1" "all_digits (ds @ [digit_char (Suc n)])"
      using n i(2) by (simp_all del: all_digits_simps add: all_digits_def)
    ultimately show ?thesis unfolding step using i(1)
      by (intro disjI2 exI [of _ "ds @ [digit_char (Suc n)]"]) simp
  qed
qed simp

section \<open>Rounding\<close>

text \<open>A quotient to the nearest integer, ties to the even one.\<close>

definition round_half_even :: "nat \<Rightarrow> nat \<Rightarrow> nat" where
  "round_half_even a b =
     (let k = a div b; r = a mod b in if 2 * r > b \<or> 2 * r = b \<and> odd k then k + 1 else k)"

lemma round_half_even_scale: "0 < k \<Longrightarrow> round_half_even (k * a) (k * b) = round_half_even a b"
proof -
  assume k: "0 < k"
  have "2 * (k * r) > k * b \<longleftrightarrow> 2 * r > b" "2 * (k * r) = k * b \<longleftrightarrow> 2 * r = b" for r
    using k by (simp_all add: mult.left_commute [of 2])
  then show ?thesis using k by (simp add: round_half_even_def Let_def mod_mult_mult1)
qed

lemma round_half_even_cross:
  assumes "0 < b" and "0 < b'" and "a * b' = a' * b"
  shows "round_half_even a b = round_half_even a' b'"
proof -
  have "round_half_even a b = round_half_even (b' * a) (b' * b)" by (rule round_half_even_scale [OF assms(2), symmetric])
  also have "\<dots> = round_half_even (b * a') (b * b')" using assms(3) by (simp add: mult.commute)
  also have "\<dots> = round_half_even a' b'" by (rule round_half_even_scale [OF assms(1)])
  finally show ?thesis .
qed

lemma round_half_even_small: "0 < b \<Longrightarrow> a < b \<Longrightarrow> round_half_even a b = (if b < 2 * a then 1 else 0)"
  by (simp add: round_half_even_def Let_def)

lemma dragon_round_value:
  assumes ds: "all_digits ds" and d: "d < 10"
    and up: "up \<longleftrightarrow> result > 0 \<or> result = 0 \<and> odd d"
  shows "\<exists>buf y. dragon_round is_fixed result (int d) ds x = (buf, y) \<and> all_digits buf \<and> x \<le> y \<and> y \<le> x + 1
    \<and> decimal buf * 10 ^ nat (y - x) = 10 * decimal ds + d + (if up then 1 else 0)"
proof -
  have up': "(result > 0 \<or> result = 0 \<and> int d mod 2 \<noteq> 0) \<longleftrightarrow> up" unfolding up by presburger
  consider "\<not> up" | "up" "d < 9" | "up" "d = 9" using d by linarith
  then show ?thesis
  proof cases
    case 1
    then have run: "dragon_round is_fixed result (int d) ds x = (ds @ [digit_char d], x)"
      unfolding dragon_round_def up' using d by (simp add: digit_code_char)
    show ?thesis unfolding run using 1 ds d by simp
  next
    case 2
    then have c: "digit_code (int d + 1) = digit_char (Suc d)" using digit_code_char [of "Suc d"] by (simp add: add.commute)
    have run: "dragon_round is_fixed result (int d) ds x = (ds @ [digit_code (int d + 1)], x)"
      unfolding dragon_round_def up' using 2 by simp
    show ?thesis unfolding run c using 2 ds by simp
  next
    case 3
    let ?buf = "propagate_carry (ds @ [overflow_char]) (length ds)"
    have run: "dragon_round is_fixed result (int d) ds x =
      (if ?buf ! 0 = overflow_char
       then if is_fixed then (?buf[0 := CHR ''1''] @ ''0'', x) else (?buf[0 := CHR ''1''], x + 1) else (?buf, x))"
      unfolding dragon_round_def up' using 3 by (simp add: Let_def)
    have one: "decimal (CHR ''1'' # replicate k CHR ''0'') = 10 ^ k" "all_digits (CHR ''1'' # replicate k CHR ''0'')" for k
    proof -
      have "decimal (CHR ''1'' # zs) = fst (read_digits 1 zs)" for zs by (simp add: decimal_def char_digit_def)
      then show "decimal (CHR ''1'' # replicate k CHR ''0'') = 10 ^ k"
        using read_digits_acc [of "replicate k CHR ''0''" 1] by simp
      show "all_digits (CHR ''1'' # replicate k CHR ''0'')" by (simp add: char_digit_def)
    qed
    from propagate_carry_value [OF ds, of 0] show ?thesis
    proof (elim disjE conjE exE)
      assume nines: "decimal ds + 1 = 10 ^ length ds"
        and "propagate_carry (ds @ overflow_char # replicate 0 CHR ''0'') (length ds)
          = overflow_char # replicate (length ds + 0) CHR ''0''"
      then have buf: "?buf = overflow_char # replicate (length ds) CHR ''0''" by simp
      have app: "(CHR ''1'' # replicate k CHR ''0'') @ ''0'' = CHR ''1'' # replicate (Suc k) CHR ''0''" for k
        by (simp add: replicate_append_same)
      have "10 * decimal ds + 9 + 1 = 10 * 10 ^ length ds" using nines by linarith
      then have v: "10 * decimal ds + d + (if up then 1 else 0) = 10 * 10 ^ length ds" using 3 by simp
      show ?thesis unfolding run buf v
        using one [of "Suc (length ds)"] one [of "length ds"] app [of "length ds"] by (cases is_fixed) simp_all
    next
      fix ds'
      assume ds': "all_digits ds'" "decimal ds' = decimal ds + 1" "ds' \<noteq> []"
        and "propagate_carry (ds @ overflow_char # replicate 0 CHR ''0'') (length ds) = ds' @ replicate (Suc 0) CHR ''0''"
      then have buf: "?buf = ds' @ ''0''" by simp
      obtain c cs where c: "ds' = c # cs" using ds'(3) by (cases ds') auto
      have "char_digit overflow_char = None" by (simp add: overflow_char char_digit_def)
      then have first: "?buf ! 0 \<noteq> overflow_char" unfolding buf using ds'(1) c by auto
      have "decimal (ds' @ ''0'') = 10 * decimal ds + 10" using decimal_snoc_0 [OF ds'(1)] ds'(2) by simp
      then show ?thesis unfolding run using first buf ds'(1) 3 by (simp add: char_digit_def)
    qed
  qed
qed

text \<open>The digits that are left of a number, at the position \<open>x\<close> of the last one.\<close>

lemma dragon_given_value:
  assumes f: "fraction (dr_num s) (dr_den s)"
  shows "\<exists>buf y. dragon_given is_fixed n exp10 s = Some (Inr (buf, y)) \<and> all_digits buf
    \<and> exp10 - n + 1 \<le> y \<and> y \<le> exp10 - n + 2
    \<and> decimal buf * 10 ^ nat (y - (exp10 - n + 1))
      = round_half_even (bigint_value (dr_num s) * 10 ^ nat (n - 1)) (bigint_value (dr_den s) * 10 ^ nat (1 - n))"
proof -
  define N D where "N = bigint_value (dr_num s)" and "D = bigint_value (dr_den s)"
  have d: "normal (dr_den s)" and less: "N < 10 * D" using f by (simp_all add: fraction_def N_def D_def)
  have D: "0 < D" unfolding D_def by (rule normal_pos [OF d])
  consider "n < 0" | "n = 0" | "0 < n" by linarith
  then show ?thesis
  proof cases
    case 1
    have "10 ^ 2 \<le> (10 :: nat) ^ nat (1 - n)" using 1 by (intro power_increasing) auto
    then have "D * 10 ^ 2 \<le> D * 10 ^ nat (1 - n)" by (rule mult_left_mono) simp
    then have big: "100 * D \<le> D * 10 ^ nat (1 - n)" by (simp add: mult.commute)
    then have b: "0 < D * 10 ^ nat (1 - n)" "N < D * 10 ^ nat (1 - n)" "\<not> D * 10 ^ nat (1 - n) < 2 * N"
      using less D by linarith+
    have "round_half_even (N * 10 ^ nat (n - 1)) (D * 10 ^ nat (1 - n)) = 0"
      using 1 b(3) round_half_even_small [OF b(1,2)] by simp
    then show ?thesis using 1
      by (simp add: dragon_given_def N_def [symmetric] D_def [symmetric]) (simp add: char_digit_def decimal_def)
  next
    case 2
    obtain den where den: "bigint_mult32 (dr_den s) 10 = Inr den" "bigint_value den = 10 * D"
      "bi_exp den = bi_exp (dr_den s)" "normal den"
      using mult10_value [of "dr_den s"] d by (auto simp: trimmed_def D_def)
    have "N \<noteq> 10 * D" using less by simp
    have num_bits_ok: "num_bigits (dr_num s) \<le> num_bigits den" if "\<not> normal (dr_num s)"
      using f that normal_length [OF den(4)] den(3) by (auto simp: fraction_def trimmed_def num_bigits_def)
    have tr: "normal (dr_num s) \<or> trimmed (dr_num s) \<and> num_bigits (dr_num s) \<le> num_bigits den"
      using num_bits_ok f by (auto simp: fraction_def)
    have "add_compare (dr_num s) (dr_num s) den = sgn (2 * int N - 10 * int D)"
      using add_compare_value [OF den(4) tr tr] den(2) by (simp add: N_def)
    then have cmp: "add_compare (dr_num s) (dr_num s) den > 0 \<longleftrightarrow> 10 * D < 2 * N" by (simp add: sgn_if)
    have "round_half_even N (D * 10) = (if D * 10 < 2 * N then 1 else 0)"
      using less D by (intro round_half_even_small) simp_all
    then show ?thesis using 2 den(1) cmp
      by (simp add: dragon_given_def N_def [symmetric] D_def [symmetric] mult.commute)
        (simp add: char_digit_def decimal_def)
  next
    case 3
    define k where "k = nat n - 1"
    obtain ds r where 1: "dragon_digits k (dr_den s) (dr_num s) = Some (Inr (ds, r))" "fraction r (dr_den s)"
      "all_digits ds" "N * 10 ^ k = 10 * decimal ds * D + bigint_value r"
      using dragon_digits_value [OF f, of k] by (auto simp: N_def D_def)
    obtain r' where 2: "divmod_assign r (dr_den s) = Some (Inr (int (bigint_value r div D), r'))"
      "fraction r' (dr_den s)" "bigint_value r' = bigint_value r mod D"
      using fraction_divmod [OF 1(2)] by (auto simp: D_def)
    define d up where "d = bigint_value r div D" and "up \<longleftrightarrow> 2 * bigint_value r' > D \<or> 2 * bigint_value r' = D \<and> odd d"
    have d10: "d < 10" using 1(2) by (simp add: d_def D_def fraction_def less_mult_imp_div_less)
    have cmp: "add_compare r' r' (dr_den s) = sgn (2 * int (bigint_value r') - int D)"
      unfolding D_def by (rule fraction_compare [OF 2(2)])
    have up: "up \<longleftrightarrow> add_compare r' r' (dr_den s) > 0 \<or> add_compare r' r' (dr_den s) = 0 \<and> odd d"
      unfolding cmp up_def by (auto simp: sgn_if)
    obtain buf y where 4: "dragon_round is_fixed (add_compare r' r' (dr_den s)) (int d) ds (exp10 - n + 1) = (buf, y)"
      "all_digits buf" "exp10 - n + 1 \<le> y" "y \<le> exp10 - n + 1 + 1"
      "decimal buf * 10 ^ nat (y - (exp10 - n + 1)) = 10 * decimal ds + d + (if up then 1 else 0)"
      using dragon_round_value [OF 1(3) d10 up] by blast
    have e: "exp10 - (n - 1) = exp10 - n + 1" by simp
    have run: "dragon_given is_fixed n exp10 s = Some (Inr (buf, y))"
      unfolding dragon_given_def e k_def [symmetric] using 3 1(1) 2(1) 4(1) by (simp add: Let_def d_def [symmetric])
    have "N * 10 ^ k = bigint_value r' + (10 * decimal ds + d) * D"
      unfolding 1(4) 2(3) d_def by (simp add: algebra_simps)
    then have "N * 10 ^ k div D = 10 * decimal ds + d" "N * 10 ^ k mod D = bigint_value r'"
      using D 2(3) by simp_all
    then have "round_half_even (N * 10 ^ k) D = 10 * decimal ds + d + (if up then 1 else 0)"
      by (auto simp: round_half_even_def Let_def up_def)
    moreover have "nat (n - 1) = k" "nat (1 - n) = 0" using 3 by (simp_all add: k_def nat_diff_distrib')
    ultimately show ?thesis using run 4 by (simp add: N_def [symmetric] D_def [symmetric])
  qed
qed

section \<open>Start\<close>

text \<open>
  Numerator and denominator represent the number in units of a power of ten; both borders are the
  halves of the distances to the neighbours, in the same units.
\<close>

definition represents :: "nat \<Rightarrow> nat \<Rightarrow> nat \<Rightarrow> int \<Rightarrow> int \<Rightarrow> bool" where
  "represents N D f e x \<longleftrightarrow> N * (2 ^ nat (- e) * 10 ^ nat x) = D * (f * 2 ^ nat e * 10 ^ nat (- x))"

definition dragon_ok :: "dragon \<Rightarrow> nat \<Rightarrow> int \<Rightarrow> bool \<Rightarrow> int \<Rightarrow> bool" where
  "dragon_ok s f e closer x \<longleftrightarrow>
     normal (dr_num s) \<and> normal (dr_den s) \<and> normal (dr_lower s) \<and> normal (dr_upper s)
     \<and> represents (bigint_value (dr_num s)) (bigint_value (dr_den s)) f e x
     \<and> represents (bigint_value (dr_lower s) * 2 ^ (if closer then 2 else 1)) (bigint_value (dr_den s)) 1 e x
     \<and> bigint_value (dr_upper s) = (if closer then 2 else 1) * bigint_value (dr_lower s)
     \<and> (dr_upper_store s = None \<longleftrightarrow> \<not> closer)"

lemma assign_int_value: "v \<noteq> 0 \<Longrightarrow> \<exists>b. assign_int (v :: 'u::len word) = Inr b \<and> bigint_value b = unat v \<and> normal b \<and> bi_exp b = 0"
  by (auto simp: assign_int_def assign_uint_normal) (simp add: assign_uint_def)

lemma shl_normal:
  "normal b \<Longrightarrow> 0 \<le> k \<Longrightarrow> \<exists>r. bigint_shl b k = Inr r \<and> bigint_value r = bigint_value b * 2 ^ nat k
    \<and> bi_exp r = bi_exp b + k div 32 \<and> normal r"
  using bigint_shl_value [of k b] by (auto simp: normal_def)

lemma mult_wide_normal:
  assumes "normal b" and "v \<noteq> 0"
  shows "\<exists>r. bigint_mult_wide b (v :: 128 word) = Inr r \<and> bigint_value r = unat v * bigint_value b
    \<and> bi_exp r = bi_exp b \<and> normal r"
proof -
  have h: "LENGTH(128) = 2 * 64" "32 \<le> (64 :: nat)" by simp_all
  have "bigint_mult_wide b v = Inr (multiply_wide v b)" using assms(2) by (simp add: bigint_mult_wide_def)
  then show ?thesis
    using multiply_wide_value(1) [OF h, where v = v and b = b] multiply_wide_value(2) [OF h assms]
      multiply_wide_value(3) [OF h, where v = v and b = b] by auto
qed

lemma dragon_start_value:
  fixes closer :: bool and k :: int
  assumes f: "f \<noteq> 0" and e: "0 \<le> e \<longrightarrow> 0 \<le> exp10" and x: "\<bar>exp10\<bar> < 2 ^ 31"
  defines "k \<equiv> if closer then 2 else 1"
  shows "\<exists>s. dragon_start f e closer exp10 = Inr s \<and> dragon_ok s (unat f) e closer exp10
    \<and> bi_exp (dr_num s) = (if 0 \<le> e then (e + k) div 32 else if exp10 < 0 then (- exp10) div 32 else 0)
    \<and> bi_exp (dr_den s) = (if 0 \<le> e then exp10 div 32 else if exp10 < 0 then (k - e) div 32 else exp10 div 32 + (k - e) div 32)
    \<and> bi_exp (dr_lower s) = (if 0 \<le> e then e div 32 else if exp10 < 0 then (- exp10) div 32 else 0)"
proof -
  have k: "0 < k" "k < 32" "nat k = (if closer then 2 else 1)" by (simp_all add: k_def)
  obtain fb where fb: "assign_int f = Inr fb" "bigint_value fb = unat f" "normal fb" "bi_exp fb = 0"
    using assign_int_value [OF f] by blast
  obtain one where one: "assign_int (1 :: u64) = Inr one" "bigint_value one = 1" "normal one" "bi_exp one = 0"
    using assign_int_value [of "1 :: u64"] by auto
  obtain two where two: "assign_int (push_bit 1 1 :: u64) = Inr two" "bigint_value two = 2" "normal two"
    using assign_int_value [of "push_bit 1 1 :: u64"] by (auto simp: push_bit_eq_mult)
  show ?thesis
  proof (cases "0 \<le> e")
    case True
    obtain num where num: "bigint_shl fb (e + k) = Inr num" "bigint_value num = unat f * 2 ^ nat (e + k)"
      "bi_exp num = (e + k) div 32" "normal num"
      using shl_normal [OF fb(3), of "e + k"] fb k True by auto
    obtain lower where lower: "bigint_shl one e = Inr lower" "bigint_value lower = 2 ^ nat e" "bi_exp lower = e div 32" "normal lower"
      using shl_normal [OF one(3) True] one by auto
    obtain up where up: "bigint_shl one (e + 1) = Inr up" "bigint_value up = 2 * 2 ^ nat e" "normal up"
      using shl_normal [OF one(3), of "e + 1"] one True by (auto simp: nat_add_distrib)
    obtain p where p: "assign_pow10 exp10 = Inr p" "normal p" "bigint_value p = 10 ^ nat exp10" "bi_exp p = exp10 div 32"
      using assign_pow10_value [of exp10] e x True by auto
    obtain den where den: "bigint_shl p k = Inr den" "bigint_value den = 10 ^ nat exp10 * 2 ^ nat k" "bi_exp den = exp10 div 32" "normal den"
      using shl_normal [OF p(2), of k] p k by auto
    have n: "nat (e + k) = nat e + nat k" using True k by (simp add: nat_add_distrib)
    have run: "dragon_start f e closer exp10 = Inr \<lparr>dr_num = num, dr_den = den, dr_lower = lower,
        dr_upper_store = (if closer then Some up else None)\<rparr>"
      unfolding dragon_start_def k_def [symmetric] Let_def
      using True fb(1) one(1) num(1) lower(1) up(1) p(1) den(1) by (simp add: when_closer_def)
    have "represents (bigint_value num) (bigint_value den) (unat f) e exp10"
      using True e num den by (simp add: represents_def n power_add)
    moreover have "represents (bigint_value lower * 2 ^ nat k) (bigint_value den) 1 e exp10"
      using True e lower den by (simp add: represents_def)
    ultimately show ?thesis unfolding run using True num lower up den
      by (cases closer) (simp_all add: dragon_ok_def dr_upper_def k_def)
  next
    case False
    show ?thesis
    proof (cases "exp10 < 0")
      case True
      obtain p where p: "assign_pow10 (- exp10) = Inr p" "normal p" "bigint_value p = 10 ^ nat (- exp10)" "bi_exp p = (- exp10) div 32"
        using assign_pow10_value [of "- exp10"] x True by auto
      have copy: "assign_bigint p = p" by (simp add: assign_bigint_def)
      obtain up where up: "bigint_shl p 1 = Inr up" "bigint_value up = 2 * 10 ^ nat (- exp10)" "normal up"
        using shl_normal [OF p(2), of 1] p by auto
      obtain m where m: "bigint_mult_wide p f = Inr m" "bigint_value m = unat f * 10 ^ nat (- exp10)" "bi_exp m = (- exp10) div 32" "normal m"
        using mult_wide_normal [OF p(2) f] p by auto
      obtain num where num: "bigint_shl m k = Inr num" "bigint_value num = unat f * 10 ^ nat (- exp10) * 2 ^ nat k"
        "bi_exp num = (- exp10) div 32" "normal num"
        using shl_normal [OF m(4), of k] m k by auto
      obtain den where den: "bigint_shl one (k - e) = Inr den" "bigint_value den = 2 ^ nat (k - e)" "bi_exp den = (k - e) div 32" "normal den"
        using shl_normal [OF one(3), of "k - e"] one k False by auto
      have n: "nat (k - e) = nat k + nat (- e)" using False k by arith
      have run: "dragon_start f e closer exp10 = Inr \<lparr>dr_num = num, dr_den = den, dr_lower = p,
          dr_upper_store = (if closer then Some up else None)\<rparr>"
        unfolding dragon_start_def k_def [symmetric] Let_def
        using False True one(1) num(1) up(1) p(1) m(1) den(1) by (simp add: when_closer_def copy)
      have "represents (bigint_value num) (bigint_value den) (unat f) e exp10"
        using False True num den by (simp add: represents_def n power_add)
      moreover have "represents (bigint_value p * 2 ^ nat k) (bigint_value den) 1 e exp10"
        using False True p den by (simp add: represents_def n power_add)
      ultimately show ?thesis unfolding run using False True p num up den
        by (cases closer) (simp_all add: dragon_ok_def dr_upper_def k_def)
    next
      case F: False
      obtain num where num: "bigint_shl fb k = Inr num" "bigint_value num = unat f * 2 ^ nat k" "bi_exp num = 0" "normal num"
        using shl_normal [OF fb(3), of k] fb k by auto
      obtain p where p: "assign_pow10 exp10 = Inr p" "normal p" "bigint_value p = 10 ^ nat exp10" "bi_exp p = exp10 div 32"
        using assign_pow10_value [of exp10] x F by auto
      obtain den where den: "bigint_shl p (k - e) = Inr den" "bigint_value den = 10 ^ nat exp10 * 2 ^ nat (k - e)"
        "bi_exp den = exp10 div 32 + (k - e) div 32" "normal den"
        using shl_normal [OF p(2), of "k - e"] p k False by auto
      have n: "nat (k - e) = nat k + nat (- e)" using False k by arith
      have run: "dragon_start f e closer exp10 = Inr \<lparr>dr_num = num, dr_den = den, dr_lower = one,
          dr_upper_store = (if closer then Some two else None)\<rparr>"
        unfolding dragon_start_def k_def [symmetric] Let_def
        using False F fb(1) one(1) two(1) num(1) p(1) den(1) by (simp add: when_closer_def)
      have "represents (bigint_value num) (bigint_value den) (unat f) e exp10"
        using False F num den by (simp add: represents_def n power_add)
      moreover have "represents (bigint_value one * 2 ^ nat k) (bigint_value den) 1 e exp10"
        using False F one den by (simp add: represents_def n power_add)
      ultimately show ?thesis unfolding run using False F one two num den
        by (cases closer) (simp_all add: dragon_ok_def dr_upper_def k_def)
    qed
  qed
qed

section \<open>The whole function\<close>

text \<open>The number \<open>f * 2 ^ e\<close> in units of \<open>10 ^ x\<close>, rounded half to even.\<close>

definition decimal_rounding :: "nat \<Rightarrow> int \<Rightarrow> int \<Rightarrow> nat" where
  "decimal_rounding f e x = round_half_even (f * 2 ^ nat e * 10 ^ nat (- x)) (2 ^ nat (- e) * 10 ^ nat x)"

lemma represents_scale:
  assumes r: "represents N D f e x" and D: "0 < D" and k: "k = x - y"
  shows "round_half_even (N * 10 ^ nat k) (D * 10 ^ nat (- k)) = decimal_rounding f e y"
  unfolding decimal_rounding_def
proof (rule round_half_even_cross)
  have "nat k + nat y + nat (- x) = nat (- k) + nat (- y) + nat x" using k by arith
  then have p: "(10 :: nat) ^ nat k * 10 ^ nat y * 10 ^ nat (- x) = 10 ^ nat (- k) * 10 ^ nat (- y) * 10 ^ nat x"
    by (simp only: power_add [symmetric])
  define a b :: nat where "a = 10 ^ nat x" and "b = 10 ^ nat (- x)"
  have pos: "0 < a" "0 < b" by (simp_all add: a_def b_def)
  have p': "10 ^ nat k * 10 ^ nat y * b = 10 ^ nat (- k) * 10 ^ nat (- y) * a" using p by (simp only: a_def b_def)
  have r': "N * (2 ^ nat (- e) * a) = D * (f * 2 ^ nat e * b)" using r by (simp only: represents_def a_def b_def)
  have "N * 10 ^ nat k * (2 ^ nat (- e) * 10 ^ nat y) * (a * b)
      = N * (2 ^ nat (- e) * a) * (10 ^ nat k * 10 ^ nat y * b)" by (simp only: ac_simps)
  also have "\<dots> = f * 2 ^ nat e * 10 ^ nat (- y) * (D * 10 ^ nat (- k)) * (a * b)"
    unfolding r' p' by (simp only: ac_simps)
  finally show "N * 10 ^ nat k * (2 ^ nat (- e) * 10 ^ nat y) = f * 2 ^ nat e * 10 ^ nat (- y) * (D * 10 ^ nat (- k))"
    using pos by (simp only: mult_cancel2) auto
qed (use D in simp_all)

lemma represents_mult10: "represents N D f e x \<Longrightarrow> represents (10 * N) D f e (x - 1)"
proof (cases "0 < x")
  case True
  assume r: "represents N D f e x"
  have "nat x = Suc (nat (x - 1))" "nat (- x) = 0" "nat (- (x - 1)) = 0" using True by arith+
  then show ?thesis using r by (simp add: represents_def)
next
  case False
  assume r: "represents N D f e x"
  have "nat x = 0" "nat (x - 1) = 0" "nat (- (x - 1)) = Suc (nat (- x))" using False by arith+
  then show ?thesis using r by (simp add: represents_def)
qed

text \<open>
  The estimated exponent is at most that of the number. A power of ten must not start with a
  numerator of the greater exponent, which the comparison would take for the smaller number.
\<close>

definition estimated :: "nat \<Rightarrow> int \<Rightarrow> int \<Rightarrow> bool" where
  "estimated f e exp10 \<longleftrightarrow> f * 2 ^ nat e * 10 ^ nat (- exp10) < 10 * (2 ^ nat (- e) * 10 ^ nat exp10)"

definition aligned :: "nat \<Rightarrow> int \<Rightarrow> bool \<Rightarrow> int \<Rightarrow> bool" where
  "aligned f e closer exp10 \<longleftrightarrow> e < 0 \<or> (e + (if closer then 2 else 1)) div 32 \<le> exp10 div 32
     \<or> (\<forall>k. f * 2 ^ nat e * 10 ^ k \<noteq> 10 ^ nat exp10)"

lemma estimated_nonneg: "estimated f e exp10 \<Longrightarrow> 0 < f \<Longrightarrow> 0 \<le> e \<Longrightarrow> 0 \<le> exp10"
proof (rule ccontr)
  assume h: "estimated f e exp10" "0 < f" "0 \<le> e" and "\<not> 0 \<le> exp10"
  then have x: "nat exp10 = 0" "nat (- e) = 0" "1 \<le> nat (- exp10)" by arith+
  have "(10 :: nat) \<le> 10 ^ nat (- exp10)" using power_increasing [OF x(3), of "10 :: nat"] by simp
  moreover have "1 \<le> f * 2 ^ nat e" using h(2) by (simp add: Suc_le_eq)
  then have "1 * 10 ^ nat (- exp10) \<le> f * 2 ^ nat e * 10 ^ nat (- exp10)" by (rule mult_right_mono) simp
  moreover have "f * 2 ^ nat e * 10 ^ nat (- exp10) < 10" using h(1) unfolding estimated_def x(1,2) by simp
  ultimately show False by linarith
qed

lemma estimated_small:
  assumes "estimated f e exp10" and "0 < f" and "e < 0" and "exp10 < 0"
  shows "- exp10 \<le> - e"
proof -
  have n: "nat (- exp10) = Suc (nat (- exp10 - 1))" "nat e = 0" "nat exp10 = 0" using assms(3,4) by arith+
  have "(2 :: nat) ^ nat (- exp10 - 1) \<le> 10 ^ nat (- exp10 - 1)" by (rule power_mono) simp_all
  also have "\<dots> \<le> f * 10 ^ nat (- exp10 - 1)" using assms(2) by simp
  also have "\<dots> < 2 ^ nat (- e)" using assms(1) unfolding estimated_def n by simp
  finally have "nat (- exp10 - 1) < nat (- e)" by (rule power_less_imp_less_exp [rotated]) simp
  then show ?thesis using assms(3) by linarith
qed

text \<open>The start gives a fraction below ten.\<close>

lemma dragon_start_fraction:
  fixes f :: "128 word"
  assumes f: "f \<noteq> 0" and x: "\<bar>exp10\<bar> < 2 ^ 31" and est: "estimated (unat f) e exp10" and al: "aligned (unat f) e closer exp10"
  shows "\<exists>s. dragon_start f e closer exp10 = Inr s \<and> dragon_ok s (unat f) e closer exp10 \<and> fraction (dr_num s) (dr_den s)"
proof -
  let ?k = "if closer then 2 else 1 :: int"
  have f0: "0 < unat f" using f by (simp add: unat_gt_0)
  have e: "0 \<le> e \<longrightarrow> 0 \<le> exp10" using estimated_nonneg [OF est f0] by simp
  obtain s where s: "dragon_start f e closer exp10 = Inr s" "dragon_ok s (unat f) e closer exp10"
    "bi_exp (dr_num s) = (if 0 \<le> e then (e + ?k) div 32 else if exp10 < 0 then (- exp10) div 32 else 0)"
    "bi_exp (dr_den s) = (if 0 \<le> e then exp10 div 32 else if exp10 < 0 then (?k - e) div 32 else exp10 div 32 + (?k - e) div 32)"
    using dragon_start_value [OF f e x, of closer] by blast
  define N D where "N = bigint_value (dr_num s)" and "D = bigint_value (dr_den s)"
  have n: "normal (dr_num s)" "normal (dr_den s)" and r: "represents N D (unat f) e exp10"
    using s(2) by (auto simp: dragon_ok_def N_def D_def)
  have D: "0 < D" unfolding D_def by (rule normal_pos [OF n(2)])
  have less: "N < 10 * D"
  proof -
    define B :: nat where "B = 2 ^ nat (- e) * 10 ^ nat exp10"
    have "N * B = D * (unat f * 2 ^ nat e * 10 ^ nat (- exp10))" using r by (simp only: represents_def B_def)
    also have "\<dots> < D * (10 * B)" using est D by (simp add: estimated_def B_def)
    finally have "B * N < B * (10 * D)" by (simp only: ac_simps)
    then show ?thesis by (simp only: nat_mult_less_cancel_disj)
  qed
  have "bi_exp (dr_num s) \<le> bi_exp (dr_den s) \<or> (\<forall>k. N * 10 ^ k \<noteq> D)"
  proof (cases "0 \<le> e")
    case True
    then have x0: "0 \<le> exp10" using e by simp
    have "unat f * 2 ^ nat e * 10 ^ k \<noteq> 10 ^ nat exp10 \<Longrightarrow> N * 10 ^ k \<noteq> D" for k
    proof (erule contrapos_nn)
      assume eq: "N * 10 ^ k = D"
      have "N * 10 ^ nat exp10 = D * (unat f * 2 ^ nat e)" using r True x0 by (simp add: represents_def)
      also have "\<dots> = N * (unat f * 2 ^ nat e * 10 ^ k)" unfolding eq [symmetric] by (simp only: ac_simps)
      finally show "unat f * 2 ^ nat e * 10 ^ k = 10 ^ nat exp10"
        using normal_pos [OF n(1)] by (simp add: N_def [symmetric])
    qed
    then show ?thesis using al True s(3,4) by (auto simp: aligned_def)
  next
    case False
    show ?thesis
    proof (cases "exp10 < 0")
      case True
      have "(- exp10) div 32 \<le> (?k - e) div 32"
        using estimated_small [OF est f0 _ True] False by (intro zdiv_mono1) auto
      then show ?thesis using False True s(3,4) by simp
    next
      case F: False
      have "0 \<le> (?k - e) div 32" "0 \<le> exp10 div 32" using False F by (auto intro!: pos_imp_zdiv_nonneg_iff [THEN iffD2])
      then show ?thesis using False F s(3,4) by simp
    qed
  qed
  then have "fraction (dr_num s) (dr_den s)"
    using n less by (auto simp: fraction_def trimmed_def N_def D_def)
  then show ?thesis using s by blast
qed

lemma fixup_value:
  assumes ok: "dragon_ok s f e closer x" and fr: "fraction (dr_num s) (dr_den s)" and that: "0 \<le> n" "0 \<le> evn"
  shows "\<exists>x' s'. dragon_fixup evn n x s = Inr (x', s') \<and> (x' = x \<or> x' = x - 1) \<and> fraction (dr_num s') (dr_den s')
    \<and> represents (bigint_value (dr_num s')) (bigint_value (dr_den s')) f e x'"
proof (cases "add_compare (dr_num s) (dr_upper s) (dr_den s) + evn \<le> 0")
  case False
  then show ?thesis using ok fr by (simp add: dragon_fixup_def dragon_ok_def)
next
  case True
  let ?N = "bigint_value (dr_num s)" and ?D = "bigint_value (dr_den s)" and ?U = "bigint_value (dr_upper s)"
  have n: "normal (dr_num s)" "normal (dr_den s)" "normal (dr_upper s)" using ok by (simp_all add: dragon_ok_def)
  have "add_compare (dr_num s) (dr_upper s) (dr_den s) = sgn (int ?N + int ?U - int ?D)"
    using n by (intro add_compare_value) simp_all
  then have "int ?N + int ?U \<le> int ?D" using True that(2) by (auto simp: sgn_if split: if_splits)
  moreover have "0 < ?U" by (rule normal_pos [OF n(3)])
  ultimately have less: "?N < ?D" by linarith
  obtain r where r: "bigint_mult32 (dr_num s) 10 = Inr r" "bigint_value r = 10 * ?N" "fraction r (dr_den s)"
    using fraction_mult10 [OF fr less] by blast
  have "represents (bigint_value r) ?D f e (x - 1)"
    unfolding r(2) using ok by (intro represents_mult10) (simp add: dragon_ok_def)
  then show ?thesis using True r that(1) by (simp add: dragon_fixup_def dragon_mult10_def)
qed

text \<open>
  The digits for a given number of digits. In fixed notation with the fix-up that number counts
  from the decimal point.
\<close>

lemma format_dragon_given:
  fixes f :: "128 word"
  assumes f: "f \<noteq> 0" and x: "\<bar>exp10\<bar> < 2 ^ 31 - 1" and n: "0 \<le> n" "n < 2 ^ 31 - 1 - \<bar>exp10\<bar>"
    and est: "estimated (unat f) e exp10" and al: "aligned (unat f) e (flags AND flag_predecessor_closer \<noteq> 0) exp10"
    and mode: "flags AND flag_fixup = 0 \<or> flags AND flag_fixed \<noteq> 0"
  defines "p \<equiv> if flags AND flag_fixup = 0 then exp10 - n + 1 else - n"
  shows "\<exists>buf y. format_dragon f e flags n capacity exp10 = Some (Inr (buf, y)) \<and> all_digits buf \<and> p \<le> y
    \<and> decimal buf * 10 ^ nat (y - p) = decimal_rounding (unat f) e p"
proof -
  let ?closer = "flags AND flag_predecessor_closer \<noteq> 0" and ?evn = "if f AND 1 = 0 then 1 else 0 :: int"
  have "\<bar>exp10\<bar> < 2 ^ 31" using x by simp
  then obtain s where s: "dragon_start f e ?closer exp10 = Inr s" "dragon_ok s (unat f) e ?closer exp10"
    "fraction (dr_num s) (dr_den s)"
    using dragon_start_fraction [OF f _ est al] by blast
  have given: "\<exists>buf y. dragon_given fx m x s = Some (Inr (buf, y)) \<and> all_digits buf \<and> x - m + 1 \<le> y
      \<and> decimal buf * 10 ^ nat (y - (x - m + 1)) = decimal_rounding (unat f) e (x - m + 1)"
    if "fraction (dr_num s) (dr_den s)" and r: "represents (bigint_value (dr_num s)) (bigint_value (dr_den s)) (unat f) e x"
    for s x m fx
  proof -
    have "normal (dr_den s)" using that(1) by (simp add: fraction_def)
    note D = normal_pos [OF this]
    have "round_half_even (bigint_value (dr_num s) * 10 ^ nat (m - 1)) (bigint_value (dr_den s) * 10 ^ nat (- (m - 1)))
        = decimal_rounding (unat f) e (x - m + 1)"
      by (rule represents_scale [OF r D]) simp
    moreover have "- (m - 1) = 1 - m" by simp
    ultimately show ?thesis using dragon_given_value [OF that(1), of fx m x] by auto
  qed
  show ?thesis
  proof (cases "flags AND flag_fixup = 0")
    case True
    have "represents (bigint_value (dr_num s)) (bigint_value (dr_den s)) (unat f) e exp10" using s(2) by (simp add: dragon_ok_def)
    from given [OF s(3) this, of "flags AND flag_fixed \<noteq> 0" n] show ?thesis
      using True n s(1) by (auto simp: format_dragon_def Let_def p_def)
  next
    case False
    then have fx: "flags AND flag_fixed \<noteq> 0" using mode by simp
    obtain x' s' where 1: "dragon_fixup ?evn n exp10 s = Inr (x', s')" "x' = exp10 \<or> x' = exp10 - 1"
      "fraction (dr_num s') (dr_den s')" "represents (bigint_value (dr_num s')) (bigint_value (dr_den s')) (unat f) e x'"
    proof -
      have "0 \<le> ?evn" by simp
      then show ?thesis using that fixup_value [OF s(2,3) n(1)] by blast
    qed
    have adj: "adjust_precision n (x' + 1) = Inr (n + (x' + 1))" using 1(2) n by (auto simp: adjust_precision_def)
    have p: "x' - (n + (x' + 1)) + 1 = p" using False by (simp add: p_def)
    from given [OF 1(3,4), of True "n + (x' + 1)", unfolded p] show ?thesis
      using False fx n s(1) 1(1) adj by (auto simp: format_dragon_def Let_def)
  qed
qed

text \<open>
  C15. A given number of digits of a floating point number \<open>f * 2 ^ e\<close> is that number rounded half to
  even at the position of the last digit, whatever its size, and the computation ends without a
  failure. \<open>y\<close> is the exponent that the function returns; it is one more than the position when
  rounding up gave one digit more. The exponent passed in must be at least that of the number.
\<close>

theorem dragon_digits_are_rounded:
  fixes f :: "128 word"
  assumes "f \<noteq> 0" and "\<bar>exp10\<bar> < 2 ^ 31 - 1" and "0 \<le> n" and "n < 2 ^ 31 - 1 - \<bar>exp10\<bar>"
    and "estimated (unat f) e exp10" and "aligned (unat f) e (flags AND flag_predecessor_closer \<noteq> 0) exp10"
    and "flags AND flag_fixup = 0 \<or> flags AND flag_fixed \<noteq> 0"
    and "p = (if flags AND flag_fixup = 0 then exp10 - n + 1 else - n)"
  shows "\<exists>buf y. format_dragon f e flags n capacity exp10 = Some (Inr (buf, y)) \<and> all_digits buf \<and> p \<le> y
    \<and> decimal buf * 10 ^ nat (y - p) = decimal_rounding (unat f) e p"
  using format_dragon_given [OF assms(1-7)] unfolding assms(8) by blast

text \<open>Two and a half, rounded to one digit, is two.\<close>

theorem dragon_digits_are_rounded_witness:
  "\<exists>buf y. format_dragon 5 (- 1) 0 1 500 0 = Some (Inr (buf, y)) \<and> all_digits buf \<and> decimal buf * 10 ^ nat y = 2"
proof -
  have "estimated (unat (5 :: 128 word)) (- 1) 0" "aligned (unat (5 :: 128 word)) (- 1) ((0 :: u32) AND flag_predecessor_closer \<noteq> 0) 0"
    by (simp_all add: estimated_def aligned_def)
  moreover have "decimal_rounding (unat (5 :: 128 word)) (- 1) 0 = 2"
    by (simp add: decimal_rounding_def round_half_even_def Let_def)
  ultimately show ?thesis
    using dragon_digits_are_rounded [of 5 0 1 "- 1" 0 0 500] by auto
qed

end
