(* ===== verification/Fmt_Dragon_Shortest.thy ===== *)
theory Fmt_Dragon_Shortest
  imports Fmt_Dragon_Props
begin

text \<open>
  The shortest digits of \<open>format_dragon\<close>: the loop ends, each digit is a digit, and the decimal
  number lies between the borders of the floating point number, so that it is read back as it.
\<close>

section \<open>The loop\<close>

text \<open>The borders belong to the number if its significand is even.\<close>

definition at_most :: "int \<Rightarrow> nat \<Rightarrow> nat \<Rightarrow> bool" where
  "at_most evn a b = (if evn = 1 then a \<le> b else a < b)"

definition below :: "int \<Rightarrow> nat \<Rightarrow> nat \<Rightarrow> bool" where
  "below evn a b = (if evn = 1 then a < b else a \<le> b)"

lemma below_not_at_most: "below evn a b \<longleftrightarrow> \<not> at_most evn b a"
  by (auto simp: below_def at_most_def)

lemma at_most_scale: "0 < k \<Longrightarrow> at_most evn (k * a) (k * b) \<longleftrightarrow> at_most evn a b"
  by (simp add: at_most_def)

lemma at_most_add: "at_most evn (c + a) (c + b) \<longleftrightarrow> at_most evn a b"
  by (simp add: at_most_def)

definition between :: "int \<Rightarrow> nat \<Rightarrow> nat \<Rightarrow> nat \<Rightarrow> nat \<Rightarrow> nat \<Rightarrow> nat \<Rightarrow> bool" where
  "between evn N L U D k W \<longleftrightarrow> at_most evn (N * 10 ^ k) (W * D + L * 10 ^ k) \<and> at_most evn (W * D) ((N + U) * 10 ^ k)"

lemma between_step:
  assumes "between evn (10 * r) (10 * L) (10 * U) D k W" and "N = d * D + r"
  shows "between evn N L U D (Suc k) (d * 10 ^ Suc k + W)"
proof -
  have 1: "N * 10 ^ Suc k = d * 10 ^ Suc k * D + 10 * r * 10 ^ k" "(N + U) * 10 ^ Suc k = d * 10 ^ Suc k * D + (10 * r + 10 * U) * 10 ^ k"
    "(d * 10 ^ Suc k + W) * D + L * 10 ^ Suc k = d * 10 ^ Suc k * D + (W * D + 10 * L * 10 ^ k)"
    "(d * 10 ^ Suc k + W) * D = d * 10 ^ Suc k * D + W * D"
    unfolding assms(2) by (simp_all add: algebra_simps)
  have "at_most evn (N * 10 ^ Suc k) ((d * 10 ^ Suc k + W) * D + L * 10 ^ Suc k)"
    unfolding 1(1,3) at_most_add using assms(1) by (simp only: between_def)
  moreover have "at_most evn ((d * 10 ^ Suc k + W) * D) ((N + U) * 10 ^ Suc k)"
    unfolding 1(2,4) at_most_add using assms(1) by (simp only: between_def)
  ultimately show ?thesis by (simp only: between_def)
qed

lemma compare_low_aligned:
  assumes r: "trimmed r" "bi_exp r \<le> bi_exp l" and l: "normal l" and evn: "evn = 0 \<or> evn = 1"
  shows "\<exists>c. bigint_compare r l = Inr c \<and> (c - evn < 0 \<longrightarrow> at_most evn (bigint_value r) (bigint_value l))
    \<and> (bigint_value r < bigint_value l \<longrightarrow> c - evn < 0)"
proof -
  obtain c where c: "bigint_compare r l = Inr c" "0 \<le> c \<longleftrightarrow> bigint_value l \<le> bigint_value r"
    using compare_aligned [OF r(1) l r(2)] by auto
  have "c = 0 \<longrightarrow> bigint_value r = bigint_value l" if "normal r"
    using bigint_compare_value [OF that l] c(1) by (auto simp: sgn_if split: if_splits)
  moreover have "0 < c" if "\<not> normal r" "0 \<le> c"
  proof -
    have "bigint_value r = 0" using trimmed_normal [OF r(1)] that(1) by auto
    then show ?thesis using that(2) c(2) normal_pos [OF l] by simp
  qed
  ultimately have "c = 0 \<longrightarrow> bigint_value r = bigint_value l" by auto
  moreover have "c < 1 \<and> 0 \<le> c \<longrightarrow> c = 0" by linarith
  ultimately show ?thesis using c evn by (auto simp: at_most_def)
qed

text \<open>
  The remainder is compared with the lower distance: it is not written with the greater exponent, or
  else it is greater, as before the first digit that is not zero.
\<close>

definition low_ok :: "bigint \<Rightarrow> bigint \<Rightarrow> bigint \<Rightarrow> bool" where
  "low_ok num l den \<longleftrightarrow> bi_exp num \<le> bi_exp l \<or> bi_exp den \<le> bi_exp l \<and> normal num \<and> bigint_value l < bigint_value num"

lemma compare_low:
  assumes r: "trimmed r" "low_ok r l d" and l: "normal l" and evn: "evn = 0 \<or> evn = 1"
  shows "\<exists>c. bigint_compare r l = Inr c \<and> (c - evn < 0 \<longrightarrow> at_most evn (bigint_value r) (bigint_value l))
    \<and> (bigint_value r < bigint_value l \<longrightarrow> c - evn < 0)"
proof (cases "bi_exp r \<le> bi_exp l")
  case True
  then show ?thesis by (rule compare_low_aligned [OF r(1) _ l evn])
next
  case False
  then have "normal r" "bigint_value l < bigint_value r" using r(2) by (simp_all add: low_ok_def)
  then have "bigint_compare r l = Inr 1" using bigint_compare_value [OF _ l, of r] by simp
  then show ?thesis using \<open>bigint_value l < bigint_value r\<close> evn by auto
qed

lemma borders_mult10:
  assumes "normal (dr_lower s)" and "normal (dr_upper s)"
  shows "\<exists>s'. dragon_borders_mult10 s = Inr s' \<and> dr_num s' = dr_num s \<and> dr_den s' = dr_den s
    \<and> normal (dr_lower s') \<and> bigint_value (dr_lower s') = 10 * bigint_value (dr_lower s) \<and> bi_exp (dr_lower s') = bi_exp (dr_lower s)
    \<and> normal (dr_upper s') \<and> bigint_value (dr_upper s') = 10 * bigint_value (dr_upper s)
    \<and> (dr_upper_store s' = None \<longleftrightarrow> dr_upper_store s = None)"
proof -
  obtain l where l: "bigint_mult32 (dr_lower s) 10 = Inr l" "bigint_value l = 10 * bigint_value (dr_lower s)"
    "bi_exp l = bi_exp (dr_lower s)" "normal l"
    using mult10_value [of "dr_lower s"] assms(1) by (auto simp: trimmed_def)
  show ?thesis
  proof (cases "dr_upper_store s")
    case None
    then show ?thesis using l assms(2) by (auto simp: dragon_borders_mult10_def dr_upper_def)
  next
    case (Some u)
    then obtain u' where "bigint_mult32 u 10 = Inr u'" "bigint_value u' = 10 * bigint_value u" "normal u'"
      using mult10_value [of u] assms(2) by (auto simp: trimmed_def dr_upper_def)
    then show ?thesis using Some l by (auto simp: dragon_borders_mult10_def dr_upper_def)
  qed
qed

lemma inc_at_snoc: "d < 9 \<Longrightarrow> inc_at (data @ [digit_char d]) (length data) = data @ [digit_char (Suc d)]"
  by (simp add: inc_at_def inc_char_digit)

text \<open>What holds before every round, for the values of the state.\<close>

definition shortest_ok :: "int \<Rightarrow> dragon \<Rightarrow> bool" where
  "shortest_ok evn s \<longleftrightarrow> fraction (dr_num s) (dr_den s) \<and> normal (dr_lower s) \<and> normal (dr_upper s)
    \<and> low_ok (dr_num s) (dr_lower s) (dr_den s)
    \<and> below evn (bigint_value (dr_num s) + bigint_value (dr_upper s)) (10 * bigint_value (dr_den s))"

lemma shortest_round:
  assumes ok: "shortest_ok evn s" and evn: "evn = 0 \<or> evn = 1" and cap: "length data < capacity"
  defines "N \<equiv> bigint_value (dr_num s)" and "D \<equiv> bigint_value (dr_den s)"
    and "L \<equiv> bigint_value (dr_lower s)" and "U \<equiv> bigint_value (dr_upper s)"
  shows "(\<exists>d. d < 10 \<and> between evn N L U D 0 d \<and> dragon_shortest capacity evn data s = Some (Inr (data @ [digit_char d])))
    \<or> L < D \<and> (\<exists>d r s'. d < 10 \<and> N = d * D + r \<and> shortest_ok evn s' \<and> dr_den s' = dr_den s
        \<and> bigint_value (dr_num s') = 10 * r \<and> bigint_value (dr_lower s') = 10 * L \<and> bigint_value (dr_upper s') = 10 * U
        \<and> dragon_shortest capacity evn data s = dragon_shortest capacity evn (data @ [digit_char d]) s')"
proof -
  have fr: "fraction (dr_num s) (dr_den s)" and l: "normal (dr_lower s)" and u: "normal (dr_upper s)"
    and e: "low_ok (dr_num s) (dr_lower s) (dr_den s)" and NU: "below evn (N + U) (10 * D)"
    using ok by (simp_all add: shortest_ok_def N_def U_def D_def)
  have den: "normal (dr_den s)" using fr by (simp add: fraction_def)
  have D: "0 < D" unfolding D_def by (rule normal_pos [OF den])
  define d where "d = N div D"
  have d: "d < 10" using fr by (simp add: d_def N_def D_def fraction_def less_mult_imp_div_less)
  obtain num where num: "divmod_assign (dr_num s) (dr_den s) = Some (Inr (int d, num))" "fraction num (dr_den s)"
    "bigint_value num = N mod D" "bi_exp num \<le> bi_exp (dr_num s)"
    "D \<le> N \<longrightarrow> bi_exp num \<le> bi_exp (dr_den s)"
    using fraction_divmod [OF fr] by (auto simp: d_def N_def D_def)
  define r where "r = bigint_value num"
  have r: "r < D" "N = d * D + r" using num(3) D by (simp_all add: r_def d_def)
  have tr: "trimmed num" using num(2) by (simp add: fraction_def)
  have e': "low_ok num (dr_lower s) (dr_den s)"
  proof (cases "bi_exp (dr_num s) \<le> bi_exp (dr_lower s)")
    case True
    then show ?thesis using num(4) by (simp add: low_ok_def)
  next
    case False
    then have k: "bi_exp (dr_den s) \<le> bi_exp (dr_lower s)" "L < N" using e by (simp_all add: low_ok_def L_def N_def)
    show ?thesis
    proof (cases "D \<le> N")
      case True
      then show ?thesis using num(5) k(1) by (simp add: low_ok_def)
    next
      case False
      then have "d = 0" by (simp add: d_def)
      then have "r = N" using r(2) by simp
      then have "L < bigint_value num" using k(2) by (simp add: r_def)
      then show ?thesis using k(1) trimmed_normal [OF tr] by (simp add: low_ok_def L_def)
    qed
  qed
  obtain c where c: "bigint_compare num (dr_lower s) = Inr c" "c - evn < 0 \<longrightarrow> at_most evn r L" "r < L \<longrightarrow> c - evn < 0"
    using compare_low [OF tr e' l evn] by (auto simp: r_def L_def)
  define low high where "low \<longleftrightarrow> c < evn" and "high \<longleftrightarrow> 0 < add_compare num (dr_upper s) (dr_den s) + evn"
  have nb: "normal num \<or> trimmed num \<and> num_bigits num \<le> num_bigits (dr_den s)"
    using tr num(2) normal_length [OF den] by (auto simp: fraction_def trimmed_def num_bigits_def)
  have "add_compare num (dr_upper s) (dr_den s) = sgn (int r + int U - int D)"
    using add_compare_value [OF den nb, of "dr_upper s"] u by (simp add: r_def U_def D_def)
  then have high: "high \<longleftrightarrow> at_most evn D (r + U)"
    using evn by (auto simp: high_def at_most_def sgn_if)
  have d9: "d < 9" if high
  proof (rule ccontr)
    assume "\<not> d < 9"
    then have "d = 9" using d by simp
    then have "N + U = 9 * D + (r + U)" using r(2) by simp
    moreover have "10 * D = 9 * D + D" by simp
    ultimately have "below evn (r + U) D" using NU unfolding below_not_at_most by (metis at_most_add)
    then show False using that unfolding high below_not_at_most by simp
  qed
  have low_between: "between evn N L U D 0 d" if low
  proof -
    have "at_most evn r L" using c(2) that by (simp add: low_def)
    moreover have "0 < U" unfolding U_def by (rule normal_pos [OF u])
    ultimately show ?thesis unfolding between_def r(2) by (simp add: at_most_def)
  qed
  have high_between: "between evn N L U D 0 (Suc d)" if high
  proof -
    have "at_most evn D (r + U)" using that high by simp
    moreover have "0 < L" unfolding L_def by (rule normal_pos [OF l])
    ultimately show ?thesis unfolding between_def using r by (simp add: at_most_def add.commute add.left_commute)
  qed
  have code: "digit_code (int d) = digit_char d" by (rule digit_code_char [OF d])
  show ?thesis
  proof (cases "low \<or> high")
    case True
    define up where "up \<longleftrightarrow> \<not> low \<or> high \<and> (add_compare num num (dr_den s) > 0 \<or> add_compare num num (dr_den s) = 0 \<and> int d mod 2 \<noteq> 0)"
    have up_high: "high" if up using that True by (auto simp: up_def)
    have run: "dragon_shortest capacity evn data s
        = Some (Inr (if up then inc_at (data @ [digit_char d]) (length data) else data @ [digit_char d]))"
      using True num(1) c(1) cap
      by (subst dragon_shortest.simps) (simp add: Let_def code up_def flip: low_def high_def)
    show ?thesis
    proof (cases up)
      case up: True
      then have h: high by (rule up_high)
      show ?thesis unfolding run using up d9 [OF h] high_between [OF h]
        by (intro disjI1 exI [of _ "Suc d"]) (simp add: inc_at_snoc)
    next
      case False
      then have low by (auto simp: up_def)
      then show ?thesis unfolding run using False d low_between by (intro disjI1 exI [of _ d]) simp
    qed
  next
    case False
    have LD: "L < D" using False c(3) r(1) by (auto simp: low_def)
    obtain num' where num': "bigint_mult32 num 10 = Inr num'" "bigint_value num' = 10 * r" "bi_exp num' = bi_exp num"
      "fraction num' (dr_den s)"
      using fraction_mult10 [OF num(2)] r(1) by (auto simp: r_def D_def)
    define s1 where "s1 = s\<lparr>dr_num := num'\<rparr>"
    have s1: "dr_lower s1 = dr_lower s" "dr_upper s1 = dr_upper s" "dr_num s1 = num'" "dr_den s1 = dr_den s"
      by (simp_all add: s1_def dr_upper_def split: option.split)
    obtain s2 where s2: "dragon_borders_mult10 s1 = Inr s2" "dr_num s2 = num'" "dr_den s2 = dr_den s"
      "normal (dr_lower s2)" "bigint_value (dr_lower s2) = 10 * L" "bi_exp (dr_lower s2) = bi_exp (dr_lower s)"
      "normal (dr_upper s2)" "bigint_value (dr_upper s2) = 10 * U"
      using borders_mult10 [of s1] l u by (auto simp: s1 L_def U_def)
    have run: "dragon_shortest capacity evn data s = dragon_shortest capacity evn (data @ [digit_char d]) s2"
      using False num(1) c(1) cap num'(1) s2(1)
      by (subst dragon_shortest.simps) (simp add: Let_def code dragon_mult10_def s1_def flip: low_def high_def)
    have "below evn (r + U) D" using False by (simp add: below_not_at_most high)
    then have "below evn (10 * r + 10 * U) (10 * D)" by (auto simp: below_def)
    moreover have "low_ok num' (dr_lower s2) (dr_den s2)"
    proof (cases "bi_exp num \<le> bi_exp (dr_lower s)")
      case False
      then have "bi_exp (dr_den s) \<le> bi_exp (dr_lower s)" "L < r" using e' by (simp_all add: low_ok_def r_def L_def)
      moreover have "normal num'" using trimmed_normal [of num'] num'(2,4) calculation(2) by (simp add: fraction_def)
      ultimately show ?thesis using s2 num' by (simp add: low_ok_def)
    qed (use s2 num' in \<open>simp add: low_ok_def\<close>)
    ultimately have "shortest_ok evn s2" using s2 num' by (simp add: shortest_ok_def D_def)
    then show ?thesis using LD d r(2) run s2 num'(2) by blast
  qed
qed

lemma dragon_shortest_value:
  assumes evn: "evn = 0 \<or> evn = 1"
  shows "shortest_ok evn s \<Longrightarrow> bigint_value (dr_den s) \<le> bigint_value (dr_lower s) * 10 ^ j \<Longrightarrow> length data + j < capacity \<Longrightarrow>
    \<exists>w. dragon_shortest capacity evn data s = Some (Inr (data @ w)) \<and> all_digits w \<and> w \<noteq> []
      \<and> between evn (bigint_value (dr_num s)) (bigint_value (dr_lower s)) (bigint_value (dr_upper s)) (bigint_value (dr_den s))
          (length w - 1) (decimal w)"
proof (induction j arbitrary: s data)
  case 0
  from shortest_round [OF 0(1) evn, of data capacity] 0(2,3) obtain d where
    "d < 10" "between evn (bigint_value (dr_num s)) (bigint_value (dr_lower s)) (bigint_value (dr_upper s)) (bigint_value (dr_den s)) 0 d"
    "dragon_shortest capacity evn data s = Some (Inr (data @ [digit_char d]))" by auto
  then show ?case using decimal_snoc [of "[]" d] by (intro exI [of _ "[digit_char d]"]) simp
next
  case (Suc j)
  let ?N = "bigint_value (dr_num s)" and ?D = "bigint_value (dr_den s)"
    and ?L = "bigint_value (dr_lower s)" and ?U = "bigint_value (dr_upper s)"
  have "length data < capacity" using Suc(4) by simp
  from shortest_round [OF Suc(2) evn this] show ?case
  proof (elim disjE exE conjE)
    fix d assume "d < 10" "between evn ?N ?L ?U ?D 0 d" "dragon_shortest capacity evn data s = Some (Inr (data @ [digit_char d]))"
    then show ?thesis using decimal_snoc [of "[]" d] by (intro exI [of _ "[digit_char d]"]) simp
  next
    fix d r s'
    assume 1: "d < 10" "?N = d * ?D + r" "shortest_ok evn s'" "dr_den s' = dr_den s" "bigint_value (dr_num s') = 10 * r"
      "bigint_value (dr_lower s') = 10 * ?L" "bigint_value (dr_upper s') = 10 * ?U"
      "dragon_shortest capacity evn data s = dragon_shortest capacity evn (data @ [digit_char d]) s'"
    obtain w where w: "dragon_shortest capacity evn (data @ [digit_char d]) s' = Some (Inr ((data @ [digit_char d]) @ w))"
      "all_digits w" "w \<noteq> []" "between evn (10 * r) (10 * ?L) (10 * ?U) ?D (length w - 1) (decimal w)"
      using Suc(1) [OF 1(3), of "data @ [digit_char d]"] Suc(3,4) 1(4-7) by (auto simp: mult.assoc)
    obtain k where k: "length w = Suc k" using w(3) by (cases w) auto
    have "decimal (digit_char d # w) = d * 10 ^ Suc k + decimal w"
      using decimal_append [of "[digit_char d]" w] decimal_snoc [of "[]" d] 1(1) w(2) k by simp
    moreover have "between evn ?N ?L ?U ?D (Suc k) (d * 10 ^ Suc k + decimal w)"
      using w(4) k 1(2) by (intro between_step) simp_all
    ultimately show ?thesis using 1(1,8) w(1,2) k by (intro exI [of _ "digit_char d # w"]) simp
  qed
qed

section \<open>The whole function\<close>

text \<open>
  A decimal number \<open>W * 10 ^ y\<close> between the borders of \<open>f * 2 ^ e\<close>: the middles to its neighbours, of
  which the lower one is nearer if the predecessor is closer.
\<close>

definition rounds_to :: "nat \<Rightarrow> int \<Rightarrow> bool \<Rightarrow> nat \<Rightarrow> int \<Rightarrow> bool" where
  "rounds_to f e closer W y \<longleftrightarrow>
     (let evn = (if even f then 1 else 0); m = 4 * W * (2 ^ nat (- e) * 10 ^ nat y); unit = 2 ^ nat e * 10 ^ nat (- y) in
      at_most evn ((4 * f - (if closer then 1 else 2)) * unit) m \<and> at_most evn m ((4 * f + 2) * unit))"

lemma between_rounds_to:
  assumes N: "represents N D f e x" and L: "represents (L * 2 ^ (if closer then 2 else 1)) D 1 e x"
    and U: "U = (if closer then 2 else 1) * L" and D: "0 < D" and f: "0 < f"
    and b: "between (if even f then 1 else 0) N L U D k W"
  shows "rounds_to f e closer W (x - int k)"
proof -
  define evn :: int where "evn = (if even f then 1 else 0)"
  define B A :: nat where "B = 2 ^ nat (- e) * 10 ^ nat x" and "A = 2 ^ nat e * 10 ^ nat (- x)"
  have B: "0 < B" by (simp add: B_def)
  have n: "N * B = D * (f * A)" using N by (simp only: represents_def A_def B_def mult.assoc)
  have l: "L * 2 ^ (if closer then 2 else 1) * B = D * A" using L by (simp only: represents_def A_def B_def mult_1)
  define M DA :: nat where "M = L * B" and "DA = D * A"
  have l': "(if closer then 4 else 2) * M = DA"
  proof -
    have "(if closer then 4 else 2) = (2 :: nat) ^ (if closer then 2 else 1)" by simp
    then have "(if closer then 4 else 2) * M = L * 2 ^ (if closer then 2 else 1) * B" unfolding M_def by (simp only: ac_simps)
    then show ?thesis unfolding l DA_def .
  qed
  have DA: "D * (z * A) = z * DA" for z unfolding DA_def by (simp only: ac_simps)
  have UB: "U * B = (if closer then 2 else 1) * M" unfolding U M_def by (simp only: ac_simps)
  have lo: "4 * (N * B) = D * ((4 * f - (if closer then 1 else 2)) * A) + 4 * (L * B)"
  proof -
    have "4 * f * DA = (4 * f - (if closer then 1 else 2)) * DA + (if closer then 1 else 2) * DA"
      using f by (simp add: add_mult_distrib [symmetric] del: mult_Suc)
    then show ?thesis unfolding n DA M_def [symmetric] using l' by (cases closer) simp_all
  qed
  have hi: "4 * ((N + U) * B) = D * ((4 * f + 2) * A)"
  proof -
    have "4 * ((N + U) * B) = 4 * (N * B) + 4 * (U * B)" by (simp add: add_mult_distrib)
    moreover have "(4 * f + 2) * DA = 4 * (f * DA) + 2 * DA" by (simp add: add_mult_distrib)
    ultimately show ?thesis unfolding DA n UB using l' by (cases closer) simp_all
  qed
  define P Q :: nat where "P = 10 ^ k" and "Q = 4 * (W * B)"
  have b1: "at_most evn (N * P) (W * D + L * P)" "at_most evn (W * D) ((N + U) * P)"
    using b by (simp_all add: between_def evn_def P_def)
  have "at_most evn (4 * B * (N * P)) (4 * B * (W * D + L * P))" using b1(1) B by (subst at_most_scale) simp_all
  also have "4 * B * (N * P) = P * (4 * (N * B))" by (simp only: ac_simps)
  also have "\<dots> = P * (4 * (L * B)) + D * ((4 * f - (if closer then 1 else 2)) * A * P)"
    unfolding lo add_mult_distrib2 by (simp only: ac_simps)
  also have "4 * B * (W * D + L * P) = P * (4 * (L * B)) + D * Q"
    unfolding Q_def by (simp only: add_mult_distrib2 ac_simps)
  finally have low: "at_most evn ((4 * f - (if closer then 1 else 2)) * A * P) Q" using D by (simp only: at_most_add at_most_scale)
  have "at_most evn (4 * B * (W * D)) (4 * B * ((N + U) * P))" using b1(2) B by (subst at_most_scale) simp_all
  also have "4 * B * (W * D) = D * Q" unfolding Q_def by (simp only: ac_simps)
  also have "4 * B * ((N + U) * P) = P * (4 * ((N + U) * B))" by (simp only: ac_simps)
  also have "\<dots> = D * ((4 * f + 2) * A * P)" unfolding hi by (simp only: ac_simps)
  finally have high: "at_most evn Q ((4 * f + 2) * A * P)" using D by (simp only: at_most_scale)
  define y where "y = x - int k"
  define m unit :: nat where "m = 4 * W * (2 ^ nat (- e) * 10 ^ nat y)" and "unit = 2 ^ nat e * 10 ^ nat (- y)"
  define R S :: nat where "R = 10 ^ (nat x + nat (- y))" and "S = 10 ^ nat y"
  have R: "0 < R" by (simp add: R_def)
  have "nat x + nat (- y) = k + nat (- x) + nat y" unfolding y_def by arith
  then have x: "(10 :: nat) ^ nat x * 10 ^ nat (- y) = 10 ^ k * 10 ^ nat (- x) * 10 ^ nat y" by (simp only: power_add [symmetric])
  define a b c d :: nat where "a = 10 ^ nat x" and "b = 10 ^ nat (- y)" and "c = 10 ^ nat (- x)" and "d = 10 ^ nat y"
  have x': "a * b = P * c * d" using x by (simp only: a_def b_def c_def d_def P_def)
  have Qm: "b * Q = P * c * m" 
    unfolding Q_def m_def B_def a_def [symmetric] d_def [symmetric] using x' by (metis (no_types, opaque_lifting) mult.assoc mult.commute)
  have Au: "b * (A * P) = P * c * unit" unfolding A_def unit_def b_def [symmetric] c_def [symmetric] by (simp only: ac_simps)
  have pos: "0 < b" "0 < P * c" by (simp_all add: b_def c_def P_def)
  have scale: "b * (z * A * P) = P * c * (z * unit)" for z using Au by (metis (no_types, opaque_lifting) mult.assoc mult.left_commute)
  have "at_most evn (P * c * ((4 * f - (if closer then 1 else 2)) * unit)) (P * c * m)"
    using low unfolding scale [symmetric] Qm [symmetric] at_most_scale [OF pos(1)] .
  moreover have "at_most evn (P * c * m) (P * c * ((4 * f + 2) * unit))"
    using high unfolding scale [symmetric] Qm [symmetric] at_most_scale [OF pos(1)] .
  ultimately show ?thesis
    unfolding at_most_scale [OF pos(2)] by (simp add: rounds_to_def Let_def evn_def m_def unit_def y_def)
qed

text \<open>The estimated exponent is not below the one of the upper border.\<close>

definition estimated_above :: "nat \<Rightarrow> int \<Rightarrow> int \<Rightarrow> bool" where
  "estimated_above f e exp10 \<longleftrightarrow> (4 * f + 2) * (2 ^ nat e * 10 ^ nat (- exp10)) < 40 * (2 ^ nat (- e) * 10 ^ nat exp10)"

lemma estimated_above_estimated: "estimated_above f e exp10 \<Longrightarrow> estimated f e exp10"
  unfolding estimated_above_def estimated_def by (simp add: add_mult_distrib)

text \<open>The distance to the lower border is at least one unit of the \<open>j\<close>-th digit.\<close>

definition enough_digits :: "int \<Rightarrow> bool \<Rightarrow> int \<Rightarrow> nat \<Rightarrow> bool" where
  "enough_digits e closer exp10 j \<longleftrightarrow>
     2 ^ (if closer then 2 else 1) * (2 ^ nat (- e) * 10 ^ nat exp10) \<le> 2 ^ nat e * 10 ^ nat (- exp10) * (10 :: nat) ^ j"

lemma even_word: "(f AND 1 = 0) = even (unat f)" for f :: "128 word"
proof -
  have "unat (f AND 1) = unat f mod 2" by (simp add: and_one_eq unat_mod)
  then show ?thesis by (metis even_iff_mod_2_eq_zero unat_0 unat_eq_zero)
qed

lemma shortest_fixup:
  assumes ok: "dragon_ok s f e closer x" and sh: "shortest_ok evn s" and n: "n < 0" and evn: "evn = 0 \<or> evn = 1"
  shows "\<exists>x' s'. dragon_fixup evn n x s = Inr (x', s') \<and> x - 1 \<le> x' \<and> x' \<le> x \<and> dragon_ok s' f e closer x' \<and> shortest_ok evn s'
    \<and> (\<exists>k. 0 < k \<and> bigint_value (dr_lower s') = k * bigint_value (dr_lower s) \<and> dr_den s' = dr_den s)"
proof (cases "add_compare (dr_num s) (dr_upper s) (dr_den s) + evn \<le> 0")
  case False
  then show ?thesis using ok sh by (auto simp: dragon_fixup_def intro: exI [of _ 1])
next
  case True
  let ?N = "bigint_value (dr_num s)" and ?D = "bigint_value (dr_den s)" and ?U = "bigint_value (dr_upper s)" and ?L = "bigint_value (dr_lower s)"
  have n3: "normal (dr_num s)" "normal (dr_den s)" "normal (dr_upper s)" "normal (dr_lower s)" using ok by (simp_all add: dragon_ok_def)
  have fr: "fraction (dr_num s) (dr_den s)" using sh by (simp add: shortest_ok_def)
  have "add_compare (dr_num s) (dr_upper s) (dr_den s) = sgn (int ?N + int ?U - int ?D)"
    using n3 by (intro add_compare_value) simp_all
  then have bel: "below evn (?N + ?U) ?D" using True evn by (auto simp: below_def sgn_if split: if_splits)
  moreover have "0 < ?U" by (rule normal_pos [OF n3(3)])
  ultimately have less: "?N < ?D" by (auto simp: below_def split: if_splits)
  obtain r where r: "bigint_mult32 (dr_num s) 10 = Inr r" "bigint_value r = 10 * ?N" "bi_exp r = bi_exp (dr_num s)" "fraction r (dr_den s)"
    using fraction_mult10 [OF fr less] by blast
  define s1 where "s1 = s\<lparr>dr_num := r\<rparr>"
  have s1: "dr_lower s1 = dr_lower s" "dr_upper s1 = dr_upper s" "dr_num s1 = r" "dr_den s1 = dr_den s" "dr_upper_store s1 = dr_upper_store s"
    by (simp_all add: s1_def dr_upper_def split: option.split)
  obtain s2 where s2: "dragon_borders_mult10 s1 = Inr s2" "dr_num s2 = r" "dr_den s2 = dr_den s"
    "normal (dr_lower s2)" "bigint_value (dr_lower s2) = 10 * ?L" "bi_exp (dr_lower s2) = bi_exp (dr_lower s)"
    "normal (dr_upper s2)" "bigint_value (dr_upper s2) = 10 * ?U" "dr_upper_store s2 = None \<longleftrightarrow> dr_upper_store s = None"
    using borders_mult10 [of s1] n3 by (auto simp: s1)
  have run: "dragon_fixup evn n x s = Inr (x - 1, s2)"
    using True n r(1) s2(1) by (simp add: dragon_fixup_def dragon_mult10_def s1_def)
  have "represents (10 * (?L * 2 ^ (if closer then 2 else 1))) ?D 1 e (x - 1)"
    using ok by (intro represents_mult10) (simp add: dragon_ok_def)
  moreover have "represents (10 * ?N) ?D f e (x - 1)" using ok by (intro represents_mult10) (simp add: dragon_ok_def)
  moreover have "normal r" using r(2,4) normal_pos [OF n3(1)] trimmed_normal by (simp add: fraction_def)
  ultimately have "dragon_ok s2 f e closer (x - 1)"
    using ok s2 r(2) n3 unfolding dragon_ok_def by (simp only: mult.assoc mult.left_commute [of 10])
  moreover have "low_ok r (dr_lower s2) (dr_den s)"
    using sh s2(5,6) r(2,3) \<open>normal r\<close> by (auto simp: shortest_ok_def low_ok_def)
  then have "shortest_ok evn s2"
    using sh bel s2 r by (auto simp: shortest_ok_def below_def split: if_splits)
  moreover have "\<exists>k. 0 < k \<and> bigint_value (dr_lower s2) = k * ?L \<and> dr_den s2 = dr_den s"
    using s2(3,5) by (intro exI [of _ 10]) simp
  ultimately show ?thesis unfolding run by (intro exI [of _ "x - 1"] exI [of _ s2]) simp
qed

lemma format_dragon_shortest:
  fixes f :: "128 word"
  assumes f: "f \<noteq> 0" and x: "\<bar>exp10\<bar> < 2 ^ 31 - 1" and n: "num_digits < 0"
    and est: "estimated_above (unat f) e exp10"
    and al: "aligned (unat f) e (flags AND flag_predecessor_closer \<noteq> 0) exp10"
    and lo: "e < 0 \<or> exp10 div 32 \<le> e div 32"
    and j: "enough_digits e (flags AND flag_predecessor_closer \<noteq> 0) exp10 j" "j < capacity"
  shows "\<exists>w y. format_dragon f e flags num_digits capacity exp10 = Some (Inr (w, y)) \<and> all_digits w \<and> w \<noteq> []
    \<and> rounds_to (unat f) e (flags AND flag_predecessor_closer \<noteq> 0) (decimal w) y"
proof -
  define closer where "closer \<longleftrightarrow> flags AND flag_predecessor_closer \<noteq> 0"
  define evn :: int where "evn = (if even (unat f) then 1 else 0)"
  have evn: "evn = 0 \<or> evn = 1" "(if f AND 1 = 0 then 1 else 0 :: int) = evn" by (simp_all add: evn_def even_word)
  have f0: "0 < unat f" using f by (simp add: unat_gt_0)
  have est0: "estimated (unat f) e exp10" by (rule estimated_above_estimated [OF est])
  have x31: "\<bar>exp10\<bar> < 2 ^ 31" using x by simp
  obtain s where s: "dragon_start f e closer exp10 = Inr s" "dragon_ok s (unat f) e closer exp10" "fraction (dr_num s) (dr_den s)"
    using dragon_start_fraction [OF f x31 est0, of closer] al by (auto simp: closer_def)
  let ?N = "bigint_value (dr_num s)" and ?D = "bigint_value (dr_den s)" and ?U = "bigint_value (dr_upper s)" and ?L = "bigint_value (dr_lower s)"
  have nn: "normal (dr_lower s)" "normal (dr_upper s)" "normal (dr_den s)" using s(2) by (simp_all add: dragon_ok_def)
  have D: "0 < ?D" by (rule normal_pos [OF nn(3)])
  define A B :: nat where "A = 2 ^ nat e * 10 ^ nat (- exp10)" and "B = 2 ^ nat (- e) * 10 ^ nat exp10"
  have B: "0 < B" by (simp add: B_def)
  have NB: "?N * B = unat f * (?D * A)" and LB: "?L * 2 ^ (if closer then 2 else 1) * B = ?D * A"
    using s(2) unfolding dragon_ok_def represents_def A_def B_def by (simp_all only: ac_simps mult_1_left)
  have ex: "low_ok (dr_num s) (dr_lower s) (dr_den s)"
  proof -
    have "B * (unat f * 2 ^ (if closer then 2 else 1) * ?L) = B * ?N" using NB LB by (metis mult.assoc mult.commute)
    then have "?N = unat f * 2 ^ (if closer then 2 else 1) * ?L" using B by simp
    moreover have "0 < ?L" by (rule normal_pos [OF nn(1)])
    moreover have "2 \<le> unat f * 2 ^ (if closer then 2 else 1)" using f0 by (cases closer) auto
    then have "2 * ?L \<le> unat f * 2 ^ (if closer then 2 else 1) * ?L" by (rule mult_le_mono1)
    ultimately have "?L < ?N" by linarith
    moreover have "0 \<le> e \<longrightarrow> 0 \<le> exp10" using estimated_nonneg [OF est0 f0] by simp
    from dragon_start_value [OF f this x31, of closer] have "0 \<le> e \<longrightarrow> bi_exp (dr_den s) = exp10 div 32 \<and> bi_exp (dr_lower s) = e div 32"
      "e < 0 \<longrightarrow> bi_exp (dr_num s) = bi_exp (dr_lower s)"
      using s(1) by auto
    ultimately show ?thesis using lo s(2) by (auto simp: low_ok_def dragon_ok_def)
  qed
  have "4 * (u * B) = 2 * d" if "2 ^ (if closer then 2 else 1) * (l * B) = d" "u = (if closer then 2 else 1) * l" for u l d :: nat
    using that by (cases closer) auto
  moreover have "2 ^ (if closer then 2 else 1) * (?L * B) = ?D * A" using LB by (simp only: ac_simps)
  moreover have "?U = (if closer then 2 else 1) * ?L" using s(2) by (simp only: dragon_ok_def)
  ultimately have "4 * (?U * B) = 2 * (?D * A)" by blast
  then have "4 * ((?N + ?U) * B) = (4 * unat f + 2) * (?D * A)" using NB by (simp add: add_mult_distrib)
  also have "\<dots> = ?D * ((4 * unat f + 2) * A)" by (simp only: ac_simps)
  also have "\<dots> < ?D * (40 * B)" using est D by (simp only: estimated_above_def A_def B_def mult_less_cancel1)
  finally have "B * (?N + ?U) < B * (10 * ?D)" by (simp add: ac_simps)
  then have "?N + ?U < 10 * ?D" by (simp only: nat_mult_less_cancel_disj)
  then have sh: "shortest_ok evn s" using s(3) nn ex by (auto simp: shortest_ok_def below_def)
  have dig: "?D \<le> ?L * 10 ^ j"
  proof -
    define K :: nat where "K = 2 ^ (if closer then 2 else 1)"
    have K: "0 < K" by (simp add: K_def)
    have "K * B \<le> A * 10 ^ j" using j(1) by (simp only: enough_digits_def closer_def [symmetric] A_def B_def K_def)
    then have "?D * (K * B) \<le> ?D * (A * 10 ^ j)" by (rule mult_left_mono) simp
    also have "\<dots> = ?L * 10 ^ j * (K * B)" using LB [folded K_def] by (metis mult.assoc mult.commute)
    finally show ?thesis using K B by (simp only: mult_le_cancel2) simp
  qed
  have shortest: "\<exists>w y. seq_opt (map_option fmt_of (dragon_shortest capacity evn [] s')) (\<lambda>data. Some (Inr (data, x' - (int (length data) - 1))))
      = Some (Inr (w, y)) \<and> all_digits w \<and> w \<noteq> [] \<and> rounds_to (unat f) e closer (decimal w) y"
    if ok': "dragon_ok s' (unat f) e closer x'" and sh': "shortest_ok evn s'"
      and l: "0 < k" "bigint_value (dr_lower s') = k * ?L" "dr_den s' = dr_den s" for s' x' k
  proof -
    have "?L * 10 ^ j \<le> k * ?L * 10 ^ j" using l(1) by simp
    then have d': "bigint_value (dr_den s') \<le> bigint_value (dr_lower s') * 10 ^ j" unfolding l(2,3) using dig by linarith
    obtain w where w: "dragon_shortest capacity evn [] s' = Some (Inr w)" "all_digits w" "w \<noteq> []"
      "between evn (bigint_value (dr_num s')) (bigint_value (dr_lower s')) (bigint_value (dr_upper s')) (bigint_value (dr_den s'))
          (length w - 1) (decimal w)"
      using dragon_shortest_value [OF evn(1) sh' d', of "[]" capacity] j(2) by auto
    have len: "int (length w) - 1 = int (length w - 1)" using w(3) by (cases w) simp_all
    have "0 < bigint_value (dr_den s')" using l(3) D by simp
    then have "rounds_to (unat f) e closer (decimal w) (x' - int (length w - 1))"
      using ok' f0 w(4) by (intro between_rounds_to) (simp_all add: dragon_ok_def evn_def)
    then have "rounds_to (unat f) e closer (decimal w) (x' - (int (length w) - 1))" unfolding len .
    then show ?thesis unfolding w(1) using w(2,3) by simp
  qed
  show ?thesis unfolding closer_def [symmetric]
  proof (cases "flags AND flag_fixup = 0")
    case True
    show "\<exists>w y. format_dragon f e flags num_digits capacity exp10 = Some (Inr (w, y)) \<and> all_digits w \<and> w \<noteq> []
        \<and> rounds_to (unat f) e closer (decimal w) y"
      using shortest [OF s(2) sh, of 1] True n s(1) by (simp add: format_dragon_def Let_def evn(2) flip: closer_def)
  next
    case False
    obtain x' s' k where 1: "dragon_fixup evn num_digits exp10 s = Inr (x', s')" "exp10 - 1 \<le> x'" "x' \<le> exp10"
      "dragon_ok s' (unat f) e closer x'" "shortest_ok evn s'" "0 < k" "bigint_value (dr_lower s') = k * ?L" "dr_den s' = dr_den s"
      using shortest_fixup [OF s(2) sh n evn(1)] by blast
    have "\<exists>m. (if flags AND flag_fixed \<noteq> 0 then adjust_precision num_digits (x' + 1) else Inr num_digits) = Inr m"
    proof -
      have "x' < 2 ^ 31 - 1" using 1(3) x by linarith
      then have "\<not> num_digits > 2 ^ 31 - 1 - (x' + 1)" using n by simp
      then show ?thesis by (simp add: adjust_precision_def)
    qed
    then show "\<exists>w y. format_dragon f e flags num_digits capacity exp10 = Some (Inr (w, y)) \<and> all_digits w \<and> w \<noteq> []
        \<and> rounds_to (unat f) e closer (decimal w) y"
      using shortest [OF 1(4-8)] False n s(1) 1(1) by (auto simp: format_dragon_def Let_def evn(2) simp flip: closer_def)
  qed
qed

section \<open>Numbers of up to 64 significant bits\<close>

text \<open>
  For the significands of \<open>float\<close>, \<open>double\<close> and the 80 bit \<open>long double\<close> an estimate that is at most
  two too great is all that is needed: the big numbers are then aligned, and 22 rounds are enough.
\<close>

definition estimated_below :: "nat \<Rightarrow> int \<Rightarrow> int \<Rightarrow> bool" where
  "estimated_below f e exp10 \<longleftrightarrow> 2 ^ nat (- e) * 10 ^ nat exp10 \<le> 100 * (f * 2 ^ nat e * 10 ^ nat (- exp10))"

text \<open>A number that is a power of ten times a divisor is small.\<close>

lemma power_of_ten_factor:
  assumes "f * 2 ^ a * 10 ^ k = (10 :: nat) ^ x" and "f < 2 ^ 64"
  shows "a < 30"
proof -
  have "k \<le> x"
  proof (rule ccontr)
    assume "\<not> k \<le> x"
    then have "(10 :: nat) ^ x < 10 ^ k" by (intro power_strict_increasing) simp_all
    moreover have "0 < f * 2 ^ a" using assms(1) by (metis gr0I mult_0 power_not_zero zero_neq_numeral)
    then have "1 * 10 ^ k \<le> f * 2 ^ a * (10 :: nat) ^ k" by (intro mult_le_mono1) simp
    ultimately show False using assms(1) by simp
  qed
  then obtain m where m: "x = m + k" using le_Suc_ex [of k x] by (auto simp: add.commute)
  have "f * 2 ^ a * 10 ^ k = 10 ^ m * (10 :: nat) ^ k" using assms(1) by (simp only: m power_add)
  then have fm: "f * 2 ^ a = 10 ^ m" by simp
  have "(10 :: nat) ^ m = 5 ^ m * 2 ^ m" using power_mult_distrib [of 5 "2 :: nat" m] by simp
  then have fm5: "f * 2 ^ a = 5 ^ m * 2 ^ m" using fm by simp
  have "a \<le> m"
  proof (rule ccontr)
    assume "\<not> a \<le> m"
    then obtain d where "a = Suc d + m" by (metis add.commute less_iff_Suc_add not_le add_Suc_right)
    then have "f * 2 ^ Suc d * 2 ^ m = 5 ^ m * (2 :: nat) ^ m" using fm5 by (simp only: power_add mult.assoc)
    then have "f * 2 ^ Suc d = (5 :: nat) ^ m" by simp
    moreover have "even (f * 2 ^ Suc d)" by simp
    ultimately show False by simp
  qed
  then obtain b where b: "m = b + a" by (metis add.commute le_Suc_ex)
  have "f * 2 ^ a = 5 ^ m * 2 ^ b * (2 :: nat) ^ a" using fm5 by (simp only: b power_add mult.assoc)
  then have "f = 5 ^ m * 2 ^ b" by simp
  then have "5 ^ m \<le> f" by simp
  then have "(5 :: nat) ^ m < 5 ^ 28" using assms(2) by simp
  then have "m < 28" by (rule power_less_imp_less_exp [rotated]) simp
  then show ?thesis using \<open>a \<le> m\<close> by simp
qed

lemma small_aligned:
  assumes "f < 2 ^ 64" and "0 \<le> e \<longrightarrow> 0 \<le> exp10"
  shows "aligned f e closer exp10"
proof (cases "\<exists>k. f * 2 ^ nat e * 10 ^ k = 10 ^ nat exp10")
  case True
  then have "nat e < 30" using power_of_ten_factor assms(1) by blast
  then have "e < 0 \<or> (e + (if closer then 2 else 1)) div 32 = 0 \<and> 0 \<le> exp10 div 32"
    using assms(2) by (cases "e < 0") (auto simp: div_pos_pos_trivial pos_imp_zdiv_nonneg_iff)
  then show ?thesis by (auto simp: aligned_def)
qed (auto simp: aligned_def)

lemma small_estimate:
  assumes "f < 2 ^ 64" and "estimated_below f e exp10"
  shows "e < 0 \<or> exp10 div 32 \<le> e div 32" and "enough_digits e closer exp10 22"
proof -
  have b: "2 ^ nat (- e) * 10 ^ nat exp10 \<le> 100 * (f * 2 ^ nat e * 10 ^ nat (- exp10))"
    using assms(2) by (simp only: estimated_below_def)
  have "100 * (f * 2 ^ nat e * 10 ^ nat (- exp10)) \<le> 100 * (2 ^ 64 * 2 ^ nat e * 10 ^ nat (- exp10))"
    using assms(1) by (intro mult_le_mono2 mult_le_mono1) simp
  with b have c: "2 ^ nat (- e) * 10 ^ nat exp10 \<le> 100 * (2 ^ 64 * 2 ^ nat e * 10 ^ nat (- exp10) :: nat)" by (rule order_trans)
  show "e < 0 \<or> exp10 div 32 \<le> e div 32"
  proof (rule ccontr)
    assume "\<not> ?thesis"
    then have e: "0 \<le> e" "e div 32 < exp10 div 32" by auto
    define q where "q = nat (e div 32)"
    have "int q = e div 32" using e(1) by (simp add: q_def pos_imp_zdiv_nonneg_iff)
    then have "e < 32 * (int q + 1)" "32 * (int q + 1) \<le> exp10" using e by presburger+
    then have q: "nat e < 32 * Suc q" "32 * Suc q \<le> nat exp10" "0 \<le> exp10" using e
      by (simp_all add: nat_less_iff le_nat_iff)
    have "(10 :: nat) ^ (32 * Suc q) \<le> 10 ^ nat exp10" using q(2) by (intro power_increasing) simp_all
    also have "\<dots> \<le> 100 * (2 ^ 64 * 2 ^ nat e)" using c e(1) q(3) by simp
    also have "\<dots> \<le> 100 * (2 ^ 64 * 2 ^ (32 * Suc q))" using q(1) by (intro mult_le_mono2 power_increasing) simp_all
    finally have "(10 ^ 32) ^ Suc q \<le> 100 * 2 ^ 64 * ((2 :: nat) ^ 32) ^ Suc q" by (simp only: power_mult mult.assoc)
    moreover have "((10 :: nat) ^ 32) ^ Suc q = 5 ^ 32 ^ 1 * (2 ^ 32) * (10 ^ 32) ^ q" by simp
    moreover have "((2 :: nat) ^ 32) ^ q \<le> (10 ^ 32) ^ q" by (rule power_mono) simp_all
    then have "100 * 2 ^ 64 * ((2 :: nat) ^ 32) ^ Suc q \<le> 100 * 2 ^ 64 * 2 ^ 32 * (10 ^ 32) ^ q" by simp
    moreover have "(100 * 2 ^ 64 * 2 ^ 32) * (10 ^ 32) ^ q < (5 ^ 32 ^ 1 * (2 ^ 32)) * ((10 :: nat) ^ 32) ^ q"
      by (intro mult_strict_right_mono) simp_all
    ultimately show False by linarith
  qed
  have "2 ^ (if closer then 2 else 1) * (2 ^ nat (- e) * 10 ^ nat exp10) \<le> 4 * (100 * (2 ^ 64 * 2 ^ nat e * 10 ^ nat (- exp10)) :: nat)"
    by (rule mult_le_mono [OF _ c]) simp
  also have "\<dots> = 400 * 2 ^ 64 * (2 ^ nat e * 10 ^ nat (- exp10))" by simp
  also have "\<dots> \<le> 10 ^ 22 * (2 ^ nat e * 10 ^ nat (- exp10))" by (rule mult_le_mono1) simp
  finally show "enough_digits e closer exp10 22" by (simp only: enough_digits_def mult.commute)
qed

text \<open>
  C24. The shortest digits of a floating point number \<open>f * 2 ^ e\<close>, whose significand has up to 64 bits
  and whose decimal exponent is estimated at most two too high and not below the upper border: into an
  array of at least 23 characters they always end, without a failure, and the decimal number they give
  lies between the borders of the number (on them only if its significand is even), so that reading it
  gives the number back.
\<close>

theorem shortest_digits_round_to_the_number:
  fixes f :: "128 word"
  assumes "f \<noteq> 0" and "unat f < 2 ^ 64" and "\<bar>exp10\<bar> < 2 ^ 31 - 1" and "num_digits < 0" and "22 < capacity"
    and "estimated_below (unat f) e exp10" and "estimated_above (unat f) e exp10"
  shows "\<exists>w y. format_dragon f e flags num_digits capacity exp10 = Some (Inr (w, y)) \<and> all_digits w \<and> w \<noteq> []
    \<and> rounds_to (unat f) e (flags AND flag_predecessor_closer \<noteq> 0) (decimal w) y"
proof -
  have "0 < unat f" using assms(1) by (simp add: unat_gt_0)
  then have e: "0 \<le> e \<longrightarrow> 0 \<le> exp10" using estimated_nonneg [OF estimated_above_estimated [OF assms(7)]] by simp
  show ?thesis
    by (rule format_dragon_shortest [OF assms(1,3,4,7) small_aligned [OF assms(2) e] small_estimate [OF assms(2,6)] assms(5)])
qed

text \<open>The double nearest to 0.1, with an estimate that the fix-up corrects.\<close>

theorem shortest_digits_round_to_the_number_witness:
  "\<exists>w y. format_dragon 7205759403792794 (- 56) flag_fixup (- 1) 500 0 = Some (Inr (w, y)) \<and> all_digits w
    \<and> rounds_to 7205759403792794 (- 56) False (decimal w) y"
proof -
  have "estimated_above (unat (7205759403792794 :: 128 word)) (- 56) 0" "estimated_below (unat (7205759403792794 :: 128 word)) (- 56) 0"
    "\<not> flag_fixup AND flag_predecessor_closer \<noteq> 0"
    by (simp_all add: estimated_above_def estimated_below_def flag_fixup_def flag_predecessor_closer_def)
  then show ?thesis
    using shortest_digits_round_to_the_number [of 7205759403792794 0 "- 1" 500 "- 56" flag_fixup] by auto
qed

end
