(* ===== verification/Fmt_Uint128.thy ===== *)
theory Fmt_Uint128
  imports Prelude
begin

text \<open>
  The 128-bit numbers that the bundled fmt builds from two numbers of 64 bits (\<open>uint128_fallback\<close>
  and \<open>umul128\<close> in \<open>fmt/bundled/format.h\<close>, the products of Dragonbox in \<open>format-inl.h\<close>), and that
  they are the operations on 128-bit words. A shift by 0 shifts a half by 64 bits, which C++ leaves
  undefined.
\<close>

unbundle bit_operations_syntax

section \<open>Two halves\<close>

record uint128_fallback =
  u_hi :: u64
  u_lo :: u64

definition u128_of :: "u64 \<Rightarrow> uint128_fallback" where
  "u128_of v = \<lparr>u_hi = 0, u_lo = v\<rparr>"

definition u128_eq :: "uint128_fallback \<Rightarrow> uint128_fallback \<Rightarrow> bool" where
  "u128_eq l r \<longleftrightarrow> u_hi l = u_hi r \<and> u_lo l = u_lo r"

definition u128_neq :: "uint128_fallback \<Rightarrow> uint128_fallback \<Rightarrow> bool" where
  "u128_neq l r \<longleftrightarrow> \<not> u128_eq l r"

definition u128_greater :: "uint128_fallback \<Rightarrow> uint128_fallback \<Rightarrow> bool" where
  "u128_greater l r \<longleftrightarrow> (if u_hi l \<noteq> u_hi r then u_hi l > u_hi r else u_lo l > u_lo r)"

definition u128_or :: "uint128_fallback \<Rightarrow> uint128_fallback \<Rightarrow> uint128_fallback" where
  "u128_or l r = \<lparr>u_hi = u_hi l OR u_hi r, u_lo = u_lo l OR u_lo r\<rparr>"

definition u128_and :: "uint128_fallback \<Rightarrow> uint128_fallback \<Rightarrow> uint128_fallback" where
  "u128_and l r = \<lparr>u_hi = u_hi l AND u_hi r, u_lo = u_lo l AND u_lo r\<rparr>"

definition u128_not :: "uint128_fallback \<Rightarrow> uint128_fallback" where
  "u128_not n = \<lparr>u_hi = NOT (u_hi n), u_lo = NOT (u_lo n)\<rparr>"

definition u128_add_assign :: "uint128_fallback \<Rightarrow> uint128_fallback \<Rightarrow> fault + uint128_fallback" where
  "u128_add_assign s n =
     (let new_lo = u_lo s + u_lo n; new_hi = u_hi s + u_hi n + (if new_lo < u_lo s then 1 else 0) in
      if \<not> new_hi \<ge> u_hi s then Inl Assert_failed else Inr \<lparr>u_hi = new_hi, u_lo = new_lo\<rparr>)"

definition u128_add :: "uint128_fallback \<Rightarrow> uint128_fallback \<Rightarrow> fault + uint128_fallback" where
  "u128_add l r = u128_add_assign l r"

definition u128_mult32 :: "uint128_fallback \<Rightarrow> u32 \<Rightarrow> fault + uint128_fallback" where
  "u128_mult32 l r =
     (if u_hi l \<noteq> 0 then Inl Assert_failed
      else let hi = drop_bit 32 (u_lo l) * ucast r; lo = (u_lo l AND ucast (NOT 0 :: u32)) * ucast r;
               new_lo = push_bit 32 hi + lo in
           Inr \<lparr>u_hi = drop_bit 32 hi + (if new_lo < lo then 1 else 0), u_lo = new_lo\<rparr>)"

definition u128_sub64 :: "uint128_fallback \<Rightarrow> u64 \<Rightarrow> uint128_fallback" where
  "u128_sub64 l r = \<lparr>u_hi = u_hi l - (if u_lo l < r then 1 else 0), u_lo = u_lo l - r\<rparr>"

text \<open>A shift is defined for fewer bits than the number has.\<close>

definition checked_shr :: "'u::len word \<Rightarrow> int \<Rightarrow> fault + 'u word" where
  "checked_shr w n = (if 0 \<le> n \<and> n < int (LENGTH('u)) then Inr (drop_bit (nat n) w) else Inl Ub_overflow)"

definition checked_shl :: "'u::len word \<Rightarrow> int \<Rightarrow> fault + 'u word" where
  "checked_shl w n = (if 0 \<le> n \<and> n < int (LENGTH('u)) then Inr (push_bit (nat n) w) else Inl Ub_overflow)"

function u128_shr :: "uint128_fallback \<Rightarrow> int \<Rightarrow> fault + uint128_fallback" where
  "u128_shr s shift =
     (if shift = 64 then Inr \<lparr>u_hi = 0, u_lo = u_hi s\<rparr>
      else if shift > 64 then u128_shr \<lparr>u_hi = 0, u_lo = u_hi s\<rparr> (shift - 64)
      else andthen (checked_shr (u_hi s) shift) (\<lambda>hi. andthen (checked_shl (u_hi s) (64 - shift)) (\<lambda>mid.
           andthen (checked_shr (u_lo s) shift) (\<lambda>lo. Inr \<lparr>u_hi = hi, u_lo = mid OR lo\<rparr>))))"
  by pat_completeness auto

termination by (relation "measure (\<lambda>(s, shift). nat shift)") auto

declare u128_shr.simps [simp del]

function u128_shl :: "uint128_fallback \<Rightarrow> int \<Rightarrow> fault + uint128_fallback" where
  "u128_shl s shift =
     (if shift = 64 then Inr \<lparr>u_hi = u_lo s, u_lo = 0\<rparr>
      else if shift > 64 then u128_shl \<lparr>u_hi = u_lo s, u_lo = 0\<rparr> (shift - 64)
      else andthen (checked_shl (u_hi s) shift) (\<lambda>hi. andthen (checked_shr (u_lo s) (64 - shift)) (\<lambda>mid.
           andthen (checked_shl (u_lo s) shift) (\<lambda>lo. Inr \<lparr>u_hi = hi OR mid, u_lo = lo\<rparr>))))"
  by pat_completeness auto

termination by (relation "measure (\<lambda>(s, shift). nat shift)") auto

declare u128_shl.simps [simp del]

text \<open>The addition of a 64-bit number drops the carry out of the upper half.\<close>

definition u128_add64 :: "uint128_fallback \<Rightarrow> u64 \<Rightarrow> uint128_fallback" where
  "u128_add64 s n =
     (let lo = u_lo s + n in \<lparr>u_hi = u_hi s + (if lo < n then 1 else 0), u_lo = lo\<rparr>)"

section \<open>Products\<close>

text \<open>The product of two 64-bit numbers: from the 128-bit type of the compiler, or from 32-bit halves.\<close>

definition umul128_native :: "u64 \<Rightarrow> u64 \<Rightarrow> uint128_fallback" where
  "umul128_native x y =
     (let p = (ucast x :: 128 word) * ucast y in \<lparr>u_hi = ucast (drop_bit 64 p), u_lo = ucast p\<rparr>)"

definition umul128 :: "u64 \<Rightarrow> u64 \<Rightarrow> uint128_fallback" where
  "umul128 x y =
     (let mask = ucast (- 1 :: u32);
          a = drop_bit 32 x; b = x AND mask; c = drop_bit 32 y; d = y AND mask;
          ac = a * c; bc = b * c; ad = a * d; bd = b * d;
          intermediate = drop_bit 32 bd + (ad AND mask) + (bc AND mask) in
      \<lparr>u_hi = ac + drop_bit 32 intermediate + drop_bit 32 ad + drop_bit 32 bc,
       u_lo = push_bit 32 intermediate + (bd AND mask)\<rparr>)"

definition umul128_upper64_native :: "u64 \<Rightarrow> u64 \<Rightarrow> u64" where
  "umul128_upper64_native x y = (let p = (ucast x :: 128 word) * ucast y in ucast (drop_bit 64 p))"

definition umul128_upper64 :: "u64 \<Rightarrow> u64 \<Rightarrow> u64" where
  "umul128_upper64 x y = u_hi (umul128 x y)"

definition umul192_upper128 :: "u64 \<Rightarrow> uint128_fallback \<Rightarrow> uint128_fallback" where
  "umul192_upper128 x y = u128_add64 (umul128 x (u_hi y)) (umul128_upper64 x (u_lo y))"

definition umul192_lower128 :: "u64 \<Rightarrow> uint128_fallback \<Rightarrow> uint128_fallback" where
  "umul192_lower128 x y =
     (let high = x * u_hi y; high_low = umul128 x (u_lo y) in \<lparr>u_hi = high + u_hi high_low, u_lo = u_lo high_low\<rparr>)"

definition umul96_upper64 :: "u32 \<Rightarrow> u64 \<Rightarrow> u64" where
  "umul96_upper64 x y = umul128_upper64 (push_bit 32 (ucast x)) y"

definition umul96_lower64 :: "u32 \<Rightarrow> u64 \<Rightarrow> u64" where
  "umul96_lower64 x y = ucast x * y"

text \<open>\<open>rotr\<close> for 32 and 64 bits. Without a rotation the second shift is undefined.\<close>

definition rotr :: "'u::len word \<Rightarrow> u32 \<Rightarrow> fault + 'u word" where
  "rotr n r =
     (let r = unat (r AND word_of_nat (LENGTH('u) - 1)) in
      if r = 0 then Inl Ub_overflow else Inr (drop_bit r n OR push_bit (LENGTH('u) - r) n))"

text \<open>The loop runs forever for 0.\<close>

partial_function (option) countl_zero_loop :: "int \<Rightarrow> 'u::len word \<Rightarrow> int option" where
  "countl_zero_loop lz n =
     (if n AND push_bit (LENGTH('u) - 1) 1 = 0 then countl_zero_loop (lz + 1) (push_bit 1 n) else Some lz)"

declare countl_zero_loop.simps [code]

definition countl_zero_fallback :: "'u::len word \<Rightarrow> int option" where
  "countl_zero_fallback n = countl_zero_loop 0 n"

section \<open>Values\<close>

definition u128 :: "uint128_fallback \<Rightarrow> nat" where
  "u128 s = unat (u_hi s) * 2 ^ 64 + unat (u_lo s)"

lemma unat_less64 [simp]: "unat (w :: u64) < 2 ^ 64"
  using unsigned_less [of w] by simp

lemma u128_less: "u128 s < 2 ^ 128"
proof -
  have "unat (u_hi s) + 1 \<le> 2 ^ 64" using unat_less64 [of "u_hi s"] by simp
  then have "(unat (u_hi s) + 1) * 2 ^ 64 \<le> 2 ^ 64 * (2 ^ 64 :: nat)" by (rule mult_right_mono) simp
  then show ?thesis using unat_less64 [of "u_lo s"] unfolding u128_def by simp
qed

lemma u128_hi: "unat (u_hi s) = u128 s div 2 ^ 64" and u128_lo: "unat (u_lo s) = u128 s mod 2 ^ 64"
  using unat_less64 [of "u_lo s"] by (simp_all add: u128_def)

lemma u128_eq_iff: "u128_eq l r \<longleftrightarrow> u128 l = u128 r"
  unfolding u128_eq_def word_unat_eq_iff u128_hi u128_lo by (metis div_mult_mod_eq)

lemma u128_greater_iff: "u128_greater l r \<longleftrightarrow> u128 r < u128 l"
proof (cases "u_hi l = u_hi r")
  case True
  then show ?thesis by (simp add: u128_greater_def u128_def word_less_nat_alt)
next
  case False
  have less: "u128 s < u128 t" if "unat (u_hi s) < unat (u_hi t)" for s t
  proof -
    have "(unat (u_hi s) + 1) * 2 ^ 64 \<le> unat (u_hi t) * 2 ^ 64" using that by (intro mult_right_mono) simp_all
    then show ?thesis using unat_less64 [of "u_lo s"] unfolding u128_def by simp
  qed
  have "unat (u_hi l) \<noteq> unat (u_hi r)" using False by (simp add: word_unat_eq_iff)
  then show ?thesis using less [of l r] less [of r l] False
    by (auto simp: u128_greater_def word_less_nat_alt linorder_neq_iff)
qed

lemma unat_plus64: "unat (a + b) = (unat a + unat b) mod 2 ^ 64" for a b :: u64
  by (simp add: unat_word_ariths)

lemma unat_times64: "unat (a * b) = (unat a * unat b) mod 2 ^ 64" for a b :: u64
  by (simp add: unat_word_ariths)

lemma add_carry64:
  fixes a b :: u64
  shows "unat (a + b) + 2 ^ 64 * (if a + b < b then 1 else 0) = unat a + unat b" and "a + b < b \<longleftrightarrow> a + b < a"
proof -
  have w: "unat (a + b) = (unat a + unat b) mod 2 ^ 64" by (simp add: unat_word_ariths)
  have "unat (a + b) + 2 ^ 64 * (if a + b < b then 1 else 0) = unat a + unat b \<and> (a + b < b \<longleftrightarrow> a + b < a)"
  proof (cases "unat a + unat b < 2 ^ 64")
    case True
    then show ?thesis using w by (simp add: word_less_nat_alt)
  next
    case False
    have "unat a + unat b - 2 ^ 64 < 2 ^ 64" using unat_less64 [of a] unat_less64 [of b] by linarith
    then have "unat (a + b) = unat a + unat b - 2 ^ 64" using w False by (simp add: mod_if)
    then show ?thesis using False unat_less64 [of a] unat_less64 [of b] unfolding word_less_nat_alt by auto
  qed
  then show "unat (a + b) + 2 ^ 64 * (if a + b < b then 1 else 0) = unat a + unat b" "a + b < b \<longleftrightarrow> a + b < a"
    by blast+
qed

lemma mod_halves: "l < b \<Longrightarrow> h mod b * b + l = (h * b + l) mod (b * b)" for h l b :: nat
  by (simp add: mod_mult2_eq)

lemma u128_add64_value: "u128 (u128_add64 s n) = (u128 s + unat n) mod 2 ^ 128"
proof -
  let ?c = "if u_lo s + n < n then 1 else 0 :: u64"
  have lo: "unat (u_lo s + n) + 2 ^ 64 * unat ?c = unat (u_lo s) + unat n"
    using add_carry64(1) [of "u_lo s" n] by (simp split: if_splits)
  have hi: "unat (u_hi s + ?c) = (unat (u_hi s) + unat ?c) mod 2 ^ 64" by (rule unat_plus64)
  have "u128 (u128_add64 s n) = (unat (u_hi s) + unat ?c) mod 2 ^ 64 * 2 ^ 64 + unat (u_lo s + n)"
    unfolding u128_add64_def u128_def Let_def by (simp only: uint128_fallback.select_convs hi)
  also have "\<dots> = ((unat (u_hi s) + unat ?c) * 2 ^ 64 + unat (u_lo s + n)) mod (2 ^ 64 * 2 ^ 64)"
    by (rule mod_halves [OF unat_less64])
  also have "(unat (u_hi s) + unat ?c) * 2 ^ 64 + unat (u_lo s + n) = u128 s + unat n"
  proof -
    have "h * P + c * P + z = h * P + a + b" if "z + P * c = a + b" for h c z a b P :: nat
      using that by (simp add: mult.commute)
    then show ?thesis using lo unfolding u128_def add_mult_distrib by blast
  qed
  finally show ?thesis by simp
qed

text \<open>Sums and products of 64-bit numbers that stay below \<open>2 ^ 64\<close>.\<close>

lemma exact64:
  fixes a b :: u64
  shows "unat a + unat b < 2 ^ 64 \<Longrightarrow> unat (a + b) = unat a + unat b"
    and "unat a * unat b < 2 ^ 64 \<Longrightarrow> unat (a * b) = unat a * unat b"
  by (simp_all only: unat_plus64 unat_times64 mod_less)

lemma low_mask: "unat (w AND ucast (- 1 :: u32)) = unat w mod 2 ^ 32" for w :: u64
proof -
  have "(ucast (- 1 :: u32) :: u64) = mask 32" by (rule bit_word_eqI) (auto simp: bit_ucast_iff bit_mask_iff)
  then have "w AND ucast (- 1 :: u32) = take_bit 32 w" by (simp only: take_bit_eq_mask)
  then show ?thesis by (simp only: trans [OF unsigned_take_bit_eq take_bit_eq_mod])
qed

lemma shr_word: "unat (drop_bit n w) = unat w div 2 ^ n" for w :: "'u::len word"
  by (metis drop_bit_eq_div unat_drop_bit_eq)

lemma shl_word: "unat (push_bit n w) = unat w * 2 ^ n mod 2 ^ LENGTH('u)" for w :: "'u::len word"
  by (metis push_bit_eq_mult take_bit_eq_mod unsigned_push_bit_eq)

lemma umul128_value: "u128 (umul128 x y) = unat x * unat y"
proof -
  let ?B = "2 ^ 32 :: nat"
  define a b c d where "a = unat x div ?B" and "b = unat x mod ?B" and "c = unat y div ?B" and "d = unat y mod ?B"
  have half: "unat w div ?B < ?B" "unat w mod ?B < ?B" for w :: u64
    using unat_less64 [of w] by (simp_all add: less_mult_imp_div_less)
  note l = half [of x, folded a_def b_def] half [of y, folded c_def d_def]
  have x: "unat x = a * ?B + b" and y: "unat y = c * ?B + d" by (simp_all add: a_def b_def c_def d_def)
  have prod: "p * q < 2 ^ 64" if "p < ?B" "q < ?B" for p q :: nat
  proof -
    have "p * q \<le> (?B - 1) * (?B - 1)" using that by (intro mult_le_mono) simp_all
    then show ?thesis by simp
  qed
  define wac wbc wad wbd :: u64 where "wac = drop_bit 32 x * drop_bit 32 y"
    and "wbc = (x AND ucast (- 1 :: u32)) * drop_bit 32 y" and "wad = drop_bit 32 x * (y AND ucast (- 1 :: u32))"
    and "wbd = (x AND ucast (- 1 :: u32)) * (y AND ucast (- 1 :: u32))"
  have p: "unat wac = a * c" "unat wbc = b * c" "unat wad = a * d" "unat wbd = b * d"
    unfolding wac_def wbc_def wad_def wbd_def
    using l prod by (simp_all add: exact64(2) low_mask shr_word a_def b_def c_def d_def)
  define iw :: u64 where "iw = drop_bit 32 wbd + (wad AND ucast (- 1 :: u32)) + (wbc AND ucast (- 1 :: u32))"
  define i where "i = b * d div ?B + a * d mod ?B + b * c mod ?B"
  have s: "unat (drop_bit 32 wbd) = b * d div ?B" "unat (wad AND ucast (- 1 :: u32)) = a * d mod ?B"
    "unat (wbc AND ucast (- 1 :: u32)) = b * c mod ?B" "unat (wbd AND ucast (- 1 :: u32)) = b * d mod ?B"
    "unat (drop_bit 32 wad) = a * d div ?B" "unat (drop_bit 32 wbc) = b * c div ?B"
    by (simp_all only: low_mask shr_word p)
  have small: "b * d div ?B < ?B" "a * d mod ?B < ?B" "b * c mod ?B < ?B" "b * d mod ?B < ?B"
    using prod [of b d] l by (simp_all add: less_mult_imp_div_less)
  have iw1: "unat (drop_bit 32 wbd + (wad AND ucast (- 1 :: u32))) = b * d div ?B + a * d mod ?B"
    using small by (subst exact64(1)) (simp_all only: s, simp_all)
  have iw: "unat iw = i"
    unfolding iw_def i_def using small by (subst exact64(1)) (simp_all only: s iw1, simp_all)
  define H where "H = a * c + i div ?B + a * d div ?B + b * c div ?B"
  define L where "L = i mod ?B * ?B + b * d mod ?B"
  have total: "H * 2 ^ 64 + L = unat x * unat y"
  proof -
    have split: "p = p div ?B * ?B + p mod ?B" for p :: nat by simp
    have "unat x * unat y = a * c * ?B * ?B + (a * d + b * c) * ?B + b * d"
      unfolding x y by (simp add: algebra_simps)
    also have "\<dots> = a * c * ?B * ?B + ((a * d div ?B * ?B + a * d mod ?B) + (b * c div ?B * ?B + b * c mod ?B)) * ?B
        + (b * d div ?B * ?B + b * d mod ?B)" by (simp only: split [symmetric])
    also have "\<dots> = a * c * ?B * ?B + (a * d div ?B * ?B + b * c div ?B * ?B) * ?B + i * ?B + b * d mod ?B"
      unfolding i_def by (simp only: add_mult_distrib add_mult_distrib2 ac_simps)
    also have "\<dots> = a * c * ?B * ?B + (a * d div ?B * ?B + b * c div ?B * ?B) * ?B + (i div ?B * ?B + i mod ?B) * ?B + b * d mod ?B"
      by (simp only: split [symmetric])
    also have "\<dots> = H * (?B * ?B) + L"
      unfolding H_def L_def by (simp only: add_mult_distrib add_mult_distrib2 ac_simps)
    finally show ?thesis by simp
  qed
  have "H < 2 ^ 64"
  proof -
    have "unat x * unat y < 2 ^ 64 * 2 ^ 64" using unat_less64 [of x] unat_less64 [of y] by (intro mult_strict_mono) simp_all
    then have "H * 2 ^ 64 < 2 ^ 64 * 2 ^ 64" using total by linarith
    then show ?thesis by (simp only: mult_less_cancel2)
  qed
  then have h: "a * c + i div ?B < 2 ^ 64" "a * c + i div ?B + a * d div ?B < 2 ^ 64" "a * c + i div ?B + a * d div ?B + b * c div ?B < 2 ^ 64"
    unfolding H_def by linarith+
  have i32: "unat (drop_bit 32 iw) = i div ?B" by (simp only: shr_word iw)
  have h1: "unat (wac + drop_bit 32 iw) = a * c + i div ?B" using h(1) by (simp add: exact64(1) p i32)
  have h2: "unat (wac + drop_bit 32 iw + drop_bit 32 wad) = a * c + i div ?B + a * d div ?B"
    using h(2) exact64(1) [of "wac + drop_bit 32 iw" "drop_bit 32 wad"] unfolding h1 s by simp
  have h3: "unat (wac + drop_bit 32 iw + drop_bit 32 wad + drop_bit 32 wbc) = H"
    using h(3) exact64(1) [of "wac + drop_bit 32 iw + drop_bit 32 wad" "drop_bit 32 wbc"] unfolding h2 s H_def by simp
  have pi: "unat (push_bit 32 iw) = i mod ?B * ?B"
    unfolding shl_word iw using mult_mod_left [of i ?B ?B] by simp
  have "i mod ?B * ?B + b * d mod ?B < 2 ^ 64"
  proof -
    have "i mod ?B + 1 \<le> ?B" by (simp add: Suc_le_eq)
    then have "(i mod ?B + 1) * ?B \<le> ?B * ?B" by (rule mult_right_mono) simp
    then show ?thesis using small(4) by simp
  qed
  then have lo: "unat (push_bit 32 iw + (wbd AND ucast (- 1 :: u32))) = L"
    unfolding L_def using exact64(1) [of "push_bit 32 iw" "wbd AND ucast (- 1 :: u32)"] unfolding pi s by simp
  have "umul128 x y = \<lparr>u_hi = wac + drop_bit 32 iw + drop_bit 32 wad + drop_bit 32 wbc, u_lo = push_bit 32 iw + (wbd AND ucast (- 1 :: u32))\<rparr>"
    by (simp only: umul128_def Let_def wac_def wbc_def wad_def wbd_def iw_def)
  then show ?thesis using h3 lo total by (simp add: u128_def)
qed

text \<open>Both ways to multiply give the same number.\<close>

lemma u128_inject: "u128 s = u128 t \<Longrightarrow> s = t"
  using u128_eq_iff [of s t] by (simp add: u128_eq_def)

lemma umul128_native_value: "u128 (umul128_native x y) = unat x * unat y"
proof -
  define p :: "128 word" where "p = ucast x * ucast y"
  have up: "unat (ucast w :: 128 word) = unat w" for w :: u64
    using unat_less64 [of w] by (simp add: unsigned_ucast_eq take_bit_eq_mod)
  have "unat x * unat y < 2 ^ 64 * 2 ^ 64" using unat_less64 [of x] unat_less64 [of y] by (intro mult_strict_mono) simp_all
  then have p: "unat p = unat x * unat y" unfolding p_def by (simp add: unat_word_ariths up)
  have "unat p < 2 ^ LENGTH(128)" by (rule unsigned_less)
  then have "unat p div 2 ^ 64 < 2 ^ 64" by (simp add: less_mult_imp_div_less)
  then have "unat (ucast (drop_bit 64 p) :: u64) = unat p div 2 ^ 64"
    by (simp add: unsigned_ucast_eq take_bit_eq_mod shr_word)
  moreover have "unat (ucast p :: u64) = unat p mod 2 ^ 64" by (simp add: unsigned_ucast_eq take_bit_eq_mod)
  ultimately show ?thesis unfolding umul128_native_def u128_def Let_def p_def [symmetric] by (simp add: p)
qed

lemma umul128_native: "umul128 x y = umul128_native x y"
  by (rule u128_inject) (simp only: umul128_value umul128_native_value)

lemma umul128_upper64_value: "unat (umul128_upper64 x y) = unat x * unat y div 2 ^ 64"
  by (simp only: umul128_upper64_def u128_hi umul128_value)

lemma umul128_upper64_native: "umul128_upper64 x y = umul128_upper64_native x y"
  by (simp add: umul128_upper64_def umul128_upper64_native_def umul128_native umul128_native_def Let_def)

lemma umul192_upper128_value: "u128 (umul192_upper128 x y) = unat x * u128 y div 2 ^ 64"
proof -
  let ?x = "unat x" and ?h = "unat (u_hi y)" and ?l = "unat (u_lo y)"
  have "?x * ?l \<le> ?x * 2 ^ 64" by (intro mult_le_mono2 less_imp_le unat_less64)
  then have "?x * ?l div 2 ^ 64 \<le> ?x" using div_le_mono [of "?x * ?l" "?x * 2 ^ 64" "2 ^ 64"] by simp
  moreover have "?x * ?h + ?x = ?x * (?h + 1)" by simp
  moreover have "?x * (?h + 1) < 2 ^ 64 * 2 ^ 64"
    using unat_less64 [of x] unat_less64 [of "u_hi y"] by (intro mult_less_le_imp_less) (simp_all add: Suc_le_eq)
  ultimately have less: "?x * ?h + ?x * ?l div 2 ^ 64 < 2 ^ 128" by simp
  have "u128 (umul192_upper128 x y) = (?x * ?h + ?x * ?l div 2 ^ 64) mod 2 ^ 128"
    by (simp only: umul192_upper128_def u128_add64_value umul128_value umul128_upper64_value)
  also have "\<dots> = ?x * ?h + ?x * ?l div 2 ^ 64" using less by (rule mod_less)
  also have "\<dots> = (?x * ?h * 2 ^ 64 + ?x * ?l) div 2 ^ 64" by simp
  finally show ?thesis by (simp only: u128_def distrib_left mult.assoc)
qed

lemma umul192_lower128_value: "u128 (umul192_lower128 x y) = unat x * u128 y mod 2 ^ 128"
proof -
  let ?x = "unat x" and ?h = "unat (u_hi y)" and ?l = "unat (u_lo y)"
  have "u128 (umul192_lower128 x y) = (?x * ?h + ?x * ?l div 2 ^ 64) mod 2 ^ 64 * 2 ^ 64 + ?x * ?l mod 2 ^ 64"
    unfolding umul192_lower128_def u128_def Let_def
    by (simp only: uint128_fallback.select_convs unat_plus64 unat_times64 u128_hi [of "umul128 _ _"] u128_lo [of "umul128 _ _"] umul128_value mod_add_left_eq)
  also have "\<dots> = ((?x * ?h + ?x * ?l div 2 ^ 64) * 2 ^ 64 + ?x * ?l mod 2 ^ 64) mod (2 ^ 64 * 2 ^ 64)"
    by (rule mod_halves) simp
  also have "(?x * ?h + ?x * ?l div 2 ^ 64) * 2 ^ 64 + ?x * ?l mod 2 ^ 64 = ?x * u128 y"
    using div_mult_mod_eq [of "?x * ?l" "2 ^ 64"] unfolding u128_def distrib_left add_mult_distrib mult.assoc by linarith
  finally show ?thesis by simp
qed

section \<open>Shifts and bitwise operations\<close>

lemma bit_u64: "bit (w :: u64) n \<Longrightarrow> n < 64"
  using bit_imp_le_length [of w n] by simp

lemma bit_u128: "bit (u128 s) n \<longleftrightarrow> (if n < 64 then bit (u_lo s) n else bit (u_hi s) (n - 64))"
proof -
  have "u128 s = push_bit 64 (unat (u_hi s)) + unat (u_lo s)" by (simp add: u128_def push_bit_eq_mult)
  also have "\<dots> = push_bit 64 (unat (u_hi s)) OR unat (u_lo s)"
    by (rule disjunctive_add) (auto simp: bit_push_bit_iff bit_unsigned_iff dest: bit_u64)
  finally show ?thesis by (auto simp: bit_or_iff bit_push_bit_iff bit_unsigned_iff dest: bit_u64)
qed

lemma u128_bitwise:
  "u128 (u128_or l r) = u128 l OR u128 r" "u128 (u128_and l r) = u128 l AND u128 r"
  by (rule bit_eqI, simp add: bit_u128 u128_or_def u128_and_def bit_or_iff bit_and_iff)+

lemma u128_not_value: "u128 (u128_not n) = 2 ^ 128 - 1 - u128 n"
proof -
  have c: "unat (NOT w) = 2 ^ 64 - 1 - unat w" for w :: u64
  proof -
    have "NOT w = - 1 - w" by (simp add: not_eq_complement)
    moreover have "unat (- 1 - w) = unat (- 1 :: u64) - unat w" by (rule unat_sub) simp
    moreover have "unat (- 1 :: u64) = 2 ^ 64 - 1" by (simp add: unsigned_minus_1_eq_mask mask_eq_exp_minus_1)
    ultimately show ?thesis by simp
  qed
  have "unat (u_hi n) \<le> 2 ^ 64 - 1" "unat (u_lo n) \<le> 2 ^ 64 - 1"
    using unat_less64 [of "u_hi n"] unat_less64 [of "u_lo n"] by simp_all
  then show ?thesis by (simp add: u128_not_def u128_def c diff_mult_distrib)
qed

lemma u128_shr_value: "0 < k \<Longrightarrow> \<exists>r. u128_shr s k = Inr r \<and> u128 r = drop_bit (nat k) (u128 s)"
proof (induction s k rule: u128_shr.induct)
  case (1 s k)
  consider "k = 64" | "k > 64" | "k < 64" by linarith
  then show ?case
  proof cases
    case 1
    have "u128 \<lparr>u_hi = 0, u_lo = u_hi s\<rparr> = drop_bit 64 (u128 s)"
      by (rule bit_eqI) (auto simp: bit_u128 bit_drop_bit_eq dest: bit_u64)
    then show ?thesis using 1 by (simp add: u128_shr.simps [of s 64])
  next
    case 2
    have half: "u128 \<lparr>u_hi = 0, u_lo = u_hi s\<rparr> = drop_bit 64 (u128 s)"
      by (rule bit_eqI) (auto simp: bit_u128 bit_drop_bit_eq dest: bit_u64)
    obtain r where r: "u128_shr \<lparr>u_hi = 0, u_lo = u_hi s\<rparr> (k - 64) = Inr r"
      "u128 r = drop_bit (nat (k - 64)) (drop_bit 64 (u128 s))"
      using 1(1) 2 half by auto
    have "nat (k - 64) + 64 = nat k" using 2 by simp
    then show ?thesis using 2 r by (simp add: u128_shr.simps [of s k])
  next
    case 3
    define n where "n = nat k"
    have n: "0 < n" "n < 64" "nat (64 - k) = 64 - n" using 1(2) 3 by (simp_all add: n_def nat_diff_distrib)
    let ?r = "\<lparr>u_hi = drop_bit n (u_hi s), u_lo = push_bit (64 - n) (u_hi s) OR drop_bit n (u_lo s)\<rparr>"
    have "u128 ?r = drop_bit n (u128 s)"
      using n by (intro bit_eqI) (auto simp: bit_u128 bit_drop_bit_eq bit_or_iff bit_push_bit_iff add.commute dest: bit_u64)
    then show ?thesis using 3 1(2) n(3) by (simp add: u128_shr.simps [of s k] checked_shr_def checked_shl_def n_def)
  qed
qed

lemma u128_shl_value: "0 < k \<Longrightarrow> \<exists>r. u128_shl s k = Inr r \<and> u128 r = take_bit 128 (push_bit (nat k) (u128 s))"
proof (induction s k rule: u128_shl.induct)
  case (1 s k)
  have half: "u128 \<lparr>u_hi = u_lo s, u_lo = 0\<rparr> = take_bit 128 (push_bit 64 (u128 s))"
    by (rule bit_eqI) (auto simp: bit_u128 bit_take_bit_iff bit_push_bit_iff dest: bit_u64)
  consider "k = 64" | "k > 64" | "k < 64" by linarith
  then show ?case
  proof cases
    case 1
    then show ?thesis using half by (simp add: u128_shl.simps [of s 64])
  next
    case 2
    obtain r where r: "u128_shl \<lparr>u_hi = u_lo s, u_lo = 0\<rparr> (k - 64) = Inr r"
      "u128 r = take_bit 128 (push_bit (nat (k - 64)) (take_bit 128 (push_bit 64 (u128 s))))"
      using 1(1) 2 half by auto
    have k: "nat (k - 64) + 64 = nat k" using 2 by simp
    have "u128 r = take_bit 128 (push_bit (nat k) (u128 s))"
      unfolding r(2) k [symmetric]
      by (rule bit_eqI) (auto simp: bit_take_bit_iff bit_push_bit_iff)
    then show ?thesis using 2 r(1) by (simp add: u128_shl.simps [of s k])
  next
    case 3
    define n where "n = nat k"
    have n: "0 < n" "n < 64" "nat (64 - k) = 64 - n" using 1(2) 3 by (simp_all add: n_def nat_diff_distrib)
    let ?r = "\<lparr>u_hi = push_bit n (u_hi s) OR drop_bit (64 - n) (u_lo s), u_lo = push_bit n (u_lo s)\<rparr>"
    have "u128 ?r = take_bit 128 (push_bit n (u128 s))"
      using n by (intro bit_eqI) (auto simp: bit_u128 bit_drop_bit_eq bit_or_iff bit_push_bit_iff bit_take_bit_iff add.commute dest: bit_u64)
    then show ?thesis using 3 1(2) n(3) by (simp add: u128_shl.simps [of s k] checked_shr_def checked_shl_def n_def)
  qed
qed

lemma u128_shift_by_zero_is_undefined: "u128_shr s 0 = Inl Ub_overflow" "u128_shl s 0 = Inl Ub_overflow"
  by (simp_all add: u128_shr.simps u128_shl.simps checked_shr_def checked_shl_def)

section \<open>Sums\<close>

lemma u128_add_assign_value:
  "u128 s + u128 n < 2 ^ 128 \<Longrightarrow> \<exists>r. u128_add_assign s n = Inr r \<and> u128 r = u128 s + u128 n"
proof -
  assume h: "u128 s + u128 n < 2 ^ 128"
  define c :: u64 where "c = (if u_lo s + u_lo n < u_lo s then 1 else 0)"
  have lo: "unat (u_lo s + u_lo n) + 2 ^ 64 * unat c = unat (u_lo s) + unat (u_lo n)"
    using add_carry64 [of "u_lo s" "u_lo n"] by (simp add: c_def split: if_splits)
  define hi where "hi = unat (u_hi s) + unat (u_hi n) + unat c"
  have "(h + h' + c) * P + z = h * P + a + (h' * P + b)" if "z + P * c = a + b" for h h' c z a b P :: nat
    using that by (simp add: algebra_simps)
  then have total: "hi * 2 ^ 64 + unat (u_lo s + u_lo n) = u128 s + u128 n"
    using lo unfolding hi_def u128_def by blast
  then have "hi * 2 ^ 64 < 2 ^ 64 * 2 ^ 64" using h by simp
  then have hi: "hi < 2 ^ 64" by (simp only: mult_less_cancel2)
  then have "unat (u_hi s + u_hi n + c) = hi" unfolding hi_def by (simp add: exact64(1))
  then show ?thesis using total by (simp add: u128_add_assign_def Let_def u128_def word_le_nat_alt hi_def flip: c_def)
qed

text \<open>The assertion does not see every overflow.\<close>

lemma overflow_passes_the_assertion:
  "u128_add_assign \<lparr>u_hi = 0, u_lo = 1\<rparr> \<lparr>u_hi = - 1, u_lo = - 1\<rparr> = Inr \<lparr>u_hi = 0, u_lo = 0\<rparr>"
  by (simp add: u128_add_assign_def Let_def)

end
