(* ===== verification/Fmt_Dragonbox.thy ===== *)
theory Fmt_Dragonbox
  imports Fmt_Uint128
begin

text \<open>
  The shortest decimal digits of a \<open>float\<close> or \<open>double\<close> by the algorithm Dragonbox
  (\<open>dragonbox\<close> in \<open>fmt/bundled/format.h\<close> and \<open>format-inl.h\<close>, with the compressed table of powers of
  ten). What the C++ templates take from \<open>float_info\<close> and \<open>cache_accessor\<close> is a record of constants
  and functions here; both types instantiate it. A floating point number is given by its bits.
\<close>

unbundle bit_operations_syntax

section \<open>Logarithms\<close>

text \<open>The right shift of a negative number is arithmetic.\<close>

definition floor_log10_pow2 :: "int \<Rightarrow> fault + int" where
  "floor_log10_pow2 e = (if e \<le> 2620 \<and> e \<ge> - 2620 then Inr (drop_bit 20 (e * 315653)) else Inl Assert_failed)"

definition floor_log2_pow10 :: "int \<Rightarrow> fault + int" where
  "floor_log2_pow10 e = (if e \<le> 1233 \<and> e \<ge> - 1233 then Inr (drop_bit 19 (e * 1741647)) else Inl Assert_failed)"

definition floor_log10_pow2_minus_log10_4_over_3 :: "int \<Rightarrow> fault + int" where
  "floor_log10_pow2_minus_log10_4_over_3 e =
     (if e \<le> 2936 \<and> e \<ge> - 2985 then Inr (drop_bit 21 (e * 631305 - 261663)) else Inl Assert_failed)"

section \<open>Divisions by multiplication\<close>

definition div_small_pow10_infos :: "nat \<Rightarrow> u32 \<times> nat" where
  "div_small_pow10_infos N = [(10, 16), (100, 16)] ! (N - 1)"

definition magic_number :: "nat \<Rightarrow> u32" where
  "magic_number N = (case div_small_pow10_infos N of (divisor, shift_amount) \<Rightarrow> push_bit shift_amount 1 div divisor + 1)"

definition check_divisibility_and_divide_by_pow10 :: "nat \<Rightarrow> u32 \<Rightarrow> fault + (bool \<times> u32)" where
  "check_divisibility_and_divide_by_pow10 N n =
     (case div_small_pow10_infos N of (divisor, shift_amount) \<Rightarrow>
        if \<not> n \<le> divisor * 10 then Inl Assert_failed
        else let n = n * magic_number N; comparison_mask = push_bit shift_amount 1 - 1 in
             Inr (n AND comparison_mask < magic_number N, drop_bit shift_amount n))"

definition small_division_by_pow10 :: "nat \<Rightarrow> u32 \<Rightarrow> fault + u32" where
  "small_division_by_pow10 N n =
     (case div_small_pow10_infos N of (divisor, shift_amount) \<Rightarrow>
        if \<not> n \<le> divisor * 10 then Inl Assert_failed else Inr (drop_bit shift_amount (n * magic_number N)))"

definition divide_by_10_to_kappa_plus_1_float :: "u32 \<Rightarrow> u32" where
  "divide_by_10_to_kappa_plus_1_float n = ucast (drop_bit 37 ((ucast n :: u64) * 1374389535))"

definition divide_by_10_to_kappa_plus_1_double :: "u64 \<Rightarrow> u64" where
  "divide_by_10_to_kappa_plus_1_double n = drop_bit 7 (umul128_upper64 n 2361183241434822607)"

section \<open>Trailing zeros\<close>

text \<open>
  A product with the inverse of 25, rotated, is the hundredth of a number that is divisible by 100,
  and greater than every hundredth otherwise. The loop runs forever for 0.
\<close>

partial_function (option) remove_zeros_loop ::
  "'u::len word \<Rightarrow> 'u word \<Rightarrow> int \<Rightarrow> (fault + ('u word \<times> int)) option" where
  "remove_zeros_loop mod_inv_25 n s =
     (case rotr (n * mod_inv_25) 2 of
        Inl e \<Rightarrow> Some (Inl e)
      | Inr r \<Rightarrow> if r > (- 1) div 100 then Some (Inr (n, s)) else remove_zeros_loop mod_inv_25 r (s + 2))"

declare remove_zeros_loop.simps [code]

definition remove_last_zero :: "'u::len word \<Rightarrow> 'u word \<Rightarrow> int \<Rightarrow> fault + ('u word \<times> int)" where
  "remove_last_zero mod_inv_5 n s =
     andthen (rotr (n * mod_inv_5) 1) (\<lambda>r. Inr (if r \<le> (- 1) div 10 then (r, s OR 1) else (n, s)))"

definition remove_trailing_zeros_float :: "u32 \<Rightarrow> int \<Rightarrow> (fault + (u32 \<times> int)) option" where
  "remove_trailing_zeros_float n s =
     (if n = 0 then Some (Inl Assert_failed)
      else seq_opt (remove_zeros_loop 0xc28f5c29 n s) (\<lambda>(n, s). Some (remove_last_zero 0xcccccccd n s)))"

definition remove_trailing_zeros_double :: "u64 \<Rightarrow> (fault + (u64 \<times> int)) option" where
  "remove_trailing_zeros_double n =
     (if n = 0 then Some (Inl Assert_failed)
      else let magic = 12379400392853802749; nm = umul128 n magic in
           if u_hi nm AND (push_bit (90 - 64) 1 - 1) = 0 \<and> u_lo nm < magic
           then seq_opt (remove_trailing_zeros_float (ucast (drop_bit (90 - 64) (u_hi nm))) 8) (\<lambda>(n32, s).
                Some (Inr (ucast n32, s)))
           else seq_opt (remove_zeros_loop 0x8f5c28f5c28f5c29 n 0) (\<lambda>(n, s).
                Some (remove_last_zero 0xcccccccccccccccd n s)))"

section \<open>Powers of ten\<close>

definition pow10_significands_float :: "u64 list" where
  "pow10_significands_float =
     [0x81ceb32c4b43fcf5, 0xa2425ff75e14fc32, 0xcad2f7f5359a3b3f, 0xfd87b5f28300ca0e, 0x9e74d1b791e07e49,
      0xc612062576589ddb, 0xf79687aed3eec552, 0x9abe14cd44753b53, 0xc16d9a0095928a28, 0xf1c90080baf72cb2,
      0x971da05074da7bef, 0xbce5086492111aeb, 0xec1e4a7db69561a6, 0x9392ee8e921d5d08, 0xb877aa3236a4b44a,
      0xe69594bec44de15c, 0x901d7cf73ab0acda, 0xb424dc35095cd810, 0xe12e13424bb40e14, 0x8cbccc096f5088cc,
      0xafebff0bcb24aaff, 0xdbe6fecebdedd5bf, 0x89705f4136b4a598, 0xabcc77118461cefd, 0xd6bf94d5e57a42bd,
      0x8637bd05af6c69b6, 0xa7c5ac471b478424, 0xd1b71758e219652c, 0x83126e978d4fdf3c, 0xa3d70a3d70a3d70b,
      0xcccccccccccccccd, 0x8000000000000000, 0xa000000000000000, 0xc800000000000000, 0xfa00000000000000,
      0x9c40000000000000, 0xc350000000000000, 0xf424000000000000, 0x9896800000000000, 0xbebc200000000000,
      0xee6b280000000000, 0x9502f90000000000, 0xba43b74000000000, 0xe8d4a51000000000, 0x9184e72a00000000,
      0xb5e620f480000000, 0xe35fa931a0000000, 0x8e1bc9bf04000000, 0xb1a2bc2ec5000000, 0xde0b6b3a76400000,
      0x8ac7230489e80000, 0xad78ebc5ac620000, 0xd8d726b7177a8000, 0x878678326eac9000, 0xa968163f0a57b400,
      0xd3c21bcecceda100, 0x84595161401484a0, 0xa56fa5b99019a5c8, 0xcecb8f27f4200f3a, 0x813f3978f8940985,
      0xa18f07d736b90be6, 0xc9f2c9cd04674edf, 0xfc6f7c4045812297, 0x9dc5ada82b70b59e, 0xc5371912364ce306,
      0xf684df56c3e01bc7, 0x9a130b963a6c115d, 0xc097ce7bc90715b4, 0xf0bdc21abb48db21, 0x96769950b50d88f5,
      0xbc143fa4e250eb32, 0xeb194f8e1ae525fe, 0x92efd1b8d0cf37bf, 0xb7abc627050305ae, 0xe596b7b0c643c71a,
      0x8f7e32ce7bea5c70, 0xb35dbf821ae4f38c, 0xe0352f62a19e306f]"

definition pow10_significands_double :: "uint128_fallback list" where
  "pow10_significands_double = map (\<lambda>(hi, lo). \<lparr>u_hi = hi, u_lo = lo\<rparr>)
     [(0xff77b1fcbebcdc4f, 0x25e8e89c13bb0f7b), (0xce5d73ff402d98e3, 0xfb0a3d212dc81290),
      (0xa6b34ad8c9dfc06f, 0xf42faa48c0ea481f), (0x86a8d39ef77164bc, 0xae5dff9c02033198),
      (0xd98ddaee19068c76, 0x3badd624dd9b0958), (0xafbd2350644eeacf, 0xe5d1929ef90898fb),
      (0x8df5efabc5979c8f, 0xca8d3ffa1ef463c2), (0xe55990879ddcaabd, 0xcc420a6a101d0516),
      (0xb94470938fa89bce, 0xf808e40e8d5b3e6a), (0x95a8637627989aad, 0xdde7001379a44aa9),
      (0xf1c90080baf72cb1, 0x5324c68b12dd6339), (0xc350000000000000, 0x0000000000000000),
      (0x9dc5ada82b70b59d, 0xf020000000000000), (0xfee50b7025c36a08, 0x02f236d04753d5b5),
      (0xcde6fd5e09abcf26, 0xed4c0226b55e6f87), (0xa6539930bf6bff45, 0x84db8346b786151d),
      (0x865b86925b9bc5c2, 0x0b8a2392ba45a9b3), (0xd910f7ff28069da4, 0x1b2ba1518094da05),
      (0xaf58416654a6babb, 0x387ac8d1970027b3), (0x8da471a9de737e24, 0x5ceaecfed289e5d3),
      (0xe4d5e82392a40515, 0x0fabaf3feaa5334b), (0xb8da1662e7b00a17, 0x3d6a751f3b936244),
      (0x95527a5202df0ccb, 0x0f37801e0c43ebc9), (0xf13e34aabb430a15, 0x647726b9e7c68ff0)]"

definition powers_of_5_64 :: "u64 list" where
  "powers_of_5_64 =
     [0x0000000000000001, 0x0000000000000005, 0x0000000000000019, 0x000000000000007d, 0x0000000000000271,
      0x0000000000000c35, 0x0000000000003d09, 0x000000000001312d, 0x000000000005f5e1, 0x00000000001dcd65,
      0x00000000009502f9, 0x0000000002e90edd, 0x000000000e8d4a51, 0x0000000048c27395, 0x000000016bcc41e9,
      0x000000071afd498d, 0x0000002386f26fc1, 0x000000b1a2bc2ec5, 0x000003782dace9d9, 0x00001158e460913d,
      0x000056bc75e2d631, 0x0001b1ae4d6e2ef5, 0x000878678326eac9, 0x002a5a058fc295ed, 0x00d3c21bcecceda1,
      0x0422ca8b0a00a425, 0x14adf4b7320334b9]"

definition get_cached_power_float :: "int \<Rightarrow> fault + u64" where
  "get_cached_power_float k =
     (if \<not> (k \<ge> - 31 \<and> k \<le> 46) then Inl Assert_failed else at_index pow10_significands_float (nat (k - (- 31))))"

text \<open>The table holds every 27th power; the others are found by a product with a power of 5.\<close>

definition compression_ratio :: int where "compression_ratio = 27"

definition recover_cache :: "uint128_fallback \<Rightarrow> u64 \<Rightarrow> int \<Rightarrow> fault + uint128_fallback" where
  "recover_cache base_cache pow5 alpha =
     (let recovered = umul128 (u_hi base_cache) pow5; middle_low = umul128 (u_lo base_cache) pow5;
          recovered = u128_add64 recovered (u_hi middle_low) in
      andthen (checked_shl (u_hi recovered) (64 - alpha)) (\<lambda>high_to_middle.
      andthen (checked_shl (u_lo recovered) (64 - alpha)) (\<lambda>middle_to_low.
      andthen (checked_shr (u_lo recovered) alpha) (\<lambda>hi.
      andthen (checked_shr (u_lo middle_low) alpha) (\<lambda>lo.
      let r = \<lparr>u_hi = hi OR high_to_middle, u_lo = lo OR middle_to_low\<rparr> in
      if u_lo r + 1 = 0 then Inl Assert_failed else Inr \<lparr>u_hi = u_hi r, u_lo = u_lo r + 1\<rparr>)))))"

definition get_cached_power :: "int \<Rightarrow> fault + uint128_fallback" where
  "get_cached_power k =
     (if \<not> (k \<ge> - 292 \<and> k \<le> 341) then Inl Assert_failed
      else let cache_index = (k - (- 292)) div compression_ratio;
               kb = cache_index * compression_ratio + (- 292); offset = k - kb in
           andthen (at_index pow10_significands_double (nat cache_index)) (\<lambda>base_cache.
           if offset = 0 then Inr base_cache
           else andthen (floor_log2_pow10 (kb + offset)) (\<lambda>l. andthen (floor_log2_pow10 kb) (\<lambda>lb.
                let alpha = l - lb - offset in
                if \<not> (alpha > 0 \<and> alpha < 64) then Inl Assert_failed
                else andthen (at_index powers_of_5_64 (nat offset)) (\<lambda>pow5. recover_cache base_cache pow5 alpha)))))"

section \<open>The two types\<close>

text \<open>
  \<open>float_info\<close> and \<open>cache_accessor\<close>: constants, the cached power, and the products and shifts of
  the significand with it.
\<close>

record ('w, 'c) float_info =
  fi_significand_bits :: nat
  fi_exponent_bits :: nat
  fi_bias :: int
  fi_min_exponent :: int
  fi_kappa :: nat
  fi_big_divisor :: u32
  fi_small_divisor :: u32
  fi_tie_lower :: int
  fi_tie_upper :: int
  fi_cache :: "int \<Rightarrow> fault + 'c"
  fi_mul :: "'w \<Rightarrow> 'c \<Rightarrow> 'w \<times> bool"
  fi_delta :: "'c \<Rightarrow> int \<Rightarrow> fault + u32"
  fi_parity :: "'w \<Rightarrow> 'c \<Rightarrow> int \<Rightarrow> fault + (bool \<times> bool)"
  fi_left :: "'c \<Rightarrow> int \<Rightarrow> fault + 'w"
  fi_right :: "'c \<Rightarrow> int \<Rightarrow> fault + 'w"
  fi_round_up :: "'c \<Rightarrow> int \<Rightarrow> fault + 'w"
  fi_divide :: "'w \<Rightarrow> 'w"
  fi_remove_zeros :: "'w \<Rightarrow> (fault + ('w \<times> int)) option"

definition compute_mul_float :: "u32 \<Rightarrow> u64 \<Rightarrow> u32 \<times> bool" where
  "compute_mul_float u cache = (let r = umul96_upper64 u cache in (ucast (drop_bit 32 r), (ucast r :: u32) = 0))"

definition compute_delta_float :: "u64 \<Rightarrow> int \<Rightarrow> fault + u32" where
  "compute_delta_float cache beta = andthen (checked_shr cache (64 - 1 - beta)) (\<lambda>r. Inr (ucast r))"

definition compute_mul_parity_float :: "u32 \<Rightarrow> u64 \<Rightarrow> int \<Rightarrow> fault + (bool \<times> bool)" where
  "compute_mul_parity_float two_f cache beta =
     (if \<not> (beta \<ge> 1 \<and> beta < 64) then Inl Assert_failed
      else let r = umul96_lower64 two_f cache in
           andthen (checked_shr r (64 - beta)) (\<lambda>a. andthen (checked_shr r (32 - beta)) (\<lambda>b.
           Inr (a AND 1 \<noteq> 0, (ucast b :: u32) = 0))))"

definition left_endpoint_float :: "u64 \<Rightarrow> int \<Rightarrow> fault + u32" where
  "left_endpoint_float cache beta =
     andthen (checked_shr (cache - drop_bit (23 + 2) cache) (64 - 23 - 1 - beta)) (\<lambda>r. Inr (ucast r))"

definition right_endpoint_float :: "u64 \<Rightarrow> int \<Rightarrow> fault + u32" where
  "right_endpoint_float cache beta =
     andthen (checked_shr (cache + drop_bit (23 + 1) cache) (64 - 23 - 1 - beta)) (\<lambda>r. Inr (ucast r))"

definition round_up_float :: "u64 \<Rightarrow> int \<Rightarrow> fault + u32" where
  "round_up_float cache beta = andthen (checked_shr cache (64 - 23 - 2 - beta)) (\<lambda>r. Inr ((ucast r + 1) div 2))"

definition float_info_float :: "(u32, u64) float_info" where
  "float_info_float = \<lparr>fi_significand_bits = 23, fi_exponent_bits = 8, fi_bias = 127, fi_min_exponent = - 125,
     fi_kappa = 1, fi_big_divisor = 100, fi_small_divisor = 10, fi_tie_lower = - 35, fi_tie_upper = - 35,
     fi_cache = get_cached_power_float, fi_mul = compute_mul_float, fi_delta = compute_delta_float,
     fi_parity = compute_mul_parity_float, fi_left = left_endpoint_float, fi_right = right_endpoint_float,
     fi_round_up = round_up_float, fi_divide = divide_by_10_to_kappa_plus_1_float,
     fi_remove_zeros = (\<lambda>n. remove_trailing_zeros_float n 0)\<rparr>"

definition compute_mul_double :: "u64 \<Rightarrow> uint128_fallback \<Rightarrow> u64 \<times> bool" where
  "compute_mul_double u cache = (let r = umul192_upper128 u cache in (u_hi r, u_lo r = 0))"

definition compute_delta_double :: "uint128_fallback \<Rightarrow> int \<Rightarrow> fault + u32" where
  "compute_delta_double cache beta = andthen (checked_shr (u_hi cache) (64 - 1 - beta)) (\<lambda>r. Inr (ucast r))"

definition compute_mul_parity_double :: "u64 \<Rightarrow> uint128_fallback \<Rightarrow> int \<Rightarrow> fault + (bool \<times> bool)" where
  "compute_mul_parity_double two_f cache beta =
     (if \<not> (beta \<ge> 1 \<and> beta < 64) then Inl Assert_failed
      else let r = umul192_lower128 two_f cache in
           andthen (checked_shr (u_hi r) (64 - beta)) (\<lambda>a. andthen (checked_shl (u_hi r) beta) (\<lambda>b.
           andthen (checked_shr (u_lo r) (64 - beta)) (\<lambda>c. Inr (a AND 1 \<noteq> 0, b OR c = 0)))))"

definition left_endpoint_double :: "uint128_fallback \<Rightarrow> int \<Rightarrow> fault + u64" where
  "left_endpoint_double cache beta = checked_shr (u_hi cache - drop_bit (52 + 2) (u_hi cache)) (64 - 52 - 1 - beta)"

definition right_endpoint_double :: "uint128_fallback \<Rightarrow> int \<Rightarrow> fault + u64" where
  "right_endpoint_double cache beta = checked_shr (u_hi cache + drop_bit (52 + 1) (u_hi cache)) (64 - 52 - 1 - beta)"

definition round_up_double :: "uint128_fallback \<Rightarrow> int \<Rightarrow> fault + u64" where
  "round_up_double cache beta = andthen (checked_shr (u_hi cache) (64 - 52 - 2 - beta)) (\<lambda>r. Inr ((r + 1) div 2))"

definition float_info_double :: "(u64, uint128_fallback) float_info" where
  "float_info_double = \<lparr>fi_significand_bits = 52, fi_exponent_bits = 11, fi_bias = 1023, fi_min_exponent = - 1021,
     fi_kappa = 2, fi_big_divisor = 1000, fi_small_divisor = 100, fi_tie_lower = - 77, fi_tie_upper = - 77,
     fi_cache = get_cached_power, fi_mul = compute_mul_double, fi_delta = compute_delta_double,
     fi_parity = compute_mul_parity_double, fi_left = left_endpoint_double, fi_right = right_endpoint_double,
     fi_round_up = round_up_double, fi_divide = divide_by_10_to_kappa_plus_1_double,
     fi_remove_zeros = remove_trailing_zeros_double\<rparr>"

section \<open>The algorithm\<close>

definition is_left_endpoint_integer_shorter_interval :: "int \<Rightarrow> bool" where
  "is_left_endpoint_integer_shorter_interval exponent \<longleftrightarrow> exponent \<ge> 2 \<and> exponent \<le> 3"

text \<open>A decimal number \<open>significand * 10 ^ exponent\<close>.\<close>

record 'w decimal_fp =
  df_significand :: 'w
  df_exponent :: int

definition removed_zeros :: "('u::len word, 'c) float_info \<Rightarrow> 'u word \<Rightarrow> int \<Rightarrow> (fault + 'u word decimal_fp) option" where
  "removed_zeros fi significand exponent =
     seq_opt (fi_remove_zeros fi significand) (\<lambda>(significand, zeros).
     Some (Inr \<lparr>df_significand = significand, df_exponent = exponent + zeros\<rparr>))"

definition shorter_interval_case :: "('u::len word, 'c) float_info \<Rightarrow> int \<Rightarrow> (fault + 'u word decimal_fp) option" where
  "shorter_interval_case fi exponent =
     seq_opt (Some (floor_log10_pow2_minus_log10_4_over_3 exponent)) (\<lambda>minus_k.
     seq_opt (Some (floor_log2_pow10 (- minus_k))) (\<lambda>l. let beta = exponent + l in
     seq_opt (Some (fi_cache fi (- minus_k))) (\<lambda>cache.
     seq_opt (Some (fi_left fi cache beta)) (\<lambda>xi.
     seq_opt (Some (fi_right fi cache beta)) (\<lambda>zi.
     let xi = (if \<not> is_left_endpoint_integer_shorter_interval exponent then xi + 1 else xi);
         significand = zi div 10 in
     if significand * 10 \<ge> xi then removed_zeros fi significand (minus_k + 1)
     else seq_opt (Some (fi_round_up fi cache beta)) (\<lambda>significand.
          Some (Inr \<lparr>df_significand =
            (if exponent \<ge> fi_tie_lower fi \<and> exponent \<le> fi_tie_upper fi
             then if significand mod 2 = 0 then significand else significand - 1
             else if significand < xi then significand + 1 else significand),
            df_exponent = minus_k\<rparr>)))))))"

text \<open>Step 3: the digit that the smaller divisor adds. \<open>dist\<close> is a number of 32 bits.\<close>

definition small_divisor_case ::
  "('u::len word, 'c) float_info \<Rightarrow> 'u word \<Rightarrow> 'c \<Rightarrow> int \<Rightarrow> int \<Rightarrow> 'u word \<Rightarrow> u32 \<Rightarrow> u32 \<Rightarrow> (fault + 'u word decimal_fp) option" where
  "small_divisor_case fi two_fc cache beta minus_k significand r deltai =
     (let significand = significand * 10; exponent = minus_k + int (fi_kappa fi);
          dist = r - deltai div 2 + fi_small_divisor fi div 2;
          approx_y_parity = ((dist XOR (fi_small_divisor fi div 2)) AND 1 \<noteq> 0) in
      seq_opt (Some (check_divisibility_and_divide_by_pow10 (fi_kappa fi) dist)) (\<lambda>(divisible, dist).
      let significand = significand + ucast dist in
      if \<not> divisible then Some (Inr \<lparr>df_significand = significand, df_exponent = exponent\<rparr>)
      else seq_opt (Some (fi_parity fi two_fc cache beta)) (\<lambda>(parity, is_integer).
           Some (Inr \<lparr>df_significand =
             (if parity \<noteq> approx_y_parity then significand - 1
              else if is_integer \<and> significand mod 2 \<noteq> 0 then significand - 1 else significand),
             df_exponent = exponent\<rparr>))))"

definition regular_case :: "('u::len word, 'c) float_info \<Rightarrow> 'u word \<Rightarrow> int \<Rightarrow> (fault + 'u word decimal_fp) option" where
  "regular_case fi significand exponent =
     (let include_endpoint = (significand mod 2 = 0) in
      seq_opt (Some (floor_log10_pow2 exponent)) (\<lambda>l10. let minus_k = l10 - int (fi_kappa fi) in
      seq_opt (Some (fi_cache fi (- minus_k))) (\<lambda>cache.
      seq_opt (Some (floor_log2_pow10 (- minus_k))) (\<lambda>l2. let beta = exponent + l2 in
      seq_opt (Some (fi_delta fi cache beta)) (\<lambda>deltai. let two_fc = push_bit 1 significand in
      seq_opt (Some (checked_shl (two_fc OR 1) beta)) (\<lambda>u.
      case fi_mul fi u cache of (z, z_is_integer) \<Rightarrow>
      let significand = fi_divide fi z; r = ucast (z - ucast (fi_big_divisor fi) * significand);
          small = (\<lambda>sg r. small_divisor_case fi two_fc cache beta minus_k sg r deltai);
          result = removed_zeros fi significand (minus_k + int (fi_kappa fi) + 1) in
      if r < deltai
      then if r = 0 \<and> z_is_integer \<and> \<not> include_endpoint then small (significand - 1) (fi_big_divisor fi) else result
      else if r > deltai then small significand r
      else seq_opt (Some (fi_parity fi (two_fc - 1) cache beta)) (\<lambda>(parity, is_integer).
           if \<not> (parity \<or> is_integer \<and> include_endpoint) then small significand r else result)))))))"

definition exponent_mask :: "('u::len word, 'c) float_info \<Rightarrow> 'u word" where
  "exponent_mask fi = push_bit (fi_significand_bits fi) (push_bit (fi_exponent_bits fi) 1 - 1)"

definition to_decimal :: "('u::len word, 'c) float_info \<Rightarrow> 'u word \<Rightarrow> (fault + 'u word decimal_fp) option" where
  "to_decimal fi br =
     (let p = fi_significand_bits fi; significand = br AND (push_bit p 1 - 1);
          exponent = uint (drop_bit p (br AND exponent_mask fi)) in
      if exponent \<noteq> 0
      then let exponent = exponent - (fi_bias fi + int p) in
           if significand = 0 then shorter_interval_case fi exponent
           else regular_case fi (significand OR push_bit p 1) exponent
      else if significand = 0 then Some (Inr \<lparr>df_significand = 0, df_exponent = 0\<rparr>)
      else regular_case fi significand (fi_min_exponent fi - int p - 1))"

end
