(* ===== verification/Fmt_Dragonbox_Props.thy ===== *)
theory Fmt_Dragonbox_Props
  imports Fmt_Dragonbox
begin

text \<open>
  The number theory behind Dragonbox: divisions by constants as a product and a shift, divisibility
  by the inverse of an odd factor, and the removal of the trailing zeros of a decimal number.
\<close>

unbundle bit_operations_syntax

section \<open>Division by a product and a shift\<close>

text \<open>\<open>m\<close> is \<open>2 ^ k / d\<close> rounded up by \<open>delta / d\<close>.\<close>

lemma magic_division:
  fixes n d m k delta :: nat
  assumes m: "m * d = 2 ^ k + delta" and small: "n * delta < 2 ^ k" and d: "0 < d"
  shows "n * m div 2 ^ k = n div d"
proof (rule div_nat_eqI)
  define P :: nat where "P = 2 ^ k"
  have e: "n * m * d = n * P + n * delta" unfolding mult.assoc m P_def by (rule distrib_left)
  have "P * (n div d) * d \<le> n * P" using div_times_less_eq_dividend [of n d] by (simp add: mult.assoc mult.commute [of P])
  also have "\<dots> \<le> n * m * d" using e by simp
  finally show "2 ^ k * (n div d) \<le> n * m" using d unfolding P_def [symmetric] by simp
  have "n + 1 \<le> Suc (n div d) * d" using dividend_less_times_div [of d n] d by (simp add: Suc_le_eq mult.commute)
  then have "(n + 1) * P \<le> Suc (n div d) * d * P" by (rule mult_right_mono) simp
  moreover have "n * m * d < n * P + P" using e small by (simp add: P_def)
  ultimately have "n * m * d < Suc (n div d) * P * d" by (simp add: algebra_simps)
  then show "n * m < 2 ^ k * Suc (n div d)" using d unfolding P_def [symmetric] by (simp add: mult.commute)
qed

lemma divide_by_100: "unat (divide_by_10_to_kappa_plus_1_float n) = unat n div 100"
proof -
  have n: "unat n < 2 ^ LENGTH(32)" by (rule unsigned_less)
  have up: "unat (ucast n :: u64) = unat n" using n by (simp add: unsigned_ucast_eq take_bit_eq_mod)
  have "unat ((ucast n :: u64) * 1374389535) = unat n * 1374389535" using n up by (simp add: exact64(2))
  then have "unat (drop_bit 37 ((ucast n :: u64) * 1374389535)) = unat n * 1374389535 div 2 ^ 37" by (simp only: shr_word)
  also have "\<dots> = unat n div 100" using n by (intro magic_division [where delta = 28]) simp_all
  finally have q: "unat (drop_bit 37 ((ucast n :: u64) * 1374389535)) = unat n div 100" .
  have "unat n div 100 < 2 ^ 32" using n by (simp add: less_mult_imp_div_less)
  then show ?thesis unfolding divide_by_10_to_kappa_plus_1_float_def
    by (simp only: unsigned_ucast_eq take_bit_eq_mod q) simp
qed

lemma divide_by_1000:
  assumes "unat n * 152 < 2 ^ 71"
  shows "unat (divide_by_10_to_kappa_plus_1_double n) = unat n div 1000"
proof -
  have "unat (divide_by_10_to_kappa_plus_1_double n) = unat n * 2361183241434822607 div 2 ^ 64 div 2 ^ 7"
    by (simp only: divide_by_10_to_kappa_plus_1_double_def shr_word umul128_upper64_value) simp
  also have "\<dots> = unat n * 2361183241434822607 div 2 ^ 71" by (simp only: div_mult2_eq [symmetric]) simp
  also have "\<dots> = unat n div 1000" using assms by (intro magic_division [where delta = 152]) simp_all
  finally show ?thesis .
qed

text \<open>
  The division by 10 or 100 also tells whether there is a remainder, for numbers up to ten times
  the divisor.
\<close>

lemma divide_small:
  fixes n :: u32
  assumes N: "N = 1 \<or> N = 2" and n: "unat n \<le> 10 * 10 ^ N"
  shows "\<exists>r. check_divisibility_and_divide_by_pow10 N n = Inr (10 ^ N dvd unat n, r) \<and> unat r = unat n div 10 ^ N"
proof -
  define d m :: nat where "d = 10 ^ N" and "m = unat (magic_number N)"
  have info: "div_small_pow10_infos N = (word_of_nat d, 16)" using N by (auto simp: div_small_pow10_infos_def d_def)
  have dm: "(d = 10 \<and> m = 6554) \<or> (d = 100 \<and> m = 656)"
    using N by (auto simp: d_def m_def magic_number_def div_small_pow10_infos_def push_bit_eq_mult)
  define t r where "t = unat n div d" and "r = unat n mod d"
  have tr: "unat n = t * d + r" "r < d" using dm by (auto simp: t_def r_def)
  have small: "unat n * m < 2 ^ 32" using n dm by (auto simp: d_def)
  have prod: "unat (n * magic_number N) = unat n * m" using small by (simp add: unat_word_ariths m_def)
  define delta where "delta = m * d - 2 ^ 16"
  have md: "m * d = 2 ^ 16 + delta" using dm by (auto simp: delta_def)
  have q: "unat n * m div 2 ^ 16 = t"
    unfolding t_def using n dm md by (intro magic_division [where delta = delta]) (auto simp: delta_def d_def)
  have rest: "unat n * m mod 2 ^ 16 = t * delta + r * m"
  proof -
    have "unat n * m = t * 2 ^ 16 + (t * delta + r * m)"
      using md by (simp add: tr(1) add_mult_distrib mult.assoc mult.commute [of d]) (simp add: algebra_simps)
    then show ?thesis using div_mult_mod_eq [of "unat n * m" "2 ^ 16"] unfolding q by linarith
  qed
  have le: "t * delta < m"
  proof -
    have "t \<le> 10" unfolding t_def using n dm by (auto simp: d_def div_le_mono [of _ "10 * d" d, simplified])
    then show ?thesis using dm by (auto simp: delta_def)
  qed
  have "unat n * m mod 2 ^ 16 < m \<longleftrightarrow> r = 0"
    unfolding rest using le by (cases r) auto
  moreover have "r = 0 \<longleftrightarrow> d dvd unat n" by (simp add: r_def dvd_eq_mod_eq_0)
  moreover have "unat ((n * magic_number N) AND (push_bit 16 1 - 1)) = unat n * m mod 2 ^ 16"
  proof -
    have "(push_bit 16 1 - 1 :: u32) = mask 16" by (simp add: mask_eq_exp_minus_1 push_bit_eq_mult)
    then have "(n * magic_number N) AND (push_bit 16 1 - 1) = take_bit 16 (n * magic_number N)" by (simp only: take_bit_eq_mask)
    then show ?thesis by (simp only: trans [OF unsigned_take_bit_eq take_bit_eq_mod] prod)
  qed
  ultimately have div: "(n * magic_number N) AND (push_bit 16 1 - 1) < magic_number N \<longleftrightarrow> d dvd unat n"
    by (simp add: word_less_nat_alt m_def)
  have "unat n \<le> 10 * d" using n by (simp add: d_def)
  then have "n \<le> word_of_nat d * 10" using dm by (auto simp: word_le_nat_alt)
  then show ?thesis
    using div q by (simp add: check_divisibility_and_divide_by_pow10_def info Let_def shr_word prod t_def flip: d_def)
qed

section \<open>Division by an odd factor and a rotation\<close>

lemma rotr_value:
  fixes w :: "'u::len word"
  assumes k: "0 < k" "k < LENGTH('u)" and c: "unat (c AND word_of_nat (LENGTH('u) - 1)) = k"
  shows "\<exists>r. rotr w c = Inr r \<and> unat r = unat w div 2 ^ k + unat w mod 2 ^ k * 2 ^ (LENGTH('u) - k)"
proof -
  let ?n = "LENGTH('u)"
  define hi lo where "hi = push_bit (?n - k) w" and "lo = drop_bit k w"
  have w: "unat w < 2 ^ ?n" by (rule unsigned_less)
  have pw: "(2 :: nat) ^ ?n = 2 ^ k * 2 ^ (?n - k)" using k by (simp add: power_add [symmetric])
  have hi: "unat hi = unat w mod 2 ^ k * 2 ^ (?n - k)"
    unfolding hi_def shl_word pw by (simp add: mult_mod_left)
  have lo: "unat lo = unat w div 2 ^ k" by (simp only: lo_def shr_word)
  have "lo OR hi = lo + hi"
    using k by (intro disjunctive_add [symmetric]) (auto simp: hi_def lo_def bit_push_bit_iff bit_drop_bit_eq dest: bit_imp_le_length)
  moreover have "unat (lo + hi) = unat lo + unat hi"
  proof -
    have "unat w div 2 ^ k < 2 ^ (?n - k)" using w unfolding pw by (simp add: less_mult_imp_div_less mult.commute)
    moreover have "unat w mod 2 ^ k + 1 \<le> 2 ^ k" by (simp add: Suc_le_eq)
    then have "(unat w mod 2 ^ k + 1) * 2 ^ (?n - k) \<le> 2 ^ k * 2 ^ (?n - k)" by (rule mult_right_mono) simp
    ultimately have "unat lo + unat hi < 2 ^ ?n" unfolding lo hi pw by simp
    then show ?thesis by (simp add: unat_word_ariths)
  qed
  ultimately show ?thesis using c k hi lo by (simp add: rotr_def Let_def hi_def lo_def)
qed

text \<open>
  The product with the inverse of \<open>d\<close>, rotated by \<open>k\<close>, is the quotient by \<open>d * 2 ^ k\<close> if there is no
  remainder, and else it exceeds every quotient.
\<close>

lemma inverse_rotated:
  fixes n inv :: "'u::len word"
  assumes k: "0 < k" "k < LENGTH('u)" and c: "unat (c AND word_of_nat (LENGTH('u) - 1)) = k"
    and inv: "unat inv * d mod 2 ^ LENGTH('u) = 1" and d: "2 < d" and D: "D = d * 2 ^ k"
  shows "\<exists>r. rotr (n * inv) c = Inr r \<and> (unat r \<le> (2 ^ LENGTH('u) - 1) div D \<longleftrightarrow> D dvd unat n)
    \<and> (D dvd unat n \<longrightarrow> unat r = unat n div D)"
proof -
  let ?W = "2 ^ LENGTH('u) :: nat"
  define m where "m = unat (n * inv)"
  have pw: "?W = 2 ^ k * 2 ^ (LENGTH('u) - k)" using k by (simp add: power_add [symmetric])
  have n: "unat n < ?W" by (rule unsigned_less)
  have mW: "m < ?W" unfolding m_def by (rule unsigned_less)
  have m: "m = unat n * unat inv mod ?W" by (simp add: m_def unat_word_ariths)
  have inv_back: "m * d mod ?W = unat n"
  proof -
    have "m * d mod ?W = unat n * (unat inv * d) mod ?W" unfolding m by (simp add: mod_mult_left_eq mult.assoc)
    also have "\<dots> = unat n * (unat inv * d mod ?W) mod ?W" by (simp only: mod_mult_right_eq)
    also have "\<dots> = unat n" unfolding inv using n by simp
    finally show ?thesis .
  qed
  obtain r where r: "rotr (n * inv) c = Inr r" "unat r = m div 2 ^ k + m mod 2 ^ k * 2 ^ (LENGTH('u) - k)"
    using rotr_value [OF k c, of "n * inv"] by (auto simp: m_def)
  have Dpos: "0 < D" using D d by simp
  have dvd: "D dvd unat n \<Longrightarrow> m mod 2 ^ k = 0 \<and> m div 2 ^ k = unat n div D"
  proof -
    assume "D dvd unat n"
    then obtain t where t: "unat n = d * 2 ^ k * t" unfolding D by blast
    have "m = d * 2 ^ k * t * unat inv mod ?W" using m t by simp
    also have "\<dots> = 2 ^ k * t * (unat inv * d mod ?W) mod ?W" by (simp only: mod_mult_right_eq) (simp only: ac_simps)
    also have "\<dots> = 2 ^ k * t mod ?W" unfolding inv by simp
    also have "\<dots> = 2 ^ k * t"
    proof (rule mod_less)
      have "1 * (2 ^ k * t) \<le> d * (2 ^ k * t)" using d by (intro mult_right_mono) simp_all
      moreover have "d * (2 ^ k * t) < ?W" using n t by (simp add: mult.assoc)
      ultimately show "2 ^ k * t < ?W" by linarith
    qed
    finally have "m = 2 ^ k * t" .
    then show ?thesis using t Dpos by (simp add: D)
  qed
  have "unat r \<le> (?W - 1) div D \<longleftrightarrow> D dvd unat n"
  proof
    assume "D dvd unat n"
    then have "unat r = unat n div D" using r(2) dvd by simp
    moreover have "unat n div D \<le> (?W - 1) div D" using n by (intro div_le_mono) linarith
    ultimately show "unat r \<le> (?W - 1) div D" by simp
  next
    assume le: "unat r \<le> (?W - 1) div D"
    have "m mod 2 ^ k = 0"
    proof (rule ccontr)
      assume "m mod 2 ^ k \<noteq> 0"
      then have "1 * 2 ^ (LENGTH('u) - k) \<le> m mod 2 ^ k * 2 ^ (LENGTH('u) - k)" by (intro mult_right_mono) simp_all
      then have "2 ^ (LENGTH('u) - k) \<le> (?W - 1) div D" using le unfolding r(2) by linarith
      then have "2 ^ (LENGTH('u) - k) * D \<le> ?W - 1" using Dpos by (simp add: less_eq_div_iff_mult_less_eq)
      moreover have "?W \<le> 2 ^ (LENGTH('u) - k) * D" unfolding D pw using d by simp
      moreover have "0 < ?W" by simp
      ultimately show False by linarith
    qed
    then have mk: "m = 2 ^ k * unat r" using r(2) by auto
    have "unat r * D \<le> ?W - 1" using le Dpos by (simp add: less_eq_div_iff_mult_less_eq)
    moreover have md: "m * d = unat r * D" unfolding mk D by (simp only: ac_simps)
    moreover have "0 < ?W" by simp
    ultimately have "m * d < ?W" by linarith
    then have "unat n = m * d" using inv_back by simp
    then show "D dvd unat n" unfolding md by simp
  qed
  then show ?thesis using r dvd by auto
qed

section \<open>Trailing zeros\<close>

lemma quotients_bound:
  assumes "unat (c :: 'u::len word) = d"
  shows "unat ((- 1 :: 'u word) div c) = (2 ^ LENGTH('u) - 1) div d"
  by (simp add: unat_div_distrib unsigned_minus_1_eq_mask mask_eq_exp_minus_1 assms)

text \<open>The loop ends for every number but 0, and takes away all pairs of zeros.\<close>

lemma remove_zeros_loop:
  fixes n inv :: "'u::len word"
  assumes word: "2 < LENGTH('u)" "unat ((2 :: u32) AND word_of_nat (LENGTH('u) - 1)) = 2" "unat (100 :: 'u word) = 100"
    and inv: "unat inv * 25 mod 2 ^ LENGTH('u) = 1" and n: "n \<noteq> 0"
  shows "\<exists>n' k. remove_zeros_loop inv n s = Some (Inr (n', s + 2 * int k)) \<and> unat n = unat n' * 100 ^ k \<and> \<not> 100 dvd unat n'"
  using n
proof (induction "unat n" arbitrary: n s rule: less_induct)
  case less
  obtain r where r: "rotr (n * inv) 2 = Inr r" "unat r \<le> (2 ^ LENGTH('u) - 1) div 100 \<longleftrightarrow> 100 dvd unat n"
      "100 dvd unat n \<Longrightarrow> unat r = unat n div 100"
    using inverse_rotated [where d = 25 and D = 100 and k = 2, OF _ word(1,2) inv] by fastforce
  have stop: "r > (- 1) div 100 \<longleftrightarrow> \<not> 100 dvd unat n"
    using r(2) quotients_bound [OF word(3)] by (simp add: word_less_nat_alt not_le [symmetric])
  show ?case
  proof (cases "100 dvd unat n")
    case False
    then have "remove_zeros_loop inv n s = Some (Inr (n, s + 2 * int 0))" using r(1) stop by (simp add: remove_zeros_loop.simps)
    then show ?thesis using False by (metis mult.right_neutral power_0)
  next
    case True
    have pos: "0 < unat n" using less.prems by (simp add: unat_gt_0)
    then have sm: "unat r < unat n" using True r(3) by simp
    have nr: "unat n = 100 * unat r" using True r(3) by simp
    then have "r \<noteq> 0" using pos by auto
    from less.hyps [OF sm this, of "s + 2"] obtain n' k
      where ih: "remove_zeros_loop inv r (s + 2) = Some (Inr (n', s + 2 + 2 * int k))" "unat r = unat n' * 100 ^ k" "\<not> 100 dvd unat n'"
      by blast
    have "remove_zeros_loop inv n s = Some (Inr (n', s + 2 * int (Suc k)))"
      using ih(1) r(1) stop True by (simp add: remove_zeros_loop.simps [of inv n])
    moreover have "unat n = unat n' * 100 ^ Suc k" unfolding nr ih(2) by simp
    ultimately show ?thesis using ih(3) by blast
  qed
qed

lemma remove_last_zero:
  fixes n inv :: "'u::len word"
  assumes word: "1 < LENGTH('u)" "unat ((1 :: u32) AND word_of_nat (LENGTH('u) - 1)) = 1" "unat (10 :: 'u word) = 10"
    and inv: "unat inv * 5 mod 2 ^ LENGTH('u) = 1"
  shows "\<exists>r. remove_last_zero inv n s = Inr (if 10 dvd unat n then (r, s OR 1) else (n, s)) \<and> (10 dvd unat n \<longrightarrow> unat n = unat r * 10)"
proof -
  obtain r where r: "rotr (n * inv) 1 = Inr r" "unat r \<le> (2 ^ LENGTH('u) - 1) div 10 \<longleftrightarrow> 10 dvd unat n"
      "10 dvd unat n \<Longrightarrow> unat r = unat n div 10"
    using inverse_rotated [where d = 5 and D = 10 and k = 1, OF _ word(1,2) inv] by fastforce
  have "r \<le> (- 1) div 10 \<longleftrightarrow> 10 dvd unat n"
    using r(2) quotients_bound [OF word(3)] by (simp add: word_le_nat_alt)
  then show ?thesis using r by (simp add: remove_last_zero_def)
qed

text \<open>Together they take away all zeros. The count they start with is even.\<close>

lemma zeros_then_last:
  fixes n n' r :: "'u::len word"
  assumes n: "unat n = unat n' * 100 ^ k" "\<not> 100 dvd unat n'"
    and last: "if 10 dvd unat n' then m = r \<and> z = (s + 2 * int k) OR 1 else m = n' \<and> z = s + 2 * int k"
    and r: "10 dvd unat n' \<Longrightarrow> unat n' = unat r * 10" and s: "even s"
  shows "\<exists>j. z = s + int j \<and> unat n = unat m * 10 ^ j \<and> \<not> 10 dvd unat m"
proof -
  have pw: "(100 :: nat) ^ k = 10 ^ (2 * k)" by (simp add: power_mult)
  show ?thesis
  proof (cases "10 dvd unat n'")
    case True
    then have "z = s + int (Suc (2 * k))" using last s by (simp add: or_one_eq)
    moreover have "unat n = unat m * 10 ^ Suc (2 * k)" using n(1) r True last unfolding pw by simp
    moreover have "\<not> 10 dvd unat m"
    proof
      assume "10 dvd unat m"
      then have "10 * 10 dvd unat m * 10" by (intro mult_dvd_mono) simp_all
      then show False using n(2) r True last by simp
    qed
    ultimately show ?thesis by blast
  next
    case False
    then have "z = s + int (2 * k)" "unat n = unat m * 10 ^ (2 * k)" "\<not> 10 dvd unat m" using last n(1) unfolding pw by simp_all
    then show ?thesis by blast
  qed
qed

lemma float_zeros:
  assumes n: "n \<noteq> 0" and s: "even s"
  shows "\<exists>m j. remove_trailing_zeros_float n s = Some (Inr (m, s + int j)) \<and> unat n = unat m * 10 ^ j \<and> \<not> 10 dvd unat m"
proof -
  obtain n' k where a: "remove_zeros_loop 0xc28f5c29 n s = Some (Inr (n', s + 2 * int k))" "unat n = unat n' * 100 ^ k" "\<not> 100 dvd unat n'"
    using remove_zeros_loop [of "0xc28f5c29 :: u32" n s] n by auto
  obtain r where b: "remove_last_zero 0xcccccccd n' (s + 2 * int k) =
      Inr (if 10 dvd unat n' then (r, (s + 2 * int k) OR 1) else (n', s + 2 * int k))" "10 dvd unat n' \<longrightarrow> unat n' = unat r * 10"
    using remove_last_zero [of "0xcccccccd :: u32" n' "s + 2 * int k"] by auto
  let ?m = "if 10 dvd unat n' then r else n'" and ?z = "if 10 dvd unat n' then (s + 2 * int k) OR 1 else s + 2 * int k"
  obtain j where j: "?z = s + int j" "unat n = unat ?m * 10 ^ j" "\<not> 10 dvd unat ?m"
    using zeros_then_last [OF a(2,3), of ?m r ?z s] b(2) s by auto
  have "remove_trailing_zeros_float n s = Some (Inr (?m, ?z))"
    using n a(1) b(1) by (simp add: remove_trailing_zeros_float_def)
  then show ?thesis unfolding j(1) using j(2,3) by blast
qed

lemma double_zeros_by_loop:
  assumes n: "n \<noteq> 0"
  shows "\<exists>m j. seq_opt (remove_zeros_loop (0x8f5c28f5c28f5c29 :: u64) n 0) (\<lambda>(n, s). Some (remove_last_zero 0xcccccccccccccccd n s))
      = Some (Inr (m, int j)) \<and> unat n = unat m * 10 ^ j \<and> \<not> 10 dvd unat m"
proof -
  obtain n' k where a: "remove_zeros_loop 0x8f5c28f5c28f5c29 n 0 = Some (Inr (n', 0 + 2 * int k))" "unat n = unat n' * 100 ^ k" "\<not> 100 dvd unat n'"
    using remove_zeros_loop [of "0x8f5c28f5c28f5c29 :: u64" n 0] n by auto
  obtain r where b: "remove_last_zero 0xcccccccccccccccd n' (0 + 2 * int k) =
      Inr (if 10 dvd unat n' then (r, (0 + 2 * int k) OR 1) else (n', 0 + 2 * int k))" "10 dvd unat n' \<longrightarrow> unat n' = unat r * 10"
    using remove_last_zero [of "0xcccccccccccccccd :: u64" n' "0 + 2 * int k"] by auto
  let ?m = "if 10 dvd unat n' then r else n'" and ?z = "if 10 dvd unat n' then (0 + 2 * int k) OR 1 else 0 + 2 * int k"
  obtain j where j: "?z = 0 + int j" "unat n = unat ?m * 10 ^ j" "\<not> 10 dvd unat ?m"
    using zeros_then_last [OF a(2,3), of ?m r ?z 0] b(2) by auto
  have "seq_opt (remove_zeros_loop (0x8f5c28f5c28f5c29 :: u64) n 0) (\<lambda>(n, s). Some (remove_last_zero 0xcccccccccccccccd n s)) = Some (Inr (?m, ?z))"
    using a(1) b(1) by simp
  then show ?thesis unfolding j(1) using j(2,3) by (metis add_0)
qed

text \<open>A remainder below the magic number is the sign of eight zeros.\<close>

lemma magic_remainder:
  fixes n q r m d delta P :: nat
  assumes n: "n = q * d + r" "r < d" and m: "m * d = P + delta" and small: "(q + 1) * delta < m"
  shows "n * m mod P < m \<longleftrightarrow> r = 0"
proof -
  have e: "n * m = q * P + (q * delta + r * m)"
  proof -
    have "n * m = q * (m * d) + r * m" unfolding n(1) by (simp add: algebra_simps)
    then show ?thesis unfolding m by (simp add: algebra_simps)
  qed
  have sm: "q * delta + delta < m" using small by simp
  have "(r + 1) * m \<le> d * m" using n(2) by (intro mult_right_mono) simp_all
  then have "r * m + m \<le> P + delta" using m by (simp add: mult.commute)
  then have "q * delta + r * m < P" using sm by linarith
  then have rest: "n * m mod P = q * delta + r * m" unfolding e by simp
  show ?thesis
  proof
    assume "n * m mod P < m"
    then show "r = 0" unfolding rest by (cases r) auto
  next
    assume "r = 0"
    then show "n * m mod P < m" unfolding rest using sm by simp
  qed
qed

lemma high_and_low:
  fixes h l m B C :: nat
  assumes "l < B" "m \<le> B" "0 < C"
  shows "(h * B + l) mod (B * C) < m \<longleftrightarrow> h mod C = 0 \<and> l < m" "(h * B + l) div (B * C) = h div C"
proof -
  have "h * B + l = (h div C * C + h mod C) * B + l" by simp
  also have "\<dots> = h div C * (B * C) + (h mod C * B + l)" by (simp only: algebra_simps)
  finally have e: "h * B + l = h div C * (B * C) + (h mod C * B + l)" .
  have "(h mod C + 1) * B \<le> C * B" using assms(3) by (intro mult_right_mono) (simp_all add: Suc_le_eq)
  then have b: "h mod C * B + l < B * C" using assms(1) by (simp add: mult.commute)
  have "(h * B + l) mod (B * C) = h mod C * B + l" unfolding e using b by simp
  moreover have "h mod C * B + l < m \<longleftrightarrow> h mod C = 0 \<and> l < m"
    using assms(2) by (cases "h mod C") auto
  ultimately show "(h * B + l) mod (B * C) < m \<longleftrightarrow> h mod C = 0 \<and> l < m" by simp
  have z: "B * C \<noteq> 0" using b by linarith
  show "(h * B + l) div (B * C) = h div C" unfolding e div_mult_self3 [OF z] div_less [OF b] by simp
qed

lemma eight_zeros:
  assumes n: "unat (n :: u64) < 2 ^ 32 * 10 ^ 8"
  defines "magic \<equiv> 12379400392853802749 :: u64" and "nm \<equiv> umul128 n 12379400392853802749"
  shows "u_hi nm AND (push_bit (90 - 64) 1 - 1) = 0 \<and> u_lo nm < magic \<longleftrightarrow> 10 ^ 8 dvd unat n"
    "unat (ucast (drop_bit (90 - 64) (u_hi nm)) :: u32) = unat n div 10 ^ 8"
proof -
  define q r where "q = unat n div 10 ^ 8" and "r = unat n mod 10 ^ 8"
  have qr: "unat n = q * 10 ^ 8 + r" "r < 10 ^ 8" by (simp_all only: q_def r_def div_mult_mod_eq mod_less_divisor zero_less_power zero_less_numeral)
  have q32: "q < 2 ^ 32" unfolding q_def using n by (simp only: less_mult_imp_div_less)
  have prod: "unat n * 12379400392853802749 = unat (u_hi nm) * 2 ^ 64 + unat (u_lo nm)"
    using umul128_value [of n 12379400392853802749] unfolding nm_def [symmetric] u128_def by simp
  have lo: "unat (u_lo nm) < 2 ^ 64" by (rule unat_less64)
  have pw: "(2 :: nat) ^ 90 = 2 ^ 64 * 2 ^ 26" by simp
  have c1: "unat n * 12379400392853802749 mod 2 ^ 90 < 12379400392853802749 \<longleftrightarrow> r = 0"
    using q32 by (intro magic_remainder [OF qr, where delta = 875776]) simp_all
  have c2: "r = 0 \<longleftrightarrow> 10 ^ 8 dvd unat n" by (simp only: r_def dvd_eq_mod_eq_0)
  have c3: "unat n * 12379400392853802749 mod 2 ^ 90 < 12379400392853802749 \<longleftrightarrow>
      unat (u_hi nm) mod 2 ^ 26 = 0 \<and> unat (u_lo nm) < 12379400392853802749"
    unfolding prod pw by (rule high_and_low [OF lo]) simp_all
  have c4: "u_hi nm AND (push_bit (90 - 64) 1 - 1) = 0 \<longleftrightarrow> unat (u_hi nm) mod 2 ^ 26 = 0"
  proof -
    have "(push_bit (90 - 64) 1 - 1 :: u64) = mask 26" by (simp add: mask_eq_exp_minus_1 push_bit_eq_mult)
    then have "u_hi nm AND (push_bit (90 - 64) 1 - 1) = take_bit 26 (u_hi nm)" by (simp only: take_bit_eq_mask)
    then show ?thesis by (simp only: word_eq_iff_unsigned [where 'a = nat] trans [OF unsigned_take_bit_eq take_bit_eq_mod] unsigned_0)
  qed
  have c5: "u_lo nm < magic \<longleftrightarrow> unat (u_lo nm) < 12379400392853802749" by (simp add: word_less_nat_alt magic_def)
  show "u_hi nm AND (push_bit (90 - 64) 1 - 1) = 0 \<and> u_lo nm < magic \<longleftrightarrow> 10 ^ 8 dvd unat n" by (simp only: c4 c5 c3 [symmetric] c1 c2)
  have "unat n * 12379400392853802749 div 2 ^ 90 = unat n div 10 ^ 8"
    using n by (intro magic_division [where delta = 875776]) simp_all
  moreover have "unat n * 12379400392853802749 div 2 ^ 90 = unat (u_hi nm) div 2 ^ 26"
    unfolding prod pw by (rule high_and_low [OF lo, where m = 0]) simp_all
  ultimately have "unat (drop_bit (90 - 64) (u_hi nm)) = q" unfolding q_def by (simp add: shr_word)
  then show "unat (ucast (drop_bit (90 - 64) (u_hi nm)) :: u32) = unat n div 10 ^ 8"
    unfolding q_def [symmetric] using q32 by (simp only: unsigned_ucast_eq take_bit_eq_mod) simp
qed

text \<open>
  C23. \<open>remove_trailing_zeros\<close> for doubles: it ends for every number of at most 17 digits but 0, takes
  away all zeros at the end of its decimal digits and returns their number.
\<close>

theorem trailing_zeros_are_removed:
  assumes "n \<noteq> 0" and "unat n < 2 ^ 32 * 10 ^ 8"
  shows "\<exists>m j. remove_trailing_zeros_double n = Some (Inr (m, int j)) \<and> unat n = unat m * 10 ^ j \<and> \<not> 10 dvd unat m"
proof (cases "10 ^ 8 dvd unat n")
  case True
  define h :: u32 where "h = ucast (drop_bit (90 - 64) (u_hi (umul128 n 12379400392853802749)))"
  note e = eight_zeros [OF assms(2), folded h_def]
  have n: "unat n = unat h * 10 ^ 8" using True e(2) by simp
  then have "h \<noteq> 0" using assms(1) by (auto simp: unat_eq_0)
  then obtain m j where f: "remove_trailing_zeros_float h 8 = Some (Inr (m, 8 + int j))" "unat h = unat m * 10 ^ j" "\<not> 10 dvd unat m"
    using float_zeros [of h 8] by auto
  have "unat m < 2 ^ LENGTH(32)" by (rule unsigned_less)
  then have up: "unat (ucast m :: u64) = unat m" by (simp add: unsigned_ucast_eq take_bit_eq_mod)
  have "remove_trailing_zeros_double n = Some (Inr (ucast m, int (8 + j)))"
    using assms(1) True e(1) f(1) by (simp add: remove_trailing_zeros_double_def Let_def h_def)
  moreover have "unat n = unat (ucast m :: u64) * 10 ^ (8 + j)" unfolding n f(2) up by (simp only: power_add mult.assoc mult.commute [of "10 ^ j"])
  ultimately show ?thesis using f(3) up by metis
next
  case False
  then show ?thesis
    using assms(1) eight_zeros(1) [OF assms(2)] double_zeros_by_loop [OF assms(1)]
    by (simp only: remove_trailing_zeros_double_def Let_def if_False)
qed

theorem trailing_zeros_are_removed_witness:
  "\<exists>m j. remove_trailing_zeros_double 1200000000000 = Some (Inr (m, int j)) \<and> 1200000000000 = unat m * 10 ^ j \<and> \<not> 10 dvd unat m"
  using trailing_zeros_are_removed [of 1200000000000] by simp

end
