(* ===== verification/Fmt_Grouping.thy ===== *)
theory Fmt_Grouping
  imports Fmt_Write_Props
begin

text \<open>
  Digit grouping of the bundled fmt (\<open>digit_grouping\<close>, the grouped \<open>write_int\<close>, \<open>loc_writer\<close>,
  \<open>format_facet\<close> and \<open>group_digits\<close> in \<open>fmt/bundled/format.h\<close> and \<open>format-inl.h\<close>): a string of group
  sizes from the last group to the first, of which the last size repeats, and a separator. What
  the locale gives is a parameter.
\<close>

section \<open>Groups\<close>

text \<open>What \<open>std::numpunct<char>\<close> of the locale returns.\<close>

record numpunct =
  np_grouping :: string
  np_thousands_sep :: char
  np_decimal_point :: char

record digit_grouping =
  dg_grouping :: string
  dg_sep :: string

text \<open>The value of a \<open>char\<close>, which is signed, and the largest value of it and of \<open>int\<close>.\<close>

definition char_value :: "char \<Rightarrow> int" where
  "char_value c = (if of_char c < (128 :: int) then of_char c else of_char c - 256)"

definition max_char :: int where "max_char = 127"
definition max_int :: int where "max_int = 2 ^ 31 - 1"

definition thousands_sep_impl :: "numpunct \<Rightarrow> string \<times> char" where
  "thousands_sep_impl np =
     (let grouping = np_grouping np in (grouping, if grouping = [] then CHR 0x00 else np_thousands_sep np))"

definition digit_grouping_new :: "numpunct \<Rightarrow> bool \<Rightarrow> digit_grouping" where
  "digit_grouping_new loc localized =
     (if \<not> localized then \<lparr>dg_grouping = [], dg_sep = []\<rparr>
      else case thousands_sep_impl loc of (grouping, sep) \<Rightarrow>
        \<lparr>dg_grouping = grouping, dg_sep = (if sep \<noteq> CHR 0x00 then [sep] else [])\<rparr>)"

definition has_separator :: "digit_grouping \<Rightarrow> bool" where
  "has_separator g \<longleftrightarrow> dg_sep g \<noteq> []"

text \<open>\<open>next_state\<close>: the groups that are left, and the position of the last separator.\<close>

type_synonym next_state = "string \<times> int"

definition initial_state :: "digit_grouping \<Rightarrow> next_state" where
  "initial_state g = (dg_grouping g, 0)"

definition next_separator :: "digit_grouping \<Rightarrow> next_state \<Rightarrow> fault + (int \<times> next_state)" where
  "next_separator g st =
     (case st of (gs, pos) \<Rightarrow>
        if dg_sep g = [] then Inr (max_int, st)
        else (case gs of
          [] \<Rightarrow> if dg_grouping g = [] then Inl Ub_out_of_bounds
                else let pos = pos + char_value (last (dg_grouping g)) in Inr (pos, (gs, pos))
        | c # rest \<Rightarrow>
            if char_value c \<le> 0 \<or> char_value c = max_char then Inr (max_int, st)
            else let pos = pos + char_value c in Inr (pos, (rest, pos))))"

partial_function (option) count_separators_loop ::
  "digit_grouping \<Rightarrow> int \<Rightarrow> int \<Rightarrow> next_state \<Rightarrow> (fault + int) option" where
  "count_separators_loop g num_digits count st =
     (case next_separator g st of
        Inl e \<Rightarrow> Some (Inl e)
      | Inr r \<Rightarrow> if num_digits > fst r then count_separators_loop g num_digits (count + 1) (snd r) else Some (Inr count))"

declare count_separators_loop.simps [code]

definition count_separators :: "digit_grouping \<Rightarrow> int \<Rightarrow> (fault + int) option" where
  "count_separators g num_digits = count_separators_loop g num_digits 0 (initial_state g)"

text \<open>\<open>apply\<close>: first the positions of the separators, then the digits with the separators between.\<close>

partial_function (option) separators_loop ::
  "digit_grouping \<Rightarrow> int \<Rightarrow> int list \<Rightarrow> next_state \<Rightarrow> (fault + int list) option" where
  "separators_loop g num_digits separators st =
     (case next_separator g st of
        Inl e \<Rightarrow> Some (Inl e)
      | Inr r \<Rightarrow> if fst r = 0 \<or> fst r \<ge> num_digits then Some (Inr separators)
                 else separators_loop g num_digits (separators @ [fst r]) (snd r))"

declare separators_loop.simps [code]

fun apply_loop :: "string \<Rightarrow> int list \<Rightarrow> int \<Rightarrow> string \<Rightarrow> fault + string" where
  "apply_loop sep separators sep_index [] = Inr []"
| "apply_loop sep separators sep_index (d # ds) =
     (if sep_index < 0 then Inl Ub_out_of_bounds
      else andthen (at_index separators (nat sep_index)) (\<lambda>p.
           if int (length (d # ds)) = p
           then andthen (apply_loop sep separators (sep_index - 1) ds) (\<lambda>t. Inr (sep @ d # t))
           else andthen (apply_loop sep separators sep_index ds) (\<lambda>t. Inr (d # t))))"

definition apply_grouping :: "digit_grouping \<Rightarrow> string \<Rightarrow> (fault + string) option" where
  "apply_grouping g digits =
     seq_opt (separators_loop g (int (length digits)) [0] (initial_state g)) (\<lambda>separators.
     Some (apply_loop (dg_sep g) separators (int (length separators) - 1) digits))"

section \<open>Integers\<close>

definition grouped_digits :: "nat \<Rightarrow> write_int_arg \<Rightarrow> format_specs \<Rightarrow> fmt_error + (string \<times> 32 word)" where
  "grouped_digits w arg specs =
     (let t = specs_type specs; pre = prefix_w arg; n = abs_value arg;
          base2e = (\<lambda>base_bits upper. let num_digits = count_base2 base_bits w n in
            fmt_of (andthen (do_format_base2e base_bits (replicate num_digits CHR 0x00) n num_digits upper) (\<lambda>(b, p). Inr b))) in
      if t = pres_none \<or> t = pres_dec
      then andthen (fmt_of (count_digits w n)) (\<lambda>num_digits.
           andthen (fmt_of (format_decimal_to w (replicate num_digits CHR 0x00) n num_digits)) (\<lambda>(b, p). Inr (b, pre)))
      else if t = pres_hex
      then andthen (base2e 4 (specs_upper specs)) (\<lambda>b.
           Inr (b, if specs_alt specs
                   then prefix_append pre (push_bit 8 (char_word (if specs_upper specs then CHR ''X'' else CHR ''x''))
                                           OR char_word CHR ''0'') else pre))
      else if t = pres_oct
      then andthen (base2e 3 False) (\<lambda>b.
           Inr (b, if specs_alt specs \<and> fs_precision specs \<le> int (count_base2 3 w n) \<and> n \<noteq> 0
                   then prefix_append pre (char_word CHR ''0'') else pre))
      else if t = pres_bin
      then andthen (base2e 1 False) (\<lambda>b.
           Inr (b, if specs_alt specs
                   then prefix_append pre (push_bit 8 (char_word (if specs_upper specs then CHR ''B'' else CHR ''b''))
                                           OR char_word CHR ''0'') else pre))
      else Inl (Fmt_fault Assert_failed))"

text \<open>The grouped \<open>write_int\<close>, for a number of 64 or 128 bits.\<close>

definition write_grouped_int ::
  "nat \<Rightarrow> write_int_arg \<Rightarrow> format_specs \<Rightarrow> digit_grouping \<Rightarrow> (fmt_error + string) option" where
  "write_grouped_int w arg specs g =
     (if specs_type specs = pres_chr then Some (write_char (char_of (abs_value arg)) specs)
      else seq_opt (Some (grouped_digits w arg specs)) (\<lambda>(digits, pre).
           seq_opt (map_option fmt_of (count_separators g (int (length digits)))) (\<lambda>n.
           seq_opt (Some (to_unsigned n)) (\<lambda>n.
           seq_opt (map_option fmt_of (apply_grouping g digits)) (\<lambda>t.
           Some (write_padded Align_right specs ((prefix_size pre + length digits + n) mod 2 ^ 32)
             (prefix_chars pre @ t)))))))"

text \<open>\<open>format_facet\<close> of a locale without such a facet, and \<open>loc_writer\<close> for integers of \<open>w\<close> bits.\<close>

definition format_facet_new :: "numpunct \<Rightarrow> digit_grouping" where
  "format_facet_new np =
     \<lparr>dg_grouping = np_grouping np, dg_sep = (if np_grouping np \<noteq> [] then [np_thousands_sep np] else [])\<rparr>"

definition loc_writer_int :: "nat \<Rightarrow> int \<Rightarrow> format_specs \<Rightarrow> digit_grouping \<Rightarrow> (fmt_error + string) option" where
  "loc_writer_int w v specs g =
     write_grouped_int (if w = 128 then 128 else 64) (make_write_int_arg w v (specs_sign specs)) specs g"

text \<open>\<open>group_digits\<close>: groups of three digits and a comma, whatever the locale is.\<close>

definition group_digits :: "nat \<Rightarrow> int \<Rightarrow> format_specs \<Rightarrow> (fmt_error + string) option" where
  "group_digits w v specs = loc_writer_int w v specs \<lparr>dg_grouping = [CHR 0x03], dg_sep = '',''\<rparr>"

end
