(* ===== verification/Fmt_Grouping_Props.thy ===== *)
theory Fmt_Grouping_Props
  imports Fmt_Grouping "HOL-Library.Sublist"
begin

text \<open>
  Grouping is compared with a recursion on the digits from the last to the first, which cuts off
  one group after the other.
\<close>

section \<open>Groups from the last to the first\<close>

fun group_size :: "digit_grouping \<Rightarrow> string \<Rightarrow> int" where
  "group_size g [] = char_value (last (dg_grouping g))"
| "group_size g (c # cs) = char_value c"

definition more_groups :: "int \<Rightarrow> int \<Rightarrow> bool" where
  "more_groups k n \<longleftrightarrow> 0 < k \<and> k \<noteq> max_char \<and> k < n"

text \<open>The digits and the result are reversed.\<close>

function grouped :: "digit_grouping \<Rightarrow> string \<Rightarrow> string \<Rightarrow> string" where
  "grouped g gs ds =
     (let k = group_size g gs in
      if dg_sep g \<noteq> [] \<and> more_groups k (int (length ds))
      then take (nat k) ds @ rev (dg_sep g) @ grouped g (tl gs) (drop (nat k) ds) else ds)"
  by pat_completeness auto

termination by (relation "measure (\<lambda>(g, gs, ds). length ds)") (auto simp: more_groups_def)

declare grouped.simps [simp del]

text \<open>The positions of the separators of a number of \<open>n\<close> digits, of which the last \<open>pos\<close> are done.\<close>

function positions :: "digit_grouping \<Rightarrow> string \<Rightarrow> int \<Rightarrow> int \<Rightarrow> int list" where
  "positions g gs pos n =
     (let k = group_size g gs in
      if dg_sep g \<noteq> [] \<and> more_groups k (n - pos) then (pos + k) # positions g (tl gs) (pos + k) n else [])"
  by pat_completeness auto

termination by (relation "measure (\<lambda>(g, gs, pos, n). nat (n - pos))") (auto simp: more_groups_def)

declare positions.simps [simp del]

text \<open>A separator needs a group size, and an end of the groups was reached by a valid size.\<close>

definition grouping_ok :: "digit_grouping \<Rightarrow> bool" where
  "grouping_ok g \<longleftrightarrow> (dg_sep g \<noteq> [] \<longrightarrow> dg_grouping g \<noteq> [])"

definition at_groups :: "digit_grouping \<Rightarrow> string \<Rightarrow> bool" where
  "at_groups g gs \<longleftrightarrow> suffix gs (dg_grouping g) \<and>
     (gs = [] \<longrightarrow> dg_sep g \<noteq> [] \<longrightarrow> 0 < char_value (last (dg_grouping g)) \<and> char_value (last (dg_grouping g)) \<noteq> max_char)"

lemma at_groups_start: "grouping_ok g \<Longrightarrow> at_groups g (dg_grouping g)"
  by (auto simp: at_groups_def grouping_ok_def)

lemma at_groups_step:
  assumes "at_groups g gs" "more_groups (group_size g gs) n"
  shows "at_groups g (tl gs)"
proof (cases gs)
  case (Cons c cs)
  have "cs = [] \<Longrightarrow> last (dg_grouping g) = c" using assms(1) Cons by (auto simp: at_groups_def suffix_def)
  then show ?thesis using assms Cons by (auto simp: at_groups_def more_groups_def suffix_def)
qed (use assms in simp)

lemma next_separator_more:
  assumes "dg_sep g \<noteq> []" "dg_grouping g \<noteq> []" "more_groups (group_size g gs) n"
  shows "next_separator g (gs, pos) = Inr (pos + group_size g gs, (tl gs, pos + group_size g gs))"
  using assms by (cases gs) (auto simp: next_separator_def more_groups_def Let_def)

lemma next_separator_end:
  assumes "grouping_ok g" "at_groups g gs" "n \<le> max_int"
    and "\<not> (dg_sep g \<noteq> [] \<and> more_groups (group_size g gs) (n - pos))"
  shows "\<exists>i st. next_separator g (gs, pos) = Inr (i, st) \<and> n \<le> i"
  using assms by (cases gs) (auto simp: next_separator_def more_groups_def grouping_ok_def at_groups_def Let_def)

lemma positions_step:
  "positions g gs pos n =
     (if dg_sep g \<noteq> [] \<and> more_groups (group_size g gs) (n - pos)
      then (pos + group_size g gs) # positions g (tl gs) (pos + group_size g gs) n else [])"
  by (simp add: positions.simps [of g gs] Let_def)

lemma count_separators_loop:
  assumes "grouping_ok g" "at_groups g gs" "n \<le> max_int"
  shows "count_separators_loop g n count (gs, pos) = Some (Inr (count + int (length (positions g gs pos n))))"
  using assms
proof (induction g gs pos n arbitrary: count rule: positions.induct)
  case (1 g gs pos n)
  show ?case
  proof (cases "dg_sep g \<noteq> [] \<and> more_groups (group_size g gs) (n - pos)")
    case True
    then have "dg_grouping g \<noteq> []" "pos + group_size g gs < n" using 1(2) by (simp_all add: grouping_ok_def more_groups_def)
    moreover have "at_groups g (tl gs)" using at_groups_step 1(3) True by blast
    ultimately show ?thesis
      using 1(1) [OF refl True 1(2) _ 1(4)] True next_separator_more [of g gs "n - pos" pos]
      by (simp add: count_separators_loop.simps [of g n count] positions_step [of g gs])
  next
    case False
    then show ?thesis
      using next_separator_end [OF 1(2-4) False]
      by (auto simp: count_separators_loop.simps [of g n count] positions_step [of g gs])
  qed
qed

lemma separators_loop:
  assumes "grouping_ok g" "at_groups g gs" "n \<le> max_int" "0 \<le> pos"
  shows "separators_loop g n seps (gs, pos) = Some (Inr (seps @ positions g gs pos n))"
  using assms
proof (induction g gs pos n arbitrary: seps rule: positions.induct)
  case (1 g gs pos n)
  show ?case
  proof (cases "dg_sep g \<noteq> [] \<and> more_groups (group_size g gs) (n - pos)")
    case True
    then have "dg_grouping g \<noteq> []" "pos + group_size g gs < n" "0 < pos + group_size g gs"
      using 1(2,5) by (simp_all add: grouping_ok_def more_groups_def)
    moreover have "at_groups g (tl gs)" using at_groups_step 1(3) True by blast
    ultimately show ?thesis
      using 1(1) [OF refl True 1(2) _ 1(4)] True next_separator_more [of g gs "n - pos" pos]
      by (simp add: separators_loop.simps [of g n seps] positions_step [of g gs])
  next
    case False
    then show ?thesis
      using next_separator_end [OF 1(2-4) False]
      by (auto simp: separators_loop.simps [of g n seps] positions_step [of g gs])
  qed
qed

section \<open>Insertion\<close>

text \<open>The separator before each digit whose position from the end is in the set.\<close>

fun insert_at :: "string \<Rightarrow> int set \<Rightarrow> int \<Rightarrow> string \<Rightarrow> string" where
  "insert_at sep P pos [] = []"
| "insert_at sep P pos (d # ds) =
     (if pos + int (length (d # ds)) \<in> P then sep else []) @ d # insert_at sep P pos ds"

lemma insert_at_append: "insert_at sep P pos (ds @ es) = insert_at sep P (pos + int (length es)) ds @ insert_at sep P pos es"
  by (induction ds) (auto simp: algebra_simps)

lemma insert_at_cong:
  "(\<And>i. pos < i \<Longrightarrow> i \<le> pos + int (length ds) \<Longrightarrow> i \<in> P \<longleftrightarrow> i \<in> Q) \<Longrightarrow> insert_at sep P pos ds = insert_at sep Q pos ds"
  by (induction ds) auto

lemma insert_at_none: "(\<And>i. pos < i \<Longrightarrow> i \<le> pos + int (length ds) \<Longrightarrow> i \<notin> P) \<Longrightarrow> insert_at sep P pos ds = ds"
  by (induction ds) auto

lemma positions_bounds: "i \<in> set (positions g gs pos n) \<Longrightarrow> pos < i \<and> i < n"
proof (induction g gs pos n rule: positions.induct)
  case (1 g gs pos n)
  then show ?case by (subst (asm) positions_step) (auto simp: more_groups_def split: if_splits)
qed

lemma positions_sorted: "sorted_wrt (<) (positions g gs pos n)"
proof (induction g gs pos n rule: positions.induct)
  case (1 g gs pos n)
  then show ?case by (subst positions_step) (auto dest: positions_bounds)
qed

lemma apply_loop_inserts:
  "sorted_wrt (<) seps \<Longrightarrow> k < length seps \<Longrightarrow> seps ! 0 = 0 \<Longrightarrow> seps ! k \<le> int (length ds) \<Longrightarrow>
   apply_loop sep seps (int k) ds = Inr (insert_at sep (set (take (Suc k) seps)) 0 ds)"
proof (induction ds arbitrary: k)
  case (Cons d ds)
  let ?n = "int (length (d # ds))"
  have before: "i < seps ! k" if "i \<in> set (take k seps)" for i
    using that Cons.prems(1,2) by (auto simp: in_set_conv_nth sorted_wrt_iff_nth_less)
  have take: "set (take (Suc k) seps) = insert (seps ! k) (set (take k seps))"
    using Cons.prems(2) by (simp add: take_Suc_conv_app_nth)
  have pos: "0 < ?n" by simp
  show ?case
  proof (cases "?n = seps ! k")
    case True
    then obtain j where j: "k = Suc j" using Cons.prems(3) pos by (cases k) auto
    have "seps ! j < ?n" unfolding True using Cons.prems(1,2) j by (simp add: sorted_wrt_iff_nth_less)
    then have "apply_loop sep seps (int j) ds = Inr (insert_at sep (set (take (Suc j) seps)) 0 ds)"
      using Cons.prems(1-3) j by (intro Cons.IH) simp_all
    moreover have "insert_at sep (set (take (Suc j) seps)) 0 ds = insert_at sep (set (take (Suc k) seps)) 0 ds"
      unfolding take j [symmetric] by (rule insert_at_cong) (use True in auto)
    moreover have "int k - 1 = int j" using j by simp
    ultimately show ?thesis using True Cons.prems(2) take by (simp add: at_index_def)
  next
    case False
    then have "seps ! k \<le> int (length ds)" using Cons.prems(4) by simp
    then have "apply_loop sep seps (int k) ds = Inr (insert_at sep (set (take (Suc k) seps)) 0 ds)"
      using Cons.prems(1-3) by (intro Cons.IH)
    moreover have "?n \<notin> set (take (Suc k) seps)" using before [of ?n] Cons.prems(4) False unfolding take by auto
    ultimately show ?thesis using False Cons.prems(2) by (simp add: at_index_def)
  qed
qed simp

lemma insert_at_groups:
  "insert_at (dg_sep g) (set (positions g gs pos (pos + int (length ds)))) pos ds = rev (grouped g gs (rev ds))"
proof (induction g gs "rev ds" arbitrary: ds pos rule: grouped.induct)
  case (1 g gs)
  let ?k = "group_size g gs" and ?n = "pos + int (length ds)"
  show ?case
  proof (cases "dg_sep g \<noteq> [] \<and> more_groups ?k (int (length ds))")
    case True
    define a b where "a = take (length ds - nat ?k) ds" and "b = drop (length ds - nat ?k) ds"
    have ds: "ds = a @ b" and b: "int (length b) = ?k" using True by (auto simp: a_def b_def more_groups_def nat_le_iff)
    have rev: "take (nat ?k) (rev ds) = rev b" "drop (nat ?k) (rev ds) = rev a" using b ds by simp_all
    have n: "?n = (pos + ?k) + int (length a)" using b ds by simp
    let ?P = "set (positions g (tl gs) (pos + ?k) ?n)"
    have ps: "set (positions g gs pos ?n) = insert (pos + ?k) ?P" using True by (simp add: positions_step [of g gs pos])
    have "insert_at (dg_sep g) (insert (pos + ?k) ?P) (pos + int (length b)) a = insert_at (dg_sep g) ?P (pos + int (length b)) a"
      by (rule insert_at_cong) (use b in auto)
    also have "\<dots> = rev (grouped g (tl gs) (rev a))"
      using 1 [OF refl, of a "pos + ?k"] True unfolding n b by (simp add: rev)
    finally have left: "insert_at (dg_sep g) (insert (pos + ?k) ?P) (pos + int (length b)) a = rev (grouped g (tl gs) (rev a))" .
    have right: "insert_at (dg_sep g) (insert (pos + ?k) ?P) pos b = dg_sep g @ b"
    proof -
      obtain c cs where c: "b = c # cs" using b True by (cases b) (auto simp: more_groups_def)
      have "insert_at (dg_sep g) (insert (pos + ?k) ?P) pos cs = cs"
        using b c by (intro insert_at_none) (auto dest: positions_bounds)
      then show ?thesis using b c by simp
    qed
    show ?thesis
      unfolding ps by (subst ds) (simp only: insert_at_append left right grouped.simps [of g gs] Let_def length_rev True rev if_True, simp)
  next
    case False
    then have "positions g gs pos ?n = []" by (simp add: positions_step [of g gs])
    moreover have "grouped g gs (rev ds) = rev ds"
      by (simp only: grouped.simps [of g gs] Let_def length_rev if_not_P [OF False])
    ultimately show ?thesis by (simp add: insert_at_none)
  qed
qed

section \<open>Results\<close>

lemma count_separators_positions:
  "grouping_ok g \<Longrightarrow> n \<le> max_int \<Longrightarrow>
   count_separators g n = Some (Inr (int (length (positions g (dg_grouping g) 0 n))))"
  by (simp add: count_separators_def initial_state_def count_separators_loop at_groups_start)

lemma length_insert_at:
  "finite P \<Longrightarrow> length (insert_at sep P pos ds) = length ds + length sep * card (P \<inter> {pos<..pos + int (length ds)})"
proof (induction ds)
  case (Cons d ds)
  let ?n = "pos + int (length (d # ds))"
  have "{pos<..?n} = insert ?n {pos<..pos + int (length ds)}" by auto
  then have "card (P \<inter> {pos<..?n}) = (if ?n \<in> P then 1 else 0) + card (P \<inter> {pos<..pos + int (length ds)})"
    by (simp add: Int_insert_right)
  then show ?case using Cons by simp
qed simp

text \<open>
  \<open>apply\<close> ends and puts the separators between the groups; \<open>count_separators\<close> is their number.
\<close>

lemma apply_grouping_text:
  assumes "grouping_ok g" "int (length digits) \<le> max_int"
  shows "apply_grouping g digits = Some (Inr (rev (grouped g (dg_grouping g) (rev digits))))"
proof -
  let ?n = "int (length digits)" and ?ps = "positions g (dg_grouping g) 0 (int (length digits))"
  have "separators_loop g ?n [0] (initial_state g) = Some (Inr ([0] @ ?ps))"
    unfolding initial_state_def by (rule separators_loop [OF assms(1) at_groups_start [OF assms(1)] assms(2)]) simp
  moreover have "apply_loop (dg_sep g) (0 # ?ps) (int (length ?ps)) digits = Inr (insert_at (dg_sep g) (insert 0 (set ?ps)) 0 digits)"
  proof -
    have "sorted_wrt (<) (0 # ?ps)" using positions_sorted by (auto dest: positions_bounds)
    moreover have "(0 # ?ps) ! length ?ps \<le> ?n"
    proof -
      have "(0 # ?ps) ! length ?ps \<in> set (0 # ?ps)" by (rule nth_mem) simp
      then have "(0 # ?ps) ! length ?ps \<in> insert 0 (set ?ps)" by (simp only: list.set)
      then show ?thesis using positions_bounds [of _ g "dg_grouping g" 0 ?n] by fastforce
    qed
    ultimately show ?thesis using apply_loop_inserts [of "0 # ?ps" "length ?ps" digits] by simp
  qed
  moreover have "insert_at (dg_sep g) (insert 0 (set ?ps)) 0 digits = insert_at (dg_sep g) (set ?ps) 0 digits"
    by (rule insert_at_cong) auto
  ultimately show ?thesis
    using insert_at_groups [of g "dg_grouping g" 0 digits] by (simp add: apply_grouping_def)
qed

lemma grouped_length:
  "length (grouped g (dg_grouping g) (rev digits)) =
   length digits + length (dg_sep g) * length (positions g (dg_grouping g) 0 (int (length digits)))"
proof -
  let ?ps = "positions g (dg_grouping g) 0 (int (length digits))"
  have "length (grouped g (dg_grouping g) (rev digits)) = length (insert_at (dg_sep g) (set ?ps) 0 digits)"
    using insert_at_groups [of g "dg_grouping g" 0 digits] by simp
  also have "\<dots> = length digits + length (dg_sep g) * card (set ?ps \<inter> {0<..0 + int (length digits)})"
    by (rule length_insert_at) simp
  also have "set ?ps \<inter> {0<..0 + int (length digits)} = set ?ps" by (auto dest: positions_bounds)
  also have "card (set ?ps) = length ?ps"
    using positions_sorted [of g "dg_grouping g" 0 "int (length digits)"] by (simp add: distinct_card strict_sorted_iff)
  finally show ?thesis .
qed

section \<open>Grouped integers\<close>

lemma grouped_digits_text:
  assumes w: "w = 64 \<or> w = 128" and n: "abs_value arg < 2 ^ w" and t: "specs_type specs \<in> int_types"
    and sg: "(prefix_w arg, sg) \<in> set sign_words"
  obtains pre where "packs pre (sg @ base_prefix (abs_value arg) specs)"
    and "grouped_digits w arg specs = Inr (digits_text (abs_value arg) specs, pre)"
proof -
  let ?n = "abs_value arg"
  have W: "w \<in> int_widths" "w \<noteq> 32" using w by (auto simp: int_widths_def)
  have count: "count_base2 bits w ?n = length (base_text bits upper ?n)" if "0 < bits" for bits upper
    using count_base2_loop_text [OF that, of 0 ?n upper] W(2) by (simp add: count_base2_def)
  have b: "do_format_base2e bits (replicate (count_base2 bits w ?n) CHR 0x00) ?n (count_base2 bits w ?n) upper
      = Inr (base_text bits upper ?n, 0)" if "0 < bits" for bits upper
    using do_format_base2e_writes [of bits upper ?n "length (base_text bits upper ?n)"] by (simp add: count [OF that, of upper])
  note pk = packs_prefix_append [OF sg] packs_signs [OF sg]
  consider "specs_type specs = 0 \<or> specs_type specs = 3" | "specs_type specs = 4" | "specs_type specs = 5" | "specs_type specs = 6"
    using t by (auto simp: int_types_def pres_defs)
  then show thesis
  proof cases
    case 1
    then show thesis
      using format_decimal_to_writes [OF W(1) n, of "length (dec ?n)" "replicate (length (dec ?n)) CHR 0x00"] pk count_digits_correct [OF W(1) n]
      by (intro that [of "prefix_w arg"]) (auto simp: grouped_digits_def Let_def pres_defs digits_text_def base_prefix_def)
  next
    case 2
    define pre where "pre = (if specs_alt specs
        then prefix_append (prefix_w arg) (push_bit 8 (char_word (if specs_upper specs then CHR ''X'' else CHR ''x''))
               OR char_word CHR ''0'') else prefix_w arg)"
    have "packs pre (sg @ base_prefix ?n specs)" using 2 pk by (simp add: pre_def base_prefix_def Let_def pres_defs base_words_def)
    then show thesis using b [of 4 "specs_upper specs"] 2
      by (intro that [of pre]) (simp_all add: grouped_digits_def digits_text_def Let_def pres_defs flip: pre_def)
  next
    case 3
    define pre where "pre = (if specs_alt specs \<and> fs_precision specs \<le> int (count_base2 3 w ?n) \<and> ?n \<noteq> 0
        then prefix_append (prefix_w arg) (char_word CHR ''0'') else prefix_w arg)"
    have "packs pre (sg @ base_prefix ?n specs)"
      using 3 pk by (simp add: pre_def base_prefix_def Let_def pres_defs base_words_def digits_text_def count [of 3 False])
    then show thesis using b [of 3 False] 3
      by (intro that [of pre]) (simp_all add: grouped_digits_def digits_text_def Let_def pres_defs pre_def)
  next
    case 4
    define pre where "pre = (if specs_alt specs
        then prefix_append (prefix_w arg) (push_bit 8 (char_word (if specs_upper specs then CHR ''B'' else CHR ''b''))
               OR char_word CHR ''0'') else prefix_w arg)"
    have "packs pre (sg @ base_prefix ?n specs)" using 4 pk by (simp add: pre_def base_prefix_def Let_def pres_defs base_words_def)
    then show thesis using b [of 1 False] 4
      by (intro that [of pre]) (simp_all add: grouped_digits_def digits_text_def Let_def pres_defs flip: pre_def)
  qed
qed

lemma length_positions: "length (positions g gs 0 (int n)) \<le> n"
proof -
  have "length (positions g gs 0 (int n)) = card (set (positions g gs 0 (int n)))"
    using positions_sorted [of g gs 0 "int n"] by (simp add: distinct_card strict_sorted_iff)
  also have "\<dots> \<le> card {0<..<int n}" by (rule card_mono) (auto dest: positions_bounds)
  finally show ?thesis by simp
qed

text \<open>
  A number with a locale is sign, prefix and grouped digits, filled to the width; a separator
  counts as one column.
\<close>

definition grouped_integer_text :: "int \<Rightarrow> format_specs \<Rightarrow> digit_grouping \<Rightarrow> string" where
  "grouped_integer_text v specs g =
     (let digits = digits_text (nat \<bar>v\<bar>) specs; pre = sign_text v specs @ base_prefix (nat \<bar>v\<bar>) specs in
      padded Align_right specs (length (pre @ digits) + length (positions g (dg_grouping g) 0 (int (length digits))))
        (pre @ rev (grouped g (dg_grouping g) (rev digits))))"

lemma loc_writer_int_text:
  assumes w: "w \<in> int_widths" and v: "\<bar>v\<bar> < 2 ^ w" and t: "specs_type specs \<in> int_types" and g: "grouping_ok g"
    and width: "0 \<le> fs_width specs" "fs_width specs \<le> INT_MAX"
  shows "loc_writer_int w v specs g = Some (Inr (grouped_integer_text v specs g))"
proof -
  let ?n = "nat \<bar>v\<bar>" and ?arg = "make_write_int_arg w v (specs_sign specs)" and ?w = "if w = 128 then 128 else 64 :: nat"
  define d where "d = digits_text ?n specs"
  define pre where "pre = sign_text v specs @ base_prefix ?n specs"
  define k where "k = length (positions g (dg_grouping g) 0 (int (length d)))"
  have n: "abs_value ?arg = ?n" using v by (rule abs_value_of)
  have W: "?w = 64 \<or> ?w = 128" "?w \<in> int_widths" by (simp_all add: int_widths_def)
  have n': "?n < 2 ^ ?w" using v w by (auto simp: int_widths_def nat_less_iff)
  obtain p where p: "packs p pre" "grouped_digits ?w ?arg specs = Inr (d, p)"
    using grouped_digits_text [OF W(1), of ?arg specs] n n' t sign_words_of [OF v] unfolding d_def pre_def by metis
  have ld: "length d \<le> 128" unfolding d_def using length_digits_text(1) [OF W(2) n', of specs] by (simp split: if_splits)
  have i: "int (length d) \<le> max_int" using ld by (simp add: max_int_def)
  have "length pre \<le> 3" unfolding pre_def using length_prefix [OF sign_words_of [OF v]] by blast
  moreover have "k \<le> length d" unfolding k_def by (rule length_positions)
  ultimately have small: "length pre + length d + k < 2 ^ 32" using ld by simp
  have chr: "specs_type specs \<noteq> pres_chr" using t by (auto simp: int_types_def pres_defs)
  show ?thesis
    using p small
    by (simp add: loc_writer_int_def write_grouped_int_def chr count_separators_positions [OF g i] apply_grouping_text [OF g i] to_unsigned_def
        k_def [symmetric] packs_def write_padded_text [OF width] grouped_integer_text_def Let_def d_def [symmetric] pre_def [symmetric])
qed

text \<open>Grouping on its own: it ends without a fault, whatever group sizes the locale gives.\<close>

lemma apply_grouping_separates_groups:
  assumes "grouping_ok g" and "length digits < 2 ^ 31"
  shows "\<exists>n. apply_grouping g digits = Some (Inr (rev (grouped g (dg_grouping g) (rev digits)))) \<and>
    count_separators g (int (length digits)) = Some (Inr (int n)) \<and>
    length (grouped g (dg_grouping g) (rev digits)) = length digits + length (dg_sep g) * n"
proof -
  have n: "int (length digits) \<le> max_int" using assms by (auto simp: max_int_def)
  show ?thesis
    unfolding apply_grouping_text [OF assms(1) n] count_separators_positions [OF assms(1) n] grouped_length by blast
qed

text \<open>
  C40. An integer of 32, 64 or 128 bits that is written with a locale, in base 10, 16, 8 or 2, with any
  sign, prefix, fill and width, and whatever group sizes the locale gives: the text is the sign, the
  prefix and the digits with a separator exactly between two groups, counted from the last digit,
  filled to the width; the padding counts as many separators as there are in it. It ends without a
  fault. A separator of the locale needs a group size; the width is not negative.
\<close>

theorem grouping_separates_groups:
  assumes "w \<in> int_widths" and "\<bar>v\<bar> < 2 ^ w" and "specs_type specs \<in> int_types" and "grouping_ok g"
    and "0 \<le> fs_width specs" and "fs_width specs \<le> INT_MAX"
  defines "digits \<equiv> digits_text (nat \<bar>v\<bar>) specs" and "pre \<equiv> sign_text v specs @ base_prefix (nat \<bar>v\<bar>) specs"
  shows "\<exists>n. loc_writer_int w v specs g =
      Some (Inr (padded Align_right specs (length (pre @ digits) + n) (pre @ rev (grouped g (dg_grouping g) (rev digits))))) \<and>
    length (grouped g (dg_grouping g) (rev digits)) = length digits + length (dg_sep g) * n"
  using loc_writer_int_text [OF assms(1-6)] grouped_length [of g digits]
  unfolding grouped_integer_text_def Let_def digits_def [symmetric] pre_def [symmetric] by blast

text \<open>Groups of three and then two digits, with a plus sign and a width of 14 columns.\<close>

theorem grouping_separates_groups_witness:
  "loc_writer_int 32 1234567 (set_sign Sign_plus (format_specs_new\<lparr>fs_width := 14\<rparr>))
      \<lparr>dg_grouping = [CHR 0x03, CHR 0x02], dg_sep = '',''\<rparr> = Some (Inr ''    +12,34,567'')"
proof -
  let ?s = "set_sign Sign_plus (format_specs_new\<lparr>fs_width := 14\<rparr>)" and ?g = "\<lparr>dg_grouping = [CHR 0x03, CHR 0x02], dg_sep = '',''\<rparr>"
  have b: "data_w ?s = 34816" "fs_width ?s = 14" "fill_data ?s = '' '' @ replicate 3 CHR 0x00"
    by (simp_all add: set_sign_def set_bits_of_def format_specs_new_def mask_defs shift_defs align_of_def sign_of_def)
  have t: "specs_type ?s = pres_none" "specs_sign ?s = Sign_plus" "\<not> specs_alt ?s" "specs_align ?s = Align_none" "fill_size ?s = 1"
    by (simp_all add: specs_type_def specs_sign_def specs_alt_def specs_align_def fill_size_def b mask_defs shift_defs align_of_def sign_of_def pres_defs)
  have t0: "specs_type (format_specs_new\<lparr>fs_width := 14\<rparr>) = pres_none" "\<not> specs_alt (format_specs_new\<lparr>fs_width := 14\<rparr>)"
    "specs_align (format_specs_new\<lparr>fs_width := 14\<rparr>) = Align_none" "fill_size (format_specs_new\<lparr>fs_width := 14\<rparr>) = 1"
    by (simp_all add: specs_type_def specs_alt_def specs_align_def fill_size_def align_of_def format_specs_new_def mask_defs shift_defs pres_defs)
  have d: "digits_text (nat \<bar>1234567\<bar>) ?s = ''1234567''" "sign_text 1234567 ?s = ''+''" "base_prefix (nat \<bar>1234567\<bar>) ?s = []"
    by (simp_all add: digits_text_def sign_text_def base_prefix_def t t0 pres_defs Let_def dec.simps digit_char_def char_of_def bit_Suc_0_iff)
  have gr: "rev (grouped ?g (dg_grouping ?g) (rev ''1234567'')) = ''12,34,567''"
    by (simp add: grouped.simps more_groups_def char_value_def max_char_def)
  have h: "32 \<in> int_widths" "\<bar>1234567 :: int\<bar> < 2 ^ 32" "specs_type ?s \<in> int_types" "grouping_ok ?g"
    "0 \<le> fs_width ?s" "fs_width ?s \<le> INT_MAX"
    by (simp_all add: int_widths_def int_types_def t(1) t0 grouping_ok_def b INT_MAX_def)
  from grouping_separates_groups [OF h, unfolded d gr]
  obtain n where "loc_writer_int 32 1234567 ?s ?g = Some (Inr (padded Align_right ?s (length ((''+'' @ []) @ ''1234567'') + n)
      ((''+'' @ []) @ ''12,34,567'')))"
    and "length (grouped ?g (dg_grouping ?g) (rev ''1234567'')) = length ''1234567'' + length (dg_sep ?g) * n" by blast
  moreover from this(2) have "n = 2" using arg_cong [OF gr, of length] by simp
  ultimately show ?thesis by (simp add: padded_def t t0 b fill_def fill_unit_def Let_def numeral_eq_Suc)
qed

end
