(* ===== verification/Fmt_Float.thy ===== *)
theory Fmt_Float
  imports Fmt_Dragonbox Fmt_Dragon Fmt_Grouping
begin

text \<open>
  Floating point numbers as text (\<open>write_float\<close>, \<open>format_float\<close>, \<open>format_hexfloat\<close> and
  \<open>do_write_float\<close> in \<open>fmt/bundled/format.h\<close>) for \<open>float\<close> and \<open>double\<close>, given by their bits.
\<close>

unbundle bit_operations_syntax

section \<open>Bits\<close>

text \<open>\<open>basic_fp\<close>: a number \<open>f * 2 ^ e\<close>; \<open>assign\<close> also tells that the predecessor is closer than the successor.\<close>

record 'w basic_fp =
  fp_f :: 'w
  fp_e :: int

definition fp_assign :: "('u::len word, 'c) float_info \<Rightarrow> 'u word \<Rightarrow> 'f::len word basic_fp \<times> bool" where
  "fp_assign fi u =
     (let p = fi_significand_bits fi; implicit_bit = push_bit p 1;
          f = ucast (u AND (implicit_bit - 1));
          biased_e = uint (drop_bit p (u AND exponent_mask fi));
          is_predecessor_closer = (f = 0 \<and> biased_e > 1);
          (f, biased_e) = (if biased_e = 0 then (f, 1) else (f + ucast implicit_bit, biased_e)) in
      (\<lparr>fp_f = f, fp_e = biased_e - fi_bias fi - int p\<rparr>, is_predecessor_closer))"

definition is_nan :: "('u::len word, 'c) float_info \<Rightarrow> 'u word \<Rightarrow> bool" where
  "is_nan fi br \<longleftrightarrow> br AND exponent_mask fi = exponent_mask fi \<and> br AND (push_bit (fi_significand_bits fi) 1 - 1) \<noteq> 0"

definition is_finite :: "('u::len word, 'c) float_info \<Rightarrow> 'u word \<Rightarrow> bool" where
  "is_finite fi br \<longleftrightarrow> br AND exponent_mask fi \<noteq> exponent_mask fi"

definition sign_bit :: "'u::len word \<Rightarrow> bool" where
  "sign_bit br \<longleftrightarrow> drop_bit (LENGTH('u) - 1) br \<noteq> 0"

text \<open>
  The conversion of a \<open>float\<close> to a \<open>double\<close>, which is exact: the exponent gets another bias, and a
  subnormal number becomes a normal one.
\<close>

definition convert_float :: "u32 \<Rightarrow> u64" where
  "convert_float u =
     (let s = push_bit 63 (ucast (drop_bit 31 u)); e = drop_bit 23 (u AND exponent_mask float_info_float);
          f = u AND (push_bit 23 1 - 1) in
      if e = 0xff then s OR push_bit 52 0x7ff OR push_bit 29 (ucast f)
      else if e \<noteq> 0 then s OR push_bit 52 (ucast e + (1023 - 127)) OR push_bit 29 (ucast f)
      else if f = 0 then s
      else let n = 24 - bit_length (unat f) in
           s OR push_bit 52 (1023 - 127 + 1 - word_of_nat n)
             OR push_bit 29 (ucast (push_bit n f AND (push_bit 23 1 - 1))))"

section \<open>Parts of the text\<close>

definition getsign :: "sign \<Rightarrow> char" where
  "getsign s = char_of (unat (drop_bit (unat (sign_code s) * 8)
     ((push_bit 24 0x20 OR push_bit 16 0x2b OR push_bit 8 0x2d) :: u32) AND 0xff))"

definition sign_chars :: "sign \<Rightarrow> string" where
  "sign_chars s = (if s \<noteq> Sign_none then [getsign s] else [])"

definition write_exponent :: "int \<Rightarrow> fault + string" where
  "write_exponent exp =
     (if \<not> (- 10000 < exp \<and> exp < 10000) then Inl Assert_failed
      else let sg = (if exp < 0 then ''-'' else ''+''); uexp = nat \<bar>exp\<bar> in
           andthen (if uexp \<ge> 100
                    then andthen (digits2 (uexp div 100)) (\<lambda>top.
                         Inr ((if uexp \<ge> 1000 then [top ! 0] else []) @ [top ! 1], uexp mod 100))
                    else Inr ([], uexp)) (\<lambda>(t, uexp).
           andthen (digits2 uexp) (\<lambda>d. Inr (sg @ t @ [d ! 0, d ! 1]))))"

definition write_nonfinite :: "bool \<Rightarrow> format_specs \<Rightarrow> sign \<Rightarrow> fmt_error + string" where
  "write_nonfinite isnan specs s =
     (let str = (if isnan then if specs_upper specs then ''NAN'' else ''nan''
                 else if specs_upper specs then ''INF'' else ''inf'');
          size = 3 + (if s \<noteq> Sign_none then 1 else 0);
          is_zero_fill = (fill_size specs = 1 \<and> fill_unit specs = CHR ''0'');
          specs = (if is_zero_fill then set_fill_char CHR '' '' specs else specs) in
      write_padded Align_left specs size (sign_chars s @ str))"

text \<open>
  A decimal number: its digits as a number of \<open>w\<close> bits (\<open>dragonbox::decimal_fp\<close>) or as characters
  (\<open>big_decimal_fp\<close>), and the exponent of the last digit.
\<close>

datatype dec_significand = Sig_int nat nat | Sig_text string

record dec_fp =
  dec_significand :: dec_significand
  dec_exponent :: int

fun get_significand_size :: "dec_significand \<Rightarrow> fault + nat" where
  "get_significand_size (Sig_int w n) = count_digits w n"
| "get_significand_size (Sig_text s) = Inr (length s)"

fun write_significand :: "dec_significand \<Rightarrow> nat \<Rightarrow> fault + string" where
  "write_significand (Sig_int w n) sz =
     andthen (format_decimal_to w (replicate sz CHR 0x00) n sz) (\<lambda>(buf, p). Inr buf)"
| "write_significand (Sig_text s) sz = Inr (take sz s)"

text \<open>With zeros behind, grouped.\<close>

definition write_significand_zeros :: "dec_significand \<Rightarrow> nat \<Rightarrow> nat \<Rightarrow> digit_grouping \<Rightarrow> (fault + string) option" where
  "write_significand_zeros sg sz exponent g =
     seq_opt (Some (write_significand sg sz)) (\<lambda>t.
     if \<not> has_separator g then Some (Inr (t @ replicate exponent CHR ''0''))
     else apply_grouping g (t @ replicate exponent CHR ''0''))"

text \<open>With a decimal point, written from the end; a point of 0 stands for none.\<close>

fun write_pairs :: "nat \<Rightarrow> string \<Rightarrow> int \<Rightarrow> nat \<Rightarrow> fault + (string \<times> int \<times> nat)" where
  "write_pairs 0 buf out n = Inr (buf, out, n)"
| "write_pairs (Suc i) buf out n =
     andthen (write2digits buf (out - 2) (n mod 100)) (\<lambda>buf. write_pairs i buf (out - 2) (n div 100))"

definition digits10 :: "nat \<Rightarrow> nat" where
  "digits10 w = (if w = 32 then 9 else if w = 64 then 19 else 38)"

definition write_int_point :: "nat \<Rightarrow> nat \<Rightarrow> nat \<Rightarrow> nat \<Rightarrow> char \<Rightarrow> fault + string" where
  "write_int_point w n sz integral_size decimal_point =
     (let buf = replicate (digits10 w + 2) CHR 0x00 in
      if decimal_point = CHR 0x00
      then andthen (format_decimal_to w buf n sz) (\<lambda>(buf, p). Inr (take sz buf))
      else let out = int sz + 1; floating_size = sz - integral_size in
           andthen (write_pairs (floating_size div 2) buf out n) (\<lambda>(buf, out, n).
           andthen (if floating_size mod 2 \<noteq> 0
                    then andthen (mem_write buf (out - 1) [digit_char (n mod 10)]) (\<lambda>buf. Inr (buf, out - 1, n div 10))
                    else Inr (buf, out, n)) (\<lambda>(buf, out, n).
           andthen (mem_write buf (out - 1) [decimal_point]) (\<lambda>buf.
           andthen (count_digits w n) (\<lambda>digits. andthen (check Assert_failed (digits \<le> integral_size)) (\<lambda>_.
           andthen (format_decimal_loop buf (out - 1) n) (\<lambda>(buf, p). Inr (take (sz + 1) buf))))))))"

fun write_point :: "dec_significand \<Rightarrow> nat \<Rightarrow> nat \<Rightarrow> char \<Rightarrow> fault + string" where
  "write_point (Sig_int w n) sz integral_size decimal_point = write_int_point w n sz integral_size decimal_point"
| "write_point (Sig_text s) sz integral_size decimal_point =
     Inr (take integral_size s @ (if decimal_point = CHR 0x00 then [] else decimal_point # drop integral_size (take sz s)))"

definition write_point_grouped :: "dec_significand \<Rightarrow> nat \<Rightarrow> nat \<Rightarrow> char \<Rightarrow> digit_grouping \<Rightarrow> (fault + string) option" where
  "write_point_grouped sg sz integral_size decimal_point g =
     seq_opt (Some (write_point sg sz integral_size decimal_point)) (\<lambda>t.
     if \<not> has_separator g then Some (Inr t)
     else seq_opt (apply_grouping g (take integral_size t)) (\<lambda>u. Some (Inr (u @ drop integral_size t))))"

section \<open>A decimal number\<close>

definition use_exp_format :: "format_specs \<Rightarrow> int \<Rightarrow> int \<Rightarrow> bool" where
  "use_exp_format specs exp_upper output_exp =
     (if specs_type specs = pres_exp then True
      else if specs_type specs = pres_fixed then False
      else output_exp < - 4 \<or> output_exp \<ge> (if fs_precision specs > 0 then fs_precision specs else exp_upper))"

definition write_exp_form ::
  "dec_significand \<Rightarrow> nat \<Rightarrow> format_specs \<Rightarrow> sign \<Rightarrow> nat \<Rightarrow> char \<Rightarrow> int \<Rightarrow> fmt_error + string" where
  "write_exp_form sg significand_size specs s sz decimal_point output_exp =
     (let num_zeros = (if specs_alt specs then max 0 (fs_precision specs - int significand_size) else 0);
          sz = sz + nat num_zeros;
          decimal_point = (if \<not> specs_alt specs \<and> significand_size = 1 then CHR 0x00 else decimal_point);
          abs_output_exp = \<bar>output_exp\<bar>;
          exp_digits = (if abs_output_exp \<ge> 100 then if abs_output_exp \<ge> 1000 then 4 else 3 else 2);
          sz = sz + (if decimal_point \<noteq> CHR 0x00 then 1 else 0) + 2 + exp_digits;
          exp_char = (if specs_upper specs then CHR ''E'' else CHR ''e'') in
      andthen (fmt_of (write_point sg significand_size 1 decimal_point)) (\<lambda>t.
      andthen (fmt_of (write_exponent output_exp)) (\<lambda>e.
      let body = sign_chars s @ t @ replicate (nat num_zeros) CHR ''0'' @ exp_char # e in
      if fs_width specs > 0 then write_padded Align_right specs sz body else Inr body)))"

definition separators_of :: "digit_grouping \<Rightarrow> int \<Rightarrow> (fmt_error + nat) option" where
  "separators_of g n = seq_opt (map_option fmt_of (count_separators g n)) (\<lambda>k. Some (to_unsigned k))"

definition do_write_float :: "dec_fp \<Rightarrow> format_specs \<Rightarrow> sign \<Rightarrow> int \<Rightarrow> numpunct \<Rightarrow> (fmt_error + string) option" where
  "do_write_float f specs s exp_upper loc =
     seq_opt (Some (fmt_of (get_significand_size (dec_significand f)))) (\<lambda>significand_size.
     let sg = dec_significand f; size = significand_size + (if s \<noteq> Sign_none then 1 else 0);
         decimal_point = (if specs_localized specs then np_decimal_point loc else CHR ''.'');
         output_exp = dec_exponent f + int significand_size - 1;
         exp = dec_exponent f + int significand_size in
     if use_exp_format specs exp_upper output_exp
     then Some (write_exp_form sg significand_size specs s size decimal_point output_exp)
     else if dec_exponent f \<ge> 0
     then let num_zeros = fs_precision specs - exp;
              num_zeros = (if specs_alt specs \<and> num_zeros \<le> 0 \<and> specs_type specs \<noteq> pres_fixed then 0 else num_zeros);
              size = size + nat (dec_exponent f) + (if specs_alt specs then 1 + nat num_zeros else 0);
              grouping = digit_grouping_new loc (specs_localized specs) in
          seq_opt (separators_of grouping exp) (\<lambda>k.
          seq_opt (map_option fmt_of (write_significand_zeros sg significand_size (nat (dec_exponent f)) grouping)) (\<lambda>t.
          Some (write_padded Align_right specs (size + k)
            (sign_chars s @ t @ (if specs_alt specs then decimal_point # replicate (nat num_zeros) CHR ''0'' else [])))))
     else if exp > 0
     then let num_zeros = (if specs_alt specs then fs_precision specs - int significand_size else 0);
              size = size + 1 + nat num_zeros;
              grouping = digit_grouping_new loc (specs_localized specs) in
          seq_opt (separators_of grouping exp) (\<lambda>k.
          seq_opt (map_option fmt_of (write_point_grouped sg significand_size (nat exp) decimal_point grouping)) (\<lambda>t.
          Some (write_padded Align_right specs (size + k) (sign_chars s @ t @ replicate (nat num_zeros) CHR ''0''))))
     else let num_zeros = - exp;
              num_zeros = (if significand_size = 0 \<and> fs_precision specs \<ge> 0 \<and> fs_precision specs < num_zeros
                           then fs_precision specs else num_zeros);
              pointy = (num_zeros \<noteq> 0 \<or> significand_size \<noteq> 0 \<or> specs_alt specs);
              size = size + 1 + (if pointy then 1 else 0) + nat num_zeros in
          seq_opt (Some (fmt_of (write_significand sg significand_size))) (\<lambda>t.
          Some (write_padded Align_right specs size
            (sign_chars s @ CHR ''0'' #
               (if pointy then decimal_point # replicate (nat num_zeros) CHR ''0'' @ t else [])))))"

section \<open>Hexadecimal digits\<close>

fun strip_zero_digits :: "string \<Rightarrow> nat \<Rightarrow> nat" where
  "strip_zero_digits xdigits 0 = 0"
| "strip_zero_digits xdigits (Suc n) = (if xdigits ! Suc n = CHR ''0'' then strip_zero_digits xdigits n else Suc n)"

text \<open>The digits rounded to the precision: a digit of 8 or more behind it rounds up.\<close>

definition round_xdigits :: "int \<Rightarrow> u64 \<Rightarrow> u64 \<times> nat" where
  "round_xdigits precision f =
     (let num_xdigits = 14; print_xdigits = num_xdigits - 1 in
      if precision \<ge> 0 \<and> int print_xdigits > precision
      then let shift = (print_xdigits - nat precision - 1) * 4;
               v = ucast (drop_bit shift (f AND push_bit shift 0xF)) :: u32 in
           (if v \<ge> 8 then let inc = push_bit (shift + 4) 1 in (f + inc) AND NOT (inc - 1) else f, nat precision)
      else (f, print_xdigits))"

definition format_hexfloat :: "u64 \<Rightarrow> format_specs \<Rightarrow> fault + string" where
  "format_hexfloat value specs =
     (let f = fst (fp_assign float_info_double value) :: u64 basic_fp; e = fp_e f + 52; num_xdigits = 14;
          leading_shift = (num_xdigits - 1) * 4;
          leading_xdigit = ucast (drop_bit leading_shift (fp_f f AND push_bit leading_shift 0xF)) :: u32;
          e = (if leading_xdigit > 1 then e - (32 - int (clz 32 (unat leading_xdigit)) - 1) else e) in
      case round_xdigits (fs_precision specs) (fp_f f) of (ff, print_xdigits) \<Rightarrow>
        andthen (do_format_base2e 4 (replicate 16 CHR ''0'') (unat ff) num_xdigits (specs_upper specs)) (\<lambda>(xdigits, p).
        let print_xdigits = strip_zero_digits xdigits print_xdigits; abs_e = nat \<bar>e\<bar> in
        andthen (count_digits 32 abs_e) (\<lambda>n.
        andthen (format_decimal_to 32 (replicate n CHR 0x00) abs_e n) (\<lambda>(ed, q).
        Inr ([CHR ''0'', if specs_upper specs then CHR ''X'' else CHR ''x'', xdigits ! 0]
          @ (if specs_alt specs \<or> print_xdigits > 0 \<or> int print_xdigits < fs_precision specs then ''.'' else [])
          @ take print_xdigits (drop 1 xdigits) @ replicate (nat (fs_precision specs) - print_xdigits) CHR ''0''
          @ [if specs_upper specs then CHR ''P'' else CHR ''p'', if e < 0 then CHR ''-'' else CHR ''+''] @ ed)))))"

section \<open>Decimal digits\<close>

definition fractional_part_rounding_thresholds :: "u32 list" where
  "fractional_part_rounding_thresholds =
     [0x9999999a, 0x828f5c29, 0x80418938, 0x80068db9, 0x8000a7c6, 0x800010c7, 0x800001ae, 0x8000002b]"

text \<open>
  \<open>print_subsegment\<close>: the first digits of a number of 9 digits, as the integer part of a fixed
  point number of 32 fractional bits that is multiplied by 100 again and again. The result are the
  digits, the fixed point number and its last pair of digits.
\<close>

function print_pairs :: "nat \<Rightarrow> string \<Rightarrow> u64 \<Rightarrow> u32 \<Rightarrow> fault + (string \<times> u64 \<times> u32)" where
  "print_pairs left buf prd digits =
     (if left = 0 then Inr (buf, prd, digits)
      else let prd = ucast (ucast prd :: u32) * 100; digits = ucast (drop_bit 32 prd) in
           andthen (digits2 (unat digits)) (\<lambda>d. print_pairs (left - 2) (buf @ d) prd digits))"
  by pat_completeness auto

termination by (relation "measure (\<lambda>(left, buf, prd, digits). left)") auto

declare print_pairs.simps [simp del]

definition print_subsegment :: "nat \<Rightarrow> u32 \<Rightarrow> fault + (string \<times> u64 \<times> u32)" where
  "print_subsegment number_of_digits_to_print subsegment =
     (if number_of_digits_to_print mod 2 \<noteq> 0
      then let prd = drop_bit 24 (ucast subsegment * 720575941) + 1; digits = ucast (drop_bit 32 prd) in
           print_pairs (number_of_digits_to_print - 1) [char_of ((48 + unat digits) mod 256)] prd digits
      else let prd = drop_bit 20 (ucast subsegment * 450359963) + 1; digits = ucast (drop_bit 32 prd) in
           andthen (digits2 (unat digits)) (\<lambda>d. print_pairs (number_of_digits_to_print - 2) d prd digits))"

text \<open>The fraction behind the last digit rounds up, or is one half and something follows.\<close>

definition rounds_up_inside :: "nat \<Rightarrow> u64 \<Rightarrow> u32 \<Rightarrow> bool \<Rightarrow> fault + bool" where
  "rounds_up_inside number_of_digits_to_print prd digits rest =
     (let fractional_part = ucast prd :: u32 in
      andthen (at_index fractional_part_rounding_thresholds (8 - number_of_digits_to_print)) (\<lambda>th.
      Inr (fractional_part \<ge> th
        \<or> drop_bit 31 fractional_part AND ((digits AND 1) OR (if rest then 1 else 0)) \<noteq> 0)))"

fun carry_down :: "string \<Rightarrow> nat \<Rightarrow> string" where
  "carry_down buf 0 = buf"
| "carry_down buf (Suc i) =
     (if char_value (buf ! Suc i) > char_value CHR ''9'' then carry_down (inc_at (buf[Suc i := CHR ''0'']) i) i else buf)"

text \<open>The digits of the first segment, which has 19 digits, and whether the last one is rounded up.\<close>

definition segment_digits :: "nat \<Rightarrow> u64 \<Rightarrow> bool \<Rightarrow> fault + (string \<times> bool)" where
  "segment_digits precision first_segment has_more_segments =
     (let first_subsegment = ucast (drop_bit 32 (umul128_upper64 first_segment 7922816251426433760)) :: u32;
          second_third_subsegments = first_segment - ucast first_subsegment * 10000000000 in
      andthen (print_subsegment (min precision 9) first_subsegment) (\<lambda>(buf, prd, digits).
      if precision < 9
      then andthen (rounds_up_inside precision prd digits (second_third_subsegments \<noteq> 0 \<or> has_more_segments)) (\<lambda>up. Inr (buf, up))
      else if precision = 9
      then Inr (buf, second_third_subsegments > 5000000000
             \<or> second_third_subsegments = 5000000000 \<and> (digits AND 1 \<noteq> 0 \<or> has_more_segments))
      else let second_subsegment = ucast (umul128_upper64 second_third_subsegments 1844674407370955162) :: u32;
               third_subsegment = ucast second_third_subsegments - second_subsegment * 10 in
           andthen (print_subsegment (precision - 9) second_subsegment) (\<lambda>(buf2, prd, digits).
           if precision < 18
           then andthen (rounds_up_inside (precision - 9) prd digits (third_subsegment \<noteq> 0 \<or> has_more_segments))
                  (\<lambda>up. Inr (buf @ buf2, up))
           else Inr (buf @ buf2, third_subsegment > 5
                  \<or> third_subsegment = 5 \<and> (digits AND 1 \<noteq> 0 \<or> has_more_segments)))))"

text \<open>The digits that are asked for, rounded, and the exponent of the last one.\<close>

definition fast_digits :: "bool \<Rightarrow> int \<Rightarrow> u64 \<Rightarrow> bool \<Rightarrow> int \<Rightarrow> fault + (string \<times> int)" where
  "fast_digits is_fixed precision first_segment has_more_segments exp =
     (if precision < 0 then Inr ([], exp)
      else if precision = 0
      then Inr (if first_segment OR (if has_more_segments then 1 else 0) > 5000000000000000000 then ''1'' else ''0'', exp)
      else let exp = exp - precision in
           andthen (segment_digits (nat precision) first_segment has_more_segments) (\<lambda>(buf, should_round_up).
           if should_round_up
           then let buf = carry_down (inc_at buf (nat precision - 1)) (nat precision - 1) in
                if char_value (buf ! 0) > char_value CHR ''9''
                then let buf = buf[0 := CHR ''1''] in if is_fixed then Inr (buf @ ''0'', exp) else Inr (buf, exp + 1)
                else Inr (buf, exp)
           else Inr (buf, exp)))"

text \<open>Significand and exponent of a double, and the first 19 digits: a segment, its digits, the rest, the exponent.\<close>

definition normalized :: "u64 \<Rightarrow> fault + (u64 \<times> int)" where
  "normalized br =
     (let significand = br AND (push_bit 52 1 - 1); exponent = uint (drop_bit 52 (br AND exponent_mask float_info_double)) in
      if exponent \<noteq> 0
      then Inr (push_bit 1 (significand OR push_bit 52 1), exponent - (1023 + 52))
      else if significand = 0 then Inl Assert_failed
      else let shift = int (clz 64 (unat significand)) in
           if \<not> shift \<ge> 64 - 52 then Inl Assert_failed
           else let shift = shift - (64 - 52 - 2) in Inr (push_bit (nat shift) significand, (- 1021 - 52) - shift))"

definition first_digits :: "u64 \<Rightarrow> fault + (u64 \<times> int \<times> bool \<times> int)" where
  "first_digits br =
     andthen (normalized br) (\<lambda>(significand, exponent).
     andthen (floor_log10_pow2 exponent) (\<lambda>l. let k = 2 - l; exp = - k in
     andthen (floor_log2_pow10 k) (\<lambda>l2. let beta = exponent + l2 in
     andthen (checked_shl significand beta) (\<lambda>u. andthen (get_cached_power k) (\<lambda>cache.
     let r = umul192_upper128 u cache; first_segment = u_hi r; has_more_segments = (u_lo r \<noteq> 0) in
     if first_segment \<ge> 1000000000000000000 then Inr (first_segment, 19, has_more_segments, exp)
     else Inr (first_segment * 10, 18, has_more_segments, exp))))))"

definition strip_zeros :: "string \<times> int \<Rightarrow> string \<times> int" where
  "strip_zeros r = (case r of (buf, exp) \<Rightarrow>
     let ds = rev (dropWhile (\<lambda>c. c = CHR ''0'') (rev buf)) in (ds, exp + int (length buf - length ds)))"

text \<open>
  \<open>format_float\<close> of a double, or of a float (also given as such) converted to a double. The
  array of the output buffer holds 500 characters, more than the fast path needs.
\<close>

definition format_float :: "u64 \<Rightarrow> int \<Rightarrow> format_specs \<Rightarrow> u32 option \<Rightarrow> (fmt_error + (string \<times> int)) option" where
  "format_float br precision specs binary32 =
     (let is_fixed = (specs_type specs = pres_fixed) in
      if br AND (push_bit 63 1 - 1) = 0
      then if precision \<le> 0 \<or> \<not> is_fixed then Some (Inr (''0'', 0))
           else Some (Inr (replicate (nat precision) CHR ''0'', - precision))
      else seq_opt (Some (fmt_of (first_digits br))) (\<lambda>(first_segment, digits, has_more_segments, exp).
           seq_opt (Some (if is_fixed then adjust_precision precision (exp + digits) else Inr precision)) (\<lambda>precision.
           map_option (\<lambda>r. andthen r (\<lambda>r. Inr (if \<not> is_fixed \<and> \<not> specs_alt specs then strip_zeros r else r)))
             (if digits > precision
              then Some (fmt_of (fast_digits is_fixed precision first_segment has_more_segments (exp + digits)))
              else case (case binary32 of None \<Rightarrow> fp_assign float_info_double br | Some u \<Rightarrow> fp_assign float_info_float u) of
                (f, is_predecessor_closer) \<Rightarrow>
                  format_dragon (fp_f f) (fp_e f)
                    ((if is_predecessor_closer then flag_predecessor_closer else 0) OR (if is_fixed then flag_fixed else 0))
                    (min precision 767) 500 (exp + digits - 1)))))"

section \<open>Writing\<close>

text \<open>\<open>exp_upper\<close>, of the number of decimal digits of the type.\<close>

definition exp_upper_of :: "int \<Rightarrow> int" where
  "exp_upper_of digits = (if digits \<noteq> 0 then min 16 (digits + 1) else 16)"

text \<open>
  What the template \<open>write_float\<close> takes from its type: the constants, the decimal digits, and the
  number as a double and, for a float, as it is.
\<close>

record ('w, 'c) float_type =
  ft_info :: "('w, 'c) float_info"
  ft_digits10 :: int
  ft_width :: nat
  ft_double :: "'w \<Rightarrow> u64"
  ft_binary32 :: "'w \<Rightarrow> u32 option"

definition float_type_float :: "(u32, u64) float_type" where
  "float_type_float = \<lparr>ft_info = float_info_float, ft_digits10 = 6, ft_width = 32, ft_double = convert_float, ft_binary32 = Some\<rparr>"

definition float_type_double :: "(u64, uint128_fallback) float_type" where
  "float_type_double = \<lparr>ft_info = float_info_double, ft_digits10 = 15, ft_width = 64, ft_double = (\<lambda>u. u), ft_binary32 = (\<lambda>u. None)\<rparr>"

definition write_shortest :: "('u::len word, 'c) float_type \<Rightarrow> 'u word \<Rightarrow> format_specs \<Rightarrow> sign \<Rightarrow> numpunct \<Rightarrow> (fmt_error + string) option" where
  "write_shortest ft value specs s loc =
     seq_opt (map_option fmt_of (to_decimal (ft_info ft) value)) (\<lambda>dec.
     do_write_float \<lparr>dec_significand = Sig_int (ft_width ft) (unat (df_significand dec)), dec_exponent = df_exponent dec\<rparr>
       specs s (exp_upper_of (ft_digits10 ft)) loc)"

definition write_float_digits ::
  "('u::len word, 'c) float_type \<Rightarrow> 'u word \<Rightarrow> format_specs \<Rightarrow> sign \<Rightarrow> int \<Rightarrow> numpunct \<Rightarrow> (fmt_error + string) option" where
  "write_float_digits ft value specs s precision loc =
     (let t = specs_type specs in
      seq_opt (Some (if t = pres_exp
                     then if precision = max_int then report_error ''number is too big'' else Inr (precision + 1)
                     else if t = pres_fixed then Inr precision
                     else Inr (if precision = 0 then 1 else precision))) (\<lambda>precision.
      let specs = (if (t = pres_exp \<or> t = pres_fixed) \<and> fs_precision specs \<noteq> 0 then set_alt specs else specs) in
      seq_opt (format_float (ft_double ft value) precision specs (ft_binary32 ft value)) (\<lambda>(buf, exp).
      do_write_float \<lparr>dec_significand = Sig_text buf, dec_exponent = exp\<rparr> (specs\<lparr>fs_precision := precision\<rparr>) s
        (exp_upper_of (ft_digits10 ft)) loc)))"

definition write_float :: "('u::len word, 'c) float_type \<Rightarrow> 'u word \<Rightarrow> format_specs \<Rightarrow> numpunct \<Rightarrow> (fmt_error + string) option" where
  "write_float ft value specs loc =
     (let s = (if sign_bit value then Sign_minus else specs_sign specs) in
      if \<not> is_finite (ft_info ft) value then Some (write_nonfinite (is_nan (ft_info ft) value) specs s)
      else let ahead = (specs_align specs = Align_numeric \<and> s \<noteq> Sign_none); pre = (if ahead then [getsign s] else []);
               s = (if ahead then Sign_none else s);
               specs = (if ahead \<and> fs_width specs \<noteq> 0 then specs\<lparr>fs_width := fs_width specs - 1\<rparr> else specs) in
           map_option (\<lambda>r. andthen r (\<lambda>t. Inr (pre @ t)))
             (if fs_precision specs < 0 \<and> specs_type specs = pres_none then write_shortest ft value specs s loc
              else if specs_type specs = pres_hexfloat
              then seq_opt (Some (fmt_of (format_hexfloat (ft_double ft value) specs))) (\<lambda>t.
                   let t = sign_chars s @ t in Some (write_padded Align_right specs (length t) t))
              else write_float_digits ft value specs s (if fs_precision specs < 0 then 6 else fs_precision specs) loc))"

text \<open>Without specifiers.\<close>

definition write_default_float :: "('u::len word, 'c) float_type \<Rightarrow> 'u word \<Rightarrow> numpunct \<Rightarrow> (fmt_error + string) option" where
  "write_default_float ft value loc =
     (let s = (if sign_bit value then Sign_minus else Sign_none) in
      if value AND exponent_mask (ft_info ft) = exponent_mask (ft_info ft)
      then Some (write_nonfinite (is_nan (ft_info ft) value) format_specs_new s)
      else write_shortest ft value format_specs_new s loc)"

end
