(* ===== verification/Fmt_Float_Props.thy ===== *)
theory Fmt_Float_Props
  imports Fmt_Float Fmt_Dragon_Props Fmt_Dragonbox_Props
begin

text \<open>
  The fast path of \<open>format_float\<close>: the first 19 digits of a number are cut into pieces of nine
  digits, which a fixed point number with 32 fractional bits turns into pairs of digits, and the
  fraction that is left decides on the rounding.
\<close>

unbundle bit_operations_syntax

section \<open>Digits of a fixed point number\<close>

text \<open>\<open>x / 2 ^ 32\<close> is \<open>n / d\<close> to within \<open>1 / d\<close>.\<close>

definition fixed_point :: "nat \<Rightarrow> nat \<Rightarrow> nat \<Rightarrow> bool" where
  "fixed_point x n d \<longleftrightarrow> n * 2 ^ 32 \<le> x * d \<and> x * d < (n + 1) * 2 ^ 32"

lemma fixed_point_split:
  assumes x: "fixed_point x n d" and d: "0 < d"
  shows "x div 2 ^ 32 = n div d" "fixed_point (x mod 2 ^ 32) (n mod d) d"
proof -
  define B :: nat where "B = 2 ^ 32"
  define q r where "q = n div d" and "r = n mod d"
  have n: "n = q * d + r" "r < d" using d by (simp_all add: q_def r_def)
  have x': "n * B \<le> x * d" "x * d < (n + 1) * B" using x by (simp_all add: fixed_point_def B_def)
  have lo: "q * B * d + r * B \<le> x * d" using x'(1) unfolding n(1) by (simp add: algebra_simps)
  have hi: "x * d < q * B * d + (r + 1) * B" using x'(2) unfolding n(1) by (simp add: algebra_simps)
  have "q * B * d \<le> x * d" using lo by linarith
  then have "q * B \<le> x" using d by simp
  moreover have "x < q * B + B"
  proof -
    have "(r + 1) * B \<le> d * B" using n(2) by (intro mult_right_mono) simp_all
    then have "x * d < q * B * d + d * B" using hi by linarith
    then have "x * d < (q * B + B) * d" by (simp add: algebra_simps)
    then show ?thesis using d by simp
  qed
  ultimately have qx: "x div B = q" by (intro div_nat_eqI) (simp_all add: mult.commute)
  then show "x div 2 ^ 32 = n div d" by (simp add: B_def q_def)
  have e: "x = q * B + x mod B" using div_mult_mod_eq [of x B] qx by simp
  have "x * d = q * B * d + x mod B * d" by (subst e) (simp only: add_mult_distrib)
  then show "fixed_point (x mod 2 ^ 32) (n mod d) d"
    unfolding fixed_point_def B_def [symmetric] r_def [symmetric] using lo hi by linarith
qed

lemma fixed_point_times: "fixed_point x n (k * d) \<Longrightarrow> fixed_point (x * k) n d"
  by (simp add: fixed_point_def mult.assoc)

lemma fixed_point_start:
  assumes m: "m * d = 2 ^ (32 + s) + e" and small: "n * e + 2 ^ s * d < 2 ^ (32 + s)"
  shows "fixed_point (n * m div 2 ^ s + 1) n d"
proof -
  define S :: nat where "S = 2 ^ s"
  define q where "q = n * m div S"
  have S: "0 < S" by (simp add: S_def)
  have pw: "(2 :: nat) ^ (32 + s) = 2 ^ 32 * S" by (simp add: S_def power_add)
  have q: "q * S \<le> n * m" "n * m < q * S + S" using dividend_less_div_times [OF S, of "n * m"] by (simp_all add: q_def)
  have nm: "n * m * d = n * 2 ^ 32 * S + n * e" unfolding mult.assoc m pw by (simp add: algebra_simps)
  have "n * m * d \<le> (q + 1) * S * d" using q(2) by (intro mult_right_mono) simp_all
  then have "n * 2 ^ 32 * S \<le> (q + 1) * d * S" using nm by (simp add: algebra_simps)
  then have lo: "n * 2 ^ 32 \<le> (q + 1) * d" using S by simp
  have "q * S * d \<le> n * m * d" using q(1) by (rule mult_right_mono) simp
  moreover have "(q + 1) * d * S = q * S * d + S * d" by (simp add: algebra_simps)
  ultimately have "(q + 1) * d * S \<le> n * 2 ^ 32 * S + n * e + S * d" using nm by linarith
  moreover have "n * e + S * d < 2 ^ 32 * S" using small by (simp add: S_def power_add)
  ultimately have "(q + 1) * d * S < (n + 1) * 2 ^ 32 * S" by (simp add: algebra_simps)
  then have "(q + 1) * d < (n + 1) * 2 ^ 32" using S by simp
  then show ?thesis using lo by (simp add: fixed_point_def q_def S_def)
qed


section \<open>Pieces of nine digits\<close>

lemma up32: "unat (ucast (n :: u32) :: u64) = unat n"
proof -
  have "unat n < 2 ^ LENGTH(32)" by (rule unsigned_less)
  then show ?thesis by (simp add: unsigned_ucast_eq take_bit_eq_mod)
qed

lemma low32: "unat (ucast (x :: u64) :: u32) = unat x mod 2 ^ 32"
  by (simp add: unsigned_ucast_eq take_bit_eq_mod)

lemma low_half: "unat (ucast (ucast (x :: u64) :: u32) :: u64) = unat x mod 2 ^ 32"
  by (simp only: up32 low32)

lemma high_half: "unat (ucast (drop_bit 32 x) :: u32) = unat (x :: u64) div 2 ^ 32"
proof -
  have "unat x div 2 ^ 32 < 2 ^ 32" using unat_less64 [of x] by (simp add: less_mult_imp_div_less)
  then show ?thesis by (simp add: unsigned_ucast_eq take_bit_eq_mod shr_word)
qed

lemma decimal_pair: "v < 100 \<Longrightarrow> all_digits [digit_char (v div 10), digit_char (v mod 10)] \<and> decimal [digit_char (v div 10), digit_char (v mod 10)] = v"
  using decimal_snoc [of "[digit_char (v div 10)]" "v mod 10"] decimal_snoc [of "[]" "v div 10"] by (simp add: all_digits_def)

lemma print_pairs_step:
  "print_pairs (2 * Suc k) buf prd digits =
     (let prd = ucast (ucast prd :: u32) * 100; digits = ucast (drop_bit 32 prd) in
      andthen (digits2 (unat digits)) (\<lambda>d. print_pairs (2 * k) (buf @ d) prd digits))"
  by (subst print_pairs.simps) simp

text \<open>Digits of the quotient, then those of the remainder.\<close>

lemma digits_continue:
  assumes "decimal pre = n div 10 ^ (2 * k + m)" and "all_digits pre" and "all_digits ds" and "length ds = 2 * k"
    and "decimal ds = n mod 10 ^ (2 * k + m) div 10 ^ m"
  shows "decimal (pre @ ds) = n div 10 ^ m" and "n mod 10 ^ (2 * k + m) mod 10 ^ m = n mod 10 ^ m"
    and "k \<noteq> 0 \<Longrightarrow> odd (n mod 10 ^ (2 * k + m) div 10 ^ m) \<longleftrightarrow> odd (n div 10 ^ m)"
proof -
  let ?D = "10 ^ (2 * k + m) :: nat"
  have "n = n div ?D * 10 ^ (2 * k) * 10 ^ m + n mod ?D"
    by (simp only: mult.assoc power_add [symmetric] div_mult_mod_eq)
  then have "n div 10 ^ m = (n div ?D * 10 ^ (2 * k) * 10 ^ m + n mod ?D) div 10 ^ m" by simp
  then have split: "n div 10 ^ m = n div ?D * 10 ^ (2 * k) + n mod ?D div 10 ^ m" by simp
  show "decimal (pre @ ds) = n div 10 ^ m" using decimal_append [OF assms(2,3)] assms(1,4,5) split by simp
  show "n mod ?D mod 10 ^ m = n mod 10 ^ m" by (simp add: power_add mod_mod_cancel)
  show "k \<noteq> 0 \<Longrightarrow> odd (n mod ?D div 10 ^ m) \<longleftrightarrow> odd (n div 10 ^ m)" unfolding split by simp
qed

lemma print_pairs_value:
  assumes "fixed_point (unat prd mod 2 ^ 32) r (10 ^ (2 * k + m))" and "r < 10 ^ (2 * k + m)"
  shows "\<exists>ds prd' digits'. print_pairs (2 * k) buf prd digits = Inr (buf @ ds, prd', digits')
    \<and> all_digits ds \<and> length ds = 2 * k \<and> decimal ds = r div 10 ^ m
    \<and> fixed_point (unat prd' mod 2 ^ 32) (r mod 10 ^ m) (10 ^ m)
    \<and> (if k = 0 then digits' = digits else odd (unat digits') \<longleftrightarrow> odd (r div 10 ^ m))"
  using assms
proof (induction k arbitrary: buf prd digits r)
  case 0
  then show ?case by (simp add: print_pairs.simps)
next
  case (Suc k)
  let ?D = "10 ^ (2 * k + m) :: nat"
  define X where "X = unat prd mod 2 ^ 32 * 100"
  define prd1 :: u64 where "prd1 = ucast (ucast prd :: u32) * 100"
  define v where "v = r div ?D"
  have X: "unat prd1 = X"
  proof -
    have h: "unat (100 :: u64) = 100" by simp
    have "unat prd mod 2 ^ 32 * 100 < 2 ^ 64" using mod_less_divisor [of "2 ^ 32" "unat prd"] by simp
    then show ?thesis unfolding prd1_def X_def by (subst exact64(2)) (simp_all only: low_half h)
  qed
  have D: "10 ^ (2 * Suc k + m) = 100 * ?D" by simp
  have "fixed_point X r ?D" unfolding X_def using Suc.prems(1) unfolding D by (rule fixed_point_times)
  then have s: "X div 2 ^ 32 = v" "fixed_point (X mod 2 ^ 32) (r mod ?D) ?D" unfolding v_def by (rule fixed_point_split, simp)+
  have v: "v < 100" unfolding v_def using Suc.prems(2) unfolding D by (simp add: less_mult_imp_div_less)
  have dg: "unat (ucast (drop_bit 32 prd1) :: u32) = v" by (simp only: high_half X s(1))
  obtain ds prd' digits' where ih: "print_pairs (2 * k) (buf @ [digit_char (v div 10), digit_char (v mod 10)]) prd1 (ucast (drop_bit 32 prd1))
        = Inr ((buf @ [digit_char (v div 10), digit_char (v mod 10)]) @ ds, prd', digits')"
      "all_digits ds" "length ds = 2 * k" "decimal ds = r mod ?D div 10 ^ m"
      "fixed_point (unat prd' mod 2 ^ 32) (r mod ?D mod 10 ^ m) (10 ^ m)"
      "if k = 0 then digits' = ucast (drop_bit 32 prd1) else odd (unat digits') \<longleftrightarrow> odd (r mod ?D div 10 ^ m)"
    using Suc.IH [of prd1 "r mod ?D" "buf @ [digit_char (v div 10), digit_char (v mod 10)]" "ucast (drop_bit 32 prd1)"] s(2) X by auto
  have run: "print_pairs (2 * Suc k) buf prd digits = Inr (buf @ [digit_char (v div 10), digit_char (v mod 10)] @ ds, prd', digits')"
    using ih(1) by (simp only: print_pairs_step Let_def prd1_def [symmetric] dg digits2_digits [OF v] andthen_simps append_assoc)
  note c = digits_continue [OF _ _ ih(2,3,4), of "[digit_char (v div 10), digit_char (v mod 10)]"] decimal_pair [OF v]
  have "odd (unat digits') \<longleftrightarrow> odd (r div 10 ^ m)" using ih(6) dg c by (cases k) (auto simp: v_def)
  then show ?case using run ih(2,3,5) c by (auto simp: v_def)
qed

text \<open>The first \<open>j\<close> digits of a number of nine digits, and the fraction that is left.\<close>

definition subsegment_printed :: "nat \<Rightarrow> nat \<Rightarrow> string \<times> u64 \<times> u32 \<Rightarrow> bool" where
  "subsegment_printed j n r \<longleftrightarrow> (case r of (buf, prd, digits) \<Rightarrow> all_digits buf \<and> length buf = j \<and>
     decimal buf = n div 10 ^ (9 - j) \<and> fixed_point (unat prd mod 2 ^ 32) (n mod 10 ^ (9 - j)) (10 ^ (9 - j)) \<and>
     (odd (unat digits) \<longleftrightarrow> odd (n div 10 ^ (9 - j))))"

lemma print_subsegment_value:
  assumes n: "unat n < 10 ^ 9" and j: "0 < j" "j \<le> 9"
  shows "\<exists>r. print_subsegment j n = Inr r \<and> subsegment_printed j (unat n) r"
proof -
  have start: "unat (drop_bit s ((ucast n :: u64) * c) + 1) = unat n * unat c div 2 ^ s + 1" if "unat c \<le> 720575941" for c and s
  proof -
    have "unat n * unat c \<le> 10 ^ 9 * 720575941" using n that by (intro mult_mono) simp_all
    then have small: "unat n * unat c < 2 ^ 63" by simp
    have u: "unat (ucast n :: u64) = unat n" by (rule up32)
    have "unat (ucast n :: u64) * unat c < 2 ^ 64" unfolding u using small by simp
    then have p: "unat ((ucast n :: u64) * c) = unat n * unat c" using exact64(2) [of "ucast n" c] unfolding u by simp
    have "unat n * unat c div 2 ^ s \<le> unat n * unat c" by (rule div_le_dividend)
    then have "unat n * unat c div 2 ^ s + 1 < 2 ^ 63 + 1" using small by linarith
    then have "unat n * unat c div 2 ^ s + 1 < 2 ^ 64" by simp
    then show ?thesis using p by (subst exact64(1)) (simp_all only: shr_word unsigned_1)
  qed
  show ?thesis
  proof (cases "even j")
    case True
    then obtain k where k: "j = 2 * Suc k" using j(1) by (metis dvdE mult_0_right neq0_conv not0_implies_Suc)
    define prd0 :: u64 where "prd0 = drop_bit 20 (ucast n * 450359963) + 1"
    define v where "v = unat n div 10 ^ 7"
    have m: "2 * k + (9 - j) = 7" using k j by simp
    have X: "unat prd0 = unat n * 450359963 div 2 ^ 20 + 1" unfolding prd0_def by (subst start) simp_all
    have fp: "fixed_point (unat prd0) (unat n) (10 ^ 7)"
      unfolding X by (rule fixed_point_start [where e = 2629504]) (use n in simp_all)
    have v: "v < 100" unfolding v_def using n by (simp add: less_mult_imp_div_less)
    have dg: "unat (ucast (drop_bit 32 prd0) :: u32) = v" using fixed_point_split(1) [OF fp] by (simp only: high_half v_def) simp
    have q: "fixed_point (unat prd0 mod 2 ^ 32) (unat n mod 10 ^ (2 * k + (9 - j))) (10 ^ (2 * k + (9 - j)))"
        "unat n mod 10 ^ (2 * k + (9 - j)) < 10 ^ (2 * k + (9 - j))"
      unfolding m by (rule fixed_point_split(2) [OF fp], simp_all)
    obtain ds prd' digits' where r: "print_pairs (2 * k) [digit_char (v div 10), digit_char (v mod 10)] prd0 (ucast (drop_bit 32 prd0))
          = Inr ([digit_char (v div 10), digit_char (v mod 10)] @ ds, prd', digits')"
        "all_digits ds" "length ds = 2 * k" "decimal ds = unat n mod 10 ^ (2 * k + (9 - j)) div 10 ^ (9 - j)"
        "fixed_point (unat prd' mod 2 ^ 32) (unat n mod 10 ^ (2 * k + (9 - j)) mod 10 ^ (9 - j)) (10 ^ (9 - j))"
        "if k = 0 then digits' = ucast (drop_bit 32 prd0) else odd (unat digits') \<longleftrightarrow> odd (unat n mod 10 ^ (2 * k + (9 - j)) div 10 ^ (9 - j))"
      using print_pairs_value [of prd0 "unat n mod 10 ^ (2 * k + (9 - j))" k "9 - j" "[digit_char (v div 10), digit_char (v mod 10)]" "ucast (drop_bit 32 prd0)", OF q] by blast
    have pre: "decimal [digit_char (v div 10), digit_char (v mod 10)] = unat n div 10 ^ (2 * k + (9 - j))" "all_digits [digit_char (v div 10), digit_char (v mod 10)]"
      unfolding m using decimal_pair [OF v] by (simp_all add: v_def)
    note c = digits_continue [OF pre r(2,3,4)]
    have run: "print_subsegment j n = Inr ([digit_char (v div 10), digit_char (v mod 10)] @ ds, prd', digits')"
      using r(1) k by (simp add: print_subsegment_def Let_def prd0_def [symmetric] dg digits2_digits [OF v])
    have "odd (unat digits') \<longleftrightarrow> odd (unat n div 10 ^ (9 - j))"
    proof (cases "k = 0")
      case True
      then show ?thesis using r(6) dg m by (simp add: v_def)
    next
      case False
      then show ?thesis using r(6) c(3) by simp
    qed
    moreover have "length ([digit_char (v div 10), digit_char (v mod 10)] @ ds) = j" using r(3) k by simp
    ultimately have "subsegment_printed j (unat n) ([digit_char (v div 10), digit_char (v mod 10)] @ ds, prd', digits')"
      unfolding subsegment_printed_def prod.case using pre(2) r(2) c(1) r(5) [unfolded c(2)] by (simp only: all_digits_simps simp_thms)
    then show ?thesis using run by blast
  next
    case False
    then obtain k where k: "j = 2 * k + 1" by (metis oddE)
    define prd0 :: u64 where "prd0 = drop_bit 24 (ucast n * 720575941) + 1"
    define v where "v = unat n div 10 ^ 8"
    have m: "2 * k + (9 - j) = 8" using k j by simp
    have X: "unat prd0 = unat n * 720575941 div 2 ^ 24 + 1" unfolding prd0_def by (subst start) simp_all
    have fp: "fixed_point (unat prd0) (unat n) (10 ^ 8)"
      unfolding X by (rule fixed_point_start [where e = 62072064]) (use n in simp_all)
    have v: "v < 10" unfolding v_def using n by (simp add: less_mult_imp_div_less)
    have dg: "unat (ucast (drop_bit 32 prd0) :: u32) = v" using fixed_point_split(1) [OF fp] by (simp only: high_half v_def) simp
    have one: "char_of (48 + v) = digit_char v" using v by (simp add: digit_char_def)
    have q: "fixed_point (unat prd0 mod 2 ^ 32) (unat n mod 10 ^ (2 * k + (9 - j))) (10 ^ (2 * k + (9 - j)))"
        "unat n mod 10 ^ (2 * k + (9 - j)) < 10 ^ (2 * k + (9 - j))"
      unfolding m by (rule fixed_point_split(2) [OF fp], simp_all)
    obtain ds prd' digits' where r: "print_pairs (2 * k) [digit_char v] prd0 (ucast (drop_bit 32 prd0)) = Inr ([digit_char v] @ ds, prd', digits')"
        "all_digits ds" "length ds = 2 * k" "decimal ds = unat n mod 10 ^ (2 * k + (9 - j)) div 10 ^ (9 - j)"
        "fixed_point (unat prd' mod 2 ^ 32) (unat n mod 10 ^ (2 * k + (9 - j)) mod 10 ^ (9 - j)) (10 ^ (9 - j))"
        "if k = 0 then digits' = ucast (drop_bit 32 prd0) else odd (unat digits') \<longleftrightarrow> odd (unat n mod 10 ^ (2 * k + (9 - j)) div 10 ^ (9 - j))"
      using print_pairs_value [of prd0 "unat n mod 10 ^ (2 * k + (9 - j))" k "9 - j" "[digit_char v]" "ucast (drop_bit 32 prd0)", OF q] by blast
    have dec: "all_digits [digit_char v]" "decimal [digit_char v] = v" using decimal_snoc [of "[]" v] v by (simp_all add: all_digits_def)
    have pre: "decimal [digit_char v] = unat n div 10 ^ (2 * k + (9 - j))" "all_digits [digit_char v]"
      unfolding m using dec by (simp_all add: v_def)
    note c = digits_continue [OF pre r(2,3,4)]
    have run: "print_subsegment j n = Inr ([digit_char v] @ ds, prd', digits')"
      using r(1) k by (simp add: print_subsegment_def Let_def prd0_def [symmetric] dg one)
    have "odd (unat digits') \<longleftrightarrow> odd (unat n div 10 ^ (9 - j))"
    proof (cases "k = 0")
      case True
      then show ?thesis using r(6) dg m by (simp add: v_def)
    next
      case False
      then show ?thesis using r(6) c(3) by simp
    qed
    moreover have "length ([digit_char v] @ ds) = j" using r(3) k by simp
    ultimately have "subsegment_printed j (unat n) ([digit_char v] @ ds, prd', digits')"
      unfolding subsegment_printed_def prod.case using pre(2) r(2) c(1) r(5) [unfolded c(2)] by (simp only: all_digits_simps simp_thms)
    then show ?thesis using run by blast
  qed
qed

section \<open>Rounding\<close>

lemma top_bit: "drop_bit 31 (w :: u32) = (if 2 ^ 31 \<le> unat w then 1 else 0)"
proof -
  have "unat w < 2 ^ LENGTH(32)" by (rule unsigned_less)
  then have "unat (drop_bit 31 w) = (if 2 ^ 31 \<le> unat w then 1 else 0)" by (auto simp: shr_word div_if)
  then show ?thesis by (simp add: word_eq_iff_unsigned [where 'a = nat])
qed

lemma last_bit: "(w :: u32) AND 1 = (if odd (unat w) then 1 else 0)"
proof -
  have "odd w \<longleftrightarrow> odd (unat w)" using bit_unsigned_iff [where 'a = nat, of w 0] by (simp add: bit_0)
  then show ?thesis by (simp add: and_one_eq mod2_eq_if)
qed

text \<open>
  The thresholds tell whether the fraction is greater than one half, its highest bit whether it is
  at least one half.
\<close>

lemma threshold:
  assumes x: "fixed_point x r (2 * h)" and h: "0 < h" and th: "(h + 1) * 2 ^ 32 \<le> t * (2 * h)" "t * (2 * h) < (h + 1) * 2 ^ 32 + 2 * h"
  shows "t \<le> x \<longleftrightarrow> h < r" and "2 ^ 31 \<le> x \<longleftrightarrow> h \<le> r"
proof -
  have x': "r * 2 ^ 32 \<le> x * (2 * h)" "x * (2 * h) < (r + 1) * 2 ^ 32" using x by (simp_all add: fixed_point_def)
  show "t \<le> x \<longleftrightarrow> h < r"
  proof
    assume "t \<le> x"
    then have "t * (2 * h) \<le> x * (2 * h)" by (rule mult_right_mono) simp
    then have "(h + 1) * 2 ^ 32 < (r + 1) * 2 ^ 32" using th(1) x'(2) by linarith
    then show "h < r" by simp
  next
    assume "h < r"
    then have "(h + 1) * 2 ^ 32 \<le> r * 2 ^ 32" by (intro mult_right_mono) simp_all
    then have "t * (2 * h) < (x + 1) * (2 * h)" using th(2) x'(1) by (simp add: algebra_simps)
    then have "t < x + 1" by (rule mult_right_less_imp_less) simp
    then show "t \<le> x" by simp
  qed
  show "2 ^ 31 \<le> x \<longleftrightarrow> h \<le> r"
  proof
    assume "2 ^ 31 \<le> x"
    then have "2 ^ 31 * (2 * h) \<le> x * (2 * h)" by (rule mult_right_mono) simp
    moreover have "h * 2 ^ 32 = 2 ^ 31 * (2 * h)" by simp
    ultimately have "h * 2 ^ 32 < (r + 1) * 2 ^ 32" using x'(2) by linarith
    then show "h \<le> r" by simp
  next
    assume "h \<le> r"
    then have "h * 2 ^ 32 \<le> r * 2 ^ 32" by (rule mult_right_mono) simp
    moreover have "h * 2 ^ 32 = 2 ^ 31 * (2 * h)" by simp
    ultimately have "2 ^ 31 * (2 * h) \<le> x * (2 * h)" using x'(1) by linarith
    then show "2 ^ 31 \<le> x" using h by simp
  qed
qed

lemma rounds_up_inside_value:
  assumes j: "0 < j" "j < 9" and x: "fixed_point (unat prd mod 2 ^ 32) r (10 ^ (9 - j))" and q: "odd (unat digits) \<longleftrightarrow> odd q"
  shows "rounds_up_inside j prd digits rest = Inr (10 ^ (9 - j) < 2 * r \<or> 10 ^ (9 - j) = 2 * r \<and> (odd q \<or> rest))"
proof -
  define h :: nat where "h = 5 * 10 ^ (8 - j)"
  have pw: "10 ^ (9 - j) = 2 * h" using j by (simp add: h_def Suc_diff_le flip: power_Suc)
  obtain t where t: "at_index fractional_part_rounding_thresholds (8 - j) = Inr t"
    "(h + 1) * 2 ^ 32 \<le> unat t * (2 * h)" "unat t * (2 * h) < (h + 1) * 2 ^ 32 + 2 * h"
  proof -
    have "list_all (\<lambda>k. case at_index fractional_part_rounding_thresholds k of Inl e \<Rightarrow> False
        | Inr t \<Rightarrow> (5 * 10 ^ k + 1) * 2 ^ 32 \<le> unat t * (2 * (5 * 10 ^ k)) \<and> unat t * (2 * (5 * 10 ^ k)) < (5 * 10 ^ k + 1) * 2 ^ 32 + 2 * (5 * 10 ^ k))
      [0, 1, 2, 3, 4, 5, 6, 7]"
      by (simp add: fractional_part_rounding_thresholds_def at_index_def)
    moreover have "8 - j \<in> {0, 1, 2, 3, 4, 5, 6, 7}" using j by auto
    ultimately show thesis using that unfolding h_def list_all_iff by (fastforce split: sum.splits)
  qed
  note th = threshold [OF x [unfolded pw] _ t(2,3)]
  have f: "unat (ucast prd :: u32) = unat prd mod 2 ^ 32" by (rule low32)
  have "t \<le> ucast prd \<longleftrightarrow> h < r" using th(1) f by (simp add: word_le_nat_alt h_def)
  moreover have "drop_bit 31 (ucast prd :: u32) AND ((digits AND 1) OR (if rest then 1 else 0)) \<noteq> 0 \<longleftrightarrow> h \<le> r \<and> (odd q \<or> rest)"
    unfolding top_bit last_bit f using th(2) q by (auto simp: h_def)
  ultimately show ?thesis unfolding pw using t(1) by (auto simp: rounds_up_inside_def Let_def)
qed

section \<open>The first segment\<close>

lemma segment_parts:
  fixes F :: u64
  defines "a \<equiv> ucast (drop_bit 32 (umul128_upper64 F 7922816251426433760)) :: u32"
  defines "b \<equiv> F - ucast a * 10000000000"
  defines "c \<equiv> ucast (umul128_upper64 b 1844674407370955162) :: u32"
  defines "d \<equiv> ucast b - c * 10"
  assumes F: "unat F < 10 ^ 19"
  shows "unat a = unat F div 10 ^ 10" and "unat b = unat F mod 10 ^ 10"
    and "unat c = unat b div 10" and "unat d = unat b mod 10"
proof -
  have "unat (drop_bit 32 (umul128_upper64 F 7922816251426433760)) = unat F * 7922816251426433760 div 2 ^ 64 div 2 ^ 32"
    by (simp only: shr_word umul128_upper64_value) simp
  also have "\<dots> = unat F * 7922816251426433760 div 2 ^ 96" by (simp only: div_mult2_eq [symmetric]) simp
  also have "\<dots> = unat F div 10 ^ 10" using F by (intro magic_division [where delta = 6456049664]) simp_all
  finally have q: "unat (drop_bit 32 (umul128_upper64 F 7922816251426433760)) = unat F div 10 ^ 10" .
  have a9: "unat F div 10 ^ 10 < 10 ^ 9" using F by (simp add: less_mult_imp_div_less)
  then show a: "unat a = unat F div 10 ^ 10" unfolding a_def low32 q by simp
  have u: "unat (ucast a :: u64) = unat F div 10 ^ 10" using a up32 [of a] by simp
  have t: "unat (10000000000 :: u64) = 10 ^ 10" by simp
  have le: "unat F div 10 ^ 10 * 10 ^ 10 \<le> unat F" by (rule div_times_less_eq_dividend)
  have "unat (ucast a :: u64) * unat (10000000000 :: u64) < 2 ^ 64" unfolding u t using le unat_less64 [of F] by linarith
  then have p: "unat (ucast a * 10000000000 :: u64) = unat F div 10 ^ 10 * 10 ^ 10" by (simp only: exact64(2) u t)
  then have "unat b = unat F - unat F div 10 ^ 10 * 10 ^ 10"
    unfolding b_def using le by (simp add: unat_sub word_le_nat_alt)
  then show b: "unat b = unat F mod 10 ^ 10" by (simp add: minus_div_mult_eq_mod)
  have b10: "unat b < 10 ^ 10" unfolding b by simp
  have "unat (umul128_upper64 b 1844674407370955162) = unat b * 1844674407370955162 div 2 ^ 64"
    by (simp only: umul128_upper64_value) simp
  also have "\<dots> = unat b div 10" using b10 by (intro magic_division [where delta = 4]) simp_all
  finally have qc: "unat (umul128_upper64 b 1844674407370955162) = unat b div 10" .
  have "unat b div 10 < 2 ^ 32" using b10 by simp
  then show c: "unat c = unat b div 10" unfolding c_def low32 qc by simp
  have "d = word_of_nat (unat b) - word_of_nat (unat c) * 10" unfolding d_def by (simp only: of_nat_unat ucast_id)
  also have "\<dots> = word_of_nat (unat b div 10 * 10 + unat b mod 10) - word_of_nat (unat b div 10) * 10" unfolding c by simp
  also have "\<dots> = word_of_nat (unat b mod 10)" by (simp only: of_nat_add of_nat_mult of_nat_numeral add_diff_cancel_left')
  finally have "unat d = unat (word_of_nat (unat b mod 10) :: u32)" by simp
  then show "unat d = unat b mod 10" by (simp add: unat_of_nat)
qed

text \<open>A number is compared with one half by its upper part, and on a tie by the lower one.\<close>

lemma half_of_parts:
  fixes P K r B :: nat
  assumes "even P" and "B < K"
  shows "P * K < 2 * (r * K + B) \<or> P * K = 2 * (r * K + B) \<and> X \<longleftrightarrow> P < 2 * r \<or> P = 2 * r \<and> (X \<or> B \<noteq> 0)"
proof -
  obtain h where h: "P = 2 * h" using assms(1) by blast
  consider "h < r" | "h = r" | "r < h" by linarith
  then show ?thesis
  proof cases
    case 1
    then have "(h + 1) * K \<le> r * K" by (intro mult_right_mono) simp_all
    then show ?thesis using 1 assms(2) by (simp add: h)
  next
    case 2
    then show ?thesis using assms(2) by (auto simp: h)
  next
    case 3
    then have "(r + 1) * K \<le> h * K" by (intro mult_right_mono) simp_all
    then show ?thesis using 3 assms(2) by (simp add: h)
  qed
qed

lemma mod_of_parts:
  fixes A K B P :: nat
  assumes "B < K" "0 < P"
  shows "(A * K + B) mod (P * K) = A mod P * K + B" and "(A * K + B) div (P * K) = A div P"
proof -
  have "(A * K + B) div (P * K) = (A * K + B) div K div P" by (simp add: div_mult2_eq mult.commute)
  also have "(A * K + B) div K = A" using assms(1) by simp
  finally show q: "(A * K + B) div (P * K) = A div P" .
  have "A * K + B = A div P * (P * K) + (A mod P * K + B)"
    using div_mult_mod_eq [of A P] by (metis add.assoc add_mult_distrib mult.assoc)
  moreover have "(A * K + B) mod (P * K) = A * K + B - A div P * (P * K)" unfolding q [symmetric] by (rule minus_div_mult_eq_mod [symmetric])
  ultimately show "(A * K + B) mod (P * K) = A mod P * K + B" by linarith
qed

text \<open>The first \<open>p\<close> digits of a number of 19 digits, and whether the rest is nearer to the next number.\<close>

lemma segment_digits_value:
  assumes F: "unat F < 10 ^ 19" and p: "0 < p" "p \<le> 18"
  shows "\<exists>buf up. segment_digits p F rest = Inr (buf, up) \<and> all_digits buf \<and> length buf = p
    \<and> decimal buf = unat F div 10 ^ (19 - p)
    \<and> (up \<longleftrightarrow> (let R = 2 * (unat F mod 10 ^ (19 - p)); D = 10 ^ (19 - p) in
          D < R \<or> D = R \<and> (odd (unat F div D) \<or> rest)))"
proof -
  define a where "a = (ucast (drop_bit 32 (umul128_upper64 F 7922816251426433760)) :: u32)"
  define b where "b = F - ucast a * 10000000000"
  define c where "c = (ucast (umul128_upper64 b 1844674407370955162) :: u32)"
  define d where "d = (ucast b - c * 10 :: u32)"
  note parts = segment_parts [OF F, folded a_def, folded b_def, folded c_def, folded d_def]
  have a9: "unat a < 10 ^ 9" unfolding parts(1) using F by (simp add: less_mult_imp_div_less)
  have b10: "unat b < 10 ^ 10" unfolding parts(2) by simp
  then have c9: "unat c < 10 ^ 9" unfolding parts(3) by simp
  have Fab: "unat F = unat a * 10 ^ 10 + unat b" unfolding parts(1,2) by simp
  have bcd: "unat b = unat c * 10 + unat d" unfolding parts(3,4) by simp
  obtain r where r: "print_subsegment (min p 9) a = Inr r" "subsegment_printed (min p 9) (unat a) r"
    using print_subsegment_value [OF a9, of "min p 9"] p by auto
  obtain buf prd digits where r': "r = (buf, prd, digits)" by (metis prod_cases3)
  note sd = segment_digits_def [of p F rest, unfolded Let_def, folded a_def, folded b_def, folded c_def, folded d_def]
  consider "p < 9" | "p = 9" | "9 < p" by linarith
  then show ?thesis
  proof cases
    case 1
    then have m: "0 < 9 - p" "9 - p < 9" "19 - p = (9 - p) + 10" using p by simp_all
    have P: "even (10 ^ (9 - p) :: nat)" "0 < (10 ^ (9 - p) :: nat)" using m by simp_all
    have D: "(10 :: nat) ^ (19 - p) = 10 ^ (9 - p) * 10 ^ 10" unfolding m(3) by (rule power_add)
    have s: "all_digits buf" "length buf = p" "decimal buf = unat a div 10 ^ (9 - p)"
        "fixed_point (unat prd mod 2 ^ 32) (unat a mod 10 ^ (9 - p)) (10 ^ (9 - p))"
        "odd (unat digits) \<longleftrightarrow> odd (unat a div 10 ^ (9 - p))"
      using r(2) 1 by (auto simp: subsegment_printed_def r')
    have b0: "b \<noteq> 0 \<longleftrightarrow> unat b \<noteq> 0" by (simp add: unat_eq_0)
    have "segment_digits p F rest = Inr (buf, 10 ^ (9 - p) < 2 * (unat a mod 10 ^ (9 - p))
        \<or> 10 ^ (9 - p) = 2 * (unat a mod 10 ^ (9 - p)) \<and> (odd (unat a div 10 ^ (9 - p)) \<or> b \<noteq> 0 \<or> rest))"
      using r(1) 1 rounds_up_inside_value [OF p(1) 1 s(4,5), of "b \<noteq> 0 \<or> rest"]
      by (simp add: sd r')
    then show ?thesis
      using s(1-3) mod_of_parts [OF b10 P(2), of "unat a"]
        half_of_parts [OF P(1) b10, of "unat a mod 10 ^ (9 - p)" "odd (unat a div 10 ^ (9 - p)) \<or> rest"]
      unfolding Fab D Let_def b0 by auto
  next
    case 2
    have s: "all_digits buf" "length buf = p" "decimal buf = unat a" "odd (unat digits) \<longleftrightarrow> odd (unat a)"
      using r(2) 2 by (auto simp: subsegment_printed_def r')
    have "segment_digits p F rest = Inr (buf, b > 5000000000 \<or> b = 5000000000 \<and> (odd (unat digits) \<or> rest))"
      unfolding sd using r(1) 2 by (simp add: r' last_bit)
    moreover have "b > 5000000000 \<longleftrightarrow> unat b > 5000000000" "b = 5000000000 \<longleftrightarrow> unat b = 5000000000"
      by (simp_all add: word_less_nat_alt word_eq_iff_unsigned [where 'a = nat])
    ultimately show ?thesis using s 2 parts(1,2) by (auto simp: Let_def)
  next
    case 3
    then have m: "p - 9 \<le> 9" "0 < p - 9" "19 - p = (18 - p) + 1" "18 - p = 9 - (p - 9)" using p by simp_all
    have s: "all_digits buf" "length buf = 9" "decimal buf = unat a" using r(2) 3 by (auto simp: subsegment_printed_def r')
    obtain r2 where r2: "print_subsegment (p - 9) c = Inr r2" "subsegment_printed (p - 9) (unat c) r2"
      using print_subsegment_value [OF c9 m(2,1)] by blast
    obtain buf2 prd2 digits2 where r2': "r2 = (buf2, prd2, digits2)" by (metis prod_cases3)
    have t: "all_digits buf2" "length buf2 = p - 9" "decimal buf2 = unat c div 10 ^ (18 - p)"
        "fixed_point (unat prd2 mod 2 ^ 32) (unat c mod 10 ^ (18 - p)) (10 ^ (18 - p))"
        "odd (unat digits2) \<longleftrightarrow> odd (unat c div 10 ^ (18 - p))"
      using r2(2) unfolding m(4) by (auto simp: subsegment_printed_def r2')
    have K: "unat d < 10" unfolding parts(4) by simp
    have P: "0 < (10 ^ (18 - p) :: nat)" by simp
    have D: "(10 :: nat) ^ (19 - p) = 10 ^ (18 - p) * 10" unfolding m(3) by simp
    have F': "unat F = (unat a * 10 ^ 9 + unat c) * 10 + unat d" using Fab bcd by simp
    have "(p - 9) + (18 - p) = 9" using 3 p(2) by simp
    then have ten: "unat a * 10 ^ 9 = unat a * 10 ^ (p - 9) * 10 ^ (18 - p)"
      by (simp only: mult.assoc power_add [symmetric])
    have A: "(unat a * 10 ^ 9 + unat c) mod 10 ^ (18 - p) = unat c mod 10 ^ (18 - p)"
        "(unat a * 10 ^ 9 + unat c) div 10 ^ (18 - p) = unat a * 10 ^ (p - 9) + unat c div 10 ^ (18 - p)"
      unfolding ten using P by simp_all
    note fm = mod_of_parts [OF K P, of "unat a * 10 ^ 9 + unat c", unfolded A]
    have "decimal (buf @ buf2) = unat a * 10 ^ (p - 9) + unat c div 10 ^ (18 - p)"
      unfolding decimal_append [OF s(1) t(1)] s(3) t(2,3) ..
    then have dec: "decimal (buf @ buf2) = unat F div 10 ^ (19 - p)" unfolding F' D fm(2) .
    have dec': "all_digits (buf @ buf2)" "length (buf @ buf2) = p" using s t(1,2) 3 by simp_all
    have par: "odd (unat a * 10 ^ (p - 9) + unat c div 10 ^ (18 - p)) \<longleftrightarrow> odd (unat c div 10 ^ (18 - p))" using m(2) by simp
    have d0: "d \<noteq> 0 \<longleftrightarrow> unat d \<noteq> 0" by (simp add: unat_eq_0)
    show ?thesis
    proof (cases "p < 18")
      case True
      then have m': "p - 9 < 9" "even (10 ^ (18 - p) :: nat)" by simp_all
      have "segment_digits p F rest = Inr (buf @ buf2, 10 ^ (18 - p) < 2 * (unat c mod 10 ^ (18 - p))
          \<or> 10 ^ (18 - p) = 2 * (unat c mod 10 ^ (18 - p)) \<and> (odd (unat c div 10 ^ (18 - p)) \<or> d \<noteq> 0 \<or> rest))"
        using r(1) r2(1) 3 True rounds_up_inside_value [OF m(2) m'(1) t(4) [unfolded m(4)] t(5), of "d \<noteq> 0 \<or> rest"]
        by (simp add: sd r' r2' flip: m(4))
      then show ?thesis
        using dec dec' half_of_parts [OF m'(2) K, of "unat c mod 10 ^ (18 - p)" "odd (unat c div 10 ^ (18 - p)) \<or> rest"]
        unfolding F' D Let_def d0 fm par by auto
    next
      case False
      then have e: "p = 18" using p by simp
      have "segment_digits p F rest = Inr (buf @ buf2, d > 5 \<or> d = 5 \<and> (odd (unat digits2) \<or> rest))"
        unfolding sd using r(1) r2(1) 3 e by (simp add: r' r2' last_bit)
      moreover have "d > 5 \<longleftrightarrow> unat d > 5" "d = 5 \<longleftrightarrow> unat d = 5"
        by (simp_all add: word_less_nat_alt word_eq_iff_unsigned [where 'a = nat])
      ultimately show ?thesis using dec dec' t(5) fm par e unfolding F' D Let_def by auto
    qed
  qed
qed

section \<open>The rounded digits\<close>

lemma char_value_of: "k < 128 \<Longrightarrow> char_value (char_of k) = int k"
  unfolding char_value_def char_of_int [symmetric] of_char_of by simp

lemma char_value_digit: "n < 10 \<Longrightarrow> char_value (digit_char n) = 48 + int n"
  using char_value_of [of "48 + n"] by (simp add: digit_char_def)

lemma above_nine:
  "char_value CHR ''9'' = 57" "char_value overflow_char = 58" "all_digits [c] \<Longrightarrow> char_value c \<le> 57 \<and> c \<noteq> overflow_char"
proof -
  show "char_value CHR ''9'' = 57" by (simp add: char_value_def)
  show "char_value overflow_char = 58" using char_value_of [of 58] by (simp add: overflow_char)
  assume "all_digits [c]"
  then obtain n where n: "n < 10" "c = digit_char n" using all_digits_snoc_cases [of "[]" c] by (metis append_Nil)
  then show "char_value c \<le> 57 \<and> c \<noteq> overflow_char" using char_value_digit [OF n(1)] digit_char_overflow [OF n(1)] by simp
qed

lemma carry_down_propagates:
  assumes "all_digits (take i buf)" "i < length buf" "all_digits [buf ! i] \<or> buf ! i = overflow_char"
  shows "carry_down buf i = propagate_carry buf i"
  using assms
proof (induction i arbitrary: buf)
  case (Suc i)
  have at: "take (Suc i) buf = take i buf @ [buf ! i]" using Suc.prems(2) by (simp add: take_Suc_conv_app_nth)
  have ds: "all_digits (take i buf)" "all_digits [buf ! i]" using Suc.prems(1) unfolding at by simp_all
  have same: "char_value (buf ! Suc i) > char_value CHR ''9'' \<longleftrightarrow> buf ! Suc i = overflow_char"
    using Suc.prems(3) above_nine by fastforce
  let ?buf = "inc_at (buf[Suc i := CHR ''0'']) i"
  have "all_digits [?buf ! i] \<or> ?buf ! i = overflow_char"
  proof -
    obtain n where n: "n < 10" "buf ! i = digit_char n" using all_digits_snoc_cases [of "[]" "buf ! i"] ds(2) by auto
    have "?buf ! i = inc_char (digit_char n)" using Suc.prems(2) n by (simp add: inc_at_def)
    then show ?thesis using n(1) decimal_pair [of "Suc n"] by (simp add: inc_char_digit all_digits_def)
  qed
  moreover have "all_digits (take i ?buf)" using ds(1) by (simp add: inc_at_def)
  moreover have "i < length ?buf" using Suc.prems(2) by (simp add: inc_at_def)
  ultimately show ?case using Suc.IH [of ?buf] same by simp
qed simp

text \<open>Rounding up, or not, as \<open>format_dragon\<close> does.\<close>

lemma fast_round:
  assumes ds: "all_digits ds" and d: "d < 10"
  shows "(if up
      then let buf = carry_down (inc_at (ds @ [digit_char d]) (length ds)) (length ds) in
           if char_value (buf ! 0) > char_value CHR ''9''
           then let buf = buf[0 := CHR ''1''] in if is_fixed then Inr (buf @ ''0'', x) else Inr (buf, x + 1) else Inr (buf, x)
      else Inr (ds @ [digit_char d], x)) = (Inr (dragon_round is_fixed (if up then 1 else - 1) (int d) ds x) :: 'e + (string \<times> int))"
proof -
  have code: "digit_code (int d) = digit_char d" using d by (rule digit_code_char)
  consider "\<not> up" | "up" "d < 9" | "up" "d = 9" using d by linarith
  then show ?thesis
  proof cases
    case 1
    then show ?thesis by (simp add: dragon_round_def code)
  next
    case 2
    have c: "digit_code (int d + 1) = digit_char (Suc d)" using digit_code_char [of "Suc d"] 2 by (simp add: add.commute)
    have i: "inc_at (ds @ [digit_char d]) (length ds) = ds @ [digit_char (Suc d)]"
      using 2 by (simp add: inc_at_def inc_char_digit)
    have a: "all_digits (ds @ [digit_char (Suc d)])" using ds 2 by (simp add: all_digits_def)
    have "carry_down (ds @ [digit_char (Suc d)]) (length ds) = propagate_carry (ds @ [digit_char (Suc d)]) (length ds)"
      using a by (intro carry_down_propagates) simp_all
    also have "\<dots> = ds @ [digit_char (Suc d)]"
      using digit_char_overflow [of "Suc d"] 2 by (cases "length ds") (simp_all add: nth_append)
    finally have k: "carry_down (ds @ [digit_char (Suc d)]) (length ds) = ds @ [digit_char (Suc d)]" .
    have "all_digits [(ds @ [digit_char (Suc d)]) ! 0]" using a by (cases ds) simp_all
    then have "\<not> char_value ((ds @ [digit_char (Suc d)]) ! 0) > char_value CHR ''9''" using above_nine by fastforce
    then show ?thesis using 2 by (simp add: dragon_round_def i k c Let_def)
  next
    case 3
    let ?buf = "propagate_carry (ds @ [overflow_char]) (length ds)"
    have i: "inc_at (ds @ [digit_char d]) (length ds) = ds @ [overflow_char]" using 3 by (simp add: inc_at_def inc_char_digit)
    have k: "carry_down (ds @ [overflow_char]) (length ds) = ?buf"
      using ds by (intro carry_down_propagates) simp_all
    have "all_digits [?buf ! 0] \<or> ?buf ! 0 = overflow_char"
      using propagate_carry_value [OF ds, of 0] by (auto simp: neq_Nil_conv)
    then have "char_value (?buf ! 0) > char_value CHR ''9'' \<longleftrightarrow> ?buf ! 0 = overflow_char" using above_nine by fastforce
    then show ?thesis unfolding i k using 3 by (simp add: dragon_round_def Let_def)
  qed
qed

lemma twice:
  fixes m h :: nat
  shows "2 * (2 * h) < 2 * (2 * m + (if rest then 1 else 0)) \<or> 2 * (2 * m + (if rest then 1 else 0)) = 2 * (2 * h) \<and> k
    \<longleftrightarrow> 2 * h < 2 * m \<or> 2 * h = 2 * m \<and> (k \<or> rest)"
  by (cases rest; cases k; simp; presburger?)

lemma round_half_even_rest:
  assumes "even D" "0 < D"
  shows "round_half_even (2 * n + (if rest then 1 else 0)) (2 * D) =
    n div D + (if D < 2 * (n mod D) \<or> D = 2 * (n mod D) \<and> (odd (n div D) \<or> rest) then 1 else 0)"
proof -
  let ?e = "if rest then 1 else 0 :: nat"
  have e: "?e < 2" by simp
  have q: "(2 * n + ?e) div (2 * D) = n div D" "(2 * n + ?e) mod (2 * D) = 2 * (n mod D) + ?e"
    using mod_of_parts [OF e assms(2), of n] by (simp_all add: mult.commute)
  obtain h where h: "D = 2 * h" using assms(1) by blast
  have "2 * D < 2 * (2 * (n mod D) + ?e) \<or> 2 * (2 * (n mod D) + ?e) = 2 * D \<and> odd (n div D)
      \<longleftrightarrow> D < 2 * (n mod D) \<or> D = 2 * (n mod D) \<and> (odd (n div D) \<or> rest)"
    unfolding h by (rule twice)
  then show ?thesis unfolding round_half_even_def Let_def q by simp
qed

text \<open>
  C39. The digits \<open>format_float\<close> prints from the first 19 digits of a number, by multiplications with
  fixed point reciprocals and a table of rounding thresholds, are the number to that many digits:
  rounded to the nearest, a tie to the even digit unless more of the number follows, with a carry
  to one more digit where all of them are nines.
\<close>

theorem fast_digits_are_rounded:
  assumes F: "unat F < 10 ^ 19" and p: "0 < p" "p \<le> 18"
  shows "\<exists>buf y. fast_digits is_fixed (int p) F rest x = Inr (buf, y) \<and> all_digits buf \<and> x - int p \<le> y
    \<and> decimal buf * 10 ^ nat (y - (x - int p)) = round_half_even (2 * unat F + (if rest then 1 else 0)) (2 * 10 ^ (19 - p))"
proof -
  let ?D = "10 ^ (19 - p) :: nat"
  obtain buf up where s: "segment_digits p F rest = Inr (buf, up)" "all_digits buf" "length buf = p" "decimal buf = unat F div ?D"
      "up \<longleftrightarrow> ?D < 2 * (unat F mod ?D) \<or> ?D = 2 * (unat F mod ?D) \<and> (odd (unat F div ?D) \<or> rest)"
    using segment_digits_value [OF F p, of rest] unfolding Let_def by blast
  obtain ds c where "buf = ds @ [c]" using s(3) p(1) by (cases buf rule: rev_cases) auto
  then obtain d where d: "buf = ds @ [digit_char d]" "d < 10" "all_digits ds" using all_digits_snoc_cases s(2) by metis
  have l: "p - 1 = length ds" using s(3) d(1) p(1) by simp
  have n: "\<not> int p < 0" "\<not> int p = 0" using p(1) by simp_all
  have run: "fast_digits is_fixed (int p) F rest x = Inr (dragon_round is_fixed (if up then 1 else - 1) (int d) ds (x - int p))"
    unfolding fast_digits_def if_not_P [OF n(1)] if_not_P [OF n(2)] Let_def nat_int s(1) andthen_simps prod.case d(1) l
    by (rule fast_round [OF d(3,2), unfolded Let_def])
  have u: "up \<longleftrightarrow> (if up then 1 else - 1 :: int) > 0 \<or> (if up then 1 else - 1 :: int) = 0 \<and> odd d" by simp
  obtain b y where r: "dragon_round is_fixed (if up then 1 else - 1) (int d) ds (x - int p) = (b, y)" "all_digits b" "x - int p \<le> y"
      "decimal b * 10 ^ nat (y - (x - int p)) = 10 * decimal ds + d + (if up then 1 else 0)"
    using dragon_round_value [OF d(3,2) u, of is_fixed "x - int p"] by blast
  have D: "even ?D" "0 < ?D" using p(2) by simp_all
  have "10 * decimal ds + d = unat F div ?D" using s(4) d by simp
  then have "decimal b * 10 ^ nat (y - (x - int p)) = round_half_even (2 * unat F + (if rest then 1 else 0)) (2 * ?D)"
    unfolding r(4) round_half_even_rest [OF D] using s(5) by simp
  then show ?thesis using run r(1-3) by auto
qed

theorem fast_digits_are_rounded_witness:
  "\<exists>buf y. fast_digits False (int 12) 1234567890123456789 True 5 = Inr (buf, y) \<and> all_digits buf \<and> 5 - int 12 \<le> y
    \<and> decimal buf * 10 ^ nat (y - (5 - int 12)) = round_half_even (2 * unat (1234567890123456789 :: u64) + (if True then 1 else 0)) (2 * 10 ^ (19 - 12))"
  by (rule fast_digits_are_rounded) simp_all

end
