(* ===== verification/Fmt_Float_Text.thy ===== *)
theory Fmt_Float_Text
  imports Complex_Main Fmt_Float_Props Fmt_Grouping_Props
begin

text \<open>
  What \<open>do_write_float\<close> writes: the two kinds of significands are written alike, and the text reads
  back as the decimal number, in either notation.
\<close>

section \<open>Significands\<close>

lemma write_pairs_text:
  assumes "2 * i < length (dec n)" and "2 * i \<le> out" and "out \<le> length buf"
  shows "write_pairs i buf (int out) n =
    Inr (take (out - 2 * i) buf @ drop (length (dec n) - 2 * i) (dec n) @ drop out buf, int (out - 2 * i), n div 100 ^ i)
    \<and> dec (n div 100 ^ i) = take (length (dec n) - 2 * i) (dec n)"
  using assms
proof (induction i arbitrary: buf out n)
  case (Suc i)
  let ?d = "[digit_char (n mod 100 div 10), digit_char (n mod 100 mod 10)]"
  define m where "m = out - 2"
  have "100 \<le> n"
  proof (rule ccontr)
    assume "\<not> 100 \<le> n"
    then have "length (dec n) \<le> 2" by (intro length_dec_le) simp_all
    then show False using Suc.prems(1) by simp
  qed
  then have dec: "dec n = dec (n div 100) @ ?d" by (rule dec_two_digits)
  have out: "out = m + 2" "2 * i \<le> m" using Suc.prems(2) by (simp_all add: m_def)
  have w: "write2digits buf (int out - 2) (n mod 100) = Inr (take m buf @ ?d @ drop out buf)"
    using Suc.prems(3) out(1) by (simp add: write2digits_def digits2_digits mem_write_def)
  have len: "length (dec n) = length (dec (n div 100)) + 2" by (simp add: dec)
  let ?buf = "take m buf @ ?d @ drop out buf"
  have m: "m \<le> length buf" using Suc.prems(3) out by simp
  have "write_pairs i ?buf (int m) (n div 100) =
      Inr (take (m - 2 * i) ?buf @ drop (length (dec (n div 100)) - 2 * i) (dec (n div 100)) @ drop m ?buf, int (m - 2 * i), n div 100 div 100 ^ i)
      \<and> dec (n div 100 div 100 ^ i) = take (length (dec (n div 100)) - 2 * i) (dec (n div 100))"
    using Suc.prems(1) len out(2) m Suc.prems(3) by (intro Suc.IH) simp_all
  moreover have "take (m - 2 * i) ?buf = take (m - 2 * i) buf" "drop m ?buf = ?d @ drop out buf" using m by simp_all
  moreover have "int out - 2 = int m" using out by simp
  moreover have "drop (length (dec n) - 2 * Suc i) (dec n) = drop (length (dec (n div 100)) - 2 * i) (dec (n div 100)) @ ?d"
    "take (length (dec n) - 2 * Suc i) (dec n) = take (length (dec (n div 100)) - 2 * i) (dec (n div 100))"
    using Suc.prems(1) len by (simp_all add: dec)
  ultimately show ?case using w out by (simp add: div_mult2_eq)
qed simp

text \<open>A number is written with a decimal point as its digits are.\<close>

lemma write_int_point_text:
  assumes w: "w = 32 \<or> w = 64" and n: "n < 2 ^ w" and size: "sz = length (dec n)" and int: "0 < k" "k \<le> sz"
    and dp: "dp \<noteq> CHR 0x00"
  shows "write_int_point w n sz k dp = Inr (take k (dec n) @ dp # drop k (dec n))"
proof -
  define fl where "fl = sz - k"
  define i where "i = fl div 2"
  define B :: string where "B = replicate (digits10 w + 2) CHR 0x00"
  have lB: "length B = digits10 w + 2" by (simp add: B_def)
  have room: "sz + 1 \<le> digits10 w + 2"
  proof -
    have "sz \<le> (if w = 32 then 10 else 20)" unfolding size using w n by (auto intro!: length_dec_le)
    then show ?thesis using w by (auto simp: digits10_def)
  qed
  have fl: "fl < sz" "2 * i \<le> fl" using int by (auto simp: fl_def i_def)
  obtain buf1 where p: "write_pairs i B (int (sz + 1)) n = Inr (buf1, int (sz + 1 - 2 * i), n div 100 ^ i)"
      "buf1 = take (sz + 1 - 2 * i) B @ drop (sz - 2 * i) (dec n) @ drop (sz + 1) B"
      "dec (n div 100 ^ i) = take (sz - 2 * i) (dec n)"
    using write_pairs_text [of i n "sz + 1" B] fl room size lB by auto
  define n1 where "n1 = n div 100 ^ i"
  have l1: "length buf1 = digits10 w + 2" using p(2) room fl size lB by simp
  have odd: "\<exists>buf2 n2. (if fl mod 2 \<noteq> 0
      then andthen (mem_write buf1 (int (sz + 1 - 2 * i) - 1) [digit_char (n1 mod 10)]) (\<lambda>buf. Inr (buf, int (sz + 1 - 2 * i) - 1, n1 div 10))
      else Inr (buf1, int (sz + 1 - 2 * i), n1)) = Inr (buf2, int (k + 1), n2)
      \<and> buf2 = take (k + 1) B @ drop k (dec n) @ drop (sz + 1) B \<and> dec n2 = take k (dec n) \<and> n2 \<le> n"
  proof (cases "fl mod 2 = 0")
    case True
    then have "sz - 2 * i = k" using fl int by (auto simp: i_def fl_def)
    then show ?thesis using True p(2,3) int by (auto simp: n1_def Suc_diff_le intro: div_le_dividend)
  next
    case False
    then have k: "sz - 2 * i = k + 1" using fl int by (auto simp: i_def fl_def) presburger
    have "dec n1 = take (k + 1) (dec n)" using p(3) k by (simp add: n1_def)
    then have ln: "length (dec n1) = k + 1" using k size by simp
    have "10 \<le> n1"
    proof (rule ccontr)
      assume "\<not> 10 \<le> n1"
      then show False using ln int by (simp add: dec_small)
    qed
    then have d: "dec n1 = dec (n1 div 10) @ [digit_char (n1 mod 10)]" by (rule dec_step)
    then have t: "dec (n1 div 10) = take k (dec n)" "dec n ! k = digit_char (n1 mod 10)"
      using \<open>dec n1 = take (k + 1) (dec n)\<close> ln k size
      by (simp_all add: take_Suc_conv_app_nth)
    have out: "sz + 1 - 2 * i = k + 2" using k fl by simp
    have "mem_write buf1 (int (Suc k)) [digit_char (n1 mod 10)] = Inr (take (k + 1) buf1 @ [digit_char (n1 mod 10)] @ drop (k + 2) buf1)"
      using l1 room k by (simp add: mem_write_def del: of_nat_Suc)
    moreover have "take (k + 1) buf1 = take (k + 1) B" "drop (k + 2) buf1 = drop (k + 1) (dec n) @ drop (sz + 1) B"
      unfolding p(2) out k using room k lB by simp_all
    moreover have "[digit_char (n1 mod 10)] @ drop (k + 1) (dec n) = drop k (dec n)"
      using Cons_nth_drop_Suc [of k "dec n"] k size t(2) by simp
    moreover have "n1 div 10 \<le> n" unfolding n1_def by (meson div_le_dividend le_trans)
    ultimately show ?thesis using False t(1) out by simp
  qed
  then obtain buf2 n2 where o: "(if fl mod 2 \<noteq> 0
      then andthen (mem_write buf1 (int (sz + 1 - 2 * i) - 1) [digit_char (n1 mod 10)]) (\<lambda>buf. Inr (buf, int (sz + 1 - 2 * i) - 1, n1 div 10))
      else Inr (buf1, int (sz + 1 - 2 * i), n1)) = Inr (buf2, int (k + 1), n2)"
      "buf2 = take (k + 1) B @ drop k (dec n) @ drop (sz + 1) B" "dec n2 = take k (dec n)" "n2 \<le> n" by blast
  have ln2: "length (dec n2) = k" using o(3) int size by simp
  have n2: "n2 < 2 ^ w" using o(4) n by simp
  let ?buf3 = "take k buf2 @ [dp] @ drop (k + 1) buf2"
  have b3: "mem_write buf2 (int k) [dp] = Inr ?buf3" using o(2) room int lB by (simp add: mem_write_def)
  have W: "w \<in> int_widths" using w by (auto simp: int_widths_def)
  have "format_decimal_loop ?buf3 (int k) n2 = Inr (take (k - length (dec n2)) ?buf3 @ dec n2 @ drop k ?buf3, int (k - length (dec n2)))"
    using ln2 o(2) room int lB by (intro format_decimal_loop_writes) simp_all
  then have f: "format_decimal_loop ?buf3 (int k) n2 = Inr (take k (dec n) @ drop k ?buf3, 0)" using ln2 o(3) by simp
  have "drop k ?buf3 = dp # drop k (dec n) @ drop (sz + 1) B" using o(2) room int lB by simp
  then have d3: "take k (dec n) @ drop k ?buf3 = (take k (dec n) @ dp # drop k (dec n)) @ drop (sz + 1) B" by simp
  have z: "length (take k (dec n) @ dp # drop k (dec n)) = sz + 1" using int size by simp
  have t: "take (sz + 1) (take k (dec n) @ drop k ?buf3) = take k (dec n) @ dp # drop k (dec n)"
    unfolding d3 z [symmetric] by (simp only: append_eq_conv_conj [THEN iffD1, OF refl, THEN conjunct1, symmetric])
  have s1: "int sz + 1 = int (sz + 1)" by simp
  have k1: "int (k + 1) - 1 = int k" by simp
  have "write_int_point w n sz k dp = andthen (mem_write buf2 (int k) [dp]) (\<lambda>buf.
      andthen (count_digits w n2) (\<lambda>digits. andthen (check Assert_failed (digits \<le> k)) (\<lambda>_.
      andthen (format_decimal_loop buf (int k) n2) (\<lambda>(buf, p). Inr (take (sz + 1) buf)))))"
    unfolding write_int_point_def Let_def if_not_P [OF dp] fl_def [symmetric] i_def [symmetric] B_def [symmetric] s1 p(1)
      andthen_simps prod.case n1_def [symmetric] o(1) k1 ..
  then show ?thesis using b3 count_digits_correct [OF W n2] ln2 f t by simp
qed

lemma significand_text:
  assumes w: "w = 32 \<or> w = 64" and n: "n < 2 ^ w"
  shows "get_significand_size (Sig_int w n) = Inr (length (dec n))"
    and "write_significand (Sig_int w n) (length (dec n)) = Inr (dec n)"
    and "0 < k \<Longrightarrow> k \<le> length (dec n) \<Longrightarrow> dp \<noteq> CHR 0x00 \<or> k = length (dec n) \<Longrightarrow>
      write_point (Sig_int w n) (length (dec n)) k dp = write_point (Sig_text (dec n)) (length (dec n)) k dp"
proof -
  have W: "w \<in> int_widths" using w by (auto simp: int_widths_def)
  show "get_significand_size (Sig_int w n) = Inr (length (dec n))" by (simp add: count_digits_correct [OF W n])
  show "write_significand (Sig_int w n) (length (dec n)) = Inr (dec n)"
    using format_decimal_to_writes [OF W n, of "length (dec n)" "replicate (length (dec n)) CHR 0x00"] by simp
  assume k: "0 < k" "k \<le> length (dec n)" and dp: "dp \<noteq> CHR 0x00 \<or> k = length (dec n)"
  have "length (dec n) \<le> digits10 w + 1"
  proof -
    have "length (dec n) \<le> (if w = 32 then 10 else 20)" using w n by (auto intro!: length_dec_le)
    then show ?thesis using w by (auto simp: digits10_def)
  qed
  then have z: "write_int_point w n (length (dec n)) k (CHR 0x00) = Inr (dec n)"
    using format_decimal_to_writes [OF W n, of "length (dec n)" "replicate (digits10 w + 2) CHR 0x00"]
    by (simp add: write_int_point_def)
  show "write_point (Sig_int w n) (length (dec n)) k dp = write_point (Sig_text (dec n)) (length (dec n)) k dp"
    using z dp write_int_point_text [OF w n refl k] by (cases "dp = CHR 0x00") simp_all
qed

text \<open>The shortest digits, given as a number, are written as the same digits given as characters.\<close>

lemma do_write_float_int:
  assumes w: "w = 32 \<or> w = 64" and n: "n < 2 ^ w" and dp: "\<not> specs_localized specs \<or> np_decimal_point loc \<noteq> CHR 0x00"
  shows "do_write_float \<lparr>dec_significand = Sig_int w n, dec_exponent = e\<rparr> specs s upper loc =
    do_write_float \<lparr>dec_significand = Sig_text (dec n), dec_exponent = e\<rparr> specs s upper loc"
proof -
  note p = significand_text [OF w n]
  have pos: "1 \<le> length (dec n)" by (simp add: Suc_le_eq)
  have d: "(if specs_localized specs then np_decimal_point loc else CHR ''.'') \<noteq> CHR 0x00" using dp by auto
  have form: "write_exp_form (Sig_int w n) (length (dec n)) specs s size d x = write_exp_form (Sig_text (dec n)) (length (dec n)) specs s size d x"
    if "d \<noteq> CHR 0x00" for size d x
    using p(3) [of 1 "if \<not> specs_alt specs \<and> length (dec n) = 1 then CHR 0x00 else d"] pos that
    unfolding write_exp_form_def Let_def by auto
  have zeros: "write_significand_zeros (Sig_int w n) (length (dec n)) k g = write_significand_zeros (Sig_text (dec n)) (length (dec n)) k g" for k g
    unfolding write_significand_zeros_def p(2) by simp
  have point: "write_point_grouped (Sig_int w n) (length (dec n)) (nat (e + int (length (dec n)))) d g
      = write_point_grouped (Sig_text (dec n)) (length (dec n)) (nat (e + int (length (dec n)))) d g"
    if "e < 0" "0 < e + int (length (dec n))" "d \<noteq> CHR 0x00" for d g
    unfolding write_point_grouped_def using p(3) [of "nat (e + int (length (dec n)))" d] that by simp
  show ?thesis
    unfolding do_write_float_def dec_fp.simps p(1) get_significand_size.simps(2) fmt_of_simps seq_opt_simps Let_def zeros form [OF d] p(2)
    using point [OF _ _ d] by (simp split del: if_split cong: if_cong)
qed

section \<open>Reading back\<close>

text \<open>A number in fixed or exponent notation: all its digits, and the exponent of the last one.\<close>

definition read_exponent :: "string \<Rightarrow> int" where
  "read_exponent x = (case x of [] \<Rightarrow> 0 | c # ds \<Rightarrow> if c = CHR ''-'' then - int (decimal ds) else int (decimal ds))"

definition read_number :: "string \<Rightarrow> nat \<times> int" where
  "read_number t =
     (let m = takeWhile (\<lambda>c. c \<noteq> CHR ''e'' \<and> c \<noteq> CHR ''E'') t; x = drop 1 (dropWhile (\<lambda>c. c \<noteq> CHR ''e'' \<and> c \<noteq> CHR ''E'') t);
          ip = takeWhile (\<lambda>c. c \<noteq> CHR ''.'') m; fp = drop 1 (dropWhile (\<lambda>c. c \<noteq> CHR ''.'') m) in
      (decimal (ip @ fp), read_exponent x - int (length fp)))"

definition number_value :: "nat \<times> int \<Rightarrow> rat" where
  "number_value r = of_nat (fst r) * 10 powi snd r"

lemma number_value_zeros: "number_value (n * 10 ^ k, e) = number_value (n, e + int k)"
  by (simp add: number_value_def power_int_add)

lemma digits_no_marks: "all_digits ds \<Longrightarrow> CHR ''e'' \<notin> set ds \<and> CHR ''E'' \<notin> set ds \<and> CHR ''.'' \<notin> set ds"
  by (auto simp: all_digits_def char_digit_def)

lemma takeWhile_stop: "\<forall>x \<in> set xs. P x \<Longrightarrow> \<not> P y \<Longrightarrow> takeWhile P (xs @ y # ys) = xs \<and> dropWhile P (xs @ y # ys) = y # ys"
  by (induction xs) auto

lemma takeWhile_none: "\<forall>x \<in> set xs. P x \<Longrightarrow> takeWhile P xs = xs \<and> dropWhile P xs = []"
  by (induction xs) auto

lemma read_mantissa:
  assumes "all_digits ip" "all_digits fp" "point = [] \<and> fp = [] \<or> point = ''.''"
  shows "takeWhile (\<lambda>c. c \<noteq> CHR ''.'') (ip @ point @ fp) = ip" "drop 1 (dropWhile (\<lambda>c. c \<noteq> CHR ''.'') (ip @ point @ fp)) = fp"
    "\<forall>c \<in> set (ip @ point @ fp). c \<noteq> CHR ''e'' \<and> c \<noteq> CHR ''E''"
proof -
  note no = digits_no_marks [OF assms(1)] digits_no_marks [OF assms(2)]
  have ni: "\<forall>c \<in> set ip. c \<noteq> CHR ''.''" using no by blast
  have dot: "\<not> CHR ''.'' \<noteq> CHR ''.''" by simp
  have "takeWhile (\<lambda>c. c \<noteq> CHR ''.'') (ip @ point @ fp) = ip \<and> drop 1 (dropWhile (\<lambda>c. c \<noteq> CHR ''.'') (ip @ point @ fp)) = fp"
    using assms(3)
  proof (elim disjE conjE)
    assume "point = []" "fp = []"
    then show ?thesis using takeWhile_none [OF ni] by (simp only: append_Nil append_Nil2 drop_Nil conj_assoc)
  next
    assume p: "point = ''.''"
    have "ip @ point @ fp = ip @ CHR ''.'' # fp" by (simp only: p append_Cons append_Nil)
    then show ?thesis using takeWhile_stop [OF ni dot, of fp] by simp
  qed
  then show "takeWhile (\<lambda>c. c \<noteq> CHR ''.'') (ip @ point @ fp) = ip" "drop 1 (dropWhile (\<lambda>c. c \<noteq> CHR ''.'') (ip @ point @ fp)) = fp"
    by (rule conjunct1, rule conjunct2)
  show "\<forall>c \<in> set (ip @ point @ fp). c \<noteq> CHR ''e'' \<and> c \<noteq> CHR ''E''"
    using no assms(3) by (elim disjE) (simp_all, blast+)
qed

lemma read_number_fixed:
  assumes "all_digits ip" "all_digits fp" "point = [] \<and> fp = [] \<or> point = ''.''"
  shows "read_number (ip @ point @ fp) = (decimal (ip @ fp), - int (length fp))"
  unfolding read_number_def Let_def takeWhile_none [OF read_mantissa(3) [OF assms], THEN conjunct1]
    takeWhile_none [OF read_mantissa(3) [OF assms], THEN conjunct2] read_mantissa(1,2) [OF assms]
  by (simp add: read_exponent_def)

lemma read_number_exp:
  assumes "all_digits ip" "all_digits fp" "point = [] \<and> fp = [] \<or> point = ''.''" "c = CHR ''e'' \<or> c = CHR ''E''"
  shows "read_number (ip @ point @ fp @ c # x) = (decimal (ip @ fp), read_exponent x - int (length fp))"
proof -
  have "\<not> (c \<noteq> CHR ''e'' \<and> c \<noteq> CHR ''E'')" using assms(4) by auto
  note t = takeWhile_stop [OF read_mantissa(3) [OF assms(1-3)] this, of x]
  have "ip @ point @ fp @ c # x = (ip @ point @ fp) @ c # x" by simp
  then show ?thesis unfolding read_number_def Let_def using t read_mantissa(1,2) [OF assms(1-3)] by simp
qed

text \<open>The exponent has two digits or more.\<close>

definition exponent_digits :: "int \<Rightarrow> nat" where
  "exponent_digits x = (if \<bar>x\<bar> \<ge> 100 then if \<bar>x\<bar> \<ge> 1000 then 4 else 3 else 2)"

lemma write_exponent_text:
  assumes "\<bar>x\<bar> < 10000"
  shows "\<exists>ds. write_exponent x = Inr ((if x < 0 then CHR ''-'' else CHR ''+'') # ds) \<and> all_digits ds
    \<and> decimal ds = nat \<bar>x\<bar> \<and> length ds = exponent_digits x"
proof -
  define u where "u = nat \<bar>x\<bar>"
  have u: "u < 10000" using assms by (simp add: u_def)
  have range: "- 10000 < x \<and> x < 10000" using assms by auto
  have at: "100 \<le> u \<longleftrightarrow> 100 \<le> \<bar>x\<bar>" "1000 \<le> u \<longleftrightarrow> 1000 \<le> \<bar>x\<bar>" by (auto simp: u_def)
  consider "u < 100" | "100 \<le> u" "u < 1000" | "1000 \<le> u" by linarith
  then show ?thesis
  proof cases
    case 1
    let ?ds = "[digit_char (u div 10), digit_char (u mod 10)]"
    have "write_exponent x = Inr ((if x < 0 then CHR ''-'' else CHR ''+'') # ?ds)"
      using 1 range at by (simp add: write_exponent_def Let_def digits2_digits flip: u_def)
    moreover have "length ?ds = exponent_digits x" using 1 at by (simp add: exponent_digits_def)
    ultimately show ?thesis unfolding u_def [symmetric] using decimal_pair [OF 1] by blast
  next
    case 2
    have v: "u div 100 < 10" "u mod 100 < 100" using 2 by (simp_all add: less_mult_imp_div_less)
    let ?ds = "[digit_char (u div 100)] @ [digit_char (u mod 100 div 10), digit_char (u mod 100 mod 10)]"
    have "decimal ?ds = u" "all_digits ?ds"
      using decimal_append [of "[digit_char (u div 100)]" "[digit_char (u mod 100 div 10), digit_char (u mod 100 mod 10)]"]
        decimal_pair [OF v(2)] decimal_snoc [of "[]" "u div 100"] v(1) by (simp_all add: all_digits_def)
    moreover have "write_exponent x = Inr ((if x < 0 then CHR ''-'' else CHR ''+'') # ?ds)"
      using 2 range at v by (simp add: write_exponent_def Let_def digits2_digits flip: u_def)
    moreover have "length ?ds = exponent_digits x" using 2 at by (simp add: exponent_digits_def)
    ultimately show ?thesis unfolding u_def [symmetric] by blast
  next
    case 3
    have v: "u div 100 < 100" "u mod 100 < 100" using u by (simp_all add: less_mult_imp_div_less)
    let ?ds = "[digit_char (u div 100 div 10), digit_char (u div 100 mod 10)] @ [digit_char (u mod 100 div 10), digit_char (u mod 100 mod 10)]"
    note d = decimal_pair [OF v(1)] decimal_pair [OF v(2)]
    have "decimal ?ds = u" using decimal_append [OF d(1) [THEN conjunct1] d(2) [THEN conjunct1]] d by simp
    moreover have "all_digits ?ds" using d by (simp only: all_digits_simps(3) simp_thms)
    moreover have "write_exponent x = Inr ((if x < 0 then CHR ''-'' else CHR ''+'') # ?ds)"
      using 3 range at v by (simp add: write_exponent_def Let_def digits2_digits flip: u_def)
    moreover have "length ?ds = exponent_digits x" using 3 at by (simp add: exponent_digits_def)
    ultimately show ?thesis unfolding u_def [symmetric] by blast
  qed
qed

text \<open>Without a locale there are no separators.\<close>

lemma no_separators:
  assumes "n \<le> max_int"
  shows "separators_of (digit_grouping_new loc False) n = Some (Inr 0)" "\<not> has_separator (digit_grouping_new loc False)"
proof -
  let ?g = "digit_grouping_new loc False"
  have g: "dg_sep ?g = []" by (simp add: digit_grouping_new_def)
  then show "\<not> has_separator ?g" by (simp add: has_separator_def)
  have "next_separator ?g st = Inr (max_int, st)" for st using g by (simp add: next_separator_def split: prod.split)
  then have "count_separators ?g n = Some (Inr 0)"
    unfolding count_separators_def using assms by (subst count_separators_loop.simps) simp
  then show "separators_of ?g n = Some (Inr 0)" by (simp add: separators_of_def to_unsigned_def)
qed

lemma padded_0: "fs_width specs \<le> 0 \<Longrightarrow> padded d specs n t = t"
  by (simp add: padded_def Let_def split: align.split)

text \<open>The value of a text, by its integer part, its fraction and its exponent.\<close>

lemma value_with_zeros:
  assumes "all_digits ds"
  shows "number_value (decimal (ds @ replicate k CHR ''0''), e - int k) = number_value (decimal ds, e)"
  using decimal_append [OF assms zeros(1) [of k]] by (simp add: number_value_zeros)

lemma read_exponent_signed:
  assumes "decimal ds = nat \<bar>x\<bar>"
  shows "read_exponent ((if x < 0 then CHR ''-'' else CHR ''+'') # ds) = x"
  using assms by (simp add: read_exponent_def)

text \<open>The exponent notation.\<close>

lemma write_exp_form_reads:
  assumes ds: "all_digits ds" and x: "\<bar>x\<bar> < 10000" "x = e + int (length ds) - 1" and w: "0 \<le> fs_width specs" "fs_width specs \<le> INT_MAX"
    and k: "k = length ds + (if s \<noteq> Sign_none then 1 else 0)"
  shows "\<exists>t. write_exp_form (Sig_text ds) (length ds) specs s k CHR ''.'' x
      = Inr (padded Align_right specs (length (sign_chars s @ t)) (sign_chars s @ t))
    \<and> number_value (read_number t) = number_value (decimal ds, e)"
proof -
  define nz where "nz = nat (if specs_alt specs then max 0 (fs_precision specs - int (length ds)) else 0)"
  define none where "none \<longleftrightarrow> \<not> specs_alt specs \<and> length ds = 1"
  define c where "c = (if specs_upper specs then CHR ''E'' else CHR ''e'')"
  define point where "point = (if none then [] else ''.'')"
  define fp where "fp = drop 1 ds @ replicate nz CHR ''0''"
  have c: "c = CHR ''e'' \<or> c = CHR ''E''" by (simp add: c_def)
  obtain es where es: "write_exponent x = Inr ((if x < 0 then CHR ''-'' else CHR ''+'') # es)" "all_digits es"
    "decimal es = nat \<bar>x\<bar>" "length es = exponent_digits x" using write_exponent_text [OF x(1)] by blast
  let ?es = "(if x < 0 then CHR ''-'' else CHR ''+'') # es"
  define t where "t = take 1 ds @ point @ fp @ c # ?es"
  have p: "write_point (Sig_text ds) (length ds) 1 (if none then CHR 0x00 else CHR ''.'') = Inr (take 1 ds @ point @ drop 1 ds)"
    by (simp add: point_def none_def)
  have len: "k + nz + (if (if none then CHR 0x00 else CHR ''.'') \<noteq> CHR 0x00 then 1 else 0) + 2
      + (if \<bar>x\<bar> \<ge> 100 then if \<bar>x\<bar> \<ge> 1000 then 4 else 3 else 2) = length (sign_chars s @ t)"
    using es(4) by (cases ds) (simp_all add: k t_def point_def fp_def sign_chars_def none_def exponent_digits_def)
  have body: "sign_chars s @ (take 1 ds @ point @ drop 1 ds) @ replicate nz CHR ''0'' @ c # ?es = sign_chars s @ t"
    by (simp add: t_def fp_def)
  have "write_exp_form (Sig_text ds) (length ds) specs s k CHR ''.'' x
      = (if fs_width specs > 0 then write_padded Align_right specs (length (sign_chars s @ t)) (sign_chars s @ t) else Inr (sign_chars s @ t))"
    unfolding write_exp_form_def Let_def nz_def [symmetric] none_def [symmetric] c_def [symmetric] p es(1) fmt_of_simps andthen_simps len body ..
  also have "\<dots> = Inr (padded Align_right specs (length (sign_chars s @ t)) (sign_chars s @ t))"
    using write_padded_text [OF w] padded_0 by (cases "fs_width specs > 0") (simp_all del: length_append)
  finally have e: "write_exp_form (Sig_text ds) (length ds) specs s k CHR ''.'' x = \<dots>" .
  have dd: "all_digits (take 1 ds)" "all_digits (drop 1 ds)" using ds by (auto simp: all_digits_def dest: in_set_takeD in_set_dropD)
  then have fp: "all_digits fp" by (simp add: fp_def)
  have pt: "point = [] \<and> fp = [] \<or> point = ''.''" by (auto simp: point_def none_def fp_def nz_def)
  have r: "read_number t = (decimal (take 1 ds @ fp), x - int (length fp))"
    unfolding t_def read_number_exp [OF dd(1) fp pt c] read_exponent_signed [OF es(3)] ..
  have "take 1 ds @ fp = ds @ replicate nz CHR ''0''" by (simp add: fp_def flip: append_assoc)
  moreover have "ds = [] \<Longrightarrow> decimal (ds @ replicate nz CHR ''0'') = 0 \<and> decimal ds = 0" using zeros(2) [of nz] by simp
  moreover have "x - int (length fp) = e - int nz" if "ds \<noteq> []" using that x(2) by (cases ds) (simp_all add: fp_def)
  ultimately have "number_value (read_number t) = number_value (decimal ds, e)"
    unfolding r using value_with_zeros [OF ds, of nz e] by (cases "ds = []") (simp_all add: number_value_def)
  then show ?thesis using e by blast
qed

text \<open>The fixed notation: no fraction, a point among the digits, or nothing but zeros before it.\<close>

lemma write_fixed_reads:
  assumes "all_digits ip" "all_digits fp" "point = [] \<and> fp = [] \<or> point = ''.''"
    and "ip @ fp = z @ ds @ replicate k CHR ''0''" "all_digits z" "decimal z = 0" "all_digits ds"
    and "ds = [] \<or> int (length fp) = int k - e"
  shows "number_value (read_number (ip @ point @ fp)) = number_value (decimal ds, e)"
proof -
  have d: "decimal (ip @ fp) = decimal (ds @ replicate k CHR ''0'')"
    using decimal_append [of z "ds @ replicate k CHR ''0''"] assms(4-7) by simp
  show ?thesis
  proof (cases "ds = []")
    case True
    then have "decimal ds = 0" "decimal (ip @ fp) = 0" using d zeros(2) [of k] by simp_all
    then show ?thesis unfolding read_number_fixed [OF assms(1-3)] by (simp add: number_value_def)
  next
    case False
    then have "- int (length fp) = e - int k" using assms(8) by simp
    then show ?thesis unfolding read_number_fixed [OF assms(1-3)] d using value_with_zeros [OF assms(7)] by simp
  qed
qed

lemma do_write_float_reads:
  assumes ds: "all_digits ds" and loc: "\<not> specs_localized specs" and w: "0 \<le> fs_width specs" "fs_width specs \<le> INT_MAX"
    and x: "\<bar>e + int (length ds) - 1\<bar> < 10000"
  shows "\<exists>t. do_write_float \<lparr>dec_significand = Sig_text ds, dec_exponent = e\<rparr> specs s upper loc
      = Some (Inr (padded Align_right specs (length (sign_chars s @ t)) (sign_chars s @ t)))
    \<and> number_value (read_number t) = number_value (decimal ds, e)"
proof -
  define k where "k = length ds + (if s \<noteq> Sign_none then 1 else 0)"
  have k: "k = length ds + length (sign_chars s)" by (simp add: k_def sign_chars_def)
  have lf: "specs_localized specs = False" using loc by simp
  have n: "e + int (length ds) \<le> max_int" using x by (simp add: max_int_def)
  note sep = no_separators [OF n, of loc]
  note step = do_write_float_def dec_fp.simps get_significand_size.simps fmt_of_simps seq_opt_simps Let_def lf k_def [symmetric]
    if_False sep(1) write_significand_zeros_def write_point_grouped_def if_P [OF sep(2)] option.map
    write_significand.simps take_all [OF order_refl]
  note wp = write_padded_text [OF w]
  have td: "all_digits (take n ds)" "all_digits (drop n ds)" for n using ds by (auto simp: all_digits_def dest: in_set_takeD in_set_dropD)
  define E where "E \<longleftrightarrow> use_exp_format specs upper (e + int (length ds) - 1)"
  consider "E" | "\<not> E" "0 \<le> e" | "\<not> E" "\<not> 0 \<le> e" "0 < e + int (length ds)"
    | "\<not> E" "\<not> 0 \<le> e" "\<not> 0 < e + int (length ds)" by blast
  then show ?thesis
  proof cases
    case 1
    show ?thesis using write_exp_form_reads [OF ds x refl w k_def] 1 unfolding step E_def by simp
  next
    case 2
    let ?nz = "if specs_alt specs \<and> fs_precision specs - (e + int (length ds)) \<le> 0 \<and> specs_type specs \<noteq> pres_fixed
      then 0 else fs_precision specs - (e + int (length ds))"
    define nz where "nz = (if specs_alt specs then nat ?nz else 0)"
    define t where "t = (ds @ replicate (nat e) CHR ''0'') @ (if specs_alt specs then ''.'' else []) @ replicate nz CHR ''0''"
    have len: "k + nat e + (if specs_alt specs then 1 + nat ?nz else 0) + 0 = length (sign_chars s @ t)"
      by (simp add: k t_def nz_def)
    have body: "sign_chars s @ (ds @ replicate (nat e) CHR ''0'') @ (if specs_alt specs then CHR ''.'' # replicate (nat ?nz) CHR ''0'' else [])
      = sign_chars s @ t" by (simp add: t_def nz_def)
    have "do_write_float \<lparr>dec_significand = Sig_text ds, dec_exponent = e\<rparr> specs s upper loc
      = Some (write_padded Align_right specs (length (sign_chars s @ t)) (sign_chars s @ t))"
      unfolding step E_def [symmetric] if_not_P [OF 2(1)] if_P [OF 2(2)] len body ..
    moreover have "number_value (read_number t) = number_value (decimal ds, e)"
      unfolding t_def
    proof (rule write_fixed_reads [where z = "[]" and k = "nat e + nz"])
      show "(if specs_alt specs then ''.'' else []) = [] \<and> replicate nz CHR ''0'' = [] \<or> (if specs_alt specs then ''.'' else []) = ''.''"
        by (simp add: nz_def)
    qed (use ds 2(2) in \<open>simp_all add: replicate_add\<close>)
    ultimately show ?thesis using wp by auto
  next
    case 3
    define m where "m = nat (e + int (length ds))"
    define nz where "nz = nat (if specs_alt specs then fs_precision specs - int (length ds) else 0)"
    define t where "t = take m ds @ ''.'' @ drop m ds @ replicate nz CHR ''0''"
    have m: "m < length ds" using 3(2,3) by (simp add: m_def)
    have len: "k + 1 + nz + 0 = length (sign_chars s @ t)" using m by (simp add: k t_def)
    have p: "write_point (Sig_text ds) (length ds) m CHR ''.'' = Inr (take m ds @ CHR ''.'' # drop m ds)" by simp
    have body: "sign_chars s @ (take m ds @ CHR ''.'' # drop m ds) @ replicate nz CHR ''0'' = sign_chars s @ t" by (simp add: t_def)
    have "do_write_float \<lparr>dec_significand = Sig_text ds, dec_exponent = e\<rparr> specs s upper loc
      = Some (write_padded Align_right specs (length (sign_chars s @ t)) (sign_chars s @ t))"
      unfolding step E_def [symmetric] if_not_P [OF 3(1)] if_not_P [OF 3(2)] if_P [OF 3(3)] m_def [symmetric] nz_def [symmetric]
        p len body fmt_of_simps seq_opt_simps option.map ..
    moreover have "number_value (read_number t) = number_value (decimal ds, e)"
      unfolding t_def
      by (rule write_fixed_reads [where z = "[]" and k = nz]) (use ds td m 3(3) in \<open>simp_all add: m_def flip: append_assoc\<close>)
    ultimately show ?thesis using wp by auto
  next
    case 4
    let ?nz = "if length ds = 0 \<and> fs_precision specs \<ge> 0 \<and> fs_precision specs < - (e + int (length ds))
      then fs_precision specs else - (e + int (length ds))"
    define nz where "nz = nat ?nz"
    define pointy where "pointy \<longleftrightarrow> ?nz \<noteq> 0 \<or> length ds \<noteq> 0 \<or> specs_alt specs"
    have nz0: "nz = 0 \<and> ds = []" if "\<not> pointy" using that by (simp add: pointy_def nz_def)
    define t where "t = ''0'' @ (if pointy then ''.'' else []) @ replicate nz CHR ''0'' @ ds"
    have len: "k + 1 + (if pointy then 1 else 0) + nz = length (sign_chars s @ t)" by (simp add: k t_def)
    have body: "sign_chars s @ CHR ''0'' # (if pointy then CHR ''.'' # replicate nz CHR ''0'' @ ds else []) = sign_chars s @ t"
      using nz0 by (simp add: t_def)
    have "do_write_float \<lparr>dec_significand = Sig_text ds, dec_exponent = e\<rparr> specs s upper loc
      = Some (write_padded Align_right specs (length (sign_chars s @ t)) (sign_chars s @ t))"
      unfolding step E_def [symmetric] if_not_P [OF 4(1)] if_not_P [OF 4(2)] if_not_P [OF 4(3)] nz_def [symmetric] pointy_def [symmetric]
        len body ..
    moreover have "number_value (read_number t) = number_value (decimal ds, e)"
      unfolding t_def
    proof (rule write_fixed_reads [where z = "''0'' @ replicate nz CHR ''0''" and k = 0])
      show "(if pointy then ''.'' else []) = [] \<and> replicate nz CHR ''0'' @ ds = [] \<or> (if pointy then ''.'' else []) = ''.''"
        using nz0 by simp
      show "all_digits ''0''" using zeros(1) [of 1] by simp
      show "decimal (''0'' @ replicate nz CHR ''0'') = 0" using zeros(2) [of "Suc nz"] by simp
      show "all_digits (''0'' @ replicate nz CHR ''0'')" using zeros(1) [of "Suc nz"] by simp
      show "ds = [] \<or> int (length (replicate nz CHR ''0'' @ ds)) = int 0 - e" using 4(3) by (simp add: nz_def)
    qed (use ds in simp_all)
    ultimately show ?thesis using wp by auto
  qed
qed

text \<open>The digits of a significand.\<close>

fun significand_digits :: "dec_significand \<Rightarrow> string" where
  "significand_digits (Sig_int w n) = dec n"
| "significand_digits (Sig_text s) = s"

fun significand_ok :: "dec_significand \<Rightarrow> bool" where
  "significand_ok (Sig_int w n) \<longleftrightarrow> (w = 32 \<or> w = 64) \<and> n < 2 ^ w"
| "significand_ok (Sig_text s) \<longleftrightarrow> all_digits s"

text \<open>
  C38. A decimal number, its digits given as a machine number or as characters, is written as its sign
  and a text padded to the width; the text, in fixed or in exponent notation and whatever zeros the
  precision asks for, reads back as exactly the number.
\<close>

theorem written_number_reads_back:
  assumes "significand_ok sg" and "\<not> specs_localized specs" and "0 \<le> fs_width specs" "fs_width specs \<le> INT_MAX"
    and "\<bar>e + int (length (significand_digits sg)) - 1\<bar> < 10000"
  shows "\<exists>t. do_write_float \<lparr>dec_significand = sg, dec_exponent = e\<rparr> specs s upper loc
      = Some (Inr (padded Align_right specs (length (sign_chars s @ t)) (sign_chars s @ t)))
    \<and> number_value (read_number t) = of_nat (decimal (significand_digits sg)) * 10 powi e"
proof (cases sg)
  case (Sig_int w n)
  then have "do_write_float \<lparr>dec_significand = sg, dec_exponent = e\<rparr> specs s upper loc
      = do_write_float \<lparr>dec_significand = Sig_text (dec n), dec_exponent = e\<rparr> specs s upper loc"
    using assms(1,2) do_write_float_int by auto
  then show ?thesis
    using do_write_float_reads [OF all_digits_dec assms(2-4)] assms(5) Sig_int by (simp add: number_value_def)
next
  case (Sig_text ds)
  then show ?thesis
    using do_write_float_reads [OF _ assms(2-4)] assms(1,5) by (simp add: number_value_def)
qed

theorem written_number_reads_back_witness:
  "\<exists>t. do_write_float \<lparr>dec_significand = Sig_int 64 314159, dec_exponent = - 5\<rparr>
        (format_specs_new\<lparr>fs_width := 12\<rparr>) Sign_minus 16 \<lparr>np_grouping = [CHR 0x03], np_thousands_sep = CHR '','', np_decimal_point = CHR '',''\<rparr>
      = Some (Inr (padded Align_right (format_specs_new\<lparr>fs_width := 12\<rparr>) (length (sign_chars Sign_minus @ t)) (sign_chars Sign_minus @ t)))
    \<and> number_value (read_number t) = of_nat (decimal (significand_digits (Sig_int 64 314159))) * 10 powi (- 5)"
proof (rule written_number_reads_back)
  have "length (dec 314159) = 6" by (simp add: dec_step dec_small)
  then show "\<bar>- 5 + int (length (significand_digits (Sig_int 64 314159))) - 1\<bar> < 10000" by simp
qed (simp_all add: INT_MAX_def format_specs_new_def specs_localized_def fill_size_shift_def localized_mask_def)

end
