(* ===== verification/Coro_Queue.thy ===== *)
theory Coro_Queue
  imports Prelude
begin

text \<open>
  The intrusive structures a coroutine frame is linked into
  (\<open>src/src/coroutine_framework/queue.h\<close> and \<open>queue.ipp\<close>): the singly linked FIFO
  \<open>CoroutineQueue\<close> through \<open>in_queue_link_next\<close>, and the circular call chain through
  \<open>lc_prev\<close> and \<open>lc_next\<close>. Frames live in a store of \<open>LinkedCoroutine\<close> records addressed by
  numbers; a C++ pointer is an optional address, and following a null pointer or failing an
  \<open>assert\<close> is a fault.
\<close>

section \<open>Frames, queues and their operations\<close>

type_synonym cptr = "nat option"

record LinkedCoroutine =
  lc_prev :: cptr
  lc_next :: cptr
  in_queue_link_next :: cptr
  sync_cnt :: u64
  lc_handle :: nat
  coro_local_var :: cptr
  ref_cnt :: u64
  done_flag :: bool
  frame_running_cnt :: bool

text \<open>
  The lock and the condition variable of a frame have no state of their own here: a critical
  section is one step. \<open>frame_running_cnt\<close> is the pointer to the scheduler's counter, of
  which only being null matters. A frame at address \<open>a\<close> starts linked to itself.
\<close>

definition new_frame :: "nat \<Rightarrow> nat \<Rightarrow> LinkedCoroutine" where
  "new_frame a hnd = \<lparr>lc_prev = Some a, lc_next = Some a, in_queue_link_next = None, sync_cnt = 0,
     lc_handle = hnd, coro_local_var = None, ref_cnt = 1, done_flag = False,
     frame_running_cnt = False\<rparr>"

type_synonym heap = "nat \<Rightarrow> LinkedCoroutine"

definition chain_empty :: "heap \<Rightarrow> nat \<Rightarrow> bool" where
  "chain_empty h a = (lc_prev (h a) = Some a)"

definition sync_release :: "heap \<Rightarrow> nat \<Rightarrow> heap" where
  "sync_release h a = h(a := (h a)\<lparr>sync_cnt := sync_cnt (h a) + 1\<rparr>)"

definition sync_acquire :: "heap \<Rightarrow> nat \<Rightarrow> u64" where
  "sync_acquire h a = sync_cnt (h a)"

definition destroy_frame :: "heap \<Rightarrow> nat \<Rightarrow> fault + heap" where
  "destroy_frame h a =
     andthen (check Assert_failed (in_queue_link_next (h a) = None)) (\<lambda>_.
       Inr (h(a := (h a)\<lparr>lc_prev := None, lc_next := None\<rparr>)))"

subsection \<open>The call chain\<close>

definition set_next :: "heap \<Rightarrow> nat \<Rightarrow> cptr \<Rightarrow> heap" where
  "set_next h a p = h(a := (h a)\<lparr>lc_next := p\<rparr>)"

definition set_prev :: "heap \<Rightarrow> nat \<Rightarrow> cptr \<Rightarrow> heap" where
  "set_prev h a p = h(a := (h a)\<lparr>lc_prev := p\<rparr>)"

definition link_next :: "heap \<Rightarrow> nat \<Rightarrow> nat \<Rightarrow> fault + heap" where
  "link_next h this new =
     (let tmp_next = lc_next (h this);
          h = set_next h this (Some new);
          h = set_next h new tmp_next;
          h = set_prev h new (Some this)
      in case tmp_next of
           None \<Rightarrow> Inl Ub_null_deref
         | Some t \<Rightarrow> Inr (set_prev h t (Some new)))"

definition remove_self :: "heap \<Rightarrow> nat \<Rightarrow> fault + heap" where
  "remove_self h this =
     (let tmp_prev = lc_prev (h this); tmp_next = lc_next (h this) in
      if \<not> chain_empty h this
      then (case tmp_prev of
              None \<Rightarrow> Inl Ub_null_deref
            | Some p \<Rightarrow>
                (let h = set_next h p tmp_next in
                 case tmp_next of
                   None \<Rightarrow> Inl Ub_null_deref
                 | Some n \<Rightarrow>
                     (let h = set_prev h n tmp_prev;
                          h = set_next h this None;
                          h = set_prev h this None
                      in Inr h)))
      else Inr h)"

subsection \<open>The queue\<close>

record CoroutineQueue =
  q_head :: cptr
  q_tail :: cptr
  q_size :: u64

definition new_queue :: CoroutineQueue where
  "new_queue = \<lparr>q_head = None, q_tail = None, q_size = 0\<rparr>"

definition queue_size :: "CoroutineQueue \<Rightarrow> u64" where
  "queue_size q = q_size q"

definition queue_empty :: "CoroutineQueue \<Rightarrow> bool" where
  "queue_empty q = (q_size q = 0)"

definition set_link :: "heap \<Rightarrow> nat \<Rightarrow> cptr \<Rightarrow> heap" where
  "set_link h a p = h(a := (h a)\<lparr>in_queue_link_next := p\<rparr>)"

definition append_to_tail ::
    "heap \<Rightarrow> CoroutineQueue \<Rightarrow> nat \<Rightarrow> fault + (heap \<times> CoroutineQueue)" where
  "append_to_tail h q frame =
     andthen (check Assert_failed (in_queue_link_next (h frame) = None)) (\<lambda>_.
       if queue_empty q
       then Inr (h, q\<lparr>q_head := Some frame, q_tail := Some frame, q_size := q_size q + 1\<rparr>)
       else (case q_tail q of
               None \<Rightarrow> Inl Ub_null_deref
             | Some t \<Rightarrow>
                 Inr (set_link h t (Some frame), q\<lparr>q_tail := Some frame, q_size := q_size q + 1\<rparr>)))"

definition pop_from_head ::
    "heap \<Rightarrow> CoroutineQueue \<Rightarrow> fault + (nat \<times> heap \<times> CoroutineQueue)" where
  "pop_from_head h q =
     (case q_head q of
        None \<Rightarrow> Inl Ub_null_deref
      | Some ret \<Rightarrow>
          andthen
            (if q_head q = q_tail q
             then andthen (check Assert_failed (in_queue_link_next (h ret) = None))
                    (\<lambda>_. Inr (q\<lparr>q_head := None, q_tail := None\<rparr>))
             else Inr (q\<lparr>q_head := in_queue_link_next (h ret)\<rparr>))
            (\<lambda>q. Inr (ret, set_link h ret None, q\<lparr>q_size := q_size q - 1\<rparr>)))"

text \<open>
  \<open>fetch_nodes\<close> walks the list with a pointer to the link that leads to the current node:
  the queue's head or the link field of the last node that stays. It moves the nodes that
  satisfy the condition (a callback of the caller, which can fail) to the target queue, when
  there is one. A list that is linked into a
  cycle is walked forever; that outcome is \<open>None\<close>.
\<close>

datatype link_ref = Head_link | Link_of nat

definition write_link ::
    "link_ref \<Rightarrow> cptr \<Rightarrow> heap \<Rightarrow> CoroutineQueue \<Rightarrow> heap \<times> CoroutineQueue" where
  "write_link r p h q =
     (case r of Head_link \<Rightarrow> (h, q\<lparr>q_head := p\<rparr>) | Link_of a \<Rightarrow> (set_link h a p, q))"

definition hand_over ::
    "heap \<Rightarrow> nat \<Rightarrow> CoroutineQueue option \<Rightarrow> fault + (heap \<times> CoroutineQueue option)" where
  "hand_over h i target =
     (case target of
        None \<Rightarrow> Inr (h, None)
      | Some tq \<Rightarrow> andthen (append_to_tail h tq i) (\<lambda>(h, tq). Inr (h, Some tq)))"

partial_function (option) fetch_loop ::
    "(nat \<Rightarrow> fault + bool) \<Rightarrow> link_ref \<Rightarrow> cptr \<Rightarrow> heap \<Rightarrow> CoroutineQueue \<Rightarrow> CoroutineQueue option \<Rightarrow>
     (fault + (heap \<times> CoroutineQueue \<times> CoroutineQueue option)) option" where
  "fetch_loop cond last_link iter h q target =
     (case iter of
        None \<Rightarrow> Some (Inr (h, q, target))
      | Some i \<Rightarrow>
          (let tmp_next = in_queue_link_next (h i) in
           case cond i of
             Inl f \<Rightarrow> Some (Inl f)
           | Inr c \<Rightarrow>
             if c
             then (case write_link last_link tmp_next h q of
                     (h, q) \<Rightarrow>
                       (case hand_over (set_link h i None) i target of
                          Inl f \<Rightarrow> Some (Inl f)
                        | Inr (h, target) \<Rightarrow>
                            fetch_loop cond last_link tmp_next h (q\<lparr>q_size := q_size q - 1\<rparr>) target))
             else fetch_loop cond (Link_of i) tmp_next h q target))"

definition fetch_nodes ::
    "(nat \<Rightarrow> fault + bool) \<Rightarrow> heap \<Rightarrow> CoroutineQueue \<Rightarrow> CoroutineQueue option \<Rightarrow>
     (fault + (heap \<times> CoroutineQueue \<times> CoroutineQueue option)) option" where
  "fetch_nodes cond h q target =
     (case fetch_loop cond Head_link (q_head q) h q target of
        None \<Rightarrow> None
      | Some (Inl f) \<Rightarrow> Some (Inl f)
      | Some (Inr (h, q, target)) \<Rightarrow>
          Some (Inr (h, (if queue_empty q then q\<lparr>q_head := None, q_tail := None\<rparr> else q), target)))"

section \<open>Abstraction of the queue to a list\<close>

fun qpath :: "heap \<Rightarrow> cptr \<Rightarrow> nat list \<Rightarrow> bool" where
  "qpath h p [] = (p = None)"
| "qpath h p (x # xs) = (p = Some x \<and> qpath h (in_queue_link_next (h x)) xs)"

text \<open>
  \<open>chain_rep\<close>: the nodes reachable from the head, and the size. \<open>queue_rep\<close> also demands
  that the tail pointer is the last of them.
\<close>

definition chain_rep :: "heap \<Rightarrow> CoroutineQueue \<Rightarrow> nat list \<Rightarrow> bool" where
  "chain_rep h q xs \<longleftrightarrow> qpath h (q_head q) xs \<and> distinct xs \<and> unat (q_size q) = length xs"

definition queue_rep :: "heap \<Rightarrow> CoroutineQueue \<Rightarrow> nat list \<Rightarrow> bool" where
  "queue_rep h q xs \<longleftrightarrow>
     chain_rep h q xs \<and> q_tail q = (if xs = [] then None else Some (last xs))"

definition same_but_links :: "heap \<Rightarrow> heap \<Rightarrow> bool" where
  "same_but_links h h' \<longleftrightarrow>
     (\<forall>a. (h' a)\<lparr>in_queue_link_next := None\<rparr> = (h a)\<lparr>in_queue_link_next := None\<rparr>)"

lemma same_but_links_refl [simp]: "same_but_links h h"
  by (simp add: same_but_links_def)

lemma same_but_links_trans:
  "same_but_links h h1 \<Longrightarrow> same_but_links h1 h2 \<Longrightarrow> same_but_links h h2"
  by (simp add: same_but_links_def)

lemma same_but_links_set_link [simp]: "same_but_links h (set_link h a p)"
  by (simp add: same_but_links_def set_link_def)

lemma set_link_same [simp]: "in_queue_link_next (set_link h a p a) = p"
  by (simp add: set_link_def)

lemma set_link_other [simp]: "b \<noteq> a \<Longrightarrow> set_link h a p b = h b"
  by (simp add: set_link_def)

lemma set_link_field: "in_queue_link_next (set_link h a p b) = (if b = a then p else in_queue_link_next (h b))"
  by (simp add: set_link_def)

lemma qpath_set_link [simp]: "a \<notin> set xs \<Longrightarrow> qpath (set_link h a p) r xs = qpath h r xs"
  by (induction xs arbitrary: r) auto

lemma qpath_agree:
  "\<forall>a \<in> set xs. in_queue_link_next (h' a) = in_queue_link_next (h a) \<Longrightarrow> qpath h' r xs = qpath h r xs"
  by (induction xs arbitrary: r) auto

lemma qpath_last_None: "qpath h p xs \<Longrightarrow> xs \<noteq> [] \<Longrightarrow> in_queue_link_next (h (last xs)) = None"
proof (induction xs arbitrary: p)
  case (Cons x xs)
  then show ?case by (cases xs) auto
qed simp

lemma qpath_snoc:
  assumes "qpath h p xs" and "distinct xs" and "xs \<noteq> []" and "y \<notin> set xs"
    and "in_queue_link_next (h y) = None"
  shows "qpath (set_link h (last xs) (Some y)) p (xs @ [y])"
  using assms
proof (induction xs arbitrary: p)
  case (Cons x xs)
  then show ?case by (cases xs) (auto simp: set_link_field)
qed simp

text \<open>Unlinking a node behind a kept prefix, as the walk of \<open>fetch_nodes\<close> does.\<close>

lemma qpath_unlink_inner:
  assumes "qpath h p (ks @ z # rs)" and "distinct (ks @ z # rs)" and "ks \<noteq> []"
  shows "qpath (set_link h (last ks) (in_queue_link_next (h z))) p (ks @ rs)"
  using assms
proof (induction ks arbitrary: p)
  case (Cons k ks)
  show ?case
  proof (cases ks)
    case Nil
    with Cons.prems show ?thesis
      by (cases rs) (auto simp: set_link_field)
  next
    case (Cons k' ks')
    with Cons.IH [of "in_queue_link_next (h k)"] Cons.prems show ?thesis
      by (auto simp: set_link_field)
  qed
qed simp

lemma qpath_drop_prefix: "qpath h p (ks @ z # rs) \<Longrightarrow> qpath h (in_queue_link_next (h z)) rs"
  by (induction ks arbitrary: p) auto

section \<open>The queue operations on the abstraction\<close>

definition fits_u64 :: "nat \<Rightarrow> bool" where
  "fits_u64 n \<longleftrightarrow> n < 18446744073709551616"

lemma unat_u64_Suc: "fits_u64 (Suc (unat w)) \<Longrightarrow> unat (w + 1 :: u64) = Suc (unat w)"
  by (simp add: fits_u64_def unat_word_ariths)

lemma unat_u64_pred: "unat (w :: u64) = Suc n \<Longrightarrow> unat (w - 1) = n"
  by (metis diff_Suc_1 unat_0 nat.distinct(1) unat_minus_one)

lemma chain_rep_sizes:
  "chain_rep h q xs \<Longrightarrow> queue_empty q \<longleftrightarrow> xs = []"
  by (auto simp: chain_rep_def queue_empty_def unat_0_iff)

lemma queue_rep_empty: "queue_rep h q xs \<Longrightarrow> queue_empty q \<longleftrightarrow> xs = []"
  by (auto simp: queue_rep_def chain_rep_sizes)

lemma new_queue_rep: "queue_rep h new_queue []"
  by (simp add: queue_rep_def chain_rep_def new_queue_def)

lemma queue_rep_agree:
  assumes "queue_rep h q xs" and "\<forall>a \<in> set xs. in_queue_link_next (h' a) = in_queue_link_next (h a)"
  shows "queue_rep h' q xs"
  using assms qpath_agree [of xs h' h] by (simp add: queue_rep_def chain_rep_def)

lemma append_to_tail_rep:
  assumes "queue_rep h q xs" and "c \<notin> set xs" and "in_queue_link_next (h c) = None"
    and "fits_u64 (Suc (length xs))"
  obtains h' q' where "append_to_tail h q c = Inr (h', q')" and "queue_rep h' q' (xs @ [c])"
    and "same_but_links h h'" and "\<forall>a. a \<notin> set xs \<longrightarrow> h' a = h a"
proof (cases "xs = []")
  case True
  have "append_to_tail h q c =
      Inr (h, q\<lparr>q_head := Some c, q_tail := Some c, q_size := q_size q + 1\<rparr>)"
    using assms True queue_rep_empty [OF assms(1)] by (simp add: append_to_tail_def)
  moreover have "queue_rep h (q\<lparr>q_head := Some c, q_tail := Some c, q_size := q_size q + 1\<rparr>) (xs @ [c])"
    using assms True by (simp add: queue_rep_def chain_rep_def unat_u64_Suc)
  ultimately show thesis using that by simp
next
  case False
  let ?h = "set_link h (last xs) (Some c)" and ?q = "q\<lparr>q_tail := Some c, q_size := q_size q + 1\<rparr>"
  have "append_to_tail h q c = Inr (?h, ?q)"
    using assms False queue_rep_empty [OF assms(1)] by (simp add: append_to_tail_def queue_rep_def)
  moreover have "queue_rep ?h ?q (xs @ [c])"
    using assms False qpath_snoc [of h "q_head q" xs c]
    by (simp add: queue_rep_def chain_rep_def unat_u64_Suc)
  moreover have "\<forall>a. a \<notin> set xs \<longrightarrow> ?h a = h a"
    using False by (metis last_in_set set_link_other)
  ultimately show thesis using that same_but_links_set_link by blast
qed

lemma pop_from_head_rep:
  assumes "queue_rep h q (x # xs)"
  obtains h' q' where "pop_from_head h q = Inr (x, h', q')" and "queue_rep h' q' xs"
    and "in_queue_link_next (h' x) = None" and "same_but_links h h'"
    and "\<forall>a. a \<noteq> x \<longrightarrow> h' a = h a"
proof -
  have r: "q_head q = Some x" "qpath h (in_queue_link_next (h x)) xs" "x \<notin> set xs" "distinct xs"
    "unat (q_size q) = Suc (length xs)" "q_tail q = Some (last (x # xs))"
    using assms by (simp_all add: queue_rep_def chain_rep_def)
  have u: "unat (q_size q - 1) = length xs" by (rule unat_u64_pred) (rule r(5))
  let ?h = "set_link h x None"
  show thesis
  proof (cases "xs = []")
    case True
    let ?q = "q\<lparr>q_head := None, q_tail := None, q_size := q_size q - 1\<rparr>"
    have "pop_from_head h q = Inr (x, ?h, ?q)"
      using True r by (simp add: pop_from_head_def)
    moreover have "queue_rep ?h ?q xs"
      using True u by (simp add: queue_rep_def chain_rep_def)
    ultimately show thesis using that by simp
  next
    case False
    let ?q = "q\<lparr>q_head := in_queue_link_next (h x), q_size := q_size q - 1\<rparr>"
    have "last xs \<noteq> x" using False r(3) by (metis last_in_set)
    then have "pop_from_head h q = Inr (x, ?h, ?q)"
      using False r by (simp add: pop_from_head_def)
    moreover have "queue_rep ?h ?q xs"
      using False r u by (simp add: queue_rep_def chain_rep_def)
    ultimately show thesis using that by simp
  qed
qed

text \<open>
  \<open>fetch_nodes\<close>: at every turn of the loop \<open>ks\<close> is the kept prefix, \<open>zs\<close> what is still to
  be visited, and \<open>ys\<close> the target queue.
\<close>

definition link_before :: "nat list \<Rightarrow> link_ref" where
  "link_before ks = (if ks = [] then Head_link else Link_of (last ks))"

definition head_opt :: "nat list \<Rightarrow> cptr" where
  "head_opt xs = (case xs of [] \<Rightarrow> None | x # _ \<Rightarrow> Some x)"

lemma head_opt_simps [simp]: "head_opt [] = None" "head_opt (x # xs) = Some x"
  by (simp_all add: head_opt_def)

lemma qpath_head_opt: "qpath h p xs \<Longrightarrow> p = head_opt xs"
  by (cases xs) auto

lemma write_link_unlinks:
  assumes "qpath h (q_head q) (ks @ z # rs)" and "distinct (ks @ z # rs)"
    and "write_link (link_before ks) (in_queue_link_next (h z)) h q = (h1, q1)"
  shows "qpath (set_link h1 z None) (q_head q1) (ks @ rs)"
    and "same_but_links h h1" and "\<forall>a. a \<notin> set ks \<longrightarrow> h1 a = h a"
    and "q_tail q1 = q_tail q" and "q_size q1 = q_size q"
proof -
  have "qpath h1 (q_head q1) (ks @ rs) \<and> same_but_links h h1 \<and> (\<forall>a. a \<notin> set ks \<longrightarrow> h1 a = h a) \<and>
      q_tail q1 = q_tail q \<and> q_size q1 = q_size q"
  proof (cases "ks = []")
    case True
    with assms show ?thesis by (auto simp: write_link_def link_before_def)
  next
    case False
    then have eq: "h1 = set_link h (last ks) (in_queue_link_next (h z))" "q1 = q"
      using assms(3) by (simp_all add: write_link_def link_before_def)
    have "last ks \<in> set ks" using False by simp
    then have "\<forall>a. a \<notin> set ks \<longrightarrow> h1 a = h a" using eq(1) by (metis set_link_other)
    with eq qpath_unlink_inner [OF assms(1,2) False] show ?thesis by simp
  qed
  moreover have "z \<notin> set (ks @ rs)" using assms(2) by auto
  ultimately show "qpath (set_link h1 z None) (q_head q1) (ks @ rs)"
    and "same_but_links h h1" and "\<forall>a. a \<notin> set ks \<longrightarrow> h1 a = h a"
    and "q_tail q1 = q_tail q" and "q_size q1 = q_size q"
    by simp_all
qed

lemma fetch_loop_rep:
  assumes "qpath h (q_head q) (ks @ zs)" and "distinct (ks @ zs)"
    and "unat (q_size q) = length (ks @ zs)" and "queue_rep h tq ys"
    and "set ys \<inter> set (ks @ zs) = {}" and "fits_u64 (length ys + length zs)"
    and "\<forall>z \<in> set zs. cb z = Inr (cond z)"
  shows "\<exists>h' q' tq'.
      fetch_loop cb (link_before ks) (head_opt zs) h q (Some tq) = Some (Inr (h', q', Some tq')) \<and>
      chain_rep h' q' (ks @ filter (\<lambda>x. \<not> cond x) zs) \<and> q_tail q' = q_tail q \<and>
      queue_rep h' tq' (ys @ filter cond zs) \<and> same_but_links h h' \<and>
      (\<forall>a. a \<notin> set ys \<union> set ks \<union> set zs \<longrightarrow> h' a = h a)"
  using assms
proof (induction zs arbitrary: ks h q tq ys)
  case Nil
  then show ?case by (simp add: fetch_loop.simps chain_rep_def)
next
  case (Cons z zs)
  have nxt: "in_queue_link_next (h z) = head_opt zs"
    using qpath_drop_prefix [OF Cons.prems(1)] by (rule qpath_head_opt)
  show ?case
  proof (cases "cond z")
    case False
    have lb: "link_before (ks @ [z]) = Link_of z" by (simp add: link_before_def)
    from Cons.IH [of h q "ks @ [z]" tq ys] Cons.prems False
    obtain h' q' tq' where "fetch_loop cb (Link_of z) (head_opt zs) h q (Some tq)
          = Some (Inr (h', q', Some tq'))"
      "chain_rep h' q' (ks @ z # filter (\<lambda>x. \<not> cond x) zs)" "q_tail q' = q_tail q"
      "queue_rep h' tq' (ys @ filter cond zs)" "same_but_links h h'"
      "\<forall>a. a \<notin> set ys \<union> set (ks @ [z]) \<union> set zs \<longrightarrow> h' a = h a"
      unfolding lb by (auto simp: fits_u64_def)
    with False nxt Cons.prems(7) show ?thesis by (subst fetch_loop.simps) (auto simp: Let_def)
  next
    case True
    obtain h1 q1 where w: "write_link (link_before ks) (in_queue_link_next (h z)) h q = (h1, q1)"
      by (cases "write_link (link_before ks) (in_queue_link_next (h z)) h q")
    note u = write_link_unlinks [OF Cons.prems(1,2) w]
    let ?h2 = "set_link h1 z None" and ?q2 = "q1\<lparr>q_size := q_size q1 - 1\<rparr>"
    have ag: "\<forall>a. a \<notin> set ks \<and> a \<noteq> z \<longrightarrow> ?h2 a = h a" using u(3) by simp
    have "?h2 a = h a" if "a \<in> set ys" for a
      using that ag Cons.prems(5) by (metis disjoint_iff in_set_conv_decomp set_append UnCI)
    then have "queue_rep ?h2 tq ys" by (intro queue_rep_agree [OF Cons.prems(4)]) simp
    moreover have "z \<notin> set ys" using Cons.prems(5) by auto
    moreover have "in_queue_link_next (?h2 z) = None" by simp
    moreover have "fits_u64 (Suc (length ys))" using Cons.prems(6) by (simp add: fits_u64_def)
    ultimately obtain h3 tq3 where a: "append_to_tail ?h2 tq z = Inr (h3, tq3)"
      "queue_rep h3 tq3 (ys @ [z])" "same_but_links ?h2 h3" "\<forall>a. a \<notin> set ys \<longrightarrow> h3 a = ?h2 a"
      by (rule append_to_tail_rep)
    have "\<forall>b \<in> set (ks @ zs). h3 b = ?h2 b" using a(4) Cons.prems(5) by auto
    then have "qpath h3 (q_head ?q2) (ks @ zs)"
      using u(1) qpath_agree [of "ks @ zs" h3 ?h2 "q_head q1"] by simp
    moreover have "unat (q_size ?q2) = length (ks @ zs)"
      using Cons.prems(3) u(5) by (simp add: unat_u64_pred)
    ultimately obtain h' q' tq' where ih:
      "fetch_loop cb (link_before ks) (head_opt zs) h3 ?q2 (Some tq3) = Some (Inr (h', q', Some tq'))"
      "chain_rep h' q' (ks @ filter (\<lambda>x. \<not> cond x) zs)" "q_tail q' = q_tail ?q2"
      "queue_rep h' tq' ((ys @ [z]) @ filter cond zs)" "same_but_links h3 h'"
      "\<forall>a. a \<notin> set (ys @ [z]) \<union> set ks \<union> set zs \<longrightarrow> h' a = h3 a"
      using Cons.IH [of h3 ?q2 ks tq3 "ys @ [z]"] Cons.prems(2,5,6,7) a(2)
      by (auto simp: fits_u64_def)
    have "same_but_links h h'"
      using u(2) a(3) ih(5) same_but_links_set_link same_but_links_trans by metis
    moreover have "\<forall>a. a \<notin> set ys \<union> set ks \<union> set (z # zs) \<longrightarrow> h' a = h a"
      using ih(6) a(4) ag by auto
    ultimately show ?thesis
      using True nxt w a(1) ih u(4) Cons.prems(7) by (subst fetch_loop.simps) (auto simp: Let_def hand_over_def)
  qed
qed

text \<open>
  What a call of \<open>fetch_nodes\<close> on a well-formed queue does: it takes out the nodes that
  satisfy the condition, in order, appends them to the target and keeps the others in order.
  The tail pointer is only corrected when nothing is left.
\<close>

text \<open>Only the chain matters to \<open>fetch_nodes\<close>; the tail pointer stays what it is.\<close>

lemma fetch_nodes_chain:
  assumes "chain_rep h q xs" and "queue_rep h tq ys" and "set ys \<inter> set xs = {}"
    and "fits_u64 (length ys + length xs)" and "\<forall>x \<in> set xs. cb x = Inr (cond x)"
  obtains h' q' tq' where "fetch_nodes cb h q (Some tq) = Some (Inr (h', q', Some tq'))"
    and "chain_rep h' q' (filter (\<lambda>x. \<not> cond x) xs)"
    and "q_tail q' = (if filter (\<lambda>x. \<not> cond x) xs = [] then None else q_tail q)"
    and "queue_rep h' tq' (ys @ filter cond xs)" and "same_but_links h h'"
    and "\<forall>a. a \<notin> set ys \<union> set xs \<longrightarrow> h' a = h a"
proof -
  have p: "qpath h (q_head q) ([] @ xs)" "distinct ([] @ xs)" "unat (q_size q) = length ([] @ xs)"
    using assms(1) by (simp_all add: chain_rep_def)
  have hd: "q_head q = head_opt xs" using p(1) by (simp add: qpath_head_opt)
  have lb: "link_before [] = Head_link" by (simp add: link_before_def)
  from fetch_loop_rep [OF p assms(2), of cb cond] assms(3-5)
  obtain h' q' tq' where f: "fetch_loop cb Head_link (head_opt xs) h q (Some tq)
      = Some (Inr (h', q', Some tq'))" "chain_rep h' q' (filter (\<lambda>x. \<not> cond x) xs)"
    "q_tail q' = q_tail q" "queue_rep h' tq' (ys @ filter cond xs)" "same_but_links h h'"
    "\<forall>a. a \<notin> set ys \<union> set xs \<longrightarrow> h' a = h a"
    unfolding lb by auto
  let ?q = "if queue_empty q' then q'\<lparr>q_head := None, q_tail := None\<rparr> else q'"
  have e: "queue_empty q' \<longleftrightarrow> filter (\<lambda>x. \<not> cond x) xs = []"
    using f(2) by (rule chain_rep_sizes)
  have "fetch_nodes cb h q (Some tq) = Some (Inr (h', ?q, Some tq'))"
    using f(1) hd by (simp add: fetch_nodes_def)
  moreover have "chain_rep h' ?q (filter (\<lambda>x. \<not> cond x) xs)"
    using f(2) e by (auto simp: chain_rep_def)
  moreover have "q_tail ?q = (if filter (\<lambda>x. \<not> cond x) xs = [] then None else q_tail q)"
    using e f(3) by auto
  ultimately show thesis using that f(4-6) by blast
qed

lemma fetch_nodes_rep:
  assumes "queue_rep h q xs" and "queue_rep h tq ys" and "set ys \<inter> set xs = {}"
    and "fits_u64 (length ys + length xs)" and "\<forall>x \<in> set xs. cb x = Inr (cond x)"
  obtains h' q' tq' where "fetch_nodes cb h q (Some tq) = Some (Inr (h', q', Some tq'))"
    and "chain_rep h' q' (filter (\<lambda>x. \<not> cond x) xs)"
    and "q_tail q' = (if filter (\<lambda>x. \<not> cond x) xs = [] then None else Some (last xs))"
    and "queue_rep h' tq' (ys @ filter cond xs)" and "same_but_links h h'"
    and "\<forall>a. a \<notin> set ys \<union> set xs \<longrightarrow> h' a = h a"
proof -
  note result = that
  show thesis
  proof (rule fetch_nodes_chain [OF _ assms(2-5)])
    show "chain_rep h q xs" using assms(1) by (simp add: queue_rep_def)
  have "filter (\<lambda>x. \<not> cond x) xs \<noteq> [] \<Longrightarrow> q_tail q = Some (last xs)" using assms(1) by (auto simp: queue_rep_def)
  then show thesis if "fetch_nodes cb h q (Some tq) = Some (Inr (h', q', Some tq'))"
      "chain_rep h' q' (filter (\<lambda>x. \<not> cond x) xs)"
      "q_tail q' = (if filter (\<lambda>x. \<not> cond x) xs = [] then None else q_tail q)"
      "queue_rep h' tq' (ys @ filter cond xs)" "same_but_links h h'"
      "\<forall>a. a \<notin> set ys \<union> set xs \<longrightarrow> h' a = h a" for h' q' tq'
    by (intro result [OF that(1,2) _ that(4-6)]) (use that(3) in simp)
qed
qed

text \<open>A chain is a queue when its tail pointer is set right.\<close>

lemma chain_rep_queue_rep: "chain_rep h q xs \<longleftrightarrow> queue_rep h (q\<lparr>q_tail := if xs = [] then None else Some (last xs)\<rparr>) xs"
  by (simp add: queue_rep_def chain_rep_def)

lemma last_filter_eq:
  assumes "distinct xs" and "filter P xs \<noteq> []"
  shows "last (filter P xs) = last xs \<longleftrightarrow> P (last xs)"
proof
  assume "last (filter P xs) = last xs"
  then show "P (last xs)" using last_in_set [OF assms(2)] by simp
next
  assume P: "P (last xs)"
  have "xs \<noteq> []" using assms(2) by auto
  then have "xs = butlast xs @ [last xs]" by simp
  with P show "last (filter P xs) = last xs"
    by (metis filter.simps(1,2) filter_append last_snoc)
qed

section \<open>The queue as an interface\<close>

text \<open>
  What the scheduler, the time service and the executor rely on: a queue over a shared store
  that keeps the order, refuses no loose element while there is room, and leaves other queues
  over the same store alone.
\<close>

locale fifo =
  fixes rep :: "'h \<Rightarrow> 'q \<Rightarrow> 'a list \<Rightarrow> bool"
    and loose :: "'h \<Rightarrow> 'a \<Rightarrow> bool"
    and same :: "'h \<Rightarrow> 'h \<Rightarrow> bool"
    and is_empty :: "'q \<Rightarrow> bool"
    and enq :: "'h \<Rightarrow> 'q \<Rightarrow> 'a \<Rightarrow> fault + ('h \<times> 'q)"
    and deq :: "'h \<Rightarrow> 'q \<Rightarrow> fault + ('a \<times> 'h \<times> 'q)"
  assumes rep_empty: "rep h q xs \<Longrightarrow> is_empty q \<longleftrightarrow> xs = []"
    and rep_distinct: "rep h q xs \<Longrightarrow> distinct xs"
    and same_refl: "same h h"
    and same_trans: "same h h1 \<Longrightarrow> same h1 h2 \<Longrightarrow> same h h2"
    and enq_law: "rep h q xs \<Longrightarrow> x \<notin> set xs \<Longrightarrow> loose h x \<Longrightarrow> fits_u64 (Suc (length xs)) \<Longrightarrow>
      \<exists>h' q'. enq h q x = Inr (h', q') \<and> rep h' q' (xs @ [x]) \<and> same h h' \<and>
        (\<forall>a. a \<notin> set xs \<longrightarrow> a \<noteq> x \<longrightarrow> loose h' a = loose h a) \<and>
        (\<forall>q2 ys. set ys \<inter> set xs = {} \<longrightarrow> rep h q2 ys \<longrightarrow> rep h' q2 ys)"
    and deq_law: "rep h q (x # xs) \<Longrightarrow>
      \<exists>h' q'. deq h q = Inr (x, h', q') \<and> rep h' q' xs \<and> loose h' x \<and> same h h' \<and>
        (\<forall>a. a \<noteq> x \<longrightarrow> loose h' a = loose h a) \<and>
        (\<forall>q2 ys. x \<notin> set ys \<longrightarrow> rep h q2 ys \<longrightarrow> rep h' q2 ys)"

text \<open>
  The transfer loop of the code: pop from one queue and append to the other until the first
  is empty (\<open>while (!ready_queue.empty())\<close> in \<open>TimeService::wakeup_frame_on_bucket_\<close>).
\<close>

partial_function (option) transfer ::
    "('q \<Rightarrow> bool) \<Rightarrow> ('h \<Rightarrow> 'q \<Rightarrow> fault + ('a \<times> 'h \<times> 'q)) \<Rightarrow> ('h \<Rightarrow> 'q \<Rightarrow> 'a \<Rightarrow> fault + ('h \<times> 'q)) \<Rightarrow>
     'h \<Rightarrow> 'q \<Rightarrow> 'q \<Rightarrow> (fault + ('h \<times> 'q \<times> 'q)) option" where
  "transfer emp pop app h src dst =
     (if emp src then Some (Inr (h, src, dst))
      else (case pop h src of
              Inl f \<Rightarrow> Some (Inl f)
            | Inr (x, h, src) \<Rightarrow>
                (case app h dst x of
                   Inl f \<Rightarrow> Some (Inl f)
                 | Inr (h, dst) \<Rightarrow> transfer emp pop app h src dst)))"

fun append_all ::
    "('h \<Rightarrow> 'q \<Rightarrow> 'a \<Rightarrow> fault + ('h \<times> 'q)) \<Rightarrow> 'h \<Rightarrow> 'q \<Rightarrow> 'a list \<Rightarrow> fault + ('h \<times> 'q)" where
  "append_all app h q [] = Inr (h, q)"
| "append_all app h q (x # xs) = andthen (app h q x) (\<lambda>(h, q). append_all app h q xs)"

fun pop_n ::
    "('h \<Rightarrow> 'q \<Rightarrow> fault + ('a \<times> 'h \<times> 'q)) \<Rightarrow> 'h \<Rightarrow> 'q \<Rightarrow> nat \<Rightarrow> fault + ('a list \<times> 'h \<times> 'q)" where
  "pop_n pop h q 0 = Inr ([], h, q)"
| "pop_n pop h q (Suc n) =
     andthen (pop h q) (\<lambda>(x, h, q). andthen (pop_n pop h q n) (\<lambda>(xs, h, q). Inr (x # xs, h, q)))"

context fifo
begin

lemma append_all_rep:
  assumes "rep h q xs" and "distinct (xs @ ys)" and "\<forall>y \<in> set ys. loose h y"
    and "fits_u64 (length (xs @ ys))"
  shows "\<exists>h' q'. append_all enq h q ys = Inr (h', q') \<and> rep h' q' (xs @ ys)"
  using assms
proof (induction ys arbitrary: h q xs)
  case Nil
  then show ?case by simp
next
  case (Cons y ys)
  obtain h1 q1 where e: "enq h q y = Inr (h1, q1)" "rep h1 q1 (xs @ [y])"
    "\<forall>a. a \<notin> set xs \<longrightarrow> a \<noteq> y \<longrightarrow> loose h1 a = loose h a"
    using enq_law [of h q xs y] Cons.prems by (fastforce simp: fits_u64_def)
  have "\<exists>h' q'. append_all enq h1 q1 ys = Inr (h', q') \<and> rep h' q' ((xs @ [y]) @ ys)"
    by (rule Cons.IH) (use e Cons.prems in auto)
  with e(1) show ?case by auto
qed

lemma pop_n_rep:
  assumes "rep h q (xs @ ys)"
  shows "\<exists>h' q'. pop_n deq h q (length xs) = Inr (xs, h', q') \<and> rep h' q' ys"
  using assms
proof (induction xs arbitrary: h q)
  case Nil
  then show ?case by simp
next
  case (Cons x xs)
  then obtain h1 q1 where d: "deq h q = Inr (x, h1, q1)" "rep h1 q1 (xs @ ys)"
    using deq_law [of h q x "xs @ ys"] by auto
  with Cons.IH [OF d(2)] show ?case by auto
qed

lemma transfer_rep:
  assumes "rep h src xs" and "rep h dst ys" and "set xs \<inter> set ys = {}"
    and "fits_u64 (length xs + length ys)"
  shows "\<exists>h' src' dst'. transfer is_empty deq enq h src dst = Some (Inr (h', src', dst')) \<and>
    rep h' src' [] \<and> rep h' dst' (ys @ xs) \<and> same h h' \<and>
    (\<forall>a. a \<notin> set xs \<union> set ys \<longrightarrow> loose h' a = loose h a) \<and>
    (\<forall>q2 zs. set zs \<inter> (set xs \<union> set ys) = {} \<longrightarrow> rep h q2 zs \<longrightarrow> rep h' q2 zs)"
  using assms
proof (induction xs arbitrary: h src dst ys)
  case Nil
  then show ?case using rep_empty [OF Nil(1)] by (simp add: transfer.simps same_refl)
next
  case (Cons x xs)
  have x: "x \<notin> set xs" "x \<notin> set ys" "\<not> is_empty src"
    using rep_distinct [OF Cons.prems(1)] rep_empty [OF Cons.prems(1)] Cons.prems(3) by auto
  obtain h1 src1 where d: "deq h src = Inr (x, h1, src1)" "rep h1 src1 xs" "loose h1 x"
    "\<forall>a. a \<noteq> x \<longrightarrow> loose h1 a = loose h a"
    "\<forall>q2 zs. x \<notin> set zs \<longrightarrow> rep h q2 zs \<longrightarrow> rep h1 q2 zs" "same h h1"
    using deq_law [OF Cons.prems(1)] by auto
  have "rep h1 dst ys" using d(5) x(2) Cons.prems(2) by blast
  then obtain h2 dst2 where e: "enq h1 dst x = Inr (h2, dst2)" "rep h2 dst2 (ys @ [x])"
    "\<forall>a. a \<notin> set ys \<longrightarrow> a \<noteq> x \<longrightarrow> loose h2 a = loose h1 a"
    "\<forall>q2 zs. set zs \<inter> set ys = {} \<longrightarrow> rep h1 q2 zs \<longrightarrow> rep h2 q2 zs" "same h1 h2"
    using enq_law [of h1 dst ys x] x d(3) Cons.prems(4) by (auto simp: fits_u64_def)
  have "rep h2 src1 xs" using e(4) d(2) Cons.prems(3) by auto
  then obtain h3 src3 dst3 where ih:
    "transfer is_empty deq enq h2 src1 dst2 = Some (Inr (h3, src3, dst3))"
    "rep h3 src3 []" "rep h3 dst3 ((ys @ [x]) @ xs)"
    "\<forall>a. a \<notin> set xs \<union> set (ys @ [x]) \<longrightarrow> loose h3 a = loose h2 a"
    "\<forall>q2 zs. set zs \<inter> (set xs \<union> set (ys @ [x])) = {} \<longrightarrow> rep h2 q2 zs \<longrightarrow> rep h3 q2 zs"
    "same h2 h3"
    using Cons.IH [of h2 src1 dst2 "ys @ [x]"] e(2) x Cons.prems(3,4) by (auto simp: fits_u64_def)
  have t: "transfer is_empty deq enq h src dst = Some (Inr (h3, src3, dst3))"
    using x(3) d(1) e(1) ih(1) by (simp add: transfer.simps [of _ _ _ h])
  have l: "\<forall>a. a \<notin> set (x # xs) \<union> set ys \<longrightarrow> loose h3 a = loose h a"
    using ih(4) e(3) d(4) by simp
  have "\<forall>q2 zs. set zs \<inter> (set (x # xs) \<union> set ys) = {} \<longrightarrow> rep h q2 zs \<longrightarrow> rep h3 q2 zs"
    using ih(5) e(4) d(5) by (simp add: Int_Un_distrib)
  moreover have "same h h3" using same_trans d(6) e(5) ih(6) by blast
  ultimately show ?case using t l ih(2,3) by auto
qed

end

definition loose :: "heap \<Rightarrow> nat \<Rightarrow> bool" where
  "loose h a \<longleftrightarrow> in_queue_link_next (h a) = None"

interpretation cq: fifo queue_rep loose same_but_links queue_empty append_to_tail pop_from_head
proof unfold_locales
  fix h :: heap and q xs x
  assume r: "queue_rep h q xs" and x: "x \<notin> set xs" "loose h x" "fits_u64 (Suc (length xs))"
  from x(2) have l: "in_queue_link_next (h x) = None" by (simp add: loose_def)
  obtain h' q' where a: "append_to_tail h q x = Inr (h', q')" "queue_rep h' q' (xs @ [x])"
    "\<forall>a. a \<notin> set xs \<longrightarrow> h' a = h a" "same_but_links h h'"
    by (rule append_to_tail_rep [OF r x(1) l x(3)])
  have "queue_rep h' q2 ys" if "set ys \<inter> set xs = {}" "queue_rep h q2 ys" for q2 ys
    by (rule queue_rep_agree [OF that(2)]) (use that(1) a(3) in auto)
  with a show "\<exists>h' q'. append_to_tail h q x = Inr (h', q') \<and> queue_rep h' q' (xs @ [x]) \<and>
      same_but_links h h' \<and> (\<forall>a. a \<notin> set xs \<longrightarrow> a \<noteq> x \<longrightarrow> loose h' a = loose h a) \<and>
      (\<forall>q2 ys. set ys \<inter> set xs = {} \<longrightarrow> queue_rep h q2 ys \<longrightarrow> queue_rep h' q2 ys)"
    by (auto simp: loose_def)
next
  fix h :: heap and q x xs
  assume "queue_rep h q (x # xs)"
  then obtain h' q' where p: "pop_from_head h q = Inr (x, h', q')" "queue_rep h' q' xs"
    "in_queue_link_next (h' x) = None" "\<forall>a. a \<noteq> x \<longrightarrow> h' a = h a" "same_but_links h h'"
    by (rule pop_from_head_rep)
  have "queue_rep h' q2 ys" if "x \<notin> set ys" "queue_rep h q2 ys" for q2 ys
    by (rule queue_rep_agree [OF that(2)]) (use that(1) p(4) in metis)
  with p show "\<exists>h' q'. pop_from_head h q = Inr (x, h', q') \<and> queue_rep h' q' xs \<and> loose h' x \<and>
      same_but_links h h' \<and> (\<forall>a. a \<noteq> x \<longrightarrow> loose h' a = loose h a) \<and>
      (\<forall>q2 ys. x \<notin> set ys \<longrightarrow> queue_rep h q2 ys \<longrightarrow> queue_rep h' q2 ys)"
    by (auto simp: loose_def)
next
  fix h h1 h2
  show "same_but_links h h" by simp
  show "same_but_links h h1 \<Longrightarrow> same_but_links h1 h2 \<Longrightarrow> same_but_links h h2"
    by (rule same_but_links_trans)
next
  fix h q xs
  assume "queue_rep h q xs"
  then show "queue_empty q \<longleftrightarrow> xs = []" and "distinct xs"
    by (rule queue_rep_empty) (use \<open>queue_rep h q xs\<close> in \<open>simp add: queue_rep_def chain_rep_def\<close>)
qed

section \<open>The call chain on the abstraction\<close>

text \<open>
  The frames of one logical call stack form a ring: the root first, the innermost callee
  last, linked forwards by \<open>next\<close> and backwards by \<open>prev\<close>.
\<close>

fun linked :: "heap \<Rightarrow> nat list \<Rightarrow> bool" where
  "linked h (x # y # zs) \<longleftrightarrow>
     lc_next (h x) = Some y \<and> lc_prev (h y) = Some x \<and> linked h (y # zs)"
| "linked h _ \<longleftrightarrow> True"

definition ring :: "heap \<Rightarrow> nat list \<Rightarrow> bool" where
  "ring h xs \<longleftrightarrow> xs \<noteq> [] \<and> distinct xs \<and> linked h xs \<and>
     lc_next (h (last xs)) = Some (hd xs) \<and> lc_prev (h (hd xs)) = Some (last xs)"

lemma linked_snoc:
  "linked h (xs @ [y]) \<longleftrightarrow>
   linked h xs \<and> (xs \<noteq> [] \<longrightarrow> lc_next (h (last xs)) = Some y \<and> lc_prev (h y) = Some (last xs))"
  by (induction h xs rule: linked.induct) auto

lemma linked_agree:
  assumes "\<forall>a \<in> set (butlast xs). lc_next (h' a) = lc_next (h a)"
    and "\<forall>a \<in> set (tl xs). lc_prev (h' a) = lc_prev (h a)"
  shows "linked h' xs = linked h xs"
  using assms by (induction h xs rule: linked.induct) auto

lemma ring_new_frame: "h a = new_frame a b \<Longrightarrow> ring h [a]"
  by (simp add: ring_def new_frame_def)

lemma set_next_fields [simp]:
  "lc_next (set_next h a p b) = (if b = a then p else lc_next (h b))"
  "lc_prev (set_next h a p b) = lc_prev (h b)"
  "in_queue_link_next (set_next h a p b) = in_queue_link_next (h b)"
  by (simp_all add: set_next_def)

lemma set_prev_fields [simp]:
  "lc_prev (set_prev h a p b) = (if b = a then p else lc_prev (h b))"
  "lc_next (set_prev h a p b) = lc_next (h b)"
  "in_queue_link_next (set_prev h a p b) = in_queue_link_next (h b)"
  by (simp_all add: set_prev_def)

lemma last_notin_butlast: "distinct xs \<Longrightarrow> xs \<noteq> [] \<Longrightarrow> last xs \<notin> set (butlast xs)"
  by (induction xs rule: rev_induct) auto

lemma hd_notin_tl: "distinct xs \<Longrightarrow> xs \<noteq> [] \<Longrightarrow> hd xs \<notin> set (tl xs)"
  by (cases xs) auto

text \<open>A call made by the innermost frame pushes the callee.\<close>

lemma link_next_ring:
  assumes "ring h xs" and "new \<notin> set xs"
  obtains h' where "link_next h (last xs) new = Inr h'" and "ring h' (xs @ [new])"
    and "\<forall>a. a \<notin> set xs \<longrightarrow> a \<noteq> new \<longrightarrow> h' a = h a"
proof -
  have r: "xs \<noteq> []" "distinct xs" "linked h xs" "lc_next (h (last xs)) = Some (hd xs)"
    "lc_prev (h (hd xs)) = Some (last xs)"
    using assms(1) by (simp_all add: ring_def)
  have hd: "hd xs \<in> set xs" and la: "last xs \<in> set xs" using r(1) by simp_all
  with assms(2) have ne: "hd xs \<noteq> new" "last xs \<noteq> new" by auto
  let ?h = "set_prev (set_prev (set_next (set_next h (last xs) (Some new)) new (Some (hd xs)))
      new (Some (last xs))) (hd xs) (Some new)"
  have "link_next h (last xs) new = Inr ?h"
    using r(4) by (simp add: link_next_def Let_def)
  moreover have "\<forall>a \<in> set (butlast xs). lc_next (?h a) = lc_next (h a)"
    using assms(2) last_notin_butlast [OF r(2,1)] by (auto dest: in_set_butlastD)
  moreover have "\<forall>a \<in> set (tl xs). lc_prev (?h a) = lc_prev (h a)"
    using assms(2) r(1) hd_notin_tl [OF r(2,1)] by (auto dest: list.set_sel(2))
  ultimately have "link_next h (last xs) new = Inr ?h" and "linked ?h xs"
    using linked_agree [of xs ?h h] r(3) by blast+
  then have "link_next h (last xs) new = Inr ?h" and "ring ?h (xs @ [new])"
    using r(1,2) ne assms(2) by (simp_all add: ring_def linked_snoc)
  moreover have "\<forall>a. a \<notin> set xs \<longrightarrow> a \<noteq> new \<longrightarrow> ?h a = h a"
    using hd la by (auto simp: set_next_def set_prev_def)
  ultimately show thesis using that by blast
qed

text \<open>The innermost frame returns: it leaves the ring, and its caller is its \<open>prev\<close>.\<close>

lemma remove_self_ring:
  assumes "ring h (xs @ [x])" and "xs \<noteq> []"
  obtains h' where "remove_self h x = Inr h'" and "ring h' xs"
    and "lc_prev (h x) = Some (last xs)" and "lc_prev (h' x) = None" and "lc_next (h' x) = None"
    and "\<forall>a. a \<notin> set xs \<longrightarrow> a \<noteq> x \<longrightarrow> h' a = h a"
proof -
  have r: "distinct xs" "x \<notin> set xs" "linked h xs" "lc_next (h (last xs)) = Some x"
    "lc_prev (h x) = Some (last xs)" "lc_next (h x) = Some (hd xs)"
    using assms by (auto simp: ring_def linked_snoc)
  have hd: "hd xs \<in> set xs" and la: "last xs \<in> set xs" using assms(2) by simp_all
  with r(2) have ne: "hd xs \<noteq> x" "last xs \<noteq> x" by auto
  let ?h = "set_prev (set_next (set_prev (set_next h (last xs) (Some (hd xs)))
      (hd xs) (Some (last xs))) x None) x None"
  have "remove_self h x = Inr ?h"
    using r(5,6) ne by (simp add: remove_self_def chain_empty_def Let_def)
  moreover have "\<forall>a \<in> set (butlast xs). lc_next (?h a) = lc_next (h a)"
    using r(2) last_notin_butlast [OF r(1) assms(2)] by (auto dest: in_set_butlastD)
  moreover have "\<forall>a \<in> set (tl xs). lc_prev (?h a) = lc_prev (h a)"
    using r(2) assms(2) hd_notin_tl [OF r(1) assms(2)] by (auto dest: list.set_sel(2))
  ultimately have "remove_self h x = Inr ?h" and "linked ?h xs"
    using linked_agree [of xs ?h h] r(3) by blast+
  then have "remove_self h x = Inr ?h" and "ring ?h xs"
    using assms(2) r(1) ne by (simp_all add: ring_def)
  moreover have "\<forall>a. a \<notin> set xs \<longrightarrow> a \<noteq> x \<longrightarrow> ?h a = h a"
    using hd la by (auto simp: set_next_def set_prev_def)
  ultimately show thesis using that r(5) by simp
qed

lemma ring_root_empty: "ring h [x] \<Longrightarrow> chain_empty h x"
  by (simp add: ring_def chain_empty_def)

lemma ring_callee_not_empty: "ring h (xs @ [x]) \<Longrightarrow> xs \<noteq> [] \<Longrightarrow> \<not> chain_empty h x"
  by (auto simp: ring_def chain_empty_def linked_snoc)

section \<open>Properties\<close>

text \<open>
  C4. FIFO: frames appended to a well-formed queue come out in the order they were put in,
  after those that were there, without a null dereference or a failed assertion.
\<close>

theorem queue_fifo_order:
  assumes "queue_rep h q xs" and "distinct (xs @ ys)"
    and "\<forall>y \<in> set ys. in_queue_link_next (h y) = None" and "fits_u64 (length (xs @ ys))"
  shows "\<exists>h1 q1 h2 q2. append_all append_to_tail h q ys = Inr (h1, q1) \<and>
    pop_n pop_from_head h1 q1 (length (xs @ ys)) = Inr (xs @ ys, h2, q2) \<and> queue_empty q2"
proof -
  obtain h1 q1 where a: "append_all append_to_tail h q ys = Inr (h1, q1)" "queue_rep h1 q1 (xs @ ys)"
    using cq.append_all_rep [OF assms(1,2)] assms(3,4) by (auto simp: loose_def)
  have "queue_rep h1 q1 ((xs @ ys) @ [])" using a(2) by simp
  from cq.pop_n_rep [OF this] a(1) show ?thesis by (auto simp: queue_rep_empty)
qed

definition fresh_heap :: heap where
  "fresh_heap a = new_frame a a"

theorem queue_fifo_order_witness:
  "\<exists>h1 q1 h2 q2. append_all append_to_tail fresh_heap new_queue [3, 1, 2] = Inr (h1, q1) \<and>
    pop_n pop_from_head h1 q1 (length ([] @ [3, 1, 2 :: nat])) = Inr ([] @ [3, 1, 2], h2, q2) \<and>
    queue_empty q2"
  by (rule queue_fifo_order) (simp_all add: new_queue_rep fresh_heap_def new_frame_def fits_u64_def)

text \<open>
  C5. \<open>fetch_nodes\<close> moves exactly the frames that satisfy the condition to the end of the
  target queue and keeps the others, both in order. The source queue is a well-formed queue
  again exactly when all frames left or its last frame stayed: the tail pointer is not moved
  back when the last frame is taken out.
\<close>

theorem fetch_nodes_partitions:
  assumes "queue_rep h q xs" and "queue_rep h tq ys" and "set ys \<inter> set xs = {}"
    and "fits_u64 (length ys + length xs)"
  shows "\<exists>h' q' tq'. fetch_nodes (\<lambda>x. Inr (cond x)) h q (Some tq) = Some (Inr (h', q', Some tq')) \<and>
    queue_rep h' tq' (ys @ filter cond xs) \<and> chain_rep h' q' (filter (\<lambda>x. \<not> cond x) xs) \<and>
    (queue_rep h' q' (filter (\<lambda>x. \<not> cond x) xs) \<longleftrightarrow>
       filter (\<lambda>x. \<not> cond x) xs = [] \<or> \<not> cond (last xs))"
proof -
  obtain h' q' tq' where f: "fetch_nodes (\<lambda>x. Inr (cond x)) h q (Some tq) = Some (Inr (h', q', Some tq'))"
    "chain_rep h' q' (filter (\<lambda>x. \<not> cond x) xs)"
    "q_tail q' = (if filter (\<lambda>x. \<not> cond x) xs = [] then None else Some (last xs))"
    "queue_rep h' tq' (ys @ filter cond xs)"
    by (rule fetch_nodes_rep [OF assms, of "\<lambda>x. Inr (cond x)" cond]) simp
  have "distinct xs" using assms(1) by (simp add: queue_rep_def chain_rep_def)
  then have "queue_rep h' q' (filter (\<lambda>x. \<not> cond x) xs) \<longleftrightarrow>
       filter (\<lambda>x. \<not> cond x) xs = [] \<or> \<not> cond (last xs)"
    using f(2,3) last_filter_eq [of xs "\<lambda>x. \<not> cond x"] by (auto simp: queue_rep_def)
  with f show ?thesis by blast
qed

lemma two_in_queue:
  "queue_rep (set_link fresh_heap 5 (Some 6)) \<lparr>q_head = Some 5, q_tail = Some 6, q_size = 2\<rparr> [5, 6]"
  by (simp add: queue_rep_def chain_rep_def set_link_def fresh_heap_def new_frame_def)

theorem fetch_nodes_partitions_witness:
  "\<exists>h' q' tq'. fetch_nodes (\<lambda>x. Inr (x = 5)) (set_link fresh_heap 5 (Some 6))
      \<lparr>q_head = Some 5, q_tail = Some 6, q_size = 2\<rparr> (Some new_queue) = Some (Inr (h', q', Some tq')) \<and>
    queue_rep h' tq' ([] @ filter (\<lambda>x. x = 5) [5, 6]) \<and>
    chain_rep h' q' (filter (\<lambda>x. \<not> x = 5) [5, 6]) \<and>
    (queue_rep h' q' (filter (\<lambda>x. \<not> x = 5) [5, 6]) \<longleftrightarrow>
       filter (\<lambda>x. \<not> x = 5) [5, 6 :: nat] = [] \<or> \<not> last [5, 6 :: nat] = 5)"
  by (rule fetch_nodes_partitions) (simp_all add: two_in_queue new_queue_rep fits_u64_def)

text \<open>
  A frame is lost: when \<open>fetch_nodes\<close> takes the last frame of a queue and leaves an
  earlier one, the next frame that is appended is linked behind the frame that left. The
  append reports success, the size counts it, and no walk from the head reaches it.
\<close>

theorem append_after_fetch_loses_frame:
  assumes "queue_rep h q (xs @ [y])" and "queue_rep h tq []" and "xs \<noteq> []"
    and "z \<notin> set (xs @ [y])" and "in_queue_link_next (h z) = None"
    and "fits_u64 (Suc (length xs))"
  shows "\<exists>h1 q1 tq1 h2 q2.
    fetch_nodes (\<lambda>x. Inr (x = y)) h q (Some tq) = Some (Inr (h1, q1, Some tq1)) \<and>
    append_to_tail h1 q1 z = Inr (h2, q2) \<and> unat (q_size q2) = Suc (length xs) \<and>
    qpath h2 (q_head q2) xs \<and> z \<notin> set xs"
proof -
  have y: "distinct xs" "y \<notin> set xs" using assms(1) by (auto simp: queue_rep_def chain_rep_def)
  then have fx: "filter (\<lambda>x. \<not> x = y) (xs @ [y]) = xs" by (auto intro: filter_True)
  obtain h1 q1 tq1 where f: "fetch_nodes (\<lambda>x. Inr (x = y)) h q (Some tq) = Some (Inr (h1, q1, Some tq1))"
    "chain_rep h1 q1 xs" "q_tail q1 = Some y" "\<forall>a. a \<notin> set [] \<union> set (xs @ [y]) \<longrightarrow> h1 a = h a"
    by (rule fetch_nodes_rep [OF assms(1,2), of "\<lambda>x. Inr (x = y)" "\<lambda>x. x = y"])
      (use assms(3,6) fx in \<open>auto simp: fits_u64_def\<close>)
  have "in_queue_link_next (h1 z) = None" using f(4) assms(4,5) by simp
  then have a: "append_to_tail h1 q1 z
      = Inr (set_link h1 y (Some z), q1\<lparr>q_tail := Some z, q_size := q_size q1 + 1\<rparr>)"
    using f(2,3) assms(3) chain_rep_sizes [OF f(2)] by (simp add: append_to_tail_def)
  have "unat (q_size q1 + 1) = Suc (length xs)"
    using f(2) assms(6) by (simp add: chain_rep_def unat_u64_Suc)
  moreover have "qpath (set_link h1 y (Some z)) (q_head q1) xs"
    using f(2) y(2) by (simp add: chain_rep_def)
  ultimately show ?thesis using f(1) a assms(4) by auto
qed

theorem append_after_fetch_loses_frame_witness:
  "\<exists>h1 q1 tq1 h2 q2.
    fetch_nodes (\<lambda>x. Inr (x = 6)) (set_link fresh_heap 5 (Some 6))
      \<lparr>q_head = Some 5, q_tail = Some 6, q_size = 2\<rparr> (Some new_queue) = Some (Inr (h1, q1, Some tq1)) \<and>
    append_to_tail h1 q1 7 = Inr (h2, q2) \<and> unat (q_size q2) = Suc (length [5 :: nat]) \<and>
    qpath h2 (q_head q2) [5] \<and> 7 \<notin> set [5 :: nat]"
proof (rule append_after_fetch_loses_frame)
  show "queue_rep (set_link fresh_heap 5 (Some 6)) \<lparr>q_head = Some 5, q_tail = Some 6, q_size = 2\<rparr>
      ([5] @ [6])"
    using two_in_queue by simp
  show "in_queue_link_next (set_link fresh_heap 5 (Some 6) 7) = None"
    by (simp add: set_link_def fresh_heap_def new_frame_def)
qed (simp_all add: two_in_queue new_queue_rep fits_u64_def)

end
