(* ===== verification/Local_Var.thy ===== *)
theory Local_Var
  imports Coro_Queue Net_Define
begin

text \<open>
  The per-call-stack data of a coroutine (\<open>src/src/coroutine_framework/local_var.h\<close> and
  \<open>local_var.cpp\<close>), the store a scheduler works on, and the entry \<open>CommonExecuteModule\<close>
  (\<open>common_execute_module.h\<close>) through which every module makes a frame ready.
\<close>

section \<open>Local variables of a call stack\<close>

record ResponseInfo =
  response_to_end_point :: EndPoint
  response_to_coro_id :: u64
  response_rpc_type :: u16

text \<open>
  The \<open>ResponseInfo\<close> is owned by exactly one \<open>CoroLocalVar\<close>, which deletes it: it is part
  of the record. \<open>ID\<close> is the process-wide counter.
\<close>

record CoroLocalVar =
  coro_id :: u64
  wake_up_ts :: u64
  response_info :: "ResponseInfo option"

definition new_CoroLocalVar :: "u64 \<Rightarrow> CoroLocalVar \<times> u64" where
  "new_CoroLocalVar ID = (\<lparr>coro_id = ID, wake_up_ts = 0, response_info = None\<rparr>, ID + 1)"

section \<open>The store\<close>

text \<open>
  \<open>frames\<close> are the coroutine frames; \<open>live\<close> says which have not been destroyed. \<open>locals\<close>
  are the \<open>CoroLocalVar\<close> objects, \<open>None\<close> where there is none (any more).
\<close>

record world =
  frames :: heap
  live :: "nat \<Rightarrow> bool"
  locals :: "nat \<Rightarrow> CoroLocalVar option"
  next_id :: u64
  coroutine_queue :: CoroutineQueue

text \<open>\<open>frame->coro_local_var_->...\<close>: a null pointer or a deleted object is a fault.\<close>

definition get_local :: "world \<Rightarrow> nat \<Rightarrow> fault + CoroLocalVar" where
  "get_local w f =
     (case coro_local_var (frames w f) of
        None \<Rightarrow> Inl Ub_null_deref
      | Some l \<Rightarrow> (case locals w l of None \<Rightarrow> Inl Ub_out_of_bounds | Some v \<Rightarrow> Inr v))"

definition set_local :: "world \<Rightarrow> nat \<Rightarrow> (CoroLocalVar \<Rightarrow> CoroLocalVar) \<Rightarrow> fault + world" where
  "set_local w f g =
     (case coro_local_var (frames w f) of
        None \<Rightarrow> Inl Ub_null_deref
      | Some l \<Rightarrow> (case locals w l of
                   None \<Rightarrow> Inl Ub_out_of_bounds
                 | Some v \<Rightarrow> Inr (w\<lparr>locals := (locals w)(l \<mapsto> g v)\<rparr>)))"

section \<open>Making a frame ready\<close>

definition commit_frame :: "world \<Rightarrow> nat \<Rightarrow> fault + world" where
  "commit_frame w f =
     andthen (append_to_tail (frames w) (coroutine_queue w) f)
       (\<lambda>(h, q). Inr (w\<lparr>frames := h, coroutine_queue := q\<rparr>))"

definition ready :: "world \<Rightarrow> nat list \<Rightarrow> bool" where
  "ready w fs \<longleftrightarrow> queue_rep (frames w) (coroutine_queue w) fs"

lemma coro_local_var_same: "same_but_links h h' \<Longrightarrow> coro_local_var (h' a) = coro_local_var (h a)"
  unfolding same_but_links_def by (metis (no_types) LinkedCoroutine.select_convs(6)
      LinkedCoroutine.surjective LinkedCoroutine.update_convs(3))

lemma get_local_same:
  "same_but_links (frames w) (frames w') \<Longrightarrow> locals w' = locals w \<Longrightarrow> get_local w' f = get_local w f"
  by (simp add: get_local_def coro_local_var_same cong: option.case_cong)

lemma commit_frame_ready:
  assumes "ready w fs" and "f \<notin> set fs" and "loose (frames w) f" and "fits_u64 (Suc (length fs))"
  obtains w' where "commit_frame w f = Inr w'" and "ready w' (fs @ [f])"
    and "same_but_links (frames w) (frames w')" and "locals w' = locals w" and "live w' = live w"
    and "next_id w' = next_id w"
    and "\<forall>a. a \<notin> set fs \<longrightarrow> a \<noteq> f \<longrightarrow> loose (frames w') a = loose (frames w) a"
    and "\<forall>q2 ys. set ys \<inter> set fs = {} \<longrightarrow> queue_rep (frames w) q2 ys \<longrightarrow> queue_rep (frames w') q2 ys"
proof -
  obtain h' q' where e: "append_to_tail (frames w) (coroutine_queue w) f = Inr (h', q')"
    "queue_rep h' q' (fs @ [f])" "same_but_links (frames w) h'"
    "\<forall>a. a \<notin> set fs \<longrightarrow> a \<noteq> f \<longrightarrow> loose h' a = loose (frames w) a"
    "\<forall>q2 ys. set ys \<inter> set fs = {} \<longrightarrow> queue_rep (frames w) q2 ys \<longrightarrow> queue_rep h' q2 ys"
    using cq.enq_law [OF assms(1) [unfolded ready_def] assms(2-4)] by blast
  show thesis
    by (rule that [of "w\<lparr>frames := h', coroutine_queue := q'\<rparr>"])
      (use e in \<open>simp_all add: commit_frame_def ready_def\<close>)
qed

end
