(* ===== verification/Time_Service.thy ===== *)
theory Time_Service
  imports Local_Var
begin

unbundle bit_operations_syntax

text \<open>
  The time wheel of \<open>src/src/coroutine_framework/time_module/time_service.h\<close> and
  \<open>time_service.cpp\<close>: registration of a sleeping frame, the scan of a bucket, the loop of the
  service thread and its final drain. Readings of the steady clock and the moments at which
  the stop flag is seen are inputs; locks make each of the operations one step.
\<close>

section \<open>State and operations\<close>

definition BUCKET_NUM :: u64 where "BUCKET_NUM = 4096"

record TimeWheelBucket =
  scan_over_ts :: u64
  waiting_queue :: CoroutineQueue

definition new_bucket :: TimeWheelBucket where
  "new_bucket = \<lparr>scan_over_ts = 0, waiting_queue = new_queue\<rparr>"

record TimeService =
  ts_stop_flag :: bool
  precision :: u64
  start_bukcet_run_ts :: u64
  buckets :: "nat \<Rightarrow> TimeWheelBucket"

definition new_TimeService :: "u64 \<Rightarrow> u64 \<Rightarrow> TimeService" where
  "new_TimeService prec now = \<lparr>ts_stop_flag = False, precision = prec,
     start_bukcet_run_ts = now, buckets = (\<lambda>_. new_bucket)\<rparr>"

definition calculated_bucket_idx :: "u64 \<Rightarrow> u64 \<Rightarrow> u64 \<Rightarrow> u64" where
  "calculated_bucket_idx prec start wake = ((wake - start) - 1) div prec + 1"

definition real_bucket_idx :: "u64 \<Rightarrow> u64" where
  "real_bucket_idx i = i AND (BUCKET_NUM - 1)"

definition register_frame :: "TimeService \<Rightarrow> world \<Rightarrow> nat \<Rightarrow> fault + (TimeService \<times> world)" where
  "register_frame ts w f =
     andthen (get_local w f) (\<lambda>l.
       let wake = wake_up_ts l; start = start_bukcet_run_ts ts in
       if start \<ge> wake
       then andthen (commit_frame w f) (\<lambda>w. Inr (ts, w))
       else andthen (check Ub_division_by_zero (precision ts \<noteq> 0)) (\<lambda>_.
         let idx = unat (real_bucket_idx (calculated_bucket_idx (precision ts) start wake));
             bucket = buckets ts idx in
         if scan_over_ts bucket \<ge> wake
         then andthen (commit_frame w f) (\<lambda>w. Inr (ts, w))
         else andthen (append_to_tail (frames w) (waiting_queue bucket) f) (\<lambda>(h, q).
           Inr (ts\<lparr>buckets := (buckets ts)(idx := bucket\<lparr>waiting_queue := q\<rparr>)\<rparr>,
                w\<lparr>frames := h\<rparr>))))"

definition ts_start :: "TimeService \<Rightarrow> TimeService" where
  "ts_start ts = ts\<lparr>ts_stop_flag := False\<rparr>"

definition ts_stop :: "TimeService \<Rightarrow> TimeService" where
  "ts_stop ts = ts\<lparr>ts_stop_flag := True\<rparr>"

text \<open>
  \<open>co_sleep::await_suspend\<close> of \<open>async_action.ipp\<close>: the wake-up time is set before the frame
  is published.
\<close>

definition co_sleep_suspend ::
    "u64 \<Rightarrow> u64 \<Rightarrow> TimeService \<Rightarrow> world \<Rightarrow> nat \<Rightarrow> fault + (TimeService \<times> world)" where
  "co_sleep_suspend now sleep_ts ts w f =
     andthen (set_local w f (\<lambda>l. l\<lparr>wake_up_ts := now + sleep_ts\<rparr>)) (\<lambda>w.
       let w = w\<lparr>frames := sync_release (frames w) f\<rparr> in
       register_frame ts w f)"

definition due :: "world \<Rightarrow> u64 \<Rightarrow> bool \<Rightarrow> nat \<Rightarrow> fault + bool" where
  "due w now force_awake f =
     andthen (get_local w f) (\<lambda>l. Inr (wake_up_ts l \<le> now \<or> force_awake))"

definition wakeup_frame_on_bucket ::
    "u64 \<Rightarrow> nat \<Rightarrow> bool \<Rightarrow> TimeService \<Rightarrow> world \<Rightarrow> (fault + (TimeService \<times> world)) option" where
  "wakeup_frame_on_bucket now idx force_awake ts w =
     (let bucket = (buckets ts idx)\<lparr>scan_over_ts := now\<rparr> in
      seq_opt (fetch_nodes (due w now force_awake) (frames w) (waiting_queue bucket) (Some new_queue))
        (\<lambda>(h, q, ready_queue).
          seq_opt (transfer queue_empty pop_from_head append_to_tail h
                     (case ready_queue of Some r \<Rightarrow> r | None \<Rightarrow> new_queue) (coroutine_queue w))
            (\<lambda>(h, _, sq). Some (Inr
               (ts\<lparr>buckets := (buckets ts)(idx := bucket\<lparr>waiting_queue := q\<rparr>)\<rparr>,
                w\<lparr>frames := h, coroutine_queue := sq\<rparr>)))))"

definition next_idx :: "u64 \<Rightarrow> u64" where
  "next_idx idx = (idx + 1) AND (BUCKET_NUM - 1)"

text \<open>
  One turn of \<open>loop_\<close>. The clock is read for the round start (when the index is 0), inside
  the scan, and for the pause. The result names the nanoseconds the thread waits, \<open>None\<close>
  for a turn that continues at once.
\<close>

definition loop_turn :: "u64 \<Rightarrow> u64 \<Rightarrow> u64 \<Rightarrow> u64 \<Rightarrow> TimeService \<Rightarrow> world \<Rightarrow>
    (fault + (u64 \<times> TimeService \<times> world \<times> u64 option)) option" where
  "loop_turn t_start t_scan t_now idx ts w =
     (let idx = next_idx idx;
          ts = (if idx = 0 then ts\<lparr>start_bukcet_run_ts := t_start\<rparr> else ts) in
      seq_opt (wakeup_frame_on_bucket t_scan (unat idx) False ts w) (\<lambda>(ts, w).
        let next_run_ts = start_bukcet_run_ts ts + precision ts * (idx + 1) in
        Some (Inr (idx, ts, w, if t_now \<ge> next_run_ts then None else Some (next_run_ts - t_now)))))"

fun drain :: "(nat \<Rightarrow> u64) \<Rightarrow> nat list \<Rightarrow> TimeService \<Rightarrow> world \<Rightarrow> (fault + (TimeService \<times> world)) option" where
  "drain clock [] ts w = Some (Inr (ts, w))"
| "drain clock (i # is) ts w =
     seq_opt (wakeup_frame_on_bucket (clock i) i True ts w) (\<lambda>(ts, w). drain clock is ts w)"

text \<open>
  \<open>loop_\<close> runs its body at least once and tests the stop flag after each turn. Every turn is
  given its clock readings and the flag it then sees; when these end, the loop is still
  running.
\<close>

datatype loop_end = Running u64 | Stopped

fun loop_ts :: "(nat \<Rightarrow> u64) \<Rightarrow> (u64 \<times> u64 \<times> u64 \<times> bool) list \<Rightarrow> u64 \<Rightarrow> TimeService \<Rightarrow> world \<Rightarrow>
    (fault + (loop_end \<times> TimeService \<times> world)) option" where
  "loop_ts clock [] idx ts w = Some (Inr (Running idx, ts, w))"
| "loop_ts clock ((t1, t2, t3, stop) # turns) idx ts w =
     seq_opt (loop_turn t1 t2 t3 idx ts w) (\<lambda>(idx, ts, w, pause).
       if stop
       then seq_opt (drain clock [0..<unat BUCKET_NUM] (ts_stop ts) w)
              (\<lambda>(ts, w). Some (Inr (Stopped, ts, w)))
       else loop_ts clock turns idx ts w)"

section \<open>The bucket index\<close>

lemma unat_diff_u64: "start < wake \<Longrightarrow> unat (wake - start :: u64) = unat wake - unat start"
  by (simp add: unat_sub order_less_imp_le)

lemma calculated_bucket_idx_nat:
  assumes "start < wake" and "prec \<noteq> 0"
  shows "unat (calculated_bucket_idx prec start wake)
    = (unat wake - unat start - 1) div unat prec + 1"
proof -
  have d: "0 < unat wake - unat start" using assms(1) by (simp add: word_less_nat_alt)
  have "unat (wake - start) = unat wake - unat start" using assms(1) by (rule unat_diff_u64)
  moreover have "wake - start \<noteq> 0" using d calculation by auto
  ultimately have "unat (wake - start - 1) = unat wake - unat start - 1"
    by (simp add: unat_minus_one)
  then have q: "unat ((wake - start - 1) div prec) = (unat wake - unat start - 1) div unat prec"
    by (simp add: unat_div)
  have "(unat wake - unat start - 1) div unat prec \<le> unat wake - unat start - 1"
    by (rule div_le_dividend)
  also have "\<dots> < 18446744073709551615"
  proof -
    have "unat wake < 18446744073709551616" using unsigned_less [of wake] by simp
    with d show ?thesis by linarith
  qed
  finally have "unat ((wake - start - 1) div prec) + 1 < 18446744073709551616" using q by simp
  then show ?thesis
    using q by (simp add: calculated_bucket_idx_def unat_word_ariths)
qed

lemma real_bucket_idx_mod: "unat (real_bucket_idx i) = unat i mod 4096"
proof -
  have "real_bucket_idx i = take_bit 12 i"
    by (simp add: real_bucket_idx_def BUCKET_NUM_def take_bit_eq_mask mask_eq_exp_minus_1)
  then have "unat (real_bucket_idx i) = take_bit 12 (unat i)" by (simp only: unsigned_take_bit_eq)
  then show ?thesis by (simp add: take_bit_eq_mod)
qed

lemma next_idx_mod: "idx < BUCKET_NUM \<Longrightarrow> unat (next_idx idx) = (unat idx + 1) mod 4096"
proof -
  assume "idx < BUCKET_NUM"
  then have "unat (idx + 1) = unat idx + 1"
    by (simp add: BUCKET_NUM_def word_less_nat_alt unat_word_ariths)
  then show ?thesis using real_bucket_idx_mod [of "idx + 1"]
    by (simp add: next_idx_def real_bucket_idx_def)
qed

section \<open>The wheel on its abstraction\<close>

definition wake_of :: "world \<Rightarrow> nat \<Rightarrow> u64" where
  "wake_of w f = (case get_local w f of Inr l \<Rightarrow> wake_up_ts l | Inl _ \<Rightarrow> 0)"

definition has_local :: "world \<Rightarrow> nat \<Rightarrow> bool" where
  "has_local w f \<longleftrightarrow> (\<exists>l. get_local w f = Inr l)"

text \<open>
  \<open>xs i\<close> are the frames that wait in bucket \<open>i\<close> and \<open>fs\<close> the ready frames; \<open>A\<close> is the set
  of all frames of the process, which bounds every queue.
\<close>

definition wheel ::
    "nat set \<Rightarrow> TimeService \<Rightarrow> world \<Rightarrow> (nat \<Rightarrow> nat list) \<Rightarrow> nat list \<Rightarrow> bool" where
  "wheel A ts w xs fs \<longleftrightarrow>
     ready w fs \<and> (\<forall>i. queue_rep (frames w) (waiting_queue (buckets ts i)) (xs i)) \<and>
     (\<forall>i j. i \<noteq> j \<longrightarrow> set (xs i) \<inter> set (xs j) = {}) \<and> (\<forall>i. set (xs i) \<inter> set fs = {}) \<and>
     (\<forall>i. \<forall>f \<in> set (xs i). has_local w f) \<and>
     finite A \<and> fits_u64 (card A) \<and> set fs \<subseteq> A \<and> (\<forall>i. set (xs i) \<subseteq> A)"

lemma wheel_fits:
  assumes "wheel A ts w xs fs"
  shows "fits_u64 (length (xs i) + length fs)"
proof -
  have d: "distinct (xs i)" "distinct fs" "set (xs i) \<inter> set fs = {}"
    "set (xs i) \<union> set fs \<subseteq> A" "finite A"
    using assms by (auto simp: wheel_def ready_def queue_rep_def chain_rep_def)
  then have "length (xs i) + length fs = card (set (xs i) \<union> set fs)"
    by (simp add: card_Un_disjoint distinct_card)
  also have "\<dots> \<le> card A" using d by (intro card_mono)
  finally show ?thesis using assms by (simp add: wheel_def fits_u64_def)
qed

lemma wheelI:
  assumes "wheel A ts w xs fs" and "ready w' fs'"
    and "\<forall>i. queue_rep (frames w') (waiting_queue (buckets ts' i)) (ys i)"
    and "\<forall>i. set (ys i) \<subseteq> set (xs i)" and "\<forall>i. set (ys i) \<inter> set fs' = {}"
    and "\<And>f. has_local w' f = has_local w f" and "set fs' \<subseteq> set fs \<union> (\<Union>i. set (xs i))"
  shows "wheel A ts' w' ys fs'"
proof -
  have "set (ys i) \<inter> set (ys j) = {}" if "i \<noteq> j" for i j
    using assms(1,4) that unfolding wheel_def by (meson disjoint_iff subsetD)
  moreover have "has_local w' f" if "f \<in> set (ys i)" for f i
    using assms(1,4,6) that unfolding wheel_def by blast
  moreover have "set fs' \<subseteq> A" and "\<And>i. set (ys i) \<subseteq> A"
    using assms(1,4,7) unfolding wheel_def by blast+
  ultimately show ?thesis using assms(1-3,5) unfolding wheel_def by blast
qed

lemma due_eq: "has_local w f \<Longrightarrow> due w now force f = Inr (wake_of w f \<le> now \<or> force)"
  by (auto simp: due_def has_local_def wake_of_def)

lemma same_wake:
  "same_but_links (frames w) (frames w') \<Longrightarrow> locals w' = locals w \<Longrightarrow>
   wake_of w' f = wake_of w f \<and> has_local w' f = has_local w f"
  by (simp add: wake_of_def has_local_def get_local_same)

text \<open>The same where the tail pointers of the buckets may be stale.\<close>

definition wheel_chains ::
    "nat set \<Rightarrow> TimeService \<Rightarrow> world \<Rightarrow> (nat \<Rightarrow> nat list) \<Rightarrow> nat list \<Rightarrow> bool" where
  "wheel_chains A ts w xs fs \<longleftrightarrow>
     ready w fs \<and> (\<forall>i. chain_rep (frames w) (waiting_queue (buckets ts i)) (xs i)) \<and>
     (\<forall>i j. i \<noteq> j \<longrightarrow> set (xs i) \<inter> set (xs j) = {}) \<and> (\<forall>i. set (xs i) \<inter> set fs = {}) \<and>
     (\<forall>i. \<forall>f \<in> set (xs i). has_local w f) \<and>
     finite A \<and> fits_u64 (card A) \<and> set fs \<subseteq> A \<and> (\<forall>i. set (xs i) \<subseteq> A)"

lemma wheel_is_chains: "wheel A ts w xs fs \<Longrightarrow> wheel_chains A ts w xs fs"
  by (simp add: wheel_def wheel_chains_def queue_rep_def)

lemma wheel_chains_fits:
  assumes "wheel_chains A ts w xs fs"
  shows "fits_u64 (length (xs i) + length fs)"
proof -
  have d: "distinct (xs i)" "distinct fs" "set (xs i) \<inter> set fs = {}"
    "set (xs i) \<union> set fs \<subseteq> A" "finite A"
    using assms by (auto simp: wheel_chains_def ready_def queue_rep_def chain_rep_def)
  then have "length (xs i) + length fs = card (set (xs i) \<union> set fs)"
    by (simp add: card_Un_disjoint distinct_card)
  also have "\<dots> \<le> card A" using d by (intro card_mono)
  finally show ?thesis using assms by (simp add: wheel_chains_def fits_u64_def)
qed

text \<open>What a scan of one bucket does, whatever the state of the tail pointers before and after.\<close>

lemma wakeup_chain:
  assumes wh: "wheel_chains A ts w xs fs"
    and P: "P = (\<lambda>f. wake_of w f \<le> now \<or> force)"
  obtains ts' w' where "wakeup_frame_on_bucket now idx force ts w = Some (Inr (ts', w'))"
    and "ready w' (fs @ filter P (xs idx))"
    and "\<forall>i. i \<noteq> idx \<longrightarrow> buckets ts' i = buckets ts i"
    and "\<forall>q zs. set zs \<inter> (set fs \<union> set (xs idx)) = {} \<longrightarrow> queue_rep (frames w) q zs \<longrightarrow> queue_rep (frames w') q zs"
    and "chain_rep (frames w') (waiting_queue (buckets ts' idx)) (filter (\<lambda>f. \<not> P f) (xs idx))"
    and "q_tail (waiting_queue (buckets ts' idx)) =
      (if filter (\<lambda>f. \<not> P f) (xs idx) = [] then None else q_tail (waiting_queue (buckets ts idx)))"
    and "scan_over_ts (buckets ts' idx) = now" and "precision ts' = precision ts"
    and "start_bukcet_run_ts ts' = start_bukcet_run_ts ts"
    and "same_but_links (frames w) (frames w')" and "locals w' = locals w"
    and "\<forall>a. a \<notin> set fs \<union> set (xs idx) \<longrightarrow> loose (frames w') a = loose (frames w) a"
proof -
  let ?q = "waiting_queue (buckets ts idx)" and ?ks = "filter (\<lambda>f. \<not> P f) (xs idx)"
  have r: "chain_rep (frames w) ?q (xs idx)" "queue_rep (frames w) (coroutine_queue w) fs"
    "set (xs idx) \<inter> set fs = {}" "\<forall>f \<in> set (xs idx). due w now force f = Inr (P f)"
    using wh by (auto simp: wheel_chains_def ready_def P due_eq)
  have fit: "fits_u64 (length (xs idx) + length fs)" using wheel_chains_fits [OF wh] .
  then have fit1: "fits_u64 (length ([] :: nat list) + length (xs idx))" by (simp add: fits_u64_def)
  have dj: "set ([] :: nat list) \<inter> set (xs idx) = {}" by simp
  obtain h1 q1 rq where f: "fetch_nodes (due w now force) (frames w) ?q (Some new_queue)
      = Some (Inr (h1, q1, Some rq))" "chain_rep h1 q1 ?ks"
    "q_tail q1 = (if ?ks = [] then None else q_tail ?q)"
    "queue_rep h1 rq ([] @ filter P (xs idx))" "same_but_links (frames w) h1"
    "\<forall>a. a \<notin> set [] \<union> set (xs idx) \<longrightarrow> h1 a = frames w a"
    by (rule fetch_nodes_chain [OF r(1) new_queue_rep dj fit1 r(4)])
  have keep1: "queue_rep h1 q2 zs" if "set zs \<inter> set (xs idx) = {}" "queue_rep (frames w) q2 zs" for q2 zs
    by (rule queue_rep_agree [OF that(2)]) (use that(1) f(6) in auto)
  have "queue_rep h1 (coroutine_queue w) fs" using keep1 [OF _ r(2)] r(3) by (simp add: Int_commute)
  moreover have "queue_rep h1 rq (filter P (xs idx))" using f(4) by simp
  moreover have "set (filter P (xs idx)) \<inter> set fs = {}" using r(3) by auto
  moreover have "fits_u64 (length (filter P (xs idx)) + length fs)"
    using fit length_filter_le [of P "xs idx"] unfolding fits_u64_def by linarith
  ultimately obtain h2 rq2 sq where t:
    "transfer queue_empty pop_from_head append_to_tail h1 rq (coroutine_queue w) = Some (Inr (h2, rq2, sq))"
    "queue_rep h2 sq (fs @ filter P (xs idx))" "same_but_links h1 h2"
    "\<forall>a. a \<notin> set (filter P (xs idx)) \<union> set fs \<longrightarrow> loose h2 a = loose h1 a"
    "\<forall>q2 zs. set zs \<inter> (set (filter P (xs idx)) \<union> set fs) = {} \<longrightarrow> queue_rep h1 q2 zs \<longrightarrow> queue_rep h2 q2 zs"
    using cq.transfer_rep [of h1 rq "filter P (xs idx)" "coroutine_queue w" fs] by blast
  have "set ?ks \<inter> (set (filter P (xs idx)) \<union> set fs) = {}" using r(3) by auto
  with t(5) f(2) have ch: "chain_rep h2 q1 ?ks" unfolding chain_rep_queue_rep by blast
  let ?ts = "ts\<lparr>buckets := (buckets ts)(idx := (buckets ts idx)\<lparr>scan_over_ts := now, waiting_queue := q1\<rparr>)\<rparr>"
  let ?w = "w\<lparr>frames := h2, coroutine_queue := sq\<rparr>"
  have other: "queue_rep h2 q zs" if "set zs \<inter> (set fs \<union> set (xs idx)) = {}" "queue_rep (frames w) q zs" for q zs
  proof -
    have "queue_rep h1 q zs" using that by (intro keep1) auto
    moreover have "set zs \<inter> (set (filter P (xs idx)) \<union> set fs) = {}" using that(1) by auto
    ultimately show ?thesis using t(5) by blast
  qed
  have "wakeup_frame_on_bucket now idx force ts w = Some (Inr (?ts, ?w))"
    using f(1) t(1) by (simp add: wakeup_frame_on_bucket_def Let_def)
  moreover have "same_but_links (frames w) h2" using f(5) t(3) by (rule same_but_links_trans)
  moreover have "\<forall>a. a \<notin> set fs \<union> set (xs idx) \<longrightarrow> loose h2 a = loose (frames w) a"
    using t(4) f(6) by (simp add: loose_def)
  ultimately show thesis
    by (intro that [of ?ts ?w]) (use t(2) other ch f(3) in \<open>simp_all add: ready_def\<close>)
qed

lemma wakeup_rep:
  assumes wh: "wheel A ts w xs fs"
    and P: "P = (\<lambda>f. wake_of w f \<le> now \<or> force)"
  obtains ts' w' where "wakeup_frame_on_bucket now idx force ts w = Some (Inr (ts', w'))"
    and "ready w' (fs @ filter P (xs idx))"
    and "\<forall>i. i \<noteq> idx \<longrightarrow> buckets ts' i = buckets ts i \<and>
      queue_rep (frames w') (waiting_queue (buckets ts' i)) (xs i)"
    and "chain_rep (frames w') (waiting_queue (buckets ts' idx)) (filter (\<lambda>f. \<not> P f) (xs idx))"
    and "q_tail (waiting_queue (buckets ts' idx)) =
      (if filter (\<lambda>f. \<not> P f) (xs idx) = [] then None else Some (last (xs idx)))"
    and "scan_over_ts (buckets ts' idx) = now" and "precision ts' = precision ts"
    and "start_bukcet_run_ts ts' = start_bukcet_run_ts ts"
    and "same_but_links (frames w) (frames w')" and "locals w' = locals w"
    and "\<forall>a. a \<notin> set fs \<union> set (xs idx) \<longrightarrow> loose (frames w') a = loose (frames w) a"
proof -
  obtain ts' w' where s: "wakeup_frame_on_bucket now idx force ts w = Some (Inr (ts', w'))"
    "ready w' (fs @ filter P (xs idx))" "\<forall>i. i \<noteq> idx \<longrightarrow> buckets ts' i = buckets ts i"
    "\<forall>q zs. set zs \<inter> (set fs \<union> set (xs idx)) = {} \<longrightarrow> queue_rep (frames w) q zs \<longrightarrow> queue_rep (frames w') q zs"
    "chain_rep (frames w') (waiting_queue (buckets ts' idx)) (filter (\<lambda>f. \<not> P f) (xs idx))"
    "q_tail (waiting_queue (buckets ts' idx)) =
      (if filter (\<lambda>f. \<not> P f) (xs idx) = [] then None else q_tail (waiting_queue (buckets ts idx)))"
    "scan_over_ts (buckets ts' idx) = now" "precision ts' = precision ts"
    "start_bukcet_run_ts ts' = start_bukcet_run_ts ts" "same_but_links (frames w) (frames w')" "locals w' = locals w"
    "\<forall>a. a \<notin> set fs \<union> set (xs idx) \<longrightarrow> loose (frames w') a = loose (frames w) a"
    by (rule wakeup_chain [OF wheel_is_chains [OF wh] P])
  have "queue_rep (frames w') (waiting_queue (buckets ts' i)) (xs i)" if "i \<noteq> idx" for i
    using wh that s(3,4) unfolding wheel_def by (simp add: Int_Un_distrib)
  moreover have "filter (\<lambda>f. \<not> P f) (xs idx) \<noteq> [] \<Longrightarrow> q_tail (waiting_queue (buckets ts idx)) = Some (last (xs idx))"
    using wh by (auto simp: wheel_def queue_rep_def)
  ultimately show thesis by (intro that [OF s(1,2) _ s(5) _ s(7-12)]) (use s(3,6) in simp_all)
qed

lemma wakeup_wheel:
  assumes wh: "wheel A ts w xs fs" and P: "P = (\<lambda>f. wake_of w f \<le> now \<or> force)"
    and tail: "filter (\<lambda>f. \<not> P f) (xs idx) = [] \<or> \<not> P (last (xs idx))"
  obtains ts' w' where "wakeup_frame_on_bucket now idx force ts w = Some (Inr (ts', w'))"
    and "wheel A ts' w' (xs(idx := filter (\<lambda>f. \<not> P f) (xs idx))) (fs @ filter P (xs idx))"
    and "same_but_links (frames w) (frames w')" and "locals w' = locals w"
    and "scan_over_ts (buckets ts' idx) = now" and "precision ts' = precision ts"
    and "start_bukcet_run_ts ts' = start_bukcet_run_ts ts"
proof -
  let ?ks = "filter (\<lambda>f. \<not> P f) (xs idx)"
  obtain ts' w' where s: "wakeup_frame_on_bucket now idx force ts w = Some (Inr (ts', w'))"
    "ready w' (fs @ filter P (xs idx))"
    "\<forall>i. i \<noteq> idx \<longrightarrow> buckets ts' i = buckets ts i \<and> queue_rep (frames w') (waiting_queue (buckets ts' i)) (xs i)"
    "chain_rep (frames w') (waiting_queue (buckets ts' idx)) ?ks"
    "q_tail (waiting_queue (buckets ts' idx)) = (if ?ks = [] then None else Some (last (xs idx)))"
    "scan_over_ts (buckets ts' idx) = now" "precision ts' = precision ts"
    "start_bukcet_run_ts ts' = start_bukcet_run_ts ts"
    "same_but_links (frames w) (frames w')" "locals w' = locals w"
    using wakeup_rep [OF wh P] by metis
  have d: "distinct (xs idx)" using wh by (auto simp: wheel_def queue_rep_def chain_rep_def)
  have "queue_rep (frames w') (waiting_queue (buckets ts' idx)) ?ks"
    using s(4,5) tail last_filter_eq [OF d, of "\<lambda>f. \<not> P f"] by (auto simp: queue_rep_def)
  then have q: "\<forall>i. queue_rep (frames w') (waiting_queue (buckets ts' i)) ((xs(idx := ?ks)) i)"
    using s(3) by (metis fun_upd_apply)
  have "\<And>f. has_local w' f = has_local w f" using same_wake [OF s(9,10)] by simp
  moreover have "\<forall>i. set ((xs(idx := ?ks)) i) \<subseteq> set (xs i)" by auto
  moreover have "\<forall>i. set ((xs(idx := ?ks)) i) \<inter> set (fs @ filter P (xs idx)) = {}"
    using wh unfolding wheel_def by auto
  moreover have "set (fs @ filter P (xs idx)) \<subseteq> set fs \<union> (\<Union>i. set (xs i))" by auto
  ultimately have "wheel A ts' w' (xs(idx := ?ks)) (fs @ filter P (xs idx))"
    by (intro wheelI [OF wh s(2) q])
  with s that show thesis by blast
qed

section \<open>Registration on the wheel\<close>

definition bucket_of :: "TimeService \<Rightarrow> u64 \<Rightarrow> nat" where
  "bucket_of ts wake =
     unat (real_bucket_idx (calculated_bucket_idx (precision ts) (start_bukcet_run_ts ts) wake))"

definition missed :: "TimeService \<Rightarrow> u64 \<Rightarrow> bool" where
  "missed ts wake \<longleftrightarrow>
     wake \<le> start_bukcet_run_ts ts \<or> wake \<le> scan_over_ts (buckets ts (bucket_of ts wake))"

definition parked :: "(nat \<Rightarrow> nat list) \<Rightarrow> nat list \<Rightarrow> nat \<Rightarrow> bool" where
  "parked xs fs f \<longleftrightarrow> f \<in> set fs \<or> (\<exists>i. f \<in> set (xs i))"

lemma wheel_room:
  assumes "wheel A ts w xs fs" and "f \<in> A" and "\<not> parked xs fs f"
  shows "fits_u64 (Suc (length (xs i)))" and "fits_u64 (Suc (length fs))"
proof -
  have sub: "insert f (set (xs i)) \<subseteq> A" "insert f (set fs) \<subseteq> A" "finite A" "fits_u64 (card A)"
    and d: "distinct (xs i)" "distinct fs" "f \<notin> set (xs i)" "f \<notin> set fs"
    using assms by (auto simp: wheel_def ready_def queue_rep_def chain_rep_def parked_def)
  have "card (insert f (set (xs i))) \<le> card A" and "card (insert f (set fs)) \<le> card A"
    using sub by (auto intro: card_mono)
  with d sub(4) show "fits_u64 (Suc (length (xs i)))" and "fits_u64 (Suc (length fs))"
    by (simp_all add: distinct_card fits_u64_def)
qed

lemma register_rep:
  assumes wh: "wheel A ts w xs fs" and f: "f \<in> A" "\<not> parked xs fs f" "loose (frames w) f"
    and l: "get_local w f = Inr l" and p: "precision ts \<noteq> 0"
  obtains ts' w' where "register_frame ts w f = Inr (ts', w')"
    and "same_but_links (frames w) (frames w')" and "locals w' = locals w"
    and "if missed ts (wake_up_ts l)
         then ts' = ts \<and> wheel A ts' w' xs (fs @ [f])
         else precision ts' = precision ts \<and> start_bukcet_run_ts ts' = start_bukcet_run_ts ts \<and>
           wheel A ts' w' (xs(bucket_of ts (wake_up_ts l) := xs (bucket_of ts (wake_up_ts l)) @ [f])) fs"
proof (cases "missed ts (wake_up_ts l)")
  case True
  have r: "ready w fs" "f \<notin> set fs" using wh f(2) by (simp_all add: wheel_def parked_def)
  obtain w' where c: "commit_frame w f = Inr w'" "ready w' (fs @ [f])"
    "same_but_links (frames w) (frames w')" "locals w' = locals w"
    "\<forall>q2 ys. set ys \<inter> set fs = {} \<longrightarrow> queue_rep (frames w) q2 ys \<longrightarrow> queue_rep (frames w') q2 ys"
    using commit_frame_ready [OF r f(3) wheel_room(2) [OF wh f(1,2)]] by metis
  have "register_frame ts w f = Inr (ts, w')"
    using True l p c(1) by (auto simp: register_frame_def missed_def bucket_of_def Let_def)
  moreover have "wheel A ts w' xs (fs @ [f])"
  proof -
    have "has_local w' g = has_local w g" for g using same_wake [OF c(3,4)] by simp
    then show ?thesis using wh c(2,5) f(1,2) unfolding wheel_def parked_def by auto
  qed
  ultimately show thesis using that c(3,4) True by simp
next
  case False
  let ?i = "bucket_of ts (wake_up_ts l)" and ?q = "waiting_queue (buckets ts (bucket_of ts (wake_up_ts l)))"
  have r: "queue_rep (frames w) ?q (xs ?i)" "f \<notin> set (xs ?i)"
    using wh f(2) by (auto simp: wheel_def parked_def)
  obtain h' q' where a: "append_to_tail (frames w) ?q f = Inr (h', q')" "queue_rep h' q' (xs ?i @ [f])"
    "same_but_links (frames w) h'"
    "\<forall>q2 ys. set ys \<inter> set (xs ?i) = {} \<longrightarrow> queue_rep (frames w) q2 ys \<longrightarrow> queue_rep h' q2 ys"
    using cq.enq_law [OF r f(3) wheel_room(1) [OF wh f(1,2)]] by metis
  let ?ts = "ts\<lparr>buckets := (buckets ts)(?i := (buckets ts ?i)\<lparr>waiting_queue := q'\<rparr>)\<rparr>"
  let ?w = "w\<lparr>frames := h'\<rparr>" and ?xs = "xs(?i := xs ?i @ [f])"
  have "register_frame ts w f = Inr (?ts, ?w)"
    using False l p a(1) by (auto simp: register_frame_def missed_def bucket_of_def Let_def not_le)
  moreover have "wheel A ?ts ?w ?xs fs"
  proof -
    have "queue_rep (frames w) (coroutine_queue w) fs" and "set fs \<inter> set (xs ?i) = {}"
      using wh by (auto simp: wheel_def ready_def)
    then have "queue_rep h' (coroutine_queue w) fs" using a(4) by simp
    moreover have "queue_rep h' (waiting_queue (buckets ts i)) (xs i)" if "i \<noteq> ?i" for i
    proof -
      have "queue_rep (frames w) (waiting_queue (buckets ts i)) (xs i)" and "set (xs i) \<inter> set (xs ?i) = {}"
        using wh that by (simp_all add: wheel_def)
      then show ?thesis using a(4) by simp
    qed
    ultimately have q: "\<forall>i. queue_rep h' (waiting_queue (buckets ?ts i)) (?xs i)" "ready ?w fs"
      using a(2) by (simp_all add: ready_def del: set_append)
    have h: "has_local ?w g = has_local w g" for g
      using same_wake [of w ?w] a(3) by simp
    have "has_local w f" using l by (simp add: has_local_def)
    then have "\<forall>i. \<forall>g \<in> set (?xs i). has_local ?w g"
      using wh h by (simp add: wheel_def)
    moreover have "set (?xs i) \<inter> set (?xs j) = {}" if "i \<noteq> j" for i j
      using wh f(2) that by (simp add: wheel_def parked_def)
    moreover have "\<forall>i. set (?xs i) \<inter> set fs = {}" and "\<forall>i. set (?xs i) \<subseteq> A"
      using wh f(1,2) by (simp_all add: wheel_def parked_def)
    ultimately show ?thesis using wh q by (simp add: wheel_def)
  qed
  ultimately show thesis using that a(3) False by simp
qed

end
