(* ===== verification/Time_Props.thy ===== *)
theory Time_Props
  imports Time_Service
begin

text \<open>The properties of the time wheel, with a small concrete wheel as their witness.\<close>

section \<open>Lemmas\<close>


lemma sync_release_fields [simp]:
  "in_queue_link_next (sync_release h a b) = in_queue_link_next (h b)"
  "coro_local_var (sync_release h a b) = coro_local_var (h b)"
  by (simp_all add: sync_release_def)




section \<open>Properties\<close>

text \<open>
  The bucket of a sleeping frame is the ceiling of its distance from the round start in
  units of the precision, modulo the 4096 buckets, without any wrap-around: the wake-up time
  lies in the slice of time that ends when the bucket is due.
\<close>

theorem bucket_index_is_ceiling:
  assumes "start < wake" and "prec \<noteq> 0"
  shows "unat start + unat prec * (unat (calculated_bucket_idx prec start wake) - 1) < unat wake \<and>
    unat wake \<le> unat start + unat prec * unat (calculated_bucket_idx prec start wake) \<and>
    unat (real_bucket_idx (calculated_bucket_idx prec start wake))
      = unat (calculated_bucket_idx prec start wake) mod 4096"
proof -
  let ?d = "unat wake - unat start - 1" and ?p = "unat prec"
  have lt: "unat start < unat wake" using assms(1) by (simp add: word_less_nat_alt)
  have p: "0 < ?p" using assms(2) by (simp add: unat_gt_0)
  define e where "e = ?p * (?d div ?p)"
  have "e \<le> ?d" by (simp add: e_def)
  moreover have "?d < e + ?p"
    using dividend_less_div_times [OF p, of ?d] by (simp add: e_def mult.commute add.commute)
  ultimately have "unat start + e < unat wake" and "unat wake \<le> unat start + (e + ?p)"
    using lt by linarith+
  then show ?thesis
    by (simp add: calculated_bucket_idx_nat [OF assms] real_bucket_idx_mod e_def add.commute)
qed

theorem bucket_index_is_ceiling_witness:
  "unat (1000 :: u64) + unat (10 :: u64) * (unat (calculated_bucket_idx 10 1000 1025) - 1) < unat (1025 :: u64) \<and>
    unat (1025 :: u64) \<le> unat (1000 :: u64) + unat (10 :: u64) * unat (calculated_bucket_idx 10 1000 1025) \<and>
    unat (real_bucket_idx (calculated_bucket_idx 10 1000 1025)) = unat (calculated_bucket_idx 10 1000 1025) mod 4096"
  by (rule bucket_index_is_ceiling) simp_all

text \<open>
  C14. A scan of a bucket moves exactly the frames whose wake-up time has come to the end of
  the ready queue, in the order of their registration, and keeps the others; it never fails
  on a well-formed wheel. The wheel stays well-formed when the last frame of the bucket stays
  or all leave.
\<close>

theorem scan_wakes_exactly_the_due:
  assumes "wheel A ts w xs fs"
  shows "\<exists>ts' w'. wakeup_frame_on_bucket now idx force ts w = Some (Inr (ts', w')) \<and>
    ready w' (fs @ filter (\<lambda>f. wake_of w f \<le> now \<or> force) (xs idx)) \<and>
    chain_rep (frames w') (waiting_queue (buckets ts' idx))
      (filter (\<lambda>f. \<not> (wake_of w f \<le> now \<or> force)) (xs idx)) \<and>
    (filter (\<lambda>f. \<not> (wake_of w f \<le> now \<or> force)) (xs idx) = [] \<or>
     \<not> (wake_of w (last (xs idx)) \<le> now \<or> force) \<longrightarrow>
       wheel A ts' w' (xs(idx := filter (\<lambda>f. \<not> (wake_of w f \<le> now \<or> force)) (xs idx)))
         (fs @ filter (\<lambda>f. wake_of w f \<le> now \<or> force) (xs idx)))"
proof -
  obtain ts1 w1 where s: "wakeup_frame_on_bucket now idx force ts w = Some (Inr (ts1, w1))"
    "ready w1 (fs @ filter (\<lambda>f. wake_of w f \<le> now \<or> force) (xs idx))"
    "chain_rep (frames w1) (waiting_queue (buckets ts1 idx))
      (filter (\<lambda>f. \<not> (wake_of w f \<le> now \<or> force)) (xs idx))"
    using wakeup_rep [OF assms refl, of now idx force] by blast
  show ?thesis
  proof (cases "filter (\<lambda>f. \<not> (wake_of w f \<le> now \<or> force)) (xs idx) = [] \<or>
      \<not> (wake_of w (last (xs idx)) \<le> now \<or> force)")
    case True
    from wakeup_wheel [OF assms refl True] s(1)
    have "wheel A ts1 w1 (xs(idx := filter (\<lambda>f. \<not> (wake_of w f \<le> now \<or> force)) (xs idx)))
         (fs @ filter (\<lambda>f. wake_of w f \<le> now \<or> force) (xs idx))"
      by (metis Inr_inject option.inject prod.inject)
    with s show ?thesis by blast
  next
    case False
    with s show ?thesis by blast
  qed
qed

text \<open>A wheel in which frames 5 and 6 wait in bucket 3 until 1030 and 1022.\<close>

definition demo_frames :: heap where
  "demo_frames a = (new_frame a a)\<lparr>coro_local_var := Some a,
     in_queue_link_next := (if a = 5 then Some 6 else None)\<rparr>"

definition demo_locals :: "nat \<Rightarrow> CoroLocalVar option" where
  "demo_locals a = Some \<lparr>coro_id = word_of_nat a, wake_up_ts = (if a = 6 then 1022 else 1030),
     response_info = None\<rparr>"

definition demo_world :: world where
  "demo_world = \<lparr>frames = demo_frames, live = (\<lambda>_. True), locals = demo_locals, next_id = 9,
     coroutine_queue = new_queue\<rparr>"

definition demo_wheel :: TimeService where
  "demo_wheel = (new_TimeService 10 1000)\<lparr>buckets := (\<lambda>_. new_bucket)
     (3 := new_bucket\<lparr>waiting_queue := \<lparr>q_head = Some 5, q_tail = Some 6, q_size = 2\<rparr>\<rparr>)\<rparr>"

definition demo_parked :: "nat \<Rightarrow> nat list" where
  "demo_parked i = (if i = 3 then [5, 6] else [])"

lemmas demo_wheel_simps = demo_frames_def demo_locals_def demo_world_def demo_wheel_def demo_parked_def
  new_frame_def new_TimeService_def new_bucket_def

lemma demo_local: "get_local demo_world a = Inr \<lparr>coro_id = word_of_nat a,
    wake_up_ts = (if a = 6 then 1022 else 1030), response_info = None\<rparr>"
  by (simp add: get_local_def demo_wheel_simps)

lemma demo_wake: "wake_of demo_world a = (if a = 6 then 1022 else 1030)"
  by (simp add: wake_of_def demo_local)

lemma demo_wheel_ok: "wheel {5, 6, 7} demo_wheel demo_world demo_parked []"
proof -
  have "queue_rep (frames demo_world) \<lparr>q_head = Some 5, q_tail = Some 6, q_size = 2\<rparr> [5, 6]"
    by (simp add: queue_rep_def chain_rep_def demo_wheel_simps)
  moreover have "queue_rep (frames demo_world) new_queue []" by (rule new_queue_rep)
  ultimately have "queue_rep (frames demo_world) (waiting_queue (buckets demo_wheel i)) (demo_parked i)" for i
    by (simp add: demo_wheel_def demo_parked_def new_bucket_def)
  moreover have "has_local demo_world a" for a by (simp add: has_local_def demo_local)
  moreover have "ready demo_world []"
    using new_queue_rep [of demo_frames] by (simp add: ready_def demo_world_def)
  moreover have "set (demo_parked i) \<inter> set (demo_parked j) = {}" if "i \<noteq> j" for i j
    using that by (auto simp: demo_parked_def)
  moreover have "set (demo_parked i) \<subseteq> {5, 6, 7}" for i by (auto simp: demo_parked_def)
  ultimately show ?thesis by (simp add: wheel_def fits_u64_def)
qed

lemma demo_local7:
  "get_local demo_world 7 = Inr \<lparr>coro_id = 7, wake_up_ts = 1030, response_info = None\<rparr>"
  by (simp add: demo_local)

lemma demo_free: "7 \<in> {5, 6, 7 :: nat}" "\<not> parked demo_parked [] 7" "loose (frames demo_world) 7"
  "precision demo_wheel \<noteq> 0"
  by (simp_all add: parked_def demo_parked_def loose_def demo_world_def demo_frames_def
      new_frame_def demo_wheel_def new_TimeService_def)

theorem scan_wakes_exactly_the_due_witness:
  "\<exists>ts' w'. wakeup_frame_on_bucket 1025 3 False demo_wheel demo_world = Some (Inr (ts', w')) \<and>
    ready w' [6] \<and> chain_rep (frames w') (waiting_queue (buckets ts' 3)) [5]"
  using scan_wakes_exactly_the_due [OF demo_wheel_ok, of 1025 3 False]
  by (auto simp: demo_parked_def demo_wake)

text \<open>
  A registered frame ends in exactly one queue: ready at once when the round start or the
  last scan of its bucket is not before its wake-up time, in its bucket otherwise. No other
  frame moves.
\<close>

theorem register_parks_frame_once:
  assumes "wheel A ts w xs fs" and "f \<in> A" and "\<not> parked xs fs f" and "loose (frames w) f"
    and "get_local w f = Inr l" and "precision ts \<noteq> 0"
  shows "\<exists>ts' w'. register_frame ts w f = Inr (ts', w') \<and>
    (if missed ts (wake_up_ts l) then wheel A ts' w' xs (fs @ [f])
     else wheel A ts' w' (xs(bucket_of ts (wake_up_ts l) := xs (bucket_of ts (wake_up_ts l)) @ [f])) fs)"
  by (rule register_rep [OF assms]) (auto split: if_splits)

theorem register_parks_frame_once_witness:
  "\<exists>ts' w'. register_frame demo_wheel demo_world 7 = Inr (ts', w') \<and>
    (if missed demo_wheel 1030 then wheel {5, 6, 7} ts' w' demo_parked ([] @ [7])
     else wheel {5, 6, 7} ts' w'
       (demo_parked(bucket_of demo_wheel 1030 := demo_parked (bucket_of demo_wheel 1030) @ [7])) [])"
  using register_parks_frame_once [OF demo_wheel_ok demo_free(1-3) demo_local7 demo_free(4)]
  by (simp only: CoroLocalVar.select_convs)






lemma drain_list:
  assumes "wheel A ts w xs fs" and "distinct is"
  shows "\<exists>ts' w'. drain clock is ts w = Some (Inr (ts', w')) \<and>
    wheel A ts' w' (\<lambda>i. if i \<in> set is then [] else xs i) (fs @ concat (map xs is))"
  using assms
proof (induction "is" arbitrary: ts w xs fs)
  case Nil
  then show ?case by simp
next
  case (Cons i "is")
  obtain ts1 w1 where s: "wakeup_frame_on_bucket (clock i) i True ts w = Some (Inr (ts1, w1))"
    "wheel A ts1 w1 (xs(i := [])) (fs @ xs i)"
    by (rule wakeup_wheel [OF Cons.prems(1), of "\<lambda>_. True" "clock i" True i]) simp_all
  have m: "map (xs(i := [])) is = map xs is" using Cons.prems(2) by auto
  have e: "(\<lambda>j. if j \<in> set is then [] else (xs(i := [])) j) = (\<lambda>j. if j \<in> set (i # is) then [] else xs j)"
    by auto
  obtain ts2 w2 where d: "drain clock is ts1 w1 = Some (Inr (ts2, w2))"
    "wheel A ts2 w2 (\<lambda>j. if j \<in> set is then [] else (xs(i := [])) j)
      ((fs @ xs i) @ concat (map (xs(i := [])) is))"
    using Cons.IH [OF s(2)] Cons.prems(2) unfolding distinct.simps by blast
  with s(1) show ?case unfolding m e by simp
qed

text \<open>
  When the service stops, the drain forces every frame out: the buckets are empty and
  all frames that waited are ready, bucket by bucket in registration order, due or not.
\<close>

theorem stop_drains_every_bucket:
  assumes "wheel A ts w xs fs"
  shows "\<exists>ts' w'. drain clock [0..<unat BUCKET_NUM] ts w = Some (Inr (ts', w')) \<and>
    ready w' (fs @ concat (map xs [0..<4096])) \<and>
    (\<forall>i < 4096. queue_empty (waiting_queue (buckets ts' i)))"
proof -
  obtain ts' w' where d: "drain clock [0..<4096] ts w = Some (Inr (ts', w'))"
    "wheel A ts' w' (\<lambda>i. if i \<in> set [0..<4096] then [] else xs i) (fs @ concat (map xs [0..<4096]))"
    using drain_list [OF assms distinct_upt, of clock 0 4096] by blast
  have "queue_rep (frames w') (waiting_queue (buckets ts' i)) []" if "i < 4096" for i
  proof -
    have "queue_rep (frames w') (waiting_queue (buckets ts' i)) (if i \<in> set [0..<4096] then [] else xs i)"
      using d(2) unfolding wheel_def by blast
    with that show ?thesis by simp
  qed
  then have "\<forall>i < 4096. queue_empty (waiting_queue (buckets ts' i))" using queue_rep_empty by blast
  moreover have "unat BUCKET_NUM = 4096" by (simp add: BUCKET_NUM_def)
  ultimately show ?thesis using d by (simp add: wheel_def)
qed

theorem stop_drains_every_bucket_witness:
  "\<exists>ts' w'. drain (\<lambda>_. 1001) [0..<unat BUCKET_NUM] demo_wheel demo_world = Some (Inr (ts', w')) \<and>
    ready w' ([] @ concat (map demo_parked [0..<4096])) \<and>
    (\<forall>i < 4096. queue_empty (waiting_queue (buckets ts' i)))"
  by (rule stop_drains_every_bucket [OF demo_wheel_ok])

text \<open>
  The stale tail pointer reaches the scheduler: when a scan takes the last frame \<open>y\<close> of a
  bucket and leaves an earlier one, the next frame that is parked in this bucket is linked
  behind \<open>y\<close>, which by then is in the ready queue; the worker that takes \<open>y\<close> from there
  fails the assertion of \<open>pop_from_head\<close> and aborts the process.
\<close>

theorem stale_tail_aborts_worker:
  assumes "wheel A ts w xs []" and "xs idx = ps @ [y]" and "ps \<noteq> []"
    and "\<forall>p \<in> set ps. \<not> wake_of w p \<le> now" and "wake_of w y \<le> now"
    and "z \<in> A" and "\<not> parked xs [] z" and "loose (frames w) z" and "get_local w z = Inr l"
    and "precision ts \<noteq> 0" and "bucket_of ts (wake_up_ts l) = idx"
    and "start_bukcet_run_ts ts < wake_up_ts l" and "now < wake_up_ts l"
  shows "\<exists>ts1 w1 ts2 w2. wakeup_frame_on_bucket now idx False ts w = Some (Inr (ts1, w1)) \<and>
    register_frame ts1 w1 z = Inr (ts2, w2) \<and>
    pop_from_head (frames w2) (coroutine_queue w2) = Inl Assert_failed"
proof -
  have y: "y \<notin> set ps" using assms(1,2) by (auto simp: wheel_def queue_rep_def chain_rep_def
        dest!: spec [where x = idx])
  have due: "filter (\<lambda>f. wake_of w f \<le> now \<or> False) (xs idx) = [y]"
    and stay: "filter (\<lambda>f. \<not> (wake_of w f \<le> now \<or> False)) (xs idx) = ps"
    using assms(2,4,5) by (auto simp: filter_empty_conv intro: filter_True)
  obtain ts1 w1 where s: "wakeup_frame_on_bucket now idx False ts w = Some (Inr (ts1, w1))"
    "ready w1 [y]" "chain_rep (frames w1) (waiting_queue (buckets ts1 idx)) ps"
    "q_tail (waiting_queue (buckets ts1 idx)) = Some y" "scan_over_ts (buckets ts1 idx) = now"
    "precision ts1 = precision ts" "start_bukcet_run_ts ts1 = start_bukcet_run_ts ts"
    "same_but_links (frames w) (frames w1)" "locals w1 = locals w"
    "\<forall>a. a \<notin> set [] \<union> set (xs idx) \<longrightarrow> loose (frames w1) a = loose (frames w) a"
    by (rule wakeup_rep [OF assms(1) refl, of now idx False, unfolded due stay])
      (use assms(2,3) in simp)
  let ?q = "waiting_queue (buckets ts1 idx)"
  have "z \<notin> set (xs idx)" using assms(7) by (auto simp: parked_def)
  then have lz: "in_queue_link_next (frames w1 z) = None" and zy: "z \<noteq> y"
    using s(10) assms(2,8) by (auto simp: loose_def)
  have "\<not> queue_empty ?q" using chain_rep_sizes [OF s(3)] assms(3) by simp
  then have ap: "append_to_tail (frames w1) ?q z
      = Inr (set_link (frames w1) y (Some z), ?q\<lparr>q_tail := Some z, q_size := q_size ?q + 1\<rparr>)"
    using s(4) lz by (simp add: append_to_tail_def)
  have gl: "get_local w1 z = Inr l" using get_local_same [OF s(8,9)] assms(9) by simp
  have bk: "unat (real_bucket_idx (calculated_bucket_idx (precision ts1) (start_bukcet_run_ts ts1)
      (wake_up_ts l))) = idx"
    using assms(11) s(6,7) by (simp add: bucket_of_def)
  let ?q' = "?q\<lparr>q_tail := Some z, q_size := q_size ?q + 1\<rparr>"
  have "\<not> wake_up_ts l \<le> start_bukcet_run_ts ts1" and "\<not> wake_up_ts l \<le> scan_over_ts (buckets ts1 idx)"
    and "precision ts1 \<noteq> 0"
    using assms(10,12,13) s(5-7) by (simp_all add: not_le)
  then have "register_frame ts1 w1 z
      = Inr (ts1\<lparr>buckets := (buckets ts1)(idx := (buckets ts1 idx)\<lparr>waiting_queue := ?q'\<rparr>)\<rparr>,
             w1\<lparr>frames := set_link (frames w1) y (Some z)\<rparr>)"
    unfolding register_frame_def gl Let_def andthen_simps bk by (simp add: ap)
  moreover have "q_head (coroutine_queue w1) = Some y" and "q_tail (coroutine_queue w1) = Some y"
    using s(2) by (simp_all add: ready_def queue_rep_def chain_rep_def)
  then have "pop_from_head (set_link (frames w1) y (Some z)) (coroutine_queue w1) = Inl Assert_failed"
    by (simp add: pop_from_head_def)
  ultimately show ?thesis using s(1) by auto
qed

theorem stale_tail_aborts_worker_witness:
  "\<exists>ts1 w1 ts2 w2. wakeup_frame_on_bucket 1025 3 False demo_wheel demo_world = Some (Inr (ts1, w1)) \<and>
    register_frame ts1 w1 7 = Inr (ts2, w2) \<and>
    pop_from_head (frames w2) (coroutine_queue w2) = Inl Assert_failed"
proof (rule stale_tail_aborts_worker [OF demo_wheel_ok _ _ _ _ demo_free(1-3) demo_local7 demo_free(4)])
  show "demo_parked 3 = [5] @ [6]" by (simp add: demo_parked_def)
  have "unat (calculated_bucket_idx 10 1000 1030) = 3"
    by (subst calculated_bucket_idx_nat) simp_all
  then show "bucket_of demo_wheel (wake_up_ts \<lparr>coro_id = 7, wake_up_ts = 1030, response_info = None\<rparr>) = 3"
    by (simp add: bucket_of_def real_bucket_idx_mod demo_wheel_def new_TimeService_def)
qed (simp_all add: demo_wake demo_wheel_def new_TimeService_def)

text \<open>
  The loop scans no bucket before it is due: when the pause that a turn asks for is
  waited out, the next turn, unless it starts a new round, scans bucket \<open>idx\<close> at or after
  round start plus \<open>idx\<close> units of the precision. The index runs through the 4096 buckets
  cyclically.
\<close>

theorem loop_scans_bucket_when_due:
  assumes "idx < BUCKET_NUM"
    and "loop_turn t1 t2 t3 idx ts w = Some (Inr (idx', ts', w', pause))"
    and "unat (start_bukcet_run_ts ts') + unat (precision ts) * 4096 < 18446744073709551616"
    and "unat t3 + (case pause of None \<Rightarrow> 0 | Some d \<Rightarrow> unat d) \<le> unat (t2' :: u64)"
    and "unat idx' + 1 < 4096"
  shows "unat idx' = (unat idx + 1) mod 4096 \<and> unat (next_idx idx') = unat idx' + 1 \<and>
    unat (start_bukcet_run_ts ts') + unat (precision ts) * unat (next_idx idx') \<le> unat t2'"
proof -
  have i: "idx' = next_idx idx" using assms(2)
    by (auto simp: loop_turn_def Let_def seq_opt_def split: option.splits sum.splits)
  have m: "unat idx' = (unat idx + 1) mod 4096" using next_idx_mod [OF assms(1)] i by simp
  have n: "unat (next_idx idx') = unat idx' + 1"
    using next_idx_mod [of idx'] assms(5) by (simp add: BUCKET_NUM_def word_less_nat_alt)
  have pr: "wakeup_frame_on_bucket now k force ts0 w0 = Some (Inr (ts1, w1)) \<Longrightarrow> precision ts1 = precision ts0"
    for now k force ts0 w0 ts1 w1
    by (auto simp: wakeup_frame_on_bucket_def Let_def seq_opt_def split: option.splits sum.splits)
  have p: "precision ts' = precision ts"
    using assms(2) by (auto simp: loop_turn_def Let_def seq_opt_def split: option.splits sum.splits if_splits
        dest!: pr)
  define nr where "nr = start_bukcet_run_ts ts' + precision ts * (idx' + 1)"
  have pause: "pause = (if t3 \<ge> nr then None else Some (nr - t3))"
    using assms(2) p by (auto simp: nr_def loop_turn_def Let_def seq_opt_def
        split: option.splits sum.splits if_splits)
  have i1: "unat (idx' + 1) = unat idx' + 1" using assms(5) by (simp add: unat_word_ariths)
  have b: "unat (precision ts) * (unat idx' + 1) \<le> unat (precision ts) * 4096"
    using assms(5) by (intro mult_le_mono2) simp
  have e: "2 ^ LENGTH(64) = (18446744073709551616 :: nat)" by simp
  from b assms(3) have lt: "unat (start_bukcet_run_ts ts') + unat (precision ts) * (unat idx' + 1) < 2 ^ LENGTH(64)"
    unfolding e by (rule le_less_trans [OF add_left_mono])
  then have "unat (precision ts * (idx' + 1)) = unat (precision ts) * (unat idx' + 1)"
    unfolding unat_word_ariths(2) i1 by (intro mod_less) linarith
  with lt have "unat nr = unat (start_bukcet_run_ts ts') + unat (precision ts) * (unat idx' + 1)"
    unfolding nr_def unat_word_ariths(1) by (simp only: mod_less)
  moreover have "unat nr \<le> unat t2'"
  proof (cases "t3 \<ge> nr")
    case True
    then show ?thesis using assms(4) pause by (simp add: word_le_nat_alt)
  next
    case False
    then have "unat (nr - t3) = unat nr - unat t3" and "unat t3 < unat nr"
      by (simp_all add: unat_diff_u64 not_le word_less_nat_alt)
    then show ?thesis using assms(4) pause False by simp
  qed
  ultimately show ?thesis using m n by simp
qed

theorem loop_scans_bucket_when_due_witness:
  "\<exists>idx' ts' w' pause. loop_turn 0 1025 1026 2 demo_wheel demo_world = Some (Inr (idx', ts', w', pause)) \<and>
    unat idx' = 3 \<and> unat (start_bukcet_run_ts ts') + unat (precision demo_wheel) * unat (next_idx idx') \<le> 1040"
proof -
  have n: "unat (next_idx 2) = 3" using next_idx_mod [of 2] by (simp add: BUCKET_NUM_def)
  obtain ts1 w1 where s: "wakeup_frame_on_bucket 1025 3 False demo_wheel demo_world = Some (Inr (ts1, w1))"
    "precision ts1 = precision demo_wheel" "start_bukcet_run_ts ts1 = start_bukcet_run_ts demo_wheel"
    by (rule wakeup_rep [OF demo_wheel_ok refl, of 1025 3 False])
  have w: "next_idx 2 = 3" using n by (simp add: word_unat_eq_iff)
  have t: "loop_turn 0 1025 1026 2 demo_wheel demo_world = Some (Inr (3, ts1, w1, Some 14))"
    using s by (simp add: loop_turn_def w demo_wheel_def new_TimeService_def)
  have "unat (start_bukcet_run_ts ts1) + unat (precision demo_wheel) * unat (next_idx 3) \<le> unat (1040 :: u64)"
    using loop_scans_bucket_when_due [OF _ t, of 1040] s(3)
    by (simp add: BUCKET_NUM_def demo_wheel_def new_TimeService_def)
  with t show ?thesis by auto
qed

end
