(* ===== verification/Coro_Task.thy ===== *)
theory Coro_Task
  imports Local_Var Net_Props
begin

text \<open>
  Coroutine tasks (\<open>src/src/coroutine_framework/task.h\<close>, \<open>task.ipp\<close>, \<open>task.cpp\<close>): the
  reference counted handle \<open>CoroTask\<close>, the awaitables that run when a coroutine starts, calls
  another one and ends, and the response a remotely called coroutine sends.
\<close>

section \<open>State\<close>

text \<open>
  \<open>finished\<close> is \<open>handle.done()\<close>: the coroutine is suspended at its final suspend point.
  \<open>result\<close> is \<open>result_\<close> of a frame. \<open>outbox\<close> are the buffers handed to
  \<open>commit_send_response_task\<close>, \<open>running_cnt\<close> is the scheduler's \<open>running_coro_cnt_\<close> that
  \<open>frame_running_cnt_\<close> of a committed frame points to.
\<close>

record tstate =
  tw :: world
  finished :: "nat \<Rightarrow> bool"
  result :: "nat \<Rightarrow> cval"
  outbox :: "(EndPoint \<times> bytes) list"
  running_cnt :: u64

text \<open>
  The process: its codec, its listening port, and the contents of fresh \<open>std::byte\<close> arrays.
\<close>

record process =
  pr_codec :: codec
  pr_port :: u16
  pr_fresh :: "nat \<Rightarrow> bytes"

section \<open>Reference counts and handles\<close>

text \<open>\<open>dec\<close> returns what \<open>fetch_sub\<close> returns: the value before.\<close>

definition ref_inc :: "heap \<Rightarrow> nat \<Rightarrow> heap" where
  "ref_inc h a = h(a := (h a)\<lparr>ref_cnt := ref_cnt (h a) + 1\<rparr>)"

definition ref_dec :: "heap \<Rightarrow> nat \<Rightarrow> u64 \<times> heap" where
  "ref_dec h a = (ref_cnt (h a), h(a := (h a)\<lparr>ref_cnt := ref_cnt (h a) - 1\<rparr>))"

definition destroy_handle :: "world \<Rightarrow> nat \<Rightarrow> fault + world" where
  "destroy_handle w a =
     andthen (destroy_frame (frames w) a) (\<lambda>h. Inr (w\<lparr>frames := h, live := (live w)(a := False)\<rparr>))"

text \<open>\<open>if (ref_cnt_.dec() == 0) handle_.destroy()\<close>\<close>

definition release :: "world \<Rightarrow> nat \<Rightarrow> fault + world" where
  "release w a =
     (case ref_dec (frames w) a of
        (n, h) \<Rightarrow> if n = 0 then destroy_handle (w\<lparr>frames := h\<rparr>) a else Inr (w\<lparr>frames := h\<rparr>))"

text \<open>A \<open>CoroTask\<close> is its \<open>promise_\<close> pointer.\<close>

definition task_of_handle :: "nat \<Rightarrow> cptr" where
  "task_of_handle a = Some a"

definition task_copy :: "world \<Rightarrow> cptr \<Rightarrow> fault + (cptr \<times> world)" where
  "task_copy w rhs =
     (case rhs of None \<Rightarrow> Inl Ub_null_deref
                | Some a \<Rightarrow> Inr (rhs, w\<lparr>frames := ref_inc (frames w) a\<rparr>))"

definition task_copy_assign :: "bool \<Rightarrow> world \<Rightarrow> cptr \<Rightarrow> cptr \<Rightarrow> fault + (cptr \<times> world)" where
  "task_copy_assign self w this rhs =
     (if self then Inr (this, w)
      else (case rhs of None \<Rightarrow> Inl Ub_null_deref
                      | Some a \<Rightarrow> Inr (rhs, w\<lparr>frames := ref_inc (frames w) a\<rparr>)))"

definition task_move :: "cptr \<Rightarrow> cptr \<times> cptr" where
  "task_move rhs = (rhs, None)"

definition task_move_assign :: "bool \<Rightarrow> cptr \<Rightarrow> cptr \<Rightarrow> cptr \<times> cptr" where
  "task_move_assign self this rhs = (if self then (this, rhs) else (this, None))"

definition task_drop :: "world \<Rightarrow> cptr \<Rightarrow> fault + world" where
  "task_drop w this = (case this of None \<Rightarrow> Inr w | Some a \<Rightarrow> release w a)"

definition task_done :: "tstate \<Rightarrow> cptr \<Rightarrow> fault + bool" where
  "task_done s this = (case this of None \<Rightarrow> Inl Ub_null_deref | Some a \<Rightarrow> Inr (finished s a))"

text \<open>\<open>wait\<close> returns when the flag is set: \<open>True\<close> is a wait that is over.\<close>

definition task_wait :: "tstate \<Rightarrow> cptr \<Rightarrow> fault + bool" where
  "task_wait s this =
     (case this of None \<Rightarrow> Inl Ub_null_deref | Some a \<Rightarrow> Inr (done_flag (frames (tw s) a)))"

definition task_reset :: "cptr \<Rightarrow> cptr" where
  "task_reset this = None"

definition get_result :: "tstate \<Rightarrow> cptr \<Rightarrow> fault + cval" where
  "get_result s this =
     andthen (task_done s this) (\<lambda>d. andthen (check Assert_failed d) (\<lambda>_.
       case this of None \<Rightarrow> Inl Ub_null_deref | Some a \<Rightarrow> Inr (result s a)))"

section \<open>Creation, call and return\<close>

text \<open>
  A coroutine call makes a frame with a promise and a handle; the body does not run yet
  (\<open>InitialAwaitable::await_ready\<close> is false). \<open>a\<close> is the address of the new frame.
\<close>

definition create_coroutine :: "nat \<Rightarrow> tstate \<Rightarrow> cptr \<times> tstate" where
  "create_coroutine a s =
     (task_of_handle a, s\<lparr>tw := (tw s)\<lparr>frames := (frames (tw s))(a := new_frame a a),
        live := (live (tw s))(a := True)\<rparr>, finished := (finished s)(a := False)\<rparr>)"

text \<open>\<open>l\<close> is the address of a \<open>CoroLocalVar\<close> that is allocated when there is none.\<close>

definition initial_resume :: "nat \<Rightarrow> world \<Rightarrow> nat \<Rightarrow> world" where
  "initial_resume l w a =
     (if coro_local_var (frames w a) = None
      then (case new_CoroLocalVar (next_id w) of
              (v, i) \<Rightarrow> w\<lparr>locals := (locals w)(l \<mapsto> v), next_id := i,
                frames := (frames w)(a := (frames w a)\<lparr>coro_local_var := Some l\<rparr>)\<rparr>)
      else w)"

definition await_transform :: "world \<Rightarrow> nat \<Rightarrow> cptr \<Rightarrow> fault + world" where
  "await_transform w caller task =
     (case task of
        None \<Rightarrow> Inl Ub_null_deref
      | Some b \<Rightarrow>
          andthen (link_next (frames w) caller b) (\<lambda>h.
            Inr (w\<lparr>frames := h(b := (h b)\<lparr>coro_local_var := coro_local_var (h caller)\<rparr>)\<rparr>)))"

definition prepare_buffer :: "process \<Rightarrow> ResponseInfo \<Rightarrow> int \<Rightarrow> fault + sbuf" where
  "prepare_buffer p ri payload =
     andthen (set_message_type MT_RESPONSE
       (PackageHeader_new 1 (response_rpc_type ri) (response_to_coro_id ri) (pr_port p)
         (word_of_int payload))) (\<lambda>header.
     let header_size = get_serialize_size (pr_codec p) header_ty (header_val header);
         serialize_size = to_u64 (header_size + payload)
     in andthen (serialize (pr_codec p) header_ty (header_val header) (to_i64 serialize_size)
            \<lparr>sb_bytes = pr_fresh p (nat serialize_size), sb_pos = 0\<rparr>) (\<lambda>s.
        andthen (check Assert_failed (sb_pos s = header_size)) (\<lambda>_. Inr s)))"

definition make_response :: "process \<Rightarrow> ResponseInfo \<Rightarrow> cty \<Rightarrow> cval \<Rightarrow> fault + bytes" where
  "make_response p ri t v =
     (let n = get_serialize_size (pr_codec p) t v in
      andthen (prepare_buffer p ri n) (\<lambda>s.
      andthen (serialize (pr_codec p) t v (int (length (sb_bytes s))) s) (\<lambda>s. Inr (sb_bytes s))))"

text \<open>\<open>await_suspend\<close> of the final awaitable is \<open>noexcept\<close>: an exception ends the process.\<close>

definition noexcept :: "fault + 'a \<Rightarrow> fault + 'a" where
  "noexcept m = (case m of
     Inl f \<Rightarrow> Inl (if f = Out_of_range \<or> f = Length_error \<or> f = Bad_expected_access then Aborted else f)
   | Inr x \<Rightarrow> Inr x)"

text \<open>
  The end of coroutine \<open>a\<close>, whose return type is \<open>ret\<close> (\<open>None\<close> for \<open>void\<close>). The first
  component of the result is the frame that runs next, \<open>None\<close> when control goes back to the
  worker.
\<close>

definition final_response :: "process \<Rightarrow> cty option \<Rightarrow> nat \<Rightarrow> tstate \<Rightarrow> fault + tstate" where
  "final_response p ret a s =
     (let w = tw s; set_done = s\<lparr>tw := w\<lparr>frames := (frames w)(a := (frames w a)\<lparr>done_flag := True\<rparr>)\<rparr>\<rparr> in
      case coro_local_var (frames w a) of
        None \<Rightarrow> Inr set_done
      | Some l \<Rightarrow>
          (case locals w l of
             None \<Rightarrow> Inl Ub_out_of_bounds
           | Some v \<Rightarrow>
               (case response_info v of
                  None \<Rightarrow> Inr set_done
                | Some ri \<Rightarrow>
                    (case ret of
                       None \<Rightarrow> Inr s
                     | Some t \<Rightarrow>
                         andthen (noexcept (make_response p ri t (result s a))) (\<lambda>bs.
                           Inr (s\<lparr>outbox := outbox s @ [(response_to_end_point ri, bs)]\<rparr>))))))"

definition delete_local :: "world \<Rightarrow> nat \<Rightarrow> world" where
  "delete_local w a =
     (case coro_local_var (frames w a) of
        None \<Rightarrow> w
      | Some l \<Rightarrow> w\<lparr>locals := (locals w)(l := None),
                   frames := (frames w)(a := (frames w a)\<lparr>coro_local_var := None\<rparr>)\<rparr>)"

definition final_suspend :: "process \<Rightarrow> cty option \<Rightarrow> nat \<Rightarrow> tstate \<Rightarrow> fault + (cptr \<times> tstate)" where
  "final_suspend p ret a s0 =
     (let s = s0\<lparr>finished := (finished s0)(a := True)\<rparr>; h = frames (tw s) in
      if \<not> chain_empty h a
      then (case lc_prev (h a) of
              None \<Rightarrow> Inl Ub_null_deref
            | Some prev \<Rightarrow>
                andthen (remove_self h a) (\<lambda>h'. Inr (Some prev, s\<lparr>tw := (tw s)\<lparr>frames := h'\<rparr>\<rparr>)))
      else
        (let s = (if frame_running_cnt (h a) then s\<lparr>running_cnt := running_cnt s - 1\<rparr> else s) in
         andthen (final_response p ret a s) (\<lambda>s.
         let s = s\<lparr>tw := delete_local (tw s) a\<rparr> in
         andthen (check Assert_failed (finished s a)) (\<lambda>_.
         andthen (release (tw s) a) (\<lambda>w. Inr (None, s\<lparr>tw := w\<rparr>))))))"

definition return_value :: "nat \<Rightarrow> cval \<Rightarrow> tstate \<Rightarrow> tstate" where
  "return_value a v s = s\<lparr>result := (result s)(a := v)\<rparr>"

text \<open>
  \<open>co_await callee(...)\<close> as the compiler expands it: the call makes the frame, the promise of
  the caller links it, control goes to its start. After its end, \<open>MiddleAwaitable\<close> gives the
  result to the caller and its destructor drops the handle.
\<close>

definition co_call :: "nat \<Rightarrow> nat \<Rightarrow> nat \<Rightarrow> tstate \<Rightarrow> fault + tstate" where
  "co_call l caller b s =
     (case create_coroutine b s of
        (task, s) \<Rightarrow>
          andthen (await_transform (tw s) caller task) (\<lambda>w. Inr (s\<lparr>tw := initial_resume l w b\<rparr>)))"

definition co_return :: "process \<Rightarrow> cty option \<Rightarrow> nat \<Rightarrow> cval \<Rightarrow> tstate \<Rightarrow> fault + (cptr \<times> cval \<times> tstate)" where
  "co_return p ret b v s =
     andthen (final_suspend p ret b (return_value b v s)) (\<lambda>(nxt, s).
       case nxt of
         None \<Rightarrow> Inr (None, v, s)
       | Some a \<Rightarrow> andthen (task_drop (tw s) (task_of_handle b)) (\<lambda>w. Inr (Some a, result s b, s\<lparr>tw := w\<rparr>)))"

section \<open>Scheduling a root frame\<close>

text \<open>\<open>CoroScheduler::commit(CoroTask)\<close> of \<open>scheduler.h\<close>.\<close>

datatype commit_result = Has_been_stopped | Committed

definition scheduler_commit :: "bool \<Rightarrow> cptr \<Rightarrow> tstate \<Rightarrow> fault + (commit_result \<times> tstate)" where
  "scheduler_commit stop_flag task s =
     (if stop_flag then Inr (Has_been_stopped, s)
      else (case task of
              None \<Rightarrow> Inl Ub_null_deref
            | Some a \<Rightarrow>
                (let h = ref_inc (frames (tw s)) a;
                     s = s\<lparr>running_cnt := running_cnt s + 1\<rparr>;
                     h = h(a := (h a)\<lparr>frame_running_cnt := True\<rparr>)
                 in andthen (commit_frame ((tw s)\<lparr>frames := h\<rparr>) a) (\<lambda>w.
                      Inr (Committed, s\<lparr>tw := w\<rparr>)))))"

end
