(* ===== verification/Task_Props.thy ===== *)
theory Task_Props
  imports Coro_Task
begin

text \<open>
  The properties of coroutine tasks: calls and returns are a stack, the end of a root frame,
  the response of a remotely called coroutine, and the life time of frames.
\<close>

section \<open>Calls and returns\<close>

datatype call_event = Call nat | Return "cty option" cval

fun run_events :: "process \<Rightarrow> call_event list \<Rightarrow> nat \<times> tstate \<Rightarrow> fault + (nat option \<times> tstate)" where
  "run_events p [] (a, s) = Inr (Some a, s)"
| "run_events p (Call b # es) (a, s) =
     andthen (co_call b a b s) (\<lambda>s. run_events p es (b, s))"
| "run_events p (Return ret v # es) (a, s) =
     andthen (co_return p ret a v s) (\<lambda>(nxt, _, s).
       case nxt of Some c \<Rightarrow> run_events p es (c, s) | None \<Rightarrow> Inr (None, s))"

text \<open>The abstract call stack: a list of frames, the root first.\<close>

fun stack_after :: "call_event list \<Rightarrow> nat list \<Rightarrow> nat list" where
  "stack_after [] xs = xs"
| "stack_after (Call b # es) xs = stack_after es (xs @ [b])"
| "stack_after (Return ret v # es) xs = stack_after es (butlast xs)"

fun calls_ok :: "call_event list \<Rightarrow> nat list \<Rightarrow> bool" where
  "calls_ok [] xs = True"
| "calls_ok (Call b # es) xs = (b \<notin> set xs \<and> calls_ok es (xs @ [b]))"
| "calls_ok (Return ret v # es) xs = (2 \<le> length xs \<and> calls_ok es (butlast xs))"

definition stack_inv :: "tstate \<Rightarrow> nat list \<Rightarrow> nat \<Rightarrow> bool" where
  "stack_inv s xs l \<longleftrightarrow>
     ring (frames (tw s)) xs \<and> (\<forall>x \<in> set xs. coro_local_var (frames (tw s) x) = Some l) \<and>
     (\<forall>x \<in> set (tl xs). ref_cnt (frames (tw s) x) = 1)"

lemma set_link_fields:
  "coro_local_var (set_next h a p b) = coro_local_var (h b)"
  "coro_local_var (set_prev h a p b) = coro_local_var (h b)"
  "ref_cnt (set_next h a p b) = ref_cnt (h b)"
  "ref_cnt (set_prev h a p b) = ref_cnt (h b)"
  "frame_running_cnt (set_next h a p b) = frame_running_cnt (h b)"
  "frame_running_cnt (set_prev h a p b) = frame_running_cnt (h b)"
  by (simp_all add: set_next_def set_prev_def)

lemma link_next_keeps:
  "link_next h a b = Inr h' \<Longrightarrow> coro_local_var (h' x) = coro_local_var (h x) \<and> ref_cnt (h' x) = ref_cnt (h x)"
  by (auto simp: link_next_def Let_def set_link_fields split: option.splits)

lemma remove_self_keeps:
  "remove_self h a = Inr h' \<Longrightarrow> coro_local_var (h' x) = coro_local_var (h x) \<and> ref_cnt (h' x) = ref_cnt (h x) \<and>
    frame_running_cnt (h' x) = frame_running_cnt (h x)"
  by (auto simp: remove_self_def Let_def set_link_fields split: option.splits if_splits)

lemma ring_agree:
  "ring h xs \<Longrightarrow> \<forall>x \<in> set xs. lc_next (h' x) = lc_next (h x) \<and> lc_prev (h' x) = lc_prev (h x) \<Longrightarrow> ring h' xs"
  unfolding ring_def
  by (metis hd_in_set in_set_butlastD last_in_set linked_agree list.set_sel(2))

lemma co_call_stack:
  assumes "stack_inv s xs l" and "b \<notin> set xs"
  shows "\<exists>s'. co_call b (last xs) b s = Inr s' \<and> stack_inv s' (xs @ [b]) l \<and> locals (tw s') = locals (tw s)"
proof -
  let ?h = "(frames (tw s))(b := new_frame b b)"
  have r: "ring (frames (tw s)) xs" and ne: "xs \<noteq> []"
    using assms(1) by (auto simp: stack_inv_def ring_def)
  have r': "ring ?h xs" by (rule ring_agree [OF r]) (use assms(2) in auto)
  obtain h1 where l1: "link_next ?h (last xs) b = Inr h1" "ring h1 (xs @ [b])"
    using link_next_ring [OF r' assms(2)] by blast
  let ?h2 = "h1(b := (h1 b)\<lparr>coro_local_var := coro_local_var (h1 (last xs))\<rparr>)"
  have cl: "coro_local_var (h1 x) = coro_local_var (?h x)" "ref_cnt (h1 x) = ref_cnt (?h x)" for x
    using link_next_keeps [OF l1(1)] by blast+
  have la: "last xs \<in> set xs" "last xs \<noteq> b" using ne assms(2) by auto
  then have lv: "coro_local_var (h1 (last xs)) = Some l"
    using assms(1) cl(1) by (simp add: stack_inv_def)
  have "ring ?h2 (xs @ [b])" by (rule ring_agree [OF l1(2)]) simp
  moreover have "\<forall>x \<in> set (xs @ [b]). coro_local_var (?h2 x) = Some l"
    using lv cl(1) assms by (auto simp: stack_inv_def)
  moreover have "\<forall>x \<in> set (tl (xs @ [b])). ref_cnt (?h2 x) = 1"
    using cl(2) assms ne by (auto simp: stack_inv_def new_frame_def dest: list.set_sel(2))
  ultimately show ?thesis
    using l1(1) lv by (simp add: co_call_def create_coroutine_def task_of_handle_def await_transform_def
        initial_resume_def stack_inv_def)
qed

lemma co_return_stack:
  assumes "stack_inv s (xs @ [b]) l" and "xs \<noteq> []"
  shows "\<exists>s'. co_return p ret b v s = Inr (Some (last xs), v, s') \<and> stack_inv s' xs l \<and>
    locals (tw s') = locals (tw s) \<and> live (tw s') = live (tw s)"
proof -
  let ?h = "frames (tw s)"
  have r: "ring ?h (xs @ [b])" and b: "b \<notin> set xs" and rb: "ref_cnt (?h b) = 1"
    using assms by (auto simp: stack_inv_def ring_def)
  obtain h1 where m: "remove_self ?h b = Inr h1" "ring h1 xs" "lc_prev (?h b) = Some (last xs)"
    using remove_self_ring [OF r assms(2)] by blast
  have cl: "coro_local_var (h1 x) = coro_local_var (?h x)" "ref_cnt (h1 x) = ref_cnt (?h x)" for x
    using remove_self_keeps [OF m(1)] by blast+
  let ?h2 = "h1(b := (h1 b)\<lparr>ref_cnt := ref_cnt (h1 b) - 1\<rparr>)"
  have "ring ?h2 xs" by (rule ring_agree [OF m(2)]) (use b in auto)
  moreover have "\<forall>x \<in> set xs. coro_local_var (?h2 x) = Some l" and "\<forall>x \<in> set (tl xs). ref_cnt (?h2 x) = 1"
    using cl assms b by (auto simp: stack_inv_def dest: list.set_sel(2))
  ultimately show ?thesis
    using m(1,3) ring_callee_not_empty [OF r assms(2)] rb cl(2) [of b]
    by (simp add: co_return_def final_suspend_def return_value_def Let_def task_drop_def
        task_of_handle_def release_def ref_dec_def stack_inv_def)
qed

text \<open>
  C10. Any sequence of coroutine calls and returns that leaves the root on the stack behaves
  like a call stack: it runs without a fault, control is always at the innermost frame, a
  return gives control back to the caller, and all frames of the stack share the local
  variables of the root. The frame of a returned callee is not destroyed.
\<close>

theorem calls_and_returns_refine_a_stack:
  assumes "stack_inv s xs l" and "calls_ok es xs"
  shows "\<exists>s'. run_events p es (last xs, s) = Inr (Some (last (stack_after es xs)), s') \<and>
    stack_inv s' (stack_after es xs) l \<and> locals (tw s') = locals (tw s) \<and>
    (\<forall>a. live (tw s) a \<longrightarrow> live (tw s') a)"
  using assms
proof (induction es arbitrary: s xs)
  case Nil
  then show ?case by simp
next
  case (Cons e es)
  show ?case
  proof (cases e)
    case (Call b)
    obtain s1 where c: "co_call b (last xs) b s = Inr s1" "stack_inv s1 (xs @ [b]) l"
      "locals (tw s1) = locals (tw s)"
      using co_call_stack Cons.prems Call by fastforce
    have "\<forall>a. live (tw s) a \<longrightarrow> live (tw s1) a"
      using c(1) by (auto simp: co_call_def create_coroutine_def await_transform_def initial_resume_def
          andthen_Inr_iff split: option.splits if_splits prod.splits)
    with Cons.IH [OF c(2)] Cons.prems(2) Call c(1,3) show ?thesis by fastforce
  next
    case (Return ret v)
    with Cons.prems(2) have len: "2 \<le> length xs" by simp
    define ys b where "ys = butlast xs" and "b = last xs"
    have x: "xs = ys @ [b]" "ys \<noteq> []"
      using len by (cases xs rule: rev_cases; auto simp: ys_def b_def)+
    obtain s1 where c: "co_return p ret b v s = Inr (Some (last ys), v, s1)" "stack_inv s1 ys l"
      "locals (tw s1) = locals (tw s)" "live (tw s1) = live (tw s)"
      using co_return_stack [of s ys b l] Cons.prems(1) x by blast
    have "calls_ok es ys" using Cons.prems(2) Return x by simp
    with Cons.IH [OF c(2)] Return c x show ?thesis by fastforce
  qed
qed

definition demo_process :: process where
  "demo_process = \<lparr>pr_codec = std_codec Little, pr_port = 8888, pr_fresh = (\<lambda>n. replicate n 0)\<rparr>"

definition demo_tstate :: tstate where
  "demo_tstate = \<lparr>tw = \<lparr>frames = (\<lambda>a. (new_frame a a)\<lparr>coro_local_var := (if a = 5 then Some 3 else None)\<rparr>),
     live = (\<lambda>a. a = 5), locals = [3 \<mapsto> \<lparr>coro_id = 77, wake_up_ts = 0, response_info = None\<rparr>],
     next_id = 78, coroutine_queue = new_queue\<rparr>, finished = (\<lambda>_. False), result = (\<lambda>_. VNull),
     outbox = [], running_cnt = 1\<rparr>"

theorem calls_and_returns_refine_a_stack_witness:
  "\<exists>s'. run_events demo_process [Call 6, Call 7, Return None VNull, Return None VNull] (last [5], demo_tstate)
      = Inr (Some (last [5]), s') \<and> stack_inv s' [5] 3"
  using calls_and_returns_refine_a_stack [of demo_tstate "[5]" 3
      "[Call 6, Call 7, Return None VNull, Return None VNull]" demo_process]
  by (auto simp: stack_inv_def demo_tstate_def new_frame_def ring_def)

section \<open>The end of a root frame\<close>

lemma same_fields:
  assumes "same_but_links h h'"
  shows "ref_cnt (h' a) = ref_cnt (h a)" and "lc_prev (h' a) = lc_prev (h a)"
    and "coro_local_var (h' a) = coro_local_var (h a)"
    and "frame_running_cnt (h' a) = frame_running_cnt (h a)"
proof -
  have "(h' a)\<lparr>in_queue_link_next := None\<rparr> = (h a)\<lparr>in_queue_link_next := None\<rparr>"
    using assms by (simp add: same_but_links_def)
  then have "ref_cnt ((h' a)\<lparr>in_queue_link_next := None\<rparr>) = ref_cnt ((h a)\<lparr>in_queue_link_next := None\<rparr>)"
    and "lc_prev ((h' a)\<lparr>in_queue_link_next := None\<rparr>) = lc_prev ((h a)\<lparr>in_queue_link_next := None\<rparr>)"
    and "coro_local_var ((h' a)\<lparr>in_queue_link_next := None\<rparr>) = coro_local_var ((h a)\<lparr>in_queue_link_next := None\<rparr>)"
    and "frame_running_cnt ((h' a)\<lparr>in_queue_link_next := None\<rparr>) = frame_running_cnt ((h a)\<lparr>in_queue_link_next := None\<rparr>)"
    by simp_all
  then show "ref_cnt (h' a) = ref_cnt (h a)" and "lc_prev (h' a) = lc_prev (h a)"
    and "coro_local_var (h' a) = coro_local_var (h a)"
    and "frame_running_cnt (h' a) = frame_running_cnt (h a)"
    by simp_all
qed

text \<open>What \<open>scheduler_commit\<close> does to a free root frame.\<close>

lemma scheduler_commit_ready:
  assumes "ready (tw s) fs" and "a \<notin> set fs" and "loose (frames (tw s)) a" and "fits_u64 (Suc (length fs))"
  obtains s1 where "scheduler_commit False (Some a) s = Inr (Committed, s1)" and "ready (tw s1) (fs @ [a])"
    and "running_cnt s1 = running_cnt s + 1" and "locals (tw s1) = locals (tw s)"
    and "outbox s1 = outbox s" and "finished s1 = finished s" and "result s1 = result s"
    and "ref_cnt (frames (tw s1) a) = ref_cnt (frames (tw s) a) + 1"
    and "lc_prev (frames (tw s1) a) = lc_prev (frames (tw s) a)"
    and "coro_local_var (frames (tw s1) a) = coro_local_var (frames (tw s) a)"
    and "frame_running_cnt (frames (tw s1) a)" and "next_id (tw s1) = next_id (tw s)"
proof -
  let ?h = "ref_inc (frames (tw s)) a"
  let ?h' = "?h(a := (?h a)\<lparr>frame_running_cnt := True\<rparr>)"
  let ?w = "(tw s)\<lparr>frames := ?h'\<rparr>"
  have "queue_rep ?h' (coroutine_queue (tw s)) fs"
    using assms(1) unfolding ready_def by (rule queue_rep_agree) (simp add: ref_inc_def)
  then have r: "ready ?w fs" by (simp add: ready_def)
  have lo: "loose (frames ?w) a" using assms(3) by (simp add: loose_def ref_inc_def)
  obtain w1 where c: "commit_frame ?w a = Inr w1" "ready w1 (fs @ [a])"
    "same_but_links (frames ?w) (frames w1)" "locals w1 = locals ?w" "next_id w1 = next_id ?w"
    by (rule commit_frame_ready [OF r assms(2) lo assms(4)])
  show thesis
    by (rule that [of "s\<lparr>running_cnt := running_cnt s + 1, tw := w1\<rparr>"])
      (use c same_fields [OF c(3), of a] in \<open>simp_all add: scheduler_commit_def Let_def ref_inc_def\<close>)
qed

text \<open>
  A root frame that a worker runs: committed, no callee linked to it, its local variables at \<open>l\<close>,
  its own reference not given up. The body and other threads may change everything else.
\<close>

definition root_runs :: "tstate \<Rightarrow> nat \<Rightarrow> nat \<Rightarrow> CoroLocalVar \<Rightarrow> bool" where
  "root_runs s a l v \<longleftrightarrow> chain_empty (frames (tw s)) a \<and> frame_running_cnt (frames (tw s) a) \<and>
     coro_local_var (frames (tw s) a) = Some l \<and> locals (tw s) l = Some v \<and> ref_cnt (frames (tw s) a) \<noteq> 0"

lemma root_frame_ends:
  assumes "root_runs s a l v"
  shows "response_info v = None \<Longrightarrow> \<exists>s'. final_suspend p ret a (return_value a x s) = Inr (None, s') \<and>
      task_wait s' (Some a) = Inr True \<and> get_result s' (Some a) = Inr x \<and> outbox s' = outbox s \<and>
      locals (tw s') = (locals (tw s))(l := None) \<and> coro_local_var (frames (tw s') a) = None \<and>
      running_cnt s' = running_cnt s - 1 \<and> live (tw s') = live (tw s)"
    and "response_info v = Some ri \<Longrightarrow> make_response p ri ty x = Inr bs \<Longrightarrow>
      \<exists>s'. final_suspend p (Some ty) a (return_value a x s) = Inr (None, s') \<and>
      outbox s' = outbox s @ [(response_to_end_point ri, bs)] \<and>
      locals (tw s') = (locals (tw s))(l := None) \<and> coro_local_var (frames (tw s') a) = None \<and>
      running_cnt s' = running_cnt s - 1 \<and> live (tw s') = live (tw s)"
  using assms
  by (simp_all add: root_runs_def final_suspend_def chain_empty_def return_value_def Let_def final_response_def
      delete_local_def release_def ref_dec_def task_wait_def get_result_def task_done_def noexcept_def)

text \<open>
  C11. The life of a root frame, in the order of the program. A coroutine that is called and
  committed stands at the end of the shared queue and is counted; when a worker resumes it the
  first time, it gets local variables of its own. And whenever a committed root frame returns \<open>x\<close>,
  whatever its body and other threads did in between: one that the program itself started sets the
  done flag that ends every \<open>wait\<close>, and \<open>get_result\<close> gives \<open>x\<close>; one that was started for a remote
  caller hands the response with \<open>x\<close> to the network service instead; in both cases control goes
  back to the worker, the local variables are deleted and the frame is counted no more.
\<close>

theorem root_end_signals_waiters:
  assumes "ready (tw s) fs" and "a \<notin> set fs" and "fits_u64 (Suc (length fs))"
  shows "(\<exists>s1. scheduler_commit False (fst (create_coroutine a s)) (snd (create_coroutine a s)) = Inr (Committed, s1) \<and>
      ready (tw s1) (fs @ [a]) \<and> running_cnt s1 = running_cnt s + 1 \<and>
      root_runs (s1\<lparr>tw := initial_resume l (tw s1) a\<rparr>) a l
        \<lparr>coro_id = next_id (tw s), wake_up_ts = 0, response_info = None\<rparr>) \<and>
    (\<forall>s2 l v. root_runs s2 a l v \<longrightarrow>
      (response_info v = None \<longrightarrow> (\<exists>s3. final_suspend p ret a (return_value a x s2) = Inr (None, s3) \<and>
        task_wait s3 (Some a) = Inr True \<and> get_result s3 (Some a) = Inr x \<and> outbox s3 = outbox s2 \<and>
        locals (tw s3) = (locals (tw s2))(l := None) \<and> coro_local_var (frames (tw s3) a) = None \<and>
        running_cnt s3 = running_cnt s2 - 1 \<and> live (tw s3) = live (tw s2))) \<and>
      (\<forall>ri ty bs. response_info v = Some ri \<longrightarrow> make_response p ri ty x = Inr bs \<longrightarrow>
        (\<exists>s3. final_suspend p (Some ty) a (return_value a x s2) = Inr (None, s3) \<and>
        outbox s3 = outbox s2 @ [(response_to_end_point ri, bs)] \<and>
        locals (tw s3) = (locals (tw s2))(l := None) \<and> coro_local_var (frames (tw s3) a) = None \<and>
        running_cnt s3 = running_cnt s2 - 1 \<and> live (tw s3) = live (tw s2))))"
proof (rule conjI)
  define s0 where "s0 = snd (create_coroutine a s)"
  have t: "fst (create_coroutine a s) = Some a" by (simp add: create_coroutine_def task_of_handle_def)
  have f0: "frames (tw s0) = (frames (tw s))(a := new_frame a a)" "coroutine_queue (tw s0) = coroutine_queue (tw s)"
    "running_cnt s0 = running_cnt s" "next_id (tw s0) = next_id (tw s)"
    by (simp_all add: s0_def create_coroutine_def)
  have "queue_rep (frames (tw s0)) (coroutine_queue (tw s0)) fs"
    unfolding f0 by (rule queue_rep_agree [OF assms(1) [unfolded ready_def]]) (use assms(2) in auto)
  then have r: "ready (tw s0) fs" by (simp add: ready_def)
  have lo: "loose (frames (tw s0)) a" by (simp add: f0 loose_def new_frame_def)
  obtain s1 where c: "scheduler_commit False (Some a) s0 = Inr (Committed, s1)" "ready (tw s1) (fs @ [a])"
    "running_cnt s1 = running_cnt s0 + 1" "ref_cnt (frames (tw s1) a) = ref_cnt (frames (tw s0) a) + 1"
    "lc_prev (frames (tw s1) a) = lc_prev (frames (tw s0) a)"
    "coro_local_var (frames (tw s1) a) = coro_local_var (frames (tw s0) a)"
    "frame_running_cnt (frames (tw s1) a)" "next_id (tw s1) = next_id (tw s0)"
    by (rule scheduler_commit_ready [OF r assms(2) lo assms(3)])
  show "\<exists>s1. scheduler_commit False (fst (create_coroutine a s)) (snd (create_coroutine a s)) = Inr (Committed, s1) \<and>
      ready (tw s1) (fs @ [a]) \<and> running_cnt s1 = running_cnt s + 1 \<and>
      root_runs (s1\<lparr>tw := initial_resume l (tw s1) a\<rparr>) a l
        \<lparr>coro_id = next_id (tw s), wake_up_ts = 0, response_info = None\<rparr>"
    unfolding t s0_def [symmetric]
    by (rule exI [of _ s1])
      (use c in \<open>simp add: f0 root_runs_def chain_empty_def initial_resume_def new_CoroLocalVar_def new_frame_def\<close>)
qed (use root_frame_ends in blast)

theorem root_end_signals_waiters_witness:
  "\<exists>s1. scheduler_commit False (fst (create_coroutine 6 demo_tstate)) (snd (create_coroutine 6 demo_tstate)) = Inr (Committed, s1) \<and>
    (\<exists>s3. final_suspend demo_process (Some TBool) 6 (return_value 6 (VBool True) (s1\<lparr>tw := initial_resume 4 (tw s1) 6\<rparr>)) = Inr (None, s3) \<and>
      task_wait s3 (Some 6) = Inr True \<and> get_result s3 (Some 6) = Inr (VBool True) \<and> running_cnt s3 = 1)"
proof -
  have r: "ready (tw demo_tstate) []" by (simp add: ready_def demo_tstate_def new_queue_rep)
  have z: "fits_u64 (Suc (length ([] :: nat list)))" "6 \<notin> set ([] :: nat list)" by (simp_all add: fits_u64_def)
  obtain s1 where s1: "scheduler_commit False (fst (create_coroutine 6 demo_tstate)) (snd (create_coroutine 6 demo_tstate)) = Inr (Committed, s1)"
    "running_cnt s1 = running_cnt demo_tstate + 1"
    "root_runs (s1\<lparr>tw := initial_resume 4 (tw s1) 6\<rparr>) 6 4 \<lparr>coro_id = 78, wake_up_ts = 0, response_info = None\<rparr>"
    using conjunct1 [OF root_end_signals_waiters [OF r z(2,1), of 4 demo_process "Some TBool" "VBool True"]] by (auto simp: demo_tstate_def)
  then show ?thesis
    using conjunct2 [OF root_end_signals_waiters [OF r z(2,1), of 4 demo_process "Some TBool" "VBool True"]] s1
    by (fastforce simp: demo_tstate_def)
qed

section \<open>The response of a remote call\<close>

definition response_header :: "process \<Rightarrow> ResponseInfo \<Rightarrow> nat \<Rightarrow> PackageHeader" where
  "response_header p ri n = (PackageHeader_new 1 (response_rpc_type ri) (response_to_coro_id ri) (pr_port p)
     (word_of_nat n))\<lparr>flags := 2\<rparr>"

lemma response_layout:
  assumes "custom_writes ce (cd_custom (pr_codec p))" and "custom_sizes ce (cd_custom (pr_codec p))"
    and "expected_free t" and "has_ty cap t v" and "\<And>n. length (pr_fresh p n) = n"
    and "length (enc ce t v) < 4611686018427387000"
  shows "make_response p ri t v = Inr (header_bytes (response_header p ri (length (enc ce t v))) @ enc ce t v) \<and>
    get_message_type (response_header p ri (length (enc ce t v))) = MT_RESPONSE \<and>
    unat (payload_len (response_header p ri (length (enc ce t v)))) = length (enc ce t v)"
proof -
  let ?n = "length (enc ce t v)" and ?c = "pr_codec p"
  let ?h = "response_header p ri ?n" and ?N = "32 + int (length (enc ce t v))"
  have n: "get_serialize_size ?c t v = int ?n" using get_serialize_size_enc [OF assms(2-4)] .
  have "wire_type MT_RESPONSE" by (simp add: wire_type_def)
  from set_message_type_new [OF this]
  have hd: "set_message_type MT_RESPONSE (PackageHeader_new 1 (response_rpc_type ri) (response_to_coro_id ri)
      (pr_port p) (word_of_int (int ?n))) = Inr ?h"
    by (simp add: response_header_def)
  have u: "to_u64 ?N = ?N" "to_i64 ?N = ?N" "nat ?N = 32 + ?n"
    using assms(6) by (simp_all add: to_i64_id in_i64_def nat_add_distrib)
  let ?buf = "pr_fresh p (32 + ?n)"
  have ok: "sb_ok ?N \<lparr>sb_bytes = ?buf, sb_pos = 0\<rparr>"
    using assms(5,6) by (simp add: sb_ok_def)
  let ?s1 = "\<lparr>sb_bytes = header_bytes ?h @ drop 32 ?buf, sb_pos = 32\<rparr>"
  have "prepare_buffer p ri (int ?n) = Inr ?s1"
    using header_emit [OF ok, of ?c ?h] hd u by (simp add: prepare_buffer_def Let_def emit_def put_def)
  moreover have "length (sb_bytes ?s1) = 32 + ?n" using assms(5) by simp
  moreover have "serialize ?c t v ?N ?s1 = emit (enc ce t v) ?N ?s1"
    by (rule serialize_emit_aux [OF assms(1,4)]) (use assms(5,6) in \<open>simp add: sb_ok_def\<close>)
  then have "serialize ?c t v ?N ?s1 = Inr \<lparr>sb_bytes = header_bytes ?h @ enc ce t v, sb_pos = ?N\<rparr>"
    using assms(5) by (simp add: emit_def put_def)
  ultimately have "make_response p ri t v = Inr (header_bytes ?h @ enc ce t v)"
    using n by (simp add: make_response_def)
  moreover have "get_message_type ?h = MT_RESPONSE"
    by (rule get_message_type_flags(2)) (simp add: response_header_def)
  moreover have "unat (payload_len ?h) = ?n"
    using assms(6) by (simp add: response_header_def PackageHeader_new_def unat_of_nat)
  ultimately show ?thesis by simp
qed

text \<open>
  The response that a remotely called coroutine sends is a response header with the
  caller's coroutine id, the function's id, this process's port and the exact payload
  length, followed by the wire format of the result; its buffer has exactly that size.
\<close>

theorem response_is_header_and_value:
  assumes "custom_writes ce (cd_custom (pr_codec p))" and "custom_sizes ce (cd_custom (pr_codec p))"
    and "expected_free t" and "has_ty cap t v" and "\<And>n. length (pr_fresh p n) = n"
    and "length (enc ce t v) < 4611686018427387000"
  shows "make_response p ri t v = Inr (header_bytes (response_header p ri (length (enc ce t v))) @ enc ce t v) \<and>
    get_message_type (response_header p ri (length (enc ce t v))) = MT_RESPONSE \<and>
    unat (payload_len (response_header p ri (length (enc ce t v)))) = length (enc ce t v)"
  using assms by (rule response_layout)

theorem response_is_header_and_value_witness:
  "make_response demo_process \<lparr>response_to_end_point = EndPoint_v4 [127, 0, 0, 1] 80,
     response_to_coro_id = 9, response_rpc_type = 1\<rparr> (TNum 8) (VNum 3)
   = Inr (header_bytes (response_header demo_process \<lparr>response_to_end_point = EndPoint_v4 [127, 0, 0, 1] 80,
     response_to_coro_id = 9, response_rpc_type = 1\<rparr> (length [3 :: u8, 0, 0, 0, 0, 0, 0, 0]))
     @ [3, 0, 0, 0, 0, 0, 0, 0])"
proof -
  have e: "enc unary_enc (TNum 8) (VNum 3) = [3, 0, 0, 0, 0, 0, 0, 0]" by simp
  show ?thesis
    using response_is_header_and_value [of unary_enc demo_process "TNum 8" 0 "VNum 3"
        "\<lparr>response_to_end_point = EndPoint_v4 [127, 0, 0, 1] 80, response_to_coro_id = 9, response_rpc_type = 1\<rparr>",
        unfolded e]
    by (simp add: demo_process_def std_codec_def unary_writes unary_sizes)
qed

section \<open>The life time of frames\<close>

text \<open>
  Handles are the \<open>CoroTask\<close> variables of a program, by index, the last component of a program
  are the committed frames that have not ended. \<open>Op_create\<close> takes an address that is not in use,
  \<open>Op_finish\<close> is a worker that runs a committed frame from its start to its end, \<open>Op_resume\<close> the
  direct \<open>task.promise_->handle_.resume()\<close> of \<open>main.cpp\<close>, for a body that ends then; their last
  argument is the address of the local variables. Resuming a coroutine that has ended, or one that
  is the scheduler's, is undefined and is no operation here.
\<close>

datatype handle_op =
    Op_create nat
  | Op_copy nat
  | Op_copy_assign nat nat
  | Op_move nat
  | Op_move_assign nat nat
  | Op_reset nat
  | Op_drop nat
  | Op_commit nat
  | Op_finish nat nat
  | Op_resume nat nat

type_synonym program = "tstate \<times> cptr list \<times> nat list"

definition handle_at :: "cptr list \<Rightarrow> nat \<Rightarrow> fault + cptr" where
  "handle_at hs i = (if i < length hs then Inr (hs ! i) else Inl Ub_out_of_bounds)"

fun do_op :: "process \<Rightarrow> handle_op \<Rightarrow> program \<Rightarrow> fault + program" where
  "do_op p (Op_create a) (s, hs, rs) =
     (if live (tw s) a then Inl Ill_typed
      else (case create_coroutine a s of (t, s) \<Rightarrow> Inr (s, hs @ [t], rs)))"
| "do_op p (Op_copy i) (s, hs, rs) =
     andthen (handle_at hs i) (\<lambda>t. andthen (task_copy (tw s) t) (\<lambda>(t, w).
       Inr (s\<lparr>tw := w\<rparr>, hs @ [t], rs)))"
| "do_op p (Op_copy_assign i j) (s, hs, rs) =
     andthen (handle_at hs i) (\<lambda>t. andthen (handle_at hs j) (\<lambda>r.
       andthen (task_copy_assign (i = j) (tw s) t r) (\<lambda>(t, w). Inr (s\<lparr>tw := w\<rparr>, hs[i := t], rs))))"
| "do_op p (Op_move i) (s, hs, rs) =
     andthen (handle_at hs i) (\<lambda>t. case task_move t of (n, t) \<Rightarrow> Inr (s, hs[i := t] @ [n], rs))"
| "do_op p (Op_move_assign i j) (s, hs, rs) =
     andthen (handle_at hs i) (\<lambda>t. andthen (handle_at hs j) (\<lambda>r.
       case task_move_assign (i = j) t r of (t, r) \<Rightarrow> Inr (s, hs[i := t, j := r], rs)))"
| "do_op p (Op_reset i) (s, hs, rs) =
     andthen (handle_at hs i) (\<lambda>t. Inr (s, hs[i := task_reset t], rs))"
| "do_op p (Op_drop i) (s, hs, rs) =
     andthen (handle_at hs i) (\<lambda>t. andthen (task_drop (tw s) t) (\<lambda>w. Inr (s\<lparr>tw := w\<rparr>, hs[i := None], rs)))"
| "do_op p (Op_commit i) (s, hs, rs) =
     andthen (handle_at hs i) (\<lambda>t. andthen (scheduler_commit False t s) (\<lambda>(_, s').
       case t of None \<Rightarrow> Inr (s', hs, rs)
               | Some a \<Rightarrow> if finished s a then Inl Ill_typed else Inr (s', hs, a # rs)))"
| "do_op p (Op_finish a l) (s, hs, rs) =
     (if a \<in> set rs
      then andthen (final_suspend p None a (s\<lparr>tw := initial_resume l (tw s) a\<rparr>)) (\<lambda>(_, s). Inr (s, hs, remove1 a rs))
      else Inl Ill_typed)"
| "do_op p (Op_resume i l) (s, hs, rs) =
     andthen (handle_at hs i) (\<lambda>t.
       case t of None \<Rightarrow> Inl Ub_null_deref
               | Some a \<Rightarrow>
                   if finished s a \<or> frame_running_cnt (frames (tw s) a) then Inl Ill_typed
                   else andthen (final_suspend p None a (s\<lparr>tw := initial_resume l (tw s) a\<rparr>)) (\<lambda>(_, s). Inr (s, hs, rs)))"

fun do_ops :: "process \<Rightarrow> handle_op list \<Rightarrow> program \<Rightarrow> fault + program" where
  "do_ops p [] st = Inr st"
| "do_ops p (x # ops) st = andthen (do_op p x st) (do_ops p ops)"

definition refs_to :: "cptr list \<Rightarrow> nat list \<Rightarrow> nat \<Rightarrow> nat" where
  "refs_to hs rs a = count_list hs (Some a) + count_list rs a"

text \<open>
  A frame that was resumed by hand and has ended has given up one reference that nothing took:
  its own, which \<open>commit\<close> takes for a scheduled one.
\<close>

definition by_hand :: "tstate \<Rightarrow> nat \<Rightarrow> nat" where
  "by_hand s a = (if finished s a \<and> \<not> frame_running_cnt (frames (tw s) a) then 1 else 0)"

abbreviation counted :: "tstate \<Rightarrow> nat \<Rightarrow> nat" where
  "counted s a \<equiv> unat (ref_cnt (frames (tw s) a))"

definition refs_inv :: "nat \<Rightarrow> program \<Rightarrow> bool" where
  "refs_inv n st \<longleftrightarrow> (case st of (s, hs, rs) \<Rightarrow>
     (\<forall>a. 0 < refs_to hs rs a \<longrightarrow> live (tw s) a) \<and>
     (\<forall>a \<in> set rs. frame_running_cnt (frames (tw s) a)) \<and>
     (\<forall>a. live (tw s) a \<longrightarrow> refs_to hs rs a \<le> counted s a + by_hand s a \<and> counted s a \<le> Suc n))"

lemma count_list_update:
  "i < length hs \<Longrightarrow>
   count_list (hs[i := x]) y + (if hs ! i = y then 1 else 0) = count_list hs y + (if x = y then 1 else 0)"
proof (induction hs arbitrary: i)
  case (Cons h hs)
  show ?case using Cons.IH [of "i - 1"] Cons.prems by (cases i) auto
qed simp

lemma count_list_pos: "i < length hs \<Longrightarrow> 0 < count_list hs (hs ! i)"
  by (metis count_list_0_iff gr0I nth_mem)

lemma count_list_remove1: "count_list (remove1 a rs) b = count_list rs b - (if a = b then 1 else 0)"
  by (induction rs) (auto simp: count_list_0_iff Suc_diff_le dest: gr0I)

lemma append_to_tail_same: "append_to_tail h q c = Inr (h', q') \<Longrightarrow> same_but_links h h'"
  by (auto simp: append_to_tail_def andthen_Inr_iff split: if_splits option.splits)

lemma ref_inc_running: "frame_running_cnt (ref_inc h a b) = frame_running_cnt (h b)"
  by (simp add: ref_inc_def)

lemma ref_inc_cnt: "ref_cnt (ref_inc h a b) = (if b = a then ref_cnt (h a) + 1 else ref_cnt (h b))"
  by (simp add: ref_inc_def)

lemma final_response_keeps:
  "final_response p ret a s = Inr s' \<Longrightarrow>
   ref_cnt (frames (tw s') b) = ref_cnt (frames (tw s) b) \<and> live (tw s') = live (tw s) \<and>
   finished s' = finished s \<and> frame_running_cnt (frames (tw s') b) = frame_running_cnt (frames (tw s) b)"
  by (auto simp: final_response_def Let_def andthen_Inr_iff split: option.splits if_splits)

lemma delete_local_keeps:
  "ref_cnt (frames (delete_local w a) b) = ref_cnt (frames w b) \<and> live (delete_local w a) = live w \<and>
   frame_running_cnt (frames (delete_local w a) b) = frame_running_cnt (frames w b)"
  by (auto simp: delete_local_def split: option.splits)

lemma initial_resume_keeps:
  "ref_cnt (frames (initial_resume l w a) b) = ref_cnt (frames w b)" "live (initial_resume l w a) = live w"
  "frame_running_cnt (frames (initial_resume l w a) b) = frame_running_cnt (frames w b)"
  by (auto simp: initial_resume_def new_CoroLocalVar_def)

text \<open>A release destroys the frame when its count has been used up, and only then.\<close>

lemma release_cases:
  assumes "release w a = Inr w'"
  shows "(\<forall>b. frame_running_cnt (frames w' b) = frame_running_cnt (frames w b)) \<and>
    (\<forall>b. b \<noteq> a \<longrightarrow> ref_cnt (frames w' b) = ref_cnt (frames w b)) \<and>
    (if unat (ref_cnt (frames w a)) = 0 then live w' = (live w)(a := False)
     else live w' = live w \<and> unat (ref_cnt (frames w' a)) = unat (ref_cnt (frames w a)) - 1)"
  using assms
  by (auto simp: release_def ref_dec_def unat_minus_one destroy_handle_def destroy_frame_def andthen_Inr_iff unat_eq_zero
      split: if_splits)

lemma final_suspend_keeps:
  assumes "final_suspend p ret a s = Inr (n, s')" and "0 < counted s a"
  shows "live (tw s') = live (tw s)" and "finished s' = (finished s)(a := True)"
    and "frame_running_cnt (frames (tw s') b) = frame_running_cnt (frames (tw s) b)"
    and "counted s b - (if b = a then 1 else 0) \<le> counted s' b" and "counted s' b \<le> counted s b"
proof -
  have "live (tw s') = live (tw s) \<and> finished s' = (finished s)(a := True) \<and>
      frame_running_cnt (frames (tw s') b) = frame_running_cnt (frames (tw s) b) \<and>
      counted s b - (if b = a then 1 else 0) \<le> counted s' b \<and> counted s' b \<le> counted s b"
  proof (cases "chain_empty (frames (tw s)) a")
    case False
    with assms(1) obtain h' where "remove_self (frames (tw s)) a = Inr h'"
      and "frames (tw s') = h'" and "live (tw s') = live (tw s)" and "finished s' = (finished s)(a := True)"
      by (auto simp: final_suspend_def Let_def andthen_Inr_iff split: option.splits)
    with remove_self_keeps [of "frames (tw s)" a h' b] show ?thesis by simp
  next
    case True
    define s1 where "s1 = (if frame_running_cnt (frames (tw s) a)
      then s\<lparr>finished := (finished s)(a := True), running_cnt := running_cnt s - 1\<rparr>
      else s\<lparr>finished := (finished s)(a := True)\<rparr>)"
    have s1: "tw s1 = tw s" "finished s1 = (finished s)(a := True)" by (simp_all add: s1_def)
    obtain s2 w where f: "final_response p ret a s1 = Inr s2" "release (delete_local (tw s2) a) a = Inr w"
      "tw s' = w" "finished s' = finished s2"
      using assms(1) True by (auto simp: final_suspend_def Let_def andthen_Inr_iff s1_def split: if_splits)
    have k: "ref_cnt (frames (delete_local (tw s2) a) c) = ref_cnt (frames (tw s) c)"
      "live (delete_local (tw s2) a) = live (tw s)" "finished s2 = (finished s)(a := True)"
      "frame_running_cnt (frames (delete_local (tw s2) a) c) = frame_running_cnt (frames (tw s) c)" for c
      using final_response_keeps [OF f(1)] delete_local_keeps [of "tw s2" a] s1 by simp_all
    show ?thesis using release_cases [OF f(2)] k f(3,4) assms(2) by (cases "b = a") (auto split: if_splits)
  qed
  then show "live (tw s') = live (tw s)" and "finished s' = (finished s)(a := True)"
    and "frame_running_cnt (frames (tw s') b) = frame_running_cnt (frames (tw s) b)"
    and "counted s b - (if b = a then 1 else 0) \<le> counted s' b" and "counted s' b \<le> counted s b"
    by blast+
qed

lemma unat_inc: "unat (x :: u64) \<le> Suc n \<Longrightarrow> fits_u64 (Suc (Suc n)) \<Longrightarrow> unat (x + 1) = Suc (unat x)"
  by (rule unat_u64_Suc) (simp add: fits_u64_def)

lemma refs_to_update:
  "i < length hs \<Longrightarrow> refs_to (hs[i := x]) rs a + (if hs ! i = Some a then 1 else 0)
    = refs_to hs rs a + (if x = Some a then 1 else 0)"
  using count_list_update [of i hs x "Some a"] by (simp add: refs_to_def)

lemma refs_to_append: "refs_to (hs @ [x]) rs a = refs_to hs rs a + (if x = Some a then 1 else 0)"
  by (simp add: refs_to_def)

lemma refs_to_handle: "i < length hs \<Longrightarrow> hs ! i = Some a \<Longrightarrow> 0 < refs_to hs rs a"
  using count_list_pos [of i hs] by (simp add: refs_to_def)

lemma scheduler_commit_keeps:
  assumes "scheduler_commit False (Some a) s = Inr (r, s')"
  shows "live (tw s') = live (tw s)" and "finished s' = finished s"
    and "frame_running_cnt (frames (tw s') b) = (b = a \<or> frame_running_cnt (frames (tw s) b))"
    and "ref_cnt (frames (tw s') b) = (if b = a then ref_cnt (frames (tw s) b) + 1 else ref_cnt (frames (tw s) b))"
proof -
  let ?h = "ref_inc (frames (tw s)) a"
  let ?h' = "?h(a := (?h a)\<lparr>frame_running_cnt := True\<rparr>)"
  obtain h1 q1 where "append_to_tail ?h' (coroutine_queue (tw s)) a = Inr (h1, q1)"
    and e: "frames (tw s') = h1" "live (tw s') = live (tw s)" "finished s' = finished s"
    using assms by (auto simp: scheduler_commit_def Let_def commit_frame_def andthen_Inr_iff)
  then have "same_but_links ?h' h1" by (intro append_to_tail_same)
  note same_fields(1,4) [OF this, of b] e
  then show "live (tw s') = live (tw s)" and "finished s' = finished s"
    and "frame_running_cnt (frames (tw s') b) = (b = a \<or> frame_running_cnt (frames (tw s) b))"
    and "ref_cnt (frames (tw s') b) = (if b = a then ref_cnt (frames (tw s) b) + 1 else ref_cnt (frames (tw s) b))"
    by (auto simp: ref_inc_def)
qed

lemma refs_inv_live: "refs_inv n (s, hs, rs) \<Longrightarrow> 0 < refs_to hs rs a \<Longrightarrow> live (tw s) a"
  by (simp add: refs_inv_def)

lemma refs_inv_counted:
  "refs_inv n (s, hs, rs) \<Longrightarrow> 0 < refs_to hs rs a \<Longrightarrow>
    refs_to hs rs a \<le> counted s a + by_hand s a \<and> counted s a \<le> Suc n"
  by (simp add: refs_inv_def)

text \<open>
  One rule for every operation that destroys nothing: a frame gets at most one reference more, and
  then counts it, and loses a count only with a reference or when it ends by hand.
\<close>

lemma refs_inv_step:
  assumes inv: "refs_inv n (s, hs, rs)" and l: "live (tw s') = live (tw s)"
    and "\<And>b. 0 < refs_to hs' rs' b \<Longrightarrow> live (tw s) b"
    and "\<And>b. b \<in> set rs' \<Longrightarrow> frame_running_cnt (frames (tw s') b)"
    and "\<And>b. counted s b \<le> Suc n \<Longrightarrow> counted s' b \<le> Suc (Suc n)"
    and "\<And>b. counted s b \<le> Suc n \<Longrightarrow>
      refs_to hs' rs' b + (counted s b + by_hand s b) \<le> refs_to hs rs b + (counted s' b + by_hand s' b)"
  shows "refs_inv (Suc n) (s', hs', rs')"
  unfolding refs_inv_def prod.case
proof (intro conjI allI impI ballI)
  fix b assume "live (tw s') b"
  then have c: "refs_to hs rs b \<le> counted s b + by_hand s b" "counted s b \<le> Suc n"
    using inv l by (simp_all add: refs_inv_def)
  show "counted s' b \<le> Suc (Suc n)" using assms(5) c(2) .
  show "refs_to hs' rs' b \<le> counted s' b + by_hand s' b" using assms(6) [OF c(2)] c(1) by linarith
qed (use assms(3,4) l in auto)

lemma refs_inv_same:
  assumes "refs_inv n (s, hs, rs)" and "\<And>b. refs_to hs' rs b \<le> refs_to hs rs b"
  shows "refs_inv (Suc n) (s, hs', rs)"
  by (rule refs_inv_step [OF assms(1)])
    (use assms refs_inv_live [OF assms(1)] less_le_trans [OF _ assms(2)] in \<open>auto simp: refs_inv_def\<close>)

text \<open>Operations that take one more reference to a frame and count it.\<close>

lemma refs_inv_taken:
  assumes inv: "refs_inv n (s, hs, rs)" and "fits_u64 (Suc (Suc n))" and "live (tw s) a"
    and "live (tw s') = live (tw s)" and "finished s' = finished s"
    and "\<And>b. by_hand s' b = by_hand s b" and "\<And>b. b \<in> set rs' \<Longrightarrow> frame_running_cnt (frames (tw s') b)"
    and cnt: "\<And>b. ref_cnt (frames (tw s') b) = (if b = a then ref_cnt (frames (tw s) b) + 1 else ref_cnt (frames (tw s) b))"
    and refs: "\<And>b. refs_to hs' rs' b \<le> refs_to hs rs b + (if b = a then 1 else 0)"
  shows "refs_inv (Suc n) (s', hs', rs')"
proof (rule refs_inv_step [OF inv])
  fix b
  show "live (tw s) b" if "0 < refs_to hs' rs' b"
  proof (cases "b = a")
    case False
    with that refs [of b] show ?thesis using refs_inv_live [OF inv, of b] by simp
  qed (simp add: assms(3))
  assume "counted s b \<le> Suc n"
  from unat_inc [OF this assms(2)] this
  show "counted s' b \<le> Suc (Suc n)"
    and "refs_to hs' rs' b + (counted s b + by_hand s b) \<le> refs_to hs rs b + (counted s' b + by_hand s' b)"
    using refs [of b] by (auto simp: cnt assms(6))
qed (use assms in simp_all)

text \<open>What an operation keeps, and which operation destroys a frame.\<close>

definition destroys :: "handle_op \<Rightarrow> program \<Rightarrow> nat \<Rightarrow> bool" where
  "destroys x st a \<longleftrightarrow> (case st of (s, hs, rs) \<Rightarrow>
     (\<exists>i < length hs. x = Op_drop i \<and> hs ! i = Some a \<and> refs_to hs rs a = 1 \<and> finished s a \<and>
        \<not> frame_running_cnt (frames (tw s) a)))"

lemma do_op_inv:
  assumes inv: "refs_inv n (s, hs, rs)" and fit: "fits_u64 (Suc (Suc n))"
    and op: "do_op p x (s, hs, rs) = Inr (s', hs', rs')"
  shows "refs_inv (Suc n) (s', hs', rs') \<and>
    (\<forall>a. live (tw s) a \<and> \<not> live (tw s') a \<longrightarrow> destroys x (s, hs, rs) a) \<and>
    (\<forall>a. frame_running_cnt (frames (tw s) a) \<and> live (tw s) a \<longrightarrow> frame_running_cnt (frames (tw s') a))"
proof (cases x)
  case (Op_create a)
  have new: "\<not> live (tw s) a"
    and e: "s' = snd (create_coroutine a s)" "hs' = hs @ [Some a]" "rs' = rs"
    using op Op_create by (auto simp: create_coroutine_def task_of_handle_def split: if_splits)
  have z: "refs_to hs rs a = 0" using refs_inv_live [OF inv, of a] new by auto
  have na: "a \<notin> set rs" using z by (simp add: refs_to_def count_list_0_iff)
  have "refs_inv (Suc n) (s', hs', rs')"
    unfolding refs_inv_def prod.case
  proof (intro conjI allI impI ballI)
    fix b
    show "live (tw s') b" if "0 < refs_to hs' rs' b"
      using that refs_inv_live [OF inv, of b] by (cases "b = a") (simp_all add: e create_coroutine_def refs_to_append)
    show "frame_running_cnt (frames (tw s') b)" if "b \<in> set rs'"
      using that inv na by (auto simp: e create_coroutine_def refs_inv_def)
    assume "live (tw s') b"
    then show "refs_to hs' rs' b \<le> counted s' b + by_hand s' b" "counted s' b \<le> Suc (Suc n)"
      using inv z
      by (cases "b = a"; simp add: e create_coroutine_def refs_to_append new_frame_def by_hand_def refs_inv_def le_SucI)+
  qed
  then show ?thesis using new by (auto simp: e create_coroutine_def)
next
  case (Op_copy i)
  then obtain a where i: "i < length hs" "hs ! i = Some a"
    and e: "s' = s\<lparr>tw := (tw s)\<lparr>frames := ref_inc (frames (tw s)) a\<rparr>\<rparr>" "hs' = hs @ [Some a]" "rs' = rs"
    using op by (auto simp: andthen_Inr_iff handle_at_def task_copy_def split: if_splits option.splits)
  have "live (tw s) a" using refs_inv_live [OF inv refs_to_handle [OF i]] .
  then have "refs_inv (Suc n) (s', hs', rs')"
    by (rule refs_inv_taken [OF inv fit])
      (use inv in \<open>simp_all add: e ref_inc_cnt refs_to_append by_hand_def ref_inc_running refs_inv_def\<close>)
  then show ?thesis by (simp add: e ref_inc_running)
next
  case (Op_copy_assign i j)
  show ?thesis
  proof (cases "i = j")
    case True
    then have e: "s' = s" "hs' = hs" "rs' = rs"
      using op Op_copy_assign by (auto simp: andthen_Inr_iff handle_at_def task_copy_assign_def split: if_splits)
    then show ?thesis using refs_inv_same [OF inv] by simp
  next
    case False
    then obtain a where i: "i < length hs" "j < length hs" "hs ! j = Some a"
      and e: "s' = s\<lparr>tw := (tw s)\<lparr>frames := ref_inc (frames (tw s)) a\<rparr>\<rparr>" "hs' = hs[i := Some a]" "rs' = rs"
      using op Op_copy_assign
      by (auto simp: andthen_Inr_iff handle_at_def task_copy_assign_def split: if_splits option.splits)
    have "live (tw s) a" using refs_inv_live [OF inv refs_to_handle [OF i(2,3)]] .
    moreover have "refs_to hs' rs' b \<le> refs_to hs rs b + (if b = a then 1 else 0)" for b
      using refs_to_update [OF i(1), of "Some a" rs b] by (auto simp: e split: if_splits)
    ultimately have "refs_inv (Suc n) (s', hs', rs')"
      by (intro refs_inv_taken [OF inv fit, of a])
        (use inv in \<open>simp_all add: e ref_inc_cnt by_hand_def ref_inc_running refs_inv_def\<close>)
    then show ?thesis by (simp add: e ref_inc_running)
  qed
next
  case (Op_move i)
  then have i: "i < length hs" and e: "s' = s" "hs' = hs[i := None] @ [hs ! i]" "rs' = rs"
    using op by (auto simp: andthen_Inr_iff handle_at_def task_move_def split: if_splits)
  have "refs_to hs' rs b \<le> refs_to hs rs b" for b
    using refs_to_update [OF i, of None rs b] by (simp add: e refs_to_append)
  then show ?thesis using refs_inv_same [OF inv] by (simp add: e)
next
  case (Op_move_assign i j)
  show ?thesis
  proof (cases "i = j")
    case True
    then have "s' = s" "hs' = hs" "rs' = rs"
      using op Op_move_assign by (auto simp: andthen_Inr_iff handle_at_def task_move_assign_def split: if_splits)
    then show ?thesis using refs_inv_same [OF inv] by simp
  next
    case False
    then have i: "i < length hs" "j < length hs" and e: "s' = s" "hs' = hs[j := None]" "rs' = rs"
      using op Op_move_assign by (auto simp: andthen_Inr_iff handle_at_def task_move_assign_def split: if_splits)
    have "refs_to hs' rs b \<le> refs_to hs rs b" for b
      using refs_to_update [OF i(2), of None rs b] by (simp add: e)
    then show ?thesis using refs_inv_same [OF inv] by (simp add: e)
  qed
next
  case (Op_reset i)
  then have i: "i < length hs" and e: "s' = s" "hs' = hs[i := None]" "rs' = rs"
    using op by (auto simp: andthen_Inr_iff handle_at_def task_reset_def split: if_splits)
  have "refs_to hs' rs b \<le> refs_to hs rs b" for b
    using refs_to_update [OF i, of None rs b] by (simp add: e)
  then show ?thesis using refs_inv_same [OF inv] by (simp add: e)
next
  case (Op_drop i)
  obtain w where i: "i < length hs" "task_drop (tw s) (hs ! i) = Inr w"
    and e: "s' = s\<lparr>tw := w\<rparr>" "hs' = hs[i := None]" "rs' = rs"
    using op Op_drop by (auto simp: andthen_Inr_iff handle_at_def split: if_splits)
  show ?thesis
  proof (cases "hs ! i")
    case None
    then have "w = tw s" using i(2) by (simp add: task_drop_def)
    moreover have "hs[i := None] = hs" using None i(1) by (metis list_update_id)
    ultimately show ?thesis using refs_inv_same [OF inv] by (simp add: e)
  next
    case (Some a)
    then have "release (tw s) a = Inr w" using i(2) by (simp add: task_drop_def)
    note k = release_cases [OF this]
    have h: "by_hand s' b = by_hand s b" for b using k by (simp add: e by_hand_def)
    have rest: "refs_to hs' rs' b = refs_to hs rs b - (if b = a then 1 else 0)" for b
      using refs_to_update [OF i(1), of None rs b] Some by (auto simp: e split: if_splits)
    have pos: "0 < refs_to hs rs a" by (rule refs_to_handle [OF i(1) Some])
    note c = refs_inv_counted [OF inv pos]
    have run: "\<forall>b \<in> set rs'. frame_running_cnt (frames (tw s') b)" using inv k by (simp add: e refs_inv_def)
    show ?thesis
    proof (cases "counted s a = 0")
      case True
      then have one: "refs_to hs rs a = 1" "by_hand s a = 1" using c pos by (auto simp: by_hand_def split: if_splits)
      have dead: "live (tw s') = (live (tw s))(a := False)" using k True by (simp add: e)
      have "counted s' b = counted s b" if "b \<noteq> a" for b using k that by (simp add: e)
      then have "refs_inv (Suc n) (s', hs', rs')"
        using inv run rest h one(1) dead by (auto simp: refs_inv_def le_SucI)
      moreover have "finished s a \<and> \<not> frame_running_cnt (frames (tw s) a)"
        using one(2) by (simp add: by_hand_def split: if_splits)
      then have "destroys x (s, hs, rs) a" using one(1) i(1) Some Op_drop by (auto simp: destroys_def)
      moreover have "frame_running_cnt (frames (tw s') b) = frame_running_cnt (frames (tw s) b)" for b using k by (simp add: e)
      ultimately show ?thesis using dead by simp
    next
      case False
      then have l: "live (tw s') = live (tw s)" and d: "counted s' a = counted s a - 1"
        and o: "\<forall>b. b \<noteq> a \<longrightarrow> counted s' b = counted s b"
        using k by (simp_all add: e)
      have "refs_inv (Suc n) (s', hs', rs')"
      proof (rule refs_inv_step [OF inv l])
        fix b
        show "0 < refs_to hs' rs' b \<Longrightarrow> live (tw s) b" using rest [of b] refs_inv_live [OF inv, of b] by (simp split: if_splits)
        show "counted s b \<le> Suc n \<Longrightarrow> counted s' b \<le> Suc (Suc n)" using d o by (cases "b = a") simp_all
        show "refs_to hs' rs' b + (counted s b + by_hand s b) \<le> refs_to hs rs b + (counted s' b + by_hand s' b)"
          using rest [of b] h d o False pos by (cases "b = a") simp_all
      qed (use run in blast)
      then show ?thesis using l k by (simp add: e)
    qed
  qed
next
  case (Op_commit i)
  then obtain a r where i: "i < length hs" "hs ! i = Some a" "scheduler_commit False (Some a) s = Inr (r, s')"
    and e: "hs' = hs" "rs' = a # rs" and nf: "\<not> finished s a"
    using op by (auto simp: andthen_Inr_iff handle_at_def scheduler_commit_def split: if_splits option.splits)
  note k = scheduler_commit_keeps [OF i(3)]
  have "live (tw s) a" using refs_inv_live [OF inv refs_to_handle [OF i(1,2)]] .
  then have "refs_inv (Suc n) (s', hs', rs')"
    by (rule refs_inv_taken [OF inv fit])
      (use inv nf in \<open>auto simp add: e k refs_to_def by_hand_def refs_inv_def\<close>)
  then show ?thesis using k by simp
next
  case (Op_finish a l)
  let ?s = "s\<lparr>tw := initial_resume l (tw s) a\<rparr>"
  obtain m where a: "a \<in> set rs" "final_suspend p None a ?s = Inr (m, s')"
    and e: "hs' = hs" "rs' = remove1 a rs"
    using op Op_finish by (auto simp: andthen_Inr_iff split: if_splits)
  have "0 < count_list rs a" using a(1) by (metis count_list_0_iff gr0I)
  then have r: "0 < refs_to hs rs a" by (simp add: refs_to_def)
  have run: "frame_running_cnt (frames (tw s) a)" using inv a(1) by (simp add: refs_inv_def)
  then have "0 < counted ?s a" using refs_inv_counted [OF inv r] r by (simp add: initial_resume_keeps by_hand_def)
  note k = final_suspend_keeps [OF a(2) this, simplified initial_resume_keeps, simplified initial_resume_keeps]
  have rest: "refs_to hs' rs' b = refs_to hs rs b - (if b = a then 1 else 0)" for b
    using \<open>0 < count_list rs a\<close> by (auto simp: e refs_to_def count_list_remove1)
  have "refs_inv (Suc n) (s', hs', rs')"
  proof (rule refs_inv_step [OF inv])
    fix b
    show "0 < refs_to hs' rs' b \<Longrightarrow> live (tw s) b" using rest [of b] refs_inv_live [OF inv, of b] by (simp split: if_splits)
    show "b \<in> set rs' \<Longrightarrow> frame_running_cnt (frames (tw s') b)"
      using inv by (auto simp: e k refs_inv_def initial_resume_keeps dest: notin_set_remove1)
    show "counted s b \<le> Suc n \<Longrightarrow> counted s' b \<le> Suc (Suc n)" using k(5) [of b] by (simp add: initial_resume_keeps)
    show "refs_to hs' rs' b + (counted s b + by_hand s b) \<le> refs_to hs rs b + (counted s' b + by_hand s' b)"
      using rest [of b] k(4,5) [of b] r run by (cases "b = a") (auto simp: by_hand_def k(2,3) initial_resume_keeps)
  qed (simp add: k initial_resume_keeps)
  then show ?thesis by (simp add: k initial_resume_keeps)
next
  case (Op_resume i l)
  obtain a m where i: "i < length hs" "hs ! i = Some a" and nf: "\<not> finished s a" "\<not> frame_running_cnt (frames (tw s) a)"
    and a: "final_suspend p None a (s\<lparr>tw := initial_resume l (tw s) a\<rparr>) = Inr (m, s')" and e: "hs' = hs" "rs' = rs"
    using op Op_resume by (auto simp: andthen_Inr_iff handle_at_def split: if_splits option.splits)
  let ?s = "s\<lparr>tw := initial_resume l (tw s) a\<rparr>"
  have r: "0 < refs_to hs rs a" by (rule refs_to_handle [OF i])
  then have "0 < counted ?s a" using refs_inv_counted [OF inv r] nf by (simp add: initial_resume_keeps by_hand_def)
  note k = final_suspend_keeps [OF a this]
  have "refs_inv (Suc n) (s', hs', rs')"
  proof (rule refs_inv_step [OF inv])
    fix b
    show "0 < refs_to hs' rs' b \<Longrightarrow> live (tw s) b" using refs_inv_live [OF inv, of b] by (simp add: e)
    show "b \<in> set rs' \<Longrightarrow> frame_running_cnt (frames (tw s') b)"
      using inv by (simp add: e k refs_inv_def initial_resume_keeps)
    show "counted s b \<le> Suc n \<Longrightarrow> counted s' b \<le> Suc (Suc n)" using k(5) [of b] by (simp add: initial_resume_keeps)
    show "refs_to hs' rs' b + (counted s b + by_hand s b) \<le> refs_to hs rs b + (counted s' b + by_hand s' b)"
      using k(4) [of b] nf by (cases "b = a") (auto simp: e by_hand_def k(2,3) initial_resume_keeps)
  qed (simp add: k initial_resume_keeps)
  then show ?thesis by (simp add: k initial_resume_keeps)
qed






text \<open>
  A frame that was committed once is never destroyed, because the count that \<open>dec\<close> returns is the
  one before the decrement: the memory of every scheduled coroutine leaks, while the class comment
  promises that it goes away with the last \<open>CoroTask\<close>.
\<close>

lemma committed_frames_leak:
  assumes "refs_inv n (s, hs, rs)" and "fits_u64 (Suc (n + length ops))" and "live (tw s) a"
    and "frame_running_cnt (frames (tw s) a)" and "do_ops p ops (s, hs, rs) = Inr (s', hs', rs')"
  shows "live (tw s') a"
  using assms
proof (induction ops arbitrary: n s hs rs)
  case (Cons x ops)
  obtain s1 hs1 rs1 where x: "do_op p x (s, hs, rs) = Inr (s1, hs1, rs1)"
    "do_ops p ops (s1, hs1, rs1) = Inr (s', hs', rs')"
    using Cons.prems(5) by (auto simp: andthen_Inr_iff)
  have "fits_u64 (Suc (Suc n))" using Cons.prems(2) by (simp add: fits_u64_def)
  note one = do_op_inv [OF Cons.prems(1) this x(1)]
  then have "live (tw s1) a" "frame_running_cnt (frames (tw s1) a)"
    using Cons.prems(3,4) by (auto simp: destroys_def)
  with one show ?case using Cons.IH [OF _ _ _ _ x(2), of "Suc n"] Cons.prems(2) by simp
qed simp

text \<open>
  A root that is resumed by hand, without the scheduler, is destroyed by its last handle:
  after its end, dropping the only handle removes the frame.
\<close>

theorem directly_resumed_frame_dies_with_its_handle:
  assumes "chain_empty (frames (tw s)) a" and "coro_local_var (frames (tw s) a) = Some l"
    and "locals (tw s) l = Some v" and "response_info v = None"
    and "ref_cnt (frames (tw s) a) = 1" and "in_queue_link_next (frames (tw s) a) = None"
  shows "\<exists>s' w. final_suspend p ret a s = Inr (None, s') \<and> task_drop (tw s') (Some a) = Inr w \<and>
    \<not> live w a \<and> (\<forall>b. b \<noteq> a \<longrightarrow> live w b = live (tw s) b)"
  using assms
  by (simp add: final_suspend_def chain_empty_def Let_def final_response_def delete_local_def
      release_def ref_dec_def task_drop_def destroy_handle_def destroy_frame_def)

theorem directly_resumed_frame_dies_with_its_handle_witness:
  "\<exists>s' w. final_suspend demo_process None 5 demo_tstate = Inr (None, s') \<and>
    task_drop (tw s') (Some 5) = Inr w \<and> \<not> live w 5 \<and> (\<forall>b. b \<noteq> 5 \<longrightarrow> live w b = live (tw demo_tstate) b)"
  by (rule directly_resumed_frame_dies_with_its_handle [where l = 3
      and v = "\<lparr>coro_id = 77, wake_up_ts = 0, response_info = None\<rparr>"])
    (simp_all add: demo_tstate_def chain_empty_def new_frame_def)

text \<open>
  Move assignment does not transfer: after \<open>t = std::move(r)\<close> the target still refers to
  its old coroutine and no handle refers to the one that was moved from, while move
  construction and copy assignment do make the target refer to it.
\<close>

theorem move_assignment_loses_the_source:
  assumes "t \<noteq> Some a"
  shows "task_move (Some a) = (Some a, None) \<and>
    (\<exists>w'. task_copy_assign False w t (Some a) = Inr (Some a, w')) \<and>
    (case task_move_assign False t (Some a) of (t', r') \<Rightarrow> t' = t \<and> t' \<noteq> Some a \<and> r' \<noteq> Some a)"
  using assms by (simp add: task_move_def task_copy_assign_def task_move_assign_def)

theorem move_assignment_loses_the_source_witness:
  "task_move (Some 6) = (Some 6, None) \<and>
    (\<exists>w'. task_copy_assign False (tw demo_tstate) (Some 5) (Some 6) = Inr (Some 6, w')) \<and>
    (case task_move_assign False (Some 5) (Some 6) of (t', r') \<Rightarrow> t' = Some 5 \<and> t' \<noteq> Some 6 \<and> r' \<noteq> Some 6)"
  by (rule move_assignment_loses_the_source) simp

end
