(* ===== verification/Rpc_Action.thy ===== *)
theory Rpc_Action
  imports Coro_Task
begin

text \<open>
  The awaitable remote call \<open>RpcBase\<close> and its builder \<open>co_rpc\<close>
  (\<open>src/src/coroutine_framework/async_action/async_action.h\<close> and \<open>async_action.ipp\<close>): building
  the request, suspending the caller, collecting responses until the finish condition holds,
  and the timeout.
\<close>

section \<open>State\<close>

text \<open>
  \<open>rb_args\<close> and \<open>rb_ret\<close> are the argument types and the result type of the remote function
  (\<open>FunctionTraits\<close>). A received result is a value or an error code. The callback gets the end
  point, the value, which it may change, and the flag \<open>need_awaken\<close>, which it may set.
\<close>

record RpcBase =
  rb_args :: "cty list"
  rb_ret :: cty
  endpoints :: "(EndPoint \<times> bool) list"
  finish_condition :: FinishCondition
  timeout_ns :: u64
  func_id :: u16
  send_buffer :: bytes
  total_serialize_size :: u64
  received_results :: "(EndPoint \<times> cval) list"
  on_each_function :: "(EndPoint \<Rightarrow> cval \<Rightarrow> bool \<Rightarrow> cval \<times> bool) option"
  rb_coroutine :: cptr

definition LOCAL_BUFFER_SIZE :: nat where "LOCAL_BUFFER_SIZE = 1024"

definition RPC_TIMEOUT :: int where "RPC_TIMEOUT = - 1001"

definition new_RpcBase :: "cty list \<Rightarrow> cty \<Rightarrow> u16 \<Rightarrow> RpcBase" where
  "new_RpcBase args ret fid = \<lparr>rb_args = args, rb_ret = ret, endpoints = [], finish_condition = WHEN_ALL,
     timeout_ns = 1000000000, func_id = fid, send_buffer = [], total_serialize_size = 0,
     received_results = [], on_each_function = None, rb_coroutine = None\<rparr>"

text \<open>The builder methods. Each returns the call it was applied to, moved.\<close>

definition rpc_timeout :: "u64 \<Rightarrow> RpcBase \<Rightarrow> RpcBase" where
  "rpc_timeout t r = r\<lparr>timeout_ns := t\<rparr>"

definition rpc_on :: "EndPoint list \<Rightarrow> RpcBase \<Rightarrow> RpcBase" where
  "rpc_on eps r = r\<lparr>endpoints := endpoints r @ map (\<lambda>e. (e, False)) eps\<rparr>"

definition rpc_on_each :: "(EndPoint \<Rightarrow> cval \<Rightarrow> bool \<Rightarrow> cval \<times> bool) \<Rightarrow> RpcBase \<Rightarrow> RpcBase" where
  "rpc_on_each f r = r\<lparr>on_each_function := Some f\<rparr>"

definition rpc_when :: "FinishCondition \<Rightarrow> RpcBase \<Rightarrow> RpcBase" where
  "rpc_when fc r = r\<lparr>finish_condition := fc\<rparr>"

fun args_size :: "codec \<Rightarrow> cty list \<Rightarrow> cval list \<Rightarrow> int" where
  "args_size c (t # ts) (v # vs) = get_serialize_size c t v + args_size c ts vs"
| "args_size c _ _ = 0"

fun ser_args :: "codec \<Rightarrow> cty list \<Rightarrow> cval list \<Rightarrow> int \<Rightarrow> sbuf \<Rightarrow> fault + sbuf" where
  "ser_args c (t # ts) (v # vs) len s = andthen (serialize c t v len s) (\<lambda>s. ser_args c ts vs len s)"
| "ser_args c _ _ len s = Inr s"

text \<open>
  \<open>with_args\<close>: the size of header and arguments, a buffer of that size, the arguments behind
  the place of the header. The arithmetic of \<open>total_serialize_size_\<close> is unsigned.
\<close>

definition with_args :: "process \<Rightarrow> cval list \<Rightarrow> RpcBase \<Rightarrow> fault + RpcBase" where
  "with_args p vs r =
     (let c = pr_codec p;
          header_placeholder = PackageHeader_new 1 (func_id r) 0 0 0;
          header_serialize_size = get_serialize_size c header_ty (header_val header_placeholder);
          tot = to_u64 (header_serialize_size + args_size c (rb_args r) vs)
      in andthen (check Ill_typed (length vs = length (rb_args r))) (\<lambda>_.
         andthen (check Assert_failed (tot \<le> int LOCAL_BUFFER_SIZE)) (\<lambda>_.
         andthen (ser_args c (rb_args r) vs (to_i64 tot)
             \<lparr>sb_bytes = pr_fresh p (nat tot), sb_pos = header_serialize_size\<rparr>) (\<lambda>s.
         andthen (check Assert_failed (to_u64 (sb_pos s) = tot)) (\<lambda>_.
           Inr (r\<lparr>total_serialize_size := word_of_int tot, send_buffer := sb_bytes s\<rparr>))))))"

text \<open>What \<open>await_suspend\<close> hands to the network module.\<close>

record SendRequest =
  sr_coro_id :: u64
  sr_endpoints :: "EndPoint list"
  sr_buffer :: bytes
  sr_timeout :: u64
  sr_coroutine :: nat

definition rpc_await_suspend ::
    "process \<Rightarrow> nat \<Rightarrow> RpcBase \<Rightarrow> world \<Rightarrow> fault + (SendRequest \<times> RpcBase \<times> world)" where
  "rpc_await_suspend p promise r w =
     andthen (get_local w promise) (\<lambda>l.
     let r = r\<lparr>rb_coroutine := Some promise\<rparr>; id = coro_id l in
     andthen (set_message_type MT_REQUEST (PackageHeader_new 1 (func_id r) id (pr_port p) 0)) (\<lambda>header.
     let header_serialize_size = get_serialize_size (pr_codec p) header_ty (header_val header);
         header = header\<lparr>payload_len := total_serialize_size r - word_of_int header_serialize_size\<rparr>
     in andthen (serialize (pr_codec p) header_ty (header_val header) (int (length (send_buffer r)))
          \<lparr>sb_bytes = send_buffer r, sb_pos = 0\<rparr>) (\<lambda>s.
        andthen (check Assert_failed (sb_pos s = header_serialize_size)) (\<lambda>_.
        let r = r\<lparr>send_buffer := sb_bytes s\<rparr>; w = w\<lparr>frames := sync_release (frames w) promise\<rparr> in
        Inr (\<lparr>sr_coro_id = id, sr_endpoints = map fst (endpoints r), sr_buffer = send_buffer r,
              sr_timeout = timeout_ns r, sr_coroutine = promise\<rparr>, r, w)))))"

section \<open>Responses\<close>

text \<open>The first end point of the list that equals the peer gets its flag set.\<close>

fun mark_received :: "EndPoint \<Rightarrow> (EndPoint \<times> bool) list \<Rightarrow> (EndPoint \<times> bool) list" where
  "mark_received peer [] = []"
| "mark_received peer ((e, b) # es) =
     (if EndPoint_eq e peer then (e, True) # es else (e, b) # mark_received peer es)"

definition finished_by :: "FinishCondition \<Rightarrow> nat \<Rightarrow> nat \<Rightarrow> fault + bool" where
  "finished_by fc n tot =
     (case fc of
        WHEN_ANY \<Rightarrow> Inr True
      | WHEN_ALL \<Rightarrow> Inr (n = tot)
      | WHEN_MAJORITY \<Rightarrow> Inr (n = tot div 2 + 1)
      | FC_INVALID \<Rightarrow> Inl Aborted)"

text \<open>
  \<open>process_buffer_cb\<close>: the new state and the coroutine to wake, if any. \<open>need_awaken\<close> as the
  callback leaves it is overwritten by the \<open>switch\<close>.
\<close>

definition process_buffer_cb ::
    "process \<Rightarrow> EndPoint \<Rightarrow> bytes \<Rightarrow> RpcBase \<Rightarrow> fault + (cptr \<times> RpcBase)" where
  "process_buffer_cb p peer_endpoint net_buffer r =
     (let tot = length (endpoints r); c = pr_codec p in
      andthen (deserialize0 c (rb_ret r) (init_val c (rb_ret r)) (int (length net_buffer)) net_buffer)
        (\<lambda>(return_value, _).
      let (return_value, need_awaken) =
            (case on_each_function r of None \<Rightarrow> (return_value, False) | Some f \<Rightarrow> f peer_endpoint return_value False);
          results = received_results r @ [(peer_endpoint, VValue return_value)];
          eps = mark_received peer_endpoint (endpoints r)
      in andthen (finished_by (finish_condition r) (length results) tot) (\<lambda>need_awaken.
           Inr (if need_awaken then rb_coroutine r else None,
                r\<lparr>received_results := results, endpoints := eps\<rparr>))))"

definition timeout_cb :: "RpcBase \<Rightarrow> fault + RpcBase" where
  "timeout_cb r =
     (let missing = filter (\<lambda>(e, b). \<not> b) (endpoints r);
          results = received_results r @ map (\<lambda>(e, b). (e, VUnexp RPC_TIMEOUT)) missing
      in andthen (check Assert_failed (length results = length (endpoints r))) (\<lambda>_.
           Inr (r\<lparr>received_results := results\<rparr>)))"

text \<open>
  \<open>co_rpc::await_resume\<close>: all results, or for a single call the first; taking the first of
  none is undefined.
\<close>

definition await_resume_multi :: "RpcBase \<Rightarrow> (EndPoint \<times> cval) list" where
  "await_resume_multi r = received_results r"

definition await_resume_single :: "RpcBase \<Rightarrow> fault + cval" where
  "await_resume_single r =
     (case received_results r of [] \<Rightarrow> Inl Ub_out_of_bounds | x # _ \<Rightarrow> Inr (snd x))"

end
