(* ===== verification/Rpc_Props.thy ===== *)
theory Rpc_Props
  imports Rpc_Action Task_Props
begin

text \<open>
  The properties of remote calls on the caller's side: the request on the wire, when the
  caller is woken, what it is given, and what a timeout does.
\<close>

section \<open>The request\<close>

lemma args_size_members: "length ts = length vs \<Longrightarrow> args_size c ts vs = size_members c ts vs"
  by (induction ts vs rule: list_induct2) simp_all

lemma ser_args_members: "length ts = length vs \<Longrightarrow> ser_args c ts vs len s = ser_members c ts vs len s"
  by (induction ts vs arbitrary: s rule: list_induct2) (simp_all add: andthen_def split: sum.split)

lemma has_tys_length: "has_tys cap ts vs \<Longrightarrow> length vs = length ts"
  by (induction ts arbitrary: vs) (auto split: list.splits)

definition request_header :: "process \<Rightarrow> u16 \<Rightarrow> u64 \<Rightarrow> nat \<Rightarrow> PackageHeader" where
  "request_header p fid cid n = (PackageHeader_new 1 fid cid (pr_port p) (word_of_nat n))\<lparr>flags := 1\<rparr>"

text \<open>The two halves of a request: \<open>with_args\<close> writes the arguments, suspending the caller the header.\<close>

lemma request_layout:
  assumes "custom_writes ce (cd_custom (pr_codec p))" and "custom_sizes ce (cd_custom (pr_codec p))"
    and "\<forall>t \<in> set (rb_args r). expected_free t" and "has_tys cap (rb_args r) vs"
    and "\<And>n. length (pr_fresh p n) = n" and "length (enc_members ce (rb_args r) vs) < 4611686018427387000"
    and "get_local w f = Inr l"
  shows "if 32 + length (enc_members ce (rb_args r) vs) \<le> LOCAL_BUFFER_SIZE
    then \<exists>r1 req r2 w2. with_args p vs r = Inr r1 \<and> rpc_await_suspend p f r1 w = Inr (req, r2, w2) \<and>
      sr_buffer req = header_bytes (request_header p (func_id r) (coro_id l) (length (enc_members ce (rb_args r) vs)))
        @ enc_members ce (rb_args r) vs \<and>
      sr_coro_id req = coro_id l \<and> sr_endpoints req = map fst (endpoints r) \<and> rb_coroutine r2 = Some f
    else with_args p vs r = Inl Assert_failed"
proof -
  let ?c = "pr_codec p" and ?e = "enc_members ce (rb_args r) vs"
  let ?n = "length ?e" and ?N = "32 + int (length (enc_members ce (rb_args r) vs))"
  have len: "length vs = length (rb_args r)" using has_tys_length [OF assms(4)] .
  have sz: "args_size ?c (rb_args r) vs = int ?n"
    using size_members_enc [OF assms(2,3,4)] args_size_members len by simp
  have u: "to_u64 ?N = ?N" "to_i64 ?N = ?N" "nat ?N = 32 + ?n"
    using assms(6) by (simp_all add: to_i64_id in_i64_def nat_add_distrib)
  show ?thesis
  proof (cases "32 + ?n \<le> LOCAL_BUFFER_SIZE")
    case False
    then have "\<not> ?N \<le> int LOCAL_BUFFER_SIZE" by linarith
    then show ?thesis using False sz u len by (simp add: with_args_def Let_def)
  next
    case True
    then have fit: "?N \<le> int LOCAL_BUFFER_SIZE" by linarith
    let ?buf = "pr_fresh p (32 + ?n)"
    let ?s1 = "\<lparr>sb_bytes = take 32 ?buf @ ?e, sb_pos = ?N\<rparr>"
    have "ser_members ?c (rb_args r) vs ?N \<lparr>sb_bytes = ?buf, sb_pos = 32\<rparr>
        = emit ?e ?N \<lparr>sb_bytes = ?buf, sb_pos = 32\<rparr>"
      by (rule ser_members_emit_aux [OF assms(1,4)]) (use assms(5,6) in \<open>simp add: sb_ok_def\<close>)
    then have "ser_args ?c (rb_args r) vs ?N \<lparr>sb_bytes = ?buf, sb_pos = 32\<rparr> = Inr ?s1"
      using assms(5) len by (simp add: ser_args_members emit_def put_def)
    then have wa: "with_args p vs r = Inr (r\<lparr>total_serialize_size := word_of_int ?N, send_buffer := sb_bytes ?s1\<rparr>)"
      (is "_ = Inr ?r1")
      using sz u len fit by (simp add: with_args_def Let_def)
    let ?h = "request_header p (func_id r) (coro_id l) ?n"
    have "wire_type MT_REQUEST" by (simp add: wire_type_def)
    from set_message_type_new [OF this]
    have sm: "set_message_type MT_REQUEST (PackageHeader_new 1 (func_id r) (coro_id l) (pr_port p) 0)
        = Inr ((PackageHeader_new 1 (func_id r) (coro_id l) (pr_port p) 0)\<lparr>flags := 1\<rparr>)" by simp
    have pl: "(PackageHeader_new 1 (func_id r) (coro_id l) (pr_port p) 0)\<lparr>flags := 1, payload_len := word_of_int (int ?n)\<rparr> = ?h"
      by (simp add: request_header_def PackageHeader_new_def)
    have "sb_ok ?N \<lparr>sb_bytes = take 32 ?buf @ ?e, sb_pos = 0\<rparr>"
      using assms(5,6) by (simp add: sb_ok_def)
    from header_emit [OF this, of ?c ?h]
    have "serialize ?c header_ty (header_val ?h) ?N \<lparr>sb_bytes = take 32 ?buf @ ?e, sb_pos = 0\<rparr>
        = Inr \<lparr>sb_bytes = header_bytes ?h @ ?e, sb_pos = 32\<rparr>"
      using assms(5) by (simp add: emit_def put_def)
    moreover have "int (length (send_buffer ?r1)) = ?N" using assms(5) by simp
    ultimately obtain r2 w2 where "rpc_await_suspend p f ?r1 w = Inr (\<lparr>sr_coro_id = coro_id l,
        sr_endpoints = map fst (endpoints r), sr_buffer = header_bytes ?h @ ?e, sr_timeout = timeout_ns r,
        sr_coroutine = f\<rparr>, r2, w2)" and "rb_coroutine r2 = Some f"
      using assms(7) sm pl by (simp add: rpc_await_suspend_def Let_def)
    with wa True show ?thesis by auto
  qed
qed

text \<open>
  The request of a remote call: when header and arguments fit the 1 KiB the code allows,
  the buffer that goes to the network is a request header with the caller's coroutine id, the
  function's id, the listening port and the exact payload length, followed by the wire format
  of the arguments; otherwise the assertion fails. The hypotheses on the codec are those of
  the serializer.
\<close>

theorem request_is_header_and_args:
  assumes "custom_writes ce (cd_custom (pr_codec p))" and "custom_sizes ce (cd_custom (pr_codec p))"
    and "\<forall>t \<in> set (rb_args r). expected_free t" and "has_tys cap (rb_args r) vs"
    and "\<And>n. length (pr_fresh p n) = n" and "length (enc_members ce (rb_args r) vs) < 4611686018427387000"
    and "get_local w f = Inr l"
  shows "if 32 + length (enc_members ce (rb_args r) vs) \<le> LOCAL_BUFFER_SIZE
    then \<exists>r1 req r2 w2. with_args p vs r = Inr r1 \<and> rpc_await_suspend p f r1 w = Inr (req, r2, w2) \<and>
      sr_buffer req = header_bytes (request_header p (func_id r) (coro_id l) (length (enc_members ce (rb_args r) vs)))
        @ enc_members ce (rb_args r) vs \<and>
      sr_coro_id req = coro_id l \<and> sr_endpoints req = map fst (endpoints r) \<and> rb_coroutine r2 = Some f
    else with_args p vs r = Inl Assert_failed"
  using assms by (rule request_layout)

theorem request_is_header_and_args_witness:
  "\<exists>r1 req r2 w2. with_args demo_process [VNum 5, VNum 7] (new_RpcBase [TNum 8, TNum 8] (TNum 8) 1) = Inr r1 \<and>
    rpc_await_suspend demo_process 5 r1 (tw demo_tstate) = Inr (req, r2, w2) \<and>
    sr_buffer req = header_bytes (request_header demo_process 1 77
        (length (enc_members unary_enc [TNum 8, TNum 8] [VNum 5, VNum 7])))
      @ enc_members unary_enc [TNum 8, TNum 8] [VNum 5, VNum 7]"
proof -
  let ?r = "new_RpcBase [TNum 8, TNum 8] (TNum 8) 1"
  have l: "get_local (tw demo_tstate) 5 = Inr \<lparr>coro_id = 77, wake_up_ts = 0, response_info = None\<rparr>"
    by (simp add: get_local_def demo_tstate_def new_frame_def)
  have a: "rb_args ?r = [TNum 8, TNum 8]" "func_id ?r = 1" by (simp_all add: new_RpcBase_def)
  have c: "custom_writes unary_enc (cd_custom (pr_codec demo_process))"
    "custom_sizes unary_enc (cd_custom (pr_codec demo_process))"
    by (simp_all add: demo_process_def std_codec_def unary_writes unary_sizes)
  from request_is_header_and_args [OF c, of ?r 0 "[VNum 5, VNum 7]" "tw demo_tstate" 5, unfolded a, OF _ _ _ _ l]
  show ?thesis by (auto simp: demo_process_def LOCAL_BUFFER_SIZE_def split: if_splits)
qed

section \<open>Collecting responses\<close>

text \<open>
  \<open>collect\<close> feeds responses to the callback one after the other and lists, for each, the
  coroutine to wake, if any.
\<close>

fun collect :: "process \<Rightarrow> (EndPoint \<times> bytes) list \<Rightarrow> RpcBase \<Rightarrow> fault + (cptr list \<times> RpcBase)" where
  "collect p [] r = Inr ([], r)"
| "collect p ((e, b) # rs) r =
     andthen (process_buffer_cb p e b r) (\<lambda>(c, r).
     andthen (collect p rs r) (\<lambda>(cs, r). Inr (c # cs, r)))"

definition calls_back :: "RpcBase \<Rightarrow> EndPoint \<Rightarrow> cval \<Rightarrow> cval" where
  "calls_back r e v = (case on_each_function r of None \<Rightarrow> v | Some f \<Rightarrow> fst (f e v False))"

definition wakes :: "RpcBase \<Rightarrow> nat \<Rightarrow> cptr" where
  "wakes r n = (if finish_condition r = WHEN_ANY \<or> finish_condition r = WHEN_ALL \<and> n = length (endpoints r) \<or>
      finish_condition r = WHEN_MAJORITY \<and> n = length (endpoints r) div 2 + 1
    then rb_coroutine r else None)"

text \<open>
  A response \<open>(i, b, v)\<close> comes from the \<open>i\<close>-th end point, which no other end point equals,
  and its bytes \<open>b\<close> read back as \<open>v\<close>.
\<close>

definition response_ok :: "process \<Rightarrow> RpcBase \<Rightarrow> EndPoint \<times> bytes \<Rightarrow> nat \<times> cval \<Rightarrow> bool" where
  "response_ok p r resp iv \<longleftrightarrow>
     fst iv < length (endpoints r) \<and>
     (\<forall>j < length (endpoints r). EndPoint_eq (fst (endpoints r ! j)) (fst resp) \<longleftrightarrow> j = fst iv) \<and>
     (\<exists>pos. deserialize0 (pr_codec p) (rb_ret r) (init_val (pr_codec p) (rb_ret r))
        (int (length (snd resp))) (snd resp) = Inr (snd iv, pos))"

lemma mark_received_at:
  "i < length xs \<Longrightarrow> EndPoint_eq (fst (xs ! i)) peer \<Longrightarrow> \<forall>j < i. \<not> EndPoint_eq (fst (xs ! j)) peer \<Longrightarrow>
   mark_received peer xs = xs[i := (fst (xs ! i), True)]"
proof (induction xs arbitrary: i)
  case Nil
  then show ?case by simp
next
  case (Cons x xs)
  obtain e b where x: "x = (e, b)" by (cases x)
  show ?case
  proof (cases i)
    case 0
    with Cons.prems x show ?thesis by simp
  next
    case (Suc k)
    have "\<not> EndPoint_eq e peer" using Cons.prems(3) Suc x by force
    moreover have "mark_received peer xs = xs[k := (fst (xs ! k), True)]"
      by (rule Cons.IH) (use Cons.prems Suc in auto)
    ultimately show ?thesis using Suc x by simp
  qed
qed

lemma mark_received_none:
  "\<forall>j < length xs. \<not> EndPoint_eq (fst (xs ! j)) peer \<Longrightarrow> mark_received peer xs = xs"
proof (induction xs)
  case (Cons x xs)
  obtain e b where x: "x = (e, b)" by (cases x)
  have "\<not> EndPoint_eq e peer" using Cons.prems x by force
  moreover have "mark_received peer xs = xs" by (rule Cons.IH) (use Cons.prems in force)
  ultimately show ?case using x by simp
qed simp

lemma process_buffer_cb_alt:
  "process_buffer_cb p e b r =
     andthen (deserialize0 (pr_codec p) (rb_ret r) (init_val (pr_codec p) (rb_ret r)) (int (length b)) b) (\<lambda>(v, _).
     andthen (finished_by (finish_condition r) (Suc (length (received_results r))) (length (endpoints r))) (\<lambda>n.
       Inr (if n then rb_coroutine r else None,
         r\<lparr>received_results := received_results r @ [(e, VValue (calls_back r e v))],
           endpoints := mark_received e (endpoints r)\<rparr>)))"
  unfolding process_buffer_cb_def Let_def split_def calls_back_def
  by (cases "on_each_function r") simp_all

lemma process_buffer_cb_ok:
  assumes "response_ok p r (e, b) (i, v)" and "finish_condition r \<noteq> FC_INVALID"
  shows "process_buffer_cb p e b r = Inr (wakes r (Suc (length (received_results r))),
     r\<lparr>received_results := received_results r @ [(e, VValue (calls_back r e v))],
       endpoints := (endpoints r)[i := (fst (endpoints r ! i), True)]\<rparr>)"
proof -
  have "mark_received e (endpoints r) = (endpoints r)[i := (fst (endpoints r ! i), True)]"
    by (rule mark_received_at) (use assms(1) in \<open>auto simp: response_ok_def\<close>)
  moreover obtain pos where "deserialize0 (pr_codec p) (rb_ret r) (init_val (pr_codec p) (rb_ret r))
      (int (length b)) b = Inr (v, pos)"
    using assms(1) by (auto simp: response_ok_def)
  ultimately show ?thesis
    using assms(2)
    by (cases "finish_condition r") (simp_all add: process_buffer_cb_alt wakes_def finished_by_def)
qed

lemma fst_marked: "j < length xs \<Longrightarrow> fst (xs[i := (fst (xs ! i), True)] ! j) = fst (xs ! j)"
  by (cases "j = i") simp_all

lemma response_ok_step:
  "response_ok p r resp iv \<Longrightarrow>
   response_ok p (r\<lparr>received_results := xs, endpoints := (endpoints r)[i := (fst (endpoints r ! i), True)]\<rparr>) resp iv"
  by (simp add: response_ok_def fst_marked)

definition flags_after :: "(EndPoint \<times> bool) list \<Rightarrow> nat list \<Rightarrow> (EndPoint \<times> bool) list" where
  "flags_after es is = map (\<lambda>j. (fst (es ! j), snd (es ! j) \<or> j \<in> set is)) [0..<length es]"

lemma flags_after_Nil [simp]: "flags_after es [] = es"
  by (simp add: flags_after_def map_nth)

lemma flags_after_step:
  "i < length es \<Longrightarrow> flags_after (es[i := (fst (es ! i), True)]) is = flags_after es (i # is)"
  by (auto simp: flags_after_def nth_list_update)

lemma collect_ok:
  assumes "list_all2 (response_ok p r) resps ivs" and "finish_condition r \<noteq> FC_INVALID"
  shows "collect p resps r = Inr (map (\<lambda>k. wakes r (length (received_results r) + Suc k)) [0..<length resps],
    r\<lparr>received_results := received_results r
        @ map2 (\<lambda>resp iv. (fst resp, VValue (calls_back r (fst resp) (snd iv)))) resps ivs,
      endpoints := flags_after (endpoints r) (map fst ivs)\<rparr>)"
  using assms
proof (induction resps arbitrary: ivs r)
  case Nil
  then show ?case by simp
next
  case (Cons resp resps)
  obtain e b where resp: "resp = (e, b)" by (cases resp)
  obtain i v ivs' where ivs: "ivs = (i, v) # ivs'" and one: "response_ok p r (e, b) (i, v)"
    and rest: "list_all2 (response_ok p r) resps ivs'"
    using Cons.prems(1) resp by (auto simp: list_all2_Cons1)
  let ?r1 = "r\<lparr>received_results := received_results r @ [(e, VValue (calls_back r e v))],
       endpoints := (endpoints r)[i := (fst (endpoints r ! i), True)]\<rparr>"
  note cb = process_buffer_cb_ok [OF one Cons.prems(2)]
  have "list_all2 (response_ok p ?r1) resps ivs'"
    using rest by (rule list_all2_mono) (rule response_ok_step)
  moreover have "finish_condition ?r1 \<noteq> FC_INVALID" using Cons.prems(2) by simp
  ultimately have ih: "collect p resps ?r1
     = Inr (map (\<lambda>k. wakes ?r1 (length (received_results ?r1) + Suc k)) [0..<length resps],
    ?r1\<lparr>received_results := received_results ?r1
        @ map2 (\<lambda>resp iv. (fst resp, VValue (calls_back ?r1 (fst resp) (snd iv)))) resps ivs',
      endpoints := flags_after (endpoints ?r1) (map fst ivs')\<rparr>)"
    by (rule Cons.IH)
  have i: "i < length (endpoints r)" using one by (simp add: response_ok_def)
  have "wakes ?r1 n = wakes r n" and "calls_back ?r1 = calls_back r" for n
    by (simp_all add: wakes_def calls_back_def fun_eq_iff)
  moreover have "map f [0..<Suc n] = f 0 # map (\<lambda>k. f (Suc k)) [0..<n]" for f :: "nat \<Rightarrow> cptr" and n
    by (simp add: upt_conv_Cons map_Suc_upt [symmetric] del: upt_Suc)
  ultimately show ?case
    using cb ih by (simp add: resp ivs flags_after_step [OF i] del: upt_Suc)
qed

definition fresh_call :: "RpcBase \<Rightarrow> bool" where
  "fresh_call r \<longleftrightarrow> received_results r = [] \<and> (\<forall>e \<in> set (endpoints r). \<not> snd e) \<and> finish_condition r \<noteq> FC_INVALID"

text \<open>
  C17. Responses that come from distinct end points of the call and can be read: the \<open>k\<close>-th
  one wakes the caller exactly when the finish condition is met by \<open>k\<close> results (any, all, or
  just more than half), the results are kept in the order of arrival with the values the
  callback left, and exactly the end points that answered are marked.
\<close>

theorem caller_woken_when_condition_is_met:
  assumes "fresh_call r" and "list_all2 (response_ok p r) resps ivs"
  shows "\<exists>cs r'. collect p resps r = Inr (cs, r') \<and> length cs = length resps \<and>
    (\<forall>k < length resps. cs ! k =
      (if finish_condition r = WHEN_ANY \<or> finish_condition r = WHEN_ALL \<and> Suc k = length (endpoints r) \<or>
          finish_condition r = WHEN_MAJORITY \<and> Suc k = length (endpoints r) div 2 + 1
       then rb_coroutine r else None)) \<and>
    received_results r' = map2 (\<lambda>resp iv. (fst resp, VValue (calls_back r (fst resp) (snd iv)))) resps ivs \<and>
    (\<forall>j < length (endpoints r). snd (endpoints r' ! j) \<longleftrightarrow> j \<in> fst ` set ivs)"
proof -
  have f: "received_results r = []" "finish_condition r \<noteq> FC_INVALID"
    "\<And>j. j < length (endpoints r) \<Longrightarrow> \<not> snd (endpoints r ! j)"
    using assms(1) by (auto simp: fresh_call_def)
  show ?thesis
    using collect_ok [OF assms(2) f(2)] f(1,3) by (simp add: wakes_def flags_after_def)
qed

definition demo_call :: "FinishCondition \<Rightarrow> RpcBase" where
  "demo_call fc = (rpc_when fc (rpc_on [EndPoint_v4 [127, 0, 0, 1] 80, EndPoint_v4 [127, 0, 0, 1] 81,
     EndPoint_v4 [127, 0, 0, 1] 82] (new_RpcBase [] (TNum 1) 2)))\<lparr>rb_coroutine := Some 5\<rparr>"

lemma demo_response:
  "k < 3 \<Longrightarrow> response_ok demo_process (demo_call fc) (EndPoint_v4 [127, 0, 0, 1] (80 + word_of_nat k), [b])
    (k, VNum (unat b))"
proof -
  assume "k < 3"
  then have "k = 0 \<or> k = 1 \<or> k = 2" by auto
  moreover have "deserialize0 (pr_codec demo_process) (TNum 1) (VNum 0) 1 [b] = Inr (VNum (unat b), 1)"
    by (simp add: deserialize0_def demo_process_def std_codec_def des_fundamental_def exceeds_def
        mem_read_def obj_value_def advance_def to_i64_def)
  ultimately show ?thesis
    by (auto simp: response_ok_def demo_call_def rpc_when_def rpc_on_def new_RpcBase_def EndPoint_eq_v4
        less_Suc_eq numeral_eq_Suc)
qed

lemma demo_call_sel [simp]:
  "length (endpoints (demo_call fc)) = 3" "finish_condition (demo_call fc) = fc"
  "rb_coroutine (demo_call fc) = Some 5" "calls_back (demo_call fc) = (\<lambda>e v. v)"
  by (simp_all add: demo_call_def rpc_when_def rpc_on_def new_RpcBase_def calls_back_def fun_eq_iff)

lemma demo_fresh: "fc \<noteq> FC_INVALID \<Longrightarrow> fresh_call (demo_call fc)"
  by (auto simp: fresh_call_def demo_call_def rpc_when_def rpc_on_def new_RpcBase_def)

theorem caller_woken_when_condition_is_met_witness:
  "\<exists>r'. collect demo_process [(EndPoint_v4 [127, 0, 0, 1] 82, [9]), (EndPoint_v4 [127, 0, 0, 1] 80, [8])]
      (demo_call WHEN_MAJORITY) = Inr ([None, Some 5], r') \<and>
    map snd (received_results r') = [VValue (VNum 9), VValue (VNum 8)]"
proof -
  have "list_all2 (response_ok demo_process (demo_call WHEN_MAJORITY))
      [(EndPoint_v4 [127, 0, 0, 1] 82, [9]), (EndPoint_v4 [127, 0, 0, 1] 80, [8])] [(2, VNum 9), (0, VNum 8)]"
    using demo_response [of 2 WHEN_MAJORITY 9] demo_response [of 0 WHEN_MAJORITY 8] by simp
  from caller_woken_when_condition_is_met [OF demo_fresh this]
  obtain cs r' where c: "collect demo_process [(EndPoint_v4 [127, 0, 0, 1] 82, [9]), (EndPoint_v4 [127, 0, 0, 1] 80, [8])]
      (demo_call WHEN_MAJORITY) = Inr (cs, r')" "length cs = 2"
    "\<forall>k < 2. cs ! k = (if Suc k = 2 then Some 5 else None)"
    "map snd (received_results r') = [VValue (VNum 9), VValue (VNum 8)]"
    by fastforce
  obtain a b where "cs = [a, b]" using c(2) by (auto simp: numeral_eq_Suc length_Suc_conv)
  with c(3) have "cs = [None, Some 5]" by (auto dest: spec [where x = 0] spec [where x = 1])
  with c show ?thesis by auto
qed

section \<open>Timeouts\<close>

lemma count_missing:
  assumes "distinct is" and "set is \<subseteq> {..<n}"
  shows "length (filter (\<lambda>j. j \<notin> set is) [0..<n]) + length is = n"
proof -
  have "length (filter (\<lambda>j. j \<in> set is) [0..<n]) = card ({j. j \<in> set is} \<inter> set [0..<n])"
    by (rule distinct_length_filter) simp
  also have "{j. j \<in> set is} \<inter> set [0..<n] = set is" using assms(2) by auto
  finally have "length (filter (\<lambda>j. j \<in> set is) [0..<n]) = length is"
    using assms(1) by (simp add: distinct_card)
  with sum_length_filter_compl [of "\<lambda>j. j \<in> set is" "[0..<n]"] show ?thesis by simp
qed

lemma missing_after:
  "\<forall>e \<in> set es. \<not> snd e \<Longrightarrow>
   map (\<lambda>(e, b). (e, VUnexp RPC_TIMEOUT)) (filter (\<lambda>(e, b). \<not> b) (flags_after es is))
   = map (\<lambda>j. (fst (es ! j), VUnexp RPC_TIMEOUT)) (filter (\<lambda>j. j \<notin> set is) [0..<length es])"
proof -
  assume "\<forall>e \<in> set es. \<not> snd e"
  then have "\<not> snd (es ! j)" if "j < length es" for j using that by simp
  then show ?thesis
    unfolding flags_after_def filter_map map_map
    by (intro map_cong filter_cong) auto
qed

lemma responders_in_range:
  "list_all2 (response_ok p r) resps ivs \<Longrightarrow> set (map fst ivs) \<subseteq> {..<length (endpoints r)}"
  by (induction resps ivs rule: list_all2_induct) (auto simp: response_ok_def)

text \<open>
  C18. A timeout after any number of readable responses, each from an end point of the call and no
  two from the same, gives the caller one result per end point: the responses in the order of
  arrival, then the error -1001 for every end point that did not answer, in the order of the call;
  its assertion holds. (With a response from another end point it does not hold, as the theorem
  behind this one shows.)
\<close>

theorem timeout_completes_the_results:
  assumes "fresh_call r" and "list_all2 (response_ok p r) resps ivs" and "distinct (map fst ivs)"
  shows "\<exists>cs r1 r2. collect p resps r = Inr (cs, r1) \<and> timeout_cb r1 = Inr r2 \<and>
    received_results r2 = received_results r1 @
      map (\<lambda>j. (fst (endpoints r ! j), VUnexp (- 1001))) (filter (\<lambda>j. j \<notin> set (map fst ivs)) [0..<length (endpoints r)]) \<and>
    length (received_results r2) = length (endpoints r)"
proof -
  have f: "received_results r = []" "finish_condition r \<noteq> FC_INVALID" "\<forall>e \<in> set (endpoints r). \<not> snd e"
    using assms(1) by (auto simp: fresh_call_def)
  obtain cs r1 where c: "collect p resps r = Inr (cs, r1)"
    "received_results r1 = map2 (\<lambda>resp iv. (fst resp, VValue (calls_back r (fst resp) (snd iv)))) resps ivs"
    "endpoints r1 = flags_after (endpoints r) (map fst ivs)"
    using collect_ok [OF assms(2) f(2)] f(1) by simp
  have "length resps = length ivs" using assms(2) by (rule list_all2_lengthD)
  then have l1: "length (received_results r1) = length ivs" by (simp add: c(2))
  have "set (map fst ivs) \<subseteq> {..<length (endpoints r)}"
    using assms(2) by (rule responders_in_range)
  note count = count_missing [OF assms(3) this]
  let ?all = "received_results r1 @ map (\<lambda>j. (fst (endpoints r ! j), VUnexp RPC_TIMEOUT))
      (filter (\<lambda>j. j \<notin> set (map fst ivs)) [0..<length (endpoints r)])"
  have res: "received_results r1 @ map (\<lambda>(e, b). (e, VUnexp RPC_TIMEOUT)) (filter (\<lambda>(e, b). \<not> b) (endpoints r1)) = ?all"
    by (simp only: c(3) missing_after [OF f(3)])
  have "length ?all = length (endpoints r)"
    using count l1 by (simp only: length_append length_map)
  moreover have "length (endpoints r1) = length (endpoints r)" by (simp add: c(3) flags_after_def)
  ultimately have "timeout_cb r1 = Inr (r1\<lparr>received_results := ?all\<rparr>)"
    unfolding timeout_cb_def Let_def res by simp
  with c(1) \<open>length ?all = length (endpoints r)\<close> show ?thesis
    by (auto simp: RPC_TIMEOUT_def)
qed

theorem timeout_completes_the_results_witness:
  "\<exists>cs r1 r2. collect demo_process [(EndPoint_v4 [127, 0, 0, 1] 81, [9])] (demo_call WHEN_ALL) = Inr (cs, r1) \<and>
    timeout_cb r1 = Inr r2 \<and> length (received_results r2) = 3"
proof -
  have "list_all2 (response_ok demo_process (demo_call WHEN_ALL)) [(EndPoint_v4 [127, 0, 0, 1] 81, [9])] [(1, VNum 9)]"
    using demo_response [of 1 WHEN_ALL 9] by simp
  from timeout_completes_the_results [OF demo_fresh this]
  show ?thesis by auto
qed

text \<open>
  A readable response from a peer that equals none of the call's end points (an answer
  from another interface, or from another call of the same coroutine) is counted as a result
  without marking any end point: if the timeout then fires, its assertion fails and the
  process aborts.
\<close>

theorem stray_response_aborts_at_timeout:
  assumes "fresh_call r" and "\<forall>e \<in> set (endpoints r). \<not> EndPoint_eq (fst e) peer"
    and "deserialize0 (pr_codec p) (rb_ret r) (init_val (pr_codec p) (rb_ret r)) (int (length b)) b = Inr (v, pos)"
  shows "\<exists>c r1. process_buffer_cb p peer b r = Inr (c, r1) \<and> length (received_results r1) = 1 \<and>
    endpoints r1 = endpoints r \<and> timeout_cb r1 = Inl Assert_failed"
proof -
  have f: "received_results r = []" "finish_condition r \<noteq> FC_INVALID" "\<forall>e \<in> set (endpoints r). \<not> snd e"
    using assms(1) by (auto simp: fresh_call_def)
  have m: "mark_received peer (endpoints r) = endpoints r"
    by (rule mark_received_none) (use assms(2) in simp)
  obtain c where cb: "process_buffer_cb p peer b r
      = Inr (c, r\<lparr>received_results := [(peer, VValue (calls_back r peer v))], endpoints := endpoints r\<rparr>)"
    using assms(3) f(1,2) m by (cases "finish_condition r")
      (simp_all add: process_buffer_cb_alt finished_by_def)
  have "filter (\<lambda>(e, b). \<not> b) (endpoints r) = endpoints r"
    using f(3) by (intro filter_True) auto
  then have "timeout_cb (r\<lparr>received_results := [(peer, VValue (calls_back r peer v))], endpoints := endpoints r\<rparr>)
      = Inl Assert_failed"
    by (simp add: timeout_cb_def)
  with cb show ?thesis by auto
qed

theorem stray_response_aborts_at_timeout_witness:
  "\<exists>c r1. process_buffer_cb demo_process (EndPoint_v4 [10, 0, 0, 9] 80) [1] (demo_call WHEN_ALL) = Inr (c, r1) \<and>
    length (received_results r1) = 1 \<and> endpoints r1 = endpoints (demo_call WHEN_ALL) \<and>
    timeout_cb r1 = Inl Assert_failed"
proof (rule stray_response_aborts_at_timeout)
  show "fresh_call (demo_call WHEN_ALL)" by (rule demo_fresh) simp
  show "\<forall>e \<in> set (endpoints (demo_call WHEN_ALL)). \<not> EndPoint_eq (fst e) (EndPoint_v4 [10, 0, 0, 9] 80)"
    by (simp add: demo_call_def rpc_when_def rpc_on_def new_RpcBase_def EndPoint_eq_v4)
  show "deserialize0 (pr_codec demo_process) (rb_ret (demo_call WHEN_ALL))
      (init_val (pr_codec demo_process) (rb_ret (demo_call WHEN_ALL))) (int (length [1 :: u8])) [1] = Inr (VNum 1, 1)"
    by (simp add: deserialize0_def demo_process_def std_codec_def des_fundamental_def exceeds_def mem_read_def
        obj_value_def advance_def to_i64_def demo_call_def rpc_when_def rpc_on_def new_RpcBase_def)
qed

text \<open>
  The third argument of the callback has no effect: two callbacks that leave the same
  values but different decisions on \<open>need_resume\<close> give the same wake-up and the same state.
\<close>

theorem callback_cannot_resume_the_caller:
  assumes "\<And>e v n. fst (f e v n) = fst (g e v n)"
  shows "andthen (process_buffer_cb p peer b (rpc_on_each f r)) (\<lambda>(c, r'). Inr (c, r'\<lparr>on_each_function := None\<rparr>))
    = andthen (process_buffer_cb p peer b (rpc_on_each g r)) (\<lambda>(c, r'). Inr (c, r'\<lparr>on_each_function := None\<rparr>))"
proof -
  have "calls_back (rpc_on_each f r) = calls_back (rpc_on_each g r)"
    using assms by (simp add: calls_back_def rpc_on_each_def fun_eq_iff)
  then show ?thesis
    by (simp add: process_buffer_cb_alt andthen_assoc split_def rpc_on_each_def cong: if_cong)
qed

theorem callback_cannot_resume_the_caller_witness:
  "andthen (process_buffer_cb demo_process (EndPoint_v4 [127, 0, 0, 1] 80) [1] (rpc_on_each (\<lambda>e v n. (v, True)) (demo_call WHEN_ALL)))
      (\<lambda>(c, r'). Inr (c, r'\<lparr>on_each_function := None\<rparr>))
    = andthen (process_buffer_cb demo_process (EndPoint_v4 [127, 0, 0, 1] 80) [1] (rpc_on_each (\<lambda>e v n. (v, False)) (demo_call WHEN_ALL)))
      (\<lambda>(c, r'). Inr (c, r'\<lparr>on_each_function := None\<rparr>))"
  by (rule callback_cannot_resume_the_caller) simp

end
