(* ===== verification/Scheduler.thy ===== *)
theory Scheduler
  imports Task_Props Time_Service
begin

text \<open>
  The scheduler \<open>CoroScheduler\<close> (\<open>src/src/coroutine_framework/scheduler.h\<close> and
  \<open>scheduler.cpp\<close>): start and stop of its modules, and the loop of a worker thread, which takes
  one frame at a time from the shared queue into its own queue under the lock and resumes what
  it took. The body of a coroutine is the users' code: resuming a frame is a parameter of the
  sequential definitions, and in the concurrent ones the commits a body makes are steps of
  their own, so that they interleave with those of all other threads.
\<close>

section \<open>State, start and stop\<close>

text \<open>
  \<open>sc_local i\<close> is the \<open>ready_coroutine_queue\<close> of worker \<open>i\<close>, \<open>sc_tls\<close> says whether the
  thread-local pointers of the starting thread are set, \<open>sc_io_stopped\<close> that
  \<open>io_ctx_.stop()\<close> was called. \<open>sc_resumed\<close> lists the calls of \<open>handle_.resume()\<close>: the worker
  that made it and the handle.
\<close>

record sched =
  sc_time :: TimeService
  sc_net_stop_flag :: bool
  sc_io_stopped :: bool
  sc_workers :: nat
  sc_worker_thread_num :: u32
  sc_stop_flag :: bool
  sc_tasks :: tstate
  sc_local :: "nat \<Rightarrow> CoroutineQueue"
  sc_resumed :: "(nat \<times> nat) list"

definition sched_start :: "sched \<Rightarrow> sched" where
  "sched_start s = s\<lparr>sc_time := ts_start (sc_time s), sc_net_stop_flag := False, sc_stop_flag := False,
     sc_workers := sc_workers s + unat (sc_worker_thread_num s)\<rparr>"


text \<open>The constructor: modules of a stopped scheduler, then \<open>start()\<close>.\<close>

definition new_sched :: "u32 \<Rightarrow> u64 \<Rightarrow> tstate \<Rightarrow> sched" where
  "new_sched worker_thread_num now s = sched_start
     \<lparr>sc_time = new_TimeService 1000000 now, sc_net_stop_flag = True, sc_io_stopped = False, sc_workers = 0,
      sc_worker_thread_num = worker_thread_num, sc_stop_flag = True,
      sc_tasks = s\<lparr>tw := (tw s)\<lparr>coroutine_queue := new_queue\<rparr>, running_cnt := 0\<rparr>,
      sc_local = (\<lambda>_. new_queue), sc_resumed = []\<rparr>"

definition sched_commit :: "cptr \<Rightarrow> sched \<Rightarrow> fault + (commit_result \<times> sched)" where
  "sched_commit task s =
     andthen (scheduler_commit (sc_stop_flag s) task (sc_tasks s)) (\<lambda>(r, t). Inr (r, s\<lparr>sc_tasks := t\<rparr>))"

section \<open>The worker loop\<close>

text \<open>
  The part of a turn under the lock. Waiting for a frame, for the stop flag or for the two to
  three seconds to pass has no effect on the state.
\<close>

definition worker_take :: "nat \<Rightarrow> sched \<Rightarrow> fault + sched" where
  "worker_take i s =
     (let t = sc_tasks s; w = tw t in
      if \<not> queue_empty (coroutine_queue w)
      then andthen (pop_from_head (frames w) (coroutine_queue w)) (\<lambda>(f, h, q).
           andthen (append_to_tail h (sc_local s i) f) (\<lambda>(h, lq).
             Inr (s\<lparr>sc_tasks := t\<lparr>tw := w\<lparr>frames := h, coroutine_queue := q\<rparr>\<rparr>,
                    sc_local := (sc_local s)(i := lq)\<rparr>)))
      else Inr s)"

text \<open>The body of the loop of \<open>consume_ready_coroutine_\<close>, up to the call of \<open>resume\<close>.\<close>

definition worker_next :: "nat \<Rightarrow> sched \<Rightarrow> fault + (nat \<times> sched)" where
  "worker_next i s =
     (let t = sc_tasks s; w = tw t in
      andthen (pop_from_head (frames w) (sc_local s i)) (\<lambda>(f, h, lq).
      let _ = sync_acquire h f in
        Inr (lc_handle (h f), s\<lparr>sc_tasks := t\<lparr>tw := w\<lparr>frames := h\<rparr>\<rparr>, sc_local := (sc_local s)(i := lq)\<rparr>)))"

text \<open>The call \<open>handle_.resume()\<close>; what the body then does is a parameter or steps of their own.\<close>

definition resume_handle :: "nat \<Rightarrow> nat \<Rightarrow> sched \<Rightarrow> sched" where
  "resume_handle i hnd s = s\<lparr>sc_resumed := sc_resumed s @ [(i, hnd)]\<rparr>"




section \<open>All threads together\<close>

text \<open>
  The steps of the threads on the queues: any thread commits a frame, worker \<open>i\<close> takes one when
  its own queue is empty (it has left \<open>consume_ready_coroutine_\<close>), worker \<open>i\<close> resumes one.
\<close>

datatype thread_step = Commits nat | Takes nat | Resumes nat

inductive sched_step :: "sched \<Rightarrow> thread_step \<Rightarrow> fault + sched \<Rightarrow> bool" where
  commits: "commit_frame (tw (sc_tasks s)) f = Inr w \<Longrightarrow>
    sched_step s (Commits f) (Inr (s\<lparr>sc_tasks := (sc_tasks s)\<lparr>tw := w\<rparr>\<rparr>))"
| commits_fault: "commit_frame (tw (sc_tasks s)) f = Inl e \<Longrightarrow> sched_step s (Commits f) (Inl e)"
| takes: "queue_empty (sc_local s i) \<Longrightarrow> worker_take i s = r \<Longrightarrow> sched_step s (Takes i) r"
| resumes: "\<not> queue_empty (sc_local s i) \<Longrightarrow> worker_next i s = Inr (hnd, s') \<Longrightarrow>
    sched_step s (Resumes i) (Inr (resume_handle i hnd s'))"
| resumes_fault: "\<not> queue_empty (sc_local s i) \<Longrightarrow> worker_next i s = Inl e \<Longrightarrow>
    sched_step s (Resumes i) (Inl e)"

code_pred (modes: i \<Rightarrow> i \<Rightarrow> o \<Rightarrow> bool) sched_step .

inductive_cases commits_cases: "sched_step s (Commits f) r"
inductive_cases takes_cases: "sched_step s (Takes i) r"
inductive_cases resumes_cases: "sched_step s (Resumes i) r"

inductive sched_run :: "sched \<Rightarrow> thread_step list \<Rightarrow> fault + sched \<Rightarrow> bool" where
  run_ends: "sched_run s [] (Inr s)"
| run_fails: "sched_step s x (Inl e) \<Longrightarrow> sched_run s (x # xs) (Inl e)"
| run_step: "sched_step s x (Inr s') \<Longrightarrow> sched_run s' xs r \<Longrightarrow> sched_run s (x # xs) r"

inductive_cases run_Nil_cases: "sched_run s [] r"
inductive_cases run_Cons_cases: "sched_run s (x # xs) r"

text \<open>
  What the scheduler promises: a list of waiting frames, at most one frame in the hands of each
  worker, and which worker has resumed which frame so far. A frame is committed only when it is
  nowhere.
\<close>

record schedule =
  waiting :: "nat list"
  held :: "nat \<Rightarrow> nat option"
  resumed :: "(nat \<times> nat) list"

definition opt_list :: "'a option \<Rightarrow> 'a list" where
  "opt_list x = (case x of None \<Rightarrow> [] | Some y \<Rightarrow> [y])"

fun promised :: "thread_step \<Rightarrow> schedule \<Rightarrow> schedule" where
  "promised (Commits f) a = a\<lparr>waiting := waiting a @ [f]\<rparr>"
| "promised (Takes i) a =
     (case waiting a of [] \<Rightarrow> a | f # fs \<Rightarrow> a\<lparr>waiting := fs, held := (held a)(i := Some f)\<rparr>)"
| "promised (Resumes i) a =
     (case held a i of None \<Rightarrow> a | Some f \<Rightarrow> a\<lparr>held := (held a)(i := None), resumed := resumed a @ [(i, f)]\<rparr>)"

definition nowhere :: "schedule \<Rightarrow> nat \<Rightarrow> bool" where
  "nowhere a f \<longleftrightarrow> f \<notin> set (waiting a) \<and> (\<forall>i. held a i \<noteq> Some f)"

text \<open>The order of the code: a worker takes a frame when it holds none and resumes what it holds.\<close>

fun allowed :: "thread_step list \<Rightarrow> schedule \<Rightarrow> bool" where
  "allowed [] a = True"
| "allowed (Commits f # xs) a = (nowhere a f \<and> allowed xs (promised (Commits f) a))"
| "allowed (Takes i # xs) a = (held a i = None \<and> allowed xs (promised (Takes i) a))"
| "allowed (Resumes i # xs) a = (held a i \<noteq> None \<and> allowed xs (promised (Resumes i) a))"

text \<open>The frames committed, and those taken with the worker that took them, in order.\<close>

fun committed :: "thread_step list \<Rightarrow> nat list" where
  "committed [] = []"
| "committed (Commits f # xs) = f # committed xs"
| "committed (_ # xs) = committed xs"

fun taken :: "thread_step list \<Rightarrow> schedule \<Rightarrow> (nat \<times> nat) list" where
  "taken [] a = []"
| "taken (Takes i # xs) a =
     (case waiting a of [] \<Rightarrow> [] | f # _ \<Rightarrow> [(i, f)]) @ taken xs (promised (Takes i) a)"
| "taken (x # xs) a = taken xs (promised x a)"

text \<open>What worker \<open>i\<close> took, or resumed.\<close>

definition of_worker :: "nat \<Rightarrow> (nat \<times> nat) list \<Rightarrow> nat list" where
  "of_worker i ps = map snd (filter (\<lambda>(j, f). j = i) ps)"

lemma of_worker_simps [simp]:
  "of_worker i [] = []" "of_worker i ((j, f) # ps) = (if j = i then f # of_worker i ps else of_worker i ps)"
  "of_worker i (ps @ qs) = of_worker i ps @ of_worker i qs"
  by (simp_all add: of_worker_def)

text \<open>\<open>hnd f\<close> is the coroutine handle of frame \<open>f\<close>, which no step changes.\<close>

definition schedule_rep :: "(nat \<Rightarrow> nat) \<Rightarrow> sched \<Rightarrow> schedule \<Rightarrow> bool" where
  "schedule_rep hnd s a \<longleftrightarrow>
     ready (tw (sc_tasks s)) (waiting a) \<and>
     (\<forall>i. queue_rep (frames (tw (sc_tasks s))) (sc_local s i) (opt_list (held a i))) \<and>
     (\<forall>i f. held a i = Some f \<longrightarrow> f \<notin> set (waiting a)) \<and>
     (\<forall>i j f. held a i = Some f \<longrightarrow> held a j = Some f \<longrightarrow> i = j) \<and>
     (\<forall>f. nowhere a f \<longrightarrow> loose (frames (tw (sc_tasks s))) f) \<and>
     (\<forall>f. lc_handle (frames (tw (sc_tasks s)) f) = hnd f) \<and>
     sc_resumed s = map (\<lambda>(i, f). (i, hnd f)) (resumed a)"

lemma opt_list_simps [simp]: "opt_list None = []" "opt_list (Some x) = [x]"
  by (simp_all add: opt_list_def)

lemma set_opt_list: "x \<in> set (opt_list y) \<longleftrightarrow> y = Some x"
  by (auto simp: opt_list_def split: option.splits)

section \<open>The promise is kept\<close>

lemma committed_order:
  "waiting a @ committed xs = map snd (taken xs a) @ waiting (fold promised xs a)"
proof (induction xs arbitrary: a)
  case (Cons x xs)
  note ih = Cons.IH [of "promised x a"]
  show ?case
  proof (cases x)
    case (Takes i)
    with ih show ?thesis by (cases "waiting a") auto
  next
    case (Resumes i)
    with ih show ?thesis by (cases "held a i") auto
  qed (use ih in simp)
qed simp

lemma taken_resumed:
  assumes "allowed xs a"
  shows "of_worker i (resumed a) @ opt_list (held a i) @ of_worker i (taken xs a) =
    of_worker i (resumed (fold promised xs a)) @ opt_list (held (fold promised xs a) i)"
  using assms
proof (induction xs arbitrary: a)
  case (Cons x xs)
  note ih = Cons.IH [of "promised x a"]
  show ?case
  proof (cases x)
    case (Takes j)
    with ih Cons.prems show ?thesis by (cases "waiting a"; cases "j = i") auto
  next
    case (Resumes j)
    with ih Cons.prems show ?thesis by (cases "held a j"; cases "j = i") auto
  qed (use ih Cons.prems in simp)
qed simp

lemma same_handle: "same_but_links h h' \<Longrightarrow> lc_handle (h' a) = lc_handle (h a)"
proof -
  assume "same_but_links h h'"
  then have "(h' a)\<lparr>in_queue_link_next := None\<rparr> = (h a)\<lparr>in_queue_link_next := None\<rparr>" by (simp add: same_but_links_def)
  then have "lc_handle ((h' a)\<lparr>in_queue_link_next := None\<rparr>) = lc_handle ((h a)\<lparr>in_queue_link_next := None\<rparr>)" by simp
  then show ?thesis by simp
qed

lemma commits_refines:
  assumes rep: "schedule_rep hnd s a" and f: "nowhere a f" and fits: "fits_u64 (Suc (length (waiting a)))"
  obtains w where "commit_frame (tw (sc_tasks s)) f = Inr w"
    and "schedule_rep hnd (s\<lparr>sc_tasks := (sc_tasks s)\<lparr>tw := w\<rparr>\<rparr>) (promised (Commits f) a)"
proof -
  let ?w = "tw (sc_tasks s)"
  have r: "ready ?w (waiting a)" and l: "loose (frames ?w) f" and n: "f \<notin> set (waiting a)"
    and q: "\<forall>i. queue_rep (frames ?w) (sc_local s i) (opt_list (held a i))"
    using rep f by (auto simp: schedule_rep_def nowhere_def)
  obtain w' where c: "commit_frame ?w f = Inr w'" "ready w' (waiting a @ [f])"
    "same_but_links (frames ?w) (frames w')"
    "\<forall>x. x \<notin> set (waiting a) \<longrightarrow> x \<noteq> f \<longrightarrow> loose (frames w') x = loose (frames ?w) x"
    "\<forall>q2 ys. set ys \<inter> set (waiting a) = {} \<longrightarrow> queue_rep (frames ?w) q2 ys \<longrightarrow> queue_rep (frames w') q2 ys"
    by (rule commit_frame_ready [OF r n l fits])
  have "set (opt_list (held a i)) \<inter> set (waiting a) = {}" for i
    using rep by (cases "held a i") (simp_all add: schedule_rep_def)
  then have "\<forall>i. queue_rep (frames w') (sc_local s i) (opt_list (held a i))" using c(5) q by blast
  moreover have "\<forall>g. lc_handle (frames w' g) = hnd g" using rep same_handle [OF c(3)] by (simp add: schedule_rep_def)
  ultimately show thesis using c(1,2,4) rep f
    by (intro that [of w']) (auto simp: schedule_rep_def nowhere_def)
qed

lemma takes_refines:
  assumes rep: "schedule_rep hnd s a" and i: "held a i = None"
  obtains s' where "queue_empty (sc_local s i)" and "worker_take i s = Inr s'"
    and "schedule_rep hnd s' (promised (Takes i) a)"
proof (cases "waiting a")
  case Nil
  have "queue_rep (frames (tw (sc_tasks s))) (sc_local s i) []"
    "queue_rep (frames (tw (sc_tasks s))) (coroutine_queue (tw (sc_tasks s))) []"
    using rep i Nil unfolding schedule_rep_def ready_def by (metis opt_list_simps(1), metis)
  then have e: "queue_empty (sc_local s i)" "queue_empty (coroutine_queue (tw (sc_tasks s)))"
    by (simp_all add: queue_rep_empty)
  show ?thesis by (rule that [of s]) (use e rep Nil in \<open>simp_all add: worker_take_def\<close>)
next
  case (Cons f fs)
  let ?w = "tw (sc_tasks s)"
  have r: "queue_rep (frames ?w) (coroutine_queue ?w) (f # fs)"
    and q: "queue_rep (frames ?w) (sc_local s j) (opt_list (held a j))" for j
    using rep Cons by (simp_all add: schedule_rep_def ready_def)
  have n: "\<forall>j. held a j \<noteq> Some f" using rep Cons unfolding schedule_rep_def by fastforce
  have d: "f \<notin> set fs" "distinct fs" using r by (simp_all add: queue_rep_def chain_rep_def)
  obtain h1 q1 where p: "pop_from_head (frames ?w) (coroutine_queue ?w) = Inr (f, h1, q1)"
    "queue_rep h1 q1 fs" "loose h1 f" "\<forall>x. x \<noteq> f \<longrightarrow> loose h1 x = loose (frames ?w) x"
    "\<forall>q2 ys. f \<notin> set ys \<longrightarrow> queue_rep (frames ?w) q2 ys \<longrightarrow> queue_rep h1 q2 ys"
    "same_but_links (frames ?w) h1"
    using cq.deq_law [OF r] by blast
  have q1: "queue_rep h1 (sc_local s j) (opt_list (held a j))" for j
    using p(5) q [of j] n by (simp add: set_opt_list)
  have q0: "queue_rep h1 (sc_local s i) []" using q1 [of i] i by simp
  obtain h2 lq where e: "append_to_tail h1 (sc_local s i) f = Inr (h2, lq)" "queue_rep h2 lq [f]"
    "\<forall>x. x \<noteq> f \<longrightarrow> loose h2 x = loose h1 x" "\<forall>q2 ys. queue_rep h1 q2 ys \<longrightarrow> queue_rep h2 q2 ys"
    "same_but_links h1 h2"
    using cq.enq_law [OF q0 _ p(3)] by (auto simp: fits_u64_def)
  let ?s = "s\<lparr>sc_tasks := (sc_tasks s)\<lparr>tw := ?w\<lparr>frames := h2, coroutine_queue := q1\<rparr>\<rparr>,
              sc_local := (sc_local s)(i := lq)\<rparr>"
  have t: "worker_take i s = Inr ?s"
    using queue_rep_empty [OF r] p(1) e(1) by (simp add: worker_take_def Let_def)
  have lo: "loose h2 x" if "nowhere (promised (Takes i) a) x" for x
  proof -
    have g: "x \<notin> set fs" "\<forall>j. ((held a)(i := Some f)) j \<noteq> Some x"
      using that Cons by (simp_all add: nowhere_def)
    have "x \<noteq> f" using g(2) [THEN spec [of _ i]] by auto
    moreover have "held a j \<noteq> Some x" for j using g(2) [THEN spec [of _ j]] i by (auto split: if_splits)
    ultimately show ?thesis using g(1) rep Cons p(4) e(3) by (simp add: schedule_rep_def nowhere_def)
  qed
  have "\<forall>g. lc_handle (h2 g) = hnd g"
    using rep same_handle [OF p(6)] same_handle [OF e(5)] by (simp add: schedule_rep_def)
  then have "schedule_rep hnd ?s (promised (Takes i) a)"
    using rep Cons e(1-4) p(2,4) q1 n d i lo unfolding schedule_rep_def ready_def
    by auto
  with t queue_rep_empty [OF q0] show ?thesis by (intro that [of ?s]) simp_all
qed

lemma resumes_refines:
  assumes rep: "schedule_rep hnd s a" and i: "held a i = Some f"
  obtains s' where "\<not> queue_empty (sc_local s i)" and "worker_next i s = Inr (hnd f, s')"
    and "schedule_rep hnd (resume_handle i (hnd f) s') (promised (Resumes i) a)"
proof -
  let ?w = "tw (sc_tasks s)"
  have q: "queue_rep (frames ?w) (sc_local s j) (opt_list (held a j))" for j
    using rep by (simp add: schedule_rep_def)
  have r: "queue_rep (frames ?w) (coroutine_queue ?w) (waiting a)" and n: "f \<notin> set (waiting a)"
    and u: "\<forall>j. held a j = Some f \<longrightarrow> j = i"
    using rep i unfolding schedule_rep_def ready_def by blast+
  have qi: "queue_rep (frames ?w) (sc_local s i) [f]" using q [of i] i by simp
  obtain h1 q1 where p: "pop_from_head (frames ?w) (sc_local s i) = Inr (f, h1, q1)"
    "queue_rep h1 q1 []" "loose h1 f" "\<forall>x. x \<noteq> f \<longrightarrow> loose h1 x = loose (frames ?w) x"
    "\<forall>q2 ys. f \<notin> set ys \<longrightarrow> queue_rep (frames ?w) q2 ys \<longrightarrow> queue_rep h1 q2 ys"
    "same_but_links (frames ?w) h1"
    using cq.deq_law [OF qi] by blast
  let ?s = "s\<lparr>sc_tasks := (sc_tasks s)\<lparr>tw := ?w\<lparr>frames := h1\<rparr>\<rparr>, sc_local := (sc_local s)(i := q1)\<rparr>"
  have hd: "\<forall>g. lc_handle (h1 g) = hnd g" using rep same_handle [OF p(6)] by (simp add: schedule_rep_def)
  then have nx: "worker_next i s = Inr (hnd f, ?s)"
    using p(1) by (simp add: worker_next_def Let_def)
  have q1: "queue_rep h1 (sc_local s j) (opt_list (held a j))" if "j \<noteq> i" for j
  proof -
    have "f \<notin> set (opt_list (held a j))" using u that by (auto simp: set_opt_list)
    with p(5) q [of j] show ?thesis by blast
  qed
  have lo: "loose h1 x" if "nowhere (promised (Resumes i) a) x" for x
  proof (cases "x = f")
    case False
    have g: "x \<notin> set (waiting a)" "\<forall>j. ((held a)(i := None)) j \<noteq> Some x"
      using that i by (simp_all add: nowhere_def)
    have "held a j \<noteq> Some x" for j
      using g(2) [THEN spec [of _ j]] i False by (auto split: if_splits)
    then have "nowhere a x" using g(1) by (simp add: nowhere_def)
    with rep False p(4) show ?thesis by (simp add: schedule_rep_def)
  qed (use p(3) in simp)
  have "schedule_rep hnd (resume_handle i (hnd f) ?s) (promised (Resumes i) a)"
    using rep i p(2-5) hd r n q1 lo unfolding schedule_rep_def ready_def resume_handle_def by auto
  with nx queue_rep_empty [OF qi] show ?thesis by (intro that [of ?s]) simp_all
qed

lemma step_refines:
  assumes "schedule_rep hnd s a" and "allowed (x # xs) a" and "fits_u64 (Suc (length (waiting a)))"
  shows "\<exists>s'. sched_step s x (Inr s') \<and> (\<forall>r. sched_step s x r \<longrightarrow> r = Inr s') \<and>
    schedule_rep hnd s' (promised x a) \<and> allowed xs (promised x a)"
proof (cases x)
  case (Commits f)
  then have n: "nowhere a f" and al: "allowed xs (promised x a)" using assms(2) by simp_all
  obtain w where w: "commit_frame (tw (sc_tasks s)) f = Inr w"
    "schedule_rep hnd (s\<lparr>sc_tasks := (sc_tasks s)\<lparr>tw := w\<rparr>\<rparr>) (promised (Commits f) a)"
    by (rule commits_refines [OF assms(1) n assms(3)])
  with Commits al show ?thesis
    by (intro exI [of _ "s\<lparr>sc_tasks := (sc_tasks s)\<lparr>tw := w\<rparr>\<rparr>"])
      (auto intro: sched_step.commits elim: commits_cases)
next
  case (Takes i)
  then have h: "held a i = None" and al: "allowed xs (promised x a)" using assms(2) by simp_all
  obtain s' where "queue_empty (sc_local s i)" and "worker_take i s = Inr s'"
    and "schedule_rep hnd s' (promised (Takes i) a)"
    by (rule takes_refines [OF assms(1) h])
  with Takes al show ?thesis by (auto intro!: exI [of _ s'] sched_step.takes elim: takes_cases)
next
  case (Resumes i)
  then obtain f where h: "held a i = Some f" and al: "allowed xs (promised x a)" using assms(2) by auto
  obtain s' where "\<not> queue_empty (sc_local s i)" and "worker_next i s = Inr (hnd f, s')"
    and "schedule_rep hnd (resume_handle i (hnd f) s') (promised (Resumes i) a)"
    by (rule resumes_refines [OF assms(1) h])
  with Resumes al show ?thesis
    by (auto intro!: exI [of _ "resume_handle i (hnd f) s'"] sched_step.resumes elim: resumes_cases)
qed

lemma length_waiting: "length (waiting (promised x a)) \<le> Suc (length (waiting a))"
  by (cases x) (auto split: list.splits option.splits)

lemma run_refines:
  assumes "schedule_rep hnd s a" and "allowed xs a" and "fits_u64 (Suc (length (waiting a) + length xs))"
  shows "\<exists>s'. sched_run s xs (Inr s') \<and> (\<forall>r. sched_run s xs r \<longrightarrow> r = Inr s') \<and>
    schedule_rep hnd s' (fold promised xs a)"
  using assms
proof (induction xs arbitrary: s a)
  case Nil
  then show ?case by (auto intro: sched_run.run_ends elim: run_Nil_cases)
next
  case (Cons x xs)
  have "fits_u64 (Suc (length (waiting a)))" using Cons.prems(3) by (simp add: fits_u64_def)
  from step_refines [OF Cons.prems(1,2) this] obtain s1 where s1: "sched_step s x (Inr s1)"
    "\<forall>r. sched_step s x r \<longrightarrow> r = Inr s1" "schedule_rep hnd s1 (promised x a)" "allowed xs (promised x a)"
    by blast
  have "fits_u64 (Suc (length (waiting (promised x a)) + length xs))"
    using Cons.prems(3) length_waiting [of x a] by (simp add: fits_u64_def)
  from Cons.IH [OF s1(3,4) this] obtain s2 where s2: "sched_run s1 xs (Inr s2)"
    "\<forall>r. sched_run s1 xs r \<longrightarrow> r = Inr s2" "schedule_rep hnd s2 (fold promised xs (promised x a))" by blast
  have "r = Inr s2" if "sched_run s (x # xs) r" for r
    using that by (rule run_Cons_cases) (use s1(2) s2(2) in auto)
  with sched_run.run_step [OF s1(1) s2(1)] s2(3) show ?case by auto
qed

definition idle_schedule :: schedule where
  "idle_schedule = \<lparr>waiting = [], held = (\<lambda>_. None), resumed = []\<rparr>"

section \<open>Properties\<close>

text \<open>
  C8. However the threads interleave, no step fails. The workers together take the frames in the
  order in which they were committed: the frames that were taken and those still in the shared
  queue are the committed ones. Each worker calls \<open>resume\<close> on exactly the handles of the frames it
  took, in that order, except for the one frame it may still hold.
\<close>

theorem workers_share_frames_in_order:
  assumes "schedule_rep hnd s idle_schedule" and "allowed xs idle_schedule" and "fits_u64 (Suc (length xs))"
  shows "\<exists>s' a. sched_run s xs (Inr s') \<and> (\<forall>r. sched_run s xs r \<longrightarrow> r = Inr s') \<and> schedule_rep hnd s' a \<and>
    committed xs = map snd (taken xs idle_schedule) @ waiting a \<and>
    (\<forall>i. map hnd (of_worker i (taken xs idle_schedule)) = of_worker i (sc_resumed s') @ map hnd (opt_list (held a i)))"
proof -
  have "fits_u64 (Suc (length (waiting idle_schedule) + length xs))"
    using assms(3) by (simp add: idle_schedule_def)
  from run_refines [OF assms(1,2) this] obtain s' where s': "sched_run s xs (Inr s')"
    "\<forall>r. sched_run s xs r \<longrightarrow> r = Inr s'" "schedule_rep hnd s' (fold promised xs idle_schedule)" by blast
  let ?a = "fold promised xs idle_schedule"
  have none: "waiting idle_schedule = []" "resumed idle_schedule = []" "opt_list (held idle_schedule i) = []" for i
    by (simp_all add: idle_schedule_def)
  have "map hnd (of_worker i (taken xs idle_schedule)) = of_worker i (sc_resumed s') @ map hnd (opt_list (held ?a i))" for i
  proof -
    have "of_worker i (map (\<lambda>(i, f). (i, hnd f)) ps) = map hnd (of_worker i ps)" for ps
      by (induction ps) auto
    then show ?thesis using taken_resumed [OF assms(2), of i] none s'(3) by (simp add: schedule_rep_def)
  qed
  with s' committed_order [of idle_schedule xs] none show ?thesis by auto
qed

definition demo_sched :: sched where
  "demo_sched = new_sched 2 1000 \<lparr>tw = \<lparr>frames = (\<lambda>a. new_frame a a), live = (\<lambda>_. True),
     locals = (\<lambda>_. None), next_id = 0, coroutine_queue = new_queue\<rparr>, finished = (\<lambda>_. False),
     result = (\<lambda>_. VNull), outbox = [], running_cnt = 0\<rparr>"

definition demo_steps :: "thread_step list" where
  "demo_steps = [Commits 5, Commits 6, Takes 0, Takes 3, Resumes 3, Commits 7, Takes 3]"

theorem workers_share_frames_in_order_witness:
  "\<exists>s' a. sched_run demo_sched demo_steps (Inr s') \<and> schedule_rep (\<lambda>f. f) s' a \<and> [5, 6, 7] = [5, 6, 7] @ waiting a \<and>
    [6, 7] = of_worker 3 (sc_resumed s') @ opt_list (held a 3)"
proof -
  have "schedule_rep (\<lambda>f. f) demo_sched idle_schedule"
    by (simp add: schedule_rep_def demo_sched_def new_sched_def sched_start_def idle_schedule_def ready_def
        new_queue_rep loose_def new_frame_def)
  moreover have "allowed demo_steps idle_schedule" and "fits_u64 (Suc (length demo_steps))"
    by (simp_all add: demo_steps_def idle_schedule_def nowhere_def fits_u64_def)
  ultimately have "\<exists>s' a. sched_run demo_sched demo_steps (Inr s') \<and> schedule_rep (\<lambda>f. f) s' a \<and>
      committed demo_steps = map snd (taken demo_steps idle_schedule) @ waiting a \<and>
      map (\<lambda>f. f) (of_worker 3 (taken demo_steps idle_schedule)) = of_worker 3 (sc_resumed s') @ map (\<lambda>f. f) (opt_list (held a 3))"
    using workers_share_frames_in_order [of "\<lambda>f. f" demo_sched demo_steps] by blast
  then show ?thesis by (auto simp: demo_steps_def idle_schedule_def)
qed

section \<open>Stopping\<close>


definition resumes :: "sched \<Rightarrow> nat \<Rightarrow> nat" where
  "resumes s a = count_list (map snd (sc_resumed s)) a"







lemma resumes_append [simp]:
  "resumes (s\<lparr>sc_resumed := sc_resumed s @ [(i, b)]\<rparr>) a = resumes s a + (if a = b then 1 else 0)"
  by (simp add: resumes_def)
















end
