(* ===== verification/Error_Define.thy ===== *)
theory Error_Define
  imports Rpc_Action
begin

text \<open>
  The error codes of \<open>src/src/error_define/error_struct.h\<close>, their messages and their text form.
  \<open>ERR_MAP_\<close> is filled by \<open>Error::init\<close>; before that it is empty.
\<close>

definition HAS_BEEN_STOPPED :: int where "HAS_BEEN_STOPPED = - 1002"

definition FUNCTION_NOT_REFLECTED :: int where "FUNCTION_NOT_REFLECTED = - 1003"

type_synonym err_map = "(int \<times> string) list"

definition ERR_MAP_initial :: err_map where "ERR_MAP_initial = []"

definition Error_init :: err_map where
  "Error_init = [(RPC_TIMEOUT, ''rpc response not returned at specified time span.''),
     (HAS_BEEN_STOPPED, ''module has been stopped.''),
     (FUNCTION_NOT_REFLECTED, ''deserialize meet not reflected function.'')]"

definition Error_msg :: "err_map \<Rightarrow> int \<Rightarrow> string" where
  "Error_msg m err = (case map_of m err of None \<Rightarrow> ''unknown error'' | Some msg \<Rightarrow> msg)"

definition Error_eq :: "int \<Rightarrow> int \<Rightarrow> bool" where
  "Error_eq a b = (a = b)"

text \<open>\<open>std::formatter<Error>\<close> and \<open>std::formatter<Expected<T>>\<close>.\<close>

definition format_error :: "err_map \<Rightarrow> int \<Rightarrow> string" where
  "format_error m err = ''error:'' @ dec_int err @ '', message:'' @ Error_msg m err"

definition format_expected :: "err_map \<Rightarrow> ('a \<Rightarrow> string) \<Rightarrow> int + 'a \<Rightarrow> string" where
  "format_expected m fmt v = (case v of Inr x \<Rightarrow> fmt x | Inl err \<Rightarrow> format_error m err)"

end
