(* ===== verification/Rpc_Mapper.thy ===== *)
theory Rpc_Mapper
  imports Error_Define
begin

text \<open>
  The table of remote functions (\<open>src/src/coroutine_framework/net_module/rpc_register.h\<close>) and the
  server side of a call, \<open>reflect_commit_function\<close> of \<open>rpc_mapper.h\<close> and \<open>rpc_mapper.cpp\<close>: it
  decodes the arguments, creates the coroutine, notes where its result goes and commits it.
\<close>

section \<open>The registered functions\<close>

definition Point_ty :: cty where
  "Point_ty = TStruct [TNum 8, TNum 8]"

text \<open>
  \<open>RPC_REGISTER\<close>: \<open>example_add\<close>, \<open>example_echo\<close> and \<open>example_add_point\<close>, by their argument and
  result types.
\<close>

definition rpc_register :: "u16 \<Rightarrow> (cty list \<times> cty) option" where
  "rpc_register fid =
     (if fid = 1 then Some ([TNum 8, TNum 8], TNum 8)
      else if fid = 2 then Some ([], TNum 8)
      else if fid = 3 then Some ([Point_ty, Point_ty], Point_ty)
      else None)"

section \<open>Serving a request\<close>

fun des_args :: "codec \<Rightarrow> cty list \<Rightarrow> int \<Rightarrow> bytes \<Rightarrow> int \<Rightarrow> fault + (cval list \<times> int)" where
  "des_args c [] len buf pos = Inr ([], pos)"
| "des_args c (t # ts) len buf pos =
     andthen (deserialize c t (init_val c t) len buf pos) (\<lambda>(v, p).
     andthen (des_args c ts len buf p) (\<lambda>(vs, p). Inr (v # vs, p)))"

text \<open>
  The coroutine that a request starts: its frame, the function and the arguments it was
  called with.
\<close>

record served =
  sv_frame :: nat
  sv_function :: u16
  sv_args :: "cval list"

text \<open>
  \<open>a\<close> and \<open>l\<close> are the addresses of the new frame and of its local variables. The result is the
  \<open>Expected<void>\<close> (an error code or nothing), what was started, and the state.
\<close>

definition reflect_commit_function :: "process \<Rightarrow> bool \<Rightarrow> nat \<Rightarrow> nat \<Rightarrow> PackageHeader \<Rightarrow> EndPoint \<Rightarrow> bytes \<Rightarrow>
    tstate \<Rightarrow> fault + ((int + unit) \<times> served option \<times> tstate)" where
  "reflect_commit_function p stop_flag a l header endpoint serialized_data s =
     (case rpc_register (rpc_type header) of
        None \<Rightarrow> Inr (Inl FUNCTION_NOT_REFLECTED, None, s)
      | Some (args, ret) \<Rightarrow>
          (let server_endpoint = set_port (server_port header) endpoint in
           andthen (des_args (pr_codec p) args (int (length serialized_data)) serialized_data 0) (\<lambda>(vs, _).
           case create_coroutine a s of (task, s) \<Rightarrow>
           (case new_CoroLocalVar (next_id (tw s)) of (v, i) \<Rightarrow>
            let v = v\<lparr>response_info := Some \<lparr>response_to_end_point = server_endpoint,
                   response_to_coro_id = rpc_id header, response_rpc_type = rpc_type header\<rparr>\<rparr>;
                w = tw s;
                w = w\<lparr>locals := (locals w)(l \<mapsto> v), next_id := i,
                      frames := (frames w)(a := (frames w a)\<lparr>coro_local_var := Some l\<rparr>)\<rparr>
            in andthen (scheduler_commit stop_flag task (s\<lparr>tw := w\<rparr>)) (\<lambda>(r, s).
               andthen (task_drop (tw s) task) (\<lambda>w.
                 Inr (case r of Committed \<Rightarrow> Inr () | Has_been_stopped \<Rightarrow> Inl HAS_BEEN_STOPPED,
                      Some \<lparr>sv_frame = a, sv_function = rpc_type header, sv_args = vs\<rparr>,
                      s\<lparr>tw := w\<rparr>)))))))"

end
