(* ===== verification/Net_Service.thy ===== *)
theory Net_Service
  imports Rpc_Mapper
begin

text \<open>
  The network module (\<open>src/src/coroutine_framework/net_module/net_service.h\<close> and
  \<open>net_service.cpp\<close>): the table of coroutines that wait for responses, sending requests, the
  timers of calls, and the handler of one incoming connection. Boost.Asio delivers the bytes of a
  connection in pieces of any size; the handlers run one after the other on the single thread of
  the service, so each of them is one step.
\<close>

section \<open>State\<close>

text \<open>
  \<open>ns_waiting\<close> is \<open>waiting_coros_\<close>: by coroutine id, the frame to wake and the address of the
  call object with the callbacks. \<open>ns_calls\<close> are the call objects, which live in the frames of
  the callers. \<open>ns_timers\<close> are the spawned \<open>timeout_\<close> coroutines, \<open>ns_sends\<close> the spawned \<open>send_\<close>.
  \<open>ns_served\<close> lists the coroutines that requests started.
\<close>

record MaintainInfo =
  mi_coroutine :: cptr
  mi_callback :: nat

record net_state =
  ns_stop_flag :: bool
  ns_io_stopped :: bool
  ns_waiting :: "u64 \<Rightarrow> MaintainInfo option"
  ns_calls :: "nat \<Rightarrow> RpcBase"
  ns_timers :: "(u64 \<times> u64) list"
  ns_sends :: "(EndPoint \<times> bytes) list"
  ns_served :: "served list"
  ns_tasks :: tstate

definition net_start :: "net_state \<Rightarrow> net_state" where
  "net_start s = s\<lparr>ns_stop_flag := False\<rparr>"

definition net_stop :: "net_state \<Rightarrow> net_state" where
  "net_stop s = s\<lparr>ns_io_stopped := True\<rparr>"

section \<open>Sending\<close>

text \<open>\<open>insert\<close> of an \<open>unordered_map\<close> keeps an entry that is there.\<close>

definition commit_send_request_task :: "SendRequest \<Rightarrow> nat \<Rightarrow> net_state \<Rightarrow> net_state" where
  "commit_send_request_task req call s =
     s\<lparr>ns_timers := ns_timers s @ [(sr_coro_id req, sr_timeout req)],
       ns_waiting := (case ns_waiting s (sr_coro_id req) of
                        None \<Rightarrow> (ns_waiting s)(sr_coro_id req \<mapsto>
                          \<lparr>mi_coroutine = Some (sr_coroutine req), mi_callback = call\<rparr>)
                      | Some _ \<Rightarrow> ns_waiting s),
       ns_sends := ns_sends s @ map (\<lambda>e. (e, sr_buffer req)) (sr_endpoints req)\<rparr>"

definition commit_send_response_task :: "EndPoint \<Rightarrow> bytes \<Rightarrow> net_state \<Rightarrow> net_state" where
  "commit_send_response_task endpoint net_buffer s = s\<lparr>ns_sends := ns_sends s @ [(endpoint, net_buffer)]\<rparr>"

text \<open>The suspension of the calling coroutine \<open>f\<close>, whose call object is at \<open>call\<close>.\<close>

definition start_call :: "process \<Rightarrow> nat \<Rightarrow> nat \<Rightarrow> net_state \<Rightarrow> fault + net_state" where
  "start_call p f call s =
     andthen (rpc_await_suspend p f (ns_calls s call) (tw (ns_tasks s))) (\<lambda>(req, r, w).
       Inr (commit_send_request_task req call
         (s\<lparr>ns_calls := (ns_calls s)(call := r), ns_tasks := (ns_tasks s)\<lparr>tw := w\<rparr>\<rparr>)))"

section \<open>Waking callers\<close>

definition wake :: "cptr \<Rightarrow> net_state \<Rightarrow> fault + net_state" where
  "wake need_awak s =
     (case need_awak of
        None \<Rightarrow> Inr s
      | Some f \<Rightarrow> andthen (commit_frame (tw (ns_tasks s)) f) (\<lambda>w. Inr (s\<lparr>ns_tasks := (ns_tasks s)\<lparr>tw := w\<rparr>\<rparr>)))"

text \<open>A timer that fires; the timer itself is over.\<close>

definition timeout_fires :: "u64 \<Rightarrow> u64 \<Rightarrow> net_state \<Rightarrow> fault + net_state" where
  "timeout_fires cid ns s =
     (let s = s\<lparr>ns_timers := remove1 (cid, ns) (ns_timers s)\<rparr> in
      case ns_waiting s cid of
        None \<Rightarrow> Inr s
      | Some info \<Rightarrow>
          andthen (timeout_cb (ns_calls s (mi_callback info))) (\<lambda>r.
          let s = s\<lparr>ns_calls := (ns_calls s)(mi_callback info := r)\<rparr>;
              need_awak = mi_coroutine info;
              s = (if need_awak \<noteq> None then s\<lparr>ns_waiting := (ns_waiting s)(cid := None)\<rparr> else s)
          in wake need_awak s))"

definition response_arrives ::
    "process \<Rightarrow> PackageHeader \<Rightarrow> EndPoint \<Rightarrow> bytes \<Rightarrow> net_state \<Rightarrow> fault + net_state" where
  "response_arrives p header peer_endpoint received s =
     (case ns_waiting s (rpc_id header) of
        None \<Rightarrow> Inr s
      | Some info \<Rightarrow>
          (let peer_endpoint = set_port (server_port header) peer_endpoint in
           andthen (process_buffer_cb p peer_endpoint received (ns_calls s (mi_callback info)))
             (\<lambda>(need_awak, r).
           let s = s\<lparr>ns_calls := (ns_calls s)(mi_callback info := r)\<rparr>;
               s = (if need_awak \<noteq> None then s\<lparr>ns_waiting := (ns_waiting s)(rpc_id header := None)\<rparr> else s)
           in wake need_awak s)))"

section \<open>An incoming connection\<close>

text \<open>
  What \<open>async_read_some\<close> delivers: pieces of the stream, and at the end of the list the end of
  the stream or an error, which throws. A read takes no more than it asks for. \<open>read_exact\<close> is
  the loop that reads until \<open>n\<close> bytes are there; \<open>None\<close> is the exception.
\<close>

fun read_exact :: "nat \<Rightarrow> bytes list \<Rightarrow> (bytes \<times> bytes list) option" where
  "read_exact n [] = (if n = 0 then Some ([], []) else None)"
| "read_exact n (bs # reads) =
     (if n = 0 then Some ([], bs # reads)
      else if length bs \<le> n
      then (case read_exact (n - length bs) reads of
              None \<Rightarrow> None
            | Some (cs, rest) \<Rightarrow> Some (bs @ cs, rest))
      else Some (take n bs, drop n bs # reads))"

text \<open>
  The same loop over an array of \<open>cap\<close> bytes: it writes behind what is there and asks for what is
  left of \<open>n\<close>, so that a piece may run over the end of the array exactly if \<open>n\<close> is greater.
\<close>

definition read_into :: "nat \<Rightarrow> nat \<Rightarrow> bytes list \<Rightarrow> fault + (bytes \<times> bytes list) option" where
  "read_into cap n reads = andthen (check Ub_out_of_bounds (n \<le> cap)) (\<lambda>_. Inr (read_exact n reads))"

lemma read_into_room [simp]: "n \<le> cap \<Longrightarrow> read_into cap n reads = Inr (read_exact n reads)"
  by (simp add: read_into_def)

datatype conn_end = Conn_closed | Conn_exception

text \<open>The faults that are C++ exceptions, which the handler catches.\<close>

definition is_exception :: "fault \<Rightarrow> bool" where
  "is_exception f \<longleftrightarrow> f = Out_of_range \<or> f = Length_error \<or> f = Bad_expected_access"

definition catch_all :: "net_state \<Rightarrow> fault + net_state \<Rightarrow> fault + (conn_end \<times> net_state)" where
  "catch_all s m =
     (case m of
        Inl f \<Rightarrow> if is_exception f then Inr (Conn_exception, s) else Inl f
      | Inr s' \<Rightarrow> Inr (Conn_closed, s'))"

definition RECEIVE_BUFFER_SIZE :: u64 where "RECEIVE_BUFFER_SIZE = 128"

lemma read_into_header [simp]: "read_into (unat RECEIVE_BUFFER_SIZE) 32 reads = Inr (read_exact 32 reads)"
  by (simp add: RECEIVE_BUFFER_SIZE_def)

definition request_arrives :: "process \<Rightarrow> bool \<Rightarrow> nat \<Rightarrow> nat \<Rightarrow> PackageHeader \<Rightarrow> EndPoint \<Rightarrow> bytes \<Rightarrow>
    net_state \<Rightarrow> fault + net_state" where
  "request_arrives p stop_flag a l header peer_endpoint received s =
     andthen (reflect_commit_function p stop_flag a l header peer_endpoint received (ns_tasks s))
       (\<lambda>(ret, started, t).
     andthen (check Assert_failed (\<exists>u. ret = Inr u)) (\<lambda>_.
       Inr (s\<lparr>ns_tasks := t, ns_served := ns_served s @ (case started of None \<Rightarrow> [] | Some v \<Rightarrow> [v])\<rparr>)))"

definition dispatch :: "process \<Rightarrow> bool \<Rightarrow> nat \<Rightarrow> nat \<Rightarrow> PackageHeader \<Rightarrow> EndPoint \<Rightarrow> bytes \<Rightarrow>
    net_state \<Rightarrow> fault + net_state" where
  "dispatch p stop_flag a l header peer_endpoint received s =
     (if get_message_type header = MT_REQUEST
      then request_arrives p stop_flag a l header peer_endpoint received s
      else if get_message_type header = MT_RESPONSE
      then response_arrives p header peer_endpoint received s
      else Inl Aborted)"

text \<open>
  The handler. \<open>alloc_limit\<close> is the largest payload for which \<open>new std::byte[n]\<close> does not throw.
  The bound of the payload by the local buffer is asserted after the message was acted upon.
\<close>

definition receive :: "process \<Rightarrow> nat \<Rightarrow> bool \<Rightarrow> nat \<Rightarrow> nat \<Rightarrow> EndPoint \<Rightarrow> bytes list \<Rightarrow> net_state \<Rightarrow>
    fault + (conn_end \<times> net_state)" where
  "receive p alloc_limit stop_flag a l peer_endpoint reads s =
     andthen (read_into (unat RECEIVE_BUFFER_SIZE) 32 reads) (\<lambda>header_read.
     (case header_read of
        None \<Rightarrow> Inr (Conn_exception, s)
      | Some (data, reads) \<Rightarrow>
          andthen (deserialize (pr_codec p) header_ty (header_val PackageHeader_default) 32 data 0) (\<lambda>(v, pos).
          case header_of_val v of
            None \<Rightarrow> Inl Ill_typed
          | Some header \<Rightarrow>
              if unat (payload_len header) > alloc_limit then Inr (Conn_exception, s)
              else andthen (check Assert_failed (checksum header = MAGIC_NUMBER)) (\<lambda>_.
                andthen (read_into (unat (payload_len header)) (unat (payload_len header)) reads) (\<lambda>payload_read.
                (case payload_read of
                   None \<Rightarrow> Inr (Conn_exception, s)
                 | Some (received, reads) \<Rightarrow>
                     catch_all s
                       (andthen (dispatch p stop_flag a l header peer_endpoint received s) (\<lambda>s.
                        andthen (check Assert_failed (pos = 32)) (\<lambda>_.
                        andthen (check Assert_failed (payload_len header \<le> RECEIVE_BUFFER_SIZE - 32)) (\<lambda>_.
                          Inr s))))))))))"

end
