(* ===== verification/Service_Props.thy ===== *)
theory Service_Props
  imports Net_Service Rpc_Props
begin

text \<open>
  The properties of the network service: the way from a caller to the remote function and back,
  what the pieces of a connection have to do with it, what malformed messages do, and the timers.
\<close>

section \<open>Reading from a connection\<close>

lemma read_exact_None: "read_exact n reads = None \<longleftrightarrow> length (concat reads) < n"
  by (induction n reads rule: read_exact.induct) (auto split: option.splits)

lemma read_exact_Some:
  "read_exact n reads = Some (bs, rest) \<Longrightarrow>
   bs = take n (concat reads) \<and> concat rest = drop n (concat reads) \<and> length bs = n"
proof (induction n reads arbitrary: bs rest rule: read_exact.induct)
  case (1 n)
  then show ?case by (simp split: if_splits)
next
  case (2 n b reads)
  show ?case
  proof (cases "n \<noteq> 0 \<and> length b \<le> n")
    case True
    with 2(2) obtain cs where r: "read_exact (n - length b) reads = Some (cs, rest)" "bs = b @ cs"
      by (auto split: option.splits)
    have i: "cs = take (n - length b) (concat reads)" "concat rest = drop (n - length b) (concat reads)"
      "length cs = n - length b"
      using 2(1) r(1) True by blast+
    have "length bs = n" using i(3) r(2) True by simp
    moreover have "bs = take n (concat (b # reads))" using i(1) r(2) True by simp
    ultimately show ?thesis using i(2) True by simp
  next
    case False
    with 2(2) show ?thesis by (auto split: if_splits)
  qed
qed

lemma read_exact_enough:
  assumes "n \<le> length (concat reads)"
  obtains rest where "read_exact n reads = Some (take n (concat reads), rest)"
    and "concat rest = drop n (concat reads)"
proof (cases "read_exact n reads")
  case None
  with assms show ?thesis by (simp add: read_exact_None)
next
  case (Some p)
  then show ?thesis using that read_exact_Some by (cases p) blast
qed

lemma read_exact_chunks:
  assumes "concat reads = concat reads'"
  shows "map_option (\<lambda>(bs, rest). (bs, concat rest)) (read_exact n reads)
    = map_option (\<lambda>(bs, rest). (bs, concat rest)) (read_exact n reads')"
proof (cases "length (concat reads) < n")
  case True
  then show ?thesis using assms by (simp add: read_exact_None [THEN iffD2])
next
  case False
  then obtain r r' where "read_exact n reads = Some (take n (concat reads), r)" "concat r = drop n (concat reads)"
    "read_exact n reads' = Some (take n (concat reads'), r')" "concat r' = drop n (concat reads')"
    using assms by (metis read_exact_enough not_le)
  then show ?thesis using assms by simp
qed

lemma le_bytes_word:
  "length bs = 2 \<Longrightarrow> le_bytes 2 (unat (word_of_nat (of_le bs) :: u16)) = bs"
  "length bs = 4 \<Longrightarrow> le_bytes 4 (unat (word_of_nat (of_le bs) :: u32)) = bs"
  "length bs = 8 \<Longrightarrow> le_bytes 8 (unat (word_of_nat (of_le bs) :: u64)) = bs"
  using of_le_bound [of bs] le_bytes_of_le [of bs]
  by (simp_all add: unat_of_nat del: le_bytes_numeral)

definition slice :: "nat \<Rightarrow> nat \<Rightarrow> bytes \<Rightarrow> bytes" where
  "slice a n bs = take n (drop a bs)"

lemma slice_drop: "slice a n bs @ drop (a + n) bs = drop a bs"
  by (simp add: slice_def) (metis append_take_drop_id drop_drop add.commute)

lemma header_bytes_surj:
  assumes "length data = 32"
  obtains h where "data = header_bytes h"
proof
  let ?f = "\<lambda>a n. of_le (slice a n data)"
  let ?h = "\<lparr>version = word_of_nat (?f 0 2), reserved = word_of_nat (?f 2 2), server_port = word_of_nat (?f 4 2),
     flags = word_of_nat (?f 6 2), rpc_id = word_of_nat (?f 8 8), process_restart_counter = word_of_nat (?f 16 2),
     rpc_type = word_of_nat (?f 18 2), checksum = word_of_nat (?f 28 4), payload_len = word_of_nat (?f 20 8)\<rparr>"
  have "header_bytes ?h = slice 0 2 data @ slice 2 2 data @ slice 4 2 data @ slice 6 2 data @ slice 8 8 data @
      slice 16 2 data @ slice 18 2 data @ slice 20 8 data @ slice 28 4 data"
    using assms
    by (simp add: header_bytes_def header_ty_def header_val_def le_bytes_word slice_def del: le_bytes_numeral)
  moreover have first: "slice 0 2 data @ drop 2 data = data" by (simp add: slice_def)
  have "slice 0 2 data @ slice 2 2 data @ slice 4 2 data @ slice 6 2 data @ slice 8 8 data @
      slice 16 2 data @ slice 18 2 data @ slice 20 8 data @ slice 28 4 data = data"
    using assms first slice_drop [of 2 2 data] slice_drop [of 4 2 data] slice_drop [of 6 2 data]
      slice_drop [of 8 8 data] slice_drop [of 16 2 data] slice_drop [of 18 2 data] slice_drop [of 20 8 data]
      slice_drop [of 28 4 data] by simp
  ultimately show "data = header_bytes ?h" by simp
qed

lemma header_read:
  assumes "length data = 32"
  obtains h where "data = header_bytes h"
    and "deserialize c header_ty (header_val d) 32 data 0 = Inr (header_val h, 32)"
proof -
  obtain h where h: "data = header_bytes h" by (rule header_bytes_surj [OF assms])
  have "rd_ok 32 data 0" and "holds data (nat 0) (header_bytes h)"
    using assms by (simp_all add: rd_ok_def flip: h)
  from header_des [OF this, of c d] h show thesis by (intro that [of h]) simp_all
qed

text \<open>The handler on a stream that starts with the header \<open>h\<close>.\<close>

lemma receive_header:
  assumes "concat reads = header_bytes h @ rest"
  shows "receive p lim stop a l peer reads s =
    (let n = unat (payload_len h) in
     if n > lim then Inr (Conn_exception, s)
     else andthen (check Assert_failed (checksum h = MAGIC_NUMBER)) (\<lambda>_.
       if length rest < n then Inr (Conn_exception, s)
       else catch_all s (andthen (dispatch p stop a l h peer (take n rest) s) (\<lambda>s.
         andthen (check Assert_failed (payload_len h \<le> 96)) (\<lambda>_. Inr s)))))"
proof -
  obtain rd where r: "read_exact 32 reads = Some (header_bytes h, rd)" "concat rd = rest"
    by (rule read_exact_enough [of 32 reads]) (use assms in simp_all)
  have "rd_ok 32 (header_bytes h) 0" and "holds (header_bytes h) (nat 0) (header_bytes h)"
    by (simp_all add: rd_ok_def)
  from header_des [OF this] have d: "deserialize (pr_codec p) header_ty (header_val PackageHeader_default) 32
      (header_bytes h) 0 = Inr (header_val h, 32)" by simp
  note open_receive = receive_def read_into_header r(1) d
  show ?thesis
  proof (cases "length rest < unat (payload_len h)")
    case True
    then have "read_exact (unat (payload_len h)) rd = None" using r(2) by (simp add: read_exact_None)
    then show ?thesis using True by (simp add: open_receive Let_def)
  next
    case False
    then obtain rd' where "read_exact (unat (payload_len h)) rd = Some (take (unat (payload_len h)) rest, rd')"
      using r(2) read_exact_enough [of "unat (payload_len h)" rd] by (metis not_le)
    then show ?thesis using False by (simp add: open_receive Let_def) (simp add: RECEIVE_BUFFER_SIZE_def)
  qed
qed

lemma receive_short:
  "length (concat reads) < 32 \<Longrightarrow> receive p lim stop a l peer reads s = Inr (Conn_exception, s)"
  by (simp add: receive_def read_exact_None [THEN iffD2])

lemma stream_cases:
  obtains (short) "length (concat reads) < 32"
    | (message) h rest where "concat reads = header_bytes h @ rest"
proof (cases "length (concat reads) < 32")
  case False
  then have l: "length (take 32 (concat reads)) = 32" by simp
  obtain h where "take 32 (concat reads) = header_bytes h" by (rule header_bytes_surj [OF l])
  then have "concat reads = header_bytes h @ drop 32 (concat reads)"
    by (metis append_take_drop_id)
  then show thesis by (rule message)
qed (rule short)

section \<open>Properties of a connection\<close>

text \<open>
  C20. How the stream of a connection is cut into pieces does not matter: the handler does
  what it would do if the whole stream arrived at once, for every stream, state and outcome.
\<close>

theorem receive_independent_of_pieces:
  "receive p lim stop a l peer reads s = receive p lim stop a l peer [concat reads] s"
proof (cases rule: stream_cases [of reads])
  case short
  then show ?thesis by (simp add: receive_short)
next
  case (message h rest)
  then have "concat [concat reads] = header_bytes h @ rest" by simp
  from receive_header [OF message] receive_header [OF this] show ?thesis by simp
qed

text \<open>
  C21. A single message can end the process: a header with the magic number and no known message
  type, a request for an unregistered function, any other checksum, and a late response with
  more than 96 bytes each make an assertion fail or abort, whatever the state of the server.
\<close>

theorem malformed_message_aborts:
  assumes "concat reads = header_bytes h @ payload" and "length payload = unat (payload_len h)"
    and "length payload \<le> lim"
  shows "if checksum h \<noteq> MAGIC_NUMBER \<or>
        get_message_type h = MT_REQUEST \<and> rpc_register (rpc_type h) = None \<or>
        get_message_type h = MT_RESPONSE \<and> ns_waiting s (rpc_id h) = None \<and> 96 < length payload
    then receive p lim stop a l peer reads s = Inl Assert_failed
    else get_message_type h \<noteq> MT_REQUEST \<and> get_message_type h \<noteq> MT_RESPONSE \<longrightarrow>
      receive p lim stop a l peer reads s = Inl Aborted"
proof -
  have "payload_len h \<le> 96 \<longleftrightarrow> length payload \<le> 96"
    using assms(2) by (simp add: word_le_nat_alt)
  then show ?thesis
    using assms receive_header [OF assms(1), of p lim stop a l peer s]
    by (cases "checksum h = MAGIC_NUMBER"; cases "get_message_type h = MT_REQUEST";
        cases "get_message_type h = MT_RESPONSE")
      (simp_all add: dispatch_def request_arrives_def response_arrives_def reflect_commit_function_def
        catch_all_def is_exception_def Let_def)
qed

definition demo_net :: net_state where
  "demo_net = \<lparr>ns_stop_flag = False, ns_io_stopped = False, ns_waiting = (\<lambda>_. None),
     ns_calls = (\<lambda>_. new_RpcBase [TNum 8, TNum 8] (TNum 8) 1), ns_timers = [], ns_sends = [], ns_served = [],
     ns_tasks = demo_tstate\<rparr>"

theorem malformed_message_aborts_witness:
  "receive demo_process 1000 False 20 21 (EndPoint_v4 [127, 0, 0, 1] 80)
     [header_bytes (PackageHeader_default\<lparr>flags := 3, payload_len := 1\<rparr>), [7]] demo_net = Inl Aborted"
proof -
  let ?h = "PackageHeader_default\<lparr>flags := 3, payload_len := 1\<rparr>"
  have "get_message_type ?h = MT_NOT_USED_2"
    by (simp add: get_message_type_def MASK_MESSAGE_TYPE_BITS_def MessageType_of_def)
  moreover have "checksum ?h = MAGIC_NUMBER" by (simp add: PackageHeader_default_def)
  ultimately show ?thesis
    using malformed_message_aborts [of "[header_bytes ?h, [7]]" ?h "[7]" 1000 demo_net demo_process False 20 21
        "EndPoint_v4 [127, 0, 0, 1] 80"] by simp
qed

section \<open>From the caller to the function and back\<close>

lemma des_args_enc:
  assumes "custom_reads ce (cd_custom c)"
  shows "has_tys (cd_cap c) ts vs \<Longrightarrow> list_all2 (\<lambda>t v. target_ok c t (init_val c t) v) ts vs \<Longrightarrow>
    rd_ok len buf pos \<Longrightarrow> holds buf (nat pos) (enc_members ce ts vs) \<Longrightarrow>
    des_args c ts len buf pos = Inr (vs, pos + int (length (enc_members ce ts vs)))"
proof (induction ts arbitrary: vs pos)
  case Nil
  then show ?case by simp
next
  case (Cons t ts)
  then obtain v vs' where vs: "vs = v # vs'" and ty: "has_ty (cd_cap c) t v" "has_tys (cd_cap c) ts vs'"
    by (cases vs) auto
  have h: "holds buf (nat pos) (enc ce t v)"
    "holds buf (nat (pos + int (length (enc ce t v)))) (enc_members ce ts vs')"
    using Cons.prems(3,4) vs by simp_all
  have d: "deserialize c t (init_val c t) len buf pos = Inr (v, pos + int (length (enc ce t v)))"
    by (rule deserialize_enc_aux [OF assms ty(1) _ Cons.prems(3) h(1)]) (use Cons.prems(2) vs in simp)
  have "rd_ok len buf (pos + int (length (enc ce t v)))"
    using rd_ok_holds [OF Cons.prems(3) h(1)] .
  from Cons.IH [OF ty(2) _ this h(2)] Cons.prems(2) vs d show ?case by simp
qed

text \<open>What a request that can be decoded does to the scheduler.\<close>

lemma reflect_commits:
  assumes "rpc_register (rpc_type h) = Some (args, ret)"
    and "des_args (pr_codec p) args (int (length data)) data 0 = Inr (vs, e)"
    and "ready (tw t) fs" and "a \<notin> set fs" and "fits_u64 (Suc (length fs))"
  obtains t' where "reflect_commit_function p False a l h peer data t
      = Inr (Inr (), Some \<lparr>sv_frame = a, sv_function = rpc_type h, sv_args = vs\<rparr>, t')"
    and "ready (tw t') (fs @ [a])" and "coro_local_var (frames (tw t') a) = Some l"
    and "locals (tw t') l = Some \<lparr>coro_id = next_id (tw t), wake_up_ts = 0,
      response_info = Some \<lparr>response_to_end_point = set_port (server_port h) peer,
        response_to_coro_id = rpc_id h, response_rpc_type = rpc_type h\<rparr>\<rparr>"
    and "running_cnt t' = running_cnt t + 1" and "ref_cnt (frames (tw t') a) = 1"
proof -
  let ?v = "\<lparr>coro_id = next_id (tw t), wake_up_ts = 0,
      response_info = Some \<lparr>response_to_end_point = set_port (server_port h) peer,
        response_to_coro_id = rpc_id h, response_rpc_type = rpc_type h\<rparr>\<rparr>"
  let ?h = "(frames (tw t))(a := (new_frame a a)\<lparr>coro_local_var := Some l\<rparr>)"
  let ?t = "t\<lparr>finished := (finished t)(a := False), tw := (tw t)\<lparr>live := (live (tw t))(a := True),
       locals := (locals (tw t))(l \<mapsto> ?v), next_id := next_id (tw t) + 1, frames := ?h\<rparr>\<rparr>"
  have "queue_rep ?h (coroutine_queue (tw t)) fs"
    using assms(3) unfolding ready_def by (rule queue_rep_agree) (use assms(4) in auto)
  then have r: "ready (tw ?t) fs" by (simp add: ready_def)
  have lo: "loose (frames (tw ?t)) a" by (simp add: loose_def new_frame_def)
  obtain t1 where c: "scheduler_commit False (Some a) ?t = Inr (Committed, t1)" "ready (tw t1) (fs @ [a])"
    "running_cnt t1 = running_cnt ?t + 1" "locals (tw t1) = locals (tw ?t)"
    "ref_cnt (frames (tw t1) a) = ref_cnt (frames (tw ?t) a) + 1"
    "coro_local_var (frames (tw t1) a) = coro_local_var (frames (tw ?t) a)"
    by (rule scheduler_commit_ready [OF r assms(4) lo assms(5)])
  have two: "ref_cnt (frames (tw t1) a) = 2" using c(5) by (simp add: new_frame_def)
  let ?h1 = "(frames (tw t1))(a := (frames (tw t1) a)\<lparr>ref_cnt := 1\<rparr>)"
  let ?t2 = "t1\<lparr>tw := (tw t1)\<lparr>frames := ?h1\<rparr>\<rparr>"
  have d: "task_drop (tw t1) (task_of_handle a) = Inr (tw ?t2)"
    using two by (simp add: task_drop_def task_of_handle_def release_def ref_dec_def)
  have e: "reflect_commit_function p False a l h peer data t
      = Inr (Inr (), Some \<lparr>sv_frame = a, sv_function = rpc_type h, sv_args = vs\<rparr>, ?t2)"
    using assms(1,2) c(1) d
    by (simp add: reflect_commit_function_def create_coroutine_def new_CoroLocalVar_def Let_def task_of_handle_def)
  have "queue_rep ?h1 (coroutine_queue (tw t1)) (fs @ [a])"
    using c(2) unfolding ready_def by (rule queue_rep_agree) auto
  then have "ready (tw ?t2) (fs @ [a])" by (simp add: ready_def)
  with e c show thesis by (intro that [of ?t2]) simp_all
qed

text \<open>The registered functions take and give numbers and points: at most 32 bytes.\<close>

lemma rpc_register_cases:
  assumes "rpc_register fid = Some (args, ret)"
  obtains (add) "args = [TNum 8, TNum 8]" and "ret = TNum 8" | (echo) "args = []" and "ret = TNum 8"
    | (add_point) "args = [Point_ty, Point_ty]" and "ret = Point_ty"
proof -
  have "(args, ret) = ([TNum 8, TNum 8], TNum 8) \<or> (args, ret) = ([], TNum 8) \<or>
      (args, ret) = ([Point_ty, Point_ty], Point_ty)"
    using assms unfolding rpc_register_def by (simp only: option.inject split: if_splits) simp_all
  then show thesis using add echo add_point by blast
qed

lemma has_ty_Num: "has_ty cap (TNum 8) v \<Longrightarrow> \<exists>x. v = VNum x"
  by (cases v) simp_all

lemma has_tys_pair: "has_tys cap [t, u] vs \<Longrightarrow> \<exists>v w. vs = [v, w] \<and> has_ty cap t v \<and> has_ty cap u w"
  by (cases vs; cases "tl vs"; cases "tl (tl vs)") (simp_all del: has_ty.simps)

lemma has_ty_Point: "has_ty cap Point_ty v \<Longrightarrow> \<exists>x y. v = VStruct [VNum x, VNum y]"
proof -
  assume h: "has_ty cap Point_ty v"
  then obtain vs where v: "v = VStruct vs" "has_tys cap [TNum 8, TNum 8] vs"
    by (cases v) (simp_all add: Point_ty_def del: has_tys.simps)
  from has_tys_pair [OF v(2)] has_ty_Num v(1) show ?thesis by blast
qed

lemma length_enc_Num: "length (enc ce (TNum 8) (VNum x)) = 8"
  by (simp del: le_bytes_numeral)

lemma length_enc_Point: "length (enc ce Point_ty (VStruct [VNum x, VNum y])) = 16"
  by (simp add: Point_ty_def del: le_bytes_numeral)

lemma target_Point: "target_ok c Point_ty (init_val c Point_ty) (VStruct [VNum x, VNum y])"
  by (simp add: Point_ty_def)

lemma rpc_register_types:
  assumes "rpc_register fid = Some (args, ret)"
  shows "\<forall>t \<in> set args. expected_free t" and "expected_free ret" and "wf_ty ret"
    and "has_ty cap ret v \<Longrightarrow> target_ok c ret (init_val c ret) v \<and> length (enc ce ret v) \<le> 16"
    and "has_tys cap args vs \<Longrightarrow> list_all2 (\<lambda>t v. target_ok c t (init_val c t) v) args vs \<and>
      length (enc_members ce args vs) \<le> 32"
proof -
  have free: "expected_free Point_ty" "wf_ty Point_ty" by (simp_all add: Point_ty_def)
  show "\<forall>t \<in> set args. expected_free t" and "expected_free ret" and "wf_ty ret"
    by (rule rpc_register_cases [OF assms]; simp add: free)+
  show "target_ok c ret (init_val c ret) v \<and> length (enc ce ret v) \<le> 16" if "has_ty cap ret v"
    using assms
  proof (cases rule: rpc_register_cases)
    case add_point
    with that has_ty_Point target_Point length_enc_Point show ?thesis by fastforce
  qed (use that has_ty_Num length_enc_Num in fastforce)+
  show "list_all2 (\<lambda>t v. target_ok c t (init_val c t) v) args vs \<and> length (enc_members ce args vs) \<le> 32"
    if "has_tys cap args vs"
    using assms
  proof (cases rule: rpc_register_cases)
    case add
    from has_tys_pair [OF that [unfolded add(1)]] obtain x y where "vs = [VNum x, VNum y]"
      using has_ty_Num by blast
    then show ?thesis by (simp add: add(1) del: le_bytes_numeral)
  next
    case echo
    with that show ?thesis by simp
  next
    case add_point
    from has_tys_pair [OF that [unfolded add_point(1)]] obtain x y z u
      where "vs = [VStruct [VNum x, VNum y], VStruct [VNum z, VNum u]]"
      using has_ty_Point by blast
    then show ?thesis by (simp add: add_point(1) target_Point length_enc_Point del: target_ok.simps enc.simps)
  qed
qed

lemma request_header_fields [simp]:
  "checksum (request_header p fid cid n) = MAGIC_NUMBER" "get_message_type (request_header p fid cid n) = MT_REQUEST"
  "rpc_type (request_header p fid cid n) = fid" "rpc_id (request_header p fid cid n) = cid"
  "server_port (request_header p fid cid n) = pr_port p" "payload_len (request_header p fid cid n) = word_of_nat n"
  by (simp_all add: request_header_def PackageHeader_new_def get_message_type_flags)

lemma response_header_fields [simp]:
  "checksum (response_header p ri n) = MAGIC_NUMBER" "get_message_type (response_header p ri n) = MT_RESPONSE"
  "rpc_id (response_header p ri n) = response_to_coro_id ri"
  "server_port (response_header p ri n) = pr_port p" "payload_len (response_header p ri n) = word_of_nat n"
  by (simp_all add: response_header_def PackageHeader_new_def get_message_type_flags)

text \<open>
  C6. A remote call reaches the function: when the request that the caller's process builds for
  a registered function arrives at a server, in pieces of any size and between hosts of any byte
  order, the server starts that function with exactly the caller's arguments, puts its frame at
  the end of the ready queue, and notes the caller's coroutine, function and listening port as
  the place the result goes to.
\<close>

theorem request_is_served:
  assumes "custom_writes ce (cd_custom (pr_codec pc))" and "custom_sizes ce (cd_custom (pr_codec pc))"
    and "custom_reads ce (cd_custom (pr_codec ps))" and "\<And>n. length (pr_fresh pc n) = n"
    and "rpc_register (func_id r) = Some (rb_args r, ret)" and "has_tys (cd_cap (pr_codec ps)) (rb_args r) vs"
    and "with_args pc vs r = Inr r1" and "get_local w f = Inr caller"
    and "rpc_await_suspend pc f r1 w = Inr (req, r2, w2)" and "concat reads = sr_buffer req" and "32 \<le> lim"
    and "ready (tw (ns_tasks s)) fs" and "a \<notin> set fs" and "fits_u64 (Suc (length fs))"
  shows "\<exists>s' v. receive ps lim False a l peer reads s = Inr (Conn_closed, s') \<and>
    ready (tw (ns_tasks s')) (fs @ [a]) \<and>
    ns_served s' = ns_served s @ [\<lparr>sv_frame = a, sv_function = func_id r, sv_args = vs\<rparr>] \<and>
    get_local (tw (ns_tasks s')) a = Inr v \<and>
    response_info v = Some \<lparr>response_to_end_point = set_port (pr_port pc) peer,
      response_to_coro_id = coro_id caller, response_rpc_type = func_id r\<rparr>"
proof -
  let ?e = "enc_members ce (rb_args r) vs"
  let ?h = "request_header pc (func_id r) (coro_id caller) (length ?e)"
  note ty = rpc_register_types [OF assms(5)]
  have len: "length ?e \<le> 32" using ty(5) [OF assms(6)] by simp
  have "sr_buffer req = header_bytes ?h @ ?e"
    using request_layout [OF assms(1,2) ty(1) assms(6,4) _ assms(8)] len assms(7,9)
    by (force simp: LOCAL_BUFFER_SIZE_def)
  then have st: "concat reads = header_bytes ?h @ ?e" using assms(10) by simp
  have n: "unat (word_of_nat (length ?e) :: u64) = length ?e" using len by (simp add: unat_of_nat)
  have "rd_ok (int (length ?e)) ?e 0" using len by (simp add: rd_ok_def)
  from des_args_enc [OF assms(3,6) conjunct1 [OF ty(5) [OF assms(6)]] this]
  have d: "des_args (pr_codec ps) (rb_args r) (int (length ?e)) ?e 0 = Inr (vs, int (length ?e))" by simp
  have rg: "rpc_register (rpc_type ?h) = Some (rb_args r, ret)" using assms(5) by simp
  obtain t' where t': "reflect_commit_function ps False a l ?h peer ?e (ns_tasks s)
      = Inr (Inr (), Some \<lparr>sv_frame = a, sv_function = rpc_type ?h, sv_args = vs\<rparr>, t')"
    "ready (tw t') (fs @ [a])" "coro_local_var (frames (tw t') a) = Some l"
    "locals (tw t') l = Some \<lparr>coro_id = next_id (tw (ns_tasks s)), wake_up_ts = 0,
      response_info = Some \<lparr>response_to_end_point = set_port (server_port ?h) peer,
        response_to_coro_id = rpc_id ?h, response_rpc_type = rpc_type ?h\<rparr>\<rparr>"
    by (rule reflect_commits [OF rg d assms(12,13,14)])
  have "word_of_nat (length ?e) \<le> (96 :: u64)" using len n by (simp add: word_le_nat_alt)
  then have "receive ps lim False a l peer reads s = Inr (Conn_closed,
      s\<lparr>ns_tasks := t', ns_served := ns_served s @ [\<lparr>sv_frame = a, sv_function = func_id r, sv_args = vs\<rparr>]\<rparr>)"
    using receive_header [OF st, of ps lim False a l peer s] n len assms(11) t'(1)
    by (simp add: dispatch_def request_arrives_def catch_all_def Let_def)
  with t'(2-4) show ?thesis by (auto simp: get_local_def)
qed

lemma demo_net_ready: "ready (tw (ns_tasks demo_net)) []"
  by (simp add: ready_def demo_net_def demo_tstate_def new_queue_rep)

lemma demo_codec:
  "custom_writes unary_enc (cd_custom (pr_codec demo_process))"
  "custom_sizes unary_enc (cd_custom (pr_codec demo_process))"
  "custom_reads unary_enc (cd_custom (pr_codec demo_process))"
  "custom_safe (cd_custom (pr_codec demo_process))" "cd_cap (pr_codec demo_process) = 1000"
  "length (pr_fresh demo_process n) = n"
  by (simp_all add: demo_process_def std_codec_def unary_writes unary_sizes unary_reads unary_safe)

theorem request_is_served_witness:
  "\<exists>r1 req r2 w2 s'. with_args demo_process [VNum 5, VNum 7] (new_RpcBase [TNum 8, TNum 8] (TNum 8) 1) = Inr r1 \<and>
    rpc_await_suspend demo_process 5 r1 (tw demo_tstate) = Inr (req, r2, w2) \<and>
    receive demo_process 1000 False 20 21 (EndPoint_v4 [127, 0, 0, 1] 40000)
      [take 3 (sr_buffer req), drop 3 (sr_buffer req)] demo_net = Inr (Conn_closed, s') \<and>
    ns_served s' = [\<lparr>sv_frame = 20, sv_function = 1, sv_args = [VNum 5, VNum 7]\<rparr>] \<and>
    ready (tw (ns_tasks s')) [20]"
proof -
  let ?r = "new_RpcBase [TNum 8, TNum 8] (TNum 8) 1"
  have l: "get_local (tw demo_tstate) 5 = Inr \<lparr>coro_id = 77, wake_up_ts = 0, response_info = None\<rparr>"
    by (simp add: get_local_def demo_tstate_def new_frame_def)
  have a: "rb_args ?r = [TNum 8, TNum 8]" "func_id ?r = 1" by (simp_all add: new_RpcBase_def)
  from request_layout [OF demo_codec(1,2), of ?r 0 "[VNum 5, VNum 7]" "tw demo_tstate" 5, unfolded a, OF _ _ _ _ l]
  obtain r1 req r2 w2 where r: "with_args demo_process [VNum 5, VNum 7] ?r = Inr r1"
    "rpc_await_suspend demo_process 5 r1 (tw demo_tstate) = Inr (req, r2, w2)"
    by (auto simp: demo_process_def LOCAL_BUFFER_SIZE_def split: if_splits)
  have s: "ns_served demo_net = []" by (simp add: demo_net_def)
  have g: "rpc_register (func_id ?r) = Some (rb_args ?r, TNum 8)" by (simp add: a rpc_register_def)
  have t: "has_tys (cd_cap (pr_codec demo_process)) (rb_args ?r) [VNum 5, VNum 7]" by (simp add: a)
  have c: "concat [take 3 (sr_buffer req), drop 3 (sr_buffer req)] = sr_buffer req" by simp
  from request_is_served [OF demo_codec(1,2,3,6) g t r(1) l r(2) c, of 1000 demo_net "[]" 20 21 "EndPoint_v4 [127, 0, 0, 1] 40000"]
    demo_net_ready r s a
  show ?thesis by (fastforce simp: fits_u64_def)
qed

lemma response_reaches_call:
  assumes "custom_writes ce (cd_custom (pr_codec ps))" and "custom_sizes ce (cd_custom (pr_codec ps))"
    and "custom_reads ce (cd_custom (pr_codec pc))" and "\<And>n. length (pr_fresh ps n) = n"
    and "rpc_register (func_id (ns_calls s call)) = Some (args, rb_ret (ns_calls s call))"
    and "has_ty (cd_cap (pr_codec pc)) (rb_ret (ns_calls s call)) v"
    and "make_response ps ri (rb_ret (ns_calls s call)) v = Inr bs" and "concat reads = bs" and "16 \<le> lim"
    and "ns_waiting s (response_to_coro_id ri) = Some \<lparr>mi_coroutine = Some f, mi_callback = call\<rparr>"
    and "rb_coroutine (ns_calls s call) = Some f" and "on_each_function (ns_calls s call) = None"
    and "finished_by (finish_condition (ns_calls s call)) (Suc (length (received_results (ns_calls s call))))
      (length (endpoints (ns_calls s call))) = Inr fin"
    and "ready (tw (ns_tasks s)) fs" and "f \<notin> set fs" and "loose (frames (tw (ns_tasks s))) f"
    and "fits_u64 (Suc (length fs))"
  shows "\<exists>s'. receive pc lim stop a l peer reads s = Inr (Conn_closed, s') \<and>
    received_results (ns_calls s' call) =
      received_results (ns_calls s call) @ [(set_port (pr_port ps) peer, VValue v)] \<and>
    ready (tw (ns_tasks s')) (if fin then fs @ [f] else fs) \<and>
    ns_waiting s' = (if fin then (ns_waiting s)(response_to_coro_id ri := None) else ns_waiting s) \<and>
    (\<forall>c. c \<noteq> call \<longrightarrow> ns_calls s' c = ns_calls s c) \<and>
    (\<forall>x. x \<notin> set (f # fs) \<longrightarrow> loose (frames (tw (ns_tasks s'))) x = loose (frames (tw (ns_tasks s))) x)"
proof -
  let ?r = "ns_calls s call" and ?cid = "response_to_coro_id ri" and ?peer = "set_port (pr_port ps) peer"
  let ?e = "enc ce (rb_ret ?r) v" and ?c = "pr_codec pc"
  let ?h = "response_header ps ri (length ?e)"
  note ty = rpc_register_types [OF assms(5)]
  have ok: "target_ok ?c (rb_ret ?r) (init_val ?c (rb_ret ?r)) v" and len: "length ?e \<le> 16"
    using ty(4) [OF assms(6)] by simp_all
  have "bs = header_bytes ?h @ ?e"
    using response_layout [OF assms(1,2) ty(2) assms(6,4)] len assms(7) by simp
  then have st: "concat reads = header_bytes ?h @ ?e" using assms(8) by simp
  have n: "unat (word_of_nat (length ?e) :: u64) = length ?e" using len by (simp add: unat_of_nat)
  have "rd_ok (int (length ?e)) ?e 0" using len by (simp add: rd_ok_def)
  from deserialize_enc_aux [OF assms(3,6) ok this]
  have d: "deserialize0 ?c (rb_ret ?r) (init_val ?c (rb_ret ?r)) (int (length ?e)) ?e = Inr (v, int (length ?e))"
    by (simp add: deserialize0_def)
  let ?r' = "?r\<lparr>received_results := received_results ?r @ [(?peer, VValue v)],
      endpoints := mark_received ?peer (endpoints ?r)\<rparr>"
  have cb: "process_buffer_cb pc ?peer ?e ?r = Inr (if fin then Some f else None, ?r')"
    using d assms(11-13) by (simp add: process_buffer_cb_alt calls_back_def)
  obtain w' where w: "commit_frame (tw (ns_tasks s)) f = Inr w'" "ready w' (fs @ [f])"
    "\<forall>x. x \<notin> set fs \<longrightarrow> x \<noteq> f \<longrightarrow> loose (frames w') x = loose (frames (tw (ns_tasks s))) x"
    by (rule commit_frame_ready [OF assms(14-17)])
  let ?s1 = "s\<lparr>ns_calls := (ns_calls s)(call := ?r')\<rparr>"
  let ?s2 = "?s1\<lparr>ns_waiting := (ns_waiting s)(?cid := None), ns_tasks := (ns_tasks s)\<lparr>tw := w'\<rparr>\<rparr>"
  have "response_arrives pc ?h peer ?e s = Inr (if fin then ?s2 else ?s1)"
    using assms(10) cb w(1) by (simp add: response_arrives_def wake_def Let_def)
  moreover have "word_of_nat (length ?e) \<le> (96 :: u64)" using len n by (simp add: word_le_nat_alt)
  ultimately have "receive pc lim stop a l peer reads s = Inr (Conn_closed, if fin then ?s2 else ?s1)"
    using receive_header [OF st, of pc lim stop a l peer s] n len assms(9)
    by (simp add: dispatch_def catch_all_def Let_def)
  with w(2,3) assms(14) show ?thesis by simp
qed

text \<open>
  C7. The result comes back: when the response the server makes for a value arrives at the
  caller's process, in pieces of any size, the value is appended to the results of the call whose
  coroutine id it carries; the caller is put at the end of the ready queue and leaves the table
  exactly when the finish condition is met by it.
\<close>

theorem response_is_delivered:
  assumes "custom_writes ce (cd_custom (pr_codec ps))" and "custom_sizes ce (cd_custom (pr_codec ps))"
    and "custom_reads ce (cd_custom (pr_codec pc))" and "\<And>n. length (pr_fresh ps n) = n"
    and "rpc_register (func_id (ns_calls s call)) = Some (args, rb_ret (ns_calls s call))"
    and "has_ty (cd_cap (pr_codec pc)) (rb_ret (ns_calls s call)) v"
    and "make_response ps ri (rb_ret (ns_calls s call)) v = Inr bs" and "concat reads = bs" and "16 \<le> lim"
    and "ns_waiting s (response_to_coro_id ri) = Some \<lparr>mi_coroutine = Some f, mi_callback = call\<rparr>"
    and "rb_coroutine (ns_calls s call) = Some f" and "on_each_function (ns_calls s call) = None"
    and "finished_by (finish_condition (ns_calls s call)) (Suc (length (received_results (ns_calls s call))))
      (length (endpoints (ns_calls s call))) = Inr fin"
    and "ready (tw (ns_tasks s)) fs" and "f \<notin> set fs" and "loose (frames (tw (ns_tasks s))) f"
    and "fits_u64 (Suc (length fs))"
  shows "\<exists>s'. receive pc lim stop a l peer reads s = Inr (Conn_closed, s') \<and>
    received_results (ns_calls s' call) =
      received_results (ns_calls s call) @ [(set_port (pr_port ps) peer, VValue v)] \<and>
    ready (tw (ns_tasks s')) (if fin then fs @ [f] else fs) \<and>
    ns_waiting s' = (if fin then (ns_waiting s)(response_to_coro_id ri := None) else ns_waiting s)"
  using response_reaches_call [OF assms] by blast

definition demo_waiting :: net_state where
  "demo_waiting = demo_net\<lparr>ns_waiting := [77 \<mapsto> \<lparr>mi_coroutine = Some 5, mi_callback = 9\<rparr>],
     ns_calls := (ns_calls demo_net)(9 := (new_RpcBase [TNum 8, TNum 8] (TNum 8) 1)\<lparr>
       rb_coroutine := Some 5, endpoints := [(EndPoint_v4 [127, 0, 0, 1] 8888, False)]\<rparr>)\<rparr>"

definition demo_info :: ResponseInfo where
  "demo_info = \<lparr>response_to_end_point = EndPoint_v4 [127, 0, 0, 1] 8888, response_to_coro_id = 77,
     response_rpc_type = 1\<rparr>"

lemma demo_waiting_ok:
  "rpc_register (func_id (ns_calls demo_waiting 9)) = Some ([TNum 8, TNum 8], rb_ret (ns_calls demo_waiting 9))"
  "rb_ret (ns_calls demo_waiting 9) = TNum 8"
  "has_ty (cd_cap (pr_codec demo_process)) (rb_ret (ns_calls demo_waiting 9)) (VNum 12)"
  "ns_waiting demo_waiting (response_to_coro_id demo_info) = Some \<lparr>mi_coroutine = Some 5, mi_callback = 9\<rparr>"
  "rb_coroutine (ns_calls demo_waiting 9) = Some 5" "on_each_function (ns_calls demo_waiting 9) = None"
  "finished_by (finish_condition (ns_calls demo_waiting 9)) (Suc (length (received_results (ns_calls demo_waiting 9))))
     (length (endpoints (ns_calls demo_waiting 9))) = Inr True"
  "ready (tw (ns_tasks demo_waiting)) []" "5 \<notin> set []" "loose (frames (tw (ns_tasks demo_waiting))) x"
  "fits_u64 (Suc (length []))"
  using demo_net_ready
  by (simp_all add: demo_waiting_def new_RpcBase_def rpc_register_def demo_info_def finished_by_def fits_u64_def)
    (simp add: demo_net_def demo_tstate_def new_frame_def loose_def)

lemma demo_response_exists: "\<exists>bs. make_response demo_process demo_info (TNum 8) (VNum 12) = Inr bs"
  using response_layout [OF demo_codec(1,2), of "TNum 8" 1000 "VNum 12" demo_info] demo_codec(6)
  by (auto simp del: le_bytes_numeral)

theorem response_is_delivered_witness:
  "\<exists>bs s'. make_response demo_process demo_info (TNum 8) (VNum 12) = Inr bs \<and>
    receive demo_process 1000 False 20 21 (EndPoint_v4 [127, 0, 0, 1] 40000) [bs] demo_waiting
      = Inr (Conn_closed, s') \<and>
    received_results (ns_calls s' 9) = [(EndPoint_v4 [127, 0, 0, 1] 8888, VValue (VNum 12))] \<and>
    ready (tw (ns_tasks s')) [5] \<and> ns_waiting s' 77 = None"
proof -
  obtain bs where bs: "make_response demo_process demo_info (TNum 8) (VNum 12) = Inr bs"
    using demo_response_exists ..
  have "set_port (pr_port demo_process) (EndPoint_v4 [127, 0, 0, 1] 40000) = EndPoint_v4 [127, 0, 0, 1] 8888"
    "received_results (ns_calls demo_waiting 9) = []"
    by (simp_all add: demo_process_def set_port_def EndPoint_v4_def demo_waiting_def new_RpcBase_def)
  then show ?thesis
    using bs response_is_delivered [OF demo_codec(1,2,3,6) demo_waiting_ok(1,3) bs [folded demo_waiting_ok(2)] _ _
        demo_waiting_ok(4-11), of "[bs]" 1000 False 20 21 "EndPoint_v4 [127, 0, 0, 1] 40000"]
    by (auto simp: demo_info_def)
qed

section \<open>Hostile input\<close>

text \<open>
  The frames that wait for a response are not queued, and the result types of their calls are
  types that exist.
\<close>

definition waiters_ok :: "net_state \<Rightarrow> nat list \<Rightarrow> bool" where
  "waiters_ok s fs \<longleftrightarrow> (\<forall>cid info. ns_waiting s cid = Some info \<longrightarrow>
     wf_ty (rb_ret (ns_calls s (mi_callback info))) \<and>
     (\<forall>f. rb_coroutine (ns_calls s (mi_callback info)) = Some f \<longrightarrow>
        f \<notin> set fs \<and> loose (frames (tw (ns_tasks s))) f))"

lemma safe_des_args:
  assumes "custom_safe (cd_custom c)" and "cd_cap c < 4611686018427387904"
  shows "\<forall>t \<in> set ts. wf_ty t \<Longrightarrow> rd_ok len buf pos \<Longrightarrow> safe_read len pos (des_args c ts len buf pos)"
proof (induction ts arbitrary: pos)
  case Nil
  then show ?case by (simp add: safe_read_def rd_ok_def)
next
  case (Cons t ts)
  have "safe_read len pos (deserialize c t (init_val c t) len buf pos)"
    using deserialize_safe_aux [OF assms] Cons.prems by simp
  then show ?case
    unfolding des_args.simps
  proof (rule safe_read_andthen, goal_cases)
    case (1 v p)
    then have "safe_read len p (des_args c ts len buf p)"
      using Cons by (intro Cons.IH) (auto intro: rd_ok_later)
    then show ?case by (cases "des_args c ts len buf p") (auto simp: safe_read_def)
  qed
qed

lemma rpc_register_wf: "rpc_register fid = Some (args, ret) \<Longrightarrow> \<forall>t \<in> set args. wf_ty t"
  by (erule rpc_register_cases) (simp_all add: Point_ty_def)

lemma safe_request:
  assumes "custom_safe (cd_custom (pr_codec p))" and "cd_cap (pr_codec p) < 4611686018427387904"
    and "ready (tw (ns_tasks s)) fs" and "a \<notin> set fs" and "fits_u64 (Suc (length fs))"
    and "length data < 4611686018427387904" and "request_arrives p False a l h peer data s = Inl e"
  shows "\<not> memory_ub e"
proof (cases "rpc_register (rpc_type h)")
  case None
  then have "e = Assert_failed"
    using assms(7) by (simp add: request_arrives_def reflect_commit_function_def)
  then show ?thesis by (simp add: memory_ub_def)
next
  case (Some ar)
  obtain args ret where ar: "ar = (args, ret)" by (cases ar)
  have "rd_ok (int (length data)) data 0" using assms(6) by (simp add: rd_ok_def)
  from safe_des_args [OF assms(1,2) rpc_register_wf this] Some ar
  have sf: "safe_read (int (length data)) 0 (des_args (pr_codec p) args (int (length data)) data 0)" by blast
  show ?thesis
  proof (cases "des_args (pr_codec p) args (int (length data)) data 0")
    case (Inl e')
    then have "e = e'"
      using assms(7) Some ar by (simp add: request_arrives_def reflect_commit_function_def)
    with sf Inl show ?thesis by (simp add: safe_read_def)
  next
    case (Inr ve)
    obtain vs e' where "ve = (vs, e')" by (cases ve)
    with Inr have d: "des_args (pr_codec p) args (int (length data)) data 0 = Inr (vs, e')" by simp
    obtain t' where "reflect_commit_function p False a l h peer data (ns_tasks s)
        = Inr (Inr (), Some \<lparr>sv_frame = a, sv_function = rpc_type h, sv_args = vs\<rparr>, t')"
      by (rule reflect_commits [OF Some [unfolded ar] d assms(3-5)])
    with assms(7) show ?thesis by (simp add: request_arrives_def)
  qed
qed

lemma safe_response:
  assumes "custom_safe (cd_custom (pr_codec p))" and "cd_cap (pr_codec p) < 4611686018427387904"
    and "ready (tw (ns_tasks s)) fs" and "waiters_ok s fs" and "fits_u64 (Suc (length fs))"
    and "length data < 4611686018427387904" and "response_arrives p h peer data s = Inl e"
  shows "\<not> memory_ub e"
proof (cases "ns_waiting s (rpc_id h)")
  case None
  then show ?thesis using assms(7) by (simp add: response_arrives_def)
next
  case (Some info)
  let ?r = "ns_calls s (mi_callback info)" and ?peer = "set_port (server_port h) peer"
  have w: "wf_ty (rb_ret ?r)" "\<forall>f. rb_coroutine ?r = Some f \<longrightarrow> f \<notin> set fs \<and> loose (frames (tw (ns_tasks s))) f"
    using assms(4) Some by (simp_all add: waiters_ok_def)
  have "rd_ok (int (length data)) data 0" using assms(6) by (simp add: rd_ok_def)
  from deserialize_safe_aux [OF assms(1,2) w(1) this]
  have sf: "safe_read (int (length data)) 0 (deserialize0 (pr_codec p) (rb_ret ?r)
      (init_val (pr_codec p) (rb_ret ?r)) (int (length data)) data)" by (simp add: deserialize0_def)
  show ?thesis
  proof (cases "process_buffer_cb p ?peer data ?r")
    case (Inl e')
    then have "e = e'" using assms(7) Some by (simp add: response_arrives_def)
    moreover have "\<not> memory_ub e'"
      using Inl sf
      by (auto simp: process_buffer_cb_alt andthen_Inl_iff safe_read_def finished_by_def memory_ub_def
          split: FinishCondition.splits)
    ultimately show ?thesis by simp
  next
    case (Inr cr)
    obtain c r where cr: "cr = (c, r)" by (cases cr)
    have c: "c = None \<or> c = rb_coroutine ?r"
      using Inr cr by (auto simp: process_buffer_cb_alt andthen_Inr_iff split: if_splits)
    have False
    proof (cases c)
      case None
      then show False using assms(7) Some Inr cr by (simp add: response_arrives_def wake_def Let_def)
    next
      case (Some f)
      with c w(2) have f: "f \<notin> set fs" "loose (frames (tw (ns_tasks s))) f" by auto
      obtain w' where "commit_frame (tw (ns_tasks s)) f = Inr w'"
        by (rule commit_frame_ready [OF assms(3) f assms(5)])
      then show False
        using assms(7) \<open>ns_waiting s (rpc_id h) = Some info\<close> Inr cr Some
        by (simp add: response_arrives_def wake_def Let_def)
    qed
    then show ?thesis ..
  qed
qed

text \<open>
  C19. Whatever bytes arrive, in whatever pieces, the handler makes no access outside a buffer,
  follows no null pointer and overflows no integer: it acts on the message, drops the connection,
  or ends the process by an assertion or abort.
\<close>

theorem receive_memory_safe:
  assumes "custom_safe (cd_custom (pr_codec p))" and "cd_cap (pr_codec p) < 4611686018427387904"
    and "ready (tw (ns_tasks s)) fs" and "waiters_ok s fs" and "a \<notin> set fs" and "fits_u64 (Suc (length fs))"
    and "lim < 4611686018427387904" and "receive p lim False a l peer reads s = Inl e"
  shows "\<not> memory_ub e"
proof (cases rule: stream_cases [of reads])
  case short
  with assms(8) show ?thesis by (simp add: receive_short)
next
  case (message h rest)
  let ?n = "unat (payload_len h)"
  have d: "\<not> memory_ub e'" if "dispatch p False a l h peer (take ?n rest) s = Inl e'" and "?n \<le> lim" for e'
  proof -
    have "length (take ?n rest) < 4611686018427387904" using that(2) assms(7) by simp
    from safe_request [OF assms(1-3,5,6) this] safe_response [OF assms(1-4,6) this] that(1)
    show ?thesis by (auto simp: dispatch_def memory_ub_def split: if_splits)
  qed
  from assms(8) show ?thesis
    unfolding receive_header [OF message] Let_def catch_all_def
    using d by (auto simp: andthen_Inl_iff memory_ub_def split: if_splits sum.splits)
qed

theorem receive_memory_safe_witness:
  "\<not> memory_ub Aborted \<and>
   receive demo_process 1000 False 20 21 (EndPoint_v4 [127, 0, 0, 1] 80)
     [header_bytes (PackageHeader_default\<lparr>flags := 3, payload_len := 1\<rparr>), [7]] demo_net = Inl Aborted"
proof -
  let ?h = "PackageHeader_default\<lparr>flags := 3, payload_len := 1\<rparr>"
  have "concat [header_bytes ?h, [7]] = header_bytes ?h @ [7]" by simp
  from receive_header [OF this, of demo_process 1000 False 20 21 "EndPoint_v4 [127, 0, 0, 1] 80" demo_net]
  have r: "receive demo_process 1000 False 20 21 (EndPoint_v4 [127, 0, 0, 1] 80)
      [header_bytes ?h, [7]] demo_net = Inl Aborted"
    by (simp add: PackageHeader_default_def dispatch_def get_message_type_def MASK_MESSAGE_TYPE_BITS_def
        MessageType_of_def catch_all_def is_exception_def)
  moreover have "waiters_ok demo_net []" by (simp add: waiters_ok_def demo_net_def)
  ultimately show ?thesis
    using receive_memory_safe [OF demo_codec(4) _ demo_net_ready _ _ _ _ r] demo_codec(5)
    by (simp add: fits_u64_def)
qed

section \<open>Timers\<close>

lemma wake_keeps: "wake c s = Inr s' \<Longrightarrow> ns_timers s' = ns_timers s \<and> ns_waiting s' = ns_waiting s"
  by (auto simp: wake_def andthen_Inr_iff split: option.splits)

lemma response_keeps_timers: "response_arrives p h peer b s = Inr s' \<Longrightarrow> ns_timers s' = ns_timers s"
  by (auto simp: response_arrives_def Let_def andthen_Inr_iff split: option.splits if_splits
      dest!: wake_keeps)

lemma receive_keeps_timers:
  assumes "receive p lim stop a l peer reads s = Inr (ce, s')"
  shows "ns_timers s' = ns_timers s"
proof (cases rule: stream_cases [of reads])
  case short
  with assms show ?thesis by (simp add: receive_short)
next
  case (message h rest)
  have "ns_timers s1 = ns_timers s" if "dispatch p stop a l h peer b s = Inr s1" for b s1
    using that response_keeps_timers
    by (auto simp: dispatch_def request_arrives_def andthen_Inr_iff split: if_splits)
  then show ?thesis
    using assms unfolding receive_header [OF message] Let_def catch_all_def
    by (auto simp: andthen_Inr_iff split: if_splits sum.splits)
qed

text \<open>
  Timers are never cancelled and know only the coroutine: when a call is answered in time
  and its coroutine makes a second call, the timer of the first call ends the second one, whose
  own time has not passed: all its end points are reported as timed out and the caller runs.
\<close>

theorem stale_timer_ends_next_call:
  assumes "ns_waiting s0 (sr_coro_id req1) = None"
    and "receive p lim stop a l peer reads (commit_send_request_task req1 call1 s0) = Inr (ce, s)"
    and "ns_waiting s (sr_coro_id req1) = None" and "sr_coro_id req2 = sr_coro_id req1"
    and "fresh_call (ns_calls s call2)"
    and "ready (tw (ns_tasks s)) fs" and "sr_coroutine req2 \<notin> set fs"
    and "loose (frames (tw (ns_tasks s))) (sr_coroutine req2)" and "fits_u64 (Suc (length fs))"
  shows "\<exists>s'. (sr_coro_id req1, sr_timeout req1) \<in> set (ns_timers (commit_send_request_task req2 call2 s)) \<and>
    timeout_fires (sr_coro_id req1) (sr_timeout req1) (commit_send_request_task req2 call2 s) = Inr s' \<and>
    received_results (ns_calls s' call2) = map (\<lambda>(e, _). (e, VUnexp RPC_TIMEOUT)) (endpoints (ns_calls s call2)) \<and>
    ready (tw (ns_tasks s')) (fs @ [sr_coroutine req2]) \<and> ns_waiting s' (sr_coro_id req2) = None \<and>
    (sr_coro_id req2, sr_timeout req2) \<in> set (ns_timers s')"
proof -
  let ?id = "sr_coro_id req1" and ?f = "sr_coroutine req2" and ?r = "ns_calls s call2"
  let ?s2 = "commit_send_request_task req2 call2 s"
  have tm: "ns_timers s = ns_timers s0 @ [(?id, sr_timeout req1)]"
    using receive_keeps_timers [OF assms(2)] by (simp add: commit_send_request_task_def)
  have un: "filter (\<lambda>(e, b). \<not> b) (endpoints ?r) = endpoints ?r" "received_results ?r = []"
    using assms(5) by (auto simp: fresh_call_def filter_id_conv)
  obtain w where w: "commit_frame (tw (ns_tasks s)) ?f = Inr w" "ready w (fs @ [?f])"
    by (rule commit_frame_ready [OF assms(6-9)])
  have wt: "ns_waiting ?s2 ?id = Some \<lparr>mi_coroutine = Some ?f, mi_callback = call2\<rparr>"
    using assms(3,4) by (simp add: commit_send_request_task_def)
  have cb: "timeout_cb ?r = Inr (?r\<lparr>received_results := map (\<lambda>(e, b). (e, VUnexp RPC_TIMEOUT)) (endpoints ?r)\<rparr>)"
    using un by (simp add: timeout_cb_def Let_def)
  have f: "ns_calls ?s2 = ns_calls s" "ns_tasks ?s2 = ns_tasks s"
    "ns_timers ?s2 = ns_timers s0 @ [(?id, sr_timeout req1), (?id, sr_timeout req2)]"
    using tm assms(4) by (simp_all add: commit_send_request_task_def)
  have own: "(?id, sr_timeout req2) \<in> set (remove1 (?id, sr_timeout req1) (ns_timers ?s2))"
    unfolding f(3) by (simp add: remove1_append)
  show ?thesis
    using wt cb w f own assms(4) by (simp add: timeout_fires_def wake_def Let_def)
qed

definition demo_req :: "u64 \<Rightarrow> nat \<Rightarrow> SendRequest" where
  "demo_req timeout f = \<lparr>sr_coro_id = 77, sr_endpoints = [], sr_buffer = [], sr_timeout = timeout, sr_coroutine = f\<rparr>"

definition demo_before :: net_state where
  "demo_before = demo_waiting\<lparr>ns_waiting := (\<lambda>_. None)\<rparr>"

theorem stale_timer_ends_next_call_witness:
  "\<exists>bs s s'. receive demo_process 1000 False 20 21 (EndPoint_v4 [127, 0, 0, 1] 40000) [bs]
      (commit_send_request_task (demo_req 1000 5) 9 demo_before) = Inr (Conn_closed, s) \<and>
    timeout_fires 77 1000 (commit_send_request_task (demo_req 5000 6) 10 s) = Inr s' \<and>
    ready (tw (ns_tasks s')) ([5] @ [6])"
proof -
  let ?s1 = "commit_send_request_task (demo_req 1000 5) 9 demo_before"
  have s1: "ns_calls ?s1 = ns_calls demo_waiting" "ns_tasks ?s1 = ns_tasks demo_waiting"
    "ns_waiting ?s1 = ns_waiting demo_waiting"
    by (simp_all add: commit_send_request_task_def demo_req_def demo_before_def demo_waiting_def)
  obtain bs where bs: "make_response demo_process demo_info (TNum 8) (VNum 12) = Inr bs"
    using demo_response_exists ..
  from response_reaches_call [OF demo_codec(1,2,3,6), of ?s1 9 "[TNum 8, TNum 8]" "VNum 12" demo_info bs "[bs]" 1000
      5 True "[]" False 20 21 "EndPoint_v4 [127, 0, 0, 1] 40000", unfolded s1] demo_waiting_ok bs
  obtain s where s: "receive demo_process 1000 False 20 21 (EndPoint_v4 [127, 0, 0, 1] 40000) [bs] ?s1 = Inr (Conn_closed, s)"
    "ready (tw (ns_tasks s)) [5]" "ns_waiting s 77 = None" "ns_calls s 10 = ns_calls demo_waiting 10"
    "loose (frames (tw (ns_tasks s))) 6"
    by (auto simp: demo_info_def)
  have w0: "ns_waiting demo_before (sr_coro_id (demo_req 1000 5)) = None" by (simp add: demo_before_def)
  have id: "sr_coro_id (demo_req t f) = 77" "sr_timeout (demo_req t f) = t" "sr_coroutine (demo_req t f) = f" for t f
    by (simp_all add: demo_req_def)
  have "fresh_call (ns_calls s 10)"
    unfolding s(4) by (simp add: fresh_call_def demo_waiting_def demo_net_def new_RpcBase_def)
  with stale_timer_ends_next_call [OF w0 s(1), unfolded id, OF s(3), of "demo_req 5000 6" 10 "[5]"] s show ?thesis
    by (auto simp: id fits_u64_def)
qed

end
