(* ===== verification/Spdlog_Mpmc.thy ===== *)
theory Spdlog_Mpmc
  imports Spdlog_Queue
begin

text \<open>
  The multi producer, multi consumer queue behind the asynchronous logger
  (\<open>details/mpmc_blocking_q.h\<close>). Every operation runs under the queue's mutex, and the wait on
  a condition variable evaluates its condition under the mutex, so a concurrent execution is a
  sequence of whole operations. An operation that waits has the value \<open>None\<close>: it does not
  happen in this state. What the operation returns is part of its step.
\<close>

section \<open>Operations\<close>

record 'a mpmc =
  q :: "'a circular_q"
  discard_counter :: nat

definition mpmc_new :: "'a \<Rightarrow> nat \<Rightarrow> 'a mpmc" where
  "mpmc_new dflt capacity = \<lparr>q = cq_new dflt capacity, discard_counter = 0\<rparr>"

datatype 'a mpmc_out = Pushed | Discarded | Popped 'a | Timed_out

type_synonym 'a mpmc_result = "(fault + ('a mpmc \<times> 'a mpmc_out)) option"

definition mpmc_push :: "'a mpmc \<Rightarrow> 'a \<Rightarrow> fault + ('a mpmc \<times> 'a mpmc_out)" where
  "mpmc_push s item = andthen (cq_push_back (q s) item) (\<lambda>q'. Inr (s\<lparr>q := q'\<rparr>, Pushed))"

definition mpmc_pop :: "'a mpmc \<Rightarrow> fault + ('a mpmc \<times> 'a mpmc_out)" where
  "mpmc_pop s =
     andthen (cq_front (q s)) (\<lambda>item.
     andthen (cq_pop_front (q s)) (\<lambda>q'.
     Inr (s\<lparr>q := q'\<rparr>, Popped item)))"

definition enqueue :: "'a mpmc \<Rightarrow> 'a \<Rightarrow> 'a mpmc_result" where
  "enqueue s item = (if \<not> cq_full (q s) then Some (mpmc_push s item) else None)"

definition enqueue_nowait :: "'a mpmc \<Rightarrow> 'a \<Rightarrow> 'a mpmc_result" where
  "enqueue_nowait s item = Some (mpmc_push s item)"

definition enqueue_if_have_room :: "'a mpmc \<Rightarrow> 'a \<Rightarrow> 'a mpmc_result" where
  "enqueue_if_have_room s item =
     (if \<not> cq_full (q s)
      then Some (mpmc_push s item)
      else Some (Inr (s\<lparr>discard_counter := (discard_counter s + 1) mod 2 ^ 64\<rparr>, Discarded)))"

text \<open>The timeout ends the wait only while the queue is empty.\<close>

definition dequeue_for :: "'a mpmc \<Rightarrow> 'a mpmc_result" where
  "dequeue_for s = (if cq_empty (q s) then Some (Inr (s, Timed_out)) else Some (mpmc_pop s))"

definition dequeue :: "'a mpmc \<Rightarrow> 'a mpmc_result" where
  "dequeue s = (if \<not> cq_empty (q s) then Some (mpmc_pop s) else None)"

definition mpmc_overrun_counter :: "'a mpmc \<Rightarrow> nat" where
  "mpmc_overrun_counter s = overrun (q s)"

definition mpmc_size :: "'a mpmc \<Rightarrow> nat" where
  "mpmc_size s = cq_size (q s)"

definition mpmc_reset_overrun_counter :: "'a mpmc \<Rightarrow> 'a mpmc" where
  "mpmc_reset_overrun_counter s = s\<lparr>q := cq_reset_overrun_counter (q s)\<rparr>"

definition mpmc_reset_discard_counter :: "'a mpmc \<Rightarrow> 'a mpmc" where
  "mpmc_reset_discard_counter s = s\<lparr>discard_counter := 0\<rparr>"

section \<open>Executions\<close>

datatype 'a mpmc_op =
  Enqueue 'a | Enqueue_nowait 'a | Enqueue_if_have_room 'a | Dequeue | Dequeue_for

fun mpmc_do :: "'a mpmc_op \<Rightarrow> 'a mpmc \<Rightarrow> 'a mpmc_result" where
  "mpmc_do (Enqueue x) s = enqueue s x"
| "mpmc_do (Enqueue_nowait x) s = enqueue_nowait s x"
| "mpmc_do (Enqueue_if_have_room x) s = enqueue_if_have_room s x"
| "mpmc_do Dequeue s = dequeue s"
| "mpmc_do Dequeue_for s = dequeue_for s"

text \<open>What an operation of the trace put into the queue, took out of it, or discarded.\<close>

fun item_in :: "'a mpmc_op \<times> 'a mpmc_out \<Rightarrow> 'a list" where
  "item_in (Enqueue x, Pushed) = [x]"
| "item_in (Enqueue_nowait x, Pushed) = [x]"
| "item_in (Enqueue_if_have_room x, Pushed) = [x]"
| "item_in _ = []"

fun item_out :: "'a mpmc_op \<times> 'a mpmc_out \<Rightarrow> 'a list" where
  "item_out (_, Popped x) = [x]"
| "item_out _ = []"

inductive mpmc_run :: "'a mpmc \<Rightarrow> ('a mpmc_op \<times> 'a mpmc_out) list \<Rightarrow> 'a mpmc \<Rightarrow> bool" where
  start: "mpmc_run s [] s"
| operation: "mpmc_run s0 tr s \<Longrightarrow> mpmc_do op s = Some (Inr (s', out)) \<Longrightarrow>
    mpmc_run s0 (tr @ [(op, out)]) s'"

section \<open>One operation\<close>

definition mpmc_ok :: "'a mpmc \<Rightarrow> bool" where
  "mpmc_ok s = (cq_ok (q s) \<and> max_items (q s) \<noteq> 0)"

abbreviation queued :: "'a mpmc \<Rightarrow> 'a list" where
  "queued s \<equiv> cq_contents (q s)"

lemma mpmc_push_effect:
  assumes "mpmc_ok s"
  obtains s' where "mpmc_push s x = Inr (s', Pushed)" and "mpmc_ok s'"
    and "discard_counter s' = discard_counter s" and "cq_capacity (q s') = cq_capacity (q s)"
    and "queued s' = keep_last (cq_capacity (q s)) (queued s @ [x])"
    and "overrun (q s') = (if cq_full (q s) then (overrun (q s) + 1) mod 2 ^ 64 else overrun (q s))"
proof -
  have q: "cq_ok (q s)" "max_items (q s) \<noteq> 0" using assms by (simp_all add: mpmc_ok_def)
  show thesis
  proof (rule cq_push_back_enabled [OF q, of x])
    fix q'
    assume "cq_push_back (q s) x = Inr q'" "cq_ok q'" "max_items q' = max_items (q s)"
      "cq_contents q' = keep_last (cq_capacity (q s)) (queued s @ [x])"
      "overrun q' = (if cq_size (q s) = cq_capacity (q s) then (overrun (q s) + 1) mod 2 ^ 64
        else overrun (q s))"
    then show thesis using that [of "s\<lparr>q := q'\<rparr>"] q
      by (simp add: mpmc_push_def mpmc_ok_def cq_capacity_def cq_full_iff)
  qed
qed

lemma mpmc_pop_effect:
  assumes "mpmc_ok s" and "\<not> cq_empty (q s)"
  obtains s' x where "mpmc_pop s = Inr (s', Popped x)" and "mpmc_ok s'"
    and "discard_counter s' = discard_counter s" and "cq_capacity (q s') = cq_capacity (q s)"
    and "queued s = x # queued s'" and "overrun (q s') = overrun (q s)"
proof -
  have q: "cq_ok (q s)" "max_items (q s) \<noteq> 0" "queued s \<noteq> []"
    using assms by (simp_all add: mpmc_ok_def cq_empty_iff)
  then obtain x xs where "queued s = x # xs" by (cases "queued s") auto
  then show thesis
  proof (rule cq.take_one [OF q(1)])
    fix q'
    assume q': "cq_front (q s) = Inr x" "cq_pop_front (q s) = Inr q'" "cq_ok q'"
      "cq_capacity q' = cq_capacity (q s)" "cq_contents q' = xs"
    then have "max_items q' = max_items (q s)" "overrun q' = overrun (q s)"
      by (auto simp: cq_pop_front_def split: if_splits)
    then show thesis using that [of "s\<lparr>q := q'\<rparr>" x] q q' \<open>queued s = x # xs\<close>
      by (simp add: mpmc_pop_def mpmc_ok_def)
  qed
qed

section \<open>Whole executions\<close>

abbreviation items_in :: "('a mpmc_op \<times> 'a mpmc_out) list \<Rightarrow> 'a list" where
  "items_in tr \<equiv> concat (map item_in tr)"

abbreviation items_out :: "('a mpmc_op \<times> 'a mpmc_out) list \<Rightarrow> 'a list" where
  "items_out tr \<equiv> concat (map item_out tr)"

definition overruns_possible :: "('a mpmc_op \<times> 'a mpmc_out) list \<Rightarrow> bool" where
  "overruns_possible tr = (\<exists>x. (Enqueue_nowait x, Pushed) \<in> set tr)"

text \<open>
  The balance of an execution: what came in is what went out and what is queued, in the same
  order, except for \<open>lost\<close> elements, which the overrun counter counts.
\<close>

definition balance :: "('a mpmc_op \<times> 'a mpmc_out) list \<Rightarrow> 'a mpmc \<Rightarrow> nat \<Rightarrow> bool" where
  "balance tr s lost =
     (subseq (items_out tr @ queued s) (items_in tr) \<and>
      length (items_in tr) = length (items_out tr) + length (queued s) + lost \<and>
      overrun (q s) = lost mod 2 ^ 64 \<and>
      (\<not> overruns_possible tr \<longrightarrow> lost = 0))"

lemma subseq_keep_last: "subseq (keep_last n xs) xs"
  unfolding keep_last_def by (rule suffix_imp_subseq) (rule suffix_drop)

lemma length_queued_le: "mpmc_ok s \<Longrightarrow> length (queued s) \<le> cq_capacity (q s)"
  by (simp add: mpmc_ok_def cq_size_le)

lemma full_iff_queued: "mpmc_ok s \<Longrightarrow> cq_full (q s) \<longleftrightarrow> length (queued s) = cq_capacity (q s)"
  by (simp add: mpmc_ok_def cq_full_iff)

text \<open>The balance after one more element came in.\<close>

lemma balance_push:
  assumes ok: "mpmc_ok s" and old: "balance tr s lost"
    and ev: "item_in ev = [x]" "item_out ev = []"
    and new: "queued s' = keep_last (cq_capacity (q s)) (queued s @ [x])"
      "overrun (q s') = (if cq_full (q s) then (overrun (q s) + 1) mod 2 ^ 64 else overrun (q s))"
    and nowait: "overruns_possible (tr @ [ev]) \<longleftrightarrow> overruns_possible tr \<or> cq_full (q s) \<or> b"
  shows "balance (tr @ [ev]) s' (lost + (if cq_full (q s) then 1 else 0))"
proof -
  have seq: "subseq (items_out tr @ queued s @ [x]) (items_in tr @ [x])"
    using old list_emb_append_mono [of "(=)" "items_out tr @ queued s" "items_in tr" "[x]" "[x]"]
    by (simp add: balance_def)
  moreover have "subseq (items_out tr @ queued s') (items_out tr @ queued s @ [x])"
    unfolding new(1) by (intro list_emb_append_mono subseq_keep_last) simp
  ultimately have sub: "subseq (items_out tr @ queued s') (items_in tr @ [x])"
    by (rule subseq_order.order_trans [rotated])
  have len: "length (queued s) \<le> cq_capacity (q s)" using ok by (rule length_queued_le)
  have "length (queued s') + (if cq_full (q s) then 1 else 0) = length (queued s) + 1"
    using len full_iff_queued [OF ok] unfolding new(1) by (auto simp del: length_cq_contents)
  then show ?thesis
    using old sub ev new(2) nowait
    by (auto simp: balance_def mod_simps simp del: length_cq_contents)
qed

lemma balance_pop:
  assumes "balance tr s lost" and "queued s = x # queued s'" and "overrun (q s') = overrun (q s)"
    and "item_in ev = []" and "item_out ev = [x]"
    and "overruns_possible (tr @ [ev]) \<longleftrightarrow> overruns_possible tr"
  shows "balance (tr @ [ev]) s' lost"
  using assms by (simp add: balance_def del: length_cq_contents)

lemma overruns_possible_snoc:
  "overruns_possible (tr @ [(op, out)]) \<longleftrightarrow>
     overruns_possible tr \<or> ((\<exists>x. op = Enqueue_nowait x) \<and> out = Pushed)"
  by (auto simp: overruns_possible_def)

lemma mpmc_run_balance:
  assumes "mpmc_run (mpmc_new d n) tr s" and "n + 1 < 2 ^ 63"
  shows "mpmc_ok s \<and> cq_capacity (q s) = n \<and> (\<exists>lost. balance tr s lost)
    \<and> discard_counter s = length (filter (\<lambda>ev. snd ev = Discarded) tr) mod 2 ^ 64"
  using assms(1)
proof (induction "mpmc_new d n" tr s rule: mpmc_run.induct)
  case start
  have "max_items (cq_new d n) \<noteq> 0" using assms(2) by (simp add: cq_new_def)
  moreover have "balance [] (mpmc_new d n) 0"
    using cq_new_ok(2) [OF assms(2), of d]
    by (simp add: balance_def mpmc_new_def cq_new_def Let_def flip: length_cq_contents)
  ultimately show ?case using cq_new_ok [OF assms(2), of d]
    by (auto simp: mpmc_new_def mpmc_ok_def)
next
  case (operation tr s op s' out)
  then have ok: "mpmc_ok s" and cap: "cq_capacity (q s) = n"
    and disc: "discard_counter s = length (filter (\<lambda>ev. snd ev = Discarded) tr) mod 2 ^ 64"
    by auto
  obtain lost where bal: "balance tr s lost" using operation by blast
  have push: ?case if res: "mpmc_push s x = Inr (s', out)"
    and ev: "item_in (op, Pushed) = [x]"
    and may: "cq_full (q s) \<Longrightarrow> op = Enqueue_nowait x" for x
  proof (rule mpmc_push_effect [OF ok, of x])
    fix s1
    assume s1: "mpmc_push s x = Inr (s1, Pushed)" "mpmc_ok s1"
      "discard_counter s1 = discard_counter s" "cq_capacity (q s1) = cq_capacity (q s)"
      "queued s1 = keep_last (cq_capacity (q s)) (queued s @ [x])"
      "overrun (q s1) = (if cq_full (q s) then (overrun (q s) + 1) mod 2 ^ 64 else overrun (q s))"
    then have eq: "s1 = s'" "out = Pushed" using res by simp_all
    have "balance (tr @ [(op, Pushed)]) s1 (lost + (if cq_full (q s) then 1 else 0))"
      using may by (intro balance_push [OF ok bal ev _ s1(5,6), where b = "\<exists>x. op = Enqueue_nowait x"])
        (auto simp: overruns_possible_snoc)
    then show ?case using s1 eq cap disc by auto
  qed
  have pop: ?case if res: "mpmc_pop s = Inr (s', out)" and ne: "\<not> cq_empty (q s)"
    and ev: "op = Dequeue \<or> op = Dequeue_for"
  proof (rule mpmc_pop_effect [OF ok ne])
    fix s1 x
    assume s1: "mpmc_pop s = Inr (s1, Popped x)" "mpmc_ok s1"
      "discard_counter s1 = discard_counter s" "cq_capacity (q s1) = cq_capacity (q s)"
      "queued s = x # queued s1" "overrun (q s1) = overrun (q s)"
    then have eq: "s1 = s'" "out = Popped x" using res by simp_all
    have "balance (tr @ [(op, Popped x)]) s1 lost"
      using ev by (intro balance_pop [OF bal s1(5,6)]) (auto simp: overruns_possible_snoc)
    then show ?case using s1 eq cap disc by auto
  qed
  show ?case
  proof (cases op)
    case (Enqueue x)
    then show ?thesis using operation(3) push [of x]
      by (simp add: enqueue_def split: if_splits)
  next
    case (Enqueue_nowait x)
    then show ?thesis using operation(3) push [of x] by (simp add: enqueue_nowait_def)
  next
    case (Enqueue_if_have_room x)
    show ?thesis
    proof (cases "cq_full (q s)")
      case True
      then have "s' = s\<lparr>discard_counter := (discard_counter s + 1) mod 2 ^ 64\<rparr>" "out = Discarded"
        using operation(3) Enqueue_if_have_room by (simp_all add: enqueue_if_have_room_def)
      moreover from this have "balance (tr @ [(op, out)]) s' lost"
        using bal Enqueue_if_have_room by (simp add: balance_def overruns_possible_snoc)
      ultimately show ?thesis using ok cap disc by (auto simp: mpmc_ok_def mod_simps)
    next
      case False
      then show ?thesis using operation(3) push [of x] Enqueue_if_have_room
        by (simp add: enqueue_if_have_room_def)
    qed
  next
    case Dequeue
    then show ?thesis using operation(3) pop by (simp add: dequeue_def split: if_splits)
  next
    case Dequeue_for
    show ?thesis
    proof (cases "cq_empty (q s)")
      case True
      then have "s' = s" "out = Timed_out"
        using operation(3) Dequeue_for by (simp_all add: dequeue_for_def)
      moreover from this have "balance (tr @ [(op, out)]) s' lost"
        using bal Dequeue_for by (simp add: balance_def overruns_possible_snoc)
      ultimately show ?thesis using ok cap disc by auto
    next
      case False
      then show ?thesis using operation(3) pop Dequeue_for by (simp add: dequeue_for_def)
    qed
  qed
qed

text \<open>
  C26. In every execution of the queue what the consumers got followed by what is still queued is,
  in order, what the producers put in, less the elements that the overrun counter (modulo its
  width) counts; only \<open>enqueue_nowait\<close> can lose any, the queue never exceeds its capacity, and
  the discard counter counts the elements that were refused.
\<close>

theorem mpmc_conserves_items:
  assumes "mpmc_run (mpmc_new d n) tr s" and "n + 1 < 2 ^ 63"
  shows "\<exists>lost. subseq (items_out tr @ queued s) (items_in tr)
    \<and> length (items_in tr) = length (items_out tr) + mpmc_size s + lost
    \<and> mpmc_overrun_counter s = lost mod 2 ^ 64
    \<and> ((\<forall>x. (Enqueue_nowait x, Pushed) \<notin> set tr) \<longrightarrow> items_in tr = items_out tr @ queued s)
    \<and> mpmc_size s \<le> n
    \<and> discard_counter s = length (filter (\<lambda>ev. snd ev = Discarded) tr) mod 2 ^ 64"
proof -
  have ok: "mpmc_ok s" "cq_capacity (q s) = n"
    "discard_counter s = length (filter (\<lambda>ev. snd ev = Discarded) tr) mod 2 ^ 64"
    using mpmc_run_balance [OF assms] by blast+
  obtain lost where bal: "balance tr s lost" using mpmc_run_balance [OF assms] by blast
  have "items_in tr = items_out tr @ queued s" if "\<forall>x. (Enqueue_nowait x, Pushed) \<notin> set tr"
  proof (rule subseq_same_length [symmetric])
    show "subseq (items_out tr @ queued s) (items_in tr)" using bal by (simp add: balance_def)
    show "length (items_out tr @ queued s) = length (items_in tr)"
      using bal that by (simp add: balance_def overruns_possible_def)
  qed
  then show ?thesis using bal ok length_queued_le [OF ok(1)]
    by (intro exI [of _ lost]) (simp add: balance_def mpmc_size_def mpmc_overrun_counter_def)
qed

text \<open>
  A queue of two: the third message of \<open>enqueue_nowait\<close> overruns the first one, a further one
  is refused by \<open>enqueue_if_have_room\<close>.
\<close>

definition sample_trace :: "(nat mpmc_op \<times> nat mpmc_out) list" where
  "sample_trace =
     [(Enqueue 1, Pushed), (Enqueue 2, Pushed), (Enqueue_nowait 3, Pushed),
      (Enqueue_if_have_room 4, Discarded), (Dequeue, Popped 2)]"

lemma sample_trace_runs:
  "mpmc_run (mpmc_new 0 2) sample_trace
     \<lparr>q = \<lparr>max_items = 3, head = 2, tail = 0, overrun = 1, slots = [1, 2, 3]\<rparr>,
      discard_counter = 1\<rparr>"
proof -
  note ops = enqueue_def enqueue_nowait_def enqueue_if_have_room_def
    dequeue_def mpmc_push_def mpmc_pop_def cq_push_back_def cq_front_def cq_pop_front_def
    cq_full_def cq_empty_def mem_write_def at_index_def Let_def
  have new: "mpmc_new 0 2 =
     \<lparr>q = \<lparr>max_items = 3, head = 0, tail = 0, overrun = 0, slots = [0, 0, 0::nat]\<rparr>,
      discard_counter = (0::nat)\<rparr>"
    by (simp add: mpmc_new_def cq_new_def Let_def) (simp add: numeral_3_eq_3)
  then have "mpmc_run (mpmc_new 0 2) []
     \<lparr>q = \<lparr>max_items = 3, head = 0, tail = 0, overrun = 0, slots = [0, 0, 0::nat]\<rparr>,
      discard_counter = (0::nat)\<rparr>"
    by (simp only: mpmc_run.start)
  then have "mpmc_run (mpmc_new 0 2) ([] @ [(Enqueue 1, Pushed)])
     \<lparr>q = \<lparr>max_items = 3, head = 0, tail = 1, overrun = 0, slots = [1, 0::nat, 0]\<rparr>,
      discard_counter = 0\<rparr>"
    by (rule mpmc_run.operation) (simp add: ops)
  then have "mpmc_run (mpmc_new 0 2) (([] @ [(Enqueue 1, Pushed)]) @ [(Enqueue 2, Pushed)])
     \<lparr>q = \<lparr>max_items = 3, head = 0, tail = 2, overrun = 0, slots = [1, 2::nat, 0]\<rparr>,
      discard_counter = 0\<rparr>"
    by (rule mpmc_run.operation) (simp add: ops)
  then have "mpmc_run (mpmc_new 0 2)
     ((([] @ [(Enqueue 1, Pushed)]) @ [(Enqueue 2, Pushed)]) @ [(Enqueue_nowait 3, Pushed)])
     \<lparr>q = \<lparr>max_items = 3, head = 1, tail = 0, overrun = 1, slots = [1, 2::nat, 3]\<rparr>,
      discard_counter = 0\<rparr>"
    by (rule mpmc_run.operation) (simp add: ops)
  then have "mpmc_run (mpmc_new 0 2)
     (((([] @ [(Enqueue 1, Pushed)]) @ [(Enqueue 2, Pushed)]) @ [(Enqueue_nowait 3, Pushed)])
        @ [(Enqueue_if_have_room 4, Discarded)])
     \<lparr>q = \<lparr>max_items = 3, head = 1, tail = 0, overrun = 1, slots = [1, 2::nat, 3]\<rparr>,
      discard_counter = 1\<rparr>"
    by (rule mpmc_run.operation) (simp add: ops)
  then have "mpmc_run (mpmc_new 0 2)
     ((((([] @ [(Enqueue 1, Pushed)]) @ [(Enqueue 2, Pushed)]) @ [(Enqueue_nowait 3, Pushed)])
        @ [(Enqueue_if_have_room 4, Discarded)]) @ [(Dequeue, Popped 2)])
     \<lparr>q = \<lparr>max_items = 3, head = 2, tail = 0, overrun = 1, slots = [1, 2::nat, 3]\<rparr>,
      discard_counter = 1\<rparr>"
    by (rule mpmc_run.operation) (simp add: ops)
  then show ?thesis by (simp add: sample_trace_def)
qed

theorem mpmc_conserves_items_witness:
  "subseq [2, 3] [1, 2, 3::nat]
   \<and> (\<exists>s lost. mpmc_run (mpmc_new 0 2) sample_trace s
        \<and> length (items_in sample_trace) = length (items_out sample_trace) + mpmc_size s + lost
        \<and> mpmc_overrun_counter s = lost mod 2 ^ 64 \<and> discard_counter s = 1)"
proof -
  let ?s = "\<lparr>q = \<lparr>max_items = 3, head = 2, tail = 0, overrun = 1, slots = [1, 2, 3::nat]\<rparr>,
      discard_counter = 1\<rparr>"
  have "queued ?s = [3]" by (simp add: cq_contents_def ring_def cq_size_def)
  moreover have "items_in sample_trace = [1, 2, 3]" "items_out sample_trace = [2]"
    by (simp_all add: sample_trace_def)
  moreover have "\<exists>lost. subseq (items_out sample_trace @ queued ?s) (items_in sample_trace)
      \<and> length (items_in sample_trace) = length (items_out sample_trace) + mpmc_size ?s + lost
      \<and> mpmc_overrun_counter ?s = lost mod 2 ^ 64"
    using mpmc_conserves_items [OF sample_trace_runs] by auto
  ultimately show ?thesis using sample_trace_runs by fastforce
qed

end
