(* ===== verification/Spdlog_Flags.thy ===== *)
theory Spdlog_Flags
  imports Spdlog_Common Spdlog_Fmt
begin

text \<open>
  The flag formatters of \<open>pattern_formatter-inl.h\<close>: one definition per class, each taking the
  data the class reads, its padding and the text written so far. The padding helper is a C++
  object whose constructor pads on the left and whose destructor pads on the right or cuts the
  text; \<open>with_padder\<close> runs a body between the two. The template parameter \<open>ScopedPadder\<close> is a
  Boolean: true for \<open>scoped_padder\<close>, false for \<open>null_scoped_padder\<close>.
\<close>

section \<open>Padding\<close>

datatype pad_side = pad_left | pad_right | pad_center

record padding_info =
  pad_width :: nat
  pad_side :: pad_side
  pad_truncate :: bool
  pad_enabled :: bool

definition padding_none :: padding_info where
  "padding_none = \<lparr>pad_width = 0, pad_side = pad_left, pad_truncate = False, pad_enabled = False\<rparr>"

definition padding_new :: "nat \<Rightarrow> pad_side \<Rightarrow> bool \<Rightarrow> padding_info" where
  "padding_new w s t = \<lparr>pad_width = w, pad_side = s, pad_truncate = t, pad_enabled = True\<rparr>"

text \<open>
  The spaces come from a string of 64 characters; a longer pad would read behind it.
\<close>

definition pad_it :: "int \<Rightarrow> string \<Rightarrow> fault + string" where
  "pad_it count dest =
     andthen (mem_read (replicate 64 CHR '' '') 0 (nat count)) (\<lambda>spaces.
     Inr (append_string_view spaces dest))"

text \<open>The constructor: the text and \<open>remaining_pad_\<close>.\<close>

definition scoped_padder_begin :: "nat \<Rightarrow> padding_info \<Rightarrow> string \<Rightarrow> fault + (string \<times> int)" where
  "scoped_padder_begin wrapped_size padinfo dest =
     (let remaining_pad = int (pad_width padinfo) - int wrapped_size in
      if remaining_pad \<le> 0 then Inr (dest, remaining_pad)
      else case pad_side padinfo of
        pad_left \<Rightarrow> andthen (pad_it remaining_pad dest) (\<lambda>dest. Inr (dest, 0))
      | pad_center \<Rightarrow>
          (let half_pad = remaining_pad div 2; reminder = remaining_pad mod 2 in
           andthen (pad_it half_pad dest) (\<lambda>dest. Inr (dest, half_pad + reminder)))
      | pad_right \<Rightarrow> Inr (dest, remaining_pad))"

text \<open>The destructor.\<close>

definition scoped_padder_end :: "padding_info \<Rightarrow> int \<Rightarrow> string \<Rightarrow> fault + string" where
  "scoped_padder_end padinfo remaining_pad dest =
     (if 0 \<le> remaining_pad then pad_it remaining_pad dest
      else if pad_truncate padinfo
      then let new_size = int (length dest) + remaining_pad;
               new_size = (if new_size < 0 then 0 else new_size)
           in Inr (take (nat new_size) dest)
      else Inr dest)"

definition with_padder ::
  "bool \<Rightarrow> nat \<Rightarrow> padding_info \<Rightarrow> (string \<Rightarrow> fault + string) \<Rightarrow> string \<Rightarrow> fault + string" where
  "with_padder scoped wrapped_size padinfo body dest =
     (if scoped
      then andthen (scoped_padder_begin wrapped_size padinfo dest) (\<lambda>(dest, remaining_pad).
           andthen (body dest) (\<lambda>dest.
           scoped_padder_end padinfo remaining_pad dest))
      else body dest)"

text \<open>
  \<open>ScopedPadder::count_digits\<close>, for arguments of at most 32 bits and for larger ones: the
  argument is converted to the unsigned type of that width.
\<close>

definition padder_count_digits32 :: "bool \<Rightarrow> int \<Rightarrow> fault + nat" where
  "padder_count_digits32 scoped n =
     (if scoped then do_count_digits32 (nat (n mod 2 ^ 32)) else Inr 0)"

definition padder_count_digits :: "bool \<Rightarrow> int \<Rightarrow> fault + nat" where
  "padder_count_digits scoped n =
     (if scoped then do_count_digits (nat (n mod 2 ^ 64)) else Inr 0)"

section \<open>Broken-down time\<close>

record tm =
  tm_sec :: int
  tm_min :: int
  tm_hour :: int
  tm_mday :: int
  tm_mon :: int
  tm_year :: int
  tm_wday :: int
  tm_gmtoff :: int

text \<open>The structure after \<open>memset\<close> with 0.\<close>

definition tm_zero :: tm where
  "tm_zero = \<lparr>tm_sec = 0, tm_min = 0, tm_hour = 0, tm_mday = 0, tm_mon = 0, tm_year = 0,
     tm_wday = 0, tm_gmtoff = 0\<rparr>"

text \<open>Addition of \<open>int\<close>s, remainder of C++, and indexing by a value converted to \<open>size_t\<close>.\<close>

definition int_add :: "int \<Rightarrow> int \<Rightarrow> fault + int" where
  "int_add a b =
     (if - (2 ^ 31) \<le> a + b \<and> a + b < 2 ^ 31 then Inr (a + b) else Inl Ub_overflow)"

definition c_mod :: "int \<Rightarrow> int \<Rightarrow> int" where
  "c_mod a b = a - b * c_div a b"

definition name_at :: "string list \<Rightarrow> int \<Rightarrow> fault + string" where
  "name_at names i = at_index names (nat (to_u64 i))"

definition ampm :: "tm \<Rightarrow> string" where
  "ampm t = (if 12 \<le> tm_hour t then ''PM'' else ''AM'')"

definition to12h :: "tm \<Rightarrow> int" where
  "to12h t = (if 12 < tm_hour t then tm_hour t - 12 else tm_hour t)"

definition days :: "string list" where
  "days = [''Sun'', ''Mon'', ''Tue'', ''Wed'', ''Thu'', ''Fri'', ''Sat'']"

definition full_days :: "string list" where
  "full_days = [''Sunday'', ''Monday'', ''Tuesday'', ''Wednesday'', ''Thursday'', ''Friday'',
     ''Saturday'']"

definition months :: "string list" where
  "months = [''Jan'', ''Feb'', ''Mar'', ''Apr'', ''May'', ''Jun'', ''Jul'', ''Aug'', ''Sep'',
     ''Oct'', ''Nov'', ''Dec'']"

definition full_months :: "string list" where
  "full_months = [''January'', ''February'', ''March'', ''April'', ''May'', ''June'', ''July'',
     ''August'', ''September'', ''October'', ''November'', ''December'']"

section \<open>Name and level\<close>

text \<open>A field whose text is known beforehand: its length is what the padder is told.\<close>

definition padded_text :: "bool \<Rightarrow> padding_info \<Rightarrow> string \<Rightarrow> string \<Rightarrow> fault + string" where
  "padded_text sc pad s dest =
     with_padder sc (length s) pad (\<lambda>dest. Inr (append_string_view s dest)) dest"

definition name_formatter :: "bool \<Rightarrow> padding_info \<Rightarrow> log_msg \<Rightarrow> string \<Rightarrow> fault + string" where
  "name_formatter sc pad msg dest = padded_text sc pad (logger_name msg) dest"

definition level_formatter :: "bool \<Rightarrow> padding_info \<Rightarrow> log_msg \<Rightarrow> string \<Rightarrow> fault + string" where
  "level_formatter sc pad msg dest =
     andthen (to_string_view (msg_level msg)) (\<lambda>s. padded_text sc pad s dest)"

definition short_level_formatter ::
  "bool \<Rightarrow> padding_info \<Rightarrow> log_msg \<Rightarrow> string \<Rightarrow> fault + string" where
  "short_level_formatter sc pad msg dest =
     andthen (to_short_c_str (msg_level msg)) (\<lambda>s. padded_text sc pad s dest)"

definition v_formatter :: "bool \<Rightarrow> padding_info \<Rightarrow> log_msg \<Rightarrow> string \<Rightarrow> fault + string" where
  "v_formatter sc pad msg dest = padded_text sc pad (payload msg) dest"

section \<open>Date and time\<close>

definition a_formatter :: "bool \<Rightarrow> padding_info \<Rightarrow> tm \<Rightarrow> string \<Rightarrow> fault + string" where
  "a_formatter sc pad t dest =
     andthen (name_at days (tm_wday t)) (\<lambda>s. padded_text sc pad s dest)"

definition A_formatter :: "bool \<Rightarrow> padding_info \<Rightarrow> tm \<Rightarrow> string \<Rightarrow> fault + string" where
  "A_formatter sc pad t dest =
     andthen (name_at full_days (tm_wday t)) (\<lambda>s. padded_text sc pad s dest)"

definition b_formatter :: "bool \<Rightarrow> padding_info \<Rightarrow> tm \<Rightarrow> string \<Rightarrow> fault + string" where
  "b_formatter sc pad t dest =
     andthen (name_at months (tm_mon t)) (\<lambda>s. padded_text sc pad s dest)"

definition B_formatter :: "bool \<Rightarrow> padding_info \<Rightarrow> tm \<Rightarrow> string \<Rightarrow> fault + string" where
  "B_formatter sc pad t dest =
     andthen (name_at full_months (tm_mon t)) (\<lambda>s. padded_text sc pad s dest)"

definition c_formatter :: "bool \<Rightarrow> padding_info \<Rightarrow> tm \<Rightarrow> string \<Rightarrow> fault + string" where
  "c_formatter sc pad t dest =
     with_padder sc 24 pad (\<lambda>dest.
       andthen (name_at days (tm_wday t)) (\<lambda>day.
       let dest = append_string_view day dest @ '' '' in
       andthen (name_at months (tm_mon t)) (\<lambda>month.
       let dest = append_string_view month dest @ '' '' in
       andthen (append_int 32 (tm_mday t) dest) (\<lambda>dest.
       let dest = pad2 (tm_hour t) (dest @ '' '') in
       let dest = pad2 (tm_min t) (dest @ '':'') in
       let dest = pad2 (tm_sec t) (dest @ '':'') in
       andthen (int_add (tm_year t) 1900) (\<lambda>year.
       append_int 32 year (dest @ '' ''))))))
     dest"

definition C_formatter :: "bool \<Rightarrow> padding_info \<Rightarrow> tm \<Rightarrow> string \<Rightarrow> fault + string" where
  "C_formatter sc pad t dest =
     with_padder sc 2 pad (\<lambda>dest. Inr (pad2 (c_mod (tm_year t) 100) dest)) dest"

definition D_formatter :: "bool \<Rightarrow> padding_info \<Rightarrow> tm \<Rightarrow> string \<Rightarrow> fault + string" where
  "D_formatter sc pad t dest =
     with_padder sc 8 pad (\<lambda>dest.
       andthen (int_add (tm_mon t) 1) (\<lambda>mon.
       let dest = pad2 mon dest in
       let dest = pad2 (tm_mday t) (dest @ ''/'') in
       Inr (pad2 (c_mod (tm_year t) 100) (dest @ ''/''))))
     dest"

definition Y_formatter :: "bool \<Rightarrow> padding_info \<Rightarrow> tm \<Rightarrow> string \<Rightarrow> fault + string" where
  "Y_formatter sc pad t dest =
     with_padder sc 4 pad (\<lambda>dest.
       andthen (int_add (tm_year t) 1900) (\<lambda>year. append_int 32 year dest)) dest"

definition m_formatter :: "bool \<Rightarrow> padding_info \<Rightarrow> tm \<Rightarrow> string \<Rightarrow> fault + string" where
  "m_formatter sc pad t dest =
     with_padder sc 2 pad (\<lambda>dest.
       andthen (int_add (tm_mon t) 1) (\<lambda>mon. Inr (pad2 mon dest))) dest"

definition d_formatter :: "bool \<Rightarrow> padding_info \<Rightarrow> tm \<Rightarrow> string \<Rightarrow> fault + string" where
  "d_formatter sc pad t dest = with_padder sc 2 pad (\<lambda>dest. Inr (pad2 (tm_mday t) dest)) dest"

definition H_formatter :: "bool \<Rightarrow> padding_info \<Rightarrow> tm \<Rightarrow> string \<Rightarrow> fault + string" where
  "H_formatter sc pad t dest = with_padder sc 2 pad (\<lambda>dest. Inr (pad2 (tm_hour t) dest)) dest"

definition I_formatter :: "bool \<Rightarrow> padding_info \<Rightarrow> tm \<Rightarrow> string \<Rightarrow> fault + string" where
  "I_formatter sc pad t dest = with_padder sc 2 pad (\<lambda>dest. Inr (pad2 (to12h t) dest)) dest"

definition M_formatter :: "bool \<Rightarrow> padding_info \<Rightarrow> tm \<Rightarrow> string \<Rightarrow> fault + string" where
  "M_formatter sc pad t dest = with_padder sc 2 pad (\<lambda>dest. Inr (pad2 (tm_min t) dest)) dest"

definition S_formatter :: "bool \<Rightarrow> padding_info \<Rightarrow> tm \<Rightarrow> string \<Rightarrow> fault + string" where
  "S_formatter sc pad t dest = with_padder sc 2 pad (\<lambda>dest. Inr (pad2 (tm_sec t) dest)) dest"

definition e_formatter :: "bool \<Rightarrow> padding_info \<Rightarrow> log_msg \<Rightarrow> string \<Rightarrow> fault + string" where
  "e_formatter sc pad msg dest =
     (let millis = time_fraction 1000000 (msg_time msg) in
      with_padder sc 3 pad (\<lambda>dest. pad3 (nat (millis mod 2 ^ 32)) dest) dest)"

definition f_formatter :: "bool \<Rightarrow> padding_info \<Rightarrow> log_msg \<Rightarrow> string \<Rightarrow> fault + string" where
  "f_formatter sc pad msg dest =
     (let micros = time_fraction 1000 (msg_time msg) in
      with_padder sc 6 pad (\<lambda>dest. pad6 (nat (micros mod 2 ^ 64)) dest) dest)"

definition F_formatter :: "bool \<Rightarrow> padding_info \<Rightarrow> log_msg \<Rightarrow> string \<Rightarrow> fault + string" where
  "F_formatter sc pad msg dest =
     (let ns = time_fraction 1 (msg_time msg) in
      with_padder sc 9 pad (\<lambda>dest. pad9 (nat (ns mod 2 ^ 64)) dest) dest)"

definition E_formatter :: "bool \<Rightarrow> padding_info \<Rightarrow> log_msg \<Rightarrow> string \<Rightarrow> fault + string" where
  "E_formatter sc pad msg dest =
     with_padder sc 10 pad (\<lambda>dest.
       let seconds = duration_cast 1000000000 (msg_time msg) in append_int 64 seconds dest) dest"

definition p_formatter :: "bool \<Rightarrow> padding_info \<Rightarrow> tm \<Rightarrow> string \<Rightarrow> fault + string" where
  "p_formatter sc pad t dest =
     with_padder sc 2 pad (\<lambda>dest. Inr (append_string_view (ampm t) dest)) dest"

definition r_formatter :: "bool \<Rightarrow> padding_info \<Rightarrow> tm \<Rightarrow> string \<Rightarrow> fault + string" where
  "r_formatter sc pad t dest =
     with_padder sc 11 pad (\<lambda>dest.
       let dest = pad2 (to12h t) dest in
       let dest = pad2 (tm_min t) (dest @ '':'') in
       let dest = pad2 (tm_sec t) (dest @ '':'') in
       Inr (append_string_view (ampm t) (dest @ '' ''))) dest"

definition R_formatter :: "bool \<Rightarrow> padding_info \<Rightarrow> tm \<Rightarrow> string \<Rightarrow> fault + string" where
  "R_formatter sc pad t dest =
     with_padder sc 5 pad (\<lambda>dest.
       let dest = pad2 (tm_hour t) dest in Inr (pad2 (tm_min t) (dest @ '':''))) dest"

definition T_formatter :: "bool \<Rightarrow> padding_info \<Rightarrow> tm \<Rightarrow> string \<Rightarrow> fault + string" where
  "T_formatter sc pad t dest =
     with_padder sc 8 pad (\<lambda>dest.
       let dest = pad2 (tm_hour t) dest in
       let dest = pad2 (tm_min t) (dest @ '':'') in
       Inr (pad2 (tm_sec t) (dest @ '':''))) dest"

section \<open>Offset from UTC\<close>

text \<open>The state of the class: the time of the last look at the time zone, and its result.\<close>

record z_state =
  last_update :: int
  offset_minutes :: int

definition z_init :: z_state where
  "z_init = \<lparr>last_update = 0, offset_minutes = 0\<rparr>"

text \<open>The conversion of a \<open>long\<close> to \<open>int\<close>, and the offset in minutes (\<open>os-inl.h\<close>).\<close>

definition to_i32 :: "int \<Rightarrow> int" where
  "to_i32 x = (x + 2 ^ 31) mod 2 ^ 32 - 2 ^ 31"

definition utc_minutes_offset :: "tm \<Rightarrow> int" where
  "utc_minutes_offset t = to_i32 (c_div (tm_gmtoff t) 60)"

text \<open>The difference of two time points, 64 bits wide.\<close>

definition time_diff :: "int \<Rightarrow> int \<Rightarrow> fault + int" where
  "time_diff a b = (if in_i64 (a - b) then Inr (a - b) else Inl Ub_overflow)"

definition get_cached_offset :: "z_state \<Rightarrow> log_msg \<Rightarrow> tm \<Rightarrow> fault + (z_state \<times> int)" where
  "get_cached_offset z msg t =
     andthen (time_diff (msg_time msg) (last_update z)) (\<lambda>age.
     let z = (if 10 * 1000000000 \<le> age
              then z\<lparr>offset_minutes := utc_minutes_offset t, last_update := msg_time msg\<rparr>
              else z)
     in Inr (z, offset_minutes z))"

definition z_body :: "int \<Rightarrow> string \<Rightarrow> fault + string" where
  "z_body total_minutes dest =
     andthen (if total_minutes < 0
              then andthen (int_add 0 (- total_minutes)) (\<lambda>m. Inr (m, dest @ ''-''))
              else Inr (total_minutes, dest @ ''+'')) (\<lambda>(total_minutes, dest).
     let dest = pad2 (c_div total_minutes 60) dest in
     Inr (pad2 (c_mod total_minutes 60) (dest @ '':'')))"

definition z_formatter ::
  "bool \<Rightarrow> padding_info \<Rightarrow> z_state \<Rightarrow> log_msg \<Rightarrow> tm \<Rightarrow> string \<Rightarrow> fault + (z_state \<times> string)" where
  "z_formatter sc pad z msg t dest =
     andthen (get_cached_offset z msg t) (\<lambda>(z, total_minutes).
     andthen (with_padder sc 6 pad (z_body total_minutes) dest) (\<lambda>dest. Inr (z, dest)))"

section \<open>Ids\<close>

definition t_formatter :: "bool \<Rightarrow> padding_info \<Rightarrow> log_msg \<Rightarrow> string \<Rightarrow> fault + string" where
  "t_formatter sc pad msg dest =
     andthen (padder_count_digits sc (int (thread_id msg))) (\<lambda>field_size.
     with_padder sc field_size pad (append_uint (thread_id msg)) dest)"

definition pid_formatter :: "bool \<Rightarrow> padding_info \<Rightarrow> int \<Rightarrow> string \<Rightarrow> fault + string" where
  "pid_formatter sc pad os_pid dest =
     (let pid = os_pid mod 2 ^ 32 in
      andthen (padder_count_digits32 sc pid) (\<lambda>field_size.
      with_padder sc field_size pad (append_uint (nat pid)) dest))"

section \<open>Literal text and colors\<close>

definition ch_formatter :: "char \<Rightarrow> string \<Rightarrow> string" where
  "ch_formatter ch dest = dest @ [ch]"

definition aggregate_formatter :: "string \<Rightarrow> string \<Rightarrow> string" where
  "aggregate_formatter str dest = append_string_view str dest"

definition color_start_formatter :: "log_msg \<Rightarrow> string \<Rightarrow> log_msg" where
  "color_start_formatter msg dest = msg\<lparr>color_range_start := length dest\<rparr>"

definition color_stop_formatter :: "log_msg \<Rightarrow> string \<Rightarrow> log_msg" where
  "color_stop_formatter msg dest = msg\<lparr>color_range_end := length dest\<rparr>"

section \<open>Source location\<close>

text \<open>Reading a C string through a null pointer is undefined behaviour.\<close>

definition c_str :: "string option \<Rightarrow> fault + string" where
  "c_str p = (case p of None \<Rightarrow> Inl Ub_null_deref | Some s \<Rightarrow> Inr s)"

definition pad_nothing :: "bool \<Rightarrow> padding_info \<Rightarrow> string \<Rightarrow> fault + string" where
  "pad_nothing sc pad dest = with_padder sc 0 pad Inr dest"

definition source_location_formatter ::
  "bool \<Rightarrow> padding_info \<Rightarrow> log_msg \<Rightarrow> string \<Rightarrow> fault + string" where
  "source_location_formatter sc pad msg dest =
     (let src = source msg in
      if source_empty src then pad_nothing sc pad dest
      else
        andthen (if pad_enabled pad
                 then andthen (c_str (filename src)) (\<lambda>f.
                      andthen (padder_count_digits32 sc (line src)) (\<lambda>digits.
                      Inr (length f + digits + 1)))
                 else Inr 0) (\<lambda>text_size.
        with_padder sc text_size pad (\<lambda>dest.
          andthen (c_str (filename src)) (\<lambda>f.
          append_int 32 (line src) (append_string_view f dest @ '':''))) dest))"

definition source_filename_formatter ::
  "bool \<Rightarrow> padding_info \<Rightarrow> log_msg \<Rightarrow> string \<Rightarrow> fault + string" where
  "source_filename_formatter sc pad msg dest =
     (let src = source msg in
      if source_empty src then pad_nothing sc pad dest
      else
        andthen (if pad_enabled pad
                 then andthen (c_str (filename src)) (\<lambda>f. Inr (length f)) else Inr 0) (\<lambda>text_size.
        with_padder sc text_size pad (\<lambda>dest.
          andthen (c_str (filename src)) (\<lambda>f. Inr (append_string_view f dest))) dest))"

text \<open>\<open>strrchr\<close>: the position of the last occurrence of a character.\<close>

fun strrchr :: "char \<Rightarrow> string \<Rightarrow> nat option" where
  "strrchr c [] = None"
| "strrchr c (d # s) =
     (case strrchr c s of Some i \<Rightarrow> Some (Suc i) | None \<Rightarrow> if c = d then Some 0 else None)"

definition basename :: "string \<Rightarrow> string" where
  "basename f = (case strrchr CHR ''/'' f of Some i \<Rightarrow> drop (i + 1) f | None \<Rightarrow> f)"

definition short_filename_formatter ::
  "bool \<Rightarrow> padding_info \<Rightarrow> log_msg \<Rightarrow> string \<Rightarrow> fault + string" where
  "short_filename_formatter sc pad msg dest =
     (let src = source msg in
      if source_empty src then pad_nothing sc pad dest
      else
        andthen (c_str (filename src)) (\<lambda>f.
        let f = basename f; text_size = (if pad_enabled pad then length f else 0) in
        with_padder sc text_size pad (\<lambda>dest. Inr (append_string_view f dest)) dest))"

definition source_linenum_formatter ::
  "bool \<Rightarrow> padding_info \<Rightarrow> log_msg \<Rightarrow> string \<Rightarrow> fault + string" where
  "source_linenum_formatter sc pad msg dest =
     (let src = source msg in
      if source_empty src then pad_nothing sc pad dest
      else
        andthen (padder_count_digits32 sc (line src)) (\<lambda>field_size.
        with_padder sc field_size pad (append_int 32 (line src)) dest))"

definition source_funcname_formatter ::
  "bool \<Rightarrow> padding_info \<Rightarrow> log_msg \<Rightarrow> string \<Rightarrow> fault + string" where
  "source_funcname_formatter sc pad msg dest =
     (let src = source msg in
      if source_empty src then pad_nothing sc pad dest
      else
        andthen (if pad_enabled pad
                 then andthen (c_str (funcname src)) (\<lambda>f. Inr (length f)) else Inr 0) (\<lambda>text_size.
        with_padder sc text_size pad (\<lambda>dest.
          andthen (c_str (funcname src)) (\<lambda>f. Inr (append_string_view f dest))) dest))"

section \<open>Elapsed time\<close>

text \<open>The unit \<open>u\<close> of the class is a number of nanoseconds; its state the last message's time.\<close>

definition elapsed_formatter ::
  "bool \<Rightarrow> int \<Rightarrow> padding_info \<Rightarrow> int \<Rightarrow> log_msg \<Rightarrow> string \<Rightarrow> fault + (int \<times> string)" where
  "elapsed_formatter sc u pad last_message_time msg dest =
     andthen (time_diff (msg_time msg) last_message_time) (\<lambda>d.
     let delta = max d 0;
         delta_units = duration_cast u delta;
         delta_count = nat (delta_units mod 2 ^ 64) in
     andthen (padder_count_digits sc (int delta_count)) (\<lambda>n_digits.
     andthen (with_padder sc n_digits pad (append_uint delta_count) dest) (\<lambda>dest.
     Inr (msg_time msg, dest))))"

section \<open>Mapped diagnostic context\<close>

text \<open>Every pair is a field of its own for the padder; the separator belongs to it.\<close>

fun format_mdc :: "bool \<Rightarrow> padding_info \<Rightarrow> mdc_map \<Rightarrow> string \<Rightarrow> fault + string" where
  "format_mdc sc pad [] dest = Inr dest"
| "format_mdc sc pad ((key, val) # rest) dest =
     (let content_size = length key + length val + 1;
          content_size = (if rest \<noteq> [] then content_size + 1 else content_size) in
      andthen (with_padder sc content_size pad (\<lambda>dest.
        let dest = append_string_view key dest;
            dest = append_string_view '':'' dest;
            dest = append_string_view val dest
        in Inr (if rest \<noteq> [] then append_string_view '' '' dest else dest)) dest) (\<lambda>dest.
      format_mdc sc pad rest dest))"

definition mdc_formatter :: "bool \<Rightarrow> padding_info \<Rightarrow> mdc_map \<Rightarrow> string \<Rightarrow> fault + string" where
  "mdc_formatter sc pad ctx dest =
     (if ctx = [] then pad_nothing sc pad dest else format_mdc sc pad ctx dest)"

section \<open>The default format\<close>

record full_state =
  cache_timestamp :: int
  cached_datetime :: string

definition full_init :: full_state where
  "full_init = \<lparr>cache_timestamp = 0, cached_datetime = []\<rparr>"

definition full_datetime :: "tm \<Rightarrow> fault + string" where
  "full_datetime t =
     andthen (int_add (tm_year t) 1900) (\<lambda>year.
     andthen (append_int 32 year ''['') (\<lambda>c.
     andthen (int_add (tm_mon t) 1) (\<lambda>mon.
     let c = pad2 mon (c @ ''-'');
         c = pad2 (tm_mday t) (c @ ''-'');
         c = pad2 (tm_hour t) (c @ '' '');
         c = pad2 (tm_min t) (c @ '':'');
         c = pad2 (tm_sec t) (c @ '':'')
     in Inr (c @ ''.''))))"

definition full_cached :: "full_state \<Rightarrow> log_msg \<Rightarrow> tm \<Rightarrow> fault + full_state" where
  "full_cached st msg t =
     (let secs = duration_cast 1000000000 (msg_time msg) in
      if cache_timestamp st \<noteq> secs \<or> length (cached_datetime st) = 0
      then andthen (full_datetime t) (\<lambda>c.
           Inr (st\<lparr>cache_timestamp := secs, cached_datetime := c\<rparr>))
      else Inr st)"

definition full_location :: "log_msg \<Rightarrow> string \<Rightarrow> fault + string" where
  "full_location msg dest =
     (let src = source msg in
      if source_empty src then Inr dest
      else andthen (c_str (filename src)) (\<lambda>f.
           andthen (append_int 32 (line src)
             (append_string_view (basename f) (dest @ ''['') @ '':'')) (\<lambda>dest.
           Inr (dest @ '']'' @ '' ''))))"

definition full_mdc :: "mdc_map \<Rightarrow> string \<Rightarrow> fault + string" where
  "full_mdc ctx dest =
     (if ctx = [] then Inr dest
      else andthen (format_mdc False padding_none ctx (dest @ ''['')) (\<lambda>dest.
           Inr (dest @ '']'' @ '' '')))"

definition full_formatter ::
  "full_state \<Rightarrow> mdc_map \<Rightarrow> log_msg \<Rightarrow> tm \<Rightarrow> string \<Rightarrow> fault + (full_state \<times> log_msg \<times> string)" where
  "full_formatter st ctx msg t dest =
     andthen (full_cached st msg t) (\<lambda>st.
     let dest = dest @ cached_datetime st; millis = time_fraction 1000000 (msg_time msg) in
     andthen (pad3 (nat (millis mod 2 ^ 32)) dest) (\<lambda>dest.
     let dest = dest @ '']'' @ '' '';
         dest = (if 0 < length (logger_name msg)
                 then append_string_view (logger_name msg) (dest @ ''['') @ '']'' @ '' ''
                 else dest);
         dest = dest @ ''['';
         msg = msg\<lparr>color_range_start := length dest\<rparr> in
     andthen (to_string_view (msg_level msg)) (\<lambda>lvl.
     let dest = append_string_view lvl dest;
         msg = msg\<lparr>color_range_end := length dest\<rparr>;
         dest = dest @ '']'' @ '' '' in
     andthen (full_location msg dest) (\<lambda>dest.
     andthen (full_mdc ctx dest) (\<lambda>dest.
     Inr (st, msg, append_string_view (payload msg) dest))))))"

end
