(* ===== verification/Spdlog_Pattern.thy ===== *)
theory Spdlog_Pattern
  imports Spdlog_Flags
begin

text \<open>
  The pattern formatter (\<open>pattern_formatter.h\<close>, \<open>pattern_formatter-inl.h\<close>): a pattern string is
  compiled into a list of flag formatters, which then write a log line one after the other.
  The environment holds what the class takes from outside: the C library's conversions of a
  time, the process id, and the user's custom flag formatters (state of type \<open>'c\<close>).
\<close>

section \<open>Flag formatters as data\<close>

text \<open>
  One constructor per class; the Boolean is the padder, stateful classes carry their state.
\<close>

datatype 'c flag_formatter =
    Name bool padding_info
  | Level bool padding_info
  | Short_level bool padding_info
  | Thread_id bool padding_info
  | Payload bool padding_info
  | Weekday bool padding_info
  | Full_weekday bool padding_info
  | Month_name bool padding_info
  | Full_month_name bool padding_info
  | Date_time bool padding_info
  | Year2 bool padding_info
  | Year4 bool padding_info
  | Short_date bool padding_info
  | Month bool padding_info
  | Day bool padding_info
  | Hours24 bool padding_info
  | Hours12 bool padding_info
  | Minutes bool padding_info
  | Seconds bool padding_info
  | Millis bool padding_info
  | Micros bool padding_info
  | Nanos bool padding_info
  | Epoch_seconds bool padding_info
  | Am_pm bool padding_info
  | Clock12 bool padding_info
  | Clock_hm bool padding_info
  | Clock_hms bool padding_info
  | Time_zone bool padding_info z_state
  | Pid bool padding_info
  | Color_start
  | Color_stop
  | Location bool padding_info
  | Short_filename bool padding_info
  | Source_filename bool padding_info
  | Source_line bool padding_info
  | Source_function bool padding_info
  | Char_text char
  | Elapsed bool int padding_info int
  | Mdc bool padding_info
  | Aggregate string
  | Full full_state
  | Custom 'c

record 'c fmt_env =
  os_localtime :: "int \<Rightarrow> tm"
  os_gmtime :: "int \<Rightarrow> tm"
  os_pid :: int
  custom_clone :: "'c \<Rightarrow> padding_info \<Rightarrow> 'c"
  custom_format :: "'c \<Rightarrow> log_msg \<Rightarrow> tm \<Rightarrow> string \<Rightarrow> fault + ('c \<times> string)"

text \<open>
  The virtual function \<open>format\<close>: the formatter with its new state, the message (its color range
  is \<open>mutable\<close>) and the text.
\<close>

definition stateless ::
  "'c flag_formatter \<Rightarrow> log_msg \<Rightarrow> fault + string \<Rightarrow> fault + ('c flag_formatter \<times> log_msg \<times> string)" where
  "stateless f msg r = andthen r (\<lambda>dest. Inr (f, msg, dest))"

primrec flag_format ::
  "'c fmt_env \<Rightarrow> mdc_map \<Rightarrow> 'c flag_formatter \<Rightarrow> log_msg \<Rightarrow> tm \<Rightarrow> string
    \<Rightarrow> fault + ('c flag_formatter \<times> log_msg \<times> string)" where
  "flag_format env ctx (Name sc p) msg t dest = stateless (Name sc p) msg (name_formatter sc p msg dest)"
| "flag_format env ctx (Level sc p) msg t dest = stateless (Level sc p) msg (level_formatter sc p msg dest)"
| "flag_format env ctx (Short_level sc p) msg t dest =
     stateless (Short_level sc p) msg (short_level_formatter sc p msg dest)"
| "flag_format env ctx (Thread_id sc p) msg t dest =
     stateless (Thread_id sc p) msg (t_formatter sc p msg dest)"
| "flag_format env ctx (Payload sc p) msg t dest = stateless (Payload sc p) msg (v_formatter sc p msg dest)"
| "flag_format env ctx (Weekday sc p) msg t dest = stateless (Weekday sc p) msg (a_formatter sc p t dest)"
| "flag_format env ctx (Full_weekday sc p) msg t dest =
     stateless (Full_weekday sc p) msg (A_formatter sc p t dest)"
| "flag_format env ctx (Month_name sc p) msg t dest =
     stateless (Month_name sc p) msg (b_formatter sc p t dest)"
| "flag_format env ctx (Full_month_name sc p) msg t dest =
     stateless (Full_month_name sc p) msg (B_formatter sc p t dest)"
| "flag_format env ctx (Date_time sc p) msg t dest =
     stateless (Date_time sc p) msg (c_formatter sc p t dest)"
| "flag_format env ctx (Year2 sc p) msg t dest = stateless (Year2 sc p) msg (C_formatter sc p t dest)"
| "flag_format env ctx (Year4 sc p) msg t dest = stateless (Year4 sc p) msg (Y_formatter sc p t dest)"
| "flag_format env ctx (Short_date sc p) msg t dest =
     stateless (Short_date sc p) msg (D_formatter sc p t dest)"
| "flag_format env ctx (Month sc p) msg t dest = stateless (Month sc p) msg (m_formatter sc p t dest)"
| "flag_format env ctx (Day sc p) msg t dest = stateless (Day sc p) msg (d_formatter sc p t dest)"
| "flag_format env ctx (Hours24 sc p) msg t dest = stateless (Hours24 sc p) msg (H_formatter sc p t dest)"
| "flag_format env ctx (Hours12 sc p) msg t dest = stateless (Hours12 sc p) msg (I_formatter sc p t dest)"
| "flag_format env ctx (Minutes sc p) msg t dest = stateless (Minutes sc p) msg (M_formatter sc p t dest)"
| "flag_format env ctx (Seconds sc p) msg t dest = stateless (Seconds sc p) msg (S_formatter sc p t dest)"
| "flag_format env ctx (Millis sc p) msg t dest = stateless (Millis sc p) msg (e_formatter sc p msg dest)"
| "flag_format env ctx (Micros sc p) msg t dest = stateless (Micros sc p) msg (f_formatter sc p msg dest)"
| "flag_format env ctx (Nanos sc p) msg t dest = stateless (Nanos sc p) msg (F_formatter sc p msg dest)"
| "flag_format env ctx (Epoch_seconds sc p) msg t dest =
     stateless (Epoch_seconds sc p) msg (E_formatter sc p msg dest)"
| "flag_format env ctx (Am_pm sc p) msg t dest = stateless (Am_pm sc p) msg (p_formatter sc p t dest)"
| "flag_format env ctx (Clock12 sc p) msg t dest = stateless (Clock12 sc p) msg (r_formatter sc p t dest)"
| "flag_format env ctx (Clock_hm sc p) msg t dest = stateless (Clock_hm sc p) msg (R_formatter sc p t dest)"
| "flag_format env ctx (Clock_hms sc p) msg t dest =
     stateless (Clock_hms sc p) msg (T_formatter sc p t dest)"
| "flag_format env ctx (Time_zone sc p z) msg t dest =
     andthen (z_formatter sc p z msg t dest) (\<lambda>(z, dest). Inr (Time_zone sc p z, msg, dest))"
| "flag_format env ctx (Pid sc p) msg t dest =
     stateless (Pid sc p) msg (pid_formatter sc p (os_pid env) dest)"
| "flag_format env ctx Color_start msg t dest = Inr (Color_start, color_start_formatter msg dest, dest)"
| "flag_format env ctx Color_stop msg t dest = Inr (Color_stop, color_stop_formatter msg dest, dest)"
| "flag_format env ctx (Location sc p) msg t dest =
     stateless (Location sc p) msg (source_location_formatter sc p msg dest)"
| "flag_format env ctx (Short_filename sc p) msg t dest =
     stateless (Short_filename sc p) msg (short_filename_formatter sc p msg dest)"
| "flag_format env ctx (Source_filename sc p) msg t dest =
     stateless (Source_filename sc p) msg (source_filename_formatter sc p msg dest)"
| "flag_format env ctx (Source_line sc p) msg t dest =
     stateless (Source_line sc p) msg (source_linenum_formatter sc p msg dest)"
| "flag_format env ctx (Source_function sc p) msg t dest =
     stateless (Source_function sc p) msg (source_funcname_formatter sc p msg dest)"
| "flag_format env ctx (Char_text c) msg t dest = Inr (Char_text c, msg, ch_formatter c dest)"
| "flag_format env ctx (Elapsed sc u p prev) msg t dest =
     andthen (elapsed_formatter sc u p prev msg dest) (\<lambda>(prev, dest).
     Inr (Elapsed sc u p prev, msg, dest))"
| "flag_format env ctx (Mdc sc p) msg t dest = stateless (Mdc sc p) msg (mdc_formatter sc p ctx dest)"
| "flag_format env ctx (Aggregate s) msg t dest = Inr (Aggregate s, msg, aggregate_formatter s dest)"
| "flag_format env ctx (Full st) msg t dest =
     andthen (full_formatter st ctx msg t dest) (\<lambda>(st, msg, dest). Inr (Full st, msg, dest))"
| "flag_format env ctx (Custom c) msg t dest =
     andthen (custom_format env c msg t dest) (\<lambda>(c, dest). Inr (Custom c, msg, dest))"

section \<open>The pattern formatter\<close>

record 'c pattern_formatter =
  pattern :: string
  eol :: string
  time_type :: pattern_time_type
  needs_localtime :: bool
  cached_tm :: tm
  last_log_secs :: int
  formatters :: "'c flag_formatter list"
  custom_handlers :: "char \<Rightarrow> 'c option"

definition add_formatter :: "'c flag_formatter \<Rightarrow> 'c pattern_formatter \<Rightarrow> 'c pattern_formatter" where
  "add_formatter f pf = pf\<lparr>formatters := formatters pf @ [f]\<rparr>"

definition need_localtime :: "bool \<Rightarrow> 'c pattern_formatter \<Rightarrow> 'c pattern_formatter" where
  "need_localtime need pf = pf\<lparr>needs_localtime := need\<rparr>"

text \<open>A formatter that reads the broken-down time makes the whole line need it.\<close>

definition add_time_formatter ::
  "'c flag_formatter \<Rightarrow> 'c pattern_formatter \<Rightarrow> 'c pattern_formatter" where
  "add_time_formatter f pf = need_localtime True (add_formatter f pf)"

text \<open>
  \<open>now\<close> is the time at which an elapsed time formatter is created.
\<close>

definition handle_flag ::
  "'c fmt_env \<Rightarrow> int \<Rightarrow> bool \<Rightarrow> char \<Rightarrow> padding_info \<Rightarrow> 'c pattern_formatter \<Rightarrow> 'c pattern_formatter" where
  "handle_flag env now sc flag p pf =
     (case custom_handlers pf flag of
        Some c \<Rightarrow> add_formatter (Custom (custom_clone env c p)) pf
      | None \<Rightarrow>
     if flag = CHR ''+'' then add_time_formatter (Full full_init) pf
     else if flag = CHR ''n'' then add_formatter (Name sc p) pf
     else if flag = CHR ''l'' then add_formatter (Level sc p) pf
     else if flag = CHR ''L'' then add_formatter (Short_level sc p) pf
     else if flag = CHR ''t'' then add_formatter (Thread_id sc p) pf
     else if flag = CHR ''v'' then add_formatter (Payload sc p) pf
     else if flag = CHR ''a'' then add_time_formatter (Weekday sc p) pf
     else if flag = CHR ''A'' then add_time_formatter (Full_weekday sc p) pf
     else if flag = CHR ''b'' \<or> flag = CHR ''h'' then add_time_formatter (Month_name sc p) pf
     else if flag = CHR ''B'' then add_time_formatter (Full_month_name sc p) pf
     else if flag = CHR ''c'' then add_time_formatter (Date_time sc p) pf
     else if flag = CHR ''C'' then add_time_formatter (Year2 sc p) pf
     else if flag = CHR ''Y'' then add_time_formatter (Year4 sc p) pf
     else if flag = CHR ''D'' \<or> flag = CHR ''x'' then add_time_formatter (Short_date sc p) pf
     else if flag = CHR ''m'' then add_time_formatter (Month sc p) pf
     else if flag = CHR ''d'' then add_time_formatter (Day sc p) pf
     else if flag = CHR ''H'' then add_time_formatter (Hours24 sc p) pf
     else if flag = CHR ''I'' then add_time_formatter (Hours12 sc p) pf
     else if flag = CHR ''M'' then add_time_formatter (Minutes sc p) pf
     else if flag = CHR ''S'' then add_time_formatter (Seconds sc p) pf
     else if flag = CHR ''e'' then add_formatter (Millis sc p) pf
     else if flag = CHR ''f'' then add_formatter (Micros sc p) pf
     else if flag = CHR ''F'' then add_formatter (Nanos sc p) pf
     else if flag = CHR ''E'' then add_formatter (Epoch_seconds sc p) pf
     else if flag = CHR ''p'' then add_time_formatter (Am_pm sc p) pf
     else if flag = CHR ''r'' then add_time_formatter (Clock12 sc p) pf
     else if flag = CHR ''R'' then add_time_formatter (Clock_hm sc p) pf
     else if flag = CHR ''T'' \<or> flag = CHR ''X'' then add_time_formatter (Clock_hms sc p) pf
     else if flag = CHR ''z'' then add_time_formatter (Time_zone sc p z_init) pf
     else if flag = CHR ''P'' then add_formatter (Pid sc p) pf
     else if flag = CHR ''^'' then add_formatter Color_start pf
     else if flag = CHR ''$'' then add_formatter Color_stop pf
     else if flag = CHR ''@'' then add_formatter (Location sc p) pf
     else if flag = CHR ''s'' then add_formatter (Short_filename sc p) pf
     else if flag = CHR ''g'' then add_formatter (Source_filename sc p) pf
     else if flag = CHR ''#'' then add_formatter (Source_line sc p) pf
     else if flag = CHR ''!'' then add_formatter (Source_function sc p) pf
     else if flag = CHR ''%'' then add_formatter (Char_text CHR ''%'') pf
     else if flag = CHR ''u'' then add_formatter (Elapsed sc 1 p now) pf
     else if flag = CHR ''i'' then add_formatter (Elapsed sc 1000 p now) pf
     else if flag = CHR ''o'' then add_formatter (Elapsed sc 1000000 p now) pf
     else if flag = CHR ''O'' then add_formatter (Elapsed sc 1000000000 p now) pf
     else if flag = CHR ''&'' then add_formatter (Mdc sc p) pf
     else if \<not> pad_truncate p then add_formatter (Aggregate ([CHR ''%''] @ [flag])) pf
     else add_formatter (Aggregate [flag])
            (add_formatter (Source_function sc (p\<lparr>pad_truncate := False\<rparr>)) pf))"

text \<open>
  The padding specification at the start of a text: the padding and the rest of the text. The
  width is computed in \<open>size_t\<close>.
\<close>

definition is_digit :: "char \<Rightarrow> bool" where
  "is_digit c = (char_digit c \<noteq> None)"

definition digit_value :: "char \<Rightarrow> nat" where
  "digit_value c = of_char c - 48"

fun read_width :: "nat \<Rightarrow> string \<Rightarrow> nat \<times> string" where
  "read_width width [] = (width, [])"
| "read_width width (c # it) =
     (if is_digit c then read_width ((width * 10 + digit_value c) mod 2 ^ 64) it else (width, c # it))"

definition max_width :: nat where
  "max_width = 64"

fun read_side :: "string \<Rightarrow> pad_side \<times> string" where
  "read_side [] = (pad_left, [])"
| "read_side (c # it) =
     (if c = CHR ''-'' then (pad_right, it)
      else if c = CHR ''='' then (pad_center, it)
      else (pad_left, c # it))"

fun read_truncate :: "string \<Rightarrow> bool \<times> string" where
  "read_truncate [] = (False, [])"
| "read_truncate (c # it) = (if c = CHR ''!'' then (True, it) else (False, c # it))"

definition handle_padspec :: "string \<Rightarrow> padding_info \<times> string" where
  "handle_padspec it =
     (if it = [] then (padding_none, it)
      else
        let (side, it) = read_side it in
        if it = [] \<or> \<not> is_digit (hd it) then (padding_none, it)
        else
          let (width, it) = read_width (digit_value (hd it)) (tl it);
              (truncate, it) = read_truncate it
          in (padding_new (min width max_width) side truncate, it))"

lemma read_width_length: "length (snd (read_width w it)) \<le> length it"
  by (induction w it rule: read_width.induct) (auto intro: le_SucI)

lemma read_side_length: "length (snd (read_side it)) \<le> length it"
  by (induction it rule: read_side.induct) auto

lemma read_truncate_length: "length (snd (read_truncate it)) \<le> length it"
  by (induction it rule: read_truncate.induct) auto

lemma handle_padspec_length: "length (snd (handle_padspec it)) \<le> length it"
proof -
  obtain side a where a: "read_side it = (side, a)" by fastforce
  obtain w b where b: "read_width (digit_value (hd a)) (tl a) = (w, b)" by fastforce
  obtain t c where c: "read_truncate b = (t, c)" by fastforce
  have "length a \<le> length it" "length b \<le> length (tl a)" "length c \<le> length b"
    using read_side_length [of it] read_width_length [of "digit_value (hd a)" "tl a"]
      read_truncate_length [of b] a b c by simp_all
  then have "length a \<le> length it" "length c \<le> length it" by simp_all
  then show ?thesis by (simp add: handle_padspec_def a b c)
qed

lemma handle_padspec_rest: "snd (handle_padspec it) = flag # it' \<Longrightarrow> length it' < Suc (length it)"
  using handle_padspec_length [of it] by simp

text \<open>
  The compiler. Literal characters are collected in \<open>user_chars\<close>, a null pointer while there are
  none; a percent sign at the end of the pattern, with or without a padding, ends it.
\<close>

definition add_user_chars ::
  "string option \<Rightarrow> 'c pattern_formatter \<Rightarrow> 'c pattern_formatter" where
  "add_user_chars user_chars pf =
     (case user_chars of None \<Rightarrow> pf | Some s \<Rightarrow> add_formatter (Aggregate s) pf)"

function compile_loop ::
  "'c fmt_env \<Rightarrow> int \<Rightarrow> string option \<Rightarrow> string \<Rightarrow> 'c pattern_formatter \<Rightarrow> 'c pattern_formatter" where
  "compile_loop env now user_chars [] pf = add_user_chars user_chars pf"
| "compile_loop env now user_chars (c # it) pf =
     (if c = CHR ''%''
      then
        let pf = add_user_chars user_chars pf;
            r = handle_padspec it
        in case snd r of
             [] \<Rightarrow> pf
           | flag # it' \<Rightarrow>
               compile_loop env now None it' (handle_flag env now (pad_enabled (fst r)) flag (fst r) pf)
      else
        compile_loop env now
          (Some ((case user_chars of None \<Rightarrow> [] | Some s \<Rightarrow> s) @ [c])) it pf)"
  by pat_completeness auto

termination
  by (relation "measure (\<lambda>(env, now, user_chars, it, pf). length it)")
    (auto dest: handle_padspec_rest)

definition compile_pattern ::
  "'c fmt_env \<Rightarrow> int \<Rightarrow> string \<Rightarrow> 'c pattern_formatter \<Rightarrow> 'c pattern_formatter" where
  "compile_pattern env now pat pf = compile_loop env now None pat (pf\<lparr>formatters := []\<rparr>)"

definition pattern_formatter_new ::
  "'c fmt_env \<Rightarrow> int \<Rightarrow> string \<Rightarrow> pattern_time_type \<Rightarrow> string \<Rightarrow> (char \<Rightarrow> 'c option) \<Rightarrow> 'c pattern_formatter" where
  "pattern_formatter_new env now pat tt e custom_user_flags =
     compile_pattern env now pat
       \<lparr>pattern = pat, eol = e, time_type = tt, needs_localtime = False, cached_tm = tm_zero,
        last_log_secs = 0, formatters = [], custom_handlers = custom_user_flags\<rparr>"

definition pattern_formatter_default :: "pattern_time_type \<Rightarrow> string \<Rightarrow> 'c pattern_formatter" where
  "pattern_formatter_default tt e =
     \<lparr>pattern = ''%+'', eol = e, time_type = tt, needs_localtime = True, cached_tm = tm_zero,
      last_log_secs = 0, formatters = [Full full_init], custom_handlers = Map.empty\<rparr>"

text \<open>The clone gets clones of the custom handlers; their padding is set when they are used.\<close>

definition pattern_formatter_clone ::
  "'c fmt_env \<Rightarrow> int \<Rightarrow> 'c pattern_formatter \<Rightarrow> 'c pattern_formatter" where
  "pattern_formatter_clone env now pf =
     need_localtime (needs_localtime pf)
       (pattern_formatter_new env now (pattern pf) (time_type pf) (eol pf)
         (\<lambda>c. map_option (\<lambda>h. custom_clone env h padding_none) (custom_handlers pf c)))"

definition set_pattern :: "'c fmt_env \<Rightarrow> int \<Rightarrow> string \<Rightarrow> 'c pattern_formatter \<Rightarrow> 'c pattern_formatter" where
  "set_pattern env now pat pf =
     compile_pattern env now pat (pf\<lparr>pattern := pat, needs_localtime := False\<rparr>)"

definition add_flag :: "char \<Rightarrow> 'c \<Rightarrow> 'c pattern_formatter \<Rightarrow> 'c pattern_formatter" where
  "add_flag flag h pf = pf\<lparr>custom_handlers := (custom_handlers pf)(flag \<mapsto> h)\<rparr>"

section \<open>Formatting\<close>

text \<open>\<open>to_time_t\<close> casts a time point to whole seconds.\<close>

definition get_time :: "'c fmt_env \<Rightarrow> 'c pattern_formatter \<Rightarrow> log_msg \<Rightarrow> tm" where
  "get_time env pf msg =
     (if time_type pf = local
      then os_localtime env (duration_cast 1000000000 (msg_time msg))
      else os_gmtime env (duration_cast 1000000000 (msg_time msg)))"

definition update_cached_tm :: "'c fmt_env \<Rightarrow> log_msg \<Rightarrow> 'c pattern_formatter \<Rightarrow> 'c pattern_formatter" where
  "update_cached_tm env msg pf =
     (if needs_localtime pf
      then let secs = duration_cast 1000000000 (msg_time msg) in
           if secs \<noteq> last_log_secs pf
           then pf\<lparr>cached_tm := get_time env pf msg, last_log_secs := secs\<rparr>
           else pf
      else pf)"

fun format_all ::
  "'c fmt_env \<Rightarrow> mdc_map \<Rightarrow> 'c flag_formatter list \<Rightarrow> log_msg \<Rightarrow> tm \<Rightarrow> string
    \<Rightarrow> fault + ('c flag_formatter list \<times> log_msg \<times> string)" where
  "format_all env ctx [] msg t dest = Inr ([], msg, dest)"
| "format_all env ctx (f # fs) msg t dest =
     andthen (flag_format env ctx f msg t dest) (\<lambda>(f, msg, dest).
     andthen (format_all env ctx fs msg t dest) (\<lambda>(fs, msg, dest).
     Inr (f # fs, msg, dest)))"

definition pattern_format ::
  "'c fmt_env \<Rightarrow> mdc_map \<Rightarrow> log_msg \<Rightarrow> string \<Rightarrow> 'c pattern_formatter
    \<Rightarrow> fault + ('c pattern_formatter \<times> log_msg \<times> string)" where
  "pattern_format env ctx msg dest pf =
     (let pf = update_cached_tm env msg pf in
      andthen (format_all env ctx (formatters pf) msg (cached_tm pf) dest) (\<lambda>(fs, msg, dest).
      Inr (pf\<lparr>formatters := fs\<rparr>, msg, append_string_view (eol pf) dest)))"

end
