(* ===== verification/Spdlog_Pattern_Props.thy ===== *)
theory Spdlog_Pattern_Props
  imports Spdlog_Pattern
begin

text \<open>
  What pattern formatting guarantees: a padded field has its width, no pattern and no sequence of
  messages makes a formatter read outside an array or overflow, and a compiled pattern is the
  list of its parts.
\<close>

section \<open>Padded fields\<close>

definition spaces :: "nat \<Rightarrow> string" where
  "spaces n = replicate n CHR '' ''"

definition padded :: "padding_info \<Rightarrow> string \<Rightarrow> string" where
  "padded p s =
     (if length s < pad_width p
      then let r = pad_width p - length s in
           case pad_side p of
             pad_left \<Rightarrow> spaces r @ s
           | pad_right \<Rightarrow> s @ spaces r
           | pad_center \<Rightarrow> spaces (r div 2) @ s @ spaces (r - r div 2)
      else if pad_truncate p then take (pad_width p) s
      else s)"

lemma length_spaces [simp]: "length (spaces n) = n"
  by (simp add: spaces_def)

lemma pad_it_ok: "0 \<le> n \<Longrightarrow> n \<le> 64 \<Longrightarrow> pad_it n dest = Inr (dest @ spaces (nat n))"
  by (simp add: pad_it_def mem_read_def append_string_view_def spaces_def min_def)

lemma pad_it_too_long: "64 < n \<Longrightarrow> pad_it n dest = Inl Ub_out_of_bounds"
  by (simp add: pad_it_def mem_read_def)

text \<open>
  A field that writes exactly as many characters as it announces comes out padded or cut to the
  width; the text before it is kept.
\<close>

lemma with_padder_exact:
  assumes w: "pad_width p \<le> 64" and body: "\<And>d. body d = Inr (d @ s)"
  shows "with_padder True (length s) p body dest = Inr (dest @ padded p s)"
proof (cases "length s < pad_width p")
  case False
  then have "take (nat (int (length dest) + int (length s) + (int (pad_width p) - int (length s))))
      (dest @ s) = dest @ take (pad_width p) s"
    by (simp add: nat_add_distrib)
  then show ?thesis using False
    by (cases "length s = pad_width p")
      (auto simp: with_padder_def scoped_padder_begin_def scoped_padder_end_def body padded_def
        Let_def pad_it_ok spaces_def)
next
  case True
  define r where "r = pad_width p - length s"
  have r: "int (pad_width p) - int (length s) = int r" "0 < r" "r \<le> 64"
    using True w by (simp_all add: r_def)
  have "int r div 2 + int r mod 2 = int (r - r div 2)" by presburger
  then show ?thesis using True r
    by (cases "pad_side p")
      (simp_all add: with_padder_def scoped_padder_begin_def scoped_padder_end_def body padded_def
        Let_def pad_it_ok spaces_def r_def [symmetric] nat_div_distrib)
qed

lemma with_padder_null: "with_padder False n p body dest = body dest"
  by (simp add: with_padder_def)

lemma length_padded:
  "length (padded p s) = (if length s < pad_width p \<or> pad_truncate p then pad_width p else length s)"
  by (auto simp: padded_def Let_def split: pad_side.split)

section \<open>Operations that succeed\<close>

definition succeeds :: "'e + 'a \<Rightarrow> bool" where
  "succeeds r = (\<exists>x. r = Inr x)"

named_theorems ok_intro

lemma succeeds_Inr [simp]: "succeeds (Inr x)"
  by (simp add: succeeds_def)

lemma succeeds_Inl [simp]: "\<not> succeeds (Inl e)"
  by (simp add: succeeds_def)

lemma succeeds_andthen [ok_intro]:
  "succeeds m \<Longrightarrow> (\<And>x. m = Inr x \<Longrightarrow> succeeds (f x)) \<Longrightarrow> succeeds (andthen m f)"
  by (auto simp: succeeds_def)

lemma pad_it_succeeds: "n \<le> 64 \<Longrightarrow> succeeds (pad_it n dest)"
  by (simp add: pad_it_def mem_read_def)

text \<open>Whatever size a field announces, its padding stays within the 64 spaces.\<close>

lemma scoped_padder_begin_rest:
  "scoped_padder_begin n p dest = Inr (dest', r) \<Longrightarrow> r \<le> int (pad_width p)"
  by (auto simp: scoped_padder_begin_def Let_def andthen_Inr_iff split: if_splits pad_side.splits)

lemma with_padder_succeeds [ok_intro]:
  assumes "pad_width p \<le> 64" and "\<And>d. succeeds (body d)"
  shows "succeeds (with_padder sc n p body dest)"
proof -
  have "succeeds (scoped_padder_begin n p dest)"
    using assms(1) by (auto simp: scoped_padder_begin_def Let_def split: pad_side.split
        intro!: succeeds_andthen pad_it_succeeds)
  moreover have "succeeds (scoped_padder_end p r d)" if "r \<le> int (pad_width p)" for r d
    using assms(1) that by (auto simp: scoped_padder_end_def Let_def intro: pad_it_succeeds)
  ultimately show ?thesis unfolding with_padder_def
    by (auto intro!: succeeds_andthen assms dest!: scoped_padder_begin_rest)
qed

lemma padded_text_succeeds [ok_intro]: "pad_width p \<le> 64 \<Longrightarrow> succeeds (padded_text sc p s dest)"
  unfolding padded_text_def by (intro ok_intro) simp_all

lemma pad_nothing_succeeds [ok_intro]: "pad_width p \<le> 64 \<Longrightarrow> succeeds (pad_nothing sc p dest)"
  unfolding pad_nothing_def by (intro ok_intro) simp_all

lemma int_add_succeeds [ok_intro]:
  "- (2 ^ 31) \<le> a + b \<Longrightarrow> a + b < 2 ^ 31 \<Longrightarrow> succeeds (int_add a b)"
  by (simp add: int_add_def)

lemma append_int32_succeeds [ok_intro]:
  "- (2 ^ 31) \<le> x \<Longrightarrow> x < 2 ^ 31 \<Longrightarrow> succeeds (append_int 32 x dest)"
  by (simp add: append_int_dec)

lemma append_int64_succeeds [ok_intro]:
  "- (2 ^ 63) \<le> x \<Longrightarrow> x < 2 ^ 63 \<Longrightarrow> succeeds (append_int 64 x dest)"
  by (simp add: append_int_dec)

lemma append_uint_succeeds [ok_intro]: "n < 2 ^ 64 \<Longrightarrow> succeeds (append_uint n dest)"
  by (simp add: append_uint_dec)

lemma nat_mod_power: "nat (x mod 2 ^ n) < 2 ^ n"
  by (simp add: nat_less_iff)

lemma padder_count_succeeds [ok_intro]:
  "succeeds (padder_count_digits32 sc n)" "succeeds (padder_count_digits sc n)"
  using do_count_digits32_correct [of "nat (n mod 2 ^ 32)"] do_count_digits_correct [of "nat (n mod 2 ^ 64)"]
    nat_mod_power [of n 32] nat_mod_power [of n 64]
  by (simp_all add: padder_count_digits32_def padder_count_digits_def)

lemma pad3_succeeds [ok_intro]: "n < 2 ^ 64 \<Longrightarrow> succeeds (pad3 n dest)"
  by (simp add: pad3_zero_pad)

lemma pad_uint_succeeds [ok_intro]: "n < 2 ^ 64 \<Longrightarrow> succeeds (pad_uint n w dest)"
  by (simp add: pad_uint_zero_pad)

section \<open>Valid input\<close>

text \<open>
  What the C library promises of a broken-down time (the zero structure satisfies it too), and
  what a valid message is: a level that has a name, a time from 1970 on that fits 64 bits, and
  names for a source location that is not empty.
\<close>

definition tm_ok :: "tm \<Rightarrow> bool" where
  "tm_ok t =
     (0 \<le> tm_wday t \<and> tm_wday t < 7 \<and> 0 \<le> tm_mon t \<and> tm_mon t < 12 \<and>
      - (2 ^ 31) \<le> tm_mday t \<and> tm_mday t < 2 ^ 31 \<and>
      - (2 ^ 31) \<le> tm_year t \<and> tm_year t + 1900 < 2 ^ 31 \<and>
      - 100000 \<le> tm_gmtoff t \<and> tm_gmtoff t \<le> 100000)"

definition time_ok :: "int \<Rightarrow> bool" where
  "time_ok x = (0 \<le> x \<and> x < 2 ^ 63)"

definition source_ok :: "source_loc \<Rightarrow> bool" where
  "source_ok s =
     (source_empty s \<or> line s < 2 ^ 31 \<and> filename s \<noteq> None \<and> funcname s \<noteq> None)"

definition msg_ok :: "log_msg \<Rightarrow> bool" where
  "msg_ok msg = (msg_level msg \<noteq> n_levels \<and> time_ok (msg_time msg) \<and> thread_id msg < 2 ^ 64
     \<and> source_ok (source msg))"

lemma tm_zero_ok: "tm_ok tm_zero"
  by (simp add: tm_ok_def tm_zero_def)

lemma c_div_pos: "0 \<le> a \<Longrightarrow> 0 < b \<Longrightarrow> c_div a b = a div b"
  by (simp add: c_div_def sgn_if)

lemma name_at_succeeds [ok_intro]: "0 \<le> i \<Longrightarrow> i < int (length names) \<Longrightarrow> length names < 2 ^ 63 \<Longrightarrow>
    succeeds (name_at names i)"
  by (simp add: name_at_def at_index_def nat_less_iff)

lemma level_succeeds [ok_intro]:
  "l \<noteq> n_levels \<Longrightarrow> succeeds (to_string_view l)" "l \<noteq> n_levels \<Longrightarrow> succeeds (to_short_c_str l)"
  using level_names [of l] by auto

lemma c_str_succeeds [ok_intro]: "p \<noteq> None \<Longrightarrow> succeeds (c_str p)"
  by (auto simp: c_str_def)

lemma length_names [simp]: "length days = 7" "length full_days = 7" "length months = 12"
  "length full_months = 12"
  by (simp_all add: days_def full_days_def months_def full_months_def)

section \<open>Every flag formatter succeeds on valid input\<close>

lemma int_add_eq: "int_add a b = Inr c \<Longrightarrow> c = a + b \<and> - (2 ^ 31) \<le> c \<and> c < 2 ^ 31"
  by (simp add: int_add_def split: if_splits)

lemma name_formatters_succeed:
  assumes "msg_ok msg" and "pad_width p \<le> 64"
  shows "succeeds (name_formatter sc p msg dest)" and "succeeds (level_formatter sc p msg dest)"
    and "succeeds (short_level_formatter sc p msg dest)" and "succeeds (v_formatter sc p msg dest)"
  using assms unfolding name_formatter_def level_formatter_def short_level_formatter_def
    v_formatter_def msg_ok_def by (auto intro!: ok_intro)

lemma tm_formatters_succeed:
  assumes "tm_ok t" and "pad_width p \<le> 64"
  shows "succeeds (a_formatter sc p t dest)" and "succeeds (A_formatter sc p t dest)"
    and "succeeds (b_formatter sc p t dest)" and "succeeds (B_formatter sc p t dest)"
    and "succeeds (c_formatter sc p t dest)" and "succeeds (C_formatter sc p t dest)"
    and "succeeds (D_formatter sc p t dest)" and "succeeds (Y_formatter sc p t dest)"
    and "succeeds (m_formatter sc p t dest)" and "succeeds (d_formatter sc p t dest)"
    and "succeeds (H_formatter sc p t dest)" and "succeeds (I_formatter sc p t dest)"
    and "succeeds (M_formatter sc p t dest)" and "succeeds (S_formatter sc p t dest)"
    and "succeeds (p_formatter sc p t dest)" and "succeeds (r_formatter sc p t dest)"
    and "succeeds (R_formatter sc p t dest)" and "succeeds (T_formatter sc p t dest)"
  using assms unfolding a_formatter_def A_formatter_def b_formatter_def B_formatter_def
    c_formatter_def C_formatter_def D_formatter_def Y_formatter_def m_formatter_def d_formatter_def
    H_formatter_def I_formatter_def M_formatter_def S_formatter_def p_formatter_def r_formatter_def
    R_formatter_def T_formatter_def tm_ok_def Let_def
  by (auto intro!: ok_intro dest!: int_add_eq)

lemma mod_power_le: "nat (x mod 2 ^ 32) < 2 ^ 64" "nat (x mod 2 ^ 64) < 2 ^ 64"
proof -
  have "nat (x mod 2 ^ 32) < 2 ^ 32" by (rule nat_mod_power)
  then show "nat (x mod 2 ^ 32) < 2 ^ 64" by simp
  show "nat (x mod 2 ^ 64) < 2 ^ 64" by (rule nat_mod_power)
qed

lemma int_div_le: "0 \<le> a \<Longrightarrow> 0 < b \<Longrightarrow> a div b \<le> a" for a b :: int
  using zdiv_mono2 [of a 1 b] by simp

lemma duration_cast_bounds:
  assumes "0 \<le> d" and "d < 2 ^ 63" and "0 < u"
  shows "0 \<le> duration_cast u d" and "duration_cast u d < 2 ^ 63"
proof -
  have "d div u \<le> d" using assms by (simp add: int_div_le)
  then show "0 \<le> duration_cast u d" "duration_cast u d < 2 ^ 63"
    using assms by (simp_all add: duration_cast_def c_div_pos pos_imp_zdiv_nonneg_iff)
qed

lemma fraction_formatters_succeed:
  assumes "msg_ok msg" and "pad_width p \<le> 64"
  shows "succeeds (e_formatter sc p msg dest)" and "succeeds (f_formatter sc p msg dest)"
    and "succeeds (F_formatter sc p msg dest)" and "succeeds (E_formatter sc p msg dest)"
    and "succeeds (t_formatter sc p msg dest)" and "succeeds (pid_formatter sc p pid dest)"
proof -
  show "succeeds (e_formatter sc p msg dest)" "succeeds (f_formatter sc p msg dest)"
    "succeeds (F_formatter sc p msg dest)"
    using assms unfolding e_formatter_def f_formatter_def F_formatter_def pad6_def pad9_def Let_def
    by (intro ok_intro mod_power_le; simp)+
  have "0 \<le> duration_cast 1000000000 (msg_time msg)" "duration_cast 1000000000 (msg_time msg) < 2 ^ 63"
    using assms(1) duration_cast_bounds [of "msg_time msg" 1000000000]
    by (simp_all add: msg_ok_def time_ok_def)
  then show "succeeds (E_formatter sc p msg dest)"
    using assms unfolding E_formatter_def Let_def by (intro ok_intro) auto
  show "succeeds (t_formatter sc p msg dest)" "succeeds (pid_formatter sc p pid dest)"
    using assms unfolding t_formatter_def pid_formatter_def Let_def msg_ok_def
    by (auto intro!: ok_intro mod_power_le)
qed

lemma source_formatters_succeed:
  assumes "msg_ok msg" and "pad_width p \<le> 64"
  shows "succeeds (source_location_formatter sc p msg dest)"
    and "succeeds (source_filename_formatter sc p msg dest)"
    and "succeeds (short_filename_formatter sc p msg dest)"
    and "succeeds (source_linenum_formatter sc p msg dest)"
    and "succeeds (source_funcname_formatter sc p msg dest)"
proof -
  have src: "source_empty (source msg) \<or> 0 < line (source msg) \<and> line (source msg) < 2 ^ 31
      \<and> filename (source msg) \<noteq> None \<and> funcname (source msg) \<noteq> None"
    using assms(1) by (auto simp: msg_ok_def source_ok_def source_empty_def)
  then show "succeeds (source_location_formatter sc p msg dest)"
    "succeeds (source_filename_formatter sc p msg dest)"
    "succeeds (short_filename_formatter sc p msg dest)"
    "succeeds (source_linenum_formatter sc p msg dest)"
    "succeeds (source_funcname_formatter sc p msg dest)"
    using assms(2) unfolding source_location_formatter_def source_filename_formatter_def
      short_filename_formatter_def source_linenum_formatter_def source_funcname_formatter_def Let_def
    by (auto intro!: ok_intro)
qed

lemma time_diff_ok: "time_ok a \<Longrightarrow> time_ok b \<Longrightarrow> time_diff a b = Inr (a - b)"
  by (simp add: time_diff_def time_ok_def in_i64_def)

lemma to_i32_id: "- (2 ^ 31) \<le> x \<Longrightarrow> x < 2 ^ 31 \<Longrightarrow> to_i32 x = x"
  by (simp add: to_i32_def)

lemma c_div_abs_le: "\<bar>c_div a b\<bar> \<le> \<bar>a\<bar>"
proof -
  have "\<bar>a\<bar> div \<bar>b\<bar> \<le> \<bar>a\<bar>" by (cases "b = 0") (auto intro: int_div_le)
  moreover have "0 \<le> \<bar>a\<bar> div \<bar>b\<bar>" by (simp add: pos_imp_zdiv_nonneg_iff div_int_pos_iff)
  ultimately show ?thesis by (auto simp: c_div_def abs_mult sgn_if)
qed

definition z_ok :: "z_state \<Rightarrow> bool" where
  "z_ok z = (time_ok (last_update z) \<and> \<bar>offset_minutes z\<bar> \<le> 100000)"

lemma utc_minutes_offset_bound: "tm_ok t \<Longrightarrow> \<bar>utc_minutes_offset t\<bar> \<le> 100000"
proof -
  assume "tm_ok t"
  then have "\<bar>tm_gmtoff t\<bar> \<le> 100000" by (auto simp: tm_ok_def)
  then have "\<bar>c_div (tm_gmtoff t) 60\<bar> \<le> 100000"
    using c_div_abs_le [of "tm_gmtoff t" 60] by linarith
  then show ?thesis by (simp add: utc_minutes_offset_def to_i32_id abs_le_iff)
qed

lemma z_formatter_succeeds:
  assumes "msg_ok msg" and "tm_ok t" and "z_ok z" and "pad_width p \<le> 64"
  obtains z' dest' where "z_formatter sc p z msg t dest = Inr (z', dest')" and "z_ok z'"
proof -
  obtain z' where z': "get_cached_offset z msg t = Inr (z', offset_minutes z')" "z_ok z'"
    using assms utc_minutes_offset_bound [OF assms(2)]
    by (auto simp: get_cached_offset_def msg_ok_def z_ok_def time_diff_ok Let_def)
  have "succeeds (z_body (offset_minutes z') d)" for d
    using z'(2) by (auto simp: z_body_def Let_def z_ok_def int_add_def intro!: ok_intro)
  then have "succeeds (with_padder sc 6 p (z_body (offset_minutes z')) dest)"
    using assms(4) by (intro ok_intro)
  then show thesis using that [OF _ z'(2)] z'(1) by (auto simp: z_formatter_def succeeds_def)
qed

lemma elapsed_formatter_succeeds:
  assumes "msg_ok msg" and "time_ok prev" and "pad_width p \<le> 64"
  obtains dest' where "elapsed_formatter sc u p prev msg dest = Inr (msg_time msg, dest')"
proof -
  let ?n = "nat (duration_cast u (max (msg_time msg - prev) 0) mod 2 ^ 64)"
  have "succeeds (padder_count_digits sc (int ?n))" by (intro ok_intro)
  then obtain k where k: "padder_count_digits sc (int ?n) = Inr k" by (auto simp: succeeds_def)
  have "succeeds (with_padder sc k p (append_uint ?n) dest)"
    using assms(3) by (intro ok_intro mod_power_le)
  then show thesis using that assms(1,2) k
    by (auto simp: elapsed_formatter_def msg_ok_def time_diff_ok Let_def succeeds_def)
qed

lemma format_mdc_succeeds: "pad_width p \<le> 64 \<Longrightarrow> succeeds (format_mdc sc p ctx dest)"
  by (induction sc p ctx dest rule: format_mdc.induct) (auto simp: Let_def intro!: ok_intro)

lemma mdc_formatter_succeeds: "pad_width p \<le> 64 \<Longrightarrow> succeeds (mdc_formatter sc p ctx dest)"
  by (auto simp: mdc_formatter_def intro!: ok_intro format_mdc_succeeds)

lemma msg_ok_color [simp]:
  "msg_ok (msg\<lparr>color_range_start := i\<rparr>) = msg_ok msg"
  "msg_ok (msg\<lparr>color_range_end := i\<rparr>) = msg_ok msg"
  by (simp_all add: msg_ok_def)

lemma full_cached_succeeds:
  assumes "tm_ok t"
  shows "succeeds (full_cached st msg t)"
  using assms unfolding full_cached_def full_datetime_def tm_ok_def Let_def
  by (auto intro!: ok_intro dest!: int_add_eq)

lemma full_location_succeeds:
  assumes "msg_ok msg"
  shows "succeeds (full_location msg dest)"
  using assms unfolding full_location_def msg_ok_def source_ok_def source_empty_def Let_def
  by (auto intro!: ok_intro)

lemma full_formatter_succeeds:
  assumes "msg_ok msg" and "tm_ok t"
  obtains st' msg' dest' where "full_formatter st ctx msg t dest = Inr (st', msg', dest')"
    and "msg_ok msg'"
proof -
  have mdc: "succeeds (full_mdc ctx d)" for d
    by (auto simp: full_mdc_def padding_none_def intro!: ok_intro format_mdc_succeeds)
  have "succeeds (full_formatter st ctx msg t dest)"
    using assms mdc unfolding full_formatter_def Let_def
    by (auto simp: msg_ok_def intro!: ok_intro mod_power_le full_cached_succeeds
        full_location_succeeds)
  then obtain st' msg' dest' where r: "full_formatter st ctx msg t dest = Inr (st', msg', dest')"
    by (auto simp: succeeds_def)
  then have "msg_ok msg'" using assms(1)
    by (auto simp: full_formatter_def andthen_Inr_iff Let_def)
  then show thesis using that r by blast
qed

section \<open>Whole lines\<close>

text \<open>
  A formatter that the library provides, with a padding of at most 64 and a valid state. Custom
  formatters are the user's; nothing is promised for them.
\<close>

primrec flag_ok :: "'c flag_formatter \<Rightarrow> bool" where
  "flag_ok (Name sc p) = (pad_width p \<le> 64)"
| "flag_ok (Level sc p) = (pad_width p \<le> 64)"
| "flag_ok (Short_level sc p) = (pad_width p \<le> 64)"
| "flag_ok (Thread_id sc p) = (pad_width p \<le> 64)"
| "flag_ok (Payload sc p) = (pad_width p \<le> 64)"
| "flag_ok (Weekday sc p) = (pad_width p \<le> 64)"
| "flag_ok (Full_weekday sc p) = (pad_width p \<le> 64)"
| "flag_ok (Month_name sc p) = (pad_width p \<le> 64)"
| "flag_ok (Full_month_name sc p) = (pad_width p \<le> 64)"
| "flag_ok (Date_time sc p) = (pad_width p \<le> 64)"
| "flag_ok (Year2 sc p) = (pad_width p \<le> 64)"
| "flag_ok (Year4 sc p) = (pad_width p \<le> 64)"
| "flag_ok (Short_date sc p) = (pad_width p \<le> 64)"
| "flag_ok (Month sc p) = (pad_width p \<le> 64)"
| "flag_ok (Day sc p) = (pad_width p \<le> 64)"
| "flag_ok (Hours24 sc p) = (pad_width p \<le> 64)"
| "flag_ok (Hours12 sc p) = (pad_width p \<le> 64)"
| "flag_ok (Minutes sc p) = (pad_width p \<le> 64)"
| "flag_ok (Seconds sc p) = (pad_width p \<le> 64)"
| "flag_ok (Millis sc p) = (pad_width p \<le> 64)"
| "flag_ok (Micros sc p) = (pad_width p \<le> 64)"
| "flag_ok (Nanos sc p) = (pad_width p \<le> 64)"
| "flag_ok (Epoch_seconds sc p) = (pad_width p \<le> 64)"
| "flag_ok (Am_pm sc p) = (pad_width p \<le> 64)"
| "flag_ok (Clock12 sc p) = (pad_width p \<le> 64)"
| "flag_ok (Clock_hm sc p) = (pad_width p \<le> 64)"
| "flag_ok (Clock_hms sc p) = (pad_width p \<le> 64)"
| "flag_ok (Time_zone sc p z) = (pad_width p \<le> 64 \<and> z_ok z)"
| "flag_ok (Pid sc p) = (pad_width p \<le> 64)"
| "flag_ok Color_start = True"
| "flag_ok Color_stop = True"
| "flag_ok (Location sc p) = (pad_width p \<le> 64)"
| "flag_ok (Short_filename sc p) = (pad_width p \<le> 64)"
| "flag_ok (Source_filename sc p) = (pad_width p \<le> 64)"
| "flag_ok (Source_line sc p) = (pad_width p \<le> 64)"
| "flag_ok (Source_function sc p) = (pad_width p \<le> 64)"
| "flag_ok (Char_text x) = True"
| "flag_ok (Elapsed sc u p prev) = (pad_width p \<le> 64 \<and> time_ok prev)"
| "flag_ok (Mdc sc p) = (pad_width p \<le> 64)"
| "flag_ok (Aggregate x) = True"
| "flag_ok (Full x) = True"
| "flag_ok (Custom c) = False"

definition good :: "fault + ('c flag_formatter \<times> log_msg \<times> string) \<Rightarrow> bool" where
  "good r = (\<exists>f msg dest. r = Inr (f, msg, dest) \<and> flag_ok f \<and> msg_ok msg)"

lemma good_Inr [simp]: "good (Inr (f, msg, dest)) \<longleftrightarrow> flag_ok f \<and> msg_ok msg"
  by (simp add: good_def)

lemma stateless_good: "succeeds r \<Longrightarrow> flag_ok f \<Longrightarrow> msg_ok msg \<Longrightarrow> good (stateless f msg r)"
  by (auto simp: stateless_def succeeds_def)

lemma flag_format_good:
  assumes "msg_ok msg" and "tm_ok t" and "flag_ok f"
  shows "good (flag_format env ctx f msg t dest)"
proof (cases f)
  case (Time_zone sc p z)
  then have "z_ok z" "pad_width p \<le> 64" using assms(3) by simp_all
  then obtain z' d where "z_formatter sc p z msg t dest = Inr (z', d)" "z_ok z'"
    by (rule z_formatter_succeeds [OF assms(1,2)])
  then show ?thesis using Time_zone assms by simp
next
  case (Elapsed sc u p prev)
  then have "time_ok prev" "pad_width p \<le> 64" using assms(3) by simp_all
  then obtain d where "elapsed_formatter sc u p prev msg dest = Inr (msg_time msg, d)"
    by (rule elapsed_formatter_succeeds [OF assms(1)])
  then show ?thesis using Elapsed assms by (simp add: msg_ok_def)
next
  case (Full st)
  obtain st' msg' d where "full_formatter st ctx msg t dest = Inr (st', msg', d)" "msg_ok msg'"
    by (rule full_formatter_succeeds [OF assms(1,2)])
  then show ?thesis using Full by simp
next
  case Color_start
  then show ?thesis using assms by (simp add: color_start_formatter_def)
next
  case Color_stop
  then show ?thesis using assms by (simp add: color_stop_formatter_def)
qed (use assms in \<open>simp_all add: stateless_good name_formatters_succeed tm_formatters_succeed
    fraction_formatters_succeed source_formatters_succeed mdc_formatter_succeeds\<close>)

definition formatter_ok :: "'c pattern_formatter \<Rightarrow> bool" where
  "formatter_ok pf =
     ((\<forall>f \<in> set (formatters pf). flag_ok f) \<and> tm_ok (cached_tm pf) \<and> custom_handlers pf = Map.empty)"

definition env_ok :: "'c fmt_env \<Rightarrow> bool" where
  "env_ok env = (\<forall>secs. tm_ok (os_localtime env secs) \<and> tm_ok (os_gmtime env secs))"

lemma format_all_succeeds:
  "msg_ok msg \<Longrightarrow> tm_ok t \<Longrightarrow> \<forall>f \<in> set fs. flag_ok f \<Longrightarrow>
   \<exists>fs' msg' d. format_all env ctx fs msg t dest = Inr (fs', msg', d) \<and> msg_ok msg'
     \<and> (\<forall>f \<in> set fs'. flag_ok f)"
proof (induction fs arbitrary: msg dest)
  case (Cons f fs)
  then obtain f' m' d where f: "flag_format env ctx f msg t dest = Inr (f', m', d)" "flag_ok f'" "msg_ok m'"
    using flag_format_good [of msg t f env ctx dest] by (auto simp: good_def)
  then show ?case using Cons.IH [OF f(3) Cons.prems(2), of d] Cons.prems(3) by auto
qed simp

lemma update_cached_tm_ok: "formatter_ok pf \<Longrightarrow> env_ok env \<Longrightarrow> formatter_ok (update_cached_tm env msg pf)"
  by (auto simp: update_cached_tm_def formatter_ok_def env_ok_def get_time_def Let_def)

lemma pattern_format_succeeds:
  assumes "formatter_ok pf" and "env_ok env" and "msg_ok msg"
  obtains pf' msg' dest' where "pattern_format env ctx msg dest pf = Inr (pf', msg', dest')"
    and "formatter_ok pf'"
proof -
  let ?pf = "update_cached_tm env msg pf"
  have ok: "formatter_ok ?pf" using assms(1,2) by (rule update_cached_tm_ok)
  then obtain fs' msg' d where "format_all env ctx (formatters ?pf) msg (cached_tm ?pf) dest = Inr (fs', msg', d)"
      "\<forall>f \<in> set fs'. flag_ok f"
    using format_all_succeeds [OF assms(3), of "cached_tm ?pf" "formatters ?pf" env ctx dest]
    by (auto simp: formatter_ok_def)
  then show thesis using that ok by (simp add: pattern_format_def Let_def formatter_ok_def)
qed

section \<open>Every pattern compiles to valid formatters\<close>

lemma add_formatter_ok:
  "formatter_ok pf \<Longrightarrow> flag_ok f \<Longrightarrow> formatter_ok (add_formatter f pf)"
  "formatter_ok pf \<Longrightarrow> flag_ok f \<Longrightarrow> formatter_ok (add_time_formatter f pf)"
  by (auto simp: add_formatter_def add_time_formatter_def need_localtime_def formatter_ok_def)

lemma z_init_ok: "z_ok z_init"
  by (simp add: z_init_def z_ok_def time_ok_def)

lemma formatter_ok_if: "formatter_ok x \<Longrightarrow> formatter_ok y \<Longrightarrow> formatter_ok (if b then x else y)"
  by simp

lemma handle_flag_ok:
  assumes "formatter_ok pf" and "pad_width p \<le> 64" and "time_ok now"
  shows "formatter_ok (handle_flag env now sc c p pf)"
proof -
  have "custom_handlers pf c = None" using assms(1) by (simp add: formatter_ok_def)
  then show ?thesis using assms unfolding handle_flag_def
    by (simp only: option.case) (intro formatter_ok_if add_formatter_ok; simp add: z_init_ok)
qed

lemma handle_padspec_width: "pad_width (fst (handle_padspec it)) \<le> 64"
proof -
  obtain side a where a: "read_side it = (side, a)" by fastforce
  obtain w b where b: "read_width (digit_value (hd a)) (tl a) = (w, b)" by fastforce
  obtain t c where c: "read_truncate b = (t, c)" by fastforce
  show ?thesis by (simp add: handle_padspec_def a b c padding_none_def padding_new_def max_width_def)
qed

lemma add_user_chars_ok: "formatter_ok pf \<Longrightarrow> formatter_ok (add_user_chars u pf)"
  by (cases u) (simp_all add: add_user_chars_def add_formatter_ok)

lemma compile_loop_ok:
  "formatter_ok pf \<Longrightarrow> time_ok now \<Longrightarrow> formatter_ok (compile_loop env now u it pf)"
proof (induction env now u it pf rule: compile_loop.induct)
  case (2 env now u c it pf)
  then show ?case
    by (auto simp: Let_def add_user_chars_ok handle_flag_ok handle_padspec_width split: list.split)
qed (simp add: add_user_chars_ok)

lemma compile_pattern_ok:
  "formatter_ok pf \<Longrightarrow> time_ok now \<Longrightarrow> formatter_ok (compile_pattern env now pat pf)"
  unfolding compile_pattern_def by (rule compile_loop_ok) (simp_all add: formatter_ok_def)

lemma pattern_formatter_new_ok:
  "time_ok now \<Longrightarrow> formatter_ok (pattern_formatter_new env now pat tt e Map.empty)"
  unfolding pattern_formatter_new_def
  by (rule compile_pattern_ok) (simp_all add: formatter_ok_def tm_zero_ok)

text \<open>What a sink does with a formatter over its life: format one message after the other.\<close>

fun format_messages ::
  "'c fmt_env \<Rightarrow> mdc_map \<Rightarrow> log_msg list \<Rightarrow> 'c pattern_formatter
    \<Rightarrow> fault + ('c pattern_formatter \<times> string list)" where
  "format_messages env ctx [] pf = Inr (pf, [])"
| "format_messages env ctx (msg # msgs) pf =
     andthen (pattern_format env ctx msg [] pf) (\<lambda>(pf, _, s).
     andthen (format_messages env ctx msgs pf) (\<lambda>(pf, out). Inr (pf, s # out)))"

lemma format_messages_succeed:
  "formatter_ok pf \<Longrightarrow> env_ok env \<Longrightarrow> \<forall>msg \<in> set msgs. msg_ok msg \<Longrightarrow>
   \<exists>pf' out. format_messages env ctx msgs pf = Inr (pf', out) \<and> length out = length msgs"
proof (induction msgs arbitrary: pf)
  case (Cons msg msgs)
  obtain pf' msg' s where p: "pattern_format env ctx msg [] pf = Inr (pf', msg', s)" "formatter_ok pf'"
    using pattern_format_succeeds [OF Cons.prems(1,2), of msg ctx "[]"] Cons.prems(3) by auto
  then show ?case using Cons.IH [OF p(2) Cons.prems(2)] Cons.prems(3) by auto
qed simp

text \<open>
  C25. No pattern, however malformed or however wide its paddings, and no sequence of valid messages
  makes a formatter read outside an array, dereference a null pointer or overflow an integer:
  every message yields a line.
\<close>

theorem every_pattern_formats_safely:
  assumes "env_ok env" and "time_ok now" and "\<forall>msg \<in> set msgs. msg_ok msg"
  shows "\<exists>pf out. format_messages env ctx msgs
      (pattern_formatter_new env now pat tt e Map.empty) = Inr (pf, out)
    \<and> length out = length msgs"
  using pattern_formatter_new_ok [OF assms(2)] assms(1,3) by (rule format_messages_succeed)

definition noon :: tm where
  "noon = \<lparr>tm_sec = 7, tm_min = 5, tm_hour = 12, tm_mday = 3, tm_mon = 10, tm_year = 124,
     tm_wday = 0, tm_gmtoff = 3600\<rparr>"

definition sample_env :: "unit fmt_env" where
  "sample_env = \<lparr>os_localtime = (\<lambda>_. noon), os_gmtime = (\<lambda>_. noon), os_pid = 42,
     custom_clone = (\<lambda>c _. c), custom_format = (\<lambda>c _ _ dest. Inr (c, dest))\<rparr>"

definition sample_msg :: log_msg where
  "sample_msg = log_msg_at 1700000000123456789 7
     \<lparr>filename = Some ''src/a.cpp'', line = 12, funcname = Some ''f''\<rparr> ''net'' warn ''hello''"

lemma sample_ok: "env_ok sample_env" "msg_ok sample_msg"
  by (simp_all add: env_ok_def sample_env_def noon_def tm_ok_def msg_ok_def sample_msg_def
      log_msg_at_def time_ok_def source_ok_def)

theorem every_pattern_formats_safely_witness:
  "\<exists>pf out. format_messages sample_env [] [sample_msg, sample_msg]
      (pattern_formatter_new sample_env 0 ''[%T.%e] %-99!n %=8l%^%@ %&%'' local [] Map.empty) = Inr (pf, out)
    \<and> length out = length [sample_msg, sample_msg]"
  by (rule every_pattern_formats_safely) (simp_all add: sample_ok time_ok_def)

section \<open>Fields announced too large\<close>

text \<open>
  The truncation of the destructor cuts the announced size off the whole text. A field that
  writes fewer characters than it announced loses characters of the text before it: a message
  within the first ten seconds of 1970, printed with \<open>%5!E\<close> (announced size 10, one digit).
\<close>

lemma truncating_padder_eats_earlier_text:
  "E_formatter True (padding_new 5 pad_left True) (sample_msg\<lparr>msg_time := 3000000000\<rparr>) ''abcdef''
     = Inr ''ab''"
proof -
  have "append_int 64 3 d = Inr (d @ ''3'')" for d
    by (simp add: append_int_dec dec_int_def dec_small digit_char_def char_of_def bit_Suc_0_iff)
  then show ?thesis
    by (simp add: E_formatter_def with_padder_def scoped_padder_begin_def scoped_padder_end_def
        padding_new_def duration_cast_def c_div_def Let_def)
qed

section \<open>The compiler reads what a pattern writer writes\<close>

text \<open>
  A pattern as a list of items: literal text, and flags with an optional padding (width, side and
  truncation); \<open>print_item\<close> writes them down.
\<close>

datatype pattern_item = Text string | Flag "(nat \<times> pad_side \<times> bool) option" char

fun print_side :: "pad_side \<Rightarrow> string" where
  "print_side pad_left = ''''"
| "print_side pad_right = ''-''"
| "print_side pad_center = ''=''"

fun print_item :: "pattern_item \<Rightarrow> string" where
  "print_item (Text s) = s"
| "print_item (Flag None c) = [CHR ''%'', c]"
| "print_item (Flag (Some (w, side, t)) c) =
     ''%'' @ print_side side @ dec w @ (if t then ''!'' else '''') @ [c]"

text \<open>
  What an item means to the formatter. A width above 64 counts as 64.
\<close>

fun item_padding :: "(nat \<times> pad_side \<times> bool) option \<Rightarrow> padding_info" where
  "item_padding None = padding_none"
| "item_padding (Some (w, side, t)) = padding_new (min w 64) side t"

fun apply_item ::
  "'c fmt_env \<Rightarrow> int \<Rightarrow> pattern_item \<Rightarrow> 'c pattern_formatter \<Rightarrow> 'c pattern_formatter" where
  "apply_item env now (Text s) pf = add_formatter (Aggregate s) pf"
| "apply_item env now (Flag p c) pf =
     handle_flag env now (p \<noteq> None) c (item_padding p) pf"

text \<open>
  An item that can be read back: text without a percent sign, and a flag character that cannot be
  taken for a part of the padding before it. Two texts must not stand next to each other.
\<close>

fun item_ok :: "pattern_item \<Rightarrow> bool" where
  "item_ok (Text s) \<longleftrightarrow> s \<noteq> [] \<and> CHR ''%'' \<notin> set s"
| "item_ok (Flag None c) \<longleftrightarrow> \<not> is_digit c \<and> c \<noteq> CHR ''-'' \<and> c \<noteq> CHR ''=''"
| "item_ok (Flag (Some (w, side, t)) c) \<longleftrightarrow> w < 2 ^ 64 \<and> (t \<or> \<not> is_digit c \<and> c \<noteq> CHR ''!'')"

definition is_text :: "pattern_item \<Rightarrow> bool" where
  "is_text i = (\<exists>s. i = Text s)"

fun items_ok :: "pattern_item list \<Rightarrow> bool" where
  "items_ok [] = True"
| "items_ok [i] = item_ok i"
| "items_ok (i # j # is) = (item_ok i \<and> \<not> (is_text i \<and> is_text j) \<and> items_ok (j # is))"

lemma is_digit_char: "is_digit c \<longleftrightarrow> 48 \<le> (of_char c :: nat) \<and> (of_char c :: nat) \<le> 57"
  by (simp add: is_digit_def char_digit_def Let_def)

lemma no_digit [simp]: "\<not> is_digit CHR ''-''" "\<not> is_digit CHR ''=''" "\<not> is_digit CHR ''!''"
  by (simp_all add: is_digit_char)

lemma is_digit_digit_char [simp]: "d < 10 \<Longrightarrow> is_digit (digit_char d)"
  by (simp add: is_digit_def)

lemma digit_value_digit_char [simp]: "d < 10 \<Longrightarrow> digit_value (digit_char d) = d"
  by (simp add: digit_value_def digit_char_def)

lemma digit_char_neq [simp]: "d < 10 \<Longrightarrow> digit_char d \<noteq> CHR ''-''" "d < 10 \<Longrightarrow> digit_char d \<noteq> CHR ''=''"
  using is_digit_digit_char [of d] by (metis no_digit)+

text \<open>Reading the width back, digit by digit.\<close>

lemma read_width_digits:
  "list_all is_digit ds \<Longrightarrow> \<not> (rest \<noteq> [] \<and> is_digit (hd rest)) \<Longrightarrow>
   read_width w (ds @ rest) = (foldl (\<lambda>w d. (w * 10 + digit_value d) mod 2 ^ 64) w ds, rest)"
proof (induction ds arbitrary: w)
  case Nil
  then show ?case by (cases rest) auto
qed simp

lemma foldl_width_dec:
  "n < 2 ^ 64 \<Longrightarrow> foldl (\<lambda>w d. (w * 10 + digit_value d) mod 2 ^ 64) 0 (dec n) = n"
proof (induction n rule: dec.induct)
  case (1 n)
  show ?case
  proof (cases "n < 10")
    case True
    then show ?thesis by (simp add: dec_small)
  next
    case False
    then show ?thesis using 1 by (simp add: dec_step)
  qed
qed

lemma dec_digits: "list_all is_digit (dec n)"
proof (induction n rule: dec.induct)
  case (1 n)
  then show ?case by (cases "n < 10") (simp_all add: dec_small dec_step)
qed

lemma read_width_dec:
  assumes "n < 2 ^ 64" and "\<not> (rest \<noteq> [] \<and> is_digit (hd rest))"
  shows "read_width (digit_value (hd (dec n))) (tl (dec n @ rest)) = (n, rest)"
proof -
  obtain d ds where d: "dec n = d # ds" by (cases "dec n") simp_all
  have digits: "is_digit d" "list_all is_digit ds" using dec_digits [of n] by (simp_all add: d)
  have "digit_value d < 10" using digits(1) by (auto simp: is_digit_char digit_value_def)
  then have "(0 * 10 + digit_value d) mod 2 ^ 64 = digit_value d" by simp
  then show ?thesis
    using foldl_width_dec [OF assms(1)] read_width_digits [OF digits(2) assms(2)] by (simp add: d)
qed

lemma read_side_print: "read_side (print_side side @ dec n @ rest) = (side, dec n @ rest)"
proof -
  obtain d ds where d: "dec n = d # ds" by (cases "dec n") simp_all
  have "is_digit d" using dec_digits [of n] by (simp add: d)
  then have "d \<noteq> CHR ''-''" "d \<noteq> CHR ''=''" by auto
  then show ?thesis by (cases side) (simp_all add: d)
qed

lemma handle_padspec_print:
  assumes "item_ok (Flag p c)"
  shows "handle_padspec (tl (print_item (Flag p c)) @ rest) = (item_padding p, c # rest)"
proof (cases p)
  case None
  then show ?thesis using assms by (simp add: handle_padspec_def)
next
  case (Some a)
  obtain w side t where a: "a = (w, side, t)" by (cases a)
  define r where "r = (if t then ''!'' else '''') @ c # rest"
  have r: "read_truncate r = (t, c # rest)" "\<not> (r \<noteq> [] \<and> is_digit (hd r))"
    using assms by (auto simp: r_def Some a)
  have w: "w < 2 ^ 64" using assms by (simp add: Some a)
  obtain d ds where d: "dec w = d # ds" by (cases "dec w") simp_all
  have "is_digit d" using dec_digits [of w] by (simp add: d)
  then have "handle_padspec (print_side side @ dec w @ r) = (padding_new (min w 64) side t, c # rest)"
    using read_width_dec [OF w r(2)] r(1) read_side_print [of side w r]
    by (simp add: handle_padspec_def d max_width_def)
  then show ?thesis by (simp add: Some a r_def)
qed

lemma compile_text:
  "CHR ''%'' \<notin> set s \<Longrightarrow>
   compile_loop env now u (s @ rest) pf =
     compile_loop env now (if s = [] then u else Some ((case u of None \<Rightarrow> [] | Some v \<Rightarrow> v) @ s)) rest pf"
  by (induction s arbitrary: u) auto

lemma compile_percent:
  "handle_padspec it = (p, flag # it') \<Longrightarrow> compile_loop env now u (CHR ''%'' # it) pf =
    compile_loop env now None it' (handle_flag env now (pad_enabled p) flag p (add_user_chars u pf))"
  by (simp add: Let_def)

lemma print_flag: "print_item (Flag p c) = CHR ''%'' # tl (print_item (Flag p c))"
  by (cases "Flag p c" rule: print_item.cases) auto

lemma compile_flag:
  assumes "item_ok (Flag p c)"
  shows "compile_loop env now u (print_item (Flag p c) @ rest) pf =
    compile_loop env now None rest (apply_item env now (Flag p c) (add_user_chars u pf))"
proof -
  have enabled: "pad_enabled (item_padding p) = (p \<noteq> None)"
    by (cases p rule: item_padding.cases) (simp_all add: padding_none_def padding_new_def)
  have print: "print_item (Flag p c) @ rest = CHR ''%'' # (tl (print_item (Flag p c)) @ rest)"
    by (subst print_flag) simp
  show ?thesis
    unfolding print compile_percent [OF handle_padspec_print [OF assms]] apply_item.simps enabled ..
qed

text \<open>
  Compiling the written pattern adds exactly the formatters of its items, in order.
\<close>

lemma compile_items:
  "items_ok is \<Longrightarrow> (u = None \<or> is = [] \<or> \<not> is_text (hd is)) \<Longrightarrow>
   compile_loop env now u (concat (map print_item is)) pf
     = fold (apply_item env now) is (add_user_chars u pf)"
proof (induction "is" arbitrary: u pf rule: items_ok.induct)
  case 1
  then show ?case by simp
next
  case (2 i)
  show ?case
  proof (cases i)
    case (Text s)
    then show ?thesis using 2 compile_text [of s env now u "[]" pf]
      by (auto simp: is_text_def add_user_chars_def)
  next
    case (Flag p c)
    then show ?thesis using 2 compile_flag [of p c env now u "[]" pf]
      by (simp add: add_user_chars_def)
  qed
next
  case (3 i j "is")
  show ?case
  proof (cases i)
    case (Text s)
    then have "u = None" "\<not> is_text j" "s \<noteq> []" "CHR ''%'' \<notin> set s" "items_ok (j # is)"
      using 3 by (auto simp: is_text_def)
    then show ?thesis
      using "3.IH" [of "Some s" pf] compile_text [of s env now None "concat (map print_item (j # is))" pf] Text
      by (simp add: add_user_chars_def)
  next
    case (Flag p c)
    then have "item_ok (Flag p c)" "items_ok (j # is)" using 3 by simp_all
    then show ?thesis
      using "3.IH" [of None "apply_item env now i (add_user_chars u pf)"] Flag
        compile_flag [of p c env now u "concat (map print_item (j # is))" pf]
      by (simp add: add_user_chars_def)
  qed
qed

text \<open>
  C27. The compiler inverts the writer: the text of a list of items compiles to the formatters of the
  items.
\<close>

theorem pattern_roundtrip:
  assumes "items_ok is"
  shows "compile_pattern env now (concat (map print_item is)) pf
    = fold (apply_item env now) is (pf\<lparr>formatters := []\<rparr>)"
  using compile_items [OF assms, of None env now "pf\<lparr>formatters := []\<rparr>"]
  by (simp add: compile_pattern_def add_user_chars_def)

text \<open>The pattern that \<open>Logger::init\<close> in \<open>log/logger.h\<close> sets.\<close>

definition logger_items :: "pattern_item list" where
  "logger_items =
     [Text ''['', Flag None CHR ''Y'', Text ''-'', Flag None CHR ''m'', Text ''-'',
      Flag None CHR ''d'', Text '' '', Flag None CHR ''H'', Text '':'', Flag None CHR ''M'',
      Text '':'', Flag None CHR ''S'', Text ''.'', Flag None CHR ''e'', Text ''] ['',
      Flag None CHR ''^'', Flag None CHR ''l'', Flag None CHR ''$'', Text ''] ['',
      Flag None CHR ''t'', Text ''] ['', Flag None CHR ''s'', Text '':'', Flag None CHR ''#'',
      Text '':'', Flag None CHR ''!'', Text ''()] '', Flag None CHR ''v'']"

lemma logger_items_ok: "items_ok logger_items"
  by (simp add: logger_items_def is_text_def is_digit_char)

theorem pattern_roundtrip_witness:
  "compile_pattern sample_env 0 ''[%Y-%m-%d %H:%M:%S.%e] [%^%l%$] [%t] [%s:%#:%!()] %v''
      (pattern_formatter_default local '''')
    = fold (apply_item sample_env 0) logger_items
        ((pattern_formatter_default local '''')\<lparr>formatters := []\<rparr>)"
proof -
  have "concat (map print_item logger_items)
      = ''[%Y-%m-%d %H:%M:%S.%e] [%^%l%$] [%t] [%s:%#:%!()] %v''"
    by (simp add: logger_items_def)
  then show ?thesis
    using pattern_roundtrip [OF logger_items_ok, of sample_env 0 "pattern_formatter_default local ''''"]
    by simp
qed

section \<open>The width of a field\<close>

text \<open>
  A name, level, message or other text field comes out exactly as the padding says and leaves the
  text before it alone: blanks fill it up to the width on the chosen side, and a truncating
  padding makes it exactly as wide as asked for.
\<close>

theorem padded_field_exact:
  assumes "pad_width p \<le> 64"
  shows "padded_text True p s dest = Inr (dest @ padded p s)
    \<and> length (padded p s) =
        (if length s < pad_width p \<or> pad_truncate p then pad_width p else length s)"
  unfolding padded_text_def
  using with_padder_exact [OF assms, of "\<lambda>d. Inr (append_string_view s d)" s dest]
  by (simp add: append_string_view_def length_padded)

theorem padded_field_exact_witness:
  "padded_text True (padding_new 8 pad_center False) ''info'' ''ab'' = Inr ''ab  info  ''"
  using padded_field_exact [of "padding_new 8 pad_center False" "''info''" "''ab''"]
  by (simp add: padding_new_def padded_def spaces_def) (simp add: numeral_2_eq_2)

section \<open>The cached broken-down time\<close>

text \<open>
  The formatter converts a time once per second. The cache is right when it belongs to the
  second it is labelled with; the label 0 of a new formatter belongs to no conversion.
\<close>

definition tm_of_secs :: "'c fmt_env \<Rightarrow> 'c pattern_formatter \<Rightarrow> int \<Rightarrow> tm" where
  "tm_of_secs env pf secs = (if time_type pf = local then os_localtime env secs else os_gmtime env secs)"

definition cache_ok :: "'c fmt_env \<Rightarrow> 'c pattern_formatter \<Rightarrow> bool" where
  "cache_ok env pf = (last_log_secs pf \<noteq> 0 \<longrightarrow> cached_tm pf = tm_of_secs env pf (last_log_secs pf))"

lemma add_formatter_keeps [simp]:
  "cached_tm (add_formatter f pf) = cached_tm pf"
  "last_log_secs (add_formatter f pf) = last_log_secs pf"
  "time_type (add_formatter f pf) = time_type pf"
  "cached_tm (add_time_formatter f pf) = cached_tm pf"
  "last_log_secs (add_time_formatter f pf) = last_log_secs pf"
  "time_type (add_time_formatter f pf) = time_type pf"
  by (simp_all add: add_formatter_def add_time_formatter_def need_localtime_def)

lemma last_log_secs_if:
  "last_log_secs x = k \<Longrightarrow> last_log_secs y = k \<Longrightarrow> last_log_secs (if b then x else y) = k"
  by simp

lemma handle_flag_last_log_secs [simp]:
  "last_log_secs (handle_flag env now sc c p pf) = last_log_secs pf"
proof (cases "custom_handlers pf c")
  case None
  then show ?thesis
    unfolding handle_flag_def by (simp only: option.case) (intro last_log_secs_if; simp)
qed (simp add: handle_flag_def)

lemma add_user_chars_last_log_secs [simp]: "last_log_secs (add_user_chars u pf) = last_log_secs pf"
  by (cases u) (simp_all add: add_user_chars_def)

lemma compile_loop_last_log_secs: "last_log_secs (compile_loop env now u it pf) = last_log_secs pf"
  by (induction env now u it pf rule: compile_loop.induct) (auto simp: Let_def split: list.split)

lemma cache_ok_new: "cache_ok env (pattern_formatter_new env now pat tt e cs)"
  by (simp add: pattern_formatter_new_def compile_pattern_def cache_ok_def compile_loop_last_log_secs)

lemma cached_tm_is_current:
  assumes "cache_ok env pf" and "needs_localtime pf"
    and "duration_cast 1000000000 (msg_time msg) \<noteq> 0"
  shows "cached_tm (update_cached_tm env msg pf) = get_time env pf msg
    \<and> cache_ok env (update_cached_tm env msg pf)"
  using assms by (auto simp: update_cached_tm_def cache_ok_def get_time_def tm_of_secs_def Let_def)

text \<open>
  The exception: a message within the first second of 1970 is printed by a new formatter with the
  date of a zeroed structure instead of the converted one.
\<close>

lemma first_second_prints_zero_date:
  "cached_tm (update_cached_tm sample_env (sample_msg\<lparr>msg_time := 5\<rparr>)
      (pattern_formatter_default local '''')) = tm_zero"
  by (simp add: update_cached_tm_def pattern_formatter_default_def duration_cast_def c_div_def)

end
