(* ===== verification/Spdlog_File.thy ===== *)
theory Spdlog_File
  imports Text_Format "HOL-Library.Sublist"
begin

text \<open>
  The file helper (\<open>details/file_helper*.h\<close>, with the wrappers of \<open>details/os-inl.h\<close> it uses) and
  the rotating file sink (\<open>sinks/rotating_file_sink*.h\<close>). The file system of the C library is a
  map from names to contents; an open stream holds the characters it has not written yet. Every
  system call may fail: the \<open>n\<close>-th call does when \<open>fails n\<close> holds, so that one definition covers
  all patterns of failures. Directories are not modelled; a missing one is a failure to open. An
  exception (\<open>spdlog_ex\<close>) carries its text and leaves the state as it was changed so far; the
  description of the system error that follows the text is left out.
\<close>

section \<open>Operations on a state that may throw\<close>

type_synonym ('s, 'a) io = "'s \<Rightarrow> (string + 'a) \<times> 's"

definition io_return :: "'a \<Rightarrow> ('s, 'a) io" where
  "io_return x s = (Inr x, s)"

definition io_throw :: "string \<Rightarrow> ('s, 'a) io" where
  "io_throw e s = (Inl e, s)"

definition io_bind :: "('s, 'a) io \<Rightarrow> ('a \<Rightarrow> ('s, 'b) io) \<Rightarrow> ('s, 'b) io" where
  "io_bind m f s = (case m s of (Inl e, s) \<Rightarrow> (Inl e, s) | (Inr x, s) \<Rightarrow> f x s)"

lemma io_simps [simp]:
  "io_return x s = (Inr x, s)"
  "io_throw e s = (Inl e, s)"
  by (simp_all add: io_return_def io_throw_def)

lemma io_bind_Inr: "m s = (Inr x, s') \<Longrightarrow> io_bind m f s = f x s'"
  by (simp add: io_bind_def)

section \<open>File helper\<close>

datatype file_event =
    Before_open string
  | After_open string
  | Before_close string
  | After_close string

record file_helper =
  files :: "string \<Rightarrow> string option"
  fails :: "nat \<Rightarrow> bool"
  calls :: nat
  events :: "file_event list"    \<comment> \<open>the calls of the event handlers\<close>
  fd :: "string option"          \<comment> \<open>the open stream, with what it has not written yet\<close>
  fh_name :: string

text \<open>One system call: does it succeed?\<close>

definition sys_call :: "('x file_helper_scheme, bool) io" where
  "sys_call s = (Inr (\<not> fails s (calls s)), s\<lparr>calls := Suc (calls s)\<rparr>)"

definition file_event :: "file_event \<Rightarrow> ('x file_helper_scheme, unit) io" where
  "file_event e s = (Inr (), s\<lparr>events := events s @ [e]\<rparr>)"

definition store_file :: "string \<Rightarrow> string option \<Rightarrow> ('x file_helper_scheme, unit) io" where
  "store_file n c s = (Inr (), s\<lparr>files := (files s)(n := c)\<rparr>)"

definition content :: "string \<Rightarrow> 'x file_helper_scheme \<Rightarrow> string" where
  "content n s = (case files s n of None \<Rightarrow> [] | Some c \<Rightarrow> c)"

text \<open>
  \<open>fopen\<close> with mode \<open>wb\<close> truncates, with mode \<open>ab\<close> only creates; both give a stream without
  pending characters. The result says whether it failed, as that of \<open>os::fopen_s\<close>.
\<close>

definition fopen_trunc :: "string \<Rightarrow> ('x file_helper_scheme, bool) io" where
  "fopen_trunc n = io_bind sys_call (\<lambda>ok.
     if ok then io_bind (store_file n (Some [])) (\<lambda>_. io_return False) else io_return True)"

definition fopen_append :: "string \<Rightarrow> ('x file_helper_scheme, bool) io" where
  "fopen_append n = io_bind sys_call (\<lambda>ok s.
     if ok then (Inr False, s\<lparr>files := (files s)(n := Some (content n s)), fd := Some []\<rparr>)
     else (Inr True, s\<lparr>fd := None\<rparr>))"

text \<open>
  \<open>fclose\<close> writes what is pending; its result is ignored, so a failure loses these characters.
\<close>

definition fh_close :: "('x file_helper_scheme, unit) io" where
  "fh_close s =
     (case fd s of
        None \<Rightarrow> (Inr (), s)
      | Some pending \<Rightarrow>
          io_bind (file_event (Before_close (fh_name s))) (\<lambda>_.
          io_bind sys_call (\<lambda>ok s.
            file_event (After_close (fh_name s))
              (s\<lparr>files := (if ok then (files s)(fh_name s := Some (content (fh_name s) s @ pending))
                          else files s),
                fd := None\<rparr>))) s)"

definition open_tries :: nat where "open_tries = 5"

text \<open>The loop of \<open>open\<close>; a failed truncation goes to the next try at once.\<close>

fun open_loop :: "nat \<Rightarrow> string \<Rightarrow> bool \<Rightarrow> ('x file_helper_scheme, unit) io" where
  "open_loop 0 fname trunc = io_throw (''Failed opening file '' @ fname @ '' for writing'')"
| "open_loop (Suc tries) fname trunc =
     io_bind (if trunc then fopen_trunc fname else io_return False) (\<lambda>failed.
     if failed then open_loop tries fname trunc
     else io_bind (fopen_append fname) (\<lambda>failed.
          if failed then open_loop tries fname trunc
          else file_event (After_open fname)))"

definition fh_open :: "string \<Rightarrow> bool \<Rightarrow> ('x file_helper_scheme, unit) io" where
  "fh_open fname trunc =
     io_bind fh_close (\<lambda>_ s.
     io_bind (file_event (Before_open fname)) (\<lambda>_. open_loop open_tries fname trunc)
       (s\<lparr>fh_name := fname\<rparr>))"

definition fh_reopen :: "bool \<Rightarrow> ('x file_helper_scheme, unit) io" where
  "fh_reopen trunc s =
     (if fh_name s = [] then io_throw ''Failed re opening file - was not opened before'' s
      else fh_open (fh_name s) trunc s)"

definition fh_flush :: "('x file_helper_scheme, unit) io" where
  "fh_flush = io_bind sys_call (\<lambda>ok s.
     if ok
     then (Inr (), case fd s of None \<Rightarrow> s
             | Some pending \<Rightarrow> s\<lparr>files := (files s)(fh_name s := Some (content (fh_name s) s @ pending)),
                                 fd := Some []\<rparr>)
     else io_throw (''Failed flush to file '' @ fh_name s) s)"

definition fh_sync :: "('x file_helper_scheme, unit) io" where
  "fh_sync = io_bind sys_call (\<lambda>ok s.
     if ok then (Inr (), s) else io_throw (''Failed to fsync file '' @ fh_name s) s)"

definition fh_write :: "string \<Rightarrow> ('x file_helper_scheme, unit) io" where
  "fh_write buf s =
     (case fd s of
        None \<Rightarrow> (Inr (), s)
      | Some pending \<Rightarrow>
          io_bind sys_call (\<lambda>ok s.
            if ok then (Inr (), s\<lparr>fd := Some (pending @ buf)\<rparr>)
            else io_throw (''Failed writing to file '' @ fh_name s) s) s)"

definition fh_size :: "('x file_helper_scheme, nat) io" where
  "fh_size s =
     (case fd s of
        None \<Rightarrow> io_throw (''Cannot use size() on closed file '' @ fh_name s) s
      | Some _ \<Rightarrow>
          io_bind sys_call (\<lambda>ok s.
            if ok then (Inr (length (content (fh_name s) s)), s)
            else io_throw ''Failed getting file size from fd'' s) s)"

section \<open>File names\<close>

text \<open>\<open>rfind\<close> of a character: the last index at which it stands.\<close>

fun rfind :: "char \<Rightarrow> string \<Rightarrow> nat option" where
  "rfind c [] = None"
| "rfind c (x # xs) =
     (case rfind c xs of Some i \<Rightarrow> Some (Suc i) | None \<Rightarrow> if x = c then Some 0 else None)"

definition folder_sep :: char where "folder_sep = CHR ''/''"

definition split_by_extension :: "string \<Rightarrow> string \<times> string" where
  "split_by_extension fname =
     (case rfind (CHR ''.'') fname of
        None \<Rightarrow> (fname, [])
      | Some ext_index \<Rightarrow>
          if ext_index = 0 \<or> ext_index = length fname - 1 then (fname, [])
          else (case rfind folder_sep fname of
                  Some folder_index \<Rightarrow>
                    if ext_index - 1 \<le> folder_index then (fname, [])
                    else (take ext_index fname, drop ext_index fname)
                | None \<Rightarrow> (take ext_index fname, drop ext_index fname)))"

definition dir_name :: "string \<Rightarrow> string" where
  "dir_name path = (case rfind folder_sep path of Some pos \<Rightarrow> take pos path | None \<Rightarrow> [])"

definition calc_filename :: "string \<Rightarrow> nat \<Rightarrow> string" where
  "calc_filename fname index =
     (if index = 0 then fname
      else case split_by_extension fname of (basename, ext) \<Rightarrow> basename @ ''.'' @ dec index @ ext)"

lemma split_by_extension_append: "fst (split_by_extension f) @ snd (split_by_extension f) = f"
  by (simp add: split_by_extension_def split: option.split)

text \<open>The examples of the comments in the code.\<close>

lemma split_by_extension_examples:
  "split_by_extension ''mylog.txt'' = (''mylog'', ''.txt'')"
  "split_by_extension ''mylog'' = (''mylog'', [])"
  "split_by_extension ''mylog.'' = (''mylog.'', [])"
  "split_by_extension ''/dir1/dir2/mylog.txt'' = (''/dir1/dir2/mylog'', ''.txt'')"
  "split_by_extension ''.mylog'' = (''.mylog'', [])"
  "split_by_extension ''my_folder/.mylog'' = (''my_folder/.mylog'', [])"
  "split_by_extension ''my_folder/.mylog.txt'' = (''my_folder/.mylog'', ''.txt'')"
  "split_by_extension ''/etc/rc.d/somelogfile'' = (''/etc/rc.d/somelogfile'', [])"
  by code_simp+

lemma calc_filename_inject: "calc_filename f i = calc_filename f j \<longleftrightarrow> i = j"
proof -
  obtain b e where be: "split_by_extension f = (b, e)" by fastforce
  then have f: "f = b @ e" using split_by_extension_append [of f] by simp
  have "length (b @ ''.'' @ dec k @ e) \<noteq> length (b @ e)" for k by simp
  then have "b @ ''.'' @ dec k @ e \<noteq> b @ e" for k by metis
  then show ?thesis using be unfolding calc_filename_def
    by (auto simp: f)
qed

lemma calc_filename_0 [simp]: "calc_filename f 0 = f"
  by (simp add: calc_filename_def)

section \<open>The rotating sink\<close>

record rotating_sink = file_helper +
  rs_base :: string
  rs_max_size :: nat
  rs_max_files :: nat
  rs_current_size :: nat

definition MaxFiles :: nat where "MaxFiles = 200000"

definition path_exists :: "string \<Rightarrow> 'x file_helper_scheme \<Rightarrow> bool" where
  "path_exists n s = (files s n \<noteq> None)"

definition os_remove :: "string \<Rightarrow> ('x file_helper_scheme, bool) io" where
  "os_remove n = io_bind sys_call (\<lambda>ok s.
     if ok \<and> path_exists n s then (Inr True, s\<lparr>files := (files s)(n := None)\<rparr>) else (Inr False, s))"

definition os_rename :: "string \<Rightarrow> string \<Rightarrow> ('x file_helper_scheme, bool) io" where
  "os_rename src target = io_bind sys_call (\<lambda>ok s.
     if ok \<and> path_exists src s
     then (Inr True, s\<lparr>files := (files s)(src := None, target := files s src)\<rparr>) else (Inr False, s))"

definition rename_file :: "string \<Rightarrow> string \<Rightarrow> ('x file_helper_scheme, bool) io" where
  "rename_file src target = io_bind (os_remove target) (\<lambda>_. os_rename src target)"

definition rename_failed :: "string \<Rightarrow> string \<Rightarrow> (rotating_sink, unit) io" where
  "rename_failed src target = io_bind (fh_reopen True) (\<lambda>_ s.
     io_throw (''rotating_file_sink: failed renaming '' @ src @ '' to '' @ target)
       (s\<lparr>rs_current_size := 0\<rparr>))"

fun rotate_loop :: "nat \<Rightarrow> (rotating_sink, unit) io" where
  "rotate_loop 0 s = (Inr (), s)"
| "rotate_loop (Suc i) s =
     (let src = calc_filename (rs_base s) i in
      if \<not> path_exists src s then rotate_loop i s
      else
        let target = calc_filename (rs_base s) (Suc i) in
        io_bind (rename_file src target) (\<lambda>ok.
          if ok then rotate_loop i
          else io_bind (rename_file src target) (\<lambda>ok.
                 if ok then rotate_loop i else rename_failed src target)) s)"

definition rotate :: "(rotating_sink, unit) io" where
  "rotate = io_bind fh_close (\<lambda>_ s.
     io_bind (rotate_loop (rs_max_files s)) (\<lambda>_. fh_reopen True) s)"

definition rs_open :: "string \<Rightarrow> nat \<Rightarrow> nat \<Rightarrow> bool \<Rightarrow> (rotating_sink, unit) io" where
  "rs_open base_filename max_size max_files rotate_on_open s =
     (let s = s\<lparr>fd := None, fh_name := [], rs_base := base_filename, rs_max_size := max_size,
               rs_max_files := max_files\<rparr> in
      if max_size = 0 then io_throw ''rotating sink constructor: max_size arg cannot be zero'' s
      else if max_files > MaxFiles
      then io_throw ''rotating sink constructor: max_files arg cannot exceed MaxFiles'' s
      else
        io_bind (fh_open (calc_filename base_filename 0) False) (\<lambda>_.
        io_bind fh_size (\<lambda>n s.
          let s = s\<lparr>rs_current_size := n\<rparr> in
          if rotate_on_open \<and> rs_current_size s > 0
          then io_bind rotate (\<lambda>_ s. (Inr (), s\<lparr>rs_current_size := 0\<rparr>)) s
          else (Inr (), s))) s)"

definition set_max_size :: "nat \<Rightarrow> (rotating_sink, unit) io" where
  "set_max_size n s =
     (if n = 0 then io_throw ''rotating sink set_max_size: max_size arg cannot be zero'' s
      else (Inr (), s\<lparr>rs_max_size := n\<rparr>))"

definition set_max_files :: "nat \<Rightarrow> (rotating_sink, unit) io" where
  "set_max_files n s =
     (if n > MaxFiles
      then io_throw ''rotating sink set_max_files: max_files arg cannot exceed 200000'' s
      else (Inr (), s\<lparr>rs_max_files := n\<rparr>))"

text \<open>\<open>sink_it_\<close> on the text that the formatter made of the message.\<close>

definition rs_sink_it :: "string \<Rightarrow> (rotating_sink, unit) io" where
  "rs_sink_it formatted s =
     (let new_size = (rs_current_size s + length formatted) mod 2 ^ 64 in
      io_bind
        (if new_size > rs_max_size s
         then io_bind fh_flush (\<lambda>_.
              io_bind fh_size (\<lambda>n.
              if n > 0 then io_bind rotate (\<lambda>_. io_return (length formatted))
              else io_return new_size))
         else io_return new_size)
        (\<lambda>new_size.
          io_bind (fh_write formatted) (\<lambda>_ s. (Inr (), s\<lparr>rs_current_size := new_size\<rparr>))) s)"

fun rs_log_all :: "string list \<Rightarrow> (rotating_sink, unit) io" where
  "rs_log_all [] = io_return ()"
| "rs_log_all (m # ms) = io_bind (rs_sink_it m) (\<lambda>_. rs_log_all ms)"


text \<open>
  \<open>rotate_now\<close>: the size counter of the sink is not reset.
\<close>

definition rotate_now :: "(rotating_sink, unit) io" where
  "rotate_now = rotate"

section \<open>Rotation when no system call fails\<close>

definition reliable :: "'x file_helper_scheme \<Rightarrow> bool" where
  "reliable s = (\<forall>n. \<not> fails s n)"

lemmas io_defs = io_bind_def io_return_def io_throw_def sys_call_def file_event_def store_file_def
  reliable_def content_def path_exists_def

lemma rename_reliable:
  assumes "reliable s" and "files s src = Some c" and "src \<noteq> target"
  obtains n where "rename_file src target s
    = (Inr True, s\<lparr>files := (files s)(src := None, target := Some c), calls := n\<rparr>)"
proof (cases "files s target")
  case None
  then show thesis using assms
    by (intro that [of "Suc (Suc (calls s))"])
      (simp add: rename_file_def os_remove_def os_rename_def io_defs)
next
  case (Some d)
  then show thesis using assms
    by (intro that [of "Suc (Suc (calls s))"])
      (simp add: rename_file_def os_remove_def os_rename_def io_defs fun_upd_twist)
qed

lemma rotate_loop_skip: "files s (calc_filename (rs_base s) i) = None \<Longrightarrow> rotate_loop (Suc i) s = rotate_loop i s"
  by (simp add: path_exists_def)

lemma rotate_loop_move:
  assumes "reliable s" and "files s (calc_filename (rs_base s) i) = Some c"
  obtains n where "rotate_loop (Suc i) s = rotate_loop i
    (s\<lparr>files := (files s)(calc_filename (rs_base s) i := None, calc_filename (rs_base s) (Suc i) := Some c),
       calls := n\<rparr>)"
proof (rule rename_reliable [OF assms])
  show "calc_filename (rs_base s) i \<noteq> calc_filename (rs_base s) (Suc i)"
    by (simp add: calc_filename_inject)
next
  fix n
  assume "rename_file (calc_filename (rs_base s) i) (calc_filename (rs_base s) (Suc i)) s
    = (Inr True, s\<lparr>files := (files s)(calc_filename (rs_base s) i := None,
         calc_filename (rs_base s) (Suc i) := Some c), calls := n\<rparr>)"
  with assms(2) show thesis by (intro that [of n]) (simp add: path_exists_def io_bind_Inr Let_def)
qed

text \<open>
  The loop moves every file to the next index. \<open>F\<close> gives the contents by index before the loop;
  there are no gaps in it.
\<close>

lemma rotate_loop_shifts:
  assumes "reliable s" and "\<And>j. j < i \<Longrightarrow> files s (calc_filename (rs_base s) j) = F j"
    and "\<And>j. F j = None \<Longrightarrow> F (Suc j) = None"
    and "0 < i \<Longrightarrow> F (i - 1) = None \<Longrightarrow> files s (calc_filename (rs_base s) i) = None"
  shows "\<exists>fs n. rotate_loop i s = (Inr (), s\<lparr>files := fs, calls := n\<rparr>)
    \<and> (\<forall>j. 1 \<le> j \<longrightarrow> j \<le> i \<longrightarrow> fs (calc_filename (rs_base s) j) = F (j - 1))
    \<and> (0 < i \<longrightarrow> fs (rs_base s) = None)
    \<and> (\<forall>x. (\<forall>j \<le> i. x \<noteq> calc_filename (rs_base s) j) \<longrightarrow> fs x = files s x)"
  using assms
proof (induction i arbitrary: s)
  case 0
  show ?case
    by (rule exI [of _ "files s"], rule exI [of _ "calls s"]) simp
next
  case (Suc i)
  let ?f = "calc_filename (rs_base s)"
  show ?case
  proof (cases "F i")
    case None
    then have empty: "files s (?f i) = None" "files s (?f (Suc i)) = None" using Suc.prems(2,4) by simp_all
    obtain fs n where IH: "rotate_loop i s = (Inr (), s\<lparr>files := fs, calls := n\<rparr>)"
        "\<And>j. 1 \<le> j \<Longrightarrow> j \<le> i \<Longrightarrow> fs (?f j) = F (j - 1)" "0 < i \<Longrightarrow> fs (rs_base s) = None"
        "\<And>x. (\<And>j. j \<le> i \<Longrightarrow> x \<noteq> ?f j) \<Longrightarrow> fs x = files s x"
      using Suc.IH [OF Suc.prems(1) _ Suc.prems(3)] Suc.prems(2) empty(1) by auto
    have "fs (?f (Suc i)) = F i" using IH(4) [of "?f (Suc i)"] empty(2) None
      by (simp add: calc_filename_inject)
    moreover have "fs (rs_base s) = None"
    proof (cases "i = 0")
      case True
      have "files (snd (rotate_loop i s)) = fs" by (simp add: IH(1))
      then show ?thesis using empty(1) True by simp
    qed (use IH(3) in simp)
    ultimately show ?thesis
      using rotate_loop_skip [OF empty(1)] IH
      by (intro exI [of _ fs] exI [of _ n]) (auto simp: le_Suc_eq)
  next
    case (Some c)
    then have "files s (?f i) = Some c" using Suc.prems(2) by simp
    then obtain m where step: "rotate_loop (Suc i) s = rotate_loop i
        (s\<lparr>files := (files s)(?f i := None, ?f (Suc i) := Some c), calls := m\<rparr>)" (is "_ = rotate_loop i ?s")
      by (rule rotate_loop_move [OF Suc.prems(1)])
    have "reliable ?s" using Suc.prems(1) by (simp add: reliable_def)
    then obtain fs n where IH: "rotate_loop i ?s = (Inr (), ?s\<lparr>files := fs, calls := n\<rparr>)"
        "\<And>j. 1 \<le> j \<Longrightarrow> j \<le> i \<Longrightarrow> fs (?f j) = F (j - 1)" "0 < i \<Longrightarrow> fs (rs_base s) = None"
        "\<And>x. (\<And>j. j \<le> i \<Longrightarrow> x \<noteq> ?f j) \<Longrightarrow> fs x = files ?s x"
      using Suc.IH [of ?s, OF _ _ Suc.prems(3)] Suc.prems(2)
      by (auto simp: calc_filename_inject)
    have "fs (?f (Suc i)) = F i" using IH(4) [of "?f (Suc i)"] Some
      by (simp add: calc_filename_inject)
    moreover have "fs (rs_base s) = None"
    proof (cases "i = 0")
      case True
      have "files (snd (rotate_loop i ?s)) = fs" by (simp add: IH(1))
      then have "fs = files ?s" using True by simp
      then show ?thesis using True calc_filename_inject [of "rs_base s" 0 1] by simp
    qed (use IH(3) in simp)
    ultimately show ?thesis
      using step IH
      by (intro exI [of _ fs] exI [of _ n]) (auto simp: le_Suc_eq)
  qed
qed


section \<open>The sink as a list of files\<close>

text \<open>
  The log as a list of the contents of all its files, the newest first: a message that would make
  a file that is not empty too long starts a new one.
\<close>

definition put_line :: "nat \<Rightarrow> string list \<Rightarrow> string \<Rightarrow> string list" where
  "put_line max_size L m =
     (if max_size < length (hd L) + length m \<and> hd L \<noteq> [] then m # L else (hd L @ m) # tl L)"

definition nth_opt :: "'a list \<Rightarrow> nat \<Rightarrow> 'a option" where
  "nth_opt xs i = (if i < length xs then Some (xs ! i) else None)"

lemma nth_opt_simps [simp]:
  "nth_opt (x # xs) 0 = Some x" "nth_opt (x # xs) (Suc i) = nth_opt xs i"
  "nth_opt [] i = None"
  by (simp_all add: nth_opt_def)

lemma nth_opt_no_gap: "nth_opt xs i = None \<Longrightarrow> nth_opt xs (Suc i) = None"
  by (simp add: nth_opt_def split: if_splits)

definition log_rep :: "rotating_sink \<Rightarrow> string list \<Rightarrow> bool" where
  "log_rep s L =
     (reliable s \<and> fh_name s = rs_base s \<and> rs_base s \<noteq> [] \<and> L \<noteq> []
      \<and> rs_current_size s = length (hd L)
      \<and> (\<exists>c p. fd s = Some p \<and> files s (rs_base s) = Some c \<and> c @ p = hd L)
      \<and> (\<forall>i. 1 \<le> i \<longrightarrow> i \<le> rs_max_files s \<longrightarrow> files s (calc_filename (rs_base s) i) = nth_opt L i))"

definition same_params :: "rotating_sink \<Rightarrow> rotating_sink \<Rightarrow> bool" where
  "same_params s s' = (rs_base s' = rs_base s \<and> rs_max_size s' = rs_max_size s
     \<and> rs_max_files s' = rs_max_files s)"

lemma same_params_refl [simp]: "same_params s s"
  by (simp add: same_params_def)

lemma same_params_trans: "same_params s t \<Longrightarrow> same_params t u \<Longrightarrow> same_params s u"
  by (simp add: same_params_def)

lemma log_repE:
  assumes "log_rep s L"
  obtains c p where "reliable s" "fh_name s = rs_base s" "rs_base s \<noteq> []" "L \<noteq> []"
    "rs_current_size s = length (hd L)" "fd s = Some p" "files s (rs_base s) = Some c" "c @ p = hd L"
    "\<And>i. 1 \<le> i \<Longrightarrow> i \<le> rs_max_files s \<Longrightarrow> files s (calc_filename (rs_base s) i) = nth_opt L i"
  using assms by (auto simp: log_rep_def)

lemma base_neq_name [simp]: "1 \<le> i \<Longrightarrow> calc_filename f i \<noteq> f" "1 \<le> i \<Longrightarrow> f \<noteq> calc_filename f i"
  using calc_filename_inject [of f i 0] by auto

text \<open>Flushing, writing and closing.\<close>

lemma flush_rep:
  assumes "log_rep s L"
  obtains s' where "fh_flush s = (Inr (), s')" and "log_rep s' L" and "same_params s s'"
    and "fd s' = Some []" and "files s' (rs_base s) = Some (hd L)"
  using assms
proof (rule log_repE)
  fix c p
  assume h: "reliable s" "fh_name s = rs_base s" "rs_base s \<noteq> []" "L \<noteq> []"
    "rs_current_size s = length (hd L)" "fd s = Some p" "files s (rs_base s) = Some c" "c @ p = hd L"
    "\<And>i. 1 \<le> i \<Longrightarrow> i \<le> rs_max_files s \<Longrightarrow> files s (calc_filename (rs_base s) i) = nth_opt L i"
  let ?s = "s\<lparr>calls := Suc (calls s), files := (files s)(rs_base s := Some (hd L)), fd := Some []\<rparr>"
  have "fh_flush s = (Inr (), ?s)" using h by (simp add: fh_flush_def io_defs)
  moreover have "log_rep ?s L" using h by (simp add: log_rep_def reliable_def)
  ultimately show thesis by (intro that [of ?s]) (simp_all add: same_params_def)
qed

lemma write_rep:
  assumes "log_rep s L"
  obtains s' where "fh_write m s = (Inr (), s')" and "same_params s s'"
    and "log_rep (s'\<lparr>rs_current_size := length (hd L @ m)\<rparr>) ((hd L @ m) # tl L)"
  using assms
proof (rule log_repE)
  fix c p
  assume h: "reliable s" "fh_name s = rs_base s" "rs_base s \<noteq> []" "L \<noteq> []"
    "rs_current_size s = length (hd L)" "fd s = Some p" "files s (rs_base s) = Some c" "c @ p = hd L"
    "\<And>i. 1 \<le> i \<Longrightarrow> i \<le> rs_max_files s \<Longrightarrow> files s (calc_filename (rs_base s) i) = nth_opt L i"
  let ?s = "s\<lparr>calls := Suc (calls s), fd := Some (p @ m)\<rparr>"
  have "nth_opt ((hd L @ m) # tl L) i = nth_opt L i" if "1 \<le> i" for i
    using h(4) that by (cases L; cases i) simp_all
  moreover have "fh_write m s = (Inr (), ?s)" using h by (simp add: fh_write_def io_defs)
  ultimately show thesis using h
    by (intro that [of ?s]) (auto simp: log_rep_def reliable_def same_params_def simp flip: append_assoc)
qed

lemma close_rep:
  assumes "log_rep s L"
  obtains ev n where "fh_close s = (Inr (), s\<lparr>files := (files s)(rs_base s := Some (hd L)), calls := n,
    events := ev, fd := None\<rparr>)"
  using assms
proof (rule log_repE)
  fix c p
  assume "reliable s" "fh_name s = rs_base s" "fd s = Some p" "files s (rs_base s) = Some c" "c @ p = hd L"
  then show thesis
    by (intro that [of "events s @ [Before_close (rs_base s), After_close (rs_base s)]" "Suc (calls s)"])
      (simp add: fh_close_def io_defs)
qed

lemma open_tries_Suc: "open_tries = Suc 4"
  by (simp add: open_tries_def)

lemma open_reliable:
  assumes "reliable s" and "fd s = None"
  obtains ev n where "fh_open f trunc s = (Inr (), s\<lparr>files := (files s)(f := Some (if trunc then [] else content f s)),
    calls := n, events := ev, fd := Some [], fh_name := f\<rparr>)"
proof (rule that [of "events s @ [Before_open f, After_open f]" "calls s + (if trunc then 2 else 1)"])
  show "fh_open f trunc s = (Inr (), s\<lparr>files := (files s)(f := Some (if trunc then [] else content f s)),
    calls := calls s + (if trunc then 2 else 1), events := events s @ [Before_open f, After_open f],
    fd := Some [], fh_name := f\<rparr>)"
    unfolding fh_open_def open_tries_Suc open_loop.simps using assms
    by (simp add: fh_close_def fopen_trunc_def fopen_append_def io_defs)
qed

text \<open>A rotation puts an empty file in front.\<close>

lemma rotate_rep:
  assumes "log_rep s L"
  obtains s' where "rotate s = (Inr (), s')" and "same_params s s'"
    and "log_rep (s'\<lparr>rs_current_size := 0\<rparr>) ([] # L)" and "rs_current_size s' = rs_current_size s"
proof -
  let ?f = "calc_filename (rs_base s)"
  obtain ev n where close: "fh_close s = (Inr (), s\<lparr>files := (files s)(rs_base s := Some (hd L)),
      calls := n, events := ev, fd := None\<rparr>)" (is "_ = (_, ?s)")
    by (rule close_rep [OF assms])
  have s: "reliable ?s" "fd ?s = None" "rs_base ?s = rs_base s" "fh_name ?s = rs_base s" "rs_base s \<noteq> []"
    using assms by (simp_all add: log_rep_def reliable_def)
  have now: "files ?s (?f j) = nth_opt L j" if "j \<le> rs_max_files s" for j
    using assms that by (cases j) (auto simp: log_rep_def nth_opt_def hd_conv_nth)
  have "files ?s (?f (rs_max_files s)) = None" if "0 < rs_max_files s" "nth_opt L (rs_max_files s - 1) = None"
    using now [of "rs_max_files s"] nth_opt_no_gap [OF that(2)] that(1) by simp
  then have "\<exists>fs k. rotate_loop (rs_max_files s) ?s = (Inr (), ?s\<lparr>files := fs, calls := k\<rparr>)
    \<and> (\<forall>j. 1 \<le> j \<longrightarrow> j \<le> rs_max_files s \<longrightarrow> fs (?f j) = nth_opt L (j - 1))"
    using rotate_loop_shifts [OF s(1), of "rs_max_files s" "nth_opt L", unfolded s(3), OF now nth_opt_no_gap]
    by auto
  then obtain fs k where loop: "rotate_loop (rs_max_files s) ?s = (Inr (), ?s\<lparr>files := fs, calls := k\<rparr>)"
      and fs: "\<And>j. 1 \<le> j \<Longrightarrow> j \<le> rs_max_files s \<Longrightarrow> fs (?f j) = nth_opt L (j - 1)"
    by blast
  let ?t = "?s\<lparr>files := fs, calls := k\<rparr>"
  have t: "reliable ?t" "fd ?t = None" using s(1) by (simp_all add: reliable_def)
  obtain ev' k' where reopen: "fh_open (rs_base s) True ?t = (Inr (), ?t\<lparr>files := fs(rs_base s := Some []),
      calls := k', events := ev', fd := Some [], fh_name := rs_base s\<rparr>)" (is "_ = (_, ?u)")
    by (rule open_reliable [OF t, of "rs_base s" True]) simp
  have "rotate s = fh_reopen True ?t" by (simp add: rotate_def io_bind_def close loop)
  also have "\<dots> = fh_open (rs_base s) True ?t" using s(4,5) by (simp add: fh_reopen_def)
  finally have "rotate s = (Inr (), ?u)" unfolding reopen .
  moreover have "log_rep (?u\<lparr>rs_current_size := 0\<rparr>) ([] # L)"
    using s fs by (auto simp: log_rep_def reliable_def Suc_le_eq gr0_conv_Suc)
  ultimately show thesis by (intro that [of ?u]) (simp_all add: same_params_def)
qed


lemma sink_it_rep:
  assumes "log_rep s L" and "length (hd L) + length m < 2 ^ 64"
  obtains s' where "rs_sink_it m s = (Inr (), s')" and "same_params s s'"
    and "log_rep s' (put_line (rs_max_size s) L m)"
proof -
  let ?n = "length (hd L) + length m"
  have n: "(rs_current_size s + length m) mod 2 ^ 64 = ?n"
    using assms by (simp add: log_rep_def)
  show thesis
  proof (cases "rs_max_size s < ?n")
    case False
    obtain t where t: "fh_write m s = (Inr (), t)" "same_params s t"
        "log_rep (t\<lparr>rs_current_size := ?n\<rparr>) ((hd L @ m) # tl L)"
      using write_rep [OF assms(1), of m] by auto
    show thesis
      by (rule that [of "t\<lparr>rs_current_size := ?n\<rparr>"])
        (use t False n in \<open>simp_all add: rs_sink_it_def Let_def io_bind_def put_line_def same_params_def\<close>)
  next
    case True
    obtain u where u: "fh_flush s = (Inr (), u)" "log_rep u L" "same_params s u" "fd u = Some []"
        "files u (rs_base s) = Some (hd L)"
      by (rule flush_rep [OF assms(1)])
    let ?v = "u\<lparr>calls := Suc (calls u)\<rparr>"
    have v: "fh_size u = (Inr (length (hd L)), ?v)" "log_rep ?v L" "same_params s ?v"
      using u by (auto simp: fh_size_def io_defs log_rep_def same_params_def)
    show thesis
    proof (cases "hd L = []")
      case empty: True
      obtain t where t: "fh_write m ?v = (Inr (), t)" "same_params ?v t"
          "log_rep (t\<lparr>rs_current_size := ?n\<rparr>) ((hd L @ m) # tl L)"
        using write_rep [OF v(2), of m] by auto
      show thesis
        by (rule that [of "t\<lparr>rs_current_size := ?n\<rparr>"])
          (use t u v True empty n in
            \<open>simp_all add: rs_sink_it_def Let_def io_bind_def put_line_def same_params_def\<close>)
    next
      case False
      obtain w where w: "rotate ?v = (Inr (), w)" "same_params ?v w"
          "log_rep (w\<lparr>rs_current_size := 0\<rparr>) ([] # L)"
        by (rule rotate_rep [OF v(2)])
      obtain t0 where t0: "fh_write m (w\<lparr>rs_current_size := 0\<rparr>) = (Inr (), t0)"
          "same_params (w\<lparr>rs_current_size := 0\<rparr>) t0"
          "log_rep (t0\<lparr>rs_current_size := length m\<rparr>) (m # L)"
        using write_rep [OF w(3), of m] by auto
      have "\<exists>t. fh_write m w = (Inr (), t) \<and> t\<lparr>rs_current_size := length m\<rparr> = t0\<lparr>rs_current_size := length m\<rparr>"
        using t0(1) w(3) by (auto simp: fh_write_def io_defs log_rep_def)
      then obtain t where t: "fh_write m w = (Inr (), t)"
          "t\<lparr>rs_current_size := length m\<rparr> = t0\<lparr>rs_current_size := length m\<rparr>" by blast
      show thesis
      proof (rule that [of "t\<lparr>rs_current_size := length m\<rparr>"])
        show "rs_sink_it m s = (Inr (), t\<lparr>rs_current_size := length m\<rparr>)"
          using True False n u(1) v(1) w(1) t(1)
          by (simp add: rs_sink_it_def Let_def io_bind_def)
        show "same_params s (t\<lparr>rs_current_size := length m\<rparr>)"
          unfolding t(2) using v(3) w(2) t0(2) by (simp add: same_params_def)
        show "log_rep (t\<lparr>rs_current_size := length m\<rparr>) (put_line (rs_max_size s) L m)"
          unfolding t(2) using t0(3) True False by (simp add: put_line_def)
      qed
    qed
  qed
qed

text \<open>What the list of files promises.\<close>

lemma put_line_keeps:
  assumes "L \<noteq> []"
  shows "concat (rev (put_line n L m)) = concat (rev L) @ m" and "put_line n L m \<noteq> []"
    and "f \<in> set (put_line n L m) \<Longrightarrow> f \<in> set L \<or> f = m \<or> length f \<le> n"
  using assms by (cases L; auto simp: put_line_def split: if_splits)+

lemma put_lines_keep:
  assumes "L \<noteq> []"
  shows "concat (rev (foldl (put_line n) L ms)) = concat (rev L) @ concat ms"
    and "f \<in> set (foldl (put_line n) L ms) \<Longrightarrow> f \<in> set L \<or> f \<in> set ms \<or> length f \<le> n"
  using assms
proof (induction ms arbitrary: L)
  case Nil
  {
    case 1 then show ?case by simp
  next
    case 2 then show ?case by simp
  }
next
  case (Cons m ms)
  {
    case 1
    then show ?case using Cons.IH(1) [OF put_line_keeps(2), of L n m] put_line_keeps(1) [of L n m] by simp
  next
    case 2
    then show ?case using Cons.IH(2) [OF _ put_line_keeps(2), of n L m] put_line_keeps(3) [of L f n m]
      by auto
  }
qed

lemma log_all_rep:
  assumes "log_rep s L" and "\<forall>m \<in> set ms. length m < 2 ^ 63" and "rs_max_size s < 2 ^ 63"
    and "length (hd L) < 2 ^ 63"
  shows "\<exists>s'. rs_log_all ms s = (Inr (), s') \<and> same_params s s'
    \<and> log_rep s' (foldl (put_line (rs_max_size s)) L ms)"
  using assms
proof (induction ms arbitrary: s L)
  case Nil
  then show ?case by simp
next
  case (Cons m ms)
  have ne: "L \<noteq> []" using Cons.prems(1) by (simp add: log_rep_def)
  have "length (hd L) + length m < 2 ^ 64" using Cons.prems(2,4) by simp
  then obtain t where t: "rs_sink_it m s = (Inr (), t)" "same_params s t"
      "log_rep t (put_line (rs_max_size s) L m)"
    by (rule sink_it_rep [OF Cons.prems(1)])
  have "length (hd (put_line (rs_max_size s) L m)) < 2 ^ 63"
    using Cons.prems(2,3,4) by (auto simp: put_line_def)
  with Cons.IH [of t "put_line (rs_max_size s) L m"] t Cons.prems(2,3) show ?case
    by (auto simp: io_bind_def same_params_def)
qed

lemma open_rep:
  assumes "reliable s" and "base \<noteq> []" and "0 < max_size" and "max_files \<le> MaxFiles"
    and "\<forall>i \<le> max_files. files s (calc_filename base i) = None"
  shows "\<exists>s'. rs_open base max_size max_files r s = (Inr (), s') \<and> log_rep s' [[]]
    \<and> rs_base s' = base \<and> rs_max_size s' = max_size \<and> rs_max_files s' = max_files"
proof -
  let ?s = "s\<lparr>fd := None, fh_name := [], rs_base := base, rs_max_size := max_size, rs_max_files := max_files\<rparr>"
  have new: "files s base = None" using assms(5) spec [OF assms(5), of 0] by simp
  have "reliable ?s" "fd ?s = None" using assms(1) by (simp_all add: reliable_def)
  then obtain ev n where "fh_open base False ?s = (Inr (), ?s\<lparr>files := (files s)(base := Some []),
      calls := n, events := ev, fd := Some [], fh_name := base\<rparr>)" (is "_ = (_, ?t)")
    using open_reliable [of ?s base False] new by (auto simp: content_def)
  moreover have "fh_size ?t = (Inr 0, ?t\<lparr>calls := Suc n\<rparr>)"
    using assms(1) by (simp add: fh_size_def io_defs)
  ultimately have "rs_open base max_size max_files r s = (Inr (), ?t\<lparr>calls := Suc n, rs_current_size := 0\<rparr>)"
    using assms(3,4) by (simp add: rs_open_def Let_def io_bind_def)
  moreover have "log_rep (?t\<lparr>calls := Suc n, rs_current_size := 0\<rparr>) [[]]"
    using assms by (simp add: log_rep_def reliable_def nth_opt_def)
  ultimately show ?thesis by auto
qed

section \<open>The property of the sink\<close>

text \<open>
  C30. When no system call fails and none of its files exists, a sink that logs the texts \<open>ms\<close> and is
  flushed leaves exactly the newest files of the list that \<open>put_line\<close> describes: file \<open>i\<close> holds
  its \<open>i\<close>-th element, and no more than \<open>max_files + 1\<close> files exist. The list as a whole is the
  log: oldest first it reads as all texts in order, so that only whole files, the oldest, are lost,
  and no file is longer than \<open>max_size\<close> unless it is one single text.
\<close>

theorem rotating_sink_keeps_the_newest_files:
  assumes "reliable s" and "base \<noteq> []" and "0 < max_size" and "max_size < 2 ^ 63"
    and "max_files \<le> MaxFiles" and "\<forall>i \<le> max_files. files s (calc_filename base i) = None"
    and "\<forall>m \<in> set ms. length m < 2 ^ 63" and "L = foldl (put_line max_size) [[]] ms"
  shows "\<exists>s'. io_bind (rs_open base max_size max_files r) (\<lambda>_.
            io_bind (rs_log_all ms) (\<lambda>_. fh_flush)) s = (Inr (), s')
          \<and> (\<forall>i \<le> max_files. files s' (calc_filename base i) = (if i < length L then Some (L ! i) else None))
          \<and> concat (rev L) = concat ms \<and> (\<forall>f \<in> set L. length f \<le> max_size \<or> f \<in> set ms)"
proof -
  obtain s0 where s0: "rs_open base max_size max_files r s = (Inr (), s0)" "log_rep s0 [[]]"
      "rs_base s0 = base" "rs_max_size s0 = max_size" "rs_max_files s0 = max_files"
    using open_rep [OF assms(1,2,3,5,6), of r] by blast
  obtain s1 where s1: "rs_log_all ms s0 = (Inr (), s1)" "same_params s0 s1" "log_rep s1 L"
    using log_all_rep [OF s0(2) assms(7)] assms(4) unfolding s0(4) assms(8) by auto
  obtain s2 where s2: "fh_flush s1 = (Inr (), s2)" "log_rep s2 L" "same_params s1 s2"
      "files s2 (rs_base s1) = Some (hd L)"
    by (rule flush_rep [OF s1(3)])
  have "files s2 (calc_filename base i) = nth_opt L i" if "i \<le> max_files" for i
    using that s2 s1(2) s0(3,5)
    by (cases i) (auto simp: log_rep_def same_params_def nth_opt_def hd_conv_nth)
  moreover have "concat (rev L) = concat ms"
    using put_lines_keep(1) [of "[[]]" max_size ms] unfolding assms(8) by simp
  moreover have "length f \<le> max_size \<or> f \<in> set ms" if "f \<in> set L" for f
    using put_lines_keep(2) [of "[[]]" f max_size ms] that unfolding assms(8) by auto
  ultimately show ?thesis
    using s0(1) s1(1) s2(1) by (simp add: io_bind_def nth_opt_def)
qed

definition empty_disk :: rotating_sink where
  "empty_disk = \<lparr>files = (\<lambda>_. None), fails = (\<lambda>_. False), calls = 0, events = [], fd = None,
     fh_name = [], rs_base = [], rs_max_size = 0, rs_max_files = 0, rs_current_size = 0\<rparr>"

theorem rotating_sink_keeps_the_newest_files_witness:
  "\<exists>s'. io_bind (rs_open ''a.log'' 4 1 False) (\<lambda>_.
        io_bind (rs_log_all [''one'', ''two'', ''3'', ''four!'']) (\<lambda>_. fh_flush)) empty_disk = (Inr (), s')
      \<and> files s' ''a.log'' = Some ''four!'' \<and> files s' ''a.1.log'' = Some ''two3''"
proof -
  let ?L = "foldl (put_line 4) [[]] [''one'', ''two'', ''3'', ''four!'']"
  have L: "?L = [''four!'', ''two3'', ''one'']" by code_simp
  have names: "calc_filename ''a.log'' 0 = ''a.log''" "calc_filename ''a.log'' 1 = ''a.1.log''"
    by code_simp+
  have pre: "reliable empty_disk" "\<forall>i \<le> 1. files empty_disk (calc_filename ''a.log'' i) = None"
    by (simp_all add: empty_disk_def reliable_def)
  obtain s' where "io_bind (rs_open ''a.log'' 4 1 False) (\<lambda>_.
        io_bind (rs_log_all [''one'', ''two'', ''3'', ''four!'']) (\<lambda>_. fh_flush)) empty_disk = (Inr (), s')"
      and "\<forall>i \<le> 1. files s' (calc_filename ''a.log'' i) = (if i < length ?L then Some (?L ! i) else None)"
    using rotating_sink_keeps_the_newest_files [OF pre(1) _ _ _ _ pre(2), of 4
        "[''one'', ''two'', ''3'', ''four!'']" _ False]
    by (auto simp: MaxFiles_def)
  then show ?thesis using names unfolding L by (auto dest: spec [of _ 0] spec [of _ 1])
qed

text \<open>
  After \<open>rotate_now\<close> the current file is empty, but the sink believes it to be as long as the one
  before: the next rotation comes too early.
\<close>

lemma rotate_now_keeps_the_old_size:
  assumes "log_rep s L"
  obtains s' where "rotate_now s = (Inr (), s')" and "content (rs_base s') s' = []"
    and "rs_current_size s' = length (hd L)"
  unfolding rotate_now_def using assms
  by (rule rotate_rep) (use assms in \<open>auto simp: log_rep_def content_def intro: that [unfolded rotate_now_def]\<close>)

end
