(* ===== verification/Serializer_Types.thy ===== *)
theory Serializer_Types
  imports Serializer_Props
begin

text \<open>
  Type soundness of reading: whatever the bytes are, a value that \<open>deserialize\<close> puts into a
  fresh object of a type is a value of this type. So numbers fit their width, enumerators their
  underlying type, and containers the limit of the reader.
\<close>

section \<open>Results that satisfy a predicate\<close>

definition yields :: "('a \<Rightarrow> bool) \<Rightarrow> fault + ('a \<times> int) \<Rightarrow> bool" where
  "yields Q r = (case r of Inl _ \<Rightarrow> True | Inr (v, p) \<Rightarrow> Q v)"

lemma yields_simps [simp]: "yields Q (Inl e)" "yields Q (Inr (v, p)) \<longleftrightarrow> Q v"
  by (simp_all add: yields_def)

lemma yieldsD: "yields Q r \<Longrightarrow> r = Inr (v, p) \<Longrightarrow> Q v"
  by simp

lemma yields_andthen:
  assumes "yields R r" and "\<And>v p. r = Inr (v, p) \<Longrightarrow> R v \<Longrightarrow> yields Q (f (v, p))"
  shows "yields Q (andthen r f)"
  using assms by (cases r) auto

lemma yields_True: "yields (\<lambda>_. True) r"
  by (simp add: yields_def split: sum.split)

lemma yields_map:
  "yields R r \<Longrightarrow> (\<And>v. R v \<Longrightarrow> Q (g v)) \<Longrightarrow> yields Q (andthen r (\<lambda>(v, p). Inr (g v, p)))"
  by (auto intro: yields_andthen)

lemma yields_check: "(b \<Longrightarrow> yields Q (f ())) \<Longrightarrow> yields Q (andthen (check e b) f)"
  by (cases b) simp_all

section \<open>Leaves\<close>

lemma obj_value_less: "obj_value e bs < 256 ^ length bs"
  using of_le_bound [of bs] of_le_bound [of "rev bs"] by (simp add: obj_value_def split: endian.split)

lemma byteswap_less: "byteswap n v < 256 ^ n"
  using of_le_bound [of "rev (le_bytes n v)"] by (simp add: byteswap_def)

lemma mem_read_length: "mem_read buf pos n = Inr bs \<Longrightarrow> length bs = n"
  by (auto simp: mem_read_def split: if_splits)

lemma yields_fundamental: "yields (\<lambda>v. v < 256 ^ n) (des_fundamental e n len buf pos)"
proof (cases "mem_read buf pos n")
  case (Inr bs)
  then show ?thesis
    using obj_value_less [of _ bs] mem_read_length [OF Inr] byteswap_less
    by (simp add: des_fundamental_def Let_def split: endian.split)
qed (simp add: des_fundamental_def split: endian.split)

lemma yields_int64: "yields in_i64 (des_int64 e len buf pos)"
  by (simp add: yields_def des_int64_range split: sum.split)

lemma enum_of_int64_idem:
  "1 \<le> n \<Longrightarrow> enum_of_int64 sg n (enum_of_int64 sg n x) = enum_of_int64 sg n x"
  by (simp add: enum_of_int64_def mod_simps)

lemma yields_error: "yields (\<lambda>err. enum_of_int64 True 4 err = err) (des_error e len buf pos)"
  unfolding des_error_def by (rule yields_andthen [OF yields_fundamental]) (simp add: enum_of_int64_idem)

lemma small_size: "in_i64 sz \<Longrightarrow> to_u64 sz \<le> int cap \<Longrightarrow> cap < 4611686018427387904
  \<Longrightarrow> to_u64 sz = sz \<and> nat sz \<le> cap"
  using to_u64_neg [of sz] by (cases "sz < 0") (auto simp: in_i64_def)

lemma yields_chars:
  assumes "in_i64 str_len" and "cd_cap c < 4611686018427387904"
  shows "yields (\<lambda>cs. length cs \<le> cd_cap c) (des_chars c str_len len buf pos)"
  unfolding des_chars_def container_alloc_def
proof (rule yields_check)
  assume "to_u64 str_len \<le> int (cd_cap c)"
  with small_size [OF assms(1) this assms(2)]
  show "yields (\<lambda>cs. length cs \<le> cd_cap c)
      (if \<not> in_i64 (pos + str_len) then Inl Ub_overflow
       else if pos + str_len > len then Inl Out_of_range
       else andthen (mem_read buf pos (nat (to_u64 str_len))) (\<lambda>cs. Inr (cs, pos + str_len)))"
    by (cases "mem_read buf pos (nat (to_u64 str_len))") (simp_all add: mem_read_length)
qed

section \<open>Soundness\<close>

text \<open>Types whose numbers and enums have sizes of C++.\<close>

fun sized_ty :: "cty \<Rightarrow> bool" where
  "sized_ty (TNum n) = (n \<le> 16)"
| "sized_ty (TEnum sg n) = (1 \<le> n \<and> n \<le> 8)"
| "sized_ty (TPtr t) = sized_ty t"
| "sized_ty (TVector t) = sized_ty t"
| "sized_ty (TRange t) = sized_ty t"
| "sized_ty (TStruct ts) = (\<forall>t \<in> set ts. sized_ty t)"
| "sized_ty (TExpected t) = sized_ty t"
| "sized_ty _ = True"

lemma reader_soundness:
  assumes cap: "cd_cap c < 4611686018427387904"
  shows deserialize_sound_aux:
      "sized_ty t \<Longrightarrow> old = init_val c t \<Longrightarrow> yields (has_ty (cd_cap c) t) (deserialize c t old len buf pos)"
    and des_elems_sound_aux:
      "sized_ty t \<Longrightarrow> \<forall>v \<in> set acc. has_ty (cd_cap c) t v \<Longrightarrow>
       yields (\<lambda>vs. length vs = length acc + n \<and> (\<forall>v \<in> set vs. has_ty (cd_cap c) t v))
         (des_elems c t n acc len buf pos)"
    and des_members_sound_aux:
      "\<forall>t \<in> set ts. sized_ty t \<Longrightarrow> olds = map (init_val c) ts \<Longrightarrow>
       yields (has_tys (cd_cap c) ts) (des_members c ts olds len buf pos)"
  using cap
proof (induction c t old len buf pos and c t n acc len buf pos and c ts olds len buf pos
    rule: deserialize_des_elems_des_members.induct)
  case (1 c t old len buf pos)
  then show ?case by (auto intro!: yields_andthen [OF yields_True] yields_map)
next
  case (2 c sg n old len buf pos)
  then show ?case
    by (auto intro!: yields_andthen [OF yields_int64] simp: enum_of_int64_idem)
next
  case (3 c old len buf pos)
  then show ?case by (auto intro!: yields_andthen [OF yields_True])
next
  case (4 c n old len buf pos)
  then show ?case by (auto intro!: yields_andthen [OF yields_fundamental])
next
  case (5 c k old len buf pos)
  then show ?case by (auto intro!: yields_map [OF yields_True])
next
  case (6 c old len buf pos)
  show ?case
    unfolding deserialize.simps
  proof (rule yields_andthen [OF yields_int64], unfold prod.case)
    fix str_len p
    assume "in_i64 str_len"
    then show "yields (has_ty (cd_cap c) TString)
      (andthen (des_chars c str_len len buf p) (\<lambda>(cs, p). Inr (VString cs, p)))"
      using 6(3) by (auto intro!: yields_map [OF yields_chars])
  qed
next
  case (7 c t old len buf pos)
  show ?case
  proof -
    have "yields (has_ty (cd_cap c) (TVector t)) (andthen (container_alloc c sz) (\<lambda>_.
        andthen (des_elems c t (nat sz) [] len buf p) (\<lambda>(vs, p). Inr (VSeq vs, p))))"
      if sz: "des_int64 (cd_endian c) len buf pos = Inr (sz, p)" "in_i64 sz" for sz p
      unfolding container_alloc_def
    proof (rule yields_check)
      assume "to_u64 sz \<le> int (cd_cap c)"
      from small_size [OF sz(2) this 7(4)] have n: "nat sz \<le> cd_cap c" by simp
      have "yields (\<lambda>vs. length vs = length [] + nat sz \<and> (\<forall>v \<in> set vs. has_ty (cd_cap c) t v))
        (des_elems c t (nat sz) [] len buf p)"
        using 7 sz(1) \<open>to_u64 sz \<le> int (cd_cap c)\<close> by (auto simp: container_alloc_def)
      then show "yields (has_ty (cd_cap c) (TVector t))
        (andthen (des_elems c t (nat sz) [] len buf p) (\<lambda>(vs, p). Inr (VSeq vs, p)))"
        by (rule yields_andthen) (use n 7(4) in auto)
    qed
    then show ?thesis using 7(3) by (auto intro!: yields_andthen [OF yields_int64] simp del: has_ty.simps)
  qed
next
  case (8 c t old len buf pos)
  then show ?case by simp
next
  case (9 c ts old len buf pos)
  then show ?case by (auto intro!: yields_map)
next
  case (10 c old len buf pos)
  then show ?case by (auto intro!: yields_andthen [OF yields_error])
next
  case (11 c t old len buf pos)
  then show ?case by (auto intro!: yields_andthen [OF yields_True] yields_map)
next
  case (12 c t n acc len buf pos)
  then show ?case by (cases n) (auto intro!: yields_andthen)
next
  case (13 c ts olds len buf pos)
  show ?case
  proof (cases ts)
    case (Cons t ts')
    have "yields (has_ty (cd_cap c) t) (deserialize c t (init_val c t) len buf pos)"
      using 13 by (simp add: Cons)
    then have "yields (has_tys (cd_cap c) (t # ts')) (des_members c (t # ts') (map (init_val c) (t # ts')) len buf pos)"
      unfolding list.map des_members_simps
    proof (rule yields_andthen, unfold prod.case)
      fix v p
      assume "deserialize c t (init_val c t) len buf pos = Inr (v, p)" and v: "has_ty (cd_cap c) t v"
      then have "yields (has_tys (cd_cap c) ts') (des_members c ts' (map (init_val c) ts') len buf p)"
        using 13 by (simp add: Cons)
      then show "yields (has_tys (cd_cap c) (t # ts'))
          (andthen (des_members c ts' (map (init_val c) ts') len buf p) (\<lambda>(ws, p). Inr (v # ws, p)))"
        by (rule yields_map) (simp add: v)
    qed
    then show ?thesis using 13 by (simp only: Cons)
  qed (use 13 in simp)
qed

text \<open>
  C29. Whatever the bytes are, a value that reading puts into a default constructed object of type
  \<open>t\<close> is a value of type \<open>t\<close>: every number and enumerator in it fits its width, every string
  and vector the container limit, every struct has its members.
\<close>

theorem deserialize_well_typed:
  assumes "cd_cap c < 4611686018427387904" and "sized_ty t"
    and "deserialize c t (init_val c t) len buf pos = Inr (v, p)"
  shows "has_ty (cd_cap c) t v"
  using yieldsD [OF deserialize_sound_aux [OF assms(1,2) refl] assms(3)] .

theorem deserialize_well_typed_witness:
  "has_ty 1000 (TStruct [TEnum True 1, TString]) (VStruct [VEnum (- 1), VString [65]])"
proof -
  have "deserialize (std_codec Little) (TStruct [TEnum True 1, TString])
      (init_val (std_codec Little) (TStruct [TEnum True 1, TString])) 17
      [255, 0, 0, 0, 0, 0, 0, 0, 1, 0, 0, 0, 0, 0, 0, 0, 65] 0
    = Inr (VStruct [VEnum (- 1), VString [65]], 17)"
    by code_simp
  from deserialize_well_typed [OF _ _ this] show ?thesis by (simp add: std_codec_def)
qed

end
