(* ===== verification/Spdlog_Async.thy ===== *)
theory Spdlog_Async
  imports Spdlog_Logger Spdlog_Mpmc
begin

text \<open>
  Asynchronous logging (\<open>details/thread_pool*.h\<close>, \<open>async_logger*.h\<close>): a logger posts its messages to
  the queue of a thread pool and a worker thread hands them to the sinks. The queue is the blocking
  queue of theory \<open>Spdlog_Mpmc\<close>; a call that waits for room, or for a message, has the value
  \<open>None\<close> in this state. The model has one worker thread, as the pool that the factory
  \<open>async.h\<close> creates; what the worker does with a message touches nothing that another thread
  uses, so taking and handling a message is one step.
\<close>

section \<open>Messages and state\<close>

datatype async_msg_type = Log | Flush | Terminate

datatype async_overflow_policy = block | overrun_oldest | discard_new

record async_msg =
  msg_type :: async_msg_type
  worker_ptr :: "nat option"
  msg_buffer :: log_msg_buffer

text \<open>
  The pool is gone when its queue is \<open>None\<close>; \<open>as_running\<close> says that the worker thread is in its
  loop. A logger is an object at an address, with its overflow policy.
\<close>

record 's async_state =
  as_loggers :: "nat \<Rightarrow> logger"
  as_policy :: "nat \<Rightarrow> async_overflow_policy"
  as_queue :: "async_msg mpmc option"
  as_running :: bool
  as_world :: "'s log_world"

definition async_log_msg :: "nat \<Rightarrow> log_msg \<Rightarrow> async_msg" where
  "async_log_msg a m = \<lparr>msg_type = Log, worker_ptr = Some a, msg_buffer = log_msg_buffer_of m\<rparr>"

definition async_flush_msg :: "nat \<Rightarrow> async_msg" where
  "async_flush_msg a = \<lparr>msg_type = Flush, worker_ptr = Some a, msg_buffer = empty_msg\<rparr>"

definition async_terminate_msg :: async_msg where
  "async_terminate_msg = \<lparr>msg_type = Terminate, worker_ptr = None, msg_buffer = empty_msg\<rparr>"

section \<open>Front end\<close>

definition post_async_msg ::
    "async_msg \<Rightarrow> async_overflow_policy \<Rightarrow> async_msg mpmc \<Rightarrow> async_msg mpmc_result" where
  "post_async_msg new_msg overflow_policy qu =
     (if overflow_policy = block then enqueue qu new_msg
      else if overflow_policy = overrun_oldest then enqueue_nowait qu new_msg
      else enqueue_if_have_room qu new_msg)"

definition post_to_pool ::
    "async_msg \<Rightarrow> async_overflow_policy \<Rightarrow> async_msg mpmc \<Rightarrow> 's async_state \<Rightarrow> (fault + 's async_state) option" where
  "post_to_pool m policy qu s =
     seq_opt (post_async_msg m policy qu) (\<lambda>(q', _). Some (Inr (s\<lparr>as_queue := Some q'\<rparr>)))"

definition pool_gone :: string where
  "pool_gone = '': thread pool doesn'' @ CHR 0x27 # ''t exist anymore''"

text \<open>\<open>sink_it_\<close> and \<open>flush_\<close> of the asynchronous logger at address \<open>a\<close>.\<close>

definition async_sink_it :: "int \<Rightarrow> nat \<Rightarrow> log_msg \<Rightarrow> 's async_state \<Rightarrow> (fault + 's async_state) option" where
  "async_sink_it now a msg s =
     (case as_queue s of
        Some qu \<Rightarrow> post_to_pool (async_log_msg a msg) (as_policy s a) qu s
      | None \<Rightarrow> Some (Inr (s\<lparr>as_world := handle_exception (as_loggers s a) now (source msg)
                  (Some (''async log'' @ pool_gone)) (as_world s)\<rparr>)))"

definition async_flush :: "int \<Rightarrow> nat \<Rightarrow> 's async_state \<Rightarrow> (fault + 's async_state) option" where
  "async_flush now a s =
     (case as_queue s of
        Some qu \<Rightarrow> post_to_pool (async_flush_msg a) (as_policy s a) qu s
      | None \<Rightarrow> Some (Inr (s\<lparr>as_world := handle_exception (as_loggers s a) now no_source
                  (Some (''async flush'' @ pool_gone)) (as_world s)\<rparr>)))"

text \<open>The destructor of the pool posts one message per thread that ends it.\<close>

definition post_terminate :: "'s async_state \<Rightarrow> (fault + 's async_state) option" where
  "post_terminate s =
     (case as_queue s of
        Some qu \<Rightarrow> post_to_pool async_terminate_msg block qu s
      | None \<Rightarrow> Some (Inl Ub_null_deref))"

section \<open>Back end\<close>

definition backend_flush :: "'s sink_ops \<Rightarrow> logger \<Rightarrow> int \<Rightarrow> 's log_world \<Rightarrow> 's log_world" where
  "backend_flush ops lg now w = fold (flush_one ops lg now) (lg_sinks lg) w"

definition backend_sink_it :: "'s sink_ops \<Rightarrow> logger \<Rightarrow> int \<Rightarrow> log_msg \<Rightarrow> 's log_world \<Rightarrow> 's log_world" where
  "backend_sink_it ops lg now msg w =
     (let w = fold (sink_one ops lg now msg) (lg_sinks lg) w in
      if should_flush lg msg then backend_flush ops lg now w else w)"

text \<open>The result says whether the thread stays in its loop.\<close>

definition process_next_msg ::
    "'s sink_ops \<Rightarrow> int \<Rightarrow> async_msg mpmc \<Rightarrow> 's async_state \<Rightarrow> (fault + (bool \<times> 's async_state)) option" where
  "process_next_msg ops now qu s =
     seq_opt (dequeue qu) (\<lambda>(q', out).
       case out of
         Popped m \<Rightarrow>
           (let s = s\<lparr>as_queue := Some q'\<rparr> in
            case msg_type m of
              Log \<Rightarrow>
                (case worker_ptr m of
                   Some a \<Rightarrow> Some (Inr (True, s\<lparr>as_world :=
                     backend_sink_it ops (as_loggers s a) now (base (msg_buffer m)) (as_world s)\<rparr>))
                 | None \<Rightarrow> Some (Inl Ub_null_deref))
            | Flush \<Rightarrow>
                (case worker_ptr m of
                   Some a \<Rightarrow> Some (Inr (True, s\<lparr>as_world :=
                     backend_flush ops (as_loggers s a) now (as_world s)\<rparr>))
                 | None \<Rightarrow> Some (Inl Ub_null_deref))
            | Terminate \<Rightarrow> Some (Inr (False, s)))
       | _ \<Rightarrow> Some (Inl Assert_failed))"

text \<open>One round of \<open>worker_loop_\<close>; a worker that has left its loop does nothing more.\<close>

definition worker_round :: "'s sink_ops \<Rightarrow> int \<Rightarrow> 's async_state \<Rightarrow> (fault + 's async_state) option" where
  "worker_round ops now s =
     (if as_running s
      then (case as_queue s of
              Some qu \<Rightarrow> seq_opt (process_next_msg ops now qu s) (\<lambda>(active, s). Some (Inr (s\<lparr>as_running := active\<rparr>)))
            | None \<Rightarrow> Some (Inl Ub_null_deref))
      else None)"

section \<open>Executions\<close>

datatype async_event =
    Post int nat log_msg      \<comment> \<open>time, logger, message\<close>
  | Post_flush int nat
  | Post_terminate
  | Work int

fun async_do :: "'s sink_ops \<Rightarrow> async_event \<Rightarrow> 's async_state \<Rightarrow> (fault + 's async_state) option" where
  "async_do ops (Post now a m) s = async_sink_it now a m s"
| "async_do ops (Post_flush now a) s = async_flush now a s"
| "async_do ops Post_terminate s = post_terminate s"
| "async_do ops (Work now) s = worker_round ops now s"

inductive async_run :: "'s sink_ops \<Rightarrow> 's async_state \<Rightarrow> async_event list \<Rightarrow> 's async_state \<Rightarrow> bool" for ops where
  start: "async_run ops s [] s"
| step: "async_run ops s0 tr s \<Longrightarrow> async_do ops e s = Some (Inr s') \<Longrightarrow> async_run ops s0 (tr @ [e]) s'"

text \<open>What was posted, and the times at which the worker took messages.\<close>

definition posts :: "async_event list \<Rightarrow> async_event list" where
  "posts tr = filter (\<lambda>e. case e of Work _ \<Rightarrow> False | _ \<Rightarrow> True) tr"

definition works :: "async_event list \<Rightarrow> int list" where
  "works tr = concat (map (\<lambda>e. case e of Work now \<Rightarrow> [now] | _ \<Rightarrow> []) tr)"

text \<open>What a synchronous logger would do for a request.\<close>

fun sync_effect :: "'s sink_ops \<Rightarrow> (nat \<Rightarrow> logger) \<Rightarrow> int \<times> async_event \<Rightarrow> 's log_world \<Rightarrow> 's log_world" where
  "sync_effect ops lgs (now, Post t a m) w = sink_it ops (lgs a) now m w"
| "sync_effect ops lgs (now, Post_flush t a) w = flush_sinks ops (lgs a) now w"
| "sync_effect ops lgs (now, _) w = w"

fun event_msg :: "async_event \<Rightarrow> async_msg" where
  "event_msg (Post t a m) = async_log_msg a m"
| "event_msg (Post_flush t a) = async_flush_msg a"
| "event_msg _ = async_terminate_msg"

lemma backend_flush_is_sync [simp]: "backend_flush ops lg now w = flush_sinks ops lg now w"
  by (simp add: backend_flush_def flush_sinks_def)

lemma backend_sink_is_sync [simp]: "backend_sink_it ops lg now m w = sink_it ops lg now m w"
  by (simp add: backend_sink_it_def sink_it_def Let_def)

lemma trace_snoc [simp]:
  "posts (tr @ [Post t a m]) = posts tr @ [Post t a m]" "works (tr @ [Post t a m]) = works tr"
  "posts (tr @ [Post_flush t a]) = posts tr @ [Post_flush t a]" "works (tr @ [Post_flush t a]) = works tr"
  "posts (tr @ [Post_terminate]) = posts tr @ [Post_terminate]" "works (tr @ [Post_terminate]) = works tr"
  "posts (tr @ [Work now]) = posts tr" "works (tr @ [Work now]) = works tr @ [now]"
  by (simp_all add: posts_def works_def)

section \<open>Asynchronous logging does what synchronous logging does\<close>

definition async_rep :: "'s sink_ops \<Rightarrow> 's async_state \<Rightarrow> async_event list \<Rightarrow> 's async_state \<Rightarrow> bool" where
  "async_rep ops s0 tr s =
     (as_loggers s = as_loggers s0 \<and> (\<forall>a. as_policy s a = block)
      \<and> (\<exists>qu. as_queue s = Some qu \<and> mpmc_ok qu \<and> queued qu = map event_msg (drop (length (works tr)) (posts tr)))
      \<and> length (works tr) \<le> length (posts tr)
      \<and> as_world s = fold (sync_effect ops (as_loggers s0)) (zip (works tr) (posts tr)) (as_world s0)
      \<and> (\<not> as_running s \<longrightarrow> works tr \<noteq> [] \<and> posts tr ! (length (works tr) - 1) = Post_terminate))"

text \<open>Posting appends to the queue, which has room.\<close>

lemma post_rep:
  assumes "mpmc_ok qu" and "post_to_pool m block qu s = Some (Inr s')"
  obtains qu' where "s' = s\<lparr>as_queue := Some qu'\<rparr>" and "mpmc_ok qu'" and "queued qu' = queued qu @ [m]"
proof -
  have room: "\<not> cq_full (q qu)"
    using assms(2) by (auto simp: post_to_pool_def post_async_msg_def enqueue_def split: if_splits)
  then have "cq_size (q qu) < cq_capacity (q qu)"
    using assms(1) cq_full_iff [of "q qu"] cq_size_le [of "q qu"] by (auto simp: mpmc_ok_def)
  then have keep: "keep_last (cq_capacity (q qu)) (queued qu @ [m]) = queued qu @ [m]" by simp
  obtain qu' where qu': "mpmc_push qu m = Inr (qu', Pushed)" "mpmc_ok qu'"
      "queued qu' = keep_last (cq_capacity (q qu)) (queued qu @ [m])"
    by (rule mpmc_push_effect [OF assms(1), of m])
  have "s' = s\<lparr>as_queue := Some qu'\<rparr>"
    using assms(2) room qu'(1) by (simp add: post_to_pool_def post_async_msg_def enqueue_def)
  then show thesis using qu'(2,3) unfolding keep by (rule that)
qed

lemma zip_snoc: "length ws < length ps \<Longrightarrow> zip (ws @ [x]) ps = zip ws ps @ [(x, ps ! length ws)]"
proof (induction ws arbitrary: ps)
  case Nil
  then show ?case by (cases ps) simp_all
next
  case (Cons w ws)
  then show ?case by (cases ps) simp_all
qed

lemma works_posted:
  assumes "length ws \<le> length ps"
  shows "drop (length ws) (ps @ [p]) = drop (length ws) ps @ [p]"
    and "zip ws (ps @ [p]) = zip ws ps"
  using assms by (simp_all add: zip_append2)

lemma async_rep_post:
  assumes "async_rep ops s0 tr s" and "as_queue s = Some qu"
    and "post_to_pool (event_msg e) block qu s = Some (Inr s')"
    and "posts (tr @ [e]) = posts tr @ [e]" and "works (tr @ [e]) = works tr"
  shows "async_rep ops s0 (tr @ [e]) s'"
proof -
  have ok: "mpmc_ok qu" using assms(1,2) by (auto simp: async_rep_def)
  obtain qu' where "s' = s\<lparr>as_queue := Some qu'\<rparr>" "mpmc_ok qu'" "queued qu' = queued qu @ [event_msg e]"
    by (rule post_rep [OF ok assms(3)])
  moreover have "length (works tr) - 1 < length (posts tr)" if "works tr \<noteq> []" "length (works tr) \<le> length (posts tr)"
    using that by (cases "works tr") auto
  ultimately show ?thesis using assms(1,2)
    by (auto simp: async_rep_def assms(4,5) works_posted nth_append)
qed

text \<open>The worker takes the oldest request and does it.\<close>

lemma async_rep_work:
  assumes "async_rep ops s0 tr s" and "worker_round ops now s = Some (Inr s')"
  shows "async_rep ops s0 (tr @ [Work now]) s'"
proof -
  let ?n = "length (works tr)"
  obtain qu where qu: "as_queue s = Some qu" "mpmc_ok qu" "queued qu = map event_msg (drop ?n (posts tr))"
    using assms(1) by (auto simp: async_rep_def)
  have run: "as_running s" and ne: "\<not> cq_empty (q qu)"
    using assms(2) qu(1) by (auto simp: worker_round_def process_next_msg_def dequeue_def split: if_splits)
  obtain qu' m where pop: "mpmc_pop qu = Inr (qu', Popped m)" "mpmc_ok qu'" "queued qu = m # queued qu'"
    by (rule mpmc_pop_effect [OF qu(2) ne])
  have less: "?n < length (posts tr)" using pop(3) qu(3) by (cases "?n < length (posts tr)") auto
  let ?e = "posts tr ! ?n"
  have m: "m = event_msg ?e" "queued qu' = map event_msg (drop (Suc ?n) (posts tr))"
    using pop(3) qu(3) less by (simp_all add: Cons_nth_drop_Suc [symmetric])
  have "?e \<in> set (posts tr)" using less by simp
  then have post: "?e \<noteq> Work t" for t by (auto simp: posts_def)
  have zip: "zip (works tr @ [now]) (posts tr) = zip (works tr) (posts tr) @ [(now, ?e)]"
    by (rule zip_snoc [OF less])
  have eff: "s'\<lparr>as_queue := Some qu'\<rparr> = s' \<and> as_loggers s' = as_loggers s \<and> as_policy s' = as_policy s
      \<and> as_world s' = sync_effect ops (as_loggers s) (now, ?e) (as_world s)
      \<and> (\<not> as_running s' \<longrightarrow> ?e = Post_terminate)"
    using assms(2) run qu(1) ne pop(1) m(1) post
    by (cases ?e) (auto simp: worker_round_def process_next_msg_def dequeue_def async_log_msg_def
        async_flush_msg_def async_terminate_msg_def)
  then have "as_queue s' = Some qu'" by (metis async_state.select_convs(3) async_state.surjective async_state.update_convs(3))
  then show ?thesis using assms(1) eff pop(2) m(2) less
    by (simp add: async_rep_def zip)
qed

lemma async_step_rep:
  assumes "async_rep ops s0 tr s" and "async_do ops e s = Some (Inr s')"
  shows "async_rep ops s0 (tr @ [e]) s'"
proof -
  obtain qu where qu: "as_queue s = Some qu" using assms(1) by (auto simp: async_rep_def)
  have block: "as_policy s a = block" for a using assms(1) by (simp add: async_rep_def)
  note post = async_rep_post [OF assms(1) qu]
  show ?thesis
  proof (cases e)
    case (Post t a m)
    then have "post_to_pool (event_msg e) block qu s = Some (Inr s')"
      using assms(2) qu block by (simp add: async_sink_it_def)
    then show ?thesis by (rule post) (simp_all add: Post)
  next
    case (Post_flush t a)
    then have "post_to_pool (event_msg e) block qu s = Some (Inr s')"
      using assms(2) qu block by (simp add: async_flush_def)
    then show ?thesis by (rule post) (simp_all add: Post_flush)
  next
    case Post_terminate
    then have "post_to_pool (event_msg e) block qu s = Some (Inr s')"
      using assms(2) qu by (simp add: post_terminate_def)
    then show ?thesis by (rule post) (simp_all add: Post_terminate)
  next
    case (Work now)
    then show ?thesis using async_rep_work [OF assms(1)] assms(2) by simp
  qed
qed

lemma async_run_rep:
  "async_run ops s0 tr s \<Longrightarrow> async_rep ops s0 [] s0 \<Longrightarrow> async_rep ops s0 tr s"
  by (induction rule: async_run.induct) (auto intro: async_step_rep)

text \<open>
  C31. In every interleaving of threads that log and flush with the worker of a pool, when the overflow
  policy is to wait, the sinks and error handlers are in the state that synchronous logging gives:
  the requests the worker has taken were done one after the other in the order they were posted,
  nothing else was done, and the rest of the requests wait in the queue. A worker that has left its
  loop was asked to, and did everything that was posted before.
\<close>

theorem async_logging_equals_synchronous:
  assumes "async_run ops s0 tr s" and "as_queue s0 = Some (mpmc_new d n)" and "0 < n" and "n + 1 < 2 ^ 63"
    and "\<forall>a. as_policy s0 a = block" and "as_running s0"
  shows "length (works tr) \<le> length (posts tr)
    \<and> as_world s = fold (sync_effect ops (as_loggers s0)) (zip (works tr) (posts tr)) (as_world s0)
    \<and> (\<exists>qu. as_queue s = Some qu \<and> queued qu = map event_msg (drop (length (works tr)) (posts tr)))
    \<and> (\<not> as_running s \<longrightarrow> works tr \<noteq> [] \<and> posts tr ! (length (works tr) - 1) = Post_terminate)"
proof -
  have "max_items (cq_new d n) \<noteq> 0" using assms(4) by (simp add: cq_new_def Let_def)
  then have "mpmc_ok (mpmc_new d n)" "queued (mpmc_new d n) = []"
    using cq_new_ok(1,2) [OF assms(4), of d] by (simp_all add: mpmc_ok_def mpmc_new_def)
  then have "async_rep ops s0 [] s0"
    using assms(2,5,6) by (simp add: async_rep_def posts_def works_def)
  from async_run_rep [OF assms(1) this] show ?thesis by (auto simp: async_rep_def)
qed

text \<open>A concrete execution: two messages and a termination, with the worker in between.\<close>

definition one_logger :: "string list async_state" where
  "one_logger = \<lparr>as_loggers = (\<lambda>_. logger_new ''L'' [0]), as_policy = (\<lambda>_. block),
     as_queue = Some (mpmc_new async_terminate_msg 2), as_running = True, as_world = quiet_world\<rparr>"

definition text_msg :: "string \<Rightarrow> log_msg" where
  "text_msg t = log_msg_now 5 1 ''L'' warn t"

definition async_trace :: "async_event list" where
  "async_trace = [Post 1 0 (text_msg ''a''), Post 1 0 (text_msg ''b''), Work 2, Post_terminate, Work 3, Work 4]"

fun async_exec :: "'s sink_ops \<Rightarrow> async_event list \<Rightarrow> 's async_state \<Rightarrow> (fault + 's async_state) option" where
  "async_exec ops [] s = Some (Inr s)"
| "async_exec ops (e # es) s = seq_opt (async_do ops e s) (async_exec ops es)"

lemma async_exec_run:
  "async_exec ops es s = Some (Inr s') \<Longrightarrow> async_run ops s0 tr s \<Longrightarrow> async_run ops s0 (tr @ es) s'"
proof (induction es arbitrary: tr s)
  case (Cons e es)
  then obtain t where t: "async_do ops e s = Some (Inr t)" "async_exec ops es t = Some (Inr s')"
    by (cases "async_do ops e s") (auto simp: seq_opt_def split: sum.splits)
  show ?case using Cons.IH [OF t(2) async_run.step [OF Cons.prems(2) t(1)]] by simp
qed simp

lemma new_queue: "mpmc_new d 2 = \<lparr>q = \<lparr>max_items = 3, head = 0, tail = 0, overrun = 0, slots = [d, d, d]\<rparr>,
    discard_counter = 0\<rparr>"
  by (simp add: mpmc_new_def cq_new_def Let_def) (simp add: numeral_3_eq_3)

lemma async_trace_runs: "\<exists>s. async_run recording_ops one_logger async_trace s \<and> \<not> as_running s"
proof -
  have "\<exists>s. async_exec recording_ops async_trace one_logger = Some (Inr s) \<and> \<not> as_running s"
    by (simp add: async_trace_def one_logger_def new_queue async_sink_it_def post_to_pool_def
        post_async_msg_def post_terminate_def worker_round_def process_next_msg_def enqueue_def
        dequeue_def mpmc_push_def mpmc_pop_def cq_push_back_def cq_front_def cq_pop_front_def
        cq_full_def cq_empty_def mem_write_def at_index_def Let_def async_log_msg_def
        async_terminate_msg_def del: backend_sink_is_sync)
  then show ?thesis using async_exec_run [OF _ async_run.start] by fastforce
qed

lemma async_texts:
  "sink_state (sinks (fold (sync_effect recording_ops (as_loggers one_logger))
     (zip (works async_trace) (posts async_trace)) (as_world one_logger)) 0) = [''a'', ''b'']"
  by (simp add: works_def posts_def async_trace_def one_logger_def sink_it_def sink_one_def
      logger_new_def quiet_world_def recording_ops_def text_msg_def log_msg_now_def log_msg_at_def
      sink_should_log_def level_order handle_exception_def should_flush_def Let_def)

theorem async_logging_equals_synchronous_witness:
  "\<exists>s. async_run recording_ops one_logger async_trace s
     \<and> sink_state (sinks (as_world s) 0) = [''a'', ''b'']"
proof -
  obtain s where s: "async_run recording_ops one_logger async_trace s" using async_trace_runs by blast
  have "as_world s = fold (sync_effect recording_ops (as_loggers one_logger))
      (zip (works async_trace) (posts async_trace)) (as_world one_logger)"
    using async_logging_equals_synchronous [OF s, of async_terminate_msg 2] by (simp add: one_logger_def)
  then show ?thesis using s async_texts by auto
qed


end
