(* ===== verification/Spdlog_Sinks.thy ===== *)
theory Spdlog_Sinks
  imports Spdlog_Logger
begin

text \<open>
  Sinks that are built from other parts: the distributing sink (\<open>sinks/dist_sink.h\<close>), the filter of
  repeated messages (\<open>sinks/dup_filter_sink.h\<close>) and the ring buffer (\<open>sinks/ringbuffer_sink.h\<close>).
  The mutex of the base sink makes every call atomic. An exception of a sub-sink leaves the call
  at once; it is the first component of the result.
\<close>

section \<open>Distributing sink\<close>

type_synonym 's sink_heap = "nat \<Rightarrow> 's sink"

fun dist_sink_it :: "'s sink_ops \<Rightarrow> nat list \<Rightarrow> log_msg \<Rightarrow> 's sink_heap \<Rightarrow> string option \<times> 's sink_heap" where
  "dist_sink_it ops [] msg h = (None, h)"
| "dist_sink_it ops (i # is) msg h =
     (if sink_should_log (h i) (msg_level msg)
      then case sink_log ops msg (sink_state (h i)) of (st, ex) \<Rightarrow>
           (let h = h(i := (h i)\<lparr>sink_state := st\<rparr>) in
            case ex of Some e \<Rightarrow> (Some e, h) | None \<Rightarrow> dist_sink_it ops is msg h)
      else dist_sink_it ops is msg h)"

fun dist_flush :: "'s sink_ops \<Rightarrow> nat list \<Rightarrow> 's sink_heap \<Rightarrow> string option \<times> 's sink_heap" where
  "dist_flush ops [] h = (None, h)"
| "dist_flush ops (i # is) h =
     (case sink_flush ops (sink_state (h i)) of (st, ex) \<Rightarrow>
        (let h = h(i := (h i)\<lparr>sink_state := st\<rparr>) in
         (case ex of Some e \<Rightarrow> (Some e, h) | None \<Rightarrow> dist_flush ops is h)))"

definition add_sink :: "nat \<Rightarrow> nat list \<Rightarrow> nat list" where
  "add_sink i is = is @ [i]"

text \<open>\<open>erase(remove(...))\<close> removes every occurrence.\<close>

definition remove_sink :: "nat \<Rightarrow> nat list \<Rightarrow> nat list" where
  "remove_sink i is = filter (\<lambda>j. j \<noteq> i) is"

section \<open>Filter of repeated messages\<close>

record dup_filter =
  dup_sinks :: "nat list"
  max_skip_duration :: int        \<comment> \<open>microseconds\<close>
  last_msg_time :: int
  last_msg_payload :: string
  skip_counter :: nat
  skipped_msg_log_level :: level_enum

definition dup_filter_new :: "int \<Rightarrow> dup_filter" where
  "dup_filter_new d = \<lparr>dup_sinks = [], max_skip_duration = d, last_msg_time = 0, last_msg_payload = [],
     skip_counter = 0, skipped_msg_log_level = off\<rparr>"

definition dup_shows :: "dup_filter \<Rightarrow> log_msg \<Rightarrow> bool" where
  "dup_shows d msg =
     (msg_time msg - last_msg_time d > 1000 * max_skip_duration d \<or> payload msg \<noteq> last_msg_payload d)"

text \<open>The text fits its buffer of 64 characters for every counter.\<close>

definition skipped_text :: "nat \<Rightarrow> string" where
  "skipped_text n = ''Skipped '' @ dec (n mod 2 ^ 32) @ '' duplicate messages..''"

definition skipped_msg :: "int \<Rightarrow> nat \<Rightarrow> log_msg \<Rightarrow> dup_filter \<Rightarrow> log_msg" where
  "skipped_msg now tid msg d =
     log_msg_at now tid (source msg) (logger_name msg) (skipped_msg_log_level d) (skipped_text (skip_counter d))"

definition dup_sink_it :: "'s sink_ops \<Rightarrow> int \<Rightarrow> nat \<Rightarrow> log_msg \<Rightarrow> dup_filter \<times> 's sink_heap
    \<Rightarrow> string option \<times> dup_filter \<times> 's sink_heap" where
  "dup_sink_it ops now tid msg dh =
     (case dh of (d, h) \<Rightarrow>
      if \<not> dup_shows d msg
      then (None, d\<lparr>skip_counter := (skip_counter d + 1) mod 2 ^ 64, skipped_msg_log_level := msg_level msg\<rparr>, h)
      else
        (case (if skip_counter d > 0 \<and> length (skipped_text (skip_counter d)) < 64
               then dist_sink_it ops (dup_sinks d) (skipped_msg now tid msg d) h else (None, h)) of
           (Some e, h) \<Rightarrow> (Some e, d, h)
         | (None, h) \<Rightarrow>
             (case dist_sink_it ops (dup_sinks d) msg h of
                (Some e, h) \<Rightarrow> (Some e, d, h)
              | (None, h) \<Rightarrow>
                  (None, d\<lparr>last_msg_time := msg_time msg, skip_counter := 0,
                           last_msg_payload := payload msg\<rparr>, h))))"

lemma skipped_text_fits: "length (skipped_text n) < 64"
proof -
  have "length (dec (n mod 2 ^ 32)) \<le> 10"
  proof (rule length_dec_le)
    have "n mod 2 ^ 32 < 2 ^ 32" by simp
    also have "(2 :: nat) ^ 32 < 10 ^ 10" by simp
    finally show "n mod 2 ^ 32 < 10 ^ 10" .
  qed simp
  then show ?thesis by (simp add: skipped_text_def)
qed

text \<open>
  What a sequence of messages makes the filter forward, when no sub-sink throws: the messages
  that are shown, each after the announcement of those that were skipped before it.
\<close>

fun dup_forwards :: "dup_filter \<Rightarrow> (int \<times> nat \<times> log_msg) list \<Rightarrow> log_msg list" where
  "dup_forwards d [] = []"
| "dup_forwards d ((now, tid, m) # ms) =
     (if \<not> dup_shows d m
      then dup_forwards (d\<lparr>skip_counter := (skip_counter d + 1) mod 2 ^ 64, skipped_msg_log_level := msg_level m\<rparr>) ms
      else (if skip_counter d > 0 then [skipped_msg now tid m d] else []) @ [m]
           @ dup_forwards (d\<lparr>last_msg_time := msg_time m, skip_counter := 0, last_msg_payload := payload m\<rparr>) ms)"

fun dup_log_all :: "'s sink_ops \<Rightarrow> (int \<times> nat \<times> log_msg) list \<Rightarrow> dup_filter \<times> 's sink_heap
    \<Rightarrow> string option \<times> dup_filter \<times> 's sink_heap" where
  "dup_log_all ops [] dh = (None, dh)"
| "dup_log_all ops ((now, tid, m) # ms) dh =
     (case dup_sink_it ops now tid m dh of
        (Some e, dh) \<Rightarrow> (Some e, dh)
      | (None, dh) \<Rightarrow> dup_log_all ops ms dh)"

definition quiet_ops :: "'s sink_ops \<Rightarrow> bool" where
  "quiet_ops ops = (\<forall>m st. snd (sink_log ops m st) = None)"

lemma quiet_dist: "quiet_ops ops \<Longrightarrow> fst (dist_sink_it ops is m h) = None"
  by (induction "is" arbitrary: h) (auto simp: quiet_ops_def Let_def split: prod.split option.split, metis option.distinct(1) snd_conv)

lemma dup_log_all_forwards:
  assumes "quiet_ops ops"
  shows "\<exists>d'. dup_log_all ops ms (d, h) =
    (None, d', fold (\<lambda>m h. snd (dist_sink_it ops (dup_sinks d) m h)) (dup_forwards d ms) h)"
proof (induction ms arbitrary: d h)
  case (Cons x ms)
  obtain now tid m where x: "x = (now, tid, m)" by (cases x)
  have dist: "dist_sink_it ops is m h = (None, snd (dist_sink_it ops is m h))" for "is" m h
    using quiet_dist [OF assms, of "is" m h] by (simp add: prod_eq_iff)
  show ?case
  proof (cases "dup_shows d m")
    case False
    then show ?thesis using Cons [of "d\<lparr>skip_counter := (skip_counter d + 1) mod 2 ^ 64,
        skipped_msg_log_level := msg_level m\<rparr>" h] by (simp add: x dup_sink_it_def)
  next
    case True
    let ?h = "if skip_counter d > 0 then snd (dist_sink_it ops (dup_sinks d) (skipped_msg now tid m d) h) else h"
    have "dup_sink_it ops now tid m (d, h) = (None, d\<lparr>last_msg_time := msg_time m, skip_counter := 0,
        last_msg_payload := payload m\<rparr>, snd (dist_sink_it ops (dup_sinks d) m ?h))"
      using True skipped_text_fits dist by (auto simp: dup_sink_it_def split: prod.split option.split) (metis option.distinct(1) prod.inject)+
    then show ?thesis using Cons [of "d\<lparr>last_msg_time := msg_time m, skip_counter := 0,
        last_msg_payload := payload m\<rparr>" "snd (dist_sink_it ops (dup_sinks d) m ?h)"] True
      by (cases "skip_counter d = 0") (simp_all add: x)
  qed
qed simp

section \<open>Ring buffer\<close>

text \<open>The elements from an index on are copied one by one.\<close>

fun copy_from :: "log_msg_buffer circular_q \<Rightarrow> nat \<Rightarrow> nat \<Rightarrow> fault + log_msg_buffer list" where
  "copy_from q i 0 = Inr []"
| "copy_from q i (Suc n) =
     andthen (cq_at q i) (\<lambda>m. andthen (copy_from q (Suc i) n) (\<lambda>ms. Inr (log_msg_buffer_copy m # ms)))"

definition last_raw :: "nat \<Rightarrow> log_msg_buffer circular_q \<Rightarrow> fault + log_msg_buffer list" where
  "last_raw lim q =
     (let items_available = cq_size q;
          n_items = (if lim > 0 then min lim items_available else items_available)
      in copy_from q (items_available - n_items) n_items)"

definition ring_sink_it :: "log_msg \<Rightarrow> log_msg_buffer circular_q \<Rightarrow> fault + log_msg_buffer circular_q" where
  "ring_sink_it msg q = cq_push_back q (log_msg_buffer_of msg)"

lemma copy_from_contents:
  "cq_ok q \<Longrightarrow> i + n = cq_size q \<Longrightarrow> copy_from q i n = Inr (map log_msg_buffer_copy (drop i (cq_contents q)))"
proof (induction n arbitrary: i)
  case (Suc n)
  then have "i < cq_size q" by simp
  then show ?case using Suc cq_at_contents [of q i] by (simp flip: Cons_nth_drop_Suc)
qed simp

text \<open>The last messages, oldest first; without a limit all that are kept.\<close>

lemma last_raw_contents:
  "cq_ok q \<Longrightarrow> last_raw lim q = Inr (map log_msg_buffer_copy
     (if 0 < lim then keep_last lim (cq_contents q) else cq_contents q))"
  by (auto simp: last_raw_def Let_def copy_from_contents keep_last_def min_def)

end
