(* ===== verification/Spdlog_Hex.thy ===== *)
theory Spdlog_Hex
  imports Text_Format
begin

text \<open>
  The formatter of binary data (\<open>fmt/bin_to_hex.h\<close>): the flags of its format specification and the
  dump with positions, delimiters and readable characters.
\<close>

section \<open>Flags\<close>

record hex_flags =
  put_newlines :: bool
  put_delimiters :: bool
  use_uppercase :: bool
  put_positions :: bool
  show_ascii :: bool

definition hex_flags_init :: hex_flags where
  "hex_flags_init = \<lparr>put_newlines = True, put_delimiters = True, use_uppercase = False,
     put_positions = True, show_ascii = False\<rparr>"

definition hex_flag :: "char \<Rightarrow> hex_flags \<Rightarrow> hex_flags" where
  "hex_flag c f =
     (if c = CHR ''X'' then f\<lparr>use_uppercase := True\<rparr>
      else if c = CHR ''s'' then f\<lparr>put_delimiters := False\<rparr>
      else if c = CHR ''p'' then f\<lparr>put_positions := False\<rparr>
      else if c = CHR ''n'' then f\<lparr>put_newlines := False, show_ascii := False\<rparr>
      else if c = CHR ''a'' then (if put_newlines f then f\<lparr>show_ascii := True\<rparr> else f)
      else f)"

text \<open>The result also has the rest of the specification, from the closing brace on.\<close>

fun parse_hex :: "string \<Rightarrow> hex_flags \<Rightarrow> hex_flags \<times> string" where
  "parse_hex [] f = (f, [])"
| "parse_hex (c # cs) f = (if c = CHR 0x7D then (f, c # cs) else parse_hex cs (hex_flag c f))"

section \<open>Output\<close>

definition delimiter :: char where "delimiter = CHR '' ''"

definition hex_byte :: "hex_flags \<Rightarrow> u8 \<Rightarrow> string" where
  "hex_byte f b =
     (let d = (if use_uppercase f then upper_digit_char else digit_char)
      in [d (unat b div 16), d (unat b mod 16)])"

fun hex_upper :: "nat \<Rightarrow> string" where
  "hex_upper n = (if n < 16 then [upper_digit_char n] else hex_upper (n div 16) @ [upper_digit_char (n mod 16)])"

declare hex_upper.simps [simp del]

text \<open>\<open>{:04X}: \<close> of the position.\<close>

definition position_text :: "nat \<Rightarrow> string" where
  "position_text pos = (let t = hex_upper pos in replicate (4 - length t) (CHR ''0'') @ t) @ '': ''"

definition put_newline :: "hex_flags \<Rightarrow> nat \<Rightarrow> string" where
  "put_newline f pos = CHR 0x0A # (if put_positions f then position_text pos else [])"

definition readable :: "u8 \<Rightarrow> char" where
  "readable b = (if 32 \<le> unat b \<and> unat b < 127 then char_of (unat b) else CHR ''.'')"

definition readable_from :: "u8 list \<Rightarrow> nat \<Rightarrow> nat \<Rightarrow> string" where
  "readable_from bs i j = map readable (take (j - i) (drop i bs))"

text \<open>The loop over the bytes from index \<open>i\<close> on: the text and the start of the last line.\<close>

fun hex_loop :: "hex_flags \<Rightarrow> int \<Rightarrow> u8 list \<Rightarrow> nat \<Rightarrow> nat \<Rightarrow> u8 list \<Rightarrow> string \<times> nat" where
  "hex_loop f size_per_line bs i start_of_line [] = ([], start_of_line)"
| "hex_loop f size_per_line bs i start_of_line (b # rest) =
     (if put_newlines f \<and> (i = 0 \<or> int (i - start_of_line) \<ge> size_per_line)
      then case hex_loop f size_per_line bs (Suc i) i rest of (t, l) \<Rightarrow>
           ((if show_ascii f \<and> i \<noteq> 0 then delimiter # delimiter # readable_from bs start_of_line i else [])
             @ put_newline f i @ hex_byte f b @ t, l)
      else case hex_loop f size_per_line bs (Suc i) start_of_line rest of (t, l) \<Rightarrow>
           ((if put_delimiters f \<and> i \<noteq> 0 then [delimiter] else []) @ hex_byte f b @ t, l))"

definition format_hex :: "hex_flags \<Rightarrow> int \<Rightarrow> u8 list \<Rightarrow> string" where
  "format_hex f size_per_line bs =
     (case hex_loop f size_per_line bs 0 0 bs of (t, start_of_line) \<Rightarrow>
        t @ (if show_ascii f
             then (if int (length bs) > size_per_line
                   then concat (replicate (nat (size_per_line - int (length bs - start_of_line)))
                          (if put_delimiters f then [delimiter, delimiter, delimiter] else [delimiter, delimiter]))
                   else [])
                  @ [delimiter, delimiter] @ readable_from bs start_of_line (length bs)
             else []))"

section \<open>Reading the digits back\<close>

definition hex_digit :: "char \<Rightarrow> nat" where
  "hex_digit c =
     (let k = of_char c :: nat in if k < 58 then k - 48 else if k < 97 then k - 55 else k - 87)"

fun read_hex :: "string \<Rightarrow> u8 list" where
  "read_hex (a # b # s) = word_of_nat (16 * hex_digit a + hex_digit b) # read_hex s"
| "read_hex _ = []"

lemma hex_digit_inverse: "d < 16 \<Longrightarrow> hex_digit (digit_char d) = d" "d < 16 \<Longrightarrow> hex_digit (upper_digit_char d) = d"
  by (auto simp: hex_digit_def digit_char_def upper_digit_char_def Let_def)

text \<open>Without line breaks and delimiters the dump is the digits of the bytes, which determine them.\<close>

lemma hex_dump_roundtrip:
  assumes "\<not> put_newlines f" and "\<not> put_delimiters f" and "\<not> show_ascii f"
  shows "read_hex (format_hex f n bs) = bs"
proof -
  have "fst (hex_loop f n bs i l xs) = concat (map (hex_byte f) xs)" for i l xs
    using assms by (induction xs arbitrary: i) (auto split: prod.split, metis fst_conv)
  then have "format_hex f n bs = concat (map (hex_byte f) bs)"
    using assms(3) by (simp add: format_hex_def case_prod_unfold)
  moreover have "read_hex (concat (map (hex_byte f) bs)) = bs"
  proof (induction bs)
    case (Cons b bs)
    have "unat b div 16 < 16" by (rule less_mult_imp_div_less) simp
    moreover have "16 * word_of_nat (unat b div 16) + word_of_nat (unat b mod 16) = b"
    proof -
      have "16 * word_of_nat (unat b div 16) + word_of_nat (unat b mod 16)
          = (word_of_nat (16 * (unat b div 16) + unat b mod 16) :: u8)"
        by (simp only: of_nat_add of_nat_mult of_nat_numeral)
      also have "16 * (unat b div 16) + unat b mod 16 = unat b" by simp
      also have "word_of_nat (unat b) = b" by simp
      finally show ?thesis .
    qed
    ultimately show ?case using Cons by (simp add: hex_byte_def Let_def hex_digit_inverse)
  qed simp
  ultimately show ?thesis by simp
qed

end
