(* ===== verification/Spdlog_Console.thy ===== *)
theory Spdlog_Console
  imports Spdlog_Pattern_Props Spdlog_Logger "HOL-Library.Sublist"
begin

text \<open>
  The console sinks: \<open>ansicolor_sink\<close> (\<open>sinks/ansicolor_sink*.h\<close>), which the logging front end of
  the program creates, and the plain \<open>stdout_sink_base\<close> (\<open>sinks/stdout_sinks-inl.h\<close>), with the
  terminal detection of \<open>details/os-inl.h\<close>. The console mutex makes every call atomic. The stream
  accepts \<open>accepts k\<close> characters at most in its \<open>k\<close>-th \<open>fwrite\<close>, whose result the code ignores; what
  it accepted is on the terminal after the \<open>fflush\<close> at the end of every call.
\<close>

section \<open>Terminal detection\<close>

record terminal =
  is_tty :: bool
  env_colorterm :: "string option"
  env_term :: "string option"

definition color_terms :: "string list" where
  "color_terms =
     [''ansi'', ''color'', ''console'', ''cygwin'', ''gnome'', ''konsole'', ''kterm'', ''linux'',
      ''msys'', ''putty'', ''rxvt'', ''screen'', ''vt100'', ''xterm'', ''alacritty'', ''vt102'']"

definition is_color_terminal :: "terminal \<Rightarrow> bool" where
  "is_color_terminal tt =
     (case env_colorterm tt of
        Some _ \<Rightarrow> True
      | None \<Rightarrow>
          (case env_term tt of
             None \<Rightarrow> False
           | Some t \<Rightarrow> list_ex (\<lambda>known. sublist known t) color_terms))"

definition in_terminal :: "terminal \<Rightarrow> bool" where
  "in_terminal tt = is_tty tt"

section \<open>Color codes\<close>

definition esc :: "string \<Rightarrow> string" where
  "esc code = CHR 0x1B # ''['' @ code"

definition ansi_reset :: string where "ansi_reset = esc ''m''"
definition ansi_green :: string where "ansi_green = esc ''32m''"
definition ansi_cyan :: string where "ansi_cyan = esc ''36m''"
definition ansi_white :: string where "ansi_white = esc ''37m''"
definition yellow_bold :: string where "yellow_bold = esc ''33m'' @ esc ''1m''"
definition red_bold :: string where "red_bold = esc ''31m'' @ esc ''1m''"
definition bold_on_red :: string where "bold_on_red = esc ''1m'' @ esc ''41m''"

datatype color_mode = always | automatic | never

section \<open>The colored sink\<close>

record 'c color_sink =
  accepts :: "nat \<Rightarrow> nat"
  writes :: nat
  screen :: string
  should_do_colors :: bool
  cs_formatter :: "'c pattern_formatter"
  colors :: "string list"        \<comment> \<open>an array with \<open>n_levels\<close> entries\<close>

definition set_color_mode :: "terminal \<Rightarrow> color_mode \<Rightarrow> 'c color_sink \<Rightarrow> 'c color_sink" where
  "set_color_mode tt mode s =
     s\<lparr>should_do_colors :=
         (case mode of
            always \<Rightarrow> True
          | automatic \<Rightarrow> in_terminal tt \<and> is_color_terminal tt
          | never \<Rightarrow> False)\<rparr>"

definition level_colors :: "string list" where
  "level_colors = [ansi_white, ansi_cyan, ansi_green, yellow_bold, red_bold, bold_on_red, ansi_reset]"

definition ansicolor_sink_new ::
  "terminal \<Rightarrow> string \<Rightarrow> (nat \<Rightarrow> nat) \<Rightarrow> color_mode \<Rightarrow> 'c color_sink" where
  "ansicolor_sink_new tt default_eol acc mode =
     set_color_mode tt mode
       \<lparr>accepts = acc, writes = 0, screen = [], should_do_colors = False,
        cs_formatter = pattern_formatter_default local default_eol, colors = level_colors\<rparr>"

definition set_color :: "level_enum \<Rightarrow> string \<Rightarrow> 'c color_sink \<Rightarrow> fault + 'c color_sink" where
  "set_color color_level color s =
     (if level_int color_level < length (colors s)
      then Inr (s\<lparr>colors := (colors s)[level_int color_level := color]\<rparr>)
      else Inl Out_of_range)"

definition should_color :: "'c color_sink \<Rightarrow> bool" where
  "should_color s = should_do_colors s"

definition fwrite_bytes :: "string \<Rightarrow> 'c color_sink \<Rightarrow> 'c color_sink" where
  "fwrite_bytes bytes s =
     s\<lparr>screen := screen s @ take (accepts s (writes s)) bytes, writes := Suc (writes s)\<rparr>"

definition print_ccode :: "string \<Rightarrow> 'c color_sink \<Rightarrow> 'c color_sink" where
  "print_ccode color_code s = fwrite_bytes color_code s"

text \<open>The length \<open>end - start\<close> wraps around in \<open>size_t\<close>.\<close>

definition print_range :: "string \<Rightarrow> nat \<Rightarrow> nat \<Rightarrow> 'c color_sink \<Rightarrow> fault + 'c color_sink" where
  "print_range formatted start fin s =
     andthen (mem_read formatted (int start) (nat ((int fin - int start) mod 2 ^ 64)))
       (\<lambda>bytes. Inr (fwrite_bytes bytes s))"

definition color_at :: "'c color_sink \<Rightarrow> level_enum \<Rightarrow> fault + string" where
  "color_at s lvl =
     (if level_int lvl < length (colors s) then Inr (colors s ! level_int lvl) else Inl Out_of_range)"

definition ansicolor_log ::
  "'c fmt_env \<Rightarrow> mdc_map \<Rightarrow> log_msg \<Rightarrow> 'c color_sink \<Rightarrow> fault + (log_msg \<times> 'c color_sink)" where
  "ansicolor_log env ctx msg s =
     (let msg = msg\<lparr>color_range_start := 0, color_range_end := 0\<rparr> in
      andthen (pattern_format env ctx msg [] (cs_formatter s)) (\<lambda>(pf, msg, formatted).
      let s = s\<lparr>cs_formatter := pf\<rparr> in
      if should_do_colors s \<and> color_range_end msg > color_range_start msg
      then
        andthen (print_range formatted 0 (color_range_start msg) s) (\<lambda>s.
        andthen (color_at s (msg_level msg)) (\<lambda>ccode.
        andthen (print_range formatted (color_range_start msg) (color_range_end msg) (print_ccode ccode s)) (\<lambda>s.
        andthen (print_range formatted (color_range_end msg) (length formatted) (print_ccode ansi_reset s)) (\<lambda>s.
        Inr (msg, s)))))
      else andthen (print_range formatted 0 (length formatted) s) (\<lambda>s. Inr (msg, s))))"

definition cs_set_pattern :: "'c fmt_env \<Rightarrow> int \<Rightarrow> string \<Rightarrow> string \<Rightarrow> 'c color_sink \<Rightarrow> 'c color_sink" where
  "cs_set_pattern env now default_eol pat s =
     s\<lparr>cs_formatter := pattern_formatter_new env now pat local default_eol Map.empty\<rparr>"

definition cs_set_formatter :: "'c pattern_formatter \<Rightarrow> 'c color_sink \<Rightarrow> 'c color_sink" where
  "cs_set_formatter pf s = s\<lparr>cs_formatter := pf\<rparr>"

section \<open>The plain sink\<close>

definition stdout_log ::
  "'c fmt_env \<Rightarrow> mdc_map \<Rightarrow> log_msg \<Rightarrow> 'c color_sink \<Rightarrow> fault + (log_msg \<times> 'c color_sink)" where
  "stdout_log env ctx msg s =
     andthen (pattern_format env ctx msg [] (cs_formatter s)) (\<lambda>(pf, msg, formatted).
     Inr (msg, fwrite_bytes formatted (s\<lparr>cs_formatter := pf\<rparr>)))"

section \<open>What reaches the terminal\<close>

text \<open>A stream that takes everything, and a table of colors as the constructor makes it.\<close>

definition healthy :: "'c color_sink \<Rightarrow> bool" where
  "healthy s = (length (colors s) = 7 \<and> (\<forall>k n. n \<le> accepts s k))"

lemma healthy_take [simp]: "healthy s \<Longrightarrow> take (accepts s k) xs = xs"
  by (simp add: healthy_def)

lemma healthy_fwrite [simp]: "healthy (fwrite_bytes t s) = healthy s"
  by (simp add: healthy_def fwrite_bytes_def)

lemma print_range_part:
  assumes "start \<le> fin" and "fin \<le> length formatted" and "length formatted < 2 ^ 64"
  shows "print_range formatted start fin s
    = Inr (fwrite_bytes (take (fin - start) (drop start formatted)) s)"
proof -
  have "(int fin - int start) mod 2 ^ 64 = int fin - int start" using assms by simp
  moreover have "nat (int fin - int start) = fin - start" using assms(1) by simp
  ultimately show ?thesis using assms by (simp add: print_range_def mem_read_def)
qed

text \<open>
  A range that the formatter marked is surrounded by the color of the level and the reset code;
  everything else is as formatted. Without colors, or without a range, the text is unchanged.
\<close>

lemma ansicolor_log_colored:
  fixes s :: "'c color_sink"
  assumes "healthy s" and "should_do_colors s" and "msg_level msg' \<noteq> n_levels"
    and f: "pattern_format env ctx (msg\<lparr>color_range_start := 0, color_range_end := 0\<rparr>) [] (cs_formatter s)
      = Inr (pf, msg', before @ marked @ after)"
    and range: "color_range_start msg' = length before"
      "color_range_end msg' = length before + length marked"
    and "marked \<noteq> []" and "length (before @ marked @ after) < 2 ^ 64"
  obtains s' where "ansicolor_log env ctx msg s = Inr (msg', s')" and "healthy s'"
    and "screen s' = screen s @ before @ colors s ! level_int (msg_level msg') @ marked @ ansi_reset @ after"
proof -
  have lvl: "level_int (msg_level msg') < 7" using assms(3) by (cases "msg_level msg'") simp_all
  let ?text = "before @ marked @ after"
  have parts: "print_range ?text 0 (length before) t = Inr (fwrite_bytes before t)"
    "print_range ?text (length before) (length before + length marked) t = Inr (fwrite_bytes marked t)"
    "print_range ?text (length before + length marked) (length ?text) t = Inr (fwrite_bytes after t)"
    for t :: "'c color_sink"
    using assms(8) by (simp_all add: print_range_part)
  define s' where "s' = fwrite_bytes after (print_ccode ansi_reset (fwrite_bytes marked (print_ccode
    (colors s ! level_int (msg_level msg')) (fwrite_bytes before (s\<lparr>cs_formatter := pf\<rparr>)))))"
  have "length (colors s) = 7" using assms(1) by (simp add: healthy_def)
  then have "color_at (fwrite_bytes before (s\<lparr>cs_formatter := pf\<rparr>)) (msg_level msg')
      = Inr (colors s ! level_int (msg_level msg'))"
    using lvl by (simp add: color_at_def fwrite_bytes_def)
  then have "ansicolor_log env ctx msg s = Inr (msg', s')"
    using assms(2,7) parts by (simp add: ansicolor_log_def f range s'_def Let_def)
  moreover have "healthy s'" and "screen s' = screen s @ before
      @ colors s ! level_int (msg_level msg') @ marked @ ansi_reset @ after"
    using assms(1) by (simp_all add: s'_def fwrite_bytes_def print_ccode_def healthy_def)
  ultimately show thesis using that by blast
qed

lemma ansicolor_log_plain:
  fixes s :: "'c color_sink"
  assumes "healthy s"
    and f: "pattern_format env ctx (msg\<lparr>color_range_start := 0, color_range_end := 0\<rparr>) [] (cs_formatter s)
      = Inr (pf, msg', text)"
    and "\<not> should_do_colors s \<or> color_range_end msg' \<le> color_range_start msg'"
    and "length text < 2 ^ 64"
  obtains s' where "ansicolor_log env ctx msg s = Inr (msg', s')" and "screen s' = screen s @ text"
proof -
  have "print_range text 0 (length text) t = Inr (fwrite_bytes text t)"
    for t :: "'c color_sink"
    using assms(4) by (simp add: print_range_part)
  then have "ansicolor_log env ctx msg s = Inr (msg', fwrite_bytes text (s\<lparr>cs_formatter := pf\<rparr>))"
    using assms(3) by (auto simp: ansicolor_log_def f Let_def)
  moreover have "screen (fwrite_bytes text (s\<lparr>cs_formatter := pf\<rparr>)) = screen s @ text"
    using assms(1) by (simp add: fwrite_bytes_def healthy_def)
  ultimately show thesis using that by blast
qed

section \<open>The default pattern marks the name of the level\<close>

definition appends :: "fault + string \<Rightarrow> string \<Rightarrow> bool" where
  "appends r dest = (\<forall>d. r = Inr d \<longrightarrow> prefix dest d)"

lemma appends_Inr [simp]: "appends (Inr d) dest = prefix dest d"
  by (simp add: appends_def)

lemma appends_andthen:
  "appends m dest \<Longrightarrow> (\<And>d. m = Inr d \<Longrightarrow> appends (f d) d) \<Longrightarrow> appends (andthen m f) dest"
  unfolding appends_def andthen_Inr_iff using prefix_order.trans by blast

lemma appends_append_int: "appends (append_int w x dest) dest"
  by (auto simp: appends_def append_int_def andthen_Inr_iff)

lemma appends_more: "appends r (dest @ t) \<Longrightarrow> appends r dest"
  by (auto simp: appends_def prefix_def)

lemma appends_bind: "(\<And>x. m = Inr x \<Longrightarrow> appends (f x) dest) \<Longrightarrow> appends (andthen m f) dest"
  unfolding appends_def andthen_Inr_iff by blast

lemma appends_location: "appends (full_location msg dest) dest"
proof (cases "source_empty (source msg)")
  case False
  have "appends (andthen (append_int 32 (line (source msg)) (dest @ t)) (\<lambda>dest. Inr (dest @ '']'' @ '' ''))) (dest @ t)"
    for t
    by (rule appends_andthen [OF appends_append_int]) simp
  then have "appends (andthen (append_int 32 (line (source msg)) (dest @ t)) (\<lambda>dest. Inr (dest @ '']'' @ '' ''))) dest"
    for t
    by (rule appends_more)
  from this [of "''['' @ f @ '':''" for f] show ?thesis
    using False unfolding full_location_def Let_def append_string_view_def
    by (simp add: appends_bind)
qed (simp add: full_location_def)

lemma appends_format_mdc: "appends (format_mdc False p ctx dest) dest"
proof (induction ctx arbitrary: dest)
  case (Cons kv rest)
  obtain key val where kv: "kv = (key, val)" by fastforce
  show ?case unfolding kv format_mdc.simps Let_def with_padder_null
    by (rule appends_andthen) (simp_all add: append_string_view_def Cons.IH)
qed simp

lemma appends_mdc: "appends (full_mdc ctx dest) dest"
proof -
  have "appends (andthen (format_mdc False padding_none ctx (dest @ ''['')) (\<lambda>dest. Inr (dest @ '']'' @ '' '')))
    (dest @ ''['')"
    by (rule appends_andthen [OF appends_format_mdc]) simp
  then show ?thesis unfolding full_mdc_def by (auto intro: appends_more)
qed

lemma full_formatter_marks_level:
  assumes "full_formatter st ctx msg t dest = Inr (st', msg', d)"
  obtains before name after where "d = before @ name @ after"
    and "to_string_view (msg_level msg) = Inr name" and "msg_level msg' = msg_level msg"
    and "color_range_start msg' = length before"
    and "color_range_end msg' = length before + length name"
proof -
  define start where "start y = (if 0 < length (logger_name msg)
    then append_string_view (logger_name msg) (y @ ''['') @ '']'' @ '' '' else y)" for y
  obtain y x name d1 where name: "to_string_view (msg_level msg) = Inr name"
    and x: "full_mdc ctx d1 = Inr x" "d = x @ payload msg"
    and loc: "full_location (msg\<lparr>color_range_start := length (start y @ ''[''),
        color_range_end := length ((start y @ ''['') @ name)\<rparr>) ((start y @ ''['') @ name @ ''] '') = Inr d1"
      "msg' = msg\<lparr>color_range_start := length (start y @ ''[''),
        color_range_end := length ((start y @ ''['') @ name)\<rparr>"
    using assms unfolding full_formatter_def andthen_Inr_iff Let_def start_def [symmetric]
    by (auto simp: append_string_view_def)
  define b where "b = start y @ ''[''"
  note b = loc(1) [folded b_def] and msg' = loc(2) [folded b_def]
  have "prefix (b @ name @ ''] '') d1" "prefix d1 x"
    using appends_location appends_mdc b x(1) by (metis appends_Inr)+
  then have "prefix (b @ name) d" using x(2) by (auto simp: prefix_def)
  then obtain after where "d = b @ name @ after" by (auto simp: prefix_def)
  then show thesis using that name msg' by auto
qed

text \<open>
  With the format the sink is created with, a line comes out with exactly the name of its level
  colored, whatever message is logged; only a line of \<open>2 ^ 64\<close> characters is excluded.
\<close>

lemma default_line_is_colored:
  fixes s :: "'c color_sink"
  assumes "healthy s" and "should_do_colors s" and fs: "formatters (cs_formatter s) = [Full st]"
    and "msg_level msg \<noteq> n_levels"
    and f: "pattern_format env ctx (msg\<lparr>color_range_start := 0, color_range_end := 0\<rparr>) [] (cs_formatter s)
      = Inr (pf, msg', text)"
    and "length text < 2 ^ 64"
  obtains before name after s' where "text = before @ name @ after"
    and "to_string_view (msg_level msg) = Inr name"
    and "ansicolor_log env ctx msg s = Inr (msg', s')"
    and "screen s' = screen s @ before @ colors s ! level_int (msg_level msg) @ name @ ansi_reset @ after"
proof -
  let ?msg = "msg\<lparr>color_range_start := 0, color_range_end := 0\<rparr>"
  have upd: "formatters (update_cached_tm env ?msg (cs_formatter s)) = [Full st]"
    using fs by (simp add: update_cached_tm_def Let_def)
  obtain st' d where full: "full_formatter st ctx ?msg
      (cached_tm (update_cached_tm env ?msg (cs_formatter s))) [] = Inr (st', msg', d)"
    and whole: "text = d @ eol (update_cached_tm env ?msg (cs_formatter s))"
    using f unfolding pattern_format_def Let_def upd
    by (auto simp: andthen_Inr_iff append_string_view_def)
  obtain before name after where parts: "d = before @ name @ after"
      "to_string_view (msg_level msg) = Inr name" "msg_level msg' = msg_level msg"
      "color_range_start msg' = length before" "color_range_end msg' = length before + length name"
    using full_formatter_marks_level [OF full] by auto
  have whole': "text = before @ name @ after @ eol (update_cached_tm env ?msg (cs_formatter s))"
    using whole parts(1) by simp
  have "name \<noteq> []" using parts(2) assms(4) level_names [of "msg_level msg"]
    by (cases "msg_level msg") (auto simp: to_string_view_def at_index_def level_string_views_def)
  then obtain s' where "ansicolor_log env ctx msg s = Inr (msg', s')"
    "screen s' = screen s @ before @ colors s ! level_int (msg_level msg') @ name @ ansi_reset
      @ after @ eol (update_cached_tm env ?msg (cs_formatter s))"
    using ansicolor_log_colored [OF assms(1,2) _ f [unfolded whole'] parts(4,5)] assms(4,6) parts(3) whole'
    by (metis append.assoc)
  then show thesis using that whole' parts(2,3) by simp
qed

lemma new_sink_formats_by_default:
  "formatters (cs_formatter (ansicolor_sink_new tt nl acc mode)) = [Full full_init]"
  "colors (ansicolor_sink_new tt nl acc mode) = level_colors"
  by (simp_all add: ansicolor_sink_new_def set_color_mode_def pattern_formatter_default_def)

text \<open>The colors of the levels, and when the automatic mode shows them.\<close>

lemma level_colors_distinct:
  "distinct level_colors" "list_all (\<lambda>c. c \<noteq> []) level_colors" "length level_colors = 7"
  by code_simp+

lemma automatic_colors:
  "should_color (set_color_mode tt automatic s)
    \<longleftrightarrow> is_tty tt \<and> (env_colorterm tt \<noteq> None
        \<or> (\<exists>t known. env_term tt = Some t \<and> known \<in> set color_terms \<and> sublist known t))"
  by (auto simp: should_color_def set_color_mode_def in_terminal_def is_color_terminal_def
      list_ex_iff split: option.splits)

lemma terminal_examples:
  "is_color_terminal \<lparr>is_tty = True, env_colorterm = None, env_term = Some ''xterm-256color''\<rparr>"
  "\<not> is_color_terminal \<lparr>is_tty = True, env_colorterm = None, env_term = Some ''dumb''\<rparr>"
  by code_simp+

lemma set_color_bounds:
  "length (colors s) = 7 \<Longrightarrow> set_color l c s = (if l = n_levels then Inl Out_of_range
     else Inr (s\<lparr>colors := (colors s)[level_int l := c]\<rparr>))"
  by (cases l) (simp_all add: set_color_def)

text \<open>
  A pattern without \<open>%^\<close> and \<open>%$\<close> marks nothing, so that the colored sink prints what the plain sink
  prints.
\<close>

lemma unmarked_line_is_plain:
  fixes s :: "'c color_sink"
  assumes "healthy s" and "color_range_start msg = 0" "color_range_end msg = 0"
    and f: "pattern_format env ctx msg [] (cs_formatter s) = Inr (pf, msg', text)"
    and "color_range_end msg' \<le> color_range_start msg'" and "length text < 2 ^ 64"
  shows "ansicolor_log env ctx msg s = stdout_log env ctx msg s"
proof -
  have msg: "msg\<lparr>color_range_start := 0, color_range_end := 0\<rparr> = msg"
    using assms(2,3) by simp
  have "print_range text 0 (length text) t = Inr (fwrite_bytes text t)"
    for t :: "'c color_sink"
    using assms(6) by (simp add: print_range_part)
  then show ?thesis using assms(5) by (simp add: ansicolor_log_def stdout_log_def msg f Let_def)
qed

end
