(* ===== verification/Spdlog_Timed.thy ===== *)
theory Spdlog_Timed
  imports Spdlog_File Spdlog_Flags Spdlog_Queue
begin

text \<open>
  The sinks that start a new file by the clock: \<open>sinks/daily_file_sink.h\<close> and
  \<open>sinks/hourly_file_sink.h\<close>, on the file helper of \<open>Spdlog_File\<close> and the circular queue of
  \<open>Spdlog_Queue\<close>. The calendar functions \<open>localtime\<close> and \<open>mktime\<close> are parameters; the \<open>n\<close>-th
  reading of the clock is \<open>clock n\<close>. The template parameter that computes file names is the
  argument \<open>calc\<close>. A fault of the queue would appear as an exception; the lemmas show that there is
  none. The mutex of the base sink makes every call atomic.
\<close>

section \<open>State\<close>

record calendar =
  cal_localtime :: "int \<Rightarrow> tm"
  cal_mktime :: "tm \<Rightarrow> int"

type_synonym name_calc = "string \<Rightarrow> tm \<Rightarrow> string"

record timed_sink = file_helper +
  ts_base :: string
  ts_rotation_tp :: int
  ts_truncate :: bool
  ts_max_files :: nat            \<comment> \<open>\<open>uint16_t\<close>\<close>
  ts_filenames :: "string circular_q"
  ts_clock :: "nat \<Rightarrow> int"
  ts_ticks :: nat

record daily_sink = timed_sink +
  rotation_h :: int
  rotation_m :: int

record hourly_sink = timed_sink +
  remove_init_file :: bool

definition ts_now :: "('x timed_sink_scheme, int) io" where
  "ts_now s = (Inr (ts_clock s (ts_ticks s)), s\<lparr>ts_ticks := Suc (ts_ticks s)\<rparr>)"

definition now_tm :: "calendar \<Rightarrow> int \<Rightarrow> tm" where
  "now_tm cal tp = cal_localtime cal (duration_cast 1000000000 tp)"

definition from_time_t :: "int \<Rightarrow> int" where
  "from_time_t t = t * 1000000000"

definition hours :: "int \<Rightarrow> int" where
  "hours n = n * 3600 * 1000000000"

section \<open>File names\<close>

text \<open>A field of fmt with width \<open>w\<close> and zero fill.\<close>

definition zero_field :: "nat \<Rightarrow> int \<Rightarrow> string" where
  "zero_field w x = (if x < 0 then ''-'' @ zero_pad (w - 1) (nat (- x)) else zero_pad w (nat x))"

definition date_text :: "tm \<Rightarrow> string" where
  "date_text t = zero_field 4 (tm_year t + 1900) @ ''-'' @ zero_field 2 (tm_mon t + 1) @ ''-''
     @ zero_field 2 (tm_mday t)"

definition daily_calc_filename :: name_calc where
  "daily_calc_filename fname t =
     (case split_by_extension fname of (stem, ext) \<Rightarrow> stem @ ''_'' @ date_text t @ ext)"

definition hourly_calc_filename :: name_calc where
  "hourly_calc_filename fname t =
     (case split_by_extension fname of (stem, ext) \<Rightarrow>
        stem @ ''_'' @ date_text t @ ''_'' @ zero_field 2 (tm_hour t) @ ext)"

section \<open>The names of the files that are kept\<close>

definition remove_if_exists :: "string \<Rightarrow> ('x file_helper_scheme, bool) io" where
  "remove_if_exists f s = (if path_exists f s then os_remove f s else (Inr True, s))"

definition on_queue :: "(string circular_q \<Rightarrow> fault + 'a) \<Rightarrow> ('x timed_sink_scheme, 'a) io" where
  "on_queue op s =
     (case op (ts_filenames s) of Inl e \<Rightarrow> io_throw ''fault'' s | Inr x \<Rightarrow> (Inr x, s))"

definition push_name :: "string \<Rightarrow> ('x timed_sink_scheme, unit) io" where
  "push_name f = io_bind (on_queue (\<lambda>q. cq_push_back q f)) (\<lambda>q s. (Inr (), s\<lparr>ts_filenames := q\<rparr>))"

fun push_names :: "string list \<Rightarrow> ('x timed_sink_scheme, unit) io" where
  "push_names [] = io_return ()"
| "push_names (f # fs) = io_bind (push_name f) (\<lambda>_. push_names fs)"

text \<open>The files of the last periods, the newest first, up to the first that is missing.\<close>

fun existing_files ::
  "name_calc \<Rightarrow> calendar \<Rightarrow> int \<Rightarrow> nat \<Rightarrow> int \<Rightarrow> 'x timed_sink_scheme \<Rightarrow> string list" where
  "existing_files calc cal period 0 now s = []"
| "existing_files calc cal period (Suc n) now s =
     (let f = calc (ts_base s) (now_tm cal now) in
      if \<not> path_exists f s then [] else f # existing_files calc cal period n (now - period) s)"

definition init_filenames_q ::
  "name_calc \<Rightarrow> calendar \<Rightarrow> int \<Rightarrow> ('x timed_sink_scheme, unit) io" where
  "init_filenames_q calc cal period s =
     io_bind ts_now (\<lambda>now s. push_names (rev (existing_files calc cal period (ts_max_files s) now s)) s)
       (s\<lparr>ts_filenames := cq_new [] (ts_max_files s)\<rparr>)"

definition delete_old :: "string \<Rightarrow> ('x timed_sink_scheme, unit) io" where
  "delete_old what s =
     (let current_file = fh_name s in
      io_bind
        (if cq_full (ts_filenames s)
         then io_bind (on_queue cq_front) (\<lambda>old.
              io_bind (on_queue cq_pop_front) (\<lambda>q s.
              io_bind (remove_if_exists old) (\<lambda>ok.
                if \<not> ok
                then io_bind (push_name current_file) (\<lambda>_. io_throw (''Failed removing '' @ what @ '' file '' @ old))
                else io_return ())
              (s\<lparr>ts_filenames := q\<rparr>)))
         else io_return ())
        (\<lambda>_. push_name current_file) s)"

section \<open>The daily sink\<close>

definition daily_next_rotation_tp :: "calendar \<Rightarrow> (daily_sink, int) io" where
  "daily_next_rotation_tp cal =
     io_bind ts_now (\<lambda>now s.
       let date = (now_tm cal now)\<lparr>tm_hour := rotation_h s, tm_min := rotation_m s, tm_sec := 0\<rparr>;
           rotation_time = from_time_t (cal_mktime cal date) in
       (Inr (if rotation_time > now then rotation_time else rotation_time + hours 24), s))"

definition daily_open_now :: "name_calc \<Rightarrow> calendar \<Rightarrow> int \<Rightarrow> (daily_sink, unit) io" where
  "daily_open_now calc cal time s =
     io_bind (fh_open (calc (ts_base s) (now_tm cal time)) (ts_truncate s)) (\<lambda>_.
     io_bind (daily_next_rotation_tp cal) (\<lambda>tp s. (Inr (), s\<lparr>ts_rotation_tp := tp\<rparr>))) s"

definition daily_sink_new ::
  "name_calc \<Rightarrow> calendar \<Rightarrow> string \<Rightarrow> int \<Rightarrow> int \<Rightarrow> bool \<Rightarrow> nat \<Rightarrow> (daily_sink, unit) io" where
  "daily_sink_new calc cal base_filename rotation_hour rotation_minute trunc maxf s =
     (let s = s\<lparr>fd := None, fh_name := [], ts_base := base_filename, rotation_h := rotation_hour,
               rotation_m := rotation_minute, ts_truncate := trunc, ts_max_files := maxf,
               ts_filenames := cq_disabled\<rparr> in
      if rotation_hour < 0 \<or> rotation_hour > 23 \<or> rotation_minute < 0 \<or> rotation_minute > 59
      then io_throw ''daily_file_sink: Invalid rotation time in ctor'' s
      else
        io_bind ts_now (\<lambda>now.
        io_bind (daily_open_now calc cal now) (\<lambda>_ s.
        if ts_max_files s > 0 then init_filenames_q calc cal (hours 24) s else (Inr (), s))) s)"

definition daily_sink_it :: "name_calc \<Rightarrow> calendar \<Rightarrow> int \<Rightarrow> string \<Rightarrow> (daily_sink, unit) io" where
  "daily_sink_it calc cal time formatted s =
     (let should_rotate = (time \<ge> ts_rotation_tp s) in
      io_bind (if should_rotate then daily_open_now calc cal time else io_return ()) (\<lambda>_.
      io_bind (fh_write formatted) (\<lambda>_ s.
      if should_rotate \<and> ts_max_files s > 0 then delete_old ''daily'' s else (Inr (), s))) s)"

section \<open>The hourly sink\<close>

definition hourly_next_rotation_tp :: "calendar \<Rightarrow> (hourly_sink, int) io" where
  "hourly_next_rotation_tp cal =
     io_bind ts_now (\<lambda>now s.
       let date = (now_tm cal now)\<lparr>tm_min := 0, tm_sec := 0\<rparr>;
           rotation_time = from_time_t (cal_mktime cal date) in
       (Inr (if rotation_time > now then rotation_time else rotation_time + hours 1), s))"

definition hourly_set_tp :: "calendar \<Rightarrow> (hourly_sink, unit) io" where
  "hourly_set_tp cal = io_bind (hourly_next_rotation_tp cal) (\<lambda>tp s. (Inr (), s\<lparr>ts_rotation_tp := tp\<rparr>))"

definition hourly_init_filenames_q :: "name_calc \<Rightarrow> calendar \<Rightarrow> (hourly_sink, unit) io" where
  "hourly_init_filenames_q calc cal = init_filenames_q calc cal (hours 1)"

definition hourly_delete_old :: "(hourly_sink, unit) io" where
  "hourly_delete_old = delete_old ''hourly''"

definition hourly_sink_new ::
  "name_calc \<Rightarrow> calendar \<Rightarrow> string \<Rightarrow> bool \<Rightarrow> nat \<Rightarrow> (hourly_sink, unit) io" where
  "hourly_sink_new calc cal base_filename trunc maxf s =
     io_bind ts_now (\<lambda>now s.
     io_bind (fh_open (calc (ts_base s) (now_tm cal now)) (ts_truncate s)) (\<lambda>_.
     io_bind fh_size (\<lambda>size.
     io_bind (\<lambda>s. (Inr (), s\<lparr>remove_init_file := (size = 0)\<rparr>)) (\<lambda>_.
     io_bind (hourly_set_tp cal) (\<lambda>_ s.
     if ts_max_files s > 0 then hourly_init_filenames_q calc cal s else (Inr (), s))))) s)
     (s\<lparr>fd := None, fh_name := [], ts_base := base_filename, ts_truncate := trunc,
        ts_max_files := maxf, ts_filenames := cq_disabled\<rparr>)"

definition hourly_rotate :: "name_calc \<Rightarrow> calendar \<Rightarrow> int \<Rightarrow> (hourly_sink, unit) io" where
  "hourly_rotate calc cal time s =
     io_bind
       (if remove_init_file s
        then io_bind fh_close (\<lambda>_ s. io_bind (os_remove (fh_name s)) (\<lambda>_. io_return ()) s)
        else io_return ()) (\<lambda>_ s.
     io_bind (fh_open (calc (ts_base s) (now_tm cal time)) (ts_truncate s)) (\<lambda>_. hourly_set_tp cal) s) s"

definition hourly_sink_it :: "name_calc \<Rightarrow> calendar \<Rightarrow> int \<Rightarrow> string \<Rightarrow> (hourly_sink, unit) io" where
  "hourly_sink_it calc cal time formatted s =
     (let should_rotate = (time \<ge> ts_rotation_tp s) in
      io_bind (if should_rotate then hourly_rotate calc cal time else io_return ()) (\<lambda>_ s.
      io_bind (fh_write formatted) (\<lambda>_ s.
      if should_rotate \<and> ts_max_files s > 0 then hourly_delete_old s else (Inr (), s))
      (s\<lparr>remove_init_file := False\<rparr>)) s)"

section \<open>The files that are kept\<close>

text \<open>
  Deleting when no system call fails: the queue of names loses its oldest entry when it is full,
  and the file of that name is removed. The name of the current file comes last.
\<close>

lemma push_name_law:
  assumes "cq_ok (ts_filenames s)"
  obtains q where "push_name f s = (Inr (), s\<lparr>ts_filenames := q\<rparr>)" and "cq_ok q"
    and "cq_capacity q = cq_capacity (ts_filenames s)"
    and "cq_contents q = keep_last (cq_capacity q) (cq_contents (ts_filenames s) @ [f])"
  using cq_push_back_law [OF assms, of f]
  by (auto simp: push_name_def on_queue_def io_bind_def)

definition names_ok :: "'x timed_sink_scheme \<Rightarrow> bool" where
  "names_ok s = (cq_ok (ts_filenames s) \<and> 0 < ts_max_files s
     \<and> cq_capacity (ts_filenames s) = ts_max_files s)"

lemma remove_if_exists_reliable:
  assumes "reliable s"
  obtains n where "remove_if_exists f s = (Inr True, s\<lparr>files := (files s)(f := None), calls := n\<rparr>)"
proof (cases "files s f")
  case None
  then have "(files s)(f := None) = files s" by auto
  then have "remove_if_exists f s = (Inr True, s\<lparr>files := (files s)(f := None), calls := calls s\<rparr>)"
    using None by (simp add: remove_if_exists_def path_exists_def)
  then show thesis by (rule that)
next
  case (Some c)
  then show thesis using assms
    by (intro that [of "Suc (calls s)"])
      (simp add: remove_if_exists_def os_remove_def io_defs)
qed

lemma delete_old_keeps_last:
  fixes s :: "'x timed_sink_scheme"
  assumes "reliable s" and "names_ok s"
  defines "old \<equiv> cq_contents (ts_filenames s)"
  obtains q n where "cq_ok q" and "cq_capacity q = ts_max_files s"
    and "cq_contents q = keep_last (ts_max_files s) (old @ [fh_name s])"
    and "delete_old what s = (Inr (), s\<lparr>files := (if length old = ts_max_files s
           then (files s)(hd old := None) else files s), calls := n, ts_filenames := q\<rparr>)"
proof -
  have q: "cq_ok (ts_filenames s)" "max_items (ts_filenames s) \<noteq> 0"
    "cq_capacity (ts_filenames s) = ts_max_files s" "0 < ts_max_files s"
    using assms(2) by (auto simp: names_ok_def cq_capacity_def)
  have full: "cq_full (ts_filenames s) \<longleftrightarrow> length old = ts_max_files s"
    using cq_full_iff [OF q(1,2)] q(3) by (simp add: old_def)
  show thesis
  proof (cases "length old = ts_max_files s")
    case False
    obtain q' where "push_name (fh_name s) s = (Inr (), s\<lparr>ts_filenames := q'\<rparr>)" "cq_ok q'"
        "cq_capacity q' = ts_max_files s" "cq_contents q' = keep_last (ts_max_files s) (old @ [fh_name s])"
      using push_name_law [OF q(1)] q(3) unfolding old_def by metis
    then show thesis using False full
      by (intro that [of q' "calls s"]) (simp_all add: delete_old_def io_bind_def)
  next
    case True
    then have "old \<noteq> []" using q(4) by auto
    then obtain q1 where q1: "cq_front (ts_filenames s) = Inr (hd old)"
        "cq_pop_front (ts_filenames s) = Inr q1" "cq_ok q1" "cq_capacity q1 = ts_max_files s"
        "cq_contents q1 = tl old"
      using cq.front_law [OF q(1)] cq.pop_law [OF q(1)] q(3) unfolding old_def by auto
    let ?s = "s\<lparr>ts_filenames := q1\<rparr>"
    have "reliable ?s" using assms(1) by (simp add: reliable_def)
    then obtain n where rm: "remove_if_exists (hd old) ?s
        = (Inr True, ?s\<lparr>files := (files s)(hd old := None), calls := n\<rparr>)" (is "_ = (_, ?t)")
      by (rule remove_if_exists_reliable [where f = "hd old"]) simp
    have "cq_ok (ts_filenames ?t)" using q1(3) by simp
    then obtain q' where "push_name (fh_name s) ?t = (Inr (), ?t\<lparr>ts_filenames := q'\<rparr>)" "cq_ok q'"
        "cq_capacity q' = ts_max_files s" "cq_contents q' = keep_last (ts_max_files s) (tl old @ [fh_name s])"
      using push_name_law [of ?t "fh_name s"] q1(4,5) by auto
    moreover have "keep_last (ts_max_files s) (tl old @ [fh_name s])
        = keep_last (ts_max_files s) (old @ [fh_name s])"
      using True q(4) by (cases old) (simp_all add: keep_last_def)
    ultimately show thesis using True full rm q1(1,2)
      by (intro that [of q' n]) (simp_all add: delete_old_def io_bind_def on_queue_def)
  qed
qed


text \<open>A rotation of the daily sink, with the message that caused it.\<close>

lemma daily_next_in_future:
  assumes "ts_clock s (ts_ticks s) = now"
    and "now < from_time_t (cal_mktime cal ((now_tm cal now)
      \<lparr>tm_hour := rotation_h s, tm_min := rotation_m s, tm_sec := 0\<rparr>)) + hours 24"
  obtains tp where "daily_next_rotation_tp cal s = (Inr tp, s\<lparr>ts_ticks := Suc (ts_ticks s)\<rparr>)" and "now < tp"
  using assms by (auto simp: daily_next_rotation_tp_def ts_now_def io_bind_def Let_def)

lemma daily_without_rotation:
  assumes "time < ts_rotation_tp s"
  shows "daily_sink_it calc cal time formatted s = fh_write formatted s"
  using assms by (simp add: daily_sink_it_def Let_def io_bind_def split: prod.split sum.split)

lemma invalid_rotation_time:
  assumes "h < 0 \<or> h > 23 \<or> m < 0 \<or> m > 59"
  shows "fst (daily_sink_new calc cal f h m trunc maxf s)
    = Inl ''daily_file_sink: Invalid rotation time in ctor''"
  using assms by (auto simp: daily_sink_new_def Let_def)

lemma close_reliable:
  assumes "reliable s" and "fd s = Some p"
  shows "fh_close s = (Inr (), s\<lparr>files := (files s)(fh_name s := Some (content (fh_name s) s @ p)),
    calls := Suc (calls s), events := events s @ [Before_close (fh_name s), After_close (fh_name s)], fd := None\<rparr>)"
  using assms by (simp add: fh_close_def io_defs)

text \<open>
  What one rotation does to the files when no system call fails: the text of the old file is
  complete, the new file is open and holds the message, and the oldest file is gone.
\<close>

lemma daily_rotation:
  fixes s :: daily_sink and calc :: name_calc and cal :: calendar
  assumes "reliable s" and "names_ok s" and fd: "fd s = Some p" and "ts_rotation_tp s \<le> time"
  defines "f \<equiv> calc (ts_base s) (now_tm cal time)" and "old \<equiv> cq_contents (ts_filenames s)"
  defines "closed \<equiv> (files s)(fh_name s := Some (content (fh_name s) s @ p))"
  defines "opened \<equiv> closed(f := Some (if ts_truncate s then [] else case closed f of None \<Rightarrow> [] | Some c \<Rightarrow> c))"
  obtains s' where "daily_sink_it calc cal time formatted s = (Inr (), s')"
    and "fh_name s' = f" and "fd s' = Some formatted"
    and "files s' = (if length old = ts_max_files s then opened(hd old := None) else opened)"
    and "cq_contents (ts_filenames s') = keep_last (ts_max_files s) (old @ [f])"
    and "names_ok s'" and "reliable s'"
proof -
  define s1 where "s1 = s\<lparr>files := closed, calls := Suc (calls s),
    events := events s @ [Before_close (fh_name s), After_close (fh_name s)], fd := None\<rparr>"
  have close: "fh_close s = (Inr (), s1)"
    using close_reliable [OF assms(1) fd] by (simp add: s1_def closed_def)
  have s1: "reliable s1" "fd s1 = None" "files s1 = closed" "ts_filenames s1 = ts_filenames s"
    "ts_max_files s1 = ts_max_files s" "ts_truncate s1 = ts_truncate s"
    using assms(1) by (simp_all add: s1_def reliable_def)
  have closing: "fh_close s1 = (Inr (), s1)" by (simp add: fh_close_def s1(2))
  have "(files s1)(f \<mapsto> if ts_truncate s then [] else content f s1) = opened"
    by (simp add: s1(3) opened_def content_def)
  then obtain ev n where "fh_open f (ts_truncate s) s1 = (Inr (), s1\<lparr>files := opened, calls := n, events := ev,
      fd := Some [], fh_name := f\<rparr>)" (is "_ = (_, ?s2)")
    using open_reliable [OF s1(1,2), of f "ts_truncate s"] by auto
  then have op: "fh_open f (ts_truncate s) s = (Inr (), ?s2)"
    by (simp add: fh_open_def io_bind_def close closing)
  obtain tp where "daily_next_rotation_tp cal ?s2 = (Inr tp, ?s2\<lparr>ts_ticks := Suc (ts_ticks ?s2)\<rparr>)"
    by (simp add: daily_next_rotation_tp_def ts_now_def io_bind_def Let_def)
  then have open_now: "daily_open_now calc cal time s
      = (Inr (), ?s2\<lparr>ts_ticks := Suc (ts_ticks ?s2), ts_rotation_tp := tp\<rparr>)" (is "_ = (_, ?s3)")
    using op by (simp add: daily_open_now_def io_bind_def f_def)
  have s3: "reliable ?s3" using s1(1) by (simp add: reliable_def)
  define s4 where "s4 = ?s3\<lparr>calls := Suc n, fd := Some formatted\<rparr>"
  have wr: "fh_write formatted ?s3 = (Inr (), s4)"
    using s3 by (simp add: fh_write_def io_defs s4_def)
  have s4: "reliable s4" "names_ok s4" "cq_contents (ts_filenames s4) = old" "fh_name s4 = f"
      "ts_max_files s4 = ts_max_files s" "files s4 = opened" "fd s4 = Some formatted"
    using s3 assms(2) by (simp_all add: s4_def names_ok_def s1_def reliable_def old_def)
  have pos: "0 < ts_max_files s" using assms(2) by (simp add: names_ok_def)
  obtain q k where "cq_ok q" "cq_capacity q = ts_max_files s"
      "cq_contents q = keep_last (ts_max_files s) (old @ [f])"
      and del: "delete_old ''daily'' s4 = (Inr (), s4\<lparr>files := (if length old = ts_max_files s
           then opened(hd old := None) else opened), calls := k, ts_filenames := q\<rparr>)" (is "_ = (_, ?s')")
    using delete_old_keeps_last [OF s4(1,2), of "''daily''"] unfolding s4(3-6) by metis
  moreover have "daily_sink_it calc cal time formatted s = (Inr (), ?s')"
    using assms(4) open_now wr del pos s4(5)
    by (simp add: daily_sink_it_def io_bind_def)
  ultimately show thesis using s4 pos
    by (intro that [of ?s']) (simp_all add: names_ok_def reliable_def)
qed


section \<open>A rotation that keeps the name\<close>

text \<open>
  With a rotation time after midnight, a sink that is created before that time of the day rotates
  to a file of the same name. When one file is kept, it is the one that is deleted: the log of the
  day and everything written until the next rotation are lost.
\<close>

lemma same_day_rotation_deletes_open_file:
  fixes s :: daily_sink and calc :: name_calc and cal :: calendar
  assumes "reliable s" and "names_ok s" and "fd s = Some p" and "ts_rotation_tp s \<le> time"
    and one: "ts_max_files s = 1" and old: "cq_contents (ts_filenames s) = [fh_name s]"
    and same: "calc (ts_base s) (now_tm cal time) = fh_name s"
  obtains s' where "daily_sink_it calc cal time formatted s = (Inr (), s')"
    and "fd s' = Some formatted" and "files s' (fh_name s') = None"
  using daily_rotation [OF assms(1-4), where calc = calc and cal = cal and formatted = formatted]
  by (metis (no_types, lifting) one old same length_Cons list.sel(1) list.size(3) One_nat_def fun_upd_same)

definition utc_calendar :: calendar where
  "utc_calendar = \<lparr>
     cal_localtime = (\<lambda>t. tm_zero\<lparr>tm_hour := t div 3600 mod 24, tm_min := t div 60 mod 60,
       tm_sec := t mod 60, tm_mday := t div 86400 + 1, tm_year := 70\<rparr>),
     cal_mktime = (\<lambda>d. (tm_mday d - 1) * 86400 + tm_hour d * 3600 + tm_min d * 60 + tm_sec d)\<rparr>"

definition idle_daily_sink :: "int \<Rightarrow> daily_sink" where
  "idle_daily_sink now = \<lparr>files = (\<lambda>_. None), fails = (\<lambda>_. False), calls = 0, events = [], fd = None,
     fh_name = [], ts_base = [], ts_rotation_tp = 0, ts_truncate = False, ts_max_files = 0,
     ts_filenames = cq_disabled, ts_clock = (\<lambda>_. now), ts_ticks = 0, rotation_h = 0, rotation_m = 0\<rparr>"

lemma name_examples:
  "daily_calc_filename ''day.log'' (cal_localtime utc_calendar 28800) = ''day_1970-01-01.log''"
  "daily_calc_filename ''day.log'' (cal_localtime utc_calendar 43200) = ''day_1970-01-01.log''"
  "daily_calc_filename ''logs/day.txt'' (cal_localtime utc_calendar 86400) = ''logs/day_1970-01-02.txt''"
  "hourly_calc_filename ''day'' (cal_localtime utc_calendar 43200) = ''day_1970-01-01_12''"
  by code_simp+

lemma open_loop_5: "open_loop 5 f False s = io_bind (fopen_append f) (\<lambda>failed.
    if failed then open_loop 4 f False else file_event (After_open f)) s"
proof -
  have Suc: "open_loop 5 f False = open_loop (Suc 4) f False" by simp
  show ?thesis by (simp only: Suc open_loop.simps(2)) (simp add: io_bind_def)
qed

lemma tm_mday_utc: "tm_mday (cal_localtime utc_calendar t) = t div 86400 + 1"
  by (simp add: utc_calendar_def)

lemma mktime_utc: "cal_mktime utc_calendar d = (tm_mday d - 1) * 86400 + tm_hour d * 3600 + tm_min d * 60 + tm_sec d"
  by (simp add: utc_calendar_def)

lemma noon_rotation_example:
  "case daily_sink_new daily_calc_filename utc_calendar ''day.log'' 12 0 False 1 (idle_daily_sink (hours 8)) of
     (r, s) \<Rightarrow> (case daily_sink_it daily_calc_filename utc_calendar (hours 12) ''noon'' s of
       (r', s') \<Rightarrow> r = Inr () \<and> r' = Inr () \<and> fh_name s = ''day_1970-01-01.log''
         \<and> fh_name s' = ''day_1970-01-01.log'' \<and> fd s' = Some ''noon'' \<and> files s' ''day_1970-01-01.log'' = None)"
  by (simp add: daily_sink_new_def daily_sink_it_def daily_open_now_def daily_next_rotation_tp_def
      idle_daily_sink_def ts_now_def now_tm_def from_time_t_def hours_def duration_cast_def c_div_def
      name_examples init_filenames_q_def delete_old_def cq_new_def cq_full_def
      push_name_def on_queue_def cq_push_back_def mem_write_def io_bind_def Let_def fh_open_def open_tries_Suc
      fh_close_def fopen_append_def sys_call_def file_event_def fh_write_def cq_front_def cq_pop_front_def
      at_index_def remove_if_exists_def os_remove_def path_exists_def content_def mktime_utc tm_mday_utc open_loop_5)

text \<open>
  The hourly sink removes the file it started with when nothing was logged to it before the first
  rotation.
\<close>

lemma hourly_removes_unused_file:
  assumes "reliable s" and "remove_init_file s" and "fd s = Some []" and "ts_rotation_tp s \<le> time"
    and "calc (ts_base s) (now_tm cal time) \<noteq> fh_name s" and "ts_max_files s = 0"
  obtains s' where "hourly_sink_it calc cal time formatted s = (Inr (), s')"
    and "files s' (fh_name s) = None" and "fh_name s' = calc (ts_base s) (now_tm cal time)"
    and "fd s' = Some formatted"
proof -
  let ?f = "calc (ts_base s) (now_tm cal time)"
  define s1 where "s1 = s\<lparr>files := (files s)(fh_name s := None), calls := Suc (Suc (calls s)),
    events := events s @ [Before_close (fh_name s), After_close (fh_name s)], fd := None\<rparr>"
  have rm: "io_bind fh_close (\<lambda>_ s. io_bind (os_remove (fh_name s)) (\<lambda>_. io_return ()) s) s = (Inr (), s1)"
    using assms(1) close_reliable [OF assms(1,3)]
    by (simp add: os_remove_def io_defs s1_def)
  have s1: "reliable s1" "fd s1 = None" "ts_base s1 = ts_base s" "ts_max_files s1 = 0"
    "files s1 = (files s)(fh_name s := None)"
    using assms(1,6) by (simp_all add: s1_def reliable_def)
  obtain ev n where op: "fh_open ?f (ts_truncate s1) s1 = (Inr (), s1\<lparr>files := (files s1)(?f := Some
      (if ts_truncate s1 then [] else content ?f s1)), calls := n, events := ev, fd := Some [], fh_name := ?f\<rparr>)"
      (is "_ = (_, ?s2)")
    by (rule open_reliable [OF s1(1,2)])
  obtain tp where "hourly_set_tp cal ?s2 = (Inr (), ?s2\<lparr>ts_ticks := Suc (ts_ticks ?s2), ts_rotation_tp := tp\<rparr>)"
      (is "_ = (_, ?s3)")
    by (simp add: hourly_set_tp_def hourly_next_rotation_tp_def ts_now_def io_bind_def Let_def)
  then have rot: "hourly_rotate calc cal time s = (Inr (), ?s3)"
    using assms(2) rm op s1(3) by (simp add: hourly_rotate_def io_bind_def)
  have "\<not> fails s k" for k using assms(1) by (simp add: reliable_def)
  then have "hourly_sink_it calc cal time formatted s
      = (Inr (), ?s3\<lparr>remove_init_file := False, calls := Suc n, fd := Some formatted\<rparr>)" (is "_ = (_, ?s4)")
    using assms(4) rot s1(4)
    by (simp add: hourly_sink_it_def io_bind_def fh_write_def sys_call_def s1_def)
  moreover have "files ?s4 (fh_name s) = None" using assms(5) s1(5) by simp
  moreover have "fh_name ?s4 = ?f" and "fd ?s4 = Some formatted" by simp_all
  ultimately show thesis by (rule that)
qed

end
