(* ===== verification/Spec2Isabelle.thy ===== *)
theory Spec2Isabelle
  imports Log_Line Fmt_Roundtrip Fmt_Dragon_Shortest Fmt_Dragonbox_Props Fmt_Grouping_Props Fmt_Float_Text Fmt_Utf8_Props Serializer_Props Net_Props Time_Props Task_Props Stringify_Props Rpc_Props Scheduler Service_Props
    Spdlog_Mpmc Spdlog_Pattern_Props Spdlog_Logger Spdlog_File Log_Front Serializer_Types Spdlog_Async Spdlog_Sinks Spdlog_Hex
    Spdlog_Console Spdlog_Timed
begin

text \<open>
  NewRpc is a coroutine framework with remote procedure calls: C++20 coroutines are scheduled on
  worker threads, sleep on a time wheel, call each other like functions, and call functions of
  other processes over TCP. The program keeps its own copy of the logging library spdlog, and of
  fmt inside it, under \<open>src/src/spdlog\<close>. Paths below are relative to \<open>src/src\<close>.

  \<^bold>\<open>How the parts work together.\<close> A \<open>CoroTask\<close> is a handle of a frame; \<open>commit\<close> gives the frame to
  the scheduler, whose worker threads take frames from the shared queue into local ones, resume
  them and destroy or signal them at their end. A frame that awaits \<open>co_sleep\<close> is registered with
  the time service and comes back through the shared queue when its bucket is scanned. A frame that
  awaits \<open>co_rpc\<close> is entered into the map of calls of the network service, its request (package
  header, then the arguments in the wire format of the serializer) is sent to every end point, and
  it is committed again when the responses meet its finish condition or the time is over. The
  server side reads header and body from the byte stream, looks the function up in the table of
  \<open>RPC_REGISTER\<close>, starts it as a root frame with the deserialized arguments, and its end sends the
  result back. All parts log through \<open>INFO_LOG\<close>, which prints its arguments with the program's own
  stringification into a buffer of 1024 characters and formats the line with fmt inside a spdlog
  logger, which passes it to its sinks.

  \<^bold>\<open>Conventions.\<close> (\<open>Prelude\<close>, \<open>Text_Format\<close>.) Machine integers are words or \<open>int\<close> with the wrap-around
  written out (\<open>to_u64\<close>, \<open>to_i64\<close>). What undefined behaviour, a failed assertion, an abort or a thrown
  exception would be in C++ is a value of \<open>fault\<close>; fallible code returns \<open>fault + 'a\<close> and is sequenced
  with \<open>andthen\<close>. Arrays and buffers are read with bounds (\<open>mem_read\<close>, \<open>at_index\<close>). Code under a mutex
  or spin lock is one step; threads are interleavings of such steps. A loop that may not end is a
  \<open>partial_function\<close>, and that it ends is then a theorem.

  \<^bold>\<open>The theories.\<close>
  \<^item> \<open>Serialization\<close> (\<open>mechanism/serialization.hpp\<close>, \<open>mechanism/static_reflection.hpp\<close>,
    \<open>error_define/error_struct.h\<close>): \<open>Serializer<T>\<close>. A C++ type is a description (\<open>ty\<close>), and \<open>serialize\<close>,
    \<open>deserialize\<close> and \<open>get_serialize_size\<close> follow the \<open>if constexpr\<close> chain. \<open>Wire_Format\<close> is the abstract
    format they refine; \<open>Serializer_Props\<close>: refinement, round trip for both byte orders, memory safety
    on untrusted bytes; \<open>Serializer_Types\<close>: what is read has the type. \<open>Error_Define\<close>: error codes.
  \<^item> \<open>Coro_Queue\<close> (\<open>coroutine_framework/queue.h\<close>, \<open>queue.ipp\<close>): the intrusive queue on a heap of frames.
    The locale \<open>fifo\<close> states the contract of a queue, interpreted by the model; here are also the
    exact conditions under which \<open>fetch_nodes\<close> leaves a broken queue.
  \<^item> \<open>Coro_Task\<close> (\<open>task.*\<close>, \<open>local_var.*\<close>, with \<open>Local_Var\<close>): reference counts, handles, promises, calls,
    returns, the end of a root frame. \<open>Task_Props\<close>: calls and returns are a stack, a root frame from
    its creation to its end (waiters are signalled, responses are handed over), and no frame is
    destroyed that a handle or the scheduler still refers to; the lemma \<open>committed_frames_leak\<close> shows
    that a committed frame is never destroyed at all, against the comment of the class.
  \<^item> \<open>Scheduler\<close> (\<open>scheduler.*\<close>): the worker loop as a function and the threads as a step relation; the
    frames are taken in order, each once, and their handles resumed; a stopped worker ends after its
    frames, whose bodies (\<open>root_body\<close>) may suspend any number of times.
  \<^item> \<open>Time_Service\<close> (\<open>time_module/*\<close>): 4096 buckets, registration, scan, drain; \<open>Time_Props\<close>: over any
    sequence of scans nobody is woken early, lost or missed, and the effect of the stale tail that \<open>fetch_nodes\<close> leaves.
  \<^item> \<open>Net_Define\<close> (\<open>net_module/net_define.*\<close>, \<open>rpc_struct.h\<close>): end points, buffers, the package header
    with its bit fields; \<open>Net_Props\<close>.
  \<^item> \<open>Rpc_Action\<close> (\<open>async_action/*\<close>), \<open>Rpc_Mapper\<close> (\<open>rpc_mapper.*\<close>, \<open>rpc_register.h\<close>), \<open>Net_Service\<close>
    (\<open>net_service.*\<close>): the caller, the table of functions, and the connection handler over the bytes
    that arrive, read into arrays of a given size (\<open>read_into\<close>). \<open>Rpc_Props\<close>: what a caller sends, when it is woken, what a timeout gives it.
    \<open>Service_Props\<close>: a request runs the function with the arguments of the caller, a response reaches
    its call, the cut of the stream into pieces does not matter, no bytes break memory safety, and
    which messages abort the process.
  \<^item> \<open>Stringify\<close> (\<open>mechanism/stringification.hpp\<close>) and \<open>Stringify_Props\<close>: bounded printing, exact up to
    truncation without structs; the overflow with structs.
  \<^item> \<open>Log_Front\<close> (\<open>literal.h\<close>, \<open>log/logger.*\<close>) and \<open>Log_Line\<close>: units, the memory dump, the start of the
    logger, \<open>INFO_LOG\<close> with the overload of \<open>log\<close> it calls (\<open>log_call\<close>), and the line it logs when the
    modelled fmt formats it; a text without arguments is logged as it is.
  \<^item> \<open>Spdlog_Common\<close>, \<open>Spdlog_Logger\<close>, \<open>Spdlog_Registry\<close>, \<open>Spdlog_Sinks\<close>, \<open>Spdlog_Console\<close>, \<open>Spdlog_File\<close>,
    \<open>Spdlog_Timed\<close> (\<open>spdlog/common*\<close>, \<open>logger*\<close>, \<open>details/backtracer*\<close>, \<open>details/registry*\<close>, \<open>cfg/*\<close>, \<open>sinks/*\<close>,
    \<open>details/file_helper*\<close>): levels, messages, delivery and flushing, backtrace, registry, the sinks on
    a file system or stream that may fail. \<open>Spdlog_File\<close> states rotation as a list of files of which
    the newest stay.
  \<^item> \<open>Spdlog_Queue\<close>, \<open>Spdlog_Mpmc\<close>, \<open>Spdlog_Async\<close> (\<open>details/circular_q.h\<close>, \<open>mpmc_blocking_q.h\<close>,
    \<open>thread_pool*\<close>, \<open>async_logger*\<close>): the ring (locale \<open>bounded_queue\<close>, interpreted by it), the blocking
    queue under every interleaving, and asynchronous logging as delayed synchronous logging.
  \<^item> \<open>Spdlog_Pattern\<close>, \<open>Spdlog_Flags\<close>, \<open>Spdlog_Fmt\<close>, \<open>Spdlog_Hex\<close> (\<open>pattern_formatter*\<close>, \<open>details/fmt_helper.h\<close>,
    \<open>fmt/bin_to_hex.h\<close>): the compiler of log patterns, its flags, padding and integer output;
    \<open>Spdlog_Pattern_Props\<close>: any pattern formats any message safely, and compiling is the inverse of
    writing a pattern down.
  \<^item> \<open>Fmt_Specs\<close>, \<open>Fmt_Parse\<close>, \<open>Fmt_Format\<close> (\<open>fmt/bundled/base.h\<close>, \<open>format.h\<close>, \<open>format-inl.h\<close>): the packed
    specifiers, the parsers, the packed argument list, \<open>vformat\<close>, and the checker that runs at compile
    time. \<open>Fmt_Write\<close>: padding, integers in every base, characters, strings with escapes, pointers.
    \<open>Fmt_Utf8\<close>, \<open>Fmt_Printable\<close>: decoding and the tables of printable characters. \<open>Fmt_Parse_Props\<close>,
    \<open>Fmt_Write_Props\<close>, \<open>Fmt_Utf8_Props\<close>, \<open>Fmt_Format_Props\<close>, \<open>Fmt_Roundtrip\<close>: no format string makes the
    formatter fault, a checked format string fails only for what the check cannot see or what the writers of floating
    point and localized numbers, parameters that may throw (\<open>io_float\<close>, \<open>io_locale\<close>), report, written
    specifiers are read back exactly, and integers and UTF-8 text come out as specified.
  \<^item> \<open>Fmt_Bigint\<close>, \<open>Fmt_Dragon\<close> (\<open>format.h\<close>, \<open>bigint\<close> and \<open>format_dragon\<close>): big numbers of 32-bit digits and the
    exact digits of a floating point number \<open>f * 2 ^ e\<close>. \<open>Fmt_Bigint_Props\<close>, \<open>Fmt_Bigint_Power\<close>,
    \<open>Fmt_Bigint_Division\<close>: every operation is the one on natural numbers, division ends
    with the quotient, or with the overflow of its \<open>int\<close>.
    \<open>Fmt_Dragon_Props\<close>: a given number of digits is the number rounded half to even;
    \<open>Fmt_Dragon_Shortest\<close>: the shortest digits end and read back as the number.
  \<^item> \<open>Fmt_Uint128\<close>, \<open>Fmt_Dragonbox\<close> (\<open>format.h\<close>, \<open>uint128_fallback\<close> and the wide products;
    \<open>format-inl.h\<close>, namespace \<open>dragonbox\<close>): the shortest digits of a \<open>float\<close> or \<open>double\<close> from a compressed table
    of powers of ten. The portable products agree with those on 128-bit integers;
    \<open>Fmt_Dragonbox_Props\<close>: the divisions by multiplication are divisions, and trailing zeros are
    removed and counted.
  \<^item> \<open>Fmt_Grouping\<close> (\<open>format.h\<close>, \<open>digit_grouping\<close>): integers with separators between groups of digits;
    \<open>Fmt_Grouping_Props\<close>: the separators are where the locale asks for them.
  \<^item> \<open>Fmt_Float\<close> (\<open>format.h\<close>, \<open>write_float\<close>, \<open>format_float\<close>, \<open>format_hexfloat\<close>, \<open>do_write_float\<close>): the text of a
    \<open>float\<close> or \<open>double\<close> given by its bits. \<open>Fmt_Float_Props\<close>: the fixed point multiplications and the
    rounding thresholds of the fast path print exactly rounded digits; \<open>Fmt_Float_Text\<close>: the text reads
    back as the decimal number that is written.

  \<^bold>\<open>Bounds.\<close> Byte vectors are shorter than \<open>2 ^ 63\<close>, the ring has fewer than \<open>2 ^ 62\<close> slots: what a 64-bit
  address space allows. The time wheel has 4096 buckets, \<open>INFO_LOG\<close> 1024 characters, a log file is
  opened five times. Decimal exponents are below \<open>2 ^ 31\<close> and big numbers shorter than \<open>2 ^ 60\<close> digits
  where a sum of products could overflow. An argument list has fewer than \<open>2 ^ 31\<close> arguments, as its length is an \<open>int\<close>.
  No function of the model runs on fuel.

  \<^bold>\<open>Parameters.\<close> The methods of classes with their own serializer or \<open>to_string\<close>, formatters of
  user-defined types, what a locale says about digits, the text of floating point numbers where a
  theory other than \<open>Fmt_Float\<close> prints one (an error is one of its values), the clock and calendar, the process id,
  the calls of the operating system on files and streams (each may fail), the byte streams of
  connections, and the bodies of coroutines are arguments of the definitions that use them.

  \<^bold>\<open>Not modelled.\<close> Sockets, name resolution and the asio executor; the creation of threads and their
  sleeping; of fmt \<open>long double\<close>, wide strings, UTF-16, evaluation at compile time, chrono, ranges,
  colors, printf and compiled formats, which the program does not use; that the table of powers
  gives the first segment and the shortest digits exactly is modelled but not proved; sinks that only pass a text
  on to another system; headers that only forward; the demos and unit tests.
\<close>

end
